(* ===== verification/Prelude.thy ===== *)
theory Prelude
  imports Main "HOL-Library.Word" "HOL-Library.Sublist"
begin

text \<open>
  Shared material of the development: byte strings, the little- and big-endian
  representations of unsigned integers in memory, and the generic list facts the
  component theories use. \<open>bytes\<close> is the C++ \<^verbatim>\<open>std::vector<unsigned char>\<close> (and the
  memory image of a POD object); a 256- or 160-bit hash is a word whose memory image is
  little-endian, as the array \<^verbatim>\<open>pn\<close> of \<^verbatim>\<open>base_uint\<close> is on the platforms the code supports.
\<close>

unbundle bit_operations_syntax

type_synonym byte = "8 word"
type_synonym bytes = "byte list"
type_synonym u16 = "16 word"
type_synonym u32 = "32 word"
type_synonym u64 = "64 word"
type_synonym uint160 = "160 word"
type_synonym uint256 = "256 word"

named_theorems codec_simps \<open>round trips of the byte level encoders\<close>
named_theorems len_simps \<open>lengths of encoded data\<close>

section \<open>Little-endian and big-endian byte strings\<close>

primrec le_bytes :: "nat \<Rightarrow> nat \<Rightarrow> bytes" where
  "le_bytes 0 n = []"
| "le_bytes (Suc k) n = word_of_nat n # le_bytes k (n div 256)"

primrec le_nat :: "bytes \<Rightarrow> nat" where
  "le_nat [] = 0"
| "le_nat (b # bs) = unat b + 256 * le_nat bs"

definition be_bytes :: "nat \<Rightarrow> nat \<Rightarrow> bytes" where
  "be_bytes k n = rev (le_bytes k n)"

definition be_nat :: "bytes \<Rightarrow> nat" where
  "be_nat bs = le_nat (rev bs)"

lemma length_le_bytes [simp, len_simps]: "length (le_bytes k n) = k"
  by (induction k arbitrary: n) simp_all

lemma length_be_bytes [simp, len_simps]: "length (be_bytes k n) = k"
  by (simp add: be_bytes_def)

lemma unat_byte_of_nat [simp]: "unat (word_of_nat n :: byte) = n mod 256"
  by (simp add: unat_of_nat)

lemma unat_byte_lt [simp]: "unat (b :: byte) < 256"
  using unsigned_less [of b, where 'a = nat] by simp

lemma le_nat_le_bytes [codec_simps]: "le_nat (le_bytes k n) = n mod 256 ^ k"
proof (induction k arbitrary: n)
  case 0
  then show ?case by simp
next
  case (Suc k)
  have "n mod 256 ^ Suc k = n mod 256 + 256 * (n div 256 mod 256 ^ k)"
    by (simp add: mod_mult2_eq mult.commute)
  with Suc show ?case by simp
qed

lemma le_nat_less: "le_nat bs < 256 ^ length bs"
proof (induction bs)
  case Nil
  then show ?case by simp
next
  case (Cons b bs)
  have "unat b < 256" by simp
  moreover have "le_nat bs + 1 \<le> 256 ^ length bs" using Cons by simp
  ultimately have "unat b + 256 * le_nat bs < 256 * (256 ^ length bs)" by linarith
  then show ?case by simp
qed

lemma le_bytes_le_nat [codec_simps]: "le_bytes (length bs) (le_nat bs) = bs"
proof (induction bs)
  case Nil
  then show ?case by simp
next
  case (Cons b bs)
  have "(word_of_nat (unat b + 256 * le_nat bs) :: byte) = b"
  proof -
    have "(256 :: byte) = 0" by simp
    then show ?thesis by (simp only: of_nat_add of_nat_mult of_nat_numeral) simp
  qed
  then show ?case using Cons by simp
qed

lemma le_bytes_snoc: "le_bytes (Suc k) n = le_bytes k n @ [word_of_nat (n div 256 ^ k)]"
proof (induction k arbitrary: n)
  case 0
  then show ?case by simp
next
  case (Suc k)
  have "le_bytes (Suc (Suc k)) n = word_of_nat n # le_bytes (Suc k) (n div 256)"
    by (rule le_bytes.simps)
  also have "\<dots> = word_of_nat n # le_bytes k (n div 256) @ [word_of_nat (n div 256 div 256 ^ k)]"
    by (simp only: Suc.IH)
  finally show ?case by (simp add: div_mult2_eq)
qed

lemma le_bytes_mod: "le_bytes k (n mod 256 ^ k) = le_bytes k n"
proof -
  have "le_nat (le_bytes k (n mod 256 ^ k)) = le_nat (le_bytes k n)"
    by (simp add: codec_simps)
  then show ?thesis using le_bytes_le_nat length_le_bytes by metis
qed

lemma le_bytes_2: "le_bytes 2 n = [word_of_nat n, word_of_nat (n div 256)]"
  by (simp add: numeral_2_eq_2)

lemma le_bytes_4: "le_bytes 4 n =
    [word_of_nat n, word_of_nat (n div 256), word_of_nat (n div 65536), word_of_nat (n div 16777216)]"
proof -
  have "(4::nat) = Suc (Suc (Suc (Suc 0)))" by simp
  then show ?thesis by (simp only: le_bytes.simps div_mult2_eq [symmetric]) simp
qed

lemma le_bytes_inj:
  assumes "le_bytes k m = le_bytes k n" "m < 256 ^ k" "n < 256 ^ k"
  shows "m = n"
proof -
  have "le_nat (le_bytes k m) = le_nat (le_bytes k n)" by (simp only: assms(1))
  then show ?thesis by (simp only: le_nat_le_bytes mod_less assms(2,3))
qed

lemma le_bytes_eq_iff: "length bs = k \<Longrightarrow> (le_bytes k n = bs) = (n mod 256 ^ k = le_nat bs)"
proof
  assume "length bs = k" "le_bytes k n = bs"
  then show "n mod 256 ^ k = le_nat bs" using le_nat_le_bytes [of k n] by simp
next
  assume l: "length bs = k" and "n mod 256 ^ k = le_nat bs"
  then have "le_nat (le_bytes k n) = le_nat bs" by (simp only: le_nat_le_bytes)
  moreover have "length (le_bytes k n) = length bs" using l by simp
  ultimately show "le_bytes k n = bs" using le_bytes_le_nat by metis
qed

lemma be_nat_be_bytes [codec_simps]: "be_nat (be_bytes k n) = n mod 256 ^ k"
  by (simp add: be_nat_def be_bytes_def codec_simps)

lemma be_bytes_be_nat [codec_simps]: "be_bytes (length bs) (be_nat bs) = bs"
proof -
  have "le_bytes (length (rev bs)) (le_nat (rev bs)) = rev bs" by (simp only: codec_simps)
  then show ?thesis by (simp add: be_nat_def be_bytes_def)
qed

lemma be_nat_less: "be_nat bs < 256 ^ length bs"
  using le_nat_less [of "rev bs"] by (simp add: be_nat_def)

lemma le_nat_append: "le_nat (xs @ ys) = le_nat xs + 256 ^ length xs * le_nat ys"
  by (induction xs) (simp_all add: algebra_simps)

lemma be_nat_append: "be_nat (xs @ ys) = 256 ^ length ys * be_nat xs + be_nat ys"
  by (simp add: be_nat_def le_nat_append)

lemma be_nat_Nil [simp]: "be_nat [] = 0"
  by (simp add: be_nat_def)

lemma be_nat_Cons: "be_nat (b # bs) = unat b * 256 ^ length bs + be_nat bs"
  using be_nat_append [of "[b]" bs] by (simp add: be_nat_def mult.commute)

section \<open>Memory images of words\<close>

text \<open>\<open>mem w\<close> is the memory image of an integer object, least significant byte first.\<close>

definition mem :: "'a::len word \<Rightarrow> bytes" where
  "mem w = le_bytes (LENGTH('a) div 8) (unat w)"

definition of_mem :: "bytes \<Rightarrow> 'a::len word" where
  "of_mem bs = word_of_nat (le_nat bs)"

lemma length_mem [simp, len_simps]: "length (mem (w :: 'a::len word)) = LENGTH('a) div 8"
  by (simp add: mem_def)

lemma pow_256_div_8: "8 dvd n \<Longrightarrow> (256::nat) ^ (n div 8) = 2 ^ n"
proof -
  assume "8 dvd n"
  then obtain k where "n = 8 * k" by blast
  then show ?thesis by (simp add: power_mult)
qed

lemma of_mem_mem [codec_simps]:
  assumes "8 dvd LENGTH('a::len)"
  shows "(of_mem (mem (w :: 'a word)) :: 'a word) = w"
proof -
  have "unat w < 256 ^ (LENGTH('a) div 8)"
    by (simp add: pow_256_div_8 [OF assms] unsigned_less)
  then show ?thesis by (simp add: of_mem_def mem_def codec_simps)
qed

lemma mem_of_mem [codec_simps]:
  assumes "8 dvd LENGTH('a::len)" "length bs = LENGTH('a) div 8"
  shows "mem (of_mem bs :: 'a word) = bs"
proof -
  have "le_nat bs < 2 ^ LENGTH('a)"
    using le_nat_less [of bs] assms by (simp add: pow_256_div_8)
  then have "unat (word_of_nat (le_nat bs) :: 'a word) = le_nat bs"
    by (simp add: unat_of_nat take_bit_eq_mod)
  then show ?thesis
    unfolding mem_def of_mem_def assms(2) [symmetric] by (simp only: codec_simps)
qed

lemma mem_inj:
  assumes "8 dvd LENGTH('a::len)" "mem (v :: 'a word) = mem w"
  shows "v = w"
proof -
  have "(of_mem (mem v) :: 'a word) = of_mem (mem w)" by (simp only: assms(2))
  then show ?thesis by (simp only: of_mem_mem [OF assms(1)])
qed

section \<open>Lists\<close>

lemma append_eq_same_length:
  "length xs = length ys \<Longrightarrow> (xs @ r = ys @ s) = (xs = ys \<and> r = s)"
  by (rule append_eq_append_conv) simp

lemma butlast_snoc_last: "xs \<noteq> [] \<Longrightarrow> butlast xs @ [last xs] = xs"
  by simp

end
