(* ===== verification/Opcodes.thy ===== *)
theory Opcodes
  imports Prelude
begin

text \<open>
  The script opcodes of \<^verbatim>\<open>script.h\<close> (\<^verbatim>\<open>enum opcodetype\<close>) and their printed names
  (\<^verbatim>\<open>GetOpName\<close> of \<^verbatim>\<open>script.cpp\<close>). An opcode is the byte it is read from: \<^verbatim>\<open>GetOp2\<close> casts
  any byte to \<^verbatim>\<open>opcodetype\<close>, so values outside the enumeration occur, and the code compares
  opcodes by their number. Hence a byte, with the enumerators as constants.
\<close>

type_synonym opcodetype = byte

section \<open>enum opcodetype\<close>

definition OP_0 :: opcodetype where [simp]: "OP_0 = 0x00"

definition OP_FALSE :: opcodetype where [simp]: "OP_FALSE = OP_0"

definition OP_PUSHDATA1 :: opcodetype where [simp]: "OP_PUSHDATA1 = 0x4c"

definition OP_PUSHDATA2 :: opcodetype where [simp]: "OP_PUSHDATA2 = 0x4d"

definition OP_PUSHDATA4 :: opcodetype where [simp]: "OP_PUSHDATA4 = 0x4e"

definition OP_1NEGATE :: opcodetype where [simp]: "OP_1NEGATE = 0x4f"

definition OP_RESERVED :: opcodetype where [simp]: "OP_RESERVED = 0x50"

definition OP_1 :: opcodetype where [simp]: "OP_1 = 0x51"

definition OP_TRUE :: opcodetype where [simp]: "OP_TRUE = OP_1"

definition OP_2 :: opcodetype where [simp]: "OP_2 = 0x52"

definition OP_3 :: opcodetype where [simp]: "OP_3 = 0x53"

definition OP_4 :: opcodetype where [simp]: "OP_4 = 0x54"

definition OP_5 :: opcodetype where [simp]: "OP_5 = 0x55"

definition OP_6 :: opcodetype where [simp]: "OP_6 = 0x56"

definition OP_7 :: opcodetype where [simp]: "OP_7 = 0x57"

definition OP_8 :: opcodetype where [simp]: "OP_8 = 0x58"

definition OP_9 :: opcodetype where [simp]: "OP_9 = 0x59"

definition OP_10 :: opcodetype where [simp]: "OP_10 = 0x5a"

definition OP_11 :: opcodetype where [simp]: "OP_11 = 0x5b"

definition OP_12 :: opcodetype where [simp]: "OP_12 = 0x5c"

definition OP_13 :: opcodetype where [simp]: "OP_13 = 0x5d"

definition OP_14 :: opcodetype where [simp]: "OP_14 = 0x5e"

definition OP_15 :: opcodetype where [simp]: "OP_15 = 0x5f"

definition OP_16 :: opcodetype where [simp]: "OP_16 = 0x60"

definition OP_NOP :: opcodetype where [simp]: "OP_NOP = 0x61"

definition OP_VER :: opcodetype where [simp]: "OP_VER = 0x62"

definition OP_IF :: opcodetype where [simp]: "OP_IF = 0x63"

definition OP_NOTIF :: opcodetype where [simp]: "OP_NOTIF = 0x64"

definition OP_VERIF :: opcodetype where [simp]: "OP_VERIF = 0x65"

definition OP_VERNOTIF :: opcodetype where [simp]: "OP_VERNOTIF = 0x66"

definition OP_ELSE :: opcodetype where [simp]: "OP_ELSE = 0x67"

definition OP_ENDIF :: opcodetype where [simp]: "OP_ENDIF = 0x68"

definition OP_VERIFY :: opcodetype where [simp]: "OP_VERIFY = 0x69"

definition OP_RETURN :: opcodetype where [simp]: "OP_RETURN = 0x6a"

definition OP_TOALTSTACK :: opcodetype where [simp]: "OP_TOALTSTACK = 0x6b"

definition OP_FROMALTSTACK :: opcodetype where [simp]: "OP_FROMALTSTACK = 0x6c"

definition OP_2DROP :: opcodetype where [simp]: "OP_2DROP = 0x6d"

definition OP_2DUP :: opcodetype where [simp]: "OP_2DUP = 0x6e"

definition OP_3DUP :: opcodetype where [simp]: "OP_3DUP = 0x6f"

definition OP_2OVER :: opcodetype where [simp]: "OP_2OVER = 0x70"

definition OP_2ROT :: opcodetype where [simp]: "OP_2ROT = 0x71"

definition OP_2SWAP :: opcodetype where [simp]: "OP_2SWAP = 0x72"

definition OP_IFDUP :: opcodetype where [simp]: "OP_IFDUP = 0x73"

definition OP_DEPTH :: opcodetype where [simp]: "OP_DEPTH = 0x74"

definition OP_DROP :: opcodetype where [simp]: "OP_DROP = 0x75"

definition OP_DUP :: opcodetype where [simp]: "OP_DUP = 0x76"

definition OP_NIP :: opcodetype where [simp]: "OP_NIP = 0x77"

definition OP_OVER :: opcodetype where [simp]: "OP_OVER = 0x78"

definition OP_PICK :: opcodetype where [simp]: "OP_PICK = 0x79"

definition OP_ROLL :: opcodetype where [simp]: "OP_ROLL = 0x7a"

definition OP_ROT :: opcodetype where [simp]: "OP_ROT = 0x7b"

definition OP_SWAP :: opcodetype where [simp]: "OP_SWAP = 0x7c"

definition OP_TUCK :: opcodetype where [simp]: "OP_TUCK = 0x7d"

definition OP_CAT :: opcodetype where [simp]: "OP_CAT = 0x7e"

definition OP_SUBSTR :: opcodetype where [simp]: "OP_SUBSTR = 0x7f"

definition OP_LEFT :: opcodetype where [simp]: "OP_LEFT = 0x80"

definition OP_RIGHT :: opcodetype where [simp]: "OP_RIGHT = 0x81"

definition OP_SIZE :: opcodetype where [simp]: "OP_SIZE = 0x82"

definition OP_INVERT :: opcodetype where [simp]: "OP_INVERT = 0x83"

definition OP_AND :: opcodetype where [simp]: "OP_AND = 0x84"

definition OP_OR :: opcodetype where [simp]: "OP_OR = 0x85"

definition OP_XOR :: opcodetype where [simp]: "OP_XOR = 0x86"

definition OP_EQUAL :: opcodetype where [simp]: "OP_EQUAL = 0x87"

definition OP_EQUALVERIFY :: opcodetype where [simp]: "OP_EQUALVERIFY = 0x88"

definition OP_RESERVED1 :: opcodetype where [simp]: "OP_RESERVED1 = 0x89"

definition OP_RESERVED2 :: opcodetype where [simp]: "OP_RESERVED2 = 0x8a"

definition OP_1ADD :: opcodetype where [simp]: "OP_1ADD = 0x8b"

definition OP_1SUB :: opcodetype where [simp]: "OP_1SUB = 0x8c"

definition OP_2MUL :: opcodetype where [simp]: "OP_2MUL = 0x8d"

definition OP_2DIV :: opcodetype where [simp]: "OP_2DIV = 0x8e"

definition OP_NEGATE :: opcodetype where [simp]: "OP_NEGATE = 0x8f"

definition OP_ABS :: opcodetype where [simp]: "OP_ABS = 0x90"

definition OP_NOT :: opcodetype where [simp]: "OP_NOT = 0x91"

definition OP_0NOTEQUAL :: opcodetype where [simp]: "OP_0NOTEQUAL = 0x92"

definition OP_ADD :: opcodetype where [simp]: "OP_ADD = 0x93"

definition OP_SUB :: opcodetype where [simp]: "OP_SUB = 0x94"

definition OP_MUL :: opcodetype where [simp]: "OP_MUL = 0x95"

definition OP_DIV :: opcodetype where [simp]: "OP_DIV = 0x96"

definition OP_MOD :: opcodetype where [simp]: "OP_MOD = 0x97"

definition OP_LSHIFT :: opcodetype where [simp]: "OP_LSHIFT = 0x98"

definition OP_RSHIFT :: opcodetype where [simp]: "OP_RSHIFT = 0x99"

definition OP_BOOLAND :: opcodetype where [simp]: "OP_BOOLAND = 0x9a"

definition OP_BOOLOR :: opcodetype where [simp]: "OP_BOOLOR = 0x9b"

definition OP_NUMEQUAL :: opcodetype where [simp]: "OP_NUMEQUAL = 0x9c"

definition OP_NUMEQUALVERIFY :: opcodetype where [simp]: "OP_NUMEQUALVERIFY = 0x9d"

definition OP_NUMNOTEQUAL :: opcodetype where [simp]: "OP_NUMNOTEQUAL = 0x9e"

definition OP_LESSTHAN :: opcodetype where [simp]: "OP_LESSTHAN = 0x9f"

definition OP_GREATERTHAN :: opcodetype where [simp]: "OP_GREATERTHAN = 0xa0"

definition OP_LESSTHANOREQUAL :: opcodetype where [simp]: "OP_LESSTHANOREQUAL = 0xa1"

definition OP_GREATERTHANOREQUAL :: opcodetype where [simp]: "OP_GREATERTHANOREQUAL = 0xa2"

definition OP_MIN :: opcodetype where [simp]: "OP_MIN = 0xa3"

definition OP_MAX :: opcodetype where [simp]: "OP_MAX = 0xa4"

definition OP_WITHIN :: opcodetype where [simp]: "OP_WITHIN = 0xa5"

definition OP_RIPEMD160 :: opcodetype where [simp]: "OP_RIPEMD160 = 0xa6"

definition OP_SHA1 :: opcodetype where [simp]: "OP_SHA1 = 0xa7"

definition OP_SHA256 :: opcodetype where [simp]: "OP_SHA256 = 0xa8"

definition OP_HASH160 :: opcodetype where [simp]: "OP_HASH160 = 0xa9"

definition OP_HASH256 :: opcodetype where [simp]: "OP_HASH256 = 0xaa"

definition OP_CODESEPARATOR :: opcodetype where [simp]: "OP_CODESEPARATOR = 0xab"

definition OP_CHECKSIG :: opcodetype where [simp]: "OP_CHECKSIG = 0xac"

definition OP_CHECKSIGVERIFY :: opcodetype where [simp]: "OP_CHECKSIGVERIFY = 0xad"

definition OP_CHECKMULTISIG :: opcodetype where [simp]: "OP_CHECKMULTISIG = 0xae"

definition OP_CHECKMULTISIGVERIFY :: opcodetype where [simp]: "OP_CHECKMULTISIGVERIFY = 0xaf"

definition OP_NOP1 :: opcodetype where [simp]: "OP_NOP1 = 0xb0"

definition OP_NOP2 :: opcodetype where [simp]: "OP_NOP2 = 0xb1"

definition OP_NOP3 :: opcodetype where [simp]: "OP_NOP3 = 0xb2"

definition OP_NOP4 :: opcodetype where [simp]: "OP_NOP4 = 0xb3"

definition OP_NOP5 :: opcodetype where [simp]: "OP_NOP5 = 0xb4"

definition OP_NOP6 :: opcodetype where [simp]: "OP_NOP6 = 0xb5"

definition OP_NOP7 :: opcodetype where [simp]: "OP_NOP7 = 0xb6"

definition OP_NOP8 :: opcodetype where [simp]: "OP_NOP8 = 0xb7"

definition OP_NOP9 :: opcodetype where [simp]: "OP_NOP9 = 0xb8"

definition OP_NOP10 :: opcodetype where [simp]: "OP_NOP10 = 0xb9"

definition OP_CHECKHYBRIDSIG :: opcodetype where [simp]: "OP_CHECKHYBRIDSIG = 0xbc"

definition OP_CHECKHYBRIDSIGVERIFY :: opcodetype where [simp]: "OP_CHECKHYBRIDSIGVERIFY = 0xbd"

definition OP_CHECKMULTIHYBRIDSIG :: opcodetype where [simp]: "OP_CHECKMULTIHYBRIDSIG = 0xbe"

definition OP_HASHHYBRID160 :: opcodetype where [simp]: "OP_HASHHYBRID160 = 0xbf"

definition OP_DUPHYBRID :: opcodetype where [simp]: "OP_DUPHYBRID = 0xca"

definition OP_SMALLINTEGER :: opcodetype where [simp]: "OP_SMALLINTEGER = 0xfa"

definition OP_PUBKEYS :: opcodetype where [simp]: "OP_PUBKEYS = 0xfb"

definition OP_PUBKEYHASH :: opcodetype where [simp]: "OP_PUBKEYHASH = 0xfd"

definition OP_PUBKEY :: opcodetype where [simp]: "OP_PUBKEY = 0xfe"

definition OP_INVALIDOPCODE :: opcodetype where [simp]: "OP_INVALIDOPCODE = 0xff"

section \<open>GetOpName\<close>

definition opNames_push :: "(opcodetype \<times> string) list" where
  "opNames_push = [
    (OP_0, ''0''),
    (OP_PUSHDATA1, ''OP_PUSHDATA1''),
    (OP_PUSHDATA2, ''OP_PUSHDATA2''),
    (OP_PUSHDATA4, ''OP_PUSHDATA4''),
    (OP_1NEGATE, ''-1''),
    (OP_RESERVED, ''OP_RESERVED''),
    (OP_1, ''1''),
    (OP_2, ''2''),
    (OP_3, ''3''),
    (OP_4, ''4''),
    (OP_5, ''5''),
    (OP_6, ''6''),
    (OP_7, ''7''),
    (OP_8, ''8''),
    (OP_9, ''9''),
    (OP_10, ''10''),
    (OP_11, ''11''),
    (OP_12, ''12''),
    (OP_13, ''13''),
    (OP_14, ''14''),
    (OP_15, ''15''),
    (OP_16, ''16'')]"

definition opNames_control :: "(opcodetype \<times> string) list" where
  "opNames_control = [
    (OP_NOP, ''OP_NOP''),
    (OP_VER, ''OP_VER''),
    (OP_IF, ''OP_IF''),
    (OP_NOTIF, ''OP_NOTIF''),
    (OP_VERIF, ''OP_VERIF''),
    (OP_VERNOTIF, ''OP_VERNOTIF''),
    (OP_ELSE, ''OP_ELSE''),
    (OP_ENDIF, ''OP_ENDIF''),
    (OP_VERIFY, ''OP_VERIFY''),
    (OP_RETURN, ''OP_RETURN'')]"

definition opNames_stack :: "(opcodetype \<times> string) list" where
  "opNames_stack = [
    (OP_TOALTSTACK, ''OP_TOALTSTACK''),
    (OP_FROMALTSTACK, ''OP_FROMALTSTACK''),
    (OP_2DROP, ''OP_2DROP''),
    (OP_2DUP, ''OP_2DUP''),
    (OP_3DUP, ''OP_3DUP''),
    (OP_2OVER, ''OP_2OVER''),
    (OP_2ROT, ''OP_2ROT''),
    (OP_2SWAP, ''OP_2SWAP''),
    (OP_IFDUP, ''OP_IFDUP''),
    (OP_DEPTH, ''OP_DEPTH''),
    (OP_DROP, ''OP_DROP''),
    (OP_DUP, ''OP_DUP''),
    (OP_NIP, ''OP_NIP''),
    (OP_OVER, ''OP_OVER''),
    (OP_PICK, ''OP_PICK''),
    (OP_ROLL, ''OP_ROLL''),
    (OP_ROT, ''OP_ROT''),
    (OP_SWAP, ''OP_SWAP''),
    (OP_TUCK, ''OP_TUCK'')]"

definition opNames_splice :: "(opcodetype \<times> string) list" where
  "opNames_splice = [
    (OP_CAT, ''OP_CAT''),
    (OP_SUBSTR, ''OP_SUBSTR''),
    (OP_LEFT, ''OP_LEFT''),
    (OP_RIGHT, ''OP_RIGHT''),
    (OP_SIZE, ''OP_SIZE'')]"

definition opNames_bitlogic :: "(opcodetype \<times> string) list" where
  "opNames_bitlogic = [
    (OP_INVERT, ''OP_INVERT''),
    (OP_AND, ''OP_AND''),
    (OP_OR, ''OP_OR''),
    (OP_XOR, ''OP_XOR''),
    (OP_EQUAL, ''OP_EQUAL''),
    (OP_EQUALVERIFY, ''OP_EQUALVERIFY''),
    (OP_RESERVED1, ''OP_RESERVED1''),
    (OP_RESERVED2, ''OP_RESERVED2'')]"

definition opNames_numeric :: "(opcodetype \<times> string) list" where
  "opNames_numeric = [
    (OP_1ADD, ''OP_1ADD''),
    (OP_1SUB, ''OP_1SUB''),
    (OP_2MUL, ''OP_2MUL''),
    (OP_2DIV, ''OP_2DIV''),
    (OP_NEGATE, ''OP_NEGATE''),
    (OP_ABS, ''OP_ABS''),
    (OP_NOT, ''OP_NOT''),
    (OP_0NOTEQUAL, ''OP_0NOTEQUAL''),
    (OP_ADD, ''OP_ADD''),
    (OP_SUB, ''OP_SUB''),
    (OP_MUL, ''OP_MUL''),
    (OP_DIV, ''OP_DIV''),
    (OP_MOD, ''OP_MOD''),
    (OP_LSHIFT, ''OP_LSHIFT''),
    (OP_RSHIFT, ''OP_RSHIFT''),
    (OP_BOOLAND, ''OP_BOOLAND''),
    (OP_BOOLOR, ''OP_BOOLOR''),
    (OP_NUMEQUAL, ''OP_NUMEQUAL''),
    (OP_NUMEQUALVERIFY, ''OP_NUMEQUALVERIFY''),
    (OP_NUMNOTEQUAL, ''OP_NUMNOTEQUAL''),
    (OP_LESSTHAN, ''OP_LESSTHAN''),
    (OP_GREATERTHAN, ''OP_GREATERTHAN''),
    (OP_LESSTHANOREQUAL, ''OP_LESSTHANOREQUAL''),
    (OP_GREATERTHANOREQUAL, ''OP_GREATERTHANOREQUAL''),
    (OP_MIN, ''OP_MIN''),
    (OP_MAX, ''OP_MAX''),
    (OP_WITHIN, ''OP_WITHIN'')]"

definition opNames_crypto :: "(opcodetype \<times> string) list" where
  "opNames_crypto = [
    (OP_RIPEMD160, ''OP_RIPEMD160''),
    (OP_SHA1, ''OP_SHA1''),
    (OP_SHA256, ''OP_SHA256''),
    (OP_HASH160, ''OP_HASH160''),
    (OP_HASH256, ''OP_HASH256''),
    (OP_CODESEPARATOR, ''OP_CODESEPARATOR''),
    (OP_CHECKSIG, ''OP_CHECKSIG''),
    (OP_CHECKSIGVERIFY, ''OP_CHECKSIGVERIFY''),
    (OP_CHECKMULTISIG, ''OP_CHECKMULTISIG''),
    (OP_CHECKMULTISIGVERIFY, ''OP_CHECKMULTISIGVERIFY'')]"

definition opNames_hybrid :: "(opcodetype \<times> string) list" where
  "opNames_hybrid = [
    (OP_CHECKHYBRIDSIG, ''OP_CHECKHYBRIDSIG''),
    (OP_CHECKHYBRIDSIGVERIFY, ''OP_CHECKHYBRIDSIGVERIFY''),
    (OP_CHECKMULTIHYBRIDSIG, ''OP_CHECKMULTIHYBRIDSIG''),
    (OP_HASHHYBRID160, ''OP_HASHHYBRID160''),
    (OP_DUPHYBRID, ''OP_DUPHYBRID'')]"

definition opNames_expansion :: "(opcodetype \<times> string) list" where
  "opNames_expansion = [
    (OP_NOP1, ''OP_NOP1''),
    (OP_NOP2, ''OP_NOP2''),
    (OP_NOP3, ''OP_NOP3''),
    (OP_NOP4, ''OP_NOP4''),
    (OP_NOP5, ''OP_NOP5''),
    (OP_NOP6, ''OP_NOP6''),
    (OP_NOP7, ''OP_NOP7''),
    (OP_NOP8, ''OP_NOP8''),
    (OP_NOP9, ''OP_NOP9''),
    (OP_NOP10, ''OP_NOP10'')]"

definition opNames_template :: "(opcodetype \<times> string) list" where
  "opNames_template = [
    (OP_PUBKEYHASH, ''OP_PUBKEYHASH''),
    (OP_PUBKEY, ''OP_PUBKEY''),
    (OP_INVALIDOPCODE, ''OP_INVALIDOPCODE'')]"

definition opNames :: "(opcodetype \<times> string) list" where
  "opNames = opNames_push @
     opNames_control @
     opNames_stack @
     opNames_splice @
     opNames_bitlogic @
     opNames_numeric @
     opNames_crypto @
     opNames_hybrid @
     opNames_expansion @
     opNames_template"

definition GetOpName :: "opcodetype \<Rightarrow> string" where
  "GetOpName opcode =
     (case map_of opNames opcode of Some s \<Rightarrow> s | None \<Rightarrow> ''OP_UNKNOWN'')"

lemmas opNames_defs = opNames_def opNames_push_def opNames_control_def opNames_stack_def opNames_splice_def opNames_bitlogic_def opNames_numeric_def opNames_crypto_def opNames_hybrid_def opNames_expansion_def opNames_template_def

text \<open>No two opcodes print alike.\<close>

lemma opNames_distinct_snd: "distinct (map snd opNames)"
  by (simp add: opNames_defs)

lemma GetOpName_inj:
  assumes "GetOpName a = GetOpName b" "GetOpName a \<noteq> ''OP_UNKNOWN''"
  shows "a = b"
proof -
  have mem: "(x, GetOpName x) \<in> set opNames" if "GetOpName x \<noteq> ''OP_UNKNOWN''" for x
    using that by (auto simp: GetOpName_def split: option.splits dest: map_of_SomeD)
  from assms have "(a, GetOpName a) \<in> set opNames" "(b, GetOpName a) \<in> set opNames"
    using mem [of a] mem [of b] by simp_all
  moreover have "inj_on snd (set opNames)"
    using opNames_distinct_snd by (simp add: distinct_map)
  ultimately have "(a, GetOpName a) = (b, GetOpName a)"
    by (rule_tac inj_onD [where f = snd]) simp_all
  then show ?thesis by simp
qed

end
