(* ===== verification/BigNum.thy ===== *)
theory BigNum
  imports Opcodes
begin

text \<open>
  \<^verbatim>\<open>bignum.h\<close>: the class \<^verbatim>\<open>CBigNum\<close> over OpenSSL's BIGNUM, and the two script number casts of
  \<^verbatim>\<open>script.cpp\<close>. A BIGNUM denotes an integer; \<^verbatim>\<open>BN_add\<close>, \<^verbatim>\<open>BN_sub\<close>, \<^verbatim>\<open>BN_mul\<close> and \<^verbatim>\<open>BN_cmp\<close> are the
  integer operations. The conversions of OpenSSL the class is built on (\<^verbatim>\<open>BN_bn2mpi\<close>,
  \<^verbatim>\<open>BN_mpi2bn\<close>, \<^verbatim>\<open>BN_get_word\<close>, \<^verbatim>\<open>BN_div\<close>) are parameters, the fields of \<open>bnlib\<close>;
  \<open>bn_laws\<close> states what their manual pages document, \<open>bn_ref\<close> is an instance of it.
\<close>

type_synonym CBigNum = int
type_synonym valtype = bytes

record bnlib =
  BN_bn2mpi :: "CBigNum \<Rightarrow> bytes"
  BN_mpi2bn :: "bytes \<Rightarrow> CBigNum"
  BN_get_word :: "CBigNum \<Rightarrow> u64"
  BN_div :: "CBigNum \<Rightarrow> CBigNum \<Rightarrow> CBigNum"

section \<open>The documented MPI format\<close>

text \<open>
  A 4 byte big-endian length, then the magnitude in big-endian form without superfluous
  leading bytes; the most significant bit of the first byte is the sign, so a zero byte is
  put in front of a magnitude whose own top bit is set.
\<close>

fun min_le :: "nat \<Rightarrow> bytes" where
  "min_le n = (if n = 0 then [] else word_of_nat n # min_le (n div 256))"

declare min_le.simps [simp del]

definition mpi_sign :: "bool \<Rightarrow> bytes \<Rightarrow> bytes" where
  "mpi_sign neg mag = (case mag of [] \<Rightarrow> []
     | b # bs \<Rightarrow> if 0x80 \<le> b then (if neg then 0x80 else 0) # b # bs
                else (if neg then b + 0x80 else b) # bs)"

definition mpi_body :: "int \<Rightarrow> bytes" where
  "mpi_body n = mpi_sign (n < 0) (rev (min_le (nat \<bar>n\<bar>)))"

definition mpi_value :: "bytes \<Rightarrow> int" where
  "mpi_value bs = (case bs of [] \<Rightarrow> 0
     | b # r \<Rightarrow> if 0x80 \<le> b then - int (be_nat ((b - 0x80) # r)) else int (be_nat (b # r)))"

definition mpi_frame :: "bytes \<Rightarrow> bytes" where
  "mpi_frame bs = be_bytes 4 (length bs) @ bs"

definition bn_laws :: "bnlib \<Rightarrow> bool" where
  "bn_laws B \<longleftrightarrow>
     (\<forall>n. length (mpi_body n) < 2 ^ 31 \<longrightarrow> BN_bn2mpi B n = mpi_frame (mpi_body n)) \<and>
     (\<forall>bs. length bs < 2 ^ 31 \<longrightarrow> BN_mpi2bn B (mpi_frame bs) = mpi_value bs) \<and>
     (\<forall>n. BN_get_word B n = (if \<bar>n\<bar> < 2 ^ 64 then word_of_int \<bar>n\<bar> else - 1)) \<and>
     (\<forall>a b. b \<noteq> 0 \<longrightarrow> BN_div B a b = sgn a * sgn b * (\<bar>a\<bar> div \<bar>b\<bar>))"

definition bn_ref :: bnlib where
  "bn_ref = \<lparr>BN_bn2mpi = (\<lambda>n. mpi_frame (mpi_body n)),
             BN_mpi2bn = (\<lambda>bs. mpi_value (drop 4 bs)),
             BN_get_word = (\<lambda>n. if \<bar>n\<bar> < 2 ^ 64 then word_of_int \<bar>n\<bar> else - 1),
             BN_div = (\<lambda>a b. sgn a * sgn b * (\<bar>a\<bar> div \<bar>b\<bar>))\<rparr>"

lemma bn_ref_laws: "bn_laws bn_ref"
  by (simp add: bn_laws_def bn_ref_def mpi_frame_def)

section \<open>CBigNum\<close>

definition getint :: "bnlib \<Rightarrow> CBigNum \<Rightarrow> int" where
  "getint B bn =
     (let n = (ucast (BN_get_word B bn) :: u32) in
      if \<not> bn < 0 then (if unat n > 2 ^ 31 - 1 then 2 ^ 31 - 1 else uint n)
      else (if unat n > 2 ^ 31 - 1 then - (2 ^ 31) else - uint n))"

text \<open>
  \<^verbatim>\<open>setint64\<close> and its relatives build the MPI string byte by byte: the loop over the eight
  bytes, most significant first, skipping the leading zero bytes.
\<close>

fun setint64_loop :: "nat \<Rightarrow> bool \<Rightarrow> bool \<Rightarrow> u64 \<Rightarrow> bytes" where
  "setint64_loop 0 fNegative fLeadingZeroes n = []"
| "setint64_loop (Suc i) fNegative fLeadingZeroes n =
     (let c = (ucast (drop_bit 56 n AND 0xff) :: byte); n' = push_bit 8 n in
      if fLeadingZeroes then
        if c = 0 then setint64_loop i fNegative True n'
        else if c AND 0x80 \<noteq> 0
          then (if fNegative then 0x80 else 0) # c # setint64_loop i fNegative False n'
          else (if fNegative then c OR 0x80 else c) # setint64_loop i fNegative False n'
      else c # setint64_loop i fNegative False n')"

definition setint64 :: "bnlib \<Rightarrow> u64 \<Rightarrow> CBigNum" where
  "setint64 B sn =
     (let fNegative = sint sn < 0;
          n = (if fNegative then - (sn + 1) + 1 else sn);
          p = setint64_loop 8 fNegative True n
      in BN_mpi2bn B (be_bytes 4 (length p) @ p))"

definition setuint64 :: "bnlib \<Rightarrow> u64 \<Rightarrow> CBigNum" where
  "setuint64 B n =
     (let p = setint64_loop 8 False True n in BN_mpi2bn B (be_bytes 4 (length p) @ p))"

fun setuint256_loop :: "bool \<Rightarrow> bytes \<Rightarrow> bytes" where
  "setuint256_loop fLeadingZeroes [] = []"
| "setuint256_loop fLeadingZeroes (c # psrc) =
     (if fLeadingZeroes then
        if c = 0 then setuint256_loop True psrc
        else if c AND 0x80 \<noteq> 0 then 0 # c # setuint256_loop False psrc
        else c # setuint256_loop False psrc
      else c # setuint256_loop False psrc)"

definition setuint256 :: "bnlib \<Rightarrow> uint256 \<Rightarrow> CBigNum" where
  "setuint256 B n =
     (let p = setuint256_loop True (rev (mem n)) in BN_mpi2bn B (be_bytes 4 (length p) @ p))"

definition setvch :: "bnlib \<Rightarrow> valtype \<Rightarrow> CBigNum" where
  "setvch B vch = BN_mpi2bn B (be_bytes 4 (length vch) @ rev vch)"

definition getvch :: "bnlib \<Rightarrow> CBigNum \<Rightarrow> valtype" where
  "getvch B bn = (let vch = BN_bn2mpi B bn in
     if length vch \<le> 4 then [] else rev (drop 4 vch))"

definition SetCompact :: "bnlib \<Rightarrow> u32 \<Rightarrow> CBigNum" where
  "SetCompact B nCompact =
     (let nSize = unat (drop_bit 24 nCompact);
          m = [ucast (drop_bit 16 nCompact AND 0xff), ucast (drop_bit 8 nCompact AND 0xff),
               ucast (nCompact AND 0xff)]
      in BN_mpi2bn B ([0, 0, 0, word_of_nat nSize] @ take nSize (m @ replicate (nSize - 3) 0)))"

definition GetCompact :: "bnlib \<Rightarrow> CBigNum \<Rightarrow> u32" where
  "GetCompact B bn =
     (let vch = BN_bn2mpi B bn;
          nSize = length vch - 4;
          c0 = push_bit 24 (word_of_nat nSize :: u32);
          c1 = (if nSize \<ge> 1 then c0 OR push_bit 16 (ucast (vch ! 4)) else c0);
          c2 = (if nSize \<ge> 2 then c1 OR push_bit 8 (ucast (vch ! 5)) else c1);
          c3 = (if nSize \<ge> 3 then c2 OR ucast (vch ! 6) else c2)
      in c3)"

definition getuint256 :: "bnlib \<Rightarrow> CBigNum \<Rightarrow> uint256" where
  "getuint256 B bn =
     (let vch = BN_bn2mpi B bn in
      if length vch < 4 then 0
      else let body = drop 4 vch;
               body' = (case body of [] \<Rightarrow> [] | b # r \<Rightarrow> (b AND 0x7f) # r)
           in of_mem (take 32 (rev body')))"

section \<open>Script numbers\<close>

definition nMaxNumSize :: nat where
  "nMaxNumSize = 4"

text \<open>\<^verbatim>\<open>CastToBigNum\<close> throws on more than four bytes: \<open>None\<close>.\<close>

definition CastToBigNum :: "bnlib \<Rightarrow> valtype \<Rightarrow> CBigNum option" where
  "CastToBigNum B vch =
     (if length vch > nMaxNumSize then None else Some (setvch B (getvch B (setvch B vch))))"

text \<open>The bytes from index \<open>i\<close> on: true at the first non-zero byte, unless that is the last
  one and a negative zero.\<close>

fun CastToBool :: "valtype \<Rightarrow> bool" where
  "CastToBool [] = False"
| "CastToBool (b # bs) =
     (if b \<noteq> 0 then (if bs = [] \<and> b = 0x80 then False else True) else CastToBool bs)"

definition vchFalse :: valtype where [simp]: "vchFalse = []"

definition vchTrue :: valtype where [simp]: "vchTrue = [1]"

section \<open>The MPI format encodes every integer\<close>

lemma min_le_0 [simp]: "min_le 0 = []"
  by (simp add: min_le.simps)

lemma min_le_pos: "0 < n \<Longrightarrow> min_le n = word_of_nat n # min_le (n div 256)"
  by (subst min_le.simps) simp

lemma le_nat_min_le [simp]: "le_nat (min_le n) = n"
proof (induction n rule: min_le.induct)
  case (1 n)
  then show ?case by (cases "n = 0") (simp_all add: min_le_pos)
qed

lemma min_le_eq_Nil [simp]: "(min_le n = []) = (n = 0)"
  by (subst min_le.simps) simp

lemma min_le_last: "0 < n \<Longrightarrow> last (min_le n) \<noteq> 0"
proof (induction n rule: min_le.induct)
  case (1 n)
  show ?case
  proof (cases "n div 256 = 0")
    case True
    with "1.prems" have "n < 256" by simp
    then have "unat (word_of_nat n :: byte) \<noteq> 0" using "1.prems" by simp
    then have "(word_of_nat n :: byte) \<noteq> 0" by force
    with "1.prems" True show ?thesis by (simp add: min_le_pos)
  next
    case False
    with 1 show ?thesis by (simp add: min_le_pos)
  qed
qed

lemma min_le_length: "n < 256 ^ k \<Longrightarrow> length (min_le n) \<le> k"
proof (induction k arbitrary: n)
  case 0
  then show ?case by simp
next
  case (Suc k)
  then have "n div 256 < 256 ^ k" by (simp add: less_mult_imp_div_less mult.commute)
  then have "length (min_le (n div 256)) \<le> k" by (rule Suc.IH)
  then show ?case by (cases "n = 0") (simp_all add: min_le_pos)
qed

lemma le_bytes_0: "le_bytes k 0 = replicate k 0"
  by (induction k) simp_all

lemma dropWhile_be_bytes:
  "n < 256 ^ k \<Longrightarrow> dropWhile (\<lambda>b. b = 0) (be_bytes k n) = rev (min_le n)"
proof (induction k arbitrary: n)
  case 0
  then show ?case by (simp add: be_bytes_def)
next
  case (Suc k)
  then have "n div 256 < 256 ^ k" by (simp add: less_mult_imp_div_less mult.commute)
  then have IH: "dropWhile (\<lambda>b. b = 0) (rev (le_bytes k (n div 256))) = rev (min_le (n div 256))"
    using Suc.IH by (simp add: be_bytes_def)
  show ?case
  proof (cases "n div 256 = 0")
    case True
    then have "n < 256" by simp
    then have "(word_of_nat n = (0 :: byte)) = (n = 0)"
      by (simp add: word_unat_eq_iff)
    moreover have "dropWhile (\<lambda>b. b = (0::byte)) (replicate k 0 @ [word_of_nat n]) =
        dropWhile (\<lambda>b. b = 0) [word_of_nat n]"
      by (induction k) simp_all
    ultimately show ?thesis
      using True by (cases "n = 0") (auto simp: be_bytes_def le_bytes_0 min_le_pos)
  next
    case False
    then have "dropWhile (\<lambda>b. b = 0) (rev (le_bytes k (n div 256))) \<noteq> []"
      by (simp only: IH rev_is_Nil_conv min_le_eq_Nil not_False_eq_True)
    then obtain x where "x \<in> set (rev (le_bytes k (n div 256)))" "x \<noteq> 0"
      by (auto simp only: dropWhile_eq_Nil_conv)
    then have "dropWhile (\<lambda>b. b = 0) (rev (le_bytes k (n div 256)) @ [word_of_nat n]) =
        dropWhile (\<lambda>b. b = 0) (rev (le_bytes k (n div 256))) @ [word_of_nat n]"
      by (rule dropWhile_append1)
    with False IH show ?thesis by (simp add: be_bytes_def min_le_pos)
  qed
qed

lemma byte_and_80: "((b :: byte) AND 0x80 = 0) = (\<not> 0x80 \<le> b)"
proof -
  have d: "bit b 7 = (0x80 \<le> b)"
  proof -
    have "bit b 7 = bit (unat b) 7" by (simp add: bit_unsigned_iff)
    also have "\<dots> = odd (unat b div 128)" by (simp add: bit_iff_odd)
    also have "\<dots> = (128 \<le> unat b)"
    proof (cases "128 \<le> unat b")
      case True
      then have "unat b div 128 = 1" using unat_byte_lt [of b] by (simp add: div_nat_eqI)
      with True show ?thesis by simp
    next
      case False
      then show ?thesis by simp
    qed
    finally show ?thesis by (simp add: word_le_nat_alt)
  qed
  have "(b AND 2 ^ 7 = 0) = (\<not> bit b 7)" by (rule and_exp_eq_0_iff_not_bit)
  then show ?thesis by (simp add: d)
qed

lemma byte_sign_add:
  assumes "\<not> 0x80 \<le> (b :: byte)"
  shows "0x80 \<le> b + 0x80" "unat b < 128" "b OR 0x80 = b + 0x80"
proof -
  show u: "unat b < 128" using assms by (simp add: word_le_nat_alt)
  have "unat (b + 0x80) = (unat b + 128) mod 256" by (simp add: unat_word_ariths)
  with u have "unat (b + 0x80) = unat b + 128" by simp
  then show "0x80 \<le> b + 0x80" by (simp add: word_le_nat_alt)
  have "b AND 0x80 = 0" using assms by (simp add: byte_and_80)
  then show "b OR 0x80 = b + 0x80" using word_plus_and_or [where x = b and y = "0x80"] by simp
qed

lemma mpi_value_mpi_sign:
  assumes "mag = [] \<or> hd mag \<noteq> 0"
  shows "mpi_value (mpi_sign neg mag) = (if neg then - int (be_nat mag) else int (be_nat mag))"
proof (cases mag)
  case Nil
  then show ?thesis by (simp add: mpi_sign_def mpi_value_def)
next
  case (Cons b bs)
  show ?thesis
  proof (cases "0x80 \<le> b")
    case True
    with Cons show ?thesis by (simp add: mpi_sign_def mpi_value_def be_nat_Cons)
  next
    case False
    with Cons show ?thesis by (simp add: mpi_sign_def mpi_value_def byte_sign_add be_nat_Cons)
  qed
qed

lemma mpi_value_mpi_body [codec_simps]: "mpi_value (mpi_body n) = n"
proof -
  let ?m = "nat \<bar>n\<bar>"
  have "rev (min_le ?m) = [] \<or> hd (rev (min_le ?m)) \<noteq> 0"
    using min_le_last [of ?m] by (auto simp: hd_rev)
  then have "mpi_value (mpi_body n) =
      (if n < 0 then - int (be_nat (rev (min_le ?m))) else int (be_nat (rev (min_le ?m))))"
    unfolding mpi_body_def by (rule mpi_value_mpi_sign)
  then show ?thesis by (simp add: be_nat_def)
qed

lemma mpi_body_0 [simp]: "mpi_body 0 = []"
  by (simp add: mpi_body_def mpi_sign_def)

lemma mpi_body_eq_Nil [simp]: "(mpi_body n = []) = (n = 0)"
proof
  assume "mpi_body n = []"
  then have "mpi_value (mpi_body n) = 0" by (simp add: mpi_value_def)
  then show "n = 0" by (simp add: codec_simps)
qed simp

lemma mpi_sign_length: "length (mpi_sign neg mag) \<le> Suc (length mag)"
  by (auto simp: mpi_sign_def split: list.split)

lemma mpi_body_length:
  assumes "\<bar>n\<bar> < 2 ^ (8 * k + 7)"
  shows "length (mpi_body n) \<le> Suc k"
proof -
  let ?m = "nat \<bar>n\<bar>"
  have m: "?m < 2 ^ (8 * k + 7)" using assms by (simp add: nat_less_iff)
  also have "(2::nat) ^ (8 * k + 7) = 128 * 256 ^ k" by (simp add: power_add power_mult)
  finally have m': "?m < 128 * 256 ^ k" .
  then have "?m < 256 ^ Suc k" by simp
  then have len: "length (min_le ?m) \<le> Suc k" by (rule min_le_length)
  show ?thesis
  proof (cases "length (min_le ?m) = Suc k")
    case False
    then have "length (rev (min_le ?m)) \<le> k" using len by simp
    then show ?thesis
      using mpi_sign_length [of "n < 0" "rev (min_le ?m)"] by (simp add: mpi_body_def)
  next
    case True
    then obtain b bs where b: "rev (min_le ?m) = b # bs" and l: "length bs = k"
      by (metis Suc_length_conv length_rev)
    have "be_nat (b # bs) = ?m" using b by (metis be_nat_def le_nat_min_le rev_rev_ident)
    then have "unat b * 256 ^ k \<le> ?m" using l by (simp add: be_nat_Cons)
    with m' have "unat b * 256 ^ k < 128 * 256 ^ k" by linarith
    then have "unat b < 128" by simp
    then have "\<not> 0x80 \<le> b" by (simp add: word_le_nat_alt)
    with b l show ?thesis by (simp add: mpi_body_def mpi_sign_def)
  qed
qed

lemma mpi_value_bound: "bs \<noteq> [] \<Longrightarrow> \<bar>mpi_value bs\<bar> < 2 ^ (8 * length bs - 1)"
proof (induction bs)
  case Nil
  then show ?case by simp
next
  case (Cons b r)
  have key: "int (be_nat (c # r)) < 2 ^ (8 * length (b # r) - 1)" if "unat c < 128" for c
  proof -
    have "unat c * 256 ^ length r + be_nat r < (unat c + 1) * 256 ^ length r"
      using be_nat_less [of r] by simp
    also have "\<dots> \<le> 128 * 256 ^ length r" using that by (intro mult_right_mono) simp_all
    also have "\<dots> = 2 ^ (8 * length (b # r) - 1)" by (simp add: power_add power_mult)
    finally have "be_nat (c # r) < 2 ^ (8 * length (b # r) - 1)" by (simp add: be_nat_Cons)
    then show ?thesis by (simp flip: of_nat_less_iff)
  qed
  show ?case
  proof (cases "0x80 \<le> b")
    case True
    then have "unat (b - 0x80) = unat b - 128" by (simp add: unat_sub)
    then have "unat (b - 0x80) < 128" using unat_byte_lt [of b] by linarith
    then show ?thesis using key [of "b - 0x80"] True by (simp add: mpi_value_def)
  next
    case False
    then show ?thesis using key [of b] byte_sign_add(2) [OF False] by (simp add: mpi_value_def)
  qed
qed

section \<open>The class over a library that obeys the documentation\<close>

lemma bn_lawsD:
  assumes "bn_laws B"
  shows "length (mpi_body n) < 2 ^ 31 \<Longrightarrow> BN_bn2mpi B n = mpi_frame (mpi_body n)"
    and "length bs < 2 ^ 31 \<Longrightarrow> BN_mpi2bn B (be_bytes 4 (length bs) @ bs) = mpi_value bs"
    and "BN_get_word B n = (if \<bar>n\<bar> < 2 ^ 64 then word_of_int \<bar>n\<bar> else - 1)"
    and "b \<noteq> 0 \<Longrightarrow> BN_div B a b = sgn a * sgn b * (\<bar>a\<bar> div \<bar>b\<bar>)"
  using assms by (simp_all add: bn_laws_def mpi_frame_def)

lemma setvch_eq: "bn_laws B \<Longrightarrow> length v < 2 ^ 31 \<Longrightarrow> setvch B v = mpi_value (rev v)"
  using bn_lawsD(2) [of B "rev v"] by (simp add: setvch_def)

lemma getvch_eq:
  "bn_laws B \<Longrightarrow> length (mpi_body n) < 2 ^ 31 \<Longrightarrow> getvch B n = rev (mpi_body n)"
  using bn_lawsD(1) [of B n] by (simp add: getvch_def mpi_frame_def Let_def)

lemma getvch_0 [simp]: "bn_laws B \<Longrightarrow> getvch B 0 = []"
  by (simp add: getvch_eq)

lemma setvch_getvch:
  "bn_laws B \<Longrightarrow> length (mpi_body n) < 2 ^ 31 \<Longrightarrow> setvch B (getvch B n) = n"
  by (simp add: getvch_eq setvch_eq codec_simps)

lemma CastToBigNum_eq:
  assumes "bn_laws B"
  shows "CastToBigNum B v = (if length v > 4 then None else Some (mpi_value (rev v)))"
proof (cases "length v > 4")
  case True
  then show ?thesis by (simp add: CastToBigNum_def nMaxNumSize_def)
next
  case False
  have "\<bar>mpi_value (rev v)\<bar> < 2 ^ (8 * 3 + 7)"
  proof (cases "v = []")
    case True
    then show ?thesis by (simp add: mpi_value_def)
  next
    case ne: False
    then have "\<bar>mpi_value (rev v)\<bar> < 2 ^ (8 * length v - 1)"
      using mpi_value_bound [of "rev v"] by simp
    also have "\<dots> \<le> 2 ^ (8 * 3 + 7)" using False by (intro power_increasing) simp_all
    finally show ?thesis .
  qed
  then have "length (mpi_body (mpi_value (rev v))) \<le> Suc 3" by (rule mpi_body_length)
  with False assms show ?thesis
    by (simp add: CastToBigNum_def nMaxNumSize_def setvch_eq setvch_getvch)
qed

lemma CastToBigNum_bound:
  assumes "bn_laws B" "CastToBigNum B v = Some n"
  shows "\<bar>n\<bar> < 2 ^ 31"
proof (cases "v = []")
  case True
  with assms show ?thesis by (simp add: CastToBigNum_eq mpi_value_def)
next
  case False
  have n: "n = mpi_value (rev v)" "length v \<le> 4"
    using assms by (simp_all add: CastToBigNum_eq split: if_splits)
  then have "\<bar>n\<bar> < 2 ^ (8 * length v - 1)" using mpi_value_bound [of "rev v"] False by simp
  also have "\<dots> \<le> 2 ^ 31" using n(2) by (intro power_increasing) simp_all
  finally show ?thesis .
qed

lemma length_getvch_le_4:
  assumes "bn_laws B" "\<bar>n\<bar> < 2 ^ 31"
  shows "length (getvch B n) \<le> 4" "getvch B n = rev (mpi_body n)"
proof -
  have "\<bar>n\<bar> < 2 ^ (8 * 3 + 7)" using assms(2) by simp
  then have l: "length (mpi_body n) \<le> Suc 3" by (rule mpi_body_length)
  with assms(1) show "getvch B n = rev (mpi_body n)" by (simp add: getvch_eq)
  with l show "length (getvch B n) \<le> 4" by simp
qed

lemma CastToBigNum_getvch:
  assumes "bn_laws B" "\<bar>n\<bar> < 2 ^ 31"
  shows "CastToBigNum B (getvch B n) = Some n"
  using assms length_getvch_le_4 [OF assms]
  by (simp add: CastToBigNum_eq codec_simps)

lemma getint_small:
  assumes "bn_laws B" "\<bar>n\<bar> < 2 ^ 31"
  shows "getint B n = n"
proof -
  let ?w = "ucast (BN_get_word B n) :: u32"
  have "\<bar>n\<bar> < 2 ^ 64" using assms(2) by simp
  then have "BN_get_word B n = word_of_int \<bar>n\<bar>" using bn_lawsD(3) [OF assms(1)] by simp
  moreover have "uint (ucast (word_of_int \<bar>n\<bar> :: u64) :: u32) = \<bar>n\<bar>"
    using assms(2) by (simp add: unsigned_ucast_eq uint_word_of_int take_bit_eq_mod)
  ultimately have w: "uint ?w = \<bar>n\<bar>" by (simp only:)
  then have "int (unat ?w) = \<bar>n\<bar>" by simp
  then have "int (unat ?w) < int 2147483648" using assms(2) by simp
  then have "unat ?w < 2147483648" by (simp only: of_nat_less_iff)
  then have "\<not> 2 ^ 31 - 1 < unat ?w" by simp
  with w show ?thesis by (simp add: getint_def Let_def)
qed

text \<open>The boolean reading of a stack element is that its number is not zero.\<close>

lemma CastToBool_replicate: "(\<not> CastToBool v) =
    (\<exists>k. v = replicate k 0 \<or> v = replicate k 0 @ [0x80])"
proof (induction v)
  case Nil
  then show ?case by simp
next
  case (Cons b v)
  show ?case
  proof (cases "b = 0")
    case True
    have "(\<exists>k. 0 # v = replicate k 0 \<or> 0 # v = replicate k 0 @ [0x80]) =
        (\<exists>k. v = replicate k 0 \<or> v = replicate k 0 @ [0x80])"
    proof
      assume "\<exists>k. 0 # v = replicate k 0 \<or> 0 # v = replicate k 0 @ [0x80]"
      then obtain k where "0 # v = replicate k 0 \<or> 0 # v = replicate k 0 @ [0x80]" ..
      then show "\<exists>k. v = replicate k 0 \<or> v = replicate k 0 @ [0x80]" by (cases k) auto
    next
      assume "\<exists>k. v = replicate k 0 \<or> v = replicate k 0 @ [0x80]"
      then obtain k where "v = replicate k 0 \<or> v = replicate k 0 @ [0x80]" ..
      then have "0 # v = replicate (Suc k) 0 \<or> 0 # v = replicate (Suc k) 0 @ [0x80]" by auto
      then show "\<exists>k. 0 # v = replicate k 0 \<or> 0 # v = replicate k 0 @ [0x80]" by blast
    qed
    with Cons True show ?thesis by simp
  next
    case False
    have "(\<exists>k. b # v = replicate k 0 \<or> b # v = replicate k 0 @ [0x80]) = (v = [] \<and> b = 0x80)"
    proof
      assume "\<exists>k. b # v = replicate k 0 \<or> b # v = replicate k 0 @ [0x80]"
      then obtain k where "b # v = replicate k 0 \<or> b # v = replicate k 0 @ [0x80]" ..
      then show "v = [] \<and> b = 0x80" using False by (cases k) auto
    next
      assume "v = [] \<and> b = 0x80"
      then have "b # v = replicate 0 0 @ [0x80]" by simp
      then show "\<exists>k. b # v = replicate k 0 \<or> b # v = replicate k 0 @ [0x80]" by blast
    qed
    with False show ?thesis by simp
  qed
qed

lemma be_nat_replicate_0: "be_nat (replicate k 0) = 0"
  by (induction k) (simp_all add: be_nat_Cons)

lemma be_nat_eq_0: "(be_nat bs = 0) = (bs = replicate (length bs) 0)"
proof (induction bs)
  case (Cons b bs)
  have "(unat b * 256 ^ length bs = 0) = (b = 0)" by (simp add: unat_eq_0)
  then show ?case using Cons by (simp add: be_nat_Cons)
qed simp

lemma mpi_value_eq_0:
  "(mpi_value bs = 0) = (\<exists>k. bs = replicate k 0 \<or> bs = 0x80 # replicate k 0)"
proof (cases bs)
  case Nil
  then show ?thesis by (auto simp: mpi_value_def)
next
  case (Cons b r)
  have r: "(\<exists>k. r = replicate k 0) = (r = replicate (length r) 0)" by (metis length_replicate)
  have rhs: "(\<exists>k. bs = replicate k 0 \<or> bs = 0x80 # replicate k 0) =
      ((b = 0 \<or> b = 0x80) \<and> r = replicate (length r) 0)" (is "?L = ?R")
  proof
    assume ?L
    then obtain k where "b # r = replicate k 0 \<or> b # r = 0x80 # replicate k 0" using Cons by auto
    then show ?R by (cases k) auto
  next
    assume R: ?R
    then have "bs = replicate (Suc (length r)) 0 \<or> bs = 0x80 # replicate (length r) 0"
      using Cons by auto
    then show ?L by blast
  qed
  have sub: "b - 0x80 = 0 \<longleftrightarrow> b = 0x80" by auto
  show ?thesis
  proof (cases "0x80 \<le> b")
    case True
    have "(be_nat ((b - 0x80) # r) = 0) = (b - 0x80 = 0 \<and> r = replicate (length r) 0)"
      by (simp add: be_nat_eq_0)
    moreover have "b \<noteq> 0" using True by auto
    ultimately show ?thesis unfolding rhs using True Cons by (simp add: mpi_value_def sub)
  next
    case False
    have "(be_nat (b # r) = 0) = (b = 0 \<and> r = replicate (length r) 0)"
      by (simp add: be_nat_eq_0)
    moreover have "b \<noteq> 0x80" using False by auto
    ultimately show ?thesis unfolding rhs using False Cons by (simp add: mpi_value_def)
  qed
qed

lemma CastToBool_mpi_value: "CastToBool v = (mpi_value (rev v) \<noteq> 0)"
proof -
  have "(\<exists>k. v = replicate k 0 \<or> v = replicate k 0 @ [0x80]) =
      (\<exists>k. rev v = replicate k 0 \<or> rev v = 0x80 # replicate k 0)"
    by (metis rev_replicate rev_rev_ident rev.simps(2))
  then show ?thesis using CastToBool_replicate [of v] by (auto simp: mpi_value_eq_0)
qed

lemma CastToBool_getvch:
  assumes "bn_laws B" "length (mpi_body n) < 2 ^ 31"
  shows "CastToBool (getvch B n) = (n \<noteq> 0)"
  using assms by (simp add: CastToBool_mpi_value getvch_eq codec_simps)

section \<open>The byte loops of the integer conversions\<close>

lemma be_bytes_8: "be_bytes 8 n = word_of_nat (n div 2 ^ 56) # be_bytes 7 n"
  using le_bytes_snoc [of 7 n] by (simp add: be_bytes_def)

lemma be_bytes_8_shift: "be_bytes 8 (256 * n mod 2 ^ 64) = be_bytes 7 n @ [0]"
proof -
  have "le_bytes 8 (256 * n mod 2 ^ 64) = le_bytes 8 (256 * n)"
    using le_bytes_mod [of 8 "256 * n"] by simp
  also have "\<dots> = le_bytes (Suc 7) (256 * n)" by simp
  also have "\<dots> = 0 # le_bytes 7 n"
  proof -
    have "(256 :: byte) = 0" by simp
    then have "(word_of_nat (256 * n) :: byte) = 0"
      by (simp only: of_nat_mult of_nat_numeral mult_zero_left)
    then show ?thesis by (simp only: le_bytes.simps) simp
  qed
  finally show ?thesis by (simp add: be_bytes_def)
qed

lemma u64_top_byte: "(ucast (drop_bit 56 (n :: u64) AND 0xff) :: byte) = word_of_nat (unat n div 2 ^ 56)"
proof -
  have m: "drop_bit 56 n AND 0xff = take_bit 8 (drop_bit 56 n)"
    by (simp add: take_bit_eq_mask mask_eq_exp_minus_1)
  have "unat (take_bit 8 (drop_bit 56 n)) = unat n div 2 ^ 56 mod 256"
    by (simp only: unsigned_take_bit_eq unat_drop_bit_eq drop_bit_eq_div take_bit_eq_mod)
      (simp add: unat_div_distrib unat_mod_distrib)
  then show ?thesis
    by (simp add: m word_unat_eq_iff unsigned_ucast_eq take_bit_eq_mod)
qed

lemma u64_shift_byte: "unat (push_bit 8 (n :: u64)) = 256 * unat n mod 2 ^ 64"
  by (simp add: push_bit_eq_mult unat_word_ariths mult.commute)

lemma u64_step:
  "be_bytes 8 (unat (n :: u64)) = word_of_nat (unat n div 2 ^ 56) # be_bytes 7 (unat n)"
  "be_bytes 8 (unat (push_bit 8 n)) = be_bytes 7 (unat n) @ [0]"
  by (rule be_bytes_8) (simp only: u64_shift_byte be_bytes_8_shift)

lemma take_u64_step:
  "i \<le> 7 \<Longrightarrow> take (Suc i) (be_bytes 8 (unat (n :: u64))) =
     word_of_nat (unat n div 2 ^ 56) # take i (be_bytes 8 (unat (push_bit 8 n)))"
  using u64_step(1) [of n] u64_step(2) [of n] by (simp only: take_Suc_Cons) simp

lemma setint64_loop_tail:
  "i \<le> 8 \<Longrightarrow> setint64_loop i neg False n = take i (be_bytes 8 (unat n))"
proof (induction i arbitrary: n)
  case 0
  then show ?case by simp
next
  case (Suc i)
  then show ?case by (simp add: u64_top_byte take_u64_step Let_def)
qed

lemma setint64_loop_lead:
  "i \<le> 8 \<Longrightarrow>
   setint64_loop i neg True n = mpi_sign neg (dropWhile (\<lambda>b. b = 0) (take i (be_bytes 8 (unat n))))"
proof (induction i arbitrary: n)
  case 0
  then show ?case by (simp add: mpi_sign_def)
next
  case (Suc i)
  let ?c = "word_of_nat (unat n div 2 ^ 56) :: byte"
  show ?case
  proof (cases "?c = 0")
    case True
    with Suc show ?thesis by (simp add: u64_top_byte take_u64_step Let_def)
  next
    case False
    with Suc.prems show ?thesis
      by (simp add: u64_top_byte take_u64_step Let_def mpi_sign_def byte_and_80
          byte_sign_add(3) setint64_loop_tail)
  qed
qed

lemma setint64_loop_mpi:
  "setint64_loop 8 neg True n = mpi_sign neg (rev (min_le (unat n)))"
proof -
  have "unat n < 2 ^ LENGTH(64)" by (rule unsigned_less)
  then have "unat n < 256 ^ 8" by simp
  then show ?thesis by (simp add: setint64_loop_lead dropWhile_be_bytes)
qed

lemma mpi_sign_min_le:
  "mpi_sign (n < 0) (rev (min_le (nat \<bar>n\<bar>))) = mpi_body n"
  by (simp add: mpi_body_def)

lemma mpi_body_length_64: "\<bar>n\<bar> < 2 ^ 64 \<Longrightarrow> length (mpi_body n) < 2 ^ 31"
proof -
  assume "\<bar>n\<bar> < 2 ^ 64"
  then have "\<bar>n\<bar> < 2 ^ (8 * 8 + 7)" by simp
  then show ?thesis using mpi_body_length [of n 8] by simp
qed

lemma setint64_exact:
  assumes "bn_laws B"
  shows "setint64 B sn = sint sn"
proof -
  define n where "n = (if sint sn < 0 then - (sn + 1) + 1 else sn)"
  have n: "n = (if sint sn < 0 then - sn else sn)" by (simp add: n_def)
  have range: "- (2 ^ 63) \<le> sint sn" "sint sn < 2 ^ 63"
    using sint_ge [of sn] sint_lt [of sn] by simp_all
  have u: "unat n = nat \<bar>sint sn\<bar>"
  proof (cases "sint sn < 0")
    case True
    have "uint (- sn) = (- uint sn) mod 2 ^ 64" by (simp add: uint_word_ariths)
    also have "\<dots> = (- sint sn) mod 2 ^ 64"
      by (simp add: uint_sint take_bit_eq_mod mod_minus_eq)
    also have "\<dots> = - sint sn" using True range by (intro mod_pos_pos_trivial) simp_all
    finally show ?thesis using True n by (simp add: unat_eq_nat_uint)
  next
    case False
    then have "uint sn = sint sn" using range by (simp add: uint_sint take_bit_eq_mod)
    then show ?thesis using False n by (simp add: unat_eq_nat_uint)
  qed
  have "length (mpi_body (sint sn)) < 2 ^ 31" using range by (intro mpi_body_length_64) simp
  then show ?thesis
    using bn_lawsD(2) [OF assms, of "mpi_body (sint sn)"]
    by (simp add: setint64_def Let_def setint64_loop_mpi u mpi_sign_min_le codec_simps
        flip: n_def)
qed

lemma setuint256_loop_tail: "setuint256_loop False bs = bs"
  by (induction bs) simp_all

lemma setuint256_loop_mpi:
  "setuint256_loop True bs = mpi_sign False (dropWhile (\<lambda>b. b = 0) bs)"
  by (induction bs) (simp_all add: mpi_sign_def setuint256_loop_tail byte_and_80)

lemma mpi_body_uint: "mpi_body (uint w) = mpi_sign False (rev (min_le (unat (w :: 'a::len word))))"
  by (simp add: mpi_body_def)

lemma mpi_body_length_uint:
  assumes "LENGTH('a::len) \<le> 1024"
  shows "length (mpi_body (uint (w :: 'a word))) < 2 ^ 31"
proof -
  have "uint w < 2 ^ LENGTH('a)" by (rule unsigned_less)
  also have "(2::int) ^ LENGTH('a) \<le> 2 ^ (8 * 128 + 7)" using assms by (intro power_increasing) simp_all
  finally have "\<bar>uint w\<bar> < 2 ^ (8 * 128 + 7)" by simp
  then have "length (mpi_body (uint w)) \<le> Suc 128" by (rule mpi_body_length)
  then show ?thesis by simp
qed

lemma setuint64_exact:
  assumes "bn_laws B"
  shows "setuint64 B n = uint n"
  using bn_lawsD(2) [OF assms, of "mpi_body (uint n)"] mpi_body_length_uint [of n]
  by (simp add: setuint64_def Let_def setint64_loop_mpi codec_simps flip: mpi_body_uint)

lemma setuint256_exact:
  assumes "bn_laws B"
  shows "setuint256 B n = uint n"
proof -
  have "unat n < 2 ^ LENGTH(256)" by (rule unsigned_less)
  then have "unat n < 256 ^ 32" by simp
  then have "dropWhile (\<lambda>b. b = 0) (rev (mem n)) = rev (min_le (unat n))"
    using dropWhile_be_bytes [of "unat n" 32] by (simp add: mem_def be_bytes_def)
  then have "setuint256_loop True (rev (mem n)) = mpi_body (uint n)"
    by (simp add: setuint256_loop_mpi mpi_body_uint)
  then show ?thesis
    using bn_lawsD(2) [OF assms, of "mpi_body (uint n)"] mpi_body_length_uint [of n]
    by (simp add: setuint256_def Let_def codec_simps)
qed

text \<open>\<open>compact_word\<close> lays out a size and three mantissa bytes as \<^verbatim>\<open>nBits\<close> holds them.\<close>

definition compact_word :: "nat \<Rightarrow> byte \<Rightarrow> byte \<Rightarrow> byte \<Rightarrow> u32" where
  "compact_word L a b c = push_bit 24 (word_of_nat L) OR push_bit 16 (ucast a) OR
     push_bit 8 (ucast b) OR ucast c"

lemma and_ff: "(x :: u32) AND 0xff = take_bit 8 x"
  by (simp add: take_bit_eq_mask mask_eq_exp_minus_1)

lemma compact_word_bytes:
  "ucast (drop_bit 16 (compact_word L a b c) AND 0xff) = a"
  "ucast (drop_bit 8 (compact_word L a b c) AND 0xff) = b"
  "ucast (compact_word L a b c AND 0xff) = c"
  unfolding and_ff compact_word_def
  by (rule bit_word_eqI, auto simp: bit_simps dest: bit_imp_le_length)+

lemma compact_word_size:
  assumes "L < 256"
  shows "unat (drop_bit 24 (compact_word L a b c)) = L"
proof -
  have "drop_bit 24 (compact_word L a b c) = (take_bit 8 (word_of_nat L) :: u32)"
    unfolding compact_word_def
    by (rule bit_word_eqI) (auto simp: bit_simps dest: bit_imp_le_length)
  then have "unat (drop_bit 24 (compact_word L a b c)) = take_bit 8 (unat (word_of_nat L :: u32))"
    by (simp only: unsigned_take_bit_eq)
  then show ?thesis using assms by (simp add: unat_of_nat take_bit_eq_mod)
qed
lemma SetCompact_compact_word:
  assumes "bn_laws B" "L < 256"
  shows "SetCompact B (compact_word L a b c) =
    mpi_value (take L ([a, b, c] @ replicate (L - 3) 0))"
proof -
  have h: "0 # 0 # 0 # word_of_nat L # xs = be_bytes 4 L @ xs" for xs
    using assms(2) by (simp add: be_bytes_def le_bytes_4)
  have l: "length (take L ([a, b, c] @ replicate (L - 3) 0)) = L" by simp
  show ?thesis
    using bn_lawsD(2) [OF assms(1), of "take L ([a, b, c] @ replicate (L - 3) 0)"] assms(2)
    by (simp add: SetCompact_def Let_def compact_word_bytes compact_word_size h l del: take_append)
qed

lemma GetCompact_body:
  assumes "bn_laws B" "length (mpi_body n) < 2 ^ 31"
  shows "GetCompact B n = (let bs = mpi_body n; L = length bs in
     compact_word L (if 1 \<le> L then bs ! 0 else 0) (if 2 \<le> L then bs ! 1 else 0)
       (if 3 \<le> L then bs ! 2 else 0))"
  using bn_lawsD(1) [OF assms]
  by (simp add: GetCompact_def Let_def compact_word_def mpi_frame_def nth_append or.assoc)

lemma mpi_value_nonneg:
  assumes "bs = [] \<or> \<not> 0x80 \<le> hd bs"
  shows "mpi_value bs = int (be_nat bs)"
  using assms by (cases bs) (simp_all add: mpi_value_def)

lemma mpi_body_hd: "0 \<le> n \<Longrightarrow> mpi_body n = [] \<or> \<not> 0x80 \<le> hd (mpi_body n)"
  by (auto simp: mpi_body_def mpi_sign_def split: list.splits)

lemma take_pad3:
  "take (length bs) ([if 1 \<le> length bs then bs ! 0 else 0, if 2 \<le> length bs then bs ! 1 else 0,
       if 3 \<le> length bs then bs ! 2 else 0] @ replicate (length bs - 3) 0) =
     take 3 bs @ replicate (length bs - 3) 0"
  by (cases bs; cases "tl bs"; cases "tl (tl bs)") auto

text \<open>The compact form keeps the first three bytes of the MPI body and zeroes the rest.\<close>

lemma SetCompact_GetCompact:
  assumes "bn_laws B" "length (mpi_body n) < 256"
  shows "SetCompact B (GetCompact B n) =
    mpi_value (take 3 (mpi_body n) @ replicate (length (mpi_body n) - 3) 0)"
proof -
  let ?bs = "mpi_body n"
  let ?a = "if 1 \<le> length ?bs then ?bs ! 0 else 0"
  let ?b = "if 2 \<le> length ?bs then ?bs ! 1 else 0"
  let ?c = "if 3 \<le> length ?bs then ?bs ! 2 else 0"
  have "take (length ?bs) ([?a, ?b, ?c] @ replicate (length ?bs - 3) 0) =
      take 3 ?bs @ replicate (length ?bs - 3) 0"
    by (rule take_pad3)
  then show ?thesis
    using assms by (simp add: GetCompact_body SetCompact_compact_word Let_def del: append.simps)
qed

lemma SetCompact_GetCompact_bounds:
  assumes "bn_laws B" "0 \<le> n" "length (mpi_body n) < 256"
  shows "SetCompact B (GetCompact B n) \<le> n"
    and "n - SetCompact B (GetCompact B n) < 256 ^ (length (mpi_body n) - 3)"
proof -
  let ?bs = "mpi_body n" and ?k = "length (mpi_body n) - 3"
  have n: "n = int (be_nat ?bs)"
    using mpi_value_nonneg [OF mpi_body_hd [OF assms(2)]] by (simp add: codec_simps)
  have split: "be_nat ?bs = 256 ^ ?k * be_nat (take 3 ?bs) + be_nat (drop 3 ?bs)"
    using be_nat_append [of "take 3 ?bs" "drop 3 ?bs"] by simp
  have "take 3 ?bs @ replicate ?k 0 = [] \<or> \<not> 0x80 \<le> hd (take 3 ?bs @ replicate ?k 0)"
    using mpi_body_hd [OF assms(2)] by (cases ?bs) simp_all
  then have "mpi_value (take 3 ?bs @ replicate ?k 0) = int (be_nat (take 3 ?bs @ replicate ?k 0))"
    by (rule mpi_value_nonneg)
  then have s: "SetCompact B (GetCompact B n) = int (256 ^ ?k * be_nat (take 3 ?bs))"
    using assms by (simp add: SetCompact_GetCompact be_nat_append be_nat_replicate_0)
  show "SetCompact B (GetCompact B n) \<le> n" by (subst n) (simp only: s split of_nat_add)
  have "be_nat (drop 3 ?bs) < 256 ^ ?k" using be_nat_less [of "drop 3 ?bs"] by simp
  moreover have "n - SetCompact B (GetCompact B n) = int (be_nat (drop 3 ?bs))"
    by (subst (1) n) (simp only: s split of_nat_add)
  ultimately show "n - SetCompact B (GetCompact B n) < 256 ^ ?k"
    by (metis of_nat_less_iff of_nat_numeral of_nat_power)
qed

section \<open>Properties\<close>

text \<open>The byte-by-byte MPI construction of \<^verbatim>\<open>CBigNum::setint64\<close> yields exactly the signed value
  of its 64 bit argument, the minimum included (which has no positive counterpart), and
  \<^verbatim>\<open>setuint64\<close> and \<^verbatim>\<open>setuint256\<close> yield the unsigned one.\<close>

theorem setint_exact:
  assumes "bn_laws B"
  shows "setint64 B sn = sint sn \<and> setuint64 B un = uint un \<and> setuint256 B hn = uint hn"
  using assms by (simp add: setint64_exact setuint64_exact setuint256_exact)

theorem setint_exact_witness:
  "bn_laws bn_ref \<and> setint64 bn_ref 0x8000000000000000 = - 9223372036854775808 \<and>
   setuint64 bn_ref 255 = 255 \<and> setuint256 bn_ref 128 = 128"
  using bn_ref_laws setint_exact [OF bn_ref_laws, of "0x8000000000000000" 255 128] by simp

text \<open>Script numbers: every integer of absolute value below \<open>2^31\<close> survives the round trip
  through a stack element (\<^verbatim>\<open>getvch\<close>, then \<^verbatim>\<open>CastToBigNum\<close> and \<^verbatim>\<open>getint\<close>), \<^verbatim>\<open>CastToBool\<close> of its
  element says whether it is non-zero, and no element whatsoever casts to a number outside
  that range.\<close>

theorem script_number_roundtrip:
  assumes "bn_laws B"
  shows "(\<bar>n\<bar> < 2 ^ 31 \<longrightarrow> CastToBigNum B (getvch B n) = Some n \<and> getint B n = n \<and>
           length (getvch B n) \<le> nMaxNumSize \<and> CastToBool (getvch B n) = (n \<noteq> 0)) \<and>
         (CastToBigNum B v = Some m \<longrightarrow> \<bar>m\<bar> < 2 ^ 31 \<and> CastToBool v = (m \<noteq> 0))"
proof (intro conjI impI)
  assume n: "\<bar>n\<bar> < 2 ^ 31"
  show "CastToBigNum B (getvch B n) = Some n" by (rule CastToBigNum_getvch [OF assms n])
  show "getint B n = n" by (rule getint_small [OF assms n])
  show "length (getvch B n) \<le> nMaxNumSize"
    using length_getvch_le_4(1) [OF assms n] by (simp add: nMaxNumSize_def)
  show "CastToBool (getvch B n) = (n \<noteq> 0)"
    by (simp add: CastToBool_mpi_value length_getvch_le_4(2) [OF assms n] codec_simps)
next
  assume m: "CastToBigNum B v = Some m"
  show "\<bar>m\<bar> < 2 ^ 31" using CastToBigNum_bound [OF assms m] .
  show "CastToBool v = (m \<noteq> 0)"
    using m assms by (simp add: CastToBigNum_eq CastToBool_mpi_value split: if_splits)
qed

theorem script_number_roundtrip_witness:
  "bn_laws bn_ref \<and> CastToBigNum bn_ref (getvch bn_ref (- 2147483647)) = Some (- 2147483647) \<and>
   CastToBigNum bn_ref [0x01, 0x80] = Some (- 1) \<and> CastToBool [0x01, 0x80]"
proof -
  have c: "CastToBigNum bn_ref [0x01, 0x80] = Some (- 1)"
    by (simp add: CastToBigNum_eq [OF bn_ref_laws] mpi_value_def be_nat_Cons)
  show ?thesis
    using bn_ref_laws c script_number_roundtrip [OF bn_ref_laws, of "- 2147483647" "[0x01, 0x80]" "- 1"]
    by simp
qed

text \<open>The compact form of a target (\<^verbatim>\<open>nBits\<close>) is a rounding towards zero: expanding
  \<^verbatim>\<open>GetCompact n\<close> with \<^verbatim>\<open>SetCompact\<close> gives a number not above \<open>n\<close> that agrees with it in the
  three leading bytes of its MPI body, hence is exact for targets of at most three bytes.\<close>

theorem compact_rounds_down:
  assumes "bn_laws B" "0 \<le> n" "length (mpi_body n) < 256"
  shows "SetCompact B (GetCompact B n) \<le> n \<and>
         n - SetCompact B (GetCompact B n) < 256 ^ (length (mpi_body n) - 3) \<and>
         (length (mpi_body n) \<le> 3 \<longrightarrow> SetCompact B (GetCompact B n) = n)"
  using SetCompact_GetCompact_bounds [OF assms] by auto

theorem compact_rounds_down_witness:
  "SetCompact bn_ref (GetCompact bn_ref 0x123456) = 0x123456 \<and>
   SetCompact bn_ref (GetCompact bn_ref 0x12345678) \<le> 0x12345678"
proof -
  have "length (mpi_body 0x123456) \<le> Suc 2" "length (mpi_body 0x12345678) \<le> Suc 3"
    by (rule mpi_body_length, simp)+
  then show ?thesis
    using compact_rounds_down [OF bn_ref_laws, of "0x123456"]
      compact_rounds_down [OF bn_ref_laws, of "0x12345678"] by simp
qed

end
