(* ===== verification/ScriptCode.thy ===== *)
theory ScriptCode
  imports BigNum
begin

text \<open>
  \<^verbatim>\<open>class CScript\<close> of \<^verbatim>\<open>script.h\<close>: a byte vector with instruction-wise access. A
  \<^verbatim>\<open>const_iterator pc\<close> together with \<^verbatim>\<open>end()\<close> is the suffix of the script that is still to be
  read, so \<open>GetOp2\<close> returns the suffix the iterator has advanced to. A failing read is
  \<open>None\<close>; the code then has \<^verbatim>\<open>opcodeRet = OP_INVALIDOPCODE\<close> and an empty \<^verbatim>\<open>vchRet\<close>, which
  the callers that look at them after a failure take explicitly.
\<close>

type_synonym CScript = bytes

section \<open>Building scripts: operator \<^verbatim>\<open><<\<close>\<close>

definition push_op :: "CScript \<Rightarrow> opcodetype \<Rightarrow> CScript" where
  "push_op s opcode = s @ [opcode]"

definition push_uint160 :: "CScript \<Rightarrow> uint160 \<Rightarrow> CScript" where
  "push_uint160 s b = s @ [20] @ mem b"

definition push_uint256 :: "CScript \<Rightarrow> uint256 \<Rightarrow> CScript" where
  "push_uint256 s b = s @ [32] @ mem b"

definition push_enc :: "valtype \<Rightarrow> bytes" where
  "push_enc b =
     (if length b < unat OP_PUSHDATA1 then [word_of_nat (length b)]
      else if length b \<le> 0xff then [OP_PUSHDATA1, word_of_nat (length b)]
      else if length b \<le> 0xffff then [OP_PUSHDATA2] @ le_bytes 2 (length b)
      else [OP_PUSHDATA4] @ le_bytes 4 (length b)) @ b"

definition push_vch :: "CScript \<Rightarrow> valtype \<Rightarrow> CScript" where
  "push_vch s b = s @ push_enc b"

definition push_int64 :: "bnlib \<Rightarrow> CScript \<Rightarrow> int \<Rightarrow> CScript" where
  "push_int64 B s n =
     (if n = - 1 \<or> (1 \<le> n \<and> n \<le> 16) then s @ [word_of_int (n + (uint OP_1 - 1))]
      else push_vch s (getvch B (setint64 B (word_of_int n))))"

text \<open>\<^verbatim>\<open>DecodeOP_N\<close> and \<^verbatim>\<open>EncodeOP_N\<close> assert their range: \<open>None\<close> is the failed assertion.\<close>

definition DecodeOP_N :: "opcodetype \<Rightarrow> nat option" where
  "DecodeOP_N opcode =
     (if opcode = OP_0 then Some 0
      else if OP_1 \<le> opcode \<and> opcode \<le> OP_16 then Some (unat opcode - unat (OP_1 - 1))
      else None)"

definition EncodeOP_N :: "nat \<Rightarrow> opcodetype option" where
  "EncodeOP_N n =
     (if \<not> n \<le> 16 then None else if n = 0 then Some OP_0 else Some (OP_1 + word_of_nat n - 1))"

definition PushAll :: "valtype list \<Rightarrow> CScript" where
  "PushAll values = fold (\<lambda>v result. push_vch result v) values []"

section \<open>Reading instructions: \<^verbatim>\<open>GetOp2\<close>\<close>

fun GetOp2 :: "CScript \<Rightarrow> (opcodetype \<times> valtype \<times> CScript) option" where
  "GetOp2 [] = None"
| "GetOp2 (opcode # pc) =
     (if opcode \<le> OP_PUSHDATA4 then
        (let sized =
           (if opcode < OP_PUSHDATA1 then Some (unat opcode, pc)
            else if opcode = OP_PUSHDATA1 then
              (if length pc < 1 then None else Some (le_nat (take 1 pc), drop 1 pc))
            else if opcode = OP_PUSHDATA2 then
              (if length pc < 2 then None else Some (le_nat (take 2 pc), drop 2 pc))
            else
              (if length pc < 4 then None else Some (le_nat (take 4 pc), drop 4 pc)))
         in case sized of None \<Rightarrow> None
            | Some (nSize, pc') \<Rightarrow>
                if length pc' < nSize then None
                else Some (opcode, take nSize pc', drop nSize pc'))
      else Some (opcode, [], pc))"

text \<open>The four push forms differ in the number of length bytes after the opcode.\<close>

definition push_hdr :: "opcodetype \<Rightarrow> nat" where
  "push_hdr opcode =
     (if opcode < OP_PUSHDATA1 then 0 else if opcode = OP_PUSHDATA1 then 1
      else if opcode = OP_PUSHDATA2 then 2 else 4)"

definition push_size :: "opcodetype \<Rightarrow> bytes \<Rightarrow> nat" where
  "push_size opcode hdr = (if opcode < OP_PUSHDATA1 then unat opcode else le_nat hdr)"

lemma GetOp2_push:
  assumes "opcode \<le> OP_PUSHDATA4"
  shows "GetOp2 (opcode # pc) =
    (let k = push_hdr opcode; n = push_size opcode (take k pc) in
     if length pc < k \<or> length pc - k < n then None
     else Some (opcode, take n (drop k pc), drop n (drop k pc)))"
proof -
  consider "opcode < OP_PUSHDATA1" | "opcode = OP_PUSHDATA1" | "opcode = OP_PUSHDATA2"
    | "\<not> opcode < OP_PUSHDATA1" "opcode \<noteq> OP_PUSHDATA1" "opcode \<noteq> OP_PUSHDATA2"
    by blast
  then show ?thesis
  proof cases
    case 1
    then show ?thesis using assms by (simp add: push_hdr_def push_size_def Let_def)
  next
    case 2
    then show ?thesis using assms by (simp add: push_hdr_def push_size_def Let_def)
  next
    case 3
    then show ?thesis using assms by (simp add: push_hdr_def push_size_def Let_def)
  next
    case 4
    then show ?thesis using assms by (simp add: push_hdr_def push_size_def Let_def)
  qed
qed

lemma GetOp2_nonpush: "\<not> opcode \<le> OP_PUSHDATA4 \<Longrightarrow> GetOp2 (opcode # pc) = Some (opcode, [], pc)"
  by simp

declare GetOp2.simps(2) [simp del]

lemma GetOp2_split:
  assumes "GetOp2 s = Some (opcode, v, rest)"
  obtains i where "i \<noteq> []" "s = i @ rest" "\<And>r. GetOp2 (i @ r) = Some (opcode, v, r)"
proof -
  from assms obtain b pc where s: "s = b # pc" by (cases s) simp_all
  show thesis
  proof (cases "b \<le> OP_PUSHDATA4")
    case False
    with assms s have "b = opcode" "v = []" "pc = rest" by (simp_all add: GetOp2_nonpush)
    with False s show thesis by (intro that [of "[b]"]) (simp_all add: GetOp2_nonpush)
  next
    case True
    let ?k = "push_hdr b" and ?n = "push_size b (take (push_hdr b) pc)"
    have eq: "b = opcode" "v = take ?n (drop ?k pc)" "rest = drop ?n (drop ?k pc)"
        "?k \<le> length pc" "?n \<le> length pc - ?k"
      using assms s True by (auto simp: GetOp2_push Let_def split: if_splits)
    show thesis
    proof (rule that [of "b # take ?k pc @ take ?n (drop ?k pc)"])
      show "s = (b # take ?k pc @ take ?n (drop ?k pc)) @ rest"
        by (simp only: s eq(3) append_Cons append_assoc append_take_drop_id)
      show "GetOp2 ((b # take ?k pc @ take ?n (drop ?k pc)) @ r) = Some (opcode, v, r)" for r
        using True eq by (simp add: GetOp2_push Let_def)
    qed simp
  qed
qed

lemma GetOp2_shorter: "GetOp2 s = Some (opcode, v, rest) \<Longrightarrow> length rest < length s"
  by (erule GetOp2_split) simp

text \<open>What \<^verbatim>\<open>operator<<\<close> writes for a data element is one instruction that reads it back.\<close>

definition push_code :: "valtype \<Rightarrow> opcodetype" where
  "push_code b =
     (if length b < unat OP_PUSHDATA1 then word_of_nat (length b)
      else if length b \<le> 0xff then OP_PUSHDATA1
      else if length b \<le> 0xffff then OP_PUSHDATA2 else OP_PUSHDATA4)"

lemma push_code_le: "push_code b \<le> OP_PUSHDATA4"
  by (simp add: push_code_def word_le_nat_alt)

lemma push_code_le_16: "push_code b \<le> OP_16"
  using push_code_le [of b] by (rule order_trans) simp

lemma GetOp2_push_enc:
  assumes "length b < 2 ^ 32"
  shows "GetOp2 (push_enc b @ rest) = Some (push_code b, b, rest)"
proof -
  consider "length b < 76" | "\<not> length b < 76" "length b \<le> 0xff"
    | "\<not> length b \<le> 0xff" "length b \<le> 0xffff" | "\<not> length b \<le> 0xffff"
    by linarith
  then show ?thesis
  proof cases
    case 1
    then have "(word_of_nat (length b) :: byte) < OP_PUSHDATA1"
      by (simp add: word_less_nat_alt)
    moreover from this have "(word_of_nat (length b) :: byte) \<le> OP_PUSHDATA4"
      by (simp add: word_less_nat_alt word_le_nat_alt)
    ultimately show ?thesis using 1
      by (simp add: push_enc_def push_code_def GetOp2_push push_hdr_def push_size_def Let_def)
  next
    case 2
    then show ?thesis
      by (simp add: push_enc_def push_code_def GetOp2_push push_hdr_def push_size_def Let_def)
  next
    case 3
    then show ?thesis
      by (simp add: push_enc_def push_code_def GetOp2_push push_hdr_def push_size_def Let_def
          le_nat_le_bytes)
  next
    case 4
    then show ?thesis using assms
      by (simp add: push_enc_def push_code_def GetOp2_push push_hdr_def push_size_def Let_def
          le_nat_le_bytes)
  qed
qed

lemma push_enc_nonempty [simp]: "push_enc b \<noteq> []"
  by (simp add: push_enc_def)

section \<open>\<^verbatim>\<open>FindAndDelete\<close>, \<^verbatim>\<open>Find\<close>\<close>

text \<open>The inner loop: erase copies of \<open>b\<close> at the iterator as long as there are any.\<close>

function erase_copies :: "CScript \<Rightarrow> CScript \<Rightarrow> nat \<times> CScript" where
  "erase_copies b pc =
     (if b \<noteq> [] \<and> length b \<le> length pc \<and> take (length b) pc = b
      then (case erase_copies b (drop (length b) pc) of (n, r) \<Rightarrow> (Suc n, r))
      else (0, pc))"
  by pat_completeness auto
termination
  by (relation "measure (\<lambda>(b, pc). length pc)")
    (auto intro!: diff_less simp flip: length_greater_0_conv)

declare erase_copies.simps [simp del]

lemma erase_copies_shorter: "length (snd (erase_copies b pc)) \<le> length pc"
proof (induction b pc rule: erase_copies.induct)
  case (1 b pc)
  then show ?case
    by (subst erase_copies.simps) (auto split: prod.splits)
qed

text \<open>The outer loop: after the erasures read one instruction, keep it, go on behind it.\<close>

function FindAndDelete_loop :: "CScript \<Rightarrow> CScript \<Rightarrow> nat \<times> CScript" where
  "FindAndDelete_loop b pc =
     (let e = erase_copies b pc in
      case GetOp2 (snd e) of
        None \<Rightarrow> e
      | Some (opcode, v, rest) \<Rightarrow>
          (let r = FindAndDelete_loop b rest
           in (fst e + fst r, take (length (snd e) - length rest) (snd e) @ snd r)))"
  by pat_completeness auto
termination
proof (relation "measure (\<lambda>(b, pc). length pc)", simp, goal_cases)
  case (1 b pc e opv opcode v rest)
  then show ?case
    using GetOp2_shorter [of "snd e"] erase_copies_shorter [of b pc] by force
qed

declare FindAndDelete_loop.simps [simp del]

definition FindAndDelete :: "CScript \<Rightarrow> CScript \<Rightarrow> nat \<times> CScript" where
  "FindAndDelete s b = (if b = [] then (0, s) else FindAndDelete_loop b s)"

function Find :: "CScript \<Rightarrow> opcodetype \<Rightarrow> nat" where
  "Find pc op =
     (case GetOp2 pc of None \<Rightarrow> 0
      | Some (opcode, v, rest) \<Rightarrow> (if opcode = op then Suc (Find rest op) else Find rest op))"
  by pat_completeness auto
termination
  by (relation "measure (\<lambda>(pc, op). length pc)") (auto dest: GetOp2_shorter)

declare Find.simps [simp del]

section \<open>Classification and signature operation counts\<close>

function IsPushOnly :: "CScript \<Rightarrow> bool" where
  "IsPushOnly pc =
     (if pc = [] then True
      else case GetOp2 pc of None \<Rightarrow> False
      | Some (opcode, v, rest) \<Rightarrow> (if opcode > OP_16 then False else IsPushOnly rest))"
  by pat_completeness auto
termination
  by (relation "measure length") (auto dest: GetOp2_shorter)

declare IsPushOnly.simps [simp del]

definition IsPayToScriptHash :: "CScript \<Rightarrow> bool" where
  "IsPayToScriptHash s \<longleftrightarrow>
     length s = 23 \<and> s ! 0 = OP_HASH160 \<and> s ! 1 = 0x14 \<and> s ! 22 = OP_EQUAL"

definition sigops_of :: "bool \<Rightarrow> opcodetype \<Rightarrow> opcodetype \<Rightarrow> nat" where
  "sigops_of fAccurate lastOpcode opcode =
     (if opcode = OP_CHECKSIG \<or> opcode = OP_CHECKSIGVERIFY then 1
      else if opcode = OP_CHECKMULTISIG \<or> opcode = OP_CHECKMULTISIGVERIFY then
        (if fAccurate \<and> lastOpcode \<ge> OP_1 \<and> lastOpcode \<le> OP_16
         then the (DecodeOP_N lastOpcode) else 20)
      else if opcode = OP_CHECKHYBRIDSIG \<or> opcode = OP_CHECKHYBRIDSIGVERIFY then 2
      else if opcode = OP_CHECKMULTIHYBRIDSIG then
        (if fAccurate \<and> lastOpcode \<ge> OP_1 \<and> lastOpcode \<le> OP_16
         then the (DecodeOP_N lastOpcode) * 2 else 20 * 2)
      else 0)"

function GetSigOpCount_loop :: "bool \<Rightarrow> CScript \<Rightarrow> opcodetype \<Rightarrow> nat \<Rightarrow> nat" where
  "GetSigOpCount_loop fAccurate pc lastOpcode n =
     (case GetOp2 pc of None \<Rightarrow> n
      | Some (opcode, v, rest) \<Rightarrow>
          GetSigOpCount_loop fAccurate rest opcode (n + sigops_of fAccurate lastOpcode opcode))"
  by pat_completeness auto
termination
  by (relation "measure (\<lambda>(f, pc, l, n). length pc)") (auto dest: GetOp2_shorter)

declare GetSigOpCount_loop.simps [simp del]

definition GetSigOpCount :: "CScript \<Rightarrow> bool \<Rightarrow> nat" where
  "GetSigOpCount s fAccurate = GetSigOpCount_loop fAccurate s OP_INVALIDOPCODE 0"

text \<open>The last element pushed by a push-only \<^verbatim>\<open>scriptSig\<close>; \<open>None\<close> where the code returns 0.\<close>

function last_push :: "CScript \<Rightarrow> valtype \<Rightarrow> valtype option" where
  "last_push pc data =
     (if pc = [] then Some data
      else case GetOp2 pc of None \<Rightarrow> None
      | Some (opcode, v, rest) \<Rightarrow> (if opcode > OP_16 then None else last_push rest v))"
  by pat_completeness auto
termination
  by (relation "measure (\<lambda>(pc, d). length pc)") (auto dest: GetOp2_shorter)

declare last_push.simps [simp del]

definition GetSigOpCount_P2SH :: "CScript \<Rightarrow> CScript \<Rightarrow> nat" where
  "GetSigOpCount_P2SH s scriptSig =
     (if \<not> IsPayToScriptHash s then GetSigOpCount s True
      else case last_push scriptSig [] of None \<Rightarrow> 0
        | Some data \<Rightarrow> GetSigOpCount data True)"

section \<open>Scripts as instruction sequences\<close>

text \<open>
  \<open>instrs s\<close>: the instructions of \<open>s\<close> as \<^verbatim>\<open>GetOp\<close> reads them one after the other, each with its
  opcode, operand and encoding, and the tail no instruction can be read from.
\<close>

function instrs :: "CScript \<Rightarrow> (opcodetype \<times> valtype \<times> bytes) list \<times> bytes" where
  "instrs s =
     (case GetOp2 s of None \<Rightarrow> ([], s)
      | Some (opcode, v, rest) \<Rightarrow>
          (let r = instrs rest in ((opcode, v, take (length s - length rest) s) # fst r, snd r)))"
  by pat_completeness auto
termination
  by (relation "measure length") (auto dest: GetOp2_shorter)

declare instrs.simps [simp del]

lemma instrs_None: "GetOp2 s = None \<Longrightarrow> instrs s = ([], s)"
  by (simp add: instrs.simps)

lemma instrs_Some:
  "GetOp2 (i @ rest) = Some (opcode, v, rest) \<Longrightarrow>
     instrs (i @ rest) = ((opcode, v, i) # fst (instrs rest), snd (instrs rest))"
  by (subst instrs.simps) (simp add: Let_def)

lemma instrs_induct [case_names None Some]:
  assumes "\<And>s. GetOp2 s = None \<Longrightarrow> P s"
    and "\<And>i opcode v rest. \<lbrakk>i \<noteq> []; \<And>r. GetOp2 (i @ r) = Some (opcode, v, r); P rest\<rbrakk> \<Longrightarrow> P (i @ rest)"
  shows "P s"
proof (induction s rule: length_induct)
  case (1 s)
  show ?case
  proof (cases "GetOp2 s")
    case None
    then show ?thesis by (rule assms(1))
  next
    case (Some a)
    then obtain opcode v rest where g: "GetOp2 s = Some (opcode, v, rest)" by (cases a) auto
    then obtain i where i: "i \<noteq> []" "s = i @ rest" "\<And>r. GetOp2 (i @ r) = Some (opcode, v, r)"
      by (rule GetOp2_split) blast
    moreover have "P rest" using 1 GetOp2_shorter [OF g] by blast
    ultimately show ?thesis using assms(2) by blast
  qed
qed

text \<open>Erasing one instruction \<open>b\<close> with \<^verbatim>\<open>FindAndDelete\<close> filters it out of the sequence.\<close>

lemma erase_copies_hit:
  "b \<noteq> [] \<Longrightarrow> erase_copies b (b @ r) = (Suc (fst (erase_copies b r)), snd (erase_copies b r))"
  by (subst erase_copies.simps) (simp split: prod.split)

lemma erase_copies_miss:
  "\<not> (length b \<le> length pc \<and> take (length b) pc = b) \<Longrightarrow> erase_copies b pc = (0, pc)"
  by (subst erase_copies.simps) auto

lemma FindAndDelete_loop_hit:
  assumes "b \<noteq> []"
  shows "FindAndDelete_loop b (b @ r) =
    (Suc (fst (FindAndDelete_loop b r)), snd (FindAndDelete_loop b r))"
  by (subst (1 2 3) FindAndDelete_loop.simps)
    (simp add: erase_copies_hit [OF assms] Let_def split: option.split prod.split)

lemma FindAndDelete_loop_instrs:
  assumes b: "GetOp2 b = Some (bop, bv, [])"
  shows "instrs (snd (FindAndDelete_loop b s)) =
      (filter (\<lambda>(opcode, v, i). i \<noteq> b) (fst (instrs s)), snd (instrs s)) \<and>
    fst (FindAndDelete_loop b s) = length (filter (\<lambda>(opcode, v, i). i = b) (fst (instrs s)))"
proof -
  obtain i0 where i0: "i0 \<noteq> []" "b = i0 @ []" "\<And>r. GetOp2 (i0 @ r) = Some (bop, bv, r)"
    using b by (rule GetOp2_split) blast
  then have ne: "b \<noteq> []" and bget: "\<And>r. GetOp2 (b @ r) = Some (bop, bv, r)" by simp_all
  show ?thesis
  proof (induction s rule: instrs_induct)
    case (None s)
    have "\<not> (length b \<le> length s \<and> take (length b) s = b)"
      using bget [of "drop (length b) s"] None by (metis append_take_drop_id option.distinct(1))
    then show ?case
      by (subst (1 2) FindAndDelete_loop.simps)
        (simp add: erase_copies_miss None Let_def instrs_None)
  next
    case (Some i opcode v rest)
    show ?case
    proof (cases "i = b")
      case True
      with Some ne show ?thesis
        by (simp add: FindAndDelete_loop_hit instrs_Some [OF bget])
    next
      case False
      have miss: "\<not> (length b \<le> length (i @ rest) \<and> take (length b) (i @ rest) = b)"
      proof
        assume h: "length b \<le> length (i @ rest) \<and> take (length b) (i @ rest) = b"
        then have "i @ rest = b @ drop (length b) (i @ rest)" by (metis append_take_drop_id)
        moreover from this have "rest = drop (length b) (i @ rest)"
          using Some(2) [of rest] bget [of "drop (length b) (i @ rest)"] by (metis option.inject prod.inject)
        ultimately have "i @ rest = b @ rest" by simp
        with False show False by simp
      qed
      have eq: "FindAndDelete_loop b (i @ rest) =
          (fst (FindAndDelete_loop b rest), i @ snd (FindAndDelete_loop b rest))"
        by (subst FindAndDelete_loop.simps)
          (simp add: erase_copies_miss [OF miss] Some(2) Let_def)
      show ?thesis using Some(3) False by (simp add: eq instrs_Some [OF Some(2)])
    qed
  qed
qed

section \<open>Counting signature operations\<close>

lemma GetSigOpCount_loop_None: "GetOp2 pc = None \<Longrightarrow> GetSigOpCount_loop acc pc l n = n"
  by (simp add: GetSigOpCount_loop.simps)

lemma GetSigOpCount_loop_Some:
  "GetOp2 pc = Some (opcode, v, rest) \<Longrightarrow>
     GetSigOpCount_loop acc pc l n = GetSigOpCount_loop acc rest opcode (n + sigops_of acc l opcode)"
  by (subst GetSigOpCount_loop.simps) simp

lemma DecodeOP_N_le: "DecodeOP_N opcode = Some n \<Longrightarrow> n \<le> 16"
  by (auto simp: DecodeOP_N_def word_le_nat_alt split: if_splits)

lemma DecodeOP_N_range:
  assumes "OP_1 \<le> opcode" "opcode \<le> OP_16"
  shows "the (DecodeOP_N opcode) \<le> 16" "1 \<le> the (DecodeOP_N opcode)"
  using assms by (auto simp: DecodeOP_N_def word_le_nat_alt split: if_splits)

lemma sigops_of_accurate_le: "sigops_of True l opcode \<le> sigops_of False l opcode"
  using DecodeOP_N_range(1) [of l] by (auto simp: sigops_of_def)

lemma sigops_of_le: "sigops_of acc l opcode \<le> 40"
  using DecodeOP_N_range(1) [of l] by (auto simp: sigops_of_def)

lemma GetSigOpCount_loop_mono:
  "n \<le> m \<Longrightarrow> GetSigOpCount_loop True s l n \<le> GetSigOpCount_loop False s l m"
proof (induction s arbitrary: l n m rule: instrs_induct)
  case (None s)
  then show ?case by (simp add: GetSigOpCount_loop_None)
next
  case (Some i opcode v rest)
  have "n + sigops_of True l opcode \<le> m + sigops_of False l opcode"
    using Some.prems sigops_of_accurate_le by (intro add_mono)
  then show ?case
    unfolding GetSigOpCount_loop_Some [OF Some(2)] by (rule Some(3))
qed

lemma GetSigOpCount_loop_bound:
  "GetSigOpCount_loop acc s l n \<le> n + 40 * length s"
proof (induction s arbitrary: l n rule: instrs_induct)
  case (None s)
  then show ?case by (simp add: GetSigOpCount_loop_None)
next
  case (Some i opcode v rest)
  have "GetSigOpCount_loop acc rest opcode (n + sigops_of acc l opcode)
      \<le> n + sigops_of acc l opcode + 40 * length rest" by (rule Some(3))
  also have "\<dots> \<le> n + 40 + 40 * length rest" using sigops_of_le [of acc l opcode] by simp
  also have "\<dots> \<le> n + 40 * length (i @ rest)" using Some(1) by (cases i) simp_all
  finally show ?case unfolding GetSigOpCount_loop_Some [OF Some(2)] .
qed

section \<open>Push-only scripts\<close>

lemma PushAll_concat: "PushAll vs = concat (map push_enc vs)"
proof -
  have "fold (\<lambda>v result. push_vch result v) vs s = s @ concat (map push_enc vs)" for s
    by (induction vs arbitrary: s) (simp_all add: push_vch_def)
  then show ?thesis by (simp add: PushAll_def)
qed

lemma PushAll_simps [simp]:
  "PushAll [] = []" "PushAll (v # vs) = push_enc v @ PushAll vs"
  by (simp_all add: PushAll_concat)

lemma PushAll_append: "PushAll (us @ vs) = PushAll us @ PushAll vs"
  by (simp add: PushAll_concat)

definition pushable :: "valtype list \<Rightarrow> bool" where
  "pushable vs \<longleftrightarrow> (\<forall>v\<in>set vs. length v < 2 ^ 32)"

lemma pushable_simps [simp]:
  "pushable []" "pushable (v # vs) = (length v < 2 ^ 32 \<and> pushable vs)"
  by (auto simp: pushable_def)

lemma instrs_PushAll:
  "pushable vs \<Longrightarrow> instrs (PushAll vs @ s) =
     (map (\<lambda>v. (push_code v, v, push_enc v)) vs @ fst (instrs s), snd (instrs s))"
  by (induction vs) (simp_all add: instrs_Some GetOp2_push_enc)

lemma IsPushOnly_Nil [simp]: "IsPushOnly []"
  by (simp add: IsPushOnly.simps)

lemma IsPushOnly_step:
  "GetOp2 s = Some (opcode, v, rest) \<Longrightarrow> IsPushOnly s = (opcode \<le> OP_16 \<and> IsPushOnly rest)"
  by (subst IsPushOnly.simps) auto

lemma IsPushOnly_instrs:
  "IsPushOnly s = (snd (instrs s) = [] \<and> (\<forall>(opcode, v, i)\<in>set (fst (instrs s)). opcode \<le> OP_16))"
proof (induction s rule: instrs_induct)
  case (None s)
  then show ?case by (subst IsPushOnly.simps) (auto simp: instrs_None)
next
  case (Some i opcode v rest)
  then show ?case by (auto simp: IsPushOnly_step [OF Some(2)] instrs_Some [OF Some(2)])
qed

lemma IsPushOnly_PushAll: "pushable vs \<Longrightarrow> IsPushOnly (PushAll vs)"
  using push_code_le_16 by (induction vs) (simp_all add: IsPushOnly_step [OF GetOp2_push_enc])

lemma last_push_step:
  "GetOp2 s = Some (opcode, v, rest) \<Longrightarrow>
     last_push s d = (if opcode > OP_16 then None else last_push rest v)"
  by (subst last_push.simps) auto

lemma last_push_Nil [simp]: "last_push [] d = Some d"
  by (simp add: last_push.simps)

lemma last_push_PushAll: "pushable vs \<Longrightarrow> last_push (PushAll vs) d = Some (last (d # vs))"
proof (induction vs arbitrary: d)
  case (Cons v vs)
  then show ?case
    using push_code_le_16 [of v] by (simp add: last_push_step [OF GetOp2_push_enc] leD)
qed simp

lemma last_push_IsPushOnly: "(last_push s d \<noteq> None) = IsPushOnly s"
proof (induction s arbitrary: d rule: instrs_induct)
  case (None s)
  then show ?case by (subst last_push.simps, subst IsPushOnly.simps) simp
next
  case (Some i opcode v rest)
  then show ?case by (auto simp: IsPushOnly_step [OF Some(2)] last_push_step [OF Some(2)])
qed

section \<open>The pay-to-script-hash pattern\<close>

lemma IsPayToScriptHash_shape:
  "IsPayToScriptHash s \<longleftrightarrow> (\<exists>h. length h = 20 \<and> s = [OP_HASH160, 0x14] @ h @ [OP_EQUAL])"
proof
  assume p: "IsPayToScriptHash s"
  define h where "h = take 20 (drop 2 s)"
  have l: "length s = 23" "s ! 0 = OP_HASH160" "s ! 1 = 0x14" "s ! 22 = OP_EQUAL"
    using p by (simp_all add: IsPayToScriptHash_def)
  have "s = [OP_HASH160, 0x14] @ h @ [OP_EQUAL]"
  proof (rule nth_equalityI)
    show "length s = length ([OP_HASH160, 0x14] @ h @ [OP_EQUAL])" by (simp add: h_def l)
    fix i
    assume "i < length s"
    then consider "i = 0" | "i = 1" | j where "i = Suc (Suc j)" "j < 20" | "i = 22"
    proof -
      assume i: "i < length s"
        and cases: "i = 0 \<Longrightarrow> thesis" "i = 1 \<Longrightarrow> thesis"
          "\<And>j. i = Suc (Suc j) \<Longrightarrow> j < 20 \<Longrightarrow> thesis" "i = 22 \<Longrightarrow> thesis"
      show thesis
      proof (cases "i < 2 \<or> i = 22")
        case True
        then show thesis using cases by linarith
      next
        case False
        then have "i = Suc (Suc (i - 2))" "i - 2 < 20" using i l by linarith+
        then show thesis by (rule cases)
      qed
    qed
    then show "s ! i = ([OP_HASH160, 0x14] @ h @ [OP_EQUAL]) ! i"
      by cases (use l in \<open>simp_all add: h_def nth_append nth_Cons'\<close>)
  qed
  moreover have "length h = 20" by (simp add: h_def l)
  ultimately show "\<exists>h. length h = 20 \<and> s = [OP_HASH160, 0x14] @ h @ [OP_EQUAL]" by blast
next
  assume "\<exists>h. length h = 20 \<and> s = [OP_HASH160, 0x14] @ h @ [OP_EQUAL]"
  then obtain h where "length h = 20" "s = [OP_HASH160, 0x14] @ h @ [OP_EQUAL]" by blast
  then show "IsPayToScriptHash s"
    by (simp add: IsPayToScriptHash_def nth_append nth_Cons')
qed

section \<open>Properties\<close>

text \<open>Round trip of \<^verbatim>\<open>operator<<\<close> and \<^verbatim>\<open>GetOp\<close>: the script that pushes a list of data elements
  (each below \<open>2^32\<close> bytes, whichever of the four push forms its size selects) reads back as
  exactly one push instruction per element with the element as operand, is push-only, and its
  last push is the last element.\<close>

theorem push_getop_roundtrip:
  assumes "\<forall>v\<in>set vs. length v < 2 ^ 32"
  shows "instrs (PushAll vs) = (map (\<lambda>v. (push_code v, v, push_enc v)) vs, []) \<and>
         IsPushOnly (PushAll vs) \<and> last_push (PushAll vs) [] = Some (last ([] # vs))"
proof -
  have p: "pushable vs" using assms by (simp add: pushable_def)
  have "instrs [] = ([], [])" by (simp add: instrs_None)
  then show ?thesis
    using instrs_PushAll [OF p, of "[]"] IsPushOnly_PushAll [OF p] last_push_PushAll [OF p]
    by simp
qed

theorem push_getop_roundtrip_witness:
  "list_all (\<lambda>v. length v < 2 ^ 32) [[], [7], replicate 300 (1::byte)] \<and>
   IsPushOnly (PushAll [[], [7], replicate 300 1])"
proof -
  have h: "\<forall>v\<in>set [[], [7], replicate 300 (1::byte)]. length v < 2 ^ 32" by simp
  show ?thesis using h push_getop_roundtrip [OF h] by (simp only: list_all_iff)
qed

text \<open>\<^verbatim>\<open>FindAndDelete\<close> of a single instruction (the use in signature checking: the push of the
  signature, or \<^verbatim>\<open>OP_CODESEPARATOR\<close>) removes from the script exactly the instructions encoded
  that way, keeps all others and an undecodable tail unchanged and in order, and returns the
  number of removals.\<close>

theorem find_and_delete_filters:
  assumes "GetOp2 b = Some (bop, bv, [])"
  shows "instrs (snd (FindAndDelete s b)) =
           (filter (\<lambda>(opcode, v, i). i \<noteq> b) (fst (instrs s)), snd (instrs s)) \<and>
         fst (FindAndDelete s b) = length (filter (\<lambda>(opcode, v, i). i = b) (fst (instrs s)))"
proof -
  have "b \<noteq> []" using assms by auto
  then show ?thesis using FindAndDelete_loop_instrs [OF assms] by (simp add: FindAndDelete_def)
qed

theorem find_and_delete_filters_witness:
  "GetOp2 [OP_CODESEPARATOR] = Some (OP_CODESEPARATOR, [], []) \<and>
   fst (FindAndDelete [OP_DUP, OP_CODESEPARATOR, 1, OP_CODESEPARATOR] [OP_CODESEPARATOR]) = 1"
proof -
  have g: "GetOp2 [OP_CODESEPARATOR] = Some (OP_CODESEPARATOR, [], [])"
    by (simp add: GetOp2_nonpush)
  have a: "GetOp2 (OP_DUP # r) = Some (OP_DUP, [], r)"
    "GetOp2 (OP_CODESEPARATOR # r) = Some (OP_CODESEPARATOR, [], r)" for r
    by (simp_all add: GetOp2_nonpush)
  have c: "GetOp2 [1, OP_CODESEPARATOR] = Some (1, [OP_CODESEPARATOR], [])"
    by (simp add: GetOp2_push push_hdr_def push_size_def)
  have "fst (instrs [OP_DUP, OP_CODESEPARATOR, 1, OP_CODESEPARATOR]) =
      [(OP_DUP, [], [OP_DUP]), (OP_CODESEPARATOR, [], [OP_CODESEPARATOR]),
       (1, [OP_CODESEPARATOR], [1, OP_CODESEPARATOR])]"
    using instrs_Some [of "[OP_DUP]"] instrs_Some [of "[OP_CODESEPARATOR]"]
      instrs_Some [of "[1, OP_CODESEPARATOR]" "[]"]
    by (simp add: a [simplified] c [simplified] instrs_None)
  then show ?thesis
    using g find_and_delete_filters [OF g, of "[OP_DUP, OP_CODESEPARATOR, 1, OP_CODESEPARATOR]"]
    by simp
qed

text \<open>Signature operation counting: the accurate count never exceeds the conservative one,
  neither exceeds 40 per script byte (so the 32 bit counter of the code cannot wrap on a block),
  and for a pay-to-script-hash output spent by a push-only \<^verbatim>\<open>scriptSig\<close> the count is the
  accurate count of the last element pushed; if the \<^verbatim>\<open>scriptSig\<close> is not push-only it is 0.\<close>

theorem sigop_count_bounds:
  shows "GetSigOpCount s True \<le> GetSigOpCount s False \<and> GetSigOpCount s acc \<le> 40 * length s \<and>
    (IsPayToScriptHash s \<longrightarrow> \<not> IsPushOnly scriptSig \<longrightarrow> GetSigOpCount_P2SH s scriptSig = 0) \<and>
    (IsPayToScriptHash s \<longrightarrow> pushable (vs @ [redeem]) \<longrightarrow>
       GetSigOpCount_P2SH s (PushAll (vs @ [redeem])) = GetSigOpCount redeem True)"
proof (intro conjI impI)
  show "GetSigOpCount s True \<le> GetSigOpCount s False"
    by (simp add: GetSigOpCount_def GetSigOpCount_loop_mono)
  show "GetSigOpCount s acc \<le> 40 * length s"
    using GetSigOpCount_loop_bound [of acc s OP_INVALIDOPCODE 0] by (simp add: GetSigOpCount_def)
next
  assume "IsPayToScriptHash s" "\<not> IsPushOnly scriptSig"
  then show "GetSigOpCount_P2SH s scriptSig = 0"
    using last_push_IsPushOnly [of scriptSig "[]"] by (simp add: GetSigOpCount_P2SH_def)
next
  assume "IsPayToScriptHash s" "pushable (vs @ [redeem])"
  then show "GetSigOpCount_P2SH s (PushAll (vs @ [redeem])) = GetSigOpCount redeem True"
    by (simp add: GetSigOpCount_P2SH_def last_push_PushAll del: PushAll_simps)
qed

theorem sigop_count_bounds_witness:
  "IsPayToScriptHash ([OP_HASH160, 0x14] @ replicate 20 0 @ [OP_EQUAL]) \<and>
   GetSigOpCount_P2SH ([OP_HASH160, 0x14] @ replicate 20 0 @ [OP_EQUAL])
     (PushAll ([] @ [[OP_CHECKHYBRIDSIG]])) = 2"
proof -
  have p: "IsPayToScriptHash ([OP_HASH160, 0x14] @ replicate 20 0 @ [OP_EQUAL])"
    unfolding IsPayToScriptHash_shape by (rule exI [of _ "replicate 20 0"]) simp
  have "GetOp2 [OP_CHECKHYBRIDSIG] = Some (OP_CHECKHYBRIDSIG, [], [])"
    by (simp add: GetOp2_nonpush)
  then have "GetSigOpCount [OP_CHECKHYBRIDSIG] True = 2"
    by (simp add: GetSigOpCount_def GetSigOpCount_loop_Some GetSigOpCount_loop_None sigops_of_def)
  then show ?thesis
    using p sigop_count_bounds [of "[OP_HASH160, 0x14] @ replicate 20 0 @ [OP_EQUAL]" True "[]" "[]"
        "[OP_CHECKHYBRIDSIG]"]
    by simp
qed

end
