(* ===== verification/External.thy ===== *)
theory External
  imports ScriptCode
begin

text \<open>
  The code outside the repository the program calls, as one record of parameters: the message
  digests and the ML-DSA verification of OpenSSL, the EC key check of OpenSSL, libsecp256k1's
  parsing and verification, the random numbers \<^verbatim>\<open>GetRand\<close> draws, and the run-time option
  \<^verbatim>\<open>-maxsigcachesize\<close>. \<open>ext_laws\<close> states the documented facts the properties use: digest
  lengths and the MPI format. \<open>ext_ref\<close> is an instance that satisfies them.
\<close>

record ext =
  bn :: bnlib
  SHA256 :: "bytes \<Rightarrow> bytes"
  SHA1 :: "bytes \<Rightarrow> bytes"
  RIPEMD160 :: "bytes \<Rightarrow> bytes"
  EC_fromdata_check :: "bytes \<Rightarrow> bool"
  ec_pubkey_parse :: "bytes \<Rightarrow> bytes option"
  ecdsa_parse_der :: "bytes \<Rightarrow> bytes option"
  ecdsa_normalize :: "bytes \<Rightarrow> bytes"
  ecdsa_verify :: "bytes \<Rightarrow> bytes \<Rightarrow> bytes \<Rightarrow> bool"
  mldsa_raw_public_key :: "bytes \<Rightarrow> bool"
  mldsa_digest_verify :: "bytes \<Rightarrow> bytes \<Rightarrow> bytes \<Rightarrow> bool"
  rand_draw :: "nat \<Rightarrow> nat"
  maxsigcachesize :: int

definition ext_laws :: "ext \<Rightarrow> bool" where
  "ext_laws E \<longleftrightarrow> bn_laws (bn E) \<and> (\<forall>x. length (SHA256 E x) = 32) \<and>
     (\<forall>x. length (SHA1 E x) = 20) \<and> (\<forall>x. length (RIPEMD160 E x) = 20)"

definition ext_ref :: ext where
  "ext_ref = \<lparr>bn = bn_ref, SHA256 = (\<lambda>x. take 32 (x @ replicate 32 0)),
     SHA1 = (\<lambda>x. take 20 (x @ replicate 20 0)), RIPEMD160 = (\<lambda>x. take 20 (x @ replicate 20 0)),
     EC_fromdata_check = (\<lambda>k. True), ec_pubkey_parse = Some, ecdsa_parse_der = Some,
     ecdsa_normalize = (\<lambda>s. s), ecdsa_verify = (\<lambda>s h k. last s = last k),
     mldsa_raw_public_key = (\<lambda>k. True), mldsa_digest_verify = (\<lambda>k s m. last s = last k),
     rand_draw = (\<lambda>n. n), maxsigcachesize = 50000\<rparr>"

lemma ext_ref_laws: "ext_laws ext_ref"
  by (auto simp: ext_laws_def ext_ref_def bn_ref_laws min_def)

lemma ext_lawsD:
  assumes "ext_laws E"
  shows "bn_laws (bn E)" "length (SHA256 E x) = 32" "length (SHA1 E x) = 20"
    "length (RIPEMD160 E x) = 20"
  using assms by (simp_all add: ext_laws_def)

section \<open>\<^verbatim>\<open>Hash\<close> and \<^verbatim>\<open>Hash160\<close> of \<^verbatim>\<open>util.h\<close>\<close>

definition Hash :: "ext \<Rightarrow> bytes \<Rightarrow> uint256" where
  "Hash E b = of_mem (SHA256 E (mem (of_mem (SHA256 E b) :: uint256)))"

definition Hash160 :: "ext \<Rightarrow> bytes \<Rightarrow> uint160" where
  "Hash160 E vch = of_mem (RIPEMD160 E (mem (of_mem (SHA256 E vch) :: uint256)))"

text \<open>The constructors \<^verbatim>\<open>uint160(vector)\<close> and \<^verbatim>\<open>uint256(vector)\<close>: zero unless the size fits.\<close>

definition uint160_of_vch :: "bytes \<Rightarrow> uint160" where
  "uint160_of_vch v = (if length v = 20 then of_mem v else 0)"

lemma mem_uint256 [codec_simps]: "length v = 32 \<Longrightarrow> mem (of_mem v :: uint256) = v"
  by (simp add: mem_of_mem)

lemma mem_uint160 [codec_simps]: "length v = 20 \<Longrightarrow> mem (of_mem v :: uint160) = v"
  by (simp add: mem_of_mem)

lemma of_mem_uint160 [codec_simps]: "of_mem (mem (w :: uint160)) = w"
  by (simp add: of_mem_mem)

lemma uint160_of_vch_mem [simp]: "uint160_of_vch (mem w) = w"
  by (simp add: uint160_of_vch_def codec_simps)

end
