(* ===== verification/Serialize.thy ===== *)
theory Serialize
  imports Prelude
begin

text \<open>
  The wire format of \<^verbatim>\<open>serialize.h\<close> for the types a transaction is made of. Writing appends bytes;
  reading takes them from the front of the stream. \<^verbatim>\<open>CDataStream::read\<close> never fails on a stream that
  is too short: it fills the missing bytes with zeros and empties the stream. The readers are
  \<open>None\<close> only where the stream throws: a non-canonical or too large size. The interface \<open>prefix_codec\<close> is what every type
  promises: reading undoes writing and leaves the rest of the stream. Its consequence, that the
  written form determines the value whatever follows, is proved once.
\<close>

section \<open>The codec interface\<close>

locale prefix_codec =
  fixes ser :: "'a \<Rightarrow> bytes"
    and unser :: "bytes \<Rightarrow> ('a \<times> bytes) option"
    and valid :: "'a \<Rightarrow> bool"
  assumes roundtrip: "valid x \<Longrightarrow> unser (ser x @ rest) = Some (x, rest)"
begin

lemma unser_ser: "valid x \<Longrightarrow> unser (ser x) = Some (x, [])"
  using roundtrip [of x "[]"] by simp

lemma prefix_inj:
  assumes "valid x" "valid y" "ser x @ r = ser y @ r'"
  shows "x = y \<and> r = r'"
proof -
  have "unser (ser x @ r) = Some (x, r)" by (rule roundtrip [OF assms(1)])
  moreover have "unser (ser x @ r) = Some (y, r')"
    unfolding assms(3) by (rule roundtrip [OF assms(2)])
  ultimately show ?thesis by simp
qed

lemma ser_inj: "valid x \<Longrightarrow> valid y \<Longrightarrow> ser x = ser y \<Longrightarrow> x = y"
  using prefix_inj [of x y "[]" "[]"] by simp

end

section \<open>Plain data\<close>

definition read_bytes :: "nat \<Rightarrow> bytes \<Rightarrow> bytes \<times> bytes" where
  "read_bytes k s =
     (if k \<le> length s then (take k s, drop k s)
      else (s @ replicate (k - length s) 0, []))"

lemma read_bytes_append [simp]: "length xs = k \<Longrightarrow> read_bytes k (xs @ r) = (xs, r)"
  by (simp add: read_bytes_def)

lemma read_bytes_Nil [simp]: "read_bytes k [] = (replicate k 0, [])"
  by (simp add: read_bytes_def)

lemma read_bytes_eq: "read_bytes k s = (take k (s @ replicate k 0), drop k s)"
  by (simp add: read_bytes_def min_def)

definition ser_word :: "'a::len word \<Rightarrow> bytes" where
  "ser_word w = mem w"

definition unser_word :: "bytes \<Rightarrow> 'a::len word \<times> bytes" where
  "unser_word s = (case read_bytes (LENGTH('a) div 8) s of (b, r) \<Rightarrow> (of_mem b, r))"

lemma unser_ser_word:
  assumes "8 dvd LENGTH('a::len)"
  shows "unser_word (ser_word (w :: 'a word) @ rest) = (w, rest)"
  using assms by (simp add: unser_word_def ser_word_def of_mem_mem)

interpretation u32_codec: prefix_codec "ser_word :: u32 \<Rightarrow> bytes" "Some \<circ> unser_word" "\<lambda>_. True"
  by unfold_locales (simp add: unser_ser_word)

interpretation u64_codec: prefix_codec "ser_word :: u64 \<Rightarrow> bytes" "Some \<circ> unser_word" "\<lambda>_. True"
  by unfold_locales (simp add: unser_ser_word)

interpretation u256_codec: prefix_codec "ser_word :: uint256 \<Rightarrow> bytes" "Some \<circ> unser_word"
  "\<lambda>_. True"
  by unfold_locales (simp add: unser_ser_word)

section \<open>Compact sizes\<close>

definition MAX_SIZE :: nat where
  "MAX_SIZE = 0x02000000"

definition GetSizeOfCompactSize :: "nat \<Rightarrow> nat" where
  "GetSizeOfCompactSize nSize =
     (if nSize < 253 then 1 else if nSize \<le> 0xffff then 1 + 2
      else if nSize \<le> 0xffffffff then 1 + 4 else 1 + 8)"

definition WriteCompactSize :: "nat \<Rightarrow> bytes" where
  "WriteCompactSize nSize =
     (if nSize < 253 then [word_of_nat nSize]
      else if nSize \<le> 0xffff then 253 # le_bytes 2 nSize
      else if nSize \<le> 0xffffffff then 254 # le_bytes 4 nSize
      else 255 # le_bytes 8 nSize)"

definition ReadCompactSize :: "bytes \<Rightarrow> (nat \<times> bytes) option" where
  "ReadCompactSize s =
     (let (c, is) = read_bytes 1 s; chSize = hd c
      in case (if chSize < 253 then Some (unat chSize, is)
               else if chSize = 253 then
                 (let (b, r) = read_bytes 2 is
                  in if le_nat b < 253 then None else Some (le_nat b, r))
               else if chSize = 254 then
                 (let (b, r) = read_bytes 4 is
                  in if le_nat b < 0x10000 then None else Some (le_nat b, r))
               else
                 (let (b, r) = read_bytes 8 is
                  in if le_nat b < 0x100000000 then None else Some (le_nat b, r)))
         of None \<Rightarrow> None
          | Some (nSizeRet, r) \<Rightarrow> if nSizeRet > MAX_SIZE then None else Some (nSizeRet, r))"

lemma length_WriteCompactSize [len_simps]:
  "length (WriteCompactSize n) = GetSizeOfCompactSize n"
  by (simp add: WriteCompactSize_def GetSizeOfCompactSize_def)

lemma read_bytes_1_Cons: "read_bytes 1 (x # xs) = ([x], xs)"
  by (simp add: read_bytes_def)

lemma ReadCompactSize_Cons:
  "ReadCompactSize (chSize # is) =
     (case (if chSize < 253 then Some (unat chSize, is)
               else if chSize = 253 then
                 (let (b, r) = read_bytes 2 is
                  in if le_nat b < 253 then None else Some (le_nat b, r))
               else if chSize = 254 then
                 (let (b, r) = read_bytes 4 is
                  in if le_nat b < 0x10000 then None else Some (le_nat b, r))
               else
                 (let (b, r) = read_bytes 8 is
                  in if le_nat b < 0x100000000 then None else Some (le_nat b, r)))
         of None \<Rightarrow> None
          | Some (nSizeRet, r) \<Rightarrow> if nSizeRet > MAX_SIZE then None else Some (nSizeRet, r))"
  by (simp only: ReadCompactSize_def read_bytes_1_Cons Let_def prod.case list.sel)

lemma ReadCompactSize_WriteCompactSize:
  assumes "n \<le> MAX_SIZE"
  shows "ReadCompactSize (WriteCompactSize n @ rest) = Some (n, rest)"
proof -
  have n: "n \<le> 0xffffffff" using assms by (simp add: MAX_SIZE_def)
  consider "n < 253" | "\<not> n < 253" "n \<le> 0xffff" | "\<not> n \<le> 0xffff" by linarith
  then show ?thesis
  proof cases
    case 1
    then have "(word_of_nat n :: byte) < 253" by (simp add: word_less_nat_alt)
    with 1 assms show ?thesis
      by (simp add: WriteCompactSize_def ReadCompactSize_Cons)
  next
    case 2
    with assms show ?thesis
      by (simp add: WriteCompactSize_def ReadCompactSize_Cons le_nat_le_bytes)
  next
    case 3
    with assms n show ?thesis
      by (simp add: WriteCompactSize_def ReadCompactSize_Cons le_nat_le_bytes)
  qed
qed

interpretation compact: prefix_codec WriteCompactSize ReadCompactSize "\<lambda>n. n \<le> MAX_SIZE"
  by unfold_locales (rule ReadCompactSize_WriteCompactSize)

text \<open>
  The reader accepts only the writer's encoding, as long as the stream was not cut short inside
  it: then no other prefix reads as the same size.
\<close>

lemma ReadCompactSize_canonical:
  assumes "ReadCompactSize s = Some (n, r)" "r \<noteq> []"
  shows "s = WriteCompactSize n @ r \<and> n \<le> MAX_SIZE"
proof -
  have "s \<noteq> []"
    using assms by (auto simp: ReadCompactSize_def Let_def split: if_splits)
  then obtain c is' where s: "s = c # is'" by (cases s) simp_all
  have m: "n \<le> MAX_SIZE"
    using assms by (auto simp: ReadCompactSize_def Let_def split: option.splits if_splits prod.splits)
  have le: "le_bytes k (le_nat b) = b" if "length b = k" for k b
    using that le_bytes_le_nat by metis
  have bound: "le_nat (take k is') < 256 ^ k" if "k \<le> length is'" for k
    using le_nat_less [of "take k is'"] that by simp
  consider "c < 253" | "c = 253" | "c = 254" | "\<not> c < 253" "c \<noteq> 253" "c \<noteq> 254" by blast
  then show ?thesis
  proof cases
    case 1
    then have "unat c < 253" by (simp add: word_less_nat_alt)
    with 1 assms s m show ?thesis
      by (auto simp: ReadCompactSize_Cons WriteCompactSize_def split: if_splits)
  next
    case 2
    with assms s m bound [of 2] show ?thesis
      by (auto simp: ReadCompactSize_Cons WriteCompactSize_def read_bytes_def le Let_def
          split: if_splits)
  next
    case 3
    with assms s m bound [of 4] show ?thesis
      by (auto simp: ReadCompactSize_Cons WriteCompactSize_def read_bytes_def le Let_def
          split: if_splits)
  next
    case 4
    have "unat c < 256" using unsigned_less [of c, where ?'a = nat] by simp
    moreover have "\<not> unat c < 253" "unat c \<noteq> 253" "unat c \<noteq> 254"
      using 4 by (simp_all add: word_less_nat_alt word_unat_eq_iff)
    ultimately have "unat c = 255" by linarith
    then have c: "c = 255" by (simp add: word_unat_eq_iff)
    with 4 assms s m show ?thesis
      by (auto simp: ReadCompactSize_Cons WriteCompactSize_def read_bytes_def le MAX_SIZE_def Let_def
          split: if_splits)
  qed
qed

section \<open>Vectors\<close>

text \<open>
  A vector of a class type: the compact size, then the elements. Reading makes as many elements as
  the size says; \<^verbatim>\<open>nMid\<close> of the source only schedules the allocation.
\<close>

definition ser_vec :: "('a \<Rightarrow> bytes) \<Rightarrow> 'a list \<Rightarrow> bytes" where
  "ser_vec ser v = WriteCompactSize (length v) @ concat (map ser v)"

fun unser_elems :: "(bytes \<Rightarrow> ('a \<times> bytes) option) \<Rightarrow> nat \<Rightarrow> bytes \<Rightarrow> ('a list \<times> bytes) option" where
  "unser_elems unser 0 s = Some ([], s)"
| "unser_elems unser (Suc n) s =
     (case unser s of None \<Rightarrow> None
      | Some (x, r) \<Rightarrow> map_option (\<lambda>(xs, r'). (x # xs, r')) (unser_elems unser n r))"

definition unser_vec :: "(bytes \<Rightarrow> ('a \<times> bytes) option) \<Rightarrow> bytes \<Rightarrow> ('a list \<times> bytes) option" where
  "unser_vec unser s =
     (case ReadCompactSize s of None \<Rightarrow> None | Some (nSize, r) \<Rightarrow> unser_elems unser nSize r)"

definition size_vec :: "('a \<Rightarrow> nat) \<Rightarrow> 'a list \<Rightarrow> nat" where
  "size_vec GetSerializeSize v =
     foldl (\<lambda>nSize x. nSize + GetSerializeSize x) (GetSizeOfCompactSize (length v)) v"

lemma foldl_add_sum: "foldl (\<lambda>n x. n + f x) a xs = a + sum_list (map f xs)" for a :: nat
  by (induction xs arbitrary: a) simp_all

lemma size_vec_length:
  assumes "\<And>x. length (ser x) = size_of x"
  shows "length (ser_vec ser v) = size_vec size_of v"
  by (simp add: ser_vec_def size_vec_def len_simps foldl_add_sum length_concat comp_def assms)

context prefix_codec
begin

lemma unser_elems_map:
  assumes "list_all valid v"
  shows "unser_elems unser (length v) (concat (map ser v) @ rest) = Some (v, rest)"
  using assms
proof (induction v)
  case (Cons x v)
  have "unser (ser x @ concat (map ser v) @ rest) = Some (x, concat (map ser v) @ rest)"
    using Cons.prems by (simp add: roundtrip)
  with Cons show ?case by simp
qed simp

lemma vec_codec:
  "prefix_codec (ser_vec ser) (unser_vec unser) (\<lambda>v. length v \<le> MAX_SIZE \<and> list_all valid v)"
  by unfold_locales
    (simp add: ser_vec_def unser_vec_def ReadCompactSize_WriteCompactSize unser_elems_map)

end

text \<open>
  A vector of bytes (\<^verbatim>\<open>CScript\<close> too) is read in blocks of at most 5000000 bytes.
\<close>

function read_blocks :: "nat \<Rightarrow> bytes \<Rightarrow> bytes \<times> bytes" where
  "read_blocks left s =
     (if left = 0 then ([], s)
      else let blk = min left (1 + 4999999);
               (b, r) = read_bytes blk s;
               (bs, r') = read_blocks (left - blk) r
           in (b @ bs, r'))"
  by pat_completeness auto
termination by (relation "measure fst") simp_all

declare read_blocks.simps [simp del]

lemma read_bytes_add:
  "read_bytes (i + j) s =
    (let (b, r) = read_bytes i s; (bs, r') = read_bytes j r in (b @ bs, r'))"
  by (auto simp: read_bytes_def Let_def take_add replicate_add [symmetric] add.commute)

lemma read_blocks_eq: "read_blocks n s = read_bytes n s"
proof (induction n s rule: read_blocks.induct)
  case (1 n s)
  show ?case
  proof (cases "n = 0")
    case False
    define blk where "blk = min n (1 + 4999999)"
    have split: "n = blk + (n - blk)" by (simp add: blk_def)
    obtain b r where br: "read_bytes blk s = (b, r)" by fastforce
    have IH: "read_blocks (n - blk) r = read_bytes (n - blk) r"
      using "1.IH" [OF False blk_def br [symmetric] refl] .
    have "read_blocks n s = (let (bs, r') = read_blocks (n - blk) r in (b @ bs, r'))"
      using False br by (subst read_blocks.simps) (simp only: Let_def blk_def [symmetric] prod.case if_False)
    also have "\<dots> = read_bytes (blk + (n - blk)) s"
      unfolding IH read_bytes_add br by simp
    finally show ?thesis using split by simp
  qed (simp add: read_blocks.simps read_bytes_def)
qed

definition ser_vch :: "bytes \<Rightarrow> bytes" where
  "ser_vch v = WriteCompactSize (length v) @ v"

definition unser_vch :: "bytes \<Rightarrow> (bytes \<times> bytes) option" where
  "unser_vch s =
     (case ReadCompactSize s of None \<Rightarrow> None | Some (nSize, r) \<Rightarrow> Some (read_blocks nSize r))"

definition size_vch :: "bytes \<Rightarrow> nat" where
  "size_vch v = GetSizeOfCompactSize (length v) + length v"

lemma length_ser_vch [len_simps]: "length (ser_vch v) = size_vch v"
  by (simp add: ser_vch_def size_vch_def len_simps)

interpretation vch_codec: prefix_codec ser_vch unser_vch "\<lambda>v. length v \<le> MAX_SIZE"
  by unfold_locales
    (simp add: ser_vch_def unser_vch_def ReadCompactSize_WriteCompactSize read_blocks_eq)

section \<open>Streams that end too soon\<close>

text \<open>
  A reader is \<open>zero_ext\<close> when zeros appended to the stream change nothing but the rest: it cannot
  tell a stream that ends from one that goes on with zeros. Every reader of this theory is.
\<close>

definition zeros :: "nat \<Rightarrow> bytes" where
  "zeros k = replicate k 0"

definition zero_ext :: "(bytes \<Rightarrow> ('a \<times> bytes) option) \<Rightarrow> bool" where
  "zero_ext f \<longleftrightarrow>
     (\<forall>p k. \<exists>k'. f (p @ zeros k) = map_option (\<lambda>(x, r). (x, r @ zeros k')) (f p))"

lemma zero_ext_read_bytes: "zero_ext (Some \<circ> read_bytes n)"
  unfolding zero_ext_def
proof (intro allI)
  fix p :: bytes and k
  have "read_bytes n (p @ zeros k) =
      (fst (read_bytes n p), snd (read_bytes n p) @ zeros (k - (n - length p)))"
    by (auto simp: read_bytes_def zeros_def replicate_add [symmetric])
  then show "\<exists>k'. (Some \<circ> read_bytes n) (p @ zeros k) =
      map_option (\<lambda>(x, r). (x, r @ zeros k')) ((Some \<circ> read_bytes n) p)"
    by (intro exI) (simp add: case_prod_beta)
qed

lemma zero_ext_return: "zero_ext (\<lambda>s. Some (c, s))"
  unfolding zero_ext_def by auto

lemma zero_ext_bind:
  assumes f: "zero_ext f" and g: "\<And>x. zero_ext (g x)"
  shows "zero_ext (\<lambda>s. case f s of None \<Rightarrow> None | Some (x, r) \<Rightarrow> g x r)"
  unfolding zero_ext_def
proof (intro allI)
  fix p k
  obtain k1 where k1: "f (p @ zeros k) = map_option (\<lambda>(x, r). (x, r @ zeros k1)) (f p)"
    using f unfolding zero_ext_def by blast
  show "\<exists>k'. (case f (p @ zeros k) of None \<Rightarrow> None | Some (x, r) \<Rightarrow> g x r) =
      map_option (\<lambda>(x, r). (x, r @ zeros k'))
        (case f p of None \<Rightarrow> None | Some (x, r) \<Rightarrow> g x r)"
  proof (cases "f p")
    case (Some xr)
    obtain x r where xr: "xr = (x, r)" by fastforce
    obtain k2 where "g x (r @ zeros k1) = map_option (\<lambda>(x, r). (x, r @ zeros k2)) (g x r)"
      using g [of x] unfolding zero_ext_def by blast
    with Some k1 xr show ?thesis by auto
  qed (simp add: k1)
qed

text \<open>A reader that leaves part of the stream has not looked beyond what it read: it reads the same from
  any stream that begins so. Both laws hold of every reader, by the same steps.\<close>

definition reads_prefix :: "(bytes \<Rightarrow> ('a \<times> bytes) option) \<Rightarrow> bool" where
  "reads_prefix f \<longleftrightarrow>
     (\<forall>p x r. f p = Some (x, r) \<longrightarrow> (p = [] \<longrightarrow> r = []) \<and>
        (r \<noteq> [] \<longrightarrow> (\<exists>u. p = u @ r \<and> (\<forall>t. f (u @ t) = Some (x, t)))))"

definition reader :: "(bytes \<Rightarrow> ('a \<times> bytes) option) \<Rightarrow> bool" where
  "reader f \<longleftrightarrow> zero_ext f \<and> reads_prefix f"

lemma readerD: "reader f \<Longrightarrow> zero_ext f"
  by (simp add: reader_def)

lemma reader_end: "reader f \<Longrightarrow> f [] = Some (x, r) \<Longrightarrow> r = []"
  by (simp add: reader_def reads_prefix_def)

lemma reader_prefix:
  "reader f \<Longrightarrow> f p = Some (x, r) \<Longrightarrow> r \<noteq> [] \<Longrightarrow> \<exists>u. p = u @ r \<and> (\<forall>t. f (u @ t) = Some (x, t))"
  by (simp add: reader_def reads_prefix_def)

lemma reader_read_bytes: "reader (Some \<circ> read_bytes n)"
  unfolding reader_def reads_prefix_def
proof (intro conjI allI impI zero_ext_read_bytes)
  fix p x r
  assume e: "(Some \<circ> read_bytes n) p = Some (x, r)"
  then show "p = [] \<Longrightarrow> r = []" by simp
  assume "r \<noteq> []"
  with e have "n < length p" "x = take n p" "r = drop n p" by (auto simp: read_bytes_def split: if_splits)
  then show "\<exists>u. p = u @ r \<and> (\<forall>t. (Some \<circ> read_bytes n) (u @ t) = Some (x, t))"
    by (intro exI [of _ "take n p"]) simp
qed

lemma reader_return: "reader (\<lambda>s. Some (c, s))"
  by (simp add: reader_def zero_ext_return reads_prefix_def)

lemma reader_None: "reader (\<lambda>s. None)"
  by (simp add: reader_def zero_ext_def reads_prefix_def)

lemma reader_bind:
  assumes f: "reader f" and g: "\<And>x. reader (g x)"
  shows "reader (\<lambda>s. case f s of None \<Rightarrow> None | Some (x, r) \<Rightarrow> g x r)"
  unfolding reader_def reads_prefix_def
proof (intro conjI allI impI)
  show "zero_ext (\<lambda>s. case f s of None \<Rightarrow> None | Some (x, r) \<Rightarrow> g x r)"
    using f g by (intro zero_ext_bind) (simp_all add: reader_def)
  fix p y r
  assume "(case f p of None \<Rightarrow> None | Some (x, r) \<Rightarrow> g x r) = Some (y, r)"
  then obtain x r1 where x: "f p = Some (x, r1)" "g x r1 = Some (y, r)"
    by (auto split: option.splits)
  show "p = [] \<Longrightarrow> r = []" using x reader_end [OF f] reader_end [OF g] by blast
  assume r: "r \<noteq> []"
  then have "r1 \<noteq> []" using x(2) reader_end [OF g] by blast
  with reader_prefix [OF f x(1)] obtain u where u: "p = u @ r1" "\<forall>t. f (u @ t) = Some (x, t)" by blast
  obtain v where v: "r1 = v @ r" "\<forall>t. g x (v @ t) = Some (y, t)"
    using reader_prefix [OF g x(2) r] by blast
  show "\<exists>u. p = u @ r \<and> (\<forall>t. (case f (u @ t) of None \<Rightarrow> None | Some (x, r) \<Rightarrow> g x r) = Some (y, t))"
    using u v by (intro exI [of _ "u @ v"]) simp
qed

lemma reader_ReadCompactSize: "reader ReadCompactSize"
proof -
  define tail where "tail n lim = (\<lambda>s. case (Some \<circ> read_bytes n) s of None \<Rightarrow> None
      | Some (b, r) \<Rightarrow> (if le_nat b < lim \<or> le_nat b > MAX_SIZE then (\<lambda>s. None)
                       else (\<lambda>s. Some (le_nat b, s))) r)" for n lim
  have tail: "reader (tail n lim)" for n lim
    unfolding tail_def
    by (rule reader_bind [OF reader_read_bytes]) (auto intro: reader_return reader_None)
  have eq: "ReadCompactSize = (\<lambda>s. case (Some \<circ> read_bytes 1) s of None \<Rightarrow> None
      | Some (c, is) \<Rightarrow>
          (if hd c < 253 then (\<lambda>s. Some (unat (hd c), s))
           else if hd c = 253 then tail 2 253
           else if hd c = 254 then tail 4 0x10000 else tail 8 0x100000000) is)"
  proof
    fix s
    obtain c "is" where c: "read_bytes 1 s = (c, is)" by fastforce
    have small: "\<not> MAX_SIZE < unat b" for b :: byte
    proof -
      have "unat b < 256" using unsigned_less [of b, where ?'a = nat] by simp
      then show ?thesis unfolding MAX_SIZE_def by linarith
    qed
    show "ReadCompactSize s = (case (Some \<circ> read_bytes 1) s of None \<Rightarrow> None
      | Some (c, is) \<Rightarrow>
          (if hd c < 253 then (\<lambda>s. Some (unat (hd c), s))
           else if hd c = 253 then tail 2 253
           else if hd c = 254 then tail 4 0x10000 else tail 8 0x100000000) is)"
      by (auto simp: ReadCompactSize_def c tail_def Let_def small split: prod.splits)
  qed
  have "reader (if hd c < 253 then (\<lambda>s. Some (unat (hd c), s))
           else if hd c = 253 then tail 2 253
           else if hd c = 254 then tail 4 0x10000 else tail 8 0x100000000)" for c :: bytes
    by (auto simp: tail reader_return)
  then show ?thesis
    by (subst eq) (rule reader_bind [OF reader_read_bytes])
qed

lemma reader_unser_elems:
  assumes "reader f"
  shows "reader (unser_elems f n)"
proof (induction n)
  case 0
  show ?case using reader_return [of "[]"] by (simp add: comp_def)
next
  case (Suc n)
  have eq: "unser_elems f (Suc n) = (\<lambda>s. case f s of None \<Rightarrow> None
      | Some (x, r) \<Rightarrow> (\<lambda>s. case unser_elems f n s of None \<Rightarrow> None
          | Some (xs, r) \<Rightarrow> Some (x # xs, r)) r)"
    by (rule ext) (auto split: option.splits)
  show ?case unfolding eq
    by (intro reader_bind assms Suc.IH reader_return)
qed

lemma reader_unser_vec:
  assumes "reader f"
  shows "reader (unser_vec f)"
proof -
  have "reader (\<lambda>s. case ReadCompactSize s of None \<Rightarrow> None | Some (n, r) \<Rightarrow> unser_elems f n r)"
    by (intro reader_bind reader_ReadCompactSize reader_unser_elems assms)
  then show ?thesis by (simp add: unser_vec_def [abs_def])
qed

lemma reader_unser_vch: "reader unser_vch"
proof -
  have "reader (\<lambda>s. case ReadCompactSize s of None \<Rightarrow> None
      | Some (n, r) \<Rightarrow> (Some \<circ> read_bytes n) r)"
    by (intro reader_bind reader_ReadCompactSize reader_read_bytes)
  moreover have "unser_vch = (\<lambda>s. case ReadCompactSize s of None \<Rightarrow> None
      | Some (n, r) \<Rightarrow> (Some \<circ> read_bytes n) r)"
    by (rule ext) (simp add: unser_vch_def read_blocks_eq split: option.split)
  ultimately show ?thesis by simp
qed

end
