(* ===== verification/Transaction.thy ===== *)
theory Transaction
  imports External Serialize
begin

text \<open>
  The transaction types of \<^verbatim>\<open>main.h\<close>: \<^verbatim>\<open>COutPoint\<close>, \<^verbatim>\<open>CTxIn\<close>, \<^verbatim>\<open>CTxOut\<close>, \<^verbatim>\<open>CTransaction\<close>, their
  serialization and their inline methods. Signed 32 and 64 bit members are words read with
  \<open>sint\<close>.
\<close>

section \<open>The types\<close>

datatype COutPoint = COutPoint (prev_hash: uint256) (prev_n: u32)

record CTxIn =
  prevout :: COutPoint
  scriptSig :: CScript
  nSequence :: u32

record CTxOut =
  nValue :: u64
  scriptPubKey :: CScript

record CTransaction =
  nVersion :: u32
  vin :: "CTxIn list"
  vout :: "CTxOut list"
  nLockTime :: u32
  nDoS :: int

definition COutPoint_SetNull :: COutPoint where
  "COutPoint_SetNull = COutPoint 0 (- 1)"

definition COutPoint_IsNull :: "COutPoint \<Rightarrow> bool" where
  "COutPoint_IsNull p \<longleftrightarrow> prev_hash p = 0 \<and> prev_n p = - 1"

definition COutPoint_less :: "COutPoint \<Rightarrow> COutPoint \<Rightarrow> bool" where
  "COutPoint_less a b \<longleftrightarrow>
     prev_hash a < prev_hash b \<or> (prev_hash a = prev_hash b \<and> prev_n a < prev_n b)"

instantiation COutPoint :: linorder
begin

definition less_COutPoint :: "COutPoint \<Rightarrow> COutPoint \<Rightarrow> bool" where
  "less_COutPoint = COutPoint_less"

definition less_eq_COutPoint :: "COutPoint \<Rightarrow> COutPoint \<Rightarrow> bool" where
  "less_eq_COutPoint a b \<longleftrightarrow> a < b \<or> a = b"

instance
  by standard (auto simp: less_COutPoint_def COutPoint_less_def less_eq_COutPoint_def,
      metis COutPoint.expand linorder_less_linear)

end

definition CTxIn_IsFinal :: "CTxIn \<Rightarrow> bool" where
  "CTxIn_IsFinal i \<longleftrightarrow> nSequence i = - 1"

definition CTxOut_SetNull :: CTxOut where
  "CTxOut_SetNull = \<lparr>nValue = - 1, scriptPubKey = []\<rparr>"

definition CTxOut_IsNull :: "CTxOut \<Rightarrow> bool" where
  "CTxOut_IsNull txout \<longleftrightarrow> nValue txout = - 1"

definition CTxOut_SetEmpty :: CTxOut where
  "CTxOut_SetEmpty = \<lparr>nValue = 0, scriptPubKey = []\<rparr>"

definition CTxOut_IsEmpty :: "CTxOut \<Rightarrow> bool" where
  "CTxOut_IsEmpty txout \<longleftrightarrow> nValue txout = 0 \<and> scriptPubKey txout = []"

definition CURRENT_VERSION :: u32 where
  "CURRENT_VERSION = 1"

definition CTransaction_SetNull :: CTransaction where
  "CTransaction_SetNull =
     \<lparr>nVersion = CURRENT_VERSION, vin = [], vout = [], nLockTime = 0, nDoS = 0\<rparr>"

definition CTransaction_IsNull :: "CTransaction \<Rightarrow> bool" where
  "CTransaction_IsNull tx \<longleftrightarrow> vin tx = [] \<and> vout tx = []"

definition DoS :: "CTransaction \<Rightarrow> int \<Rightarrow> bool \<Rightarrow> bool \<times> CTransaction" where
  "DoS tx nDoSIn fIn = (fIn, tx\<lparr>nDoS := nDoS tx + nDoSIn\<rparr>)"

definition IsCoinBase :: "CTransaction \<Rightarrow> bool" where
  "IsCoinBase tx \<longleftrightarrow> length (vin tx) = 1 \<and> COutPoint_IsNull (prevout (vin tx ! 0))"

section \<open>Serialization\<close>

definition ser_COutPoint :: "COutPoint \<Rightarrow> bytes" where
  "ser_COutPoint p = ser_word (prev_hash p) @ ser_word (prev_n p)"

definition unser_COutPoint :: "bytes \<Rightarrow> COutPoint \<times> bytes" where
  "unser_COutPoint s =
     (let (b, r) = read_bytes 36 s in (COutPoint (of_mem (take 32 b)) (of_mem (drop 32 b)), r))"

definition ser_CTxIn :: "CTxIn \<Rightarrow> bytes" where
  "ser_CTxIn i = ser_COutPoint (prevout i) @ ser_vch (scriptSig i) @ ser_word (nSequence i)"

definition unser_CTxIn :: "bytes \<Rightarrow> (CTxIn \<times> bytes) option" where
  "unser_CTxIn s =
     (let (p, s1) = unser_COutPoint s
      in case unser_vch s1 of None \<Rightarrow> None
         | Some (sg, s2) \<Rightarrow>
             let (q, s3) = unser_word s2
             in Some (\<lparr>prevout = p, scriptSig = sg, nSequence = q\<rparr>, s3))"

definition ser_CTxOut :: "CTxOut \<Rightarrow> bytes" where
  "ser_CTxOut txout = ser_word (nValue txout) @ ser_vch (scriptPubKey txout)"

definition unser_CTxOut :: "bytes \<Rightarrow> (CTxOut \<times> bytes) option" where
  "unser_CTxOut s =
     (let (v, s1) = unser_word s
      in map_option (\<lambda>(k, s2). (\<lparr>nValue = v, scriptPubKey = k\<rparr>, s2)) (unser_vch s1))"

definition ser_CTransaction :: "CTransaction \<Rightarrow> bytes" where
  "ser_CTransaction tx =
     ser_word (nVersion tx) @ ser_vec ser_CTxIn (vin tx) @ ser_vec ser_CTxOut (vout tx) @
     ser_word (nLockTime tx)"

text \<open>\<open>nDoS\<close> is not part of the stream; a transaction read into a fresh object has 0.\<close>

definition unser_CTransaction :: "bytes \<Rightarrow> (CTransaction \<times> bytes) option" where
  "unser_CTransaction s =
     (let (v, s1) = unser_word s
      in case unser_vec unser_CTxIn s1 of None \<Rightarrow> None
         | Some (is, s2) \<Rightarrow>
        (case unser_vec unser_CTxOut s2 of None \<Rightarrow> None
         | Some (os, s3) \<Rightarrow>
             let (l, s4) = unser_word s3
             in Some (\<lparr>nVersion = v, vin = is, vout = os, nLockTime = l, nDoS = 0\<rparr>, s4)))"

text \<open>\<^verbatim>\<open>GetSerializeSize\<close>, computed without writing.\<close>

definition size_CTxIn :: "CTxIn \<Rightarrow> nat" where
  "size_CTxIn i = 36 + size_vch (scriptSig i) + 4"

definition size_CTxOut :: "CTxOut \<Rightarrow> nat" where
  "size_CTxOut txout = 8 + size_vch (scriptPubKey txout)"

definition size_CTransaction :: "CTransaction \<Rightarrow> nat" where
  "size_CTransaction tx = 4 + size_vec size_CTxIn (vin tx) + size_vec size_CTxOut (vout tx) + 4"

definition GetHash :: "ext \<Rightarrow> CTransaction \<Rightarrow> uint256" where
  "GetHash E tx = Hash E (ser_CTransaction tx)"

text \<open>What fits the format: no vector longer than \<open>MAX_SIZE\<close>.\<close>

definition script_fits :: "CScript \<Rightarrow> bool" where
  "script_fits s \<longleftrightarrow> length s \<le> MAX_SIZE"

definition tx_fits :: "CTransaction \<Rightarrow> bool" where
  "tx_fits tx \<longleftrightarrow>
     length (vin tx) \<le> MAX_SIZE \<and> list_all (\<lambda>i. script_fits (scriptSig i)) (vin tx) \<and>
     length (vout tx) \<le> MAX_SIZE \<and> list_all (\<lambda>t. script_fits (scriptPubKey t)) (vout tx)"

lemma length_ser_word [len_simps]: "length (ser_word (w :: 'a::len word)) = LENGTH('a) div 8"
  by (simp add: ser_word_def)

lemma length_ser_CTxIn: "length (ser_CTxIn i) = size_CTxIn i"
  by (simp add: ser_CTxIn_def ser_COutPoint_def size_CTxIn_def len_simps)

lemma length_ser_CTxOut: "length (ser_CTxOut t) = size_CTxOut t"
  by (simp add: ser_CTxOut_def size_CTxOut_def len_simps)

lemma length_ser_CTransaction: "length (ser_CTransaction tx) = size_CTransaction tx"
  by (simp add: ser_CTransaction_def size_CTransaction_def len_simps
      size_vec_length [where ser = ser_CTxIn, OF length_ser_CTxIn]
      size_vec_length [where ser = ser_CTxOut, OF length_ser_CTxOut])

lemma unser_ser_COutPoint: "unser_COutPoint (ser_COutPoint p @ rest) = (p, rest)"
proof -
  have "ser_COutPoint p @ rest = (mem (prev_hash p) @ mem (prev_n p)) @ rest"
    by (simp add: ser_COutPoint_def ser_word_def)
  moreover have "read_bytes 36 ((mem (prev_hash p) @ mem (prev_n p)) @ rest) =
      (mem (prev_hash p) @ mem (prev_n p), rest)"
    by (rule read_bytes_append) simp
  ultimately show ?thesis by (simp add: unser_COutPoint_def of_mem_mem)
qed

interpretation outpoint_codec: prefix_codec ser_COutPoint "Some \<circ> unser_COutPoint" "\<lambda>_. True"
  by unfold_locales (simp add: unser_ser_COutPoint)

interpretation txin_codec: prefix_codec ser_CTxIn unser_CTxIn "\<lambda>i. script_fits (scriptSig i)"
  by unfold_locales
    (simp add: ser_CTxIn_def unser_CTxIn_def unser_ser_word unser_ser_COutPoint
      vch_codec.roundtrip script_fits_def)

interpretation txout_codec: prefix_codec ser_CTxOut unser_CTxOut "\<lambda>t. script_fits (scriptPubKey t)"
  by unfold_locales
    (simp add: ser_CTxOut_def unser_CTxOut_def unser_ser_word vch_codec.roundtrip script_fits_def)

interpretation vin_codec: prefix_codec "ser_vec ser_CTxIn" "unser_vec unser_CTxIn"
  "\<lambda>v. length v \<le> MAX_SIZE \<and> list_all (\<lambda>i. script_fits (scriptSig i)) v"
  by (rule txin_codec.vec_codec)

interpretation vout_codec: prefix_codec "ser_vec ser_CTxOut" "unser_vec unser_CTxOut"
  "\<lambda>v. length v \<le> MAX_SIZE \<and> list_all (\<lambda>t. script_fits (scriptPubKey t)) v"
  by (rule txout_codec.vec_codec)

interpretation tx_codec: prefix_codec ser_CTransaction unser_CTransaction
  "\<lambda>tx. tx_fits tx \<and> nDoS tx = 0"
  by unfold_locales
    (simp add: ser_CTransaction_def unser_CTransaction_def unser_ser_word vin_codec.roundtrip
      vout_codec.roundtrip tx_fits_def)

lemma transaction_codec:
  assumes "tx_fits tx"
  shows "unser_CTransaction (ser_CTransaction tx @ rest) = Some (tx\<lparr>nDoS := 0\<rparr>, rest)"
proof -
  have "ser_CTransaction (tx\<lparr>nDoS := 0\<rparr>) = ser_CTransaction tx"
    by (simp add: ser_CTransaction_def)
  moreover have "tx_fits (tx\<lparr>nDoS := 0\<rparr>)" using assms by (simp add: tx_fits_def)
  ultimately show ?thesis
    using tx_codec.roundtrip [of "tx\<lparr>nDoS := 0\<rparr>" rest] by simp
qed

text \<open>A transaction whose vectors fit the format is read back from its serialization exactly,
  whatever bytes follow, with the number of bytes consumed that GetSerializeSize computes; only the
  local denial-of-service score is lost.\<close>

theorem transaction_roundtrip:
  assumes "tx_fits tx"
  shows "unser_CTransaction (ser_CTransaction tx @ rest) = Some (tx\<lparr>nDoS := 0\<rparr>, rest) \<and>
    length (ser_CTransaction tx) = size_CTransaction tx"
  using transaction_codec [OF assms, of rest] by (simp add: length_ser_CTransaction)

definition sample_tx :: CTransaction where
  "sample_tx = \<lparr>nVersion = 1,
     vin = [\<lparr>prevout = COutPoint 7 1, scriptSig = [1, 2], nSequence = 5\<rparr>],
     vout = [\<lparr>nValue = 50, scriptPubKey = [172]\<rparr>, \<lparr>nValue = 8, scriptPubKey = []\<rparr>],
     nLockTime = 9, nDoS = 10\<rparr>"

theorem transaction_roundtrip_witness:
  "tx_fits sample_tx \<and>
   unser_CTransaction (ser_CTransaction sample_tx @ [3, 4]) = Some (sample_tx\<lparr>nDoS := 0\<rparr>, [3, 4])"
proof -
  have "tx_fits sample_tx" by (simp add: tx_fits_def sample_tx_def script_fits_def MAX_SIZE_def)
  with transaction_roundtrip [of sample_tx "[3, 4]"] show ?thesis by simp
qed

subsection \<open>Truncated transactions\<close>

lemma reader_unser_word: "reader (Some \<circ> (unser_word :: bytes \<Rightarrow> 'a::len word \<times> bytes))"
proof -
  have "reader (\<lambda>s. case (Some \<circ> read_bytes (LENGTH('a) div 8)) s of None \<Rightarrow> None
      | Some (b, r) \<Rightarrow> (\<lambda>s. Some (of_mem b :: 'a word, s)) r)"
    by (intro reader_bind reader_read_bytes reader_return)
  moreover have "(Some \<circ> unser_word) = (\<lambda>s. case (Some \<circ> read_bytes (LENGTH('a) div 8)) s of
      None \<Rightarrow> None | Some (b, r) \<Rightarrow> (\<lambda>s. Some (of_mem b :: 'a word, s)) r)"
    by (rule ext) (simp add: unser_word_def split: prod.split)
  ultimately show ?thesis by simp
qed

lemma reader_unser_CTxIn: "reader unser_CTxIn"
proof -
  let ?f = "\<lambda>s. case (Some \<circ> read_bytes 36) s of None \<Rightarrow> None | Some (b, s1) \<Rightarrow>
    (\<lambda>s. case unser_vch s of None \<Rightarrow> None | Some (sg, s2) \<Rightarrow>
      (\<lambda>s. case (Some \<circ> unser_word) s of None \<Rightarrow> None | Some (q, s3) \<Rightarrow>
        (\<lambda>s. Some (\<lparr>prevout = COutPoint (of_mem (take 32 b)) (of_mem (drop 32 b)),
           scriptSig = sg, nSequence = q\<rparr>, s)) s3) s2) s1"
  have "reader ?f"
    by (intro reader_bind reader_read_bytes reader_return reader_unser_vch
        reader_unser_word)
  moreover have "unser_CTxIn = ?f"
    by (rule ext) (simp add: unser_CTxIn_def unser_COutPoint_def Let_def split: prod.split option.split)
  ultimately show ?thesis by simp
qed

lemma reader_unser_CTxOut: "reader unser_CTxOut"
proof -
  let ?f = "\<lambda>s. case (Some \<circ> unser_word) s of None \<Rightarrow> None | Some (v, s1) \<Rightarrow>
    (\<lambda>s. case unser_vch s of None \<Rightarrow> None | Some (k, s2) \<Rightarrow>
      (\<lambda>s. Some (\<lparr>nValue = v, scriptPubKey = k\<rparr>, s)) s2) s1"
  have "reader ?f"
    by (intro reader_bind reader_return reader_unser_vch reader_unser_word)
  moreover have "unser_CTxOut = ?f"
    by (rule ext) (simp add: unser_CTxOut_def Let_def split: prod.split option.split)
  ultimately show ?thesis by simp
qed

lemma reader_unser_CTransaction: "reader unser_CTransaction"
proof -
  let ?f = "\<lambda>s. case (Some \<circ> unser_word) s of None \<Rightarrow> None | Some (v, s1) \<Rightarrow>
    (\<lambda>s. case unser_vec unser_CTxIn s of None \<Rightarrow> None | Some (is, s2) \<Rightarrow>
     (\<lambda>s. case unser_vec unser_CTxOut s of None \<Rightarrow> None | Some (os, s3) \<Rightarrow>
      (\<lambda>s. case (Some \<circ> unser_word) s of None \<Rightarrow> None | Some (l, s4) \<Rightarrow>
       (\<lambda>s. Some (\<lparr>nVersion = v, vin = is, vout = os, nLockTime = l, nDoS = 0\<rparr>, s)) s4) s3) s2) s1"
  have "reader ?f"
    by (intro reader_bind reader_return reader_unser_vec reader_unser_CTxIn
        reader_unser_CTxOut reader_unser_word)
  moreover have "unser_CTransaction = ?f"
    by (rule ext) (simp add: unser_CTransaction_def Let_def split: prod.split option.split)
  ultimately show ?thesis by simp
qed

text \<open>A message that ends early is not an error: cutting trailing zero bytes off a serialized
  transaction (for example its zero lock time) leaves a message that is read as the same
  transaction, to the end of the stream.\<close>

theorem truncated_transaction_accepted:
  assumes "tx_fits tx" "ser_CTransaction tx = p @ zeros k"
  shows "unser_CTransaction p = Some (tx\<lparr>nDoS := 0\<rparr>, [])"
proof -
  have "unser_CTransaction (p @ zeros k) = Some (tx\<lparr>nDoS := 0\<rparr>, [])"
    using transaction_codec [OF assms(1), of "[]"] assms(2) by simp
  moreover obtain k' where "unser_CTransaction (p @ zeros k) =
      map_option (\<lambda>(x, r). (x, r @ zeros k')) (unser_CTransaction p)"
    using readerD [OF reader_unser_CTransaction] unfolding zero_ext_def by blast
  ultimately show ?thesis by (cases "unser_CTransaction p") auto
qed

lemma ser_word_0: "ser_word (0 :: 'a::len word) = zeros (LENGTH('a) div 8)"
proof -
  have "le_bytes k 0 = replicate k 0" for k by (induction k) simp_all
  then show ?thesis by (simp add: ser_word_def mem_def zeros_def)
qed

definition sample_unlocked :: CTransaction where
  "sample_unlocked = sample_tx\<lparr>nLockTime := 0\<rparr>"

theorem truncated_transaction_accepted_witness:
  "\<exists>p. ser_CTransaction sample_unlocked = p @ zeros 4 \<and>
     unser_CTransaction p = Some (sample_unlocked\<lparr>nDoS := 0\<rparr>, [])"
proof -
  have fits: "tx_fits sample_unlocked"
    by (simp add: tx_fits_def sample_unlocked_def sample_tx_def script_fits_def MAX_SIZE_def)
  define p where "p = ser_word (nVersion sample_unlocked) @
    ser_vec ser_CTxIn (vin sample_unlocked) @ ser_vec ser_CTxOut (vout sample_unlocked)"
  have "ser_word (nLockTime sample_unlocked) = zeros 4"
    by (simp add: ser_word_0 sample_unlocked_def)
  then have "ser_CTransaction sample_unlocked = p @ zeros 4"
    unfolding p_def ser_CTransaction_def by (simp only: append_assoc)
  with truncated_transaction_accepted [OF fits] show ?thesis by blast
qed

section \<open>Methods\<close>

definition COIN :: int where
  "COIN = 100000000"

definition CENT :: int where
  "CENT = 1000000"

definition MAX_MONEY :: int where
  "MAX_MONEY = 10000000 * COIN"

definition MoneyRange :: "int \<Rightarrow> bool" where
  "MoneyRange v \<longleftrightarrow> v \<ge> 0 \<and> v \<le> MAX_MONEY"

definition LOCKTIME_THRESHOLD :: int where
  "LOCKTIME_THRESHOLD = 500000000"

text \<open>\<^verbatim>\<open>IsFinal\<close>: \<open>nBestHeight\<close> and \<open>GetAdjustedTime\<close> stand for the globals it reads.\<close>

definition IsFinal :: "int \<Rightarrow> int \<Rightarrow> CTransaction \<Rightarrow> int \<Rightarrow> int \<Rightarrow> bool" where
  "IsFinal nBestHeight GetAdjustedTime tx nBlockHeight nBlockTime =
     (if nLockTime tx = 0 then True
      else
        let nBlockHeight = (if nBlockHeight = 0 then nBestHeight else nBlockHeight);
            nBlockTime = (if nBlockTime = 0 then GetAdjustedTime else nBlockTime)
        in if uint (nLockTime tx) <
              (if uint (nLockTime tx) < LOCKTIME_THRESHOLD then nBlockHeight else nBlockTime)
           then True
           else list_all CTxIn_IsFinal (vin tx))"

text \<open>The loop of \<^verbatim>\<open>IsNewerThan\<close> over the two input vectors side by side.\<close>

fun IsNewerThan_loop :: "(CTxIn \<times> CTxIn) list \<Rightarrow> bool \<Rightarrow> u32 \<Rightarrow> bool" where
  "IsNewerThan_loop [] fNewer nLowest = fNewer"
| "IsNewerThan_loop ((i, j) # r) fNewer nLowest =
     (if nSequence i \<noteq> nSequence j then
        let (fNewer, nLowest) =
              (if nSequence i \<le> nLowest then (False, nSequence i) else (fNewer, nLowest));
            (fNewer, nLowest) =
              (if nSequence j < nLowest then (True, nSequence j) else (fNewer, nLowest))
        in IsNewerThan_loop r fNewer nLowest
      else IsNewerThan_loop r fNewer nLowest)"

definition IsNewerThan :: "CTransaction \<Rightarrow> CTransaction \<Rightarrow> bool" where
  "IsNewerThan tx old =
     (if length (vin tx) \<noteq> length (vin old) then False
      else if \<not> list_all (\<lambda>(i, j). prevout i = prevout j) (zip (vin tx) (vin old)) then False
      else IsNewerThan_loop (zip (vin tx) (vin old)) False (- 1))"

text \<open>\<^verbatim>\<open>GetValueOut\<close>: \<open>None\<close> is the exception. The sum is kept at 64 bits.\<close>

fun GetValueOut_loop :: "CTxOut list \<Rightarrow> u64 \<Rightarrow> u64 option" where
  "GetValueOut_loop [] nValueOut = Some nValueOut"
| "GetValueOut_loop (txout # r) nValueOut =
     (let nValueOut = nValueOut + nValue txout
      in if \<not> MoneyRange (sint (nValue txout)) \<or> \<not> MoneyRange (sint nValueOut) then None
         else GetValueOut_loop r nValueOut)"

definition GetValueOut :: "CTransaction \<Rightarrow> u64 option" where
  "GetValueOut tx = GetValueOut_loop (vout tx) 0"

lemma MAX_MONEY_val [simp]: "MAX_MONEY = 1000000000000000"
  by (simp add: MAX_MONEY_def COIN_def)

lemma sint_add_small:
  fixes a b :: u64
  assumes "MoneyRange (sint a)" "MoneyRange (sint b)"
  shows "sint (a + b) = sint a + sint b"
  using assms by (simp add: MoneyRange_def signed_take_bit_int_eq_self_iff sint_word_ariths)

lemma GetValueOut_loop_Some:
  assumes "MoneyRange (sint acc)"
  shows "GetValueOut_loop os acc = Some v \<longleftrightarrow>
    list_all (\<lambda>t. MoneyRange (sint (nValue t))) os \<and>
    MoneyRange (sint acc + sum_list (map (\<lambda>t. sint (nValue t)) os)) \<and>
    sint v = sint acc + sum_list (map (\<lambda>t. sint (nValue t)) os)"
  using assms
proof (induction os arbitrary: acc)
  case (Cons t os)
  have nn: "0 \<le> sum_list (map (\<lambda>t. sint (nValue t)) os)"
    if "list_all (\<lambda>t. MoneyRange (sint (nValue t))) os"
    using that by (intro sum_list_nonneg) (auto simp: list_all_iff MoneyRange_def)
  show ?case
  proof (cases "MoneyRange (sint (nValue t)) \<and> MoneyRange (sint (acc + nValue t))")
    case True
    then have "sint (acc + nValue t) = sint acc + sint (nValue t)"
      using sint_add_small Cons.prems by blast
    with True Cons.IH [of "acc + nValue t"] show ?thesis by (simp add: Let_def add.assoc)
  next
    case False
    have "sint (acc + nValue t) = sint acc + sint (nValue t)" if "MoneyRange (sint (nValue t))"
      using sint_add_small Cons.prems that by blast
    with False nn Cons.prems show ?thesis by (auto simp: Let_def MoneyRange_def)
  qed
qed (auto intro: signed_word_eqI [OF sym])

text \<open>GetValueOut throws exactly when some output value, or the total, is outside 0..MAX_MONEY;
  otherwise it returns the exact integer sum: the 64-bit additions never wrap in a way the checks
  miss.\<close>

theorem value_out_exact:
  "GetValueOut tx =
    (let vs = map (\<lambda>t. sint (nValue t)) (vout tx)
     in if list_all MoneyRange vs \<and> MoneyRange (sum_list vs)
        then Some (word_of_int (sum_list vs)) else None)"
proof -
  define vs where "vs = map (\<lambda>t. sint (nValue t)) (vout tx)"
  have all: "list_all (\<lambda>t. MoneyRange (sint (nValue t))) (vout tx) = list_all MoneyRange vs"
    by (simp add: vs_def list.pred_map comp_def)
  have iff: "GetValueOut tx = Some v \<longleftrightarrow>
      list_all MoneyRange vs \<and> MoneyRange (sum_list vs) \<and> sint v = sum_list vs" for v
    using GetValueOut_loop_Some [of 0 "vout tx" v]
    unfolding GetValueOut_def all vs_def [symmetric] by (simp add: MoneyRange_def [of 0])
  have fit: "sint (word_of_int (sum_list vs) :: u64) = sum_list vs" if "MoneyRange (sum_list vs)"
    using that by (simp add: MoneyRange_def signed_of_int signed_take_bit_int_eq_self_iff)
  show ?thesis
    unfolding Let_def vs_def [symmetric] using iff fit by (cases "GetValueOut tx") auto
qed

subsection \<open>\<^verbatim>\<open>IsNewerThan\<close>\<close>

text \<open>The pairs of inputs with different sequence numbers.\<close>

definition differing :: "(CTxIn \<times> CTxIn) list \<Rightarrow> (CTxIn \<times> CTxIn) list" where
  "differing ps = List.filter (\<lambda>(i, j). nSequence i \<noteq> nSequence j) ps"

text \<open>The least sequence number of a list of inputs, the largest number for none.\<close>

definition min_seq :: "CTxIn list \<Rightarrow> u32" where
  "min_seq is = foldr (\<lambda>i m. min (nSequence i) m) is (- 1)"

lemma differing_simps [simp]:
  "differing [] = []"
  "differing ((i, j) # ps) =
     (if nSequence i \<noteq> nSequence j then (i, j) # differing ps else differing ps)"
  by (simp_all add: differing_def)

lemma min_seq_simps [simp]:
  "min_seq [] = - 1"
  "min_seq (i # is) = min (nSequence i) (min_seq is)"
  by (simp_all add: min_seq_def)

lemma IsNewerThan_loop_min:
  "IsNewerThan_loop ps (b < a) (min a b) =
     (min b (min_seq (map snd (differing ps))) < min a (min_seq (map fst (differing ps))))"
proof (induction ps arbitrary: a b)
  case (Cons p ps)
  obtain i j where p: "p = (i, j)" by (cases p)
  let ?i = "nSequence i" and ?j = "nSequence j"
  have 1: "(if ?i \<le> min a b then (False, ?i) else (b < a, min a b)) =
      (b < min a ?i, min (min a ?i) b)"
    by (auto simp: min_def)
  have 2: "(if ?j < min (min a ?i) b then (True, ?j) else (b < min a ?i, min (min a ?i) b)) =
      (min b ?j < min a ?i, min (min a ?i) (min b ?j))"
    by (auto simp: min_def)
  have step: "IsNewerThan_loop ((i, j) # ps) (b < a) (min a b) =
      (if ?i \<noteq> ?j then IsNewerThan_loop ps (min b ?j < min a ?i) (min (min a ?i) (min b ?j))
       else IsNewerThan_loop ps (b < a) (min a b))"
    by (simp only: IsNewerThan_loop.simps 1 2 Let_def prod.case)
  show ?case unfolding p step Cons.IH by (simp add: min.assoc)
qed simp

text \<open>IsNewerThan compares two versions of a transaction that spend the same outputs by one
  number: the least sequence number among the inputs whose sequence numbers differ. The transaction
  is newer than the old one exactly when the old one holds the strictly smaller least number, so no
  two transactions are each newer than the other.\<close>

theorem is_newer_than_spec:
  "IsNewerThan tx old =
     (map prevout (vin tx) = map prevout (vin old) \<and>
      (let d = differing (zip (vin tx) (vin old))
       in min_seq (map snd d) < min_seq (map fst d))) \<and>
   \<not> (IsNewerThan tx old \<and> IsNewerThan old tx)"
proof -
  have eq: "IsNewerThan tx old =
     (map prevout (vin tx) = map prevout (vin old) \<and>
      min_seq (map snd (differing (zip (vin tx) (vin old)))) <
      min_seq (map fst (differing (zip (vin tx) (vin old)))))" for tx old
  proof -
    have pm: "map prevout xs = map prevout ys \<longleftrightarrow>
        length xs = length ys \<and> list_all (\<lambda>(i, j). prevout i = prevout j) (zip xs ys)" for xs ys
      by (induction xs ys rule: list_induct2') auto
    show ?thesis
      using IsNewerThan_loop_min [of "zip (vin tx) (vin old)" "- 1" "- 1"]
      unfolding IsNewerThan_def pm by simp
  qed
  have swap: "differing (zip ys xs) = map prod.swap (differing (zip xs ys))" for xs ys
    by (induction xs ys rule: list_induct2') auto
  have "\<not> (IsNewerThan tx old \<and> IsNewerThan old tx)"
    unfolding eq swap [of "vin old" "vin tx"] by (simp add: comp_def) (blast dest: order.asym)
  with eq show ?thesis by (simp add: Let_def)
qed

lemma IsFinal_all_final:
  "list_all CTxIn_IsFinal (vin tx) \<Longrightarrow> IsFinal nBest adj tx h t"
  by (simp add: IsFinal_def Let_def)

end
