(* ===== verification/Subsidy.thy ===== *)
theory Subsidy
  imports Transaction "HOL-Library.Signed_Division"
begin

text \<open>
  The issue of coins (\<^verbatim>\<open>main.cpp\<close>): \<^verbatim>\<open>GetProofOfWorkReward\<close> and \<^verbatim>\<open>GetMoneySupply\<close>, with the fork
  heights of \<^verbatim>\<open>main.h\<close>. A C \<^verbatim>\<open>int\<close> or \<^verbatim>\<open>int64\<close> is an integer that is wrapped where the code
  can exceed the width. A reward is \<open>None\<close> where the shift count reaches the width of the type.
\<close>

definition wrap32 :: "int \<Rightarrow> int" where
  "wrap32 = signed_take_bit 31"

definition wrap64 :: "int \<Rightarrow> int" where
  "wrap64 = signed_take_bit 63"

lemma wrap32_id: "- (2 ^ 31) \<le> x \<Longrightarrow> x < 2 ^ 31 \<Longrightarrow> wrap32 x = x"
  by (simp add: wrap32_def signed_take_bit_int_eq_self_iff)

lemma wrap64_id: "- (2 ^ 63) \<le> x \<Longrightarrow> x < 2 ^ 63 \<Longrightarrow> wrap64 x = x"
  by (simp add: wrap64_def signed_take_bit_int_eq_self_iff)

section \<open>Fork heights\<close>

definition nForkOne :: int where [simp]: "nForkOne = 46500"
definition nForkTwo :: int where [simp]: "nForkTwo = 69444"
definition nForkThree :: int where [simp]: "nForkThree = 74100"
definition nForkFour :: int where [simp]: "nForkFour = 154000"
definition nForkFive :: int where [simp]: "nForkFive = 400000"
definition nSoftForkOne :: int where [simp]: "nSoftForkOne = 270000"
definition nSoftForkTwo :: int where [simp]: "nSoftForkTwo = 340000"
definition nTestnetForkOne :: int where [simp]: "nTestnetForkOne = 600"
definition nTestnetForkTwo :: int where [simp]: "nTestnetForkTwo = 3600"
definition nTestnetSoftForkOne :: int where [simp]: "nTestnetSoftForkOne = 3400"
definition nTestnetSoftForkTwo :: int where [simp]: "nTestnetSoftForkTwo = 3500"

section \<open>Block rewards\<close>

definition GetProofOfWorkReward :: "bool \<Rightarrow> int \<Rightarrow> int \<Rightarrow> int option" where
  "GetProofOfWorkReward fTestNet nHeight nFees =
     (let nSubsidy = 50 * COIN;
          nSubsidy = (if (nHeight \<ge> nForkThree \<and> nHeight < nForkFour) \<or>
                         (fTestNet \<and> nHeight < nTestnetForkOne)
                      then 25 * COIN else nSubsidy);
          halvings = nHeight sdiv 1000000
      in if halvings < 0 \<or> halvings \<ge> 64 then None
         else Some (wrap64 (drop_bit (nat halvings) nSubsidy + nFees)))"

definition GetMoneySupply :: "bool \<Rightarrow> int \<Rightarrow> int" where
  "GetMoneySupply fTestNet nHeight =
     (if \<not> fTestNet then
        (if nHeight < nForkThree then (nHeight + 1) * 50 * COIN
         else let nMoneySupply = nForkThree * 50 * COIN in
         if nHeight < nForkFour then nMoneySupply + (nHeight - nForkThree + 1) * 25 * COIN
         else let nMoneySupply = nMoneySupply + (nForkFour - nForkThree) * 25 * COIN in
         if nHeight < 1000000 then nMoneySupply + (nHeight - nForkFour + 1) * 50 * COIN
         else let nMoneySupply = nMoneySupply + (1000000 - nForkFour) * 50 * COIN in
         if nHeight < 2000000 then nMoneySupply + (nHeight - 1000000 + 1) * 25 * COIN
         else let nMoneySupply = nMoneySupply + (2000000 - 1000000) * 25 * COIN in
         if nHeight < 3000000 then nMoneySupply + (nHeight - 2000000 + 1) * 25 * COIN div 2
         else let nMoneySupply = nMoneySupply + (3000000 - 2000000) * 25 * COIN div 2 in
         if nHeight < 4000000 then nMoneySupply + (nHeight - 3000000 + 1) * 25 * COIN div 4
         else nMoneySupply + (4000000 - 3000000) * 25 * COIN div 4)
      else
        (if nHeight < nTestnetForkOne then nHeight * 25 * COIN
         else let nMoneySupply = nTestnetForkOne * 25 * COIN in
         if nHeight < 1000000 then nMoneySupply + (nHeight - nTestnetForkOne + 1) * 50 * COIN
         else let nMoneySupply = nMoneySupply + (1000000 - nTestnetForkOne) * 50 * COIN in
         if nHeight < 2000000 then nMoneySupply + (nHeight - 1000000 + 1) * 25 * COIN
         else nMoneySupply + (2000000 - 1000000) * 25 * COIN))"

text \<open>What the miners of the blocks 0 to \<open>h\<close> may create, beside the fees.\<close>

fun issued :: "bool \<Rightarrow> nat \<Rightarrow> int" where
  "issued fTestNet 0 = the (GetProofOfWorkReward fTestNet 0 0)"
| "issued fTestNet (Suc h) = issued fTestNet h + the (GetProofOfWorkReward fTestNet (int (Suc h)) 0)"

lemma sdiv_nonneg: "0 \<le> a \<Longrightarrow> 0 < b \<Longrightarrow> a sdiv b = a div b" for a b :: int
  by (simp add: signed_divide_int_def sgn_if)

lemma reward_nonneg:
  assumes "0 \<le> h" "h < 64000000"
  shows "GetProofOfWorkReward T h 0 =
    Some ((if (h \<ge> nForkThree \<and> h < nForkFour) \<or> (T \<and> h < nTestnetForkOne) then 25 * COIN else 50 * COIN)
      div 2 ^ nat (h div 1000000))"
proof -
  have "x div 2 ^ n \<le> x" "0 \<le> x div 2 ^ n" if "0 \<le> x" for n and x :: int
    using that zdiv_mono2 [of x 1 "2 ^ n"] by (simp_all add: pos_imp_zdiv_nonneg_iff)
  then have w: "wrap64 (x div 2 ^ n) = x div 2 ^ n" if "0 \<le> x" "x < 2 ^ 63" for n and x :: int
    using that by (intro wrap64_id) (smt (verit))+
  have "0 \<le> h div 1000000" "h div 1000000 < 64" using assms by linarith+
  then show ?thesis
    using assms by (simp add: GetProofOfWorkReward_def Let_def sdiv_nonneg drop_bit_eq_div w COIN_def)
qed

lemma reward_mainnet:
  assumes "0 \<le> h" "h < 4000000"
  shows "the (GetProofOfWorkReward False h 0) =
    (if h < 74100 then 5000000000 else if h < 154000 then 2500000000
     else if h < 1000000 then 5000000000 else if h < 2000000 then 2500000000
     else if h < 3000000 then 1250000000 else 625000000)"
proof -
  consider "h < 1000000" "h div 1000000 = 0" | "\<not> h < 1000000" "h < 2000000" "h div 1000000 = 1"
    | "\<not> h < 2000000" "h < 3000000" "h div 1000000 = 2" | "\<not> h < 3000000" "h div 1000000 = 3"
    using assms by linarith
  then show ?thesis using assms by cases (simp_all add: reward_nonneg COIN_def)
qed

lemma issued_mainnet: "h < 4000000 \<Longrightarrow> issued False h = GetMoneySupply False (int h)"
proof (induction h)
  case 0
  show ?case using reward_mainnet [of 0] by (simp add: GetMoneySupply_def COIN_def)
next
  case (Suc h)
  define x where "x = int h"
  have x: "0 \<le> x" "x + 1 < 4000000" using Suc.prems by (simp_all add: x_def)
  have "GetMoneySupply False (x + 1) = GetMoneySupply False x + the (GetProofOfWorkReward False (x + 1) 0)"
    using reward_mainnet [of "x + 1"] x
    by (simp add: GetMoneySupply_def COIN_def Let_def)
  then show ?case using Suc by (simp add: x_def add.commute)
qed

lemma reward_late:
  assumes "999999 < h" "h < 64000000"
  shows "the (GetProofOfWorkReward False h 0) = 5000000000 div 2 ^ nat (h div 1000000)"
  using assms by (simp add: reward_nonneg COIN_def)

lemma halved: "x div 2 ^ Suc n = x div 2 ^ n div 2" for x :: int
  by (simp only: power_Suc2 zdiv_zmult2_eq)

text \<open>What was issued and what can still be issued: all blocks left of the current million at the
  present reward, and another million of them for all later ones.\<close>

definition still :: "int \<Rightarrow> int" where
  "still h = (1000000 * (h div 1000000 + 2) - 1 - h) * (5000000000 div 2 ^ nat (h div 1000000))"

lemma still_step:
  assumes "999999 \<le> h" "h + 1 < 64000000"
  shows "the (GetProofOfWorkReward False (h + 1) 0) + still (h + 1) \<le> still h"
proof (cases "(h + 1) div 1000000 = h div 1000000")
  case True
  define k where "k = h div 1000000"
  define r where "r = (5000000000 :: int) div 2 ^ nat k"
  have "the (GetProofOfWorkReward False (h + 1) 0) = r"
    using reward_late [OF _ assms(2)] assms(1) unfolding True r_def k_def by simp
  then show ?thesis
    unfolding still_def True k_def [symmetric] r_def [symmetric] by (simp add: algebra_simps)
next
  case False
  define k where "k = h div 1000000"
  have k: "(h + 1) div 1000000 = k + 1" "h + 1 = 1000000 * (k + 1)" "0 \<le> k"
  proof -
    obtain m where h: "h = 1000000 * k + m" "0 \<le> m" "m < 1000000"
      by (rule that [of "h mod 1000000"]) (simp_all add: k_def)
    have "\<not> m + 1 < 1000000"
    proof
      assume "m + 1 < 1000000"
      then have "(h + 1) div 1000000 = k"
        using h by (intro int_div_pos_eq [of _ _ _ "m + 1"]) linarith+
      then show False using False by (simp add: k_def)
    qed
    with h have "m = 999999" by linarith
    with h show *: "h + 1 = 1000000 * (k + 1)" by simp
    show "(h + 1) div 1000000 = k + 1" unfolding * by simp
    show "0 \<le> k" using assms(1) by (simp add: k_def pos_imp_zdiv_nonneg_iff)
  qed
  define r where "r = (5000000000 :: int) div 2 ^ nat k"
  have "nat (k + 1) = Suc (nat k)" using k(3) by simp
  then have r': "(5000000000 :: int) div 2 ^ nat (k + 1) = r div 2" by (simp only: halved r_def)
  have "the (GetProofOfWorkReward False (h + 1) 0) = r div 2"
    using reward_late [OF _ assms(2)] assms(1) unfolding k(1) r' by simp
  moreover have "still (h + 1) = 1999999 * (r div 2)"
    unfolding still_def k(1) r' using k(2) by simp
  moreover have "still h = 1000000 * r"
    unfolding still_def k_def [symmetric] r_def [symmetric] using k(2) by simp
  ultimately show ?thesis by linarith
qed

lemma issued_still:
  assumes "999999 \<le> h" "h < 64000000"
  shows "issued False h + still (int h) \<le> 98002500 * COIN"
  using assms
proof (induction h rule: nat_induct_at_least)
  case base
  show ?case using issued_mainnet [of 999999] by (simp add: GetMoneySupply_def still_def COIN_def)
next
  case (Suc h)
  then show ?case using still_step [of "int h"] by (simp add: add.commute)
qed

lemma reward_ge_0: "0 \<le> h \<Longrightarrow> h < 64000000 \<Longrightarrow> 0 \<le> the (GetProofOfWorkReward T h 0)"
  by (simp add: reward_nonneg COIN_def pos_imp_zdiv_nonneg_iff)

lemma issued_mono: "h \<le> h' \<Longrightarrow> h' < 64000000 \<Longrightarrow> issued T h \<le> issued T h'"
proof (induction h' rule: dec_induct)
  case (step n)
  then show ?case using reward_ge_0 [of "int (Suc n)" T] by simp
qed simp

lemma issued_cap:
  assumes "h < 64000000"
  shows "issued False h \<le> 98002500 * COIN"
proof -
  have pos: "0 \<le> still (int n)" for n
    unfolding still_def by (intro mult_nonneg_nonneg) (simp_all add: pos_imp_zdiv_nonneg_iff)
  show ?thesis
  proof (cases "999999 \<le> h")
    case True
    then show ?thesis using issued_still [of h] pos [of h] assms by linarith
  next
    case False
    then have "issued False h \<le> issued False 999999" by (intro issued_mono) simp_all
    then show ?thesis using issued_still [of 999999] pos [of 999999] by linarith
  qed
qed

section \<open>Properties\<close>

text \<open>The issue of coins is capped: whatever the height (below 64 million, where the shift count
  reaches the width of the type and the reward has no defined value), the block rewards of the main
  chain add up to at most 98,002,500 coins. GetMoneySupply is exact below height 4,000,000, and too
  small above, where it stays constant while blocks still earn.\<close>

theorem coin_issue:
  assumes "h < 64000000"
  shows "list_all (\<lambda>i. GetProofOfWorkReward False (int i) 0 \<noteq> None) [0..<Suc h] \<and>
    issued False h \<le> 98002500 * COIN \<and>
    (if h < 4000000 then GetMoneySupply False (int h) = issued False h
     else GetMoneySupply False (int h) + 312500000 \<le> issued False h) \<and>
    GetProofOfWorkReward False 64000000 0 = None"
proof (intro conjI)
  show "list_all (\<lambda>i. GetProofOfWorkReward False (int i) 0 \<noteq> None) [0..<Suc h]"
    using assms by (auto simp: list_all_iff reward_nonneg)
  show "issued False h \<le> 98002500 * COIN" by (rule issued_cap [OF assms])
  show "if h < 4000000 then GetMoneySupply False (int h) = issued False h
     else GetMoneySupply False (int h) + 312500000 \<le> issued False h"
  proof (cases "h < 4000000")
    case True
    then show ?thesis by (simp add: issued_mainnet)
  next
    case False
    have c: "GetMoneySupply False (int h) = GetMoneySupply False 3999999"
      using False by (simp add: GetMoneySupply_def COIN_def)
    have "issued False 4000000 \<le> issued False h" using False assms by (intro issued_mono) simp_all
    moreover have "issued False 4000000 = issued False 3999999 + 312500000"
      using issued.simps(2) [of False 3999999] reward_late [of 4000000] by simp
    ultimately show ?thesis using False c issued_mainnet [of 3999999] by simp
  qed
  show "GetProofOfWorkReward False 64000000 0 = None"
    by (simp add: GetProofOfWorkReward_def sdiv_nonneg)
qed

theorem coin_issue_witness:
  "GetMoneySupply False 2 = 15000000000 \<and> issued False 2 = 15000000000"
  using coin_issue [of 2] by (simp add: GetMoneySupply_def COIN_def)

text \<open>On the test network GetMoneySupply does not follow the rewards: it leaves the genesis block
  out before the first fork and counts it from there on, and it ignores that the 25 coin rule of the
  main chain heights 74,100 to 153,999 applies there as well.\<close>

theorem testnet_supply_diverges:
  "GetMoneySupply True 599 = issued True 599 - 25 * COIN \<and>
   GetMoneySupply True 600 = issued True 600 \<and>
   GetMoneySupply True 74100 = issued True 74100 + 25 * COIN"
proof -
  have r: "the (GetProofOfWorkReward True h 0) =
      (if h < 600 then 2500000000 else if 74100 \<le> h \<and> h < 154000 then 2500000000 else 5000000000)"
    if "0 \<le> h" "h < 1000000" for h
    using that by (simp add: reward_nonneg COIN_def)
  have i1: "issued True n = (int n + 1) * 2500000000" if "n < 600" for n
    using that by (induction n) (simp_all add: r)
  have i2: "issued True n = 600 * 2500000000 + (int n - 599) * 5000000000" if "600 \<le> n" "n < 74100" for n
    using that
  proof (induction n rule: nat_induct_at_least)
    case base
    show ?case using issued.simps(2) [of True 599] i1 [of 599] by (simp add: r)
  qed (simp add: r)
  have "issued True 74100 = issued True 74099 + 2500000000"
    using issued.simps(2) [of True 74099] by (simp add: r)
  then show ?thesis
    using i1 [of 599] i2 [of 600] i2 [of 74099] by (simp add: GetMoneySupply_def COIN_def)
qed

end
