(* ===== verification/Difficulty.thy ===== *)
theory Difficulty
  imports Subsidy External
begin

text \<open>
  Proof of work targets (\<^verbatim>\<open>main.cpp\<close>, \<^verbatim>\<open>main.h\<close>): \<^verbatim>\<open>GetNextWorkRequired\<close> through all forks,
  \<^verbatim>\<open>CheckProofOfWork\<close>, the work of a block with its cache, and the median and average block times.
  A pointer \<^verbatim>\<open>CBlockIndex*\<close> into the block tree is the list of blocks from it back to the first one:
  \<^verbatim>\<open>pprev\<close> is the tail, the null pointer is the empty list, and reading a field of the empty list
  gives \<open>None\<close>.
\<close>

record CBlockIndex =
  iHash :: uint256
  iFile :: u32
  iBlockPos :: u32
  iHeight :: int
  iChainWork :: CBigNum
  iVersion :: u32
  iMerkleRoot :: uint256
  iTime :: u32
  iBits :: u32
  iNonce :: u32

section \<open>Target spacing and timespan\<close>

definition nTargetSpacingZero :: int where "nTargetSpacingZero = 90"
definition nTargetSpacingOne :: int where "nTargetSpacingOne = nTargetSpacingZero"
definition nTargetSpacingTwo :: int where "nTargetSpacingTwo = 50"
definition nTargetSpacingThree :: int where "nTargetSpacingThree = 45"
definition nTargetSpacingFour :: int where "nTargetSpacingFour = 90"

definition nTargetTimespanZero :: int where "nTargetTimespanZero = 2400 * nTargetSpacingZero"
definition nTargetTimespanOne :: int where "nTargetTimespanOne = 600 * nTargetSpacingOne"
definition nTargetTimespanTwo :: int where "nTargetTimespanTwo = 108 * nTargetSpacingTwo"
definition nTargetTimespanThree :: int where "nTargetTimespanThree = 126 * nTargetSpacingThree"
definition nTargetTimespanFour :: int where "nTargetTimespanFour = 20 * nTargetSpacingFour"

lemmas spacing_defs = nTargetSpacingZero_def nTargetSpacingOne_def nTargetSpacingTwo_def
  nTargetSpacingThree_def nTargetSpacingFour_def nTargetTimespanZero_def nTargetTimespanOne_def
  nTargetTimespanTwo_def nTargetTimespanThree_def nTargetTimespanFour_def

definition bnProofOfWorkLimit :: "bnlib \<Rightarrow> CBigNum" where
  "bnProofOfWorkLimit B = setuint256 B (drop_bit 20 (- 1))"

definition bnNeoScryptSwitch :: "bnlib \<Rightarrow> CBigNum" where
  "bnNeoScryptSwitch B = setuint256 B (drop_bit 26 (- 1))"

section \<open>\<^verbatim>\<open>GetNextWorkRequired\<close>\<close>

text \<open>The spacing and the timespan in force at a height.\<close>

definition target_params :: "bool \<Rightarrow> int \<Rightarrow> int \<times> int" where
  "target_params fTestNet nHeight =
     (let p = (nTargetSpacingZero, nTargetTimespanZero);
          p = (if nHeight \<ge> nForkOne then (nTargetSpacingOne, nTargetTimespanOne) else p);
          p = (if nHeight \<ge> nForkTwo then (nTargetSpacingTwo, nTargetTimespanTwo) else p);
          p = (if nHeight \<ge> nForkThree \<or> fTestNet
               then (nTargetSpacingThree, nTargetTimespanThree) else p);
          p = (if nHeight \<ge> nForkFour \<or> (fTestNet \<and> nHeight \<ge> nTestnetForkOne)
               then (nTargetSpacingFour, nTargetTimespanFour) else p)
      in p)"

definition is_hard_fork :: "bool \<Rightarrow> int \<Rightarrow> bool" where
  "is_hard_fork fTestNet nHeight =
     (if fTestNet then nHeight = nTestnetForkOne \<or> nHeight = nTestnetForkTwo
      else nHeight = nForkOne \<or> nHeight = nForkTwo \<or> nHeight = nForkThree \<or>
           nHeight = nForkFour \<or> nHeight = nForkFive)"

text \<open>The test network: back to the last block that was not reset to the minimal difficulty.\<close>

fun last_regular_bits :: "int \<Rightarrow> u32 \<Rightarrow> CBlockIndex list \<Rightarrow> u32 option" where
  "last_regular_bits nInterval nProofOfWorkLimit [] = None"
| "last_regular_bits nInterval nProofOfWorkLimit (pindex # pprev) =
     (if pprev \<noteq> [] \<and> iHeight pindex mod nInterval \<noteq> 0 \<and> iBits pindex = nProofOfWorkLimit
      then last_regular_bits nInterval nProofOfWorkLimit pprev
      else Some (iBits pindex))"

fun go_back :: "nat \<Rightarrow> CBlockIndex list \<Rightarrow> CBlockIndex list" where
  "go_back 0 pindex = pindex"
| "go_back (Suc i) [] = []"
| "go_back (Suc i) (b # pprev) = go_back i pprev"

definition GetBlockTime :: "CBlockIndex \<Rightarrow> int" where
  "GetBlockTime b = uint (iTime b)"

text \<open>The limits of the timespan at a height, for the timespan in force.\<close>

definition timespan_limits :: "bool \<Rightarrow> int \<Rightarrow> int \<Rightarrow> int \<times> int" where
  "timespan_limits fTestNet nHeight nTargetTimespan =
     (let l = (nTargetTimespan div 4, nTargetTimespan * 4);
          l = (if nHeight \<ge> nForkOne
               then (nTargetTimespan * 55 div 99, nTargetTimespan * 99 div 55) else l);
          l = (if nHeight \<ge> nForkThree
               then (nTargetTimespan * 100 div 109, nTargetTimespan * 109 div 100) else l);
          l = (if nHeight \<ge> nForkFour \<or> (fTestNet \<and> nHeight \<ge> nTestnetForkOne)
               then (nTargetTimespan * 100 div 102, nTargetTimespan * 102 div 100) else l);
          l = (if nHeight \<ge> nForkFive \<or> (fTestNet \<and> nHeight \<ge> nTestnetForkTwo)
               then (fst l, nTargetTimespan * 105 div 100) else l)
      in l)"

text \<open>The timespan the last \<open>nInterval\<close> blocks took, from the fourth fork on averaged with a window
  of five times the length and damped.\<close>

definition actual_timespan ::
  "bool \<Rightarrow> int \<Rightarrow> CBlockIndex list \<Rightarrow> int \<Rightarrow> int \<Rightarrow> int option" where
  "actual_timespan fTestNet nHeight pindexLast nInterval nTargetTimespan =
     (case pindexLast of [] \<Rightarrow> None
      | tip # _ \<Rightarrow>
      (case go_back (nat nInterval) pindexLast of [] \<Rightarrow> None
       | old # rest \<Rightarrow>
         let nActualTimespan = wrap32 (GetBlockTime tip - GetBlockTime old) in
         if nHeight \<ge> nForkFour \<or> (fTestNet \<and> nHeight \<ge> nTestnetForkOne) then
           (case go_back (nat (nInterval * 4)) (old # rest) of [] \<Rightarrow> None
            | old # rest \<Rightarrow>
              let nActualTimespanExtended = wrap32 ((GetBlockTime tip - GetBlockTime old) sdiv 5);
                  nActualTimespanAvg = wrap32 (nActualTimespan + nActualTimespanExtended) sdiv 2
              in Some (wrap32 (nActualTimespanAvg + 9 * nTargetTimespan) sdiv 10))
         else Some nActualTimespan))"

definition retarget :: "bnlib \<Rightarrow> u32 \<Rightarrow> int \<Rightarrow> int \<Rightarrow> u32" where
  "retarget B nBits nActualTimespan nTargetTimespan =
     (let bnNew = SetCompact B nBits;
          bnNew = bnNew * nActualTimespan;
          bnNew = BN_div B bnNew nTargetTimespan;
          bnNew = (if bnNew > bnProofOfWorkLimit B then bnProofOfWorkLimit B else bnNew)
      in GetCompact B bnNew)"

definition clamp :: "int \<Rightarrow> int \<times> int \<Rightarrow> int" where
  "clamp x l = (let x = (if x < fst l then fst l else x) in if x > snd l then snd l else x)"

text \<open>The result with the global flag \<^verbatim>\<open>fNeoScrypt\<close>, which the code sets on the way.\<close>

definition GetNextWorkRequired ::
  "bnlib \<Rightarrow> bool \<Rightarrow> CBlockIndex list \<Rightarrow> u32 \<Rightarrow> bool \<Rightarrow> u32 option \<times> bool" where
  "GetNextWorkRequired B fTestNet pindexLast nTime fNeoScrypt =
     (let nProofOfWorkLimit = GetCompact B (bnProofOfWorkLimit B) in
      case pindexLast of [] \<Rightarrow> (Some nProofOfWorkLimit, fNeoScrypt)
      | tip # _ \<Rightarrow>
        let nHeight = iHeight tip + 1;
            (nTargetSpacing, nTargetTimespan) = target_params fTestNet nHeight;
            forkFive = (nHeight \<ge> nForkFive \<or> (fTestNet \<and> nHeight \<ge> nTestnetForkTwo));
            fNeoScrypt = (fNeoScrypt \<or> forkFive)
        in if forkFive \<and> nHeight = nForkFive then (Some (GetCompact B (bnNeoScryptSwitch B)), fNeoScrypt)
        else
        let nInterval = nTargetTimespan div nTargetSpacing in
        if nHeight mod nInterval \<noteq> 0 \<and> \<not> is_hard_fork fTestNet nHeight then
          (if fTestNet then
             (if nTime > iTime tip + word_of_int nTargetSpacing * 2 then (Some nProofOfWorkLimit, fNeoScrypt)
              else (last_regular_bits nInterval nProofOfWorkLimit pindexLast, fNeoScrypt))
           else (Some (iBits tip), fNeoScrypt))
        else
        let wide = (nHeight \<ge> nForkFour \<or> (fTestNet \<and> nHeight \<ge> nTestnetForkOne));
            nInterval = (if wide then nInterval * 5 else nInterval);
            nTargetTimespan = (if wide then nTargetTimespan * 5 else nTargetTimespan);
            nInterval = (if nInterval \<ge> nHeight then nHeight - 1 else nInterval)
        in (map_option (\<lambda>t. retarget B (iBits tip)
               (clamp t (timespan_limits fTestNet nHeight nTargetTimespan)) nTargetTimespan)
             (actual_timespan fTestNet nHeight pindexLast nInterval nTargetTimespan), fNeoScrypt))"

definition CheckProofOfWork :: "bnlib \<Rightarrow> uint256 \<Rightarrow> u32 \<Rightarrow> bool" where
  "CheckProofOfWork B hash nBits =
     (let bnTarget = SetCompact B nBits
      in if bnTarget \<le> 0 \<or> bnTarget > bnProofOfWorkLimit B then False
         else if hash > getuint256 B bnTarget then False
         else True)"

section \<open>Work, median time and average time\<close>

text \<open>\<^verbatim>\<open>GetBlockWork\<close> with its cache per \<^verbatim>\<open>nBits\<close>.\<close>

definition GetBlockWork ::
  "bnlib \<Rightarrow> u32 \<Rightarrow> (u32 \<rightharpoonup> CBigNum) \<Rightarrow> CBigNum \<times> (u32 \<rightharpoonup> CBigNum)" where
  "GetBlockWork B nBits mapWorkCache =
     (case mapWorkCache nBits of
        Some w \<Rightarrow> (w, mapWorkCache)
      | None \<Rightarrow>
          let bnTarget = SetCompact B nBits;
              bnWork = (if bnTarget > 0 then BN_div B (2 ^ 256) (bnTarget + 1) else 0)
          in (bnWork, mapWorkCache(nBits \<mapsto> bnWork)))"

definition nMedianTimeSpan :: nat where
  "nMedianTimeSpan = 11"

definition GetMedianTimePast :: "CBlockIndex list \<Rightarrow> int option" where
  "GetMedianTimePast pindex =
     (let ts = sort (map GetBlockTime (take nMedianTimeSpan pindex))
      in if ts = [] then None else Some (ts ! (length ts div 2)))"

fun average_loop :: "u32 list \<Rightarrow> u32 \<Rightarrow> u32 \<Rightarrow> u64 \<Rightarrow> u64" where
  "average_loop [] nMinDelay nTempTime nAvgAccum = nAvgAccum"
| "average_loop (t # ts) nMinDelay nTempTime nAvgAccum =
     (let nTempTime = (if t < nTempTime + nMinDelay then nTempTime + nMinDelay else t)
      in average_loop ts nMinDelay nTempTime (nAvgAccum + ucast nTempTime))"

definition GetAverageTimePast :: "CBlockIndex list \<Rightarrow> nat \<Rightarrow> u32 \<Rightarrow> u32" where
  "GetAverageTimePast pindex nAvgTimeSpan nMinDelay =
     (if nAvgTimeSpan = 0 then 0
      else
        let ts = rev (map iTime (take nAvgTimeSpan pindex));
            avg = replicate (nAvgTimeSpan - length ts) 0 @ ts
        in if hd avg = 0 then 0
           else ucast (average_loop (tl avg) nMinDelay (hd avg) (ucast (hd avg)) div
                       word_of_nat nAvgTimeSpan))"

text \<open>\<^verbatim>\<open>CBlockIndex::IsSuperMajority\<close>.\<close>

fun IsSuperMajority_loop :: "u32 \<Rightarrow> CBlockIndex list \<Rightarrow> nat \<Rightarrow> nat \<Rightarrow> nat \<Rightarrow> nat" where
  "IsSuperMajority_loop minVersion [] nRequired nToCheck nFound = nFound"
| "IsSuperMajority_loop minVersion (p # pprev) nRequired nToCheck nFound =
     (if nToCheck = 0 \<or> nFound \<ge> nRequired then nFound
      else IsSuperMajority_loop minVersion pprev nRequired (nToCheck - 1)
             (if sint (iVersion p) \<ge> sint minVersion then nFound + 1 else nFound))"

definition IsSuperMajority :: "u32 \<Rightarrow> CBlockIndex list \<Rightarrow> nat \<Rightarrow> nat \<Rightarrow> bool" where
  "IsSuperMajority minVersion pstart nRequired nToCheck \<longleftrightarrow>
     IsSuperMajority_loop minVersion pstart nRequired nToCheck 0 \<ge> nRequired"

section \<open>Chains\<close>

text \<open>The blocks of a chain have the heights 0 to n.\<close>

definition wf_chain :: "CBlockIndex list \<Rightarrow> bool" where
  "wf_chain c \<longleftrightarrow> map iHeight c = map int (rev [0..<length c])"

lemma wf_chain_tip: "wf_chain (tip # c) \<Longrightarrow> iHeight tip = int (length c)"
  by (simp add: wf_chain_def)

lemma go_back_drop: "go_back n c = drop n c"
  by (induction n c rule: go_back.induct) simp_all

lemma last_regular_bits_Some: "c \<noteq> [] \<Longrightarrow> last_regular_bits n l c \<noteq> None"
  by (induction n l c rule: last_regular_bits.induct) simp_all

lemma actual_timespan_Some:
  assumes "0 \<le> n" "n < int (length c)"
    "(h \<ge> nForkFour \<or> (T \<and> h \<ge> nTestnetForkOne)) \<longrightarrow> 5 * n < int (length c)"
  shows "actual_timespan T h c n ts \<noteq> None"
proof -
  obtain tip r where c: "c = tip # r" using assms by (cases c) auto
  obtain old r' where d: "drop (nat n) c = old # r'"
    using assms by (cases "drop (nat n) c") auto
  show ?thesis
  proof (cases "h \<ge> nForkFour \<or> (T \<and> h \<ge> nTestnetForkOne)")
    case True
    then have "5 * n < int (length c)" using assms(3) by blast
    then have "nat n + nat (n * 4) < length c" using assms(1) by (simp add: nat_mult_distrib)
    then have "drop (nat (n * 4)) (drop (nat n) c) \<noteq> []" by simp
    then obtain old2 r2 where "drop (nat (n * 4)) (old # r') = old2 # r2"
      unfolding d by (cases "drop (nat (n * 4)) (old # r')") auto
    then show ?thesis
      using True d unfolding actual_timespan_def go_back_drop c Let_def by (simp add: go_back_drop)
  next
    case False
    then show ?thesis
      using d unfolding actual_timespan_def go_back_drop c Let_def by auto
  qed
qed

lemma interval_wide:
  "h \<ge> nForkFour \<or> (T \<and> h \<ge> nTestnetForkOne) \<Longrightarrow>
    snd (target_params T h) div fst (target_params T h) = 20"
  by (auto simp: target_params_def spacing_defs)

lemma interval_pos: "0 < snd (target_params T h) div fst (target_params T h)"
  by (auto simp: target_params_def spacing_defs)

text \<open>The interval the code goes back over, and the timespan that goes with it.\<close>

definition window :: "bool \<Rightarrow> int \<Rightarrow> int \<times> int" where
  "window T h =
     (let (sp, ts) = target_params T h; n = ts div sp;
          wide = (h \<ge> nForkFour \<or> (T \<and> h \<ge> nTestnetForkOne));
          n = (if wide then n * 5 else n); ts = (if wide then ts * 5 else ts);
          n = (if n \<ge> h then h - 1 else n)
      in (n, ts))"

lemma window_bounds:
  assumes "1 \<le> h"
  shows "0 \<le> fst (window T h)" "fst (window T h) < h"
    "h \<ge> nForkFour \<or> (T \<and> h \<ge> nTestnetForkOne) \<Longrightarrow> 5 * fst (window T h) < h"
proof -
  obtain sp ts where p: "target_params T h = (sp, ts)" by fastforce
  have pos: "0 < ts div sp" using interval_pos [of T h] p by simp
  show "0 \<le> fst (window T h)" "fst (window T h) < h"
    using assms pos by (simp_all add: window_def p Let_def)
  assume w: "h \<ge> nForkFour \<or> (T \<and> h \<ge> nTestnetForkOne)"
  then have "ts div sp = 20" using interval_wide [OF w] p by simp
  then show "5 * fst (window T h) < h"
    using w by (auto simp: window_def p Let_def)
qed

lemma GetNextWorkRequired_cases:
  assumes "iHeight tip = int (length c)"
  defines "h \<equiv> int (length c) + 1"
  shows "fst (GetNextWorkRequired B T (tip # c) nTime f) =
    (if h = nForkFive then Some (GetCompact B (bnNeoScryptSwitch B))
     else if h mod (snd (target_params T h) div fst (target_params T h)) \<noteq> 0 \<and> \<not> is_hard_fork T h then
       (if T then
          (if nTime > iTime tip + word_of_int (fst (target_params T h)) * 2
           then Some (GetCompact B (bnProofOfWorkLimit B))
           else last_regular_bits (snd (target_params T h) div fst (target_params T h))
                  (GetCompact B (bnProofOfWorkLimit B)) (tip # c))
        else Some (iBits tip))
     else map_option (\<lambda>t. retarget B (iBits tip) (clamp t (timespan_limits T h (snd (window T h))))
            (snd (window T h)))
            (actual_timespan T h (tip # c) (fst (window T h)) (snd (window T h))))"
proof -
  have h: "iHeight tip + 1 = h" using assms by simp
  obtain sp ts where p: "target_params T h = (sp, ts)" by fastforce
  show ?thesis
    unfolding GetNextWorkRequired_def Let_def list.case h p prod.case fst_conv snd_conv window_def
    by (simp del: nForkOne_def nForkTwo_def nForkThree_def nForkFour_def nForkFive_def
        nTestnetForkOne_def nTestnetForkTwo_def)
qed

section \<open>The median\<close>

lemma count_below_sorted: "length (filter P (sort ys)) = length (filter P ys)"
  by (metis filter_sort length_sort)

lemma below_nth:
  assumes "k < length ys"
  shows "length (filter (\<lambda>x. x < sort ys ! k) ys) \<le> k"
proof -
  let ?m = "sort ys ! k"
  have "filter (\<lambda>x. x < ?m) (drop k (sort ys)) = []"
  proof -
    have "?m \<le> x" if x: "x \<in> set (drop k (sort ys))" for x
    proof -
      obtain i where "i < length (drop k (sort ys))" "drop k (sort ys) ! i = x"
        using x unfolding in_set_conv_nth by blast
      then show ?thesis using assms sorted_nth_mono [OF sorted_sort, of k "k + i" ys] by simp
    qed
    then show ?thesis by (simp add: filter_empty_conv not_less)
  qed
  then have "filter (\<lambda>x. x < ?m) (sort ys) = filter (\<lambda>x. x < ?m) (take k (sort ys))"
    using filter_append [of "\<lambda>x. x < ?m" "take k (sort ys)" "drop k (sort ys)"] by simp
  then have "length (filter (\<lambda>x. x < ?m) (sort ys)) \<le> length (take k (sort ys))"
    by (simp only: length_filter_le)
  also have "\<dots> \<le> k" by simp
  finally show ?thesis by (simp only: count_below_sorted)
qed

lemma nth_ge_of_count:
  assumes "length (filter (\<lambda>x. x < m) ys) \<le> k" "k < length ys"
  shows "m \<le> sort ys ! k"
proof (rule ccontr)
  assume "\<not> m \<le> sort ys ! k"
  then have lt: "sort ys ! k < m" by simp
  have "x < m" if x: "x \<in> set (take (Suc k) (sort ys))" for x
  proof -
    obtain i where "i < length (take (Suc k) (sort ys))" "take (Suc k) (sort ys) ! i = x"
      using x unfolding in_set_conv_nth by blast
    then show ?thesis using lt assms(2) sorted_nth_mono [OF sorted_sort, of i k ys] by simp
  qed
  then have "filter (\<lambda>x. x < m) (take (Suc k) (sort ys)) = take (Suc k) (sort ys)"
    by (simp add: filter_id_conv)
  then have "Suc k \<le> length (filter (\<lambda>x. x < m) (take (Suc k) (sort ys)))" using assms(2) by simp
  also have "\<dots> \<le> length (filter (\<lambda>x. x < m) (sort ys))"
    by (metis append_take_drop_id filter_append le_add1 length_append)
  finally show False using assms(1) by (simp add: count_below_sorted)
qed

lemma median_shift:
  assumes "t > sort ts ! (length ts div 2)" "ts \<noteq> []" "length ts \<le> Suc n"
  defines "us \<equiv> take (Suc n) (t # ts)"
  shows "sort ts ! (length ts div 2) \<le> sort us ! (length us div 2)"
proof (rule nth_ge_of_count)
  let ?m = "sort ts ! (length ts div 2)"
  have "length (filter (\<lambda>x. x < ?m) us) \<le> length (filter (\<lambda>x. x < ?m) ts)"
  proof -
    have "filter (\<lambda>x. x < ?m) us = filter (\<lambda>x. x < ?m) (take n ts)"
      using assms(1) by (simp add: us_def)
    also have "length \<dots> \<le> length (filter (\<lambda>x. x < ?m) (take n ts @ drop n ts))"
      unfolding filter_append length_append by (rule le_add1)
    finally show ?thesis unfolding append_take_drop_id .
  qed
  also have "\<dots> \<le> length ts div 2" using assms(2) by (intro below_nth) simp
  also have "\<dots> \<le> length us div 2"
    using assms(3) by (intro div_le_mono) (simp add: us_def)
  finally show "length (filter (\<lambda>x. x < ?m) us) \<le> length us div 2" .
  show "length us div 2 < length us" by (simp add: us_def)
qed

section \<open>Properties\<close>

text \<open>GetNextWorkRequired never reads a field of a null block pointer: on a chain with all blocks
  down to the first, the averaging windows end inside the chain at every height, on the main chain
  and on the test network, so it has a result.\<close>

theorem next_work_defined:
  assumes "wf_chain c"
  shows "fst (GetNextWorkRequired B T c nTime f) \<noteq> None"
proof (cases c)
  case Nil
  then show ?thesis by (simp add: GetNextWorkRequired_def Let_def)
next
  case (Cons tip c')
  have ht: "iHeight tip = int (length c')" using assms wf_chain_tip by (simp add: Cons)
  have h: "1 \<le> int (length c') + 1" by simp
  have "actual_timespan T (int (length c') + 1) (tip # c') (fst (window T (int (length c') + 1)))
      (snd (window T (int (length c') + 1))) \<noteq> None"
  proof (rule actual_timespan_Some)
    show "0 \<le> fst (window T (int (length c') + 1))"
      "fst (window T (int (length c') + 1)) < int (length (tip # c'))"
      using window_bounds [OF h, of T] by simp_all
    show "(nForkFour \<le> int (length c') + 1 \<or> T \<and> nTestnetForkOne \<le> int (length c') + 1) \<longrightarrow>
        5 * fst (window T (int (length c') + 1)) < int (length (tip # c'))"
      using window_bounds(3) [OF h, of T] by (intro impI) simp
  qed
  moreover have "last_regular_bits n l (tip # c') \<noteq> None" for n l
    by (rule last_regular_bits_Some) simp
  moreover have "(if a then Some x else if b then (if d then (if e then Some y else z) else Some w)
      else map_option g u) \<noteq> None" if "u \<noteq> None" "z \<noteq> None"
    for a b d e and x y w :: u32 and z and g :: "int \<Rightarrow> u32" and u
    using that by auto
  ultimately show ?thesis unfolding Cons GetNextWorkRequired_cases [OF ht] by blast
qed

lemma limit_value: "bn_laws B \<Longrightarrow> bnProofOfWorkLimit B = 2 ^ 236 - 1"
  by (simp add: bnProofOfWorkLimit_def setuint256_exact unsigned_drop_bit_eq unsigned_minus_1_eq_mask
      drop_bit_mask_eq mask_eq_exp_minus_1)

lemma clamp_range: "fst l \<le> snd l \<Longrightarrow> fst l \<le> clamp x l \<and> clamp x l \<le> snd l"
  by (auto simp: clamp_def Let_def)

lemma mpi_body_small: "0 \<le> n \<Longrightarrow> n < 2 ^ 256 \<Longrightarrow> length (mpi_body n) \<le> 33"
  using mpi_body_length [of n 32] by simp

lemma retarget_bounds:
  assumes "bn_laws B" "0 < SetCompact B b" "0 \<le> t"
  shows "retarget B b t 9000 = GetCompact B (min (2 ^ 236 - 1) (SetCompact B b * t div 9000))"
    "SetCompact B (retarget B b t 9000) \<le> min (2 ^ 236 - 1) (SetCompact B b * t div 9000)"
proof -
  have nn: "0 \<le> SetCompact B b * t" using assms by simp
  have "BN_div B (SetCompact B b * t) 9000 = SetCompact B b * t div 9000"
    using nn bn_lawsD(4) [OF assms(1), of 9000 "SetCompact B b * t"]
    by (auto simp: sgn_if)
  then show eq: "retarget B b t 9000 = GetCompact B (min (2 ^ 236 - 1) (SetCompact B b * t div 9000))"
    by (simp add: retarget_def limit_value [OF assms(1)] min_def Let_def not_le [symmetric])
  show "SetCompact B (retarget B b t 9000) \<le> min (2 ^ 236 - 1) (SetCompact B b * t div 9000)"
    unfolding eq
  proof (rule SetCompact_GetCompact_bounds(1) [OF assms(1)])
    let ?n = "min (2 ^ 236 - 1) (SetCompact B b * t div 9000)"
    show "0 \<le> ?n" using nn by (simp add: pos_imp_zdiv_nonneg_iff)
    moreover have "?n < 2 ^ 256" by (rule le_less_trans [OF min.cobounded1]) simp
    ultimately have "length (mpi_body ?n) \<le> 33" by (rule mpi_body_small)
    then show "length (mpi_body ?n) < 256" by simp
  qed
qed

lemma getuint256_uint:
  assumes "bn_laws B"
  shows "getuint256 B (uint (w :: uint256)) = w"
proof -
  let ?le = "min_le (unat w)"
  have "unat w < 2 ^ LENGTH(256)" by (rule unsigned_less)
  then have le: "length ?le \<le> 32" by (intro min_le_length) simp
  have "length (mpi_body (uint w)) < 2 ^ 31" by (rule mpi_body_length_uint) simp
  then have frame: "BN_bn2mpi B (uint w) = mpi_frame (mpi_body (uint w))" by (rule bn_lawsD(1) [OF assms])
  define body where "body = mpi_body (uint w)"
  have body: "body = (if ?le = [] then [] else if last ?le \<ge> 0x80 then 0 # rev ?le else rev ?le)"
    by (auto simp: body_def mpi_body_uint mpi_sign_def hd_rev split: list.splits)
  have h: "(b AND 0x7f) = b" if "\<not> 0x80 \<le> b" for b :: byte
  proof -
    have "unat b < 2 ^ 7" using that by (simp add: word_le_nat_alt)
    then have "take_bit 7 b = b"
      by (intro word_unat_eq_iff [THEN iffD2]) (simp add: unsigned_take_bit_eq take_bit_nat_eq_self)
    then show ?thesis by (simp add: take_bit_eq_mask mask_numeral)
  qed
  define body' where "body' = (case body of [] \<Rightarrow> [] | b # r \<Rightarrow> (b AND 0x7f) # r)"
  have "body' = rev ?le \<or> body' = 0 # rev ?le"
  proof (cases "rev ?le")
    case Nil
    then show ?thesis by (simp add: body body'_def)
  next
    case (Cons b r)
    then have "last ?le = b" by (metis hd_rev list.sel(1))
    then show ?thesis using Cons h [of b] by (auto simp: body body'_def)
  qed
  then have "take 32 (rev body') = ?le \<or> take 32 (rev body') = ?le @ [0]"
    using le by (cases "length ?le = 32") auto
  then have "le_nat (take 32 (rev body')) = unat w"
    by (auto simp: le_nat_append)
  moreover have "getuint256 B (uint w) = of_mem (take 32 (rev body'))"
    unfolding getuint256_def Let_def frame by (simp add: mpi_frame_def body_def body'_def)
  ultimately show ?thesis by (simp add: of_mem_def)
qed

text \<open>C39: The adjustment rule in force since the fifth fork. On the main chain above height 400,000 the
  target stays for 20 blocks; then it is multiplied by a timespan between 8823 and 9450 seconds over
  9000, so it falls by at most 2 percent and rises by at most 5 percent, is cut at the proof of work
  limit, and is rounded to its compact form, downwards.\<close>

theorem difficulty_adjustment:
  assumes "bn_laws B" "wf_chain (tip # c)" "400000 < Suc (length c)" "0 < SetCompact B (iBits tip)"
  shows "\<exists>bits. GetNextWorkRequired B False (tip # c) nTime f = (Some bits, True) \<and>
    (if Suc (length c) mod 20 \<noteq> 0 then bits = iBits tip
     else (\<exists>t. 8823 \<le> t \<and> t \<le> 9450 \<and>
       bits = GetCompact B (min (2 ^ 236 - 1) (SetCompact B (iBits tip) * t div 9000))) \<and>
       SetCompact B bits \<le> 2 ^ 236 - 1 \<and>
       SetCompact B bits \<le> SetCompact B (iBits tip) * 105 div 100)"
proof -
  let ?h = "int (length c) + 1" and ?T = "SetCompact B (iBits tip)"
  have ht: "iHeight tip = int (length c)" using assms(2) by (rule wf_chain_tip)
  have h: "400000 < ?h" using assms(3) by simp
  have tp: "target_params False ?h = (90, 1800)" using h by (simp add: target_params_def spacing_defs)
  have w: "window False ?h = (100, 9000)" using h by (simp add: window_def tp)
  have tl: "timespan_limits False ?h 9000 = (8823, 9450)"
    using h by (simp add: timespan_limits_def)
  have nf: "\<not> is_hard_fork False ?h" using h by (simp add: is_hard_fork_def)
  have snd: "snd (GetNextWorkRequired B False (tip # c) nTime f) = True"
    using h by (simp add: GetNextWorkRequired_def Let_def ht add.commute split: prod.split)
  have m: "?h mod 20 \<noteq> 0 \<longleftrightarrow> Suc (length c) mod 20 \<noteq> 0"
  proof -
    have "int (Suc (length c) mod 20) = ?h mod 20" by (simp add: zmod_int add.commute)
    then show ?thesis by (metis of_nat_eq_0_iff)
  qed
  show ?thesis
  proof (cases "?h mod 20 = 0")
    case False
    then have "fst (GetNextWorkRequired B False (tip # c) nTime f) = Some (iBits tip)"
      using h nf by (simp add: GetNextWorkRequired_cases [OF ht] tp)
    then show ?thesis using False m snd by (metis prod.collapse)
  next
    case True
    have "actual_timespan False ?h (tip # c) 100 9000 \<noteq> None"
      using h by (intro actual_timespan_Some) simp_all
    then obtain a where a: "actual_timespan False ?h (tip # c) 100 9000 = Some a" by blast
    define t where "t = clamp a (8823, 9450)"
    have t: "8823 \<le> t" "t \<le> 9450" using clamp_range [of "(8823, 9450)" a] by (simp_all add: t_def)
    have f: "fst (GetNextWorkRequired B False (tip # c) nTime f) = Some (retarget B (iBits tip) t 9000)"
      using h nf True by (simp add: GetNextWorkRequired_cases [OF ht] tp w tl a t_def)
    have "?T * t div 9000 \<le> ?T * 9450 div 9000"
      using t assms(4) by (intro zdiv_mono1) simp_all
    also have "\<dots> = ?T * 105 div 100" by (simp add: zdiv_zmult2_eq [symmetric]) 
    finally have le: "?T * t div 9000 \<le> ?T * 105 div 100" .
    have "0 \<le> t" using t by simp
    note rb = retarget_bounds [OF assms(1,4) this]
    have "\<exists>t. 8823 \<le> t \<and> t \<le> 9450 \<and> retarget B (iBits tip) t 9000 =
        GetCompact B (min (2 ^ 236 - 1) (?T * t div 9000))"
      using t rb(1) by blast
    then show ?thesis
      using True m snd f rb le t by (intro exI [of _ "retarget B (iBits tip) t 9000"]) (auto simp: prod_eq_iff)
  qed
qed

text \<open>CheckProofOfWork accepts a block hash exactly when the target is positive and not above the
  limit, and the hash, as a number, is not above the target: nothing is lost in the conversion of
  the target to 256 bits.\<close>

theorem proof_of_work_spec:
  assumes "bn_laws B"
  shows "CheckProofOfWork B hash nBits \<longleftrightarrow>
    (let T = SetCompact B nBits in 0 < T \<and> T \<le> 2 ^ 236 - 1 \<and> uint hash \<le> T)"
proof (cases "0 < SetCompact B nBits \<and> SetCompact B nBits \<le> 2 ^ 236 - 1")
  case True
  let ?T = "SetCompact B nBits"
  have "?T < 2 ^ 256" using True by (auto intro: le_less_trans)
  then have u: "uint (word_of_int ?T :: uint256) = ?T" using True by (simp add: unsigned_of_int take_bit_int_eq_self)
  then have "getuint256 B ?T = word_of_int ?T" using getuint256_uint [OF assms] by metis
  then show ?thesis
    using True u by (auto simp: CheckProofOfWork_def limit_value [OF assms] Let_def word_less_def word_le_def)
next
  case False
  then show ?thesis by (auto simp: CheckProofOfWork_def limit_value [OF assms] Let_def)
qed

text \<open>The median time of a chain never goes back: a block with a time stamp above the median of
  its predecessors (the rule AcceptBlock enforces) does not lower the median, however its time
  stamp compares with that of its parent.\<close>

theorem median_time_monotone:
  assumes "GetMedianTimePast c = Some m" "GetBlockTime b > m"
  shows "\<exists>m'. GetMedianTimePast (b # c) = Some m' \<and> m \<le> m'"
proof -
  let ?ts = "map GetBlockTime (take 11 c)"
  have ne: "?ts \<noteq> []" and m: "m = sort ?ts ! (length ?ts div 2)"
    using assms(1) by (auto simp: GetMedianTimePast_def nMedianTimeSpan_def Let_def split: if_splits)
  have us: "map GetBlockTime (take 11 (b # c)) = take (Suc 10) (GetBlockTime b # ?ts)"
    by (simp add: take_map min_def)
  have "m \<le> sort (map GetBlockTime (take 11 (b # c))) ! (length (map GetBlockTime (take 11 (b # c))) div 2)"
    unfolding us m using median_shift [of ?ts "GetBlockTime b" 10] assms(2) ne by (simp add: m)
  then show ?thesis by (simp add: GetMedianTimePast_def nMedianTimeSpan_def Let_def)
qed

definition sample_block :: "int \<Rightarrow> u32 \<Rightarrow> CBlockIndex" where
  "sample_block h t = \<lparr>iHash = word_of_int h, iFile = 1, iBlockPos = 0, iHeight = h, iChainWork = h,
     iVersion = 2, iMerkleRoot = 0, iTime = t, iBits = 0x02123400, iNonce = 0\<rparr>"

theorem median_time_monotone_witness:
  "GetMedianTimePast [sample_block 1 90, sample_block 0 100] = Some 100 \<and>
   (\<exists>m'. GetMedianTimePast [sample_block 2 101, sample_block 1 90, sample_block 0 100] = Some m' \<and> 100 \<le> m')"
proof -
  have m: "GetMedianTimePast [sample_block 1 90, sample_block 0 100] = Some 100"
    by (simp add: GetMedianTimePast_def nMedianTimeSpan_def GetBlockTime_def sample_block_def Let_def)
  show ?thesis
    using m median_time_monotone [OF m, of "sample_block 2 101"] by (simp add: GetBlockTime_def sample_block_def)
qed

theorem next_work_defined_witness:
  "fst (GetNextWorkRequired bn_ref False [sample_block 1 90, sample_block 0 100] 200 False) \<noteq> None"
  by (rule next_work_defined) (simp add: wf_chain_def sample_block_def)

theorem proof_of_work_spec_witness:
  "CheckProofOfWork bn_ref 5 0x01050000 \<and> \<not> CheckProofOfWork bn_ref 6 0x01050000"
proof -
  have "SetCompact bn_ref 0x01050000 = 5" by code_simp
  then show ?thesis
    using proof_of_work_spec [OF bn_ref_laws, of 5 "0x01050000"]
      proof_of_work_spec [OF bn_ref_laws, of 6 "0x01050000"] by simp
qed

definition long_chain :: "nat \<Rightarrow> CBlockIndex list" where
  "long_chain n = map (\<lambda>i. sample_block (int i) (word_of_nat (90 * i))) (rev [0..<n])"

lemma long_chain_wf: "wf_chain (long_chain n)" "length (long_chain n) = n"
  by (simp_all add: wf_chain_def long_chain_def comp_def sample_block_def rev_map)

lemma long_chain_Suc:
  "long_chain (Suc n) = sample_block (int n) (word_of_nat (90 * n)) # long_chain n"
  by (simp add: long_chain_def)

theorem difficulty_adjustment_witness:
  "\<exists>tip c bits. wf_chain (tip # c) \<and> length c = 400019 \<and>
     GetNextWorkRequired bn_ref False (tip # c) 0 False = (Some bits, True) \<and>
     SetCompact bn_ref bits \<le> SetCompact bn_ref (iBits tip) * 105 div 100"
proof -
  define n where "n = (400019 :: nat)"
  let ?tip = "sample_block (int n) (word_of_nat (90 * n))"
  have wf: "wf_chain (?tip # long_chain n)"
    using long_chain_wf(1) [of "Suc n"] unfolding long_chain_Suc .
  have "SetCompact bn_ref 0x02123400 = 0x1234" by code_simp
  then have pos: "0 < SetCompact bn_ref (iBits ?tip)" by (simp add: sample_block_def)
  have len: "400000 < Suc (length (long_chain n))" by (simp only: long_chain_wf) (simp add: n_def)
  obtain bits where
    b: "GetNextWorkRequired bn_ref False (?tip # long_chain n) 0 False = (Some bits, True)"
      "if Suc (length (long_chain n)) mod 20 \<noteq> 0 then bits = iBits ?tip
       else (\<exists>t. 8823 \<le> t \<and> t \<le> 9450 \<and>
         bits = GetCompact bn_ref (min (2 ^ 236 - 1) (SetCompact bn_ref (iBits ?tip) * t div 9000))) \<and>
         SetCompact bn_ref bits \<le> 2 ^ 236 - 1 \<and>
         SetCompact bn_ref bits \<le> SetCompact bn_ref (iBits ?tip) * 105 div 100"
    using difficulty_adjustment [OF bn_ref_laws wf len pos, of 0 False] by blast
  have "Suc (length (long_chain n)) mod 20 = 0" by (simp only: long_chain_wf) (simp add: n_def)
  with b(2) have "SetCompact bn_ref bits \<le> SetCompact bn_ref (iBits ?tip) * 105 div 100" by simp
  moreover have "length (long_chain n) = 400019" using long_chain_wf(2) [of n] n_def by (rule trans)
  ultimately show ?thesis using wf b(1) by blast
qed

end
