(* ===== verification/Block.thy ===== *)
theory Block
  imports Difficulty
begin

text \<open>
  \<^verbatim>\<open>CBlock\<close> of \<^verbatim>\<open>main.h\<close>: the header and its hash, the proof of work hash with its cache, the height
  in the coin base, and the Merkle tree: building it, extracting a branch and checking one. The
  NeoScrypt function (\<^verbatim>\<open>neoscrypt.c\<close>) is a parameter.
\<close>

record CBlock =
  bVersion :: u32
  hashPrevBlock :: uint256
  hashMerkleRoot :: uint256
  nTime :: u32
  nBits :: u32
  nNonce :: u32
  vtx :: "CTransaction list"
  vMerkleTree :: "uint256 list"
  bDoS :: int
  fCachedPoWValid :: bool
  vchCachedPoWHeader :: bytes
  nCachedPoWProfile :: u32
  hashCachedPoW :: uint256

definition CURRENT_BLOCK_VERSION :: u32 where
  "CURRENT_BLOCK_VERSION = 2"

definition CBlock_SetNull :: CBlock where
  "CBlock_SetNull = \<lparr>bVersion = CURRENT_BLOCK_VERSION, hashPrevBlock = 0, hashMerkleRoot = 0, nTime = 0,
     nBits = 0, nNonce = 0, vtx = [], vMerkleTree = [], bDoS = 0, fCachedPoWValid = False, vchCachedPoWHeader = replicate 80 0,
     nCachedPoWProfile = 0, hashCachedPoW = 0\<rparr>"

definition CBlock_IsNull :: "CBlock \<Rightarrow> bool" where
  "CBlock_IsNull b = (nBits b = 0)"

text \<open>The 80 bytes from \<^verbatim>\<open>nVersion\<close> to \<^verbatim>\<open>nNonce\<close>, as they lie in memory and on the wire.\<close>

definition block_header :: "CBlock \<Rightarrow> bytes" where
  "block_header b = ser_word (bVersion b) @ ser_word (hashPrevBlock b) @ ser_word (hashMerkleRoot b) @
     ser_word (nTime b) @ ser_word (nBits b) @ ser_word (nNonce b)"

definition CBlock_GetHash :: "ext \<Rightarrow> CBlock \<Rightarrow> uint256" where
  "CBlock_GetHash E b = Hash E (block_header b)"

definition ser_CBlock :: "CBlock \<Rightarrow> bytes" where
  "ser_CBlock b = block_header b @ ser_vec ser_CTransaction (vtx b)"

definition unser_CBlock :: "bytes \<Rightarrow> (CBlock \<times> bytes) option" where
  "unser_CBlock s =
     (let (v, s) = unser_word s; (p, s) = unser_word s; (m, s) = unser_word s; (t, s) = unser_word s;
          (n, s) = unser_word s; (o', s) = unser_word s
      in case unser_vec unser_CTransaction s of None \<Rightarrow> None
         | Some (x, s) \<Rightarrow>
             Some (CBlock_SetNull\<lparr>bVersion := v, hashPrevBlock := p, hashMerkleRoot := m, nTime := t,
                nBits := n, nNonce := o', vtx := x\<rparr>, s))"

section \<open>The height in the coin base and the proof of work hash\<close>

definition GetBlockHeight :: "CBlock \<Rightarrow> int" where
  "GetBlockHeight b =
     (case vtx b of [] \<Rightarrow> - 1
      | tx # _ \<Rightarrow>
        (case vin tx of [] \<Rightarrow> - 1
         | txin # _ \<Rightarrow>
           (case scriptSig txin of [] \<Rightarrow> - 1
            | scount # r \<Rightarrow>
              if scount < 4 \<and> unat scount \<le> length r
              then int (le_nat (take (unat scount) r)) else - 1)))"

definition nSwitchV2 :: u32 where "nSwitchV2 = 1406851200"
definition nTestnetSwitchV2 :: u32 where "nTestnetSwitchV2 = 1404777600"

definition pow_profile :: "bool \<Rightarrow> u32 \<Rightarrow> CBlock \<Rightarrow> u32" where
  "pow_profile fTestNet nNeoScryptOptions b =
     (let profile =
        (if (fTestNet \<and> nTime b < nTestnetSwitchV2) \<or> (\<not> fTestNet \<and> nTime b < nSwitchV2) then 0x3
         else
           let nHeight = GetBlockHeight b
           in if fTestNet then (if nHeight < nTestnetForkTwo then 0x3 else 0)
              else (if nHeight < nForkFive then 0x3 else 0))
      in profile OR nNeoScryptOptions)"

definition GetHashPoW ::
  "(bytes \<Rightarrow> u32 \<Rightarrow> uint256) \<Rightarrow> bool \<Rightarrow> u32 \<Rightarrow> CBlock \<Rightarrow> uint256 \<times> CBlock" where
  "GetHashPoW neoscrypt fTestNet nNeoScryptOptions b =
     (let profile = pow_profile fTestNet nNeoScryptOptions b
      in if fCachedPoWValid b \<and> nCachedPoWProfile b = profile \<and> vchCachedPoWHeader b = block_header b
         then (hashCachedPoW b, b)
         else
           let hash = neoscrypt (block_header b) profile
           in (hash, b\<lparr>fCachedPoWValid := True, vchCachedPoWHeader := block_header b,
                       nCachedPoWProfile := profile, hashCachedPoW := hash\<rparr>))"

section \<open>The Merkle tree\<close>

definition Hash2 :: "ext \<Rightarrow> uint256 \<Rightarrow> uint256 \<Rightarrow> uint256" where
  "Hash2 E a b = Hash E (mem a @ mem b)"

text \<open>The inner loop: the parents of the \<open>nSize\<close> nodes from index \<open>j\<close> on.\<close>

definition merkle_row :: "ext \<Rightarrow> uint256 list \<Rightarrow> nat \<Rightarrow> nat \<Rightarrow> uint256 list" where
  "merkle_row E tree j nSize =
     map (\<lambda>k. let i = 2 * k; i2 = min (i + 1) (nSize - 1)
               in Hash2 E (tree ! (j + i)) (tree ! (j + i2)))
       [0..<(nSize + 1) div 2]"

function BuildMerkleTree_loop :: "ext \<Rightarrow> uint256 list \<Rightarrow> nat \<Rightarrow> nat \<Rightarrow> uint256 list" where
  "BuildMerkleTree_loop E tree j nSize =
     (if nSize > 1
      then BuildMerkleTree_loop E (tree @ merkle_row E tree j nSize) (j + nSize)
             ((nSize + 1) div 2)
      else tree)"
  by pat_completeness auto
termination by (relation "measure (\<lambda>(E, t, j, n). n)") auto

declare BuildMerkleTree_loop.simps [simp del]

definition BuildMerkleTree :: "ext \<Rightarrow> uint256 list \<Rightarrow> uint256 list \<times> uint256" where
  "BuildMerkleTree E vTxHashes =
     (let tree = BuildMerkleTree_loop E vTxHashes 0 (length vTxHashes)
      in (tree, if tree = [] then 0 else last tree))"

function GetMerkleBranch_loop :: "uint256 list \<Rightarrow> nat \<Rightarrow> nat \<Rightarrow> nat \<Rightarrow> uint256 list" where
  "GetMerkleBranch_loop tree j nSize nIndex =
     (if nSize > 1
      then (tree ! (j + min (nIndex XOR 1) (nSize - 1))) #
             GetMerkleBranch_loop tree (j + nSize) ((nSize + 1) div 2) (nIndex div 2)
      else [])"
  by pat_completeness auto
termination by (relation "measure (\<lambda>(t, j, n, i). n)") auto

declare GetMerkleBranch_loop.simps [simp del]

text \<open>The tree is cached in the block; the code builds it when it is empty.\<close>

definition GetMerkleBranch :: "ext \<Rightarrow> CBlock \<Rightarrow> nat \<Rightarrow> uint256 list \<times> CBlock" where
  "GetMerkleBranch E b nIndex =
     (let b = (if vMerkleTree b = []
               then b\<lparr>vMerkleTree := fst (BuildMerkleTree E (map (GetHash E) (vtx b)))\<rparr> else b)
      in (GetMerkleBranch_loop (vMerkleTree b) 0 (length (vtx b)) nIndex, b))"

text \<open>\<^verbatim>\<open>CBlock::DoS\<close>, the misbehaviour score of the sender.\<close>

definition CBlock_DoS :: "CBlock \<Rightarrow> int \<Rightarrow> bool \<Rightarrow> bool \<times> CBlock" where
  "CBlock_DoS b nDoSIn fIn = (fIn, b\<lparr>bDoS := bDoS b + nDoSIn\<rparr>)"

fun CheckMerkleBranch_loop :: "ext \<Rightarrow> uint256 \<Rightarrow> uint256 list \<Rightarrow> int \<Rightarrow> uint256" where
  "CheckMerkleBranch_loop E hash [] nIndex = hash"
| "CheckMerkleBranch_loop E hash (otherside # r) nIndex =
     CheckMerkleBranch_loop E (if odd nIndex then Hash2 E otherside hash else Hash2 E hash otherside) r
       (nIndex div 2)"

definition CheckMerkleBranch :: "ext \<Rightarrow> uint256 \<Rightarrow> uint256 list \<Rightarrow> int \<Rightarrow> uint256" where
  "CheckMerkleBranch E hash vMerkleBranch nIndex =
     (if nIndex = - 1 then 0 else CheckMerkleBranch_loop E hash vMerkleBranch nIndex)"

section \<open>The levels of the tree\<close>

text \<open>The reference definition: the parents of a level, and the root by repeating it.\<close>

fun parents :: "ext \<Rightarrow> uint256 list \<Rightarrow> uint256 list" where
  "parents E [] = []"
| "parents E [a] = [Hash2 E a a]"
| "parents E (a # b # r) = Hash2 E a b # parents E r"

lemma length_parents [simp]: "length (parents E l) = (length l + 1) div 2"
  by (induction E l rule: parents.induct) simp_all

lemma parents_eq_Nil [simp]: "parents E l = [] \<longleftrightarrow> l = []"
  by (cases "(E, l)" rule: parents.cases) simp_all

function merkle_root :: "ext \<Rightarrow> uint256 list \<Rightarrow> uint256" where
  "merkle_root E l = (if length l > 1 then merkle_root E (parents E l) else if l = [] then 0 else hd l)"
  by pat_completeness auto
termination by (relation "measure (\<lambda>(E, l). length l)") auto

declare merkle_root.simps [simp del]

lemma parents_nth:
  "k < (length l + 1) div 2 \<Longrightarrow>
     parents E l ! k = Hash2 E (l ! (2 * k)) (l ! min (2 * k + 1) (length l - 1))"
proof (induction E l arbitrary: k rule: parents.induct)
  case (3 E a b r)
  show ?case
  proof (cases k)
    case 0
    then show ?thesis by simp
  next
    case (Suc k')
    then have k': "k' < (length r + 1) div 2" using "3.prems" by simp
    then have "r \<noteq> []" by auto
    then have "min (2 * k + 1) (length (a # b # r) - 1) = Suc (Suc (min (2 * k' + 1) (length r - 1)))"
      using Suc by (cases r) simp_all
    then show ?thesis using "3.IH" [OF k'] Suc by simp
  qed
qed simp_all

lemma merkle_row_parents:
  "merkle_row E (pre @ l) (length pre) (length l) = parents E l"
proof (rule nth_equalityI)
  show len: "length (merkle_row E (pre @ l) (length pre) (length l)) = length (parents E l)"
    by (simp add: merkle_row_def)
  fix k assume "k < length (merkle_row E (pre @ l) (length pre) (length l))"
  then have k: "k < (length l + 1) div 2" by (simp add: len)
  then show "merkle_row E (pre @ l) (length pre) (length l) ! k = parents E l ! k"
    by (simp add: merkle_row_def parents_nth Let_def nth_append)
qed

lemma tree_step:
  "length l > 1 \<Longrightarrow> BuildMerkleTree_loop E (pre @ l) (length pre) (length l) =
     BuildMerkleTree_loop E ((pre @ l) @ parents E l) (length (pre @ l)) (length (parents E l))"
  by (subst BuildMerkleTree_loop.simps) (simp add: merkle_row_parents)

lemma tree_stop: "\<not> length l > 1 \<Longrightarrow> BuildMerkleTree_loop E (pre @ l) (length pre) (length l) = pre @ l"
  by (subst BuildMerkleTree_loop.simps) simp

lemma tree_prefix:
  "\<exists>post. BuildMerkleTree_loop E (pre @ l) (length pre) (length l) = pre @ l @ post"
proof (induction E l arbitrary: pre rule: merkle_root.induct)
  case (1 E l)
  show ?case
  proof (cases "length l > 1")
    case True
    obtain post where "BuildMerkleTree_loop E ((pre @ l) @ parents E l) (length (pre @ l))
        (length (parents E l)) = (pre @ l) @ parents E l @ post" using 1 [OF True] by blast
    then show ?thesis using tree_step [OF True] by simp
  qed (simp add: tree_stop)
qed

lemma tree_last:
  "l \<noteq> [] \<Longrightarrow> last (BuildMerkleTree_loop E (pre @ l) (length pre) (length l)) = merkle_root E l"
proof (induction E l arbitrary: pre rule: merkle_root.induct)
  case (1 E l)
  show ?case
  proof (cases "length l > 1")
    case True
    then have "parents E l \<noteq> []" by auto
    then show ?thesis
      using "1.IH" [OF True, of "pre @ l"] True by (simp add: tree_step merkle_root.simps [of E l])
  next
    case False
    then have "length l = 1" using "1.prems" by (cases l) auto
    then obtain a where "l = [a]" by (auto simp: length_Suc_conv)
    then show ?thesis using False tree_stop [of l E pre] by (simp add: merkle_root.simps)
  qed
qed

lemma BuildMerkleTree_root: "snd (BuildMerkleTree E hs) = merkle_root E hs"
proof (cases "hs = []")
  case True
  then show ?thesis by (simp add: BuildMerkleTree_def BuildMerkleTree_loop.simps merkle_root.simps)
next
  case False
  have "BuildMerkleTree_loop E ([] @ hs) (length []) (length hs) \<noteq> []"
    using tree_prefix [of E "[]" hs] False by auto
  then show ?thesis using tree_last [OF False, of E "[]"] by (simp add: BuildMerkleTree_def Let_def)
qed

lemma xor_1: "n XOR Suc 0 = (if odd n then n - 1 else n + 1)" for n :: nat
  using xor_one_eq [of n] by simp

lemma branch_checks:
  assumes "i < length l" "tree = BuildMerkleTree_loop E (pre @ l) (length pre) (length l)"
  shows "CheckMerkleBranch_loop E (l ! i) (GetMerkleBranch_loop tree (length pre) (length l) i) (int i) =
    merkle_root E l"
  using assms
proof (induction E l arbitrary: pre i rule: merkle_root.induct)
  case (1 E l)
  show ?case
  proof (cases "length l > 1")
    case False
    then have "l = [l ! 0]" "i = 0" using "1.prems"(1) by (cases l; simp)+
    then show ?thesis using False
      by (metis CheckMerkleBranch_loop.simps(1) GetMerkleBranch_loop.simps list.sel(1) merkle_root.simps
          not_Cons_self2)
  next
    case True
    let ?o = "min (i XOR 1) (length l - 1)"
    have tree: "tree = BuildMerkleTree_loop E ((pre @ l) @ parents E l) (length (pre @ l)) (length (parents E l))"
      using "1.prems"(2) by (simp only: tree_step [OF True])
    obtain post where post: "tree = pre @ l @ post"
      using "1.prems"(2) tree_prefix [of E pre l] by blast
    have o: "?o < length l" using True by simp
    then have at: "tree ! (length pre + ?o) = l ! ?o" by (simp add: post nth_append)
    have i2: "i div 2 < length (parents E l)" using "1.prems"(1) by simp
    have up: "parents E l ! (i div 2) =
        (if odd (int i) then Hash2 E (l ! ?o) (l ! i) else Hash2 E (l ! i) (l ! ?o))"
    proof (cases "odd i")
      case True
      then have d: "2 * (i div 2) = i - 1" "2 * (i div 2) + 1 = i" by simp_all
      have "min i (length l - 1) = i" "?o = i - 1" using True "1.prems"(1) by (simp_all add: xor_1)
      then show ?thesis using parents_nth [of "i div 2" l E, unfolded d] i2 True by simp
    next
      case False
      then have "2 * (i div 2) = i" by simp
      then show ?thesis using parents_nth [of "i div 2" l E] i2 False by (simp add: xor_1)
    qed
    have "CheckMerkleBranch_loop E (parents E l ! (i div 2))
        (GetMerkleBranch_loop tree (length (pre @ l)) (length (parents E l)) (i div 2)) (int (i div 2)) =
      merkle_root E (parents E l)"
      by (rule "1.IH" [OF True i2 tree])
    then show ?thesis
      using True at up
      by (subst GetMerkleBranch_loop.simps) (cases "odd i"; simp add: merkle_root.simps [of E l] zdiv_int)
  qed
qed

section \<open>What the root commits to\<close>

text \<open>The pairs of nodes that are hashed to build the tree.\<close>

fun level_pairs :: "uint256 list \<Rightarrow> (uint256 \<times> uint256) list" where
  "level_pairs [] = []"
| "level_pairs [a] = [(a, a)]"
| "level_pairs (a # b # r) = (a, b) # level_pairs r"

lemma parents_pairs: "parents E l = map (\<lambda>(a, b). Hash2 E a b) (level_pairs l)"
  by (induction E l rule: parents.induct) simp_all

lemma level_pairs_inj: "length xs = length ys \<Longrightarrow> level_pairs xs = level_pairs ys \<Longrightarrow> xs = ys"
proof (induction xs arbitrary: ys rule: level_pairs.induct)
  case (2 a)
  then show ?case by (cases ys rule: level_pairs.cases) simp_all
next
  case (3 a b r)
  then show ?case by (cases ys rule: level_pairs.cases) simp_all
qed simp

function tree_pairs :: "ext \<Rightarrow> uint256 list \<Rightarrow> (uint256 \<times> uint256) list" where
  "tree_pairs E l = (if length l > 1 then level_pairs l @ tree_pairs E (parents E l) else [])"
  by pat_completeness auto
termination by (relation "measure (\<lambda>(E, l). length l)") auto

declare tree_pairs.simps [simp del]

definition collision_in ::
  "ext \<Rightarrow> (uint256 \<times> uint256) list \<Rightarrow> (uint256 \<times> uint256) list \<Rightarrow> bool" where
  "collision_in E ps qs \<longleftrightarrow>
     list_ex (\<lambda>(a, b). list_ex (\<lambda>(c, d). (a, b) \<noteq> (c, d) \<and> Hash2 E a b = Hash2 E c d) qs) ps"

lemma collision_in_mono:
  "collision_in E ps qs \<Longrightarrow> set ps \<subseteq> set ps' \<Longrightarrow> set qs \<subseteq> set qs' \<Longrightarrow> collision_in E ps' qs'"
  unfolding collision_in_def list_ex_iff by fastforce

lemma map_hash_collision:
  assumes "map (\<lambda>(a, b). Hash2 E a b) ps = map (\<lambda>(a, b). Hash2 E a b) qs" "ps \<noteq> qs"
  shows "collision_in E ps qs"
  using assms
proof (induction ps qs rule: list_induct2')
  case (4 p ps q qs)
  show ?case
  proof (cases "p = q")
    case True
    then have "collision_in E ps qs" using 4 by auto
    then show ?thesis by (rule collision_in_mono) auto
  next
    case False
    then show ?thesis using "4.prems"(1) by (cases p; cases q) (auto simp: collision_in_def)
  qed
qed auto

lemma merkle_root_binding:
  "length xs = length ys \<Longrightarrow> merkle_root E xs = merkle_root E ys \<Longrightarrow> xs \<noteq> ys \<Longrightarrow>
     collision_in E (tree_pairs E xs) (tree_pairs E ys)"
proof (induction E xs arbitrary: ys rule: merkle_root.induct)
  case (1 E xs)
  show ?case
  proof (cases "length xs > 1")
    case True
    have tp: "tree_pairs E xs = level_pairs xs @ tree_pairs E (parents E xs)"
      "tree_pairs E ys = level_pairs ys @ tree_pairs E (parents E ys)"
      using True "1.prems"(1) by (simp_all add: tree_pairs.simps [of E xs] tree_pairs.simps [of E ys])
    show ?thesis
    proof (cases "parents E xs = parents E ys")
      case True
      have "level_pairs xs \<noteq> level_pairs ys" using level_pairs_inj "1.prems" by blast
      then have "collision_in E (level_pairs xs) (level_pairs ys)"
        using True by (intro map_hash_collision) (simp_all add: parents_pairs)
      then show ?thesis unfolding tp by (rule collision_in_mono) auto
    next
      case False
      have "collision_in E (tree_pairs E (parents E xs)) (tree_pairs E (parents E ys))"
        using "1.IH" [OF True _ _ False] "1.prems" True
        by (simp add: merkle_root.simps [of E xs] merkle_root.simps [of E ys])
      then show ?thesis unfolding tp by (rule collision_in_mono) auto
    qed
  next
    case False
    then have "xs = ys"
      using "1.prems"(1,2) by (cases xs; cases ys) (simp_all add: merkle_root.simps)
    then show ?thesis using "1.prems"(3) by blast
  qed
qed

section \<open>The cached proof of work hash\<close>

definition pow_cache_ok :: "(bytes \<Rightarrow> u32 \<Rightarrow> uint256) \<Rightarrow> CBlock \<Rightarrow> bool" where
  "pow_cache_ok neoscrypt b \<longleftrightarrow>
     (if fCachedPoWValid b then hashCachedPoW b = neoscrypt (vchCachedPoWHeader b) (nCachedPoWProfile b) else True)"

section \<open>Reading a block back\<close>

text \<open>The tree kept in the block is that of its transactions, or none.\<close>

definition tree_kept :: "ext \<Rightarrow> CBlock \<Rightarrow> bool" where
  "tree_kept E b \<longleftrightarrow>
     vMerkleTree b = [] \<or> vMerkleTree b = fst (BuildMerkleTree E (map (GetHash E) (vtx b)))"

definition block_fits :: "CBlock \<Rightarrow> bool" where
  "block_fits b \<longleftrightarrow> length (vtx b) \<le> MAX_SIZE \<and> list_all (\<lambda>tx. tx_fits tx \<and> nDoS tx = 0) (vtx b)"

interpretation vtx_codec: prefix_codec "ser_vec ser_CTransaction" "unser_vec unser_CTransaction"
  "\<lambda>v. length v \<le> MAX_SIZE \<and> list_all (\<lambda>tx. tx_fits tx \<and> nDoS tx = 0) v"
  by (rule tx_codec.vec_codec)

lemma unser_ser_CBlock:
  assumes "block_fits b"
  shows "unser_CBlock (ser_CBlock b @ rest) =
      Some (CBlock_SetNull\<lparr>bVersion := bVersion b, hashPrevBlock := hashPrevBlock b,
        hashMerkleRoot := hashMerkleRoot b, nTime := nTime b, nBits := nBits b, nNonce := nNonce b,
        vtx := vtx b\<rparr>, rest)"
  using assms
  by (simp add: unser_CBlock_def ser_CBlock_def block_header_def block_fits_def unser_ser_word
      vtx_codec.roundtrip Let_def)

section \<open>Properties\<close>

text \<open>C38: The Merkle branch of a transaction proves it: for every index, checking the branch that
  GetMerkleBranch takes from the tree of a block against the hash of the transaction there gives the
  root that BuildMerkleTree computes, odd levels with their doubled last node included. The tree is
  built once and kept in the block.\<close>

theorem merkle_branch_proves:
  assumes "i < length (vtx b)" "tree_kept E b"
  shows "CheckMerkleBranch E (GetHash E (vtx b ! i)) (fst (GetMerkleBranch E b i)) (int i) =
      snd (BuildMerkleTree E (map (GetHash E) (vtx b))) \<and>
    tree_kept E (snd (GetMerkleBranch E b i))"
proof -
  let ?hs = "map (GetHash E) (vtx b)"
  have "fst (BuildMerkleTree E ?hs) = BuildMerkleTree_loop E ([] @ ?hs) (length []) (length ?hs)"
    by (simp add: BuildMerkleTree_def Let_def)
  from branch_checks [OF _ this, of i] assms show ?thesis
    by (auto simp: CheckMerkleBranch_def GetMerkleBranch_def BuildMerkleTree_root tree_kept_def Let_def)
qed

text \<open>C37: The Merkle root commits to the transactions: two different lists of the same length with the
  same root give, among the pairs of nodes hashed for the two trees, two different pairs with the
  same hash. Lists of different length can have the same root: the code doubles the last node of an
  odd level, so a block that repeats its last transactions keeps its root (which is why CheckBlock
  refuses repeated transaction ids).\<close>

theorem merkle_root_commits:
  assumes "length xs = length ys" "snd (BuildMerkleTree E xs) = snd (BuildMerkleTree E ys)" "xs \<noteq> ys"
  shows "collision_in E (tree_pairs E xs) (tree_pairs E ys) \<and>
    snd (BuildMerkleTree E [a, b, c]) = snd (BuildMerkleTree E [a, b, c, c])"
  using assms merkle_root_binding [of xs ys E] by (simp add: BuildMerkleTree_root merkle_root.simps)

text \<open>The cache of the proof of work hash is transparent: from a block with no cached value, whatever
  fields of the header and transactions are changed between calls, GetHashPoW returns the hash of
  the present header under the present profile, and leaves a cache with the same guarantee.\<close>

theorem pow_cache_transparent:
  assumes "pow_cache_ok neo b"
  shows "(case GetHashPoW neo T opt (b\<lparr>bVersion := v, hashPrevBlock := hp, hashMerkleRoot := hm, nTime := t,
        nBits := nb, nNonce := nn, vtx := txs\<rparr>) of
      (h, b') \<Rightarrow> h = neo (block_header b') (pow_profile T opt b') \<and> pow_cache_ok neo b' \<and>
        block_header b' = block_header (b\<lparr>bVersion := v, hashPrevBlock := hp, hashMerkleRoot := hm,
          nTime := t, nBits := nb, nNonce := nn\<rparr>) \<and> vtx b' = txs) \<and> pow_cache_ok neo CBlock_SetNull"
  using assms
  by (simp add: GetHashPoW_def pow_cache_ok_def Let_def block_header_def pow_profile_def GetBlockHeight_def
      CBlock_SetNull_def)

text \<open>A block is read back from its serialization, header and transactions; its hash is that of
  the first 80 bytes, whatever the transactions are.\<close>

theorem block_roundtrip:
  assumes "block_fits b"
  shows "unser_CBlock (ser_CBlock b @ rest) =
      Some (CBlock_SetNull\<lparr>bVersion := bVersion b, hashPrevBlock := hashPrevBlock b,
        hashMerkleRoot := hashMerkleRoot b, nTime := nTime b, nBits := nBits b, nNonce := nNonce b,
        vtx := vtx b\<rparr>, rest) \<and>
    CBlock_GetHash E b = Hash E (take 80 (ser_CBlock b))"
proof
  show "CBlock_GetHash E b = Hash E (take 80 (ser_CBlock b))"
    by (simp add: ser_CBlock_def block_header_def CBlock_GetHash_def ser_word_def)
qed (rule unser_ser_CBlock [OF assms])

definition sample_CBlock :: CBlock where
  "sample_CBlock = CBlock_SetNull\<lparr>nTime := 1500000000, nBits := 5, vtx := [sample_tx\<lparr>nDoS := 0\<rparr>, sample_tx\<lparr>nDoS := 0, nLockTime := 3\<rparr>]\<rparr>"

theorem block_roundtrip_witness:
  "block_fits sample_CBlock \<and> (\<exists>b. unser_CBlock (ser_CBlock sample_CBlock @ [1]) = Some (b, [1]) \<and>
     vtx b = vtx sample_CBlock)"
proof -
  have "block_fits sample_CBlock"
    by (simp add: block_fits_def sample_CBlock_def sample_tx_def tx_fits_def script_fits_def MAX_SIZE_def)
  then show ?thesis using block_roundtrip [of sample_CBlock "[1]" ext_ref] by auto
qed

theorem merkle_branch_proves_witness:
  "CheckMerkleBranch ext_ref (GetHash ext_ref (sample_tx\<lparr>nDoS := 0, nLockTime := 3\<rparr>))
     (fst (GetMerkleBranch ext_ref sample_CBlock 1)) 1 =
   snd (BuildMerkleTree ext_ref (map (GetHash ext_ref) (vtx sample_CBlock)))"
  using merkle_branch_proves [of 1 sample_CBlock ext_ref]
  by (simp add: sample_CBlock_def tree_kept_def CBlock_SetNull_def)

theorem merkle_root_commits_witness:
  "collision_in ext_ref (tree_pairs ext_ref [1, 2]) (tree_pairs ext_ref [1, 3])"
proof -
  have "Hash2 ext_ref 1 b = Hash2 ext_ref 1 c" for b c
    by (simp add: Hash2_def Hash_def ext_ref_def)
  then have "snd (BuildMerkleTree ext_ref [1, 2]) = snd (BuildMerkleTree ext_ref [1, 3])"
    by (simp add: BuildMerkleTree_root merkle_root.simps)
  then show ?thesis
    using merkle_root_commits [of "[1, 2]" "[1, 3]" ext_ref] by simp
qed

theorem pow_cache_transparent_witness:
  "pow_cache_ok (\<lambda>h p. of_mem h) CBlock_SetNull \<and>
   fst (GetHashPoW (\<lambda>h p. of_mem h) False 0 (CBlock_SetNull\<lparr>nTime := 7\<rparr>)) = 
     of_mem (block_header (CBlock_SetNull\<lparr>nTime := 7\<rparr>))"
proof -
  have ok: "pow_cache_ok (\<lambda>h p. of_mem h) CBlock_SetNull"
    by (simp add: pow_cache_ok_def CBlock_SetNull_def)
  show ?thesis
    using ok pow_cache_transparent [OF ok, where T = False and opt = 0 and v = 2 and hp = 0 and hm = 0 and t = 7
        and nb = 0 and nn = 0 and txs = "[]"]
    by (auto simp: CBlock_SetNull_def CURRENT_BLOCK_VERSION_def GetHashPoW_def)
qed

end
