(* ===== verification/SigHash.thy ===== *)
theory SigHash
  imports Transaction
begin

text \<open>
  The signature hash of \<^verbatim>\<open>script.cpp\<close>: the preimage \<^verbatim>\<open>ConstructSignatureHashPreimage\<close> builds from
  the transaction, the input and the script code, its hash, and the domain-separated message the
  ML-DSA half of a hybrid signature signs. \<open>None\<close> is the \<^verbatim>\<open>false\<close> the code returns for an input
  index or a SIGHASH_SINGLE index out of range. Signature hash types are \<^verbatim>\<open>int\<close>s, kept as words
  of 32 bits.
\<close>

unbundle bit_operations_syntax

definition SIGHASH_ALL :: u32 where [simp]: "SIGHASH_ALL = 1"

definition SIGHASH_NONE :: u32 where [simp]: "SIGHASH_NONE = 2"

definition SIGHASH_SINGLE :: u32 where [simp]: "SIGHASH_SINGLE = 3"

definition SIGHASH_ANYONECANPAY :: u32 where [simp]: "SIGHASH_ANYONECANPAY = 0x80"

text \<open>The loop that clears the sequence numbers of the other inputs.\<close>

definition zero_other_sequences :: "nat \<Rightarrow> CTxIn list \<Rightarrow> CTxIn list" where
  "zero_other_sequences nIn ins =
     map (\<lambda>(i, txin). if i \<noteq> nIn then txin\<lparr>nSequence := 0\<rparr> else txin) (List.enumerate 0 ins)"

definition blank_outputs :: "u32 \<Rightarrow> nat \<Rightarrow> CTransaction \<Rightarrow> CTransaction option" where
  "blank_outputs nHashType nIn txTmp =
     (if nHashType AND 0x1f = SIGHASH_NONE then
        Some (txTmp\<lparr>vout := [], vin := zero_other_sequences nIn (vin txTmp)\<rparr>)
      else if nHashType AND 0x1f = SIGHASH_SINGLE then
        let nOut = nIn
        in if nOut \<ge> length (vout txTmp) then None
           else Some (txTmp\<lparr>vout := replicate nOut CTxOut_SetNull @ [vout txTmp ! nOut],
                            vin := zero_other_sequences nIn (vin txTmp)\<rparr>)
      else Some txTmp)"

definition ConstructSignatureHashPreimage ::
  "CScript \<Rightarrow> CTransaction \<Rightarrow> nat \<Rightarrow> u32 \<Rightarrow> bytes option" where
  "ConstructSignatureHashPreimage scriptCode txTo nIn nHashType =
     (if nIn \<ge> length (vin txTo) then None
      else
        let scriptCodeTmp = snd (FindAndDelete scriptCode (push_op [] OP_CODESEPARATOR));
            ins = map (\<lambda>txin. txin\<lparr>scriptSig := []\<rparr>) (vin txTo);
            ins = ins[nIn := (ins ! nIn)\<lparr>scriptSig := scriptCodeTmp\<rparr>]
        in case blank_outputs nHashType nIn (txTo\<lparr>vin := ins\<rparr>) of
             None \<Rightarrow> None
           | Some txTmp \<Rightarrow>
               let txTmp =
                 (if nHashType AND SIGHASH_ANYONECANPAY \<noteq> 0
                  then txTmp\<lparr>vin := take 1 ((vin txTmp)[0 := vin txTmp ! nIn])\<rparr> else txTmp)
               in Some (ser_CTransaction txTmp @ ser_word nHashType))"

definition SignatureHashWithPreimage ::
  "ext \<Rightarrow> CScript \<Rightarrow> CTransaction \<Rightarrow> nat \<Rightarrow> u32 \<Rightarrow> (uint256 \<times> bytes) option" where
  "SignatureHashWithPreimage E scriptCode txTo nIn nHashType =
     (case ConstructSignatureHashPreimage scriptCode txTo nIn nHashType of
        None \<Rightarrow> None
      | Some preimage \<Rightarrow> Some (Hash E preimage, preimage))"

definition SignatureHash :: "ext \<Rightarrow> CScript \<Rightarrow> CTransaction \<Rightarrow> nat \<Rightarrow> u32 \<Rightarrow> uint256" where
  "SignatureHash E scriptCode txTo nIn nHashType =
     (case SignatureHashWithPreimage E scriptCode txTo nIn nHashType of
        None \<Rightarrow> 1
      | Some (sighash, preimage) \<Rightarrow> sighash)"

text \<open>\<^verbatim>\<open>BuildHybridMessage\<close> of \<^verbatim>\<open>hs/hybrid_signer.cpp\<close>: the bytes of \<open>BIT-HYBRID-SIG-v1\<close> in front.\<close>

definition DOMAIN :: bytes where
  "DOMAIN = map (\<lambda>c. of_char c) ''BIT-HYBRID-SIG-v1''"

definition BuildHybridMessage :: "bytes \<Rightarrow> bytes" where
  "BuildHybridMessage tx_sighash_preimage = DOMAIN @ tx_sighash_preimage"

lemma BuildHybridMessage_nonempty [simp]: "BuildHybridMessage p \<noteq> []"
  by (simp add: BuildHybridMessage_def DOMAIN_def)

lemma BuildHybridMessage_inj: "BuildHybridMessage p = BuildHybridMessage q \<longleftrightarrow> p = q"
  by (simp add: BuildHybridMessage_def)

section \<open>What the preimage commits to\<close>

text \<open>The script code as it is signed, and the transaction whose bytes are signed under SIGHASH_ALL.\<close>

definition signed_code :: "CScript \<Rightarrow> CScript" where
  "signed_code scriptCode = snd (FindAndDelete scriptCode (push_op [] OP_CODESEPARATOR))"

definition signing_inputs :: "CScript \<Rightarrow> nat \<Rightarrow> CTxIn list \<Rightarrow> CTxIn list" where
  "signing_inputs sc nIn ins =
     (map (\<lambda>txin. txin\<lparr>scriptSig := []\<rparr>) ins)
       [nIn := (map (\<lambda>txin. txin\<lparr>scriptSig := []\<rparr>) ins ! nIn)\<lparr>scriptSig := signed_code sc\<rparr>]"

lemma preimage_unfold:
  assumes "nIn < length (vin tx)"
  shows "ConstructSignatureHashPreimage sc tx nIn ht =
    (case blank_outputs ht nIn (tx\<lparr>vin := signing_inputs sc nIn (vin tx)\<rparr>) of
       None \<Rightarrow> None
     | Some txTmp \<Rightarrow>
         Some (ser_CTransaction
            (if ht AND SIGHASH_ANYONECANPAY \<noteq> 0
             then txTmp\<lparr>vin := take 1 ((vin txTmp)[0 := vin txTmp ! nIn])\<rparr> else txTmp) @
            ser_word ht))"
  using assms
  by (simp add: ConstructSignatureHashPreimage_def signing_inputs_def signed_code_def Let_def
      split: option.split)

lemma preimage_in_range:
  "ConstructSignatureHashPreimage sc tx nIn ht = Some p \<Longrightarrow> nIn < length (vin tx)"
  by (auto simp: ConstructSignatureHashPreimage_def split: if_splits)

lemma FindAndDelete_loop_length: "length (snd (FindAndDelete_loop b pc)) \<le> length pc"
proof (induction b pc rule: FindAndDelete_loop.induct)
  case (1 b pc)
  let ?e = "erase_copies b pc"
  have e: "length (snd ?e) \<le> length pc" by (rule erase_copies_shorter)
  show ?case
  proof (cases "GetOp2 (snd ?e)")
    case None
    with e show ?thesis by (subst FindAndDelete_loop.simps) (simp add: Let_def)
  next
    case (Some a)
    obtain opcode v rest where a: "a = (opcode, v, rest)" by (metis prod_cases3)
    have "length (snd (FindAndDelete_loop b rest)) \<le> length rest"
      using "1.IH" [OF refl Some] a by simp
    moreover have "length rest < length (snd ?e)" using GetOp2_shorter Some a by blast
    ultimately show ?thesis
      using e Some a by (subst FindAndDelete_loop.simps) (simp add: Let_def)
  qed
qed

lemma signed_code_fits: "script_fits sc \<Longrightarrow> script_fits (signed_code sc)"
  unfolding signed_code_def FindAndDelete_def script_fits_def
  using FindAndDelete_loop_length [of "push_op [] OP_CODESEPARATOR" sc] by (auto split: if_splits)

lemma signing_inputs_props:
  assumes "nIn < length ins"
  shows "length (signing_inputs sc nIn ins) = length ins"
    "map prevout (signing_inputs sc nIn ins) = map prevout ins"
    "map nSequence (signing_inputs sc nIn ins) = map nSequence ins"
    "map scriptSig (signing_inputs sc nIn ins) =
       (replicate (length ins) [])[nIn := signed_code sc]"
  using assms
  by (auto simp: signing_inputs_def list_eq_iff_nth_eq nth_list_update)

lemma signing_inputs_fit:
  assumes "nIn < length ins" "script_fits sc"
  shows "list_all (\<lambda>i. script_fits (scriptSig i)) (signing_inputs sc nIn ins)"
  using assms signed_code_fits [of sc]
  by (auto simp: signing_inputs_def list_all_length nth_list_update script_fits_def)

text \<open>C27: A signature of type SIGHASH_ALL commits to the transaction: two signature checks whose
  preimages are the same bytes have the same hash type, version, lock time, outputs and script code
  (code separators removed), and spend the same outputs with the same sequence numbers; the index
  of the signed input is the same too unless the script code is empty.\<close>

theorem sighash_all_commits:
  assumes pre: "ConstructSignatureHashPreimage sc tx i ht = Some p"
      "ConstructSignatureHashPreimage sc' tx' j ht' = Some p"
    and fits: "tx_fits tx" "tx_fits tx'" "script_fits sc" "script_fits sc'"
    and all: "ht AND 0x1f \<noteq> SIGHASH_NONE" "ht AND 0x1f \<noteq> SIGHASH_SINGLE"
      "ht AND SIGHASH_ANYONECANPAY = 0"
      "ht' AND 0x1f \<noteq> SIGHASH_NONE" "ht' AND 0x1f \<noteq> SIGHASH_SINGLE"
      "ht' AND SIGHASH_ANYONECANPAY = 0"
  shows "ht = ht' \<and> nVersion tx = nVersion tx' \<and> nLockTime tx = nLockTime tx' \<and>
    vout tx = vout tx' \<and> map prevout (vin tx) = map prevout (vin tx') \<and>
    map nSequence (vin tx) = map nSequence (vin tx') \<and> signed_code sc = signed_code sc' \<and>
    (signed_code sc \<noteq> [] \<longrightarrow> i = j)"
proof -
  have r: "i < length (vin tx)" "j < length (vin tx')" using pre by (auto dest: preimage_in_range)
  let ?t = "tx\<lparr>vin := signing_inputs sc i (vin tx), nDoS := 0\<rparr>"
  let ?t' = "tx'\<lparr>vin := signing_inputs sc' j (vin tx'), nDoS := 0\<rparr>"
  have p: "p = ser_CTransaction ?t @ ser_word ht" "p = ser_CTransaction ?t' @ ser_word ht'"
    using pre r all by (simp_all add: preimage_unfold blank_outputs_def ser_CTransaction_def)
  have v: "tx_fits ?t \<and> nDoS ?t = 0" "tx_fits ?t' \<and> nDoS ?t' = 0"
    using fits r by (simp_all add: tx_fits_def signing_inputs_props signing_inputs_fit)
  have eq: "?t = ?t' \<and> ser_word ht = ser_word ht'"
    by (rule tx_codec.prefix_inj [OF v]) (use p in simp)
  then have ht: "ht = ht'" using u32_codec.ser_inj by blast
  note e = conjunct1 [OF eq]
  have ins: "signing_inputs sc i (vin tx) = signing_inputs sc' j (vin tx')"
    using arg_cong [OF e, of vin] by simp
  have rest: "nVersion tx = nVersion tx'" "nLockTime tx = nLockTime tx'" "vout tx = vout tx'"
    using arg_cong [OF e, of nVersion] arg_cong [OF e, of nLockTime] arg_cong [OF e, of vout]
    by simp_all
  note P = signing_inputs_props [OF r(1), of sc] and P' = signing_inputs_props [OF r(2), of sc']
  note maps = trans [OF P(2) [symmetric] trans [OF arg_cong [OF ins, of "map prevout"] P'(2)]]
    trans [OF P(3) [symmetric] trans [OF arg_cong [OF ins, of "map nSequence"] P'(3)]]
    trans [OF P(4) [symmetric] trans [OF arg_cong [OF ins, of "map scriptSig"] P'(4)]]
  have len: "length (vin tx) = length (vin tx')" using maps(1) map_eq_imp_length_eq by blast
  have "signed_code sc = (if i = j then signed_code sc' else [])"
    using arg_cong [OF maps(3), of "\<lambda>l. l ! i"] r len by (simp add: nth_list_update)
  moreover have "signed_code sc' = (if i = j then signed_code sc else [])"
    using arg_cong [OF maps(3), of "\<lambda>l. l ! j"] r len by (simp add: nth_list_update split: if_splits)
  ultimately have "signed_code sc = signed_code sc' \<and> (signed_code sc \<noteq> [] \<longrightarrow> i = j)"
    by (cases "i = j") simp_all
  then show ?thesis using ht rest maps(1,2) by blast
qed

definition two_input_tx :: CTransaction where
  "two_input_tx = \<lparr>nVersion = 1,
     vin = [\<lparr>prevout = COutPoint 7 1, scriptSig = [1, 2], nSequence = 5\<rparr>,
            \<lparr>prevout = COutPoint 8 0, scriptSig = [], nSequence = 6\<rparr>],
     vout = [\<lparr>nValue = 50, scriptPubKey = [172]\<rparr>, \<lparr>nValue = 8, scriptPubKey = []\<rparr>],
     nLockTime = 9, nDoS = 0\<rparr>"

definition two_input_unsigned :: CTransaction where
  "two_input_unsigned = two_input_tx\<lparr>vin := map (\<lambda>i. i\<lparr>scriptSig := []\<rparr>) (vin two_input_tx)\<rparr>"

theorem sighash_all_commits_witness:
  "\<exists>p. ConstructSignatureHashPreimage [OP_CHECKSIG] two_input_tx 1 SIGHASH_ALL = Some p \<and>
     ConstructSignatureHashPreimage [OP_CHECKSIG] two_input_unsigned 1 SIGHASH_ALL = Some p \<and>
     map prevout (vin two_input_tx) = map prevout (vin two_input_unsigned)"
proof -
  have len: "1 < length (vin two_input_tx)" "1 < length (vin two_input_unsigned)"
    by (simp_all add: two_input_tx_def two_input_unsigned_def)
  have fits: "tx_fits two_input_tx" "tx_fits two_input_unsigned" "script_fits [OP_CHECKSIG]"
    by (simp_all add: tx_fits_def script_fits_def two_input_tx_def two_input_unsigned_def MAX_SIZE_def)
  define p where "p = ser_CTransaction
    (two_input_tx\<lparr>vin := signing_inputs [OP_CHECKSIG] 1 (vin two_input_tx)\<rparr>) @ ser_word SIGHASH_ALL"
  have "signing_inputs [OP_CHECKSIG] 1 (vin two_input_unsigned) =
      signing_inputs [OP_CHECKSIG] 1 (vin two_input_tx)"
    by (simp add: signing_inputs_def two_input_unsigned_def two_input_tx_def)
  then have pre: "ConstructSignatureHashPreimage [OP_CHECKSIG] two_input_tx 1 SIGHASH_ALL = Some p"
      "ConstructSignatureHashPreimage [OP_CHECKSIG] two_input_unsigned 1 SIGHASH_ALL = Some p"
    using len
    by (simp_all add: preimage_unfold blank_outputs_def p_def two_input_unsigned_def)
  have "map prevout (vin two_input_tx) = map prevout (vin two_input_unsigned)"
    using sighash_all_commits [OF pre fits(1,2,3,3)] by simp
  with pre show ?thesis by blast
qed

section \<open>What the other hash types leave free\<close>

lemma take1_update: "xs \<noteq> [] \<Longrightarrow> take 1 (xs[0 := y]) = [y]"
  by (cases xs) auto

lemma zero_other_sequences_nth:
  "i < length ins \<Longrightarrow> zero_other_sequences i ins ! i = ins ! i"
  by (simp add: zero_other_sequences_def nth_enumerate_eq)

lemma length_zero_other_sequences [simp]:
  "length (zero_other_sequences i ins) = length ins"
  by (simp add: zero_other_sequences_def)

text \<open>What each flag leaves unsigned. Under ANYONECANPAY the other inputs may be replaced, added
  or removed (here: the signed input alone in a transaction gives the same preimage); under
  SIGHASH_NONE the outputs may be changed; under SIGHASH_SINGLE all outputs but the one with the
  input's index may be changed.\<close>

theorem sighash_flags_leave_free:
  assumes i: "i < length (vin tx)"
  shows "(ht AND SIGHASH_ANYONECANPAY \<noteq> 0 \<and> ht AND 0x1f \<noteq> SIGHASH_SINGLE \<longrightarrow>
      ConstructSignatureHashPreimage sc tx i ht =
      ConstructSignatureHashPreimage sc (tx\<lparr>vin := [vin tx ! i]\<rparr>) 0 ht) \<and>
    (ht AND 0x1f = SIGHASH_NONE \<longrightarrow>
      ConstructSignatureHashPreimage sc (tx\<lparr>vout := os\<rparr>) i ht =
      ConstructSignatureHashPreimage sc tx i ht) \<and>
    (ht AND 0x1f = SIGHASH_SINGLE \<and> i < length (vout tx) \<and> i < length os \<and> os ! i = vout tx ! i \<longrightarrow>
      ConstructSignatureHashPreimage sc (tx\<lparr>vout := os\<rparr>) i ht =
      ConstructSignatureHashPreimage sc tx i ht)"
proof -
  let ?tx1 = "tx\<lparr>vin := [vin tx ! i]\<rparr>"
  have one: "signing_inputs sc 0 [vin tx ! i] = [signing_inputs sc i (vin tx) ! i]"
    using i by (simp add: signing_inputs_def)
  have len: "length (signing_inputs sc i (vin tx)) = length (vin tx)"
    using i by (rule signing_inputs_props(1))
  have ne: "signing_inputs sc i (vin tx) \<noteq> []"
    "zero_other_sequences i (signing_inputs sc i (vin tx)) \<noteq> []"
    using len i by (auto simp flip: length_greater_0_conv)
  have r1: "0 < length (vin ?tx1)" by simp
  have "ConstructSignatureHashPreimage sc tx i ht = ConstructSignatureHashPreimage sc ?tx1 0 ht"
    if h: "ht AND SIGHASH_ANYONECANPAY \<noteq> 0" "ht AND 0x1f \<noteq> SIGHASH_SINGLE"
  proof (cases "ht AND 0x1f = SIGHASH_NONE")
    case True
    with h show ?thesis
      using i len
      by (subst (1) preimage_unfold [OF i], subst preimage_unfold [OF r1])
        (simp add: one ne blank_outputs_def
          take1_update zero_other_sequences_nth zero_other_sequences_def [of 0 "[_]"] del: One_nat_def)
  next
    case False
    with h show ?thesis
      using i len
      by (simp add: preimage_unfold [OF i] preimage_unfold [OF r1] one blank_outputs_def ne
          take1_update del: One_nat_def)
  qed
  moreover have "ConstructSignatureHashPreimage sc (tx\<lparr>vout := os\<rparr>) i ht =
      ConstructSignatureHashPreimage sc tx i ht"
    if "ht AND 0x1f = SIGHASH_NONE \<or>
        ht AND 0x1f = SIGHASH_SINGLE \<and> i < length (vout tx) \<and> i < length os \<and> os ! i = vout tx ! i"
    using that i by (auto simp: preimage_unfold blank_outputs_def Let_def)
  ultimately show ?thesis by blast
qed

theorem sighash_flags_leave_free_witness:
  "1 < length (vin two_input_tx) \<and>
   ConstructSignatureHashPreimage [OP_CHECKSIG] two_input_tx 1 0x81 =
   ConstructSignatureHashPreimage [OP_CHECKSIG] (two_input_tx\<lparr>vin := [vin two_input_tx ! 1]\<rparr>) 0 0x81"
proof -
  have i: "1 < length (vin two_input_tx)" by (simp add: two_input_tx_def)
  show ?thesis using i sighash_flags_leave_free [OF i, of "0x81" "[OP_CHECKSIG]"] by simp
qed

end
