(* ===== verification/SigCheck.thy ===== *)
theory SigCheck
  imports SigHash "HOL-Library.Sublist"
begin

text \<open>
  Signature checks of \<^verbatim>\<open>script.cpp\<close>, \<^verbatim>\<open>key.cpp\<close> and \<^verbatim>\<open>hs/hybrid_verify.h\<close>: \<^verbatim>\<open>CheckSig\<close> with its static
  cache of valid signatures, \<^verbatim>\<open>VerifyMLDSA\<close>, \<^verbatim>\<open>VerifyHybridSignature\<close>, and the two loops that match
  signatures with keys. The cache is explicit state. The interface \<open>cached_check\<close> says what the
  callers rely on: the answer of a check does not depend on a sound cache, and the cache stays
  sound. It is interpreted on \<^verbatim>\<open>CheckSig\<close> and on the hybrid check.
\<close>

section \<open>The interface\<close>

text \<open>\<open>CHECKMULTISIG\<close>: signatures and keys top of stack first.\<close>

fun checkmultisig_loop ::
  "('sig \<Rightarrow> 'key \<Rightarrow> 's \<Rightarrow> bool \<times> 's) \<Rightarrow> 'sig list \<Rightarrow> 'key list \<Rightarrow> 's \<Rightarrow> bool \<times> 's" where
  "checkmultisig_loop check [] keys c = (True, c)"
| "checkmultisig_loop check (sg # sigs) [] c = (False, c)"
| "checkmultisig_loop check (sg # sigs) (key # keys) c =
     (let (ok, c) = check sg key c; sigs' = (if ok then sigs else sg # sigs)
      in if length sigs' > length keys then (False, c)
         else checkmultisig_loop check sigs' keys c)"

text \<open>\<open>CHECKMULTIHYBRIDSIG\<close>: the two-pointer loop, success decided at the end.\<close>

fun hybrid_match_loop ::
  "('sig \<Rightarrow> 'key \<Rightarrow> 's \<Rightarrow> bool \<times> 's) \<Rightarrow> 'sig list \<Rightarrow> 'key list \<Rightarrow> 's \<Rightarrow> bool \<times> 's" where
  "hybrid_match_loop check [] keys c = (True, c)"
| "hybrid_match_loop check (sg # sigs) [] c = (False, c)"
| "hybrid_match_loop check (sg # sigs) (key # keys) c =
     (let (match, c) = check sg key c
      in hybrid_match_loop check (if match then sigs else sg # sigs) keys c)"

text \<open>
  What both loops decide: some of the keys, in their order, match the signatures one for one.
\<close>

definition matches :: "('sig \<Rightarrow> 'key \<Rightarrow> bool) \<Rightarrow> 'sig list \<Rightarrow> 'key list \<Rightarrow> bool" where
  "matches P sigs keys \<longleftrightarrow> (\<exists>ks. subseq ks keys \<and> list_all2 P sigs ks)"

lemma matches_Nil [simp]: "matches P [] keys"
  by (auto simp: matches_def)

lemma matches_Nil2 [simp]: "matches P (sg # sigs) [] = False"
  by (auto simp: matches_def list_all2_Cons1)

lemma matches_length: "matches P sigs keys \<Longrightarrow> length sigs \<le> length keys"
  using list_emb_length list_all2_lengthD by (fastforce simp: matches_def)

lemma matches_Cons [simp]:
  "matches P (sg # sigs) (key # keys) =
    (if P sg key then matches P sigs keys else matches P (sg # sigs) keys)"
proof
  assume "matches P (sg # sigs) (key # keys)"
  then obtain k ks where k: "subseq (k # ks) (key # keys)" "P sg k" "list_all2 P sigs ks"
    by (auto simp: matches_def list_all2_Cons1)
  have "subseq ks keys" using k(1) by (auto split: if_splits dest: subseq_Cons')
  moreover have "subseq (k # ks) keys" if "k \<noteq> key" using k(1) that by (auto split: if_splits)
  moreover have "matches P sigs keys" if "subseq ks keys" using that k unfolding matches_def by blast
  moreover have "matches P (sg # sigs) keys" if "subseq (k # ks) keys"
    unfolding matches_def using that k by (intro exI [of _ "k # ks"]) simp
  ultimately show "if P sg key then matches P sigs keys else matches P (sg # sigs) keys"
    using k(2) by (cases "k = key") simp_all
next
  assume "if P sg key then matches P sigs keys else matches P (sg # sigs) keys"
  then show "matches P (sg # sigs) (key # keys)"
  proof (cases "P sg key")
    case True
    with \<open>if P sg key then _ else _\<close> obtain ks where "subseq ks keys" "list_all2 P sigs ks"
      by (auto simp: matches_def)
    with True show ?thesis
      unfolding matches_def by (intro exI [of _ "key # ks"]) auto
  next
    case False
    with \<open>if P sg key then _ else _\<close> show ?thesis
      unfolding matches_def by (auto intro: list_emb_Cons)
  qed
qed

locale cached_check =
  fixes check :: "'sig \<Rightarrow> 'key \<Rightarrow> 's \<Rightarrow> bool \<times> 's"
    and spec :: "'sig \<Rightarrow> 'key \<Rightarrow> bool"
    and inv :: "'s \<Rightarrow> bool"
  assumes answer: "inv c \<Longrightarrow> fst (check sg key c) = spec sg key"
    and preserves: "inv c \<Longrightarrow> inv (snd (check sg key c))"
begin

lemma check_cases:
  assumes "inv c"
  obtains c' where "check sg key c = (spec sg key, c')" "inv c'"
  using answer [OF assms, of sg key] preserves [OF assms, of sg key] that by (cases "check sg key c") simp

text \<open>The greedy choice of both loops is complete, and the early exit of the first is sound.\<close>

lemma checkmultisig_loop_matches:
  assumes "inv c" "length sigs \<le> length keys"
  shows "fst (checkmultisig_loop check sigs keys c) = matches spec sigs keys \<and>
    inv (snd (checkmultisig_loop check sigs keys c))"
  using assms
proof (induction keys arbitrary: sigs c)
  case (Cons key keys)
  show ?case
  proof (cases sigs)
    case (Cons sg sgs)
    obtain c' where c': "check sg key c = (spec sg key, c')" "inv c'"
      using check_cases \<open>inv c\<close> by blast
    let ?sigs = "if spec sg key then sgs else sg # sgs"
    have m: "matches spec sigs (key # keys) = matches spec ?sigs keys"
      using Cons by simp
    show ?thesis
    proof (cases "length ?sigs \<le> length keys")
      case True
      with c' Cons.IH [OF c'(2) True] m \<open>sigs = _\<close> show ?thesis by (simp add: Let_def)
    next
      case False
      then have "\<not> matches spec ?sigs keys" using matches_length by blast
      with False c' m \<open>sigs = _\<close> show ?thesis by (simp add: Let_def)
    qed
  qed (simp add: Cons.prems)
qed simp

lemma hybrid_match_loop_matches:
  assumes "inv c"
  shows "fst (hybrid_match_loop check sigs keys c) = matches spec sigs keys \<and>
    inv (snd (hybrid_match_loop check sigs keys c))"
  using assms
proof (induction keys arbitrary: sigs c)
  case Nil
  then show ?case by (cases sigs) simp_all
next
  case (Cons key keys)
  show ?case
  proof (cases sigs)
    case (Cons sg sgs)
    obtain c' where c': "check sg key c = (spec sg key, c')" "inv c'"
      using check_cases \<open>inv c\<close> by blast
    with Cons.IH [OF c'(2)] Cons show ?thesis by (auto simp: Let_def)
  qed (simp add: Cons.prems)
qed

end

section \<open>The cache of valid signatures\<close>

text \<open>
  The entries in the order the hash set iterates them, which the properties leave open, and the
  number of random draws so far.
\<close>

record sigcache =
  setValid :: "(uint256 \<times> bytes \<times> bytes) list"
  draws :: nat

definition GetRand :: "ext \<Rightarrow> nat \<Rightarrow> nat \<Rightarrow> nat" where
  "GetRand E k nMax = (if nMax = 0 then 0 else rand_draw E k mod nMax)"

definition sigcache_Get :: "sigcache \<Rightarrow> uint256 \<Rightarrow> bytes \<Rightarrow> bytes \<Rightarrow> bool" where
  "sigcache_Get c hash vchSig pubKey \<longleftrightarrow> (hash, vchSig, pubKey) \<in> set (setValid c)"

definition erase_at :: "nat \<Rightarrow> 'a list \<Rightarrow> 'a list" where
  "erase_at i xs = take i xs @ drop (Suc i) xs"

function sigcache_evict :: "ext \<Rightarrow> nat \<Rightarrow> sigcache \<Rightarrow> sigcache" where
  "sigcache_evict E nMaxCacheSize c =
     (if length (setValid c) > nMaxCacheSize
      then sigcache_evict E nMaxCacheSize
             \<lparr>setValid = erase_at (GetRand E (draws c) (length (setValid c))) (setValid c),
              draws = Suc (draws c)\<rparr>
      else c)"
  by pat_completeness auto
termination
proof (relation "measure (\<lambda>(E, n, c). length (setValid c))", simp, goal_cases)
  case (1 E n c)
  then have "0 < length (setValid c)" by linarith
  then have "GetRand E (draws c) (length (setValid c)) < length (setValid c)"
    by (simp add: GetRand_def)
  then show ?case by (simp add: erase_at_def)
qed

declare sigcache_evict.simps [simp del]

definition sigcache_Set :: "ext \<Rightarrow> sigcache \<Rightarrow> uint256 \<Rightarrow> bytes \<Rightarrow> bytes \<Rightarrow> sigcache" where
  "sigcache_Set E c hash vchSig pubKey =
     (if maxsigcachesize E \<le> 0 then c
      else
        let c = sigcache_evict E (nat (maxsigcachesize E)) c
        in c\<lparr>setValid := List.insert (hash, vchSig, pubKey) (setValid c)\<rparr>)"

section \<open>\<^verbatim>\<open>CheckSig\<close>\<close>

text \<open>\<^verbatim>\<open>CKey::SetPubKey\<close> followed by \<^verbatim>\<open>CKey::Verify\<close>, over OpenSSL's key check and libsecp256k1.\<close>

definition SetPubKey :: "ext \<Rightarrow> bytes \<Rightarrow> bool" where
  "SetPubKey E vchPubKey = EC_fromdata_check E vchPubKey"

definition CKey_Verify :: "ext \<Rightarrow> bytes \<Rightarrow> uint256 \<Rightarrow> bytes \<Rightarrow> bool" where
  "CKey_Verify E vchPubKey hash sg =
     (case ec_pubkey_parse E vchPubKey of None \<Rightarrow> False
      | Some pub \<Rightarrow>
     (case ecdsa_parse_der E sg of None \<Rightarrow> False
      | Some signature \<Rightarrow> ecdsa_verify E (ecdsa_normalize E signature) (mem hash) pub))"

text \<open>A byte as the \<^verbatim>\<open>int\<close> it converts to.\<close>

definition int_of_byte :: "byte \<Rightarrow> u32" where
  "int_of_byte b = ucast b"

lemma int_of_byte_inj [simp]: "int_of_byte a = int_of_byte b \<longleftrightarrow> a = b"
proof
  assume "int_of_byte a = int_of_byte b"
  then have "unat (int_of_byte a) = unat (int_of_byte b)" by simp
  moreover have "unat (int_of_byte c) = unat c" for c
  proof -
    have "unat c < 256" using unsigned_less [of c, where ?'a = nat] by simp
    then have "unat c < 2 ^ 32" by (rule less_le_trans) simp
    then show ?thesis
      by (simp only: int_of_byte_def unsigned_ucast_eq take_bit_nat_eq_self len_num0 len_num1 len_bit0)
        (simp add: take_bit_nat_eq_self)
  qed
  ultimately show "a = b" by (simp add: word_unat_eq_iff)
qed simp

definition CheckSig ::
  "ext \<Rightarrow> bytes \<Rightarrow> bytes \<Rightarrow> CScript \<Rightarrow> CTransaction \<Rightarrow> nat \<Rightarrow> u32 \<Rightarrow> uint256 option \<Rightarrow>
    sigcache \<Rightarrow> bool \<times> sigcache" where
  "CheckSig E vchSig vchPubKey scriptCode txTo nIn nHashType precomputedSighash c =
     (if vchSig = [] then (False, c)
      else
        let sigHashType = (if nHashType \<noteq> 0 then nHashType else int_of_byte (last vchSig))
        in if sigHashType \<noteq> int_of_byte (last vchSig) then (False, c)
           else
             let sg = butlast vchSig
             in if length sg < 8 then (False, c)
                else
                  let sighash = (case precomputedSighash of Some h \<Rightarrow> h
                                 | None \<Rightarrow> SignatureHash E scriptCode txTo nIn sigHashType)
                  in if sigcache_Get c sighash sg vchPubKey then (True, c)
                     else if \<not> SetPubKey E vchPubKey then (False, c)
                     else if \<not> CKey_Verify E vchPubKey sighash sg then (False, c)
                     else (True, sigcache_Set E c sighash sg vchPubKey))"

section \<open>ML-DSA and hybrid signatures\<close>

definition ECDSA_PUBKEY_SIZE :: nat where
  "ECDSA_PUBKEY_SIZE = 33"

definition ML_DSA_65_PUBKEY_SIZE :: nat where
  "ML_DSA_65_PUBKEY_SIZE = 1952"

definition ML_DSA_65_SIG_SIZE :: nat where
  "ML_DSA_65_SIG_SIZE = 3310"

definition VerifyMLDSA :: "ext \<Rightarrow> bytes \<Rightarrow> bytes \<Rightarrow> bytes \<Rightarrow> bool" where
  "VerifyMLDSA E mldsaSig mldsaPubKey msg =
     (if length mldsaSig \<noteq> ML_DSA_65_SIG_SIZE - 1 then False
      else if length mldsaPubKey \<noteq> ML_DSA_65_PUBKEY_SIZE then False
      else if msg = [] then False
      else if \<not> mldsa_raw_public_key E mldsaPubKey then False
      else mldsa_digest_verify E mldsaPubKey mldsaSig msg)"

definition VerifyHybridSignature ::
  "ext \<Rightarrow> bytes \<Rightarrow> bytes \<Rightarrow> bytes \<Rightarrow> bytes \<Rightarrow> CScript \<Rightarrow> CTransaction \<Rightarrow> nat \<Rightarrow> u32 \<Rightarrow>
    sigcache \<Rightarrow> bool \<times> sigcache" where
  "VerifyHybridSignature E vchSigEC vchSigML vchPubKeyEC vchPubKeyML scriptCode txTo nIn nHashType c =
     (if vchSigEC = [] \<or> vchSigML = [] \<or> vchPubKeyEC = [] \<or> vchPubKeyML = [] then (False, c)
      else if length vchPubKeyEC \<noteq> ECDSA_PUBKEY_SIZE then (False, c)
      else if length vchPubKeyML \<noteq> ML_DSA_65_PUBKEY_SIZE then (False, c)
      else
        let hashTypeEC = int_of_byte (last vchSigEC); hashTypeML = int_of_byte (last vchSigML)
        in if hashTypeEC \<noteq> hashTypeML then (False, c)
           else if nHashType \<noteq> 0 \<and> hashTypeEC \<noteq> nHashType then (False, c)
           else
             (case SignatureHashWithPreimage E scriptCode txTo nIn hashTypeEC of
                None \<Rightarrow> (False, c)
              | Some (sighash, preimage) \<Rightarrow>
                  (case CheckSig E vchSigEC vchPubKeyEC scriptCode txTo nIn hashTypeEC (Some sighash) c of
                     (False, c) \<Rightarrow> (False, c)
                   | (True, c) \<Rightarrow>
                       if \<not> VerifyMLDSA E (butlast vchSigML) vchPubKeyML (BuildHybridMessage preimage)
                       then (False, c) else (True, c))))"

text \<open>The check of one pair in \<open>CHECKMULTIHYBRIDSIG\<close>: signature and key are (ECDSA, ML-DSA) pairs.\<close>

definition CheckHybridPair ::
  "ext \<Rightarrow> CScript \<Rightarrow> CTransaction \<Rightarrow> nat \<Rightarrow> u32 \<Rightarrow> uint256 \<Rightarrow> bytes \<Rightarrow>
    bytes \<times> bytes \<Rightarrow> bytes \<times> bytes \<Rightarrow> sigcache \<Rightarrow> bool \<times> sigcache" where
  "CheckHybridPair E scriptCode txTo nIn sigHashType sighash hybridMsg sg key c =
     (case CheckSig E (fst sg) (fst key) scriptCode txTo nIn sigHashType (Some sighash) c of
        (False, c) \<Rightarrow> (False, c)
      | (True, c) \<Rightarrow> (VerifyMLDSA E (butlast (snd sg)) (snd key) hybridMsg, c))"

section \<open>The checks without the cache\<close>

definition ecdsa_valid :: "ext \<Rightarrow> bytes \<Rightarrow> uint256 \<Rightarrow> bytes \<Rightarrow> bool" where
  "ecdsa_valid E vchPubKey hash sg \<longleftrightarrow> SetPubKey E vchPubKey \<and> CKey_Verify E vchPubKey hash sg"

definition sig_valid ::
  "ext \<Rightarrow> CScript \<Rightarrow> CTransaction \<Rightarrow> nat \<Rightarrow> u32 \<Rightarrow> uint256 option \<Rightarrow> bytes \<Rightarrow> bytes \<Rightarrow> bool" where
  "sig_valid E sc tx i ht pre vchSig vchPubKey \<longleftrightarrow>
     length vchSig \<ge> 9 \<and> (ht = 0 \<or> ht = int_of_byte (last vchSig)) \<and>
     ecdsa_valid E vchPubKey
       (case pre of Some h \<Rightarrow> h | None \<Rightarrow> SignatureHash E sc tx i (int_of_byte (last vchSig)))
       (butlast vchSig)"

definition cache_sound :: "ext \<Rightarrow> sigcache \<Rightarrow> bool" where
  "cache_sound E c \<longleftrightarrow> list_all (\<lambda>(h, s, k). ecdsa_valid E k h s) (setValid c)"

definition empty_cache :: sigcache where
  "empty_cache = \<lparr>setValid = [], draws = 0\<rparr>"

lemma empty_cache_sound [simp]: "cache_sound E empty_cache"
  by (simp add: cache_sound_def empty_cache_def)

lemma set_erase_at: "set (erase_at n xs) \<subseteq> set xs"
  unfolding erase_at_def using set_take_subset set_drop_subset by fastforce

lemma length_erase_at: "n < length xs \<Longrightarrow> length (erase_at n xs) = length xs - 1"
  by (simp add: erase_at_def)

lemma sigcache_evict_props:
  "set (setValid (sigcache_evict E n c)) \<subseteq> set (setValid c) \<and>
   length (setValid (sigcache_evict E n c)) \<le> n"
proof (induction E n c rule: sigcache_evict.induct)
  case (1 E n c)
  show ?case
  proof (cases "length (setValid c) > n")
    case True
    show ?thesis
      using "1.IH" [OF True] set_erase_at [of "GetRand E (draws c) (length (setValid c))" "setValid c"]
      by (subst (1 2) sigcache_evict.simps) (auto simp: True)
  qed (subst (1 2) sigcache_evict.simps, simp)
qed

lemma sigcache_Set_sound:
  assumes "cache_sound E c" "ecdsa_valid E k h s"
  shows "cache_sound E (sigcache_Set E c h s k)"
proof -
  let ?c = "sigcache_evict E (nat (maxsigcachesize E)) c"
  have "\<forall>x\<in>set (setValid ?c). x \<in> set (setValid c)" using sigcache_evict_props by blast
  with assms show ?thesis
    by (auto simp: sigcache_Set_def cache_sound_def Let_def list_all_iff)
qed

lemma CheckSig_answer:
  assumes "cache_sound E c"
  shows "fst (CheckSig E sg key sc tx i ht pre c) = sig_valid E sc tx i ht pre sg key \<and>
    cache_sound E (snd (CheckSig E sg key sc tx i ht pre c))"
proof (cases "length sg \<ge> 9 \<and> (ht = 0 \<or> ht = int_of_byte (last sg))")
  case False
  then show ?thesis
    using assms by (auto simp: CheckSig_def sig_valid_def Let_def not_le)
next
  case True
  define h where "h = (case pre of Some h \<Rightarrow> h
    | None \<Rightarrow> SignatureHash E sc tx i (int_of_byte (last sg)))"
  have ne: "sg \<noteq> []" and ge: "\<not> length (butlast sg) < 8" using True by auto
  have ht: "(if ht \<noteq> 0 then ht else int_of_byte (last sg)) = int_of_byte (last sg)"
    using True by auto
  have hit: "ecdsa_valid E key h (butlast sg)" if "sigcache_Get c h (butlast sg) key"
    using that assms by (auto simp: sigcache_Get_def cache_sound_def list_all_iff)
  have "CheckSig E sg key sc tx i ht pre c =
      (if sigcache_Get c h (butlast sg) key then (True, c)
       else if \<not> SetPubKey E key then (False, c)
       else if \<not> CKey_Verify E key h (butlast sg) then (False, c)
       else (True, sigcache_Set E c h (butlast sg) key))"
    unfolding CheckSig_def Let_def ht h_def using ne ge by simp
  with True hit assms sigcache_Set_sound [OF assms, of key h "butlast sg"] show ?thesis
    by (auto simp: sig_valid_def h_def [symmetric] ecdsa_valid_def)
qed

lemma sigcache_Set_size:
  "length (setValid (sigcache_Set E c h s k)) \<le> max (length (setValid c)) (nat (maxsigcachesize E) + 1)"
proof -
  let ?c = "sigcache_evict E (nat (maxsigcachesize E)) c"
  have "length (List.insert x (setValid ?c)) \<le> Suc (length (setValid ?c))" for x
    by (simp add: List.insert_def)
  then have "length (List.insert x (setValid ?c)) \<le> nat (maxsigcachesize E) + 1" for x
    using sigcache_evict_props [of E "nat (maxsigcachesize E)" c] le_trans by fastforce
  then show ?thesis by (simp add: sigcache_Set_def Let_def le_max_iff_disj)
qed

lemma CheckSig_cache_size:
  "length (setValid (snd (CheckSig E sg key sc tx i ht pre c))) \<le>
     max (length (setValid c)) (nat (maxsigcachesize E) + 1)"
  using sigcache_Set_size [of E c] by (simp add: CheckSig_def Let_def)

interpretation ecdsa: cached_check
  "\<lambda>sg key. CheckSig E sg key sc tx i ht pre" "sig_valid E sc tx i ht pre" "cache_sound E"
  for E sc tx i ht pre
  by unfold_locales (simp_all add: CheckSig_answer)

text \<open>The hybrid pair check under the same interface.\<close>

definition pair_valid ::
  "ext \<Rightarrow> CScript \<Rightarrow> CTransaction \<Rightarrow> nat \<Rightarrow> u32 \<Rightarrow> uint256 \<Rightarrow> bytes \<Rightarrow>
    bytes \<times> bytes \<Rightarrow> bytes \<times> bytes \<Rightarrow> bool" where
  "pair_valid E sc tx i ht sighash msg sg key \<longleftrightarrow>
     sig_valid E sc tx i ht (Some sighash) (fst sg) (fst key) \<and>
     VerifyMLDSA E (butlast (snd sg)) (snd key) msg"

lemma CheckHybridPair_answer:
  assumes "cache_sound E c"
  shows "fst (CheckHybridPair E sc tx i ht sighash msg sg key c) =
      pair_valid E sc tx i ht sighash msg sg key \<and>
    cache_sound E (snd (CheckHybridPair E sc tx i ht sighash msg sg key c))"
proof -
  obtain c' where "CheckSig E (fst sg) (fst key) sc tx i ht (Some sighash) c =
      (sig_valid E sc tx i ht (Some sighash) (fst sg) (fst key), c')" "cache_sound E c'"
    using ecdsa.check_cases [OF assms] .
  then show ?thesis by (simp add: CheckHybridPair_def pair_valid_def split: bool.split)
qed

interpretation hybrid: cached_check
  "CheckHybridPair E sc tx i ht sighash msg" "pair_valid E sc tx i ht sighash msg" "cache_sound E"
  for E sc tx i ht sighash msg
  by unfold_locales (simp_all add: CheckHybridPair_answer)

section \<open>Properties\<close>

text \<open>C28: The signature cache is transparent: as long as it holds only verified triples, CheckSig
  answers exactly what it would answer with an empty cache, and the cache it leaves again holds only
  verified triples and has at most one entry more than the option -maxsigcachesize allows (or than
  it had).\<close>

theorem sigcache_transparent:
  assumes "cache_sound E c"
  shows "fst (CheckSig E sg key sc tx i ht pre c) = fst (CheckSig E sg key sc tx i ht pre empty_cache) \<and>
    cache_sound E (snd (CheckSig E sg key sc tx i ht pre c)) \<and>
    length (setValid (snd (CheckSig E sg key sc tx i ht pre c))) \<le>
      max (length (setValid c)) (nat (maxsigcachesize E) + 1)"
  using assms CheckSig_answer CheckSig_cache_size by simp

definition hybrid_shape :: "bytes \<Rightarrow> bytes \<Rightarrow> bytes \<Rightarrow> bytes \<Rightarrow> u32 \<Rightarrow> bool" where
  "hybrid_shape sgEC sgML pkEC pkML ht \<longleftrightarrow>
     sgEC \<noteq> [] \<and> sgML \<noteq> [] \<and> length pkEC = 33 \<and> length pkML = 1952 \<and>
     last sgML = last sgEC \<and> (ht = 0 \<or> ht = int_of_byte (last sgEC))"

lemma hybrid_shape_False:
  "\<not> hybrid_shape sgEC sgML pkEC pkML ht \<Longrightarrow>
     VerifyHybridSignature E sgEC sgML pkEC pkML sc tx i ht c = (False, c)"
  unfolding hybrid_shape_def
  by (auto simp add: VerifyHybridSignature_def ECDSA_PUBKEY_SIZE_def ML_DSA_65_PUBKEY_SIZE_def Let_def)

lemma hybrid_shape_True:
  assumes "hybrid_shape sgEC sgML pkEC pkML ht"
  shows "VerifyHybridSignature E sgEC sgML pkEC pkML sc tx i ht c =
    (case ConstructSignatureHashPreimage sc tx i (int_of_byte (last sgEC)) of None \<Rightarrow> (False, c)
     | Some p \<Rightarrow>
         CheckHybridPair E sc tx i (int_of_byte (last sgEC)) (Hash E p) (BuildHybridMessage p)
           (sgEC, sgML) (pkEC, pkML) c)"
proof -
  from assms have ok: "sgEC \<noteq> []" "sgML \<noteq> []" "length pkEC = 33" "length pkML = 1952"
    "last sgML = last sgEC" "pkEC \<noteq> []" "pkML \<noteq> []"
    "\<not> (ht \<noteq> 0 \<and> int_of_byte (last sgEC) \<noteq> ht)"
    by (auto simp: hybrid_shape_def)
  show ?thesis
    unfolding VerifyHybridSignature_def Let_def SignatureHashWithPreimage_def ok
      ECDSA_PUBKEY_SIZE_def ML_DSA_65_PUBKEY_SIZE_def CheckHybridPair_def
    using ok by (auto split: option.split prod.split bool.split)
qed

definition hybrid_valid ::
  "ext \<Rightarrow> CScript \<Rightarrow> CTransaction \<Rightarrow> nat \<Rightarrow> u32 \<Rightarrow> bytes \<Rightarrow> bytes \<Rightarrow> bytes \<Rightarrow> bytes \<Rightarrow> bool" where
  "hybrid_valid E sc tx i ht sgEC sgML pkEC pkML \<longleftrightarrow>
    length pkEC = 33 \<and> length pkML = 1952 \<and> length sgEC \<ge> 9 \<and> length sgML = 3310 \<and>
    last sgEC = last sgML \<and> (ht = 0 \<or> ht = int_of_byte (last sgEC)) \<and>
    (\<exists>p. ConstructSignatureHashPreimage sc tx i (int_of_byte (last sgEC)) = Some p \<and>
       ecdsa_valid E pkEC (Hash E p) (butlast sgEC) \<and>
       mldsa_raw_public_key E pkML \<and>
       mldsa_digest_verify E pkML (butlast sgML) (BuildHybridMessage p))"

lemma VerifyHybridSignature_iff:
  assumes "cache_sound E c"
  shows "fst (VerifyHybridSignature E sgEC sgML pkEC pkML sc tx i ht c) \<longleftrightarrow>
    hybrid_valid E sc tx i ht sgEC sgML pkEC pkML"
proof (cases "hybrid_shape sgEC sgML pkEC pkML ht")
  case False
  then have "fst (VerifyHybridSignature E sgEC sgML pkEC pkML sc tx i ht c) = False"
    by (simp add: hybrid_shape_False)
  moreover have "\<not> (length pkEC = 33 \<and> length pkML = 1952 \<and> length sgEC \<ge> 9 \<and> length sgML = 3310 \<and>
      last sgEC = last sgML \<and> (ht = 0 \<or> ht = int_of_byte (last sgEC)))"
  proof
    assume A: "length pkEC = 33 \<and> length pkML = 1952 \<and> length sgEC \<ge> 9 \<and> length sgML = 3310 \<and>
      last sgEC = last sgML \<and> (ht = 0 \<or> ht = int_of_byte (last sgEC))"
    then have "sgEC \<noteq> []" "sgML \<noteq> []" by auto
    with A False show False by (auto simp: hybrid_shape_def)
  qed
  ultimately show ?thesis unfolding hybrid_valid_def by blast
next
  case True
  let ?ht = "int_of_byte (last sgEC)"
  from True have sh: "length pkEC = 33" "length pkML = 1952" "last sgEC = last sgML"
    "ht = 0 \<or> ht = ?ht" and ne: "sgML \<noteq> []" by (simp_all add: hybrid_shape_def)
  have len: "length (butlast sgML) = 3309 \<longleftrightarrow> length sgML = 3310" using ne by (cases sgML) auto
  show ?thesis
  proof (cases "ConstructSignatureHashPreimage sc tx i ?ht")
    case None
    then show ?thesis using hybrid_shape_True [OF True] by (simp add: hybrid_valid_def)
  next
    case (Some p)
    have "fst (VerifyHybridSignature E sgEC sgML pkEC pkML sc tx i ht c) \<longleftrightarrow>
        pair_valid E sc tx i ?ht (Hash E p) (BuildHybridMessage p) (sgEC, sgML) (pkEC, pkML)"
      using hybrid_shape_True [OF True] Some hybrid.answer [OF assms] by simp
    also have "\<dots> \<longleftrightarrow> length sgEC \<ge> 9 \<and> length sgML = 3310 \<and>
        ecdsa_valid E pkEC (Hash E p) (butlast sgEC) \<and> mldsa_raw_public_key E pkML \<and>
        mldsa_digest_verify E pkML (butlast sgML) (BuildHybridMessage p)"
      using sh len
      by (simp add: pair_valid_def sig_valid_def VerifyMLDSA_def ML_DSA_65_PUBKEY_SIZE_def
          ML_DSA_65_SIG_SIZE_def)
    finally show ?thesis unfolding hybrid_valid_def using sh Some by simp
  qed
qed

lemma VerifyHybridSignature_sound:
  assumes "cache_sound E c"
  shows "cache_sound E (snd (VerifyHybridSignature E sgEC sgML pkEC pkML sc tx i ht c))"
proof (cases "hybrid_shape sgEC sgML pkEC pkML ht")
  case True
  then show ?thesis
    using assms hybrid.preserves [OF assms] by (simp add: hybrid_shape_True split: option.split)
qed (simp add: hybrid_shape_False assms)

text \<open>C26: A hybrid signature needs both halves: VerifyHybridSignature succeeds exactly when the keys
  have their sizes, both signatures end with the same hash type (the required one, if one is
  required), the preimage exists, the ECDSA half verifies over its hash, and the ML-DSA half, of
  exactly 3309 bytes, verifies over the domain-separated preimage.\<close>

theorem hybrid_signature_needs_both:
  assumes "cache_sound E c"
  shows "fst (VerifyHybridSignature E sgEC sgML pkEC pkML sc tx i ht c) \<longleftrightarrow>
    length pkEC = 33 \<and> length pkML = 1952 \<and> length sgEC \<ge> 9 \<and> length sgML = 3310 \<and>
    last sgEC = last sgML \<and> (ht = 0 \<or> ht = int_of_byte (last sgEC)) \<and>
    (\<exists>p. ConstructSignatureHashPreimage sc tx i (int_of_byte (last sgEC)) = Some p \<and>
       ecdsa_valid E pkEC (Hash E p) (butlast sgEC) \<and>
       mldsa_raw_public_key E pkML \<and>
       mldsa_digest_verify E pkML (butlast sgML) (BuildHybridMessage p))"
  using VerifyHybridSignature_iff [OF assms] unfolding hybrid_valid_def .

text \<open>The multisignature loops are complete and use each key once: with a sound cache, the loop
  of CHECKMULTISIG and the loop of CHECKMULTIHYBRIDSIG succeed exactly when some of the keys, in the
  order of the stack, verify the signatures one for one - in the hybrid case by both the ECDSA and
  the ML-DSA half.\<close>

theorem multisig_loops_match_keys:
  assumes "cache_sound E c"
  shows "(length sigs \<le> length keys \<longrightarrow>
      (fst (checkmultisig_loop (\<lambda>sg key. CheckSig E sg key sc tx i ht None) sigs keys c) \<longleftrightarrow>
       (\<exists>ks. subseq ks keys \<and> list_all2 (sig_valid E sc tx i ht None) sigs ks))) \<and>
    (fst (hybrid_match_loop (CheckHybridPair E sc tx i ht sighash msg) hsigs hkeys c) \<longleftrightarrow>
       (\<exists>ks. subseq ks hkeys \<and> list_all2 (pair_valid E sc tx i ht sighash msg) hsigs ks))"
  using ecdsa.checkmultisig_loop_matches [OF assms, of sigs keys sc tx i ht None]
    hybrid.hybrid_match_loop_matches [OF assms, of sc tx i ht sighash msg hsigs hkeys]
  by (simp add: matches_def)

theorem sigcache_transparent_witness:
  "cache_sound ext_ref \<lparr>setValid = [(5, [7], [7])], draws = 3\<rparr> \<and>
   fst (CheckSig ext_ref (replicate 8 7 @ [1]) [7] [OP_CHECKSIG] two_input_tx 0 0 (Some 5)
      \<lparr>setValid = [(5, [7], [7])], draws = 3\<rparr>)"
proof -
  have s: "cache_sound ext_ref \<lparr>setValid = [(5, [7], [7])], draws = 3\<rparr>"
    by (simp add: cache_sound_def ecdsa_valid_def SetPubKey_def CKey_Verify_def ext_ref_def)
  have "sig_valid ext_ref [OP_CHECKSIG] two_input_tx 0 0 (Some 5) (replicate 8 7 @ [1]) [7]"
    by (simp add: sig_valid_def ecdsa_valid_def SetPubKey_def CKey_Verify_def ext_ref_def)
  then show ?thesis
    using s sigcache_transparent [OF s, of "replicate 8 7 @ [1]" "[7]" "[OP_CHECKSIG]" two_input_tx 0 0
        "Some 5"] CheckSig_answer [OF empty_cache_sound] by simp
qed

theorem multisig_loops_match_keys_witness:
  "fst (checkmultisig_loop (\<lambda>sg key. CheckSig ext_ref sg key [OP_CHECKSIG] two_input_tx 0 0 None)
     [replicate 8 7 @ [1]] [[6], [7]] empty_cache)"
proof -
  have v: "sig_valid ext_ref [OP_CHECKSIG] two_input_tx 0 0 None (replicate 8 7 @ [1]) [7]"
    by (simp add: sig_valid_def ecdsa_valid_def SetPubKey_def CKey_Verify_def ext_ref_def)
  have "\<exists>ks. subseq ks [[6], [7]] \<and>
      list_all2 (sig_valid ext_ref [OP_CHECKSIG] two_input_tx 0 0 None) [replicate 8 7 @ [1]] ks"
    using v by (intro exI [of _ "[[7]]"]) simp
  then show ?thesis
    using multisig_loops_match_keys [OF empty_cache_sound [of ext_ref],
        of "[replicate 8 7 @ [1]]" "[[6], [7]]" "[OP_CHECKSIG]" two_input_tx 0 0] by simp
qed

theorem hybrid_signature_needs_both_witness:
  "fst (VerifyHybridSignature ext_ref (replicate 8 7 @ [1]) (replicate 3309 7 @ [1])
     (replicate 33 7) (replicate 1952 7) [OP_CHECKHYBRIDSIG] two_input_tx 1 0 empty_cache)"
proof -
  have "1 < length (vin two_input_tx)" by (simp add: two_input_tx_def)
  then obtain p where "ConstructSignatureHashPreimage [OP_CHECKHYBRIDSIG] two_input_tx 1 (int_of_byte 1) = Some p"
    by (simp add: preimage_unfold blank_outputs_def int_of_byte_def)
  then show ?thesis
    unfolding hybrid_signature_needs_both [OF empty_cache_sound]
    by (simp add: ecdsa_valid_def SetPubKey_def CKey_Verify_def ext_ref_def butlast_append)
qed

end
