(* ===== verification/Interp.thy ===== *)
theory Interp
  imports SigCheck
begin

text \<open>
  The script interpreter, \<^verbatim>\<open>EvalScript\<close> of \<^verbatim>\<open>script.cpp\<close>. The state holds the stack and the alternative
  stack (top first), the nesting of conditionals (innermost first), the operation count, the
  suffix of the script from the last code separator, and the signature cache. Each step returns
  whether evaluation goes on and the state, since the caller keeps the stack it passed and the
  cache also when evaluation fails; \<open>(False, s)\<close> is \<^verbatim>\<open>return(false)\<close> as well as an exception, which
  \<^verbatim>\<open>EvalScript\<close> catches. One definition per group of opcodes of the switch, then one per
  instruction, and the loop over the script.
\<close>

definition MAX_SCRIPT_SIZE :: nat where
  "MAX_SCRIPT_SIZE = 200000"

definition MAX_SCRIPT_ELEMENT_SIZE :: nat where
  "MAX_SCRIPT_ELEMENT_SIZE = 66000"

record estate =
  stack :: "valtype list"
  altstack :: "valtype list"
  vfExec :: "bool list"
  nOpCount :: nat
  codehash :: CScript
  sigs :: sigcache

section \<open>Constants and control\<close>

definition op_number :: "ext \<Rightarrow> opcodetype \<Rightarrow> estate \<Rightarrow> bool \<times> estate" where
  "op_number E opcode s =
     (True, s\<lparr>stack := getvch (bn E) (setint64 (bn E) (word_of_int (uint opcode - (uint OP_1 - 1)))) # stack s\<rparr>)"

definition op_if :: "opcodetype \<Rightarrow> bool \<Rightarrow> estate \<Rightarrow> bool \<times> estate" where
  "op_if opcode fExec s =
     (if fExec then
        (case stack s of [] \<Rightarrow> (False, s)
         | vch # st \<Rightarrow>
             let fValue = CastToBool vch;
                 fValue = (if opcode = OP_NOTIF then \<not> fValue else fValue)
             in (True, s\<lparr>stack := st, vfExec := fValue # vfExec s\<rparr>))
      else (True, s\<lparr>vfExec := False # vfExec s\<rparr>))"

definition op_else :: "estate \<Rightarrow> bool \<times> estate" where
  "op_else s = (case vfExec s of [] \<Rightarrow> (False, s) | f # fs \<Rightarrow> (True, s\<lparr>vfExec := (\<not> f) # fs\<rparr>))"

definition op_endif :: "estate \<Rightarrow> bool \<times> estate" where
  "op_endif s = (case vfExec s of [] \<Rightarrow> (False, s) | f # fs \<Rightarrow> (True, s\<lparr>vfExec := fs\<rparr>))"

definition op_verify :: "estate \<Rightarrow> bool \<times> estate" where
  "op_verify s =
     (case stack s of [] \<Rightarrow> (False, s)
      | vch # st \<Rightarrow> if CastToBool vch then (True, s\<lparr>stack := st\<rparr>) else (False, s))"

section \<open>Stack operations\<close>

definition op_toaltstack :: "estate \<Rightarrow> bool \<times> estate" where
  "op_toaltstack s =
     (case stack s of [] \<Rightarrow> (False, s)
      | x # st \<Rightarrow> (True, s\<lparr>altstack := x # altstack s, stack := st\<rparr>))"

definition op_fromaltstack :: "estate \<Rightarrow> bool \<times> estate" where
  "op_fromaltstack s =
     (case altstack s of [] \<Rightarrow> (False, s)
      | x # al \<Rightarrow> (True, s\<lparr>stack := x # stack s, altstack := al\<rparr>))"

text \<open>The operations that rearrange a fixed number of top elements: \<open>None\<close> on a short stack.\<close>

definition shuffle :: "opcodetype \<Rightarrow> valtype list \<Rightarrow> valtype list option" where
  "shuffle opcode st =
     (if opcode = OP_2DROP then (case st of x2 # x1 # r \<Rightarrow> Some r | _ \<Rightarrow> None)
      else if opcode = OP_2DUP then
        (case st of x2 # x1 # r \<Rightarrow> Some (x2 # x1 # x2 # x1 # r) | _ \<Rightarrow> None)
      else if opcode = OP_3DUP then
        (case st of x3 # x2 # x1 # r \<Rightarrow> Some (x3 # x2 # x1 # x3 # x2 # x1 # r) | _ \<Rightarrow> None)
      else if opcode = OP_2OVER then
        (case st of x4 # x3 # x2 # x1 # r \<Rightarrow> Some (x2 # x1 # x4 # x3 # x2 # x1 # r) | _ \<Rightarrow> None)
      else if opcode = OP_2ROT then
        (case st of x6 # x5 # x4 # x3 # x2 # x1 # r \<Rightarrow> Some (x2 # x1 # x6 # x5 # x4 # x3 # r)
         | _ \<Rightarrow> None)
      else if opcode = OP_2SWAP then
        (case st of x4 # x3 # x2 # x1 # r \<Rightarrow> Some (x2 # x1 # x4 # x3 # r) | _ \<Rightarrow> None)
      else if opcode = OP_IFDUP then
        (case st of x # r \<Rightarrow> Some (if CastToBool x then x # x # r else x # r) | _ \<Rightarrow> None)
      else if opcode = OP_DROP then (case st of x # r \<Rightarrow> Some r | _ \<Rightarrow> None)
      else if opcode = OP_DUPHYBRID then
        (if length st < 4 then None
         else case st of pubML # pubEC # r \<Rightarrow> Some (pubML # pubEC # pubML # pubEC # r) | _ \<Rightarrow> None)
      else if opcode = OP_DUP then (case st of x # r \<Rightarrow> Some (x # x # r) | _ \<Rightarrow> None)
      else if opcode = OP_NIP then (case st of x2 # x1 # r \<Rightarrow> Some (x2 # r) | _ \<Rightarrow> None)
      else if opcode = OP_OVER then (case st of x2 # x1 # r \<Rightarrow> Some (x1 # x2 # x1 # r) | _ \<Rightarrow> None)
      else if opcode = OP_ROT then
        (case st of x3 # x2 # x1 # r \<Rightarrow> Some (x1 # x3 # x2 # r) | _ \<Rightarrow> None)
      else if opcode = OP_SWAP then (case st of x2 # x1 # r \<Rightarrow> Some (x1 # x2 # r) | _ \<Rightarrow> None)
      else if opcode = OP_TUCK then (case st of x2 # x1 # r \<Rightarrow> Some (x2 # x1 # x2 # r) | _ \<Rightarrow> None)
      else None)"

definition op_shuffle :: "opcodetype \<Rightarrow> estate \<Rightarrow> bool \<times> estate" where
  "op_shuffle opcode s =
     (case shuffle opcode (stack s) of None \<Rightarrow> (False, s) | Some st \<Rightarrow> (True, s\<lparr>stack := st\<rparr>))"

definition op_depth :: "ext \<Rightarrow> estate \<Rightarrow> bool \<times> estate" where
  "op_depth E s =
     (True, s\<lparr>stack := getvch (bn E) (setint64 (bn E) (word_of_nat (length (stack s)))) # stack s\<rparr>)"

definition op_pick :: "ext \<Rightarrow> opcodetype \<Rightarrow> estate \<Rightarrow> bool \<times> estate" where
  "op_pick E opcode s =
     (if length (stack s) < 2 then (False, s)
      else
        (case CastToBigNum (bn E) (hd (stack s)) of None \<Rightarrow> (False, s)
         | Some b \<Rightarrow>
             let n = getint (bn E) b; st = tl (stack s)
             in if n < 0 \<or> n \<ge> int (length st) then (False, s\<lparr>stack := st\<rparr>)
                else
                  let vch = st ! nat n;
                      st = (if opcode = OP_ROLL then erase_at (nat n) st else st)
                  in (True, s\<lparr>stack := vch # st\<rparr>)))"

section \<open>Splice, comparison and arithmetic\<close>

definition op_size :: "ext \<Rightarrow> estate \<Rightarrow> bool \<times> estate" where
  "op_size E s =
     (case stack s of [] \<Rightarrow> (False, s)
      | x # st \<Rightarrow>
          (True, s\<lparr>stack := getvch (bn E) (setint64 (bn E) (word_of_nat (length x))) # x # st\<rparr>))"

definition vchBool :: "bool \<Rightarrow> valtype" where
  "vchBool b = (if b then vchTrue else vchFalse)"

definition op_equal :: "opcodetype \<Rightarrow> estate \<Rightarrow> bool \<times> estate" where
  "op_equal opcode s =
     (case stack s of
        vch2 # vch1 # st \<Rightarrow>
          let fEqual = (vch1 = vch2)
          in if opcode = OP_EQUALVERIFY then
               (if fEqual then (True, s\<lparr>stack := st\<rparr>)
                else (False, s\<lparr>stack := vchBool fEqual # st\<rparr>))
             else (True, s\<lparr>stack := vchBool fEqual # st\<rparr>)
      | _ \<Rightarrow> (False, s))"

definition unary_value :: "opcodetype \<Rightarrow> int \<Rightarrow> int" where
  "unary_value opcode b =
     (if opcode = OP_1ADD then b + 1
      else if opcode = OP_1SUB then b - 1
      else if opcode = OP_NEGATE then - b
      else if opcode = OP_ABS then (if b < 0 then - b else b)
      else if opcode = OP_NOT then of_bool (b = 0)
      else of_bool (b \<noteq> 0))"

definition op_unary :: "ext \<Rightarrow> opcodetype \<Rightarrow> estate \<Rightarrow> bool \<times> estate" where
  "op_unary E opcode s =
     (case stack s of [] \<Rightarrow> (False, s)
      | x # st \<Rightarrow>
          (case CastToBigNum (bn E) x of None \<Rightarrow> (False, s)
           | Some b \<Rightarrow> (True, s\<lparr>stack := getvch (bn E) (unary_value opcode b) # st\<rparr>)))"

definition binary_value :: "opcodetype \<Rightarrow> int \<Rightarrow> int \<Rightarrow> int" where
  "binary_value opcode bn1 bn2 =
     (if opcode = OP_ADD then bn1 + bn2
      else if opcode = OP_SUB then bn1 - bn2
      else if opcode = OP_BOOLAND then of_bool (bn1 \<noteq> 0 \<and> bn2 \<noteq> 0)
      else if opcode = OP_BOOLOR then of_bool (bn1 \<noteq> 0 \<or> bn2 \<noteq> 0)
      else if opcode = OP_NUMEQUAL \<or> opcode = OP_NUMEQUALVERIFY then of_bool (bn1 = bn2)
      else if opcode = OP_NUMNOTEQUAL then of_bool (bn1 \<noteq> bn2)
      else if opcode = OP_LESSTHAN then of_bool (bn1 < bn2)
      else if opcode = OP_GREATERTHAN then of_bool (bn1 > bn2)
      else if opcode = OP_LESSTHANOREQUAL then of_bool (bn1 \<le> bn2)
      else if opcode = OP_GREATERTHANOREQUAL then of_bool (bn1 \<ge> bn2)
      else if opcode = OP_MIN then (if bn1 < bn2 then bn1 else bn2)
      else (if bn1 > bn2 then bn1 else bn2))"

definition op_binary :: "ext \<Rightarrow> opcodetype \<Rightarrow> estate \<Rightarrow> bool \<times> estate" where
  "op_binary E opcode s =
     (case stack s of
        x2 # x1 # st \<Rightarrow>
          (case CastToBigNum (bn E) x1 of None \<Rightarrow> (False, s)
           | Some bn1 \<Rightarrow>
          (case CastToBigNum (bn E) x2 of None \<Rightarrow> (False, s)
           | Some bn2 \<Rightarrow>
              let v = getvch (bn E) (binary_value opcode bn1 bn2)
              in if opcode = OP_NUMEQUALVERIFY then
                   (if CastToBool v then (True, s\<lparr>stack := st\<rparr>) else (False, s\<lparr>stack := v # st\<rparr>))
                 else (True, s\<lparr>stack := v # st\<rparr>)))
      | _ \<Rightarrow> (False, s))"

definition op_within :: "ext \<Rightarrow> estate \<Rightarrow> bool \<times> estate" where
  "op_within E s =
     (case stack s of
        x3 # x2 # x1 # st \<Rightarrow>
          (case (CastToBigNum (bn E) x1, CastToBigNum (bn E) x2, CastToBigNum (bn E) x3) of
             (Some bn1, Some bn2, Some bn3) \<Rightarrow>
               (True, s\<lparr>stack := vchBool (bn2 \<le> bn1 \<and> bn1 < bn3) # st\<rparr>)
           | _ \<Rightarrow> (False, s))
      | _ \<Rightarrow> (False, s))"

section \<open>Hashes\<close>

definition op_hashhybrid160 :: "ext \<Rightarrow> estate \<Rightarrow> bool \<times> estate" where
  "op_hashhybrid160 E s =
     (if length (stack s) < 4 then (False, s)
      else
        (case stack s of
           vchPubML # vchPubEC # st \<Rightarrow>
             let blob = vchPubEC @ vchPubML
             in (True, s\<lparr>stack := mem (Hash160 E blob) # st\<rparr>)
         | _ \<Rightarrow> (False, s)))"

definition op_hash :: "ext \<Rightarrow> opcodetype \<Rightarrow> estate \<Rightarrow> bool \<times> estate" where
  "op_hash E opcode s =
     (case stack s of [] \<Rightarrow> (False, s)
      | vch # st \<Rightarrow>
          let vchHash =
            (if opcode = OP_RIPEMD160 then RIPEMD160 E vch
             else if opcode = OP_SHA1 then SHA1 E vch
             else if opcode = OP_SHA256 then SHA256 E vch
             else if opcode = OP_HASH160 then mem (Hash160 E vch)
             else mem (Hash E vch))
          in (True, s\<lparr>stack := vchHash # st\<rparr>))"

section \<open>Signature checks\<close>

text \<open>\<^verbatim>\<open>scriptCode.FindAndDelete(CScript(vch))\<close> for each signature, in the order of the loop.\<close>

definition drop_sig :: "valtype \<Rightarrow> CScript \<Rightarrow> CScript" where
  "drop_sig vchSig scriptCode = snd (FindAndDelete scriptCode (push_vch [] vchSig))"

text \<open>The result of a signature check: push it, or for the verifying form pop it again or fail.\<close>

definition push_result :: "bool \<Rightarrow> bool \<Rightarrow> valtype list \<Rightarrow> estate \<Rightarrow> bool \<times> estate" where
  "push_result fVerify fSuccess st s =
     (if fVerify then
        (if fSuccess then (True, s\<lparr>stack := st\<rparr>) else (False, s\<lparr>stack := vchFalse # st\<rparr>))
      else (True, s\<lparr>stack := vchBool fSuccess # st\<rparr>))"

definition op_checksig ::
  "ext \<Rightarrow> CTransaction \<Rightarrow> nat \<Rightarrow> u32 \<Rightarrow> opcodetype \<Rightarrow> estate \<Rightarrow> bool \<times> estate" where
  "op_checksig E txTo nIn nHashType opcode s =
     (case stack s of
        vchPubKey # vchSig # st \<Rightarrow>
          let scriptCode = drop_sig vchSig (codehash s);
              (fSuccess, c) = CheckSig E vchSig vchPubKey scriptCode txTo nIn nHashType None (sigs s)
          in push_result (opcode = OP_CHECKSIGVERIFY) fSuccess st (s\<lparr>sigs := c\<rparr>)
      | _ \<Rightarrow> (False, s))"

text \<open>
  The two counts of a multisignature check: \<open>None\<close> when the element is no number (an exception) or
  the number is negative or above the limit.
\<close>

definition read_count :: "ext \<Rightarrow> nat \<Rightarrow> valtype \<Rightarrow> nat option" where
  "read_count E limit vch =
     (case CastToBigNum (bn E) vch of None \<Rightarrow> None
      | Some b \<Rightarrow>
          let n = getint (bn E) b in if n < 0 \<or> n > int limit then None else Some (nat n))"

definition run_checkmultisig ::
  "ext \<Rightarrow> CTransaction \<Rightarrow> nat \<Rightarrow> u32 \<Rightarrow> opcodetype \<Rightarrow> nat \<Rightarrow> nat \<Rightarrow> estate \<Rightarrow> bool \<times> estate" where
  "run_checkmultisig E txTo nIn nHashType opcode nKeys nSigs s =
     (let st = stack s;
          keys = take nKeys (drop 1 st);
          vsigs = take nSigs (drop (2 + nKeys) st);
          scriptCode = fold drop_sig vsigs (codehash s);
          (fSuccess, c) = checkmultisig_loop
            (\<lambda>vchSig vchPubKey. CheckSig E vchSig vchPubKey scriptCode txTo nIn nHashType None)
            vsigs keys (sigs s)
      in push_result (opcode = OP_CHECKMULTISIGVERIFY) fSuccess
           (drop (3 + nKeys + nSigs) st) (s\<lparr>sigs := c\<rparr>))"

definition op_checkmultisig ::
  "ext \<Rightarrow> CTransaction \<Rightarrow> nat \<Rightarrow> u32 \<Rightarrow> opcodetype \<Rightarrow> estate \<Rightarrow> bool \<times> estate" where
  "op_checkmultisig E txTo nIn nHashType opcode s =
     (if length (stack s) < 1 then (False, s)
      else
        (case read_count E 20 (stack s ! 0) of None \<Rightarrow> (False, s)
         | Some nKeys \<Rightarrow>
             let s = s\<lparr>nOpCount := nOpCount s + nKeys\<rparr> in
             if nOpCount s > 201 then (False, s)
             else if length (stack s) < 2 + nKeys then (False, s)
             else
               (case read_count E nKeys (stack s ! (1 + nKeys)) of None \<Rightarrow> (False, s)
                | Some nSigs \<Rightarrow>
                    if length (stack s) < 3 + nKeys + nSigs then (False, s)
                    else run_checkmultisig E txTo nIn nHashType opcode nKeys nSigs s)))"

definition op_checkhybridsig ::
  "ext \<Rightarrow> CTransaction \<Rightarrow> nat \<Rightarrow> u32 \<Rightarrow> opcodetype \<Rightarrow> estate \<Rightarrow> bool \<times> estate" where
  "op_checkhybridsig E txTo nIn nHashType opcode s =
     (case stack s of
        vchPubKeyML # vchPubKeyEC # vchSigML # vchSigEC # st \<Rightarrow>
          let scriptCode = drop_sig vchSigML (drop_sig vchSigEC (codehash s));
              (fSuccess, c) = VerifyHybridSignature E vchSigEC vchSigML vchPubKeyEC vchPubKeyML
                scriptCode txTo nIn nHashType (sigs s)
          in push_result (opcode = OP_CHECKHYBRIDSIGVERIFY) fSuccess st (s\<lparr>sigs := c\<rparr>)
      | _ \<Rightarrow> (False, s))"

text \<open>Elements that lie on the stack as ECDSA part below ML-DSA part, as pairs, top first.\<close>

fun hybrid_pairs :: "valtype list \<Rightarrow> (valtype \<times> valtype) list" where
  "hybrid_pairs (ml # ec # r) = (ec, ml) # hybrid_pairs r"
| "hybrid_pairs _ = []"

definition run_checkmultihybridsig ::
  "ext \<Rightarrow> CTransaction \<Rightarrow> nat \<Rightarrow> u32 \<Rightarrow> nat \<Rightarrow> nat \<Rightarrow> estate \<Rightarrow> bool \<times> estate" where
  "run_checkmultihybridsig E txTo nIn nHashType nKeys nSigs s =
     (let st = stack s;
          keys = hybrid_pairs (take (2 * nKeys) (drop 1 st));
          vsigs = hybrid_pairs (take (2 * nSigs) (drop (2 + 2 * nKeys) st));
          rest = drop (2 + 2 * nKeys + 2 * nSigs) st;
          scriptCode = fold (\<lambda>(ec, ml) sc. drop_sig ml (drop_sig ec sc)) vsigs (codehash s)
      in if \<not> list_all (\<lambda>(ec, ml). ec \<noteq> [] \<and> ml \<noteq> []) vsigs then (False, s)
         else if vsigs = [] then (True, s\<lparr>stack := vchTrue # rest\<rparr>)
         else
           let sigHashType = int_of_byte (last (fst (hd vsigs)))
           in if int_of_byte (last (snd (hd vsigs))) \<noteq> sigHashType then (False, s)
              else if nHashType \<noteq> 0 \<and> sigHashType \<noteq> nHashType then (False, s)
              else if \<not> list_all (\<lambda>(ec, ml). int_of_byte (last ec) = sigHashType \<and>
                          int_of_byte (last ml) = sigHashType) (tl vsigs)
              then (False, s)
              else
                (case SignatureHashWithPreimage E scriptCode txTo nIn sigHashType of
                   None \<Rightarrow> (False, s)
                 | Some (sighash, preimage) \<Rightarrow>
                     let (fSuccess, c) = hybrid_match_loop
                       (CheckHybridPair E scriptCode txTo nIn sigHashType sighash
                          (BuildHybridMessage preimage)) vsigs keys (sigs s)
                     in push_result False fSuccess rest (s\<lparr>sigs := c\<rparr>)))"

definition op_checkmultihybridsig ::
  "ext \<Rightarrow> CTransaction \<Rightarrow> nat \<Rightarrow> u32 \<Rightarrow> estate \<Rightarrow> bool \<times> estate" where
  "op_checkmultihybridsig E txTo nIn nHashType s =
     (if length (stack s) < 1 then (False, s)
      else
        (case read_count E 20 (stack s ! 0) of None \<Rightarrow> (False, s)
         | Some nKeys \<Rightarrow>
             let s = s\<lparr>nOpCount := nOpCount s + nKeys\<rparr> in
             if nOpCount s > 201 then (False, s)
             else if length (stack s) < 2 + 2 * nKeys then (False, s)
             else
               (case read_count E nKeys (stack s ! (1 + 2 * nKeys)) of None \<Rightarrow> (False, s)
                | Some nSigs \<Rightarrow>
                    if length (stack s) < 2 + 2 * nKeys + 2 * nSigs then (False, s)
                    else run_checkmultihybridsig E txTo nIn nHashType nKeys nSigs s)))"

section \<open>One instruction\<close>

definition disabled_opcodes :: "opcodetype list" where
  "disabled_opcodes =
     [OP_CAT, OP_SUBSTR, OP_LEFT, OP_RIGHT, OP_INVERT, OP_AND, OP_OR, OP_XOR, OP_2MUL, OP_2DIV,
      OP_MUL, OP_DIV, OP_MOD, OP_LSHIFT, OP_RSHIFT]"

definition number_opcodes :: "opcodetype list" where
  "number_opcodes =
     [OP_1NEGATE, OP_1, OP_2, OP_3, OP_4, OP_5, OP_6, OP_7, OP_8, OP_9, OP_10, OP_11, OP_12, OP_13,
      OP_14, OP_15, OP_16]"

definition nop_opcodes :: "opcodetype list" where
  "nop_opcodes =
     [OP_NOP, OP_NOP1, OP_NOP2, OP_NOP3, OP_NOP4, OP_NOP5, OP_NOP6, OP_NOP7, OP_NOP8, OP_NOP9,
      OP_NOP10]"

definition shuffle_opcodes :: "opcodetype list" where
  "shuffle_opcodes =
     [OP_2DROP, OP_2DUP, OP_3DUP, OP_2OVER, OP_2ROT, OP_2SWAP, OP_IFDUP, OP_DROP, OP_DUPHYBRID,
      OP_DUP, OP_NIP, OP_OVER, OP_ROT, OP_SWAP, OP_TUCK]"

definition unary_opcodes :: "opcodetype list" where
  "unary_opcodes = [OP_1ADD, OP_1SUB, OP_NEGATE, OP_ABS, OP_NOT, OP_0NOTEQUAL]"

definition binary_opcodes :: "opcodetype list" where
  "binary_opcodes =
     [OP_ADD, OP_SUB, OP_BOOLAND, OP_BOOLOR, OP_NUMEQUAL, OP_NUMEQUALVERIFY, OP_NUMNOTEQUAL,
      OP_LESSTHAN, OP_GREATERTHAN, OP_LESSTHANOREQUAL, OP_GREATERTHANOREQUAL, OP_MIN, OP_MAX]"

definition hash_opcodes :: "opcodetype list" where
  "hash_opcodes = [OP_RIPEMD160, OP_SHA1, OP_SHA256, OP_HASH160, OP_HASH256]"

text \<open>The switch. \<open>pc\<close> is the script behind the instruction.\<close>

definition eval_opcode ::
  "ext \<Rightarrow> CTransaction \<Rightarrow> nat \<Rightarrow> u32 \<Rightarrow> opcodetype \<Rightarrow> bool \<Rightarrow> CScript \<Rightarrow> estate \<Rightarrow> bool \<times> estate" where
  "eval_opcode E txTo nIn nHashType opcode fExec pc s =
     (if opcode \<in> set number_opcodes then op_number E opcode s
      else if opcode \<in> set nop_opcodes then (True, s)
      else if opcode = OP_IF \<or> opcode = OP_NOTIF then op_if opcode fExec s
      else if opcode = OP_ELSE then op_else s
      else if opcode = OP_ENDIF then op_endif s
      else if opcode = OP_VERIFY then op_verify s
      else if opcode = OP_RETURN then (False, s)
      else if opcode = OP_TOALTSTACK then op_toaltstack s
      else if opcode = OP_FROMALTSTACK then op_fromaltstack s
      else if opcode \<in> set shuffle_opcodes then op_shuffle opcode s
      else if opcode = OP_DEPTH then op_depth E s
      else if opcode = OP_PICK \<or> opcode = OP_ROLL then op_pick E opcode s
      else if opcode = OP_SIZE then op_size E s
      else if opcode = OP_EQUAL \<or> opcode = OP_EQUALVERIFY then op_equal opcode s
      else if opcode \<in> set unary_opcodes then op_unary E opcode s
      else if opcode \<in> set binary_opcodes then op_binary E opcode s
      else if opcode = OP_WITHIN then op_within E s
      else if opcode = OP_HASHHYBRID160 then op_hashhybrid160 E s
      else if opcode \<in> set hash_opcodes then op_hash E opcode s
      else if opcode = OP_CODESEPARATOR then (True, s\<lparr>codehash := pc\<rparr>)
      else if opcode = OP_CHECKSIG \<or> opcode = OP_CHECKSIGVERIFY
      then op_checksig E txTo nIn nHashType opcode s
      else if opcode = OP_CHECKMULTISIG \<or> opcode = OP_CHECKMULTISIGVERIFY
      then op_checkmultisig E txTo nIn nHashType opcode s
      else if opcode = OP_CHECKHYBRIDSIG \<or> opcode = OP_CHECKHYBRIDSIGVERIFY
      then op_checkhybridsig E txTo nIn nHashType opcode s
      else if opcode = OP_CHECKMULTIHYBRIDSIG
      then op_checkmultihybridsig E txTo nIn nHashType s
      else (False, s))"

text \<open>The body of the loop, from the element size check on.\<close>

definition eval_instr ::
  "ext \<Rightarrow> CTransaction \<Rightarrow> nat \<Rightarrow> u32 \<Rightarrow> opcodetype \<Rightarrow> valtype \<Rightarrow> CScript \<Rightarrow> estate \<Rightarrow> bool \<times> estate" where
  "eval_instr E txTo nIn nHashType opcode vchPushValue pc s =
     (let fExec = (False \<notin> set (vfExec s)) in
      if length vchPushValue > MAX_SCRIPT_ELEMENT_SIZE then (False, s)
      else
        let s = (if opcode > OP_16 then s\<lparr>nOpCount := nOpCount s + 1\<rparr> else s) in
        if opcode > OP_16 \<and> nOpCount s > 201 then (False, s)
        else if opcode \<in> set disabled_opcodes then (False, s)
        else
          (case (if fExec \<and> opcode \<le> OP_PUSHDATA4 then (True, s\<lparr>stack := vchPushValue # stack s\<rparr>)
                 else if fExec \<or> OP_IF \<le> opcode \<and> opcode \<le> OP_ENDIF
                 then eval_opcode E txTo nIn nHashType opcode fExec pc s
                 else (True, s)) of
             (False, s) \<Rightarrow> (False, s)
           | (True, s) \<Rightarrow>
               if length (stack s) + length (altstack s) > 1000 then (False, s) else (True, s)))"

section \<open>The script\<close>

function eval_loop ::
  "ext \<Rightarrow> CTransaction \<Rightarrow> nat \<Rightarrow> u32 \<Rightarrow> CScript \<Rightarrow> estate \<Rightarrow> bool \<times> estate" where
  "eval_loop E txTo nIn nHashType pc s =
     (if pc = [] then (vfExec s = [], s)
      else
        (case GetOp2 pc of None \<Rightarrow> (False, s)
         | Some (opcode, vchPushValue, pc) \<Rightarrow>
             (case eval_instr E txTo nIn nHashType opcode vchPushValue pc s of
                (False, s) \<Rightarrow> (False, s)
              | (True, s) \<Rightarrow> eval_loop E txTo nIn nHashType pc s)))"
  by pat_completeness auto
termination
  by (relation "measure (\<lambda>(E, tx, i, ht, pc, s). length pc)") (auto dest: GetOp2_shorter)

declare eval_loop.simps [simp del]

definition EvalScript ::
  "ext \<Rightarrow> valtype list \<Rightarrow> CScript \<Rightarrow> CTransaction \<Rightarrow> nat \<Rightarrow> u32 \<Rightarrow> sigcache \<Rightarrow>
    bool \<times> valtype list \<times> sigcache" where
  "EvalScript E st script txTo nIn nHashType c =
     (if length script > MAX_SCRIPT_SIZE then (False, st, c)
      else
        (case eval_loop E txTo nIn nHashType script
           \<lparr>stack = st, altstack = [], vfExec = [], nOpCount = 0, codehash = script, sigs = c\<rparr> of
           (r, s) \<Rightarrow> (r, stack s, sigs s)))"

end
