(* ===== verification/InterpSafety.thy ===== *)
theory InterpSafety
  imports Interp
begin

text \<open>
  What a script must look like for \<^verbatim>\<open>EvalScript\<close> to return true, and the resource limits of its
  evaluation: an invariant of the loop, kept by every operation. Operations other than the
  conditionals leave the nesting alone, and none decreases the operation count.
\<close>

named_theorems eval_frame

lemma op_frames [eval_frame]:
  "vfExec (snd (op_number E opcode s)) = vfExec s" "nOpCount (snd (op_number E opcode s)) = nOpCount s"
  "vfExec (snd (op_verify s)) = vfExec s" "nOpCount (snd (op_verify s)) = nOpCount s"
  "vfExec (snd (op_toaltstack s)) = vfExec s" "nOpCount (snd (op_toaltstack s)) = nOpCount s"
  "vfExec (snd (op_fromaltstack s)) = vfExec s" "nOpCount (snd (op_fromaltstack s)) = nOpCount s"
  "vfExec (snd (op_shuffle opcode s)) = vfExec s" "nOpCount (snd (op_shuffle opcode s)) = nOpCount s"
  "vfExec (snd (op_depth E s)) = vfExec s" "nOpCount (snd (op_depth E s)) = nOpCount s"
  "vfExec (snd (op_size E s)) = vfExec s" "nOpCount (snd (op_size E s)) = nOpCount s"
  "vfExec (snd (op_hash E opcode s)) = vfExec s" "nOpCount (snd (op_hash E opcode s)) = nOpCount s"
  by (simp_all add: op_number_def op_verify_def op_toaltstack_def op_fromaltstack_def op_shuffle_def
      op_depth_def op_size_def op_hash_def Let_def split: list.split option.split)

lemma op_pick_frame [eval_frame]:
  "vfExec (snd (op_pick E opcode s)) = vfExec s" "nOpCount (snd (op_pick E opcode s)) = nOpCount s"
  by (simp_all add: op_pick_def Let_def split: option.split)

lemma op_equal_frame [eval_frame]:
  "vfExec (snd (op_equal opcode s)) = vfExec s" "nOpCount (snd (op_equal opcode s)) = nOpCount s"
  by (simp_all add: op_equal_def Let_def split: list.split)

lemma op_unary_frame [eval_frame]:
  "vfExec (snd (op_unary E opcode s)) = vfExec s" "nOpCount (snd (op_unary E opcode s)) = nOpCount s"
  by (simp_all add: op_unary_def split: list.split option.split)

lemma op_binary_frame [eval_frame]:
  "vfExec (snd (op_binary E opcode s)) = vfExec s" "nOpCount (snd (op_binary E opcode s)) = nOpCount s"
  by (simp_all add: op_binary_def Let_def split: list.split option.split)

lemma op_within_frame [eval_frame]:
  "vfExec (snd (op_within E s)) = vfExec s" "nOpCount (snd (op_within E s)) = nOpCount s"
  by (simp_all add: op_within_def split: list.split option.split)

lemma op_hashhybrid160_frame [eval_frame]:
  "vfExec (snd (op_hashhybrid160 E s)) = vfExec s"
  "nOpCount (snd (op_hashhybrid160 E s)) = nOpCount s"
  by (simp_all add: op_hashhybrid160_def Let_def split: list.split)

lemma push_result_frame [eval_frame]:
  "vfExec (snd (push_result v f st s)) = vfExec s" "nOpCount (snd (push_result v f st s)) = nOpCount s"
  by (simp_all add: push_result_def)

lemma op_checksig_frame [eval_frame]:
  "vfExec (snd (op_checksig E tx i ht opcode s)) = vfExec s"
  "nOpCount (snd (op_checksig E tx i ht opcode s)) = nOpCount s"
  by (simp_all add: op_checksig_def Let_def eval_frame split: list.split prod.split)

lemma op_checkhybridsig_frame [eval_frame]:
  "vfExec (snd (op_checkhybridsig E tx i ht opcode s)) = vfExec s"
  "nOpCount (snd (op_checkhybridsig E tx i ht opcode s)) = nOpCount s"
  by (simp_all add: op_checkhybridsig_def Let_def eval_frame split: list.split prod.split)

lemma run_checkmultisig_frame [eval_frame]:
  "vfExec (snd (run_checkmultisig E tx i ht opcode n m s)) = vfExec s"
  "nOpCount (snd (run_checkmultisig E tx i ht opcode n m s)) = nOpCount s"
  by (simp_all add: run_checkmultisig_def Let_def eval_frame split: prod.split)

lemma run_checkmultihybridsig_frame [eval_frame]:
  "vfExec (snd (run_checkmultihybridsig E tx i ht n m s)) = vfExec s"
  "nOpCount (snd (run_checkmultihybridsig E tx i ht n m s)) = nOpCount s"
  by (simp_all add: run_checkmultihybridsig_def Let_def eval_frame split: option.split prod.split)

lemma op_checkmultisig_frame [eval_frame]:
  "vfExec (snd (op_checkmultisig E tx i ht opcode s)) = vfExec s"
  "nOpCount s \<le> nOpCount (snd (op_checkmultisig E tx i ht opcode s))"
  by (simp_all add: op_checkmultisig_def Let_def eval_frame split: option.split)

lemma op_checkmultisig_count:
  "fst (op_checkmultisig E tx i ht opcode s) \<Longrightarrow>
     nOpCount (snd (op_checkmultisig E tx i ht opcode s)) \<le> 201"
  by (auto simp: op_checkmultisig_def Let_def eval_frame split: option.splits if_splits)

lemma op_checkmultihybridsig_frame [eval_frame]:
  "vfExec (snd (op_checkmultihybridsig E tx i ht s)) = vfExec s"
  "nOpCount s \<le> nOpCount (snd (op_checkmultihybridsig E tx i ht s))"
  by (simp_all add: op_checkmultihybridsig_def Let_def eval_frame split: option.split)

lemma op_checkmultihybridsig_count:
  "fst (op_checkmultihybridsig E tx i ht s) \<Longrightarrow>
     nOpCount (snd (op_checkmultihybridsig E tx i ht s)) \<le> 201"
  by (auto simp: op_checkmultihybridsig_def Let_def eval_frame split: option.splits if_splits)

section \<open>The switch\<close>

text \<open>How an opcode changes the depth of the conditionals; \<open>None\<close> is an ELSE or ENDIF without IF.\<close>

definition depth_step :: "opcodetype \<Rightarrow> nat \<Rightarrow> nat option" where
  "depth_step opcode d =
     (if opcode = OP_IF \<or> opcode = OP_NOTIF then Some (Suc d)
      else if opcode = OP_ELSE then (if d = 0 then None else Some d)
      else if opcode = OP_ENDIF then (if d = 0 then None else Some (d - 1))
      else Some d)"

fun cond_depth :: "opcodetype list \<Rightarrow> nat \<Rightarrow> nat option" where
  "cond_depth [] d = Some d"
| "cond_depth (opcode # ops) d =
     (case depth_step opcode d of None \<Rightarrow> None | Some d \<Rightarrow> cond_depth ops d)"

lemmas opcode_lists = number_opcodes_def nop_opcodes_def shuffle_opcodes_def unary_opcodes_def
  binary_opcodes_def hash_opcodes_def disabled_opcodes_def

lemma eval_opcode_cond:
  "eval_opcode E tx i ht OP_IF fExec pc s = op_if OP_IF fExec s"
  "eval_opcode E tx i ht OP_NOTIF fExec pc s = op_if OP_NOTIF fExec s"
  "eval_opcode E tx i ht OP_ELSE fExec pc s = op_else s"
  "eval_opcode E tx i ht OP_ENDIF fExec pc s = op_endif s"
  "eval_opcode E tx i ht OP_VERIF fExec pc s = (False, s)"
  "eval_opcode E tx i ht OP_VERNOTIF fExec pc s = (False, s)"
  by (simp_all add: eval_opcode_def opcode_lists)

lemma op_cond_frame:
  "op_if opcode fExec s = (True, s') \<Longrightarrow> length (vfExec s') = Suc (length (vfExec s)) \<and> nOpCount s' = nOpCount s"
  "op_else s = (True, s') \<Longrightarrow> vfExec s \<noteq> [] \<and> length (vfExec s') = length (vfExec s) \<and> nOpCount s' = nOpCount s"
  "op_endif s = (True, s') \<Longrightarrow> vfExec s \<noteq> [] \<and> length (vfExec s') = length (vfExec s) - 1 \<and> nOpCount s' = nOpCount s"
  by (auto simp: op_if_def op_else_def op_endif_def Let_def split: list.splits if_splits)

definition keeps :: "estate \<Rightarrow> bool \<times> estate \<Rightarrow> bool" where
  "keeps s r \<longleftrightarrow>
     vfExec (snd r) = vfExec s \<and> nOpCount s \<le> nOpCount (snd r) \<and>
     (fst r \<and> nOpCount s \<le> 201 \<longrightarrow> nOpCount (snd r) \<le> 201)"

lemma keeps_ops:
  "keeps s (b, s)" "keeps s (b, s\<lparr>codehash := pc\<rparr>)" "keeps s (op_number E opcode s)"
  "keeps s (op_verify s)" "keeps s (op_toaltstack s)" "keeps s (op_fromaltstack s)"
  "keeps s (op_shuffle opcode s)" "keeps s (op_depth E s)" "keeps s (op_size E s)"
  "keeps s (op_hash E opcode s)" "keeps s (op_pick E opcode s)" "keeps s (op_equal opcode s)"
  "keeps s (op_unary E opcode s)" "keeps s (op_binary E opcode s)" "keeps s (op_within E s)"
  "keeps s (op_hashhybrid160 E s)" "keeps s (op_checksig E tx i ht opcode s)"
  "keeps s (op_checkhybridsig E tx i ht opcode s)"
  by (simp_all add: keeps_def eval_frame)

lemma keeps_multi:
  "keeps s (op_checkmultisig E tx i ht opcode s)" "keeps s (op_checkmultihybridsig E tx i ht s)"
  by (auto simp: keeps_def eval_frame dest: op_checkmultisig_count op_checkmultihybridsig_count)

lemma eval_opcode_keeps:
  assumes "opcode \<notin> {OP_IF, OP_NOTIF, OP_ELSE, OP_ENDIF}"
  shows "keeps s (eval_opcode E tx i ht opcode fExec pc s)"
  using assms unfolding eval_opcode_def by (simp add: keeps_ops keeps_multi split: if_split)

lemma eval_opcode_props:
  assumes "eval_opcode E tx i ht opcode fExec pc s = (True, s')"
  shows "depth_step opcode (length (vfExec s)) = Some (length (vfExec s')) \<and>
    nOpCount s \<le> nOpCount s' \<and> (nOpCount s \<le> 201 \<longrightarrow> nOpCount s' \<le> 201) \<and>
    opcode \<noteq> OP_VERIF \<and> opcode \<noteq> OP_VERNOTIF"
proof (cases "opcode \<in> {OP_IF, OP_NOTIF, OP_ELSE, OP_ENDIF}")
  case True
  then consider "opcode = OP_IF" | "opcode = OP_NOTIF" | "opcode = OP_ELSE" | "opcode = OP_ENDIF" by blast
  then show ?thesis
    by cases (use assms in \<open>simp_all only: eval_opcode_cond\<close>,
        auto simp: depth_step_def dest: op_cond_frame)
next
  case False
  have s': "s' = snd (eval_opcode E tx i ht opcode fExec pc s)" using assms by simp
  have "opcode \<noteq> OP_VERIF" "opcode \<noteq> OP_VERNOTIF"
    using assms eval_opcode_cond(5,6) by (metis Pair_inject)+
  moreover have "depth_step opcode (length (vfExec s)) = Some (length (vfExec s'))"
    using False eval_opcode_keeps [OF False, of s E tx i ht fExec pc] unfolding s' depth_step_def keeps_def
    by simp
  ultimately show ?thesis
    using eval_opcode_keeps [OF False, of s E tx i ht fExec pc] assms unfolding keeps_def by simp
qed

lemma eval_instr_props:
  assumes "eval_instr E tx i ht opcode v pc s = (True, s')" "nOpCount s \<le> 201"
  shows "length v \<le> MAX_SCRIPT_ELEMENT_SIZE \<and> opcode \<notin> set disabled_opcodes \<and>
    opcode \<noteq> OP_VERIF \<and> opcode \<noteq> OP_VERNOTIF \<and>
    depth_step opcode (length (vfExec s)) = Some (length (vfExec s')) \<and>
    nOpCount s + of_bool (opcode > OP_16) \<le> nOpCount s' \<and> nOpCount s' \<le> 201 \<and>
    length (stack s') + length (altstack s') \<le> 1000"
proof -
  let ?s = "if opcode > OP_16 then s\<lparr>nOpCount := nOpCount s + 1\<rparr> else s"
  let ?fExec = "False \<notin> set (vfExec s)"
  let ?r = "if ?fExec \<and> opcode \<le> OP_PUSHDATA4 then (True, ?s\<lparr>stack := v # stack ?s\<rparr>)
     else if ?fExec \<or> OP_IF \<le> opcode \<and> opcode \<le> OP_ENDIF
     then eval_opcode E tx i ht opcode ?fExec pc ?s else (True, ?s)"
  have r: "?r = (True, s')" "length (stack s') + length (altstack s') \<le> 1000"
    and pre: "length v \<le> MAX_SCRIPT_ELEMENT_SIZE" "opcode \<notin> set disabled_opcodes"
      "nOpCount ?s \<le> 201"
    using assms
    by (auto simp: eval_instr_def Let_def not_less split: if_splits prod.splits bool.splits)
  have cnt: "nOpCount ?s = nOpCount s + of_bool (opcode > OP_16)" "vfExec ?s = vfExec s" by simp_all
  consider (push) "?fExec" "opcode \<le> OP_PUSHDATA4"
    | (op) "\<not> (?fExec \<and> opcode \<le> OP_PUSHDATA4)" "?fExec \<or> OP_IF \<le> opcode \<and> opcode \<le> OP_ENDIF"
    | (skip) "\<not> ?fExec" "\<not> (OP_IF \<le> opcode \<and> opcode \<le> OP_ENDIF)" by blast
  then show ?thesis
  proof cases
    case push
    then have "s' = ?s\<lparr>stack := v # stack ?s\<rparr>" using r(1) by simp
    moreover have "opcode \<noteq> OP_VERIF" "opcode \<noteq> OP_VERNOTIF"
      "depth_step opcode d = Some d" for d
      using push(2) by (auto simp: depth_step_def)
    ultimately show ?thesis using pre r(2) cnt by simp
  next
    case op
    have "eval_opcode E tx i ht opcode ?fExec pc ?s = (True, s')"
      using r(1) unfolding if_not_P [OF op(1)] if_P [OF op(2)] .
    from eval_opcode_props [OF this] show ?thesis using pre r(2) cnt by auto
  next
    case skip
    then have "\<not> (?fExec \<and> opcode \<le> OP_PUSHDATA4)"
      "\<not> (?fExec \<or> OP_IF \<le> opcode \<and> opcode \<le> OP_ENDIF)" by blast+
    from r(1) [unfolded if_not_P [OF this(1)] if_not_P [OF this(2)]] have "s' = ?s" by simp
    moreover have "opcode \<noteq> OP_VERIF" "opcode \<noteq> OP_VERNOTIF"
      "depth_step opcode d = Some d" for d
      using skip(2) by (auto simp: depth_step_def)
    ultimately show ?thesis using pre r(2) cnt by simp
  qed
qed

section \<open>The loop\<close>

lemma eval_loop_Nil: "eval_loop E tx i ht [] s = (vfExec s = [], s)"
  by (subst eval_loop.simps) simp

lemma eval_loop_None: "pc \<noteq> [] \<Longrightarrow> GetOp2 pc = None \<Longrightarrow> eval_loop E tx i ht pc s = (False, s)"
  by (subst eval_loop.simps) simp

lemma eval_loop_Some:
  "GetOp2 pc = Some (opcode, v, rest) \<Longrightarrow>
     eval_loop E tx i ht pc s =
       (case eval_instr E tx i ht opcode v rest s of
          (False, s) \<Rightarrow> (False, s) | (True, s) \<Rightarrow> eval_loop E tx i ht rest s)"
  by (subst eval_loop.simps) (auto split: bool.split prod.split)

definition n_ops :: "(opcodetype \<times> valtype \<times> bytes) list \<Rightarrow> nat" where
  "n_ops is = length (filter (\<lambda>(opcode, v, e). opcode > OP_16) is)"

definition good_instr :: "opcodetype \<times> valtype \<times> bytes \<Rightarrow> bool" where
  "good_instr = (\<lambda>(opcode, v, e). length v \<le> MAX_SCRIPT_ELEMENT_SIZE \<and>
     opcode \<notin> set disabled_opcodes \<and> opcode \<noteq> OP_VERIF \<and> opcode \<noteq> OP_VERNOTIF)"

lemma eval_loop_wellformed:
  assumes "fst (eval_loop E tx i ht pc s)" "nOpCount s \<le> 201"
  shows "snd (instrs pc) = [] \<and> list_all good_instr (fst (instrs pc)) \<and>
    nOpCount s + n_ops (fst (instrs pc)) \<le> 201 \<and>
    cond_depth (map fst (fst (instrs pc))) (length (vfExec s)) = Some 0 \<and>
    (pc \<noteq> [] \<longrightarrow> length (stack (snd (eval_loop E tx i ht pc s))) \<le> 1000)"
  using assms
proof (induction pc arbitrary: s rule: instrs_induct)
  case (None pc)
  then have "pc = []" using eval_loop_None [of pc E tx i ht s] by (cases "pc = []") auto
  with None show ?case by (simp add: eval_loop_Nil instrs_None n_ops_def)
next
  case (Some j opcode v rest)
  obtain s' where s': "eval_instr E tx i ht opcode v rest s = (True, s')"
    using Some.prems eval_loop_Some [OF Some.hyps(2)]
    by (auto split: prod.splits bool.splits)
  note p = eval_instr_props [OF s' Some.prems(2)]
  have run: "eval_loop E tx i ht (j @ rest) s = eval_loop E tx i ht rest s'"
    using eval_loop_Some [OF Some.hyps(2)] s' by simp
  have IH: "snd (instrs rest) = [] \<and> list_all good_instr (fst (instrs rest)) \<and>
    nOpCount s' + n_ops (fst (instrs rest)) \<le> 201 \<and>
    cond_depth (map fst (fst (instrs rest))) (length (vfExec s')) = Some 0 \<and>
    (rest \<noteq> [] \<longrightarrow> length (stack (snd (eval_loop E tx i ht rest s'))) \<le> 1000)"
    using Some.prems(1) p by (intro Some.IH) (simp_all add: run)
  have "length (stack (snd (eval_loop E tx i ht rest s'))) \<le> 1000"
    using IH p by (cases "rest = []") (simp_all add: eval_loop_Nil)
  with IH p show ?case
    by (cases "opcode > OP_16")
      (simp_all add: run instrs_Some [OF Some.hyps(2)] n_ops_def good_instr_def)
qed

text \<open>C29: What a script that evaluates to true must look like, in whatever branches it executes: at
  most 200000 bytes that all decode, no pushed element above 66000 bytes, none of the disabled
  opcodes and no VERIF or VERNOTIF anywhere (executed or not), at most 201 opcodes above OP_16, its
  IF, NOTIF, ELSE and ENDIF balanced; and it leaves at most 1000 elements on the stack.\<close>

theorem evalscript_true_wellformed:
  assumes "EvalScript E st script tx i ht c = (True, st', c')"
  shows "length script \<le> 200000 \<and> snd (instrs script) = [] \<and>
    list_all (\<lambda>(opcode, v, e). length v \<le> 66000 \<and> opcode \<notin> set disabled_opcodes \<and>
      opcode \<noteq> OP_VERIF \<and> opcode \<noteq> OP_VERNOTIF) (fst (instrs script)) \<and>
    length (filter (\<lambda>(opcode, v, e). opcode > OP_16) (fst (instrs script))) \<le> 201 \<and>
    cond_depth (map fst (fst (instrs script))) 0 = Some 0 \<and>
    (script \<noteq> [] \<longrightarrow> length st' \<le> 1000)"
proof -
  let ?s = "\<lparr>stack = st, altstack = [], vfExec = [], nOpCount = 0, codehash = script, sigs = c\<rparr>"
  have run: "length script \<le> MAX_SCRIPT_SIZE" "fst (eval_loop E tx i ht script ?s)"
      "stack (snd (eval_loop E tx i ht script ?s)) = st'"
    using assms by (auto simp: EvalScript_def split: if_splits prod.splits)
  show ?thesis
    using eval_loop_wellformed [OF run(2)] run(1,3)
    by (simp add: n_ops_def good_instr_def MAX_SCRIPT_SIZE_def MAX_SCRIPT_ELEMENT_SIZE_def)
qed

end
