(* ===== verification/Verify.thy ===== *)
theory Verify
  imports InterpSafety
begin

text \<open>
  \<^verbatim>\<open>VerifyScript\<close> and \<^verbatim>\<open>VerifySignature\<close> of \<^verbatim>\<open>script.cpp\<close>: the input script, the output script and, for
  a script hash output, the redeem script run one after another. The result is \<open>None\<close> where the
  code would read the last element of an empty vector. The lemmas evaluate the interpreter
  symbolically on pushes and on the standard output scripts.
\<close>

definition VerifyScript ::
  "ext \<Rightarrow> CScript \<Rightarrow> CScript \<Rightarrow> CTransaction \<Rightarrow> nat \<Rightarrow> bool \<Rightarrow> u32 \<Rightarrow> sigcache \<Rightarrow>
    (bool \<times> sigcache) option" where
  "VerifyScript E ssig spk txTo nIn fValidatePayToScriptHash nHashType c =
     (case EvalScript E [] ssig txTo nIn nHashType c of
        (False, st, c) \<Rightarrow> Some (False, c)
      | (True, st, c) \<Rightarrow>
          let stackCopy = st in
          (case EvalScript E st spk txTo nIn nHashType c of
             (False, st, c) \<Rightarrow> Some (False, c)
           | (True, st, c) \<Rightarrow>
               if st = [] \<or> \<not> CastToBool (hd st) then Some (False, c)
               else if fValidatePayToScriptHash \<and> IsPayToScriptHash spk then
                 (if \<not> IsPushOnly ssig then Some (False, c)
                  else
                    (case stackCopy of [] \<Rightarrow> None
                     | pubKeySerialized # stackCopy \<Rightarrow>
                         (case EvalScript E stackCopy pubKeySerialized txTo nIn nHashType c of
                            (False, stackCopy, c) \<Rightarrow> Some (False, c)
                          | (True, stackCopy, c) \<Rightarrow>
                              if stackCopy = [] \<or> \<not> CastToBool (hd stackCopy) then Some (False, c)
                              else Some (True, c))))
               else Some (True, c)))"

definition VerifySignature ::
  "ext \<Rightarrow> CTransaction \<Rightarrow> CTransaction \<Rightarrow> nat \<Rightarrow> bool \<Rightarrow> u32 \<Rightarrow> sigcache \<Rightarrow> (bool \<times> sigcache) option" where
  "VerifySignature E txFrom txTo nIn fValidatePayToScriptHash nHashType c =
     (if nIn \<ge> length (vin txTo) then None
      else
        let txin = vin txTo ! nIn in
        if unat (prev_n (prevout txin)) \<ge> length (vout txFrom) then Some (False, c)
        else
          let txout = vout txFrom ! unat (prev_n (prevout txin)) in
          if prev_hash (prevout txin) \<noteq> GetHash E txFrom then Some (False, c)
          else VerifyScript E (scriptSig txin) (scriptPubKey txout) txTo nIn
                 fValidatePayToScriptHash nHashType c)"

section \<open>Symbolic evaluation\<close>

definition start :: "CScript \<Rightarrow> valtype list \<Rightarrow> sigcache \<Rightarrow> estate" where
  "start script st c =
     \<lparr>stack = st, altstack = [], vfExec = [], nOpCount = 0, codehash = script, sigs = c\<rparr>"

lemma EvalScript_start:
  "length script \<le> MAX_SCRIPT_SIZE \<Longrightarrow>
     EvalScript E st script tx i ht c =
       (case eval_loop E tx i ht script (start script st c) of (r, s) \<Rightarrow> (r, stack s, sigs s))"
  by (simp add: EvalScript_def start_def)

text \<open>The state after an operation, with the stack size check.\<close>

definition checked :: "bool \<times> estate \<Rightarrow> bool \<times> estate" where
  "checked r = (case r of (False, s) \<Rightarrow> (False, s)
     | (True, s) \<Rightarrow> if length (stack s) + length (altstack s) > 1000 then (False, s) else (True, s))"

definition next_instr ::
  "ext \<Rightarrow> CTransaction \<Rightarrow> nat \<Rightarrow> u32 \<Rightarrow> CScript \<Rightarrow> bool \<times> estate \<Rightarrow> bool \<times> estate" where
  "next_instr E tx i ht rest r =
     (case checked r of (False, s) \<Rightarrow> (False, s) | (True, s) \<Rightarrow> eval_loop E tx i ht rest s)"

lemma next_instr_simps [simp]:
  "next_instr E tx i ht rest (False, s) = (False, s)"
  "length (stack s) + length (altstack s) \<le> 1000 \<Longrightarrow>
     next_instr E tx i ht rest (True, s) = eval_loop E tx i ht rest s"
  by (simp_all add: next_instr_def checked_def)

lemma disabled_not_push: "opcode \<le> OP_16 \<Longrightarrow> opcode \<notin> set disabled_opcodes"
  by (auto simp: disabled_opcodes_def)

lemma eval_push:
  assumes "GetOp2 pc = Some (opcode, v, rest)" "opcode \<le> OP_PUSHDATA4"
    "vfExec s = []" "length v \<le> MAX_SCRIPT_ELEMENT_SIZE"
  shows "eval_loop E tx i ht pc s = next_instr E tx i ht rest (True, s\<lparr>stack := v # stack s\<rparr>)"
proof -
  have "opcode \<le> OP_16" using assms(2) by (rule order_trans) simp
  then have "\<not> OP_16 < opcode" "opcode \<notin> set disabled_opcodes"
    using disabled_not_push leD by blast+
  with assms show ?thesis
    unfolding eval_loop_Some [OF assms(1)] next_instr_def checked_def eval_instr_def Let_def by simp
qed

lemma eval_op:
  assumes "OP_16 < opcode" "opcode \<notin> set disabled_opcodes" "vfExec s = []" "nOpCount s < 201"
  shows "eval_loop E tx i ht (opcode # rest) s =
    next_instr E tx i ht rest (eval_opcode E tx i ht opcode True rest (s\<lparr>nOpCount := Suc (nOpCount s)\<rparr>))"
proof -
  have "\<not> opcode \<le> OP_PUSHDATA4" using assms(1) by (auto simp: word_le_nat_alt word_less_nat_alt)
  then have g: "GetOp2 (opcode # rest) = Some (opcode, [], rest)" by (rule GetOp2_nonpush)
  show ?thesis
    unfolding eval_loop_Some [OF g] next_instr_def checked_def eval_instr_def Let_def
    using assms \<open>\<not> opcode \<le> OP_PUSHDATA4\<close> by simp
qed

lemma eval_PushAll:
  assumes "pushable vs" "list_all (\<lambda>v. length v \<le> MAX_SCRIPT_ELEMENT_SIZE) vs" "vfExec s = []"
    "length vs + length (stack s) + length (altstack s) \<le> 1000"
  shows "eval_loop E tx i ht (PushAll vs @ rest) s =
    eval_loop E tx i ht rest (s\<lparr>stack := rev vs @ stack s\<rparr>)"
  using assms
proof (induction vs arbitrary: s)
  case (Cons v vs)
  have g: "GetOp2 (PushAll (v # vs) @ rest) = Some (push_code v, v, PushAll vs @ rest)"
    using Cons.prems by (simp add: GetOp2_push_enc)
  have "eval_loop E tx i ht (PushAll (v # vs) @ rest) s =
      next_instr E tx i ht (PushAll vs @ rest) (True, s\<lparr>stack := v # stack s\<rparr>)"
    using Cons.prems by (intro eval_push [OF g push_code_le]) simp_all
  also have "\<dots> = eval_loop E tx i ht (PushAll vs @ rest) (s\<lparr>stack := v # stack s\<rparr>)"
    using Cons.prems by simp
  finally show ?case using Cons.prems Cons.IH [of "s\<lparr>stack := v # stack s\<rparr>"] by simp
qed simp

lemma pushable_elements:
  "list_all (\<lambda>v. length v \<le> MAX_SCRIPT_ELEMENT_SIZE) vs \<Longrightarrow> pushable vs"
  by (induction vs) (simp_all add: MAX_SCRIPT_ELEMENT_SIZE_def)

text \<open>The input scripts the theorems spend with: pushes within the limits.\<close>

definition push_script_ok :: "valtype list \<Rightarrow> bool" where
  "push_script_ok vs \<longleftrightarrow>
     list_all (\<lambda>v. length v \<le> MAX_SCRIPT_ELEMENT_SIZE) vs \<and> length vs \<le> 900 \<and>
     length (PushAll vs) \<le> MAX_SCRIPT_SIZE"

lemma EvalScript_PushAll:
  assumes "push_script_ok vs"
  shows "EvalScript E [] (PushAll vs) tx i ht c = (True, rev vs, c)"
proof -
  have "eval_loop E tx i ht (PushAll vs @ []) (start (PushAll vs) [] c) =
      eval_loop E tx i ht [] ((start (PushAll vs) [] c)\<lparr>stack := rev vs @ []\<rparr>)"
    using assms pushable_elements
    by (subst eval_PushAll) (auto simp: push_script_ok_def start_def)
  then show ?thesis
    using assms by (simp add: EvalScript_start push_script_ok_def eval_loop_Nil start_def)
qed

lemma IsPushOnly_PushAll_ok: "push_script_ok vs \<Longrightarrow> IsPushOnly (PushAll vs)"
  using IsPushOnly_PushAll pushable_elements by (auto simp: push_script_ok_def)

lemma VerifyScript_PushAll:
  assumes "push_script_ok vs" "\<not> (p2sh \<and> IsPayToScriptHash spk)"
  shows "VerifyScript E (PushAll vs) spk tx i p2sh ht c =
    (case EvalScript E (rev vs) spk tx i ht c of
       (r, st, c') \<Rightarrow> Some (r \<and> st \<noteq> [] \<and> CastToBool (hd st), c'))"
  using assms(2)
  by (auto simp: VerifyScript_def EvalScript_PushAll [OF assms(1)] Let_def split: prod.split bool.split)

section \<open>A script with a branch not taken\<close>

theorem evalscript_true_wellformed_witness:
  "EvalScript ext_ref [[1]] [OP_IF, OP_1, OP_ELSE, OP_VER, OP_ENDIF] two_input_tx 0 0 empty_cache =
     (True, [[1]], empty_cache) \<and>
   cond_depth (map fst (fst (instrs [OP_IF, OP_1, OP_ELSE, OP_VER, OP_ENDIF]))) 0 = Some 0"
proof -
  let ?s = "\<lambda>st vf n. \<lparr>stack = st, altstack = [], vfExec = vf, nOpCount = n,
      codehash = [OP_IF, OP_1, OP_ELSE, OP_VER, OP_ENDIF], sigs = empty_cache\<rparr>"
  have v: "getvch bn_ref (setint64 bn_ref 1) = [1]" by code_simp
  have i: "eval_instr ext_ref two_input_tx 0 0 OP_IF [] r (?s [[1]] [] 0) = (True, ?s [] [True] 1)"
    "eval_instr ext_ref two_input_tx 0 0 OP_1 [] r (?s [] [True] 1) = (True, ?s [[1]] [True] 1)"
    "eval_instr ext_ref two_input_tx 0 0 OP_ELSE [] r (?s [[1]] [True] 1) = (True, ?s [[1]] [False] 2)"
    "eval_instr ext_ref two_input_tx 0 0 OP_VER [] r (?s [[1]] [False] 2) = (True, ?s [[1]] [False] 3)"
    "eval_instr ext_ref two_input_tx 0 0 OP_ENDIF [] r (?s [[1]] [False] 3) = (True, ?s [[1]] [] 4)" for r
    using v by (simp_all add: eval_instr_def eval_opcode_def opcode_lists op_if_def op_else_def
        op_endif_def op_number_def CastToBool.simps Let_def ext_ref_def)
  have g: "GetOp2 (b # r) = Some (b, [], r)" if "\<not> b \<le> OP_PUSHDATA4" for b r
    using that by (rule GetOp2_nonpush)
  have "EvalScript ext_ref [[1]] [OP_IF, OP_1, OP_ELSE, OP_VER, OP_ENDIF] two_input_tx 0 0 empty_cache =
      (True, [[1]], empty_cache)"
    using i by (simp add: EvalScript_start start_def MAX_SCRIPT_SIZE_def eval_loop_Some [OF g]
        eval_loop_Nil)
  then show ?thesis using evalscript_true_wellformed by blast
qed

end
