(* ===== verification/Templates.thy ===== *)
theory Templates
  imports Verify "HOL-Library.List_Lexorder"
begin

text \<open>
  The standard output scripts: how \<^verbatim>\<open>script.cpp\<close> builds them (\<^verbatim>\<open>SetDestination\<close>, \<^verbatim>\<open>SetMultisig\<close>,
  \<^verbatim>\<open>GetScriptForHybrid...\<close>), how \<^verbatim>\<open>Solver\<close> recognises them, and the questions asked of the result.
  Public keys are their bytes, key and script identifiers words of 160 bits; hybrid keys are those
  of \<^verbatim>\<open>hs/hybrid_types.h\<close>. Callers give \<^verbatim>\<open>Solver\<close> an empty vector for the solutions.
\<close>

section \<open>Hybrid public keys\<close>

datatype CHybridPubKey = CHybridPubKey (ecdsaPubKey: bytes) (mldsaPubKey: bytes)

definition ECDSA_SIZE :: nat where
  "ECDSA_SIZE = 33"

definition MLDSA_SIZE :: nat where
  "MLDSA_SIZE = 1952"

definition TOTAL_SIZE :: nat where
  "TOTAL_SIZE = ECDSA_SIZE + MLDSA_SIZE"

definition HybridPubKey_IsValid :: "CHybridPubKey \<Rightarrow> bool" where
  "HybridPubKey_IsValid k \<longleftrightarrow> length (ecdsaPubKey k) = ECDSA_SIZE \<and> length (mldsaPubKey k) = MLDSA_SIZE"

definition HybridPubKey_Serialize :: "CHybridPubKey \<Rightarrow> bytes" where
  "HybridPubKey_Serialize k = ecdsaPubKey k @ mldsaPubKey k"

definition HybridPubKey_Deserialize :: "bytes \<Rightarrow> CHybridPubKey" where
  "HybridPubKey_Deserialize data =
     (if length data \<noteq> TOTAL_SIZE then CHybridPubKey [] []
      else CHybridPubKey (take ECDSA_SIZE data) (drop ECDSA_SIZE data))"

definition HybridPubKey_GetID :: "ext \<Rightarrow> CHybridPubKey \<Rightarrow> uint160" where
  "HybridPubKey_GetID E k = Hash160 E (HybridPubKey_Serialize k)"

text \<open>\<^verbatim>\<open>operator<\<close>: shorter ECDSA part first, then the bytes of both parts.\<close>

definition HybridPubKey_less :: "CHybridPubKey \<Rightarrow> CHybridPubKey \<Rightarrow> bool" where
  "HybridPubKey_less a b =
     (if length (ecdsaPubKey a) \<noteq> length (ecdsaPubKey b)
      then length (ecdsaPubKey a) < length (ecdsaPubKey b)
      else if ecdsaPubKey a \<noteq> ecdsaPubKey b then ecdsaPubKey a < ecdsaPubKey b
      else mldsaPubKey a < mldsaPubKey b)"

instantiation CHybridPubKey :: linorder
begin

definition less_CHybridPubKey :: "CHybridPubKey \<Rightarrow> CHybridPubKey \<Rightarrow> bool" where
  "less_CHybridPubKey = HybridPubKey_less"

definition less_eq_CHybridPubKey :: "CHybridPubKey \<Rightarrow> CHybridPubKey \<Rightarrow> bool" where
  "less_eq_CHybridPubKey a b \<longleftrightarrow> a < b \<or> a = b"

instance
proof
  fix a b c :: CHybridPubKey
  show "(a < b) = (a \<le> b \<and> \<not> b \<le> a)"
    by (auto simp: less_CHybridPubKey_def HybridPubKey_less_def less_eq_CHybridPubKey_def)
  show "a \<le> a" by (simp add: less_eq_CHybridPubKey_def)
  show "a \<le> b \<Longrightarrow> b \<le> c \<Longrightarrow> a \<le> c"
    by (auto simp: less_CHybridPubKey_def HybridPubKey_less_def less_eq_CHybridPubKey_def split: if_splits)
  show "a \<le> b \<Longrightarrow> b \<le> a \<Longrightarrow> a = b"
    by (auto simp: less_CHybridPubKey_def HybridPubKey_less_def less_eq_CHybridPubKey_def split: if_splits)
  show "a \<le> b \<or> b \<le> a"
    by (auto simp: less_CHybridPubKey_def HybridPubKey_less_def less_eq_CHybridPubKey_def)
      (metis CHybridPubKey.expand linorder_less_linear)
qed

end

section \<open>Building output scripts\<close>

datatype CTxDestination =
    CNoDestination
  | CKeyID uint160
  | CScriptID uint160
  | CHybridKeyID uint160

definition SetDestination :: "CTxDestination \<Rightarrow> CScript" where
  "SetDestination dest =
     (case dest of
        CNoDestination \<Rightarrow> []
      | CKeyID keyID \<Rightarrow>
          push_op (push_op (push_uint160 (push_op (push_op [] OP_DUP) OP_HASH160) keyID) OP_EQUALVERIFY)
            OP_CHECKSIG
      | CScriptID scriptID \<Rightarrow> push_op (push_uint160 (push_op [] OP_HASH160) scriptID) OP_EQUAL
      | CHybridKeyID keyID \<Rightarrow>
          push_op (push_op (push_uint160 (push_op (push_op [] OP_DUPHYBRID) OP_HASHHYBRID160) keyID)
            OP_EQUALVERIFY) OP_CHECKHYBRIDSIG)"

definition GetScriptForPubKeyHash :: "uint160 \<Rightarrow> CScript" where
  "GetScriptForPubKeyHash keyID =
     push_op (push_op (push_uint160 (push_op (push_op [] OP_DUP) OP_HASH160) keyID) OP_EQUALVERIFY)
       OP_CHECKSIG"

text \<open>\<^verbatim>\<open>EncodeOP_N\<close> asserts its range; \<open>None\<close> is the failed assertion.\<close>

definition SetMultisig :: "nat \<Rightarrow> bytes list \<Rightarrow> CScript option" where
  "SetMultisig nRequired keys =
     (case EncodeOP_N nRequired of None \<Rightarrow> None
      | Some m \<Rightarrow>
     (case EncodeOP_N (length keys) of None \<Rightarrow> None
      | Some n \<Rightarrow>
          Some (push_op (push_op (fold (\<lambda>key s. push_vch s key) keys (push_op [] m)) n)
            OP_CHECKMULTISIG)))"

definition GetScriptForHybridPubKey :: "CHybridPubKey \<Rightarrow> CScript" where
  "GetScriptForHybridPubKey hybridKey =
     (if \<not> HybridPubKey_IsValid hybridKey then []
      else push_op (push_vch (push_vch [] (ecdsaPubKey hybridKey)) (mldsaPubKey hybridKey))
             OP_CHECKHYBRIDSIG)"

definition GetScriptForHybridPubKeyHash :: "uint160 \<Rightarrow> CScript" where
  "GetScriptForHybridPubKeyHash h =
     (let hashBytes = mem h in
      push_op (push_op (push_vch (push_op (push_op [] OP_DUPHYBRID) OP_HASHHYBRID160) hashBytes)
        OP_EQUALVERIFY) OP_CHECKHYBRIDSIG)"

definition GetScriptForHybridMultisig :: "int \<Rightarrow> CHybridPubKey list \<Rightarrow> CScript option" where
  "GetScriptForHybridMultisig nRequired keys =
     (if nRequired < 1 \<or> nRequired > 16 then Some []
      else if keys = [] \<or> length keys > 16 then Some []
      else if nat nRequired > length keys then Some []
      else
        (case EncodeOP_N (nat nRequired) of None \<Rightarrow> None
         | Some m \<Rightarrow>
             if \<not> list_all HybridPubKey_IsValid keys then Some []
             else
               (case EncodeOP_N (length keys) of None \<Rightarrow> None
                | Some n \<Rightarrow>
                    Some (push_op (push_op
                      (fold (\<lambda>key s. push_vch (push_vch s (ecdsaPubKey key)) (mldsaPubKey key)) keys
                         (push_op [] m)) n) OP_CHECKMULTIHYBRIDSIG))))"

section \<open>\<^verbatim>\<open>Solver\<close>\<close>

datatype txnouttype =
    TX_NONSTANDARD | TX_PUBKEY | TX_PUBKEYHASH | TX_SCRIPTHASH | TX_MULTISIG
  | TX_HYBRID_PUBKEY | TX_HYBRID_PUBKEYHASH | TX_HYBRID_MULTISIG

text \<open>A public key by its size, as the templates test it.\<close>

definition pubkey_sized :: "valtype \<Rightarrow> bool" where
  "pubkey_sized v \<longleftrightarrow> length v \<ge> 33 \<and> length v \<le> 120"

definition solve_hybrid_pubkey :: "CScript \<Rightarrow> valtype list option" where
  "solve_hybrid_pubkey spk =
     (case GetOp2 spk of None \<Rightarrow> None
      | Some (op1, ecdsaPub, pc) \<Rightarrow>
     (case GetOp2 pc of None \<Rightarrow> None
      | Some (op2, mldsaPub, pc) \<Rightarrow>
     (case GetOp2 pc of None \<Rightarrow> None
      | Some (op3, v, pc) \<Rightarrow>
          if pc = [] \<and> op3 = OP_CHECKHYBRIDSIG \<and> pubkey_sized ecdsaPub
          then Some [ecdsaPub, mldsaPub] else None)))"

definition solve_hybrid_pubkeyhash :: "CScript \<Rightarrow> valtype list option" where
  "solve_hybrid_pubkeyhash spk =
     (case GetOp2 spk of None \<Rightarrow> None
      | Some (op1, v, pc) \<Rightarrow> if op1 \<noteq> OP_DUPHYBRID then None else
     (case GetOp2 pc of None \<Rightarrow> None
      | Some (op2, v, pc) \<Rightarrow> if op2 \<noteq> OP_HASHHYBRID160 then None else
     (case GetOp2 pc of None \<Rightarrow> None
      | Some (op3, hash, pc) \<Rightarrow> if length hash \<noteq> 20 then None else
     (case GetOp2 pc of None \<Rightarrow> None
      | Some (op4, v, pc) \<Rightarrow> if op4 \<noteq> OP_EQUALVERIFY then None else
     (case GetOp2 pc of None \<Rightarrow> None
      | Some (op5, v, pc) \<Rightarrow>
          if op5 = OP_CHECKHYBRIDSIG \<and> pc = [] then Some [hash] else None)))))"

text \<open>
  The key loop of the hybrid multisig template: the flag \<^verbatim>\<open>fKeys\<close>, the last opcode, the keys and the
  iterator when it stops. A failed \<^verbatim>\<open>GetOp\<close> sets the opcode to \<open>OP_INVALIDOPCODE\<close>.
\<close>

function hybrid_keys :: "CScript \<Rightarrow> valtype list \<Rightarrow> bool \<times> opcodetype \<times> valtype list \<times> CScript" where
  "hybrid_keys pc keys =
     (case GetOp2 pc of None \<Rightarrow> (True, OP_INVALIDOPCODE, keys, pc)
      | Some (opcode, vch, pc1) \<Rightarrow>
          if pubkey_sized vch then
            (case GetOp2 pc1 of None \<Rightarrow> (False, OP_INVALIDOPCODE, keys @ [vch], pc1)
             | Some (opcode2, vch2, pc2) \<Rightarrow>
                 if length vch2 \<noteq> ML_DSA_65_PUBKEY_SIZE then (False, opcode2, keys @ [vch], pc2)
                 else hybrid_keys pc2 (keys @ [vch, vch2]))
          else if OP_1 \<le> opcode \<and> opcode \<le> OP_16 then (False, opcode, keys, pc1)
          else (False, opcode, [], pc1))"
  by pat_completeness auto
termination
  by (relation "measure (\<lambda>(pc, keys). length pc)") (auto dest!: GetOp2_shorter)

declare hybrid_keys.simps [simp del]

definition solve_hybrid_multisig :: "CScript \<Rightarrow> valtype list option" where
  "solve_hybrid_multisig spk =
     (case GetOp2 spk of None \<Rightarrow> None
      | Some (opcode, vch, pc) \<Rightarrow>
     (case DecodeOP_N opcode of None \<Rightarrow> None
      | Some m \<Rightarrow>
          let (fKeys, opcode, keys, pc) = hybrid_keys pc [];
              n = (if \<not> fKeys \<and> OP_1 \<le> opcode \<and> opcode \<le> OP_16
                   then (case DecodeOP_N opcode of None \<Rightarrow> 0 | Some n \<Rightarrow> n) else 0)
          in if n \<ge> 1 \<and> length keys mod 2 = 0 \<and> length keys div 2 = n then
               (case GetOp2 pc of None \<Rightarrow> None
                | Some (opcode, vch, pc) \<Rightarrow>
                    if opcode = OP_CHECKMULTIHYBRIDSIG \<and> pc = [] \<and> m \<ge> 1 \<and> m \<le> n
                    then Some ([[word_of_nat m]] @ keys @ [[word_of_nat n]]) else None)
             else None))"

subsection \<open>Template matching\<close>

definition mTemplates :: "(txnouttype \<times> CScript) list" where
  "mTemplates =
     [(TX_PUBKEY, [OP_PUBKEY, OP_CHECKSIG]),
      (TX_PUBKEYHASH, [OP_DUP, OP_HASH160, OP_PUBKEYHASH, OP_EQUALVERIFY, OP_CHECKSIG]),
      (TX_MULTISIG, [OP_SMALLINTEGER, OP_PUBKEYS, OP_SMALLINTEGER, OP_CHECKMULTISIG])]"

text \<open>\<open>OP_PUBKEYS\<close>: collect keys, starting with the instruction just read.\<close>

function collect_pubkeys ::
  "opcodetype \<Rightarrow> valtype \<Rightarrow> CScript \<Rightarrow> valtype list \<Rightarrow> opcodetype \<times> valtype \<times> CScript \<times> valtype list" where
  "collect_pubkeys opcode1 vch1 pc1 sol =
     (if pubkey_sized vch1 then
        (case GetOp2 pc1 of None \<Rightarrow> (OP_INVALIDOPCODE, [], pc1, sol @ [vch1])
         | Some (opcode, vch, pc) \<Rightarrow> collect_pubkeys opcode vch pc (sol @ [vch1]))
      else (opcode1, vch1, pc1, sol))"
  by pat_completeness auto
termination
  by (relation "measure (\<lambda>(opcode, vch, pc, sol). length pc)") (auto dest!: GetOp2_shorter)

declare collect_pubkeys.simps [simp del]

text \<open>One template operand against one instruction: the solutions, \<open>None\<close> for a mismatch.\<close>

definition match_operand ::
  "opcodetype \<Rightarrow> valtype \<Rightarrow> opcodetype \<Rightarrow> valtype \<Rightarrow> valtype list \<Rightarrow> valtype list option" where
  "match_operand opcode1 vch1 opcode2 vch2 sol =
     (if opcode2 = OP_PUBKEY then
        (if length vch1 < 33 \<or> length vch1 > 120 then None else Some (sol @ [vch1]))
      else if opcode2 = OP_PUBKEYHASH then (if length vch1 \<noteq> 20 then None else Some (sol @ [vch1]))
      else if opcode2 = OP_SMALLINTEGER then
        (case DecodeOP_N opcode1 of None \<Rightarrow> None | Some n \<Rightarrow> Some (sol @ [[word_of_nat n]]))
      else if opcode1 \<noteq> opcode2 \<or> vch1 \<noteq> vch2 then None
      else Some sol)"

function match_template :: "CScript \<Rightarrow> CScript \<Rightarrow> valtype list \<Rightarrow> valtype list option" where
  "match_template pc1 pc2 sol =
     (if pc1 = [] \<and> pc2 = [] then Some sol
      else
        (case GetOp2 pc1 of None \<Rightarrow> None
         | Some (opcode1, vch1, pc1) \<Rightarrow>
        (case GetOp2 pc2 of None \<Rightarrow> None
         | Some (opcode2, vch2, pc2) \<Rightarrow>
             if opcode2 = OP_PUBKEYS then
               (let (opcode1, vch1, pc1, sol) = collect_pubkeys opcode1 vch1 pc1 sol
                in case GetOp2 pc2 of None \<Rightarrow> None
                   | Some (opcode2, vch2, pc2) \<Rightarrow>
                       (case match_operand opcode1 vch1 opcode2 vch2 sol of None \<Rightarrow> None
                        | Some sol \<Rightarrow> match_template pc1 pc2 sol))
             else
               (case match_operand opcode1 vch1 opcode2 vch2 sol of None \<Rightarrow> None
                | Some sol \<Rightarrow> match_template pc1 pc2 sol))))"
  by pat_completeness auto
termination
  by (relation "measure (\<lambda>(pc1, pc2, sol). length pc2)") (auto dest!: GetOp2_shorter)

declare match_template.simps [simp del]

fun scan_templates :: "(txnouttype \<times> CScript) list \<Rightarrow> CScript \<Rightarrow> bool \<times> txnouttype \<times> valtype list" where
  "scan_templates [] spk = (False, TX_NONSTANDARD, [])"
| "scan_templates ((t, script2) # ts) spk =
     (case match_template spk script2 [] of
        None \<Rightarrow> scan_templates ts spk
      | Some sol \<Rightarrow>
          if t = TX_MULTISIG then
            (let m = hd (hd sol); n = hd (last sol)
             in if m < 1 \<or> n < 1 \<or> m > n \<or> length sol - 2 \<noteq> unat n
                then (False, TX_MULTISIG, sol) else (True, TX_MULTISIG, sol))
          else (True, t, sol))"

definition Solver :: "CScript \<Rightarrow> bool \<times> txnouttype \<times> valtype list" where
  "Solver spk =
     (case solve_hybrid_pubkey spk of Some sol \<Rightarrow> (True, TX_HYBRID_PUBKEY, sol)
      | None \<Rightarrow>
     (case solve_hybrid_pubkeyhash spk of Some sol \<Rightarrow> (True, TX_HYBRID_PUBKEYHASH, sol)
      | None \<Rightarrow>
     (case solve_hybrid_multisig spk of Some sol \<Rightarrow> (True, TX_HYBRID_MULTISIG, sol)
      | None \<Rightarrow>
          if IsPayToScriptHash spk then (True, TX_SCRIPTHASH, [take 20 (drop 2 spk)])
          else scan_templates mTemplates spk)))"

section \<open>Questions about the solution\<close>

text \<open>\<^verbatim>\<open>ScriptSigArgsExpected\<close>: a byte of the solution as a number, negative for an error.\<close>

definition ScriptSigArgsExpected :: "txnouttype \<Rightarrow> valtype list \<Rightarrow> int" where
  "ScriptSigArgsExpected t vSolutions =
     (case t of
        TX_NONSTANDARD \<Rightarrow> - 1
      | TX_PUBKEY \<Rightarrow> 1
      | TX_PUBKEYHASH \<Rightarrow> 2
      | TX_MULTISIG \<Rightarrow>
          if length vSolutions < 1 \<or> length (vSolutions ! 0) < 1 then - 1
          else uint (vSolutions ! 0 ! 0) + 1
      | TX_SCRIPTHASH \<Rightarrow> 1
      | TX_HYBRID_PUBKEY \<Rightarrow> 2
      | TX_HYBRID_PUBKEYHASH \<Rightarrow> 4
      | TX_HYBRID_MULTISIG \<Rightarrow>
          if length vSolutions < 1 \<or> length (vSolutions ! 0) < 1 then - 1
          else uint (vSolutions ! 0 ! 0) * 2)"

definition script_IsStandard :: "CScript \<Rightarrow> bool" where
  "script_IsStandard spk =
     (case Solver spk of (ok, whichType, vSolutions) \<Rightarrow>
        if \<not> ok then False
        else if whichType = TX_MULTISIG \<or> whichType = TX_HYBRID_MULTISIG then
          (let m = hd (hd vSolutions); n = hd (last vSolutions)
           in if n < 1 \<or> n > 3 then False else if m < 1 \<or> m > n then False else True)
        else whichType \<noteq> TX_NONSTANDARD)"

definition CPubKey_GetID :: "ext \<Rightarrow> bytes \<Rightarrow> uint160" where
  "CPubKey_GetID E vchPubKey = Hash160 E vchPubKey"

definition ExtractDestination :: "ext \<Rightarrow> CScript \<Rightarrow> CTxDestination option" where
  "ExtractDestination E spk =
     (case Solver spk of (ok, whichType, vSolutions) \<Rightarrow>
        if \<not> ok then None
        else
          (case whichType of
             TX_PUBKEY \<Rightarrow> Some (CKeyID (CPubKey_GetID E (vSolutions ! 0)))
           | TX_PUBKEYHASH \<Rightarrow> Some (CKeyID (uint160_of_vch (vSolutions ! 0)))
           | TX_SCRIPTHASH \<Rightarrow> Some (CScriptID (uint160_of_vch (vSolutions ! 0)))
           | TX_HYBRID_PUBKEYHASH \<Rightarrow> Some (CHybridKeyID (uint160_of_vch (vSolutions ! 0)))
           | _ \<Rightarrow> None))"

text \<open>\<^verbatim>\<open>ExtractDestinations\<close>: whether it succeeds, the type, the addresses and the number required.\<close>

definition ExtractDestinations ::
  "ext \<Rightarrow> CScript \<Rightarrow> bool \<times> txnouttype \<times> CTxDestination list \<times> nat" where
  "ExtractDestinations E spk =
     (case Solver spk of (ok, t, sol) \<Rightarrow>
        if \<not> ok then (False, t, [], 0)
        else
          (case t of
             TX_PUBKEY \<Rightarrow> (True, t, [CKeyID (CPubKey_GetID E (sol ! 0))], 1)
           | TX_PUBKEYHASH \<Rightarrow> (True, t, [CKeyID (uint160_of_vch (sol ! 0))], 1)
           | TX_SCRIPTHASH \<Rightarrow> (True, t, [CScriptID (uint160_of_vch (sol ! 0))], 1)
           | TX_HYBRID_PUBKEY \<Rightarrow>
               if length sol \<noteq> 2 then (False, t, [], 0)
               else (True, t, [CHybridKeyID (Hash160 E (sol ! 0 @ sol ! 1))], 1)
           | TX_HYBRID_PUBKEYHASH \<Rightarrow>
               if length sol \<noteq> 1 then (False, t, [], 0)
               else (True, t, [CHybridKeyID (uint160_of_vch (sol ! 0))], 1)
           | TX_MULTISIG \<Rightarrow>
               (True, t, map (\<lambda>k. CKeyID (CPubKey_GetID E k)) (butlast (tl sol)), unat (hd (hd sol)))
           | _ \<Rightarrow> (False, t, [], 0)))"

section \<open>Recognising what was built\<close>

lemma hybrid_id_roundtrip:
  "HybridPubKey_IsValid k \<Longrightarrow> HybridPubKey_Deserialize (HybridPubKey_Serialize k) = k"
  by (cases k) (simp add: HybridPubKey_IsValid_def HybridPubKey_Deserialize_def
      HybridPubKey_Serialize_def TOTAL_SIZE_def)

lemma GetOp2_op: "OP_PUSHDATA4 < opcode \<Longrightarrow> GetOp2 (opcode # pc) = Some (opcode, [], pc)"
  by (rule GetOp2_nonpush) simp

lemma push_enc_20: "length h = 20 \<Longrightarrow> push_enc h = 20 # h"
  by (simp add: push_enc_def)

lemma GetOp2_20: "length h = 20 \<Longrightarrow> GetOp2 (20 # h @ r) = Some (20, h, r)"
  using GetOp2_push_enc [of h r] by (simp add: push_enc_20 push_code_def)

lemma length_mem_uint160: "length (mem (h :: uint160)) = 20"
  by (simp add: len_simps)

lemmas dest_scripts = push_op_def push_uint160_def push_vch_def

lemma SetDestination_shape:
  "SetDestination (CKeyID h) = OP_DUP # OP_HASH160 # 20 # mem h @ [OP_EQUALVERIFY, OP_CHECKSIG]"
  "SetDestination (CScriptID h) = OP_HASH160 # 20 # mem h @ [OP_EQUAL]"
  "SetDestination (CHybridKeyID h) =
     OP_DUPHYBRID # OP_HASHHYBRID160 # 20 # mem h @ [OP_EQUALVERIFY, OP_CHECKHYBRIDSIG]"
  by (simp_all add: SetDestination_def dest_scripts)

lemma match_template_end: "match_template [] [] sol = Some sol"
  by (simp add: match_template.simps)

lemma match_template_step:
  assumes "GetOp2 pc1 = Some (opcode1, vch1, r1)" "GetOp2 pc2 = Some (opcode2, vch2, r2)"
    "opcode2 \<noteq> OP_PUBKEYS"
  shows "match_template pc1 pc2 sol =
    (case match_operand opcode1 vch1 opcode2 vch2 sol of None \<Rightarrow> None
     | Some sol \<Rightarrow> match_template r1 r2 sol)"
proof -
  have "pc1 \<noteq> []" using assms(1) by auto
  with assms show ?thesis by (subst match_template.simps) simp
qed

lemma Solver_CKeyID: "Solver (SetDestination (CKeyID h)) = (True, TX_PUBKEYHASH, [mem h])"
proof -
  let ?s = "SetDestination (CKeyID h)"
  note g = GetOp2_op GetOp2_20 [OF length_mem_uint160] SetDestination_shape
  have 1: "solve_hybrid_pubkey ?s = None" "solve_hybrid_pubkeyhash ?s = None"
    "solve_hybrid_multisig ?s = None"
    by (simp_all add: solve_hybrid_pubkey_def solve_hybrid_pubkeyhash_def solve_hybrid_multisig_def
        pubkey_sized_def DecodeOP_N_def g)
  have 2: "\<not> IsPayToScriptHash ?s" by (simp add: IsPayToScriptHash_def SetDestination_shape)
  have 3: "match_template ?s [OP_PUBKEY, OP_CHECKSIG] [] = None"
    by (simp add: match_template_step [OF GetOp2_op GetOp2_op] SetDestination_shape match_operand_def)
  have 4: "match_template ?s [OP_DUP, OP_HASH160, OP_PUBKEYHASH, OP_EQUALVERIFY, OP_CHECKSIG] [] =
      Some [mem h]"
    by (simp add: match_template_step [OF GetOp2_op GetOp2_op] SetDestination_shape match_operand_def
        match_template_step [OF GetOp2_20 [OF length_mem_uint160] GetOp2_op] match_template_end
        length_mem_uint160)
  show ?thesis using 1 2 3 4 by (simp add: Solver_def mTemplates_def)
qed

lemma Solver_CScriptID: "Solver (SetDestination (CScriptID h)) = (True, TX_SCRIPTHASH, [mem h])"
proof -
  let ?s = "SetDestination (CScriptID h)"
  note g = GetOp2_op GetOp2_20 [OF length_mem_uint160] SetDestination_shape
  have 1: "solve_hybrid_pubkey ?s = None" "solve_hybrid_pubkeyhash ?s = None"
    "solve_hybrid_multisig ?s = None"
    by (simp_all add: solve_hybrid_pubkey_def solve_hybrid_pubkeyhash_def solve_hybrid_multisig_def
        pubkey_sized_def DecodeOP_N_def g)
  have 2: "IsPayToScriptHash ?s"
    unfolding IsPayToScriptHash_shape SetDestination_shape
    by (rule exI [of _ "mem h"]) (simp add: length_mem_uint160)
  show ?thesis using 1 2 by (simp add: Solver_def SetDestination_shape length_mem_uint160)
qed

lemma Solver_CHybridKeyID:
  "Solver (SetDestination (CHybridKeyID h)) = (True, TX_HYBRID_PUBKEYHASH, [mem h])"
proof -
  let ?s = "SetDestination (CHybridKeyID h)"
  note g = GetOp2_op GetOp2_20 [OF length_mem_uint160] SetDestination_shape
  have 1: "solve_hybrid_pubkey ?s = None" "solve_hybrid_pubkeyhash ?s = Some [mem h]"
    by (simp_all add: solve_hybrid_pubkey_def solve_hybrid_pubkeyhash_def
        pubkey_sized_def length_mem_uint160 g)
  show ?thesis using 1 by (simp add: Solver_def)
qed

text \<open>The standard addresses survive the way through a script: the script SetDestination builds
  for a key hash, script hash or hybrid key hash is recognised by Solver with the hash as its
  solution, is standard, and ExtractDestination gives the address back.\<close>

theorem destination_roundtrip:
  "dest \<noteq> CNoDestination \<Longrightarrow>
     ExtractDestination E (SetDestination dest) = Some dest \<and> script_IsStandard (SetDestination dest)"
  by (cases dest)
    (simp_all add: ExtractDestination_def script_IsStandard_def Solver_CKeyID Solver_CScriptID
      Solver_CHybridKeyID)

theorem destination_roundtrip_witness:
  "CHybridKeyID 7 \<noteq> CNoDestination \<and>
   ExtractDestination ext_ref (SetDestination (CHybridKeyID 7)) = Some (CHybridKeyID 7)"
  using destination_roundtrip [of "CHybridKeyID 7"] by simp

end
