(* ===== verification/TxRules.thy ===== *)
theory TxRules
  imports Block Verify Templates
begin

text \<open>
  The rules a transaction must pass by itself and against the outputs it spends (\<^verbatim>\<open>main.cpp\<close>):
  \<^verbatim>\<open>CheckTransaction\<close>, the standardness rules, the signature operation counts, the value of the inputs
  and the minimal fee. The functions that change \<^verbatim>\<open>nDoS\<close> return the changed transaction.
\<close>

section \<open>Constants\<close>

definition MAX_BLOCK_SIZE :: nat where [simp]: "MAX_BLOCK_SIZE = 1000000"
definition MAX_BLOCK_SIZE_GEN :: nat where [simp]: "MAX_BLOCK_SIZE_GEN = 500000"
definition MAX_BLOCK_SIGOPS :: nat where [simp]: "MAX_BLOCK_SIGOPS = 15625"
definition MIN_TX_FEE :: int where [simp]: "MIN_TX_FEE = 1000000"
definition MIN_RELAY_TX_FEE :: int where [simp]: "MIN_RELAY_TX_FEE = 100000"
definition TX_DUST :: int where [simp]: "TX_DUST = 1000000"

section \<open>\<^verbatim>\<open>CheckTransaction\<close>\<close>

fun check_values :: "CTxOut list \<Rightarrow> u64 \<Rightarrow> bool" where
  "check_values [] nValueOut = True"
| "check_values (txout # r) nValueOut =
     (if sint (nValue txout) < 0 then False
      else if sint (nValue txout) > MAX_MONEY then False
      else let nValueOut = nValueOut + nValue txout
           in if \<not> MoneyRange (sint nValueOut) then False else check_values r nValueOut)"

fun check_duplicates :: "CTxIn list \<Rightarrow> COutPoint list \<Rightarrow> bool" where
  "check_duplicates [] vInOutPoints = True"
| "check_duplicates (txin # r) vInOutPoints =
     (if prevout txin \<in> set vInOutPoints then False
      else check_duplicates r (prevout txin # vInOutPoints))"

definition CheckTransaction :: "CTransaction \<Rightarrow> bool \<times> CTransaction" where
  "CheckTransaction tx =
     (if vin tx = [] then DoS tx 10 False
      else if vout tx = [] then DoS tx 10 False
      else if size_CTransaction tx > MAX_BLOCK_SIZE then DoS tx 100 False
      else if \<not> check_values (vout tx) 0 then DoS tx 100 False
      else if \<not> check_duplicates (vin tx) [] then (False, tx)
      else if IsCoinBase tx then
        (if length (scriptSig (hd (vin tx))) < 2 \<or> length (scriptSig (hd (vin tx))) > 200000
         then DoS tx 100 False else (True, tx))
      else if list_ex (\<lambda>txin. COutPoint_IsNull (prevout txin)) (vin tx) then DoS tx 10 False
      else (True, tx))"

section \<open>The transaction database's records\<close>

record CDiskTxPos =
  dFile :: u32
  dBlockPos :: u32
  dTxPos :: u32

definition CDiskTxPos_SetNull :: CDiskTxPos where
  "CDiskTxPos_SetNull = \<lparr>dFile = - 1, dBlockPos = 0, dTxPos = 0\<rparr>"

definition CDiskTxPos_IsNull :: "CDiskTxPos \<Rightarrow> bool" where
  "CDiskTxPos_IsNull p = (dFile p = - 1)"

record CTxIndex =
  pos :: CDiskTxPos
  vSpent :: "CDiskTxPos list"

text \<open>\<^verbatim>\<open>CTxIndex(pos, nOutputs)\<close>: all outputs unspent.\<close>

definition new_CTxIndex :: "CDiskTxPos \<Rightarrow> nat \<Rightarrow> CTxIndex" where
  "new_CTxIndex p nOutputs = \<lparr>pos = p, vSpent = replicate nOutputs CDiskTxPos_SetNull\<rparr>"

definition CTxIndex_SetNull :: CTxIndex where
  "CTxIndex_SetNull = \<lparr>pos = CDiskTxPos_SetNull, vSpent = []\<rparr>"

type_synonym MapPrevTx = "uint256 \<rightharpoonup> CTxIndex \<times> CTransaction"

section \<open>Inputs\<close>

text \<open>\<open>None\<close> where the code throws.\<close>

definition GetOutputFor :: "CTxIn \<Rightarrow> MapPrevTx \<Rightarrow> CTxOut option" where
  "GetOutputFor input inputs =
     (case inputs (prev_hash (prevout input)) of None \<Rightarrow> None
      | Some (txindex, txPrev) \<Rightarrow>
          if unat (prev_n (prevout input)) \<ge> length (vout txPrev) then None
          else Some (vout txPrev ! unat (prev_n (prevout input))))"

fun GetValueIn_loop :: "CTxIn list \<Rightarrow> MapPrevTx \<Rightarrow> u64 \<Rightarrow> u64 option" where
  "GetValueIn_loop [] inputs nResult = Some nResult"
| "GetValueIn_loop (txin # r) inputs nResult =
     (case GetOutputFor txin inputs of None \<Rightarrow> None
      | Some txout \<Rightarrow> GetValueIn_loop r inputs (nResult + nValue txout))"

definition GetValueIn :: "CTransaction \<Rightarrow> MapPrevTx \<Rightarrow> u64 option" where
  "GetValueIn tx inputs = (if IsCoinBase tx then Some 0 else GetValueIn_loop (vin tx) inputs 0)"

definition GetLegacySigOpCount :: "CTransaction \<Rightarrow> nat" where
  "GetLegacySigOpCount tx =
     fold (\<lambda>txout n. n + GetSigOpCount (scriptPubKey txout) False) (vout tx)
       (fold (\<lambda>txin n. n + GetSigOpCount (scriptSig txin) False) (vin tx) 0)"

fun GetP2SHSigOpCount_loop :: "CTxIn list \<Rightarrow> MapPrevTx \<Rightarrow> nat \<Rightarrow> nat option" where
  "GetP2SHSigOpCount_loop [] inputs nSigOps = Some nSigOps"
| "GetP2SHSigOpCount_loop (txin # r) inputs nSigOps =
     (case GetOutputFor txin inputs of None \<Rightarrow> None
      | Some p \<Rightarrow> GetP2SHSigOpCount_loop r inputs
          (if IsPayToScriptHash (scriptPubKey p)
           then nSigOps + GetSigOpCount_P2SH (scriptPubKey p) (scriptSig txin) else nSigOps))"

definition GetP2SHSigOpCount :: "CTransaction \<Rightarrow> MapPrevTx \<Rightarrow> nat option" where
  "GetP2SHSigOpCount tx inputs =
     (if IsCoinBase tx then Some 0 else GetP2SHSigOpCount_loop (vin tx) inputs 0)"

section \<open>Standard transactions\<close>

definition CTransaction_IsStandard :: "CTransaction \<Rightarrow> bool" where
  "CTransaction_IsStandard tx =
     (if sint (nVersion tx) > sint CURRENT_VERSION then False
      else if list_ex (\<lambda>txin. length (scriptSig txin) > 200000 \<or> \<not> IsPushOnly (scriptSig txin)) (vin tx)
      then False
      else \<not> list_ex (\<lambda>txout. \<not> script_IsStandard (scriptPubKey txout) \<or> nValue txout = 0) (vout tx))"

text \<open>The loop over the inputs of \<^verbatim>\<open>AreInputsStandard\<close>, from index \<open>i\<close> on.\<close>

fun AreInputsStandard_loop ::
  "ext \<Rightarrow> CTransaction \<Rightarrow> MapPrevTx \<Rightarrow> nat \<Rightarrow> CTxIn list \<Rightarrow> sigcache \<Rightarrow> bool option \<times> sigcache" where
  "AreInputsStandard_loop E tx mapInputs i [] c = (Some True, c)"
| "AreInputsStandard_loop E tx mapInputs i (txin # r) c =
     (case GetOutputFor txin mapInputs of None \<Rightarrow> (None, c)
      | Some prev \<Rightarrow>
        (case Solver (scriptPubKey prev) of (ok, whichType, vSolutions) \<Rightarrow>
          if \<not> ok then (Some False, c)
          else
            let nArgsExpected = ScriptSigArgsExpected whichType vSolutions
            in if nArgsExpected < 0 then (Some False, c)
            else
              (case EvalScript E [] (scriptSig txin) tx i 0 c of
                 (False, st, c) \<Rightarrow> (Some False, c)
               | (True, st, c) \<Rightarrow>
                   (case (if whichType = TX_SCRIPTHASH then
                            (case st of [] \<Rightarrow> None
                             | subscript # _ \<Rightarrow>
                               (case Solver subscript of (ok2, whichType2, vSolutions2) \<Rightarrow>
                                  if \<not> ok2 then None
                                  else if whichType2 = TX_SCRIPTHASH then None
                                  else let tmpExpected = ScriptSigArgsExpected whichType2 vSolutions2
                                       in if tmpExpected < 0 then None
                                          else Some (nArgsExpected + tmpExpected)))
                          else Some nArgsExpected) of
                      None \<Rightarrow> (Some False, c)
                    | Some nArgs \<Rightarrow>
                        if int (length st) \<noteq> nArgs then (Some False, c)
                        else AreInputsStandard_loop E tx mapInputs (i + 1) r c))))"

definition AreInputsStandard ::
  "ext \<Rightarrow> CTransaction \<Rightarrow> MapPrevTx \<Rightarrow> sigcache \<Rightarrow> bool option \<times> sigcache" where
  "AreInputsStandard E tx mapInputs c =
     (if IsCoinBase tx then (Some True, c) else AreInputsStandard_loop E tx mapInputs 0 (vin tx) c)"

section \<open>Fees\<close>

datatype GetMinFee_mode = GMF_BLOCK | GMF_RELAY | GMF_SEND

definition GetMinFee :: "CTransaction \<Rightarrow> u32 \<Rightarrow> bool \<Rightarrow> GetMinFee_mode \<Rightarrow> int" where
  "GetMinFee tx nBytes fAllowFree mode =
     (let nBaseFee = (if mode = GMF_RELAY then MIN_RELAY_TX_FEE else MIN_TX_FEE);
          nNewBlockSize = uint (if mode = GMF_SEND then nBytes else 1000 + nBytes);
          nKb = uint ((nBytes + 999) div 1000);
          nMinFee = nKb * nBaseFee;
          nMaxFee = 50000000;
          nMinFee = (if nMinFee > nMaxFee then nMaxFee else nMinFee);
          nMinFee = (if fAllowFree then
                       (if mode = GMF_SEND then (if nBytes < 2000 then 0 else nMinFee)
                        else (if nNewBlockSize < 11000 then 0 else nMinFee))
                     else nMinFee);
          nMinFee = fold (\<lambda>txout f. if sint (nValue txout) < TX_DUST then wrap64 (f + nBaseFee) else f)
                      (vout tx) nMinFee
      in if mode \<noteq> GMF_SEND \<and> nNewBlockSize \<ge> int MAX_BLOCK_SIZE_GEN div 2 then
           (if nNewBlockSize \<ge> int MAX_BLOCK_SIZE_GEN then MAX_MONEY
            else
              let nMinFee = wrap64 (nMinFee * (int MAX_BLOCK_SIZE_GEN div (int MAX_BLOCK_SIZE_GEN - nNewBlockSize)))
              in if \<not> MoneyRange nMinFee then MAX_MONEY else nMinFee)
         else nMinFee)"

section \<open>Lemmas\<close>

lemma check_values_iff: "check_values os acc \<longleftrightarrow> GetValueOut_loop os acc \<noteq> None"
  by (induction os acc rule: check_values.induct) (auto simp: MoneyRange_def Let_def)

lemma check_duplicates_iff:
  "check_duplicates ins seen \<longleftrightarrow> distinct (map prevout ins) \<and> set (map prevout ins) \<inter> set seen = {}"
  by (induction ins seen rule: check_duplicates.induct) auto

lemma wrap64_fee:
  assumes "0 \<le> f" "f + int (length os) * b \<le> 2000000000000" "0 \<le> b"
  shows "fold (\<lambda>txout f. if sint (nValue txout) < TX_DUST then wrap64 (f + b) else f) os f =
    f + int (length (filter (\<lambda>txout. sint (nValue txout) < TX_DUST) os)) * b"
  using assms
proof (induction os arbitrary: f)
  case (Cons t os)
  have "0 \<le> int (length os) * b" using assms(3) by simp
  moreover have "int (length (t # os)) * b = b + int (length os) * b" by (simp add: algebra_simps)
  ultimately have "f + b \<le> 2000000000000" using Cons.prems(2) by linarith
  then have w: "wrap64 (f + b) = f + b"
    using Cons.prems(1,3) by (intro wrap64_id) simp_all
  have len: "int (length (t # os)) * b = b + int (length os) * b" by (simp add: algebra_simps)
  show ?case
  proof (cases "sint (nValue t) < TX_DUST")
    case True
    have "0 \<le> f + b" "f + b + int (length os) * b \<le> 2000000000000"
      using Cons.prems len by linarith+
    from Cons.IH [OF this assms(3)] True show ?thesis by (simp add: w [unfolded add.commute [of f b]] w algebra_simps)
  next
    case False
    have "f + int (length os) * b \<le> 2000000000000" using Cons.prems len by linarith
    from Cons.IH [OF Cons.prems(1) this assms(3)] False show ?thesis by simp
  qed
qed simp

section \<open>Properties\<close>

lemma CheckTransaction_iff:
  "fst (CheckTransaction tx) \<longleftrightarrow>
      vin tx \<noteq> [] \<and> vout tx \<noteq> [] \<and> size_CTransaction tx \<le> 1000000 \<and> GetValueOut tx \<noteq> None \<and>
      distinct (map prevout (vin tx)) \<and>
      (if IsCoinBase tx
       then 2 \<le> length (scriptSig (hd (vin tx))) \<and> length (scriptSig (hd (vin tx))) \<le> 200000
       else list_all (\<lambda>txin. \<not> COutPoint_IsNull (prevout txin)) (vin tx))"
  by (auto simp: CheckTransaction_def check_values_iff check_duplicates_iff GetValueOut_def DoS_def
      list_all_iff list_ex_iff)

lemma CheckTransaction_accepts: "fst (CheckTransaction tx) \<Longrightarrow> snd (CheckTransaction tx) = tx"
  by (simp add: CheckTransaction_def DoS_def split: if_splits)

lemma CheckTransaction_score:
  "nDoS tx \<le> nDoS (snd (CheckTransaction tx)) \<and> nDoS (snd (CheckTransaction tx)) \<le> nDoS tx + 100"
  by (simp add: CheckTransaction_def DoS_def)

text \<open>C40: CheckTransaction accepts a transaction exactly when it has inputs and outputs, serializes to at
  most a million bytes, spends no output twice, its output values and their sum are in the money
  range (so that GetValueOut, which throws otherwise, is defined on every accepted transaction), and
  either it is a coin base with a script of 2 to 200000 bytes or none of its inputs is null. An
  accepted transaction is not changed; a refused one gets at most 100 points of misbehaviour.\<close>

theorem check_transaction_spec:
  "(fst (CheckTransaction tx) \<longleftrightarrow>
      vin tx \<noteq> [] \<and> vout tx \<noteq> [] \<and> size_CTransaction tx \<le> 1000000 \<and> GetValueOut tx \<noteq> None \<and>
      distinct (map prevout (vin tx)) \<and>
      (if IsCoinBase tx
       then 2 \<le> length (scriptSig (hd (vin tx))) \<and> length (scriptSig (hd (vin tx))) \<le> 200000
       else list_all (\<lambda>txin. \<not> COutPoint_IsNull (prevout txin)) (vin tx))) \<and>
   (if fst (CheckTransaction tx) then snd (CheckTransaction tx) = tx
    else nDoS tx \<le> nDoS (snd (CheckTransaction tx)) \<and> nDoS (snd (CheckTransaction tx)) \<le> nDoS tx + 100)"
proof
  show "if fst (CheckTransaction tx) then snd (CheckTransaction tx) = tx
    else nDoS tx \<le> nDoS (snd (CheckTransaction tx)) \<and> nDoS (snd (CheckTransaction tx)) \<le> nDoS tx + 100"
    using CheckTransaction_accepts [of tx] CheckTransaction_score [of tx] by presburger
qed (rule CheckTransaction_iff)

lemma fee_nKb:
  assumes "uint ((nBytes + 999) div 1000 :: u32) = 0"
  shows "nBytes < 10000 \<or> 4294966296 \<le> nBytes"
proof (rule ccontr)
  assume "\<not> ?thesis"
  then have r: "10000 \<le> unat nBytes" "unat nBytes < 4294966296" by (simp_all add: word_less_nat_alt word_le_nat_alt)
  have "unat (nBytes + 999) = unat nBytes + 999" using r by (subst unat_add_lem [THEN iffD1]) simp_all
  then have "unat ((nBytes + 999) div 1000) \<noteq> 0" using r by (simp add: unat_div)
  then show False using assms by (simp add: unat_eq_0 uint_0_iff)
qed

lemma fee_block_size:
  assumes "uint (1000 + nBytes :: u32) < 11000"
  shows "nBytes < 10000 \<or> 4294966296 \<le> nBytes"
proof (rule ccontr)
  assume "\<not> ?thesis"
  then have r: "10000 \<le> unat nBytes" "unat nBytes < 4294966296" by (simp_all add: word_less_nat_alt word_le_nat_alt)
  have "unat (1000 + nBytes) = 1000 + unat nBytes" using r by (subst unat_add_lem [THEN iffD1]) simp_all
  then have "nat (uint (1000 + nBytes)) = 1000 + unat nBytes" by simp
  then show False using assms r by linarith
qed

text \<open>The minimal fee is a valid amount for a transaction of up to a million outputs: no
  intermediate 64 bit value wraps, every output below the dust limit costs at least the base fee,
  whatever the allowance for free transactions, and only small transactions are free.\<close>

theorem min_fee_bounds:
  assumes "length (vout tx) \<le> 1000000"
  shows "0 \<le> GetMinFee tx nBytes fAllowFree mode \<and> GetMinFee tx nBytes fAllowFree mode \<le> MAX_MONEY \<and>
    int (length (filter (\<lambda>txout. sint (nValue txout) < TX_DUST) (vout tx))) *
      (if mode = GMF_RELAY then MIN_RELAY_TX_FEE else MIN_TX_FEE) \<le> GetMinFee tx nBytes fAllowFree mode \<and>
    (GetMinFee tx nBytes fAllowFree mode = 0 \<longrightarrow> nBytes < 10000 \<or> 4294966296 \<le> nBytes)"
proof -
  define base where "base = (if mode = GMF_RELAY then MIN_RELAY_TX_FEE else MIN_TX_FEE)"
  define size where "size = uint (if mode = GMF_SEND then nBytes else 1000 + nBytes)"
  define kb where "kb = uint ((nBytes + 999) div 1000 :: u32)"
  define capped where "capped = (if kb * base > 50000000 then 50000000 else kb * base)"
  define start where "start = (if fAllowFree then
     (if mode = GMF_SEND then (if nBytes < 2000 then 0 else capped) else (if size < 11000 then 0 else capped))
     else capped)"
  define dust where "dust = int (length (filter (\<lambda>txout. sint (nValue txout) < TX_DUST) (vout tx)))"
  have base: "0 < base" "base \<le> 1000000" by (simp_all add: base_def)
  have kb: "0 \<le> kb" by (simp add: kb_def)
  have capped: "0 \<le> capped" "capped \<le> 50000000" using kb base by (simp_all add: capped_def)
  have start: "0 \<le> start" "start \<le> 50000000" using capped by (simp_all add: start_def)
  have n: "int (length (vout tx)) * base \<le> 1000000 * 1000000"
    using assms base by (intro mult_mono) simp_all
  have fold: "fold (\<lambda>txout f. if sint (nValue txout) < TX_DUST then wrap64 (f + base) else f) (vout tx) start =
      start + dust * base"
    unfolding dust_def using start n base by (intro wrap64_fee) simp_all
  have "dust \<le> int (length (vout tx))" "0 \<le> dust" by (simp_all add: dust_def)
  then have d: "0 \<le> dust * base" "dust * base \<le> 1000000000000"
    using base n mult_right_mono [of dust "int (length (vout tx))" base] mult_nonneg_nonneg [of dust base]
    by linarith+
  define fee where "fee = start + dust * base"
  have fee: "0 \<le> fee" "fee \<le> 1000050000000" "dust * base \<le> fee" using start d by (simp_all add: fee_def)
  have zero: "nBytes < 10000 \<or> 4294966296 \<le> nBytes" if "fee = 0"
  proof -
    have "start = 0" using that start d by (simp add: fee_def)
    then consider "capped = 0" | "fAllowFree" "nBytes < 2000" | "mode \<noteq> GMF_SEND" "size < 11000"
      by (auto simp: start_def split: if_splits)
    then show ?thesis
    proof cases
      case 1
      then have "kb = 0" using base kb by (auto simp: capped_def split: if_splits)
      then show ?thesis using fee_nKb by (simp add: kb_def)
    next
      case 2
      then show ?thesis by (simp add: word_less_nat_alt)
    next
      case 3
      then show ?thesis using fee_block_size by (simp add: size_def)
    qed
  qed
  have eq: "GetMinFee tx nBytes fAllowFree mode =
     (if mode \<noteq> GMF_SEND \<and> size \<ge> 250000 then
        (if size \<ge> 500000 then MAX_MONEY
         else if \<not> MoneyRange (wrap64 (fee * (500000 div (500000 - size)))) then MAX_MONEY
              else wrap64 (fee * (500000 div (500000 - size))))
      else fee)"
    unfolding GetMinFee_def Let_def base_def [symmetric] size_def [symmetric] kb_def [symmetric]
      capped_def [symmetric] start_def [symmetric] fold fee_def [symmetric] by simp
  show ?thesis
  proof (cases "mode \<noteq> GMF_SEND \<and> size \<ge> 250000")
    case False
    then have "GetMinFee tx nBytes fAllowFree mode = fee" unfolding eq by auto
    then show ?thesis using fee zero by (simp add: dust_def base_def)
  next
    case big: True
    show ?thesis
    proof (cases "size \<ge> 500000")
      case True
      then have "GetMinFee tx nBytes fAllowFree mode = MAX_MONEY" using big unfolding eq by simp
      then show ?thesis using d by (simp add: dust_def base_def)
    next
      case False
      define q where "q = 500000 div (500000 - size)"
      have "1 * (500000 - size) \<le> 500000" using big by simp
      then have q: "1 \<le> q" "q \<le> 500000"
        using False zdiv_mono2 [of 500000 1 "500000 - size"] by (simp_all add: q_def pos_imp_zdiv_pos_iff int_one_le_iff_zero_less)
      have "fee * q \<le> 1000050000000 * 500000" using fee q by (intro mult_mono) simp_all
      then have w: "wrap64 (fee * q) = fee * q" using fee q by (intro wrap64_id) (simp_all add: order_trans [of _ 0])
      have le: "fee \<le> fee * q" "0 \<le> fee * q" using fee q by (simp_all add: mult_le_cancel_left1)
      have "GetMinFee tx nBytes fAllowFree mode = (if MoneyRange (fee * q) then fee * q else MAX_MONEY)"
        using big False unfolding eq q_def [symmetric] w by simp
      then show ?thesis
        using fee le zero d q by (auto simp: dust_def base_def MoneyRange_def)
    qed
  qed
qed

theorem min_fee_bounds_witness:
  "0 \<le> GetMinFee sample_tx 250 True GMF_RELAY \<and> 200000 \<le> GetMinFee sample_tx 250 True GMF_RELAY"
  using min_fee_bounds [of sample_tx 250 True GMF_RELAY] by (simp add: sample_tx_def)

end
