(* ===== verification/BlockRules.thy ===== *)
theory BlockRules
  imports TxRules Checkpoints
begin

text \<open>
  \<^verbatim>\<open>CBlock::CheckBlock\<close> of \<^verbatim>\<open>main.cpp\<close>: the checks of a block that need no chain. The block carries the
  caches the code keeps in it, so checking returns the block too. The lemmas bind the transactions
  of an accepted block to its header through the Merkle tree.
\<close>

section \<open>\<^verbatim>\<open>CheckBlock\<close>\<close>

definition size_CBlock :: "CBlock \<Rightarrow> nat" where
  "size_CBlock b = 80 + size_vec size_CTransaction (vtx b)"

text \<open>The loop over the transactions: the score of the first that fails goes to the block.\<close>

fun check_block_txs :: "CTransaction list \<Rightarrow> CTransaction list \<times> int option" where
  "check_block_txs [] = ([], None)"
| "check_block_txs (tx # r) =
     (case CheckTransaction tx of
        (False, tx) \<Rightarrow> (tx # r, Some (nDoS tx))
      | (True, tx) \<Rightarrow> (case check_block_txs r of (r, d) \<Rightarrow> (tx # r, d)))"

text \<open>What of the node the checks read: the network, the options of the hash, the adjusted time, the
  depth at which a coin base may be spent, the clock, the limit on free transactions, the wallets.\<close>

record env =
  fTestNet :: bool
  nNeoScryptOptions :: u32
  neoscrypt :: "bytes \<Rightarrow> u32 \<Rightarrow> uint256"
  GetAdjustedTime :: int
  nBaseMaturity :: int
  GetTime :: int
  nLimitFreeRelay :: int
  IsFromMe :: "CTransaction \<Rightarrow> bool"

definition block_sigops :: "CTransaction list \<Rightarrow> nat" where
  "block_sigops txs = foldl (\<lambda>n tx. n + GetLegacySigOpCount tx) 0 txs"

definition CheckBlock_body :: "ext \<Rightarrow> env \<Rightarrow> bool \<Rightarrow> CBlock \<Rightarrow> bool \<times> CBlock" where
  "CheckBlock_body E N fCheckMerkleRoot b =
     (if uint (nTime b) > GetAdjustedTime N + 2 * 60 * 60 then (False, b)
      else if vtx b = [] \<or> \<not> IsCoinBase (hd (vtx b)) then CBlock_DoS b 100 False
      else if list_ex IsCoinBase (tl (vtx b)) then CBlock_DoS b 100 False
      else
        (case check_block_txs (vtx b) of
           (txs, Some d) \<Rightarrow> CBlock_DoS (b\<lparr>vtx := txs\<rparr>) d False
         | (txs, None) \<Rightarrow>
             let b = b\<lparr>vtx := txs\<rparr>; vTxHashes = map (GetHash E) (vtx b) in
             if card (set vTxHashes) \<noteq> length (vtx b) then CBlock_DoS b 100 False
             else if block_sigops (vtx b) > MAX_BLOCK_SIGOPS then CBlock_DoS b 100 False
             else if fCheckMerkleRoot then
               (case BuildMerkleTree E vTxHashes of (tree, root) \<Rightarrow>
                  let b = b\<lparr>vMerkleTree := tree\<rparr>
                  in if hashMerkleRoot b \<noteq> root then CBlock_DoS b 100 False else (True, b))
             else (True, b)))"

definition CheckBlock :: "ext \<Rightarrow> bnlib \<Rightarrow> env \<Rightarrow> bool \<Rightarrow> bool \<Rightarrow> CBlock \<Rightarrow> bool \<times> CBlock" where
  "CheckBlock E B N fCheckPOW fCheckMerkleRoot b =
     (if vtx b = [] \<or> length (vtx b) > MAX_BLOCK_SIZE \<or> size_CBlock b > MAX_BLOCK_SIZE
      then CBlock_DoS b 100 False
      else if fCheckPOW then
        (case GetHashPoW (neoscrypt N) (fTestNet N) (nNeoScryptOptions N) b of
           (hash, b) \<Rightarrow> if \<not> CheckProofOfWork B hash (nBits b) then CBlock_DoS b 50 False
                       else CheckBlock_body E N fCheckMerkleRoot b)
      else CheckBlock_body E N fCheckMerkleRoot b)"

section \<open>Accepted blocks\<close>

lemma check_block_txs_ok:
  "list_all (\<lambda>tx. fst (CheckTransaction tx)) txs \<Longrightarrow> check_block_txs txs = (txs, None)"
proof (induction txs)
  case (Cons tx r)
  then have "CheckTransaction tx = (True, tx)"
    using CheckTransaction_accepts [of tx] by (cases "CheckTransaction tx") simp
  with Cons show ?case by simp
qed simp

lemma check_block_txs_None:
  "snd (check_block_txs txs) = None \<Longrightarrow> list_all (\<lambda>tx. fst (CheckTransaction tx)) txs"
proof (induction txs)
  case (Cons tx r)
  obtain ok t r' d where e: "CheckTransaction tx = (ok, t)" "check_block_txs r = (r', d)" by fastforce
  with Cons show ?case by (cases ok) simp_all
qed simp

text \<open>What a block that passes has.\<close>

definition block_ok :: "ext \<Rightarrow> env \<Rightarrow> CBlock \<Rightarrow> bool" where
  "block_ok E N b \<longleftrightarrow>
     vtx b \<noteq> [] \<and> IsCoinBase (hd (vtx b)) \<and> list_all (\<lambda>tx. \<not> IsCoinBase tx) (tl (vtx b)) \<and>
     list_all (\<lambda>tx. fst (CheckTransaction tx)) (vtx b) \<and> distinct (map (GetHash E) (vtx b)) \<and>
     block_sigops (vtx b) \<le> MAX_BLOCK_SIGOPS \<and> size_CBlock b \<le> MAX_BLOCK_SIZE \<and>
     uint (nTime b) \<le> GetAdjustedTime N + 7200"

lemma CheckBlock_body_iff:
  "fst (CheckBlock_body E N m b) \<longleftrightarrow>
     vtx b \<noteq> [] \<and> IsCoinBase (hd (vtx b)) \<and> list_all (\<lambda>tx. \<not> IsCoinBase tx) (tl (vtx b)) \<and>
     list_all (\<lambda>tx. fst (CheckTransaction tx)) (vtx b) \<and> distinct (map (GetHash E) (vtx b)) \<and>
     block_sigops (vtx b) \<le> MAX_BLOCK_SIGOPS \<and> uint (nTime b) \<le> GetAdjustedTime N + 7200 \<and>
     (m \<longrightarrow> hashMerkleRoot b = snd (BuildMerkleTree E (map (GetHash E) (vtx b))))"
proof (cases "list_all (\<lambda>tx. fst (CheckTransaction tx)) (vtx b)")
  case True
  have card: "card (set (map (GetHash E) (vtx b))) = length (vtx b) \<longleftrightarrow> distinct (map (GetHash E) (vtx b))"
    using card_distinct distinct_card by (metis length_map)
  have coin: "list_ex IsCoinBase (tl (vtx b)) \<longleftrightarrow> \<not> list_all (\<lambda>tx. \<not> IsCoinBase tx) (tl (vtx b))"
    by (auto simp: list_ex_iff list_all_iff)
  show ?thesis
    using card unfolding CheckBlock_body_def check_block_txs_ok [OF True] coin
    by (simp add: CBlock_DoS_def Let_def True split: prod.split)
next
  case False
  then obtain txs d where "check_block_txs (vtx b) = (txs, Some d)"
    using check_block_txs_None [of "vtx b"] by (cases "check_block_txs (vtx b)") auto
  then show ?thesis
    using False by (simp add: CheckBlock_body_def CBlock_DoS_def)
qed

lemma CheckBlock_body_result:
  "fst (CheckBlock_body E N m b) \<Longrightarrow>
     snd (CheckBlock_body E N m b) =
       (if m then b\<lparr>vMerkleTree := fst (BuildMerkleTree E (map (GetHash E) (vtx b)))\<rparr> else b)"
proof -
  assume ok: "fst (CheckBlock_body E N m b)"
  then have c: "vtx b \<noteq> []" "IsCoinBase (hd (vtx b))" "list_all (\<lambda>tx. \<not> IsCoinBase tx) (tl (vtx b))"
    "list_all (\<lambda>tx. fst (CheckTransaction tx)) (vtx b)" "distinct (map (GetHash E) (vtx b))"
    "block_sigops (vtx b) \<le> MAX_BLOCK_SIGOPS" "uint (nTime b) \<le> GetAdjustedTime N + 7200"
    "m \<longrightarrow> hashMerkleRoot b = snd (BuildMerkleTree E (map (GetHash E) (vtx b)))"
    by (simp_all add: CheckBlock_body_iff)
  have "\<not> list_ex IsCoinBase (tl (vtx b))" using c(3) by (auto simp: list_ex_iff list_all_iff)
  moreover have "card (set (map (GetHash E) (vtx b))) = length (vtx b)"
    using distinct_card [OF c(5)] by simp
  moreover have "b\<lparr>vtx := vtx b\<rparr> = b" by simp
  ultimately show ?thesis
    using c(1,2,6-8) unfolding CheckBlock_body_def check_block_txs_ok [OF c(4)]
    by (simp add: Let_def split: prod.split)
qed

lemma GetHashPoW_fields:
  "vtx (snd (GetHashPoW neo T opt b)) = vtx b"
  "block_header (snd (GetHashPoW neo T opt b)) = block_header b"
  "nBits (snd (GetHashPoW neo T opt b)) = nBits b"
  "nTime (snd (GetHashPoW neo T opt b)) = nTime b"
  "hashMerkleRoot (snd (GetHashPoW neo T opt b)) = hashMerkleRoot b"
  "vMerkleTree (snd (GetHashPoW neo T opt b)) = vMerkleTree b"
  by (simp_all add: GetHashPoW_def Let_def block_header_def)

lemma length_le_size_vec:
  assumes "\<And>x. 1 \<le> f x"
  shows "length v \<le> size_vec f v"
proof -
  have "length v \<le> sum_list (map f v)"
  proof (induction v)
    case (Cons a v)
    then show ?case using assms [of a] by simp
  qed simp
  then show ?thesis by (simp add: size_vec_def foldl_add_sum)
qed

lemma CheckBlock_iff:
  "fst (CheckBlock E B N p m b) \<longleftrightarrow>
     block_ok E N b \<and>
     (p \<longrightarrow> CheckProofOfWork B (fst (GetHashPoW (neoscrypt N) (fTestNet N) (nNeoScryptOptions N) b)) (nBits b)) \<and>
     (m \<longrightarrow> hashMerkleRoot b = snd (BuildMerkleTree E (map (GetHash E) (vtx b))))"
proof -
  obtain h b' where g: "GetHashPoW (neoscrypt N) (fTestNet N) (nNeoScryptOptions N) b = (h, b')" by fastforce
  note same = GetHashPoW_fields [of "neoscrypt N" "fTestNet N" "nNeoScryptOptions N" b, unfolded g snd_conv]
  have len: "length (vtx b) \<le> size_CBlock b"
    using length_le_size_vec [of size_CTransaction "vtx b"] by (simp add: size_CBlock_def size_CTransaction_def)
  have body: "fst (CheckBlock_body E N m b') = fst (CheckBlock_body E N m b)"
    by (simp add: CheckBlock_body_iff same)
  have sizes: "vtx b = [] \<or> length (vtx b) > MAX_BLOCK_SIZE \<or> size_CBlock b > MAX_BLOCK_SIZE \<longleftrightarrow>
      vtx b = [] \<or> \<not> size_CBlock b \<le> MAX_BLOCK_SIZE"
    using len by auto
  show ?thesis
    unfolding CheckBlock_def sizes g prod.case fst_conv block_ok_def
    using body same(3) CheckBlock_body_iff [of E N m b]
    by (simp add: CBlock_DoS_def)
qed

lemma CheckBlock_fields:
  assumes "fst (CheckBlock E B N p m b)"
  shows "vtx (snd (CheckBlock E B N p m b)) = vtx b \<and>
     block_header (snd (CheckBlock E B N p m b)) = block_header b"
proof -
  obtain h b' where g: "GetHashPoW (neoscrypt N) (fTestNet N) (nNeoScryptOptions N) b = (h, b')" by fastforce
  note same = GetHashPoW_fields [of "neoscrypt N" "fTestNet N" "nNeoScryptOptions N" b, unfolded g snd_conv]
  show ?thesis
    using assms same CheckBlock_body_result [of E N m b] CheckBlock_body_result [of E N m b']
    unfolding CheckBlock_def g prod.case
    by (simp add: CBlock_DoS_def block_header_def split: if_split_asm)
qed

section \<open>The Merkle tree of distinct transactions\<close>

lemma collision_inI:
  "(a, b) \<in> set ps \<Longrightarrow> (c, d) \<in> set qs \<Longrightarrow> (a, b) \<noteq> (c, d) \<Longrightarrow> Hash2 E a b = Hash2 E c d \<Longrightarrow>
     collision_in E ps qs"
  unfolding collision_in_def list_ex_iff by blast

lemma level_pairs_set: "(a, b) \<in> set (level_pairs l) \<Longrightarrow> a \<in> set l \<and> b \<in> set l"
  by (induction l rule: level_pairs.induct) auto

lemma level_pairs_distinct: "distinct l \<Longrightarrow> distinct (level_pairs l)"
proof (induction l rule: level_pairs.induct)
  case (3 a b r)
  then show ?case using level_pairs_set [of a b r] by auto
qed auto

lemma level_pairs_eq:
  "level_pairs xs = level_pairs ys \<Longrightarrow> distinct xs \<Longrightarrow> distinct ys \<Longrightarrow> xs = ys"
proof (induction xs arbitrary: ys rule: level_pairs.induct)
  case 1
  then show ?case by (cases ys rule: level_pairs.cases) simp_all
next
  case (2 a)
  then show ?case by (cases ys rule: level_pairs.cases) auto
next
  case (3 a b r)
  then show ?case by (cases ys rule: level_pairs.cases) auto
qed

lemma tree_pairs_long: "length l > 1 \<Longrightarrow> tree_pairs E l = level_pairs l @ tree_pairs E (parents E l)"
  by (simp add: tree_pairs.simps)

lemma parents_pair:
  "x \<in> set (parents E l) \<Longrightarrow> \<exists>a b. (a, b) \<in> set (level_pairs l) \<and> x = Hash2 E a b"
  by (auto simp: parents_pairs)

lemma tree_pairs_above:
  "(a, b) \<in> set (tree_pairs E l) \<Longrightarrow>
     a \<in> set l \<or> (\<exists>p q. (p, q) \<in> set (tree_pairs E l) \<and> a = Hash2 E p q)"
proof (induction E l rule: tree_pairs.induct)
  case (1 E l)
  show ?case
  proof (cases "length l > 1")
    case True
    then have tp: "tree_pairs E l = level_pairs l @ tree_pairs E (parents E l)" by (rule tree_pairs_long)
    from "1.prems" consider "(a, b) \<in> set (level_pairs l)" | "(a, b) \<in> set (tree_pairs E (parents E l))"
      unfolding tp by auto
    then show ?thesis
    proof cases
      case 1
      then show ?thesis using level_pairs_set by blast
    next
      case 2
      from "1.IH" [OF True 2] show ?thesis
        unfolding tp using parents_pair [of a E l] by auto
    qed
  next
    case False
    with "1.prems" show ?thesis by (simp add: tree_pairs.simps)
  qed
qed

lemma merkle_root_pair:
  "length l > 1 \<Longrightarrow> \<exists>p q. (p, q) \<in> set (tree_pairs E l) \<and> merkle_root E l = Hash2 E p q"
proof (induction E l rule: merkle_root.induct)
  case (1 E l)
  note tp = tree_pairs_long [OF "1.prems", of E]
  have root: "merkle_root E l = merkle_root E (parents E l)"
    using "1.prems" by (simp add: merkle_root.simps [of E l])
  show ?case
  proof (cases "length (parents E l) > 1")
    case True
    from "1.IH" [OF "1.prems" True] show ?thesis by (auto simp: root tp)
  next
    case False
    then obtain h where h: "parents E l = [h]"
      using "1.prems" by (cases "parents E l") (auto simp del: length_parents)
    then have "merkle_root E l = h" unfolding root by (simp add: merkle_root.simps)
    with h parents_pair [of h E l] show ?thesis by (auto simp: tp)
  qed
qed

text \<open>Two lists with the same root: equal, or one repeats an element, or an element of one is the
  hash of a pair of the other tree.\<close>

definition hash_of_pair :: "ext \<Rightarrow> uint256 list \<Rightarrow> uint256 list \<Rightarrow> bool" where
  "hash_of_pair E xs ys \<longleftrightarrow>
     list_ex (\<lambda>x. list_ex (\<lambda>(a, b). x = Hash2 E a b) (tree_pairs E ys)) xs"

lemma hash_of_pairI:
  "x \<in> set xs \<Longrightarrow> (a, b) \<in> set (tree_pairs E ys) \<Longrightarrow> x = Hash2 E a b \<Longrightarrow> hash_of_pair E xs ys"
  by (auto simp: hash_of_pair_def list_ex_iff)

lemma hash_of_pair_down:
  assumes "hash_of_pair E (parents E xs) (parents E ys)" "length xs > 1" "length ys > 1"
    "\<not> collision_in E (tree_pairs E xs) (tree_pairs E ys)"
  shows "hash_of_pair E xs ys"
proof -
  obtain x a b where x: "x \<in> set (parents E xs)" "(a, b) \<in> set (tree_pairs E (parents E ys))" "x = Hash2 E a b"
    using assms(1) by (auto simp: hash_of_pair_def list_ex_iff)
  obtain c d where cd: "(c, d) \<in> set (level_pairs xs)" "x = Hash2 E c d" using parents_pair [OF x(1)] by blast
  have "(c, d) \<in> set (tree_pairs E xs)" "(a, b) \<in> set (tree_pairs E ys)"
    using cd x assms(2,3) by (simp_all add: tree_pairs_long)
  then have "(c, d) = (a, b)"
    using assms(4) x(3) cd(2) unfolding collision_in_def list_ex_iff by fastforce
  then have "a \<in> set xs" using level_pairs_set [OF cd(1)] by simp
  moreover have "\<exists>p q. (p, q) \<in> set (tree_pairs E ys) \<and> a = Hash2 E p q"
    using tree_pairs_above [OF x(2)] parents_pair [of a E ys] assms(3) by (auto simp: tree_pairs_long)
  ultimately show ?thesis by (auto intro: hash_of_pairI)
qed

lemma distinct_parents:
  assumes "\<not> distinct (parents E xs)" "distinct xs" "length xs > 1"
  shows "collision_in E (tree_pairs E xs) (tree_pairs E xs)"
proof -
  have "\<not> inj_on (\<lambda>(a, b). Hash2 E a b) (set (level_pairs xs))"
    using assms(1) level_pairs_distinct [OF assms(2)] by (simp add: parents_pairs distinct_map)
  then obtain a b c d where "(a, b) \<in> set (level_pairs xs)" "(c, d) \<in> set (level_pairs xs)"
    "(a, b) \<noteq> (c, d)" "Hash2 E a b = Hash2 E c d"
    unfolding inj_on_def by fastforce
  then show ?thesis using assms(3) by (intro collision_inI [of a b _ c d]) (simp_all add: tree_pairs_long)
qed

text \<open>Both trees, level by level.\<close>

lemma collision_tails:
  "collision_in E (tree_pairs E (parents E xs)) (tree_pairs E (parents E ys)) \<Longrightarrow>
     length xs > 1 \<Longrightarrow> length ys > 1 \<Longrightarrow> collision_in E (tree_pairs E xs) (tree_pairs E ys)"
  by (erule collision_in_mono) (auto simp: tree_pairs_long)

lemma same_root:
  assumes "merkle_root E xs = merkle_root E ys" "xs \<noteq> []" "ys \<noteq> []" "distinct xs" "distinct ys"
    "\<not> collision_in E (tree_pairs E xs @ tree_pairs E ys) (tree_pairs E xs @ tree_pairs E ys)"
  shows "xs = ys \<or> hash_of_pair E xs ys \<or> hash_of_pair E ys xs"
  using assms
proof (induction E xs arbitrary: ys rule: merkle_root.induct)
  case (1 E xs)
  let ?t = "tree_pairs E"
  have nc: "\<not> collision_in E ps qs"
    if x: "set ps \<subseteq> set (?t xs) \<union> set (?t ys)" "set qs \<subseteq> set (?t xs) \<union> set (?t ys)" for ps qs
    using "1.prems"(6) collision_in_mono [of E ps qs] x by auto
  consider "length xs > 1" "length ys > 1" | "length xs = 1" "length ys > 1"
    | "length xs > 1" "length ys = 1" | "length xs = 1" "length ys = 1"
    using "1.prems"(2,3) by (metis One_nat_def Suc_lessI length_greater_0_conv)
  then show ?case
  proof cases
    case 1
    have sub: "set (?t (parents E xs)) \<subseteq> set (?t xs)" "set (?t (parents E ys)) \<subseteq> set (?t ys)"
      using 1 by (simp_all add: tree_pairs_long)
    have d: "distinct (parents E xs)" "distinct (parents E ys)"
      using distinct_parents [of E xs] distinct_parents [of E ys] 1 "1.prems"(4,5) nc by blast+
    have "parents E xs = parents E ys \<or> hash_of_pair E (parents E xs) (parents E ys) \<or>
        hash_of_pair E (parents E ys) (parents E xs)"
    proof (rule "1.IH")
      show "merkle_root E (parents E xs) = merkle_root E (parents E ys)"
        using "1.prems"(1) 1 by (simp add: merkle_root.simps [of E xs] merkle_root.simps [of E ys])
      show "\<not> collision_in E (?t (parents E xs) @ ?t (parents E ys)) (?t (parents E xs) @ ?t (parents E ys))"
        using sub by (intro nc) auto
    qed (use 1 d "1.prems"(2,3) in auto)
    moreover have "xs = ys" if e: "parents E xs = parents E ys"
    proof -
      have "level_pairs xs = level_pairs ys"
        using map_hash_collision [of E "level_pairs xs" "level_pairs ys"] e 1
          nc [of "level_pairs xs" "level_pairs ys"]
        by (auto simp: parents_pairs tree_pairs_long)
      with level_pairs_eq "1.prems"(4,5) show ?thesis by blast
    qed
    moreover have "hash_of_pair E xs ys" if "hash_of_pair E (parents E xs) (parents E ys)"
      by (rule hash_of_pair_down [OF that 1]) (rule nc, simp_all)
    moreover have "hash_of_pair E ys xs" if "hash_of_pair E (parents E ys) (parents E xs)"
      by (rule hash_of_pair_down [OF that 1(2,1)]) (rule nc, simp_all)
    ultimately show ?thesis by blast
  next
    case 2
    then obtain x where "xs = [x]" by (auto simp: length_Suc_conv)
    moreover from this have "merkle_root E xs = x" by (simp add: merkle_root.simps)
    ultimately show ?thesis
      using merkle_root_pair [OF 2(2), of E] "1.prems"(1) by (auto intro: hash_of_pairI)
  next
    case 3
    then obtain y where "ys = [y]" by (auto simp: length_Suc_conv)
    moreover from this have "merkle_root E ys = y" by (simp add: merkle_root.simps)
    ultimately show ?thesis
      using merkle_root_pair [OF 3(1), of E] "1.prems"(1) by (auto intro: hash_of_pairI)
  next
    case 4
    then have "xs = ys" using "1.prems"(1)
      by (auto simp: length_Suc_conv merkle_root.simps)
    then show ?thesis ..
  qed
qed

text \<open>The strings hashed for a block: its header, its transactions, the pairs of its tree.\<close>

definition hashed :: "ext \<Rightarrow> CBlock \<Rightarrow> bytes list" where
  "hashed E b = block_header b # map ser_CTransaction (vtx b) @
     map (\<lambda>(p, q). mem p @ mem q) (tree_pairs E (map (GetHash E) (vtx b)))"

definition collision :: "ext \<Rightarrow> bytes list \<Rightarrow> bool" where
  "collision E ss \<longleftrightarrow> list_ex (\<lambda>s. list_ex (\<lambda>t. s \<noteq> t \<and> Hash E s = Hash E t) ss) ss"

lemma collisionI: "s \<in> set ss \<Longrightarrow> t \<in> set ss \<Longrightarrow> s \<noteq> t \<Longrightarrow> Hash E s = Hash E t \<Longrightarrow> collision E ss"
  by (auto simp: collision_def list_ex_iff)

lemma collision_of_pairs:
  assumes "collision_in E ps qs"
    "set ps \<subseteq> P" "set qs \<subseteq> P" "(\<lambda>(p, q). mem p @ mem q) ` P \<subseteq> set ss"
  shows "collision E ss"
proof -
  obtain a b c d where "(a, b) \<in> set ps" "(c, d) \<in> set qs" "(a, b) \<noteq> (c, d)" "Hash2 E a b = Hash2 E c d"
    using assms(1) by (auto simp: collision_in_def list_ex_iff)
  moreover have "mem a @ mem b \<noteq> mem c @ mem d" if "(a, b) \<noteq> (c, d)"
    using that by (auto simp: mem_inj)
  moreover have "mem x @ mem y \<in> set ss" if "(x, y) \<in> P" for x y
    using assms(4) that by force
  ultimately show ?thesis
    using assms(2,3) by (intro collisionI [of "mem a @ mem b" ss "mem c @ mem d"]) (auto simp: Hash2_def)
qed

lemma hash_of_pair_transactions:
  assumes "hash_of_pair E (map (GetHash E) txs) l"
    "set (map ser_CTransaction txs) \<subseteq> set ss" "(\<lambda>(p, q). mem p @ mem q) ` set (tree_pairs E l) \<subseteq> set ss"
  shows "collision E ss \<or> list_ex (\<lambda>tx. length (ser_CTransaction tx) = 64) txs"
proof -
  obtain tx a b where tx: "tx \<in> set txs" "(a, b) \<in> set (tree_pairs E l)" "GetHash E tx = Hash2 E a b"
    using assms(1) by (auto simp: hash_of_pair_def list_ex_iff)
  then have "ser_CTransaction tx \<in> set ss" "mem a @ mem b \<in> set ss"
    using assms(2,3) by force+
  then have "collision E ss" if "ser_CTransaction tx \<noteq> mem a @ mem b"
    using that tx(3) collisionI [of "ser_CTransaction tx" ss "mem a @ mem b" E]
    by (simp add: GetHash_def Hash2_def)
  moreover have "length (ser_CTransaction tx) = 64" if "ser_CTransaction tx = mem a @ mem b"
    unfolding that by simp
  ultimately show ?thesis
    using tx(1) unfolding list_ex_iff by (cases "ser_CTransaction tx = mem a @ mem b") blast+
qed

lemma header_root: "block_header b = block_header b' \<Longrightarrow> hashMerkleRoot b = hashMerkleRoot b'"
proof -
  assume e: "block_header b = block_header b'"
  have "take 32 (drop 36 (block_header x)) = mem (hashMerkleRoot x)" for x
    by (simp add: block_header_def ser_word_def)
  from this [of b] this [of b'] have "mem (hashMerkleRoot b) = mem (hashMerkleRoot b')"
    unfolding e by simp
  then show ?thesis by (simp add: mem_inj)
qed

lemma accepted_block:
  assumes "fst (CheckBlock E B N p True b)"
  shows "map (GetHash E) (vtx b) \<noteq> []" "distinct (map (GetHash E) (vtx b))"
    "hashMerkleRoot b = merkle_root E (map (GetHash E) (vtx b))"
  using assms by (auto simp: CheckBlock_iff block_ok_def BuildMerkleTree_root)

lemma same_ids:
  assumes "map (GetHash E) xs = map (GetHash E) ys" "\<not> collision E ss"
    "set (map ser_CTransaction xs) \<subseteq> set ss" "set (map ser_CTransaction ys) \<subseteq> set ss"
  shows "map ser_CTransaction xs = map ser_CTransaction ys"
  using assms
proof (induction xs ys rule: list_induct2')
  case (4 x xs y ys)
  then have "ser_CTransaction x = ser_CTransaction y"
    using collisionI [of "ser_CTransaction x" ss "ser_CTransaction y" E] by (auto simp: GetHash_def)
  with 4 show ?case by simp
qed simp_all

text \<open>C6: The hash of an accepted block commits to the whole block, for blocks of any number of
  transactions: if two blocks pass CheckBlock with the Merkle check and have the same hash, then they
  have the same header and the same transactions in the same order, or two different strings hashed
  for them collide, or one of them holds a transaction of exactly 64 bytes (which can pose as a pair
  of nodes of the tree). The refusal of repeated transaction ids is what rules out the lists that
  share a root because the code doubles the last node of an odd level.\<close>

theorem block_hash_commits:
  assumes "fst (CheckBlock E B N p True b)" "fst (CheckBlock E B N' p' True b')"
    "CBlock_GetHash E b = CBlock_GetHash E b'"
  shows "(block_header b = block_header b' \<and> map ser_CTransaction (vtx b) = map ser_CTransaction (vtx b')) \<or>
    collision E (hashed E b @ hashed E b') \<or>
    list_ex (\<lambda>tx. length (ser_CTransaction tx) = 64) (vtx b @ vtx b')"
proof (rule ccontr)
  let ?ss = "hashed E b @ hashed E b'" and ?i = "map (GetHash E) (vtx b)" and ?i' = "map (GetHash E) (vtx b')"
  assume neg: "\<not> ?thesis"
  then have nc: "\<not> collision E ?ss" by blast
  have header: "block_header b = block_header b'"
    using nc assms(3) collisionI [of "block_header b" ?ss "block_header b'" E]
    by (auto simp: hashed_def CBlock_GetHash_def)
  have root: "merkle_root E ?i = merkle_root E ?i'"
    using header_root [OF header] accepted_block(3) [OF assms(1)] accepted_block(3) [OF assms(2)] by simp
  have pairs: "(\<lambda>(p, q). mem p @ mem q) ` (set (tree_pairs E ?i) \<union> set (tree_pairs E ?i')) \<subseteq> set ?ss"
    and ser: "set (map ser_CTransaction (vtx b)) \<subseteq> set ?ss" "set (map ser_CTransaction (vtx b')) \<subseteq> set ?ss"
    by (auto simp: hashed_def)
  have ncp: "\<not> collision_in E (tree_pairs E ?i @ tree_pairs E ?i') (tree_pairs E ?i @ tree_pairs E ?i')"
    using nc collision_of_pairs [OF _ _ _ pairs] by (metis set_append subset_refl)
  have "?i = ?i' \<or> hash_of_pair E ?i ?i' \<or> hash_of_pair E ?i' ?i"
    using same_root [OF root] accepted_block [OF assms(1)] accepted_block [OF assms(2)] ncp by blast
  moreover have "\<not> hash_of_pair E ?i ?i'" "\<not> hash_of_pair E ?i' ?i"
    using hash_of_pair_transactions [OF _ ser(1), where l = "?i'"]
      hash_of_pair_transactions [OF _ ser(2), where l = "?i"]
      neg pairs by (auto simp: image_Un)
  ultimately show False using same_ids [OF _ nc ser] header neg by blast
qed

definition sample_coinbase :: CTransaction where
  "sample_coinbase = \<lparr>nVersion = 1,
     vin = [\<lparr>prevout = COutPoint 0 (- 1), scriptSig = [3, 7, 7, 7], nSequence = - 1\<rparr>],
     vout = [\<lparr>nValue = 5000000000, scriptPubKey = [81]\<rparr>], nLockTime = 0, nDoS = 0\<rparr>"

definition sample_env :: env where
  "sample_env = \<lparr>fTestNet = False, nNeoScryptOptions = 0, neoscrypt = (\<lambda>h p. 0),
     GetAdjustedTime = 1500000100, nBaseMaturity = 100, GetTime = 1500000100, nLimitFreeRelay = 15,
     IsFromMe = (\<lambda>tx. False)\<rparr>"

definition coinbase_block :: "ext \<Rightarrow> int \<Rightarrow> CBlock" where
  "coinbase_block E d = CBlock_SetNull\<lparr>nTime := 1500000000, nBits := 0x01050000,
     hashMerkleRoot := GetHash E sample_coinbase, vtx := [sample_coinbase\<lparr>nDoS := d\<rparr>]\<rparr>"

lemma sample_coinbase_ok:
  "IsCoinBase (sample_coinbase\<lparr>nDoS := d\<rparr>)" "fst (CheckTransaction (sample_coinbase\<lparr>nDoS := d\<rparr>))"
  "GetHash E (sample_coinbase\<lparr>nDoS := d\<rparr>) = GetHash E sample_coinbase"
  "size_CTransaction (sample_coinbase\<lparr>nDoS := d\<rparr>) = 65"
  by (simp_all add: IsCoinBase_def sample_coinbase_def COutPoint_IsNull_def CheckTransaction_iff GetHash_def
      ser_CTransaction_def GetValueOut_def MoneyRange_def MAX_MONEY_def COIN_def size_CTransaction_def
      size_CTxIn_def size_CTxOut_def size_vec_def size_vch_def GetSizeOfCompactSize_def Let_def)

lemma sample_coinbase_sigops: "GetLegacySigOpCount (sample_coinbase\<lparr>nDoS := d\<rparr>) = 0"
proof -
  have "GetLegacySigOpCount sample_coinbase = 0" by code_simp
  then show ?thesis by (simp add: GetLegacySigOpCount_def)
qed

lemma small_target: "CheckProofOfWork bn_ref 0 0x01050000"
proof -
  have "SetCompact bn_ref 0x01050000 = 5" by code_simp
  then show ?thesis by (simp add: CheckProofOfWork_def limit_value [OF bn_ref_laws] Let_def)
qed

lemma coinbase_block_ok: "fst (CheckBlock E bn_ref sample_env p True (coinbase_block E d))"
  using sample_coinbase_ok(1,2,4) [of d] sample_coinbase_ok(3) [of E d] sample_coinbase_sigops [of d] small_target
  by (simp add: GetHashPoW_def Let_def CheckBlock_iff block_ok_def coinbase_block_def sample_env_def BuildMerkleTree_root
      merkle_root.simps block_sigops_def size_CBlock_def size_vec_def GetSizeOfCompactSize_def CBlock_SetNull_def)

theorem block_hash_commits_witness:
  "map ser_CTransaction (vtx (coinbase_block ext_ref 0)) = map ser_CTransaction (vtx (coinbase_block ext_ref 9)) \<or>
   collision ext_ref (hashed ext_ref (coinbase_block ext_ref 0) @ hashed ext_ref (coinbase_block ext_ref 9))"
proof -
  have "CBlock_GetHash ext_ref (coinbase_block ext_ref 0) = CBlock_GetHash ext_ref (coinbase_block ext_ref 9)"
    by (simp add: CBlock_GetHash_def block_header_def coinbase_block_def)
  from block_hash_commits [OF coinbase_block_ok coinbase_block_ok this]
  show ?thesis
    using sample_coinbase_ok(4) length_ser_CTransaction by (auto simp: coinbase_block_def)
qed

end
