(* ===== verification/Disk.thy ===== *)
theory Disk
  imports BlockRules
begin

text \<open>
  The block files and the transaction database (\<^verbatim>\<open>main.cpp\<close>, \<^verbatim>\<open>main.h\<close>, \<^verbatim>\<open>db.cpp\<close>, \<^verbatim>\<open>db.h\<close>). A block file is its
  bytes; blocks are appended and never change. Reading a file, unlike reading a network stream,
  fails at its end. The database is a store with one transaction at a time; \<open>room\<close> is the number of
  operations it still accepts before it fails, so that every place where the code handles a failed
  write is a branch of the model. The properties: what is written is read back, block and single
  transactions, and stays readable.
\<close>

section \<open>Block files\<close>

type_synonym files = "u32 \<rightharpoonup> bytes"

definition OpenBlockFile :: "files \<Rightarrow> u32 \<Rightarrow> u32 \<Rightarrow> bytes option" where
  "OpenBlockFile files nFile nBlockPos =
     (if nFile < 1 \<or> nFile = - 1 then None
      else map_option (drop (unat nBlockPos)) (files nFile))"

text \<open>\<^verbatim>\<open>CAutoFile::read\<close> throws at the end of the file: reading succeeds when a byte put behind the end is
  not consumed.\<close>

definition from_file :: "(bytes \<Rightarrow> ('a \<times> bytes) option) \<Rightarrow> bytes \<Rightarrow> 'a option" where
  "from_file unser bs =
     (case unser (bs @ [0]) of
        Some (x, r) \<Rightarrow> if r = [] then None else Some x
      | None \<Rightarrow> None)"

definition CTransaction_ReadFromDisk :: "files \<Rightarrow> CDiskTxPos \<Rightarrow> CTransaction option" where
  "CTransaction_ReadFromDisk files p =
     (case OpenBlockFile files (dFile p) 0 of
        None \<Rightarrow> None
      | Some bs \<Rightarrow> from_file unser_CTransaction (drop (unat (dTxPos p)) bs))"

text \<open>With \<^verbatim>\<open>SER_BLOCKHEADERONLY\<close> only the header is read.\<close>

definition unser_header :: "bytes \<Rightarrow> (CBlock \<times> bytes) option" where
  "unser_header s =
     (let (v, s) = unser_word s; (p, s) = unser_word s; (m, s) = unser_word s; (t, s) = unser_word s;
          (n, s) = unser_word s; (o', s) = unser_word s
      in Some (CBlock_SetNull\<lparr>bVersion := v, hashPrevBlock := p, hashMerkleRoot := m, nTime := t,
                nBits := n, nNonce := o'\<rparr>, s))"

definition CBlock_ReadFromDisk :: "files \<Rightarrow> u32 \<Rightarrow> u32 \<Rightarrow> bool \<Rightarrow> CBlock option" where
  "CBlock_ReadFromDisk files nFile nBlockPos fReadTransactions =
     (case OpenBlockFile files nFile nBlockPos of
        None \<Rightarrow> None
      | Some bs \<Rightarrow> from_file (if fReadTransactions then unser_CBlock else unser_header) bs)"

text \<open>\<^verbatim>\<open>CBlockIndex::GetBlockHeader\<close> and the reading of a block through its index entry, which compares
  the hash.\<close>

definition GetBlockHeader :: "CBlockIndex list \<Rightarrow> CBlock" where
  "GetBlockHeader pindex =
     CBlock_SetNull\<lparr>bVersion := iVersion (hd pindex),
       hashPrevBlock := (if tl pindex \<noteq> [] then iHash (hd (tl pindex)) else 0),
       hashMerkleRoot := iMerkleRoot (hd pindex), nTime := iTime (hd pindex), nBits := iBits (hd pindex),
       nNonce := iNonce (hd pindex)\<rparr>"

definition CBlock_ReadFromDisk_index :: "ext \<Rightarrow> files \<Rightarrow> CBlockIndex list \<Rightarrow> bool \<Rightarrow> CBlock option" where
  "CBlock_ReadFromDisk_index E files pindex fReadTransactions =
     (if \<not> fReadTransactions then Some (GetBlockHeader pindex)
      else
        (case CBlock_ReadFromDisk files (iFile (hd pindex)) (iBlockPos (hd pindex)) fReadTransactions of
           None \<Rightarrow> None
         | Some b \<Rightarrow> if CBlock_GetHash E b \<noteq> iHash (hd pindex) then None else Some b))"

text \<open>\<^verbatim>\<open>AppendBlockFile\<close>: the current file, or the next that is short enough. Opening for appending
  creates a file; the count ends where \<^verbatim>\<open>OpenBlockFile\<close> refuses the number.\<close>

definition MAX_FILE_SIZE :: nat where
  "MAX_FILE_SIZE = 0x7F000000 - MAX_SIZE"

lemma u32_not_max: "(n :: u32) \<noteq> - 1 \<Longrightarrow> unat n < 2 ^ 32 - 1 \<and> unat (n + 1) = unat n + 1"
proof -
  assume n: "n \<noteq> - 1"
  have m: "unat (- 1 :: u32) = 2 ^ 32 - 1" by (simp add: unsigned_minus_1_eq_mask mask_eq_exp_minus_1)
  then have "unat n \<noteq> 2 ^ 32 - 1" using n by (simp add: word_unat_eq_iff)
  moreover have "unat n < 2 ^ 32" using unsigned_less [of n, where ?'a = nat] by simp
  ultimately have "unat n < 2 ^ 32 - 1" by simp
  then show ?thesis by (simp add: unat_word_ariths)
qed

function AppendBlockFile :: "files \<Rightarrow> u32 \<Rightarrow> (u32 \<times> bytes) option \<times> u32" where
  "AppendBlockFile files nCurrentBlockFile =
     (if nCurrentBlockFile < 1 \<or> nCurrentBlockFile = - 1 then (None, nCurrentBlockFile)
      else
        let bs = (case files nCurrentBlockFile of None \<Rightarrow> [] | Some bs \<Rightarrow> bs)
        in if length bs < MAX_FILE_SIZE then (Some (nCurrentBlockFile, bs), nCurrentBlockFile)
           else AppendBlockFile files (nCurrentBlockFile + 1))"
  by pat_completeness auto

termination
proof (relation "measure (\<lambda>(f, n). 2 ^ 32 - unat n)")
  fix files and n :: u32 and bs
  assume "\<not> (n < 1 \<or> n = - 1)"
  then show "((files, n + 1), files, n) \<in> measure (\<lambda>(f, n). 2 ^ 32 - unat n)"
    using u32_not_max [of n] by auto
qed simp

declare AppendBlockFile.simps [simp del]

definition pchMessageStart :: "bool \<Rightarrow> bytes" where
  "pchMessageStart testnet = [0xFE, 0xD0, 0xD8, if testnet then 0xD4 else 0xC3]"

text \<open>The new files, the current file number, and the place of the block. The disk works: a file that cannot be opened,
  \<^verbatim>\<open>ftell\<close> and \<^verbatim>\<open>FileCommit\<close> failing, for which the code reports an error too, are left out.\<close>

definition CBlock_WriteToDisk ::
  "bool \<Rightarrow> files \<Rightarrow> u32 \<Rightarrow> CBlock \<Rightarrow> (u32 \<times> u32) option \<times> files \<times> u32" where
  "CBlock_WriteToDisk testnet files nCurrentBlockFile b =
     (case AppendBlockFile files nCurrentBlockFile of
        (None, cur) \<Rightarrow> (None, files, cur)
      | (Some (nFile, bs), cur) \<Rightarrow>
          let nSize = (word_of_nat (size_CBlock b) :: u32);
              bs = bs @ pchMessageStart testnet @ ser_word nSize;
              fileOutPos = length bs
          in (Some (nFile, word_of_nat fileOutPos), files(nFile \<mapsto> bs @ ser_CBlock b), cur))"

section \<open>The transaction database\<close>

record CDiskBlockIndex = CBlockIndex +
  dHashPrev :: uint256
  dHashNext :: uint256

definition CDiskBlockIndex_of :: "CBlockIndex list \<Rightarrow> uint256 \<Rightarrow> CDiskBlockIndex" where
  "CDiskBlockIndex_of pindex hashNext =
     CBlockIndex.extend (hd pindex)
       (CDiskBlockIndex.fields (if tl pindex \<noteq> [] then iHash (hd (tl pindex)) else 0) hashNext)"

text \<open>\<^verbatim>\<open>CDiskBlockIndex::GetBlockHash\<close>: the key of the entry.\<close>

definition CDiskBlockIndex_GetBlockHash :: "ext \<Rightarrow> CDiskBlockIndex \<Rightarrow> uint256" where
  "CDiskBlockIndex_GetBlockHash E d =
     CBlock_GetHash E (CBlock_SetNull\<lparr>bVersion := iVersion d, hashPrevBlock := dHashPrev d,
       hashMerkleRoot := iMerkleRoot d, nTime := iTime d, nBits := iBits d, nNonce := iNonce d\<rparr>)"

record store =
  dbTx :: "uint256 \<rightharpoonup> CTxIndex"
  dbBlock :: "uint256 \<rightharpoonup> CDiskBlockIndex"
  dbBest :: "uint256 option"
  dbInvalidWork :: CBigNum
  dbSyncCheckpoint :: "uint256 option"

record CTxDB =
  view :: store
  active :: "store option"
  room :: nat

definition ReadTxIndex :: "CTxDB \<Rightarrow> uint256 \<Rightarrow> CTxIndex option" where
  "ReadTxIndex db h = dbTx (view db) h"

text \<open>A write succeeds while \<open>room\<close> lasts, and when it has run out no later one does: a single failing write between
  successful ones, which matters where the code does not look at the result (\<^verbatim>\<open>EraseTxIndex\<close> in \<^verbatim>\<open>DisconnectInputs\<close>), is
  not among the runs.\<close>

definition db_write :: "(store \<Rightarrow> store) \<Rightarrow> CTxDB \<Rightarrow> bool \<times> CTxDB" where
  "db_write f db =
     (if room db = 0 then (False, db)
      else (True, db\<lparr>view := f (view db), room := room db - 1\<rparr>))"

definition UpdateTxIndex :: "uint256 \<Rightarrow> CTxIndex \<Rightarrow> CTxDB \<Rightarrow> bool \<times> CTxDB" where
  "UpdateTxIndex h x = db_write (\<lambda>s. s\<lparr>dbTx := (dbTx s)(h \<mapsto> x)\<rparr>)"

definition AddTxIndex :: "ext \<Rightarrow> CTransaction \<Rightarrow> CDiskTxPos \<Rightarrow> CTxDB \<Rightarrow> bool \<times> CTxDB" where
  "AddTxIndex E tx p = UpdateTxIndex (GetHash E tx) (new_CTxIndex p (length (vout tx)))"

definition EraseTxIndex :: "ext \<Rightarrow> CTransaction \<Rightarrow> CTxDB \<Rightarrow> bool \<times> CTxDB" where
  "EraseTxIndex E tx = db_write (\<lambda>s. s\<lparr>dbTx := (dbTx s)(GetHash E tx := None)\<rparr>)"

definition ContainsTx :: "CTxDB \<Rightarrow> uint256 \<Rightarrow> bool" where
  "ContainsTx db h \<longleftrightarrow> dbTx (view db) h \<noteq> None"

definition ReadDiskTx :: "files \<Rightarrow> CTxDB \<Rightarrow> uint256 \<Rightarrow> (CTransaction \<times> CTxIndex) option" where
  "ReadDiskTx files db h =
     (case ReadTxIndex db h of None \<Rightarrow> None
      | Some x \<Rightarrow> map_option (\<lambda>tx. (tx, x)) (CTransaction_ReadFromDisk files (pos x)))"

definition CTransaction_ReadFromDisk_prevout ::
  "files \<Rightarrow> CTxDB \<Rightarrow> COutPoint \<Rightarrow> (CTransaction \<times> CTxIndex) option" where
  "CTransaction_ReadFromDisk_prevout files db p =
     (case ReadTxIndex db (prev_hash p) of None \<Rightarrow> None
      | Some x \<Rightarrow>
          (case CTransaction_ReadFromDisk files (pos x) of None \<Rightarrow> None
           | Some tx \<Rightarrow> if unat (prev_n p) \<ge> length (vout tx) then None else Some (tx, x)))"

definition WriteBlockIndex :: "ext \<Rightarrow> CDiskBlockIndex \<Rightarrow> CTxDB \<Rightarrow> bool \<times> CTxDB" where
  "WriteBlockIndex E d =
     db_write (\<lambda>s. s\<lparr>dbBlock := (dbBlock s)(CDiskBlockIndex_GetBlockHash E d \<mapsto> d)\<rparr>)"

definition WriteHashBestChain :: "uint256 \<Rightarrow> CTxDB \<Rightarrow> bool \<times> CTxDB" where
  "WriteHashBestChain h = db_write (\<lambda>s. s\<lparr>dbBest := Some h\<rparr>)"

definition WriteBestInvalidWork :: "CBigNum \<Rightarrow> CTxDB \<Rightarrow> bool \<times> CTxDB" where
  "WriteBestInvalidWork w = db_write (\<lambda>s. s\<lparr>dbInvalidWork := w\<rparr>)"

definition db_WriteSyncCheckpoint :: "uint256 \<Rightarrow> CTxDB \<Rightarrow> bool \<times> CTxDB" where
  "db_WriteSyncCheckpoint h = db_write (\<lambda>s. s\<lparr>dbSyncCheckpoint := Some h\<rparr>)"

definition TxnBegin :: "CTxDB \<Rightarrow> bool \<times> CTxDB" where
  "TxnBegin db =
     (if active db \<noteq> None \<or> room db = 0 then (False, db)
      else (True, db\<lparr>active := Some (view db), room := room db - 1\<rparr>))"

text \<open>A commit that fails discards the transaction.\<close>

definition TxnAbort :: "CTxDB \<Rightarrow> bool \<times> CTxDB" where
  "TxnAbort db =
     (case active db of None \<Rightarrow> (False, db)
      | Some s \<Rightarrow> (True, db\<lparr>view := s, active := None\<rparr>))"

definition TxnCommit :: "CTxDB \<Rightarrow> bool \<times> CTxDB" where
  "TxnCommit db =
     (case active db of None \<Rightarrow> (False, db)
      | Some s \<Rightarrow>
          if room db = 0 then (False, db\<lparr>view := s, active := None\<rparr>)
          else (True, db\<lparr>active := None, room := room db - 1\<rparr>))"

text \<open>Closing a handle discards its open transaction.\<close>

definition CTxDB_Close :: "CTxDB \<Rightarrow> CTxDB" where
  "CTxDB_Close db = snd (TxnAbort db)"

section \<open>Reading back what was written\<close>

lemma from_file_written:
  assumes "unser (bs @ rest @ [0]) = Some (x, rest @ [0])"
  shows "from_file unser (bs @ rest) = Some x"
  using assms by (simp add: from_file_def)

text \<open>What can be read stays readable when the file grows.\<close>

lemma from_file_grows:
  assumes "reader unser" "from_file unser bs = Some x"
  shows "from_file unser (bs @ added) = Some x"
proof -
  obtain r where r: "unser (bs @ [0]) = Some (x, r)" "r \<noteq> []"
    using assms(2) by (auto simp: from_file_def split: option.splits if_splits)
  from reader_prefix [OF assms(1) r] obtain u where
    u: "bs @ [0] = u @ r" "\<forall>t. unser (u @ t) = Some (x, t)" by blast
  then have "bs = u @ butlast r" using r(2) by (metis butlast_append butlast_snoc)
  then show ?thesis using u(2) by (simp add: from_file_def)
qed

lemma reader_unser_header: "reader unser_header"
proof -
  let ?w = "\<lambda>k s. case (Some \<circ> unser_word) s of None \<Rightarrow> None | Some (x, s) \<Rightarrow> k x s"
  let ?f = "?w (\<lambda>v. ?w (\<lambda>p. ?w (\<lambda>m. ?w (\<lambda>t. ?w (\<lambda>n. ?w (\<lambda>o' s.
    Some (CBlock_SetNull\<lparr>bVersion := v, hashPrevBlock := p, hashMerkleRoot := m, nTime := t,
                nBits := n, nNonce := o'\<rparr>, s)))))))"
  have "reader ?f" by (intro reader_bind reader_unser_word reader_return)
  moreover have "unser_header = ?f"
    by (rule ext) (simp add: unser_header_def Let_def split: prod.split)
  ultimately show ?thesis by simp
qed

lemma reader_unser_CBlock: "reader unser_CBlock"
proof -
  let ?f = "\<lambda>s. case unser_header s of None \<Rightarrow> None | Some (b, s) \<Rightarrow>
      (\<lambda>s. case unser_vec unser_CTransaction s of None \<Rightarrow> None
         | Some (x, s) \<Rightarrow> (\<lambda>s. Some (b\<lparr>vtx := x\<rparr>, s)) s) s"
  have "reader ?f"
    by (intro reader_bind reader_unser_header reader_unser_vec reader_unser_CTransaction reader_return)
  moreover have "unser_CBlock = ?f"
    by (rule ext) (simp add: unser_CBlock_def unser_header_def Let_def split: prod.split option.split)
  ultimately show ?thesis by simp
qed

lemma AppendBlockFile_found:
  "AppendBlockFile files n = (Some (nFile, bs), cur) \<Longrightarrow>
     \<not> nFile < 1 \<and> nFile \<noteq> - 1 \<and> length bs < MAX_FILE_SIZE \<and> cur = nFile \<and>
     bs = (case files nFile of None \<Rightarrow> [] | Some bs \<Rightarrow> bs)"
proof (induction files n rule: AppendBlockFile.induct)
  case (1 files n)
  show ?case
    using "1.prems" "1.IH" by (subst (asm) AppendBlockFile.simps) (auto simp: Let_def split: if_splits)
qed

text \<open>A file that only grows keeps every transaction where it is.\<close>

definition grows :: "files \<Rightarrow> files \<Rightarrow> bool" where
  "grows f g \<longleftrightarrow> (\<forall>n bs. f n = Some bs \<longrightarrow> (\<exists>added. g n = Some (bs @ added)))"

lemma grows_refl: "grows f f"
  by (auto simp: grows_def)

lemma grows_trans: "grows f g \<Longrightarrow> grows g h \<Longrightarrow> grows f h"
  unfolding grows_def by (metis append.assoc)

lemma ReadFromDisk_grows:
  assumes "grows f g" "CTransaction_ReadFromDisk f p = Some tx"
  shows "CTransaction_ReadFromDisk g p = Some tx"
proof -
  obtain bs where bs: "\<not> (dFile p < 1 \<or> dFile p = - 1)" "f (dFile p) = Some bs"
    "from_file unser_CTransaction (drop (unat (dTxPos p)) bs) = Some tx"
    using assms(2) by (auto simp: CTransaction_ReadFromDisk_def OpenBlockFile_def split: if_splits option.splits)
  obtain added where added: "g (dFile p) = Some (bs @ added)" using assms(1) bs(2) by (auto simp: grows_def)
  show ?thesis
    using from_file_grows [OF reader_unser_CTransaction bs(3)] bs(1) added
    by (simp add: CTransaction_ReadFromDisk_def OpenBlockFile_def)
qed

lemma CBlock_ReadFromDisk_grows:
  assumes "grows f g" "CBlock_ReadFromDisk f n p fReadTransactions = Some b"
  shows "CBlock_ReadFromDisk g n p fReadTransactions = Some b"
proof -
  let ?unser = "if fReadTransactions then unser_CBlock else unser_header"
  obtain bs where bs: "\<not> (n < 1 \<or> n = - 1)" "f n = Some bs" "from_file ?unser (drop (unat p) bs) = Some b"
    using assms(2) by (auto simp: CBlock_ReadFromDisk_def OpenBlockFile_def split: if_splits option.splits)
  obtain added where added: "g n = Some (bs @ added)" using assms(1) bs(2) by (auto simp: grows_def)
  have "reader ?unser" using reader_unser_CBlock reader_unser_header by simp
  from from_file_grows [OF this bs(3)] show ?thesis
    using bs(1) added by (simp add: CBlock_ReadFromDisk_def OpenBlockFile_def)
qed

text \<open>A block at its place in a file.\<close>

definition stored_at :: "files \<Rightarrow> u32 \<Rightarrow> u32 \<Rightarrow> CBlock \<Rightarrow> bool" where
  "stored_at files nFile nBlockPos b \<longleftrightarrow>
     \<not> nFile < 1 \<and> nFile \<noteq> - 1 \<and> unat nBlockPos + size_CBlock b < 2 ^ 32 \<and>
     (case files nFile of None \<Rightarrow> False
      | Some bs \<Rightarrow> take (size_CBlock b) (drop (unat nBlockPos) bs) = ser_CBlock b)"

lemma length_ser_CBlock: "length (ser_CBlock b) = size_CBlock b"
  by (simp add: ser_CBlock_def size_CBlock_def block_header_def ser_word_def len_simps
      size_vec_length [where ser = ser_CTransaction, OF length_ser_CTransaction])

lemma stored_at_bytes:
  assumes "stored_at files nFile p b"
  obtains bs post where "files nFile = Some bs" "drop (unat p) bs = ser_CBlock b @ post"
proof -
  obtain bs where "files nFile = Some bs" "take (size_CBlock b) (drop (unat p) bs) = ser_CBlock b"
    using assms by (auto simp: stored_at_def split: option.splits)
  then show ?thesis using that by (metis append_take_drop_id)
qed

text \<open>Where \<^verbatim>\<open>ConnectBlock\<close> finds the transaction behind \<open>before\<close>.\<close>

definition tx_pos :: "u32 \<Rightarrow> u32 \<Rightarrow> nat \<Rightarrow> CTransaction list \<Rightarrow> CDiskTxPos" where
  "tx_pos nFile nBlockPos n before =
     \<lparr>dFile = nFile, dBlockPos = nBlockPos,
      dTxPos = nBlockPos + word_of_nat (80 + GetSizeOfCompactSize n + sum_list (map size_CTransaction before))\<rparr>"

lemma unser_ser_tx:
  "tx_fits tx \<Longrightarrow> unser_CTransaction (ser_CTransaction tx @ rest) = Some (tx\<lparr>nDoS := 0\<rparr>, rest)"
  using tx_codec.roundtrip [of "tx\<lparr>nDoS := 0\<rparr>" rest] by (simp add: tx_fits_def ser_CTransaction_def)

lemma tx_pos_offset:
  assumes "stored_at files nFile p b" "vtx b = before @ tx # after"
  shows "unat (dTxPos (tx_pos nFile p (length (vtx b)) before)) =
    unat p + (80 + GetSizeOfCompactSize (length (vtx b)) + sum_list (map size_CTransaction before))"
proof -
  let ?k = "80 + GetSizeOfCompactSize (length (vtx b)) + sum_list (map size_CTransaction before)"
  have "?k \<le> size_CBlock b"
    using assms(2) by (simp add: size_CBlock_def size_vec_def foldl_add_sum)
  then have "unat p + ?k < 2 ^ 32" using assms(1) unfolding stored_at_def by linarith
  then show ?thesis by (simp add: tx_pos_def unat_word_ariths unat_of_nat)
qed

lemma stored_tx:
  assumes "stored_at files nFile p b" "vtx b = before @ tx # after" "tx_fits tx"
  shows "CTransaction_ReadFromDisk files (tx_pos nFile p (length (vtx b)) before) = Some (tx\<lparr>nDoS := 0\<rparr>)"
proof -
  let ?k = "80 + GetSizeOfCompactSize (length (vtx b)) + sum_list (map size_CTransaction before)"
  obtain bs post where bs: "files nFile = Some bs" "drop (unat p) bs = ser_CBlock b @ post"
    using stored_at_bytes [OF assms(1)] .
  have before: "length (concat (map ser_CTransaction before)) = sum_list (map size_CTransaction before)"
    by (simp add: length_concat comp_def length_ser_CTransaction)
  have ser: "ser_CBlock b = (block_header b @ WriteCompactSize (length (vtx b)) @
      concat (map ser_CTransaction before)) @ ser_CTransaction tx @ concat (map ser_CTransaction after)"
    by (simp add: ser_CBlock_def ser_vec_def assms(2))
  have k: "length (block_header b @ WriteCompactSize (length (vtx b)) @
      concat (map ser_CTransaction before)) = ?k"
    by (simp add: before block_header_def ser_word_def len_simps)
  have "drop (unat p + ?k) bs = drop ?k (drop (unat p) bs)" by (simp add: add.commute)
  also have "\<dots> = ser_CTransaction tx @ concat (map ser_CTransaction after) @ post"
    unfolding bs(2) ser using k by (metis append.assoc append_eq_conv_conj)
  finally have d: "drop (unat (dTxPos (tx_pos nFile p (length (vtx b)) before))) bs = \<dots>"
    unfolding tx_pos_offset [OF assms(1,2)] .
  have "from_file unser_CTransaction (ser_CTransaction tx @ concat (map ser_CTransaction after) @ post) =
      Some (tx\<lparr>nDoS := 0\<rparr>)"
    by (rule from_file_written) (simp add: unser_ser_tx assms(3))
  moreover have "dFile (tx_pos nFile p (length (vtx b)) before) = nFile" by (simp add: tx_pos_def)
  ultimately show ?thesis
    using assms(1) bs(1) d by (simp add: CTransaction_ReadFromDisk_def OpenBlockFile_def stored_at_def)
qed

lemma WriteToDisk_stored:
  assumes "CBlock_WriteToDisk T files cur b = (Some (nFile, p), files', cur')" "size_CBlock b \<le> MAX_BLOCK_SIZE"
  shows "stored_at files' nFile p b" "grows files files'"
proof -
  obtain bs where a: "AppendBlockFile files cur = (Some (nFile, bs), cur')"
    and p: "p = word_of_nat (length bs + 8)"
    and f: "files' = files(nFile \<mapsto> bs @ pchMessageStart T @ ser_word (word_of_nat (size_CBlock b) :: u32) @ ser_CBlock b)"
    using assms(1)
    by (auto simp: CBlock_WriteToDisk_def pchMessageStart_def ser_word_def Let_def
        split: prod.splits option.splits)
  note found = AppendBlockFile_found [OF a]
  have l: "length bs + 8 + size_CBlock b < 2 ^ 32"
  proof -
    have "length bs < MAX_FILE_SIZE" using found by blast
    then show ?thesis using assms(2) by (simp add: MAX_FILE_SIZE_def MAX_SIZE_def)
  qed
  then have u: "unat p = length bs + 8" by (simp add: p unat_of_nat del: of_nat_add)
  show "stored_at files' nFile p b"
    using found l u
    by (simp add: stored_at_def f pchMessageStart_def ser_word_def length_ser_CBlock)
  show "grows files files'"
    using found by (auto simp: grows_def f split: option.splits)
qed

text \<open>C36: What WriteToDisk stores can be read back, and nothing is lost: a block of at most a million
  bytes that was appended to a block file is read back, header and transactions, from the position
  returned; every transaction of it is found at the position ConnectBlock computes for the index; and
  every transaction and every block (with its transactions or its header alone) that could be read before still
  can, so that a block stays readable after any number of further ones.\<close>

theorem block_file_roundtrip:
  assumes "CBlock_WriteToDisk T files cur b = (Some (nFile, p), files', cur')"
    "size_CBlock b \<le> MAX_BLOCK_SIZE" "block_fits b"
  shows "CBlock_ReadFromDisk files' nFile p True =
      Some (CBlock_SetNull\<lparr>bVersion := bVersion b, hashPrevBlock := hashPrevBlock b,
        hashMerkleRoot := hashMerkleRoot b, nTime := nTime b, nBits := nBits b, nNonce := nNonce b,
        vtx := vtx b\<rparr>) \<and>
    list_all (\<lambda>i. CTransaction_ReadFromDisk files' (tx_pos nFile p (length (vtx b)) (take i (vtx b))) =
        Some (vtx b ! i)) [0..<length (vtx b)] \<and>
    (CTransaction_ReadFromDisk files q = Some tx \<longrightarrow> CTransaction_ReadFromDisk files' q = Some tx) \<and>
    (CBlock_ReadFromDisk files n k fReadTransactions = Some c \<longrightarrow>
     CBlock_ReadFromDisk files' n k fReadTransactions = Some c)"
proof (intro conjI impI)
  note stored = WriteToDisk_stored [OF assms(1,2)]
  obtain bs post where bs: "files' nFile = Some bs" "drop (unat p) bs = ser_CBlock b @ post"
    using stored_at_bytes [OF stored(1)] .
  have "unser_CBlock (ser_CBlock b @ post @ [0]) = Some (CBlock_SetNull\<lparr>bVersion := bVersion b,
      hashPrevBlock := hashPrevBlock b, hashMerkleRoot := hashMerkleRoot b, nTime := nTime b, nBits := nBits b,
      nNonce := nNonce b, vtx := vtx b\<rparr>, post @ [0])"
    by (rule unser_ser_CBlock [OF assms(3)])
  from from_file_written [where unser = unser_CBlock and bs = "ser_CBlock b" and rest = post, OF this] show "CBlock_ReadFromDisk files' nFile p True = Some (CBlock_SetNull\<lparr>bVersion := bVersion b,
      hashPrevBlock := hashPrevBlock b, hashMerkleRoot := hashMerkleRoot b, nTime := nTime b, nBits := nBits b,
      nNonce := nNonce b, vtx := vtx b\<rparr>)"
    using stored(1) bs by (simp add: CBlock_ReadFromDisk_def OpenBlockFile_def stored_at_def)
  show "list_all (\<lambda>i. CTransaction_ReadFromDisk files' (tx_pos nFile p (length (vtx b)) (take i (vtx b))) =
        Some (vtx b ! i)) [0..<length (vtx b)]"
  proof (clarsimp simp: list_all_iff)
    fix i assume i: "i < length (vtx b)"
    then have "tx_fits (vtx b ! i)" "nDoS (vtx b ! i) = 0"
      using assms(3) by (simp_all add: block_fits_def list_all_length)
    then show "CTransaction_ReadFromDisk files' (tx_pos nFile p (length (vtx b)) (take i (vtx b))) = Some (vtx b ! i)"
      using stored_tx [OF stored(1) id_take_nth_drop [OF i]] by simp
  qed
  show "CTransaction_ReadFromDisk files' q = Some tx" if "CTransaction_ReadFromDisk files q = Some tx"
    by (rule ReadFromDisk_grows [OF stored(2) that])
  show "CBlock_ReadFromDisk files' n k fReadTransactions = Some c"
    if "CBlock_ReadFromDisk files n k fReadTransactions = Some c"
    by (rule CBlock_ReadFromDisk_grows [OF stored(2) that])
qed

theorem block_file_roundtrip_witness:
  "\<exists>files. CBlock_WriteToDisk False Map.empty 1 sample_CBlock = (Some (1, 8), files, 1) \<and>
     CTransaction_ReadFromDisk files (tx_pos 1 8 2 [vtx sample_CBlock ! 0]) = Some (vtx sample_CBlock ! 1)"
proof -
  define files where "files = fst (snd (CBlock_WriteToDisk False Map.empty 1 sample_CBlock))"
  have w: "CBlock_WriteToDisk False Map.empty 1 sample_CBlock = (Some (1, 8), files, 1)"
    by (simp add: files_def CBlock_WriteToDisk_def AppendBlockFile.simps MAX_FILE_SIZE_def MAX_SIZE_def
        pchMessageStart_def ser_word_def Let_def)
  have "size_CBlock sample_CBlock \<le> MAX_BLOCK_SIZE" "block_fits sample_CBlock"
    by (simp_all add: size_CBlock_def block_fits_def sample_CBlock_def sample_tx_def tx_fits_def script_fits_def
        MAX_SIZE_def size_vec_def size_CTransaction_def size_CTxIn_def size_CTxOut_def size_vch_def
        GetSizeOfCompactSize_def)
  from block_file_roundtrip [OF w this] have "list_all (\<lambda>i. CTransaction_ReadFromDisk files
      (tx_pos 1 8 (length (vtx sample_CBlock)) (take i (vtx sample_CBlock))) = Some (vtx sample_CBlock ! i)) [0, 1]"
    by (simp add: sample_CBlock_def upt_rec)
  then show ?thesis using w by (auto simp: sample_CBlock_def numeral_2_eq_2)
qed

end
