(* ===== verification/Ledger.thy ===== *)
theory Ledger
  imports Disk "HOL-Library.AList"
begin

text \<open>
  Connecting and disconnecting the inputs of transactions (\<^verbatim>\<open>main.cpp\<close>: \<^verbatim>\<open>FetchInputs\<close>, \<^verbatim>\<open>ConnectInputs\<close>,
  \<^verbatim>\<open>DisconnectInputs\<close>) and whole blocks (\<^verbatim>\<open>ConnectBlock\<close>, \<^verbatim>\<open>DisconnectBlock\<close>). The transaction index keeps for
  every output the position of the transaction that spends it, or a null position. Changes of a block
  are collected in the map \<^verbatim>\<open>mapQueuedChanges\<close>, an association list here, and written in the order of
  its keys. A step ends normally, refuses with points of misbehaviour, or throws.
\<close>

datatype 'a outcome = Ok 'a | Refuse int | Throw

section \<open>Fetching inputs\<close>

type_synonym testpool = "(uint256 \<times> CTxIndex) list"

type_synonym txpool = "uint256 \<rightharpoonup> CTransaction"

text \<open>One previous transaction: from the pending changes, the memory pool or the database. Transactions of
  the pool have an index entry with no position.\<close>

definition pool_index :: "CTransaction \<Rightarrow> CTxIndex" where
  "pool_index txPrev = CTxIndex_SetNull\<lparr>vSpent := replicate (length (vout txPrev)) CDiskTxPos_SetNull\<rparr>"

definition read_prev :: "files \<Rightarrow> CTxIndex \<Rightarrow> (CTxIndex \<times> CTransaction) option" where
  "read_prev files txindex = map_option (\<lambda>tx. (txindex, tx)) (CTransaction_ReadFromDisk files (pos txindex))"

definition fetch_prev ::
  "files \<Rightarrow> CTxDB \<Rightarrow> txpool \<Rightarrow> testpool \<Rightarrow> bool \<Rightarrow> bool \<Rightarrow> uint256 \<Rightarrow> (CTxIndex \<times> CTransaction) option" where
  "fetch_prev files db mapTx mapTestPool fBlock fMiner h =
     (case (if fBlock \<or> fMiner then map_of mapTestPool h else None) of
        Some txindex \<Rightarrow> read_prev files txindex
      | None \<Rightarrow>
     (case (if \<not> (fBlock \<or> fMiner) then mapTx h else None) of
        Some txPrev \<Rightarrow> Some (pool_index txPrev, txPrev)
      | None \<Rightarrow>
     (case ReadTxIndex db h of
        None \<Rightarrow>
          if fBlock \<or> fMiner then None
          else map_option (\<lambda>txPrev. (pool_index txPrev, txPrev)) (mapTx h)
      | Some txindex \<Rightarrow>
          if pos txindex = \<lparr>dFile = 1, dBlockPos = 1, dTxPos = 1\<rparr>
          then map_option (\<lambda>txPrev. (txindex, txPrev)) (mapTx h)
          else read_prev files txindex)))"

text \<open>The loop over the inputs. Where it fails, the entry just inserted stays in the map, unfilled.\<close>

fun FetchInputs_loop ::
  "(uint256 \<Rightarrow> (CTxIndex \<times> CTransaction) option) \<Rightarrow> CTxIn list \<Rightarrow> MapPrevTx \<Rightarrow> bool \<times> MapPrevTx" where
  "FetchInputs_loop fetch [] inputsRet = (True, inputsRet)"
| "FetchInputs_loop fetch (txin # r) inputsRet =
     (let h = prev_hash (prevout txin) in
      if inputsRet h \<noteq> None then FetchInputs_loop fetch r inputsRet
      else
        (case fetch h of
           None \<Rightarrow> (False, inputsRet(h \<mapsto> (CTxIndex_SetNull, CTransaction_SetNull)))
         | Some p \<Rightarrow> FetchInputs_loop fetch r (inputsRet(h \<mapsto> p))))"

definition prevout_in_range :: "MapPrevTx \<Rightarrow> CTxIn \<Rightarrow> bool" where
  "prevout_in_range inputs txin \<longleftrightarrow>
     (case inputs (prev_hash (prevout txin)) of None \<Rightarrow> False
      | Some (txindex, txPrev) \<Rightarrow>
          unat (prev_n (prevout txin)) < length (vout txPrev) \<and>
          unat (prev_n (prevout txin)) < length (vSpent txindex))"

text \<open>The result with the transaction (its score), the inputs and the flag \<^verbatim>\<open>fInvalid\<close>.\<close>

definition FetchInputs ::
  "files \<Rightarrow> CTxDB \<Rightarrow> txpool \<Rightarrow> testpool \<Rightarrow> bool \<Rightarrow> bool \<Rightarrow> CTransaction \<Rightarrow> MapPrevTx \<Rightarrow>
    (bool \<times> CTransaction) \<times> MapPrevTx \<times> bool" where
  "FetchInputs files db mapTx mapTestPool fBlock fMiner tx inputsRet =
     (if IsCoinBase tx then ((True, tx), inputsRet, False)
      else
        (case FetchInputs_loop (fetch_prev files db mapTx mapTestPool fBlock fMiner) (vin tx) inputsRet of
           (False, inputsRet) \<Rightarrow> ((False, tx), inputsRet, False)
         | (True, inputsRet) \<Rightarrow>
             if list_ex (\<lambda>txin. \<not> prevout_in_range inputsRet txin) (vin tx)
             then (DoS tx 100 False, inputsRet, True)
             else ((True, tx), inputsRet, False)))"

section \<open>Connecting inputs\<close>

text \<open>Whether the block of a coin base is among the last \<^verbatim>\<open>nBaseMaturity\<close> blocks.\<close>

fun immature :: "int \<Rightarrow> int \<Rightarrow> CDiskTxPos \<Rightarrow> CBlockIndex list \<Rightarrow> bool" where
  "immature maturity h p [] = False"
| "immature maturity h p (b # pprev) =
     (if h - iHeight b < maturity
      then (iBlockPos b = dBlockPos p \<and> iFile b = dFile p) \<or> immature maturity h p pprev
      else False)"

text \<open>The first loop: ranges, maturity and values.\<close>

fun connect_check :: "env \<Rightarrow> CBlockIndex list \<Rightarrow> CTxIn list \<Rightarrow> MapPrevTx \<Rightarrow> u64 \<Rightarrow> u64 outcome" where
  "connect_check N pindexBlock [] inputs nValueIn = Ok nValueIn"
| "connect_check N pindexBlock (txin # r) inputs nValueIn =
     (case inputs (prev_hash (prevout txin)) of
        None \<Rightarrow> Throw
      | Some (txindex, txPrev) \<Rightarrow>
          let n = unat (prev_n (prevout txin)) in
          if n \<ge> length (vout txPrev) \<or> n \<ge> length (vSpent txindex) then Refuse 100
          else if IsCoinBase txPrev \<and>
                  immature (nBaseMaturity N) (iHeight (hd pindexBlock)) (pos txindex) pindexBlock
          then Refuse 0
          else
            let nValueIn = nValueIn + nValue (vout txPrev ! n)
            in if \<not> MoneyRange (sint (nValue (vout txPrev ! n))) \<or> \<not> MoneyRange (sint nValueIn)
               then Refuse 100
               else connect_check N pindexBlock r inputs nValueIn)"

text \<open>The second loop: no output twice, signatures, and marking the outputs. The arguments after the
  transaction stand for \<^verbatim>\<open>fSkip\<close> (no signature checks below the last checkpoint), \<^verbatim>\<open>fBlock || fMiner\<close> and
  \<^verbatim>\<open>fStrictPayToScriptHash\<close>.\<close>

fun connect_spend ::
  "ext \<Rightarrow> CTransaction \<Rightarrow> bool \<Rightarrow> bool \<Rightarrow> bool \<Rightarrow> CDiskTxPos \<Rightarrow> CTxIn list \<Rightarrow> nat \<Rightarrow> MapPrevTx \<Rightarrow> testpool \<Rightarrow>
    sigcache \<Rightarrow> unit outcome \<times> testpool \<times> sigcache" where
  "connect_spend E tx skip wr strict posThisTx [] i inputs mapTestPool c = (Ok (), mapTestPool, c)"
| "connect_spend E tx skip wr strict posThisTx (txin # r) i inputs mapTestPool c =
     (case inputs (prev_hash (prevout txin)) of
        None \<Rightarrow> (Throw, mapTestPool, c)
      | Some (txindex, txPrev) \<Rightarrow>
          let n = unat (prev_n (prevout txin)) in
          if n \<ge> length (vSpent txindex) then (Throw, mapTestPool, c)
          else if \<not> CDiskTxPos_IsNull (vSpent txindex ! n) then (Refuse 0, mapTestPool, c)
          else
            (case (if skip then Some (True, c) else VerifySignature E txPrev tx i strict 0 c) of
               None \<Rightarrow> (Throw, mapTestPool, c)
             | Some (ok, c) \<Rightarrow>
                 if \<not> ok then (Refuse 100, mapTestPool, c)
                 else
                   let txindex = txindex\<lparr>vSpent := (vSpent txindex)[n := posThisTx]\<rparr>;
                       mapTestPool = (if wr then AList.update (prev_hash (prevout txin)) txindex mapTestPool
                                      else mapTestPool)
                   in connect_spend E tx skip wr strict posThisTx r (i + 1)
                        (inputs(prev_hash (prevout txin) \<mapsto> (txindex, txPrev))) mapTestPool c))"

definition refuse :: "CTransaction \<Rightarrow> int \<Rightarrow> (bool \<times> CTransaction) option" where
  "refuse tx d = Some (DoS tx d False)"

definition check_fee :: "CTransaction \<Rightarrow> u64 \<Rightarrow> (bool \<times> CTransaction) option" where
  "check_fee tx nValueIn =
     (case GetValueOut tx of
        None \<Rightarrow> None
      | Some nValueOut \<Rightarrow>
          if sint nValueIn < sint nValueOut then refuse tx 100
          else
            let nTxFee = nValueIn - nValueOut in
            if sint nTxFee < 0 then refuse tx 100
            else let nFees = 0 + nTxFee
                 in if \<not> MoneyRange (sint nFees) then refuse tx 100 else Some (True, tx))"

definition ConnectInputs ::
  "ext \<Rightarrow> env \<Rightarrow> CTransaction \<Rightarrow> MapPrevTx \<Rightarrow> testpool \<Rightarrow> CDiskTxPos \<Rightarrow> CBlockIndex list \<Rightarrow> int \<Rightarrow> bool \<Rightarrow> bool \<Rightarrow>
    bool \<Rightarrow> sigcache \<Rightarrow> (bool \<times> CTransaction) option \<times> testpool \<times> sigcache" where
  "ConnectInputs E N tx inputs mapTestPool posThisTx pindexBlock nBestHeight fBlock fMiner strict c =
     (if IsCoinBase tx then (Some (True, tx), mapTestPool, c)
      else
        (case connect_check N pindexBlock (vin tx) inputs 0 of
           Throw \<Rightarrow> (None, mapTestPool, c)
         | Refuse d \<Rightarrow> (refuse tx d, mapTestPool, c)
         | Ok nValueIn \<Rightarrow>
             (case connect_spend E tx (fBlock \<and> nBestHeight < GetTotalBlocksEstimate (fTestNet N)) (fBlock \<or> fMiner) strict
                     posThisTx (vin tx) 0 inputs mapTestPool c of
                (Throw, mapTestPool, c) \<Rightarrow> (None, mapTestPool, c)
              | (Refuse d, mapTestPool, c) \<Rightarrow> (refuse tx d, mapTestPool, c)
              | (Ok _, mapTestPool, c) \<Rightarrow> (check_fee tx nValueIn, mapTestPool, c))))"

section \<open>Disconnecting inputs\<close>

fun disconnect_loop :: "CTxIn list \<Rightarrow> CTxDB \<Rightarrow> bool \<times> CTxDB" where
  "disconnect_loop [] db = (True, db)"
| "disconnect_loop (txin # r) db =
     (case ReadTxIndex db (prev_hash (prevout txin)) of
        None \<Rightarrow> (False, db)
      | Some txindex \<Rightarrow>
          let n = unat (prev_n (prevout txin)) in
          if n \<ge> length (vSpent txindex) then (False, db)
          else
            (case UpdateTxIndex (prev_hash (prevout txin))
                    (txindex\<lparr>vSpent := (vSpent txindex)[n := CDiskTxPos_SetNull]\<rparr>) db of
               (ok, db) \<Rightarrow> if \<not> ok then (False, db) else disconnect_loop r db))"

text \<open>Whether erasing the index entry succeeds is not looked at.\<close>

definition DisconnectInputs :: "ext \<Rightarrow> CTransaction \<Rightarrow> CTxDB \<Rightarrow> bool \<times> CTxDB" where
  "DisconnectInputs E tx db =
     (case (if \<not> IsCoinBase tx then disconnect_loop (vin tx) db else (True, db)) of
        (ok, db) \<Rightarrow> if \<not> ok then (False, db) else (True, snd (EraseTxIndex E tx db)))"

fun disconnect_txs :: "ext \<Rightarrow> CTransaction list \<Rightarrow> CTxDB \<Rightarrow> bool \<times> CTxDB" where
  "disconnect_txs E [] db = (True, db)"
| "disconnect_txs E (tx # r) db =
     (case DisconnectInputs E tx db of (ok, db) \<Rightarrow> if \<not> ok then (False, db) else disconnect_txs E r db)"

definition DisconnectBlock :: "ext \<Rightarrow> CBlock \<Rightarrow> CBlockIndex list \<Rightarrow> CTxDB \<Rightarrow> bool \<times> CTxDB" where
  "DisconnectBlock E b pindex db =
     (case disconnect_txs E (rev (vtx b)) db of
        (ok, db) \<Rightarrow>
          if \<not> ok then (False, db)
          else if tl pindex \<noteq> []
          then WriteBlockIndex E (CDiskBlockIndex_of (tl pindex) 0) db
          else (True, db))"

section \<open>Connecting a block\<close>

text \<open>What stays the same while the transactions of a block are connected.\<close>

record conn =
  cFiles :: files
  cDB :: CTxDB
  cPool :: txpool
  cIndex :: "CBlockIndex list"
  cBestHeight :: int
  cBIP30 :: bool
  cStrict :: bool
  cJustCheck :: bool

text \<open>The rule on transactions that overwrite an older one: all its outputs are spent.\<close>

definition bip30_ok :: "CTxDB \<Rightarrow> uint256 \<Rightarrow> bool" where
  "bip30_ok db hashTx =
     (case ReadTxIndex db hashTx of None \<Rightarrow> True
      | Some txindexOld \<Rightarrow> \<not> list_ex CDiskTxPos_IsNull (vSpent txindexOld))"

text \<open>One transaction: the queue, the fees and the signature operations so far.\<close>

definition connect_tx ::
  "ext \<Rightarrow> env \<Rightarrow> conn \<Rightarrow> CTransaction \<Rightarrow> CDiskTxPos \<Rightarrow> testpool \<Rightarrow> u64 \<Rightarrow> nat \<Rightarrow> sigcache \<Rightarrow>
    (testpool \<times> u64 \<times> nat) outcome \<times> CTransaction \<times> sigcache" where
  "connect_tx E N K tx posThisTx queued nFees nSigOps c =
     (let hashTx = GetHash E tx in
      if cBIP30 K \<and> \<not> bip30_ok (cDB K) hashTx then (Refuse 0, tx, c)
      else
      let nSigOps = nSigOps + GetLegacySigOpCount tx in
      if nSigOps > MAX_BLOCK_SIGOPS then (Refuse 100, tx, c)
      else if IsCoinBase tx
      then (Ok (AList.update hashTx (new_CTxIndex posThisTx (length (vout tx))) queued, nFees, nSigOps), tx, c)
      else
        (case FetchInputs (cFiles K) (cDB K) (cPool K) queued True False tx Map.empty of
           ((ok, tx), mapInputs, fInvalid) \<Rightarrow>
             if \<not> ok then (Refuse 0, tx, c)
             else
               (case (if cStrict K then map_option (\<lambda>k. nSigOps + k) (GetP2SHSigOpCount tx mapInputs)
                      else Some nSigOps) of
                  None \<Rightarrow> (Throw, tx, c)
                | Some nSigOps \<Rightarrow>
                    if nSigOps > MAX_BLOCK_SIGOPS then (Refuse 100, tx, c)
                    else
                      (case (GetValueIn tx mapInputs, GetValueOut tx) of
                         (Some nIn, Some nOut) \<Rightarrow>
                           let nFees = nFees + (nIn - nOut) in
                           (case ConnectInputs E N tx mapInputs queued posThisTx (cIndex K) (cBestHeight K)
                                   True False (cStrict K) c of
                              (None, queued, c) \<Rightarrow> (Throw, tx, c)
                            | (Some (ok, tx), queued, c) \<Rightarrow>
                                if \<not> ok then (Refuse 0, tx, c)
                                else (Ok (AList.update hashTx (new_CTxIndex posThisTx (length (vout tx))) queued,
                                          nFees, nSigOps), tx, c))
                       | _ \<Rightarrow> (Throw, tx, c)))))"

text \<open>The loop, with the position of the next transaction; the result has the transactions back.\<close>

fun connect_txs ::
  "ext \<Rightarrow> env \<Rightarrow> conn \<Rightarrow> CTransaction list \<Rightarrow> u32 \<Rightarrow> testpool \<Rightarrow> u64 \<Rightarrow> nat \<Rightarrow> sigcache \<Rightarrow>
    (testpool \<times> u64) outcome \<times> CTransaction list \<times> sigcache" where
  "connect_txs E N K [] nTxPos queued nFees nSigOps c = (Ok (queued, nFees), [], c)"
| "connect_txs E N K (tx # r) nTxPos queued nFees nSigOps c =
     (let posThisTx = \<lparr>dFile = iFile (hd (cIndex K)), dBlockPos = iBlockPos (hd (cIndex K)), dTxPos = nTxPos\<rparr>;
          nTxPos = (if cJustCheck K then nTxPos else nTxPos + word_of_nat (size_CTransaction tx))
      in case connect_tx E N K tx posThisTx queued nFees nSigOps c of
           (Ok (queued, nFees, nSigOps), tx, c) \<Rightarrow>
             (case connect_txs E N K r nTxPos queued nFees nSigOps c of (res, r, c) \<Rightarrow> (res, tx # r, c))
         | (Refuse d, tx, c) \<Rightarrow> (Refuse d, tx # r, c)
         | (Throw, tx, c) \<Rightarrow> (Throw, tx # r, c))"

text \<open>Two blocks of the Bitcoin chain are exempt from the rule above; a block that is being built has no
  hash yet.\<close>

definition fEnforceBIP30 :: "int \<Rightarrow> uint256 option \<Rightarrow> bool" where
  "fEnforceBIP30 nHeight phashBlock \<longleftrightarrow>
     phashBlock = None \<or>
     \<not> ((nHeight = 91842 \<and>
          phashBlock = Some 0x00000000000a4d0a398161ffc163c503763b1f4360639393e0e4c8e300e0caec) \<or>
        (nHeight = 91880 \<and>
          phashBlock = Some 0x00000000000743f190a18c5577a3c2d2a1f610ae9601ac046a38084ccb7cd721))"

definition nBIP16SwitchTime :: int where
  "nBIP16SwitchTime = 1333238400"

fun update_all :: "testpool \<Rightarrow> CTxDB \<Rightarrow> bool \<times> CTxDB" where
  "update_all [] db = (True, db)"
| "update_all ((h, x) # r) db =
     (case UpdateTxIndex h x db of (ok, db) \<Rightarrow> if \<not> ok then (False, db) else update_all r db)"

text \<open>\<open>None\<close> is an exception or a failed assertion. The callbacks of the wallet are left out.\<close>

definition ConnectBlock ::
  "ext \<Rightarrow> bnlib \<Rightarrow> env \<Rightarrow> files \<Rightarrow> txpool \<Rightarrow> int \<Rightarrow> CBlockIndex list \<Rightarrow> uint256 option \<Rightarrow> bool \<Rightarrow> CBlock \<Rightarrow>
    CTxDB \<Rightarrow> sigcache \<Rightarrow> (bool \<times> CBlock) option \<times> CTxDB \<times> sigcache" where
  "ConnectBlock E B N files mapTx nBestHeight pindex phashBlock fJustCheck b db c =
     (case CheckBlock E B N (\<not> fJustCheck) (\<not> fJustCheck) b of
        (ok, b) \<Rightarrow>
          if \<not> ok then (Some (False, b), db, c)
          else
            let tip = hd pindex;
                nTxPos = (if fJustCheck then 1
                          else iBlockPos tip + word_of_nat (size_CBlock CBlock_SetNull) - 1 +
                               word_of_nat (GetSizeOfCompactSize (length (vtx b))));
                K = \<lparr>cFiles = files, cDB = db, cPool = mapTx, cIndex = pindex, cBestHeight = nBestHeight,
                     cBIP30 = fEnforceBIP30 (iHeight tip) phashBlock,
                     cStrict = uint (iTime tip) \<ge> nBIP16SwitchTime, cJustCheck = fJustCheck\<rparr>
            in case connect_txs E N K (vtx b) nTxPos [] 0 0 c of
                 (Throw, txs, c) \<Rightarrow> (None, db, c)
               | (Refuse d, txs, c) \<Rightarrow> (Some (CBlock_DoS (b\<lparr>vtx := txs\<rparr>) d False), db, c)
               | (Ok (queued, nFees), txs, c) \<Rightarrow>
                   let b = b\<lparr>vtx := txs\<rparr> in
                   (case (GetValueOut (hd (vtx b)), GetProofOfWorkReward (fTestNet N) (iHeight tip) (sint nFees)) of
                      (Some nOut, Some reward) \<Rightarrow>
                        if sint nOut > reward then (Some (False, b), db, c)
                        else if fJustCheck then (Some (True, b), db, c)
                        else
                          (case update_all (sort_key fst queued) db of
                             (ok, db) \<Rightarrow>
                               if \<not> ok then (Some (False, b), db, c)
                               else if tl pindex \<noteq> []
                               then (case WriteBlockIndex E (CDiskBlockIndex_of (tl pindex) (the phashBlock)) db of
                                       (ok, db) \<Rightarrow> (Some (ok, b), db, c))
                               else (Some (True, b), db, c))
                    | _ \<Rightarrow> (None, db, c)))"

end
