(* ===== verification/LedgerSpec.thy ===== *)
theory LedgerSpec
  imports Ledger
begin

text \<open>
  What connecting blocks means. The index is abstracted to the set of unspent outputs; a transaction
  takes its inputs from the set and puts its outputs in. The lemmas carry one input, one
  transaction, the loop over the block, and the writing of the queue to the database.
\<close>

section \<open>Unspent outputs\<close>

type_synonym txindex = "uint256 \<rightharpoonup> CTxIndex"

definition utxo :: "txindex \<Rightarrow> COutPoint set" where
  "utxo V = {p. \<exists>x. V (prev_hash p) = Some x \<and> unat (prev_n p) < length (vSpent x) \<and>
     CDiskTxPos_IsNull (vSpent x ! unat (prev_n p))}"

definition ins :: "CTransaction \<Rightarrow> COutPoint list" where
  "ins tx = (if IsCoinBase tx then [] else map prevout (vin tx))"

definition outs :: "ext \<Rightarrow> CTransaction \<Rightarrow> COutPoint set" where
  "outs E tx = {p. prev_hash p = GetHash E tx \<and> unat (prev_n p) < length (vout tx)}"

text \<open>The abstract ledger: no transaction takes an output that is not there, or one twice.\<close>

definition apply_tx :: "ext \<Rightarrow> CTransaction \<Rightarrow> COutPoint set \<Rightarrow> COutPoint set option" where
  "apply_tx E tx U =
     (if set (ins tx) \<subseteq> U \<and> distinct (ins tx) then Some (U - set (ins tx) \<union> outs E tx) else None)"

fun apply_txs :: "ext \<Rightarrow> CTransaction list \<Rightarrow> COutPoint set \<Rightarrow> COutPoint set option" where
  "apply_txs E [] U = Some U"
| "apply_txs E (tx # r) U =
     (case apply_tx E tx U of None \<Rightarrow> None | Some U \<Rightarrow> apply_txs E r U)"

text \<open>The index as the queue of a block overlays it.\<close>

definition overlay :: "CTxDB \<Rightarrow> testpool \<Rightarrow> txindex" where
  "overlay db queued = dbTx (view db) ++ map_of queued"

lemma overlay_Nil [simp]: "overlay db [] = dbTx (view db)"
  by (simp add: overlay_def)

lemma overlay_update [simp]: "overlay db (AList.update h x queued) = (overlay db queued)(h \<mapsto> x)"
  by (simp add: overlay_def update_conv')

lemma overlay_None: "map_of queued h = None \<Longrightarrow> overlay db queued h = ReadTxIndex db h"
  by (simp add: overlay_def ReadTxIndex_def map_add_def)

lemma overlay_Some: "map_of queued h = Some x \<Longrightarrow> overlay db queued h = Some x"
  by (simp add: overlay_def)

section \<open>One input\<close>

lemma outpoint_eq: "p = q \<longleftrightarrow> prev_hash p = prev_hash q \<and> unat (prev_n p) = unat (prev_n q)"
  by (cases p; cases q) (simp add: word_unat_eq_iff)

lemma utxo_spend:
  assumes "V (prev_hash p) = Some x" "unat (prev_n p) < length (vSpent x)" "\<not> CDiskTxPos_IsNull q"
  shows "utxo (V(prev_hash p \<mapsto> x\<lparr>vSpent := (vSpent x)[unat (prev_n p) := q]\<rparr>)) = utxo V - {p}"
  using assms by (auto simp: utxo_def outpoint_eq nth_list_update)

lemma utxo_new:
  assumes "\<And>p. p \<in> utxo V \<Longrightarrow> prev_hash p \<noteq> GetHash E tx"
  shows "utxo (V(GetHash E tx \<mapsto> new_CTxIndex q (length (vout tx)))) = utxo V \<union> outs E tx"
proof -
  have "CDiskTxPos_IsNull CDiskTxPos_SetNull" by (simp add: CDiskTxPos_IsNull_def CDiskTxPos_SetNull_def)
  then show ?thesis using assms by (auto simp: utxo_def outs_def new_CTxIndex_def)
qed

text \<open>The inputs as fetched agree with the index.\<close>

definition inputs_from :: "txindex \<Rightarrow> MapPrevTx \<Rightarrow> bool" where
  "inputs_from V inputs \<longleftrightarrow> (\<forall>h x p. inputs h = Some (x, p) \<longrightarrow> V h = Some x)"

lemma fetch_prev_block:
  "fetch_prev files db mapTx queued True m h = Some (x, p) \<Longrightarrow>
     overlay db queued h = Some x \<and>
     (CTransaction_ReadFromDisk files (pos x) = Some p \<or> pos x = \<lparr>dFile = 1, dBlockPos = 1, dTxPos = 1\<rparr>)"
  by (cases "map_of queued h")
    (auto simp: fetch_prev_def read_prev_def overlay_None overlay_Some split: option.splits if_splits)

lemma FetchInputs_loop_True:
  "FetchInputs_loop f vs inp = (True, inp') \<Longrightarrow> inp' h = Some e \<Longrightarrow> inp h = Some e \<or> f h = Some e"
proof (induction f vs inp rule: FetchInputs_loop.induct)
  case (2 f txin r inp)
  let ?h = "prev_hash (prevout txin)"
  show ?case
  proof (cases "inp ?h")
    case None
    then obtain e' where e: "f ?h = Some e'" "FetchInputs_loop f r (inp(?h \<mapsto> e')) = (True, inp')"
      using "2.prems" by (auto simp: Let_def split: option.splits)
    have "(inp(?h \<mapsto> e')) h = Some e \<or> f h = Some e"
      using "2.IH"(2) [of ?h e'] None e "2.prems"(2) by (simp del: fun_upd_apply)
    with e(1) show ?thesis by (auto split: if_splits)
  next
    case (Some e')
    with "2.prems" "2.IH"(1) [of ?h] show ?thesis by (auto simp: Let_def)
  qed
qed auto

lemma FetchInputs_block:
  assumes "FetchInputs files db mapTx queued True m tx Map.empty = ((True, tx'), inputs, bad)" "\<not> IsCoinBase tx"
  shows "tx' = tx" "inputs_from (overlay db queued) inputs"
    "list_all (prevout_in_range inputs) (vin tx)"
    "\<And>h x p. inputs h = Some (x, p) \<Longrightarrow>
       CTransaction_ReadFromDisk files (pos x) = Some p \<or> pos x = \<lparr>dFile = 1, dBlockPos = 1, dTxPos = 1\<rparr>"
proof -
  have f: "FetchInputs_loop (fetch_prev files db mapTx queued True m) (vin tx) Map.empty = (True, inputs)"
    "\<not> list_ex (\<lambda>txin. \<not> prevout_in_range inputs txin) (vin tx)" and t: "tx' = tx"
    using assms by (auto simp: FetchInputs_def DoS_def split: prod.splits bool.splits if_splits)
  show "tx' = tx" by (rule t)
  have *: "fetch_prev files db mapTx queued True m h = Some (x, p)" if "inputs h = Some (x, p)" for h x p
    using FetchInputs_loop_True [OF f(1) that] by simp
  show "inputs_from (overlay db queued) inputs"
    using * fetch_prev_block by (fastforce simp: inputs_from_def)
  show "list_all (prevout_in_range inputs) (vin tx)"
    using f(2) by (simp add: list_ex_iff list_all_iff)
  show "CTransaction_ReadFromDisk files (pos x) = Some p \<or> pos x = \<lparr>dFile = 1, dBlockPos = 1, dTxPos = 1\<rparr>"
    if "inputs h = Some (x, p)" for h x p
    using * [OF that] fetch_prev_block by blast
qed

section \<open>One transaction\<close>

text \<open>What the second loop leaves alone: the positions, the number of outputs.\<close>

definition same_shape :: "txindex \<Rightarrow> txindex \<Rightarrow> bool" where
  "same_shape V W \<longleftrightarrow> (\<forall>h. map_option (\<lambda>x. (pos x, length (vSpent x))) (V h) =
     map_option (\<lambda>x. (pos x, length (vSpent x))) (W h))"

lemma same_shape_refl: "same_shape V V"
  by (simp add: same_shape_def)

lemma same_shape_trans: "same_shape U V \<Longrightarrow> same_shape V W \<Longrightarrow> same_shape U W"
  by (simp add: same_shape_def)

lemma same_shape_spend:
  "V h = Some x \<Longrightarrow> same_shape V (V(h \<mapsto> x\<lparr>vSpent := (vSpent x)[n := q]\<rparr>))"
  by (simp add: same_shape_def)

lemma connect_spend_utxo:
  assumes "connect_spend E tx skip True strict q vs i inputs queued c = (Ok u, queued', c')"
    "inputs_from (overlay db queued) inputs" "\<not> CDiskTxPos_IsNull q"
  shows "set (map prevout vs) \<subseteq> utxo (overlay db queued) \<and> distinct (map prevout vs) \<and>
    utxo (overlay db queued') = utxo (overlay db queued) - set (map prevout vs) \<and>
    same_shape (overlay db queued) (overlay db queued')"
  using assms(1,2)
proof (induction vs arbitrary: i inputs queued c)
  case (Cons txin r)
  let ?p = "prevout txin" and ?V = "overlay db queued"
  obtain x txPrev where i: "inputs (prev_hash ?p) = Some (x, txPrev)"
    using Cons.prems(1) by (auto split: option.splits)
  have V: "?V (prev_hash ?p) = Some x" using Cons.prems(2) i by (simp add: inputs_from_def)
  let ?x = "x\<lparr>vSpent := (vSpent x)[unat (prev_n ?p) := q]\<rparr>"
  let ?queued = "AList.update (prev_hash ?p) ?x queued"
  from Cons.prems(1) i obtain c1 where
    n: "unat (prev_n ?p) < length (vSpent x)" "CDiskTxPos_IsNull (vSpent x ! unat (prev_n ?p))" and
    r: "connect_spend E tx skip True strict q r (i + 1) (inputs(prev_hash ?p \<mapsto> (?x, txPrev))) ?queued c1 =
      (Ok u, queued', c')"
    by (auto simp: Let_def split: option.splits if_splits prod.splits)
  have new: "inputs_from (overlay db ?queued) (inputs(prev_hash ?p \<mapsto> (?x, txPrev)))"
    using Cons.prems(2) by (simp add: inputs_from_def)
  have u: "utxo (overlay db ?queued) = utxo ?V - {?p}"
    using utxo_spend [of ?V ?p x q] V n(1) assms(3) by simp
  have "?p \<in> utxo ?V" using V n by (auto simp: utxo_def)
  moreover have "same_shape ?V (overlay db ?queued)"
    using same_shape_spend [of ?V "prev_hash ?p" x] V by simp
  moreover note IH = Cons.IH [OF r new]
  ultimately have "same_shape ?V (overlay db queued')"
    using same_shape_trans [of ?V "overlay db ?queued"] by blast
  moreover have IH': "set (map prevout r) \<subseteq> utxo ?V - {?p}" "distinct (map prevout r)"
    "utxo (overlay db queued') = utxo ?V - {?p} - set (map prevout r)"
    using IH unfolding u by blast+
  moreover have "?p \<notin> set (map prevout r)" using IH'(1) by blast
  ultimately show ?case
    using \<open>?p \<in> utxo ?V\<close> Diff_insert2 [of "utxo ?V" ?p "set (map prevout r)"]
    by (simp only: list.map list.set distinct.simps) blast
qed (simp add: same_shape_refl)

lemma ConnectInputs_True:
  assumes "ConnectInputs E N tx inputs queued q pindex best True m strict c = (Some (True, tx'), queued', c')"
    "\<not> IsCoinBase tx"
  obtains nValueIn c1 u where "tx' = tx" "connect_check N pindex (vin tx) inputs 0 = Ok nValueIn"
    "connect_spend E tx (best < GetTotalBlocksEstimate (fTestNet N)) True strict q (vin tx) 0 inputs queued c =
      (Ok u, queued', c')"
    "check_fee tx nValueIn = Some (True, tx)"
proof -
  have no: "refuse tx d \<noteq> Some (True, t)" for d t by (simp add: refuse_def DoS_def)
  obtain nValueIn where v: "connect_check N pindex (vin tx) inputs 0 = Ok nValueIn"
    using assms no by (auto simp: ConnectInputs_def split: outcome.splits)
  obtain u where s: "connect_spend E tx (best < GetTotalBlocksEstimate (fTestNet N)) True strict q (vin tx) 0 inputs queued c =
      (Ok u, queued', c')" and f: "check_fee tx nValueIn = Some (True, tx')"
    using assms no v by (auto simp: ConnectInputs_def split: outcome.splits prod.splits)
  have "tx' = tx" using f no by (auto simp: check_fee_def Let_def split: option.splits if_splits)
  with v s f that show thesis by blast
qed

lemma connect_tx_Ok:
  assumes "connect_tx E N K tx q queued nFees nSigOps c = (Ok (queued', nFees', nSigOps'), tx', c')"
  obtains (coin) "IsCoinBase tx" "tx' = tx" "nFees' = nFees" "cBIP30 K \<longrightarrow> bip30_ok (cDB K) (GetHash E tx)"
      "queued' = AList.update (GetHash E tx) (new_CTxIndex q (length (vout tx))) queued"
    | (spend) inputs bad nIn nOut queued1 where "\<not> IsCoinBase tx" "tx' = tx"
      "cBIP30 K \<longrightarrow> bip30_ok (cDB K) (GetHash E tx)"
      "FetchInputs (cFiles K) (cDB K) (cPool K) queued True False tx Map.empty = ((True, tx), inputs, bad)"
      "GetValueIn tx inputs = Some nIn" "GetValueOut tx = Some nOut" "nFees' = nFees + (nIn - nOut)"
      "ConnectInputs E N tx inputs queued q (cIndex K) (cBestHeight K) True False (cStrict K) c =
        (Some (True, tx), queued1, c')"
      "queued' = AList.update (GetHash E tx) (new_CTxIndex q (length (vout tx))) queued1"
proof -
  have bip: "cBIP30 K \<longrightarrow> bip30_ok (cDB K) (GetHash E tx)"
    using assms by (auto simp: connect_tx_def Let_def split: if_splits)
  show thesis
  proof (cases "IsCoinBase tx")
    case True
    with assms bip show thesis
      by (intro coin) (auto simp: connect_tx_def Let_def split: if_splits)
  next
    case False
    obtain ok t inputs bad where
      f: "FetchInputs (cFiles K) (cDB K) (cPool K) queued True False tx Map.empty = ((ok, t), inputs, bad)"
      by (metis surj_pair)
    have ok: "ok" using assms False f by (auto simp: connect_tx_def Let_def split: if_splits)
    with f have f': "FetchInputs (cFiles K) (cDB K) (cPool K) queued True False tx Map.empty = ((True, t), inputs, bad)"
      by simp
    then have t: "t = tx" using FetchInputs_block(1) False by blast
    obtain nIn nOut where v: "GetValueIn tx inputs = Some nIn" "GetValueOut tx = Some nOut"
      using assms False f ok t
      by (auto simp: connect_tx_def Let_def split: if_splits option.splits)
    obtain o1 queued1 c1 where
      c1: "ConnectInputs E N tx inputs queued q (cIndex K) (cBestHeight K) True False (cStrict K) c = (o1, queued1, c1)"
      by (metis surj_pair)
    have o1: "o1 = Some (True, tx') \<and> c1 = c'"
    proof (cases o1)
      case None
      with assms False f ok t v c1 show ?thesis
        by (simp add: connect_tx_def Let_def split: if_splits option.splits)
    next
      case (Some o2)
      obtain r t2 where o2: "o2 = (r, t2)" by fastforce
      from assms False f ok t v c1 Some o2 show ?thesis
        by (cases r) (auto simp: connect_tx_def Let_def split: if_splits option.splits)
    qed
    with c1 have tx': "tx' = tx"
      using ConnectInputs_True [of E N tx inputs queued q "cIndex K" "cBestHeight K" False "cStrict K" c tx'] False
      by blast
    from assms False f ok t v c1 o1 tx'
    have "nFees' = nFees + (nIn - nOut)"
      "queued' = AList.update (GetHash E tx) (new_CTxIndex q (length (vout tx))) queued1"
      by (auto simp: connect_tx_def Let_def split: if_splits option.splits)
    then show thesis
      using spend [OF False tx' bip _ v] f' t c1 o1 tx' by simp
  qed
qed

lemma connect_tx_apply:
  assumes "connect_tx E N K tx q queued nFees nSigOps c = (Ok (queued', nFees', nSigOps'), tx', c')"
    "\<not> CDiskTxPos_IsNull q"
    "\<And>p. p \<in> utxo (overlay (cDB K) queued) \<Longrightarrow> prev_hash p \<noteq> GetHash E tx"
  shows "apply_tx E tx (utxo (overlay (cDB K) queued)) = Some (utxo (overlay (cDB K) queued'))"
  using assms(1)
proof (cases rule: connect_tx_Ok)
  case coin
  then show ?thesis
    using utxo_new [OF assms(3), where q = q]
    by (simp add: apply_tx_def ins_def)
next
  case (spend inputs bad nIn nOut queued1)
  note F = FetchInputs_block [OF spend(4,1)]
  obtain v c1 u where "connect_spend E tx (cBestHeight K < GetTotalBlocksEstimate (fTestNet N)) True (cStrict K) q (vin tx) 0
      inputs queued c = (Ok u, queued1, c')"
    using ConnectInputs_True [OF spend(8,1)] by metis
  note S = connect_spend_utxo [OF this F(2) assms(2)]
  have "utxo ((overlay (cDB K) queued1)(GetHash E tx \<mapsto> new_CTxIndex q (length (vout tx)))) =
      utxo (overlay (cDB K) queued1) \<union> outs E tx"
    by (rule utxo_new) (use S assms(3) in blast)
  then show ?thesis
    using S spend(1,9) by (simp add: apply_tx_def ins_def)
qed

section \<open>The block\<close>

lemma outs_hash: "p \<in> outs E tx \<Longrightarrow> prev_hash p = GetHash E tx"
  by (simp add: outs_def)

lemma bip30_spent: "bip30_ok db h \<Longrightarrow> p \<in> utxo (dbTx (view db)) \<Longrightarrow> prev_hash p \<noteq> h"
  by (auto simp: bip30_ok_def utxo_def ReadTxIndex_def list_ex_length split: option.splits)

lemma connect_txs_Ok:
  assumes "connect_txs E N K (tx # r) nTxPos queued nFees nSigOps c = (Ok (queued', nFees'), vs', c')"
  obtains queued1 nFees1 nSigOps1 tx' c1 r' where
    "connect_tx E N K tx \<lparr>dFile = iFile (hd (cIndex K)), dBlockPos = iBlockPos (hd (cIndex K)), dTxPos = nTxPos\<rparr>
       queued nFees nSigOps c = (Ok (queued1, nFees1, nSigOps1), tx', c1)"
    "connect_txs E N K r (if cJustCheck K then nTxPos else nTxPos + word_of_nat (size_CTransaction tx))
       queued1 nFees1 nSigOps1 c1 = (Ok (queued', nFees'), r', c')"
    "vs' = tx' # r'"
  using assms by (auto simp: Let_def split: outcome.splits prod.splits)

text \<open>Unspent outputs with the identifier of a transaction still to come stem from the database.\<close>

definition old_outs :: "ext \<Rightarrow> CTxDB \<Rightarrow> testpool \<Rightarrow> CTransaction list \<Rightarrow> bool" where
  "old_outs E db queued vs \<longleftrightarrow>
     (\<forall>p \<in> utxo (overlay db queued). prev_hash p \<in> set (map (GetHash E) vs) \<longrightarrow> p \<in> utxo (dbTx (view db)))"

lemma connect_tx_fresh:
  assumes "connect_tx E N K tx q queued nFees nSigOps c = (Ok (queued', nFees', nSigOps'), tx', c')"
    "cBIP30 K" "old_outs E (cDB K) queued (tx # r)" "p \<in> utxo (overlay (cDB K) queued)"
  shows "prev_hash p \<noteq> GetHash E tx"
proof -
  have "bip30_ok (cDB K) (GetHash E tx)"
    using assms(1,2) by (cases rule: connect_tx_Ok) auto
  then show ?thesis using assms(3,4) bip30_spent [of "cDB K" "GetHash E tx" p] by (auto simp: old_outs_def)
qed

lemma old_outs_step:
  assumes "apply_tx E tx (utxo (overlay db queued)) = Some (utxo (overlay db queued'))"
    "old_outs E db queued (tx # r)" "distinct (map (GetHash E) (tx # r))"
  shows "old_outs E db queued' r"
  unfolding old_outs_def
proof (intro ballI impI)
  fix p assume p: "p \<in> utxo (overlay db queued')" "prev_hash p \<in> set (map (GetHash E) r)"
  have "GetHash E tx \<notin> set (map (GetHash E) r)" using assms(3) by simp
  with p(2) outs_hash [of p E tx] have "p \<notin> outs E tx" by metis
  then have "p \<in> utxo (overlay db queued)"
    using assms(1) p(1) by (auto simp: apply_tx_def split: if_splits)
  then show "p \<in> utxo (dbTx (view db))" using assms(2) p(2) by (simp add: old_outs_def)
qed

lemma connect_txs_apply:
  assumes "connect_txs E N K vs nTxPos queued nFees nSigOps c = (Ok (queued', nFees'), vs', c')"
    "iFile (hd (cIndex K)) \<noteq> - 1" "cBIP30 K" "distinct (map (GetHash E) vs)" "old_outs E (cDB K) queued vs"
  shows "apply_txs E vs (utxo (overlay (cDB K) queued)) = Some (utxo (overlay (cDB K) queued'))"
  using assms(1,4,5)
proof (induction vs arbitrary: nTxPos queued nFees nSigOps c vs')
  case (Cons tx r)
  let ?q = "\<lparr>dFile = iFile (hd (cIndex K)), dBlockPos = iBlockPos (hd (cIndex K)), dTxPos = nTxPos\<rparr>"
  obtain queued1 nFees1 nSigOps1 tx' c1 r' n where
    1: "connect_tx E N K tx ?q queued nFees nSigOps c = (Ok (queued1, nFees1, nSigOps1), tx', c1)" and
    2: "connect_txs E N K r n queued1 nFees1 nSigOps1 c1 = (Ok (queued', nFees'), r', c')"
    using connect_txs_Ok [OF Cons.prems(1)] by metis
  have null: "\<not> CDiskTxPos_IsNull ?q" using assms(2) by (simp add: CDiskTxPos_IsNull_def)
  note A = connect_tx_apply [OF 1 null connect_tx_fresh [OF 1 assms(3) Cons.prems(3)]]
  have "distinct (map (GetHash E) r)" using Cons.prems(2) by simp
  from Cons.IH [OF 2 this old_outs_step [OF A Cons.prems(3,2)]] A show ?case by simp
qed simp

lemma connect_txs_bip30:
  "connect_txs E N K vs nTxPos queued nFees nSigOps c = (Ok (queued', nFees'), vs', c') \<Longrightarrow> cBIP30 K \<Longrightarrow>
     h \<in> set (map (GetHash E) vs) \<Longrightarrow> bip30_ok (cDB K) h"
proof (induction vs arbitrary: nTxPos queued nFees nSigOps c vs')
  case (Cons tx r)
  obtain queued1 nFees1 nSigOps1 tx' c1 r' n q where
    1: "connect_tx E N K tx q queued nFees nSigOps c = (Ok (queued1, nFees1, nSigOps1), tx', c1)" and
    2: "connect_txs E N K r n queued1 nFees1 nSigOps1 c1 = (Ok (queued', nFees'), r', c')"
    using connect_txs_Ok [OF Cons.prems(1)] by metis
  have "bip30_ok (cDB K) (GetHash E tx)" using 1 Cons.prems(2) by (cases rule: connect_tx_Ok) auto
  with Cons.IH [OF 2 Cons.prems(2)] Cons.prems(3) show ?case by auto
qed simp

section \<open>Writing the queue\<close>

lemma db_write_True: "db_write f db = (True, db') \<longleftrightarrow> 0 < room db \<and> db' = db\<lparr>view := f (view db), room := room db - 1\<rparr>"
  by (auto simp: db_write_def)

lemma update_all_True:
  "update_all xs db = (True, db') \<Longrightarrow> dbTx (view db') = dbTx (view db) ++ map_of (rev xs)"
proof (induction xs arbitrary: db)
  case (Cons e r)
  obtain h x where e: "e = (h, x)" by fastforce
  obtain ok db1 where u: "UpdateTxIndex h x db = (ok, db1)" by fastforce
  with Cons.prems e have ok: "ok" "update_all r db1 = (True, db')" by (auto split: if_splits)
  with u have "dbTx (view db1) = (dbTx (view db))(h \<mapsto> x)" by (simp add: UpdateTxIndex_def db_write_True)
  moreover have "dbTx (view db) ++ map_of (rev r @ [(h, x)]) = (dbTx (view db))(h \<mapsto> x) ++ map_of (rev r)"
    by (rule ext) (simp add: map_add_def split: option.split)
  ultimately show ?case using Cons.IH [OF ok(2)] by (simp only: e rev.simps)
qed simp

lemma sort_key_map_of:
  assumes "distinct (map fst xs)"
  shows "map_of (rev (sort_key fst xs)) = map_of xs"
proof -
  have "distinct (map fst (sort_key fst xs))" using assms by (simp add: distinct_map)
  then have "distinct (map fst (rev (sort_key fst xs)))" by (simp add: rev_map [symmetric])
  then show ?thesis using assms by (simp add: map_of_inject_set)
qed

lemma connect_spend_distinct:
  "connect_spend E tx skip wr strict q vs i inputs queued c = (res, queued', c') \<Longrightarrow>
     distinct (map fst queued) \<Longrightarrow> distinct (map fst queued')"
proof (induction vs arbitrary: i inputs queued c)
  case (Cons txin r)
  then show ?case
    by (auto simp: Let_def distinct_update split: option.splits if_splits prod.splits)
qed simp

lemma connect_tx_distinct:
  assumes "connect_tx E N K tx q queued nFees nSigOps c = (Ok (queued', nFees', nSigOps'), tx', c')"
    "distinct (map fst queued)"
  shows "distinct (map fst queued')"
  using assms(1)
proof (cases rule: connect_tx_Ok)
  case coin
  then show ?thesis using assms(2) by (simp add: distinct_update)
next
  case (spend inputs bad nIn nOut queued1)
  then have "distinct (map fst queued1)"
    using ConnectInputs_True [OF spend(8,1)] connect_spend_distinct assms(2) by metis
  with spend(9) show ?thesis by (simp add: distinct_update)
qed

lemma connect_txs_distinct:
  "connect_txs E N K vs nTxPos queued nFees nSigOps c = (Ok (queued', nFees'), vs', c') \<Longrightarrow>
     distinct (map fst queued) \<Longrightarrow> distinct (map fst queued')"
proof (induction vs arbitrary: nTxPos queued nFees nSigOps c vs')
  case (Cons tx r)
  obtain queued1 nFees1 nSigOps1 tx' c1 r' q n where
    1: "connect_tx E N K tx q queued nFees nSigOps c = (Ok (queued1, nFees1, nSigOps1), tx', c1)" and
    2: "connect_txs E N K r n queued1 nFees1 nSigOps1 c1 = (Ok (queued', nFees'), r', c')"
    using connect_txs_Ok [OF Cons.prems(1)] by metis
  show ?case by (rule Cons.IH [OF 2 connect_tx_distinct [OF 1 Cons.prems(2)]])
qed simp

lemma connect_txs_same:
  "connect_txs E N K vs nTxPos queued nFees nSigOps c = (Ok res, vs', c') \<Longrightarrow> vs' = vs"
proof (induction vs arbitrary: nTxPos queued nFees nSigOps c vs')
  case (Cons tx r)
  obtain queued' nFees' where res: "res = (queued', nFees')" by fastforce
  obtain queued1 nFees1 nSigOps1 tx' c1 r' q n where
    1: "connect_tx E N K tx q queued nFees nSigOps c = (Ok (queued1, nFees1, nSigOps1), tx', c1)" and
    2: "connect_txs E N K r n queued1 nFees1 nSigOps1 c1 = (Ok (queued', nFees'), r', c')" "vs' = tx' # r'"
    using connect_txs_Ok [OF Cons.prems [unfolded res]] by metis
  have "tx' = tx" using 1 by (cases rule: connect_tx_Ok) simp_all
  with Cons.IH 2 res show ?case by simp
qed simp

lemma WriteBlockIndex_dbTx: "dbTx (view (snd (WriteBlockIndex E d db))) = dbTx (view db)"
  by (simp add: WriteBlockIndex_def db_write_def)

lemma ConnectBlock_True:
  assumes "ConnectBlock E B N files mapTx best pindex hash False b db c = (Some (True, b'), db', c')"
  obtains K n queued nFees nOut reward where
    "fst (CheckBlock E B N True True b)"
    "K = \<lparr>cFiles = files, cDB = db, cPool = mapTx, cIndex = pindex, cBestHeight = best,
         cBIP30 = fEnforceBIP30 (iHeight (hd pindex)) hash,
         cStrict = uint (iTime (hd pindex)) \<ge> nBIP16SwitchTime, cJustCheck = False\<rparr>"
    "n = iBlockPos (hd pindex) + word_of_nat (size_CBlock CBlock_SetNull) - 1 +
       word_of_nat (GetSizeOfCompactSize (length (vtx b)))"
    "connect_txs E N K (vtx b) n [] 0 0 c = (Ok (queued, nFees), vtx b, c')"
    "GetValueOut (hd (vtx b)) = Some nOut"
    "GetProofOfWorkReward (fTestNet N) (iHeight (hd pindex)) (sint nFees) = Some reward" "sint nOut \<le> reward"
    "dbTx (view db') = dbTx (view db) ++ map_of queued"
proof -
  obtain ok b1 where k: "CheckBlock E B N True True b = (ok, b1)" by fastforce
  have ok: "ok" using assms k by (auto simp: ConnectBlock_def split: if_splits)
  with k have k': "fst (CheckBlock E B N True True b)" and b1: "vtx b1 = vtx b"
    using CheckBlock_fields [of E B N True True b] by simp_all
  define K where "K = \<lparr>cFiles = files, cDB = db, cPool = mapTx, cIndex = pindex, cBestHeight = best,
         cBIP30 = fEnforceBIP30 (iHeight (hd pindex)) hash,
         cStrict = uint (iTime (hd pindex)) \<ge> nBIP16SwitchTime, cJustCheck = False\<rparr>"
  define n where "n = iBlockPos (hd pindex) + word_of_nat (size_CBlock CBlock_SetNull) - 1 +
       word_of_nat (GetSizeOfCompactSize (length (vtx b)))"
  obtain res vs c1 where t: "connect_txs E N K (vtx b) n [] 0 0 c = (res, vs, c1)" by (metis surj_pair)
  have rest: "(case (res, vs, c1) of
                 (Throw, vs, c) \<Rightarrow> (None, db, c)
               | (Refuse d, vs, c) \<Rightarrow> (Some (CBlock_DoS (b1\<lparr>vtx := vs\<rparr>) d False), db, c)
               | (Ok (queued, nFees), vs, c) \<Rightarrow>
                   (case (GetValueOut (hd vs), GetProofOfWorkReward (fTestNet N) (iHeight (hd pindex)) (sint nFees)) of
                      (Some nOut, Some reward) \<Rightarrow>
                        if sint nOut > reward then (Some (False, b1\<lparr>vtx := vs\<rparr>), db, c)
                        else if False then (Some (True, b1\<lparr>vtx := vs\<rparr>), db, c)
                        else
                          (case update_all (sort_key fst queued) db of
                             (ok, db) \<Rightarrow>
                               if \<not> ok then (Some (False, b1\<lparr>vtx := vs\<rparr>), db, c)
                               else if tl pindex \<noteq> []
                               then (case WriteBlockIndex E (CDiskBlockIndex_of (tl pindex) (the hash)) db of
                                       (ok, db) \<Rightarrow> (Some (ok, b1\<lparr>vtx := vs\<rparr>), db, c))
                               else (Some (True, b1\<lparr>vtx := vs\<rparr>), db, c))
                    | _ \<Rightarrow> (None, db, c))) = (Some (True, b'), db', c')"
    using assms t k ok b1 unfolding ConnectBlock_def K_def n_def by (cases res) (auto simp: Let_def)
  obtain queued nFees where res: "res = Ok (queued, nFees)"
    using rest by (cases res) (auto simp: CBlock_DoS_def)
  have vs: "vs = vtx b" using connect_txs_same [OF t [unfolded res]] .
  obtain nOut where nOut: "GetValueOut (hd (vtx b)) = Some nOut"
    using rest by (cases "GetValueOut (hd (vtx b))") (simp_all add: res vs)
  obtain reward where reward: "GetProofOfWorkReward (fTestNet N) (iHeight (hd pindex)) (sint nFees) = Some reward"
    using rest by (cases "GetProofOfWorkReward (fTestNet N) (iHeight (hd pindex)) (sint nFees)")
      (simp_all add: res vs nOut)
  obtain ok2 db2 where u: "update_all (sort_key fst queued) db = (ok2, db2)" by fastforce
  have limit: "sint nOut \<le> reward" using rest by (auto simp: res vs nOut reward split: if_splits)
  have ok2: "ok2" using rest by (cases ok2) (auto simp: res vs nOut reward u split: if_splits)
  have c: "c1 = c'" and "dbTx (view db') = dbTx (view db2)"
    using rest WriteBlockIndex_dbTx [of E "CDiskBlockIndex_of (tl pindex) (the hash)" db2]
    by (auto simp: res vs nOut reward u ok2 split: if_splits prod.splits)
  moreover have "distinct (map fst queued)" using connect_txs_distinct [OF t [unfolded res]] by simp
  ultimately have "dbTx (view db') = dbTx (view db) ++ map_of queued"
    using update_all_True [of "sort_key fst queued" db db2] u ok2 by (simp add: sort_key_map_of)
  with that [OF k' K_def n_def _ nOut reward limit] t show thesis by (simp add: res vs c)
qed

lemma connect_block_apply:
  assumes "ConnectBlock E B N files mapTx best pindex hash False b db c = (Some (True, b'), db', c')"
    "fEnforceBIP30 (iHeight (hd pindex)) hash" "iFile (hd pindex) \<noteq> - 1"
  shows "apply_txs E (vtx b) (utxo (dbTx (view db))) = Some (utxo (dbTx (view db')))"
proof -
  obtain K n queued nFees nOut reward where
    K: "K = \<lparr>cFiles = files, cDB = db, cPool = mapTx, cIndex = pindex, cBestHeight = best,
         cBIP30 = fEnforceBIP30 (iHeight (hd pindex)) hash,
         cStrict = uint (iTime (hd pindex)) \<ge> nBIP16SwitchTime, cJustCheck = False\<rparr>" and
    ok: "fst (CheckBlock E B N True True b)" and
    t: "connect_txs E N K (vtx b) n [] 0 0 c = (Ok (queued, nFees), vtx b, c')" and
    d: "dbTx (view db') = dbTx (view db) ++ map_of queued"
    using ConnectBlock_True [OF assms(1)] by metis
  have "apply_txs E (vtx b) (utxo (overlay (cDB K) [])) = Some (utxo (overlay (cDB K) queued))"
    using assms ok by (intro connect_txs_apply [OF t]) (simp_all add: K CheckBlock_iff block_ok_def old_outs_def)
  then show ?thesis by (simp add: K overlay_def d)
qed

text \<open>C4: Connecting a block implements the abstract ledger: whenever ConnectBlock succeeds and writes to
  the database, the unspent outputs of the new index are those of the old one with the transactions
  of the block applied in their order, where each takes only outputs that are there, each at most
  once, and puts in its own. So nothing is spent twice, within the block or across blocks, nothing
  else appears or is lost, and the writing order of the queue does not matter.\<close>

theorem connect_block_refines:
  assumes "ConnectBlock E B N files mapTx best pindex hash False b db c = (Some (True, b'), db', c')"
    "fEnforceBIP30 (iHeight (hd pindex)) hash" "iFile (hd pindex) \<noteq> - 1"
  shows "apply_txs E (vtx b) (utxo (dbTx (view db))) = Some (utxo (dbTx (view db')))"
  by (rule connect_block_apply [OF assms])

end
