(* ===== verification/Supply.thy ===== *)
theory Supply
  imports LedgerSpec
begin

text \<open>
  The value of the unspent outputs. Every index entry points at a transaction on the disk; the value
  of an output is read there. Connecting a block adds at most the block reward.
\<close>

section \<open>Coins\<close>

lemma finite_outpoints [simp]: "finite (S :: COutPoint set)"
proof (rule finite_subset)
  show "S \<subseteq> (\<lambda>(h, n). COutPoint h n) ` (UNIV :: (uint256 \<times> u32) set)"
  proof
    fix p assume "p \<in> S"
    show "p \<in> (\<lambda>(h, n). COutPoint h n) ` (UNIV :: (uint256 \<times> u32) set)"
      by (cases p) (metis case_prod_conv rangeI)
  qed
  show "finite ((\<lambda>(h, n). COutPoint h n) ` (UNIV :: (uint256 \<times> u32) set))"
    by (rule finite_imageI) (rule finite)
qed

definition txout_value :: "CTransaction \<Rightarrow> nat \<Rightarrow> int" where
  "txout_value tx n = (if n < length (vout tx) then sint (nValue (vout tx ! n)) else 0)"

definition coin :: "files \<Rightarrow> txindex \<Rightarrow> COutPoint \<Rightarrow> int" where
  "coin files V p =
     (case V (prev_hash p) of None \<Rightarrow> 0
      | Some x \<Rightarrow> (case CTransaction_ReadFromDisk files (pos x) of None \<Rightarrow> 0
         | Some tx \<Rightarrow> txout_value tx (unat (prev_n p))))"

definition money :: "files \<Rightarrow> txindex \<Rightarrow> int" where
  "money files V = sum (coin files V) (utxo V)"

definition index_ok :: "files \<Rightarrow> txindex \<Rightarrow> bool" where
  "index_ok files V \<longleftrightarrow>
     (\<forall>h x. V h = Some x \<longrightarrow> pos x \<noteq> \<lparr>dFile = 1, dBlockPos = 1, dTxPos = 1\<rparr> \<and>
        (\<exists>tx. CTransaction_ReadFromDisk files (pos x) = Some tx \<and> GetValueOut tx \<noteq> None \<and>
           length (vSpent x) = length (vout tx)))"

lemma index_okD:
  assumes "index_ok files V" "V h = Some x"
  obtains tx where "CTransaction_ReadFromDisk files (pos x) = Some tx" "GetValueOut tx \<noteq> None"
    "length (vSpent x) = length (vout tx)" "pos x \<noteq> \<lparr>dFile = 1, dBlockPos = 1, dTxPos = 1\<rparr>"
  using assms unfolding index_ok_def by blast

lemma GetValueOut_values:
  assumes "GetValueOut tx = Some v"
  shows "list_all (\<lambda>t. MoneyRange (sint (nValue t))) (vout tx)" "MoneyRange (sint v)"
    "sint v = sum_list (map (\<lambda>t. sint (nValue t)) (vout tx))"
  using assms GetValueOut_loop_Some [of 0 "vout tx" v] by (auto simp: GetValueOut_def MoneyRange_def)

lemma coin_nonneg: "index_ok files V \<Longrightarrow> 0 \<le> coin files V p"
proof -
  assume ok: "index_ok files V"
  show ?thesis
  proof (cases "V (prev_hash p)")
    case (Some x)
    obtain tx v where t: "CTransaction_ReadFromDisk files (pos x) = Some tx" "GetValueOut tx = Some v"
      using index_okD [OF ok Some] by blast
    from GetValueOut_values(1) [OF t(2)] t(1) Some show ?thesis
      by (simp add: coin_def txout_value_def list_all_length MoneyRange_def)
  qed (simp add: coin_def)
qed

lemma money_nonneg: "index_ok files V \<Longrightarrow> 0 \<le> money files V"
  by (simp add: money_def sum_nonneg coin_nonneg)

lemma same_shapeE:
  assumes "same_shape V W"
  obtains "V h = None" "W h = None"
    | x y where "V h = Some x" "W h = Some y" "pos x = pos y" "length (vSpent x) = length (vSpent y)"
proof -
  have "map_option (\<lambda>x. (pos x, length (vSpent x))) (V h) = map_option (\<lambda>x. (pos x, length (vSpent x))) (W h)"
    using assms by (simp add: same_shape_def)
  then show thesis using that by (cases "V h"; cases "W h") simp_all
qed

lemma coin_shape:
  assumes "same_shape V W"
  shows "coin files V = coin files W"
proof
  fix p
  from assms show "coin files V p = coin files W p"
    by (cases rule: same_shapeE [where h = "prev_hash p"]) (simp_all add: coin_def)
qed

lemma index_ok_shape:
  assumes "index_ok files V" "same_shape V W"
  shows "index_ok files W"
  unfolding index_ok_def
proof (intro allI impI)
  fix h y assume y: "W h = Some y"
  from assms(2) show "pos y \<noteq> \<lparr>dFile = 1, dBlockPos = 1, dTxPos = 1\<rparr> \<and>
        (\<exists>tx. CTransaction_ReadFromDisk files (pos y) = Some tx \<and> GetValueOut tx \<noteq> None \<and>
           length (vSpent y) = length (vout tx))"
  proof (cases rule: same_shapeE [where h = h])
    case (2 x z)
    obtain tx where "CTransaction_ReadFromDisk files (pos x) = Some tx" "GetValueOut tx \<noteq> None"
      "length (vSpent x) = length (vout tx)" "pos x \<noteq> \<lparr>dFile = 1, dBlockPos = 1, dTxPos = 1\<rparr>"
      using index_okD [OF assms(1) 2(1)] by metis
    with 2 y show ?thesis by auto
  qed (simp add: y)
qed

section \<open>Values of the inputs\<close>

lemma connect_check_value:
  assumes "connect_check N pindex vs inputs v0 = Ok v" "MoneyRange (sint v0)"
    "inputs_from V inputs" "index_ok files V"
    "\<And>h x p. inputs h = Some (x, p) \<Longrightarrow>
       CTransaction_ReadFromDisk files (pos x) = Some p \<or> pos x = \<lparr>dFile = 1, dBlockPos = 1, dTxPos = 1\<rparr>"
  shows "MoneyRange (sint v) \<and> sint v = sint v0 + sum_list (map (coin files V \<circ> prevout) vs) \<and>
    GetValueIn_loop vs inputs v0 = Some v"
  using assms(1,2)
proof (induction vs arbitrary: v0)
  case (Cons txin r)
  let ?p = "prevout txin" and ?n = "unat (prev_n (prevout txin))"
  obtain x txPrev where i: "inputs (prev_hash ?p) = Some (x, txPrev)"
    using Cons.prems(1) by (auto split: option.splits)
  have V: "V (prev_hash ?p) = Some x" using i assms(3) by (simp add: inputs_from_def)
  have d: "CTransaction_ReadFromDisk files (pos x) = Some txPrev"
    using assms(5) [OF i] index_okD [OF assms(4) V] by metis
  let ?v = "nValue (vout txPrev ! ?n)"
  have n: "?n < length (vout txPrev)" and m: "MoneyRange (sint ?v)" "MoneyRange (sint (v0 + ?v))" and
    r: "connect_check N pindex r inputs (v0 + ?v) = Ok v"
    using Cons.prems(1) i by (auto simp: Let_def split: if_splits)
  have c: "coin files V ?p = sint ?v" using V d n by (simp add: coin_def txout_value_def)
  have o': "GetOutputFor txin inputs = Some (vout txPrev ! ?n)" using i n by (simp add: GetOutputFor_def)
  note IH = Cons.IH [OF r m(2)]
  have "GetValueIn_loop (txin # r) inputs v0 = Some v" using IH o' by simp
  moreover have "sint v = sint v0 + sum_list (map (coin files V \<circ> prevout) (txin # r))"
    using IH c sint_add_small [OF Cons.prems(2) m(1)] by (simp add: comp_def)
  ultimately show ?case using IH by blast
qed simp

section \<open>One transaction\<close>

lemma outs_image:
  assumes "length (vout tx) < 2 ^ 32"
  shows "outs E tx = (\<lambda>n. COutPoint (GetHash E tx) (word_of_nat n)) ` {0..<length (vout tx)}"
    "inj_on (\<lambda>n. COutPoint (GetHash E tx) (word_of_nat n)) {0..<length (vout tx)}"
proof -
  have u: "unat (word_of_nat n :: u32) = n" if "n < length (vout tx)" for n
    using that assms by (simp add: unat_of_nat)
  show "inj_on (\<lambda>n. COutPoint (GetHash E tx) (word_of_nat n)) {0..<length (vout tx)}"
    using u by (intro inj_onI) (metis COutPoint.inject atLeastLessThan_iff)
  have "p \<in> (\<lambda>n. COutPoint (GetHash E tx) (word_of_nat n)) ` {0..<length (vout tx)}" if "p \<in> outs E tx" for p
    using that by (intro image_eqI [where x = "unat (prev_n p)"]) (cases p, auto simp: outs_def)
  moreover have "COutPoint (GetHash E tx) (word_of_nat n) \<in> outs E tx" if "n < length (vout tx)" for n
    using that u by (simp add: outs_def)
  ultimately show "outs E tx = (\<lambda>n. COutPoint (GetHash E tx) (word_of_nat n)) ` {0..<length (vout tx)}" by auto
qed

lemma money_outs:
  assumes "length (vout tx) < 2 ^ 32" "V (GetHash E tx) = Some x" "CTransaction_ReadFromDisk files (pos x) = Some t"
    "vout t = vout tx"
  shows "sum (coin files V) (outs E tx) = sum_list (map (\<lambda>t. sint (nValue t)) (vout tx))"
proof -
  have "unat (word_of_nat n :: u32) = n" if "n < length (vout tx)" for n
    using that assms(1) by (simp add: unat_of_nat)
  then have "coin files V (COutPoint (GetHash E tx) (word_of_nat n)) = sint (nValue (vout tx ! n))"
    if "n < length (vout tx)" for n
    using that assms(2-4) by (simp add: coin_def txout_value_def)
  then show ?thesis
    by (simp add: outs_image [OF assms(1)] sum.reindex [OF outs_image(2) [OF assms(1)]] sum_list_sum_nth)
qed

lemma index_ok_new:
  assumes "index_ok files V" "CTransaction_ReadFromDisk files q = Some t" "vout t = vout tx"
    "GetValueOut tx \<noteq> None" "q \<noteq> \<lparr>dFile = 1, dBlockPos = 1, dTxPos = 1\<rparr>"
  shows "index_ok files (V(h \<mapsto> new_CTxIndex q (length (vout tx))))"
  using assms by (auto simp: index_ok_def new_CTxIndex_def GetValueOut_def)

text \<open>Adding the outputs of a transaction whose identifier is not in use.\<close>

lemma money_new:
  assumes "\<And>p. p \<in> utxo V \<Longrightarrow> prev_hash p \<noteq> GetHash E tx" "length (vout tx) < 2 ^ 32"
    "CTransaction_ReadFromDisk files q = Some t" "vout t = vout tx"
  shows "money files (V(GetHash E tx \<mapsto> new_CTxIndex q (length (vout tx)))) =
    money files V + sum_list (map (\<lambda>t. sint (nValue t)) (vout tx))"
proof -
  let ?V = "V(GetHash E tx \<mapsto> new_CTxIndex q (length (vout tx)))"
  have d: "utxo V \<inter> outs E tx = {}" using assms(1) outs_hash by blast
  have same: "coin files ?V p = coin files V p" if "p \<in> utxo V" for p
    using assms(1) [OF that] by (simp add: coin_def)
  have "utxo ?V = utxo V \<union> outs E tx" by (rule utxo_new) (rule assms(1))
  then have "money files ?V = sum (coin files ?V) (utxo V) + sum (coin files ?V) (outs E tx)"
    using sum.union_disjoint [OF _ _ d] by (simp add: money_def)
  moreover have "sum (coin files ?V) (utxo V) = money files V"
    unfolding money_def using same by (intro sum.cong) simp_all
  moreover have "sum (coin files ?V) (outs E tx) = sum_list (map (\<lambda>t. sint (nValue t)) (vout tx))"
    using assms(3,4)
    by (intro money_outs [OF assms(2), where x = "new_CTxIndex q (length (vout tx))" and t = t])
      (simp_all add: new_CTxIndex_def)
  ultimately show ?thesis by simp
qed

lemma check_fee_True:
  assumes "check_fee tx v = Some (True, tx)" "GetValueOut tx = Some v'" "MoneyRange (sint v)"
  shows "sint v' \<le> sint v" "v - v' = word_of_int (sint v - sint v')"
proof -
  show "sint v' \<le> sint v"
    using assms(1,2) by (auto simp: check_fee_def refuse_def DoS_def Let_def split: if_splits)
  show "v - v' = word_of_int (sint v - sint v')"
    by (simp add: wi_hom_sub [symmetric])
qed

lemma connect_tx_money:
  assumes "connect_tx E N K tx q queued nFees nSigOps c = (Ok (queued', nFees', nSigOps'), tx', c')"
    "\<not> CDiskTxPos_IsNull q" "\<And>p. p \<in> utxo (overlay (cDB K) queued) \<Longrightarrow> prev_hash p \<noteq> GetHash E tx"
    "index_ok (cFiles K) (overlay (cDB K) queued)" "CTransaction_ReadFromDisk (cFiles K) q = Some t" "vout t = vout tx"
    "q \<noteq> \<lparr>dFile = 1, dBlockPos = 1, dTxPos = 1\<rparr>" "GetValueOut tx = Some v" "length (vout tx) < 2 ^ 32"
  shows "index_ok (cFiles K) (overlay (cDB K) queued')"
    "\<exists>fee. 0 \<le> fee \<and> nFees' = nFees + word_of_int fee \<and>
       money (cFiles K) (overlay (cDB K) queued') + fee =
         money (cFiles K) (overlay (cDB K) queued) + (if IsCoinBase tx then sint v else 0)"
proof -
  let ?f = "cFiles K" and ?V = "overlay (cDB K)"
  have new: "index_ok ?f (W(h \<mapsto> new_CTxIndex q (length (vout tx))))" if "index_ok ?f W" for W h
    using index_ok_new [OF that assms(5,6)] assms(7,8) by simp
  note vout = GetValueOut_values(3) [OF assms(8)]
  from assms(1) have "index_ok ?f (?V queued') \<and> (\<exists>fee. 0 \<le> fee \<and> nFees' = nFees + word_of_int fee \<and>
       money ?f (?V queued') + fee = money ?f (?V queued) + (if IsCoinBase tx then sint v else 0))"
  proof (cases rule: connect_tx_Ok)
    case coin
    then show ?thesis
      using new assms(4) money_new [OF assms(3,9,5,6)] by (intro conjI exI [of _ 0]) (simp_all add: vout)
  next
    case (spend inputs bad nIn nOut queued1)
    note F = FetchInputs_block [OF spend(4,1)]
    obtain w c1 u where s: "connect_spend E tx (cBestHeight K < GetTotalBlocksEstimate (fTestNet N)) True (cStrict K) q
        (vin tx) 0 inputs queued c = (Ok u, queued1, c')" and
      w: "connect_check N (cIndex K) (vin tx) inputs 0 = Ok w" and f: "check_fee tx w = Some (True, tx)"
      using ConnectInputs_True [OF spend(8,1)] by metis
    note S = connect_spend_utxo [OF s F(2) assms(2)]
    have C: "MoneyRange (sint w) \<and> sint w = sint (0 :: u64) + sum_list (map (coin ?f (?V queued) \<circ> prevout) (vin tx)) \<and>
        GetValueIn_loop (vin tx) inputs 0 = Some w"
      by (rule connect_check_value [OF w _ F(2) assms(4) F(4)]) (simp_all add: MoneyRange_def)
    have nIn: "nIn = w" "MoneyRange (sint w)" "sint w = sum_list (map (coin ?f (?V queued) \<circ> prevout) (vin tx))"
    proof -
      show "nIn = w" using C spend(1,5) by (simp add: GetValueIn_def)
      show "MoneyRange (sint w)" using C by blast
      show "sint w = sum_list (map (coin ?f (?V queued) \<circ> prevout) (vin tx))" using C by simp
    qed
    have nOut: "nOut = v" using spend(6) assms(8) by simp
    note fee = check_fee_True [OF f assms(8) nIn(2)]
    have "money ?f (?V queued1) = sum (coin ?f (?V queued)) (utxo (?V queued) - set (map prevout (vin tx)))"
      using S coin_shape [of "?V queued" "?V queued1"] by (simp add: money_def)
    also have "\<dots> = money ?f (?V queued) - sum (coin ?f (?V queued)) (set (map prevout (vin tx)))"
      unfolding money_def using S by (intro sum_diff) simp_all
    also have "sum (coin ?f (?V queued)) (set (map prevout (vin tx))) = sint w"
      using S nIn(3) by (simp add: sum.distinct_set_conv_list del: set_map)
    finally have m1: "money ?f (?V queued1) = money ?f (?V queued) - sint w" .
    have fresh: "prev_hash p \<noteq> GetHash E tx" if "p \<in> utxo (?V queued1)" for p
      using that S assms(3) by blast
    have m2: "money ?f (?V queued') = money ?f (?V queued1) + sint v"
      unfolding spend(9) overlay_update vout by (rule money_new [OF fresh assms(9,5,6)])
    show ?thesis
    proof (intro conjI exI [of _ "sint w - sint v"])
      have "index_ok ?f (?V queued1)" using index_ok_shape [OF assms(4)] S by blast
      then show "index_ok ?f (?V queued')" unfolding spend(9) overlay_update by (rule new)
      show "0 \<le> sint w - sint v" using fee(1) by simp
      show "nFees' = nFees + word_of_int (sint w - sint v)" unfolding spend(7) nIn(1) nOut fee(2) ..
      show "money ?f (?V queued') + (sint w - sint v) =
          money ?f (?V queued) + (if IsCoinBase tx then sint v else 0)"
        unfolding if_not_P [OF spend(1)] m2 m1 by linarith
    qed
  qed
  then show "index_ok ?f (?V queued')" "\<exists>fee. 0 \<le> fee \<and> nFees' = nFees + word_of_int fee \<and>
       money ?f (?V queued') + fee = money ?f (?V queued) + (if IsCoinBase tx then sint v else 0)" by blast+
qed

section \<open>The block\<close>

lemma connect_txs_money:
  assumes "connect_txs E N K vs nTxPos queued nFees nSigOps c = (Ok (queued', nFees'), vs', c')"
    "cBIP30 K" "distinct (map (GetHash E) vs)" "old_outs E (cDB K) queued vs"
    "\<not> cJustCheck K" "stored_at (cFiles K) (iFile (hd (cIndex K))) (iBlockPos (hd (cIndex K))) b"
    "vtx b = before @ vs"
    "nTxPos = dTxPos (tx_pos (iFile (hd (cIndex K))) (iBlockPos (hd (cIndex K))) (length (vtx b)) before)"
    "list_all (\<lambda>tx. GetValueOut tx \<noteq> None \<and> tx_fits tx) vs" "index_ok (cFiles K) (overlay (cDB K) queued)"
  shows "index_ok (cFiles K) (overlay (cDB K) queued') \<and>
    (\<exists>fees. 0 \<le> fees \<and> nFees' = nFees + word_of_int fees \<and>
       money (cFiles K) (overlay (cDB K) queued') + fees = money (cFiles K) (overlay (cDB K) queued) +
         sum_list (map (\<lambda>tx. if IsCoinBase tx then sint (the (GetValueOut tx)) else 0) vs))"
  using assms(1,3,4,7-10)
proof (induction vs arbitrary: nTxPos queued nFees nSigOps c vs' before)
  case Nil
  then show ?case by (auto intro!: exI [of _ 0])
next
  case (Cons tx r)
  let ?f = "cFiles K" and ?V = "overlay (cDB K)"
  let ?q = "tx_pos (iFile (hd (cIndex K))) (iBlockPos (hd (cIndex K))) (length (vtx b)) before"
  have q: "?q = \<lparr>dFile = iFile (hd (cIndex K)), dBlockPos = iBlockPos (hd (cIndex K)), dTxPos = nTxPos\<rparr>"
    using Cons.prems(5) by (simp add: tx_pos_def)
  obtain queued1 nFees1 nSigOps1 tx' c1 r' where
    1: "connect_tx E N K tx ?q queued nFees nSigOps c = (Ok (queued1, nFees1, nSigOps1), tx', c1)" and
    2: "connect_txs E N K r (nTxPos + word_of_nat (size_CTransaction tx)) queued1 nFees1 nSigOps1 c1 =
      (Ok (queued', nFees'), r', c')"
    using connect_txs_Ok [OF Cons.prems(1), unfolded if_not_P [OF assms(5)], folded q] by metis
  have null: "\<not> CDiskTxPos_IsNull ?q" using assms(6) by (simp add: q CDiskTxPos_IsNull_def stored_at_def)
  have fits: "tx_fits tx" and len: "length (vout tx) < 2 ^ 32"
    using Cons.prems(6) by (auto simp: tx_fits_def MAX_SIZE_def)
  obtain v where v: "GetValueOut tx = Some v" using Cons.prems(6) by auto
  have far: "?q \<noteq> \<lparr>dFile = 1, dBlockPos = 1, dTxPos = 1\<rparr>"
    using tx_pos_offset [OF assms(6) Cons.prems(4)] by auto
  note fresh = connect_tx_fresh [OF 1 assms(2) Cons.prems(3)]
  note A = connect_tx_apply [OF 1 null fresh]
  note M = connect_tx_money [OF 1 null fresh Cons.prems(7) stored_tx [OF assms(6) Cons.prems(4) fits] _ far v len]
  obtain fee where fee: "0 \<le> fee" "nFees1 = nFees + word_of_int fee"
    "money ?f (?V queued1) + fee = money ?f (?V queued) + (if IsCoinBase tx then sint v else 0)"
    using M(2) by auto
  have "index_ok ?f (?V queued') \<and> (\<exists>fees. 0 \<le> fees \<and> nFees' = nFees1 + word_of_int fees \<and>
       money ?f (?V queued') + fees = money ?f (?V queued1) +
         sum_list (map (\<lambda>tx. if IsCoinBase tx then sint (the (GetValueOut tx)) else 0) r))"
  proof (rule Cons.IH [OF 2 _ old_outs_step [OF A Cons.prems(3,2)]])
    show "distinct (map (GetHash E) r)" using Cons.prems(2) by simp
    show "vtx b = (before @ [tx]) @ r" using Cons.prems(4) by simp
    show "nTxPos + word_of_nat (size_CTransaction tx) =
      dTxPos (tx_pos (iFile (hd (cIndex K))) (iBlockPos (hd (cIndex K))) (length (vtx b)) (before @ [tx]))"
      using Cons.prems(5) by (simp add: tx_pos_def add.assoc)
    show "list_all (\<lambda>tx. GetValueOut tx \<noteq> None \<and> tx_fits tx) r" using Cons.prems(6) by simp
    show "index_ok ?f (?V queued1)" using M(1) by simp
  qed
  then obtain fees where fees: "index_ok ?f (?V queued')" "0 \<le> fees" "nFees' = nFees1 + word_of_int fees"
    "money ?f (?V queued') + fees = money ?f (?V queued1) +
         sum_list (map (\<lambda>tx. if IsCoinBase tx then sint (the (GetValueOut tx)) else 0) r)" by blast
  have "money ?f (?V queued') + (fee + fees) = money ?f (?V queued) +
      sum_list (map (\<lambda>tx. if IsCoinBase tx then sint (the (GetValueOut tx)) else 0) (tx # r))"
    using fees(4) fee(3) v by (cases "IsCoinBase tx") simp_all
  moreover have "nFees' = nFees + word_of_int (fee + fees)"
    using fees(3) fee(2) by (simp add: add.assoc)
  ultimately show ?case using fees(1,2) fee(1) by (intro conjI exI [of _ "fee + fees"]) simp_all
qed

lemma reward_with_fees:
  assumes "0 \<le> h" "h < 64000000" "0 \<le> f" "f < 2 ^ 62"
  shows "GetProofOfWorkReward T h f = Some (the (GetProofOfWorkReward T h 0) + f)"
proof -
  let ?s = "(if (h \<ge> nForkThree \<and> h < nForkFour) \<or> (T \<and> h < nTestnetForkOne) then 25 * COIN else 50 * COIN)"
  have b: "0 \<le> x div 2 ^ n" "x div 2 ^ n \<le> x" if "0 \<le> x" for x :: int and n
    using that zdiv_mono2 [of x 1 "2 ^ n"] by (simp_all add: pos_imp_zdiv_nonneg_iff)
  have s: "0 \<le> ?s" "?s \<le> 5000000000" by (simp_all add: COIN_def)
  have w: "wrap64 (?s div 2 ^ nat (h div 1000000) + f) = ?s div 2 ^ nat (h div 1000000) + f"
    using b [OF s(1), of "nat (h div 1000000)"] s(2) assms(3,4) by (intro wrap64_id) simp_all
  have "0 \<le> h div 1000000" "h div 1000000 < 64" using assms by linarith+
  then have "GetProofOfWorkReward T h f = Some (wrap64 (?s div 2 ^ nat (h div 1000000) + f))"
    using assms(1) by (simp add: GetProofOfWorkReward_def Let_def sdiv_nonneg drop_bit_eq_div)
  then show ?thesis unfolding w reward_nonneg [OF assms(1,2)] option.sel .
qed

lemma GetValueOut_max: "GetValueOut tx = Some v \<Longrightarrow> 0 \<le> sint v \<and> sint v \<le> 1000000000000000"
  using GetValueOut_values(2) [of tx v] by (simp add: MoneyRange_def)

lemma no_coinbase_values:
  "list_all (\<lambda>tx. \<not> IsCoinBase tx) xs \<Longrightarrow> sum_list (map (\<lambda>tx. if IsCoinBase tx then f tx else 0) xs) = (0 :: int)"
  by (induction xs) simp_all

lemma coinbase_values:
  assumes "vs \<noteq> []" "IsCoinBase (hd vs)" "list_all (\<lambda>tx. \<not> IsCoinBase tx) (tl vs)"
  shows "sum_list (map (\<lambda>tx. if IsCoinBase tx then f tx else 0) vs) = (f (hd vs) :: int)"
  using assms no_coinbase_values [of "tl vs" f] by (cases vs) simp_all

text \<open>Connecting a stored block adds at most the block reward to the money.\<close>

lemma connect_block_money:
  assumes "ConnectBlock E B N files mapTx best pindex hash False b db c = (Some (True, b'), db', c')"
    "fEnforceBIP30 (iHeight (hd pindex)) hash" "stored_at files (iFile (hd pindex)) (iBlockPos (hd pindex)) b"
    "list_all tx_fits (vtx b)" "index_ok files (dbTx (view db))" "money files (dbTx (view db)) \<le> 2 ^ 61"
    "0 \<le> iHeight (hd pindex)" "iHeight (hd pindex) < 64000000"
  shows "index_ok files (dbTx (view db'))"
    "money files (dbTx (view db')) \<le>
       money files (dbTx (view db)) + the (GetProofOfWorkReward (fTestNet N) (iHeight (hd pindex)) 0)"
proof -
  obtain K n queued nFees nOut reward where ok: "fst (CheckBlock E B N True True b)" and
    K: "K = \<lparr>cFiles = files, cDB = db, cPool = mapTx, cIndex = pindex, cBestHeight = best,
         cBIP30 = fEnforceBIP30 (iHeight (hd pindex)) hash,
         cStrict = uint (iTime (hd pindex)) \<ge> nBIP16SwitchTime, cJustCheck = False\<rparr>" and
    n: "n = iBlockPos (hd pindex) + word_of_nat (size_CBlock CBlock_SetNull) - 1 +
       word_of_nat (GetSizeOfCompactSize (length (vtx b)))" and
    t: "connect_txs E N K (vtx b) n [] 0 0 c = (Ok (queued, nFees), vtx b, c')" and
    v: "GetValueOut (hd (vtx b)) = Some nOut"
      "GetProofOfWorkReward (fTestNet N) (iHeight (hd pindex)) (sint nFees) = Some reward" "sint nOut \<le> reward" and
    d: "dbTx (view db') = dbTx (view db) ++ map_of queued"
    using ConnectBlock_True [OF assms(1)] by metis
  note blk = ok [unfolded CheckBlock_iff block_ok_def]
  have vals: "list_all (\<lambda>tx. GetValueOut tx \<noteq> None \<and> tx_fits tx) (vtx b)"
    using blk assms(4) by (auto simp: list_all_iff CheckTransaction_iff)
  have n0: "n = dTxPos (tx_pos (iFile (hd pindex)) (iBlockPos (hd pindex)) (length (vtx b)) [])"
    by (simp add: n tx_pos_def size_CBlock_def CBlock_SetNull_def size_vec_def GetSizeOfCompactSize_def)
  have d': "dbTx (view db') = overlay (cDB K) queued" by (simp add: d K overlay_def)
  have "index_ok files (overlay (cDB K) queued) \<and>
    (\<exists>fees. 0 \<le> fees \<and> nFees = 0 + word_of_int fees \<and>
       money files (overlay (cDB K) queued) + fees = money files (dbTx (view db)) +
         sum_list (map (\<lambda>tx. if IsCoinBase tx then sint (the (GetValueOut tx)) else 0) (vtx b)))"
    using connect_txs_money [OF t, of b "[]"] assms(2,3,5) blk vals n0 by (simp add: K old_outs_def)
  then obtain fees where i: "index_ok files (dbTx (view db'))" and fees: "0 \<le> fees" "nFees = word_of_int fees" and
    m: "money files (dbTx (view db')) + fees = money files (dbTx (view db)) + sint nOut"
    using coinbase_values [of "vtx b" "\<lambda>tx. sint (the (GetValueOut tx))"] blk v(1) by (auto simp: d')
  show "index_ok files (dbTx (view db'))" by (rule i)
  have small: "fees < 2 ^ 62"
    using m money_nonneg [OF i] assms(6) GetValueOut_max [OF v(1)] by simp
  then have "sint nFees = fees"
    using fees by (simp add: sint_sbintrunc' signed_take_bit_int_eq_self_iff)
  then have "reward = the (GetProofOfWorkReward (fTestNet N) (iHeight (hd pindex)) 0) + fees"
    using v(2) reward_with_fees [OF assms(7,8) fees(1) small] by simp
  then show "money files (dbTx (view db')) \<le>
       money files (dbTx (view db)) + the (GetProofOfWorkReward (fTestNet N) (iHeight (hd pindex)) 0)"
    using m v(3) by linarith
qed

lemma coin_grows:
  assumes "grows f g" "index_ok f V" "V (prev_hash p) \<noteq> None"
  shows "coin g V p = coin f V p"
proof -
  obtain x where x: "V (prev_hash p) = Some x" using assms(3) by blast
  obtain tx where "CTransaction_ReadFromDisk f (pos x) = Some tx" using index_okD [OF assms(2) x] by metis
  then show ?thesis using ReadFromDisk_grows [OF assms(1)] x by (simp add: coin_def)
qed

lemma index_ok_grows:
  assumes "grows f g" "index_ok f V"
  shows "index_ok g V"
  using assms(2) ReadFromDisk_grows [OF assms(1)] unfolding index_ok_def by blast

lemma money_grows:
  assumes "grows f g" "index_ok f V"
  shows "money g V = money f V"
  unfolding money_def
  by (intro sum.cong refl coin_grows [OF assms]) (auto simp: utxo_def)

end
