(* ===== verification/Spend.thy ===== *)
theory Spend
  imports Templates
begin

text \<open>
  What it takes to spend the standard outputs: the interpreter run on the scripts the node builds,
  reduced to hash comparisons and signature checks.
\<close>

lemma eval_opcode_simps:
  "eval_opcode E tx i ht OP_DUP True pc s = op_shuffle OP_DUP s"
  "eval_opcode E tx i ht OP_DUPHYBRID True pc s = op_shuffle OP_DUPHYBRID s"
  "eval_opcode E tx i ht OP_HASHHYBRID160 True pc s = op_hashhybrid160 E s"
  "eval_opcode E tx i ht OP_HASH160 True pc s = op_hash E OP_HASH160 s"
  "eval_opcode E tx i ht OP_EQUALVERIFY True pc s = op_equal OP_EQUALVERIFY s"
  "eval_opcode E tx i ht OP_EQUAL True pc s = op_equal OP_EQUAL s"
  "eval_opcode E tx i ht OP_CHECKSIG True pc s = op_checksig E tx i ht OP_CHECKSIG s"
  "eval_opcode E tx i ht OP_CHECKHYBRIDSIG True pc s = op_checkhybridsig E tx i ht OP_CHECKHYBRIDSIG s"
  by (simp_all add: eval_opcode_def opcode_lists)

lemma op_not_disabled:
  "OP_DUP \<notin> set disabled_opcodes" "OP_DUPHYBRID \<notin> set disabled_opcodes"
  "OP_HASHHYBRID160 \<notin> set disabled_opcodes" "OP_HASH160 \<notin> set disabled_opcodes"
  "OP_EQUALVERIFY \<notin> set disabled_opcodes" "OP_EQUAL \<notin> set disabled_opcodes"
  "OP_CHECKSIG \<notin> set disabled_opcodes" "OP_CHECKHYBRIDSIG \<notin> set disabled_opcodes"
  by (simp_all add: disabled_opcodes_def)

lemma eval_push_20:
  assumes "length h = 20" "vfExec s = []" "length (stack s) + length (altstack s) < 1000"
  shows "eval_loop E tx i ht (20 # h @ rest) s = eval_loop E tx i ht rest (s\<lparr>stack := h # stack s\<rparr>)"
  using assms by (subst eval_push [OF GetOp2_20]) (simp_all add: MAX_SCRIPT_ELEMENT_SIZE_def)

lemma eval_DUP:
  assumes "vfExec s = []" "nOpCount s < 201" "stack s = x # st"
    "length st + length (altstack s) < 999"
  shows "eval_loop E tx i ht (OP_DUP # rest) s =
    eval_loop E tx i ht rest (s\<lparr>nOpCount := Suc (nOpCount s), stack := x # x # st\<rparr>)"
  using assms
  by (subst eval_op [OF _ op_not_disabled(1)]) (simp_all only: eval_opcode_simps,
      simp_all add: op_shuffle_def shuffle_def)

lemma eval_DUPHYBRID:
  assumes "vfExec s = []" "nOpCount s < 201" "stack s = ml # ec # st"
    "2 \<le> length st" "length st + length (altstack s) \<le> 996"
  shows "eval_loop E tx i ht (OP_DUPHYBRID # rest) s =
    eval_loop E tx i ht rest (s\<lparr>nOpCount := Suc (nOpCount s), stack := ml # ec # ml # ec # st\<rparr>)"
  using assms
  by (subst eval_op [OF _ op_not_disabled(2)]) (simp_all only: eval_opcode_simps,
      simp_all add: op_shuffle_def shuffle_def)

lemma eval_HASHHYBRID160:
  assumes "vfExec s = []" "nOpCount s < 201" "stack s = ml # ec # st"
    "2 \<le> length st" "length st + length (altstack s) < 1000"
  shows "eval_loop E tx i ht (OP_HASHHYBRID160 # rest) s =
    eval_loop E tx i ht rest
      (s\<lparr>nOpCount := Suc (nOpCount s), stack := mem (Hash160 E (ec @ ml)) # st\<rparr>)"
  using assms
  by (subst eval_op [OF _ op_not_disabled(3)]) (simp_all only: eval_opcode_simps,
      simp_all add: op_hashhybrid160_def Let_def)

lemma eval_HASH160:
  assumes "vfExec s = []" "nOpCount s < 201" "stack s = x # st"
    "length st + length (altstack s) < 1000"
  shows "eval_loop E tx i ht (OP_HASH160 # rest) s =
    eval_loop E tx i ht rest (s\<lparr>nOpCount := Suc (nOpCount s), stack := mem (Hash160 E x) # st\<rparr>)"
  using assms
  by (subst eval_op [OF _ op_not_disabled(4)]) (simp_all only: eval_opcode_simps,
      simp_all add: op_hash_def Let_def)

lemma eval_EQUALVERIFY:
  assumes "vfExec s = []" "nOpCount s < 201" "stack s = x # y # st"
    "length st + length (altstack s) \<le> 1000"
  shows "eval_loop E tx i ht (OP_EQUALVERIFY # rest) s =
    (if x = y then eval_loop E tx i ht rest (s\<lparr>nOpCount := Suc (nOpCount s), stack := st\<rparr>)
     else (False, s\<lparr>nOpCount := Suc (nOpCount s), stack := vchFalse # st\<rparr>))"
  using assms
  by (subst eval_op [OF _ op_not_disabled(5)]) (simp_all only: eval_opcode_simps,
      simp_all add: op_equal_def vchBool_def eq_commute [of x y])

lemma eval_EQUAL:
  assumes "vfExec s = []" "nOpCount s < 201" "stack s = x # y # st"
    "length st + length (altstack s) < 1000"
  shows "eval_loop E tx i ht (OP_EQUAL # rest) s =
    eval_loop E tx i ht rest (s\<lparr>nOpCount := Suc (nOpCount s), stack := vchBool (x = y) # st\<rparr>)"
  using assms
  by (subst eval_op [OF _ op_not_disabled(6)]) (simp_all only: eval_opcode_simps,
      simp_all add: op_equal_def eq_commute [of x y])

lemma eval_CHECKSIG:
  assumes "vfExec s = []" "nOpCount s < 201" "stack s = pk # sg # st"
    "length st + length (altstack s) < 1000"
    "CheckSig E sg pk (drop_sig sg (codehash s)) tx i ht None (sigs s) = (r, c)"
  shows "eval_loop E tx i ht (OP_CHECKSIG # rest) s =
    eval_loop E tx i ht rest
      (s\<lparr>nOpCount := Suc (nOpCount s), sigs := c, stack := vchBool r # st\<rparr>)"
  using assms
  by (subst eval_op [OF _ op_not_disabled(7)]) (simp_all only: eval_opcode_simps,
      simp_all add: op_checksig_def Let_def push_result_def)

lemma eval_CHECKHYBRIDSIG:
  assumes "vfExec s = []" "nOpCount s < 201" "stack s = pkML # pkEC # sgML # sgEC # st"
    "length st + length (altstack s) < 1000"
    "VerifyHybridSignature E sgEC sgML pkEC pkML (drop_sig sgML (drop_sig sgEC (codehash s))) tx i ht
       (sigs s) = (r, c)"
  shows "eval_loop E tx i ht (OP_CHECKHYBRIDSIG # rest) s =
    eval_loop E tx i ht rest
      (s\<lparr>nOpCount := Suc (nOpCount s), sigs := c, stack := vchBool r # st\<rparr>)"
  using assms
  by (subst eval_op [OF _ op_not_disabled(8)]) (simp_all only: eval_opcode_simps,
      simp_all add: op_checkhybridsig_def Let_def push_result_def)

text \<open>The same on explicit states, for the simplifier.\<close>

lemmas eval_steps =
  eval_DUP [where s = "\<lparr>stack = x # st, altstack = al, vfExec = [], nOpCount = n, codehash = cs, sigs = c0\<rparr>" for x st al n cs c0, simplified]
  eval_DUPHYBRID [where s = "\<lparr>stack = ml # ec # st, altstack = al, vfExec = [], nOpCount = n, codehash = cs, sigs = c0\<rparr>" for ml ec st al n cs c0, simplified]
  eval_HASHHYBRID160 [where s = "\<lparr>stack = ml # ec # st, altstack = al, vfExec = [], nOpCount = n, codehash = cs, sigs = c0\<rparr>" for ml ec st al n cs c0, simplified]
  eval_HASH160 [where s = "\<lparr>stack = x # st, altstack = al, vfExec = [], nOpCount = n, codehash = cs, sigs = c0\<rparr>" for x st al n cs c0, simplified]
  eval_EQUALVERIFY [where s = "\<lparr>stack = x # y # st, altstack = al, vfExec = [], nOpCount = n, codehash = cs, sigs = c0\<rparr>" for x y st al n cs c0, simplified]
  eval_EQUAL [where s = "\<lparr>stack = x # y # st, altstack = al, vfExec = [], nOpCount = n, codehash = cs, sigs = c0\<rparr>" for x y st al n cs c0, simplified]
  eval_CHECKSIG [where s = "\<lparr>stack = pk # sg # st, altstack = al, vfExec = [], nOpCount = n, codehash = cs, sigs = c0\<rparr>" for pk sg st al n cs c0, simplified]
  eval_CHECKHYBRIDSIG [where s = "\<lparr>stack = pkML # pkEC # sgML # sgEC # st, altstack = al, vfExec = [], nOpCount = n, codehash = cs, sigs = c0\<rparr>" for pkML pkEC sgML sgEC st al n cs c0, simplified]
  eval_push_20 [where s = "\<lparr>stack = st, altstack = al, vfExec = [], nOpCount = n, codehash = cs, sigs = c0\<rparr>" for st al n cs c0, simplified]

lemma CastToBool_vchBool [simp]: "CastToBool (vchBool b) = b"
  by (simp add: vchBool_def)

section \<open>The hash outputs\<close>

lemma hybrid_hash_script:
  "GetScriptForHybridPubKeyHash h =
     OP_DUPHYBRID # OP_HASHHYBRID160 # 20 # mem h @ [OP_EQUALVERIFY, OP_CHECKHYBRIDSIG]"
  by (simp add: GetScriptForHybridPubKeyHash_def dest_scripts push_enc_20 length_mem_uint160)

lemma hash_scripts_size:
  "length (GetScriptForHybridPubKeyHash h) \<le> MAX_SCRIPT_SIZE"
  "length (GetScriptForPubKeyHash h) \<le> MAX_SCRIPT_SIZE"
  "\<not> IsPayToScriptHash (GetScriptForHybridPubKeyHash h)"
  "\<not> IsPayToScriptHash (GetScriptForPubKeyHash h)"
  by (simp_all add: hybrid_hash_script GetScriptForPubKeyHash_def dest_scripts length_mem_uint160
      MAX_SCRIPT_SIZE_def IsPayToScriptHash_def)

lemma mem_uint160_eq: "mem (a :: uint160) = mem b \<longleftrightarrow> a = b"
  using of_mem_uint160 by metis

lemma EvalScript_P2HPKH:
  assumes "length st \<le> 900"
  shows "EvalScript E (pkML # pkEC # sgML # sgEC # st) (GetScriptForHybridPubKeyHash h) tx i ht c =
    (if Hash160 E (pkEC @ pkML) = h then
       (case VerifyHybridSignature E sgEC sgML pkEC pkML
          (drop_sig sgML (drop_sig sgEC (GetScriptForHybridPubKeyHash h))) tx i ht c of
          (r, c) \<Rightarrow> (True, vchBool r # st, c))
     else (False, vchFalse # pkML # pkEC # sgML # sgEC # st, c))"
proof -
  let ?spk = "GetScriptForHybridPubKeyHash h"
  obtain r c' where rc: "VerifyHybridSignature E sgEC sgML pkEC pkML
      (drop_sig sgML (drop_sig sgEC ?spk)) tx i ht c = (r, c')" by fastforce
  have "eval_loop E tx i ht ?spk (start ?spk (pkML # pkEC # sgML # sgEC # st) c) =
    (if mem h = mem (Hash160 E (pkEC @ pkML))
     then (True, \<lparr>stack = vchBool r # st, altstack = [], vfExec = [], nOpCount = 4, codehash = ?spk, sigs = c'\<rparr>)
     else (False, \<lparr>stack = vchFalse # pkML # pkEC # sgML # sgEC # st, altstack = [], vfExec = [],
        nOpCount = 3, codehash = ?spk, sigs = c\<rparr>))"
    using assms rc unfolding start_def
    by (subst (1) hybrid_hash_script) (simp add: eval_steps length_mem_uint160 eval_loop_Nil)
  then show ?thesis
    using rc hash_scripts_size(1) mem_uint160_eq [of h] by (auto simp: EvalScript_start)
qed

lemma EvalScript_P2PKH:
  assumes "length st \<le> 900"
  shows "EvalScript E (pk # sg # st) (GetScriptForPubKeyHash h) tx i ht c =
    (if Hash160 E pk = h then
       (case CheckSig E sg pk (drop_sig sg (GetScriptForPubKeyHash h)) tx i ht None c of
          (r, c) \<Rightarrow> (True, vchBool r # st, c))
     else (False, vchFalse # pk # sg # st, c))"
proof -
  let ?spk = "GetScriptForPubKeyHash h"
  have shape: "?spk = OP_DUP # OP_HASH160 # 20 # mem h @ [OP_EQUALVERIFY, OP_CHECKSIG]"
    by (simp add: GetScriptForPubKeyHash_def dest_scripts)
  obtain r c' where rc: "CheckSig E sg pk (drop_sig sg ?spk) tx i ht None c = (r, c')" by fastforce
  have "eval_loop E tx i ht ?spk (start ?spk (pk # sg # st) c) =
    (if mem h = mem (Hash160 E pk)
     then (True, \<lparr>stack = vchBool r # st, altstack = [], vfExec = [], nOpCount = 4, codehash = ?spk, sigs = c'\<rparr>)
     else (False, \<lparr>stack = vchFalse # pk # sg # st, altstack = [], vfExec = [],
        nOpCount = 3, codehash = ?spk, sigs = c\<rparr>))"
    using assms rc unfolding start_def
    by (subst (1) shape) (simp add: eval_steps length_mem_uint160 eval_loop_Nil)
  then show ?thesis
    using rc hash_scripts_size(2) mem_uint160_eq [of h] by (auto simp: EvalScript_start)
qed

lemma EvalScript_P2SH:
  assumes "IsPayToScriptHash spk" "length st \<le> 900"
  shows "EvalScript E st spk tx i ht c =
    (case st of [] \<Rightarrow> (False, [], c)
     | x # r \<Rightarrow> (True, vchBool (mem (Hash160 E x) = take 20 (drop 2 spk)) # r, c))"
proof -
  obtain h where h: "length h = 20" "spk = OP_HASH160 # 20 # h @ [OP_EQUAL]"
    using assms(1) unfolding IsPayToScriptHash_shape by auto
  have len: "length spk \<le> MAX_SCRIPT_SIZE" using h by (simp add: MAX_SCRIPT_SIZE_def)
  show ?thesis
  proof (cases st)
    case Nil
    have "eval_loop E tx i ht spk (start spk [] c) = (False, (start spk [] c)\<lparr>nOpCount := 1\<rparr>)"
      unfolding h(2)
      by (subst eval_op [OF _ op_not_disabled(4)])
        (simp_all add: start_def eval_opcode_simps [simplified] op_hash_def)
    then show ?thesis using Nil len by (simp add: EvalScript_start start_def)
  next
    case (Cons x r)
    have "eval_loop E tx i ht spk (start spk (x # r) c) =
      (True, \<lparr>stack = vchBool (h = mem (Hash160 E x)) # r, altstack = [], vfExec = [], nOpCount = 2,
         codehash = spk, sigs = c\<rparr>)"
      using assms(2) Cons unfolding start_def
      by (subst (1) h(2)) (simp add: eval_steps h(1) eval_loop_Nil)
    moreover have "take 20 (drop 2 spk) = h" using h by simp
    ultimately show ?thesis
      using Cons len by (simp add: EvalScript_start eq_commute [of h "mem (Hash160 E x)"])
  qed
qed

section \<open>Properties\<close>

lemma hybrid_pubkeyhash_spent:
  assumes "push_script_ok [sgEC, sgML, pkEC, pkML]" "cache_sound E c"
  shows "\<exists>c'. VerifyScript E (PushAll [sgEC, sgML, pkEC, pkML]) (SetDestination (CHybridKeyID h))
      tx i p2sh ht c =
    Some (HybridPubKey_GetID E (CHybridPubKey pkEC pkML) = h \<and>
      hybrid_valid E (drop_sig sgML (drop_sig sgEC (SetDestination (CHybridKeyID h)))) tx i ht
        sgEC sgML pkEC pkML, c') \<and> cache_sound E c'"
proof -
  have eq: "SetDestination (CHybridKeyID h) = GetScriptForHybridPubKeyHash h"
    by (simp add: hybrid_hash_script SetDestination_shape)
  let ?V = "VerifyHybridSignature E sgEC sgML pkEC pkML
    (drop_sig sgML (drop_sig sgEC (GetScriptForHybridPubKeyHash h))) tx i ht c"
  obtain r c' where V: "?V = (r, c')" by fastforce
  have "r = hybrid_valid E (drop_sig sgML (drop_sig sgEC (GetScriptForHybridPubKeyHash h))) tx i ht
      sgEC sgML pkEC pkML" "cache_sound E c'"
    using VerifyHybridSignature_iff [OF assms(2)] VerifyHybridSignature_sound [OF assms(2)] V
    by (metis fst_conv, metis snd_conv)
  moreover have np: "\<not> (p2sh \<and> IsPayToScriptHash (GetScriptForHybridPubKeyHash h))"
    using hash_scripts_size(3) by blast
  ultimately show ?thesis
    unfolding eq VerifyScript_PushAll [OF assms(1) np] using assms(2) V
    by (simp add: EvalScript_P2HPKH [of "[]", simplified] HybridPubKey_GetID_def
        HybridPubKey_Serialize_def)
qed

text \<open>C24: Spending a hybrid key hash output. An input script that pushes the two signatures and the
  two keys is accepted exactly when the keys are those of the address (their Hash160 is the hash in
  the output) and both signatures are valid for the transaction, over the output script with the
  pushes of the signatures removed: the ECDSA signature alone or the ML-DSA signature alone never
  spends it.\<close>

theorem spend_hybrid_pubkeyhash:
  assumes "push_script_ok [sgEC, sgML, pkEC, pkML]" "cache_sound E c"
  shows "\<exists>c'. VerifyScript E (PushAll [sgEC, sgML, pkEC, pkML]) (SetDestination (CHybridKeyID h))
      tx i p2sh ht c =
    Some (HybridPubKey_GetID E (CHybridPubKey pkEC pkML) = h \<and>
      hybrid_valid E (drop_sig sgML (drop_sig sgEC (SetDestination (CHybridKeyID h)))) tx i ht
        sgEC sgML pkEC pkML, c') \<and> cache_sound E c'"
  by (rule hybrid_pubkeyhash_spent [OF assms])

text \<open>Spending a key hash output: an input script that pushes a signature and a key is accepted
  exactly when the key hashes to the output's hash and the signature is valid for the transaction.\<close>

theorem spend_pubkeyhash:
  assumes "push_script_ok [sg, pk]" "cache_sound E c"
  shows "\<exists>c'. VerifyScript E (PushAll [sg, pk]) (SetDestination (CKeyID h)) tx i p2sh ht c =
    Some (CPubKey_GetID E pk = h \<and>
      sig_valid E (drop_sig sg (SetDestination (CKeyID h))) tx i ht None sg pk, c') \<and> cache_sound E c'"
proof -
  have eq: "SetDestination (CKeyID h) = GetScriptForPubKeyHash h"
    by (simp add: GetScriptForPubKeyHash_def SetDestination_shape dest_scripts)
  obtain c' where "CheckSig E sg pk (drop_sig sg (GetScriptForPubKeyHash h)) tx i ht None c =
      (sig_valid E (drop_sig sg (GetScriptForPubKeyHash h)) tx i ht None sg pk, c')" "cache_sound E c'"
    using ecdsa.check_cases [OF assms(2)] .
  moreover have np: "\<not> (p2sh \<and> IsPayToScriptHash (GetScriptForPubKeyHash h))"
    using hash_scripts_size(4) by blast
  ultimately show ?thesis
    unfolding eq VerifyScript_PushAll [OF assms(1) np] using assms(2)
    by (simp add: EvalScript_P2PKH [of "[]", simplified] CPubKey_GetID_def)
qed

text \<open>C35: Pay to script hash. VerifyScript always has a defined result: it never reads the last element
  of an empty stack copy. Spending such an output with pushes that end with the redeem script
  succeeds exactly when the redeem script hashes to the output's hash, and (under the P2SH rule)
  evaluating it on the other pushes leaves true on top.\<close>

theorem spend_scripthash:
  assumes "push_script_ok (vs @ [redeem])"
  shows "VerifyScript E ssig spk tx i p2sh ht c \<noteq> None \<and>
    VerifyScript E (PushAll (vs @ [redeem])) (SetDestination (CScriptID h)) tx i p2sh ht c =
      (if CPubKey_GetID E redeem \<noteq> h then Some (False, c)
       else if \<not> p2sh then Some (True, c)
       else (case EvalScript E (rev vs) redeem tx i ht c of
               (r, st, c') \<Rightarrow> Some (r \<and> st \<noteq> [] \<and> CastToBool (hd st), c')))"
proof
  obtain r st c1 where 1: "EvalScript E [] ssig tx i ht c = (r, st, c1)" by (metis prod_cases3)
  obtain r2 st2 c2 where 2: "EvalScript E st spk tx i ht c1 = (r2, st2, c2)" by (metis prod_cases3)
  have ne: "st \<noteq> []" if "r2" "IsPayToScriptHash spk"
    using EvalScript_P2SH [OF that(2), of "[]" E tx i ht c1] 2 that(1) by auto
  show "VerifyScript E ssig spk tx i p2sh ht c \<noteq> None"
  proof (cases "r \<and> r2 \<and> p2sh \<and> IsPayToScriptHash spk")
    case True
    then obtain x r' where st: "st = x # r'" using ne by (cases st) auto
    obtain r3 st3 c3 where 3: "EvalScript E r' x tx i ht c2 = (r3, st3, c3)" by (metis prod_cases3)
    show ?thesis
      using True st 3 2 unfolding VerifyScript_def 1 Let_def by (cases r3) auto
  next
    case False
    then show ?thesis using 2 unfolding VerifyScript_def 1 Let_def by (cases r; cases r2) auto
  qed
  let ?spk = "SetDestination (CScriptID h)"
  have p2: "IsPayToScriptHash ?spk"
    unfolding IsPayToScriptHash_shape SetDestination_shape
    by (rule exI [of _ "mem h"]) (simp add: length_mem_uint160)
  have top: "take 20 (drop 2 ?spk) = mem h" by (simp add: SetDestination_shape length_mem_uint160)
  have len: "length (rev (vs @ [redeem])) \<le> 900" using assms by (simp add: push_script_ok_def)
  have e2: "EvalScript E (redeem # rev vs) ?spk tx i ht c =
      (True, vchBool (Hash160 E redeem = h) # rev vs, c)"
    using EvalScript_P2SH [OF p2, of "redeem # rev vs"] len by (simp add: top mem_uint160_eq)
  show "VerifyScript E (PushAll (vs @ [redeem])) ?spk tx i p2sh ht c =
      (if CPubKey_GetID E redeem \<noteq> h then Some (False, c)
       else if \<not> p2sh then Some (True, c)
       else (case EvalScript E (rev vs) redeem tx i ht c of
               (r, st, c') \<Rightarrow> Some (r \<and> st \<noteq> [] \<and> CastToBool (hd st), c')))"
    unfolding VerifyScript_def EvalScript_PushAll [OF assms] Let_def
    using p2 IsPushOnly_PushAll_ok [OF assms] e2
    by (simp add: CPubKey_GetID_def) (auto split: prod.split bool.split)
qed

lemma preimage_all_Some:
  "i < length (vin tx) \<Longrightarrow> \<exists>p. ConstructSignatureHashPreimage sc tx i (int_of_byte 1) = Some p"
  by (simp add: preimage_unfold blank_outputs_def int_of_byte_def)

theorem spend_hybrid_pubkeyhash_witness:
  "push_script_ok [replicate 8 7 @ [1], replicate 3309 7 @ [1], replicate 33 7, replicate 1952 7] \<and>
   (\<exists>c'. VerifyScript ext_ref
      (PushAll [replicate 8 7 @ [1], replicate 3309 7 @ [1], replicate 33 7, replicate 1952 7])
      (SetDestination (CHybridKeyID
         (HybridPubKey_GetID ext_ref (CHybridPubKey (replicate 33 7) (replicate 1952 7)))))
      two_input_tx 1 True 0 empty_cache = Some (True, c'))"
proof -
  let ?sgEC = "replicate 8 7 @ [1] :: bytes" and ?sgML = "replicate 3309 7 @ [1] :: bytes"
  have ok: "push_script_ok [?sgEC, ?sgML, replicate 33 7, replicate 1952 7]"
    by (simp add: push_script_ok_def MAX_SCRIPT_ELEMENT_SIZE_def MAX_SCRIPT_SIZE_def push_enc_def)
  have "1 < length (vin two_input_tx)" by (simp add: two_input_tx_def)
  from preimage_all_Some [OF this]
  have "hybrid_valid ext_ref sc two_input_tx 1 0 ?sgEC ?sgML (replicate 33 7) (replicate 1952 7)" for sc
    by (simp add: hybrid_valid_def ecdsa_valid_def SetPubKey_def CKey_Verify_def ext_ref_def
        butlast_append)
  then show ?thesis
    using ok spend_hybrid_pubkeyhash [OF ok empty_cache_sound [of ext_ref],
        of "HybridPubKey_GetID ext_ref (CHybridPubKey (replicate 33 7) (replicate 1952 7))"
           two_input_tx 1 True 0] by auto
qed

theorem spend_pubkeyhash_witness:
  "\<exists>c'. VerifyScript ext_ref (PushAll [replicate 8 7 @ [1], [7]])
      (SetDestination (CKeyID (CPubKey_GetID ext_ref [7]))) two_input_tx 0 True 0 empty_cache =
    Some (True, c')"
proof -
  have ok: "push_script_ok [replicate 8 7 @ [1], [7]]"
    by (simp add: push_script_ok_def MAX_SCRIPT_ELEMENT_SIZE_def MAX_SCRIPT_SIZE_def push_enc_def)
  have "sig_valid ext_ref sc two_input_tx 0 0 None (replicate 8 7 @ [1]) [7]" for sc
    by (simp add: sig_valid_def ecdsa_valid_def SetPubKey_def CKey_Verify_def ext_ref_def)
  then show ?thesis
    using spend_pubkeyhash [OF ok empty_cache_sound [of ext_ref],
        of "CPubKey_GetID ext_ref [7]" two_input_tx 0 True 0] by auto
qed

theorem spend_scripthash_witness:
  "push_script_ok ([[5], [6]] @ [[OP_EQUAL]]) \<and>
   VerifyScript ext_ref (PushAll ([[5], [6]] @ [[OP_EQUAL]]))
     (SetDestination (CScriptID (CPubKey_GetID ext_ref [OP_EQUAL]))) two_input_tx 0 False 0 empty_cache =
   Some (True, empty_cache)"
proof -
  have ok: "push_script_ok ([[5], [6]] @ [[OP_EQUAL]])"
    by (simp add: push_script_ok_def MAX_SCRIPT_ELEMENT_SIZE_def MAX_SCRIPT_SIZE_def push_enc_def)
  show ?thesis
    using ok conjunct2 [OF spend_scripthash [OF ok, of ext_ref "[]" "[]" two_input_tx 0 False 0 empty_cache
        "CPubKey_GetID ext_ref [OP_EQUAL]"]] by (metis)
qed

end
