(* ===== verification/SpendMulti.thy ===== *)
theory SpendMulti
  imports Spend
begin

text \<open>
  Hybrid multisignature outputs: that \<^verbatim>\<open>Solver\<close> recognises what \<^verbatim>\<open>GetScriptForHybridMultisig\<close>
  builds, and what it takes to spend such an output.
\<close>

section \<open>The shape of the script\<close>

definition opn :: "nat \<Rightarrow> opcodetype" where
  "opn n = OP_1 + word_of_nat n - 1"

lemma unat_opn: "n \<le> 16 \<Longrightarrow> unat (opn n) = 80 + n"
proof -
  assume n: "n \<le> 16"
  have "opn n = word_of_nat (80 + n)" by (simp add: opn_def)
  moreover have "unat (word_of_nat (80 + n) :: byte) = 80 + n"
    using n take_bit_nat_eq_self [of "80 + n" 8] by (simp only: unsigned_of_nat of_nat_id) simp
  ultimately show ?thesis by simp
qed

lemma opn_range:
  assumes "1 \<le> n" "n \<le> 16"
  shows "OP_1 \<le> opn n" "opn n \<le> OP_16" "opn n \<noteq> OP_0" "\<not> opn n \<le> OP_PUSHDATA4"
    "DecodeOP_N (opn n) = Some n"
  using assms unat_opn [of n]
  by (auto simp: DecodeOP_N_def word_le_nat_alt word_unat_eq_iff)

definition pair_pushes :: "(valtype \<times> valtype) list \<Rightarrow> valtype list" where
  "pair_pushes ps = concat (map (\<lambda>(ec, ml). [ec, ml]) ps)"

definition key_pair :: "CHybridPubKey \<Rightarrow> valtype \<times> valtype" where
  "key_pair k = (ecdsaPubKey k, mldsaPubKey k)"

definition key_pushes :: "CHybridPubKey list \<Rightarrow> valtype list" where
  "key_pushes keys = pair_pushes (map key_pair keys)"

definition multisig_script :: "nat \<Rightarrow> CHybridPubKey list \<Rightarrow> CScript" where
  "multisig_script m keys =
     opn m # PushAll (key_pushes keys) @ [opn (length keys), OP_CHECKMULTIHYBRIDSIG]"

lemma key_pushes_simps [simp]:
  "key_pushes [] = []"
  "key_pushes (k # keys) = ecdsaPubKey k # mldsaPubKey k # key_pushes keys"
  by (simp_all add: key_pushes_def pair_pushes_def key_pair_def)

lemma GetScriptForHybridMultisig_shape:
  assumes "1 \<le> m" "m \<le> length keys" "length keys \<le> 16" "list_all HybridPubKey_IsValid keys"
  shows "GetScriptForHybridMultisig (int m) keys = Some (multisig_script m keys)"
proof -
  have f: "fold (\<lambda>key s. push_vch (push_vch s (ecdsaPubKey key)) (mldsaPubKey key)) ks s =
      s @ PushAll (key_pushes ks)" for ks s
    by (induction ks arbitrary: s) (simp_all add: push_vch_def)
  have e: "EncodeOP_N k = Some (opn k)" if "1 \<le> k" "k \<le> 16" for k
    using that by (simp add: EncodeOP_N_def opn_def)
  have "1 \<le> length keys" "m \<le> 16" using assms by linarith+
  with assms show ?thesis
    by (auto simp: GetScriptForHybridMultisig_def multisig_script_def e f push_op_def)
qed

section \<open>Recognising it\<close>

lemma valid_sizes:
  assumes "HybridPubKey_IsValid k"
  shows "pubkey_sized (ecdsaPubKey k)" "length (ecdsaPubKey k) < 2 ^ 32"
    "length (mldsaPubKey k) = ML_DSA_65_PUBKEY_SIZE" "length (mldsaPubKey k) < 2 ^ 32"
  using assms
  by (simp_all add: HybridPubKey_IsValid_def ECDSA_SIZE_def MLDSA_SIZE_def pubkey_sized_def
      ML_DSA_65_PUBKEY_SIZE_def)

lemma hybrid_keys_pushes:
  assumes "list_all HybridPubKey_IsValid keys" "1 \<le> n" "n \<le> 16"
  shows "hybrid_keys (PushAll (key_pushes keys) @ opn n # rest) sol =
    (False, opn n, sol @ key_pushes keys, rest)"
  using assms(1)
proof (induction keys arbitrary: sol)
  case Nil
  have "GetOp2 (opn n # rest) = Some (opn n, [], rest)"
    using opn_range(4) [OF assms(2,3)] by (rule GetOp2_nonpush)
  then show ?case
    using opn_range [OF assms(2,3)]
    by (subst hybrid_keys.simps) (simp add: pubkey_sized_def)
next
  case (Cons k keys)
  have v: "HybridPubKey_IsValid k" using Cons.prems by simp
  have g: "GetOp2 (push_enc (ecdsaPubKey k) @ r) = Some (push_code (ecdsaPubKey k), ecdsaPubKey k, r)"
    "GetOp2 (push_enc (mldsaPubKey k) @ r) = Some (push_code (mldsaPubKey k), mldsaPubKey k, r)" for r
    by (rule GetOp2_push_enc, rule valid_sizes [OF v])+
  show ?case
    using Cons by (subst hybrid_keys.simps) (simp add: g valid_sizes [OF v])
qed

lemma Solver_multisig_script:
  assumes "1 \<le> m" "m \<le> length keys" "length keys \<le> 16" "list_all HybridPubKey_IsValid keys"
  shows "Solver (multisig_script m keys) =
    (True, TX_HYBRID_MULTISIG,
     [[word_of_nat m]] @ key_pushes keys @ [[word_of_nat (length keys)]])"
proof -
  let ?n = "length keys"
  have r: "1 \<le> m" "m \<le> 16" "1 \<le> ?n" "?n \<le> 16" using assms by linarith+
  have g: "GetOp2 (opn k # rest) = Some (opn k, [], rest)" if "1 \<le> k" "k \<le> 16" for k rest
    using opn_range(4) [OF that] by (rule GetOp2_nonpush)
  have s1: "solve_hybrid_pubkey (multisig_script m keys) = None"
    unfolding solve_hybrid_pubkey_def multisig_script_def
    by (simp add: g [OF r(1,2)] pubkey_sized_def split: option.split)
  have "opn m \<noteq> OP_DUPHYBRID" using unat_opn [OF r(2)] r by (auto simp: word_unat_eq_iff)
  then have s2: "solve_hybrid_pubkeyhash (multisig_script m keys) = None"
    by (simp add: solve_hybrid_pubkeyhash_def multisig_script_def g [OF r(1,2)])
  have len: "length (key_pushes keys) = 2 * ?n" by (induction keys) simp_all
  have "hybrid_keys (PushAll (key_pushes keys) @ [opn ?n, OP_CHECKMULTIHYBRIDSIG]) [] =
      (False, opn ?n, key_pushes keys, [OP_CHECKMULTIHYBRIDSIG])"
    using hybrid_keys_pushes [OF assms(4) r(3,4), of "[OP_CHECKMULTIHYBRIDSIG]" "[]"] by simp
  then have s3: "solve_hybrid_multisig (multisig_script m keys) =
      Some ([[word_of_nat m]] @ key_pushes keys @ [[word_of_nat ?n]])"
    unfolding solve_hybrid_multisig_def multisig_script_def
    using assms r opn_range [OF r(1,2)] opn_range [OF r(3,4)] len
    by (simp add: g [OF r(1,2)] GetOp2_op Let_def)
  show ?thesis by (simp add: Solver_def s1 s2 s3)
qed

section \<open>Evaluating it\<close>

lemma number_opcodes_opn: "number_opcodes = OP_1NEGATE # map opn [1..<17]"
  by (simp add: number_opcodes_def opn_def upt_rec)

lemma eval_small:
  assumes "1 \<le> k" "k \<le> 16" "bn_laws (bn E)" "vfExec s = []"
    "length (stack s) + length (altstack s) < 1000"
  shows "eval_loop E tx i ht (opn k # rest) s =
    eval_loop E tx i ht rest (s\<lparr>stack := getvch (bn E) (int k) # stack s\<rparr>)"
proof -
  note r = opn_range [OF assms(1,2)]
  have g: "GetOp2 (opn k # rest) = Some (opn k, [], rest)" using r(4) by (rule GetOp2_nonpush)
  have nd: "\<not> OP_16 < opn k" "opn k \<notin> set disabled_opcodes"
    using r(2) disabled_not_push leD by blast+
  have mem: "opn k \<in> set number_opcodes" unfolding number_opcodes_opn using assms(1,2) by auto
  have "int (unat (opn k)) = int (80 + k)" by (simp only: unat_opn [OF assms(2)])
  then have "uint (opn k) = 80 + int k" by simp
  then have n: "uint (opn k) - (uint OP_1 - 1) = int k" by simp
  have "signed_take_bit 63 (int k) = int k"
    using assms(2) by (simp add: signed_take_bit_int_eq_self_iff)
  then have v: "setint64 (bn E) (word_of_int (int k)) = int k"
    by (simp only: setint64_exact [OF assms(3)] signed_of_int) simp
  have op: "eval_opcode E tx i ht (opn k) True rest s =
      (True, s\<lparr>stack := getvch (bn E) (int k) # stack s\<rparr>)"
    using mem unfolding eval_opcode_def op_number_def n v by simp
  have "eval_instr E tx i ht (opn k) [] rest s = (True, s\<lparr>stack := getvch (bn E) (int k) # stack s\<rparr>)"
    unfolding eval_instr_def Let_def using assms(4,5) nd r(4) op by simp
  then show ?thesis unfolding eval_loop_Some [OF g] by simp
qed

lemma read_count_small:
  assumes "bn_laws (bn E)" "k < 2 ^ 31"
  shows "read_count E limit (getvch (bn E) (int k)) = (if k \<le> limit then Some k else None)"
  using assms by (simp add: read_count_def CastToBigNum_getvch getint_small Let_def)

lemma hybrid_pairs_rev: "hybrid_pairs (rev (pair_pushes ps)) = rev ps"
proof (induction ps rule: rev_induct)
  case (snoc p ps)
  then show ?case by (cases p) (simp add: pair_pushes_def)
qed (simp add: pair_pushes_def)

lemma length_pair_pushes [simp]: "length (pair_pushes ps) = 2 * length ps"
  by (induction ps) (auto simp: pair_pushes_def)

lemma length_key_pushes [simp]: "length (key_pushes keys) = 2 * length keys"
  by (simp add: key_pushes_def)

lemma subseq_rev: "subseq xs ys \<Longrightarrow> subseq (rev xs) (rev ys)"
  by (induction rule: list_emb.induct) (simp_all add: subseq_rev_drop_many list_emb_append_mono)

lemma matches_rev: "matches P (rev xs) (rev ys) = matches P xs ys"
proof -
  have "matches P (rev xs) (rev ys)" if m: "matches P xs ys" for xs ys
  proof -
    obtain ks where "subseq ks ys" "list_all2 P xs ks" using m by (auto simp: matches_def)
    then have "subseq (rev ks) (rev ys)" "list_all2 P (rev xs) (rev ks)"
      by (simp_all add: subseq_rev)
    then show ?thesis unfolding matches_def by blast
  qed
  from this [of xs ys] this [of "rev xs" "rev ys"] show ?thesis by auto
qed

definition drop_pairs :: "(valtype \<times> valtype) list \<Rightarrow> CScript \<Rightarrow> CScript" where
  "drop_pairs sgs sc = fold (\<lambda>(ec, ml) sc. drop_sig ml (drop_sig ec sc)) (rev sgs) sc"

text \<open>What the signature pairs must satisfy, for the script code \<open>sc\<close>.\<close>

definition multi_valid ::
  "ext \<Rightarrow> CScript \<Rightarrow> CTransaction \<Rightarrow> nat \<Rightarrow> u32 \<Rightarrow> (valtype \<times> valtype) list \<Rightarrow> (valtype \<times> valtype) list \<Rightarrow> bool" where
  "multi_valid E sc tx i ht sgs keys \<longleftrightarrow>
     (\<exists>t p ks. list_all (\<lambda>(ec, ml). ec \<noteq> [] \<and> ml \<noteq> [] \<and> last ec = t \<and> last ml = t) sgs \<and>
        (ht = 0 \<or> ht = int_of_byte t) \<and>
        ConstructSignatureHashPreimage sc tx i (int_of_byte t) = Some p \<and>
        subseq ks keys \<and>
        list_all2 (pair_valid E sc tx i (int_of_byte t) (Hash E p) (BuildHybridMessage p)) sgs ks)"

lemma run_checkmultihybridsig_eq:
  assumes st: "stack s = N # rev (pair_pushes keys) @ M # rev (pair_pushes sgs)"
    and hd: "rev sgs = (ec, ml) # tl'"
  shows "run_checkmultihybridsig E tx i ht (length keys) (length sgs) s =
      (if \<not> (list_all (\<lambda>(ec', ml'). ec' \<noteq> [] \<and> ml' \<noteq> [] \<and> last ec' = last ec \<and> last ml' = last ec) (rev sgs) \<and>
            (ht = 0 \<or> ht = int_of_byte (last ec)))
       then (False, s)
       else case ConstructSignatureHashPreimage (drop_pairs sgs (codehash s)) tx i (int_of_byte (last ec)) of
          None \<Rightarrow> (False, s)
        | Some p \<Rightarrow> (case hybrid_match_loop
            (CheckHybridPair E (drop_pairs sgs (codehash s)) tx i (int_of_byte (last ec)) (Hash E p)
               (BuildHybridMessage p)) (rev sgs) (rev keys) (sigs s) of
            (r, c) \<Rightarrow> (True, s\<lparr>sigs := c, stack := [vchBool r]\<rparr>)))"
proof -
  have keys: "hybrid_pairs (take (2 * length keys) (drop 1 (stack s))) = rev keys"
    by (simp add: st hybrid_pairs_rev)
  have vs: "hybrid_pairs (take (2 * length sgs) (drop (2 + 2 * length keys) (stack s))) = rev sgs"
    by (simp add: st hybrid_pairs_rev)
  have rest: "drop (2 + 2 * length keys + 2 * length sgs) (stack s) = []" by (simp add: st)
  have eq: "list_all (\<lambda>(ec', ml'). ec' \<noteq> [] \<and> ml' \<noteq> [] \<and> last ec' = last ec \<and> last ml' = last ec) (rev sgs) \<longleftrightarrow>
      list_all (\<lambda>(ec, ml). ec \<noteq> [] \<and> ml \<noteq> []) (rev sgs) \<and> last ml = last ec \<and>
      list_all (\<lambda>(ec', ml'). last ec' = last ec \<and> last ml' = last ec) tl'"
    unfolding hd by (auto simp: list_all_iff)
  have nn: "rev sgs \<noteq> []" "hd (rev sgs) = (ec, ml)" "tl (rev sgs) = tl'" using hd by simp_all
  have h: "ht \<noteq> 0 \<and> int_of_byte (last ec) \<noteq> ht \<longleftrightarrow> \<not> (ht = 0 \<or> ht = int_of_byte (last ec))" by auto
  show ?thesis
    unfolding run_checkmultihybridsig_def Let_def keys vs rest drop_pairs_def [symmetric] eq
      SignatureHashWithPreimage_def push_result_def nn fst_conv snd_conv int_of_byte_inj h
    using nn(1) by (cases "ConstructSignatureHashPreimage (drop_pairs sgs (codehash s)) tx i
        (int_of_byte (last ec))") simp_all
qed

lemma sig_types_unique:
  assumes "sgs \<noteq> []"
    "list_all (\<lambda>(ec, ml). ec \<noteq> [] \<and> ml \<noteq> [] \<and> last ec = t \<and> last ml = t) sgs"
    "list_all (\<lambda>(ec, ml). ec \<noteq> [] \<and> ml \<noteq> [] \<and> last ec = t' \<and> last ml = t') sgs"
  shows "t' = t"
  using assms by (cases sgs) auto

lemma multi_valid_matches:
  assumes "sgs \<noteq> []"
    "list_all (\<lambda>(ec, ml). ec \<noteq> [] \<and> ml \<noteq> [] \<and> last ec = t \<and> last ml = t) sgs"
    "ht = 0 \<or> ht = int_of_byte t"
    "ConstructSignatureHashPreimage sc tx i (int_of_byte t) = Some p"
  shows "multi_valid E sc tx i ht sgs keys =
    matches (pair_valid E sc tx i (int_of_byte t) (Hash E p) (BuildHybridMessage p)) sgs keys"
proof
  assume "multi_valid E sc tx i ht sgs keys"
  then obtain t' p' ks where
    "list_all (\<lambda>(ec, ml). ec \<noteq> [] \<and> ml \<noteq> [] \<and> last ec = t' \<and> last ml = t') sgs"
    and p': "ConstructSignatureHashPreimage sc tx i (int_of_byte t') = Some p'"
    and m: "subseq ks keys"
      "list_all2 (pair_valid E sc tx i (int_of_byte t') (Hash E p') (BuildHybridMessage p')) sgs ks"
    unfolding multi_valid_def by blast
  then have "t' = t" using sig_types_unique [OF assms(1,2)] by blast
  then show "matches (pair_valid E sc tx i (int_of_byte t) (Hash E p) (BuildHybridMessage p)) sgs keys"
    using m p' assms(4) unfolding matches_def by auto
next
  assume "matches (pair_valid E sc tx i (int_of_byte t) (Hash E p) (BuildHybridMessage p)) sgs keys"
  then show "multi_valid E sc tx i ht sgs keys"
    unfolding multi_valid_def matches_def using assms by blast
qed

lemma multi_valid_cases:
  assumes "multi_valid E sc tx i ht sgs keys"
  obtains t p where "list_all (\<lambda>(ec, ml). ec \<noteq> [] \<and> ml \<noteq> [] \<and> last ec = t \<and> last ml = t) sgs"
    "ht = 0 \<or> ht = int_of_byte t" "ConstructSignatureHashPreimage sc tx i (int_of_byte t) = Some p"
  using assms unfolding multi_valid_def by blast

lemma run_checkmultihybridsig_valid:
  assumes st: "stack s = N # rev (pair_pushes keys) @ M # rev (pair_pushes sgs)"
    and "sgs \<noteq> []" "cache_sound E (sigs s)"
  shows "\<exists>c'. cache_sound E c' \<and>
    (run_checkmultihybridsig E tx i ht (length keys) (length sgs) s =
       (True, s\<lparr>sigs := c', stack := [vchBool (multi_valid E (drop_pairs sgs (codehash s)) tx i ht sgs keys)]\<rparr>) \<or>
     run_checkmultihybridsig E tx i ht (length keys) (length sgs) s = (False, s) \<and>
     \<not> multi_valid E (drop_pairs sgs (codehash s)) tx i ht sgs keys)"
proof -
  let ?sc = "drop_pairs sgs (codehash s)"
  obtain ec ml tl' where hd: "rev sgs = (ec, ml) # tl'" using assms(2) by (cases "rev sgs") auto
  define t where "t = last ec"
  let ?ok = "list_all (\<lambda>(ec, ml). ec \<noteq> [] \<and> ml \<noteq> [] \<and> last ec = t \<and> last ml = t) sgs"
  have t_only: "t' = t" if "list_all (\<lambda>(ec, ml). ec \<noteq> [] \<and> ml \<noteq> [] \<and> last ec = t' \<and> last ml = t') sgs" for t'
  proof -
    have "list_all (\<lambda>(ec, ml). ec \<noteq> [] \<and> ml \<noteq> [] \<and> last ec = t' \<and> last ml = t') (rev sgs)"
      using that by (simp add: list_all_rev)
    then show ?thesis by (simp add: hd t_def)
  qed
  note run = run_checkmultihybridsig_eq [OF st hd, of E tx i ht, folded t_def, unfolded list_all_rev]
  show ?thesis
  proof (cases "?ok \<and> (ht = 0 \<or> ht = int_of_byte t)")
    case False
    then have "run_checkmultihybridsig E tx i ht (length keys) (length sgs) s = (False, s)"
      unfolding run by (rule if_P)
    moreover have "\<not> multi_valid E ?sc tx i ht sgs keys"
      using False t_only by (blast elim: multi_valid_cases)
    ultimately show ?thesis using assms(3) by blast
  next
    case True
    note run' = trans [OF run if_not_P [OF iffD2 [OF not_not True]]]
    show ?thesis
    proof (cases "ConstructSignatureHashPreimage ?sc tx i (int_of_byte t)")
      case None
      have "\<not> multi_valid E ?sc tx i ht sgs keys"
      proof
        assume "multi_valid E ?sc tx i ht sgs keys"
        then show False using None t_only by (elim multi_valid_cases) auto
      qed
      moreover have "run_checkmultihybridsig E tx i ht (length keys) (length sgs) s = (False, s)"
        unfolding run' None by simp
      ultimately show ?thesis using assms(3) by blast
    next
      case (Some p)
      let ?P = "pair_valid E ?sc tx i (int_of_byte t) (Hash E p) (BuildHybridMessage p)"
      obtain r c' where rc: "hybrid_match_loop
          (CheckHybridPair E ?sc tx i (int_of_byte t) (Hash E p) (BuildHybridMessage p))
          (rev sgs) (rev keys) (sigs s) = (r, c')" by fastforce
      have r: "r = matches ?P sgs keys" "cache_sound E c'"
        using hybrid.hybrid_match_loop_matches [OF assms(3), of ?sc tx i "int_of_byte t" "Hash E p"
            "BuildHybridMessage p" "rev sgs" "rev keys"] rc by (simp_all add: matches_rev)
      have "multi_valid E ?sc tx i ht sgs keys = r"
        using multi_valid_matches [OF assms(2) _ _ Some] True r(1) by simp
      moreover have "run_checkmultihybridsig E tx i ht (length keys) (length sgs) s =
          (True, s\<lparr>sigs := c', stack := [vchBool r]\<rparr>)"
        unfolding run' Some using rc by simp
      ultimately show ?thesis using r(2) by blast
    qed
  qed
qed

lemma eval_multi_opcode:
  "eval_opcode E tx i ht OP_CHECKMULTIHYBRIDSIG True pc s = op_checkmultihybridsig E tx i ht s"
  by (simp add: eval_opcode_def opcode_lists)

text \<open>The outcome of a script: accepted when it ends with true on top of the stack.\<close>

definition accepts :: "bool \<times> estate \<Rightarrow> bool" where
  "accepts r \<longleftrightarrow> fst r \<and> stack (snd r) \<noteq> [] \<and> CastToBool (hd (stack (snd r)))"

lemma eval_CHECKMULTIHYBRIDSIG:
  assumes "bn_laws (bn E)" "1 \<le> m" "m = length sgs" "m \<le> length keys" "length keys \<le> 16"
    "cache_sound E (sigs s)" "vfExec s = []" "altstack s = []" "nOpCount s = 0"
    and st: "stack s = getvch (bn E) (int (length keys)) # rev (pair_pushes keys) @
         getvch (bn E) (int m) # rev (pair_pushes sgs)"
  shows "\<exists>res. eval_loop E tx i ht [OP_CHECKMULTIHYBRIDSIG] s = res \<and>
    accepts res = multi_valid E (drop_pairs sgs (codehash s)) tx i ht sgs keys \<and>
    cache_sound E (sigs (snd res))"
proof -
  let ?n = "length keys"
  let ?s1 = "s\<lparr>nOpCount := 1 + ?n\<rparr>"
  let ?v = "multi_valid E (drop_pairs sgs (codehash s)) tx i ht sgs keys"
  have ne: "sgs \<noteq> []" using assms(2,3) by auto
  have small: "?n < 2 ^ 31" "m < 2 ^ 31" using assms(4,5) by simp_all
  have nth: "stack s ! 0 = getvch (bn E) (int ?n)" "stack s ! (1 + 2 * ?n) = getvch (bn E) (int m)"
    by (simp_all add: st nth_append)
  have len: "length (stack s) = 2 + 2 * ?n + 2 * m" by (simp add: st assms(3))
  have op: "op_checkmultihybridsig E tx i ht (s\<lparr>nOpCount := Suc 0\<rparr>) =
      run_checkmultihybridsig E tx i ht ?n m ?s1"
    using assms(4,5) unfolding op_checkmultihybridsig_def Let_def
    by (simp add: read_count_small [OF assms(1) small(1)] read_count_small [OF assms(1) small(2)]
        nth [unfolded plus_1_eq_Suc] len)
  obtain c' where c': "cache_sound E c'"
    "run_checkmultihybridsig E tx i ht ?n m ?s1 = (True, ?s1\<lparr>sigs := c', stack := [vchBool ?v]\<rparr>) \<or>
     run_checkmultihybridsig E tx i ht ?n m ?s1 = (False, ?s1) \<and> \<not> ?v"
    using run_checkmultihybridsig_valid [of ?s1 "getvch (bn E) (int ?n)" keys
        "getvch (bn E) (int m)" sgs E tx i ht] ne assms(3,6) st by auto
  have nd: "OP_CHECKMULTIHYBRIDSIG \<notin> set disabled_opcodes" by (simp add: disabled_opcodes_def)
  have ev: "eval_loop E tx i ht [OP_CHECKMULTIHYBRIDSIG] s =
      next_instr E tx i ht [] (run_checkmultihybridsig E tx i ht ?n m ?s1)"
    unfolding op [symmetric]
    by (subst eval_op [OF _ nd]) (simp_all add: assms(7,9) eval_multi_opcode [simplified])
  show ?thesis
    using c' assms(6,8) unfolding ev
    by (elim disjE conjE) (simp_all add: eval_loop_Nil accepts_def assms(7))
qed

lemma multisig_evaluation:
  assumes "bn_laws (bn E)" "1 \<le> m" "m = length sgs" "m \<le> length keys" "length keys \<le> 16"
    "list_all HybridPubKey_IsValid keys" "cache_sound E c"
  shows "\<exists>res. eval_loop E tx i ht (multisig_script m keys) (start cs (rev (pair_pushes sgs)) c) = res \<and>
    accepts res = multi_valid E (drop_pairs sgs cs) tx i ht sgs (map key_pair keys) \<and>
    cache_sound E (sigs (snd res))"
proof -
  let ?n = "length keys"
  let ?M = "getvch (bn E) (int m)" and ?N = "getvch (bn E) (int ?n)"
  have r: "1 \<le> m" "m \<le> 16" "1 \<le> ?n" "?n \<le> 16" using assms by linarith+
  have small: "list_all (\<lambda>v. length v \<le> MAX_SCRIPT_ELEMENT_SIZE) (key_pushes keys)"
    using assms(6)
    by (induction keys) (simp_all add: HybridPubKey_IsValid_def ECDSA_SIZE_def MLDSA_SIZE_def
        MAX_SCRIPT_ELEMENT_SIZE_def)
  have e1: "eval_loop E tx i ht (multisig_script m keys) (start cs (rev (pair_pushes sgs)) c) =
      eval_loop E tx i ht (PushAll (key_pushes keys) @ [opn ?n, OP_CHECKMULTIHYBRIDSIG])
        (start cs (?M # rev (pair_pushes sgs)) c)"
    using r assms(3,4) unfolding multisig_script_def
    by (subst eval_small [OF r(1,2) assms(1)]) (simp_all add: start_def)
  have e2: "eval_loop E tx i ht (PushAll (key_pushes keys) @ [opn ?n, OP_CHECKMULTIHYBRIDSIG])
        (start cs (?M # rev (pair_pushes sgs)) c) =
      eval_loop E tx i ht [opn ?n, OP_CHECKMULTIHYBRIDSIG]
        (start cs (rev (key_pushes keys) @ ?M # rev (pair_pushes sgs)) c)"
    using r assms(3,4)
    by (subst eval_PushAll [OF pushable_elements [OF small] small]) (simp_all add: start_def)
  have e3: "eval_loop E tx i ht [opn ?n, OP_CHECKMULTIHYBRIDSIG]
        (start cs (rev (key_pushes keys) @ ?M # rev (pair_pushes sgs)) c) =
      eval_loop E tx i ht [OP_CHECKMULTIHYBRIDSIG]
        (start cs (?N # rev (key_pushes keys) @ ?M # rev (pair_pushes sgs)) c)"
    using r assms(3,4) by (subst eval_small [OF r(3,4) assms(1)]) (simp_all add: start_def)
  show ?thesis
    using eval_CHECKMULTIHYBRIDSIG [OF assms(1,2,3), of "map key_pair keys"
        "start cs (?N # rev (key_pushes keys) @ ?M # rev (pair_pushes sgs)) c" tx i ht]
      assms(4,5,7) unfolding e1 e2 e3 by (simp add: start_def key_pushes_def)
qed

lemma multisig_script_size:
  assumes "length keys \<le> 16" "list_all HybridPubKey_IsValid keys"
  shows "length (multisig_script m keys) \<le> MAX_SCRIPT_SIZE"
    "\<not> IsPayToScriptHash (multisig_script m keys)"
proof -
  have "length (PushAll (key_pushes keys)) \<le> 2000 * length keys"
    using assms(2)
    by (induction keys) (simp_all add: HybridPubKey_IsValid_def ECDSA_SIZE_def MLDSA_SIZE_def
        push_enc_def)
  then show "length (multisig_script m keys) \<le> MAX_SCRIPT_SIZE"
    using assms(1) by (simp add: multisig_script_def MAX_SCRIPT_SIZE_def)
  have "last (multisig_script m keys) = OP_CHECKMULTIHYBRIDSIG"
    unfolding multisig_script_def by simp
  then show "\<not> IsPayToScriptHash (multisig_script m keys)"
    unfolding IsPayToScriptHash_shape by auto
qed

section \<open>Properties\<close>

lemma hybrid_multisig_spent:
  assumes "bn_laws (bn E)" "1 \<le> m" "m = length sgs" "m \<le> length keys" "length keys \<le> 16"
    "list_all HybridPubKey_IsValid keys" "cache_sound E c" "push_script_ok (pair_pushes sgs)"
  shows "\<exists>spk c'. GetScriptForHybridMultisig (int m) keys = Some spk \<and>
    VerifyScript E (PushAll (pair_pushes sgs)) spk tx i p2sh ht c =
      Some (multi_valid E (drop_pairs sgs spk) tx i ht sgs (map key_pair keys), c') \<and>
    cache_sound E c'"
proof -
  let ?spk = "multisig_script m keys"
  have np: "\<not> (p2sh \<and> IsPayToScriptHash ?spk)" using multisig_script_size(2) [OF assms(5,6)] by blast
  obtain res where res: "eval_loop E tx i ht ?spk (start ?spk (rev (pair_pushes sgs)) c) = res"
    "accepts res = multi_valid E (drop_pairs sgs ?spk) tx i ht sgs (map key_pair keys)"
    "cache_sound E (sigs (snd res))"
    using multisig_evaluation [OF assms(1-7)] by blast
  then have "VerifyScript E (PushAll (pair_pushes sgs)) ?spk tx i p2sh ht c =
      Some (multi_valid E (drop_pairs sgs ?spk) tx i ht sgs (map key_pair keys), sigs (snd res))"
    unfolding VerifyScript_PushAll [OF assms(8) np]
    by (simp add: EvalScript_start multisig_script_size(1) [OF assms(5,6)] accepts_def
        split_beta)
  then show ?thesis
    using GetScriptForHybridMultisig_shape [OF assms(2,4,5,6)] res(3) by blast
qed

text \<open>C25: Spending an m-of-n hybrid multisignature output. An input script that pushes m pairs of
  signatures is accepted exactly when the m pairs, in order, are valid signatures of the transaction
  under m of the n key pairs of the output in the same order, both signatures of a pair valid under
  both keys of the pair, all of one hash type, over the output script with the signature pushes
  removed.\<close>

theorem spend_hybrid_multisig:
  assumes "bn_laws (bn E)" "1 \<le> m" "m = length sgs" "m \<le> length keys" "length keys \<le> 16"
    "list_all HybridPubKey_IsValid keys" "cache_sound E c" "push_script_ok (pair_pushes sgs)"
  shows "\<exists>spk c'. GetScriptForHybridMultisig (int m) keys = Some spk \<and>
    VerifyScript E (PushAll (pair_pushes sgs)) spk tx i p2sh ht c =
      Some (multi_valid E (drop_pairs sgs spk) tx i ht sgs (map key_pair keys), c') \<and>
    cache_sound E c'"
  by (rule hybrid_multisig_spent [OF assms])

text \<open>The script of an m-of-n hybrid multisignature output, as the wallet builds it, is classified
  as such, with m, the key pairs in order and n as its parameters; so \<^verbatim>\<open>ExtractDestinations\<close> and the
  signer see the keys the output was made with.\<close>

theorem hybrid_multisig_recognised:
  assumes "1 \<le> m" "m \<le> length keys" "length keys \<le> 16" "list_all HybridPubKey_IsValid keys"
  shows "\<exists>spk. GetScriptForHybridMultisig (int m) keys = Some spk \<and>
    Solver spk = (True, TX_HYBRID_MULTISIG,
      [[word_of_nat m]] @ key_pushes keys @ [[word_of_nat (length keys)]])"
  using GetScriptForHybridMultisig_shape [OF assms] Solver_multisig_script [OF assms] by blast

theorem hybrid_multisig_recognised_witness:
  "\<exists>spk. GetScriptForHybridMultisig 1 [CHybridPubKey (replicate 33 2) (replicate 1952 7)] = Some spk \<and>
    Solver spk = (True, TX_HYBRID_MULTISIG, [[1], replicate 33 2, replicate 1952 7, [1]])"
  using hybrid_multisig_recognised [of 1 "[CHybridPubKey (replicate 33 2) (replicate 1952 7)]"]
  by (simp add: HybridPubKey_IsValid_def ECDSA_SIZE_def MLDSA_SIZE_def)

theorem spend_hybrid_multisig_witness:
  "bn_laws (bn ext_ref) \<and> cache_sound ext_ref empty_cache \<and>
   push_script_ok (pair_pushes [(replicate 8 7 @ [1], replicate 3309 7 @ [1])]) \<and>
   (\<exists>spk c'. GetScriptForHybridMultisig 1 [CHybridPubKey (replicate 33 7) (replicate 1952 7)] = Some spk \<and>
    VerifyScript ext_ref (PushAll (pair_pushes [(replicate 8 7 @ [1], replicate 3309 7 @ [1])])) spk
      two_input_tx 1 True 0 empty_cache = Some (True, c'))"
proof -
  let ?sgs = "[(replicate 8 7 @ [1], replicate 3309 7 @ [1])] :: (bytes \<times> bytes) list"
  let ?k = "CHybridPubKey (replicate 33 7) (replicate 1952 7)"
  have ok: "push_script_ok (pair_pushes ?sgs)"
    by (simp add: push_script_ok_def MAX_SCRIPT_ELEMENT_SIZE_def MAX_SCRIPT_SIZE_def push_enc_def
        pair_pushes_def)
  have "1 < length (vin two_input_tx)" by (simp add: two_input_tx_def)
  then obtain p where p: "ConstructSignatureHashPreimage sc two_input_tx 1 (int_of_byte 1) = Some (p sc)" for sc
    using preimage_all_Some by metis
  have "pair_valid ext_ref sc two_input_tx 1 (int_of_byte 1) h (BuildHybridMessage q)
      (hd ?sgs) (key_pair ?k)" for sc h q
    by (simp add: pair_valid_def ecdsa_valid_def SetPubKey_def CKey_Verify_def ext_ref_def key_pair_def
        butlast_append sig_valid_def VerifyMLDSA_def ML_DSA_65_PUBKEY_SIZE_def ML_DSA_65_SIG_SIZE_def BuildHybridMessage_def DOMAIN_def)
  then have "multi_valid ext_ref sc two_input_tx 1 0 ?sgs [key_pair ?k]" for sc
    unfolding multi_valid_def using p by fastforce
  then show ?thesis
    using ok ext_lawsD(1) [OF ext_ref_laws] empty_cache_sound [of ext_ref]
      spend_hybrid_multisig [of ext_ref 1 ?sgs "[?k]" empty_cache two_input_tx 1 True 0]
    by (auto simp: HybridPubKey_IsValid_def ECDSA_SIZE_def MLDSA_SIZE_def)
qed

end
