(* ===== verification/Mempool.thy ===== *)
theory Mempool
  imports Complex_Main Supply SpendMulti
begin

text \<open>
  The memory pool (\<^verbatim>\<open>main.h\<close>: \<^verbatim>\<open>CTxMemPool\<close>, \<^verbatim>\<open>main.cpp\<close>: its operations). The pool keeps the transactions by
  their hash and, for every output spent by one of them, which input spends it; the pointer in a
  \<^verbatim>\<open>CInPoint\<close> is the hash under which the transaction stands. Free transactions are limited by an
  exponentially decaying counter, a floating point number in the code and a real number here. The
  invariant ties the two maps together; the property of \<^verbatim>\<open>accept\<close> says what is checked before a
  transaction enters the pool.
\<close>

section \<open>The pool\<close>

record CInPoint =
  ptx :: uint256
  inN :: nat

record CTxMemPool =
  mapTx :: "uint256 \<rightharpoonup> CTransaction"
  mapNextTx :: "COutPoint \<rightharpoonup> CInPoint"
  dFreeCount :: real
  nLastTime :: int
  nTransactionsUpdated :: u32

definition empty_pool :: CTxMemPool where
  "empty_pool = \<lparr>mapTx = Map.empty, mapNextTx = Map.empty, dFreeCount = 0, nLastTime = 0,
     nTransactionsUpdated = 0\<rparr>"

fun add_inputs :: "uint256 \<Rightarrow> nat \<Rightarrow> CTxIn list \<Rightarrow> (COutPoint \<rightharpoonup> CInPoint) \<Rightarrow> (COutPoint \<rightharpoonup> CInPoint)" where
  "add_inputs hash i [] m = m"
| "add_inputs hash i (txin # r) m = add_inputs hash (i + 1) r (m(prevout txin \<mapsto> \<lparr>ptx = hash, inN = i\<rparr>))"

definition addUnchecked :: "uint256 \<Rightarrow> CTransaction \<Rightarrow> CTxMemPool \<Rightarrow> CTxMemPool" where
  "addUnchecked hash tx P =
     P\<lparr>mapTx := (mapTx P)(hash \<mapsto> tx), mapNextTx := add_inputs hash 0 (vin tx) (mapNextTx P),
       nTransactionsUpdated := nTransactionsUpdated P + 1\<rparr>"

definition pool_remove :: "ext \<Rightarrow> CTransaction \<Rightarrow> CTxMemPool \<Rightarrow> CTxMemPool" where
  "pool_remove E tx P =
     (let hash = GetHash E tx in
      if mapTx P hash \<noteq> None
      then P\<lparr>mapNextTx := fold (\<lambda>txin m. m(prevout txin := None)) (vin tx) (mapNextTx P),
             mapTx := (mapTx P)(hash := None), nTransactionsUpdated := nTransactionsUpdated P + 1\<rparr>
      else P)"

definition pool_clear :: "CTxMemPool \<Rightarrow> CTxMemPool" where
  "pool_clear P =
     P\<lparr>mapTx := Map.empty, mapNextTx := Map.empty, nTransactionsUpdated := nTransactionsUpdated P + 1\<rparr>"

definition exists_tx :: "CTxMemPool \<Rightarrow> uint256 \<Rightarrow> bool" where
  "exists_tx P hash \<longleftrightarrow> mapTx P hash \<noteq> None"

section \<open>\<^verbatim>\<open>CTxMemPool::accept\<close>\<close>

text \<open>The limit on free transactions: the counter decays by 1/600 every second.\<close>

definition rate_limit :: "env \<Rightarrow> CTransaction \<Rightarrow> nat \<Rightarrow> CTxMemPool \<Rightarrow> bool \<times> CTxMemPool" where
  "rate_limit N tx nSize P =
     (let nNow = GetTime N;
          count = dFreeCount P * ((1 - 1 / 600) powi (nNow - nLastTime P));
          P = P\<lparr>dFreeCount := count, nLastTime := nNow\<rparr>
      in if count > of_int (nLimitFreeRelay N * 10 * 1000) \<and> \<not> IsFromMe N tx then (False, P)
         else (True, P\<lparr>dFreeCount := count + of_nat nSize\<rparr>))"

text \<open>The checks of the inputs, run when \<^verbatim>\<open>fCheckInputs\<close> is set. \<open>None\<close> is an exception, the second flag
  of the result is \<^verbatim>\<open>*pfMissingInputs\<close>.\<close>

definition accept_inputs ::
  "ext \<Rightarrow> env \<Rightarrow> files \<Rightarrow> CTxDB \<Rightarrow> CBlockIndex list \<Rightarrow> int \<Rightarrow> CTransaction \<Rightarrow> CTxMemPool \<Rightarrow> sigcache \<Rightarrow>
    (bool \<times> CTransaction \<times> bool) option \<times> CTxMemPool \<times> sigcache" where
  "accept_inputs E N files db pindexBest nBestHeight tx P c =
     (case FetchInputs files db (mapTx P) [] False False tx Map.empty of
        ((ok, tx), mapInputs, fInvalid) \<Rightarrow>
          if \<not> ok then (Some (False, tx, \<not> fInvalid), P, c)
          else
            (case AreInputsStandard E tx mapInputs c of
               (None, c) \<Rightarrow> (None, P, c)
             | (Some std, c) \<Rightarrow>
                 if \<not> std \<and> \<not> fTestNet N then (Some (False, tx, False), P, c)
                 else
                   (case (GetValueIn tx mapInputs, GetValueOut tx) of
                      (Some nIn, Some nOut) \<Rightarrow>
                        let nFees = sint (nIn - nOut);
                            nSize = size_CTransaction tx;
                            txMinFee = GetMinFee tx (word_of_nat nSize) True GMF_RELAY
                        in if nFees < txMinFee then (Some (False, tx, False), P, c)
                        else
                          (case (if nFees < MIN_RELAY_TX_FEE then rate_limit N tx nSize P else (True, P)) of
                             (ok, P) \<Rightarrow>
                               if \<not> ok then (Some (False, tx, False), P, c)
                               else
                                 (case ConnectInputs E N tx mapInputs [] \<lparr>dFile = 1, dBlockPos = 1, dTxPos = 1\<rparr>
                                         pindexBest nBestHeight False False True c of
                                    (None, _, c) \<Rightarrow> (None, P, c)
                                  | (Some (ok, tx), _, c) \<Rightarrow> (Some (ok, tx, False), P, c)))
                    | _ \<Rightarrow> (None, P, c))))"

text \<open>The replacement of transactions is disabled: a conflict with the pool ends the function, and the
  code behind that \<^verbatim>\<open>return\<close> is never reached.\<close>

definition pool_accept ::
  "ext \<Rightarrow> env \<Rightarrow> files \<Rightarrow> CTxDB \<Rightarrow> CBlockIndex list \<Rightarrow> int \<Rightarrow> CTransaction \<Rightarrow> bool \<Rightarrow> CTxMemPool \<Rightarrow> sigcache \<Rightarrow>
    (bool \<times> CTransaction \<times> bool) option \<times> CTxMemPool \<times> sigcache" where
  "pool_accept E N files db pindexBest nBestHeight tx fCheckInputs P c =
     (case CheckTransaction tx of
        (False, tx) \<Rightarrow> (Some (False, tx, False), P, c)
      | (True, tx) \<Rightarrow>
          if IsCoinBase tx then (Some (False, snd (DoS tx 100 False), False), P, c)
          else if uint (nLockTime tx) > 2 ^ 31 - 1 then (Some (False, tx, False), P, c)
          else if \<not> fTestNet N \<and> \<not> CTransaction_IsStandard tx then (Some (False, tx, False), P, c)
          else
            let hash = GetHash E tx in
            if mapTx P hash \<noteq> None then (Some (False, tx, False), P, c)
            else if fCheckInputs \<and> ContainsTx db hash then (Some (False, tx, False), P, c)
            else if list_ex (\<lambda>txin. mapNextTx P (prevout txin) \<noteq> None) (vin tx)
            then (Some (False, tx, False), P, c)
            else
              (case (if fCheckInputs then accept_inputs E N files db pindexBest nBestHeight tx P c
                     else (Some (True, tx, False), P, c)) of
                 (Some (True, tx, missing), P, c) \<Rightarrow> (Some (True, tx, missing), addUnchecked hash tx P, c)
               | r \<Rightarrow> r))"

section \<open>The two maps agree\<close>

text \<open>Every transaction stands under its hash and passed the checks, and \<^verbatim>\<open>mapNextTx\<close> is the index of
  all inputs in the pool.\<close>

definition pool_ok :: "ext \<Rightarrow> CTxMemPool \<Rightarrow> bool" where
  "pool_ok E P \<longleftrightarrow>
     (\<forall>h tx. mapTx P h = Some tx \<longrightarrow> GetHash E tx = h \<and> fst (CheckTransaction tx) \<and> \<not> IsCoinBase tx) \<and>
     (\<forall>p q. mapNextTx P p = Some q \<longleftrightarrow>
        (\<exists>tx. mapTx P (ptx q) = Some tx \<and> inN q < length (vin tx) \<and> prevout (vin tx ! inN q) = p))"

lemma pool_okD:
  assumes "pool_ok E P"
  shows "mapTx P h = Some tx \<Longrightarrow> GetHash E tx = h"
    "mapTx P h = Some tx \<Longrightarrow> fst (CheckTransaction tx)"
    "mapTx P h = Some tx \<Longrightarrow> \<not> IsCoinBase tx"
    "mapNextTx P p = Some q \<longleftrightarrow>
        (\<exists>tx. mapTx P (ptx q) = Some tx \<and> inN q < length (vin tx) \<and> prevout (vin tx ! inN q) = p)"
  using assms unfolding pool_ok_def by blast+

lemma add_inputs_Some:
  "distinct (map prevout vs) \<Longrightarrow>
     add_inputs h i vs m p = Some q \<longleftrightarrow>
       (\<exists>k<length vs. prevout (vs ! k) = p \<and> q = \<lparr>ptx = h, inN = i + k\<rparr>) \<or>
       (p \<notin> set (map prevout vs) \<and> m p = Some q)"
proof (induction vs arbitrary: i m)
  case (Cons v vs)
  have "(\<exists>k<length (v # vs). prevout ((v # vs) ! k) = p \<and> q = \<lparr>ptx = h, inN = i + k\<rparr>) \<longleftrightarrow>
      (prevout v = p \<and> q = \<lparr>ptx = h, inN = i\<rparr>) \<or>
      (\<exists>k<length vs. prevout (vs ! k) = p \<and> q = \<lparr>ptx = h, inN = i + 1 + k\<rparr>)"
    by (simp add: Ex_less_Suc2)
  note split = this
  show ?case
  proof (cases "prevout v = p")
    case True
    then have "p \<notin> set (map prevout vs)" using Cons.prems by simp
    moreover from this have "\<not> (\<exists>k<length vs. prevout (vs ! k) = p \<and> q = \<lparr>ptx = h, inN = i + 1 + k\<rparr>)"
      by (metis in_set_conv_nth length_map nth_map)
    ultimately show ?thesis
      using Cons.IH [of "i + 1" "m(prevout v \<mapsto> \<lparr>ptx = h, inN = i\<rparr>)"] Cons.prems True unfolding split by (auto simp del: fun_upd_apply) (simp_all add: fun_upd_apply)
  next
    case False
    then show ?thesis
      using Cons.IH [of "i + 1" "m(prevout v \<mapsto> \<lparr>ptx = h, inN = i\<rparr>)"] Cons.prems unfolding split by (simp add: fun_upd_def)
  qed
qed simp

lemma erase_inputs:
  "fold (\<lambda>txin m. m(prevout txin := None)) vs m p = (if p \<in> set (map prevout vs) then None else m p)"
  by (induction vs arbitrary: m) auto

lemma pool_ok_empty: "pool_ok E empty_pool"
  by (simp add: pool_ok_def empty_pool_def)

lemma pool_ok_clear: "pool_ok E (pool_clear P)"
  by (simp add: pool_ok_def pool_clear_def)

lemma pool_ok_cong:
  "mapTx P' = mapTx P \<Longrightarrow> mapNextTx P' = mapNextTx P \<Longrightarrow> pool_ok E P' \<longleftrightarrow> pool_ok E P"
  by (simp add: pool_ok_def)

lemma pool_ok_add:
  assumes ok: "pool_ok E P" and new: "mapTx P (GetHash E tx) = None"
    and tx: "fst (CheckTransaction tx)" "\<not> IsCoinBase tx"
    and free: "\<not> list_ex (\<lambda>txin. mapNextTx P (prevout txin) \<noteq> None) (vin tx)"
  shows "pool_ok E (addUnchecked (GetHash E tx) tx P)"
proof -
  have d: "distinct (map prevout (vin tx))" using tx(1) by (simp add: CheckTransaction_iff)
  have "mapNextTx (addUnchecked (GetHash E tx) tx P) p = Some q \<longleftrightarrow>
      (\<exists>t. ((mapTx P)(GetHash E tx \<mapsto> tx)) (ptx q) = Some t \<and> inN q < length (vin t) \<and>
         prevout (vin t ! inN q) = p)" for p q
  proof (cases "ptx q = GetHash E tx")
    case True
    have "mapNextTx P p \<noteq> Some q" using pool_okD(4) [OF ok, of p q] True new by simp
    then show ?thesis
      using True by (cases q) (auto simp: addUnchecked_def add_inputs_Some [OF d])
  next
    case False
    have "mapNextTx P p = Some q \<Longrightarrow> p \<notin> set (map prevout (vin tx))"
      using free by (auto simp: list_ex_iff)
    with False show ?thesis
      using pool_okD(4) [OF ok, of p q] by (auto simp: addUnchecked_def add_inputs_Some [OF d])
  qed
  then show ?thesis
    using tx pool_okD(1-3) [OF ok] by (auto simp: pool_ok_def addUnchecked_def)
qed

text \<open>Removing: the transaction given has the inputs of the one in the pool, or their serializations
  collide.\<close>

lemma size_vec_member:
  assumes "x \<in> set v"
  shows "f x \<le> size_vec f v"
proof -
  have "f x \<le> sum_list (map f v)" using assms member_le_sum_list [of "f x" "map f v"] by simp
  then show ?thesis by (simp add: size_vec_def foldl_add_sum)
qed

lemma size_fits: "size_CTransaction tx \<le> 1000000 \<Longrightarrow> tx_fits tx"
proof -
  assume s: "size_CTransaction tx \<le> 1000000"
  have "length (vin tx) \<le> size_vec size_CTxIn (vin tx)" "length (vout tx) \<le> size_vec size_CTxOut (vout tx)"
    by (intro length_le_size_vec; simp add: size_CTxIn_def size_CTxOut_def)+
  moreover have "length (scriptSig i) \<le> size_vec size_CTxIn (vin tx)" if "i \<in> set (vin tx)" for i
    using size_vec_member [OF that, of size_CTxIn] by (simp add: size_CTxIn_def size_vch_def)
  moreover have "length (scriptPubKey t) \<le> size_vec size_CTxOut (vout tx)" if "t \<in> set (vout tx)" for t
    using size_vec_member [OF that, of size_CTxOut] by (simp add: size_CTxOut_def size_vch_def)
  ultimately show ?thesis
    using s by (fastforce simp: tx_fits_def script_fits_def size_CTransaction_def MAX_SIZE_def list_all_iff)
qed

lemma same_ser:
  assumes "tx_fits tx" "ser_CTransaction tx = ser_CTransaction tx'" "tx_fits tx'"
  shows "tx\<lparr>nDoS := 0\<rparr> = tx'\<lparr>nDoS := 0\<rparr>"
  using unser_ser_tx [OF assms(1), of "[]"] unser_ser_tx [OF assms(3), of "[]"] assms(2) by simp

lemma pool_ok_remove:
  assumes ok: "pool_ok E P"
    and same: "\<And>t. mapTx P (GetHash E tx) = Some t \<Longrightarrow> vin t = vin tx"
  shows "pool_ok E (pool_remove E tx P)"
proof (cases "mapTx P (GetHash E tx)")
  case (Some t)
  have vin: "vin t = vin tx" using same [OF Some] .
  have "(if p \<in> set (map prevout (vin tx)) then None else mapNextTx P p) = Some q \<longleftrightarrow>
      (\<exists>u. ((mapTx P)(GetHash E tx := None)) (ptx q) = Some u \<and> inN q < length (vin u) \<and>
         prevout (vin u ! inN q) = p)" for p q
  proof (cases "p \<in> set (map prevout (vin tx))")
    case True
    then obtain k where k: "k < length (vin t)" "prevout (vin t ! k) = p" using vin by (auto simp: in_set_conv_nth)
    have "mapNextTx P p = Some \<lparr>ptx = GetHash E tx, inN = k\<rparr>" using k Some pool_okD(4) [OF ok] by simp
    then show ?thesis using True pool_okD(4) [OF ok, of p q] by auto
  next
    case False
    then have "mapNextTx P p = Some q \<Longrightarrow> ptx q \<noteq> GetHash E tx"
      using pool_okD(4) [OF ok, of p q] Some vin by auto
    with False show ?thesis using pool_okD(4) [OF ok, of p q] by auto
  qed
  then show ?thesis
    using pool_okD(1-3) [OF ok] Some by (auto simp: pool_ok_def pool_remove_def Let_def erase_inputs)
next
  case None
  with ok show ?thesis by (simp add: pool_remove_def)
qed

section \<open>What is accepted\<close>

lemma sint_word_of_int: "- (2 ^ 63) \<le> k \<Longrightarrow> k < 2 ^ 63 \<Longrightarrow> sint (word_of_int k :: u64) = k"
  by (simp add: signed_of_int signed_take_bit_int_eq_self_iff)

lemma rate_limit_maps:
  "rate_limit N tx n P = (ok, P') \<Longrightarrow> mapTx P' = mapTx P \<and> mapNextTx P' = mapNextTx P"
  by (auto simp: rate_limit_def Let_def split: if_splits)

lemma FetchInputs_True:
  assumes "FetchInputs files db pool queued fBlock fMiner tx Map.empty = ((True, tx'), inputs, bad)"
    "\<not> IsCoinBase tx"
  shows "tx' = tx" "list_all (prevout_in_range inputs) (vin tx)"
    "inputs h = Some e \<Longrightarrow> fetch_prev files db pool queued fBlock fMiner h = Some e"
proof -
  have f: "FetchInputs_loop (fetch_prev files db pool queued fBlock fMiner) (vin tx) Map.empty = (True, inputs)"
    "\<not> list_ex (\<lambda>txin. \<not> prevout_in_range inputs txin) (vin tx)" and t: "tx' = tx"
    using assms by (auto simp: FetchInputs_def DoS_def split: prod.splits bool.splits if_splits)
  show "tx' = tx" by (rule t)
  show "inputs h = Some e \<Longrightarrow> fetch_prev files db pool queued fBlock fMiner h = Some e"
    using FetchInputs_loop_True [OF f(1), of h e] by simp
  show "list_all (prevout_in_range inputs) (vin tx)" using f(2) by (simp add: list_ex_iff list_all_iff)
qed

lemma ConnectInputs_loose:
  assumes "ConnectInputs E N tx inputs queued q pindex best False False strict c = (Some (True, tx'), queued', c')"
    "\<not> IsCoinBase tx"
  obtains nValueIn u where "tx' = tx" "connect_check N pindex (vin tx) inputs 0 = Ok nValueIn"
    "connect_spend E tx False False strict q (vin tx) 0 inputs queued c = (Ok u, queued', c')"
    "check_fee tx nValueIn = Some (True, tx)"
proof -
  have no: "refuse tx d \<noteq> Some (True, t)" for d t by (simp add: refuse_def DoS_def)
  obtain nValueIn where v: "connect_check N pindex (vin tx) inputs 0 = Ok nValueIn"
    using assms no by (auto simp: ConnectInputs_def split: outcome.splits)
  obtain u where s: "connect_spend E tx False False strict q (vin tx) 0 inputs queued c = (Ok u, queued', c')" and
    f: "check_fee tx nValueIn = Some (True, tx')"
    using assms no v by (auto simp: ConnectInputs_def split: outcome.splits prod.splits)
  have "tx' = tx" using f no by (auto simp: check_fee_def Let_def split: option.splits if_splits)
  with v s f that show thesis by blast
qed

lemma connect_check_sum:
  assumes "connect_check N pindex vs inputs v0 = Ok v" "MoneyRange (sint v0)"
  shows "MoneyRange (sint v) \<and> GetValueIn_loop vs inputs v0 = Some v \<and>
    sint v = sint v0 + (\<Sum>i\<leftarrow>vs. txout_value (snd (the (inputs (prev_hash (prevout i))))) (unat (prev_n (prevout i))))"
  using assms
proof (induction vs arbitrary: v0)
  case (Cons txin r)
  let ?p = "prevout txin" and ?n = "unat (prev_n (prevout txin))"
  obtain x t where i: "inputs (prev_hash ?p) = Some (x, t)"
    using Cons.prems(1) by (auto split: option.splits)
  let ?v = "nValue (vout t ! ?n)"
  have n: "?n < length (vout t)" and m: "MoneyRange (sint ?v)" "MoneyRange (sint (v0 + ?v))" and
    r: "connect_check N pindex r inputs (v0 + ?v) = Ok v"
    using Cons.prems(1) i by (auto simp: Let_def split: if_splits)
  have o': "GetOutputFor txin inputs = Some (vout t ! ?n)" using i n by (simp add: GetOutputFor_def)
  have "txout_value (snd (the (inputs (prev_hash ?p)))) ?n = sint ?v" using i n by (simp add: txout_value_def)
  then have sum: "sint v = sint v0 + (\<Sum>i\<leftarrow>txin # r. txout_value (snd (the (inputs (prev_hash (prevout i)))))
      (unat (prev_n (prevout i))))"
    using Cons.IH [OF r m(2)] sint_add_small [OF Cons.prems(2) m(1)] by simp
  have "GetValueIn_loop (txin # r) inputs v0 = Some v" using Cons.IH [OF r m(2)] o' by simp
  then show ?case using Cons.IH [OF r m(2)] sum by blast
qed simp

lemma connect_spend_checks:
  assumes "connect_spend E tx skip wr strict q vs i inputs queued c = (Ok u, queued', c')"
    "\<not> CDiskTxPos_IsNull q" "k < length vs"
  shows "\<exists>x t c1 c2. inputs (prev_hash (prevout (vs ! k))) = Some (x, t) \<and>
    unat (prev_n (prevout (vs ! k))) < length (vSpent x) \<and>
    CDiskTxPos_IsNull (vSpent x ! unat (prev_n (prevout (vs ! k)))) \<and>
    (skip \<or> VerifySignature E t tx (i + k) strict 0 c1 = Some (True, c2))"
  using assms(1,3)
proof (induction vs arbitrary: i inputs queued c k)
  case (Cons txin r)
  let ?p = "prevout txin"
  obtain x t where i: "inputs (prev_hash ?p) = Some (x, t)"
    using Cons.prems(1) by (auto split: option.splits)
  let ?x = "x\<lparr>vSpent := (vSpent x)[unat (prev_n ?p) := q]\<rparr>"
  from Cons.prems(1) i obtain c1 queued1 where
    n: "unat (prev_n ?p) < length (vSpent x)" "CDiskTxPos_IsNull (vSpent x ! unat (prev_n ?p))" and
    v: "(if skip then Some (True, c) else VerifySignature E t tx i strict 0 c) = Some (True, c1)" and
    r: "connect_spend E tx skip wr strict q r (i + 1) (inputs(prev_hash ?p \<mapsto> (?x, t))) queued1 c1 =
      (Ok u, queued', c')"
    by (auto simp: Let_def split: option.splits if_splits prod.splits)
  show ?case
  proof (cases k)
    case 0
    with i n v show ?thesis by (cases skip) auto
  next
    case (Suc l)
    with Cons.prems(2) have l: "l < length r" by simp
    let ?p' = "prevout (r ! l)"
    from Cons.IH [OF r l] obtain y t' c2 c3 where
      y: "(inputs(prev_hash ?p \<mapsto> (?x, t))) (prev_hash ?p') = Some (y, t')"
      "unat (prev_n ?p') < length (vSpent y)" "CDiskTxPos_IsNull (vSpent y ! unat (prev_n ?p'))"
      "skip \<or> VerifySignature E t' tx (i + 1 + l) strict 0 c2 = Some (True, c3)" by blast
    show ?thesis
    proof (cases "prev_hash ?p' = prev_hash ?p")
      case True
      then have y': "y = ?x" "t' = t" using y(1) by auto
      with y(2,3) assms(2) have "unat (prev_n ?p') \<noteq> unat (prev_n ?p)" using n(1) by auto
      then have "CDiskTxPos_IsNull (vSpent x ! unat (prev_n ?p'))" "unat (prev_n ?p') < length (vSpent x)"
        using y(2,3) y' by auto
      with True i y(4) y' Suc show ?thesis by auto
    next
      case False
      with y Suc show ?thesis by auto
    qed
  qed
qed simp

text \<open>Where an input of a loose transaction may come from: a transaction of the pool, or an output in
  the database that no connected block spends.\<close>

definition available :: "files \<Rightarrow> CTxDB \<Rightarrow> CTxMemPool \<Rightarrow> COutPoint \<Rightarrow> CTransaction \<Rightarrow> bool" where
  "available files db P p t \<longleftrightarrow>
     unat (prev_n p) < length (vout t) \<and>
     (if mapTx P (prev_hash p) = None
      then p \<in> utxo (dbTx (view db)) \<and>
        map_option (\<lambda>x. CTransaction_ReadFromDisk files (pos x)) (dbTx (view db) (prev_hash p)) = Some (Some t)
      else mapTx P (prev_hash p) = Some t)"

lemma fetch_prev_loose:
  assumes "fetch_prev files db (mapTx P) [] False False (prev_hash p) = Some (x, t)"
    "unat (prev_n p) < length (vout t)" "unat (prev_n p) < length (vSpent x)"
    "CDiskTxPos_IsNull (vSpent x ! unat (prev_n p))"
  shows "available files db P p t"
  using assms
  by (auto simp: fetch_prev_def available_def read_prev_def ReadTxIndex_def utxo_def split: option.splits if_splits)

lemma accept_inputs_True:
  assumes "accept_inputs E N files db pindex best tx P c = (Some (True, tx', missing), P', c')" "\<not> IsCoinBase tx"
  obtains inputs bad nIn nOut c1 q1 c2 P1 where "tx' = tx" "missing = False" "mapTx P' = mapTx P" "mapNextTx P' = mapNextTx P"
    "FetchInputs files db (mapTx P) [] False False tx Map.empty = ((True, tx), inputs, bad)"
    "GetValueIn tx inputs = Some nIn" "GetValueOut tx = Some nOut"
    "GetMinFee tx (word_of_nat (size_CTransaction tx)) True GMF_RELAY \<le> sint (nIn - nOut)"
    "ConnectInputs E N tx inputs [] \<lparr>dFile = 1, dBlockPos = 1, dTxPos = 1\<rparr> pindex best False False True c1 =
       (Some (True, tx), q1, c')"
proof -
  obtain ok t inputs bad where
    f: "FetchInputs files db (mapTx P) [] False False tx Map.empty = ((ok, t), inputs, bad)" by (metis surj_pair)
  have ok: ok using assms(1) f by (cases ok) (simp_all add: accept_inputs_def)
  have t: "t = tx" using FetchInputs_True(1) assms(2) f ok by metis
  obtain s c1 where a: "AreInputsStandard E tx inputs c = (Some s, c1)"
    using assms(1) f ok t by (cases "AreInputsStandard E tx inputs c"; cases "fst (AreInputsStandard E tx inputs c)")
      (auto simp: accept_inputs_def)
  have s: "\<not> (\<not> s \<and> \<not> fTestNet N)" using assms(1) f ok t a by (cases s; cases "fTestNet N") (auto simp: accept_inputs_def)
  obtain nIn nOut where v: "GetValueIn tx inputs = Some nIn" "GetValueOut tx = Some nOut"
    using assms(1) f ok t a s by (auto simp: accept_inputs_def split: option.splits)
  let ?fee = "sint (nIn - nOut)"
  have fee: "\<not> ?fee < GetMinFee tx (word_of_nat (size_CTransaction tx)) True GMF_RELAY"
    using assms(1) f ok t a s v by (auto simp: accept_inputs_def Let_def)
  obtain ok1 P1 where l: "(if ?fee < MIN_RELAY_TX_FEE then rate_limit N tx (size_CTransaction tx) P else (True, P)) =
      (ok1, P1)" by fastforce
  then have P1: "mapTx P1 = mapTx P \<and> mapNextTx P1 = mapNextTx P"
    using rate_limit_maps by (metis prod.inject)
  obtain o1 q1 c2 where
    c: "ConnectInputs E N tx inputs [] \<lparr>dFile = 1, dBlockPos = 1, dTxPos = 1\<rparr> pindex best False False True c1 = (o1, q1, c2)"
    by (metis surj_pair)
  have s': "(\<not> s \<and> \<not> fTestNet N) = False" using s by blast
  have "accept_inputs E N files db pindex best tx P c =
      (if \<not> ok1 then (Some (False, tx, False), P1, c1)
       else (map_option (\<lambda>(ok, tx). (ok, tx, False)) o1, P1, c2))"
    using s fee unfolding accept_inputs_def f t Let_def
    by (simp add: ok a v l c s' del: MIN_RELAY_TX_FEE_def split: option.split)
  from trans [OF this [symmetric] assms(1)]
  have "ok1 \<and> map_option (\<lambda>(ok, tx). (ok, tx, False)) o1 = Some (True, tx', missing) \<and> P1 = P' \<and> c2 = c'"
    by (cases ok1) simp_all
  then have all: "ok1 \<and> o1 = Some (True, tx') \<and> P' = P1 \<and> c2 = c' \<and> missing = False"
    by auto
  then have c': "ConnectInputs E N tx inputs [] \<lparr>dFile = 1, dBlockPos = 1, dTxPos = 1\<rparr> pindex best False False True c1 =
      (Some (True, tx'), q1, c')"
    using c by simp
  have tx': "tx' = tx" using ConnectInputs_loose [OF c' assms(2)] by blast
  have f': "FetchInputs files db (mapTx P) [] False False tx Map.empty = ((True, tx), inputs, bad)"
    using f ok t by simp
  show thesis
    by (rule that [OF tx' _ _ _ f' v _ c' [unfolded tx']]) (use all P1 fee in simp_all)
qed

lemma pool_accept_True:
  assumes "pool_accept E N files db pindex best tx check P c = (Some (True, tx', missing), P', c')"
  obtains P1 where "tx' = tx" "P' = addUnchecked (GetHash E tx) tx P1" "mapTx P1 = mapTx P" "mapNextTx P1 = mapNextTx P"
    "fst (CheckTransaction tx)" "\<not> IsCoinBase tx" "mapTx P (GetHash E tx) = None"
    "\<not> list_ex (\<lambda>txin. mapNextTx P (prevout txin) \<noteq> None) (vin tx)"
    "check \<Longrightarrow> \<not> ContainsTx db (GetHash E tx)"
    "check \<Longrightarrow> accept_inputs E N files db pindex best tx P c = (Some (True, tx, missing), P1, c')"
proof -
  obtain ok t where k: "CheckTransaction tx = (ok, t)" by fastforce
  have ok: ok using assms k by (cases ok) (simp_all add: pool_accept_def)
  have t: "t = tx" using CheckTransaction_accepts [of tx] k ok by simp
  have cb: "\<not> IsCoinBase tx"
    using assms k ok t by (cases "IsCoinBase tx") (simp_all add: pool_accept_def)
  obtain o1 P1 c1 where r: "(if check then accept_inputs E N files db pindex best tx P c
      else (Some (True, tx, False), P, c)) = (o1, P1, c1)" by (metis surj_pair)
  have all: "mapTx P (GetHash E tx) = None \<and> \<not> (check \<and> ContainsTx db (GetHash E tx)) \<and>
      \<not> list_ex (\<lambda>txin. mapNextTx P (prevout txin) \<noteq> None) (vin tx) \<and>
      (case (o1, P1, c1) of
         (Some (True, u, missing), P, c) \<Rightarrow> (Some (True, u, missing), addUnchecked (GetHash E tx) u P, c)
       | r \<Rightarrow> r) = (Some (True, tx', missing), P', c')"
    using assms unfolding pool_accept_def k
    by (simp add: ok t cb Let_def r split: if_split_asm)
  then have o1: "o1 = Some (True, tx', missing)" "P' = addUnchecked (GetHash E tx) tx' P1" "c1 = c'"
    by (auto split: option.splits bool.splits)
  have maps: "tx' = tx \<and> mapTx P1 = mapTx P \<and> mapNextTx P1 = mapNextTx P"
  proof (cases check)
    case True
    with r o1 have "accept_inputs E N files db pindex best tx P c = (Some (True, tx', missing), P1, c1)" by simp
    from accept_inputs_True [OF this cb] show ?thesis by metis
  next
    case False
    with r o1 show ?thesis by simp
  qed
  have "fst (CheckTransaction tx)" using k ok by simp
  moreover have "check \<Longrightarrow> accept_inputs E N files db pindex best tx P c = (Some (True, tx, missing), P1, c')"
    using r o1 maps by simp
  ultimately show thesis using that maps o1 all cb by blast
qed

lemma accept_inputs_maps:
  "accept_inputs E N files db pindex best tx P c = (r, P', c') \<Longrightarrow>
     mapTx P' = mapTx P \<and> mapNextTx P' = mapNextTx P"
proof -
  assume a: "accept_inputs E N files db pindex best tx P c = (r, P', c')"
  have "P' = P \<or> (\<exists>t n ok. rate_limit N t n P = (ok, P'))"
    using a unfolding accept_inputs_def Let_def
    by (simp split: prod.splits if_splits option.splits) (metis prod.inject)+
  then show ?thesis using rate_limit_maps by metis
qed

lemma pool_accept_False:
  assumes "pool_accept E N files db pindex best tx check P c = (r, P', c')" "r = None \<or> \<not> fst (the r)"
  shows "mapTx P' = mapTx P \<and> mapNextTx P' = mapNextTx P"
proof -
  obtain ok t where k: "CheckTransaction tx = (ok, t)" by fastforce
  obtain o1 P1 c1 where r: "(if check then accept_inputs E N files db pindex best t P c
      else (Some (True, t, False), P, c)) = (o1, P1, c1)" by (metis surj_pair)
  have "mapTx P1 = mapTx P \<and> mapNextTx P1 = mapNextTx P"
    using r accept_inputs_maps by (cases check) auto
  moreover have "P' = P \<or> P' = P1"
    using assms unfolding pool_accept_def k
    by (cases ok) (auto simp: Let_def r split: if_split_asm option.splits bool.splits)
  ultimately show ?thesis by metis
qed

text \<open>The pools a node can have: transactions are accepted (with or without the checks of their inputs)
  and removed, the pool is cleared. The list holds the transactions given.\<close>

inductive pool_reach :: "ext \<Rightarrow> CTransaction list \<Rightarrow> CTxMemPool \<Rightarrow> bool" for E :: ext where
  empty: "pool_reach E [] empty_pool"
| accept: "pool_reach E txs P \<Longrightarrow>
    pool_accept E N files db pindex best tx check P c = (r, P', c') \<Longrightarrow> pool_reach E (tx # txs) P'"
| remove: "pool_reach E txs P \<Longrightarrow> pool_reach E (tx # txs) (pool_remove E tx P)"
| clear: "pool_reach E txs P \<Longrightarrow> pool_reach E txs (pool_clear P)"

lemma collision_mono: "collision E ss \<Longrightarrow> set ss \<subseteq> set ts \<Longrightarrow> collision E ts"
  by (auto simp: collision_def list_ex_iff)

text \<open>What is in the pool was given to it.\<close>

lemma pool_reach_given:
  "pool_reach E txs P \<Longrightarrow> mapTx P h = Some t \<Longrightarrow> t \<in> set txs"
proof (induction rule: pool_reach.induct)
  case (accept txs P N files db pindex best tx check c r P' c')
  show ?case
  proof (cases "r = None \<or> \<not> fst (the r)")
    case True
    then show ?thesis using pool_accept_False [OF accept(2)] accept by auto
  next
    case False
    then obtain tx' missing where r: "r = Some (True, tx', missing)" by auto
    from accept(2) [unfolded r] show ?thesis
    proof (cases rule: pool_accept_True)
      case (1 P1)
      then show ?thesis using accept(3,4) by (auto simp: addUnchecked_def split: if_splits)
    qed
  qed
qed (auto simp: empty_pool_def pool_remove_def pool_clear_def Let_def split: if_splits)

text \<open>C10: However transactions are accepted into the memory pool, with or without the checks of their
  inputs, and removed from it, its two maps agree: every transaction stands under its own hash,
  passed CheckTransaction and is no coin base, and mapNextTx holds exactly the inputs of the
  transactions of the pool, so that no two of them spend the same output. The only way out is a
  collision of the hash between two transactions given to the pool.\<close>

theorem mempool_consistent:
  assumes "pool_reach E txs P"
  shows "pool_ok E P \<or> collision E (map ser_CTransaction txs)"
  using assms
proof (induction rule: pool_reach.induct)
  case (accept txs P N files db pindex best tx check c r P' c')
  show ?case
  proof (cases "pool_ok E P")
    case ok: True
    show ?thesis
    proof (cases "r = None \<or> \<not> fst (the r)")
      case True
      then show ?thesis using pool_accept_False [OF accept(2)] ok pool_ok_cong by blast
    next
      case False
      then obtain tx' missing where r: "r = Some (True, tx', missing)" by auto
      from accept(2) [unfolded r] show ?thesis
      proof (cases rule: pool_accept_True)
        case (1 P1)
        have "pool_ok E P1" using ok 1(3,4) pool_ok_cong by blast
        then have "pool_ok E P'" unfolding 1(2) using 1 by (intro pool_ok_add) simp_all
        then show ?thesis ..
      qed
    qed
  next
    case False
    then show ?thesis using accept.IH collision_mono [of E _ "map ser_CTransaction (tx # txs)"] by fastforce
  qed
next
  case (remove txs P tx)
  show ?case
  proof (cases "pool_ok E P \<and> \<not> collision E (map ser_CTransaction (tx # txs))")
    case True
    have "vin t = vin tx" if t: "mapTx P (GetHash E tx) = Some t" for t
    proof -
      have "t \<in> set txs" using pool_reach_given [OF remove(1) t] .
      moreover have "GetHash E t = GetHash E tx" using True pool_okD(1) t by blast
      ultimately have "ser_CTransaction t = ser_CTransaction tx"
        using True collisionI [of "ser_CTransaction t" "map ser_CTransaction (tx # txs)" "ser_CTransaction tx" E]
        by (auto simp: GetHash_def)
      note ser = this
      then have size: "size_CTransaction t = size_CTransaction tx" by (metis length_ser_CTransaction)
      have "size_CTransaction t \<le> 1000000"
        using True pool_okD(2) [of E P _ t] t by (simp add: CheckTransaction_iff)
      then have "tx_fits t" "tx_fits tx" using size by (auto intro: size_fits)
      from same_ser [OF this(1) ser this(2)]
      have "vin (t\<lparr>nDoS := 0\<rparr>) = vin (tx\<lparr>nDoS := 0\<rparr>)" by simp
      then show ?thesis by simp
    qed
    with True pool_ok_remove show ?thesis by blast
  next
    case False
    then show ?thesis using remove.IH collision_mono [of E _ "map ser_CTransaction (tx # txs)"] by fastforce
  qed
qed (simp_all add: pool_ok_empty pool_ok_clear)

text \<open>C11: A transaction that accept takes with its inputs checked is one the network would confirm: it is
  well formed and new to the pool and the database, none of its inputs is spent by the pool, every
  input refers to an existing output, either of a transaction of the pool or unspent in the
  database, its signature verifies against that output, and it pays at least the relay fee for its
  size. It is stored under its hash, and nothing else changes in the two maps but its inputs.\<close>

theorem mempool_accept_sound:
  assumes "pool_accept E N files db pindex best tx True P c = (Some (True, tx', missing), P', c')"
  shows "tx' = tx \<and> mapTx P' = (mapTx P)(GetHash E tx \<mapsto> tx) \<and>
    mapNextTx P' = add_inputs (GetHash E tx) 0 (vin tx) (mapNextTx P) \<and>
    fst (CheckTransaction tx) \<and> \<not> IsCoinBase tx \<and>
    mapTx P (GetHash E tx) = None \<and> dbTx (view db) (GetHash E tx) = None \<and>
    list_all (\<lambda>txin. mapNextTx P (prevout txin) = None) (vin tx) \<and>
    (\<exists>prev. list_all (\<lambda>i. let p = prevout (vin tx ! i) in
         available files db P p (prev (prev_hash p)) \<and>
         (\<exists>c1 c2. VerifySignature E (prev (prev_hash p)) tx i True 0 c1 = Some (True, c2))) [0..<length (vin tx)] \<and>
       GetMinFee tx (word_of_nat (size_CTransaction tx)) True GMF_RELAY + (\<Sum>t\<leftarrow>vout tx. sint (nValue t)) \<le>
         (\<Sum>i\<leftarrow>vin tx. txout_value (prev (prev_hash (prevout i))) (unat (prev_n (prevout i)))))"
  using assms
proof (cases rule: pool_accept_True)
  case (1 P1)
  note cb = 1(6) and a = 1(10) [OF TrueI]
  from accept_inputs_True [OF a cb] obtain inputs bad nIn nOut c1 q1 where
    f: "FetchInputs files db (mapTx P) [] False False tx Map.empty = ((True, tx), inputs, bad)" and
    v: "GetValueIn tx inputs = Some nIn" "GetValueOut tx = Some nOut" and
    fee: "GetMinFee tx (word_of_nat (size_CTransaction tx)) True GMF_RELAY \<le> sint (nIn - nOut)" and
    c: "ConnectInputs E N tx inputs [] \<lparr>dFile = 1, dBlockPos = 1, dTxPos = 1\<rparr> pindex best False False True c1 =
       (Some (True, tx), q1, c')"
    by metis
  from ConnectInputs_loose [OF c cb] obtain n u where
    chk: "connect_check N pindex (vin tx) inputs 0 = Ok n" and
    sp: "connect_spend E tx False False True \<lparr>dFile = 1, dBlockPos = 1, dTxPos = 1\<rparr> (vin tx) 0 inputs [] c1 =
      (Ok u, q1, c')" and cf: "check_fee tx n = Some (True, tx)"
    by metis
  have m0: "MoneyRange (sint (0 :: u64))" by (simp add: MoneyRange_def)
  note sum = connect_check_sum [OF chk m0]
  have n: "nIn = n" using sum v(1) cb by (simp add: GetValueIn_def)
  define prev where "prev h = snd (the (inputs h))" for h
  have src: "available files db P (prevout (vin tx ! i)) (prev (prev_hash (prevout (vin tx ! i)))) \<and>
      (\<exists>c1 c2. VerifySignature E (prev (prev_hash (prevout (vin tx ! i)))) tx i True 0 c1 = Some (True, c2))"
    if i: "i < length (vin tx)" for i
  proof -
    let ?p = "prevout (vin tx ! i)"
    have null: "\<not> CDiskTxPos_IsNull \<lparr>dFile = 1, dBlockPos = 1, dTxPos = 1\<rparr>" by (simp add: CDiskTxPos_IsNull_def)
    obtain x t c2 c3 where x: "inputs (prev_hash ?p) = Some (x, t)" "unat (prev_n ?p) < length (vSpent x)"
      "CDiskTxPos_IsNull (vSpent x ! unat (prev_n ?p))" "VerifySignature E t tx i True 0 c2 = Some (True, c3)"
      using connect_spend_checks [OF sp null i] by auto
    have "unat (prev_n ?p) < length (vout t)"
      using FetchInputs_True(2) [OF f cb] i x(1) by (fastforce simp: prevout_in_range_def list_all_length)
    then have "available files db P ?p t"
      using fetch_prev_loose [OF FetchInputs_True(3) [OF f cb x(1)]] x(2,3) by blast
    moreover have "prev (prev_hash ?p) = t" using x(1) by (simp add: prev_def)
    ultimately show ?thesis using x(4) by blast
  qed
  have le: "sint nOut \<le> sint n" using check_fee_True(1) [OF cf v(2)] sum by blast
  have "sint (nIn - nOut) = sint n - sint nOut"
  proof -
    have "0 \<le> sint n - sint nOut" "sint n - sint nOut < 2 ^ 63"
      using le sum GetValueOut_values(2) [OF v(2)] by (simp_all add: MoneyRange_def)
    then have "sint (word_of_int (sint n - sint nOut) :: u64) = sint n - sint nOut"
      by (intro sint_word_of_int) simp_all
    moreover have "nIn - nOut = word_of_int (sint n - sint nOut)"
      unfolding n using check_fee_True(2) [OF cf v(2)] sum by blast
    ultimately show ?thesis by simp
  qed
  then have "GetMinFee tx (word_of_nat (size_CTransaction tx)) True GMF_RELAY + (\<Sum>t\<leftarrow>vout tx. sint (nValue t)) \<le>
      (\<Sum>i\<leftarrow>vin tx. txout_value (prev (prev_hash (prevout i))) (unat (prev_n (prevout i))))"
    using fee sum GetValueOut_values(3) [OF v(2)] unfolding prev_def by simp
  with src have "\<exists>prev. list_all (\<lambda>i. let p = prevout (vin tx ! i) in
         available files db P p (prev (prev_hash p)) \<and>
         (\<exists>c1 c2. VerifySignature E (prev (prev_hash p)) tx i True 0 c1 = Some (True, c2))) [0..<length (vin tx)] \<and>
       GetMinFee tx (word_of_nat (size_CTransaction tx)) True GMF_RELAY + (\<Sum>t\<leftarrow>vout tx. sint (nValue t)) \<le>
         (\<Sum>i\<leftarrow>vin tx. txout_value (prev (prev_hash (prevout i))) (unat (prev_n (prevout i))))"
    by (intro exI [of _ prev] conjI) (simp_all add: list_all_iff Let_def)
  moreover have "list_all (\<lambda>txin. mapNextTx P (prevout txin) = None) (vin tx)"
    using 1(8) by (simp add: list_ex_iff list_all_iff)
  moreover have "dbTx (view db) (GetHash E tx) = None" using 1(9) by (simp add: ContainsTx_def)
  moreover have "mapTx P' = (mapTx P)(GetHash E tx \<mapsto> tx)"
    "mapNextTx P' = add_inputs (GetHash E tx) 0 (vin tx) (mapNextTx P)"
    using 1(2-4) by (simp_all add: addUnchecked_def)
  ultimately show ?thesis using 1(1,5-7) by blast
qed

section \<open>A transaction accepted\<close>

definition open_tx :: CTransaction where
  "open_tx = \<lparr>nVersion = 2, vin = [\<lparr>prevout = COutPoint 5 0, scriptSig = [], nSequence = - 1\<rparr>],
     vout = [\<lparr>nValue = 1000000000, scriptPubKey = [81]\<rparr>], nLockTime = 0, nDoS = 0\<rparr>"

definition loose_tx :: CTransaction where
  "loose_tx = \<lparr>nVersion = 1, vin = [\<lparr>prevout = COutPoint (GetHash ext_ref open_tx) 0, scriptSig = [], nSequence = - 1\<rparr>],
     vout = [\<lparr>nValue = 900000000, scriptPubKey = [81]\<rparr>], nLockTime = 0, nDoS = 0\<rparr>"

definition loose_pool :: CTxMemPool where
  "loose_pool = empty_pool\<lparr>mapTx := [GetHash ext_ref open_tx \<mapsto> open_tx]\<rparr>"

definition no_db :: CTxDB where
  "no_db = \<lparr>view = \<lparr>dbTx = Map.empty, dbBlock = Map.empty, dbBest = None, dbInvalidWork = 0, dbSyncCheckpoint = None\<rparr>, active = None, room = 0\<rparr>"

lemma loose_tx_ok:
  "CheckTransaction loose_tx = (True, loose_tx)" "\<not> IsCoinBase loose_tx"
  "GetValueOut loose_tx = Some 900000000" "size_CTransaction loose_tx = 61"
  by (simp_all add: CheckTransaction_def IsCoinBase_def loose_tx_def size_CTransaction_def size_vec_def size_CTxIn_def
      size_CTxOut_def size_vch_def GetSizeOfCompactSize_def GetValueOut_def MoneyRange_def COutPoint_IsNull_def)

lemma eval_open:
  "EvalScript ext_ref [] [] tx i 0 c = (True, [], c)"
  "EvalScript ext_ref [] [81] tx i 0 c = (True, [getvch (bn ext_ref) 1], c)"
proof -
  have opn: "opn (Suc 0) = 81" by (simp add: opn_def)
  show "EvalScript ext_ref [] [] tx i 0 c = (True, [], c)"
    by (simp add: EvalScript_start MAX_SCRIPT_SIZE_def eval_loop_Nil start_def)
  show "EvalScript ext_ref [] [81] tx i 0 c = (True, [getvch (bn ext_ref) 1], c)"
    using eval_small [of 1 ext_ref "start [81] [] c" tx i 0 "[]"] ext_lawsD(1) [OF ext_ref_laws]
    by (simp add: EvalScript_start MAX_SCRIPT_SIZE_def eval_loop_Nil start_def opn)
qed

lemma vout_open: "vout open_tx = [\<lparr>nValue = 1000000000, scriptPubKey = [81]\<rparr>]"
  by (simp add: open_tx_def)

lemma verify_open:
  assumes "vin tx ! i = \<lparr>prevout = COutPoint (GetHash ext_ref open_tx) 0, scriptSig = [], nSequence = - 1\<rparr>" "i < length (vin tx)"
  shows "VerifySignature ext_ref open_tx tx i True 0 c = Some (True, c)"
proof -
  have "CastToBool (getvch (bn ext_ref) 1)"
  proof -
    have "length (mpi_body 1) = 1" by code_simp
    then show ?thesis using CastToBool_getvch [OF ext_lawsD(1) [OF ext_ref_laws], of 1] by simp
  qed
  then show ?thesis
    using assms eval_open
    by (simp add: VerifySignature_def VerifyScript_def IsPayToScriptHash_def Let_def vout_open)
qed

lemma AreInputsStandard_total:
  "list_all (\<lambda>txin. GetOutputFor txin inputs \<noteq> None) vs \<Longrightarrow>
     \<exists>b c'. AreInputsStandard_loop E tx inputs i vs c = (Some b, c')"
proof (induction vs arbitrary: i c)
  case (Cons v vs)
  then obtain prev where prev: "GetOutputFor v inputs = Some prev" by auto
  obtain ok w sol where sol: "Solver (scriptPubKey prev) = (ok, w, sol)" by (metis surj_pair)
  obtain r st c1 where e: "EvalScript E [] (scriptSig v) tx i 0 c = (r, st, c1)" by (metis surj_pair)
  obtain b c2 where "AreInputsStandard_loop E tx inputs (i + 1) vs c1 = (Some b, c2)"
    using Cons by fastforce
  then have rest: "\<exists>b c2. AreInputsStandard_loop E tx inputs (i + 1) vs c1 = (Some b, c2)" by blast
  have other: "\<exists>b c'. (if q then (Some u, d) else X) = (Some b, c')"
    if "\<exists>b c'. X = (Some b, c')" for q u d and X :: "bool option \<times> sigcache"
    using that by (cases q) simp_all
  have some: "\<exists>b c'. (case a of None \<Rightarrow> (Some u, d) | Some n \<Rightarrow> f n) = (Some b, c')"
    if "\<And>n. \<exists>b c'. f n = (Some b, c')" for a :: "int option" and u d and f :: "int \<Rightarrow> bool option \<times> sigcache"
    using that by (cases a) simp_all
  show ?case
    unfolding AreInputsStandard_loop.simps prev option.case sol prod.case e Let_def
  proof (intro other, cases r, simp_all only: bool.case)
    show "\<exists>b c'. (Some False, c1) = (Some b, c')" by blast
  qed (intro some other rest)
qed auto

lemma hash_first_byte:
  "32 \<le> size_CTransaction tx \<Longrightarrow> mem (GetHash ext_ref tx) ! 0 = ser_word (nVersion tx) ! 0"
  by (simp add: GetHash_def Hash_def ext_ref_def codec_simps length_ser_CTransaction)
    (simp add: ser_CTransaction_def nth_append len_simps)

lemma loose_hash: "GetHash ext_ref loose_tx \<noteq> GetHash ext_ref open_tx"
proof -
  have b: "ser_word (1 :: u32) ! 0 = 1" "ser_word (2 :: u32) ! 0 = 2" by code_simp+
  then have "mem (GetHash ext_ref loose_tx) ! 0 = 1"
    using hash_first_byte [of loose_tx] loose_tx_ok(4) by (simp add: loose_tx_def)
  moreover have "size_CTransaction open_tx = 61"
    by (simp add: open_tx_def size_CTransaction_def size_vec_def size_CTxIn_def size_CTxOut_def size_vch_def
        GetSizeOfCompactSize_def)
  then have "mem (GetHash ext_ref open_tx) ! 0 = 2"
    using hash_first_byte [of open_tx] b by (simp add: open_tx_def)
  ultimately show ?thesis by auto
qed

lemma loose_accepted:
  "\<exists>c. pool_accept ext_ref (sample_env\<lparr>fTestNet := True\<rparr>) Map.empty no_db [] 0 loose_tx True loose_pool empty_cache =
     (Some (True, loose_tx, False), addUnchecked (GetHash ext_ref loose_tx) loose_tx loose_pool, c)"
proof -
  let ?N = "sample_env\<lparr>fTestNet := True\<rparr>" and ?in = "[GetHash ext_ref open_tx \<mapsto> (pool_index open_tx, open_tx)]"
  have f: "FetchInputs Map.empty no_db (mapTx loose_pool) [] False False loose_tx Map.empty = ((True, loose_tx), ?in, False)"
    by (simp add: FetchInputs_def IsCoinBase_def loose_tx_def COutPoint_IsNull_def fetch_prev_def loose_pool_def
        prevout_in_range_def pool_index_def vout_open CTxIndex_SetNull_def)
  have out: "list_all (\<lambda>txin. GetOutputFor txin ?in \<noteq> None) (vin loose_tx)"
    by (simp add: GetOutputFor_def loose_tx_def vout_open)
  obtain b c1 where a: "AreInputsStandard ext_ref loose_tx ?in empty_cache = (Some b, c1)"
    using AreInputsStandard_total [OF out] loose_tx_ok(2) by (metis AreInputsStandard_def)
  have v: "GetValueIn loose_tx ?in = Some 1000000000"
    using loose_tx_ok(2) by (simp add: GetValueIn_def GetOutputFor_def loose_tx_def vout_open)
  have fee: "GetMinFee loose_tx 61 True GMF_RELAY = 0"
    by (simp add: GetMinFee_def loose_tx_def)
  have c: "ConnectInputs ext_ref ?N loose_tx ?in [] \<lparr>dFile = 1, dBlockPos = 1, dTxPos = 1\<rparr> [] 0 False False True c1 =
      (Some (True, loose_tx), [], c1)"
  proof -
    have 1: "vin loose_tx = [\<lparr>prevout = COutPoint (GetHash ext_ref open_tx) 0, scriptSig = [], nSequence = - 1\<rparr>]"
      "vout open_tx = [\<lparr>nValue = 1000000000, scriptPubKey = [81]\<rparr>]" "\<not> IsCoinBase open_tx"
      by (simp_all add: loose_tx_def open_tx_def IsCoinBase_def COutPoint_IsNull_def)
    have 2: "vSpent (pool_index open_tx) = [CDiskTxPos_SetNull]" "CDiskTxPos_IsNull CDiskTxPos_SetNull"
      using 1 by (simp_all add: pool_index_def CTxIndex_SetNull_def CDiskTxPos_IsNull_def CDiskTxPos_SetNull_def)
    have 3: "connect_check ?N [] (vin loose_tx) ?in 0 = Ok 1000000000"
      using 1 2 by (simp add: MoneyRange_def)
    have "VerifySignature ext_ref open_tx loose_tx 0 True 0 c1 = Some (True, c1)"
      using 1 by (intro verify_open) simp_all
    then have 4: "connect_spend ext_ref loose_tx False False True \<lparr>dFile = 1, dBlockPos = 1, dTxPos = 1\<rparr> (vin loose_tx)
        0 ?in [] c1 = (Ok (), [], c1)"
      using 1 2 by simp
    have "check_fee loose_tx 1000000000 = Some (True, loose_tx)"
      using loose_tx_ok(3) by (simp add: check_fee_def MoneyRange_def)
    with 3 4 show ?thesis using loose_tx_ok(2) by (simp add: ConnectInputs_def)
  qed
  have i: "accept_inputs ext_ref ?N Map.empty no_db [] 0 loose_tx loose_pool empty_cache =
      (Some (True, loose_tx, False), loose_pool, c1)"
    using loose_tx_ok(3,4) by (simp add: accept_inputs_def f a v fee c Let_def)
  show ?thesis
    using loose_tx_ok i loose_hash
    by (intro exI [of _ c1]) (simp add: pool_accept_def Let_def loose_pool_def empty_pool_def ContainsTx_def no_db_def,
        simp add: loose_tx_def)
qed

theorem mempool_accept_sound_witness:
  "mapNextTx (addUnchecked (GetHash ext_ref loose_tx) loose_tx loose_pool) (COutPoint (GetHash ext_ref open_tx) 0) =
     Some \<lparr>ptx = GetHash ext_ref loose_tx, inN = 0\<rparr>"
proof -
  obtain c where
    "pool_accept ext_ref (sample_env\<lparr>fTestNet := True\<rparr>) Map.empty no_db [] 0 loose_tx True loose_pool empty_cache =
     (Some (True, loose_tx, False), addUnchecked (GetHash ext_ref loose_tx) loose_tx loose_pool, c)"
    using loose_accepted by blast
  from mempool_accept_sound [OF this] show ?thesis by (simp add: loose_tx_def)
qed

theorem mempool_consistent_witness:
  "pool_ok ext_ref (addUnchecked (GetHash ext_ref loose_tx) loose_tx empty_pool)"
proof -
  have "pool_accept ext_ref (sample_env\<lparr>fTestNet := True\<rparr>) Map.empty no_db [] 0 loose_tx False empty_pool empty_cache =
     (Some (True, loose_tx, False), addUnchecked (GetHash ext_ref loose_tx) loose_tx empty_pool, empty_cache)"
    using loose_tx_ok by (simp add: pool_accept_def Let_def empty_pool_def) (simp add: loose_tx_def)
  from mempool_consistent [OF pool_reach.accept [OF pool_reach.empty this]]
  show ?thesis by (simp add: collision_def)
qed

end
