(* ===== verification/Orphans.thy ===== *)
theory Orphans
  imports Mempool
begin

text \<open>
  Orphan transactions (\<^verbatim>\<open>main.cpp\<close>): transactions with missing inputs wait in \<^verbatim>\<open>mapOrphanTransactions\<close>, as
  the messages they came in, and \<^verbatim>\<open>mapOrphanTransactionsByPrev\<close> lists for every transaction the orphans
  that spend it. The order of a hash table is not specified; here it is the order of a list. The
  handler of the message \<^verbatim>\<open>tx\<close> accepts a transaction, then retries the orphans that were waiting for
  it, then those waiting for these. The lemmas: the two maps stay consistent, the loops end, and no
  orphan is left behind whose inputs have become known.
\<close>

section \<open>Random numbers\<close>

text \<open>\<^verbatim>\<open>GetRand\<close> of \<^verbatim>\<open>util.cpp\<close> draws 64 random bits until they fall into the largest multiple of \<open>nMax\<close>. The
  draws to come are an argument; \<open>None\<close> when they run out.\<close>

fun GetRand_loop :: "nat \<Rightarrow> nat \<Rightarrow> u64 list \<Rightarrow> (nat \<times> u64 list) option" where
  "GetRand_loop nMax nRange [] = None"
| "GetRand_loop nMax nRange (d # ds) =
     (if unat d \<ge> nRange then GetRand_loop nMax nRange ds else Some (unat d mod nMax, ds))"

definition GetRand :: "nat \<Rightarrow> u64 list \<Rightarrow> (nat \<times> u64 list) option" where
  "GetRand nMax ds =
     (if nMax = 0 then Some (0, ds)
      else GetRand_loop nMax ((2 ^ 64 - 1) div nMax * nMax) ds)"

section \<open>The two maps\<close>

record orphans =
  oTx :: "(uint256 \<times> bytes) list"
  oPrev :: "uint256 \<rightharpoonup> (uint256 \<times> bytes) list"

definition no_orphans :: orphans where
  "no_orphans = \<lparr>oTx = [], oPrev = Map.empty\<rparr>"

definition MAX_ORPHAN_TRANSACTIONS :: nat where
  "MAX_ORPHAN_TRANSACTIONS = MAX_BLOCK_SIZE div 2 ^ 8"

definition waiting :: "orphans \<Rightarrow> uint256 \<Rightarrow> (uint256 \<times> bytes) list" where
  "waiting O' h = (case oPrev O' h of None \<Rightarrow> [] | Some l \<Rightarrow> l)"

text \<open>\<^verbatim>\<open>insert\<close> leaves an entry that is there.\<close>

definition insert_new :: "uint256 \<Rightarrow> bytes \<Rightarrow> (uint256 \<times> bytes) list \<Rightarrow> (uint256 \<times> bytes) list" where
  "insert_new h v l = (if map_of l h \<noteq> None then l else (h, v) # l)"

fun add_prev :: "uint256 \<Rightarrow> bytes \<Rightarrow> CTxIn list \<Rightarrow> orphans \<Rightarrow> orphans" where
  "add_prev hash msg [] O' = O'"
| "add_prev hash msg (txin # r) O' =
     (let p = prev_hash (prevout txin)
      in add_prev hash msg r (O'\<lparr>oPrev := (oPrev O')(p \<mapsto> insert_new hash msg (waiting O' p))\<rparr>))"

text \<open>\<open>None\<close> is an exception of the stream.\<close>

definition AddOrphanTx :: "ext \<Rightarrow> bytes \<Rightarrow> orphans \<Rightarrow> (bool \<times> orphans) option" where
  "AddOrphanTx E vMsg O' =
     (case unser_CTransaction vMsg of None \<Rightarrow> None
      | Some (tx, _) \<Rightarrow>
          let hash = GetHash E tx in
          if map_of (oTx O') hash \<noteq> None then Some (False, O')
          else if length vMsg > 5000 then Some (False, O')
          else Some (True, add_prev hash vMsg (vin tx) (O'\<lparr>oTx := AList.update hash vMsg (oTx O')\<rparr>)))"

fun erase_prev :: "uint256 \<Rightarrow> CTxIn list \<Rightarrow> orphans \<Rightarrow> orphans" where
  "erase_prev hash [] O' = O'"
| "erase_prev hash (txin # r) O' =
     (let p = prev_hash (prevout txin); l = AList.delete hash (waiting O' p)
      in erase_prev hash r (O'\<lparr>oPrev := (oPrev O')(p := if l = [] then None else Some l)\<rparr>))"

definition EraseOrphanTx :: "ext \<Rightarrow> uint256 \<Rightarrow> orphans \<Rightarrow> orphans option" where
  "EraseOrphanTx E hash O' =
     (case map_of (oTx O') hash of None \<Rightarrow> Some O'
      | Some vMsg \<Rightarrow>
          (case unser_CTransaction vMsg of None \<Rightarrow> None
           | Some (tx, _) \<Rightarrow>
               Some ((erase_prev hash (vin tx) O')\<lparr>oTx := AList.delete hash (oTx O')\<rparr>)))"

lemma erase_prev_oTx [simp]: "oTx (erase_prev hash vs O') = oTx O'"
  by (induction hash vs O' rule: erase_prev.induct) (simp_all add: Let_def)

lemma add_prev_oTx [simp]: "oTx (add_prev hash msg vs O') = oTx O'"
  by (induction hash msg vs O' rule: add_prev.induct) (simp_all add: Let_def)

lemma length_delete_less: "k \<in> fst ` set l \<Longrightarrow> length (AList.delete k l) < length l"
  by (induction l) (auto simp: le_imp_less_Suc length_delete_le)

lemma GetRand_less: "GetRand n ds = Some (i, ds') \<Longrightarrow> 0 < n \<Longrightarrow> i < n"
proof -
  have "GetRand_loop n range ds = Some (i, ds') \<Longrightarrow> 0 < n \<Longrightarrow> i < n" for range
    by (induction n range ds rule: GetRand_loop.induct) (auto split: if_splits)
  then show "GetRand n ds = Some (i, ds') \<Longrightarrow> 0 < n \<Longrightarrow> i < n"
    by (auto simp: GetRand_def)
qed

lemma EraseOrphanTx_shrinks:
  "EraseOrphanTx E (fst (oTx O' ! i)) O' = Some O'' \<Longrightarrow> i < length (oTx O') \<Longrightarrow>
     length (oTx O'') < length (oTx O')"
proof -
  assume e: "EraseOrphanTx E (fst (oTx O' ! i)) O' = Some O''" and i: "i < length (oTx O')"
  then have "fst (oTx O' ! i) \<in> fst ` set (oTx O')" by simp
  note k = this
  then have "map_of (oTx O') (fst (oTx O' ! i)) \<noteq> None" by (simp add: map_of_eq_None_iff)
  with length_delete_less [OF k] show ?thesis
    using e by (auto simp: EraseOrphanTx_def split: option.splits)
qed

function LimitOrphanTxSize ::
  "ext \<Rightarrow> nat \<Rightarrow> u64 list \<Rightarrow> orphans \<Rightarrow> (nat \<times> u64 list \<times> orphans) option" where
  "LimitOrphanTxSize E nMaxOrphans ds O' =
     (if length (oTx O') \<le> nMaxOrphans then Some (0, ds, O')
      else
        (case GetRand (length (oTx O')) ds of None \<Rightarrow> None
         | Some (i, ds) \<Rightarrow>
             (case EraseOrphanTx E (fst (oTx O' ! i)) O' of None \<Rightarrow> None
              | Some O'' \<Rightarrow>
                  map_option (\<lambda>(nEvicted, r). (nEvicted + 1, r)) (LimitOrphanTxSize E nMaxOrphans ds O''))))"
  by pat_completeness auto

termination
  by (relation "measure (\<lambda>(E, n, ds, O'). length (oTx O'))")
    (use EraseOrphanTx_shrinks GetRand_less in fastforce)+

declare LimitOrphanTxSize.simps [simp del]

section \<open>The message \<^verbatim>\<open>tx\<close>\<close>

record txstate =
  tPool :: CTxMemPool
  tOrph :: orphans
  tSigs :: sigcache

text \<open>The orphans waiting for one transaction, in turn: the hashes accepted and the hashes to erase. The
  flag tells whether an exception ended the loop.\<close>

fun try_orphans ::
  "ext \<Rightarrow> env \<Rightarrow> files \<Rightarrow> CTxDB \<Rightarrow> CBlockIndex list \<Rightarrow> int \<Rightarrow> (uint256 \<times> bytes) list \<Rightarrow> CTxMemPool \<Rightarrow> sigcache \<Rightarrow>
    bool \<times> uint256 list \<times> uint256 list \<times> CTxMemPool \<times> sigcache" where
  "try_orphans E N files db best h [] P c = (True, [], [], P, c)"
| "try_orphans E N files db best h ((_, vMsg) # r) P c =
     (case unser_CTransaction vMsg of None \<Rightarrow> (False, [], [], P, c)
      | Some (tx, _) \<Rightarrow>
          let hash = GetHash E tx in
          (case pool_accept E N files db best h tx True P c of
             (None, P, c) \<Rightarrow> (False, [], [], P, c)
           | (Some (True, _, _), P, c) \<Rightarrow>
               (case try_orphans E N files db best h r P c of
                  (ok, acc, era, P, c) \<Rightarrow> (ok, hash # acc, hash # era, P, c))
           | (Some (False, _, fMissingInputs2), P, c) \<Rightarrow>
               (case try_orphans E N files db best h r P c of
                  (ok, acc, era, P, c) \<Rightarrow> (ok, acc, if fMissingInputs2 then era else hash # era, P, c))))"

text \<open>Every accepted hash is new to the pool: the number of hashes not in the pool bounds the queue.\<close>

definition absent :: "CTxMemPool \<Rightarrow> nat" where
  "absent P = card {h :: uint256. mapTx P h = None}"

lemma absent_add: "mapTx P h = None \<Longrightarrow> mapTx P' = (mapTx P)(h \<mapsto> tx) \<Longrightarrow> absent P = Suc (absent P')"
proof -
  assume h: "mapTx P h = None" and P': "mapTx P' = (mapTx P)(h \<mapsto> tx)"
  then have "{x. mapTx P x = None} = insert h {x. mapTx P' x = None}" "h \<notin> {x. mapTx P' x = None}"
    by (auto split: if_splits)
  then show ?thesis unfolding absent_def by simp
qed

text \<open>What one call of accept does to the pool.\<close>

lemma pool_accept_cases:
  assumes "pool_accept E N files db best h tx True P c = (r, P', c')"
  obtains (yes) t m where "r = Some (True, t, m)" "mapTx P (GetHash E tx) = None"
      "mapTx P' = (mapTx P)(GetHash E tx \<mapsto> tx)"
    | (no) "r = None \<or> \<not> fst (the r)" "mapTx P' = mapTx P"
proof (cases "r = None \<or> \<not> fst (the r)")
  case True
  then show thesis using no pool_accept_False [OF assms] by blast
next
  case False
  then obtain t m where r: "r = Some (True, t, m)" by auto
  from assms [unfolded r] show thesis
    by (cases rule: pool_accept_True) (use r yes in \<open>simp add: addUnchecked_def\<close>)
qed

lemma try_orphans_absent:
  "try_orphans E N files db best h l P c = (ok, acc, era, P', c') \<Longrightarrow> absent P = length acc + absent P'"
proof (induction l arbitrary: P c ok acc era P' c')
  case (Cons e l)
  obtain k vMsg where e: "e = (k, vMsg)" by fastforce
  show ?case
  proof (cases "unser_CTransaction vMsg")
    case (Some a)
    obtain tx rest where tx: "unser_CTransaction vMsg = Some (tx, rest)" using Some by (cases a) auto
    obtain r P1 c1 where a: "pool_accept E N files db best h tx True P c = (r, P1, c1)" by (metis surj_pair)
    obtain ok2 acc2 era2 P2 c2 where t: "try_orphans E N files db best h l P1 c1 = (ok2, acc2, era2, P2, c2)"
      by (metis surj_pair)
    from a show ?thesis
    proof (cases rule: pool_accept_cases)
      case (yes t' m)
      then show ?thesis
        using Cons.prems Cons.IH [OF t] e tx a t absent_add [of P "GetHash E tx" P1 tx] by (auto simp: Let_def)
    next
      case no
      then have "absent P1 = absent P" by (simp add: absent_def)
      then show ?thesis
        using no Cons.prems Cons.IH [OF t] e tx a t by (cases r) (auto simp: Let_def split: bool.splits)
    qed
  qed (use Cons.prems e in simp)
qed simp

text \<open>The queue. Looking up \<^verbatim>\<open>mapOrphanTransactionsByPrev[hashPrev]\<close> creates the entry.\<close>

function process_orphans ::
  "ext \<Rightarrow> env \<Rightarrow> files \<Rightarrow> CTxDB \<Rightarrow> CBlockIndex list \<Rightarrow> int \<Rightarrow> uint256 list \<Rightarrow> txstate \<Rightarrow>
    bool \<times> uint256 list \<times> txstate" where
  "process_orphans E N files db best h [] S = (True, [], S)"
| "process_orphans E N files db best h (hashPrev # queue) S =
     (let O' = tOrph S; S = S\<lparr>tOrph := O'\<lparr>oPrev := (oPrev O')(hashPrev \<mapsto> waiting O' hashPrev)\<rparr>\<rparr> in
      case try_orphans E N files db best h (waiting O' hashPrev) (tPool S) (tSigs S) of
        (ok, acc, era, P, c) \<Rightarrow>
          let S = S\<lparr>tPool := P, tSigs := c\<rparr> in
          if \<not> ok then (False, era, S)
          else (case process_orphans E N files db best h (queue @ acc) S of
                  (ok, era', S) \<Rightarrow> (ok, era @ era', S)))"
  by pat_completeness auto

termination
  by (relation "measure (\<lambda>(E, N, files, db, best, h, queue, S). length queue + absent (tPool S))")
    (auto dest!: sym [THEN try_orphans_absent])

fun erase_all :: "ext \<Rightarrow> uint256 list \<Rightarrow> orphans \<Rightarrow> orphans option" where
  "erase_all E [] O' = Some O'"
| "erase_all E (h # r) O' = (case EraseOrphanTx E h O' of None \<Rightarrow> None | Some O' \<Rightarrow> erase_all E r O')"

text \<open>The handler: the score for the peer, or an exception. Relaying and the callbacks of the wallets are
  left out.\<close>

definition ProcessMessage_tx ::
  "ext \<Rightarrow> env \<Rightarrow> files \<Rightarrow> CTxDB \<Rightarrow> CBlockIndex list \<Rightarrow> int \<Rightarrow> u64 list \<Rightarrow> bytes \<Rightarrow> txstate \<Rightarrow> int option \<times> txstate" where
  "ProcessMessage_tx E N files db best h ds vRecv S =
     (case unser_CTransaction vRecv of None \<Rightarrow> (None, S)
      | Some (tx, _) \<Rightarrow>
          let vMsg = take (size_CTransaction tx) vRecv; hash = GetHash E tx in
          (case pool_accept E N files db best h tx True (tPool S) (tSigs S) of
             (None, P, c) \<Rightarrow> (None, S\<lparr>tPool := P, tSigs := c\<rparr>)
           | (Some (True, tx, _), P, c) \<Rightarrow>
               (case process_orphans E N files db best h [hash] (S\<lparr>tPool := P, tSigs := c\<rparr>) of
                  (ok, era, S) \<Rightarrow>
                    if \<not> ok then (None, S)
                    else (case erase_all E (hash # era) (tOrph S) of
                            None \<Rightarrow> (None, S)
                          | Some O' \<Rightarrow> (Some (nDoS tx), S\<lparr>tOrph := O'\<rparr>)))
           | (Some (False, tx, fMissingInputs), P, c) \<Rightarrow>
               let S = S\<lparr>tPool := P, tSigs := c\<rparr> in
               if fMissingInputs then
                 (case AddOrphanTx E vMsg (tOrph S) of
                    None \<Rightarrow> (None, S)
                  | Some (_, O') \<Rightarrow>
                      (case LimitOrphanTxSize E MAX_ORPHAN_TRANSACTIONS ds O' of
                         None \<Rightarrow> (None, S\<lparr>tOrph := O'\<rparr>)
                       | Some (nEvicted, ds, O') \<Rightarrow> (Some (nDoS tx), S\<lparr>tOrph := O'\<rparr>)))
               else (Some (nDoS tx), S)))"

section \<open>The maps stay consistent\<close>

definition spends :: "bytes \<Rightarrow> uint256 \<Rightarrow> bool" where
  "spends vMsg p \<longleftrightarrow>
     (case unser_CTransaction vMsg of None \<Rightarrow> False
      | Some (tx, _) \<Rightarrow> list_ex (\<lambda>txin. prev_hash (prevout txin) = p) (vin tx))"

definition orphan_msg :: "ext \<Rightarrow> uint256 \<Rightarrow> bytes \<Rightarrow> bool" where
  "orphan_msg E h vMsg \<longleftrightarrow>
     length vMsg \<le> 5000 \<and>
     (case unser_CTransaction vMsg of None \<Rightarrow> False | Some (tx, _) \<Rightarrow> GetHash E tx = h)"

definition orphans_ok :: "ext \<Rightarrow> orphans \<Rightarrow> bool" where
  "orphans_ok E O' \<longleftrightarrow>
     distinct (map fst (oTx O')) \<and> list_all (\<lambda>(h, vMsg). orphan_msg E h vMsg) (oTx O') \<and>
     (\<forall>p. distinct (map fst (waiting O' p))) \<and>
     (\<forall>p e. e \<in> set (waiting O' p) \<longleftrightarrow> e \<in> set (oTx O') \<and> spends (snd e) p)"

lemma orphans_okD:
  assumes "orphans_ok E O'"
  shows "distinct (map fst (oTx O'))" "(h, vMsg) \<in> set (oTx O') \<Longrightarrow> orphan_msg E h vMsg"
    "distinct (map fst (waiting O' p))" "e \<in> set (waiting O' p) \<longleftrightarrow> e \<in> set (oTx O') \<and> spends (snd e) p"
  using assms unfolding orphans_ok_def list_all_iff by (blast, fast, blast, blast)

lemma no_orphans_ok: "orphans_ok E no_orphans"
  by (simp add: orphans_ok_def no_orphans_def waiting_def)

lemma waiting_upd: "waiting (O'\<lparr>oPrev := (oPrev O')(p \<mapsto> l)\<rparr>) q = (if q = p then l else waiting O' q)"
  by (simp add: waiting_def)

lemma waiting_oTx [simp]: "waiting (O'\<lparr>oTx := x\<rparr>) = waiting O'"
  by (simp add: waiting_def fun_eq_iff)

lemma insert_new_props:
  assumes "\<And>m. (h, m) \<in> set l \<Longrightarrow> m = v" "distinct (map fst l)"
  shows "set (insert_new h v l) = insert (h, v) (set l)" "distinct (map fst (insert_new h v l))"
proof -
  have "set (insert_new h v l) = insert (h, v) (set l) \<and> distinct (map fst (insert_new h v l))"
  proof (cases "map_of l h")
    case None
    then show ?thesis using assms(2) by (simp add: insert_new_def map_of_eq_None_iff)
  next
    case (Some m)
    then have "(h, m) \<in> set l" by (rule map_of_SomeD)
    moreover from this have "m = v" by (rule assms(1))
    ultimately show ?thesis using assms(2) Some by (simp add: insert_new_def insert_absorb)
  qed
  then show "set (insert_new h v l) = insert (h, v) (set l)" "distinct (map fst (insert_new h v l))" by blast+
qed

lemma add_prev_waiting:
  assumes "\<And>q m. (h, m) \<in> set (waiting O' q) \<Longrightarrow> m = v" "\<And>q. distinct (map fst (waiting O' q))"
  shows "set (waiting (add_prev h v vs O') p) =
      (if list_ex (\<lambda>txin. prev_hash (prevout txin) = p) vs then insert (h, v) (set (waiting O' p))
       else set (waiting O' p))" (is ?A)
    "distinct (map fst (waiting (add_prev h v vs O') p))" (is ?B)
proof -
  have "?A \<and> ?B" using assms
  proof (induction vs arbitrary: O')
    case (Cons t vs)
    let ?q = "prev_hash (prevout t)"
    let ?O = "O'\<lparr>oPrev := (oPrev O')(?q \<mapsto> insert_new h v (waiting O' ?q))\<rparr>"
    note new = insert_new_props [where l = "waiting O' ?q", OF Cons.prems(1,2)]
    have w: "set (waiting ?O q) = (if q = ?q then insert (h, v) (set (waiting O' q)) else set (waiting O' q))"
      "distinct (map fst (waiting ?O q))" for q
      unfolding waiting_upd using new Cons.prems(2) by simp_all
    have only: "m = v" if "(h, m) \<in> set (waiting ?O q)" for q m
    proof (cases "q = ?q \<and> m = v")
      case False
      then have "(h, m) \<in> set (waiting O' q)" using that unfolding w(1) by (simp split: if_splits)
      then show ?thesis by (rule Cons.prems(1))
    qed simp
    note IH = Cons.IH [OF only w(2)]
    have e: "add_prev h v (t # vs) O' = add_prev h v vs ?O" by (simp add: Let_def)
    show ?case
      unfolding e using IH w(1) [of p] by (cases "?q = p") simp_all
  qed simp
  then show ?A ?B by blast+
qed

lemma set_delete: "set (AList.delete k l) = {e \<in> set l. fst e \<noteq> k}"
  by (auto simp: AList.delete_eq)

lemma erase_prev_waiting:
  "set (waiting (erase_prev h vs O') p) =
     (if list_ex (\<lambda>txin. prev_hash (prevout txin) = p) vs then {e \<in> set (waiting O' p). fst e \<noteq> h}
      else set (waiting O' p))"
  "(\<And>q. distinct (map fst (waiting O' q))) \<Longrightarrow> distinct (map fst (waiting (erase_prev h vs O') p))"
proof (induction h vs O' rule: erase_prev.induct)
  case (2 h t vs O')
  let ?q = "prev_hash (prevout t)" and ?l = "AList.delete h (waiting O' (prev_hash (prevout t)))"
  let ?O = "O'\<lparr>oPrev := (oPrev O')(?q := if ?l = [] then None else Some ?l)\<rparr>"
  have w: "waiting ?O q = (if q = ?q then ?l else waiting O' q)" for q
    by (auto simp: waiting_def)
  {
    case 1
    show ?case using "2.IH"(1) [OF refl refl] w [of p] set_delete [of h "waiting O' ?q"] by (auto simp: Let_def)
  next
    case 2
    then have "distinct (map fst (waiting ?O q))" for q
      unfolding w by (simp add: distinct_delete)
    then show ?case using "2.IH"(2) [OF refl refl] by (simp add: Let_def)
  }
qed simp_all

lemma update_new: "k \<notin> fst ` set l \<Longrightarrow> AList.update k v l = l @ [(k, v)]"
  by (induction l) auto

lemma AddOrphanTx_ok:
  assumes "orphans_ok E O'" "AddOrphanTx E vMsg O' = Some (added, O'')"
  shows "orphans_ok E O''" "length (oTx O'') \<le> length (oTx O') + 1"
proof -
  obtain tx r where tx: "unser_CTransaction vMsg = Some (tx, r)"
    using assms(2) by (auto simp: AddOrphanTx_def split: option.splits)
  let ?h = "GetHash E tx"
  have "orphans_ok E O'' \<and> length (oTx O'') \<le> length (oTx O') + 1"
  proof (cases added)
    case False
    then show ?thesis using assms tx by (auto simp: AddOrphanTx_def Let_def split: if_splits)
  next
    case True
    then have new: "map_of (oTx O') ?h = None" and len: "length vMsg \<le> 5000" and
      O'': "O'' = add_prev ?h vMsg (vin tx) (O'\<lparr>oTx := AList.update ?h vMsg (oTx O')\<rparr>)"
      using assms(2) tx by (auto simp: AddOrphanTx_def Let_def split: if_splits)
    have upd: "AList.update ?h vMsg (oTx O') = oTx O' @ [(?h, vMsg)]"
      using new by (intro update_new) (simp add: map_of_eq_None_iff)
    have fresh: "(?h, m) \<notin> set (oTx O')" for m using new by (force simp: map_of_eq_None_iff)
    have w: "(?h, m) \<in> set (waiting (O'\<lparr>oTx := x\<rparr>) q) \<Longrightarrow> m = vMsg" for q m x
      using fresh orphans_okD(4) [OF assms(1)] by simp
    have d: "distinct (map fst (waiting (O'\<lparr>oTx := x\<rparr>) q))" for q x
      using orphans_okD(3) [OF assms(1)] by simp
    have add: "set (waiting O'' p) = (if spends vMsg p then insert (?h, vMsg) (set (waiting O' p)) else set (waiting O' p))"
      "distinct (map fst (waiting O'' p))" for p
      unfolding O'' using add_prev_waiting [of ?h "O'\<lparr>oTx := AList.update ?h vMsg (oTx O')\<rparr>" vMsg "vin tx" p, OF w d] tx
      by (simp_all add: spends_def)
    have all: "oTx O'' = oTx O' @ [(?h, vMsg)]" unfolding O'' by (simp add: upd)
    have "e \<in> set (waiting O'' p) \<longleftrightarrow> e \<in> set (oTx O'') \<and> spends (snd e) p" for e p
      using orphans_okD(4) [OF assms(1), of e p] unfolding add(1) all by auto
    moreover have "orphan_msg E ?h vMsg" using len tx by (simp add: orphan_msg_def)
    ultimately have "orphans_ok E O''"
      using assms(1) add(2) new unfolding orphans_ok_def all by (simp add: map_of_eq_None_iff)
    then show ?thesis unfolding O'' by (simp add: upd)
  qed
  then show "orphans_ok E O''" "length (oTx O'') \<le> length (oTx O') + 1" by blast+
qed

lemma EraseOrphanTx_ok:
  assumes "orphans_ok E O'"
  obtains O'' where "EraseOrphanTx E h O' = Some O''" "orphans_ok E O''"
    "set (oTx O'') = {e \<in> set (oTx O'). fst e \<noteq> h}"
    "length (oTx O'') = length (oTx O') - (if h \<in> fst ` set (oTx O') then 1 else 0)"
proof (cases "map_of (oTx O') h")
  case None
  then have "h \<notin> fst ` set (oTx O')" by (simp add: map_of_eq_None_iff)
  moreover have "EraseOrphanTx E h O' = Some O'" using None by (simp add: EraseOrphanTx_def)
  ultimately show ?thesis using that assms by force
next
  case (Some vMsg)
  then have mem: "(h, vMsg) \<in> set (oTx O')" by (rule map_of_SomeD)
  then obtain tx r where tx: "unser_CTransaction vMsg = Some (tx, r)"
    using orphans_okD(2) [OF assms mem] by (auto simp: orphan_msg_def split: option.splits)
  let ?O = "(erase_prev h (vin tx) O')\<lparr>oTx := AList.delete h (oTx O')\<rparr>"
  have e: "EraseOrphanTx E h O' = Some ?O" using Some tx by (simp add: EraseOrphanTx_def)
  have only: "m = vMsg" if "(h, m) \<in> set (oTx O')" for m
    using that mem orphans_okD(1) [OF assms] by (metis eq_key_imp_eq_value)
  have w: "x \<in> set (waiting ?O p) \<longleftrightarrow> x \<in> set (oTx ?O) \<and> spends (snd x) p" for x p
  proof (cases "spends vMsg p")
    case True
    then have l: "list_ex (\<lambda>txin. prev_hash (prevout txin) = p) (vin tx)" using tx by (simp add: spends_def)
    show ?thesis
      using orphans_okD(4) [OF assms, of x p] l erase_prev_waiting(1) [of h "vin tx" O' p]
      by (auto simp: set_delete)
  next
    case False
    then have l: "\<not> list_ex (\<lambda>txin. prev_hash (prevout txin) = p) (vin tx)" using tx by (simp add: spends_def)
    have "x \<in> set (waiting O' p) \<Longrightarrow> fst x \<noteq> h"
      using orphans_okD(4) [OF assms, of x p] only False by (cases x) auto
    then show ?thesis
      using orphans_okD(4) [OF assms, of x p] l erase_prev_waiting(1) [of h "vin tx" O' p]
      by (auto simp: set_delete)
  qed
  have "distinct (map fst (waiting ?O p))" for p
    using erase_prev_waiting(2) [of O' h "vin tx" p] orphans_okD(3) [OF assms] by simp
  then have ok: "orphans_ok E ?O"
    using assms w unfolding orphans_ok_def by (auto simp: distinct_delete set_delete list_all_iff)
  have "length (AList.delete h (oTx O')) = length (oTx O') - 1"
    using orphans_okD(1) [OF assms] mem
  proof (induction "oTx O'" arbitrary: O')
    case (Cons a l)
    show ?case
    proof (cases "fst a = h")
      case True
      then have "AList.delete h l = l" using Cons.hyps(2) Cons.prems(1) by (metis delete_id distinct.simps(2) list.map(2) list.set_map)
      then show ?thesis using True unfolding Cons.hyps(2) [symmetric] by (cases a) simp
    next
      case False
      then have "(h, vMsg) \<in> set l" "distinct (map fst l)" using Cons.prems unfolding Cons.hyps(2) [symmetric] by auto
      then show ?thesis
        using Cons.hyps(1) [of "\<lparr>oTx = l, oPrev = Map.empty\<rparr>"] False unfolding Cons.hyps(2) [symmetric]
        by (cases a; cases l) auto
    qed
  qed simp
  with mem have "length (oTx ?O) = length (oTx O') - (if h \<in> fst ` set (oTx O') then 1 else 0)" by force
  with that [OF e ok] show ?thesis by (simp add: set_delete)
qed

lemma erase_all_ok:
  "orphans_ok E O' \<Longrightarrow> \<exists>O''. erase_all E hs O' = Some O'' \<and> orphans_ok E O'' \<and>
     set (oTx O'') = {e \<in> set (oTx O'). fst e \<notin> set hs} \<and> length (oTx O'') \<le> length (oTx O')"
proof (induction hs arbitrary: O')
  case (Cons h hs)
  obtain O1 where 1: "EraseOrphanTx E h O' = Some O1" "orphans_ok E O1" "set (oTx O1) = {e \<in> set (oTx O'). fst e \<noteq> h}"
    "length (oTx O1) = length (oTx O') - (if h \<in> fst ` set (oTx O') then 1 else 0)"
    by (rule EraseOrphanTx_ok [OF Cons.prems])
  have len: "length (oTx O1) \<le> length (oTx O')" unfolding 1(4) by simp
  obtain O2 where 2: "erase_all E hs O1 = Some O2" "orphans_ok E O2"
    "set (oTx O2) = {e \<in> set (oTx O1). fst e \<notin> set hs}" "length (oTx O2) \<le> length (oTx O1)"
    using Cons.IH [OF 1(2)] by blast
  have "set (oTx O2) = {e \<in> set (oTx O'). fst e \<notin> set (h # hs)}" unfolding 2(3) 1(3) by auto
  moreover have "erase_all E (h # hs) O' = Some O2" using 1(1) 2(1) by simp
  ultimately show ?case using 2(2,4) len by (meson le_trans)
qed simp

section \<open>The limit\<close>

lemma GetRand_good:
  assumes "0 < n" "n < 2 ^ 63" "Suc k \<le> length (filter (\<lambda>d. unat d < 2 ^ 63) ds)"
  obtains i ds' where "GetRand n ds = Some (i, ds')" "i < n" "k \<le> length (filter (\<lambda>d. unat d < 2 ^ 63) ds')"
proof -
  let ?range = "(2 ^ 64 - 1) div n * n"
  have "(2 ^ 64 - 1) mod n < n" using assms(1) by simp
  moreover have "?range + (2 ^ 64 - 1) mod n = 2 ^ 64 - 1" by (rule div_mult_mod_eq)
  moreover have "2 ^ 63 \<le> R" if "m < n" "R + m = (2 ^ 64 - 1 :: nat)" for R m
    using that assms(2) by simp
  ultimately have range: "2 ^ 63 \<le> ?range" by blast
  have "\<exists>i ds'. GetRand_loop n ?range ds = Some (i, ds') \<and> k \<le> length (filter (\<lambda>d. unat d < 2 ^ 63) ds')"
    using assms(3)
  proof (induction ds)
    case (Cons d ds)
    then show ?case using range by (cases "unat d < 2 ^ 63") auto
  qed simp
  then show thesis using that GetRand_less [of n ds] assms(1) by (auto simp: GetRand_def)
qed

text \<open>C13: Limiting the orphan transactions ends and leaves exactly the allowed number, in a consistent state:
  the loop that evicts one at random after another runs as often as there are orphans too many, for
  any random draws of which enough are below half the range (these are never rejected). No orphan is
  added, and the by-previous index loses exactly the evicted ones.\<close>

theorem orphan_eviction_terminates:
  assumes "orphans_ok E O'" "length (oTx O') < 2 ^ 63"
    "length (oTx O') - n \<le> length (filter (\<lambda>d. unat d < 2 ^ 63) ds)"
  shows "\<exists>ds' O''. LimitOrphanTxSize E n ds O' = Some (length (oTx O') - n, ds', O'') \<and> orphans_ok E O'' \<and>
    length (oTx O'') = min n (length (oTx O')) \<and> set (oTx O'') \<subseteq> set (oTx O')"
  using assms
proof (induction "length (oTx O') - n" arbitrary: O' ds)
  case 0
  then show ?case by (simp add: LimitOrphanTxSize.simps)
next
  case (Suc k)
  let ?l = "length (oTx O')"
  have big: "n < ?l" using Suc.hyps(2) by simp
  have "Suc k \<le> length (filter (\<lambda>d. unat d < 2 ^ 63) ds)" using Suc.hyps(2) Suc.prems(3) by simp
  with big Suc.prems(2) obtain i ds1 where
    r: "GetRand ?l ds = Some (i, ds1)" "i < ?l" "k \<le> length (filter (\<lambda>d. unat d < 2 ^ 63) ds1)"
    by (metis GetRand_good gr_implies_not0 not_gr_zero)
  let ?h = "fst (oTx O' ! i)"
  have mem: "?h \<in> fst ` set (oTx O')" using r(2) by simp
  obtain O1 where e1: "EraseOrphanTx E ?h O' = Some O1" "orphans_ok E O1"
    "set (oTx O1) = {e \<in> set (oTx O'). fst e \<noteq> ?h}" "length (oTx O1) = ?l - (if ?h \<in> fst ` set (oTx O') then 1 else 0)"
    by (rule EraseOrphanTx_ok [OF Suc.prems(1)])
  then have e: "EraseOrphanTx E ?h O' = Some O1" "orphans_ok E O1" "set (oTx O1) \<subseteq> set (oTx O')" "length (oTx O1) = ?l - 1"
    using mem by auto
  have k: "k = length (oTx O1) - n" "length (oTx O1) < 2 ^ 63" using e(4) Suc.hyps(2) Suc.prems(2) by simp_all
  obtain ds' O'' where
    l: "LimitOrphanTxSize E n ds1 O1 = Some (k, ds', O'')" "orphans_ok E O''"
    "length (oTx O'') = min n (length (oTx O1))" "set (oTx O'') \<subseteq> set (oTx O1)"
    using Suc.hyps(1) [OF k(1) e(2) k(2) r(3) [unfolded k(1)]] k(1) by metis
  have "LimitOrphanTxSize E n ds O' = Some (Suc k, ds', O'')"
    using big r(1) e(1) l(1) by (subst LimitOrphanTxSize.simps) simp
  then show ?case using l(2-4) e(3,4) big Suc.hyps(2) by auto
qed

section \<open>No orphan is left behind\<close>

text \<open>An input is missing when neither the pool nor the database has its transaction.\<close>

definition missing :: "files \<Rightarrow> CTxDB \<Rightarrow> CTxMemPool \<Rightarrow> CTransaction \<Rightarrow> bool" where
  "missing files db P tx \<longleftrightarrow>
     list_ex (\<lambda>txin. fetch_prev files db (mapTx P) [] False False (prev_hash (prevout txin)) = None) (vin tx)"

lemma FetchInputs_loop_False:
  "FetchInputs_loop f vs inp = (False, inp') \<Longrightarrow> list_ex (\<lambda>txin. f (prev_hash (prevout txin)) = None) vs"
  by (induction f vs inp rule: FetchInputs_loop.induct) (auto simp: Let_def split: option.splits if_splits)

lemma accept_inputs_missing:
  assumes "accept_inputs E N files db best h tx P c = (Some (False, t, True), P', c')"
  shows "missing files db P tx"
proof -
  obtain ok u inputs bad where
    f: "FetchInputs files db (mapTx P) [] False False tx Map.empty = ((ok, u), inputs, bad)" by (metis surj_pair)
  obtain s c1 where a: "AreInputsStandard E u inputs c = (s, c1)" by fastforce
  have "\<not> ok \<and> \<not> bad"
  proof (rule ccontr)
    assume n: "\<not> (\<not> ok \<and> \<not> bad)"
    show False
    proof (cases ok)
      case True
      then show False
        using assms f a unfolding accept_inputs_def
        by (cases s) (auto simp: Let_def split: if_splits option.splits prod.splits)
    next
      case False
      with n assms f show False by (simp add: accept_inputs_def)
    qed
  qed
  then show ?thesis
    using f FetchInputs_loop_False [of "fetch_prev files db (mapTx P) [] False False" "vin tx" Map.empty]
    by (auto simp: FetchInputs_def missing_def split: prod.splits bool.splits if_splits)
qed

lemma pool_accept_missing:
  assumes "pool_accept E N files db best h tx True P c = (Some (False, t, True), P', c')"
  shows "missing files db P tx"
proof -
  obtain ok u where k: "CheckTransaction tx = (ok, u)" by fastforce
  have ok: ok using assms k by (cases ok) (simp_all add: pool_accept_def)
  then have u: "u = tx" using CheckTransaction_accepts [of tx] k by simp
  obtain r P1 c1 where a: "accept_inputs E N files db best h tx P c = (r, P1, c1)" by (metis surj_pair)
  have "r = Some (False, t, True)"
    using assms k ok u a unfolding pool_accept_def
    by (auto simp: Let_def split: if_splits option.splits bool.splits)
  then show ?thesis using a accept_inputs_missing by simp
qed

lemma fetch_prev_cong:
  assumes "m h = m' h"
  shows "fetch_prev files db m q a b h = fetch_prev files db m' q a b h"
  unfolding fetch_prev_def assms ..

text \<open>An input that is missing no more was added to the pool.\<close>

definition added :: "CTxMemPool \<Rightarrow> CTxMemPool \<Rightarrow> uint256 \<Rightarrow> bool" where
  "added P P' h \<longleftrightarrow> mapTx P h = None \<and> mapTx P' h \<noteq> None"

definition extends :: "CTxMemPool \<Rightarrow> CTxMemPool \<Rightarrow> bool" where
  "extends P P' \<longleftrightarrow> (\<forall>h. mapTx P h \<noteq> None \<longrightarrow> mapTx P' h = mapTx P h)"

lemma extends_trans: "extends P Q \<Longrightarrow> extends Q R \<Longrightarrow> extends P R"
  by (simp add: extends_def)

lemma added_trans:
  "extends P Q \<Longrightarrow> extends Q R \<Longrightarrow> added P R k \<longleftrightarrow> added P Q k \<or> added Q R k"
  unfolding extends_def added_def by (cases "mapTx P k"; cases "mapTx Q k") force+

lemma no_longer_missing:
  assumes "missing files db P tx" "\<not> missing files db P' tx" "extends P P'"
  shows "list_ex (\<lambda>txin. added P P' (prev_hash (prevout txin))) (vin tx)"
proof -
  obtain i where i: "i \<in> set (vin tx)" "fetch_prev files db (mapTx P) [] False False (prev_hash (prevout i)) = None"
    using assms(1) by (auto simp: missing_def list_ex_iff)
  then have "fetch_prev files db (mapTx P') [] False False (prev_hash (prevout i)) \<noteq> None"
    using assms(2) by (auto simp: missing_def list_ex_iff)
  with i(2) have "mapTx P (prev_hash (prevout i)) \<noteq> mapTx P' (prev_hash (prevout i))"
    using fetch_prev_cong by metis
  then have "added P P' (prev_hash (prevout i))"
    using assms(3) unfolding extends_def added_def by (metis option.exhaust)
  with i(1) show ?thesis by (auto simp: list_ex_iff)
qed

lemma pool_accept_extends:
  assumes "pool_accept E N files db best h tx True P c = (r, P', c')"
  shows "extends P P'" "added P P' k \<Longrightarrow> k = GetHash E tx \<and> (\<exists>t m. r = Some (True, t, m))"
  using assms by (cases rule: pool_accept_cases; auto simp: extends_def added_def split: if_splits)+

text \<open>The inner loop: an orphan tried is to be erased, or it lacks an input, or a transaction it spends
  was accepted.\<close>

definition settled :: "files \<Rightarrow> CTxDB \<Rightarrow> CTxMemPool \<Rightarrow> uint256 list \<Rightarrow> (uint256 \<Rightarrow> bool) \<Rightarrow> uint256 \<times> bytes \<Rightarrow> bool" where
  "settled files db P era pending e \<longleftrightarrow>
     fst e \<in> set era \<or>
     (case unser_CTransaction (snd e) of None \<Rightarrow> True
      | Some (tx, _) \<Rightarrow> missing files db P tx \<or> list_ex (\<lambda>txin. pending (prev_hash (prevout txin))) (vin tx))"

lemma settled_mono:
  assumes "settled files db P era pending e" "extends P P'" "set era \<subseteq> set era'"
    "\<And>k. pending k \<or> added P P' k \<Longrightarrow> pending' k"
  shows "settled files db P' era' pending' e"
proof (cases "unser_CTransaction (snd e)")
  case None
  then show ?thesis by (simp add: settled_def)
next
  case (Some x)
  obtain tx r where x: "unser_CTransaction (snd e) = Some (tx, r)" using Some by (cases x) auto
  have mono: "list_ex (\<lambda>txin. q (prev_hash (prevout txin))) (vin tx) \<Longrightarrow>
      list_ex (\<lambda>txin. pending' (prev_hash (prevout txin))) (vin tx)" if "\<And>k. q k \<Longrightarrow> pending' k" for q
    using that by (auto simp: list_ex_iff)
  consider "fst e \<in> set era" | "missing files db P tx" "\<not> missing files db P' tx" | "missing files db P' tx"
    | "list_ex (\<lambda>txin. pending (prev_hash (prevout txin))) (vin tx)"
    using assms(1) x by (auto simp: settled_def)
  then show ?thesis
  proof cases
    case 1
    then show ?thesis using assms(3) by (auto simp: settled_def)
  next
    case 2
    from no_longer_missing [OF this assms(2)] show ?thesis
      using mono [of "added P P'"] assms(4) x by (simp add: settled_def)
  next
    case 3
    then show ?thesis using x by (simp add: settled_def)
  next
    case 4
    then show ?thesis using mono [of pending] assms(4) x by (simp add: settled_def)
  qed
qed

lemma try_orphans_props:
  assumes "try_orphans E N files db best h l P c = (ok, acc, era, P', c')"
  shows "extends P P' \<and> (\<forall>k. added P P' k \<longleftrightarrow> k \<in> set acc) \<and> set acc \<subseteq> set era \<and>
    (ok \<longrightarrow> list_all (\<lambda>e. orphan_msg E (fst e) (snd e) \<longrightarrow> settled files db P' era (\<lambda>k. k \<in> set acc) e) l)"
  using assms
proof (induction l arbitrary: P c ok acc era P' c')
  case (Cons e l)
  obtain j vMsg where e: "e = (j, vMsg)" by fastforce
  show ?case
  proof (cases "unser_CTransaction vMsg")
    case None
    then show ?thesis using Cons.prems e by (auto simp: extends_def added_def)
  next
    case (Some x)
    obtain tx rest where tx: "unser_CTransaction vMsg = Some (tx, rest)" using Some by (cases x) auto
    let ?h = "GetHash E tx"
    obtain r P1 c1 where a: "pool_accept E N files db best h tx True P c = (r, P1, c1)" by (metis surj_pair)
    obtain ok2 acc2 era2 P2 c2 where t: "try_orphans E N files db best h l P1 c1 = (ok2, acc2, era2, P2, c2)"
      by (metis surj_pair)
    note IH = Cons.IH [OF t]
    from a show ?thesis
    proof (cases rule: pool_accept_cases)
      case (yes u m)
      then have res: "ok = ok2" "acc = ?h # acc2" "era = ?h # era2" "P' = P2"
        using Cons.prems e tx a t by (auto simp: Let_def)
      have 1: "extends P P1" "added P P1 k \<longleftrightarrow> k = ?h" for k
        using yes by (auto simp: extends_def added_def)
      have ext: "extends P P'" using 1(1) IH res(4) extends_trans by blast
      have add: "added P P' k \<longleftrightarrow> k \<in> set acc" for k
        using 1 IH res added_trans [of P P1 P' k] by auto
      have old: "settled files db P' era (\<lambda>k. k \<in> set acc) x" if "settled files db P2 era2 (\<lambda>k. k \<in> set acc2) x" for x
        by (rule settled_mono [OF that]) (use res in \<open>auto simp: extends_def added_def\<close>)
      have "orphan_msg E j vMsg \<longrightarrow> settled files db P' era (\<lambda>k. k \<in> set acc) e"
        using tx res e by (simp add: orphan_msg_def settled_def)
      then show ?thesis using ext add IH res old e by (auto simp: list_all_iff)
    next
      case no
      show ?thesis
      proof (cases r)
        case None
        then show ?thesis using Cons.prems e tx a no by (auto simp: Let_def extends_def added_def)
      next
        case (Some y)
        obtain u mi where r: "r = Some (False, u, mi)" using Some no(1) by (cases y) auto
        have res: "ok = ok2" "acc = acc2" "era = (if mi then era2 else ?h # era2)" "P' = P2"
          using Cons.prems e tx a t r by (auto simp: Let_def)
        have 1: "extends P P1" "\<not> added P P1 k" "extends Q P1 \<longleftrightarrow> extends Q P" "added P Q k \<longleftrightarrow> added P1 Q k" for k Q
          using no(2) by (auto simp: extends_def added_def)
        have ext: "extends P P'" using 1(1) IH res(4) extends_trans by blast
        have add: "added P P' k \<longleftrightarrow> k \<in> set acc" for k using 1(4) IH res by blast
        have old: "settled files db P' era (\<lambda>k. k \<in> set acc) x" if "settled files db P2 era2 (\<lambda>k. k \<in> set acc2) x" for x
          by (rule settled_mono [OF that]) (use res in \<open>auto simp: extends_def added_def split: if_splits\<close>)
        have "orphan_msg E j vMsg \<longrightarrow> settled files db P' era (\<lambda>k. k \<in> set acc) e"
        proof (cases mi)
          case True
          then have "settled files db P [] (\<lambda>k. False) e"
            using pool_accept_missing a r tx e by (auto simp: settled_def)
          from settled_mono [OF this ext, of era "\<lambda>k. k \<in> set acc"] add show ?thesis by simp
        next
          case False
          then show ?thesis using tx res e by (simp add: orphan_msg_def settled_def)
        qed
        then show ?thesis using ext add IH res old e by (auto simp: list_all_iff)
      qed
    qed
  qed
qed (auto simp: extends_def added_def)

lemma orphans_ok_cong:
  "oTx O' = oTx O'' \<Longrightarrow> waiting O' = waiting O'' \<Longrightarrow> orphans_ok E O' \<longleftrightarrow> orphans_ok E O''"
  by (simp add: orphans_ok_def)

text \<open>The whole queue: at its end every orphan that spends a transaction of the queue, or one accepted on
  the way, is to be erased or lacks an input.\<close>

definition dealt_with :: "files \<Rightarrow> CTxDB \<Rightarrow> CTxMemPool \<Rightarrow> uint256 list \<Rightarrow> (uint256 \<Rightarrow> bool) \<Rightarrow> orphans \<Rightarrow> bool" where
  "dealt_with files db P era Q O' \<longleftrightarrow>
     (\<forall>e p. e \<in> set (oTx O') \<longrightarrow> spends (snd e) p \<longrightarrow> Q p \<longrightarrow> settled files db P era (\<lambda>_. False) e)"

lemma settled_pending:
  assumes "settled files db P era pending e" "dealt_with files db P' era' Q O'" "e \<in> set (oTx O')"
    "extends P P'" "set era \<subseteq> set era'" "\<And>k. pending k \<or> added P P' k \<Longrightarrow> Q k"
  shows "settled files db P' era' (\<lambda>_. False) e"
proof -
  have "settled files db P' era' Q e" by (rule settled_mono [OF assms(1,4,5)]) (rule assms(6))
  note q = this
  have d: "spends (snd e) p \<Longrightarrow> Q p \<Longrightarrow> ?thesis" for p using assms(2,3) unfolding dealt_with_def by blast
  show ?thesis
  proof (cases "unser_CTransaction (snd e)")
    case None
    then show ?thesis by (simp add: settled_def)
  next
    case (Some x)
    obtain tx r where x: "unser_CTransaction (snd e) = Some (tx, r)" using Some by (cases x) auto
    show ?thesis
    proof (cases "list_ex (\<lambda>txin. Q (prev_hash (prevout txin))) (vin tx)")
      case True
      then obtain i where "i \<in> set (vin tx)" "Q (prev_hash (prevout i))" by (auto simp: list_ex_iff)
      then show ?thesis using d [of "prev_hash (prevout i)"] x by (auto simp: spends_def list_ex_iff)
    next
      case False
      then show ?thesis using q x by (simp add: settled_def list_ex_iff)
    qed
  qed
qed

lemma process_orphans_props:
  assumes "process_orphans E N files db best h queue S = (ok, era, S')" "orphans_ok E (tOrph S)"
  shows "oTx (tOrph S') = oTx (tOrph S) \<and> waiting (tOrph S') = waiting (tOrph S) \<and>
    extends (tPool S) (tPool S') \<and>
    (ok \<longrightarrow> dealt_with files db (tPool S') era (\<lambda>p. p \<in> set queue \<or> added (tPool S) (tPool S') p) (tOrph S))"
  using assms
proof (induction E N files db best h queue S arbitrary: ok era S' rule: process_orphans.induct)
  case (1 E N files db best h S)
  then show ?case by (auto simp: extends_def added_def dealt_with_def)
next
  case (2 E N files db best h hashPrev queue S)
  let ?S1 = "S\<lparr>tOrph := (tOrph S)\<lparr>oPrev := (oPrev (tOrph S))(hashPrev \<mapsto> waiting (tOrph S) hashPrev)\<rparr>\<rparr>"
  obtain ok1 acc era1 P c where
    t: "try_orphans E N files db best h (waiting (tOrph S) hashPrev) (tPool S) (tSigs S) = (ok1, acc, era1, P, c)"
    by (metis surj_pair)
  note T = try_orphans_props [OF t]
  let ?S2 = "?S1\<lparr>tPool := P, tSigs := c\<rparr>"
  have w: "oTx (tOrph ?S2) = oTx (tOrph S)" "waiting (tOrph ?S2) = waiting (tOrph S)"
    by (auto simp: waiting_def)
  then have ok2: "orphans_ok E (tOrph ?S2)" using "2.prems"(2) orphans_ok_cong by blast
  show ?case
  proof (cases ok1)
    case False
    then have "ok = False" "S' = ?S2" using "2.prems"(1) t by (auto simp: Let_def)
    then show ?thesis using w T by simp
  next
    case True
    have t': "(ok1, acc, era1, P, c) =
        try_orphans E N files db best h (waiting (tOrph S) hashPrev) (tPool ?S1) (tSigs ?S1)"
      using t by simp
    obtain ok3 era3 S3 where p: "process_orphans E N files db best h (queue @ acc) ?S2 = (ok3, era3, S3)"
      by (metis surj_pair)
    have res: "ok = ok3" "era = era1 @ era3" "S' = S3" using "2.prems"(1) t True p by (auto simp: Let_def)
    have IH: "oTx (tOrph S3) = oTx (tOrph ?S2)" "waiting (tOrph S3) = waiting (tOrph ?S2)" "extends P (tPool S3)"
      "ok3 \<Longrightarrow> dealt_with files db (tPool S3) era3 (\<lambda>p. p \<in> set (queue @ acc) \<or> added P (tPool S3) p) (tOrph ?S2)"
      using "2.IH" [OF refl refl t' refl refl refl refl _ p ok2] True by simp_all
    have ext: "extends (tPool S) (tPool S')" using T IH(3) res(3) extends_trans by blast
    have add: "added (tPool S) (tPool S') k \<longleftrightarrow> k \<in> set acc \<or> added P (tPool S') k" for k
      using T IH(3) res(3) added_trans by blast
    have "dealt_with files db (tPool S') era (\<lambda>p. p \<in> set (hashPrev # queue) \<or> added (tPool S) (tPool S') p) (tOrph S)"
      if ok
    proof -
      let ?Q = "\<lambda>p. p \<in> set (queue @ acc) \<or> added P (tPool S') p"
      have D: "dealt_with files db (tPool S') era3 ?Q (tOrph S)" using IH(4) that res w by (simp add: dealt_with_def)
      have D': "dealt_with files db (tPool S') era ?Q (tOrph S)"
        using D res(2) by (auto simp: dealt_with_def settled_def split: option.splits)
      have E3: "extends P (tPool S')" using IH(3) res(3) by simp
      show ?thesis unfolding dealt_with_def
      proof (intro allI impI)
        fix e p
        assume e: "e \<in> set (oTx (tOrph S))" and sp: "spends (snd e) p" and
          p: "p \<in> set (hashPrev # queue) \<or> added (tPool S) (tPool S') p"
        show "settled files db (tPool S') era (\<lambda>_. False) e"
        proof (cases "p = hashPrev")
          case True
          then have "e \<in> set (waiting (tOrph S) hashPrev)" using orphans_okD(4) [OF "2.prems"(2)] e sp by blast
          moreover have "orphan_msg E (fst e) (snd e)" using orphans_okD(2) [OF "2.prems"(2)] e by simp
          ultimately have "settled files db P era1 (\<lambda>k. k \<in> set acc) e"
            using T \<open>ok1\<close> by (auto simp: list_all_iff)
          then show ?thesis by (rule settled_pending [OF _ D' e E3]) (use res(2) in auto)
        next
          case False
          then have "?Q p" using p add by auto
          then have "settled files db (tPool S') era3 (\<lambda>_. False) e" using D e sp unfolding dealt_with_def by blast
          then show ?thesis using res(2) by (auto simp: settled_def)
        qed
      qed
    qed
    then show ?thesis using w IH(1,2) res ext by simp
  qed
qed

lemma LimitOrphanTxSize_ok:
  "LimitOrphanTxSize E n ds O' = Some (k, ds', O'') \<Longrightarrow> orphans_ok E O' \<Longrightarrow>
     orphans_ok E O'' \<and> length (oTx O'') \<le> n"
proof (induction E n ds O' arbitrary: k ds' O'' rule: LimitOrphanTxSize.induct)
  case (1 E n ds O')
  show ?case
  proof (cases "length (oTx O') \<le> n")
    case True
    then show ?thesis using "1.prems" by (subst (asm) LimitOrphanTxSize.simps) simp
  next
    case False
    obtain i ds1 O1 k1 where r: "GetRand (length (oTx O')) ds = Some (i, ds1)"
      "EraseOrphanTx E (fst (oTx O' ! i)) O' = Some O1" "LimitOrphanTxSize E n ds1 O1 = Some (k1, ds', O'')"
      using "1.prems"(1) False by (subst (asm) LimitOrphanTxSize.simps) (auto split: option.splits)
    have "orphans_ok E O1" using EraseOrphanTx_ok [OF "1.prems"(2), of "fst (oTx O' ! i)"] r(2) by fastforce
    from "1.IH" [OF False r(1) refl r(2,3) this] show ?thesis .
  qed
qed

text \<open>C12: When the handler of a transaction message ends, no orphan is left behind: every orphan that spends
  a transaction the pool took, be it the one received or an orphan accepted on the way, still lacks
  an input; if nothing is missing any more, it was accepted or thrown away. The maps of the orphans
  stay consistent (every orphan under its hash, listed exactly for the transactions it spends), and
  their number stays within the limit.\<close>

theorem orphans_resolved:
  assumes "orphans_ok E (tOrph S)" "ProcessMessage_tx E N files db best h ds vRecv S = (Some score, S')"
  shows "orphans_ok E (tOrph S') \<and>
    length (oTx (tOrph S')) \<le> max (length (oTx (tOrph S))) MAX_ORPHAN_TRANSACTIONS \<and>
    (\<forall>e p. e \<in> set (oTx (tOrph S')) \<and> spends (snd e) p \<and> added (tPool S) (tPool S') p \<longrightarrow>
       missing files db (tPool S') (fst (the (unser_CTransaction (snd e)))))"
proof -
  obtain tx rest where tx: "unser_CTransaction vRecv = Some (tx, rest)"
    using assms(2) by (auto simp: ProcessMessage_tx_def split: option.splits)
  let ?h = "GetHash E tx"
  obtain r P c where a: "pool_accept E N files db best h tx True (tPool S) (tSigs S) = (r, P, c)" by (metis surj_pair)
  obtain ok t mi where r: "r = Some (ok, t, mi)"
    using assms(2) tx a by (cases r) (auto simp: ProcessMessage_tx_def Let_def)
  note ext = pool_accept_extends [OF a]
  show ?thesis
  proof (cases ok)
    case True
    let ?S1 = "S\<lparr>tPool := P, tSigs := c\<rparr>"
    obtain ok2 era S2 where p: "process_orphans E N files db best h [?h] ?S1 = (ok2, era, S2)" by (metis surj_pair)
    have "ok2" using assms(2) tx a r True p by (cases ok2) (auto simp: ProcessMessage_tx_def Let_def)
    have "orphans_ok E (tOrph ?S1)" using assms(1) by simp
    note Q = process_orphans_props [OF p this]
    have ok2': "orphans_ok E (tOrph S2)" using Q assms(1) orphans_ok_cong [of "tOrph S2" "tOrph S"] by simp
    obtain O' where O': "erase_all E (?h # era) (tOrph S2) = Some O'" "orphans_ok E O'"
      "set (oTx O') = {e \<in> set (oTx (tOrph S2)). fst e \<notin> set (?h # era)}" "length (oTx O') \<le> length (oTx (tOrph S2))"
      using erase_all_ok [OF ok2'] by blast
    have S': "S' = S2\<lparr>tOrph := O'\<rparr>"
      using assms(2) tx a r True p \<open>ok2\<close> O'(1) by (auto simp: ProcessMessage_tx_def Let_def)
    have "missing files db (tPool S2) (fst (the (unser_CTransaction (snd e))))"
      if e: "e \<in> set (oTx O')" and sp: "spends (snd e) q" and ad: "added (tPool S) (tPool S2) q" for e q
    proof -
      have mem: "e \<in> set (oTx (tOrph S))" "fst e \<notin> set era" using e O'(3) Q by auto
      have "q \<in> set [?h] \<or> added P (tPool S2) q"
        using ad ext added_trans [of "tPool S" P "tPool S2" q] Q by auto
      moreover have "dealt_with files db (tPool S2) era (\<lambda>p. p \<in> set [?h] \<or> added P (tPool S2) p) (tOrph S)"
        using Q \<open>ok2\<close> by simp
      ultimately have "settled files db (tPool S2) era (\<lambda>_. False) e"
        using mem(1) sp unfolding dealt_with_def by blast
      moreover have "unser_CTransaction (snd e) \<noteq> None" using sp by (auto simp: spends_def split: option.splits)
      ultimately show ?thesis using mem(2) by (auto simp: settled_def list_ex_iff)
    qed
    moreover have "length (oTx O') \<le> max (length (oTx (tOrph S))) MAX_ORPHAN_TRANSACTIONS" using O'(4) Q by simp
    ultimately show ?thesis using O'(2) unfolding S' by auto
  next
    case False
    then have P: "mapTx P = mapTx (tPool S)" using pool_accept_False [OF a] r by simp
    then have no: "\<not> added (tPool S) P q" for q by (auto simp: added_def)
    show ?thesis
    proof (cases mi)
      case True
      obtain ad O1 where o1: "AddOrphanTx E (take (size_CTransaction tx) vRecv) (tOrph S) = Some (ad, O1)"
        using assms(2) tx a r False True by (auto simp: ProcessMessage_tx_def Let_def split: option.splits)
      then obtain k ds' O2 where o2: "LimitOrphanTxSize E MAX_ORPHAN_TRANSACTIONS ds O1 = Some (k, ds', O2)"
        using assms(2) tx a r False True by (auto simp: ProcessMessage_tx_def Let_def split: option.splits)
      have "S' = S\<lparr>tPool := P, tSigs := c, tOrph := O2\<rparr>"
        using assms(2) tx a r False True o1 o2 by (auto simp: ProcessMessage_tx_def Let_def)
      then show ?thesis
        using LimitOrphanTxSize_ok [OF o2 AddOrphanTx_ok(1) [OF assms(1) o1]] no by auto
    next
      case f: False
      then have "S' = S\<lparr>tPool := P, tSigs := c\<rparr>"
        using assms(2) tx a r False by (auto simp: ProcessMessage_tx_def Let_def)
      then show ?thesis using assms(1) no by simp
    qed
  qed
qed

section \<open>An orphan that stays\<close>

text \<open>It spends the transaction accepted and one that nobody knows.\<close>

definition twin_tx :: CTransaction where
  "twin_tx = \<lparr>nVersion = 3,
     vin = [\<lparr>prevout = COutPoint (GetHash ext_ref loose_tx) 0, scriptSig = [], nSequence = - 1\<rparr>,
            \<lparr>prevout = COutPoint 99 0, scriptSig = [], nSequence = - 1\<rparr>],
     vout = [\<lparr>nValue = 800000000, scriptPubKey = [81]\<rparr>], nLockTime = 0, nDoS = 0\<rparr>"

definition twin_orphans :: orphans where
  "twin_orphans = snd (the (AddOrphanTx ext_ref (ser_CTransaction twin_tx) no_orphans))"

lemma twin_size: "size_CTransaction twin_tx = 102"
  by (simp add: twin_tx_def size_CTransaction_def size_vec_def size_CTxIn_def size_CTxOut_def size_vch_def
      GetSizeOfCompactSize_def)

lemma twin_hashes:
  "GetHash ext_ref twin_tx \<noteq> GetHash ext_ref loose_tx" "GetHash ext_ref twin_tx \<noteq> GetHash ext_ref open_tx"
  "GetHash ext_ref loose_tx \<noteq> 99" "GetHash ext_ref open_tx \<noteq> 99"
proof -
  have b: "ser_word (1 :: u32) ! 0 = 1" "ser_word (2 :: u32) ! 0 = 2" "ser_word (3 :: u32) ! 0 = 3"
    "mem (99 :: uint256) ! 0 = 99" by code_simp+
  have "size_CTransaction open_tx = 61"
    by (simp add: open_tx_def size_CTransaction_def size_vec_def size_CTxIn_def size_CTxOut_def size_vch_def
        GetSizeOfCompactSize_def)
  then have "mem (GetHash ext_ref open_tx) ! 0 = 2" "mem (GetHash ext_ref loose_tx) ! 0 = 1"
    "mem (GetHash ext_ref twin_tx) ! 0 = 3"
    using hash_first_byte [of open_tx] hash_first_byte [of loose_tx] hash_first_byte [of twin_tx] loose_tx_ok(4) twin_size b
    by (simp_all add: open_tx_def loose_tx_def twin_tx_def)
  then show "GetHash ext_ref twin_tx \<noteq> GetHash ext_ref loose_tx" "GetHash ext_ref twin_tx \<noteq> GetHash ext_ref open_tx"
    "GetHash ext_ref loose_tx \<noteq> 99" "GetHash ext_ref open_tx \<noteq> 99"
    using b(4) by auto
qed

lemma twin_check: "CheckTransaction twin_tx = (True, twin_tx)" "\<not> IsCoinBase twin_tx"
proof -
  have "fst (CheckTransaction twin_tx)"
    using twin_size twin_hashes(3)
    by (simp add: CheckTransaction_iff GetValueOut_def MoneyRange_def) (simp add: twin_tx_def IsCoinBase_def
        COutPoint_IsNull_def MoneyRange_def)
  then show "CheckTransaction twin_tx = (True, twin_tx)"
    using CheckTransaction_accepts [of twin_tx] by (cases "CheckTransaction twin_tx") simp
  show "\<not> IsCoinBase twin_tx" by (simp add: twin_tx_def IsCoinBase_def)
qed

lemma twin_fits: "unser_CTransaction (ser_CTransaction twin_tx) = Some (twin_tx, [])"
proof -
  have "tx_fits twin_tx" using twin_size by (intro size_fits) simp
  from unser_ser_tx [OF this, of "[]"] show ?thesis by (simp add: twin_tx_def)
qed

lemma twin_added: "AddOrphanTx ext_ref (ser_CTransaction twin_tx) no_orphans = Some (True, twin_orphans)"
  using twin_size by (simp add: twin_orphans_def AddOrphanTx_def twin_fits no_orphans_def Let_def length_ser_CTransaction)

lemma twin_orphans: "oTx twin_orphans = [(GetHash ext_ref twin_tx, ser_CTransaction twin_tx)]"
  "waiting twin_orphans (GetHash ext_ref loose_tx) = [(GetHash ext_ref twin_tx, ser_CTransaction twin_tx)]"
proof -
  show "oTx twin_orphans = [(GetHash ext_ref twin_tx, ser_CTransaction twin_tx)]"
    by (simp add: twin_orphans_def AddOrphanTx_def twin_fits no_orphans_def Let_def length_ser_CTransaction twin_size)
  show "waiting twin_orphans (GetHash ext_ref loose_tx) = [(GetHash ext_ref twin_tx, ser_CTransaction twin_tx)]"
  proof -
    have "vin twin_tx = [\<lparr>prevout = COutPoint (GetHash ext_ref loose_tx) 0, scriptSig = [], nSequence = - 1\<rparr>,
        \<lparr>prevout = COutPoint 99 0, scriptSig = [], nSequence = - 1\<rparr>]" by (simp add: twin_tx_def)
    then show ?thesis
      using twin_hashes(3)
      by (simp add: twin_orphans_def AddOrphanTx_def twin_fits no_orphans_def Let_def length_ser_CTransaction twin_size
          waiting_def insert_new_def)
  qed
qed

theorem orphan_eviction_terminates_witness:
  "\<exists>ds' O'. LimitOrphanTxSize ext_ref 0 [5] twin_orphans = Some (1, ds', O') \<and> oTx O' = []"
  using orphan_eviction_terminates [OF AddOrphanTx_ok(1) [OF no_orphans_ok twin_added], of 0 "[5]"] twin_orphans(1)
  by auto

lemma twin_refused:
  fixes c
  defines "P \<equiv> addUnchecked (GetHash ext_ref loose_tx) loose_tx loose_pool"
  shows "pool_accept ext_ref (sample_env\<lparr>fTestNet := True\<rparr>) Map.empty no_db [] 0 twin_tx True P c =
    (Some (False, twin_tx, True), P, c)"
proof -
  have next_tx: "mapNextTx P (COutPoint (GetHash ext_ref loose_tx) 0) = None" "mapNextTx P (COutPoint 99 0) = None"
    using loose_hash twin_hashes(4) by (simp_all add: P_def addUnchecked_def loose_tx_def loose_pool_def empty_pool_def)
  have P: "mapTx P (GetHash ext_ref loose_tx) = Some loose_tx" "mapTx P 99 = None" "mapTx P (GetHash ext_ref twin_tx) = None"
    using twin_hashes by (auto simp: P_def addUnchecked_def loose_pool_def empty_pool_def)
  have vin: "vin twin_tx = [\<lparr>prevout = COutPoint (GetHash ext_ref loose_tx) 0, scriptSig = [], nSequence = - 1\<rparr>,
      \<lparr>prevout = COutPoint 99 0, scriptSig = [], nSequence = - 1\<rparr>]" "nLockTime twin_tx = 0"
    by (simp_all add: twin_tx_def)
  have f: "fetch_prev Map.empty no_db (mapTx P) [] False False 99 = None"
    "fetch_prev Map.empty no_db (mapTx P) [] False False (GetHash ext_ref loose_tx) = Some (pool_index loose_tx, loose_tx)"
    using P by (simp_all add: fetch_prev_def ReadTxIndex_def no_db_def)
  have "\<exists>m. FetchInputs Map.empty no_db (mapTx P) [] False False twin_tx Map.empty = ((False, twin_tx), m, False)"
    using twin_check(2) twin_hashes(3) f by (simp add: FetchInputs_def vin)
  then have "accept_inputs ext_ref (sample_env\<lparr>fTestNet := True\<rparr>) Map.empty no_db [] 0 twin_tx P c =
      (Some (False, twin_tx, True), P, c)"
    by (auto simp: accept_inputs_def)
  then show ?thesis
    using twin_check P next_tx by (simp add: pool_accept_def vin Let_def ContainsTx_def no_db_def [THEN arg_cong [where f = view]])
qed

theorem orphans_resolved_witness:
  "missing Map.empty no_db (addUnchecked (GetHash ext_ref loose_tx) loose_tx loose_pool) twin_tx"
proof -
  let ?N = "sample_env\<lparr>fTestNet := True\<rparr>" and ?h = "GetHash ext_ref loose_tx"
  let ?P = "addUnchecked ?h loose_tx loose_pool"
  let ?S = "\<lparr>tPool = loose_pool, tOrph = twin_orphans, tSigs = empty_cache\<rparr>"
  obtain c where a: "pool_accept ext_ref ?N Map.empty no_db [] 0 loose_tx True loose_pool empty_cache =
     (Some (True, loose_tx, False), ?P, c)" using loose_accepted by blast
  have fit: "unser_CTransaction (ser_CTransaction loose_tx) = Some (loose_tx, [])"
  proof -
    have "tx_fits loose_tx" using loose_tx_ok(4) by (intro size_fits) simp
    from unser_ser_tx [OF this, of "[]"] show ?thesis by (simp add: loose_tx_def)
  qed
  let ?O = "twin_orphans\<lparr>oPrev := (oPrev twin_orphans)(?h \<mapsto> waiting twin_orphans ?h)\<rparr>"
  have p: "process_orphans ext_ref ?N Map.empty no_db [] 0 [?h] (?S\<lparr>tPool := ?P, tSigs := c\<rparr>) =
      (True, [], \<lparr>tPool = ?P, tOrph = ?O, tSigs = c\<rparr>)"
    by (simp add: Let_def twin_orphans(2) twin_fits twin_refused)
  have "EraseOrphanTx ext_ref ?h ?O = Some ?O" using twin_hashes(1) by (simp add: EraseOrphanTx_def twin_orphans(1))
  then have m: "ProcessMessage_tx ext_ref ?N Map.empty no_db [] 0 [] (ser_CTransaction loose_tx) ?S =
      (Some 0, \<lparr>tPool = ?P, tOrph = ?O, tSigs = c\<rparr>)"
    using p by (simp add: ProcessMessage_tx_def fit a Let_def) (simp add: loose_tx_def)
  have "orphans_ok ext_ref (tOrph ?S)" using AddOrphanTx_ok(1) [OF no_orphans_ok twin_added] by simp
  note R = orphans_resolved [OF this m]
  have "spends (ser_CTransaction twin_tx) ?h" by (simp add: spends_def twin_fits) (simp add: twin_tx_def)
  moreover have "added loose_pool ?P ?h" using loose_hash by (simp add: added_def addUnchecked_def loose_pool_def empty_pool_def)
  ultimately show ?thesis using R twin_orphans(1) twin_fits by auto
qed

end
