(* ===== verification/BaseUint.thy ===== *)
theory BaseUint
  imports Prelude
begin

text \<open>
  The unsigned integers of \<^verbatim>\<open>uint256.h\<close>: \<^verbatim>\<open>base_uint\<close> keeps a number in an array \<^verbatim>\<open>pn\<close> of 32-bit words, least
  significant first, and works on it word by word. The array is a list; the templates \<^verbatim>\<open>uint160\<close> and
  \<^verbatim>\<open>uint256\<close> are lists of length 5 and 8. The rest of the development computes with the machine words
  \<open>160 word\<close> and \<open>256 word\<close>; the lemmas show that \<^verbatim>\<open>base_uint\<close> implements their operations, and that
  printing in hexadecimal and reading are inverse.
\<close>

type_synonym base_uint = "u32 list"

section \<open>The operators\<close>

definition bu_is_zero :: "base_uint \<Rightarrow> bool" where
  "bu_is_zero a = list_all (\<lambda>x. x = 0) a"

definition bu_not :: "base_uint \<Rightarrow> base_uint" where
  "bu_not a = map (\<lambda>x. NOT x) a"

text \<open>The prefix operators carry on while a word wraps around and another follows.\<close>

fun bu_inc :: "base_uint \<Rightarrow> base_uint" where
  "bu_inc [] = []"
| "bu_inc (x # r) = (if x + 1 = 0 \<and> r \<noteq> [] then (x + 1) # bu_inc r else (x + 1) # r)"

fun bu_dec :: "base_uint \<Rightarrow> base_uint" where
  "bu_dec [] = []"
| "bu_dec (x # r) = (if x - 1 = - 1 \<and> r \<noteq> [] then (x - 1) # bu_dec r else (x - 1) # r)"

text \<open>The postfix operators: the value before, which is the result, and the value after.\<close>

definition bu_post_inc :: "base_uint \<Rightarrow> base_uint \<times> base_uint" where
  "bu_post_inc a = (let ret = a in (ret, bu_inc a))"

definition bu_post_dec :: "base_uint \<Rightarrow> base_uint \<times> base_uint" where
  "bu_post_dec a = (let ret = a in (ret, bu_dec a))"

definition bu_neg :: "base_uint \<Rightarrow> base_uint" where
  "bu_neg a = bu_inc (map (\<lambda>x. NOT x) a)"

definition bu_assign64 :: "nat \<Rightarrow> u64 \<Rightarrow> base_uint" where
  "bu_assign64 w b = [ucast b, ucast (drop_bit 32 b)] @ replicate (w - 2) 0"

definition bu_xor :: "base_uint \<Rightarrow> base_uint \<Rightarrow> base_uint" where
  "bu_xor a b = map2 (XOR) a b"

definition bu_and :: "base_uint \<Rightarrow> base_uint \<Rightarrow> base_uint" where
  "bu_and a b = map2 (AND) a b"

definition bu_or :: "base_uint \<Rightarrow> base_uint \<Rightarrow> base_uint" where
  "bu_or a b = map2 (OR) a b"

definition bu_xor64 :: "base_uint \<Rightarrow> u64 \<Rightarrow> base_uint" where
  "bu_xor64 a b = a[0 := a ! 0 XOR ucast b, 1 := a ! 1 XOR ucast (drop_bit 32 b)]"

definition bu_or64 :: "base_uint \<Rightarrow> u64 \<Rightarrow> base_uint" where
  "bu_or64 a b = a[0 := a ! 0 OR ucast b, 1 := a ! 1 OR ucast (drop_bit 32 b)]"

text \<open>One step of the shifts: the word \<open>i\<close> of the old value goes to two words of the new one.\<close>

definition shl_step :: "base_uint \<Rightarrow> nat \<Rightarrow> nat \<Rightarrow> nat \<Rightarrow> base_uint \<Rightarrow> base_uint" where
  "shl_step a k shift i pn =
     (let pn = (if i + k + 1 < length a \<and> shift \<noteq> 0
                then pn[i + k + 1 := pn ! (i + k + 1) OR drop_bit (32 - shift) (a ! i)] else pn)
      in if i + k < length a then pn[i + k := pn ! (i + k) OR push_bit shift (a ! i)] else pn)"

definition bu_shl :: "base_uint \<Rightarrow> nat \<Rightarrow> base_uint" where
  "bu_shl a shift =
     fold (shl_step a (shift div 32) (shift mod 32)) [0..<length a] (replicate (length a) 0)"

definition shr_step :: "base_uint \<Rightarrow> nat \<Rightarrow> nat \<Rightarrow> nat \<Rightarrow> base_uint \<Rightarrow> base_uint" where
  "shr_step a k shift i pn =
     (let pn = (if k + 1 \<le> i \<and> shift \<noteq> 0
                then pn[i - k - 1 := pn ! (i - k - 1) OR push_bit (32 - shift) (a ! i)] else pn)
      in if k \<le> i then pn[i - k := pn ! (i - k) OR drop_bit shift (a ! i)] else pn)"

definition bu_shr :: "base_uint \<Rightarrow> nat \<Rightarrow> base_uint" where
  "bu_shr a shift =
     fold (shr_step a (shift div 32) (shift mod 32)) [0..<length a] (replicate (length a) 0)"

fun bu_add_loop :: "u64 \<Rightarrow> base_uint \<Rightarrow> base_uint \<Rightarrow> base_uint" where
  "bu_add_loop carry (x # xs) (y # ys) =
     (let n = carry + ucast x + ucast y
      in ucast (n AND 0xffffffff) # bu_add_loop (drop_bit 32 n) xs ys)"
| "bu_add_loop carry _ _ = []"

definition bu_add :: "base_uint \<Rightarrow> base_uint \<Rightarrow> base_uint" where
  "bu_add a b = bu_add_loop 0 a b"

definition bu_sub :: "base_uint \<Rightarrow> base_uint \<Rightarrow> base_uint" where
  "bu_sub a b = bu_add a (bu_neg b)"

definition bu_add64 :: "base_uint \<Rightarrow> u64 \<Rightarrow> base_uint" where
  "bu_add64 a b = bu_add a (bu_assign64 (length a) b)"

definition bu_sub64 :: "base_uint \<Rightarrow> u64 \<Rightarrow> base_uint" where
  "bu_sub64 a b = bu_add a (bu_neg (bu_assign64 (length a) b))"

text \<open>The comparisons run from the most significant word down; the flag is the answer for equal numbers.\<close>

fun bu_less_loop :: "bool \<Rightarrow> u32 list \<Rightarrow> u32 list \<Rightarrow> bool" where
  "bu_less_loop eq (x # xs) (y # ys) = (if x < y then True else if x > y then False else bu_less_loop eq xs ys)"
| "bu_less_loop eq _ _ = eq"

definition bu_less :: "base_uint \<Rightarrow> base_uint \<Rightarrow> bool" where
  "bu_less a b = bu_less_loop False (rev a) (rev b)"

definition bu_le :: "base_uint \<Rightarrow> base_uint \<Rightarrow> bool" where
  "bu_le a b = bu_less_loop True (rev a) (rev b)"

fun bu_greater_loop :: "bool \<Rightarrow> u32 list \<Rightarrow> u32 list \<Rightarrow> bool" where
  "bu_greater_loop eq (x # xs) (y # ys) =
     (if x > y then True else if x < y then False else bu_greater_loop eq xs ys)"
| "bu_greater_loop eq _ _ = eq"

definition bu_greater :: "base_uint \<Rightarrow> base_uint \<Rightarrow> bool" where
  "bu_greater a b = bu_greater_loop False (rev a) (rev b)"

definition bu_ge :: "base_uint \<Rightarrow> base_uint \<Rightarrow> bool" where
  "bu_ge a b = bu_greater_loop True (rev a) (rev b)"

fun bu_eq :: "base_uint \<Rightarrow> base_uint \<Rightarrow> bool" where
  "bu_eq (x # xs) (y # ys) = (if x \<noteq> y then False else bu_eq xs ys)"
| "bu_eq _ _ = True"

definition bu_eq64 :: "base_uint \<Rightarrow> u64 \<Rightarrow> bool" where
  "bu_eq64 a b =
     (if a ! 0 \<noteq> ucast b then False
      else if a ! 1 \<noteq> ucast (drop_bit 32 b) then False
      else list_all (\<lambda>x. x = 0) (drop 2 a))"

definition bu_neq :: "base_uint \<Rightarrow> base_uint \<Rightarrow> bool" where
  "bu_neq a b \<longleftrightarrow> \<not> bu_eq a b"

definition bu_neq64 :: "base_uint \<Rightarrow> u64 \<Rightarrow> bool" where
  "bu_neq64 a b \<longleftrightarrow> \<not> bu_eq64 a b"

definition bu_GetLow64 :: "base_uint \<Rightarrow> nat \<Rightarrow> u64" where
  "bu_GetLow64 a n = ucast (a ! (2 * n)) OR push_bit 32 (ucast (a ! (2 * n + 1)))"

definition uint256Hasher :: "base_uint \<Rightarrow> u64" where
  "uint256Hasher h = bu_GetLow64 h 0 XOR (bu_GetLow64 h 1 * 0x9e3779b97f4a7c15)"

section \<open>Hexadecimal\<close>

definition hexdigits :: string where
  "hexdigits = ''0123456789abcdef''"

text \<open>\<^verbatim>\<open>%02x\<close>.\<close>

definition hex2 :: "byte \<Rightarrow> string" where
  "hex2 b = [hexdigits ! (unat b div 16), hexdigits ! (unat b mod 16)]"

definition bu_bytes :: "base_uint \<Rightarrow> bytes" where
  "bu_bytes a = concat (map mem a)"

definition bu_GetHex :: "base_uint \<Rightarrow> string" where
  "bu_GetHex a = concat (map (\<lambda>i. hex2 (bu_bytes a ! (4 * length a - i - 1))) [0..<4 * length a])"

definition isspace :: "char \<Rightarrow> bool" where
  "isspace c \<longleftrightarrow> of_char c \<in> {9, 10, 11, 12, 13, 32 :: nat}"

text \<open>The table \<^verbatim>\<open>phexdigit\<close>.\<close>

definition phexdigit :: "char \<Rightarrow> byte" where
  "phexdigit c =
     (let n = of_char c :: nat in
      if 48 \<le> n \<and> n \<le> 57 then word_of_nat (n - 48)
      else if 65 \<le> n \<and> n \<le> 70 then word_of_nat (n - 55)
      else if 97 \<le> n \<and> n \<le> 102 then word_of_nat (n - 87)
      else 0)"

text \<open>The digits are read from the last one back, two to a byte, until the digits or the bytes run out.\<close>

fun SetHex_loop :: "nat \<Rightarrow> string \<Rightarrow> bytes" where
  "SetHex_loop 0 ds = []"
| "SetHex_loop n [] = replicate n 0"
| "SetHex_loop (Suc n) [d] = phexdigit d # replicate n 0"
| "SetHex_loop (Suc n) (d # e # ds) = (phexdigit d OR push_bit 4 (phexdigit e)) # SetHex_loop n ds"

fun bu_words :: "bytes \<Rightarrow> base_uint" where
  "bu_words (a # b # c # d # r) = of_mem [a, b, c, d] # bu_words r"
| "bu_words _ = []"

text \<open>A C string ends at the first null character.\<close>

definition c_str :: "string \<Rightarrow> string" where
  "c_str s = takeWhile (\<lambda>c. c \<noteq> CHR 0x00) s"

definition bu_SetHex :: "nat \<Rightarrow> string \<Rightarrow> base_uint" where
  "bu_SetHex w s =
     (let psz = dropWhile isspace (c_str s);
          psz = (case psz of a # x # r \<Rightarrow>
                   if a = CHR ''0'' \<and> (x = CHR ''x'' \<or> x = CHR ''X'') then r else psz
                 | _ \<Rightarrow> psz);
          ds = takeWhile (\<lambda>c. phexdigit c \<noteq> 0 \<or> c = CHR ''0'') psz
      in bu_words (SetHex_loop (4 * w) (rev ds)))"

section \<open>Numbers as arrays\<close>

definition limbs :: "'a::len word \<Rightarrow> base_uint" where
  "limbs a = map (\<lambda>i. ucast (drop_bit (32 * i) a)) [0..<LENGTH('a) div 32]"

fun num :: "base_uint \<Rightarrow> nat" where
  "num [] = 0"
| "num (x # r) = unat x + 2 ^ 32 * num r"

lemma num_less: "num a < 2 ^ (32 * length a)"
proof (induction a)
  case (Cons x r)
  have "unat x < 2 ^ 32" using unsigned_less [of x] by simp
  moreover have "num r + 1 \<le> 2 ^ (32 * length r)" using Cons by simp
  then have "2 ^ 32 * (num r + 1) \<le> 2 ^ 32 * 2 ^ (32 * length r)" using mult_le_mono2 by blast
  ultimately show ?case by (simp add: power_add)
qed simp

lemma num_Cons_mod: "num (x # r) mod 2 ^ 32 = unat x" "num (x # r) div 2 ^ 32 = num r"
  using unsigned_less [of x, where 'a = nat] by simp_all

lemma num_inject: "length a = length b \<Longrightarrow> num a = num b \<Longrightarrow> a = b"
proof (induction a b rule: list_induct2)
  case (Cons x xs y ys)
  have "unat x = unat y" "num xs = num ys" using Cons.prems num_Cons_mod by metis+
  then show ?case using Cons.IH word_unat_eq_iff by auto
qed simp

lemma num_append: "num (a @ b) = num a + 2 ^ (32 * length a) * num b"
  by (induction a) (simp_all add: algebra_simps power_add)

lemma unat_ucast_u32: "unat (ucast w :: u32) = unat w mod 2 ^ 32"
  by (simp add: unsigned_ucast_eq take_bit_eq_mod)

lemma num_drops: "num (map (\<lambda>i. ucast (drop_bit (32 * i) (a :: 'a::len word)) :: u32) [0..<n]) = unat a mod 2 ^ (32 * n)"
proof (induction n)
  case (Suc n)
  have "unat (drop_bit (32 * n) a) = unat a div 2 ^ (32 * n)"
    by (simp only: unat_drop_bit_eq) (simp only: drop_bit_eq_div)
  then have "num (map (\<lambda>i. ucast (drop_bit (32 * i) a) :: u32) [0..<Suc n]) =
      unat a mod 2 ^ (32 * n) + 2 ^ (32 * n) * (unat a div 2 ^ (32 * n) mod 2 ^ 32)"
    using Suc by (simp add: num_append unat_ucast_u32 del: drop_bit_eq_div)
  also have "\<dots> = unat a mod (2 ^ (32 * n) * 2 ^ 32)"
    by (simp add: mod_mult2_eq)
  finally show ?case by (simp add: power_add mult.commute)
qed simp


lemma length_limbs [simp]: "length (limbs (a :: 'a::len word)) = LENGTH('a) div 32"
  by (simp add: limbs_def)

lemma num_limbs: "32 dvd LENGTH('a::len) \<Longrightarrow> num (limbs (a :: 'a word)) = unat a"
  using unsigned_less [of a] by (auto simp: limbs_def num_drops elim!: dvdE)

lemma limbs_eqI:
  assumes "32 dvd LENGTH('a::len)" "length x = LENGTH('a) div 32" "num x = unat a"
  shows "x = limbs (a :: 'a word)"
  by (rule num_inject) (simp_all add: assms num_limbs)

lemma nth_limbs: "i < LENGTH('a::len) div 32 \<Longrightarrow> limbs (a :: 'a word) ! i = ucast (drop_bit (32 * i) a)"
  by (simp add: limbs_def)

section \<open>Adding\<close>

lemma length_bu_add_loop [simp]: "length (bu_add_loop c a b) = min (length a) (length b)"
  by (induction c a b rule: bu_add_loop.induct) (simp_all add: Let_def)

lemma unat_ucast_u64: "unat (ucast (x :: u32) :: u64) = unat x"
  using unsigned_less [of x, where 'a = nat] by (simp add: unsigned_ucast_eq take_bit_eq_mod)

lemma num_add_loop:
  "length a = length b \<Longrightarrow> unat c < 2 ^ 32 \<Longrightarrow>
     num (bu_add_loop c a b) = (unat c + num a + num b) mod 2 ^ (32 * length a)"
proof (induction a b arbitrary: c rule: list_induct2)
  case (Cons x xs y ys)
  define n :: u64 where "n = c + ucast x + ucast y"
  let ?n = "unat c + unat x + unat y"
  have "unat x < 2 ^ 32" "unat y < 2 ^ 32" using unsigned_less [of x] unsigned_less [of y] by simp_all
  with Cons.prems have small: "?n < 2 ^ 64" by simp
  then have n: "unat n = ?n" by (simp add: n_def unat_word_ariths unat_ucast_u64)
  have lo: "unat (ucast (n AND 0xffffffff) :: u32) = ?n mod 2 ^ 32"
  proof -
    have "n AND 0xffffffff = take_bit 32 n" by (simp add: take_bit_eq_mask mask_eq_exp_minus_1)
    moreover have "unat (take_bit 32 n) = take_bit 32 (unat n)" by (rule unsigned_take_bit_eq)
    ultimately have "unat (ucast (n AND 0xffffffff) :: u32) = take_bit 32 (unat n) mod 2 ^ 32"
      by (simp only: unat_ucast_u32)
    then show ?thesis by (simp only: n take_bit_eq_mod mod_mod_trivial)
  qed
  have hi: "unat (drop_bit 32 n) = ?n div 2 ^ 32"
    by (simp only: unat_drop_bit_eq n) (simp only: drop_bit_eq_div)
  also have "\<dots> < 2 ^ 32" using small by simp
  finally have "num (bu_add_loop c (x # xs) (y # ys)) =
      ?n mod 2 ^ 32 + 2 ^ 32 * ((?n div 2 ^ 32 + num xs + num ys) mod 2 ^ (32 * length xs))"
    using Cons.IH [of "drop_bit 32 n"] lo hi by (simp add: n_def Let_def)
  also have "\<dots> = (?n + 2 ^ 32 * (num xs + num ys)) mod (2 ^ 32 * 2 ^ (32 * length xs))"
  proof -
    have "(?n + 2 ^ 32 * (num xs + num ys)) mod 2 ^ 32 = ?n mod 2 ^ 32" by (rule mod_mult_self2)
    moreover have "(?n + 2 ^ 32 * (num xs + num ys)) div 2 ^ 32 = num xs + num ys + ?n div 2 ^ 32"
      by (rule div_mult_self2) simp
    ultimately show ?thesis by (simp only: mod_mult2_eq) (simp add: ac_simps)
  qed
  finally show ?case by (simp add: algebra_simps power_add)
qed simp

lemma num_bu_add:
  "length a = length b \<Longrightarrow> num (bu_add a b) = (num a + num b) mod 2 ^ (32 * length a)"
  by (simp add: bu_add_def num_add_loop)


lemma length_bu_inc [simp]: "length (bu_inc a) = length a"
  by (induction a rule: bu_inc.induct) simp_all

lemma length_bu_dec [simp]: "length (bu_dec a) = length a"
  by (induction a rule: bu_dec.induct) simp_all

lemma unat_inc_u32: "unat (x + 1 :: u32) = (if x + 1 = 0 then 0 else unat x + 1)" "x + 1 = 0 \<Longrightarrow> unat x = 2 ^ 32 - 1"
  for x :: u32
proof -
  show "x + 1 = 0 \<Longrightarrow> unat x = 2 ^ 32 - 1" for x :: u32
    by (simp add: eq_neg_iff_add_eq_0 [symmetric] unsigned_minus_1_eq_mask mask_eq_exp_minus_1)
  show "unat (x + 1) = (if x + 1 = 0 then 0 else unat x + 1)"
    by (simp add: unatSuc add.commute)
qed

lemma num_bu_inc: "a \<noteq> [] \<Longrightarrow> num (bu_inc a) = (num a + 1) mod 2 ^ (32 * length a)"
proof (induction a)
  case (Cons x r)
  have r: "num r < 2 ^ (32 * length r)" by (rule num_less)
  show ?case
  proof (cases "x + 1 = 0")
    case True
    note x = unat_inc_u32(2) [OF this]
    show ?thesis
    proof (cases "r = []")
      case False
      have "2 ^ 32 * ((num r + 1) mod 2 ^ (32 * length r)) = (2 ^ 32 * (num r + 1)) mod 2 ^ (32 * length (x # r))"
        by (simp add: mult_mod_right power_add)
      then show ?thesis using Cons.IH False True x by (simp add: algebra_simps)
    qed (use True x in simp)
  next
    case False
    have "unat x + 1 < 2 ^ 32" using False unat_inc_u32(1) [of x] unsigned_less [of "x + 1", where 'a = nat] by simp
    moreover have "2 ^ 32 * (num r + 1) \<le> 2 ^ 32 * 2 ^ (32 * length r)" using r by simp
    ultimately have "unat x + 1 + 2 ^ 32 * num r < 2 ^ (32 * length (x # r))" by (simp add: power_add)
    then show ?thesis using False unat_inc_u32(1) [of x] by simp
  qed
qed simp

lemma unat_not_u32: "unat (NOT x :: u32) = 2 ^ 32 - 1 - unat x" for x :: u32
proof -
  have "NOT x = - 1 - x" by (simp add: not_eq_complement)
  moreover have "x \<le> - 1" by simp
  ultimately show ?thesis by (simp add: unat_sub unsigned_minus_1_eq_mask mask_eq_exp_minus_1)
qed

lemma num_not: "num (map (\<lambda>x. NOT x) a) + num a + 1 = 2 ^ (32 * length a)"
proof (induction a)
  case (Cons x r)
  have "unat (NOT x) + unat x + 1 = 2 ^ 32"
    using unsigned_less [of x, where 'a = nat] by (simp add: unat_not_u32)
  moreover have "2 ^ 32 * (num (map (\<lambda>x. NOT x) r) + num r + 1) = 2 ^ (32 * length (x # r))"
    by (simp only: Cons) (simp add: power_add)
  ultimately show ?case by (simp add: algebra_simps)
qed simp

lemma num_bu_neg:
  "a \<noteq> [] \<Longrightarrow> num (bu_neg a) = (2 ^ (32 * length a) - num a) mod 2 ^ (32 * length a)"
proof -
  assume a: "a \<noteq> []"
  have "num (map (\<lambda>x. NOT x) a) + 1 = 2 ^ (32 * length a) - num a" using num_not [of a] by linarith
  then show ?thesis using a by (simp add: bu_neg_def num_bu_inc)
qed

lemma num_bu_sub:
  "length a = length b \<Longrightarrow> a \<noteq> [] \<Longrightarrow>
     num (bu_sub a b) = (num a + (2 ^ (32 * length a) - num b)) mod 2 ^ (32 * length a)"
proof -
  assume l: "length a = length b" and "a \<noteq> []"
  then have "b \<noteq> []" by auto
  moreover have "length (bu_neg b) = length b" by (simp add: bu_neg_def)
  ultimately show ?thesis using l by (simp add: bu_sub_def num_bu_add num_bu_neg mod_add_right_eq)
qed

lemma bu_dec_not: "bu_dec a = map (\<lambda>x. NOT x) (bu_inc (map (\<lambda>x. NOT x) a))"
proof (induction a rule: bu_dec.induct)
  case (2 x r)
  have "NOT (NOT x + 1) = x - 1" by (simp add: not_eq_complement)
  moreover have "NOT x + 1 = 0 \<longleftrightarrow> x - 1 = - 1" by (simp add: not_eq_complement)
  ultimately show ?case using 2 by (auto simp: o_def)
qed simp

lemma num_bu_dec: "a \<noteq> [] \<Longrightarrow> num (bu_dec a) = (num a + (2 ^ (32 * length a) - 1)) mod 2 ^ (32 * length a)"
proof -
  let ?M = "2 ^ (32 * length a) :: nat" and ?n = "map (\<lambda>x. NOT x) a"
  assume a: "a \<noteq> []"
  have n: "num ?n + num a + 1 = ?M" by (rule num_not)
  have d: "num (bu_dec a) + (num ?n + 1) mod ?M + 1 = ?M"
    using num_not [of "bu_inc ?n"] a by (simp add: bu_dec_not num_bu_inc)
  have "num (bu_dec a) = (if num a = 0 then ?M - 1 else num a - 1)"
  proof -
    have "(num ?n + 1) mod ?M = (if num a = 0 then 0 else num ?n + 1)"
    proof (cases "num a = 0")
      case True
      then have "num ?n + 1 = ?M" using n by linarith
      then show ?thesis using True by (metis mod_self)
    next
      case False
      then have "num ?n + 1 < ?M" using n by linarith
      then show ?thesis using False by (metis mod_less)
    qed
    then obtain m where "m = (if num a = 0 then 0 else num ?n + 1)" "num (bu_dec a) + m + 1 = ?M"
      using d by simp
    with n show ?thesis by (cases "num a = 0") simp_all
  qed
  moreover have "(num a + (?M - 1)) mod ?M = (if num a = 0 then ?M - 1 else num a - 1)"
  proof (cases "num a = 0")
    case False
    then have "num a + (?M - 1) = (num a - 1) + ?M" using n by linarith
    moreover have "num a - 1 < ?M" using n by linarith
    ultimately show ?thesis using False by (metis mod_add_self2 mod_less)
  qed simp
  ultimately show ?thesis by simp
qed

section \<open>Comparing\<close>

lemma less_loop:
  "length xs = length ys \<Longrightarrow>
     bu_less_loop eq xs ys = (num (rev xs) < num (rev ys) \<or> eq \<and> num (rev xs) = num (rev ys))"
proof (induction xs ys rule: list_induct2)
  case (Cons x xs y ys)
  let ?B = "2 ^ (32 * length ys) :: nat"
  have b: "num (rev xs) < ?B" "num (rev ys) < ?B" using num_less [of "rev xs"] num_less [of "rev ys"] Cons(1) by simp_all
  have split: "unat x < unat y \<Longrightarrow> num (rev xs) + ?B * unat x < num (rev ys) + ?B * unat y"
    if "num (rev xs) < ?B" for x y :: u32 and xs ys :: base_uint
  proof -
    assume "unat x < unat y"
    then have "unat x + 1 \<le> unat y" by simp
    from mult_le_mono2 [OF this, of ?B] show ?thesis using that by simp
  qed
  show ?case
    using Cons split [of xs x y ys] split [of ys y x xs] b
    by (auto simp: num_append word_less_nat_alt not_less word_unat_eq_iff)
qed simp

lemma greater_loop: "bu_greater_loop eq xs ys = bu_less_loop eq ys xs"
  by (induction eq xs ys rule: bu_greater_loop.induct) auto

lemma bu_eq_iff: "length a = length b \<Longrightarrow> bu_eq a b \<longleftrightarrow> a = b"
  by (induction a b rule: list_induct2) simp_all

lemma bu_is_zero_num: "bu_is_zero a \<longleftrightarrow> num a = 0"
  by (induction a) (simp_all add: bu_is_zero_def unat_eq_zero)


section \<open>Shifting\<close>

lemma length_fold_keep:
  "(\<And>i p. length (f i p) = length p) \<Longrightarrow> length (fold f is p) = length p"
  by (induction "is" arbitrary: p) simp_all

lemma length_shl_step [simp]: "length (shl_step a k s i p) = length p"
  by (simp add: shl_step_def Let_def)

lemma length_shr_step [simp]: "length (shr_step a k s i p) = length p"
  by (simp add: shr_step_def Let_def)

lemma length_bu_shl [simp]: "length (bu_shl a s) = length a"
  by (simp add: bu_shl_def length_fold_keep)

lemma length_bu_shr [simp]: "length (bu_shr a s) = length a"
  by (simp add: bu_shr_def length_fold_keep)

lemma nth_shl_step:
  "j < length a \<Longrightarrow> length p = length a \<Longrightarrow> shl_step a k s m p ! j =
     (if j = m + k then p ! j OR push_bit s (a ! m)
      else if j = m + k + 1 \<and> s \<noteq> 0 then p ! j OR drop_bit (32 - s) (a ! m) else p ! j)"
  by (simp add: shl_step_def Let_def nth_list_update)

lemma nth_shr_step:
  "j < length a \<Longrightarrow> length p = length a \<Longrightarrow> m < length a \<Longrightarrow> shr_step a k s m p ! j =
     (if m = j + k then p ! j OR drop_bit s (a ! m)
      else if m = j + k + 1 \<and> s \<noteq> 0 then p ! j OR push_bit (32 - s) (a ! m) else p ! j)"
  by (auto simp: shr_step_def Let_def nth_list_update)

lemma shl_prefix:
  assumes "m \<le> length a" "j < length a"
  shows "fold (shl_step a k s) [0..<m] (replicate (length a) 0) ! j =
    (if k \<le> j \<and> j - k < m then push_bit s (a ! (j - k)) else 0) OR
    (if k + 1 \<le> j \<and> j - k - 1 < m \<and> s \<noteq> 0 then drop_bit (32 - s) (a ! (j - k - 1)) else 0)"
  using assms
proof (induction m)
  case (Suc m)
  define p where "p = fold (shl_step a k s) [0..<m] (replicate (length a) 0)"
  have l: "length p = length a" by (simp add: p_def length_fold_keep)
  note IH = Suc.IH [folded p_def]
  consider "j = m + k" | "j = m + k + 1" | "j \<noteq> m + k" "j \<noteq> m + k + 1" by blast
  then show ?case
    using IH Suc.prems l unfolding upt_Suc_append [OF le0] fold_append o_apply fold.simps id_apply p_def [symmetric]
    by cases (auto simp: nth_shl_step or.commute)
qed simp

lemma shr_prefix:
  assumes "m \<le> length a" "j < length a"
  shows "fold (shr_step a k s) [0..<m] (replicate (length a) 0) ! j =
    (if j + k < m then drop_bit s (a ! (j + k)) else 0) OR
    (if j + k + 1 < m \<and> s \<noteq> 0 then push_bit (32 - s) (a ! (j + k + 1)) else 0)"
  using assms
proof (induction m)
  case (Suc m)
  define p where "p = fold (shr_step a k s) [0..<m] (replicate (length a) 0)"
  have l: "length p = length a" by (simp add: p_def length_fold_keep)
  note IH = Suc.IH [folded p_def]
  consider "m = j + k" | "m = j + k + 1" | "m \<noteq> j + k" "m \<noteq> j + k + 1" by blast
  then show ?case
    using IH Suc.prems l unfolding upt_Suc_append [OF le0] fold_append o_apply fold.simps id_apply p_def [symmetric]
    by cases (auto simp: nth_shr_step or.commute)
qed simp


lemma bit_limbs:
  "j < LENGTH('a::len) div 32 \<Longrightarrow> bit (limbs (a :: 'a word) ! j) i \<longleftrightarrow> i < 32 \<and> bit a (32 * j + i)"
  by (auto simp: nth_limbs bit_ucast_iff bit_drop_bit_eq)

lemma limb_in_range: "32 dvd n \<Longrightarrow> j < n div 32 \<Longrightarrow> i < 32 \<Longrightarrow> 32 * j + i < (n :: nat)"
  by (auto elim!: dvdE)

lemma shl_limbs:
  assumes "32 dvd LENGTH('a::len)"
  shows "bu_shl (limbs (a :: 'a word)) s = limbs (push_bit s a)"
proof (rule nth_equalityI)
  fix j assume "j < length (bu_shl (limbs a) s)"
  then have j: "j < LENGTH('a) div 32" by simp
  define k r where "k = s div 32" and "r = s mod 32"
  have s: "s = 32 * k + r" "r < 32" by (simp_all add: k_def r_def)
  show "bu_shl (limbs a) s ! j = limbs (push_bit s a) ! j"
  proof (rule bit_word_eqI)
    fix i assume "i < LENGTH(32)"
    then have i: "i < 32" by simp
    have rhs: "bit (limbs (push_bit s a) ! j) i \<longleftrightarrow> s \<le> 32 * j + i \<and> bit a (32 * j + i - s)"
      using i j limb_in_range [OF assms j i] by (simp add: bit_limbs bit_push_bit_iff)
    have "bit (bu_shl (limbs a) s ! j) i \<longleftrightarrow>
        (k \<le> j \<and> r \<le> i \<and> bit (limbs a ! (j - k)) (i - r)) \<or>
        (k + 1 \<le> j \<and> r \<noteq> 0 \<and> bit (limbs a ! (j - k - 1)) (32 - r + i))"
      using shl_prefix [of "length (limbs a)" "limbs a" j k r] i j
      by (auto simp: bu_shl_def k_def [symmetric] r_def [symmetric] bit_or_iff bit_push_bit_iff bit_drop_bit_eq)
    also have "\<dots> \<longleftrightarrow> s \<le> 32 * j + i \<and> bit a (32 * j + i - s)"
    proof (cases "r \<le> i")
      case True
      have "\<not> bit (limbs a ! (j - k - 1)) (32 - r + i)" if "k + 1 \<le> j"
      proof -
        have "\<not> 32 - r + i < 32" using True s by linarith
        then show ?thesis using j that by (simp add: bit_limbs)
      qed
      moreover have "s \<le> 32 * j + i \<longleftrightarrow> k \<le> j" using s True i by linarith
      moreover have "k \<le> j \<Longrightarrow> 32 * (j - k) + (i - r) = 32 * j + i - s" using s True by simp
      ultimately show ?thesis using True i j by (auto simp: bit_limbs)
    next
      case False
      have "s \<le> 32 * j + i \<longleftrightarrow> k + 1 \<le> j" using s False i by linarith
      moreover have "k + 1 \<le> j \<Longrightarrow> 32 * (j - k - 1) + (32 - r + i) = 32 * j + i - s" using s False by simp
      ultimately show ?thesis using False i j by (auto simp: bit_limbs)
    qed
    finally show "bit (bu_shl (limbs a) s ! j) i = bit (limbs (push_bit s a) ! j) i" using rhs by simp
  qed
qed simp

lemma shr_limbs:
  assumes "32 dvd LENGTH('a::len)"
  shows "bu_shr (limbs (a :: 'a word)) s = limbs (drop_bit s a)"
proof (rule nth_equalityI)
  fix j assume "j < length (bu_shr (limbs a) s)"
  then have j: "j < LENGTH('a) div 32" by simp
  define k r where "k = s div 32" and "r = s mod 32"
  have s: "s = 32 * k + r" "r < 32" by (simp_all add: k_def r_def)
  show "bu_shr (limbs a) s ! j = limbs (drop_bit s a) ! j"
  proof (rule bit_word_eqI)
    fix i assume "i < LENGTH(32)"
    then have i: "i < 32" by simp
    have rhs: "bit (limbs (drop_bit s a) ! j) i \<longleftrightarrow> bit a (s + (32 * j + i))"
      using i j by (simp add: bit_limbs bit_drop_bit_eq)
    have out: "\<not> bit a m" if "LENGTH('a) div 32 * 32 \<le> m" for m
      using that assms bit_imp_le_length [of a m] by (auto elim!: dvdE)
    have "bit (bu_shr (limbs a) s ! j) i \<longleftrightarrow>
        (j + k < LENGTH('a) div 32 \<and> bit (limbs a ! (j + k)) (r + i)) \<or>
        (j + k + 1 < LENGTH('a) div 32 \<and> r \<noteq> 0 \<and> 32 - r \<le> i \<and> bit (limbs a ! (j + k + 1)) (i - (32 - r)))"
      using shr_prefix [of "length (limbs a)" "limbs a" j k r] i j
      by (auto simp: bu_shr_def k_def [symmetric] r_def [symmetric] bit_or_iff bit_push_bit_iff bit_drop_bit_eq)
    also have "\<dots> \<longleftrightarrow> bit a (s + (32 * j + i))"
    proof (cases "r + i < 32")
      case True
      then have e: "32 * (j + k) + (r + i) = s + (32 * j + i)" using s by simp
      show ?thesis
      proof (cases "j + k < LENGTH('a) div 32")
        case False
        then have "\<not> bit a (s + (32 * j + i))" using s by (intro out) linarith
        with True False show ?thesis by simp
      next
        case True
        have "\<not> 32 - r \<le> i" using \<open>r + i < 32\<close> s by linarith
        then show ?thesis using True \<open>r + i < 32\<close> bit_limbs [of "j + k" a "r + i", unfolded e] by simp
      qed
    next
      case False
      then have e: "32 * (j + k + 1) + (i - (32 - r)) = s + (32 * j + i)" "r \<noteq> 0" "32 - r \<le> i" "i - (32 - r) < 32"
        using s i by simp_all
      have "\<not> bit (limbs a ! (j + k)) (r + i)" if "j + k < LENGTH('a) div 32" using that False by (simp add: bit_limbs)
      moreover have "\<not> bit a (s + (32 * j + i))" if "\<not> j + k + 1 < LENGTH('a) div 32"
        using that s False by (intro out) linarith
      ultimately show ?thesis using e bit_limbs [of "j + k + 1" a "i - (32 - r)"] by auto
    qed
    finally show "bit (bu_shr (limbs a) s ! j) i = bit (limbs (drop_bit s a) ! j) i" using rhs by simp
  qed
qed simp

section \<open>\<^verbatim>\<open>base_uint\<close> implements words\<close>

lemma limbs_not_Nil: "32 dvd LENGTH('a::len) \<Longrightarrow> limbs (a :: 'a word) \<noteq> []"
  using len_gt_0 [where 'a = 'a] by (auto simp: limbs_def simp del: len_gt_0 elim!: dvdE)

lemma bitwise_limbs:
  fixes a b :: "'a::len word"
  shows "32 dvd LENGTH('a) \<Longrightarrow> bu_not (limbs a) = limbs (NOT a)"
    and "bu_xor (limbs a) (limbs b) = limbs (a XOR b)"
    and "bu_and (limbs a) (limbs b) = limbs (a AND b)"
    and "bu_or (limbs a) (limbs b) = limbs (a OR b)"
proof -
  show "bu_not (limbs a) = limbs (NOT a)" if "32 dvd LENGTH('a)"
  proof (rule nth_equalityI)
    fix j assume "j < length (bu_not (limbs a))"
    then have j: "j < LENGTH('a) div 32" by (simp add: bu_not_def)
    show "bu_not (limbs a) ! j = limbs (NOT a) ! j"
      by (rule bit_word_eqI)
        (use j limb_in_range [OF that j] in \<open>simp add: bu_not_def bit_not_iff bit_limbs\<close>)
  qed (simp add: bu_not_def)
  show "bu_xor (limbs a) (limbs b) = limbs (a XOR b)" "bu_and (limbs a) (limbs b) = limbs (a AND b)"
      "bu_or (limbs a) (limbs b) = limbs (a OR b)"
    by (rule nth_equalityI; simp add: bu_xor_def bu_and_def bu_or_def;
        rule bit_word_eqI; simp add: bit_limbs bit_simps)+
qed

lemma pow_length: "32 dvd n \<Longrightarrow> (2::nat) ^ (32 * (n div 32)) = 2 ^ n"
  by (auto elim!: dvdE)


lemma unat_neg_word: "unat (- b :: 'a::len word) = (2 ^ LENGTH('a) - unat b) mod 2 ^ LENGTH('a)"
proof -
  have "uint (- b) = - uint b mod 2 ^ LENGTH('a)" by (rule uint_word_ariths)
  also have "\<dots> = (2 ^ LENGTH('a) - uint b) mod 2 ^ LENGTH('a)" by (rule minus_mod_self1 [symmetric])
  finally have "int (unat (- b)) = (2 ^ LENGTH('a) - int (unat b)) mod 2 ^ LENGTH('a)" by simp
  moreover have "unat b \<le> 2 ^ LENGTH('a)" using unsigned_less [of b, where 'a = nat] by (rule less_imp_le)
  ultimately have "int (unat (- b)) = int ((2 ^ LENGTH('a) - unat b) mod 2 ^ LENGTH('a))"
    by (simp add: of_nat_mod of_nat_diff)
  then show ?thesis by (simp only: of_nat_eq_iff)
qed

lemma arith_limbs:
  fixes a b :: "'a::len word"
  assumes d: "32 dvd LENGTH('a)"
  shows "bu_add (limbs a) (limbs b) = limbs (a + b)"
    and "bu_neg (limbs a) = limbs (- a)"
    and "bu_sub (limbs a) (limbs b) = limbs (a - b)"
    and "bu_inc (limbs a) = limbs (a + 1)"
    and "bu_dec (limbs a) = limbs (a - 1)"
proof -
  note n = num_limbs [OF d] pow_length [OF d] limbs_not_Nil [OF d]
  show add: "bu_add (limbs a) (limbs b) = limbs (a + b)" for a b :: "'a word"
    by (rule limbs_eqI [OF d]) (simp add: bu_add_def, simp add: num_bu_add n(1,2) unat_word_ariths(1))
  show neg: "bu_neg (limbs a) = limbs (- a)" for a :: "'a word"
    by (rule limbs_eqI [OF d]) (simp add: bu_neg_def, simp add: num_bu_neg n unat_neg_word)
  show "bu_sub (limbs a) (limbs b) = limbs (a - b)" by (simp add: bu_sub_def neg add)
  show "bu_inc (limbs a) = limbs (a + 1)"
    by (rule limbs_eqI [OF d]) (simp, simp add: num_bu_inc n unat_word_ariths(1))
  show "bu_dec (limbs a) = limbs (a - 1)"
  proof (rule limbs_eqI [OF d])
    have "unat (a + - 1) = (unat a + unat (- 1 :: 'a word)) mod 2 ^ LENGTH('a)" by (rule unat_word_ariths)
    also have "unat (- 1 :: 'a word) = 2 ^ LENGTH('a) - 1" by (simp add: unsigned_minus_1_eq_mask mask_eq_exp_minus_1)
    finally show "num (bu_dec (limbs a)) = unat (a - 1)" by (simp add: num_bu_dec n)
  qed simp
qed

lemma compare_limbs:
  fixes a b :: "'a::len word"
  assumes d: "32 dvd LENGTH('a)"
  shows "bu_less (limbs a) (limbs b) \<longleftrightarrow> a < b" and "bu_le (limbs a) (limbs b) \<longleftrightarrow> a \<le> b"
    and "bu_greater (limbs a) (limbs b) \<longleftrightarrow> a > b" and "bu_ge (limbs a) (limbs b) \<longleftrightarrow> a \<ge> b"
    and "bu_eq (limbs a) (limbs b) \<longleftrightarrow> a = b" and "bu_is_zero (limbs a) \<longleftrightarrow> a = 0"
proof -
  note n = num_limbs [OF d]
  show "bu_less (limbs a) (limbs b) \<longleftrightarrow> a < b" "bu_le (limbs a) (limbs b) \<longleftrightarrow> a \<le> b"
      "bu_greater (limbs a) (limbs b) \<longleftrightarrow> a > b" "bu_ge (limbs a) (limbs b) \<longleftrightarrow> a \<ge> b"
    by (auto simp: bu_less_def bu_le_def bu_greater_def bu_ge_def less_loop greater_loop n
        word_less_nat_alt word_le_nat_alt)
  show "bu_eq (limbs a) (limbs b) \<longleftrightarrow> a = b"
  proof -
    have "limbs a = limbs b \<longleftrightarrow> a = b" using n word_unat_eq_iff by metis
    then show ?thesis by (simp add: bu_eq_iff)
  qed
  show "bu_is_zero (limbs a) \<longleftrightarrow> a = 0" by (simp add: bu_is_zero_num n unat_eq_zero)
qed

lemma assign64_limbs:
  assumes "32 dvd LENGTH('a::len)" "64 \<le> LENGTH('a)"
  shows "bu_assign64 (LENGTH('a) div 32) b = limbs (ucast b :: 'a word)"
proof (rule limbs_eqI [OF assms(1)])
  have w: "2 \<le> LENGTH('a) div 32" using assms(2) by linarith
  then show "length (bu_assign64 (LENGTH('a) div 32) b) = LENGTH('a) div 32" by (simp add: bu_assign64_def)
  have z: "num (replicate m 0) = 0" for m by (induction m) simp_all
  have "unat b < 2 ^ 64" using unsigned_less [of b, where 'a = nat] by simp
  have "num (bu_assign64 (LENGTH('a) div 32) b) = unat b mod 2 ^ 32 + 2 ^ 32 * (unat b div 2 ^ 32 mod 2 ^ 32)"
  proof -
    have "unat (drop_bit 32 b) = unat b div 2 ^ 32" by (simp only: unat_drop_bit_eq) (simp only: drop_bit_eq_div)
    then have "unat (ucast (drop_bit 32 b) :: u32) = unat b div 2 ^ 32 mod 2 ^ 32" by (simp only: unat_ucast_u32)
    then show ?thesis by (simp add: bu_assign64_def z unat_ucast_u32)
  qed
  also have "\<dots> = unat b" using \<open>unat b < 2 ^ 64\<close> by (simp flip: mod_mult2_eq)
  also have "\<dots> = unat (ucast b :: 'a word)"
  proof -
    have "(2 :: nat) ^ 64 \<le> 2 ^ LENGTH('a)" using assms(2) by (rule power_increasing) simp
    with \<open>unat b < 2 ^ 64\<close> have "unat b < 2 ^ LENGTH('a)" by (rule less_le_trans)
    then show ?thesis by (simp add: unsigned_ucast_eq take_bit_eq_mod)
  qed
  finally show "num (bu_assign64 (LENGTH('a) div 32) b) = unat (ucast b :: 'a word)" .
qed


lemma eq64_limbs:
  assumes "32 dvd LENGTH('a::len)" "64 \<le> LENGTH('a)"
  shows "bu_eq64 (limbs (a :: 'a word)) b \<longleftrightarrow> a = ucast b"
proof -
  have l: "2 \<le> length (limbs a)" using assms(2) by simp
  then obtain x y r where a: "limbs a = x # y # r" by (metis Suc_le_length_iff numeral_2_eq_2)
  have w: "LENGTH('a) div 32 - 2 = length r" using a length_limbs [of a] by simp
  have "limbs a = limbs (ucast b :: 'a word) \<longleftrightarrow> a = ucast b"
    using num_limbs [OF assms(1)] word_unat_eq_iff by metis
  moreover have "limbs (ucast b :: 'a word) = [ucast b, ucast (drop_bit 32 b)] @ replicate (length r) 0"
    using assign64_limbs [OF assms, of b] w by (simp add: bu_assign64_def)
  moreover have "list_all (\<lambda>x. x = 0) r \<longleftrightarrow> r = replicate (length r) 0" for r :: base_uint
    by (induction r) auto
  ultimately show ?thesis by (auto simp: bu_eq64_def a)
qed

lemma bitwise64:
  assumes "2 \<le> length a"
  shows "bu_xor64 a n = bu_xor a (bu_assign64 (length a) n)" "bu_or64 a n = bu_or a (bu_assign64 (length a) n)"
proof -
  obtain x y r where a: "a = x # y # r" using assms by (metis Suc_le_length_iff numeral_2_eq_2)
  have "map2 (XOR) r (replicate (length r) 0) = r" "map2 (OR) r (replicate (length r) 0) = r"
    by (induction r) simp_all
  then show "bu_xor64 a n = bu_xor a (bu_assign64 (length a) n)" "bu_or64 a n = bu_or a (bu_assign64 (length a) n)"
    by (simp_all add: a bu_xor64_def bu_or64_def bu_xor_def bu_or_def bu_assign64_def)
qed

text \<open>C30: The class \<^verbatim>\<open>uint256\<close> computes as the machine words of 256 bits: each operation on the array of
  eight 32-bit words, with its carry, its borrow and its shifts across the array, gives the array of
  the result, and each comparison is that of the numbers; an operand of 64 bits is extended by zeros, and the
  postfix operators return the value from before.\<close>

theorem uint256_implements_words:
  fixes a b :: uint256
  shows "bu_add (limbs a) (limbs b) = limbs (a + b) \<and> bu_sub (limbs a) (limbs b) = limbs (a - b) \<and>
    bu_neg (limbs a) = limbs (- a) \<and> bu_inc (limbs a) = limbs (a + 1) \<and> bu_dec (limbs a) = limbs (a - 1) \<and>
    bu_add64 (limbs a) n = limbs (a + ucast n) \<and> bu_sub64 (limbs a) n = limbs (a - ucast n) \<and>
    bu_shl (limbs a) s = limbs (push_bit s a) \<and> bu_shr (limbs a) s = limbs (drop_bit s a) \<and>
    bu_not (limbs a) = limbs (NOT a) \<and> bu_xor (limbs a) (limbs b) = limbs (a XOR b) \<and>
    bu_and (limbs a) (limbs b) = limbs (a AND b) \<and> bu_or (limbs a) (limbs b) = limbs (a OR b) \<and>
    (bu_less (limbs a) (limbs b) \<longleftrightarrow> a < b) \<and> (bu_le (limbs a) (limbs b) \<longleftrightarrow> a \<le> b) \<and>
    (bu_greater (limbs a) (limbs b) \<longleftrightarrow> a > b) \<and> (bu_ge (limbs a) (limbs b) \<longleftrightarrow> a \<ge> b) \<and>
    (bu_eq (limbs a) (limbs b) \<longleftrightarrow> a = b) \<and> (bu_eq64 (limbs a) n \<longleftrightarrow> a = ucast n) \<and>
    (bu_is_zero (limbs a) \<longleftrightarrow> a = 0) \<and>
    bu_assign64 8 n = limbs (ucast n :: uint256) \<and>
    bu_xor64 (limbs a) n = limbs (a XOR ucast n) \<and> bu_or64 (limbs a) n = limbs (a OR ucast n) \<and>
    bu_post_inc (limbs a) = (limbs a, limbs (a + 1)) \<and> bu_post_dec (limbs a) = (limbs a, limbs (a - 1)) \<and>
    (bu_neq (limbs a) (limbs b) \<longleftrightarrow> a \<noteq> b) \<and> (bu_neq64 (limbs a) n \<longleftrightarrow> a \<noteq> ucast n)"
proof -
  have w: "32 dvd LENGTH(256)" "64 \<le> LENGTH(256)" by simp_all
  have a64: "bu_assign64 8 n = limbs (ucast n :: uint256)" using assign64_limbs [OF w] by simp
  then have "bu_xor64 (limbs a) n = limbs (a XOR ucast n)" "bu_or64 (limbs a) n = limbs (a OR ucast n)"
    using bitwise_limbs(2,4) [of a "ucast n"] by (simp_all add: bitwise64)
  with a64 show ?thesis
    using arith_limbs [OF w(1)] compare_limbs [OF w(1)] shl_limbs [OF w(1)] shr_limbs [OF w(1)]
      bitwise_limbs(1) [OF w(1)] bitwise_limbs(2-4) [where 'a = 256] eq64_limbs [OF w]
    by (simp add: bu_add64_def bu_sub64_def bu_post_inc_def bu_post_dec_def bu_neq_def bu_neq64_def flip: bu_sub_def)
qed

section \<open>Printing and reading\<close>

lemma length_bu_bytes [simp]: "length (bu_bytes a) = 4 * length a"
  by (induction a) (simp_all add: bu_bytes_def)

lemma bu_GetHex_rev: "bu_GetHex a = concat (map hex2 (rev (bu_bytes a)))"
proof -
  have "map (\<lambda>i. hex2 (bu_bytes a ! (4 * length a - i - 1))) [0..<4 * length a] = map hex2 (rev (bu_bytes a))"
    by (rule nth_equalityI) (simp_all add: rev_nth)
  then show ?thesis by (simp add: bu_GetHex_def)
qed

lemma all_nibbles: "P 0 \<Longrightarrow> P 1 \<Longrightarrow> P 2 \<Longrightarrow> P 3 \<Longrightarrow> P 4 \<Longrightarrow> P 5 \<Longrightarrow> P 6 \<Longrightarrow> P 7 \<Longrightarrow> P 8 \<Longrightarrow> P 9 \<Longrightarrow>
    P 10 \<Longrightarrow> P 11 \<Longrightarrow> P 12 \<Longrightarrow> P 13 \<Longrightarrow> P 14 \<Longrightarrow> P 15 \<Longrightarrow> n < 16 \<Longrightarrow> P (n :: nat)"
proof -
  assume "n < 16" and p: "P 0" "P 1" "P 2" "P 3" "P 4" "P 5" "P 6" "P 7" "P 8" "P 9" "P 10" "P 11" "P 12" "P 13" "P 14" "P 15"
  then show "P n" by (auto simp: numeral_eq_Suc less_Suc_eq)
qed

lemma hexdigit_facts:
  assumes "n < 16"
  shows "phexdigit (hexdigits ! n) = word_of_nat n" and "\<not> isspace (hexdigits ! n)"
    and "hexdigits ! n \<noteq> CHR ''x''" and "hexdigits ! n \<noteq> CHR ''X''" and "hexdigits ! n \<noteq> CHR 0x00"
    and "phexdigit (hexdigits ! n) \<noteq> 0 \<or> hexdigits ! n = CHR ''0''"
  by (rule all_nibbles [OF _ _ _ _ _ _ _ _ _ _ _ _ _ _ _ _ assms]; simp add: hexdigits_def phexdigit_def isspace_def)+

lemma hex2_byte: "phexdigit (hexdigits ! (unat b mod 16)) OR push_bit 4 (phexdigit (hexdigits ! (unat b div 16))) = b"
proof -
  have d: "unat b div 16 < 16" using unat_byte_lt [of b] by linarith
  have "phexdigit (hexdigits ! (unat b mod 16)) = take_bit 4 b"
    using hexdigit_facts(1) [of "unat b mod 16"]
    by (simp add: take_bit_eq_mod word_unat_eq_iff unat_of_nat unat_mod)
  moreover have "phexdigit (hexdigits ! (unat b div 16)) = drop_bit 4 b"
  proof -
    have "unat (drop_bit 4 b) = unat b div 16" by (simp only: unat_drop_bit_eq) (simp add: drop_bit_eq_div)
    then show ?thesis using hexdigit_facts(1) [OF d] d by (simp add: word_unat_eq_iff del: drop_bit_eq_div)
  qed
  ultimately show ?thesis by (simp only:) (rule bit_word_eqI, auto simp: bit_simps, metis le_add_diff_inverse not_le)
qed

lemma SetHex_loop_bytes: "SetHex_loop (length bs) (rev (concat (map hex2 (rev bs)))) = bs"
  by (induction bs) (simp_all add: hex2_def hex2_byte)

lemma bu_words_bytes: "bu_words (bu_bytes a) = a"
proof (induction a)
  case (Cons x r)
  have "mem x = [word_of_nat (unat x), word_of_nat (unat x div 256), word_of_nat (unat x div 65536),
      word_of_nat (unat x div 16777216)]"
    by (simp add: mem_def le_bytes_4)
  then show ?case using Cons of_mem_mem [of x] by (simp add: bu_bytes_def)
qed (simp add: bu_bytes_def)

text \<open>A number printed with \<^verbatim>\<open>GetHex\<close> is read back by \<^verbatim>\<open>SetHex\<close>, also behind white space and the prefix
  \<^verbatim>\<open>0x\<close>, and whatever follows the last digit.\<close>

theorem uint_hex_roundtrip:
  assumes "list_all isspace sp" "p \<in> {'''', ''0x'', ''0X''}"
    "rest = [] \<or> phexdigit (hd rest) = 0 \<and> hd rest \<noteq> CHR ''0''" "a \<noteq> []"
  shows "bu_SetHex (length a) (sp @ p @ bu_GetHex a @ rest) = a"
proof -
  let ?h = "bu_GetHex a" and ?digit = "\<lambda>c. phexdigit c \<noteq> 0 \<or> c = CHR ''0''"
  define rest' where "rest' = c_str rest"
  have h: "list_all (\<lambda>c. \<not> isspace c \<and> c \<noteq> CHR ''x'' \<and> c \<noteq> CHR ''X'' \<and> c \<noteq> CHR 0x00 \<and> ?digit c) ?h"
    using hexdigit_facts(2-6) by (auto simp: bu_GetHex_rev hex2_def list_all_iff less_mult_imp_div_less)
  have rest': "takeWhile ?digit rest' = []"
    using assms(3) by (cases rest) (auto simp: rest'_def c_str_def)
  have "length ?h = 8 * length a" by (simp add: bu_GetHex_rev length_concat o_def hex2_def sum_list_triv)
  then have "2 \<le> length ?h" using assms(4) by (cases a) simp_all
  then obtain c d t where hc: "?h = c # d # t" by (metis Suc_le_length_iff numeral_2_eq_2)
  have "c_str (sp @ p @ ?h @ rest) = sp @ p @ ?h @ rest'"
  proof -
    have keep: "list_all (\<lambda>c. c \<noteq> CHR 0x00) xs \<Longrightarrow> c_str (xs @ ys) = xs @ c_str ys" for xs ys
      by (simp add: c_str_def list_all_iff takeWhile_append2)
    have "list_all (\<lambda>c. c \<noteq> CHR 0x00) sp" using assms(1) by (auto simp: list_all_iff isspace_def)
    moreover have "list_all (\<lambda>c. c \<noteq> CHR 0x00) p" using assms(2) by (elim insertE) simp_all
    moreover have "list_all (\<lambda>c. c \<noteq> CHR 0x00) ?h" using h by (simp add: list_all_iff)
    ultimately show ?thesis by (simp add: keep rest'_def)
  qed
  then have psz: "dropWhile isspace (c_str (sp @ p @ ?h @ rest)) = p @ ?h @ rest'"
  proof -
    have "dropWhile isspace (p @ ?h @ rest') = p @ ?h @ rest'"
      using assms(2) h by (elim insertE) (simp_all add: hc isspace_def)
    then show ?thesis using assms(1) \<open>c_str _ = _\<close> by (simp add: list_all_iff dropWhile_append2)
  qed
  have ds: "takeWhile ?digit (?h @ rest') = ?h"
    using h rest' by (induction ?h) (auto simp: list_all_iff)
  have "(case p @ ?h @ rest' of u # x # r \<Rightarrow>
        if u = CHR ''0'' \<and> (x = CHR ''x'' \<or> x = CHR ''X'') then r else p @ ?h @ rest' | _ \<Rightarrow> p @ ?h @ rest') = ?h @ rest'"
    using assms(2) h by (elim insertE) (simp_all add: hc)
  with psz ds have "bu_SetHex (length a) (sp @ p @ ?h @ rest) = bu_words (SetHex_loop (4 * length a) (rev ?h))"
    by (simp add: bu_SetHex_def Let_def)
  also have "\<dots> = a"
    using SetHex_loop_bytes [of "bu_bytes a"] by (simp add: bu_GetHex_rev bu_words_bytes)
  finally show ?thesis .
qed

theorem uint_hex_roundtrip_witness:
  "bu_SetHex 2 ('' '' @ ''0x'' @ bu_GetHex [0xdeadbeef, 7] @ '' and more'') = [0xdeadbeef, 7]"
  using uint_hex_roundtrip [of "'' ''" "''0x''" "'' and more''" "[0xdeadbeef, 7]"]
  by (simp add: isspace_def phexdigit_def numeral_2_eq_2)

end
