(* ===== verification/Base58.thy ===== *)
theory Base58
  imports BaseUint Templates
begin

text \<open>
  Addresses as text (\<^verbatim>\<open>base58.h\<close>): bytes in base 58, a checksum of four bytes, and the two kinds of data
  that are written that way, the address of a destination and a private key. The lemmas: the loop of
  the encoder ends, encoding and decoding are inverse on texts without white space, and the address
  of a destination gives the destination back, on the network it was made for only.
\<close>

section \<open>Base 58\<close>

definition pszBase58 :: string where
  "pszBase58 = ''123456789ABCDEFGHJKLMNPQRSTUVWXYZabcdefghijkmnopqrstuvwxyz''"

definition getuint :: "bnlib \<Rightarrow> CBigNum \<Rightarrow> u32" where
  "getuint B b = ucast (BN_get_word B b)"

text \<open>The loop over the quotients, the remainders giving the digits. \<^verbatim>\<open>BN_div\<close> delivers both; whether the
  loop ends is up to it.\<close>

partial_function (option) EncodeBase58_loop :: "bnlib \<Rightarrow> CBigNum \<Rightarrow> string \<Rightarrow> string option" where
  "EncodeBase58_loop B b str =
     (if b > 0 then
        let dv = BN_div B b 58; rem = b - dv * 58
        in EncodeBase58_loop B dv (str @ [pszBase58 ! unat (getuint B rem)])
      else Some str)"

definition EncodeBase58 :: "bnlib \<Rightarrow> bytes \<Rightarrow> string option" where
  "EncodeBase58 B vch =
     (let vchTmp = rev vch @ [0]; b = setvch B vchTmp
      in case EncodeBase58_loop B b [] of None \<Rightarrow> None
         | Some str \<Rightarrow> Some (rev (str @ replicate (length (takeWhile (\<lambda>x. x = 0) vch)) (pszBase58 ! 0))))"

fun strchr :: "string \<Rightarrow> char \<Rightarrow> nat option" where
  "strchr [] c = None"
| "strchr (x # r) c = (if x = c then Some 0 else map_option Suc (strchr r c))"

text \<open>The digits up to the end, or up to white space that must reach to the end.\<close>

fun DecodeBase58_loop :: "CBigNum \<Rightarrow> string \<Rightarrow> CBigNum option" where
  "DecodeBase58_loop b [] = Some b"
| "DecodeBase58_loop b (c # p) =
     (case strchr pszBase58 c of
        None \<Rightarrow> if dropWhile isspace (c # p) \<noteq> [] then None else Some b
      | Some i \<Rightarrow> DecodeBase58_loop (b * 58 + int i) p)"

text \<open>\<open>None\<close> is the result \<^verbatim>\<open>false\<close>; the vector is empty then.\<close>

definition DecodeBase58 :: "bnlib \<Rightarrow> string \<Rightarrow> bytes option" where
  "DecodeBase58 B str =
     (let psz = dropWhile isspace (c_str str) in
      case DecodeBase58_loop 0 psz of None \<Rightarrow> None
      | Some b \<Rightarrow>
          let vchTmp = getvch B b;
              vchTmp = (if length vchTmp \<ge> 2 \<and> last vchTmp = 0 \<and> last (butlast vchTmp) \<ge> 0x80
                        then butlast vchTmp else vchTmp);
              nLeadingZeros = length (takeWhile (\<lambda>c. c = pszBase58 ! 0) psz)
          in Some (replicate nLeadingZeros 0 @ rev vchTmp))"

definition EncodeBase58Check :: "ext \<Rightarrow> bytes \<Rightarrow> string option" where
  "EncodeBase58Check E vchIn = EncodeBase58 (bn E) (vchIn @ take 4 (mem (Hash E vchIn)))"

definition DecodeBase58Check :: "ext \<Rightarrow> string \<Rightarrow> bytes option" where
  "DecodeBase58Check E psz =
     (case DecodeBase58 (bn E) psz of None \<Rightarrow> None
      | Some vch \<Rightarrow>
          if length vch < 4 then None
          else
            let n = length vch - 4 in
            if take 4 (mem (Hash E (take n vch))) \<noteq> drop n vch then None else Some (take n vch))"

section \<open>\<^verbatim>\<open>CBase58Data\<close>\<close>

record CBase58Data =
  b58Version :: byte
  vchData :: bytes

definition new_CBase58Data :: CBase58Data where
  "new_CBase58Data = \<lparr>b58Version = 0, vchData = []\<rparr>"

definition SetData :: "nat \<Rightarrow> bytes \<Rightarrow> CBase58Data" where
  "SetData nVersionIn pdata = \<lparr>b58Version = word_of_nat nVersionIn, vchData = pdata\<rparr>"

definition SetString :: "ext \<Rightarrow> string \<Rightarrow> bool \<times> CBase58Data" where
  "SetString E psz =
     (case DecodeBase58Check E psz of
        Some (v # d) \<Rightarrow> (True, \<lparr>b58Version = v, vchData = d\<rparr>)
      | _ \<Rightarrow> (False, \<lparr>b58Version = 0, vchData = []\<rparr>))"

definition CBase58Data_ToString :: "ext \<Rightarrow> CBase58Data \<Rightarrow> string option" where
  "CBase58Data_ToString E d = EncodeBase58Check E (b58Version d # vchData d)"

definition CompareTo :: "CBase58Data \<Rightarrow> CBase58Data \<Rightarrow> int" where
  "CompareTo a b =
     (if b58Version a < b58Version b then - 1
      else if b58Version a > b58Version b then 1
      else if vchData a < vchData b then - 1
      else if vchData a > vchData b then 1
      else 0)"

section \<open>Addresses\<close>

definition PUBKEY_ADDRESS :: nat where [simp]: "PUBKEY_ADDRESS = 0x38"

definition SCRIPT_ADDRESS :: nat where [simp]: "SCRIPT_ADDRESS = 0x3F"

definition PUBKEY_ADDRESS_TEST :: nat where [simp]: "PUBKEY_ADDRESS_TEST = 0x6F"

definition SCRIPT_ADDRESS_TEST :: nat where [simp]: "SCRIPT_ADDRESS_TEST = 0x34"

definition HYBRID_ADDRESS :: nat where [simp]: "HYBRID_ADDRESS = 0x3A"

definition HYBRID_ADDRESS_TEST :: nat where [simp]: "HYBRID_ADDRESS_TEST = 0x6A"

text \<open>\<^verbatim>\<open>Set\<close>, through the visitor: \<^verbatim>\<open>CNoDestination\<close> leaves the address as it was constructed.\<close>

definition CCoinAddress_Set :: "bool \<Rightarrow> CTxDestination \<Rightarrow> CBase58Data \<Rightarrow> bool \<times> CBase58Data" where
  "CCoinAddress_Set testnet dest a =
     (case dest of
        CNoDestination \<Rightarrow> (False, a)
      | CKeyID h \<Rightarrow> (True, SetData (if testnet then PUBKEY_ADDRESS_TEST else PUBKEY_ADDRESS) (mem h))
      | CScriptID h \<Rightarrow> (True, SetData (if testnet then SCRIPT_ADDRESS_TEST else SCRIPT_ADDRESS) (mem h))
      | CHybridKeyID h \<Rightarrow> (True, SetData (if testnet then HYBRID_ADDRESS_TEST else HYBRID_ADDRESS) (mem h)))"

definition CCoinAddress_IsValid :: "bool \<Rightarrow> CBase58Data \<Rightarrow> bool" where
  "CCoinAddress_IsValid testnet a =
     (let v = unat (b58Version a);
          expect = (if v = PUBKEY_ADDRESS then Some (False, 20)
                    else if v = SCRIPT_ADDRESS then Some (False, 20)
                    else if v = PUBKEY_ADDRESS_TEST then Some (True, 20)
                    else if v = SCRIPT_ADDRESS_TEST then Some (True, 20)
                    else if v = HYBRID_ADDRESS then Some (False, 20)
                    else if v = HYBRID_ADDRESS_TEST then Some (True, 20)
                    else None)
      in case expect of None \<Rightarrow> False
         | Some (fExpectTestNet, nExpectedSize) \<Rightarrow>
             if fExpectTestNet \<noteq> testnet \<or> length (vchData a) \<noteq> nExpectedSize then False else True)"

definition CCoinAddress_Get :: "bool \<Rightarrow> CBase58Data \<Rightarrow> CTxDestination" where
  "CCoinAddress_Get testnet a =
     (if \<not> CCoinAddress_IsValid testnet a then CNoDestination
      else
        let v = unat (b58Version a); i = of_mem (take 20 (vchData a)) in
        if v = PUBKEY_ADDRESS \<or> v = PUBKEY_ADDRESS_TEST then CKeyID i
        else if v = SCRIPT_ADDRESS \<or> v = SCRIPT_ADDRESS_TEST then CScriptID i
        else if v = HYBRID_ADDRESS \<or> v = HYBRID_ADDRESS_TEST then CHybridKeyID i
        else CNoDestination)"

definition CCoinAddress_GetKeyID :: "bool \<Rightarrow> CBase58Data \<Rightarrow> uint160 option" where
  "CCoinAddress_GetKeyID testnet a =
     (if \<not> CCoinAddress_IsValid testnet a then None
      else if unat (b58Version a) = PUBKEY_ADDRESS \<or> unat (b58Version a) = PUBKEY_ADDRESS_TEST
      then Some (of_mem (take 20 (vchData a))) else None)"

definition GetHybridKeyID :: "bool \<Rightarrow> CBase58Data \<Rightarrow> uint160 option" where
  "GetHybridKeyID testnet a =
     (if \<not> CCoinAddress_IsValid testnet a then None
      else if unat (b58Version a) = HYBRID_ADDRESS \<or> unat (b58Version a) = HYBRID_ADDRESS_TEST
      then Some (of_mem (take 20 (vchData a))) else None)"

definition CCoinAddress_IsScript :: "bool \<Rightarrow> CBase58Data \<Rightarrow> bool" where
  "CCoinAddress_IsScript testnet a =
     (if \<not> CCoinAddress_IsValid testnet a then False
      else unat (b58Version a) = SCRIPT_ADDRESS \<or> unat (b58Version a) = SCRIPT_ADDRESS_TEST)"

definition GetHybridKey :: "CBase58Data \<Rightarrow> CHybridPubKey" where
  "GetHybridKey a = HybridPubKey_Deserialize (vchData a)"

section \<open>Private keys\<close>

definition PRIVKEY_ADDRESS :: nat where [simp]: "PRIVKEY_ADDRESS = PUBKEY_ADDRESS + 128"

definition PRIVKEY_ADDRESS_TEST :: nat where [simp]: "PRIVKEY_ADDRESS_TEST = PUBKEY_ADDRESS_TEST + 128"

text \<open>\<open>None\<close> is the failed assertion on the size.\<close>

definition SetSecret :: "bool \<Rightarrow> bytes \<Rightarrow> bool \<Rightarrow> CBase58Data option" where
  "SetSecret testnet vchSecret fCompressed =
     (if length vchSecret \<noteq> 32 then None
      else
        let d = SetData (if testnet then PRIVKEY_ADDRESS_TEST else PRIVKEY_ADDRESS) vchSecret
        in Some (if fCompressed then d\<lparr>vchData := vchData d @ [1]\<rparr> else d))"

definition GetSecret :: "CBase58Data \<Rightarrow> bytes \<times> bool" where
  "GetSecret d = (take 32 (vchData d), length (vchData d) = 33)"

definition CCoinSecret_IsValid :: "bool \<Rightarrow> CBase58Data \<Rightarrow> bool" where
  "CCoinSecret_IsValid testnet d =
     (let v = unat (b58Version d);
          expect = (if v = PRIVKEY_ADDRESS then Some False
                    else if v = PRIVKEY_ADDRESS_TEST then Some True else None)
      in case expect of None \<Rightarrow> False
         | Some fExpectTestNet \<Rightarrow>
             if fExpectTestNet \<noteq> testnet then False
             else if length (vchData d) < 32 \<or> length (vchData d) > 33 then False
             else if length (vchData d) = 33 \<and> vchData d ! 32 \<noteq> 1 then False
             else True)"

definition CCoinSecret_SetString :: "ext \<Rightarrow> bool \<Rightarrow> string \<Rightarrow> bool \<times> CBase58Data" where
  "CCoinSecret_SetString E testnet psz =
     (case SetString E psz of (ok, d) \<Rightarrow> (ok \<and> CCoinSecret_IsValid testnet d, d))"


section \<open>The digits\<close>

fun digits58 :: "nat \<Rightarrow> nat list" where
  "digits58 n = (if n = 0 then [] else n mod 58 # digits58 (n div 58))"

declare digits58.simps [simp del]

lemma digits58_0 [simp]: "digits58 0 = []"
  by (simp add: digits58.simps)

lemma digits58_pos: "0 < n \<Longrightarrow> digits58 n = n mod 58 # digits58 (n div 58)"
  by (simp add: digits58.simps)

definition value58 :: "nat list \<Rightarrow> nat" where
  "value58 ds = foldr (\<lambda>d a. d + 58 * a) ds 0"

lemma value58_simps [simp]: "value58 [] = 0" "value58 (d # ds) = d + 58 * value58 ds"
  by (simp_all add: value58_def)

lemma value58_digits [simp]: "value58 (digits58 n) = n"
proof (induction n rule: digits58.induct)
  case (1 n)
  then show ?case by (cases "n = 0") (simp_all add: digits58_pos)
qed

lemma digits58_less: "d \<in> set (digits58 n) \<Longrightarrow> d < 58"
proof (induction n rule: digits58.induct)
  case (1 n)
  then show ?case by (cases "n = 0") (auto simp: digits58_pos)
qed

lemma last_digits58: "0 < n \<Longrightarrow> last (digits58 n) \<noteq> 0"
proof (induction n rule: digits58.induct)
  case (1 n)
  show ?case
  proof (cases "n div 58 = 0")
    case True
    then show ?thesis using 1(2) by (simp add: digits58_pos)
  next
    case False
    then have "digits58 (n div 58) \<noteq> []" by (simp add: digits58_pos)
    then show ?thesis using 1 False by (simp add: digits58_pos [of n])
  qed
qed

lemma digits58_value: "list_all (\<lambda>d. d < 58) ds \<Longrightarrow> ds = [] \<or> last ds \<noteq> 0 \<Longrightarrow> digits58 (value58 ds) = ds"
proof (induction ds)
  case (Cons d ds)
  show ?case
  proof (cases "ds = []")
    case True
    then show ?thesis using Cons.prems by (simp add: digits58_pos)
  next
    case False
    then have IH: "digits58 (value58 ds) = ds" using Cons by simp
    then have "0 < value58 ds" using False by (metis digits58_0 neq0_conv)
    then show ?thesis using Cons.prems IH by (simp add: digits58_pos)
  qed
qed simp

lemma value58_less: "list_all (\<lambda>d. d < 58) ds \<Longrightarrow> value58 ds < 58 ^ length ds"
  by (induction ds) auto

section \<open>The loops\<close>

lemma EncodeBase58_loop_digits:
  assumes "bn_laws B"
  shows "EncodeBase58_loop B (int n) str = Some (str @ map ((!) pszBase58) (digits58 n))"
proof (induction n arbitrary: str rule: less_induct)
  case (less n)
  show ?case
  proof (cases "n = 0")
    case True
    then show ?thesis by (simp add: EncodeBase58_loop.simps)
  next
    case False
    have d: "BN_div B (int n) 58 = int (n div 58)"
      using bn_lawsD(4) [OF assms, of 58 "int n"] False by (simp add: zdiv_int)
    have r: "int n - int (n div 58) * 58 = int (n mod 58)"
      by (metis add_diff_cancel_left' div_mult_mod_eq of_nat_add of_nat_mult of_nat_numeral)
    have "(n mod 58) < 58" by simp
    then have c: "unat (getuint B (int (n mod 58))) = n mod 58"
      by (simp add: getuint_def bn_lawsD(3) [OF assms] unsigned_ucast_eq take_bit_eq_mod unat_of_nat
          flip: of_nat_mod)
    have "n div 58 < n" using False by simp
    from less.IH [OF this] show ?thesis
      using False by (subst EncodeBase58_loop.simps) (simp add: d r c Let_def digits58_pos)
  qed
qed

lemma EncodeBase58_eq:
  assumes "bn_laws B" "length v < 2 ^ 31 - 1"
  shows "EncodeBase58 B v =
    Some (replicate (length (takeWhile (\<lambda>x. x = 0) v)) (pszBase58 ! 0) @ map ((!) pszBase58) (rev (digits58 (be_nat v))))"
proof -
  have "setvch B (rev v @ [0]) = int (be_nat v)"
    using assms by (simp add: setvch_eq mpi_value_def be_nat_Cons)
  then show ?thesis by (simp add: EncodeBase58_def EncodeBase58_loop_digits [OF assms(1)] rev_map)
qed

lemma strchr_Some: "strchr s c = Some i \<Longrightarrow> i < length s \<and> s ! i = c"
  by (induction s arbitrary: i) (auto split: if_splits)

lemma strchr_nth: "distinct s \<Longrightarrow> i < length s \<Longrightarrow> strchr s (s ! i) = Some i"
proof (induction s arbitrary: i)
  case (Cons x r)
  then show ?case by (cases i) auto
qed simp

lemma Base58_facts: "distinct pszBase58" "length pszBase58 = 58"
    "list_all (\<lambda>c. \<not> isspace c \<and> c \<noteq> CHR 0x00) pszBase58"
  by (simp_all add: pszBase58_def isspace_def)

lemma DecodeBase58_loop_digits:
  "list_all (\<lambda>d. d < 58) ds \<Longrightarrow>
     DecodeBase58_loop (int a) (map ((!) pszBase58) ds) = Some (int (a * 58 ^ length ds + value58 (rev ds)))"
proof (induction ds arbitrary: a)
  case (Cons d ds)
  have "value58 (xs @ [d]) = value58 xs + 58 ^ length xs * d" for xs
    by (induction xs) (simp_all add: algebra_simps)
  moreover have "int a * 58 + int d = int (a * 58 + d)" by simp
  moreover have "DecodeBase58_loop (int a) (map ((!) pszBase58) (d # ds)) =
      DecodeBase58_loop (int (a * 58 + d)) (map ((!) pszBase58) ds)"
    using Cons.prems calculation(2) by (simp add: strchr_nth Base58_facts)
  ultimately show ?case using Cons.IH [of "a * 58 + d"] Cons.prems by (simp add: algebra_simps)
qed simp

text \<open>The bytes of a number without its sign byte.\<close>

lemma trim_getvch:
  assumes "bn_laws B" "length (mpi_body (int n)) < 2 ^ 31"
  shows "(let w = getvch B (int n) in
     if length w \<ge> 2 \<and> last w = 0 \<and> last (butlast w) \<ge> 0x80 then butlast w else w) = min_le n"
proof (cases "n = 0")
  case True
  then show ?thesis using assms by simp
next
  case False
  then have ne: "min_le n \<noteq> []" and l: "last (min_le n) \<noteq> 0" using min_le_last by auto
  obtain xs x where m: "min_le n = xs @ [x]" using ne by (metis append_butlast_last_id)
  have "getvch B (int n) = (if 0x80 \<le> x then min_le n @ [0] else min_le n)"
    using assms by (simp add: getvch_eq mpi_body_def mpi_sign_def m)
  then show ?thesis using l by (simp add: m Let_def butlast_append)
qed

lemma bytes_split: "v = replicate (length (takeWhile (\<lambda>x. x = 0) v)) 0 @ rev (min_le (be_nat v))" for v :: bytes
proof -
  have "dropWhile (\<lambda>b. b = 0) (be_bytes (length v) (be_nat v)) = rev (min_le (be_nat v))"
    using be_nat_less [of v] by (rule dropWhile_be_bytes)
  then have "dropWhile (\<lambda>b. b = 0) v = rev (min_le (be_nat v))" by (simp add: codec_simps)
  moreover have "takeWhile (\<lambda>b. b = 0) v = replicate (length (takeWhile (\<lambda>b. b = 0) v)) 0"
    by (induction v) simp_all
  ultimately show ?thesis using takeWhile_dropWhile_id by metis
qed


lemma base58_chars:
  assumes "ds = rev (digits58 n)"
  shows "list_all (\<lambda>c. c \<in> set pszBase58) (replicate z (pszBase58 ! 0) @ map ((!) pszBase58) ds)"
  using assms digits58_less [of _ n] by (auto simp: list_all_iff Base58_facts intro!: nth_mem)

lemma psz_base58:
  assumes "list_all (\<lambda>c. c \<in> set pszBase58) s"
  shows "dropWhile isspace (c_str s) = s"
proof -
  have ok: "\<not> isspace c" "c \<noteq> CHR 0x00" if "c \<in> set pszBase58" for c
    using that Base58_facts(3) by (auto simp: list_all_iff)
  have "c_str s = s" using assms ok(2) by (auto simp: c_str_def list_all_iff)
  moreover have "dropWhile isspace s = s" using assms ok(1) by (cases s) auto
  ultimately show ?thesis by simp
qed

lemma mpi_body_short: "n < 256 ^ k \<Longrightarrow> k < 2 ^ 31 - 1 \<Longrightarrow> length (mpi_body (int n)) < 2 ^ 31"
proof -
  assume n: "n < 256 ^ k" and k: "k < 2 ^ 31 - 1"
  have "(256 :: nat) ^ k \<le> 2 ^ (8 * k + 7)" by (simp add: power_add power_mult)
  with n have "n < 2 ^ (8 * k + 7)" by (rule less_le_trans)
  then have "\<bar>int n\<bar> < 2 ^ (8 * k + 7)" by (metis abs_of_nat of_nat_less_iff of_nat_numeral of_nat_power)
  from mpi_body_length [OF this] k show ?thesis by linarith
qed

text \<open>A text of base 58 digits, written with its leading ones apart.\<close>

lemma DecodeBase58_eq:
  assumes "bn_laws B" "list_all (\<lambda>d. d < 58) ds" "ds = [] \<or> hd ds \<noteq> 0" "z + length ds < 2 ^ 31 - 1"
  shows "DecodeBase58 B (replicate z (pszBase58 ! 0) @ map ((!) pszBase58) ds) =
    Some (replicate z 0 @ rev (min_le (value58 (rev ds))))"
proof -
  let ?s = "replicate z (pszBase58 ! 0) @ map ((!) pszBase58) ds" and ?n = "value58 (rev ds)"
  have s: "?s = map ((!) pszBase58) (replicate z 0 @ ds)" by simp
  have "list_all (\<lambda>c. c \<in> set pszBase58) ?s"
    using assms(2) by (auto simp: list_all_iff Base58_facts intro!: nth_mem)
  note psz = psz_base58 [OF this]
  have zeros: "value58 (xs @ replicate k 0) = value58 xs" for xs k
    by (induction xs) (simp, induction k, simp_all)
  then have loop: "DecodeBase58_loop 0 ?s = Some (int ?n)"
  proof -
    have "list_all (\<lambda>d. d < 58) (replicate z 0 @ ds)" using assms(2) by (auto simp: list_all_iff)
    from DecodeBase58_loop_digits [OF this, of 0] show ?thesis unfolding s by (simp add: zeros)
  qed
  have "length (takeWhile (\<lambda>c. c = pszBase58 ! 0) ?s) = z"
  proof (cases ds)
    case Nil
    then show ?thesis by (induction z) simp_all
  next
    case (Cons d r)
    then have "d < 58" "d \<noteq> 0" using assms(2,3) by simp_all
    then have "pszBase58 ! d \<noteq> pszBase58 ! 0" using Base58_facts(1,2) by (simp add: nth_eq_iff_index_eq)
    then show ?thesis using Cons by (induction z) simp_all
  qed
  moreover have "length (mpi_body (int ?n)) < 2 ^ 31"
  proof -
    have "?n < 58 ^ length ds" using value58_less [of "rev ds"] assms(2) by (simp add: list_all_rev)
    also have "\<dots> \<le> 256 ^ length ds" by (rule power_mono) simp_all
    finally show ?thesis by (rule mpi_body_short) (use assms(4) in simp)
  qed
  ultimately show ?thesis
    using trim_getvch [OF assms(1), of ?n] unfolding DecodeBase58_def psz Let_def loop by simp
qed

lemma EncodeDecode:
  assumes "bn_laws B" "length v < 2 ^ 29"
  shows "\<exists>s. EncodeBase58 B v = Some s \<and> DecodeBase58 B s = Some v \<and> list_all (\<lambda>c. c \<in> set pszBase58) s"
proof -
  let ?z = "length (takeWhile (\<lambda>x. x = 0) v)" and ?n = "be_nat v"
  let ?ds = "rev (digits58 ?n)"
  have "length (digits58 n) \<le> 2 * k" if "n < 256 ^ k" for n k
    using that
  proof (induction k arbitrary: n)
    case (Suc k)
    have "n div 58 div 58 < 256 ^ k" using Suc.prems by (simp add: div_mult2_eq [symmetric] less_mult_imp_div_less)
    from Suc.IH [OF this] show ?case
      by (cases "n = 0"; cases "n div 58 = 0") (simp_all add: digits58_pos)
  qed simp
  then have len: "length ?ds \<le> 2 * length v" using be_nat_less [of v] by simp
  have z: "?z \<le> length v" by (rule length_takeWhile_le)
  have size: "?z + length ?ds < 2 ^ 31 - 1"
    using z len assms(2) by simp
  have hd: "?ds = [] \<or> hd ?ds \<noteq> 0"
    using last_digits58 [of ?n] by (cases "?n = 0") (auto simp: hd_rev)
  have "list_all (\<lambda>d. d < 58) ?ds" using digits58_less by (auto simp: list_all_iff)
  from DecodeBase58_eq [OF assms(1) this hd size]
  have "DecodeBase58 B (replicate ?z (pszBase58 ! 0) @ map ((!) pszBase58) ?ds) = Some v"
    using bytes_split [of v] by simp
  moreover have "length v < 2 ^ 31 - 1" using assms(2) by simp
  ultimately show ?thesis using EncodeBase58_eq [OF assms(1)] base58_chars [OF refl, of ?z ?n] by blast
qed


lemma digit_list: "list_all (\<lambda>c. c \<in> set pszBase58) s \<Longrightarrow> \<exists>ds. s = map ((!) pszBase58) ds \<and> list_all (\<lambda>d. d < 58) ds"
proof (induction s)
  case (Cons c s)
  then obtain ds where "s = map ((!) pszBase58) ds" "list_all (\<lambda>d. d < 58) ds" by auto
  moreover obtain d where "d < 58" "c = pszBase58 ! d"
    using Cons.prems Base58_facts(2) by (auto simp: in_set_conv_nth)
  ultimately have "c # s = map ((!) pszBase58) (d # ds)" "list_all (\<lambda>d. d < 58) (d # ds)" by simp_all
  then show ?case by (intro exI conjI)
qed simp

lemma DecodeEncode:
  assumes "bn_laws B" "list_all (\<lambda>c. c \<in> set pszBase58) s" "length s < 2 ^ 29"
  shows "\<exists>v. DecodeBase58 B s = Some v \<and> EncodeBase58 B v = Some s"
proof -
  obtain es where s: "s = map ((!) pszBase58) es" and es: "list_all (\<lambda>d. d < 58) es"
    using digit_list [OF assms(2)] by blast
  define z ds where "z = length (takeWhile (\<lambda>d. d = 0) es)" and "ds = dropWhile (\<lambda>d. d = 0) es"
  have z: "takeWhile (\<lambda>d. d = 0) es = replicate z 0" unfolding z_def by (induction es) simp_all
  then have e: "es = replicate z 0 @ ds" unfolding ds_def by (metis takeWhile_dropWhile_id)
  have s': "s = replicate z (pszBase58 ! 0) @ map ((!) pszBase58) ds" unfolding s e by simp
  have ds: "list_all (\<lambda>d. d < 58) ds" using es by (simp add: e)
  have hd: "ds = [] \<or> hd ds \<noteq> 0" unfolding ds_def using hd_dropWhile by blast
  have "length s = z + length ds" by (simp add: s')
  with assms(3) have len: "z + length ds < 2 ^ 29" by simp
  let ?n = "value58 (rev ds)" and ?v = "replicate z 0 @ rev (min_le (value58 (rev ds)))"
  have dec: "DecodeBase58 B s = Some ?v"
    unfolding s' by (rule DecodeBase58_eq [OF assms(1) ds hd]) (use len in simp)
  have digits: "digits58 ?n = rev ds"
    using ds hd by (intro digits58_value) (auto simp: list_all_rev last_rev)
  have "takeWhile (\<lambda>x. x = 0) ?v = replicate z 0"
  proof -
    have "takeWhile (\<lambda>x. x = 0) (rev (min_le ?n)) = []"
    proof (cases "?n = 0")
      case False
      then have "min_le ?n \<noteq> []" "last (min_le ?n) \<noteq> 0" using min_le_last [of ?n] by simp_all
      then show ?thesis by (cases "rev (min_le ?n)") (simp_all flip: hd_rev)
    qed simp
    moreover have "takeWhile (\<lambda>x. x = 0) (replicate k 0 @ r) = replicate k 0 @ takeWhile (\<lambda>x. x = 0) r" for k and r :: bytes
      by (induction k) simp_all
    ultimately show ?thesis by simp
  qed
  moreover have "be_nat ?v = ?n" by (simp add: be_nat_append be_nat_replicate_0) (simp add: be_nat_def)
  moreover have "length ?v < 2 ^ 31 - 1"
  proof -
    have "?n < 58 ^ length ds" using value58_less [of "rev ds"] ds by (simp add: list_all_rev)
    also have "\<dots> \<le> 256 ^ length ds" by (rule power_mono) simp_all
    finally show ?thesis using min_le_length [of ?n "length ds"] len by simp
  qed
  ultimately have "EncodeBase58 B ?v = Some s"
    using EncodeBase58_eq [OF assms(1), of ?v] digits by (simp add: s')
  with dec show ?thesis by blast
qed

text \<open>C31: Base 58 is a bijection: the encoder ends on every byte vector, with a text of base 58 digits that
  decodes to the vector; and a text of base 58 digits decodes to a vector whose text it is.\<close>

theorem base58_bijective:
  assumes "bn_laws B"
  shows "(\<forall>v. length v < 2 ^ 29 \<longrightarrow>
      (\<exists>s. EncodeBase58 B v = Some s \<and> DecodeBase58 B s = Some v \<and> list_all (\<lambda>c. c \<in> set pszBase58) s)) \<and>
    (\<forall>s. list_all (\<lambda>c. c \<in> set pszBase58) s \<and> length s < 2 ^ 29 \<longrightarrow>
      (\<exists>v. DecodeBase58 B s = Some v \<and> EncodeBase58 B v = Some s))"
  using EncodeDecode [OF assms] DecodeEncode [OF assms] by blast

theorem base58_bijective_witness:
  "\<exists>v. DecodeBase58 bn_ref ''1PhoeN'' = Some v \<and> EncodeBase58 bn_ref v = Some ''1PhoeN''"
proof -
  have "list_all (\<lambda>c. c \<in> set pszBase58) ''1PhoeN'' \<and> length ''1PhoeN'' < 2 ^ 29" by (simp add: pszBase58_def)
  then show ?thesis using base58_bijective [OF bn_ref_laws] by blast
qed

section \<open>Addresses and keys\<close>

lemma length_take4_Hash: "length (take 4 (mem (Hash E v))) = 4"
  by simp

lemma DecodeBase58Check_iff:
  "DecodeBase58Check E s = Some v \<longleftrightarrow> DecodeBase58 (bn E) s = Some (v @ take 4 (mem (Hash E v)))"
proof
  assume "DecodeBase58Check E s = Some v"
  then obtain w where w: "DecodeBase58 (bn E) s = Some w" "\<not> length w < 4"
      "take 4 (mem (Hash E (take (length w - 4) w))) = drop (length w - 4) w" "v = take (length w - 4) w"
    by (auto simp: DecodeBase58Check_def Let_def split: option.splits if_splits)
  then show "DecodeBase58 (bn E) s = Some (v @ take 4 (mem (Hash E v)))" by (metis append_take_drop_id)
next
  assume "DecodeBase58 (bn E) s = Some (v @ take 4 (mem (Hash E v)))"
  then show "DecodeBase58Check E s = Some v" by (simp add: DecodeBase58Check_def Let_def)
qed

lemma base58check_roundtrip:
  assumes "bn_laws (bn E)" "length v < 2 ^ 28"
  shows "\<exists>s. EncodeBase58Check E v = Some s \<and> DecodeBase58Check E s = Some v \<and> list_all (\<lambda>c. c \<in> set pszBase58) s"
  using EncodeDecode [OF assms(1), of "v @ take 4 (mem (Hash E v))"] assms(2)
  by (auto simp: EncodeBase58Check_def DecodeBase58Check_iff)

lemma base58check_canonical:
  assumes "bn_laws (bn E)" "DecodeBase58Check E s = Some v" "list_all (\<lambda>c. c \<in> set pszBase58) s" "length s < 2 ^ 29"
  shows "EncodeBase58Check E v = Some s"
  using DecodeEncode [OF assms(1,3,4)] assms(2) by (auto simp: EncodeBase58Check_def DecodeBase58Check_iff)

lemma SetString_ToString:
  assumes "bn_laws (bn E)" "length (vchData d) < 2 ^ 27"
  shows "\<exists>s. CBase58Data_ToString E d = Some s \<and> SetString E s = (True, d)"
  using base58check_roundtrip [OF assms(1), of "b58Version d # vchData d"] assms(2)
  by (auto simp: CBase58Data_ToString_def SetString_def)

text \<open>C32: The text of an address gives the address back, which is valid on the network it was made for and
  on no other, and names the destination it was made from. A text without white space that is read
  as some address is the one text of that address, so no two texts name the same destination and a
  text with a wrong checksum names none.\<close>

theorem address_roundtrip:
  assumes "bn_laws (bn E)" "CCoinAddress_Set testnet dest new_CBase58Data = (True, a)"
  shows "(\<exists>s. CBase58Data_ToString E a = Some s \<and> SetString E s = (True, a)) \<and>
    CCoinAddress_IsValid testnet a \<and> \<not> CCoinAddress_IsValid (\<not> testnet) a \<and>
    CCoinAddress_Get testnet a = dest \<and>
    (CCoinAddress_GetKeyID testnet a = (case dest of CKeyID h \<Rightarrow> Some h | _ \<Rightarrow> None)) \<and>
    (GetHybridKeyID testnet a = (case dest of CHybridKeyID h \<Rightarrow> Some h | _ \<Rightarrow> None)) \<and>
    (CCoinAddress_IsScript testnet a \<longleftrightarrow> (\<exists>h. dest = CScriptID h)) \<and>
    (\<forall>s. list_all (\<lambda>c. c \<in> set pszBase58) s \<and> length s < 2 ^ 29 \<and> SetString E s = (True, a) \<longrightarrow>
       CBase58Data_ToString E a = Some s)"
proof -
  have l: "length (vchData a) = 20"
    using assms(2) by (auto simp: CCoinAddress_Set_def SetData_def split: CTxDestination.splits if_splits)
  have canonical: "CBase58Data_ToString E a = Some s"
    if "list_all (\<lambda>c. c \<in> set pszBase58) s" "length s < 2 ^ 29" "SetString E s = (True, a)" for s
  proof -
    have "DecodeBase58Check E s = Some (b58Version a # vchData a)"
      using that(3) by (auto simp: SetString_def split: option.splits list.splits)
    from base58check_canonical [OF assms(1) this that(1,2)] show ?thesis by (simp add: CBase58Data_ToString_def)
  qed
  have "CCoinAddress_IsValid testnet a \<and> \<not> CCoinAddress_IsValid (\<not> testnet) a \<and>
      CCoinAddress_Get testnet a = dest \<and>
      (CCoinAddress_GetKeyID testnet a = (case dest of CKeyID h \<Rightarrow> Some h | _ \<Rightarrow> None)) \<and>
      (GetHybridKeyID testnet a = (case dest of CHybridKeyID h \<Rightarrow> Some h | _ \<Rightarrow> None)) \<and>
      (CCoinAddress_IsScript testnet a \<longleftrightarrow> (\<exists>h. dest = CScriptID h))"
    using assms(2)
    by (cases dest; cases testnet)
      (auto simp: CCoinAddress_Set_def SetData_def CCoinAddress_IsValid_def CCoinAddress_Get_def codec_simps
        CCoinAddress_GetKeyID_def GetHybridKeyID_def CCoinAddress_IsScript_def)
  then show ?thesis using SetString_ToString [OF assms(1), of a] l canonical by auto
qed

theorem address_roundtrip_witness:
  "\<exists>s. CBase58Data_ToString ext_ref (SetData HYBRID_ADDRESS (mem (77 :: uint160))) = Some s \<and>
     SetString ext_ref s = (True, SetData HYBRID_ADDRESS (mem (77 :: uint160)))"
proof -
  have "CCoinAddress_Set False (CHybridKeyID 77) new_CBase58Data =
      (True, SetData HYBRID_ADDRESS (mem (77 :: uint160)))"
    by (simp add: CCoinAddress_Set_def)
  from address_roundtrip [OF ext_lawsD(1) [OF ext_ref_laws] this] show ?thesis by blast
qed

text \<open>Private keys, too.\<close>

lemma secret_roundtrip:
  assumes "bn_laws (bn E)" "SetSecret testnet k compressed = Some d"
  shows "\<exists>s. CBase58Data_ToString E d = Some s \<and> CCoinSecret_SetString E testnet s = (True, d)"
    and "CCoinSecret_SetString E (\<not> testnet) s \<noteq> (True, d)" and "GetSecret d = (k, compressed)"
proof -
  have d: "length k = 32" "CCoinSecret_IsValid testnet d" "\<not> CCoinSecret_IsValid (\<not> testnet) d"
      "GetSecret d = (k, compressed)" "length (vchData d) < 2 ^ 27"
    using assms(2)
    by (auto simp: SetSecret_def SetData_def CCoinSecret_IsValid_def GetSecret_def Let_def nth_append split: if_splits)
  then show "\<exists>s. CBase58Data_ToString E d = Some s \<and> CCoinSecret_SetString E testnet s = (True, d)"
    using SetString_ToString [OF assms(1), of d] by (auto simp: CCoinSecret_SetString_def)
  show "CCoinSecret_SetString E (\<not> testnet) s \<noteq> (True, d)"
    using d(3) by (auto simp: CCoinSecret_SetString_def split: prod.splits)
  show "GetSecret d = (k, compressed)" by (rule d)
qed

end
