(* ===== verification/Undo.thy ===== *)
theory Undo
  imports Supply
begin

text \<open>
  Disconnecting a block undoes connecting it, so the index after a reorganisation is that of the
  blocks of the chain, whatever was connected and disconnected before.
\<close>

section \<open>Marking outputs\<close>

definition mark :: "CDiskTxPos \<Rightarrow> COutPoint \<Rightarrow> txindex \<Rightarrow> txindex" where
  "mark q p V =
     (case V (prev_hash p) of None \<Rightarrow> V
      | Some x \<Rightarrow> V(prev_hash p \<mapsto> x\<lparr>vSpent := (vSpent x)[unat (prev_n p) := q]\<rparr>))"

definition slot :: "txindex \<Rightarrow> COutPoint \<Rightarrow> CDiskTxPos option" where
  "slot V p =
     (case V (prev_hash p) of None \<Rightarrow> None
      | Some x \<Rightarrow> if unat (prev_n p) < length (vSpent x) then Some (vSpent x ! unat (prev_n p)) else None)"

lemma mark_commute:
  assumes "p \<noteq> p'"
  shows "mark q p (mark q' p' V) = mark q' p' (mark q p V)"
proof (cases "prev_hash p = prev_hash p'")
  case True
  then have "unat (prev_n p) \<noteq> unat (prev_n p')" using assms by (auto simp: outpoint_eq)
  with True show ?thesis
    by (cases "V (prev_hash p)") (simp_all add: mark_def list_update_swap)
next
  case False
  then show ?thesis
    by (cases "V (prev_hash p)"; cases "V (prev_hash p')") (simp_all add: mark_def fun_upd_twist)
qed

lemma mark_fold_commute:
  "p \<notin> set ps \<Longrightarrow> mark q p (fold (mark q') ps V) = fold (mark q') ps (mark q p V)"
proof (induction ps arbitrary: V)
  case (Cons a ps)
  then show ?case using mark_commute [of p a q q' V] by simp
qed simp

lemma mark_back:
  assumes "slot V p = Some s"
  shows "mark s p (mark q p V) = V"
proof -
  obtain x where x: "V (prev_hash p) = Some x" "unat (prev_n p) < length (vSpent x)"
    "vSpent x ! unat (prev_n p) = s"
    using assms by (auto simp: slot_def split: option.splits if_splits)
  have "vSpent x = (vSpent x)[unat (prev_n p) := s]" using x(2,3) by (metis list_update_id)
  then have "x = x\<lparr>vSpent := (vSpent x)[unat (prev_n p) := s]\<rparr>" by (metis CTxIndex.surjective CTxIndex.update_convs(2))
  then show ?thesis using x(1) by (simp add: mark_def fun_upd_idem_iff)
qed

lemma mark_other: "p \<noteq> p' \<Longrightarrow> slot (mark q p V) p' = slot V p'"
proof (cases "prev_hash p = prev_hash p'")
  case True
  assume "p \<noteq> p'"
  with True have "unat (prev_n p) \<noteq> unat (prev_n p')" by (auto simp: outpoint_eq)
  with True show ?thesis by (cases "V (prev_hash p)") (simp_all add: mark_def slot_def nth_list_update)
next
  case False
  then show ?thesis by (cases "V (prev_hash p)") (simp_all add: mark_def slot_def)
qed

lemma mark_hashes: "h \<noteq> prev_hash p \<Longrightarrow> mark q p V h = V h"
  by (simp add: mark_def split: option.split)

lemma fold_mark_hashes: "h \<notin> prev_hash ` set ps \<Longrightarrow> fold (mark q) ps V h = V h"
  by (induction ps arbitrary: V) (simp_all add: mark_hashes)

text \<open>The loop of \<^verbatim>\<open>ConnectInputs\<close> marks, that of \<^verbatim>\<open>DisconnectInputs\<close> takes the marks away.\<close>

lemma connect_spend_marks:
  assumes "connect_spend E tx skip True strict q vs i inputs queued c = (Ok u, queued', c')"
    "inputs_from (overlay db queued) inputs"
  shows "overlay db queued' = fold (mark q) (map prevout vs) (overlay db queued)"
  using assms
proof (induction vs arbitrary: i inputs queued c)
  case (Cons txin r)
  let ?p = "prevout txin" and ?V = "overlay db queued"
  obtain x txPrev where i: "inputs (prev_hash ?p) = Some (x, txPrev)"
    using Cons.prems(1) by (auto split: option.splits)
  have V: "?V (prev_hash ?p) = Some x" using Cons.prems(2) i by (simp add: inputs_from_def)
  let ?x = "x\<lparr>vSpent := (vSpent x)[unat (prev_n ?p) := q]\<rparr>"
  let ?queued = "AList.update (prev_hash ?p) ?x queued"
  from Cons.prems(1) i obtain c1 where
    r: "connect_spend E tx skip True strict q r (i + 1) (inputs(prev_hash ?p \<mapsto> (?x, txPrev))) ?queued c1 =
      (Ok u, queued', c')"
    by (auto simp: Let_def split: option.splits if_splits prod.splits)
  have "inputs_from (overlay db ?queued) (inputs(prev_hash ?p \<mapsto> (?x, txPrev)))"
    using Cons.prems(2) by (simp add: inputs_from_def)
  note IH = Cons.IH [OF r this]
  have "mark q ?p ?V = overlay db ?queued" using V by (simp add: mark_def)
  then show ?case by (simp only: IH list.map fold_simps)
qed simp

lemma disconnect_loop_marks:
  assumes "list_all (\<lambda>txin. slot (dbTx (view db)) (prevout txin) \<noteq> None) vs" "distinct (map prevout vs)"
    "length vs \<le> room db"
  shows "\<exists>db'. disconnect_loop vs db = (True, db') \<and> room db' + length vs = room db \<and>
    dbTx (view db') = fold (mark CDiskTxPos_SetNull) (map prevout vs) (dbTx (view db))"
  using assms
proof (induction vs arbitrary: db)
  case (Cons txin r)
  let ?p = "prevout txin"
  obtain x where x: "ReadTxIndex db (prev_hash ?p) = Some x" "unat (prev_n ?p) < length (vSpent x)"
    using Cons.prems(1) by (auto simp: slot_def ReadTxIndex_def split: option.splits if_splits)
  let ?x = "x\<lparr>vSpent := (vSpent x)[unat (prev_n ?p) := CDiskTxPos_SetNull]\<rparr>"
  define db1 where "db1 = snd (UpdateTxIndex (prev_hash ?p) ?x db)"
  have u: "UpdateTxIndex (prev_hash ?p) ?x db = (True, db1)" and r: "room db1 + 1 = room db"
    and v: "dbTx (view db1) = mark CDiskTxPos_SetNull ?p (dbTx (view db))"
    using Cons.prems(3) x by (simp_all add: db1_def UpdateTxIndex_def db_write_def mark_def ReadTxIndex_def)
  have "list_all (\<lambda>txin. slot (dbTx (view db1)) (prevout txin) \<noteq> None) r"
    using Cons.prems(1,2) by (auto simp: v list_all_iff) (metis image_eqI mark_other)
  with Cons.IH [of db1] Cons.prems(2,3) r obtain db' where "disconnect_loop r db1 = (True, db')"
    "room db' + length r = room db1"
    "dbTx (view db') = fold (mark CDiskTxPos_SetNull) (map prevout r) (dbTx (view db1))" by auto
  with u r v x show ?case by simp
qed simp

lemma unmark_all:
  assumes "list_all (\<lambda>p. slot V p = Some s) ps" "distinct ps"
  shows "fold (mark s) ps (fold (mark q) ps V) = V"
  using assms
proof (induction ps arbitrary: V)
  case (Cons p ps)
  have "fold (mark s) (p # ps) (fold (mark q) (p # ps) V) = fold (mark s) ps (mark s p (fold (mark q) ps (mark q p V)))"
    by simp
  also have "mark s p (fold (mark q) ps (mark q p V)) = fold (mark q) ps (mark s p (mark q p V))"
    using Cons.prems(2) by (intro mark_fold_commute) simp
  also have "mark s p (mark q p V) = V" using Cons.prems(1) by (intro mark_back) simp
  finally show ?case using Cons by simp
qed simp

section \<open>One transaction\<close>

lemma mark_update_other: "h \<noteq> prev_hash p \<Longrightarrow> mark q p (V(h := e)) = (mark q p V)(h := e)"
  by (auto simp: mark_def fun_upd_twist split: option.split)

lemma fold_mark_update_other:
  "h \<notin> prev_hash ` set ps \<Longrightarrow> fold (mark q) ps (V(h := e)) = (fold (mark q) ps V)(h := e)"
  by (induction ps arbitrary: V) (simp_all add: mark_update_other)

lemma mark_restrict: "prev_hash p \<in> S \<Longrightarrow> mark q p (V |` S) = mark q p V |` S"
  by (auto simp: mark_def restrict_map_def fun_eq_iff split: option.split)

lemma fold_mark_restrict:
  "prev_hash ` set ps \<subseteq> S \<Longrightarrow> fold (mark q) ps (V |` S) = fold (mark q) ps V |` S"
  by (induction ps arbitrary: V) (simp_all add: mark_restrict)

lemma fold_mark_slot_None:
  "slot (fold (mark q) ps V) p = None \<longleftrightarrow> slot V p = None"
proof (induction ps arbitrary: V)
  case (Cons p' ps)
  have "slot (mark q p' V) p = None \<longleftrightarrow> slot V p = None"
    by (auto simp: mark_def slot_def split: option.splits)
  with Cons show ?case by simp
qed simp

text \<open>Null positions of the index are all the same.\<close>

definition null_clean :: "txindex \<Rightarrow> bool" where
  "null_clean V \<longleftrightarrow> (\<forall>p s. slot V p = Some s \<longrightarrow> CDiskTxPos_IsNull s \<longrightarrow> s = CDiskTxPos_SetNull)"

lemma utxo_slot: "p \<in> utxo V \<longleftrightarrow> (\<exists>s. slot V p = Some s \<and> CDiskTxPos_IsNull s)"
  by (auto simp: utxo_def slot_def split: option.splits)

lemma null_clean_mark:
  assumes "null_clean V" "\<not> CDiskTxPos_IsNull q"
  shows "null_clean (mark q p V)"
  unfolding null_clean_def
proof (intro allI impI)
  fix p' s assume s: "slot (mark q p V) p' = Some s" "CDiskTxPos_IsNull s"
  show "s = CDiskTxPos_SetNull"
  proof (cases "p = p'")
    case True
    then have "s = q" using s(1) by (auto simp: mark_def slot_def split: option.splits if_splits)
    with s(2) assms(2) show ?thesis by simp
  next
    case False
    then show ?thesis using s assms(1) by (simp add: mark_other null_clean_def)
  qed
qed

lemma null_clean_marks:
  "null_clean V \<Longrightarrow> \<not> CDiskTxPos_IsNull q \<Longrightarrow> null_clean (fold (mark q) ps V)"
  by (induction ps arbitrary: V) (simp_all add: null_clean_mark)

lemma null_clean_new:
  "null_clean V \<Longrightarrow> null_clean (V(h \<mapsto> new_CTxIndex q n))"
  by (auto simp: null_clean_def slot_def new_CTxIndex_def)

text \<open>The index after a transaction.\<close>

lemma connect_tx_index:
  assumes "connect_tx E N K tx q queued nFees nSigOps c = (Ok (queued', nFees', nSigOps'), tx', c')"
  shows "overlay (cDB K) queued' =
    (fold (mark q) (ins tx) (overlay (cDB K) queued))(GetHash E tx \<mapsto> new_CTxIndex q (length (vout tx)))"
  using assms
proof (cases rule: connect_tx_Ok)
  case coin
  then show ?thesis by (simp add: ins_def)
next
  case (spend inputs bad nIn nOut queued1)
  note F = FetchInputs_block [OF spend(4,1)]
  obtain c1 u where s: "connect_spend E tx (cBestHeight K < GetTotalBlocksEstimate (fTestNet N)) True (cStrict K) q
      (vin tx) 0 inputs queued c = (Ok u, queued1, c')"
    using ConnectInputs_True [OF spend(8,1)] by metis
  show ?thesis
    using connect_spend_marks [OF s F(2)] spend(1,9) by (simp add: ins_def)
qed

definition undo_writes :: "CTransaction list \<Rightarrow> nat" where
  "undo_writes vs = sum_list (map (\<lambda>tx. length (ins tx) + 1) vs)"

text \<open>\<open>H\<close>: the identifiers of the later transactions of the block, which are gone already.\<close>

lemma DisconnectInputs_undoes:
  assumes "dbTx (view db) = (fold (mark q) (ins tx) V)(GetHash E tx \<mapsto> x) |` (- H)"
    "set (ins tx) \<subseteq> utxo V" "distinct (ins tx)" "null_clean V"
    "prev_hash ` set (ins tx) \<inter> insert (GetHash E tx) H = {}" "GetHash E tx \<notin> H"
    "length (ins tx) + 1 \<le> room db"
  shows "\<exists>db'. DisconnectInputs E tx db = (True, db') \<and> room db' + (length (ins tx) + 1) = room db \<and>
    dbTx (view db') = V |` (- insert (GetHash E tx) H)"
proof -
  let ?h = "GetHash E tx" and ?null = CDiskTxPos_SetNull
  have hs: "prev_hash ` set (ins tx) \<subseteq> - H" "?h \<notin> prev_hash ` set (ins tx)" using assms(5) by auto
  have slots: "list_all (\<lambda>p. slot V p = Some ?null) (ins tx)"
    using assms(2,4) unfolding list_all_iff null_clean_def by (metis subsetD utxo_slot)
  have W: "dbTx (view db) = fold (mark q) (ins tx) (V(?h \<mapsto> x) |` (- H))"
    by (simp only: assms(1) fold_mark_update_other [OF hs(2)] fold_mark_restrict [OF hs(1)])
  have slots': "slot (V(?h \<mapsto> x) |` (- H)) p = Some ?null" if "p \<in> set (ins tx)" for p
  proof -
    have "prev_hash p \<in> prev_hash ` set (ins tx)" using that by simp
    then have "prev_hash p \<in> - H" "prev_hash p \<noteq> ?h" using subsetD [OF hs(1)] hs(2) by metis+
    then have "(V(?h \<mapsto> x) |` (- H)) (prev_hash p) = V (prev_hash p)" by simp
    then show ?thesis using slots that by (simp add: slot_def list_all_iff)
  qed
  have undone: "fold (mark ?null) (ins tx) (dbTx (view db)) = V(?h \<mapsto> x) |` (- H)"
    unfolding W using slots' assms(3) by (intro unmark_all) (auto simp: list_all_iff)
  have "\<exists>db1. (if \<not> IsCoinBase tx then disconnect_loop (vin tx) db else (True, db)) = (True, db1) \<and>
      room db1 + length (ins tx) = room db \<and> dbTx (view db1) = V(?h \<mapsto> x) |` (- H)"
  proof (cases "IsCoinBase tx")
    case True
    then show ?thesis using undone by (simp add: ins_def)
  next
    case False
    have i: "ins tx = map prevout (vin tx)" using False by (simp add: ins_def)
    have "slot (dbTx (view db)) p \<noteq> None" if "p \<in> set (ins tx)" for p
      unfolding W fold_mark_slot_None using slots' [OF that] by simp
    then have "list_all (\<lambda>txin. slot (dbTx (view db)) (prevout txin) \<noteq> None) (vin tx)"
      by (simp add: i list_all_iff)
    from disconnect_loop_marks [OF this] assms(3,7) undone show ?thesis by (auto simp: i False)
  qed
  then obtain db1 where d: "(if \<not> IsCoinBase tx then disconnect_loop (vin tx) db else (True, db)) = (True, db1)"
    "room db1 + length (ins tx) = room db" "dbTx (view db1) = V(?h \<mapsto> x) |` (- H)" by blast
  have "(V(?h \<mapsto> x) |` (- H))(?h := None) = V |` (- insert ?h H)"
    by (auto simp: restrict_map_def fun_eq_iff)
  then show ?thesis
    using d assms(7) by (auto simp: DisconnectInputs_def EraseTxIndex_def db_write_def)
qed

section \<open>The block\<close>

lemma disconnect_txs_append:
  "disconnect_txs E xs db = (True, db1) \<Longrightarrow> disconnect_txs E (xs @ ys) db = disconnect_txs E ys db1"
  by (induction xs arbitrary: db) (auto split: prod.splits if_splits)

lemma disconnect_txs_undo:
  assumes "connect_txs E N K vs nTxPos queued nFees nSigOps c = (Ok (queued', nFees'), vs', c')"
    "iFile (hd (cIndex K)) \<noteq> - 1" "cBIP30 K" "distinct (map (GetHash E) vs)" "old_outs E (cDB K) queued vs"
    "null_clean (overlay (cDB K) queued)" "dbTx (view d) = overlay (cDB K) queued'" "undo_writes vs \<le> room d"
  shows "\<exists>d'. disconnect_txs E (rev vs) d = (True, d') \<and> room d' + undo_writes vs = room d \<and>
    dbTx (view d') = overlay (cDB K) queued |` (- set (map (GetHash E) vs))"
  using assms(1,4-8)
proof (induction vs arbitrary: nTxPos queued nFees nSigOps c vs')
  case Nil
  then show ?case by (simp add: undo_writes_def)
next
  case (Cons tx r)
  let ?q = "\<lparr>dFile = iFile (hd (cIndex K)), dBlockPos = iBlockPos (hd (cIndex K)), dTxPos = nTxPos\<rparr>"
  let ?V = "overlay (cDB K)" and ?H = "set (map (GetHash E) r)"
  obtain queued1 nFees1 nSigOps1 tx' c1 r' n where
    1: "connect_tx E N K tx ?q queued nFees nSigOps c = (Ok (queued1, nFees1, nSigOps1), tx', c1)" and
    2: "connect_txs E N K r n queued1 nFees1 nSigOps1 c1 = (Ok (queued', nFees'), r', c')"
    using connect_txs_Ok [OF Cons.prems(1)] by metis
  have null: "\<not> CDiskTxPos_IsNull ?q" using assms(2) by (simp add: CDiskTxPos_IsNull_def)
  note fresh = connect_tx_fresh [OF 1 assms(3) Cons.prems(3)]
  note A = connect_tx_apply [OF 1 null fresh]
  have ins: "set (ins tx) \<subseteq> utxo (?V queued)" "distinct (ins tx)"
    using A by (simp_all add: apply_tx_def split: if_splits)
  note I = connect_tx_index [OF 1]
  have clean: "null_clean (?V queued1)"
    unfolding I by (intro null_clean_new null_clean_marks Cons.prems(4) null)
  have dist: "distinct (map (GetHash E) r)" "GetHash E tx \<notin> ?H" using Cons.prems(2) by simp_all
  have "undo_writes r \<le> room d" using Cons.prems(6) by (simp add: undo_writes_def)
  from Cons.IH [OF 2 dist(1) old_outs_step [OF A Cons.prems(3,2)] clean Cons.prems(5) this]
  obtain d1 where d1: "disconnect_txs E (rev r) d = (True, d1)" "room d1 + undo_writes r = room d"
    "dbTx (view d1) = ?V queued1 |` (- ?H)" by blast
  have "prev_hash p \<notin> insert (GetHash E tx) ?H" if "p \<in> set (ins tx)" for p
  proof -
    have p: "p \<in> utxo (?V queued)" using ins(1) that by blast
    have "prev_hash p \<notin> ?H"
    proof
      assume h: "prev_hash p \<in> ?H"
      then have "p \<in> utxo (dbTx (view (cDB K)))" using Cons.prems(3) p by (simp add: old_outs_def)
      moreover have "p \<notin> utxo (dbTx (view (cDB K)))"
        using connect_txs_bip30 [OF 2 assms(3)] h bip30_spent by blast
      ultimately show False by blast
    qed
    then show ?thesis using fresh [OF p] by simp
  qed
  then have hs: "prev_hash ` set (ins tx) \<inter> insert (GetHash E tx) ?H = {}" by blast
  have "length (ins tx) + 1 \<le> room d1" using d1(2) Cons.prems(6) by (simp add: undo_writes_def)
  from DisconnectInputs_undoes [OF d1(3) [unfolded I] ins Cons.prems(4) hs dist(2) this]
  obtain d2 where d2: "DisconnectInputs E tx d1 = (True, d2)" "room d2 + (length (ins tx) + 1) = room d1"
    "dbTx (view d2) = ?V queued |` (- insert (GetHash E tx) ?H)" by blast
  have "disconnect_txs E (rev (tx # r)) d = (True, d2)"
    using disconnect_txs_append [OF d1(1)] d2(1) by simp
  then show ?case using d1(2) d2(2,3) by (auto simp: undo_writes_def)
qed

lemma DisconnectBlock_undo:
  assumes "ConnectBlock E B N files mapTx best pindex hash False b db c = (Some (True, b'), db', c')"
    "fEnforceBIP30 (iHeight (hd pindex)) hash" "iFile (hd pindex) \<noteq> - 1" "null_clean (dbTx (view db))"
    "dbTx (view d) = dbTx (view db')" "undo_writes (vtx b) < room d"
  shows "\<exists>d'. DisconnectBlock E b pindex' d = (True, d') \<and>
    dbTx (view d') = dbTx (view db) |` (- set (map (GetHash E) (vtx b)))"
proof -
  obtain K n queued nFees where ok: "fst (CheckBlock E B N True True b)" and
    K: "K = \<lparr>cFiles = files, cDB = db, cPool = mapTx, cIndex = pindex, cBestHeight = best,
         cBIP30 = fEnforceBIP30 (iHeight (hd pindex)) hash,
         cStrict = uint (iTime (hd pindex)) \<ge> nBIP16SwitchTime, cJustCheck = False\<rparr>" and
    t: "connect_txs E N K (vtx b) n [] 0 0 c = (Ok (queued, nFees), vtx b, c')" and
    d: "dbTx (view db') = dbTx (view db) ++ map_of queued"
    using ConnectBlock_True [OF assms(1)] by metis
  have "\<exists>d'. disconnect_txs E (rev (vtx b)) d = (True, d') \<and> room d' + undo_writes (vtx b) = room d \<and>
      dbTx (view d') = overlay (cDB K) [] |` (- set (map (GetHash E) (vtx b)))"
    using assms(2-6) ok d
    by (intro disconnect_txs_undo [OF t])
      (simp_all add: K CheckBlock_iff block_ok_def old_outs_def overlay_def)
  then obtain d1 where d1: "disconnect_txs E (rev (vtx b)) d = (True, d1)" "0 < room d1"
      "dbTx (view d1) = dbTx (view db) |` (- set (map (GetHash E) (vtx b)))"
    using assms(6) by (auto simp: K)
  then show ?thesis
    by (cases "tl pindex' = []") (auto simp: DisconnectBlock_def WriteBlockIndex_def db_write_def)
qed

text \<open>A connected block leaves only clean null positions.\<close>

lemma connect_txs_clean:
  assumes "connect_txs E N K vs nTxPos queued nFees nSigOps c = (Ok (queued', nFees'), vs', c')"
    "iFile (hd (cIndex K)) \<noteq> - 1" "null_clean (overlay (cDB K) queued)"
  shows "null_clean (overlay (cDB K) queued')"
  using assms(1,3)
proof (induction vs arbitrary: nTxPos queued nFees nSigOps c vs')
  case (Cons tx r)
  let ?q = "\<lparr>dFile = iFile (hd (cIndex K)), dBlockPos = iBlockPos (hd (cIndex K)), dTxPos = nTxPos\<rparr>"
  obtain queued1 nFees1 nSigOps1 tx' c1 r' n where
    1: "connect_tx E N K tx ?q queued nFees nSigOps c = (Ok (queued1, nFees1, nSigOps1), tx', c1)" and
    2: "connect_txs E N K r n queued1 nFees1 nSigOps1 c1 = (Ok (queued', nFees'), r', c')"
    using connect_txs_Ok [OF Cons.prems(1)] by metis
  have null: "\<not> CDiskTxPos_IsNull ?q" using assms(2) by (simp add: CDiskTxPos_IsNull_def)
  have "null_clean (overlay (cDB K) queued1)"
    unfolding connect_tx_index [OF 1] by (intro null_clean_new null_clean_marks Cons.prems(2) null)
  from Cons.IH [OF 2 this] show ?case .
qed simp

section \<open>Chains of blocks\<close>

text \<open>One block connected on top of an index: it was stored before, no identifier of it is in use.\<close>

definition connects :: "ext \<Rightarrow> bnlib \<Rightarrow> bool \<Rightarrow> files \<Rightarrow> int \<Rightarrow> CBlock \<Rightarrow> txindex \<Rightarrow> txindex \<Rightarrow> bool" where
  "connects E B T files h b V V' \<longleftrightarrow>
     (\<exists>N mapTx best pindex hash db c b' db' c'.
        ConnectBlock E B N files mapTx best pindex hash False b db c = (Some (True, b'), db', c') \<and>
        fTestNet N = T \<and> iHeight (hd pindex) = h \<and> fEnforceBIP30 h hash \<and>
        stored_at files (iFile (hd pindex)) (iBlockPos (hd pindex)) b \<and> list_all tx_fits (vtx b) \<and>
        dbTx (view db) = V \<and> dbTx (view db') = V' \<and> list_all (\<lambda>tx. V (GetHash E tx) = None) (vtx b))"

text \<open>The indexes a node can have: blocks are connected on top of the genesis block (height 0, which is
  not in the index), disconnected from the tip, and the block files grow.\<close>

inductive chain_state :: "ext \<Rightarrow> bnlib \<Rightarrow> bool \<Rightarrow> files \<Rightarrow> CBlock list \<Rightarrow> txindex \<Rightarrow> bool"
  for E :: ext and B :: bnlib and T :: bool where
  genesis: "chain_state E B T files [] Map.empty"
| connect: "chain_state E B T files bs V \<Longrightarrow> connects E B T files (int (length bs) + 1) b V V' \<Longrightarrow>
    chain_state E B T files (b # bs) V'"
| disconnect: "chain_state E B T files (b # bs) (dbTx (view db)) \<Longrightarrow>
    DisconnectBlock E b pindex db = (True, db') \<Longrightarrow> undo_writes (vtx b) < room db \<Longrightarrow>
    chain_state E B T files bs (dbTx (view db'))"
| store: "chain_state E B T files bs V \<Longrightarrow> grows files files' \<Longrightarrow> chain_state E B T files' bs V"

text \<open>The states reached without ever disconnecting.\<close>

inductive straight :: "ext \<Rightarrow> bnlib \<Rightarrow> bool \<Rightarrow> files \<Rightarrow> CBlock list \<Rightarrow> txindex \<Rightarrow> bool"
  for E :: ext and B :: bnlib and T :: bool where
  genesis: "straight E B T files [] Map.empty"
| connect: "straight E B T files bs V \<Longrightarrow> connects E B T files (int (length bs) + 1) b V V' \<Longrightarrow>
    straight E B T files (b # bs) V'"
| store: "straight E B T files bs V \<Longrightarrow> grows files files' \<Longrightarrow> straight E B T files' bs V"

lemma connects_clean:
  "connects E B T files h b V V' \<Longrightarrow> null_clean V \<Longrightarrow> null_clean V'"
proof -
  assume "connects E B T files h b V V'" and clean: "null_clean V"
  then obtain N mapTx best pindex hash db c b' db' c' where
    cb: "ConnectBlock E B N files mapTx best pindex hash False b db c = (Some (True, b'), db', c')" and
    st: "stored_at files (iFile (hd pindex)) (iBlockPos (hd pindex)) b" and
    V: "dbTx (view db) = V" "dbTx (view db') = V'" unfolding connects_def by blast
  obtain K n queued nFees where
    K: "K = \<lparr>cFiles = files, cDB = db, cPool = mapTx, cIndex = pindex, cBestHeight = best,
         cBIP30 = fEnforceBIP30 (iHeight (hd pindex)) hash,
         cStrict = uint (iTime (hd pindex)) \<ge> nBIP16SwitchTime, cJustCheck = False\<rparr>" and
    t: "connect_txs E N K (vtx b) n [] 0 0 c = (Ok (queued, nFees), vtx b, c')" and
    d: "dbTx (view db') = dbTx (view db) ++ map_of queued"
    using ConnectBlock_True [OF cb] by metis
  show "null_clean V'"
    using connect_txs_clean [OF t] clean V d st by (simp add: K overlay_def stored_at_def)
qed

lemma connects_undo:
  assumes "connects E B T files h b V V'" "null_clean V" "dbTx (view d) = V'" "undo_writes (vtx b) < room d"
    "DisconnectBlock E b pindex d = (True, d')"
  shows "dbTx (view d') = V"
proof -
  obtain N mapTx best pindex1 hash db c b' db' c' where
    cb: "ConnectBlock E B N files mapTx best pindex1 hash False b db c = (Some (True, b'), db', c')" and
    st: "stored_at files (iFile (hd pindex1)) (iBlockPos (hd pindex1)) b" and
    bip: "fEnforceBIP30 (iHeight (hd pindex1)) hash" and
    V: "dbTx (view db) = V" "dbTx (view db') = V'" and fresh: "list_all (\<lambda>tx. V (GetHash E tx) = None) (vtx b)"
    using assms(1) unfolding connects_def by blast
  have "dbTx (view d') = V |` (- set (map (GetHash E) (vtx b)))"
    using DisconnectBlock_undo [OF cb bip _ _ _ assms(4), of pindex] st assms(2,3,5) V by (simp add: stored_at_def)
  moreover have "V |` (- set (map (GetHash E) (vtx b))) = V"
    using fresh by (auto simp: restrict_map_def fun_eq_iff list_all_iff)
  ultimately show ?thesis by simp
qed

lemma straight_clean: "straight E B T files bs V \<Longrightarrow> null_clean V"
proof (induction rule: straight.induct)
  case (genesis files)
  show ?case by (simp add: null_clean_def slot_def)
next
  case (connect files bs V b V')
  then show ?case using connects_clean by blast
qed simp

lemma straight_pop:
  "straight E B T files l V' \<Longrightarrow> l = b # bs \<Longrightarrow>
     \<exists>V files0. straight E B T files bs V \<and> connects E B T files0 (int (length bs) + 1) b V V'"
proof (induction arbitrary: b bs rule: straight.induct)
  case (store files l V' files')
  then show ?case by (metis straight.store)
qed auto

text \<open>Disconnecting leads nowhere new.\<close>

lemma chain_state_straight: "chain_state E B T files bs V \<Longrightarrow> straight E B T files bs V"
proof (induction rule: chain_state.induct)
  case (disconnect files b bs db pindex db')
  obtain V files0 where "straight E B T files bs V" and
    c: "connects E B T files0 (int (length bs) + 1) b V (dbTx (view db))"
    using straight_pop [OF disconnect.IH refl] by blast
  moreover from this have "dbTx (view db') = V"
    using connects_undo [OF c straight_clean] disconnect.hyps(2,3) by blast
  ultimately show ?case by simp
qed (auto intro: straight.intros)

lemma apply_txs_append:
  "apply_txs E (xs @ ys) U = (case apply_txs E xs U of None \<Rightarrow> None | Some U' \<Rightarrow> apply_txs E ys U')"
  by (induction xs arbitrary: U) (auto split: option.split)

lemma connects_apply:
  "connects E B T files h b V V' \<Longrightarrow> apply_txs E (vtx b) (utxo V) = Some (utxo V')"
  unfolding connects_def using connect_block_apply by (auto simp: stored_at_def)

lemma straight_ledger:
  "straight E B T files bs V \<Longrightarrow> apply_txs E (concat (map vtx (rev bs))) {} = Some (utxo V)"
proof (induction rule: straight.induct)
  case (genesis files)
  show ?case by (simp add: utxo_def)
next
  case (connect files bs V b V')
  then show ?case using connects_apply by (simp add: apply_txs_append)
qed simp

text \<open>C3: A reorganisation leaves no trace. Whatever blocks a node connected and disconnected, in any
  order, and however its block files grew meanwhile, the index is one that connecting the blocks of
  the present chain alone gives; and its unspent outputs are those the abstract ledger computes from
  the transactions of these blocks: no output is spent twice on the chain, and disconnected blocks
  left nothing behind. The blocks are stored before they are connected, and identifiers are not used
  twice on a chain (otherwise undoing a block can fail, as the index keeps one entry per
  identifier).\<close>

theorem reorganisation_safe:
  assumes "chain_state E B T files bs V"
  shows "straight E B T files bs V \<and> apply_txs E (concat (map vtx (rev bs))) {} = Some (utxo V)"
  using chain_state_straight [OF assms] straight_ledger by blast

lemma connects_money:
  assumes "connects E B T files h b V V'" "index_ok files V" "money files V \<le> 2 ^ 61" "0 \<le> h" "h < 64000000"
  shows "index_ok files V' \<and> money files V' \<le> money files V + the (GetProofOfWorkReward T h 0)"
proof -
  obtain N mapTx best pindex hash db c b' db' c' where
    cb: "ConnectBlock E B N files mapTx best pindex hash False b db c = (Some (True, b'), db', c')" and
    st: "stored_at files (iFile (hd pindex)) (iBlockPos (hd pindex)) b" "list_all tx_fits (vtx b)" and
    bip: "fEnforceBIP30 (iHeight (hd pindex)) hash" and
    h: "fTestNet N = T" "iHeight (hd pindex) = h" "dbTx (view db) = V" "dbTx (view db') = V'"
    using assms(1) unfolding connects_def by blast
  from connect_block_money [OF cb bip st] assms(2-5) show ?thesis by (simp add: h)
qed

lemma straight_money:
  "straight E B False files bs V \<Longrightarrow> length bs < 64000000 \<Longrightarrow>
     index_ok files V \<and> money files V \<le> issued False (length bs)"
proof (induction rule: straight.induct)
  case (genesis files)
  show ?case
    using reward_ge_0 [of 0 False] by (simp add: index_ok_def money_def utxo_def)
next
  case (connect files bs V b V')
  have "length bs < 64000000" using connect.prems by simp
  then have IH: "index_ok files V" "money files V \<le> issued False (length bs)" and
    cap: "issued False (length bs) \<le> 98002500 * COIN"
    using connect.IH issued_cap by blast+
  have "money files V \<le> 2 ^ 61" using IH(2) cap by (simp add: COIN_def)
  from connects_money [OF connect.hyps(2) IH(1) this] connect.prems IH(2)
  show ?case by (simp add: add.commute)
next
  case (store files bs V files')
  then show ?case using index_ok_grows money_grows by metis
qed

text \<open>C5: No money out of nothing. In every state of a node of the main network, after any sequence of
  connected and disconnected blocks, the value of all unspent outputs, read from the block files, is
  at most what the block rewards up to the height of the tip allow, and so at most 98,002,500 coins,
  for every height below 64 million. Fees neither create money nor wrap in 64 bits, although the
  code adds them up without a check.\<close>

theorem money_supply_bounded:
  assumes "chain_state E B False files bs V" "length bs < 64000000"
  shows "0 \<le> money files V \<and> money files V \<le> issued False (length bs) \<and> money files V \<le> 98002500 * COIN"
proof -
  note money = straight_money [OF chain_state_straight [OF assms(1)] assms(2)]
  then have "0 \<le> money files V" "money files V \<le> issued False (length bs)" using money_nonneg by blast+
  moreover from this(2) have "money files V \<le> 98002500 * COIN"
    by (rule order_trans) (rule issued_cap [OF assms(2)])
  ultimately show ?thesis by blast
qed

section \<open>A first block\<close>

definition first_index :: CBlockIndex where
  "first_index = (sample_block 1 1500000000)\<lparr>iFile := 1, iBlockPos := 8\<rparr>"

definition first_files :: files where
  "first_files = fst (snd (CBlock_WriteToDisk False Map.empty 1 (coinbase_block ext_ref 0)))"

definition first_db :: CTxDB where
  "first_db = \<lparr>view = \<lparr>dbTx = Map.empty, dbBlock = Map.empty, dbBest = None, dbInvalidWork = 0, dbSyncCheckpoint = None\<rparr>, active = None, room = 9\<rparr>"

lemma first_block_fits:
  "size_CBlock (coinbase_block E 0) = 146" "list_all tx_fits (vtx (coinbase_block E 0))"
  using sample_coinbase_ok(4) [of 0]
  by (simp_all add: size_CBlock_def coinbase_block_def size_vec_def GetSizeOfCompactSize_def CBlock_SetNull_def
      tx_fits_def script_fits_def sample_coinbase_def MAX_SIZE_def)

lemma first_block_stored: "stored_at first_files 1 8 (coinbase_block ext_ref 0)"
proof -
  have "CBlock_WriteToDisk False Map.empty 1 (coinbase_block ext_ref 0) = (Some (1, 8), first_files, 1)"
    by (simp add: first_files_def CBlock_WriteToDisk_def AppendBlockFile.simps MAX_FILE_SIZE_def MAX_SIZE_def
        pchMessageStart_def ser_word_def Let_def)
  from WriteToDisk_stored(1) [OF this] show ?thesis by (simp add: first_block_fits)
qed

lemma first_block_connects:
  "\<exists>b' db' c'. ConnectBlock ext_ref bn_ref sample_env first_files Map.empty 0 [first_index] (Some 5) False
     (coinbase_block ext_ref 0) first_db empty_cache = (Some (True, b'), db', c') \<and>
     dbTx (view db') = [GetHash ext_ref sample_coinbase \<mapsto> new_CTxIndex (tx_pos 1 8 1 []) 1]"
proof -
  let ?b = "coinbase_block ext_ref 0"
  have v: "vtx ?b = [sample_coinbase]" by (simp add: coinbase_block_def sample_coinbase_def)
  obtain b1 where k: "CheckBlock ext_ref bn_ref sample_env True True ?b = (True, b1)"
    using coinbase_block_ok [of ext_ref True 0] by (cases "CheckBlock ext_ref bn_ref sample_env True True ?b") simp
  then have b1: "vtx b1 = [sample_coinbase]"
    using CheckBlock_fields [of ext_ref bn_ref sample_env True True ?b] v by simp
  have coin: "IsCoinBase sample_coinbase" "GetLegacySigOpCount sample_coinbase = 0" "length (vout sample_coinbase) = 1"
    "GetValueOut sample_coinbase = Some 5000000000"
    using sample_coinbase_ok(1) [of 0] sample_coinbase_sigops [of 0]
    by (simp_all add: sample_coinbase_def GetValueOut_def MoneyRange_def)
  have reward: "GetProofOfWorkReward False 1 0 = Some 5000000000"
    by (simp add: reward_nonneg COIN_def)
  have n: "size_CBlock CBlock_SetNull = 81" "GetSizeOfCompactSize (Suc 0) = 1"
    by (simp_all add: size_CBlock_def CBlock_SetNull_def size_vec_def GetSizeOfCompactSize_def)
  have q: "tx_pos 1 8 (Suc 0) [] = \<lparr>dFile = 1, dBlockPos = 8, dTxPos = 89\<rparr>"
    by (simp add: tx_pos_def GetSizeOfCompactSize_def)
  show ?thesis
    using k b1 coin reward n
    by (simp add: ConnectBlock_def first_index_def sample_block_def sample_env_def connect_tx_def bip30_ok_def
        ReadTxIndex_def first_db_def UpdateTxIndex_def db_write_def Let_def q fEnforceBIP30_def)
qed

lemma first_outputs:
  "utxo [GetHash ext_ref sample_coinbase \<mapsto> new_CTxIndex (tx_pos 1 8 1 []) 1] =
     {COutPoint (GetHash ext_ref sample_coinbase) 0}"
proof -
  have "utxo (Map.empty(GetHash ext_ref sample_coinbase \<mapsto> new_CTxIndex (tx_pos 1 8 1 []) (length (vout sample_coinbase)))) =
      utxo Map.empty \<union> outs ext_ref sample_coinbase"
    by (rule utxo_new) (simp add: utxo_def)
  then show ?thesis
    by (auto simp: utxo_def outs_def sample_coinbase_def outpoint_eq)
qed

theorem connect_block_refines_witness:
  "apply_txs ext_ref [sample_coinbase] {} = Some {COutPoint (GetHash ext_ref sample_coinbase) 0}"
proof -
  obtain b' db' c' where c: "ConnectBlock ext_ref bn_ref sample_env first_files Map.empty 0 [first_index] (Some 5) False
     (coinbase_block ext_ref 0) first_db empty_cache = (Some (True, b'), db', c')" and
     d: "dbTx (view db') = [GetHash ext_ref sample_coinbase \<mapsto> new_CTxIndex (tx_pos 1 8 1 []) 1]"
    using first_block_connects by blast
  have "vtx (coinbase_block ext_ref 0) = [sample_coinbase]" "utxo (dbTx (view first_db)) = {}"
    by (simp_all add: coinbase_block_def sample_coinbase_def first_db_def utxo_def)
  then show ?thesis
    using connect_block_refines [OF c] d first_outputs
    by (simp add: fEnforceBIP30_def first_index_def sample_block_def)
qed

lemma first_chain:
  "chain_state ext_ref bn_ref False first_files [coinbase_block ext_ref 0]
     [GetHash ext_ref sample_coinbase \<mapsto> new_CTxIndex (tx_pos 1 8 1 []) 1]"
proof (rule chain_state.connect [OF chain_state.genesis])
  obtain b' db' c' where c: "ConnectBlock ext_ref bn_ref sample_env first_files Map.empty 0 [first_index] (Some 5) False
     (coinbase_block ext_ref 0) first_db empty_cache = (Some (True, b'), db', c')" and
     d: "dbTx (view db') = [GetHash ext_ref sample_coinbase \<mapsto> new_CTxIndex (tx_pos 1 8 1 []) 1]"
    using first_block_connects by blast
  show "connects ext_ref bn_ref False first_files (int (length []) + 1) (coinbase_block ext_ref 0) Map.empty
      [GetHash ext_ref sample_coinbase \<mapsto> new_CTxIndex (tx_pos 1 8 1 []) 1]"
    unfolding connects_def
    by (intro exI conjI, rule c)
      (use d first_block_stored first_block_fits in
       \<open>simp_all add: sample_env_def first_index_def sample_block_def fEnforceBIP30_def first_db_def list_all_iff\<close>)
qed

theorem reorganisation_safe_witness:
  "straight ext_ref bn_ref False first_files [coinbase_block ext_ref 0]
     [GetHash ext_ref sample_coinbase \<mapsto> new_CTxIndex (tx_pos 1 8 1 []) 1]"
  using reorganisation_safe [OF first_chain] by blast

theorem money_supply_bounded_witness:
  "money first_files [GetHash ext_ref sample_coinbase \<mapsto> new_CTxIndex (tx_pos 1 8 1 []) 1] \<le> 10000000000"
  using money_supply_bounded [OF first_chain] reward_nonneg [of 0 False] reward_nonneg [of 1 False]
  by (simp add: COIN_def)

end
