(* ===== verification/Chain.thy ===== *)
theory Chain
  imports Mempool Undo
begin

text \<open>
  The chain of blocks (\<^verbatim>\<open>main.cpp\<close>): the index of all blocks, the best chain, and how a new block becomes
  part of it: \<^verbatim>\<open>AddToBlockIndex\<close>, \<^verbatim>\<open>SetBestChain\<close>, \<^verbatim>\<open>Reorganize\<close> and what they call. A pointer into the index is
  the list of entries from it back to the first block; two pointers are equal when the lists are.
  Only \<^verbatim>\<open>pnext\<close> changes after an entry is made, so it is a map of its own, from hashes to hashes. The
  node is one record. Exceptions end a function with \<open>None\<close>, and the destructors of \<^verbatim>\<open>AddToBlockIndex\<close> run
  then, too. The notifications of wallets and user interface are left out.
\<close>

section \<open>The state of the node\<close>

record node =
  mapBlockIndex :: BlockMap
  pnext :: "uint256 \<rightharpoonup> uint256"
  pindexGenesisBlock :: "CBlockIndex list"
  pindexBest :: "CBlockIndex list"
  pblockindexFBBHLast :: "CBlockIndex list"
  hashBestChain :: uint256
  nBestHeight :: int
  bnBestChainWork :: CBigNum
  bnBestInvalidWork :: CBigNum
  nTimeBestReceived :: int
  mapWorkCache :: "u32 \<rightharpoonup> CBigNum"
  fNeoScrypt :: bool
  nLastUpdate :: int
  pindexLastBest :: "CBlockIndex list"
  blkfiles :: files
  nCurrentBlockFile :: u32
  txdb :: CTxDB
  mempool :: CTxMemPool
  sigs_cache :: sigcache

definition hashGenesisBlock :: "bool \<Rightarrow> uint256" where
  "hashGenesisBlock testnet =
     (if testnet then 0xecd47eee16536f7d03d64643cfc8c61b22093f8bf2c9358bf8b6f4dcb5f13192
      else 0xbe2f30f9e8db8f430056869c43503a992d232b28508e83eda101161a18cf7c73)"

text \<open>The static variables of \<^verbatim>\<open>IsInitialBlockDownload\<close> are part of the state.\<close>

definition IsInitialBlockDownload :: "env \<Rightarrow> node \<Rightarrow> bool \<times> node" where
  "IsInitialBlockDownload N S =
     (if pindexBest S = [] \<or> nBestHeight S < GetTotalBlocksEstimate (fTestNet N) then (True, S)
      else
        let S = (if pindexBest S \<noteq> pindexLastBest S
                 then S\<lparr>pindexLastBest := pindexBest S, nLastUpdate := GetTime N\<rparr> else S)
        in (GetTime N - nLastUpdate S < 10 \<and> GetBlockTime (hd (pindexBest S)) < GetTime N - 4 * 60 * 60, S))"

definition IsInMainChain :: "node \<Rightarrow> CBlockIndex list \<Rightarrow> bool" where
  "IsInMainChain S p \<longleftrightarrow> pnext S (iHash (hd p)) \<noteq> None \<or> p = pindexBest S"

definition InvalidChainFound :: "CBlockIndex list \<Rightarrow> node \<Rightarrow> node" where
  "InvalidChainFound pindexNew S =
     (if iChainWork (hd pindexNew) > bnBestInvalidWork S
      then S\<lparr>bnBestInvalidWork := iChainWork (hd pindexNew),
             txdb := snd (WriteBestInvalidWork (iChainWork (hd pindexNew)) (txdb S))\<rparr>
      else S)"

section \<open>Attaching a block to the tip\<close>

definition SetBestChainInner ::
  "ext \<Rightarrow> bnlib \<Rightarrow> env \<Rightarrow> CBlock \<Rightarrow> CBlockIndex list \<Rightarrow> bool \<Rightarrow> node \<Rightarrow> bool option \<times> CBlock \<times> node" where
  "SetBestChainInner E B N b pindexNew fDeferCommit S =
     (let hash = CBlock_GetHash E b in
      case ConnectBlock E B N (blkfiles S) (mapTx (mempool S)) (nBestHeight S) pindexNew
             (Some (iHash (hd pindexNew))) False b (txdb S) (sigs_cache S) of
        (None, db, c) \<Rightarrow> (None, b, S\<lparr>txdb := db, sigs_cache := c\<rparr>)
      | (Some (ok, b), db, c) \<Rightarrow>
          (case (if ok then WriteHashBestChain hash db else (False, db)) of
             (False, db) \<Rightarrow>
               (Some False, b,
                InvalidChainFound pindexNew (S\<lparr>txdb := snd (TxnAbort db), sigs_cache := c\<rparr>))
           | (True, db) \<Rightarrow>
               (case (if fDeferCommit then (True, db) else TxnCommit db) of
                  (False, db) \<Rightarrow> (Some False, b, S\<lparr>txdb := db, sigs_cache := c\<rparr>)
                | (True, db) \<Rightarrow>
                    let S = S\<lparr>txdb := db, sigs_cache := c\<rparr> in
                    if tl pindexNew = [] then (None, b, S)
                    else (Some True, b,
                          S\<lparr>pnext := (pnext S)(iHash (hd (tl pindexNew)) \<mapsto> iHash (hd pindexNew)),
                            mempool := fold (pool_remove E) (vtx b) (mempool S)\<rparr>))))"

section \<open>Reorganisation\<close>

text \<open>The fork: first the longer chain comes down to the height of the other, then the other one takes a
  step.\<close>

fun lower_to :: "int \<Rightarrow> CBlockIndex list \<Rightarrow> CBlockIndex list option" where
  "lower_to h [] = None"
| "lower_to h (b # pprev) =
     (if iHeight b > h then (if pprev = [] then None else lower_to h pprev) else Some (b # pprev))"

function find_fork :: "CBlockIndex list \<Rightarrow> CBlockIndex list \<Rightarrow> CBlockIndex list option" where
  "find_fork pfork plonger =
     (if pfork = plonger then Some pfork
      else
        (case lower_to (iHeight (hd pfork)) plonger of None \<Rightarrow> None
         | Some plonger \<Rightarrow>
             if pfork = plonger then Some pfork
             else if tl pfork = [] then None
             else find_fork (tl pfork) plonger))"
  by pat_completeness auto

termination
  by (relation "measure (\<lambda>(pfork, plonger). length pfork)") (auto simp: neq_Nil_conv tl_def split: list.splits)

declare find_fork.simps [simp del]

text \<open>The blocks from a pointer back to the fork, excluding it.\<close>

fun back_to :: "CBlockIndex list \<Rightarrow> CBlockIndex list \<Rightarrow> CBlockIndex list list" where
  "back_to pfork [] = []"
| "back_to pfork (b # pprev) = (if b # pprev = pfork then [] else (b # pprev) # back_to pfork pprev)"

fun disconnect_branch ::
  "ext \<Rightarrow> files \<Rightarrow> CBlockIndex list list \<Rightarrow> CTxDB \<Rightarrow> bool \<times> CTxDB \<times> CTransaction list" where
  "disconnect_branch E files [] db = (True, db, [])"
| "disconnect_branch E files (pindex # r) db =
     (case CBlock_ReadFromDisk_index E files pindex True of None \<Rightarrow> (False, db, [])
      | Some b \<Rightarrow>
          (case DisconnectBlock E b pindex db of
             (False, db) \<Rightarrow> (False, db, [])
           | (True, db) \<Rightarrow>
               (case disconnect_branch E files r db of
                  (ok, db, vResurrect) \<Rightarrow> (ok, db, filter (\<lambda>tx. \<not> IsCoinBase tx) (vtx b) @ vResurrect))))"

fun connect_branch ::
  "ext \<Rightarrow> bnlib \<Rightarrow> env \<Rightarrow> files \<Rightarrow> txpool \<Rightarrow> int \<Rightarrow> CBlockIndex list list \<Rightarrow> CTxDB \<Rightarrow> sigcache \<Rightarrow>
    bool option \<times> CTxDB \<times> sigcache \<times> CTransaction list" where
  "connect_branch E B N files pool best [] db c = (Some True, db, c, [])"
| "connect_branch E B N files pool best (pindex # r) db c =
     (case CBlock_ReadFromDisk_index E files pindex True of None \<Rightarrow> (Some False, db, c, [])
      | Some b \<Rightarrow>
          (case ConnectBlock E B N files pool best pindex (Some (iHash (hd pindex))) False b db c of
             (None, db, c) \<Rightarrow> (None, db, c, [])
           | (Some (False, b), db, c) \<Rightarrow> (Some False, db, c, [])
           | (Some (True, b), db, c) \<Rightarrow>
               (case connect_branch E B N files pool best r db c of
                  (ok, db, c, vDelete) \<Rightarrow> (ok, db, c, vtx b @ vDelete))))"

text \<open>\<^verbatim>\<open>AcceptToMemoryPool\<close> without the checks of the inputs does not throw; its result is not used.\<close>

fun resurrect ::
  "ext \<Rightarrow> env \<Rightarrow> files \<Rightarrow> CTxDB \<Rightarrow> CBlockIndex list \<Rightarrow> int \<Rightarrow> CTransaction list \<Rightarrow> CTxMemPool \<Rightarrow> sigcache \<Rightarrow>
    CTxMemPool \<times> sigcache" where
  "resurrect E N files db best h [] P c = (P, c)"
| "resurrect E N files db best h (tx # r) P c =
     (case pool_accept E N files db best h tx False P c of
        (_, P, c) \<Rightarrow> resurrect E N files db best h r P c)"

definition unlink :: "CBlockIndex list list \<Rightarrow> (uint256 \<rightharpoonup> uint256) \<Rightarrow> (uint256 \<rightharpoonup> uint256)" where
  "unlink ps m = fold (\<lambda>p m. if tl p = [] then m else m(iHash (hd (tl p)) := None)) ps m"

definition link :: "CBlockIndex list list \<Rightarrow> (uint256 \<rightharpoonup> uint256) \<Rightarrow> (uint256 \<rightharpoonup> uint256)" where
  "link ps m = fold (\<lambda>p m. if tl p = [] then m else m(iHash (hd (tl p)) \<mapsto> iHash (hd p))) ps m"

definition Reorganize ::
  "ext \<Rightarrow> bnlib \<Rightarrow> env \<Rightarrow> CBlockIndex list \<Rightarrow> node \<Rightarrow> bool option \<times> node" where
  "Reorganize E B N pindexNew S =
     (case find_fork (pindexBest S) pindexNew of None \<Rightarrow> (Some False, S)
      | Some pfork \<Rightarrow>
          let vDisconnect = back_to pfork (pindexBest S); vConnect = rev (back_to pfork pindexNew) in
          (case disconnect_branch E (blkfiles S) vDisconnect (txdb S) of
             (False, db, _) \<Rightarrow> (Some False, S\<lparr>txdb := db\<rparr>)
           | (True, db, vResurrect) \<Rightarrow>
               (case connect_branch E B N (blkfiles S) (mapTx (mempool S)) (nBestHeight S) vConnect db
                       (sigs_cache S) of
                  (None, db, c, _) \<Rightarrow> (None, S\<lparr>txdb := db, sigs_cache := c\<rparr>)
                | (Some False, db, c, _) \<Rightarrow> (Some False, S\<lparr>txdb := db, sigs_cache := c\<rparr>)
                | (Some True, db, c, vDelete) \<Rightarrow>
                    (case WriteHashBestChain (iHash (hd pindexNew)) db of
                       (False, db) \<Rightarrow> (Some False, S\<lparr>txdb := db, sigs_cache := c\<rparr>)
                     | (True, db) \<Rightarrow>
                         (case TxnCommit db of
                            (False, db) \<Rightarrow> (Some False, S\<lparr>txdb := db, sigs_cache := c\<rparr>)
                          | (True, db) \<Rightarrow>
                              (case resurrect E N (blkfiles S) db (pindexBest S) (nBestHeight S) vResurrect
                                      (mempool S) c of
                                 (P, c) \<Rightarrow>
                                   (Some True,
                                    S\<lparr>txdb := db, sigs_cache := c,
                                      pnext := link vConnect (unlink vDisconnect (pnext S)),
                                      mempool := fold (pool_remove E) vDelete P\<rparr>)))))))"

section \<open>\<^verbatim>\<open>SetBestChain\<close>\<close>

text \<open>Reading through the null pointer \<^verbatim>\<open>pindexBest\<close> ends with \<open>None\<close>. The first block of the new chain that makes it the best one, and the later blocks, latest first.\<close>

fun postpone :: "CBigNum \<Rightarrow> CBlockIndex list \<Rightarrow> CBlockIndex list \<times> CBlockIndex list list" where
  "postpone w [] = ([], [])"
| "postpone w (b # pprev) =
     (if pprev \<noteq> [] \<and> iChainWork (hd pprev) > w
      then (case postpone w pprev of (i, v) \<Rightarrow> (i, (b # pprev) # v))
      else (b # pprev, []))"

text \<open>Connecting the postponed blocks: a failure ends the loop, but not the function.\<close>

fun connect_further ::
  "ext \<Rightarrow> bnlib \<Rightarrow> env \<Rightarrow> CBlockIndex list list \<Rightarrow> node \<Rightarrow> bool \<times> node" where
  "connect_further E B N [] S = (True, S)"
| "connect_further E B N (pindex # r) S =
     (case CBlock_ReadFromDisk_index E (blkfiles S) pindex True of None \<Rightarrow> (True, S)
      | Some b \<Rightarrow>
          (case TxnBegin (txdb S) of
             (False, db) \<Rightarrow> (True, S\<lparr>txdb := db\<rparr>)
           | (True, db) \<Rightarrow>
               (case SetBestChainInner E B N b pindex False (S\<lparr>txdb := db\<rparr>) of
                  (None, _, S) \<Rightarrow> (False, S)
                | (Some False, _, S) \<Rightarrow> (True, S)
                | (Some True, _, S) \<Rightarrow> connect_further E B N r S)))"

definition SetBestChain ::
  "ext \<Rightarrow> bnlib \<Rightarrow> env \<Rightarrow> CBlock \<Rightarrow> CBlockIndex list \<Rightarrow> bool \<Rightarrow> bool \<Rightarrow> node \<Rightarrow> bool option \<times> CBlock \<times> node" where
  "SetBestChain E B N b pindexNew fTxnActive fDeferCommit S =
     (let hash = CBlock_GetHash E b;
          finish = (\<lambda>b S.
            let S = snd (IsInitialBlockDownload N S)
            in (Some True, b,
                S\<lparr>hashBestChain := hash, pindexBest := pindexNew, pblockindexFBBHLast := [],
                  nBestHeight := iHeight (hd pindexNew), bnBestChainWork := iChainWork (hd pindexNew),
                  nTimeBestReceived := GetTime N,
                  mempool := (mempool S)\<lparr>nTransactionsUpdated := nTransactionsUpdated (mempool S) + 1\<rparr>\<rparr>))
      in case (if fTxnActive then (True, txdb S) else TxnBegin (txdb S)) of
        (False, db) \<Rightarrow> (Some False, b, S\<lparr>txdb := db\<rparr>)
      | (True, db) \<Rightarrow>
          let S = S\<lparr>txdb := db\<rparr> in
          if pindexGenesisBlock S = [] \<and> hash = hashGenesisBlock (fTestNet N) then
            (case WriteHashBestChain hash (txdb S) of
               (False, db) \<Rightarrow> (Some False, b, S\<lparr>txdb := db\<rparr>)
             | (True, db) \<Rightarrow>
                 (case (if fDeferCommit then (True, db) else TxnCommit db) of
                    (False, db) \<Rightarrow> (Some False, b, S\<lparr>txdb := db\<rparr>)
                  | (True, db) \<Rightarrow> finish b (S\<lparr>txdb := db, pindexGenesisBlock := pindexNew\<rparr>)))
          else if hashPrevBlock b = hashBestChain S then
            (case SetBestChainInner E B N b pindexNew fDeferCommit S of
               (Some True, b, S) \<Rightarrow> finish b S
             | r \<Rightarrow> r)
          else if fDeferCommit then (Some False, b, S\<lparr>txdb := snd (TxnAbort (txdb S))\<rparr>)
          else if pindexBest S = [] then (None, b, S)
          else
            (case postpone (iChainWork (hd (pindexBest S))) pindexNew of
               (pindexIntermediate, vpindexSecondary) \<Rightarrow>
                 (case Reorganize E B N pindexIntermediate S of
                    (None, S) \<Rightarrow> (None, b, S)
                  | (Some False, S) \<Rightarrow>
                      (Some False, b, InvalidChainFound pindexNew (S\<lparr>txdb := snd (TxnAbort (txdb S))\<rparr>))
                  | (Some True, S) \<Rightarrow>
                      (case connect_further E B N (rev vpindexSecondary) S of
                         (False, S) \<Rightarrow> (None, b, S)
                       | (True, S) \<Rightarrow> finish b S))))"

section \<open>Importing blocks in batches\<close>

definition MAX_IMPORT_BATCH_BLOCKS :: nat where
  "MAX_IMPORT_BATCH_BLOCKS = 1000"

definition MAX_IMPORT_BATCH_BYTES :: nat where
  "MAX_IMPORT_BATCH_BYTES = 64 * 1024 * 1024"

text \<open>The batch uses the database handle of the node; an entry is the hash of a block.\<close>

record CChainImportBatch =
  fActive :: bool
  nBlocks :: nat
  nBytes :: nat
  vEntries :: "(uint256 \<times> CBlockIndex list) list"
  savedBestChain :: uint256
  savedBest :: "CBlockIndex list"
  savedGenesis :: "CBlockIndex list"
  savedBestHeight :: int
  savedBestWork :: CBigNum
  savedTimeBestReceived :: int
  savedTransactionsUpdated :: u32
  savedFBBHLast :: "CBlockIndex list"
  savedBestNext :: "uint256 option"

definition new_batch :: CChainImportBatch where
  "new_batch = \<lparr>fActive = False, nBlocks = 0, nBytes = 0, vEntries = [], savedBestChain = 0, savedBest = [],
     savedGenesis = [], savedBestHeight = - 1, savedBestWork = 0, savedTimeBestReceived = 0,
     savedTransactionsUpdated = 0, savedFBBHLast = [], savedBestNext = None\<rparr>"

definition batch_Begin :: "CChainImportBatch \<Rightarrow> node \<Rightarrow> bool \<times> CChainImportBatch \<times> node" where
  "batch_Begin T S =
     (if fActive T then (False, T, S)
      else
        (case TxnBegin (txdb S) of
           (False, db) \<Rightarrow> (False, T, S\<lparr>txdb := db\<rparr>)
         | (True, db) \<Rightarrow>
             (True, \<lparr>fActive = True, nBlocks = 0, nBytes = 0, vEntries = [], savedBestChain = hashBestChain S,
                savedBest = pindexBest S, savedGenesis = pindexGenesisBlock S, savedBestHeight = nBestHeight S,
                savedBestWork = bnBestChainWork S, savedTimeBestReceived = nTimeBestReceived S,
                savedTransactionsUpdated = nTransactionsUpdated (mempool S), savedFBBHLast = pblockindexFBBHLast S,
                savedBestNext = (if pindexBest S = [] then None else pnext S (iHash (hd (pindexBest S))))\<rparr>,
              S\<lparr>txdb := db\<rparr>)))"

definition IsExtending :: "CChainImportBatch \<Rightarrow> node \<Rightarrow> uint256 \<Rightarrow> CBigNum \<Rightarrow> bool" where
  "IsExtending T S hashPrev work \<longleftrightarrow> fActive T \<and> hashPrev = hashBestChain S \<and> work > bnBestChainWork S"

definition batch_Record :: "uint256 \<Rightarrow> CBlockIndex list \<Rightarrow> CChainImportBatch \<Rightarrow> CChainImportBatch" where
  "batch_Record hash pindex T = T\<lparr>vEntries := vEntries T @ [(hash, pindex)], nBlocks := nBlocks T + 1\<rparr>"

definition batch_AddBytes :: "nat \<Rightarrow> CChainImportBatch \<Rightarrow> CChainImportBatch" where
  "batch_AddBytes n T = T\<lparr>nBytes := nBytes T + n\<rparr>"

text \<open>Entries are removed latest first; an entry is unlinked from the one before.\<close>

definition rollback_entry :: "uint256 \<times> CBlockIndex list \<Rightarrow> node \<Rightarrow> node" where
  "rollback_entry e S =
     (case e of (hash, pindex) \<Rightarrow>
        let m = pnext S;
            m = (if tl pindex \<noteq> [] \<and> m (iHash (hd (tl pindex))) = Some (iHash (hd pindex))
                 then m(iHash (hd (tl pindex)) := None) else m)
        in S\<lparr>pnext := m,
             mapBlockIndex := (if mapBlockIndex S hash = Some pindex then (mapBlockIndex S)(hash := None)
                               else mapBlockIndex S)\<rparr>)"

definition RollbackMemory :: "CChainImportBatch \<Rightarrow> node \<Rightarrow> CChainImportBatch \<times> node" where
  "RollbackMemory T S =
     (let S = fold rollback_entry (rev (vEntries T)) S;
          S = S\<lparr>hashBestChain := savedBestChain T, pindexBest := savedBest T, pindexGenesisBlock := savedGenesis T,
                nBestHeight := savedBestHeight T, bnBestChainWork := savedBestWork T,
                nTimeBestReceived := savedTimeBestReceived T,
                mempool := (mempool S)\<lparr>nTransactionsUpdated := savedTransactionsUpdated T\<rparr>,
                pblockindexFBBHLast := savedFBBHLast T,
                pnext := (if savedBest T = [] then pnext S
                          else (pnext S)(iHash (hd (savedBest T)) := savedBestNext T))\<rparr>
      in (T\<lparr>vEntries := [], nBlocks := 0, nBytes := 0\<rparr>, S))"

definition batch_Commit :: "CChainImportBatch \<Rightarrow> node \<Rightarrow> bool \<times> CChainImportBatch \<times> node" where
  "batch_Commit T S =
     (if \<not> fActive T then (True, T, S)
      else
        let T = T\<lparr>fActive := False\<rparr> in
        (case TxnCommit (txdb S) of
           (ok, db) \<Rightarrow>
             let S = S\<lparr>txdb := CTxDB_Close db\<rparr> in
             if \<not> ok then (case RollbackMemory T S of (T, S) \<Rightarrow> (False, T, S))
             else (True, T\<lparr>vEntries := [], nBlocks := 0, nBytes := 0\<rparr>, S)))"

definition batch_Abort :: "CChainImportBatch \<Rightarrow> node \<Rightarrow> CChainImportBatch \<times> node" where
  "batch_Abort T S =
     (if \<not> fActive T then (T, S)
      else RollbackMemory (T\<lparr>fActive := False\<rparr>) (S\<lparr>txdb := CTxDB_Close (snd (TxnAbort (txdb S)))\<rparr>))"

section \<open>\<^verbatim>\<open>AddToBlockIndex\<close>\<close>

definition RollbackBlockIndexEntry :: "uint256 \<Rightarrow> CBlockIndex list \<Rightarrow> node \<Rightarrow> node" where
  "RollbackBlockIndexEntry hash pindex S =
     (if pindex = pindexBest S \<or> pindex = pindexGenesisBlock S \<or> pnext S (iHash (hd pindex)) \<noteq> None then S
      else
        let S = (if pblockindexFBBHLast S = pindex then S\<lparr>pblockindexFBBHLast := []\<rparr> else S)
        in rollback_entry (hash, pindex) S)"

definition new_CBlockIndex :: "uint256 \<Rightarrow> u32 \<Rightarrow> u32 \<Rightarrow> int \<Rightarrow> CBigNum \<Rightarrow> CBlock \<Rightarrow> CBlockIndex" where
  "new_CBlockIndex hash nFileIn nBlockPosIn nHeight work b =
     \<lparr>iHash = hash, iFile = nFileIn, iBlockPos = nBlockPosIn, iHeight = nHeight, iChainWork = work,
      iVersion = bVersion b, iMerkleRoot = hashMerkleRoot b, iTime = nTime b, iBits = nBits b, iNonce = nNonce b\<rparr>"

text \<open>The writing part: the entry, and the best chain when there is more work. In a batch the transaction
  is open already, and stays open.\<close>

definition write_entry ::
  "ext \<Rightarrow> bnlib \<Rightarrow> env \<Rightarrow> CBlock \<Rightarrow> CBlockIndex list \<Rightarrow> bool \<Rightarrow> node \<Rightarrow> bool option \<times> CBlock \<times> node" where
  "write_entry E B N b pindexNew fBatch S =
     (case (if fBatch then (True, txdb S) else TxnBegin (txdb S)) of
        (False, db) \<Rightarrow> (Some False, b, S\<lparr>txdb := db\<rparr>)
      | (True, db) \<Rightarrow>
          (case WriteBlockIndex E (CDiskBlockIndex_of pindexNew 0) db of
             (False, db) \<Rightarrow> (Some False, b, S\<lparr>txdb := db\<rparr>)
           | (True, db) \<Rightarrow>
               let S = S\<lparr>txdb := db\<rparr> in
               if iChainWork (hd pindexNew) > bnBestChainWork S
               then SetBestChain E B N b pindexNew True fBatch S
               else (case TxnCommit (txdb S) of (ok, db) \<Rightarrow> (Some ok, b, S\<lparr>txdb := db\<rparr>))))"

definition AddToBlockIndex ::
  "ext \<Rightarrow> bnlib \<Rightarrow> env \<Rightarrow> CBlock \<Rightarrow> u32 \<Rightarrow> u32 \<Rightarrow> CChainImportBatch option \<Rightarrow> node \<Rightarrow>
    bool option \<times> CBlock \<times> CChainImportBatch option \<times> node" where
  "AddToBlockIndex E B N b nFile nBlockPos pBatch S =
     (let hash = CBlock_GetHash E b in
      if mapBlockIndex S hash \<noteq> None then (Some False, b, pBatch, S)
      else
        let pprev = (case mapBlockIndex S (hashPrevBlock b) of None \<Rightarrow> [] | Some p \<Rightarrow> p);
            (work, cache) = GetBlockWork B (nBits b) (mapWorkCache S);
            bnChainWork = (if pprev = [] then 0 else iChainWork (hd pprev)) + work;
            nHeight = (if pprev = [] then 0 else iHeight (hd pprev) + 1);
            pindexNew = new_CBlockIndex hash nFile nBlockPos nHeight bnChainWork b # pprev;
            S = S\<lparr>mapBlockIndex := (mapBlockIndex S)(hash \<mapsto> pindexNew), mapWorkCache := cache\<rparr>
        in case pBatch of
             Some T \<Rightarrow>
               if fActive T then
                 (if \<not> IsExtending T S (hashPrevBlock b) bnChainWork
                  then (Some False, b, pBatch, S\<lparr>mapBlockIndex := (mapBlockIndex S)(hash := None)\<rparr>)
                  else
                    (case write_entry E B N b pindexNew True S of
                       (ok, b, S) \<Rightarrow> (ok, b, Some (batch_Record hash pindexNew T), S)))
               else
                 (case write_entry E B N b pindexNew False S of
                    (Some True, b, S) \<Rightarrow> (Some True, b, pBatch, S\<lparr>txdb := CTxDB_Close (txdb S)\<rparr>)
                  | (ok, b, S) \<Rightarrow>
                      (ok, b, pBatch, RollbackBlockIndexEntry hash pindexNew (S\<lparr>txdb := CTxDB_Close (txdb S)\<rparr>)))
           | None \<Rightarrow>
               (case write_entry E B N b pindexNew False S of
                  (Some True, b, S) \<Rightarrow> (Some True, b, pBatch, S\<lparr>txdb := CTxDB_Close (txdb S)\<rparr>)
                | (ok, b, S) \<Rightarrow>
                    (ok, b, pBatch, RollbackBlockIndexEntry hash pindexNew (S\<lparr>txdb := CTxDB_Close (txdb S)\<rparr>))))"

end
