(* ===== verification/ChainInv.thy ===== *)
theory ChainInv
  imports Chain "HOL-Library.Sublist"
begin

text \<open>
  What holds of a node between two blocks: the index is a tree whose entries carry their height, work,
  header and a stored block, the tip has the most work, \<^verbatim>\<open>pnext\<close> links the main chain, the database has
  the index as it is in memory and the transaction index that connecting the blocks of the main chain
  gives. \<^verbatim>\<open>AddToBlockIndex\<close> keeps this when it succeeds, and leaves no trace when it fails.
\<close>

section \<open>Pointers\<close>

text \<open>The pointers from one back to the first block, without that block.\<close>

fun branch :: "CBlockIndex list \<Rightarrow> CBlockIndex list list" where
  "branch [] = []"
| "branch (b # pprev) = (if pprev = [] then [] else (b # pprev) # branch pprev)"

lemma back_to_append: "back_to f (q @ f) = map (\<lambda>i. drop i (q @ f)) [0..<length q]"
proof (induction q)
  case Nil
  show ?case by (cases f) auto
next
  case (Cons x q)
  have "x # q @ f \<noteq> f"
  proof
    assume "x # q @ f = f"
    from arg_cong [OF this, of length] show False by simp
  qed
  then show ?case
    using Cons by (simp add: upt_conv_Cons map_Suc_upt [symmetric] comp_def del: upt_Suc)
qed

lemma back_to_Cons: "back_to f ((x # q) @ f) = ((x # q) @ f) # back_to f (q @ f)"
  unfolding back_to_append by (simp add: upt_conv_Cons map_Suc_upt [symmetric] comp_def del: upt_Suc)

lemma back_to_Nil [simp]: "back_to f f = []"
  using back_to_append [of f "[]"] by simp

lemma branch_append: "f \<noteq> [] \<Longrightarrow> branch (q @ f) = back_to f (q @ f) @ branch f"
proof (induction q)
  case (Cons x q)
  then show ?case using back_to_Cons [of f x q] by simp
qed simp

lemma set_branch: "p \<in> set (branch c) \<Longrightarrow> suffix p c \<and> tl p \<noteq> []"
  by (induction c) (auto simp: suffix_Cons split: if_splits)

lemma lower_to_suffix: "lower_to h c = Some d \<Longrightarrow> suffix d c \<and> d \<noteq> []"
  by (induction c) (auto simp: suffix_Cons split: if_splits)

lemma find_fork_suffix:
  "find_fork a c = Some f \<Longrightarrow> a \<noteq> [] \<Longrightarrow> suffix f a \<and> suffix f c \<and> f \<noteq> []"
proof (induction a c rule: find_fork.induct)
  case (1 a c)
  show ?case
  proof (cases "a = c")
    case True
    then show ?thesis using "1.prems" by (simp add: find_fork.simps)
  next
    case False
    obtain d where d: "lower_to (iHeight (hd a)) c = Some d"
      using "1.prems"(1) False by (auto simp: find_fork.simps split: option.splits)
    note s = lower_to_suffix [OF d]
    show ?thesis
    proof (cases "a = d")
      case True
      then show ?thesis using "1.prems" False d s by (simp add: find_fork.simps)
    next
      case ad: False
      then have t: "tl a \<noteq> []" "find_fork (tl a) d = Some f"
        using "1.prems"(1) False d by (auto simp: find_fork.simps [of a c] split: if_splits)
      from "1.IH" [OF False d ad t(1) t(2) t(1)] have "suffix f (tl a)" "suffix f d" "f \<noteq> []" by auto
      then show ?thesis using s suffix_order.trans suffix_tl by blast
    qed
  qed
qed

section \<open>The database within a transaction\<close>

text \<open>A step that writes keeps the open transaction.\<close>

lemma db_write_active [simp]: "active (snd (db_write f db)) = active db"
  by (simp add: db_write_def)

lemma write_active [simp]:
  "active (snd (UpdateTxIndex h x db)) = active db"
  "active (snd (EraseTxIndex E tx db)) = active db"
  "active (snd (WriteBlockIndex E d db)) = active db"
  "active (snd (WriteHashBestChain h db)) = active db"
  by (simp_all add: UpdateTxIndex_def EraseTxIndex_def WriteBlockIndex_def WriteHashBestChain_def)

lemma update_all_active [simp]: "active (snd (update_all qs db)) = active db"
proof (induction qs arbitrary: db)
  case (Cons a qs)
  then show ?case by (cases a) (simp add: case_prod_beta)
qed simp

lemma disconnect_loop_active [simp]: "active (snd (disconnect_loop vs db)) = active db"
  by (induction vs arbitrary: db) (simp_all add: case_prod_beta Let_def split: option.split)

lemma DisconnectInputs_active [simp]: "active (snd (DisconnectInputs E tx db)) = active db"
  by (simp add: DisconnectInputs_def case_prod_beta)

lemma disconnect_txs_active [simp]: "active (snd (disconnect_txs E vs db)) = active db"
  by (induction vs arbitrary: db) (simp_all add: case_prod_beta)

lemma DisconnectBlock_active [simp]: "active (snd (DisconnectBlock E b p db)) = active db"
  by (simp add: DisconnectBlock_def case_prod_beta)

lemma ConnectBlock_active [simp]:
  "active (fst (snd (ConnectBlock E B N files pool best p h j b db c))) = active db"
  unfolding ConnectBlock_def Let_def by (simp add: case_prod_beta split: option.split outcome.split)

lemma disconnect_branch_active [simp]: "active (fst (snd (disconnect_branch E files ps db))) = active db"
proof (induction ps arbitrary: db)
  case (Cons p r)
  then show ?case by (auto simp: case_prod_beta split: option.split bool.split)
qed simp

lemma connect_branch_active [simp]:
  "active (fst (snd (connect_branch E B N files pool best ps db c))) = active db"
proof (induction ps arbitrary: db c)
  case (Cons p r)
  show ?case
    using Cons [of "fst (snd (ConnectBlock E B N files pool best p (Some (iHash (hd p))) False b db c))" for b]
    by (auto simp: case_prod_beta split: option.split bool.split)
qed simp

text \<open>The store a transaction started from comes back when it is given up, by the code or by closing the
  handle, but for the record of the best invalid work.\<close>

definition same_store :: "store \<Rightarrow> store \<Rightarrow> bool" where
  "same_store s t \<longleftrightarrow> t = s\<lparr>dbInvalidWork := dbInvalidWork t\<rparr>"

definition recoverable :: "store \<Rightarrow> CTxDB \<Rightarrow> bool" where
  "recoverable s db \<longleftrightarrow> active db = Some s \<or> active db = None \<and> same_store s (view db)"

lemma recoverable_Close: "recoverable s db \<Longrightarrow> active (CTxDB_Close db) = None \<and> same_store s (view (CTxDB_Close db))"
  by (auto simp: recoverable_def CTxDB_Close_def TxnAbort_def same_store_def split: option.split)

lemma recoverable_abort: "recoverable s db \<Longrightarrow> recoverable s (snd (TxnAbort db))"
  by (auto simp: recoverable_def TxnAbort_def same_store_def split: option.split)

lemma recoverable_active: "active db' = active db \<Longrightarrow> active db \<noteq> None \<Longrightarrow> recoverable s db \<Longrightarrow> recoverable s db'"
  by (auto simp: recoverable_def)

section \<open>The invariant\<close>

text \<open>The transactions of a stored block.\<close>

definition entry_txs :: "ext \<Rightarrow> files \<Rightarrow> CBlockIndex list \<Rightarrow> CTransaction list" where
  "entry_txs E files p = (case CBlock_ReadFromDisk_index E files p True of None \<Rightarrow> [] | Some b \<Rightarrow> vtx b)"

definition entry_ids :: "ext \<Rightarrow> files \<Rightarrow> CBlockIndex list \<Rightarrow> uint256 set" where
  "entry_ids E files p = GetHash E ` set (entry_txs E files p)"

definition block_at :: "ext \<Rightarrow> files \<Rightarrow> CBlockIndex list \<Rightarrow> CBlock \<Rightarrow> bool" where
  "block_at E files p b \<longleftrightarrow>
     stored_at files (iFile (hd p)) (iBlockPos (hd p)) b \<and> block_fits b \<and> CBlock_GetHash E b = iHash (hd p)"

lemma read_stored:
  assumes "stored_at files n q b" "block_fits b"
  shows "\<exists>b'. CBlock_ReadFromDisk files n q True = Some b' \<and> vtx b' = vtx b \<and>
    CBlock_GetHash E b' = CBlock_GetHash E b \<and> stored_at files n q b' \<and> block_fits b'"
proof -
  obtain bs post where bs: "files n = Some bs" "drop (unat q) bs = ser_CBlock b @ post"
    using stored_at_bytes [OF assms(1)] .
  have n: "\<not> n < 1" "n \<noteq> - 1" using assms(1) by (simp_all add: stored_at_def)
  let ?b = "CBlock_SetNull\<lparr>bVersion := bVersion b, hashPrevBlock := hashPrevBlock b,
      hashMerkleRoot := hashMerkleRoot b, nTime := nTime b, nBits := nBits b, nNonce := nNonce b, vtx := vtx b\<rparr>"
  have "unser_CBlock (ser_CBlock b @ post @ [0]) = Some (?b, post @ [0])"
    by (rule unser_ser_CBlock [OF assms(2)])
  from from_file_written [where unser = unser_CBlock and bs = "ser_CBlock b" and rest = post, OF this]
  have "CBlock_ReadFromDisk files n q True = Some ?b"
    using n bs by (simp add: CBlock_ReadFromDisk_def OpenBlockFile_def)
  moreover have "ser_CBlock ?b = ser_CBlock b" "size_CBlock ?b = size_CBlock b"
    by (simp_all add: ser_CBlock_def block_header_def size_CBlock_def)
  then have "stored_at files n q ?b" using assms(1) unfolding stored_at_def by metis
  ultimately show ?thesis using assms(2) by (simp add: CBlock_GetHash_def block_header_def block_fits_def)
qed

lemma block_at_read:
  assumes "block_at E files p b"
  obtains b' where "CBlock_ReadFromDisk_index E files p True = Some b'" "vtx b' = vtx b"
    "block_at E files p b'" "entry_txs E files p = vtx b"
  using assms read_stored [of files "iFile (hd p)" "iBlockPos (hd p)" b E] that
  by (auto simp: block_at_def CBlock_ReadFromDisk_index_def entry_txs_def)

lemma stored_at_grows: "stored_at files n q b \<Longrightarrow> grows files files' \<Longrightarrow> stored_at files' n q b"
proof -
  assume a: "stored_at files n q b" "grows files files'"
  obtain bs where bs: "files n = Some bs" "take (size_CBlock b) (drop (unat q) bs) = ser_CBlock b"
    using a(1) by (auto simp: stored_at_def split: option.splits)
  obtain new where n: "files' n = Some (bs @ new)" using a(2) bs(1) by (auto simp: grows_def)
  have "length (take (size_CBlock b) (drop (unat q) bs)) = size_CBlock b" by (simp add: bs(2) length_ser_CBlock)
  then have "size_CBlock b \<le> length bs - unat q" by simp
  then have "take (size_CBlock b) (drop (unat q) (bs @ new)) = ser_CBlock b" using bs(2) by simp
  then show ?thesis using a(1) n by (simp add: stored_at_def)
qed

lemma block_at_grows: "block_at E files p b \<Longrightarrow> grows files files' \<Longrightarrow> block_at E files' p b"
  using stored_at_grows by (auto simp: block_at_def)

lemma entry_txs_grows: "block_at E files p b \<Longrightarrow> grows files files' \<Longrightarrow> entry_txs E files' p = entry_txs E files p"
  using block_at_read block_at_grows by metis

text \<open>The index as the database has it.\<close>

definition disk_index :: "BlockMap \<Rightarrow> (uint256 \<rightharpoonup> uint256) \<Rightarrow> uint256 \<rightharpoonup> CDiskBlockIndex" where
  "disk_index m next h =
     (case m h of None \<Rightarrow> None
      | Some p \<Rightarrow> Some (CDiskBlockIndex_of p (case next h of None \<Rightarrow> 0 | Some n \<Rightarrow> n)))"

text \<open>The links of a chain.\<close>

definition chain_next :: "CBlockIndex list \<Rightarrow> uint256 \<rightharpoonup> uint256" where
  "chain_next p = link (rev (branch p)) Map.empty"

text \<open>One entry of the index. The identifiers of a block are not those of a block below it.\<close>

definition entry_ok :: "ext \<Rightarrow> BlockMap \<Rightarrow> files \<Rightarrow> CBlockIndex list \<Rightarrow> bool" where
  "entry_ok E m files p \<longleftrightarrow>
     p \<noteq> [] \<and> CDiskBlockIndex_GetBlockHash E (CDiskBlockIndex_of p 0) = iHash (hd p) \<and>
     (if tl p = [] then iHeight (hd p) = 0
      else m (iHash (hd (tl p))) = Some (tl p) \<and> iHeight (hd p) = iHeight (hd (tl p)) + 1 \<and>
        (\<exists>b. block_at E files p b) \<and> fEnforceBIP30 (iHeight (hd p)) (Some (iHash (hd p))) \<and>
        (\<forall>q\<in>set (branch (tl p)). entry_ids E files p \<inter> entry_ids E files q = {}))"

definition tree_ok :: "ext \<Rightarrow> BlockMap \<Rightarrow> files \<Rightarrow> bool" where
  "tree_ok E m files \<longleftrightarrow> (\<forall>h p. m h = Some p \<longrightarrow> iHash (hd p) = h \<and> entry_ok E m files p)"

text \<open>The blocks of a chain, latest first, and the index they give.\<close>

definition ledger_ok :: "ext \<Rightarrow> bnlib \<Rightarrow> bool \<Rightarrow> files \<Rightarrow> CBlockIndex list \<Rightarrow> txindex \<Rightarrow> bool" where
  "ledger_ok E B T files p V \<longleftrightarrow>
     (\<exists>bs. map vtx bs = map (entry_txs E files) (branch p) \<and> straight E B T files bs V)"

definition node_ok :: "ext \<Rightarrow> bnlib \<Rightarrow> bool \<Rightarrow> node \<Rightarrow> bool" where
  "node_ok E B T S \<longleftrightarrow>
     tree_ok E (mapBlockIndex S) (blkfiles S) \<and>
     (\<forall>h p. mapBlockIndex S h = Some p \<longrightarrow> iChainWork (hd p) \<le> iChainWork (hd (pindexBest S))) \<and>
     mapBlockIndex S (hashBestChain S) = Some (pindexBest S) \<and>
     mapBlockIndex S (iHash (hd (pindexGenesisBlock S))) = Some (pindexGenesisBlock S) \<and>
     nBestHeight S = iHeight (hd (pindexBest S)) \<and> bnBestChainWork S = iChainWork (hd (pindexBest S)) \<and>
     pnext S = chain_next (pindexBest S) \<and>
     active (txdb S) = None \<and> dbBest (view (txdb S)) = Some (hashBestChain S) \<and>
     dbBlock (view (txdb S)) = disk_index (mapBlockIndex S) (pnext S) \<and>
     ledger_ok E B T (blkfiles S) (pindexBest S) (dbTx (view (txdb S)))"

lemma tree_entry:
  "tree_ok E m files \<Longrightarrow> m h = Some p \<Longrightarrow> iHash (hd p) = h \<and> p \<noteq> [] \<and> entry_ok E m files p"
  unfolding tree_ok_def by (metis entry_ok_def)

lemma tree_parent:
  assumes "tree_ok E m files" "m (iHash (hd p)) = Some p" "tl p \<noteq> []"
  shows "m (iHash (hd (tl p))) = Some (tl p)"
  using tree_entry [OF assms(1,2)] assms(3) by (simp add: entry_ok_def)

lemma tree_suffix:
  "tree_ok E m files \<Longrightarrow> m (iHash (hd p)) = Some p \<Longrightarrow> suffix q p \<Longrightarrow> q \<noteq> [] \<Longrightarrow> m (iHash (hd q)) = Some q"
proof (induction p)
  case (Cons x p)
  show ?case
  proof (cases "q = x # p")
    case False
    then have q: "suffix q p" using Cons.prems(3) by (auto simp: suffix_Cons)
    then have "p \<noteq> []" using Cons.prems(4) by auto
    then have "m (iHash (hd p)) = Some p" using tree_parent [OF Cons.prems(1,2)] by simp
    then show ?thesis using Cons q by blast
  qed (use Cons in simp)
qed simp

lemma length_branch: "length (branch p) = length p - 1"
  by (induction p) auto

lemma tree_height:
  "tree_ok E m files \<Longrightarrow> m (iHash (hd p)) = Some p \<Longrightarrow> iHeight (hd p) = int (length (branch p))"
proof (induction p)
  case Nil
  then show ?case using tree_entry by blast
next
  case (Cons x p)
  note e = tree_entry [OF Cons.prems]
  show ?case
  proof (cases "p = []")
    case True
    then show ?thesis using e by (simp add: entry_ok_def)
  next
    case False
    then have "m (iHash (hd p)) = Some p" using tree_parent [OF Cons.prems] by simp
    with Cons.IH [OF Cons.prems(1)] e False show ?thesis by (simp add: entry_ok_def)
  qed
qed

section \<open>Connecting the block of an entry\<close>

lemma fold_mark_dom: "dom (fold (mark q) ps V) = dom V"
  by (induction ps arbitrary: V) (auto simp: mark_def split: option.split)

lemma connect_txs_dom:
  "connect_txs E N K vs nTxPos queued nFees nSigOps c = (Ok (queued', nFees'), vs', c') \<Longrightarrow>
     dom (overlay (cDB K) queued') \<subseteq> dom (overlay (cDB K) queued) \<union> GetHash E ` set vs"
proof (induction vs arbitrary: nTxPos queued nFees nSigOps c vs')
  case (Cons tx r)
  obtain q queued1 nFees1 nSigOps1 tx' c1 r' n where
    1: "connect_tx E N K tx q queued nFees nSigOps c = (Ok (queued1, nFees1, nSigOps1), tx', c1)" and
    2: "connect_txs E N K r n queued1 nFees1 nSigOps1 c1 = (Ok (queued', nFees'), r', c')"
    using connect_txs_Ok [OF Cons.prems(1)] by metis
  have "dom (overlay (cDB K) queued1) \<subseteq> insert (GetHash E tx) (dom (overlay (cDB K) queued))"
    unfolding connect_tx_index [OF 1] by (simp add: fold_mark_dom)
  moreover note Cons.IH [OF 2]
  ultimately show ?case by (simp only: list.set image_insert) blast
qed simp

lemma connects_dom: "connects E B T files h b V V' \<Longrightarrow> dom V' \<subseteq> dom V \<union> GetHash E ` set (vtx b)"
proof -
  assume "connects E B T files h b V V'"
  then obtain N mapTx best pindex hash db c b' db' c' where
    cb: "ConnectBlock E B N files mapTx best pindex hash False b db c = (Some (True, b'), db', c')" and
    V: "dbTx (view db) = V" "dbTx (view db') = V'" unfolding connects_def by blast
  obtain K n queued nFees where
    K: "K = \<lparr>cFiles = files, cDB = db, cPool = mapTx, cIndex = pindex, cBestHeight = best,
         cBIP30 = fEnforceBIP30 (iHeight (hd pindex)) hash,
         cStrict = uint (iTime (hd pindex)) \<ge> nBIP16SwitchTime, cJustCheck = False\<rparr>" and
    t: "connect_txs E N K (vtx b) n [] 0 0 c = (Ok (queued, nFees), vtx b, c')" and
    d: "dbTx (view db') = dbTx (view db) ++ map_of queued"
    using ConnectBlock_True [OF cb] by metis
  have "dom (dbTx (view db) ++ map_of queued) \<subseteq> dom (dbTx (view db)) \<union> GetHash E ` set (vtx b)"
    using connect_txs_dom [OF t] unfolding K overlay_def by simp
  then show ?thesis using V d by metis
qed

lemma straight_dom: "straight E B T files bs V \<Longrightarrow> dom V \<subseteq> GetHash E ` (\<Union>b\<in>set bs. set (vtx b))"
proof (induction rule: straight.induct)
  case (connect files bs V b V')
  have "dom V' \<subseteq> GetHash E ` (\<Union>b\<in>set bs. set (vtx b)) \<union> GetHash E ` set (vtx b)"
    using connects_dom [OF connect.hyps(2)] connect.IH by blast
  also have "\<dots> = GetHash E ` (\<Union>b\<in>set (b # bs). set (vtx b))" by auto
  finally show ?case .
qed simp_all

lemma ledger_dom: "ledger_ok E B T files p V \<Longrightarrow> V h \<noteq> None \<Longrightarrow> \<exists>q\<in>set (branch p). h \<in> entry_ids E files q"
proof -
  assume "ledger_ok E B T files p V" and h: "V h \<noteq> None"
  then obtain bs where bs: "map vtx bs = map (entry_txs E files) (branch p)" "straight E B T files bs V"
    by (auto simp: ledger_ok_def)
  from straight_dom [OF bs(2)] h obtain b tx where b: "b \<in> set bs" "tx \<in> set (vtx b)" "h = GetHash E tx" by auto
  then have "vtx b \<in> set (map (entry_txs E files) (branch p))" unfolding bs(1) [symmetric] by auto
  then obtain q where "q \<in> set (branch p)" "vtx b = entry_txs E files q" by auto
  then show ?thesis using b unfolding entry_ids_def by (metis image_eqI)
qed

text \<open>What the database has besides the transaction index.\<close>

definition tx_only :: "store \<Rightarrow> store \<Rightarrow> bool" where
  "tx_only s t \<longleftrightarrow> t = s\<lparr>dbTx := dbTx t\<rparr>"

lemma tx_only_refl [simp]: "tx_only s s"
  by (simp add: tx_only_def)

lemma tx_only_trans: "tx_only s t \<Longrightarrow> tx_only t u \<Longrightarrow> tx_only s u"
  unfolding tx_only_def by (metis store.update_convs(1) store.surjective)

lemma tx_only_update [simp]: "tx_only (view db) (view (snd (UpdateTxIndex h x db)))"
  "tx_only (view db) (view (snd (EraseTxIndex E tx db)))"
  by (simp_all add: tx_only_def UpdateTxIndex_def EraseTxIndex_def db_write_def)

lemma update_all_view: "tx_only (view db) (view (snd (update_all qs db)))"
proof (induction qs arbitrary: db)
  case (Cons a qs)
  obtain h x where a: "a = (h, x)" by fastforce
  show ?case
    using tx_only_trans [OF tx_only_update(1) Cons [of "snd (UpdateTxIndex h x db)"]]
    by (simp add: a case_prod_beta)
qed simp

lemma ConnectBlock_view:
  assumes "ConnectBlock E B N files pool best p (Some h) False b db c = (Some (True, b'), db', c')" "tl p \<noteq> []"
  shows "view db' = (view db)\<lparr>dbTx := dbTx (view db'),
    dbBlock := (dbBlock (view db))(CDiskBlockIndex_GetBlockHash E (CDiskBlockIndex_of (tl p) h) \<mapsto> CDiskBlockIndex_of (tl p) h)\<rparr>"
proof -
  obtain ok b1 where k: "CheckBlock E B N True True b = (ok, b1)" by fastforce
  from assms obtain qs db1 where u: "update_all qs db = (True, db1)" and
    w: "WriteBlockIndex E (CDiskBlockIndex_of (tl p) h) db1 = (True, db')"
    by (auto simp: ConnectBlock_def k Let_def CBlock_DoS_def split: prod.splits if_splits option.splits outcome.splits)
  have "view db1 = (view db)\<lparr>dbTx := dbTx (view db1)\<rparr>" using update_all_view [of db qs] u by (simp add: tx_only_def)
  moreover from arg_cong [OF this, of dbBlock] have "dbBlock (view db1) = dbBlock (view db)" by simp
  ultimately show ?thesis using w by (auto simp: WriteBlockIndex_def db_write_def split: if_splits)
qed

lemma disk_hash: "CDiskBlockIndex_GetBlockHash E (CDiskBlockIndex_of p h) = CDiskBlockIndex_GetBlockHash E (CDiskBlockIndex_of p 0)"
  by (simp add: CDiskBlockIndex_GetBlockHash_def CDiskBlockIndex_of_def CBlockIndex.defs CDiskBlockIndex.defs)

lemma tree_disk_hash:
  "tree_ok E m files \<Longrightarrow> m (iHash (hd q)) = Some q \<Longrightarrow> CDiskBlockIndex_GetBlockHash E (CDiskBlockIndex_of q h) = iHash (hd q)"
  using tree_entry [of E m files "iHash (hd q)" q] by (simp add: disk_hash [of E q h] entry_ok_def)

lemma disk_index_upd:
  assumes "m k = Some q"
  shows "(disk_index m nx)(k \<mapsto> CDiskBlockIndex_of q h) = disk_index m (nx(k \<mapsto> h))"
    "(disk_index m nx)(k \<mapsto> CDiskBlockIndex_of q 0) = disk_index m (nx(k := None))"
  using assms by (auto simp: disk_index_def fun_eq_iff split: option.split)

lemma straight_clean_ledger: "ledger_ok E B T files p V \<Longrightarrow> null_clean V"
  using straight_clean by (auto simp: ledger_ok_def)

lemma branch_step: "tl p \<noteq> [] \<Longrightarrow> branch p = p # branch (tl p)"
  by (cases p) auto

lemma connect_entry:
  assumes "tree_ok E m files" "m (iHash (hd p)) = Some p" "tl p \<noteq> []"
    "ConnectBlock E B N files pool best p (Some (iHash (hd p))) False b db c = (Some (True, b'), db', c')"
    "stored_at files (iFile (hd p)) (iBlockPos (hd p)) b" "block_fits b" "entry_txs E files p = vtx b"
    "ledger_ok E B (fTestNet N) files (tl p) (dbTx (view db))" "dbBlock (view db) = disk_index m nx"
  shows "ledger_ok E B (fTestNet N) files p (dbTx (view db'))"
    "dbBlock (view db') = disk_index m (nx(iHash (hd (tl p)) \<mapsto> iHash (hd p)))"
    "dbBest (view db') = dbBest (view db)"
proof -
  note v = ConnectBlock_view [OF assms(4,3)]
  note parent = tree_parent [OF assms(1,2,3)]
  show "dbBlock (view db') = disk_index m (nx(iHash (hd (tl p)) \<mapsto> iHash (hd p)))"
    using arg_cong [OF v, of dbBlock] assms(9)
      disk_index_upd(1) [where m = m and k = "iHash (hd (tl p))" and q = "tl p", OF parent]
    by (simp add: tree_disk_hash [OF assms(1) parent])
  show "dbBest (view db') = dbBest (view db)" using arg_cong [OF v, of dbBest] by simp
  have e: "entry_ok E m files p" using tree_entry [OF assms(1,2)] by blast
  obtain bs where bs: "map vtx bs = map (entry_txs E files) (branch (tl p))"
    "straight E B (fTestNet N) files bs (dbTx (view db))" using assms(8) by (auto simp: ledger_ok_def)
  have len: "length bs = length (branch (tl p))" using bs(1) by (metis length_map)
  have h: "iHeight (hd p) = int (length bs) + 1"
    using e assms(3) tree_height [OF assms(1) parent] len by (simp add: entry_ok_def)
  have fresh: "dbTx (view db) (GetHash E tx) = None" if "tx \<in> set (vtx b)" for tx
  proof (rule ccontr)
    assume "dbTx (view db) (GetHash E tx) \<noteq> None"
    from ledger_dom [OF assms(8) this] obtain q where q: "q \<in> set (branch (tl p))" "GetHash E tx \<in> entry_ids E files q" by blast
    moreover have "GetHash E tx \<in> entry_ids E files p" using that by (simp add: entry_ids_def assms(7))
    ultimately show False using e assms(3) by (auto simp: entry_ok_def)
  qed
  have "connects E B (fTestNet N) files (int (length bs) + 1) b (dbTx (view db)) (dbTx (view db'))"
    unfolding connects_def
    by (intro exI conjI, rule assms(4))
      (use e assms(3,5,6) fresh in \<open>auto simp: h entry_ok_def block_fits_def list_all_iff\<close>)
  from straight.connect [OF bs(2) this] show "ledger_ok E B (fTestNet N) files p (dbTx (view db'))"
    using bs(1) by (auto simp: ledger_ok_def branch_step [OF assms(3)] assms(7) intro!: exI [of _ "b # bs"])
qed

section \<open>Disconnecting the block of an entry\<close>

text \<open>When the block index entry could be written afterwards, so could all the rest.\<close>

lemma disconnect_loop_room:
  "disconnect_loop vs db = (True, db') \<Longrightarrow> room db' + length vs = room db"
  by (induction vs arbitrary: db)
    (auto simp: Let_def UpdateTxIndex_def db_write_def split: option.splits if_splits)

lemma DisconnectInputs_room:
  "DisconnectInputs E tx db = (True, db') \<Longrightarrow> room db' = room db - (length (ins tx) + 1) \<and> (0 < room db' \<longrightarrow> length (ins tx) + 1 \<le> room db)"
  using disconnect_loop_room [of "vin tx" db]
  by (cases "disconnect_loop (vin tx) db")
    (auto simp: DisconnectInputs_def ins_def EraseTxIndex_def db_write_def split: if_splits prod.splits)

lemma disconnect_txs_room:
  "disconnect_txs E vs db = (True, db') \<Longrightarrow> 0 < room db' \<Longrightarrow> room db' + undo_writes vs = room db"
proof (induction vs arbitrary: db)
  case (Cons tx r)
  obtain db1 where d: "DisconnectInputs E tx db = (True, db1)" "disconnect_txs E r db1 = (True, db')"
    using Cons.prems(1) by (auto split: prod.splits if_splits)
  from Cons.IH [OF d(2) Cons.prems(2)] DisconnectInputs_room [OF d(1)] Cons.prems(2)
  show ?case by (auto simp: undo_writes_def)
qed (simp add: undo_writes_def)

lemma undo_writes_rev [simp]: "undo_writes (rev vs) = undo_writes vs"
  by (simp add: undo_writes_def rev_map [symmetric])

lemma DisconnectBlock_room:
  assumes "DisconnectBlock E b p db = (True, db')" "tl p \<noteq> []"
  shows "undo_writes (vtx b) < room db"
proof -
  obtain db1 where d: "disconnect_txs E (rev (vtx b)) db = (True, db1)" "0 < room db1"
    using assms by (auto simp: DisconnectBlock_def WriteBlockIndex_def db_write_def split: prod.splits if_splits)
  then show ?thesis using disconnect_txs_room [OF d] by simp
qed

lemma disconnect_loop_view: "tx_only (view db) (view (snd (disconnect_loop vs db)))"
proof (induction vs arbitrary: db)
  case (Cons txin r)
  have "tx_only (view db) (view (snd (disconnect_loop r (snd (UpdateTxIndex h x db)))))" for h x
    by (rule tx_only_trans [OF tx_only_update(1) Cons])
  then show ?case by (auto simp: case_prod_beta Let_def split: option.split)
qed simp

lemma DisconnectInputs_view: "tx_only (view db) (view (snd (DisconnectInputs E tx db)))"
  using tx_only_trans [OF disconnect_loop_view tx_only_update(2)] disconnect_loop_view
  by (auto simp: DisconnectInputs_def case_prod_beta)

lemma disconnect_txs_view: "tx_only (view db) (view (snd (disconnect_txs E vs db)))"
proof (induction vs arbitrary: db)
  case (Cons tx r)
  show ?case
    using tx_only_trans [OF DisconnectInputs_view Cons] DisconnectInputs_view
    by (simp add: case_prod_beta)
qed simp

lemma DisconnectBlock_view:
  assumes "DisconnectBlock E b p db = (True, db')" "tl p \<noteq> []"
  shows "view db' = (view db)\<lparr>dbTx := dbTx (view db'),
    dbBlock := (dbBlock (view db))(CDiskBlockIndex_GetBlockHash E (CDiskBlockIndex_of (tl p) 0) \<mapsto> CDiskBlockIndex_of (tl p) 0)\<rparr>"
proof -
  obtain db1 where d: "disconnect_txs E (rev (vtx b)) db = (True, db1)"
    "WriteBlockIndex E (CDiskBlockIndex_of (tl p) 0) db1 = (True, db')"
    using assms by (auto simp: DisconnectBlock_def split: prod.splits if_splits)
  have "view db1 = (view db)\<lparr>dbTx := dbTx (view db1)\<rparr>"
    using disconnect_txs_view [of db E "rev (vtx b)"] d(1) by (simp add: tx_only_def)
  moreover from arg_cong [OF this, of dbBlock] have "dbBlock (view db1) = dbBlock (view db)" by simp
  ultimately show ?thesis using d(2) by (auto simp: WriteBlockIndex_def db_write_def split: if_splits)
qed

lemma DisconnectBlock_cong: "vtx b = vtx b' \<Longrightarrow> DisconnectBlock E b p db = DisconnectBlock E b' p db"
  by (simp add: DisconnectBlock_def)

lemma disconnect_entry:
  assumes "tree_ok E m files" "m (iHash (hd p)) = Some p" "tl p \<noteq> []"
    "DisconnectBlock E b p db = (True, db')" "vtx b = entry_txs E files p"
    "ledger_ok E B T files p (dbTx (view db))" "dbBlock (view db) = disk_index m nx"
  shows "ledger_ok E B T files (tl p) (dbTx (view db'))"
    "dbBlock (view db') = disk_index m (nx(iHash (hd (tl p)) := None))"
    "dbBest (view db') = dbBest (view db)"
proof -
  note v = DisconnectBlock_view [OF assms(4,3)]
  note parent = tree_parent [OF assms(1,2,3)]
  show "dbBlock (view db') = disk_index m (nx(iHash (hd (tl p)) := None))"
    using arg_cong [OF v, of dbBlock] assms(7)
      disk_index_upd(2) [where m = m and k = "iHash (hd (tl p))" and q = "tl p", OF parent]
    by (simp add: tree_disk_hash [OF assms(1) parent])
  show "dbBest (view db') = dbBest (view db)" using arg_cong [OF v, of dbBest] by simp
  obtain bs where bs: "map vtx bs = map (entry_txs E files) (branch p)" "straight E B T files bs (dbTx (view db))"
    using assms(6) by (auto simp: ledger_ok_def)
  then obtain b1 bs1 where bs1: "bs = b1 # bs1" "vtx b1 = entry_txs E files p"
    "map vtx bs1 = map (entry_txs E files) (branch (tl p))"
    by (auto simp: branch_step [OF assms(3)] Cons_eq_map_conv map_eq_Cons_conv)
  obtain V files0 where V: "straight E B T files bs1 V" and
    c: "connects E B T files0 (int (length bs1) + 1) b1 V (dbTx (view db))"
    using straight_pop [OF bs(2) bs1(1)] by blast
  have d: "DisconnectBlock E b1 p db = (True, db')"
    using assms(4) DisconnectBlock_cong [of b b1] bs1(2) assms(5) by simp
  have "dbTx (view db') = V"
    using connects_undo [OF c straight_clean [OF V] refl DisconnectBlock_room [OF d assms(3)] d] .
  then show "ledger_ok E B T files (tl p) (dbTx (view db'))" using V bs1(3) by (auto simp: ledger_ok_def)
qed

section \<open>Whole branches\<close>

lemma disconnect_branch_ledger:
  assumes "tree_ok E m files" "m (iHash (hd (q @ f))) = Some (q @ f)" "f \<noteq> []"
    "disconnect_branch E files (back_to f (q @ f)) db = (True, db', v)"
    "ledger_ok E B T files (q @ f) (dbTx (view db))" "dbBlock (view db) = disk_index m nx"
  shows "ledger_ok E B T files f (dbTx (view db')) \<and>
    dbBlock (view db') = disk_index m (unlink (back_to f (q @ f)) nx) \<and> dbBest (view db') = dbBest (view db)"
  using assms(2,4-6)
proof (induction q arbitrary: db nx v)
  case Nil
  then show ?case by (simp add: unlink_def)
next
  case (Cons x q)
  let ?p = "(x # q) @ f"
  have t: "tl ?p = q @ f" "tl ?p \<noteq> []" using assms(3) by simp_all
  obtain b db1 v' where b: "CBlock_ReadFromDisk_index E files ?p True = Some b" and
    d: "DisconnectBlock E b ?p db = (True, db1)" and
    r: "disconnect_branch E files (back_to f (q @ f)) db1 = (True, db', v')"
    using Cons.prems(2) unfolding back_to_Cons by (auto split: option.splits prod.splits bool.splits)
  have "vtx b = entry_txs E files ?p" using b by (simp add: entry_txs_def)
  note D = disconnect_entry [OF assms(1) Cons.prems(1) t(2) d this Cons.prems(3,4)]
  have "m (iHash (hd (q @ f))) = Some (q @ f)" using tree_parent [OF assms(1) Cons.prems(1) t(2)] by (simp add: t)
  from Cons.IH [OF this r] D show ?case
    using assms(3) unfolding back_to_Cons unlink_def t(1) by simp
qed

lemma connect_branch_snoc:
  "connect_branch E B N files pool best (xs @ [p]) db c = (Some True, db', c', v) \<Longrightarrow>
     \<exists>db1 c1 v1 v2. connect_branch E B N files pool best xs db c = (Some True, db1, c1, v1) \<and>
       connect_branch E B N files pool best [p] db1 c1 = (Some True, db', c', v2)"
proof (induction xs arbitrary: db c v)
  case (Cons x xs)
  obtain b b' db1 c1 v1 where 1: "CBlock_ReadFromDisk_index E files x True = Some b"
    "ConnectBlock E B N files pool best x (Some (iHash (hd x))) False b db c = (Some (True, b'), db1, c1)"
    "connect_branch E B N files pool best (xs @ [p]) db1 c1 = (Some True, db', c', v1)"
    using Cons.prems by (auto split: option.splits prod.splits bool.splits)
  from Cons.IH [OF 1(3)] obtain db2 c2 v2 v3 where
    "connect_branch E B N files pool best xs db1 c1 = (Some True, db2, c2, v2)"
    "connect_branch E B N files pool best [p] db2 c2 = (Some True, db', c', v3)" by blast
  then show ?case using 1 by (auto simp del: connect_branch.simps(1))
qed auto

lemma connect_branch_ledger:
  assumes "tree_ok E m files" "m (iHash (hd (q @ f))) = Some (q @ f)" "f \<noteq> []"
    "connect_branch E B N files pool best (rev (back_to f (q @ f))) db c = (Some True, db', c', v)"
    "ledger_ok E B (fTestNet N) files f (dbTx (view db))" "dbBlock (view db) = disk_index m nx"
  shows "ledger_ok E B (fTestNet N) files (q @ f) (dbTx (view db')) \<and>
    dbBlock (view db') = disk_index m (link (rev (back_to f (q @ f))) nx) \<and> dbBest (view db') = dbBest (view db)"
  using assms(2,4)
proof (induction q arbitrary: db' c' v)
  case Nil
  then show ?case using assms(5,6) by (simp add: link_def)
next
  case (Cons x q)
  let ?p = "(x # q) @ f"
  have t: "tl ?p = q @ f" "tl ?p \<noteq> []" using assms(3) by simp_all
  have "rev (back_to f ?p) = rev (back_to f (q @ f)) @ [?p]" unfolding back_to_Cons by simp
  from connect_branch_snoc [OF Cons.prems(2) [unfolded this]] obtain db1 c1 v1 v2 where
    1: "connect_branch E B N files pool best (rev (back_to f (q @ f))) db c = (Some True, db1, c1, v1)"
    "connect_branch E B N files pool best [?p] db1 c1 = (Some True, db', c', v2)" by blast
  from 1(2) obtain b b' where b: "CBlock_ReadFromDisk_index E files ?p True = Some b"
    "ConnectBlock E B N files pool best ?p (Some (iHash (hd ?p))) False b db1 c1 = (Some (True, b'), db', c')"
    by (auto split: option.splits prod.splits bool.splits)
  have "m (iHash (hd (q @ f))) = Some (q @ f)" using tree_parent [OF assms(1) Cons.prems(1) t(2)] by (simp add: t)
  from Cons.IH [OF this 1(1)] have IH: "ledger_ok E B (fTestNet N) files (tl ?p) (dbTx (view db1))"
    "dbBlock (view db1) = disk_index m (link (rev (back_to f (q @ f))) nx)" "dbBest (view db1) = dbBest (view db)"
    by (simp_all add: t)
  have e: "entry_ok E m files ?p" using tree_entry [OF assms(1) Cons.prems(1)] by blast
  then obtain b0 where "block_at E files ?p b0" using t(2) by (auto simp: entry_ok_def)
  then obtain b1 where "CBlock_ReadFromDisk_index E files ?p True = Some b1" "vtx b1 = vtx b0"
    "block_at E files ?p b1" "entry_txs E files ?p = vtx b0" by (rule block_at_read)
  with b(1) have "block_at E files ?p b" "entry_txs E files ?p = vtx b" by simp_all
  then have B: "stored_at files (iFile (hd ?p)) (iBlockPos (hd ?p)) b" "block_fits b" "entry_txs E files ?p = vtx b"
    by (simp_all add: block_at_def)
  have l: "link (rev (back_to f ?p)) nx =
      (link (rev (back_to f (q @ f))) nx)(iHash (hd (tl ?p)) \<mapsto> iHash (hd ?p))"
    unfolding back_to_Cons using assms(3) by (simp add: link_def)
  from connect_entry [OF assms(1) Cons.prems(1) t(2) b(2) B IH(1,2)] IH(3) show ?case
    unfolding l by metis
qed

section \<open>Links\<close>

definition parents_of :: "CBlockIndex list list \<Rightarrow> uint256 set" where
  "parents_of ps = {iHash (hd (tl p)) |p. p \<in> set ps \<and> tl p \<noteq> []}"

lemma parents_of_simps [simp]:
  "parents_of [] = {}"
  "parents_of (p # ps) = (if tl p = [] then parents_of ps else insert (iHash (hd (tl p))) (parents_of ps))"
  "parents_of (rev ps) = parents_of ps"
  by (auto simp: parents_of_def)

lemma unlink_apply: "unlink ps m h = (if h \<in> parents_of ps then None else m h)"
proof (induction ps arbitrary: m)
  case (Cons p ps)
  have "unlink (p # ps) m = unlink ps (if tl p = [] then m else m(iHash (hd (tl p)) := None))"
    by (simp add: unlink_def)
  then show ?case using Cons by simp
qed (simp add: unlink_def)

lemma link_apply: "h \<notin> parents_of ps \<Longrightarrow> link ps m h = m h"
proof (induction ps arbitrary: m)
  case (Cons p ps)
  have "link (p # ps) m = link ps (if tl p = [] then m else m(iHash (hd (tl p)) \<mapsto> iHash (hd p)))"
    by (simp add: link_def)
  then show ?case using Cons by (simp split: if_splits)
qed (simp add: link_def)

lemma unlink_link:
  assumes "set ps = set qs" "\<And>h. h \<in> parents_of ps \<Longrightarrow> X h = None"
  shows "unlink ps (link qs X) = X"
proof
  fix h
  have "parents_of ps = parents_of qs" using assms(1) by (simp add: parents_of_def)
  then show "unlink ps (link qs X) h = X h" using assms(2) by (simp add: unlink_apply link_apply)
qed

lemma chain_next_append: "f \<noteq> [] \<Longrightarrow> chain_next (q @ f) = link (rev (back_to f (q @ f))) (chain_next f)"
  by (simp add: chain_next_def branch_append link_def)

lemma chain_next_step: "p \<noteq> [] \<Longrightarrow> chain_next (x # p) = (chain_next p)(iHash (hd p) \<mapsto> iHash x)"
  by (simp add: chain_next_def link_def)

lemma chain_next_dom: "chain_next p h \<noteq> None \<Longrightarrow> \<exists>q. suffix q p \<and> q \<noteq> [] \<and> q \<noteq> p \<and> h = iHash (hd q)"
proof -
  assume "chain_next p h \<noteq> None"
  then have "h \<in> parents_of (branch p)"
    using link_apply [of h "rev (branch p)" Map.empty] by (cases "h \<in> parents_of (branch p)") (auto simp: chain_next_def)
  then obtain q where q: "q \<in> set (branch p)" "tl q \<noteq> []" "h = iHash (hd (tl q))" by (auto simp: parents_of_def)
  from set_branch [OF q(1)] have "suffix q p" by blast
  then obtain r where r: "p = r @ q" by (auto simp: suffix_def)
  have "length (tl q) < length p" using q(2) r by (cases q) auto
  then have "tl q \<noteq> p" by blast
  moreover have "suffix (tl q) p" using suffix_tl \<open>suffix q p\<close> suffix_order.trans by blast
  ultimately show ?thesis using q by blast
qed

lemma chain_next_ran: "chain_next p h = Some k \<Longrightarrow> \<exists>q. suffix q p \<and> q \<noteq> [] \<and> k = iHash (hd q)"
proof (induction p)
  case (Cons x p)
  show ?case
  proof (cases "p = []")
    case True
    then show ?thesis using Cons.prems by (simp add: chain_next_def link_def)
  next
    case False
    show ?thesis
    proof (cases "h = iHash (hd p)")
      case True
      then have "k = iHash (hd (x # p))" using Cons.prems False by (simp add: chain_next_step)
      then show ?thesis by blast
    next
      case ne: False
      then have "chain_next p h = Some k" using Cons.prems False by (simp add: chain_next_step)
      then show ?thesis using Cons.IH suffix_ConsI by metis
    qed
  qed
qed (simp add: chain_next_def link_def)

lemma unlink_chain_next:
  assumes "tree_ok E m files" "m (iHash (hd (q @ f))) = Some (q @ f)" "f \<noteq> []"
  shows "unlink (back_to f (q @ f)) (chain_next (q @ f)) = chain_next f"
  unfolding chain_next_append [OF assms(3)]
proof (rule unlink_link)
  fix h assume "h \<in> parents_of (back_to f (q @ f))"
  then obtain i where i: "i < length q" "h = iHash (hd (tl (drop i (q @ f))))" "tl (drop i (q @ f)) \<noteq> []"
    unfolding back_to_append by (auto simp: parents_of_def)
  let ?a = "tl (drop i (q @ f))"
  have a: "?a = drop (Suc i) q @ f" using i(1) by (simp add: drop_Suc tl_drop)
  have sa: "m (iHash (hd ?a)) = Some ?a"
    using tree_suffix [OF assms(1,2) _ i(3)] a by (metis append_assoc append_take_drop_id suffix_def)
  show "chain_next f h = None"
  proof (rule ccontr)
    assume "chain_next f h \<noteq> None"
    from chain_next_dom [OF this] obtain z where z: "suffix z f" "z \<noteq> []" "z \<noteq> f" "h = iHash (hd z)" by blast
    then have "suffix z (q @ f)" by (auto simp: suffix_def)
    from tree_suffix [OF assms(1,2) this z(2)] have "m h = Some z" unfolding z(4) .
    moreover have "m h = Some ?a" using sa unfolding i(2) .
    ultimately have "z = ?a" by simp
    then have "length z \<ge> length f" using a by simp
    then show False using z(1,3) by (auto simp: suffix_def)
  qed
qed simp

section \<open>Failures\<close>

text \<open>What a failure may change besides the database.\<close>

definition untouched :: "node \<Rightarrow> node \<Rightarrow> bool" where
  "untouched S S' \<longleftrightarrow>
     S' = S\<lparr>txdb := txdb S', sigs_cache := sigs_cache S', bnBestInvalidWork := bnBestInvalidWork S'\<rparr>"

lemma untouched_db [simp]:
  "untouched S (S\<lparr>txdb := db\<rparr>)" "untouched S (S\<lparr>txdb := db, sigs_cache := c\<rparr>)"
  by (simp_all add: untouched_def)

lemma untouched_trans: "untouched S S' \<Longrightarrow> untouched S' S'' \<Longrightarrow> untouched S S''"
  by (cases S; cases S'; cases S'') (simp add: untouched_def)

lemma InvalidChainFound_untouched [simp]: "untouched S (InvalidChainFound p S)"
  by (simp add: InvalidChainFound_def untouched_def)

lemma same_store_invalid: "same_store s t \<Longrightarrow> same_store s (t\<lparr>dbInvalidWork := w\<rparr>)"
  by (cases s; cases t) (simp add: same_store_def)

lemma recoverable_invalid:
  "recoverable s db \<Longrightarrow> active db = None \<Longrightarrow> recoverable s (snd (WriteBestInvalidWork w db))"
  by (auto simp: recoverable_def WriteBestInvalidWork_def db_write_def same_store_invalid)

lemma InvalidChainFound_recoverable:
  "recoverable s (txdb S) \<Longrightarrow> active (txdb S) = None \<Longrightarrow> recoverable s (txdb (InvalidChainFound p S))"
  by (simp add: InvalidChainFound_def recoverable_invalid)

lemma TxnAbort_None [simp]: "active (snd (TxnAbort db)) = None"
  by (simp add: TxnAbort_def split: option.split)

lemma TxnCommit_fails: "TxnCommit db = (False, db') \<Longrightarrow> recoverable s db \<Longrightarrow> recoverable s db'"
  by (auto simp: TxnCommit_def recoverable_def same_store_def split: option.splits if_splits)

lemma in_transaction: "active db' = active db \<Longrightarrow> active db = Some s \<Longrightarrow> recoverable s db'"
  by (simp add: recoverable_def)

lemma SetBestChainInner_fails:
  assumes "SetBestChainInner E B N b p False S = (r, b', S')" "r \<noteq> Some True" "tl p \<noteq> []" "active (txdb S) = Some s"
  shows "untouched S S' \<and> recoverable s (txdb S')"
proof -
  obtain res db c where cb: "ConnectBlock E B N (blkfiles S) (mapTx (mempool S)) (nBestHeight S) p
      (Some (iHash (hd p))) False b (txdb S) (sigs_cache S) = (res, db, c)" by (metis surj_pair)
  have a: "active db = Some s"
    using ConnectBlock_active [of E B N "blkfiles S" "mapTx (mempool S)" "nBestHeight S" p "Some (iHash (hd p))"
        False b "txdb S" "sigs_cache S"] assms(4) by (simp add: cb)
  show ?thesis
  proof (cases res)
    case None
    then show ?thesis using assms(1) a by (auto simp: SetBestChainInner_def cb Let_def recoverable_def)
  next
    case (Some y)
    obtain ok b1 where y: "y = (ok, b1)" by fastforce
    obtain ok2 db2 where w: "(if ok then WriteHashBestChain (CBlock_GetHash E b) db else (False, db)) = (ok2, db2)" by fastforce
    have a2: "active db2 = Some s"
      using w a write_active(4) [of "CBlock_GetHash E b" db] by (cases ok) auto
    show ?thesis
    proof (cases ok2)
      case False
      have "recoverable s (snd (TxnAbort db2))" using a2 by (intro recoverable_abort) (simp add: recoverable_def)
      then have "recoverable s (txdb (InvalidChainFound p (S\<lparr>txdb := snd (TxnAbort db2), sigs_cache := c\<rparr>)))"
        by (intro InvalidChainFound_recoverable) simp_all
      moreover have "S' = InvalidChainFound p (S\<lparr>txdb := snd (TxnAbort db2), sigs_cache := c\<rparr>)"
        using assms(1) w False by (simp add: SetBestChainInner_def cb Some y Let_def)
      ultimately show ?thesis
        using untouched_trans [OF untouched_db(2) InvalidChainFound_untouched] by simp
    next
      case True
      obtain ok3 db3 where c3: "TxnCommit db2 = (ok3, db3)" by fastforce
      then have "\<not> ok3" using assms(1-3) w True by (auto simp: SetBestChainInner_def cb Some y Let_def split: bool.splits)
      then have "S' = S\<lparr>txdb := db3, sigs_cache := c\<rparr>"
        using assms(1) w True c3 by (simp add: SetBestChainInner_def cb Some y Let_def)
      moreover have "recoverable s db3"
        using TxnCommit_fails [of db2 db3 s] c3 \<open>\<not> ok3\<close> a2 by (simp add: recoverable_def)
      ultimately show ?thesis by simp
    qed
  qed
qed

lemma Reorganize_fails:
  assumes "Reorganize E B N p S = (r, S')" "r \<noteq> Some True" "active (txdb S) = Some s"
  shows "untouched S S' \<and> recoverable s (txdb S')"
proof (cases "find_fork (pindexBest S) p")
  case None
  then show ?thesis using assms by (auto simp: Reorganize_def recoverable_def untouched_def)
next
  case (Some f)
  let ?D = "back_to f (pindexBest S)" and ?C = "rev (back_to f p)"
  obtain ok db v where d: "disconnect_branch E (blkfiles S) ?D (txdb S) = (ok, db, v)" by (metis surj_pair)
  have a: "active db = Some s"
    using disconnect_branch_active [of E "blkfiles S" ?D "txdb S"] assms(3) by (simp add: d)
  show ?thesis
  proof (cases ok)
    case False
    then show ?thesis using assms a by (auto simp: Reorganize_def Some d Let_def recoverable_def)
  next
    case True
    obtain ok2 db2 c2 v2 where c: "connect_branch E B N (blkfiles S) (mapTx (mempool S)) (nBestHeight S) ?C db
        (sigs_cache S) = (ok2, db2, c2, v2)" by (metis surj_pair)
    have a2: "active db2 = Some s"
      using connect_branch_active [of E B N "blkfiles S" "mapTx (mempool S)" "nBestHeight S" ?C db "sigs_cache S"] a
      by (simp add: c)
    obtain ok3 db3 where w: "WriteHashBestChain (iHash (hd p)) db2 = (ok3, db3)" by fastforce
    have a3: "active db3 = Some s" using write_active(4) [of "iHash (hd p)" db2] a2 w by simp
    obtain ok4 db4 where m: "TxnCommit db3 = (ok4, db4)" by fastforce
    note eqs = Reorganize_def Some d True c w m Let_def
    show ?thesis
    proof (cases "ok2 = Some True \<and> ok3")
      case True
      then have "\<not> ok4" using assms(1,2) \<open>ok\<close> by (auto simp: eqs split: bool.splits prod.splits)
      then show ?thesis
        using assms(1) True TxnCommit_fails [of db3 db4 s] m a3 \<open>ok\<close> by (auto simp: eqs recoverable_def)
    next
      case False
      then have "S' = S\<lparr>txdb := db2, sigs_cache := c2\<rparr> \<or> S' = S\<lparr>txdb := db3, sigs_cache := c2\<rparr>"
        using assms(1) \<open>ok\<close> by (auto simp: eqs split: option.splits bool.splits)
      then show ?thesis using a2 a3 by (auto simp: recoverable_def)
    qed
  qed
qed

lemma postpone_none: "tl p \<noteq> [] \<Longrightarrow> iChainWork (hd (tl p)) \<le> w \<Longrightarrow> postpone w p = (p, [])"
  by (cases p) auto

lemma SetBestChain_fails:
  assumes "SetBestChain E B N b p True False S = (r, b', S')" "r \<noteq> Some True" "active (txdb S) = Some s"
    "tl p \<noteq> []" "iChainWork (hd (tl p)) \<le> iChainWork (hd (pindexBest S))" "pindexGenesisBlock S \<noteq> []"
    "pindexBest S \<noteq> []"
  shows "untouched S S' \<and> recoverable s (txdb S')"
proof (cases "hashPrevBlock b = hashBestChain S")
  case True
  obtain r1 b1 S1 where i: "SetBestChainInner E B N b p False S = (r1, b1, S1)" by (metis surj_pair)
  have "r1 \<noteq> Some True" "S1 = S'"
    using assms(1,2,6) True i by (auto simp: SetBestChain_def Let_def split: option.splits bool.splits)
  then show ?thesis using SetBestChainInner_fails [OF i _ assms(4,3)] by blast
next
  case False
  obtain r1 S1 where R: "Reorganize E B N p S = (r1, S1)" by fastforce
  note eqs = SetBestChain_def Let_def postpone_none [OF assms(4,5)]
  show ?thesis
  proof (cases "r1 = Some True")
    case True
    then show ?thesis using assms(1,2,6,7) False R by (auto simp: eqs)
  next
    case nt: False
    note F = Reorganize_fails [OF R nt assms(3)]
    show ?thesis
    proof (cases r1)
      case None
      then show ?thesis using assms(1,6,7) False R F by (simp add: eqs)
    next
      case (Some y)
      then have "S' = InvalidChainFound p (S1\<lparr>txdb := snd (TxnAbort (txdb S1))\<rparr>)"
        using assms(1,6,7) False R nt by (auto simp: eqs)
      moreover have "untouched S (InvalidChainFound p (S1\<lparr>txdb := snd (TxnAbort (txdb S1))\<rparr>))"
        using F untouched_trans [OF untouched_trans [OF _ untouched_db(1)] InvalidChainFound_untouched] by blast
      moreover have "recoverable s (txdb (InvalidChainFound p (S1\<lparr>txdb := snd (TxnAbort (txdb S1))\<rparr>)))"
        using F by (intro InvalidChainFound_recoverable) (simp_all add: recoverable_abort)
      ultimately show ?thesis by simp
    qed
  qed
qed

lemma TxnBegin_True: "TxnBegin db = (True, db') \<Longrightarrow> active db' = Some (view db) \<and> view db' = view db"
  by (auto simp: TxnBegin_def split: if_splits)

lemma TxnBegin_False: "TxnBegin db = (False, db') \<Longrightarrow> db' = db"
  by (auto simp: TxnBegin_def split: if_splits)

lemma write_entry_fails:
  assumes "write_entry E B N b p False S = (r, b', S')" "r \<noteq> Some True" "active (txdb S) = None"
    "tl p \<noteq> []" "iChainWork (hd (tl p)) \<le> iChainWork (hd (pindexBest S))" "pindexGenesisBlock S \<noteq> []"
    "pindexBest S \<noteq> []"
  shows "untouched S S' \<and> recoverable (view (txdb S)) (txdb S')"
proof -
  let ?s = "view (txdb S)"
  obtain ok db where t: "TxnBegin (txdb S) = (ok, db)" by fastforce
  show ?thesis
  proof (cases ok)
    case False
    then show ?thesis
      using assms(1,3) t TxnBegin_False [of "txdb S" db] by (simp add: write_entry_def recoverable_def same_store_def untouched_def)
  next
    case True
    have "TxnBegin (txdb S) = (True, db)" using t True by simp
    note db = TxnBegin_True [OF this]
    obtain ok2 db2 where w: "WriteBlockIndex E (CDiskBlockIndex_of p 0) db = (ok2, db2)" by fastforce
    have a: "active db2 = Some ?s" using write_active(3) [of E "CDiskBlockIndex_of p 0" db] db w by simp
    note eqs = write_entry_def t True w Let_def
    show ?thesis
    proof (cases ok2)
      case False
      then show ?thesis using assms(1) a by (auto simp: eqs recoverable_def)
    next
      case ok2: True
      show ?thesis
      proof (cases "iChainWork (hd p) > bnBestChainWork S")
        case True
        then have "SetBestChain E B N b p True False (S\<lparr>txdb := db2\<rparr>) = (r, b', S')"
          using assms(1) ok2 by (simp add: eqs)
        from SetBestChain_fails [OF this assms(2)] assms(4-7) a
        have "untouched (S\<lparr>txdb := db2\<rparr>) S'" "recoverable ?s (txdb S')" by simp_all
        then show ?thesis using untouched_trans [OF untouched_db(1)] by blast
      next
        case False
        obtain ok3 db3 where m: "TxnCommit db2 = (ok3, db3)" by fastforce
        then have "ok3 = False" "S' = S\<lparr>txdb := db3\<rparr>" using assms(1,2) False ok2 by (auto simp: eqs)
        then show ?thesis using TxnCommit_fails [of db2 db3 ?s] m a by (simp add: recoverable_def)
      qed
    qed
  qed
qed

section \<open>A block that is refused\<close>

lemma node_okD:
  assumes "node_ok E B T S"
  shows "tree_ok E (mapBlockIndex S) (blkfiles S)"
    "mapBlockIndex S h = Some p \<Longrightarrow> iChainWork (hd p) \<le> iChainWork (hd (pindexBest S))"
    "mapBlockIndex S (hashBestChain S) = Some (pindexBest S)"
    "mapBlockIndex S (iHash (hd (pindexGenesisBlock S))) = Some (pindexGenesisBlock S)"
    "nBestHeight S = iHeight (hd (pindexBest S))" "bnBestChainWork S = iChainWork (hd (pindexBest S))"
    "pnext S = chain_next (pindexBest S)" "active (txdb S) = None"
    "dbBest (view (txdb S)) = Some (hashBestChain S)"
    "dbBlock (view (txdb S)) = disk_index (mapBlockIndex S) (pnext S)"
    "ledger_ok E B T (blkfiles S) (pindexBest S) (dbTx (view (txdb S)))"
  using assms by (auto simp: node_ok_def)

lemma node_ok_ne:
  assumes "node_ok E B T S"
  shows "pindexBest S \<noteq> []" "pindexGenesisBlock S \<noteq> []" "iHash (hd (pindexBest S)) = hashBestChain S"
  using tree_entry [OF node_okD(1) [OF assms] node_okD(3) [OF assms]]
    tree_entry [OF node_okD(1) [OF assms] node_okD(4) [OF assms]] by blast+

lemma pnext_in_map:
  assumes "node_ok E B T S"
  shows "pnext S h \<noteq> None \<Longrightarrow> mapBlockIndex S h \<noteq> None" "pnext S h = Some k \<Longrightarrow> mapBlockIndex S k \<noteq> None"
proof -
  note t = node_okD(1) [OF assms]
  have m: "mapBlockIndex S (iHash (hd (pindexBest S))) = Some (pindexBest S)"
    using node_okD(3) [OF assms] node_ok_ne(3) [OF assms] by simp
  show "mapBlockIndex S h \<noteq> None" if "pnext S h \<noteq> None"
    using chain_next_dom [of "pindexBest S" h] that tree_suffix [OF t m] node_okD(7) [OF assms] by fastforce
  show "mapBlockIndex S k \<noteq> None" if "pnext S h = Some k"
    using chain_next_ran [of "pindexBest S" h k] that tree_suffix [OF t m] node_okD(7) [OF assms] by fastforce
qed

definition no_trace :: "node \<Rightarrow> node \<Rightarrow> bool" where
  "no_trace S S' \<longleftrightarrow>
     S' = S\<lparr>txdb := txdb S', sigs_cache := sigs_cache S', bnBestInvalidWork := bnBestInvalidWork S',
            mapWorkCache := mapWorkCache S', pblockindexFBBHLast := pblockindexFBBHLast S'\<rparr> \<and>
     active (txdb S') = None \<and> same_store (view (txdb S)) (view (txdb S'))"

lemma RollbackBlockIndexEntry_eq:
  assumes "p \<noteq> pindexBest S" "p \<noteq> pindexGenesisBlock S" "pnext S (iHash (hd p)) = None"
    "pnext S (iHash (hd (tl p))) \<noteq> Some (iHash (hd p))" "mapBlockIndex S hash = Some p"
  shows "RollbackBlockIndexEntry hash p S =
    S\<lparr>mapBlockIndex := (mapBlockIndex S)(hash := None),
      pblockindexFBBHLast := (if pblockindexFBBHLast S = p then [] else pblockindexFBBHLast S)\<rparr>"
  using assms by (cases S) (simp add: RollbackBlockIndexEntry_def rollback_entry_def Let_def)

text \<open>The state \<^verbatim>\<open>AddToBlockIndex\<close> hands on, and its entry.\<close>

lemma AddToBlockIndex_entry:
  assumes "AddToBlockIndex E B N b nFile nBlockPos None S = (r, b', T, S')" "mapBlockIndex S (CBlock_GetHash E b) = None"
    "mapBlockIndex S (hashPrevBlock b) = Some pprev" "pprev \<noteq> []"
  obtains work cache S1 r1 b1 S2 where
    "S1 = S\<lparr>mapBlockIndex := (mapBlockIndex S)(CBlock_GetHash E b \<mapsto>
        new_CBlockIndex (CBlock_GetHash E b) nFile nBlockPos (iHeight (hd pprev) + 1) (iChainWork (hd pprev) + work) b # pprev),
      mapWorkCache := cache\<rparr>"
    "GetBlockWork B (nBits b) (mapWorkCache S) = (work, cache)"
    "write_entry E B N b (new_CBlockIndex (CBlock_GetHash E b) nFile nBlockPos (iHeight (hd pprev) + 1)
        (iChainWork (hd pprev) + work) b # pprev) False S1 = (r, b1, S2)"
    "r = Some True \<Longrightarrow> S' = S2\<lparr>txdb := CTxDB_Close (txdb S2)\<rparr>"
    "r \<noteq> Some True \<Longrightarrow> S' = RollbackBlockIndexEntry (CBlock_GetHash E b)
       (new_CBlockIndex (CBlock_GetHash E b) nFile nBlockPos (iHeight (hd pprev) + 1) (iChainWork (hd pprev) + work) b # pprev)
       (S2\<lparr>txdb := CTxDB_Close (txdb S2)\<rparr>)"
proof -
  obtain work cache where w: "GetBlockWork B (nBits b) (mapWorkCache S) = (work, cache)" by fastforce
  let ?p = "new_CBlockIndex (CBlock_GetHash E b) nFile nBlockPos (iHeight (hd pprev) + 1) (iChainWork (hd pprev) + work) b # pprev"
  let ?S = "S\<lparr>mapBlockIndex := (mapBlockIndex S)(CBlock_GetHash E b \<mapsto> ?p), mapWorkCache := cache\<rparr>"
  obtain r1 b1 S2 where e: "write_entry E B N b ?p False ?S = (r1, b1, S2)" by (metis surj_pair)
  note eqs = AddToBlockIndex_def assms(2-4) w e Let_def
  have "r = r1" using assms(1) by (auto simp: eqs split: option.splits bool.splits)
  moreover have "S' = S2\<lparr>txdb := CTxDB_Close (txdb S2)\<rparr>" if "r1 = Some True"
    using assms(1) that by (simp add: eqs)
  moreover have "S' = RollbackBlockIndexEntry (CBlock_GetHash E b) ?p (S2\<lparr>txdb := CTxDB_Close (txdb S2)\<rparr>)"
    if "r1 \<noteq> Some True"
    using assms(1) that by (auto simp: eqs split: option.splits bool.splits)
  ultimately show ?thesis using e by (intro that [OF refl w]) simp_all
qed

lemma failed_block_no_trace:
  assumes "node_ok E B T S" "AddToBlockIndex E B N b nFile nBlockPos None S = (r, b', pb, S')" "r \<noteq> Some True"
    "mapBlockIndex S (hashPrevBlock b) \<noteq> None"
  shows "no_trace S S'"
proof (cases "mapBlockIndex S (CBlock_GetHash E b) = None")
  case False
  then have "S' = S" using assms(2) by (auto simp: AddToBlockIndex_def Let_def)
  then show ?thesis using node_okD(8) [OF assms(1)] by (simp add: no_trace_def same_store_def)
next
  case True
  note D = node_okD [OF assms(1)] and NE = node_ok_ne [OF assms(1)]
  let ?h = "CBlock_GetHash E b" and ?m = "mapBlockIndex S"
  obtain pprev where pp: "?m (hashPrevBlock b) = Some pprev" using assms(4) by blast
  from tree_entry [OF D(1) pp] have ne: "pprev \<noteq> []" and hp: "iHash (hd pprev) = hashPrevBlock b" by blast+
  obtain work cache S1 S2 p b1 where
    p: "p = new_CBlockIndex ?h nFile nBlockPos (iHeight (hd pprev) + 1) (iChainWork (hd pprev) + work) b # pprev" and
    S1: "S1 = S\<lparr>mapBlockIndex := ?m(?h \<mapsto> p), mapWorkCache := cache\<rparr>" and
    w: "write_entry E B N b p False S1 = (r, b1, S2)" and
    S': "S' = RollbackBlockIndexEntry ?h p (S2\<lparr>txdb := CTxDB_Close (txdb S2)\<rparr>)"
    using AddToBlockIndex_entry [OF assms(2) True pp ne] assms(3) by metis
  have tp: "tl p = pprev" "iHash (hd p) = ?h" by (simp_all add: p new_CBlockIndex_def)
  have "untouched S1 S2 \<and> recoverable (view (txdb S1)) (txdb S2)"
    by (rule write_entry_fails [OF w assms(3)]) (use D(2) [OF pp] D(8) NE ne in \<open>simp_all add: S1 tp\<close>)
  then have u: "untouched S1 S2" and r: "recoverable (view (txdb S)) (txdb S2)" by (simp_all add: S1)
  have no: "?m (iHash (hd p)) = None" using True tp by simp
  have "?m (iHash (hd (pindexBest S))) = Some (pindexBest S)" using D(3) NE(3) by simp
  then have 1: "p \<noteq> pindexBest S" "p \<noteq> pindexGenesisBlock S" using no D(4) by auto
  have 2: "pnext S (iHash (hd p)) = None" "pnext S (iHash (hd (tl p))) \<noteq> Some (iHash (hd p))"
    using pnext_in_map [OF assms(1)] no by blast+
  let ?S2 = "S2\<lparr>txdb := CTxDB_Close (txdb S2)\<rparr>"
  have f: "pindexBest ?S2 = pindexBest S" "pindexGenesisBlock ?S2 = pindexGenesisBlock S" "pnext ?S2 = pnext S"
    "mapBlockIndex ?S2 = ?m(?h \<mapsto> p)"
    using u by (cases S; cases S2; simp add: untouched_def S1)+
  have "S' = ?S2\<lparr>mapBlockIndex := ?m, pblockindexFBBHLast := (if pblockindexFBBHLast ?S2 = p then [] else pblockindexFBBHLast ?S2)\<rparr>"
    unfolding S' using RollbackBlockIndexEntry_eq [of p ?S2 ?h] 1 2 f True by (simp add: fun_upd_idem)
  then show ?thesis
    using u recoverable_Close [OF r] by (cases S; cases S2; cases S') (simp add: no_trace_def untouched_def S1)
qed

section \<open>A block that is accepted\<close>

lemma tree_extend:
  assumes "tree_ok E m files" "m (iHash (hd p)) = None" "tl p \<noteq> []" "m (iHash (hd (tl p))) = Some (tl p)"
    "iHeight (hd p) = iHeight (hd (tl p)) + 1" "CDiskBlockIndex_GetBlockHash E (CDiskBlockIndex_of p 0) = iHash (hd p)"
    "block_at E files p b" "fEnforceBIP30 (iHeight (hd p)) (Some (iHash (hd p)))"
    "\<forall>q\<in>set (branch (tl p)). entry_ids E files p \<inter> entry_ids E files q = {}"
  shows "tree_ok E (m(iHash (hd p) \<mapsto> p)) files"
  unfolding tree_ok_def
proof (intro allI impI)
  fix h q assume q: "(m(iHash (hd p) \<mapsto> p)) h = Some q"
  show "iHash (hd q) = h \<and> entry_ok E (m(iHash (hd p) \<mapsto> p)) files q"
  proof (cases "h = iHash (hd p)")
    case True
    then have "q = p" using q by simp
    moreover have "iHash (hd (tl p)) \<noteq> iHash (hd p)" using assms(2,4) by auto
    ultimately show ?thesis using assms True by (auto simp: entry_ok_def)
  next
    case False
    then have m: "m h = Some q" using q by simp
    note e = tree_entry [OF assms(1) m]
    have "iHash (hd (tl q)) \<noteq> iHash (hd p)" if "tl q \<noteq> []"
    proof -
      have "m (iHash (hd (tl q))) = Some (tl q)" using e that by (simp add: entry_ok_def)
      then show ?thesis using assms(2) by (metis option.distinct(1))
    qed
    then show ?thesis using e by (cases "tl q = []") (auto simp: entry_ok_def)
  qed
qed

lemma WriteHashBestChain_True:
  "WriteHashBestChain h db = (True, db') \<Longrightarrow> view db' = (view db)\<lparr>dbBest := Some h\<rparr> \<and> active db' = active db"
  by (auto simp: WriteHashBestChain_def db_write_def split: if_splits)

lemma TxnCommit_True: "TxnCommit db = (True, db') \<Longrightarrow> view db' = view db \<and> active db' = None"
  by (auto simp: TxnCommit_def split: option.splits if_splits)

lemma Inner_ok:
  assumes "SetBestChainInner E B N b p False S = (Some True, b', S')"
  obtains b1 db1 c db2 M where
    "ConnectBlock E B N (blkfiles S) (mapTx (mempool S)) (nBestHeight S) p (Some (iHash (hd p))) False b (txdb S)
       (sigs_cache S) = (Some (True, b1), db1, c)"
    "view db2 = (view db1)\<lparr>dbBest := Some (CBlock_GetHash E b)\<rparr>" "active db2 = None"
    "S' = S\<lparr>txdb := db2, sigs_cache := c, pnext := (pnext S)(iHash (hd (tl p)) \<mapsto> iHash (hd p)), mempool := M\<rparr>"
proof -
  obtain res db c where cb: "ConnectBlock E B N (blkfiles S) (mapTx (mempool S)) (nBestHeight S) p
      (Some (iHash (hd p))) False b (txdb S) (sigs_cache S) = (res, db, c)" by (metis surj_pair)
  from assms obtain b1 where res: "res = Some (True, b1)"
    by (auto simp: SetBestChainInner_def cb Let_def split: option.splits prod.splits if_splits)
  obtain ok1 db1 where w: "WriteHashBestChain (CBlock_GetHash E b) db = (ok1, db1)" by fastforce
  obtain ok2 db2 where m: "TxnCommit db1 = (ok2, db2)" by fastforce
  note eqs = SetBestChainInner_def cb res w m Let_def
  have ok: "ok1" "ok2" "tl p \<noteq> []" using assms by (auto simp: eqs split: bool.splits if_splits)
  have "S' = S\<lparr>txdb := db2, sigs_cache := c, pnext := (pnext S)(iHash (hd (tl p)) \<mapsto> iHash (hd p)),
      mempool := fold (pool_remove E) (vtx b1) (mempool S)\<rparr>"
    using assms ok by (auto simp: eqs)
  moreover have "view db2 = (view db)\<lparr>dbBest := Some (CBlock_GetHash E b)\<rparr>" "active db2 = None"
    using WriteHashBestChain_True [of "CBlock_GetHash E b" db db1] TxnCommit_True [of db1 db2] w m ok by simp_all
  ultimately show ?thesis using that cb res by blast
qed

lemma Reorganize_ok:
  assumes "Reorganize E B N p S = (Some True, S')"
  obtains f db1 v1 db2 c2 v2 db3 c M where
    "find_fork (pindexBest S) p = Some f"
    "disconnect_branch E (blkfiles S) (back_to f (pindexBest S)) (txdb S) = (True, db1, v1)"
    "connect_branch E B N (blkfiles S) (mapTx (mempool S)) (nBestHeight S) (rev (back_to f p)) db1 (sigs_cache S) =
       (Some True, db2, c2, v2)"
    "view db3 = (view db2)\<lparr>dbBest := Some (iHash (hd p))\<rparr>" "active db3 = None"
    "S' = S\<lparr>txdb := db3, sigs_cache := c,
      pnext := link (rev (back_to f p)) (unlink (back_to f (pindexBest S)) (pnext S)), mempool := M\<rparr>"
proof -
  obtain f where f: "find_fork (pindexBest S) p = Some f"
    using assms by (auto simp: Reorganize_def split: option.splits)
  let ?D = "back_to f (pindexBest S)" and ?C = "rev (back_to f p)"
  obtain ok db v where d: "disconnect_branch E (blkfiles S) ?D (txdb S) = (ok, db, v)" by (metis surj_pair)
  obtain ok2 db2 c2 v2 where c: "connect_branch E B N (blkfiles S) (mapTx (mempool S)) (nBestHeight S) ?C db
      (sigs_cache S) = (ok2, db2, c2, v2)" by (metis surj_pair)
  obtain ok3 db3 where w: "WriteHashBestChain (iHash (hd p)) db2 = (ok3, db3)" by fastforce
  obtain ok4 db4 where m: "TxnCommit db3 = (ok4, db4)" by fastforce
  obtain P c3 where r: "resurrect E N (blkfiles S) db4 (pindexBest S) (nBestHeight S) v (mempool S) c2 = (P, c3)" by fastforce
  note eqs = Reorganize_def f d c w m r Let_def
  have ok: "ok" "ok2 = Some True" "ok3" "ok4"
    using assms by (auto simp: eqs split: bool.splits option.splits)
  have S': "S' = S\<lparr>txdb := db4, sigs_cache := c3, pnext := link ?C (unlink ?D (pnext S)),
      mempool := fold (pool_remove E) v2 P\<rparr>"
    using assms ok by (simp add: eqs)
  have v4: "view db4 = (view db2)\<lparr>dbBest := Some (iHash (hd p))\<rparr>" "active db4 = None"
    using WriteHashBestChain_True [of "iHash (hd p)" db2 db3] TxnCommit_True [of db3 db4] w m ok by simp_all
  have d': "disconnect_branch E (blkfiles S) ?D (txdb S) = (True, db, v)" using d ok by simp
  have c': "connect_branch E B N (blkfiles S) (mapTx (mempool S)) (nBestHeight S) ?C db (sigs_cache S) =
      (Some True, db2, c2, v2)" using c ok by simp
  show ?thesis by (rule that [OF f d' c' v4 S'])
qed

lemma IsInitialBlockDownload_eq: "\<exists>l t. snd (IsInitialBlockDownload N S) = S\<lparr>pindexLastBest := l, nLastUpdate := t\<rparr>"
proof -
  let ?S = "if pindexBest S \<noteq> pindexLastBest S then S\<lparr>pindexLastBest := pindexBest S, nLastUpdate := GetTime N\<rparr> else S"
  have "snd (IsInitialBlockDownload N S) = S \<or> snd (IsInitialBlockDownload N S) = ?S"
    by (simp add: IsInitialBlockDownload_def Let_def)
  moreover have "S = S\<lparr>pindexLastBest := pindexLastBest S, nLastUpdate := nLastUpdate S\<rparr>" by simp
  ultimately show ?thesis by metis
qed

lemma SetBestChain_ok:
  assumes "SetBestChain E B N b p True False S = (Some True, b', S')"
    "tl p \<noteq> []" "iChainWork (hd (tl p)) \<le> iChainWork (hd (pindexBest S))" "pindexGenesisBlock S \<noteq> []" "pindexBest S \<noteq> []"
  obtains S1 where
    "hashPrevBlock b = hashBestChain S \<and> (\<exists>b1. SetBestChainInner E B N b p False S = (Some True, b1, S1)) \<or>
     hashPrevBlock b \<noteq> hashBestChain S \<and> Reorganize E B N p S = (Some True, S1)"
    "mapBlockIndex S' = mapBlockIndex S1" "pnext S' = pnext S1" "pindexGenesisBlock S' = pindexGenesisBlock S1"
    "blkfiles S' = blkfiles S1" "txdb S' = txdb S1"
    "pindexBest S' = p" "hashBestChain S' = CBlock_GetHash E b" "nBestHeight S' = iHeight (hd p)"
    "bnBestChainWork S' = iChainWork (hd p)"
proof -
  let ?fin = "\<lambda>S. (snd (IsInitialBlockDownload N S))\<lparr>hashBestChain := CBlock_GetHash E b, pindexBest := p,
      pblockindexFBBHLast := [], nBestHeight := iHeight (hd p), bnBestChainWork := iChainWork (hd p),
      nTimeBestReceived := GetTime N,
      mempool := (mempool (snd (IsInitialBlockDownload N S)))\<lparr>nTransactionsUpdated :=
        nTransactionsUpdated (mempool (snd (IsInitialBlockDownload N S))) + 1\<rparr>\<rparr>"
  have S: "S\<lparr>txdb := txdb S\<rparr> = S" by simp
  have "\<exists>S1. (hashPrevBlock b = hashBestChain S \<and> (\<exists>b1. SetBestChainInner E B N b p False S = (Some True, b1, S1)) \<or>
     hashPrevBlock b \<noteq> hashBestChain S \<and> Reorganize E B N p S = (Some True, S1)) \<and> S' = ?fin S1"
  proof (cases "hashPrevBlock b = hashBestChain S")
    case True
    obtain r1 b1 S1 where i: "SetBestChainInner E B N b p False S = (r1, b1, S1)" by (metis surj_pair)
    have "r1 = Some True" "S' = ?fin S1"
      using assms(1,4) True i by (auto simp: SetBestChain_def Let_def S split: option.splits bool.splits)
    then show ?thesis using True i by blast
  next
    case False
    obtain r1 S1 where R: "Reorganize E B N p S = (r1, S1)" by fastforce
    have "r1 = Some True" "S' = ?fin S1"
      using assms(1,4,5) False R
      by (auto simp: SetBestChain_def Let_def S postpone_none [OF assms(2,3)] split: option.splits bool.splits)
    then show ?thesis using False R by blast
  qed
  then obtain S1 where s: "hashPrevBlock b = hashBestChain S \<and> (\<exists>b1. SetBestChainInner E B N b p False S = (Some True, b1, S1)) \<or>
     hashPrevBlock b \<noteq> hashBestChain S \<and> Reorganize E B N p S = (Some True, S1)" and S': "S' = ?fin S1" by blast
  obtain l t where i: "snd (IsInitialBlockDownload N S1) = S1\<lparr>pindexLastBest := l, nLastUpdate := t\<rparr>"
    using IsInitialBlockDownload_eq by blast
  show ?thesis by (rule that [OF s]) (simp_all add: S' i)
qed

lemma disk_index_new: "nx h = None \<Longrightarrow> (disk_index m nx)(h \<mapsto> CDiskBlockIndex_of p 0) = disk_index (m(h \<mapsto> p)) nx"
  by (auto simp: disk_index_def fun_eq_iff)

lemma suffixE': "suffix f p \<Longrightarrow> \<exists>q. p = q @ f"
  by (simp add: suffix_def)

lemma reorganised:
  assumes "tree_ok E m files" "m (iHash (hd a)) = Some a" "m (iHash (hd p)) = Some p" "a \<noteq> []"
    "find_fork a p = Some f"
    "disconnect_branch E files (back_to f a) db = (True, db1, v1)"
    "connect_branch E B N files pool best (rev (back_to f p)) db1 c = (Some True, db2, c2, v2)"
    "ledger_ok E B (fTestNet N) files a (dbTx (view db))" "dbBlock (view db) = disk_index m (chain_next a)"
  shows "ledger_ok E B (fTestNet N) files p (dbTx (view db2))" "dbBlock (view db2) = disk_index m (chain_next p)"
    "link (rev (back_to f p)) (unlink (back_to f a) (chain_next a)) = chain_next p"
proof -
  from find_fork_suffix [OF assms(5,4)] obtain qa qp where
    a: "a = qa @ f" and p: "p = qp @ f" and f: "f \<noteq> []" by (auto simp: suffix_def)
  have m: "m (iHash (hd (qa @ f))) = Some (qa @ f)" "m (iHash (hd (qp @ f))) = Some (qp @ f)"
    using assms(2,3) a p by simp_all
  note D = disconnect_branch_ledger [OF assms(1) m(1) f assms(6,8,9) [unfolded a]]
  have u: "unlink (back_to f (qa @ f)) (chain_next (qa @ f)) = chain_next f"
    by (rule unlink_chain_next [OF assms(1) m(1) f])
  have "ledger_ok E B (fTestNet N) files f (dbTx (view db1))" "dbBlock (view db1) = disk_index m (chain_next f)"
    using D u by simp_all
  note C = connect_branch_ledger [OF assms(1) m(2) f assms(7) [unfolded p] this]
  show "ledger_ok E B (fTestNet N) files p (dbTx (view db2))" "dbBlock (view db2) = disk_index m (chain_next p)"
    using C by (simp_all add: p chain_next_append [OF f])
  show "link (rev (back_to f p)) (unlink (back_to f a) (chain_next a)) = chain_next p"
    unfolding a p u by (rule chain_next_append [OF f, symmetric])
qed

lemma write_entry_ok:
  assumes "node_ok E B (fTestNet N) S0" "S = S0\<lparr>mapBlockIndex := m, mapWorkCache := cache\<rparr>"
    "m = (mapBlockIndex S0)(iHash (hd p) \<mapsto> p)" "mapBlockIndex S0 (iHash (hd p)) = None" "tree_ok E m (blkfiles S0)"
    "tl p \<noteq> []" "mapBlockIndex S0 (iHash (hd (tl p))) = Some (tl p)" "hashPrevBlock b = iHash (hd (tl p))"
    "block_at E (blkfiles S0) p b" "write_entry E B N b p False S = (Some True, b', S')"
  shows "node_ok E B (fTestNet N) S' \<and> mapBlockIndex S' = m \<and> blkfiles S' = blkfiles S0"
proof -
  note D = node_okD [OF assms(1)] and NE = node_ok_ne [OF assms(1)]
  have pne: "p \<noteq> []" using assms(6) by auto
  have mp: "m (iHash (hd p)) = Some p" by (simp add: assms(3))
  have tip0: "mapBlockIndex S0 (iHash (hd (pindexBest S0))) = Some (pindexBest S0)" using D(3) NE(3) by simp
  have keep: "m h = Some q" if "mapBlockIndex S0 h = Some q" for h q using that assms(3,4) by auto
  have hp: "CBlock_GetHash E b = iHash (hd p)" using assms(9) by (simp add: block_at_def)
  obtain ok1 db1 where t: "TxnBegin (txdb S) = (ok1, db1)" by fastforce
  obtain ok2 db2 where w: "WriteBlockIndex E (CDiskBlockIndex_of p 0) db1 = (ok2, db2)" by fastforce
  have ok: "ok1" "ok2" using assms(10) by (auto simp: write_entry_def t w split: bool.splits)
  have v1: "view db1 = view (txdb S0)" using TxnBegin_True [of "txdb S" db1] t ok by (simp add: assms(2))
  have "CDiskBlockIndex_GetBlockHash E (CDiskBlockIndex_of p 0) = iHash (hd p)"
    using tree_entry [OF assms(5) mp] by (simp add: entry_ok_def)
  then have v2: "view db2 = (view db1)\<lparr>dbBlock := (dbBlock (view db1))(iHash (hd p) \<mapsto> CDiskBlockIndex_of p 0)\<rparr>"
    using w ok by (auto simp: WriteBlockIndex_def db_write_def split: if_splits)
  have pn: "pnext S0 (iHash (hd p)) = None" using pnext_in_map(1) [OF assms(1)] assms(4) by blast
  have disk: "dbBlock (view db2) = disk_index m (chain_next (pindexBest S0))"
    using disk_index_new [where nx = "pnext S0" and h = "iHash (hd p)" and m = "mapBlockIndex S0" and p = p, OF pn] D(7,10) by (simp add: v2 v1 assms(3))
  have led: "ledger_ok E B (fTestNet N) (blkfiles S0) (pindexBest S0) (dbTx (view db2))"
    "dbBest (view db2) = Some (hashBestChain S0)" using D(9,11) by (simp_all add: v2 v1)
  let ?S = "S\<lparr>txdb := db2\<rparr>"
  have bw: "bnBestChainWork S = bnBestChainWork S0" by (simp add: assms(2))
  show ?thesis
  proof (cases "iChainWork (hd p) > bnBestChainWork S0")
    case False
    obtain ok3 db3 where c: "TxnCommit db2 = (ok3, db3)" by fastforce
    have "ok3" "S' = S\<lparr>txdb := db3\<rparr>"
      using assms(10) False ok by (auto simp: write_entry_def t w c bw Let_def)
    moreover have "view db3 = view db2" "active db3 = None" using TxnCommit_True [of db2 db3] c \<open>ok3\<close> by simp_all
    moreover have "iChainWork (hd q) \<le> iChainWork (hd (pindexBest S0))" if "m h = Some q" for h q
      using that D(2) [of h q] False D(6) by (auto simp: assms(3) split: if_splits)
    ultimately show ?thesis
      using assms(5) D disk led keep [OF D(3)] keep [OF D(4)]
      unfolding node_ok_def by (simp add: assms(2))
  next
    case True
    have s: "SetBestChain E B N b p True False ?S = (Some True, b', S')"
      using assms(10) True ok by (simp add: write_entry_def t w bw Let_def)
    have "iChainWork (hd (tl p)) \<le> iChainWork (hd (pindexBest ?S))" using D(2) [OF assms(7)] by (simp add: assms(2))
    from SetBestChain_ok [OF s assms(6) this] NE obtain S1 where
      how: "hashPrevBlock b = hashBestChain ?S \<and> (\<exists>b1. SetBestChainInner E B N b p False ?S = (Some True, b1, S1)) \<or>
        hashPrevBlock b \<noteq> hashBestChain ?S \<and> Reorganize E B N p ?S = (Some True, S1)" and
      f: "mapBlockIndex S' = mapBlockIndex S1" "pnext S' = pnext S1" "pindexGenesisBlock S' = pindexGenesisBlock S1"
        "blkfiles S' = blkfiles S1" "txdb S' = txdb S1"
        "pindexBest S' = p" "hashBestChain S' = CBlock_GetHash E b" "nBestHeight S' = iHeight (hd p)"
        "bnBestChainWork S' = iChainWork (hd p)" by (auto simp: assms(2))
    have core: "mapBlockIndex S1 = m \<and> pnext S1 = chain_next p \<and> pindexGenesisBlock S1 = pindexGenesisBlock S0 \<and>
      blkfiles S1 = blkfiles S0 \<and> active (txdb S1) = None \<and> dbBest (view (txdb S1)) = Some (iHash (hd p)) \<and>
      dbBlock (view (txdb S1)) = disk_index m (chain_next p) \<and>
      ledger_ok E B (fTestNet N) (blkfiles S0) p (dbTx (view (txdb S1)))"
      using how
    proof (elim disjE conjE exE)
      fix b1
      assume h: "hashPrevBlock b = hashBestChain ?S" and i: "SetBestChainInner E B N b p False ?S = (Some True, b1, S1)"
      have tp: "tl p = pindexBest S0" using h assms(7,8) D(3) by (simp add: assms(2))
      obtain b2 db3 c db4 M where
        cb: "ConnectBlock E B N (blkfiles S0) (mapTx (mempool ?S)) (nBestHeight ?S) p (Some (iHash (hd p))) False b db2
          (sigs_cache ?S) = (Some (True, b2), db3, c)" and
        v4: "view db4 = (view db3)\<lparr>dbBest := Some (CBlock_GetHash E b)\<rparr>" "active db4 = None" and
        S1: "S1 = ?S\<lparr>txdb := db4, sigs_cache := c, pnext := (pnext ?S)(iHash (hd (tl p)) \<mapsto> iHash (hd p)), mempool := M\<rparr>"
        by (rule Inner_ok [OF i]) (auto simp: assms(2))
      have B: "stored_at (blkfiles S0) (iFile (hd p)) (iBlockPos (hd p)) b" "block_fits b"
        "entry_txs E (blkfiles S0) p = vtx b"
        using assms(9) block_at_read [OF assms(9)] by (auto simp: block_at_def)
      have "ledger_ok E B (fTestNet N) (blkfiles S0) (tl p) (dbTx (view db2))" using led(1) tp by simp
      note C = connect_entry [OF assms(5) mp assms(6) cb B this disk]
      have "chain_next p = (chain_next (pindexBest S0))(iHash (hd (tl p)) \<mapsto> iHash (hd p))"
        using chain_next_step [of "tl p" "hd p"] assms(6) pne tp by (metis list.collapse)
      then show ?thesis using C v4 D(7) hp by (simp add: S1 assms(2))
    next
      assume i: "Reorganize E B N p ?S = (Some True, S1)"
      obtain f db3 v3 db4 c4 v4 db5 c M where
        R: "find_fork (pindexBest S0) p = Some f"
          "disconnect_branch E (blkfiles S0) (back_to f (pindexBest S0)) db2 = (True, db3, v3)"
          "connect_branch E B N (blkfiles S0) (mapTx (mempool ?S)) (nBestHeight ?S) (rev (back_to f p)) db3 (sigs_cache ?S) =
             (Some True, db4, c4, v4)" and
        v5: "view db5 = (view db4)\<lparr>dbBest := Some (iHash (hd p))\<rparr>" "active db5 = None" and
        S1: "S1 = ?S\<lparr>txdb := db5, sigs_cache := c,
          pnext := link (rev (back_to f p)) (unlink (back_to f (pindexBest S0)) (chain_next (pindexBest S0))), mempool := M\<rparr>"
        by (rule Reorganize_ok [OF i]) (auto simp: assms(2) D(7))
      note G = reorganised [OF assms(5) keep [OF tip0] mp NE(1) R led(1) disk]
      show ?thesis using G v5 by (simp add: S1 assms(2))
    qed
    have "iChainWork (hd q) \<le> iChainWork (hd p)" if "m h = Some q" for h q
      using that D(2) [of h q] True D(6) by (auto simp: assms(3) split: if_splits)
    then show ?thesis
      using core assms(5) mp keep [OF D(4)] unfolding node_ok_def by (simp add: f hp)
  qed
qed

lemma Close_None: "active db = None \<Longrightarrow> CTxDB_Close db = db"
  by (simp add: CTxDB_Close_def TxnAbort_def)

text \<open>No transaction of the block has the identifier of one in a block below it.\<close>

definition fresh_ids :: "ext \<Rightarrow> files \<Rightarrow> CBlock \<Rightarrow> CBlockIndex list \<Rightarrow> bool" where
  "fresh_ids E files b pprev \<longleftrightarrow>
     list_all (\<lambda>tx. list_all (\<lambda>q. GetHash E tx \<notin> entry_ids E files q) (branch pprev)) (vtx b)"

lemma AddToBlockIndex_ok:
  assumes "node_ok E B (fTestNet N) S" "AddToBlockIndex E B N b nFile nBlockPos None S = (Some True, b', pb, S')"
    "mapBlockIndex S (hashPrevBlock b) = Some pprev" "stored_at (blkfiles S) nFile nBlockPos b" "block_fits b"
    "fEnforceBIP30 (iHeight (hd pprev) + 1) (Some (CBlock_GetHash E b))" "fresh_ids E (blkfiles S) b pprev"
  shows "node_ok E B (fTestNet N) S' \<and> blkfiles S' = blkfiles S \<and>
    (\<exists>p. mapBlockIndex S' = (mapBlockIndex S)(CBlock_GetHash E b \<mapsto> p) \<and> tl p = pprev \<and>
      iHash (hd p) = CBlock_GetHash E b \<and> entry_txs E (blkfiles S) p = vtx b)"
proof -
  note D = node_okD [OF assms(1)]
  let ?h = "CBlock_GetHash E b" and ?m = "mapBlockIndex S"
  have no: "?m ?h = None" using assms(2) by (auto simp: AddToBlockIndex_def Let_def split: if_splits)
  from tree_entry [OF D(1) assms(3)] have ne: "pprev \<noteq> []" and hp: "iHash (hd pprev) = hashPrevBlock b" by blast+
  obtain work cache S1 S2 p b1 where
    p: "p = new_CBlockIndex ?h nFile nBlockPos (iHeight (hd pprev) + 1) (iChainWork (hd pprev) + work) b # pprev" and
    S1: "S1 = S\<lparr>mapBlockIndex := ?m(?h \<mapsto> p), mapWorkCache := cache\<rparr>" and
    w: "write_entry E B N b p False S1 = (Some True, b1, S2)" and
    S': "S' = S2\<lparr>txdb := CTxDB_Close (txdb S2)\<rparr>"
    using AddToBlockIndex_entry [OF assms(2) no assms(3) ne] by metis
  have tp: "tl p = pprev" "iHash (hd p) = ?h" "iHeight (hd p) = iHeight (hd pprev) + 1"
    by (simp_all add: p new_CBlockIndex_def)
  have at: "block_at E (blkfiles S) p b"
    using assms(4,5) by (simp add: block_at_def p new_CBlockIndex_def)
  have gh: "CDiskBlockIndex_GetBlockHash E (CDiskBlockIndex_of p 0) = iHash (hd p)"
    using hp ne by (simp add: CDiskBlockIndex_GetBlockHash_def CDiskBlockIndex_of_def CBlockIndex.defs
        CDiskBlockIndex.defs p new_CBlockIndex_def CBlock_GetHash_def block_header_def)
  have txs: "entry_txs E (blkfiles S) p = vtx b" using block_at_read [OF at] by auto
  have fresh: "\<forall>q\<in>set (branch (tl p)). entry_ids E (blkfiles S) p \<inter> entry_ids E (blkfiles S) q = {}"
    using assms(7) by (auto simp: fresh_ids_def list_all_iff tp entry_ids_def [of E "blkfiles S" p] txs)
  have tree: "tree_ok E (?m(iHash (hd p) \<mapsto> p)) (blkfiles S)"
    by (rule tree_extend [OF D(1) _ _ _ _ gh at _ fresh]) (use no ne assms(3,6) hp in \<open>simp_all add: tp\<close>)
  have "node_ok E B (fTestNet N) S2 \<and> mapBlockIndex S2 = ?m(iHash (hd p) \<mapsto> p) \<and> blkfiles S2 = blkfiles S"
    by (rule write_entry_ok [OF assms(1) _ refl _ tree _ _ _ at w]) (use no ne assms(3) hp in \<open>simp_all add: S1 tp\<close>)
  moreover from this have "S' = S2" using Close_None node_okD(8) by (metis S' node.surjective node.update_convs(17))
  ultimately show ?thesis using txs tp by (intro conjI exI [of _ p]) simp_all
qed

lemma node_ok_cong:
  assumes "mapBlockIndex S' = mapBlockIndex S" "pnext S' = pnext S" "pindexGenesisBlock S' = pindexGenesisBlock S"
    "pindexBest S' = pindexBest S" "hashBestChain S' = hashBestChain S" "nBestHeight S' = nBestHeight S"
    "bnBestChainWork S' = bnBestChainWork S" "blkfiles S' = blkfiles S" "active (txdb S') = active (txdb S)"
    "same_store (view (txdb S)) (view (txdb S'))" "node_ok E B T S"
  shows "node_ok E B T S'"
proof -
  have "dbTx (view (txdb S')) = dbTx (view (txdb S))" "dbBlock (view (txdb S')) = dbBlock (view (txdb S))"
    "dbBest (view (txdb S')) = dbBest (view (txdb S))"
    using assms(10) by (cases "view (txdb S)"; cases "view (txdb S')"; simp add: same_store_def)+
  then show ?thesis using assms unfolding node_ok_def by simp
qed

lemma no_trace_ok: "node_ok E B T S \<Longrightarrow> no_trace S S' \<Longrightarrow> node_ok E B T S'"
proof (rule node_ok_cong)
  assume "node_ok E B T S" "no_trace S S'"
  then show "active (txdb S') = active (txdb S)" "same_store (view (txdb S)) (view (txdb S'))"
    by (simp_all add: no_trace_def node_ok_def)
qed (cases S; cases S'; simp add: no_trace_def)+

text \<open>Growing block files change nothing.\<close>

lemma tree_grows:
  assumes "tree_ok E m files" "grows files files'"
  shows "tree_ok E m files'"
  unfolding tree_ok_def
proof (intro allI impI)
  fix h p assume m: "m h = Some p"
  note e = tree_entry [OF assms(1) m]
  have mp: "m (iHash (hd p)) = Some p" using m e by simp
  have same: "entry_ids E files' q = entry_ids E files q" if q: "suffix q p" "q \<noteq> []" "tl q \<noteq> []" for q
  proof -
    have "entry_ok E m files q" using tree_entry [OF assms(1) tree_suffix [OF assms(1) mp q(1,2)]] by blast
    then obtain b where "block_at E files q b" using q(3) by (auto simp: entry_ok_def)
    from entry_txs_grows [OF this assms(2)] show ?thesis by (simp add: entry_ids_def)
  qed
  show "iHash (hd p) = h \<and> entry_ok E m files' p"
  proof (cases "tl p = []")
    case True
    then show ?thesis using e by (simp add: entry_ok_def)
  next
    case False
    obtain b where "block_at E files p b" using e False by (auto simp: entry_ok_def)
    from block_at_grows [OF this assms(2)] have "\<exists>b. block_at E files' p b" by blast
    moreover have "entry_ids E files' q = entry_ids E files q" if "q \<in> set (branch (tl p))" for q
      using set_branch [OF that] suffix_tl [of p] same [of q] by (metis list.sel(2) suffix_order.trans)
    moreover have "entry_ids E files' p = entry_ids E files p" using same [of p] e False by simp
    ultimately show ?thesis using e False unfolding entry_ok_def by auto
  qed
qed

lemma node_ok_grows:
  assumes "node_ok E B T S" "grows (blkfiles S) files"
  shows "node_ok E B T (S\<lparr>blkfiles := files, nCurrentBlockFile := n\<rparr>)"
proof -
  note D = node_okD [OF assms(1)] and NE = node_ok_ne [OF assms(1)]
  have mp: "mapBlockIndex S (iHash (hd (pindexBest S))) = Some (pindexBest S)" using D(3) NE(3) by simp
  have "entry_txs E files q = entry_txs E (blkfiles S) q" if q: "q \<in> set (branch (pindexBest S))" for q
  proof -
    have s: "suffix q (pindexBest S)" "tl q \<noteq> []" "q \<noteq> []" using set_branch [OF q] by auto
    have "entry_ok E (mapBlockIndex S) (blkfiles S) q"
      using tree_entry [OF D(1) tree_suffix [OF D(1) mp s(1,3)]] by blast
    then obtain b where "block_at E (blkfiles S) q b" using s(2) by (auto simp: entry_ok_def)
    from entry_txs_grows [OF this assms(2)] show ?thesis .
  qed
  then have "map (entry_txs E files) (branch (pindexBest S)) = map (entry_txs E (blkfiles S)) (branch (pindexBest S))"
    by simp
  moreover obtain bs where "map vtx bs = map (entry_txs E (blkfiles S)) (branch (pindexBest S))"
    "straight E B T (blkfiles S) bs (dbTx (view (txdb S)))" using D(11) by (auto simp: ledger_ok_def)
  ultimately have "ledger_ok E B T files (pindexBest S) (dbTx (view (txdb S)))"
    using straight.store [OF _ assms(2)] unfolding ledger_ok_def by metis
  then show ?thesis using assms(1) tree_grows [OF D(1) assms(2)] by (simp add: node_ok_def)
qed

end
