(* ===== verification/TextCode.thy ===== *)
theory TextCode
  imports BaseUint Transaction
begin

text \<open>
  The text codes of \<^verbatim>\<open>util.cpp\<close> and \<^verbatim>\<open>util.h\<close>: hexadecimal bytes, amounts of money, base 64 and base 32,
  wildcards, and trimming. A C string is read up to its first null character. The lemmas are the round
  trips: what the printing functions write, the reading functions read.
\<close>

section \<open>Hexadecimal bytes\<close>

text \<open>The table \<^verbatim>\<open>phexdigit\<close> of this file has -1 for other characters.\<close>

definition hexvalue :: "char \<Rightarrow> int" where
  "hexvalue c =
     (let n = of_char c :: int in
      if 48 \<le> n \<and> n \<le> 57 then n - 48
      else if 65 \<le> n \<and> n \<le> 70 then n - 55
      else if 97 \<le> n \<and> n \<le> 102 then n - 87
      else - 1)"

definition IsHex :: "string \<Rightarrow> bool" where
  "IsHex str =
     (if list_ex (\<lambda>c. hexvalue c < 0) str then False
      else length str > 0 \<and> length str mod 2 = 0)"

lemma length_dropWhile_less: "dropWhile P s = a # r \<Longrightarrow> length r < length s"
  using length_dropWhile_le [of P s] by simp

text \<open>The null character at the end has no value, so it ends the loop.\<close>

function ParseHex_loop :: "string \<Rightarrow> bytes" where
  "ParseHex_loop psz =
     (case dropWhile isspace psz of
        [] \<Rightarrow> []
      | [c] \<Rightarrow> []
      | c # d # r \<Rightarrow>
          if hexvalue c = - 1 then []
          else
            let n = word_of_int (hexvalue c * 16) :: byte
            in if hexvalue d = - 1 then [] else (n OR word_of_int (hexvalue d)) # ParseHex_loop r)"
  by pat_completeness auto

termination
  by (relation "measure length") (auto dest!: sym [of _ "dropWhile _ _"] dest: length_dropWhile_less)

declare ParseHex_loop.simps [simp del]

definition ParseHex :: "string \<Rightarrow> bytes" where
  "ParseHex str = ParseHex_loop (c_str str)"

fun HexStr :: "bool \<Rightarrow> bytes \<Rightarrow> string" where
  "HexStr fSpaces [] = []"
| "HexStr fSpaces [b] = hex2 b"
| "HexStr fSpaces (b # c # r) = hex2 b @ (if fSpaces then '' '' else []) @ HexStr fSpaces (c # r)"

section \<open>Trimming and splitting\<close>

definition tolower :: "char \<Rightarrow> char" where
  "tolower c = (let n = of_char c :: nat in if 65 \<le> n \<and> n \<le> 90 then char_of (n + 32) else c)"

definition StartsWithNoCase :: "string \<Rightarrow> string \<Rightarrow> bool" where
  "StartsWithNoCase str pre =
     (if length str < length pre then False
      else list_all (\<lambda>i. tolower (str ! i) = tolower (pre ! i)) [0..<length pre])"

text \<open>The set of characters is that of \<^verbatim>\<open>isspace\<close>.\<close>

definition TrimWhitespace :: "string \<Rightarrow> string" where
  "TrimWhitespace str =
     (if list_all isspace str then []
      else rev (dropWhile isspace (rev (dropWhile isspace str))))"

definition ToLowerCase :: "string \<Rightarrow> string" where
  "ToLowerCase str = map tolower str"

function ParseString_loop :: "char \<Rightarrow> string \<Rightarrow> string list" where
  "ParseString_loop c s =
     (case dropWhile (\<lambda>x. x \<noteq> c) s of
        [] \<Rightarrow> [s]
      | x # r \<Rightarrow> takeWhile (\<lambda>x. x \<noteq> c) s # ParseString_loop c r)"
  by pat_completeness auto

termination
  by (relation "measure (\<lambda>(c, s). length s)") (auto dest!: sym [of _ "dropWhile _ _"] dest: length_dropWhile_less)

declare ParseString_loop.simps [simp del]

definition ParseString :: "string \<Rightarrow> char \<Rightarrow> string list" where
  "ParseString str c = (if str = [] then [] else ParseString_loop c str)"

section \<open>Amounts\<close>

definition isdigit :: "char \<Rightarrow> bool" where
  "isdigit c \<longleftrightarrow> 48 \<le> (of_char c :: nat) \<and> (of_char c :: nat) \<le> 57"

definition digit :: "nat \<Rightarrow> char" where
  "digit n = char_of (48 + n)"

text \<open>\<^verbatim>\<open>%d\<close> of a number that is not negative, and \<^verbatim>\<open>%08d\<close>.\<close>

fun decimal :: "nat \<Rightarrow> string" where
  "decimal n = (if n < 10 then [digit n] else decimal (n div 10) @ [digit (n mod 10)])"

declare decimal.simps [simp del]

definition decimal_padded :: "nat \<Rightarrow> nat \<Rightarrow> string" where
  "decimal_padded k n = replicate (k - length (decimal n)) (CHR ''0'') @ decimal n"

text \<open>The trimming loop, from the last character back.\<close>

fun trim_zeros :: "string \<Rightarrow> string" where
  "trim_zeros (c # d # e # r) =
     (if c = CHR ''0'' \<and> isdigit e then trim_zeros (d # e # r) else c # d # e # r)"
| "trim_zeros s = s"

text \<open>The negation of the least number overflows.\<close>

definition FormatMoney :: "int \<Rightarrow> bool \<Rightarrow> string option" where
  "FormatMoney n fPlus =
     (if n = - (2 ^ 63) then None
      else
        let n_abs = (if n > 0 then n else - n);
            quotient = nat (n_abs div COIN);
            remainder = nat (n_abs mod COIN);
            str = rev (trim_zeros (rev (decimal quotient @ ''.'' @ decimal_padded 8 remainder)))
        in Some (if n < 0 then CHR ''-'' # str else if fPlus \<and> n > 0 then CHR ''+'' # str else str))"

definition CENT :: int where
  "CENT = 1000000"

definition digit_value :: "char \<Rightarrow> int" where
  "digit_value c = int (of_char c) - 48"

text \<open>The digits behind the point; the rest of the text and the units.\<close>

fun parse_units :: "int \<Rightarrow> string \<Rightarrow> int \<Rightarrow> string \<times> int" where
  "parse_units nMult [] nUnits = ([], nUnits)"
| "parse_units nMult (c # p) nUnits =
     (if isdigit c \<and> nMult > 0
      then parse_units (nMult div 10) p (nUnits + nMult * digit_value c)
      else (c # p, nUnits))"

text \<open>The digits before the point; \<open>None\<close> for a character that is neither digit nor space.\<close>

fun parse_whole :: "string \<Rightarrow> string \<Rightarrow> (string \<times> string \<times> int) option" where
  "parse_whole [] strWhole = Some ([], strWhole, 0)"
| "parse_whole (c # p) strWhole =
     (if c = CHR ''.'' then
        (case parse_units (CENT * 10) p 0 of (p, nUnits) \<Rightarrow> Some (p, strWhole, nUnits))
      else if isspace c then Some (c # p, strWhole, 0)
      else if \<not> isdigit c then None
      else parse_whole p (strWhole @ [c]))"

text \<open>\<^verbatim>\<open>strtoll\<close> with base 10: white space, a sign, digits; the value is clamped to the type.\<close>

definition digits_value :: "string \<Rightarrow> int" where
  "digits_value s = foldl (\<lambda>n c. 10 * n + digit_value c) 0 s"

definition atoi64 :: "string \<Rightarrow> int" where
  "atoi64 str =
     (let s = dropWhile isspace (c_str str);
          (neg, s) = (case s of
             c # r \<Rightarrow> if c = CHR ''-'' then (True, r) else if c = CHR ''+'' then (False, r) else (False, s)
           | [] \<Rightarrow> (False, s));
          v = digits_value (takeWhile isdigit s)
      in if neg then max (- (2 ^ 63)) (- v) else min (2 ^ 63 - 1) v)"

definition ParseMoney :: "string \<Rightarrow> int option" where
  "ParseMoney str =
     (case parse_whole (dropWhile isspace (c_str str)) [] of
        None \<Rightarrow> None
      | Some (p, strWhole, nUnits) \<Rightarrow>
          if list_ex (\<lambda>c. \<not> isspace c) p then None
          else if length strWhole > 10 then None
          else if nUnits < 0 \<or> nUnits > COIN then None
          else Some (atoi64 strWhole * COIN + nUnits))"

section \<open>Base 64\<close>

definition pbase64 :: string where
  "pbase64 = ''ABCDEFGHIJKLMNOPQRSTUVWXYZabcdefghijklmnopqrstuvwxyz0123456789+/''"

fun EncodeBase64_loop :: "nat \<Rightarrow> nat \<Rightarrow> bytes \<Rightarrow> string" where
  "EncodeBase64_loop mode left [] =
     (if mode = 0 then []
      else pbase64 ! left # CHR ''='' # (if mode = 1 then ''='' else []))"
| "EncodeBase64_loop mode left (b # pch) =
     (let enc = unat b in
      if mode = 0 then pbase64 ! (enc div 4) # EncodeBase64_loop 1 ((enc mod 4) * 16) pch
      else if mode = 1 then pbase64 ! (left OR enc div 16) # EncodeBase64_loop 2 ((enc mod 16) * 4) pch
      else pbase64 ! (left OR enc div 64) # pbase64 ! (enc mod 64) # EncodeBase64_loop 0 left pch)"

definition EncodeBase64 :: "bytes \<Rightarrow> string" where
  "EncodeBase64 pch = EncodeBase64_loop 0 0 pch"

definition decode64_table :: "char \<Rightarrow> nat option" where
  "decode64_table c =
     (let n = of_char c :: nat in
      if n = 43 then Some 62
      else if n = 47 then Some 63
      else if 48 \<le> n \<and> n \<le> 57 then Some (n + 4)
      else if 65 \<le> n \<and> n \<le> 90 then Some (n - 65)
      else if 97 \<le> n \<and> n \<le> 122 then Some (n - 71)
      else None)"

text \<open>The bytes, the mode, the bits left and the rest of the text.\<close>

fun DecodeBase64_loop :: "nat \<Rightarrow> nat \<Rightarrow> string \<Rightarrow> bytes \<times> nat \<times> nat \<times> string" where
  "DecodeBase64_loop mode left [] = ([], mode, left, [])"
| "DecodeBase64_loop mode left (c # p) =
     (case decode64_table c of
        None \<Rightarrow> ([], mode, left, c # p)
      | Some dec \<Rightarrow>
          if mode = 0 then DecodeBase64_loop 1 dec p
          else if mode = 1
          then (case DecodeBase64_loop 2 (dec mod 16) p of
                  (v, rest) \<Rightarrow> (word_of_nat (left * 4 OR dec div 16) # v, rest))
          else if mode = 2
          then (case DecodeBase64_loop 3 (dec mod 4) p of
                  (v, rest) \<Rightarrow> (word_of_nat (left * 16 OR dec div 4) # v, rest))
          else (case DecodeBase64_loop 0 left p of
                  (v, rest) \<Rightarrow> (word_of_nat (left * 64 OR dec) # v, rest)))"

text \<open>The text ends with a null character, which is no digit of the code.\<close>

definition pad_ok :: "(char \<Rightarrow> nat option) \<Rightarrow> nat \<Rightarrow> nat \<Rightarrow> string \<Rightarrow> bool" where
  "pad_ok table n left p \<longleftrightarrow>
     left = 0 \<and> take n p = replicate n (CHR ''='') \<and>
     (case drop n p of [] \<Rightarrow> True | c # r \<Rightarrow> table c = None)"

definition DecodeBase64 :: "string \<Rightarrow> bytes \<times> bool" where
  "DecodeBase64 p =
     (case DecodeBase64_loop 0 0 (c_str p) of
        (vchRet, mode, left, p) \<Rightarrow>
          (vchRet,
           if mode = 0 then False
           else if mode = 1 then True
           else if mode = 2 then \<not> pad_ok decode64_table 2 left p
           else \<not> pad_ok decode64_table 1 left p))"

section \<open>Base 32\<close>

definition pbase32 :: string where
  "pbase32 = ''abcdefghijklmnopqrstuvwxyz234567''"

fun EncodeBase32_loop :: "nat \<Rightarrow> nat \<Rightarrow> bytes \<Rightarrow> string" where
  "EncodeBase32_loop mode left [] =
     (if mode = 0 then []
      else pbase32 ! left # replicate ([0, 6, 4, 3, 1] ! mode) (CHR ''=''))"
| "EncodeBase32_loop mode left (b # pch) =
     (let enc = unat b in
      if mode = 0 then pbase32 ! (enc div 8) # EncodeBase32_loop 1 ((enc mod 8) * 4) pch
      else if mode = 1
      then pbase32 ! (left OR enc div 64) # pbase32 ! (enc div 2 mod 32) # EncodeBase32_loop 2 ((enc mod 2) * 16) pch
      else if mode = 2 then pbase32 ! (left OR enc div 16) # EncodeBase32_loop 3 ((enc mod 16) * 2) pch
      else if mode = 3
      then pbase32 ! (left OR enc div 128) # pbase32 ! (enc div 4 mod 32) # EncodeBase32_loop 4 ((enc mod 4) * 8) pch
      else pbase32 ! (left OR enc div 32) # pbase32 ! (enc mod 32) # EncodeBase32_loop 0 left pch)"

definition EncodeBase32 :: "bytes \<Rightarrow> string" where
  "EncodeBase32 pch = EncodeBase32_loop 0 0 pch"

text \<open>Capital letters are read, too.\<close>

definition decode32_table :: "char \<Rightarrow> nat option" where
  "decode32_table c =
     (let n = of_char c :: nat in
      if 50 \<le> n \<and> n \<le> 55 then Some (n - 24)
      else if 65 \<le> n \<and> n \<le> 90 then Some (n - 65)
      else if 97 \<le> n \<and> n \<le> 122 then Some (n - 97)
      else None)"

fun DecodeBase32_loop :: "nat \<Rightarrow> nat \<Rightarrow> string \<Rightarrow> bytes \<times> nat \<times> nat \<times> string" where
  "DecodeBase32_loop mode left [] = ([], mode, left, [])"
| "DecodeBase32_loop mode left (c # p) =
     (case decode32_table c of
        None \<Rightarrow> ([], mode, left, c # p)
      | Some dec \<Rightarrow>
          if mode = 0 then DecodeBase32_loop 1 dec p
          else if mode = 1
          then (case DecodeBase32_loop 2 (dec mod 4) p of
                  (v, rest) \<Rightarrow> (word_of_nat (left * 8 OR dec div 4) # v, rest))
          else if mode = 2 then DecodeBase32_loop 3 (left * 32 OR dec) p
          else if mode = 3
          then (case DecodeBase32_loop 4 (dec mod 16) p of
                  (v, rest) \<Rightarrow> (word_of_nat (left * 2 OR dec div 16) # v, rest))
          else if mode = 4
          then (case DecodeBase32_loop 5 (dec mod 2) p of
                  (v, rest) \<Rightarrow> (word_of_nat (left * 16 OR dec div 2) # v, rest))
          else if mode = 5 then DecodeBase32_loop 6 (left * 32 OR dec) p
          else if mode = 6
          then (case DecodeBase32_loop 7 (dec mod 8) p of
                  (v, rest) \<Rightarrow> (word_of_nat (left * 4 OR dec div 8) # v, rest))
          else (case DecodeBase32_loop 0 left p of
                  (v, rest) \<Rightarrow> (word_of_nat (left * 32 OR dec) # v, rest)))"

definition DecodeBase32 :: "string \<Rightarrow> bytes \<times> bool" where
  "DecodeBase32 p =
     (case DecodeBase32_loop 0 0 (c_str p) of
        (vchRet, mode, left, p) \<Rightarrow>
          (vchRet,
           if mode = 0 then False
           else if mode = 1 \<or> mode = 3 \<or> mode = 6 then True
           else if mode = 2 then \<not> pad_ok decode32_table 6 left p
           else if mode = 4 then \<not> pad_ok decode32_table 4 left p
           else if mode = 5 then \<not> pad_ok decode32_table 3 left p
           else \<not> pad_ok decode32_table 1 left p))"

section \<open>Wildcards\<close>

function WildcardMatch_psz :: "string \<Rightarrow> string \<Rightarrow> bool" where
  "WildcardMatch_psz psz [] = (psz = [])"
| "WildcardMatch_psz psz (m # msk) =
     (if m = CHR ''*'' then WildcardMatch_psz psz msk \<or> (if psz \<noteq> [] then WildcardMatch_psz (tl psz) (m # msk) else False)
      else if m = CHR ''?'' then (if psz = [] then False else WildcardMatch_psz (tl psz) msk)
      else (case psz of [] \<Rightarrow> False
            | c # r \<Rightarrow> if c \<noteq> m then False else WildcardMatch_psz r msk))"
  by pat_completeness auto

termination
  by (relation "measure (\<lambda>(psz, msk). length psz + length msk)") (auto simp: neq_Nil_conv)

definition WildcardMatch :: "string \<Rightarrow> string \<Rightarrow> bool" where
  "WildcardMatch str msk = WildcardMatch_psz (c_str str) (c_str msk)"

section \<open>Hexadecimal: round trip\<close>

lemma hexvalue_digit:
  assumes "n < 16"
  shows "hexvalue (hexdigits ! n) = int n" "\<not> isspace (hexdigits ! n)" "hexdigits ! n \<noteq> CHR 0x00"
  by (rule all_nibbles [OF _ _ _ _ _ _ _ _ _ _ _ _ _ _ _ _ assms]; simp add: hexdigits_def hexvalue_def isspace_def)+

lemma byte_digits: "(word_of_nat (unat b div 16 * 16) OR word_of_nat (unat b mod 16) :: byte) = b"
proof -
  have "(word_of_nat (unat b mod 16) :: byte) = take_bit 4 b"
    by (simp add: take_bit_eq_mod word_unat_eq_iff unat_of_nat unat_mod)
  moreover have "(word_of_nat (unat b div 16 * 16) :: byte) = push_bit 4 (drop_bit 4 b)"
  proof -
    have "unat (drop_bit 4 b) = unat b div 16" by (simp only: unat_drop_bit_eq) (simp add: drop_bit_eq_div)
    moreover have "unat b div 16 < 256" using unat_byte_lt [of b] by linarith
    ultimately have "word_of_nat (unat b div 16) = drop_bit 4 b" using unat_byte_lt [of b] by (simp add: word_unat_eq_iff unat_of_nat)
    then show ?thesis by (simp add: push_bit_eq_mult del: drop_bit_eq_div)
  qed
  moreover have "take_bit 4 b OR push_bit 4 (drop_bit 4 b) = b"
    by (rule bit_word_eqI) (auto simp: bit_simps, metis le_add_diff_inverse not_le)
  ultimately show ?thesis by (simp only: or.commute)
qed

lemma ParseHex_loop_digits: "ParseHex_loop (hex2 b @ s) = b # ParseHex_loop s"
proof -
  have "unat b div 16 < 16" using unat_byte_lt [of b] by linarith
  note d = hexvalue_digit [OF this] hexvalue_digit [of "unat b mod 16"]
  have "int (unat b div 16) * 16 = int (unat b div 16 * 16)" by simp
  then have "(word_of_int (int (unat b div 16) * 16) OR word_of_int (int (unat b mod 16)) :: byte) = b"
    using byte_digits [of b] by (simp only: of_int_of_nat_eq)
  moreover have "ParseHex_loop (hex2 b @ s) =
      (word_of_int (int (unat b div 16) * 16) OR word_of_int (int (unat b mod 16))) # ParseHex_loop s"
    using d by (subst ParseHex_loop.simps) (simp only: hex2_def append.simps list.case dropWhile.simps Let_def if_False,
      simp)
  ultimately show ?thesis by simp
qed

lemma ParseHex_loop_space: "ParseHex_loop (CHR '' '' # s) = ParseHex_loop s"
  by (subst (1 2) ParseHex_loop.simps) (simp add: isspace_def)

lemma ParseHex_loop_HexStr: "ParseHex_loop (HexStr fSpaces v) = v"
proof (induction fSpaces v rule: HexStr.induct)
  case (1 f)
  show ?case by (subst ParseHex_loop.simps) simp
next
  case (2 f b)
  have "ParseHex_loop [] = []" by (subst ParseHex_loop.simps) simp
  then show ?case using ParseHex_loop_digits [of b "[]"] by simp
next
  case (3 f b c r)
  then show ?case by (cases f) (simp_all add: ParseHex_loop_digits ParseHex_loop_space)
qed

lemma HexStr_chars: "c \<in> set (HexStr f v) \<Longrightarrow> c \<noteq> CHR 0x00 \<and> (\<not> f \<longrightarrow> 0 \<le> hexvalue c)"
proof (induction f v rule: HexStr.induct)
  case (2 f b)
  have "unat b div 16 < 16" using unat_byte_lt [of b] by linarith
  then show ?case using 2 hexvalue_digit by (auto simp: hex2_def)
next
  case (3 f b c' r)
  have "unat b div 16 < 16" using unat_byte_lt [of b] by linarith
  then show ?case using 3 hexvalue_digit by (auto simp: hex2_def split: if_splits)
qed simp

lemma c_str_id: "CHR 0x00 \<notin> set s \<Longrightarrow> c_str s = s"
  unfolding c_str_def by (rule takeWhile_eq_all_conv [THEN iffD2]) auto

lemma length_HexStr: "length (HexStr False v) = 2 * length v"
  by (induction "False" v rule: HexStr.induct) (simp_all add: hex2_def)

lemma hex_roundtrip: "ParseHex (HexStr fSpaces v) = v" "IsHex (HexStr False v) \<longleftrightarrow> v \<noteq> []"
proof -
  have "c_str (HexStr fSpaces v) = HexStr fSpaces v" using HexStr_chars c_str_id by blast
  then show "ParseHex (HexStr fSpaces v) = v" by (simp add: ParseHex_def ParseHex_loop_HexStr)
  have "\<not> list_ex (\<lambda>c. hexvalue c < 0) (HexStr False v)" using HexStr_chars [of _ False v] by (fastforce simp: list_ex_iff)
  then show "IsHex (HexStr False v) \<longleftrightarrow> v \<noteq> []" by (simp add: IsHex_def length_HexStr)
qed

section \<open>Wildcards: what a mask matches\<close>

text \<open>The texts of a mask: a star stands for any text, a question mark for any character.\<close>

fun mask_texts :: "string \<Rightarrow> string set" where
  "mask_texts [] = {[]}"
| "mask_texts (m # msk) =
     (if m = CHR ''*'' then {u @ v |u v. v \<in> mask_texts msk}
      else if m = CHR ''?'' then {c # v |c v. v \<in> mask_texts msk}
      else {m # v |v. v \<in> mask_texts msk})"

lemma wildcard_texts: "WildcardMatch_psz psz msk \<longleftrightarrow> psz \<in> mask_texts msk"
proof (induction psz msk rule: WildcardMatch_psz.induct)
  case (2 psz m msk)
  show ?case
  proof (cases "m = CHR ''*''")
    case True
    have "psz \<in> mask_texts (m # msk) \<longleftrightarrow> psz \<in> mask_texts msk \<or> (psz \<noteq> [] \<and> tl psz \<in> mask_texts (m # msk))"
      (is "?L \<longleftrightarrow> ?R")
    proof
      assume ?L
      then obtain u v where uv: "psz = u @ v" "v \<in> mask_texts msk" using True by auto
      then show ?R using True by (cases u) auto
    next
      assume ?R
      then show ?L
      proof
        assume "psz \<in> mask_texts msk"
        then show ?L using True by (auto intro: exI [of _ "[]"])
      next
        assume t: "psz \<noteq> [] \<and> tl psz \<in> mask_texts (m # msk)"
        then obtain u v where "tl psz = u @ v" "v \<in> mask_texts msk" using True by auto
        then have "psz = (hd psz # u) @ v" "v \<in> mask_texts msk" using t by (auto simp: neq_Nil_conv)
        then have "\<exists>u v. psz = u @ v \<and> v \<in> mask_texts msk" by blast
        then show ?L using True by simp
      qed
    qed
    then show ?thesis using 2 True by simp
  next
    case False
    then show ?thesis using 2 by (cases psz) auto
  qed
qed simp

section \<open>Base 64 and base 32: round trips\<close>

lemma or_add_pow: "y < 2 ^ k \<Longrightarrow> x * 2 ^ k OR y = x * 2 ^ k + (y :: nat)"
proof -
  assume "y < 2 ^ k"
  then have y: "take_bit k y = y" by (simp add: take_bit_eq_mod)
  have "push_bit k x AND take_bit k y = 0" by (rule bit_eqI) (auto simp: bit_simps)
  then show ?thesis using disjunctive_add_eq_or [of "push_bit k x" "take_bit k y"] unfolding y push_bit_eq_mult by simp
qed

lemma or_add:
  "y < 4 \<Longrightarrow> x * 4 OR y = x * 4 + y" "y < 8 \<Longrightarrow> x * 8 OR y = x * 8 + y" "y < 2 \<Longrightarrow> x * 2 OR y = x * 2 + y"
  "y < 16 \<Longrightarrow> x * 16 OR y = x * 16 + y" "y < 32 \<Longrightarrow> x * 32 OR y = x * 32 + y"
  "y < 64 \<Longrightarrow> x * 64 OR y = x * 64 + y" for x y :: nat
  by (rule or_add_pow [where k = 2, simplified] or_add_pow [where k = 3, simplified]
      or_add_pow [where k = 1, simplified] or_add_pow [where k = 4, simplified]
      or_add_pow [where k = 5, simplified] or_add_pow [where k = 6, simplified]; assumption)+

lemma digits_add: "d < k \<Longrightarrow> (m * k + d) div k = m" "d < k \<Longrightarrow> (m * k + d) mod k = (d :: nat)"
  "d < k \<Longrightarrow> m < j \<Longrightarrow> m * k + d < j * k"
proof -
  assume "d < k" "m < j"
  then have "m * k + d < Suc m * k" by simp
  also have "\<dots> \<le> j * k" using \<open>m < j\<close> by (intro mult_le_mono1) simp
  finally show "m * k + d < j * k" .
qed simp_all

lemma indexed: "list_all (\<lambda>(n, c). P n c) (enumerate 0 cs) \<Longrightarrow> n < length cs \<Longrightarrow> P n (cs ! n)"
  by (auto simp: list_all_length nth_enumerate_eq)

lemma table64: "n < 64 \<Longrightarrow> decode64_table (pbase64 ! n) = Some n \<and> pbase64 ! n \<noteq> CHR 0x00"
  by (rule indexed [where P = "\<lambda>n c. decode64_table c = Some n \<and> c \<noteq> CHR 0x00"])
    (simp_all add: pbase64_def decode64_table_def)

lemma table32: "n < 32 \<Longrightarrow> decode32_table (pbase32 ! n) = Some n \<and> pbase32 ! n \<noteq> CHR 0x00"
  by (rule indexed [where P = "\<lambda>n c. decode32_table c = Some n \<and> c \<noteq> CHR 0x00"])
    (simp_all add: pbase32_def decode32_table_def)

lemma table_pad [simp]: "decode64_table (CHR ''='') = None" "decode32_table (CHR ''='') = None"
  by (simp_all add: decode64_table_def decode32_table_def)

lemma byte_parts:
  "unat (b :: byte) div 4 < 64" "unat b div 16 < 16" "unat b div 64 < 4" "unat b div 8 < 32" "unat b div 128 < 2"
  "unat b div 32 < 8"
  using unat_byte_lt [of b] by linarith+

lemma nat_byte: "word_of_nat (unat b) = (b :: byte)"
  by simp

text \<open>A result of the decoder that counts as valid.\<close>

definition valid64 :: "nat \<Rightarrow> nat \<Rightarrow> string \<Rightarrow> bool" where
  "valid64 mode left p \<longleftrightarrow> mode = 0 \<or> mode = 2 \<and> pad_ok decode64_table 2 left p \<or> mode = 3 \<and> pad_ok decode64_table 1 left p"

lemma decode64_digit:
  "n < 64 \<Longrightarrow> DecodeBase64_loop mode left (pbase64 ! n # p) =
     (if mode = 0 then DecodeBase64_loop 1 n p
      else if mode = 1
      then (case DecodeBase64_loop 2 (n mod 16) p of (v, rest) \<Rightarrow> (word_of_nat (left * 4 OR n div 16) # v, rest))
      else if mode = 2
      then (case DecodeBase64_loop 3 (n mod 4) p of (v, rest) \<Rightarrow> (word_of_nat (left * 16 OR n div 4) # v, rest))
      else (case DecodeBase64_loop 0 left p of (v, rest) \<Rightarrow> (word_of_nat (left * 64 OR n) # v, rest)))"
  using table64 [of n] by simp

lemma decode64_pad: "DecodeBase64_loop mode left (CHR ''='' # p) = ([], mode, left, CHR ''='' # p)"
  by simp

declare DecodeBase64_loop.simps(2) [simp del]

lemma loop64_two:
  fixes a b :: byte
  shows "unat a mod 4 * 16 OR unat b div 16 < 64"
    "unat a div 4 * 4 OR (unat a mod 4 * 16 OR unat b div 16) div 16 = unat a"
    "(unat a mod 4 * 16 OR unat b div 16) mod 16 = unat b div 16"
proof -
  note d = byte_parts(2) [of b]
  have x: "unat a mod 4 * 16 OR unat b div 16 = unat a mod 4 * 16 + unat b div 16" by (rule or_add(4) [OF d])
  have m: "unat a mod 4 < 4" by simp
  show "unat a mod 4 * 16 OR unat b div 16 < 64" using digits_add(3) [OF d m] by (simp add: x)
  show "(unat a mod 4 * 16 OR unat b div 16) mod 16 = unat b div 16" unfolding x by (rule digits_add(2) [OF d])
  have "(unat a mod 4 * 16 OR unat b div 16) div 16 = unat a mod 4" unfolding x by (rule digits_add(1) [OF d])
  then show "unat a div 4 * 4 OR (unat a mod 4 * 16 OR unat b div 16) div 16 = unat a"
    using or_add(1) [OF m, of "unat a div 4"] by simp
qed

lemma loop64_three:
  fixes b c :: byte
  shows "unat b mod 16 * 4 OR unat c div 64 < 64"
    "unat b div 16 * 16 OR (unat b mod 16 * 4 OR unat c div 64) div 4 = unat b"
    "(unat b mod 16 * 4 OR unat c div 64) mod 4 * 64 OR unat c mod 64 = unat c"
proof -
  note d = byte_parts(3) [of c]
  have y: "unat b mod 16 * 4 OR unat c div 64 = unat b mod 16 * 4 + unat c div 64" by (rule or_add(1) [OF d])
  have m: "unat b mod 16 < 16" by simp
  show "unat b mod 16 * 4 OR unat c div 64 < 64" using digits_add(3) [OF d m] by (simp add: y)
  have "(unat b mod 16 * 4 OR unat c div 64) div 4 = unat b mod 16" unfolding y by (rule digits_add(1) [OF d])
  then show "unat b div 16 * 16 OR (unat b mod 16 * 4 OR unat c div 64) div 4 = unat b"
    using or_add(4) [OF m, of "unat b div 16"] by simp
  have "(unat b mod 16 * 4 OR unat c div 64) mod 4 = unat c div 64" unfolding y by (rule digits_add(2) [OF d])
  then show "(unat b mod 16 * 4 OR unat c div 64) mod 4 * 64 OR unat c mod 64 = unat c"
    using or_add(6) [of "unat c mod 64" "unat c div 64"] by simp
qed

lemma decode64_encode:
  "\<exists>mode left p. DecodeBase64_loop 0 l (EncodeBase64_loop 0 l' v) = (v, mode, left, p) \<and> valid64 mode left p"
proof (induction v arbitrary: l l' rule: length_induct)
  case (1 v)
  consider "v = []" | a where "v = [a]" | a b where "v = [a, b]" | a b c r where "v = a # b # c # r"
    by (metis neq_Nil_conv)
  then show ?case
  proof cases
    case 1
    then show ?thesis by (simp add: valid64_def)
  next
    case (2 a)
    have z: "unat a div 4 * 4 OR unat a mod 4 = unat a" using or_add(1) [of "unat a mod 4" "unat a div 4"] by simp
    have "unat a mod 4 < 4" by simp
    then have m: "unat a mod 4 * 16 < 64" by linarith
    have "unat a mod 4 * 16 div 16 = unat a mod 4" "unat a mod 4 * 16 mod 16 = 0" by simp_all
    then show ?thesis
      using m z by (simp add: 2 Let_def decode64_digit decode64_pad byte_parts(1) valid64_def pad_ok_def
          numeral_2_eq_2)
  next
    case (3 a b)
    have "unat b mod 16 < 16" by simp
    then have m: "unat b mod 16 * 4 < 64" by linarith
    have z: "unat b div 16 * 16 OR unat b mod 16 = unat b" using or_add(4) [of "unat b mod 16" "unat b div 16"] by simp
    have "unat b mod 16 * 4 div 4 = unat b mod 16" "unat b mod 16 * 4 mod 4 = 0" by simp_all
    then show ?thesis
      using loop64_two [of a b] m z
      by (simp add: 3 Let_def decode64_digit decode64_pad byte_parts(1) valid64_def pad_ok_def)
  next
    case (4 a b c r)
    have "length r < length v" by (simp add: 4)
    then obtain mode left p where IH: "DecodeBase64_loop 0 (((unat b mod 16 * 4 OR unat c div 64) mod 4))
        (EncodeBase64_loop 0 (unat b mod 16 * 4) r) = (r, mode, left, p)" "valid64 mode left p"
      using 1 by blast
    then show ?thesis
      using loop64_two [of a b] loop64_three [of b c]
      by (simp add: 4 Let_def decode64_digit byte_parts(1))
  qed
qed

definition valid32 :: "nat \<Rightarrow> nat \<Rightarrow> string \<Rightarrow> bool" where
  "valid32 mode left p \<longleftrightarrow> mode = 0 \<or> mode = 2 \<and> pad_ok decode32_table 6 left p \<or>
     mode = 4 \<and> pad_ok decode32_table 4 left p \<or> mode = 5 \<and> pad_ok decode32_table 3 left p \<or>
     mode = 7 \<and> pad_ok decode32_table 1 left p"

lemma decode32_digit:
  "n < 32 \<Longrightarrow> DecodeBase32_loop mode left (pbase32 ! n # p) =
     (if mode = 0 then DecodeBase32_loop 1 n p
      else if mode = 1
      then (case DecodeBase32_loop 2 (n mod 4) p of (v, rest) \<Rightarrow> (word_of_nat (left * 8 OR n div 4) # v, rest))
      else if mode = 2 then DecodeBase32_loop 3 (left * 32 OR n) p
      else if mode = 3
      then (case DecodeBase32_loop 4 (n mod 16) p of (v, rest) \<Rightarrow> (word_of_nat (left * 2 OR n div 16) # v, rest))
      else if mode = 4
      then (case DecodeBase32_loop 5 (n mod 2) p of (v, rest) \<Rightarrow> (word_of_nat (left * 16 OR n div 2) # v, rest))
      else if mode = 5 then DecodeBase32_loop 6 (left * 32 OR n) p
      else if mode = 6
      then (case DecodeBase32_loop 7 (n mod 8) p of (v, rest) \<Rightarrow> (word_of_nat (left * 4 OR n div 8) # v, rest))
      else (case DecodeBase32_loop 0 left p of (v, rest) \<Rightarrow> (word_of_nat (left * 32 OR n) # v, rest)))"
  using table32 [of n] by simp

lemma decode32_pad: "DecodeBase32_loop mode left (CHR ''='' # p) = ([], mode, left, CHR ''='' # p)"
  by simp

declare DecodeBase32_loop.simps(2) [simp del]

text \<open>Joining the low bits of one byte with the high bits of the next, and taking them apart.\<close>

lemma join32:
  fixes a b :: byte
  shows "unat a mod 8 * 4 OR unat b div 64 < 32" "(unat a mod 8 * 4 OR unat b div 64) mod 4 = unat b div 64"
    "unat a div 8 * 8 OR (unat a mod 8 * 4 OR unat b div 64) div 4 = unat a"
    "unat a mod 2 * 16 OR unat b div 16 < 32" "(unat a mod 2 * 16 OR unat b div 16) mod 16 = unat b div 16"
    "(unat a div 64 * 32 OR unat a div 2 mod 32) * 2 OR (unat a mod 2 * 16 OR unat b div 16) div 16 = unat a"
    "unat a mod 16 * 2 OR unat b div 128 < 32" "(unat a mod 16 * 2 OR unat b div 128) mod 2 = unat b div 128"
    "unat a div 16 * 16 OR (unat a mod 16 * 2 OR unat b div 128) div 2 = unat a"
    "unat a mod 4 * 8 OR unat b div 32 < 32" "(unat a mod 4 * 8 OR unat b div 32) mod 8 = unat b div 32"
    "(unat a div 128 * 32 OR unat a div 4 mod 32) * 4 OR (unat a mod 4 * 8 OR unat b div 32) div 8 = unat a"
proof -
  note p = byte_parts [of b]
  have j: "unat a mod 8 * 4 OR unat b div 64 = unat a mod 8 * 4 + unat b div 64"
    "unat a mod 2 * 16 OR unat b div 16 = unat a mod 2 * 16 + unat b div 16"
    "unat a mod 16 * 2 OR unat b div 128 = unat a mod 16 * 2 + unat b div 128"
    "unat a mod 4 * 8 OR unat b div 32 = unat a mod 4 * 8 + unat b div 32"
    using p by (simp_all only: or_add)
  have m: "unat a mod 8 < 8" "unat a mod 2 < 2" "unat a mod 16 < 16" "unat a mod 4 < 4" "unat a div 2 mod 32 < 32"
    "unat a div 4 mod 32 < 32" "unat a mod 32 < 32" by simp_all
  show "unat a mod 8 * 4 OR unat b div 64 < 32" "unat a mod 2 * 16 OR unat b div 16 < 32"
    "unat a mod 16 * 2 OR unat b div 128 < 32" "unat a mod 4 * 8 OR unat b div 32 < 32"
    using digits_add(3) [OF p(3) m(1)] digits_add(3) [OF p(2) m(2)] digits_add(3) [OF p(5) m(3)]
      digits_add(3) [OF p(6) m(4)] by (simp_all add: j)
  show "(unat a mod 8 * 4 OR unat b div 64) mod 4 = unat b div 64"
    "(unat a mod 2 * 16 OR unat b div 16) mod 16 = unat b div 16"
    "(unat a mod 16 * 2 OR unat b div 128) mod 2 = unat b div 128"
    "(unat a mod 4 * 8 OR unat b div 32) mod 8 = unat b div 32"
    unfolding j using p by (simp_all only: digits_add(2))
  have d: "(unat a mod 8 * 4 OR unat b div 64) div 4 = unat a mod 8"
    "(unat a mod 2 * 16 OR unat b div 16) div 16 = unat a mod 2"
    "(unat a mod 16 * 2 OR unat b div 128) div 2 = unat a mod 16"
    "(unat a mod 4 * 8 OR unat b div 32) div 8 = unat a mod 4"
    unfolding j using p by (simp_all only: digits_add(1))
  show "unat a div 8 * 8 OR (unat a mod 8 * 4 OR unat b div 64) div 4 = unat a"
    "unat a div 16 * 16 OR (unat a mod 16 * 2 OR unat b div 128) div 2 = unat a"
    unfolding d
    by (rule trans [OF or_add(2) [OF m(1)] div_mult_mod_eq], rule trans [OF or_add(4) [OF m(3)] div_mult_mod_eq])
  have q: "unat a div 64 = unat a div 2 div 32" "unat a div 128 = unat a div 4 div 32"
    by (simp_all only: div_mult2_eq [symmetric]) simp_all
  have "unat a div 64 * 32 OR unat a div 2 mod 32 = unat a div 2"
    unfolding q by (rule trans [OF or_add(5) [OF m(5)] div_mult_mod_eq])
  then show "(unat a div 64 * 32 OR unat a div 2 mod 32) * 2 OR (unat a mod 2 * 16 OR unat b div 16) div 16 = unat a"
    unfolding d by (simp only:) (rule trans [OF or_add(3) [OF m(2)] div_mult_mod_eq])
  have "unat a div 128 * 32 OR unat a div 4 mod 32 = unat a div 4"
    unfolding q by (rule trans [OF or_add(5) [OF m(6)] div_mult_mod_eq])
  then show "(unat a div 128 * 32 OR unat a div 4 mod 32) * 4 OR (unat a mod 4 * 8 OR unat b div 32) div 8 = unat a"
    unfolding d by (simp only:) (rule trans [OF or_add(1) [OF m(4)] div_mult_mod_eq])
qed

lemma join32_whole: "unat a div 32 * 32 OR unat a mod 32 = unat a" for a :: byte
  by (rule trans [OF or_add(5) div_mult_mod_eq]) simp

lemma join32_last:
  fixes a :: byte
  shows "unat a mod 8 * 4 < 32" "unat a mod 8 * 4 mod 4 = 0" "unat a div 8 * 8 OR unat a mod 8 * 4 div 4 = unat a"
    "unat a mod 2 * 16 < 32" "unat a mod 2 * 16 mod 16 = 0"
    "(unat a div 64 * 32 OR unat a div 2 mod 32) * 2 OR unat a mod 2 * 16 div 16 = unat a"
    "unat a mod 16 * 2 < 32" "unat a mod 16 * 2 mod 2 = 0" "unat a div 16 * 16 OR unat a mod 16 * 2 div 2 = unat a"
    "unat a mod 4 * 8 < 32" "unat a mod 4 * 8 mod 8 = 0"
    "(unat a div 128 * 32 OR unat a div 4 mod 32) * 4 OR unat a mod 4 * 8 div 8 = unat a"
  using join32 [of a 0] by (simp_all only: unsigned_0 div_0 or.right_neutral)

lemma mode_numerals:
  "(1 :: nat) \<noteq> 0" "(2 :: nat) \<noteq> 0" "(2 :: nat) \<noteq> 1" "(3 :: nat) \<noteq> 0" "(3 :: nat) \<noteq> 1" "(3 :: nat) \<noteq> 2"
  "(4 :: nat) \<noteq> 0" "(4 :: nat) \<noteq> 1" "(4 :: nat) \<noteq> 2" "(4 :: nat) \<noteq> 3" "(5 :: nat) \<noteq> 0" "(5 :: nat) \<noteq> 1"
  "(5 :: nat) \<noteq> 2" "(5 :: nat) \<noteq> 3" "(5 :: nat) \<noteq> 4" "(6 :: nat) \<noteq> 0" "(6 :: nat) \<noteq> 1" "(6 :: nat) \<noteq> 2"
  "(6 :: nat) \<noteq> 3" "(6 :: nat) \<noteq> 4" "(6 :: nat) \<noteq> 5" "(7 :: nat) \<noteq> 0" "(7 :: nat) \<noteq> 1" "(7 :: nat) \<noteq> 2"
  "(7 :: nat) \<noteq> 3" "(7 :: nat) \<noteq> 4" "(7 :: nat) \<noteq> 5" "(7 :: nat) \<noteq> 6"
  by simp_all

lemma padding32: "replicate ([0, 6, 4, 3, 1] ! 1) (CHR ''='') = ''======''"
  "replicate ([0, 6, 4, 3, 1] ! 2) (CHR ''='') = ''====''" "replicate ([0, 6, 4, 3, 1] ! 3) (CHR ''='') = ''===''"
  "replicate ([0, 6, 4, 3, 1] ! 4) (CHR ''='') = ''=''"
  by (simp_all add: numeral_eq_Suc)

lemma valid32_padded: "valid32 0 left p" "valid32 2 0 ''======''" "valid32 4 0 ''====''" "valid32 5 0 ''===''" "valid32 7 0 ''=''"
  by (simp_all add: valid32_def pad_ok_def numeral_eq_Suc)

lemma five_chunks:
  "v = [] \<or> (\<exists>a. v = [a]) \<or> (\<exists>a b. v = [a, b]) \<or> (\<exists>a b c. v = [a, b, c]) \<or> (\<exists>a b c d. v = [a, b, c, d]) \<or>
     (\<exists>a b c d e r. v = a # b # c # d # e # r)"
  by (metis neq_Nil_conv)

lemma encode32:
  "EncodeBase32_loop 0 l [] = []"
  "EncodeBase32_loop 0 l [a] = pbase32 ! (unat a div 8) # pbase32 ! (unat a mod 8 * 4) # ''======''"
  "EncodeBase32_loop 0 l [a, b] = pbase32 ! (unat a div 8) # pbase32 ! (unat a mod 8 * 4 OR unat b div 64) #
     pbase32 ! (unat b div 2 mod 32) # pbase32 ! (unat b mod 2 * 16) # ''====''"
  "EncodeBase32_loop 0 l [a, b, c] = pbase32 ! (unat a div 8) # pbase32 ! (unat a mod 8 * 4 OR unat b div 64) #
     pbase32 ! (unat b div 2 mod 32) # pbase32 ! (unat b mod 2 * 16 OR unat c div 16) #
     pbase32 ! (unat c mod 16 * 2) # ''===''"
  "EncodeBase32_loop 0 l [a, b, c, d] = pbase32 ! (unat a div 8) # pbase32 ! (unat a mod 8 * 4 OR unat b div 64) #
     pbase32 ! (unat b div 2 mod 32) # pbase32 ! (unat b mod 2 * 16 OR unat c div 16) #
     pbase32 ! (unat c mod 16 * 2 OR unat d div 128) # pbase32 ! (unat d div 4 mod 32) #
     pbase32 ! (unat d mod 4 * 8) # ''=''"
  "EncodeBase32_loop 0 l (a # b # c # d # e # r) =
     pbase32 ! (unat a div 8) # pbase32 ! (unat a mod 8 * 4 OR unat b div 64) #
     pbase32 ! (unat b div 2 mod 32) # pbase32 ! (unat b mod 2 * 16 OR unat c div 16) #
     pbase32 ! (unat c mod 16 * 2 OR unat d div 128) # pbase32 ! (unat d div 4 mod 32) #
     pbase32 ! (unat d mod 4 * 8 OR unat e div 32) # pbase32 ! (unat e mod 32) #
     EncodeBase32_loop 0 (unat d mod 4 * 8) r"
  by (simp_all only: Let_def EncodeBase32_loop.simps mode_numerals if_True if_False simp_thms(6) refl padding32 cong: if_weak_cong)

lemmas decode32 = decode32_digit decode32_pad byte_parts(4) mod_less_divisor zero_less_numeral refl simp_thms(6)
  mode_numerals if_True if_False prod.case nat_byte

lemma run32_last:
  "DecodeBase32_loop 0 l (EncodeBase32_loop 0 l' [a]) = ([a], 2, 0, ''======'')"
  "DecodeBase32_loop 0 l (EncodeBase32_loop 0 l' [a, b]) = ([a, b], 4, 0, ''===='')"
  "DecodeBase32_loop 0 l (EncodeBase32_loop 0 l' [a, b, c]) = ([a, b, c], 5, 0, ''==='')"
  "DecodeBase32_loop 0 l (EncodeBase32_loop 0 l' [a, b, c, d]) = ([a, b, c, d], 7, 0, ''='')"
  unfolding encode32
  by (simp_all only: decode32 join32(1-3) join32(4-6) join32(7-9) join32(10-12) join32_last cong: if_weak_cong)

lemma run32_whole:
  "DecodeBase32_loop 0 l (EncodeBase32_loop 0 l' (a # b # c # d # e # r)) =
     (case DecodeBase32_loop 0 (unat e div 32) (EncodeBase32_loop 0 (unat d mod 4 * 8) r) of
        (v, rest) \<Rightarrow> (a # b # c # d # e # v, rest))"
  unfolding encode32
  by (simp only: decode32 join32 join32_whole case_prod_beta fst_conv snd_conv cong: if_weak_cong)

lemma decode32_encode:
  "\<exists>mode left p. DecodeBase32_loop 0 l (EncodeBase32_loop 0 l' v) = (v, mode, left, p) \<and> valid32 mode left p"
proof (induction v arbitrary: l l' rule: length_induct)
  case (1 v)
  from five_chunks [of v] show ?case
  proof (elim disjE exE)
    assume "v = []"
    then show ?thesis by (simp add: valid32_def)
  next
    fix a b c d e r assume v: "v = a # b # c # d # e # r"
    then have "length r < length v" by simp
    then obtain mode left p where IH: "DecodeBase32_loop 0 (unat e div 32) (EncodeBase32_loop 0 (unat d mod 4 * 8) r) =
        (r, mode, left, p)" "valid32 mode left p" using 1 by blast
    have "DecodeBase32_loop 0 l (EncodeBase32_loop 0 l' v) = (v, mode, left, p)"
      unfolding v run32_whole IH(1) by (simp only: prod.case)
    with IH(2) show ?thesis by blast
  next
    fix a assume "v = [a]"
    then show ?thesis using run32_last(1) valid32_padded(2) by metis
  next
    fix a b assume "v = [a, b]"
    then show ?thesis using run32_last(2) valid32_padded(3) by metis
  next
    fix a b c assume "v = [a, b, c]"
    then show ?thesis using run32_last(3) valid32_padded(4) by metis
  next
    fix a b c d assume "v = [a, b, c, d]"
    then show ?thesis using run32_last(4) valid32_padded(5) by metis
  qed
qed

text \<open>The texts have no null character.\<close>

lemma encode32_chars: "CHR 0x00 \<notin> set (EncodeBase32_loop 0 l v)"
proof (induction v arbitrary: l rule: length_induct)
  case (1 v)
  have e: "CHR 0x00 \<noteq> CHR ''=''" by simp
  have n: "m < 32 \<Longrightarrow> CHR 0x00 \<noteq> pbase32 ! m" for m using table32 [of m] by auto
  note facts = encode32 join32 join32_last byte_parts(4) mod_less_divisor zero_less_numeral list.set insert_iff
    empty_iff n e not_False_eq_True de_Morgan_disj simp_thms
  from five_chunks [of v] show ?case
  proof (elim disjE exE)
    fix a b c d e r assume v: "v = a # b # c # d # e # r"
    then have "CHR 0x00 \<notin> set (EncodeBase32_loop 0 (unat d mod 4 * 8) r)" using 1 by simp
    then show ?thesis by (simp only: v facts)
  qed (simp only: facts)+
qed

lemma encode64_chars: "CHR 0x00 \<notin> set (EncodeBase64_loop 0 l v)"
proof (induction v arbitrary: l rule: length_induct)
  case (1 v)
  have e: "CHR 0x00 \<noteq> CHR ''=''" by simp
  have n: "m < 64 \<Longrightarrow> CHR 0x00 \<noteq> pbase64 ! m" for m using table64 [of m] by auto
  have low: "unat a mod 4 * 16 < 64" "unat a mod 16 * 4 < 64" for a :: byte
    using loop64_two(1) [of a 0] loop64_three(1) [of a 0] by simp_all
  note facts = Let_def EncodeBase64_loop.simps byte_parts(1) mod_less_divisor zero_less_numeral mode_numerals
    if_True if_False refl simp_thms(6) loop64_two loop64_three low n e list.set insert_iff empty_iff
    not_False_eq_True de_Morgan_disj simp_thms
  consider "v = []" | a where "v = [a]" | a b where "v = [a, b]" | a b c r where "v = a # b # c # r"
    by (metis neq_Nil_conv)
  then show ?case
  proof cases
    case (4 a b c r)
    then have "CHR 0x00 \<notin> set (EncodeBase64_loop 0 (unat b mod 16 * 4) r)" using 1 by simp
    then show ?thesis unfolding 4 by (simp only: facts)
  qed (simp only: facts)+
qed

lemma base64_exact: "DecodeBase64 (EncodeBase64 v) = (v, False)"
proof -
  obtain mode left p where "DecodeBase64_loop 0 0 (EncodeBase64_loop 0 0 v) = (v, mode, left, p)" "valid64 mode left p"
    using decode64_encode by blast
  then show ?thesis by (auto simp: DecodeBase64_def EncodeBase64_def c_str_id [OF encode64_chars] valid64_def)
qed

lemma base32_exact: "DecodeBase32 (EncodeBase32 v) = (v, False)"
proof -
  obtain mode left p where "DecodeBase32_loop 0 0 (EncodeBase32_loop 0 0 v) = (v, mode, left, p)" "valid32 mode left p"
    using decode32_encode by blast
  then show ?thesis by (auto simp: DecodeBase32_def EncodeBase32_def c_str_id [OF encode32_chars] valid32_def)
qed

text \<open>C33: What base 64 and base 32 encode they decode: for every byte vector the decoder returns the
  vector and reports the text, with its padding, as valid.\<close>

theorem base_codes_roundtrip:
  "DecodeBase64 (EncodeBase64 v) = (v, False) \<and> DecodeBase32 (EncodeBase32 v) = (v, False)"
  using base64_exact base32_exact by blast

section \<open>Amounts: round trip\<close>

lemma digit_facts: "n < 10 \<Longrightarrow> isdigit (digit n) \<and> digit_value (digit n) = int n"
  by (simp add: isdigit_def digit_def digit_value_def of_char_of)

lemma isdigit_facts: "isdigit c \<Longrightarrow> \<not> isspace c \<and> c \<noteq> CHR ''.'' \<and> c \<noteq> CHR 0x00 \<and> c \<noteq> CHR ''-'' \<and> c \<noteq> CHR ''+'' \<and>
   0 \<le> digit_value c \<and> digit_value c \<le> 9"
proof (intro conjI)
  assume d: "isdigit c"
  let ?n = "of_char c :: nat"
  have n: "48 \<le> ?n" "?n \<le> 57" using d by (simp_all add: isdigit_def)
  show "\<not> isspace c" using n by (auto simp: isspace_def)
  show "c \<noteq> CHR ''.''" "c \<noteq> CHR 0x00" "c \<noteq> CHR ''-''" "c \<noteq> CHR ''+''" using n by auto
  have "digit_value c = int ?n - 48" by (simp add: digit_value_def)
  then show "0 \<le> digit_value c" "digit_value c \<le> 9" using n by simp_all
qed

lemma digits_value_foldl: "foldl (\<lambda>n c. 10 * n + digit_value c) k s = k * 10 ^ length s + digits_value s"
proof (induction s arbitrary: k rule: rev_induct)
  case (snoc c s)
  have "digits_value (s @ [c]) = 10 * digits_value s + digit_value c" by (simp add: digits_value_def)
  then show ?case using snoc [of k] by (simp add: algebra_simps)
qed (simp add: digits_value_def)

lemma digits_value_simps: "digits_value [] = 0" "digits_value (c # s) = digit_value c * 10 ^ length s + digits_value s"
  using digits_value_foldl [of "digit_value c" s] by (simp_all add: digits_value_def)

lemma digits_value_append: "digits_value (s @ t) = digits_value s * 10 ^ length t + digits_value t"
  by (induction s) (simp_all add: digits_value_simps algebra_simps power_add)

lemma digits_value_zeros: "digits_value (replicate k (CHR ''0'')) = 0"
  by (induction k) (simp_all add: digits_value_simps digit_value_def)

lemma digits_value_bounds: "list_all isdigit s \<Longrightarrow> 0 \<le> digits_value s \<and> digits_value s < 10 ^ length s"
proof (induction s)
  case (Cons c s)
  then have IH: "0 \<le> digits_value s" "digits_value s < 10 ^ length s" and
    c: "0 \<le> digit_value c" "digit_value c \<le> 9" using isdigit_facts by auto
  have "digit_value c * 10 ^ length s \<le> 9 * 10 ^ length s" using c by (intro mult_right_mono) simp_all
  then have "digit_value c * 10 ^ length s + digits_value s < 10 * 10 ^ length s" using IH by linarith
  then show ?case using IH c by (simp add: digits_value_simps)
qed (simp add: digits_value_simps)

lemma decimal_facts: "list_all isdigit (decimal n) \<and> digits_value (decimal n) = int n \<and> decimal n \<noteq> []"
proof (induction n rule: decimal.induct)
  case (1 n)
  show ?case
  proof (cases "n < 10")
    case True
    then show ?thesis using digit_facts [of n] by (simp add: decimal.simps [of n] digits_value_simps)
  next
    case False
    moreover have "int (n div 10) * 10 + int (n mod 10) = int n"
      by (metis div_mult_mod_eq of_nat_add of_nat_mult of_nat_numeral)
    ultimately show ?thesis
      using 1 digit_facts [of "n mod 10"] by (simp add: decimal.simps [of n] digits_value_append digits_value_simps)
  qed
qed

lemma length_decimal: "n < 10 ^ k \<Longrightarrow> 0 < k \<Longrightarrow> length (decimal n) \<le> k"
proof (induction k arbitrary: n)
  case (Suc k)
  show ?case
  proof (cases "n < 10")
    case True
    then show ?thesis by (simp add: decimal.simps [of n])
  next
    case False
    then have "n div 10 < 10 ^ k" "0 < k" using Suc.prems by (cases k; simp add: less_mult_imp_div_less mult.commute)+
    from Suc.IH [OF this] False show ?thesis by (simp add: decimal.simps [of n])
  qed
qed simp

lemma decimal_padded_facts:
  assumes "n < 10 ^ k" "0 < k"
  shows "list_all isdigit (decimal_padded k n) \<and> digits_value (decimal_padded k n) = int n \<and> length (decimal_padded k n) = k"
  using decimal_facts [of n] length_decimal [OF assms]
  by (auto simp: decimal_padded_def digits_value_append digits_value_zeros list_all_iff isdigit_def)

lemma trim_zeros_digits:
  "list_all isdigit rs \<Longrightarrow> 2 \<le> length rs \<Longrightarrow>
     \<exists>k rs'. trim_zeros (rs @ CHR ''.'' # t) = rs' @ CHR ''.'' # t \<and> rs = replicate k (CHR ''0'') @ rs' \<and> 2 \<le> length rs'"
proof (induction rs)
  case (Cons c rs)
  show ?case
  proof (cases "c = CHR ''0'' \<and> 3 \<le> length (c # rs)")
    case True
    then obtain d e r where rs: "rs = d # e # r" by (cases rs; cases "tl rs") auto
    have "isdigit e" using Cons.prems(1) by (simp add: rs)
    then have "trim_zeros ((c # rs) @ CHR ''.'' # t) = trim_zeros (rs @ CHR ''.'' # t)" using True by (simp add: rs)
    moreover obtain k rs' where "trim_zeros (rs @ CHR ''.'' # t) = rs' @ CHR ''.'' # t"
      "rs = replicate k (CHR ''0'') @ rs'" "2 \<le> length rs'" using Cons rs by auto
    ultimately show ?thesis using True by (intro exI [of _ "Suc k"] exI [of _ rs']) simp
  next
    case False
    obtain d r where rs: "rs = d # r" using Cons.prems(2) by (cases rs) auto
    have "trim_zeros ((c # rs) @ CHR ''.'' # t) = (c # rs) @ CHR ''.'' # t"
    proof (cases r)
      case Nil
      then show ?thesis by (simp add: rs isdigit_def)
    next
      case (Cons e r')
      then show ?thesis using False by (simp add: rs)
    qed
    then show ?thesis using Cons.prems(2) by (intro exI [of _ 0] exI [of _ "c # rs"]) simp
  qed
qed simp

lemma parse_units_digits:
  "list_all isdigit ds \<Longrightarrow> length ds \<le> j \<Longrightarrow>
     parse_units (if j = 0 then 0 else 10 ^ (j - 1)) ds u = ([], u + digits_value ds * 10 ^ (j - length ds))"
proof (induction ds arbitrary: j u)
  case (Cons c ds)
  obtain i where j: "j = Suc i" using Cons.prems(2) by (cases j) auto
  have d: "(10 :: int) ^ i div 10 = (if i = 0 then 0 else 10 ^ (i - 1))" by (cases i) simp_all
  have p: "(10 :: int) ^ i = 10 ^ length ds * 10 ^ (i - length ds)"
    using Cons.prems(2) by (simp add: j power_add [symmetric])
  have "parse_units (10 ^ i) (c # ds) u = parse_units (10 ^ i div 10) ds (u + 10 ^ i * digit_value c)"
    using Cons.prems(1) by simp
  also have "\<dots> = ([], u + 10 ^ i * digit_value c + digits_value ds * 10 ^ (i - length ds))"
    unfolding d using Cons.prems by (intro Cons.IH) (simp_all add: j)
  also have "u + 10 ^ i * digit_value c + digits_value ds * 10 ^ (i - length ds) =
      u + digits_value (c # ds) * 10 ^ (i - length ds)"
    unfolding digits_value_simps distrib_right p by (simp only: ac_simps)
  finally show ?case by (simp add: j)
qed (simp add: digits_value_simps)

lemma parse_whole_digits:
  "list_all isdigit ds \<Longrightarrow> parse_whole (ds @ p) w = parse_whole p (w @ ds)"
  using isdigit_facts by (induction ds arbitrary: w) auto

lemma atoi64_digits:
  assumes "list_all isdigit ds" "digits_value ds < 2 ^ 63"
  shows "atoi64 ds = digits_value ds"
proof -
  have "CHR 0x00 \<notin> set ds" using assms(1) isdigit_facts by (auto simp: list_all_iff)
  then have d: "dropWhile isspace (c_str ds) = ds" using assms(1) isdigit_facts by (cases ds) (auto simp: c_str_id)
  have t: "takeWhile isdigit ds = ds" using assms(1) by (simp add: list_all_iff takeWhile_eq_all_conv)
  have "(case ds of c # r \<Rightarrow> if c = CHR ''-'' then (True, r) else if c = CHR ''+'' then (False, r) else (False, ds)
       | [] \<Rightarrow> (False, ds)) = (False, ds)"
    using assms(1) isdigit_facts by (cases ds) simp_all
  then have "atoi64 ds = min (2 ^ 63 - 1) (digits_value ds)"
    unfolding atoi64_def d Let_def by (simp only: prod.case t if_False)
  then show ?thesis using assms(2) by simp
qed

lemma parse_whole_result:
  "parse_whole p w = Some (p', w', u) \<Longrightarrow> list_all isdigit w \<Longrightarrow> list_all isdigit w'"
  by (induction p w rule: parse_whole.induct) (auto split: if_splits prod.splits)

text \<open>C34: Amounts survive printing and reading: FormatMoney of any amount below ten thousand million coins,
  which is a thousand times the supply, is read back by ParseMoney as the same amount; and whatever
  text ParseMoney accepts, its value lies between zero and that bound, so nothing overflows.\<close>

theorem money_text_roundtrip:
  "(0 \<le> n \<and> n < 10 ^ 18 \<longrightarrow> (\<exists>s. FormatMoney n False = Some s \<and> ParseMoney s = Some n)) \<and>
   (ParseMoney t = Some m \<longrightarrow> 0 \<le> m \<and> m \<le> 10 ^ 18)"
proof (intro conjI impI)
  assume n: "0 \<le> n \<and> n < 10 ^ 18"
  define q r where "q = nat (n div COIN)" and "r = nat (n mod COIN)"
  have "n div COIN < 10 ^ 10" using n by (simp add: COIN_def) linarith
  then have q: "q < 10 ^ 10" using n by (simp add: q_def nat_less_iff)
  have "n mod COIN < 10 ^ 8" by (simp add: COIN_def)
  then have r: "r < 10 ^ 8" by (simp add: r_def nat_less_iff)
  have qr: "int q * COIN + int r = n" using n by (simp add: q_def r_def COIN_def)
  note dq = decimal_facts [of q]
  have dr: "list_all isdigit (decimal_padded 8 r)" "digits_value (decimal_padded 8 r) = int r"
    "length (decimal_padded 8 r) = 8" using decimal_padded_facts [OF r] by simp_all
  have "list_all isdigit (rev (decimal_padded 8 r))" "2 \<le> length (rev (decimal_padded 8 r))"
    using dr by (simp_all add: list_all_iff)
  from trim_zeros_digits [OF this, of "rev (decimal q)"] obtain k rs where
    t: "trim_zeros (rev (decimal_padded 8 r) @ CHR ''.'' # rev (decimal q)) = rs @ CHR ''.'' # rev (decimal q)"
    "rev (decimal_padded 8 r) = replicate k (CHR ''0'') @ rs" by blast
  define ds where "ds = rev rs"
  have pad: "decimal_padded 8 r = ds @ replicate k (CHR ''0'')"
    using arg_cong [OF t(2), of rev] by (simp add: ds_def)
  have ds: "list_all isdigit ds" "length ds + k = 8" "digits_value ds * 10 ^ k = int r"
    using dr by (simp_all add: pad digits_value_append digits_value_zeros)
  let ?s = "decimal q @ CHR ''.'' # ds"
  have "FormatMoney n False = Some ?s"
    using n t(1) by (simp add: FormatMoney_def Let_def q_def [symmetric] r_def [symmetric] ds_def) (auto simp: q_def r_def)
  moreover have "ParseMoney ?s = Some n"
  proof -
    have "CHR 0x00 \<notin> set ?s" using dq ds(1) isdigit_facts by (auto simp: list_all_iff)
    moreover have "dropWhile isspace ?s = ?s" using dq isdigit_facts by (cases "decimal q") auto
    moreover have u: "parse_units (CENT * 10) ds 0 = ([], int r)"
      using parse_units_digits [OF ds(1), of 8 0] ds(2,3) by (simp add: CENT_def) (metis add_diff_cancel_left')
    moreover have "atoi64 (decimal q) = int q" using atoi64_digits [of "decimal q"] dq q by simp
    moreover have "length (decimal q) \<le> 10" using length_decimal [OF q] by simp
    moreover have "int r \<le> COIN" using r by (simp add: COIN_def)
    ultimately show ?thesis
      using dq qr by (simp add: ParseMoney_def c_str_id parse_whole_digits)
  qed
  ultimately show "\<exists>s. FormatMoney n False = Some s \<and> ParseMoney s = Some n" by blast
next
  assume "ParseMoney t = Some m"
  then obtain p w u where p: "parse_whole (dropWhile isspace (c_str t)) [] = Some (p, w, u)" and
    w: "length w \<le> 10" "0 \<le> u" "u \<le> COIN" "m = atoi64 w * COIN + u"
    by (auto simp: ParseMoney_def split: option.splits if_splits)
  have d: "list_all isdigit w" using parse_whole_result [OF p] by simp
  note b = digits_value_bounds [OF d]
  have "(10 :: int) ^ length w \<le> 10 ^ 10" using w(1) by (intro power_increasing) simp_all
  then have v: "digits_value w < 10 ^ 10" using b by linarith
  then have "atoi64 w = digits_value w" using atoi64_digits [OF d] by simp
  then show "0 \<le> m" "m \<le> 10 ^ 18" using w b v by (simp_all add: COIN_def)
qed

theorem money_text_roundtrip_witness:
  "(\<exists>s. FormatMoney 123456789 False = Some s \<and> ParseMoney s = Some 123456789) \<and> ParseMoney ''1.2'' = Some 120000000"
proof
  show "\<exists>s. FormatMoney 123456789 False = Some s \<and> ParseMoney s = Some 123456789"
    using money_text_roundtrip [of 123456789] by simp
  show "ParseMoney ''1.2'' = Some 120000000"
    by (simp add: ParseMoney_def c_str_def isspace_def isdigit_def CENT_def COIN_def atoi64_def digits_value_def
        digit_value_def)
qed

end
