(* ===== verification/SyncCheckpoints.thy ===== *)
theory SyncCheckpoints
  imports Chain TextCode
begin

text \<open>
  The synchronised checkpoints of \<^verbatim>\<open>checkpoints.cpp\<close>: a message signed by the checkpoint master names a block;
  the node follows it when it descends from the checkpoint it has, reorganises to it if it must, and
  from then on refuses blocks that do not descend from it. The variables of the name space are one
  record. A message for a block that is not known yet waits as the pending one. Relaying to peers is
  left out, but for the test whether a peer has it already.
\<close>

section \<open>The message\<close>

record CSyncCheckpoint =
  cpVersion :: u32
  hashCheckpoint :: uint256
  vchMsg :: bytes
  vchSig :: bytes

definition new_CSyncCheckpoint :: CSyncCheckpoint where
  "new_CSyncCheckpoint = \<lparr>cpVersion = 1, hashCheckpoint = 0, vchMsg = [], vchSig = []\<rparr>"

definition CSyncCheckpoint_IsNull :: "CSyncCheckpoint \<Rightarrow> bool" where
  "CSyncCheckpoint_IsNull c \<longleftrightarrow> hashCheckpoint c = 0"

definition ser_CUnsignedSyncCheckpoint :: "CSyncCheckpoint \<Rightarrow> bytes" where
  "ser_CUnsignedSyncCheckpoint c = ser_word (cpVersion c) @ ser_word (hashCheckpoint c)"

definition unser_CUnsignedSyncCheckpoint :: "bytes \<Rightarrow> CSyncCheckpoint \<Rightarrow> CSyncCheckpoint" where
  "unser_CUnsignedSyncCheckpoint s c =
     (let (v, s) = unser_word s; (h, s) = unser_word s in c\<lparr>cpVersion := v, hashCheckpoint := h\<rparr>)"

definition strMainPubKey :: string where
  "strMainPubKey = ''047b13b3ae2132afa4e216671cd1cad76866643049cad069c296235891c1db907bffa319a9ad9a28c54bcd9ab5f5d0f03dac6abac44f227c436c9f66eee2bd38c2''"

definition strTestPubKey :: string where
  "strTestPubKey = ''0460d85a95e4a867be3bbd860b5c699e1017b7090f81d84b4de698bdb2d320ad7d856fe0172b7b486ddf734f21e6f9012f1f1eaa749882009f8675d1a24dc73fe0''"

definition CheckSignature :: "ext \<Rightarrow> env \<Rightarrow> CSyncCheckpoint \<Rightarrow> bool \<times> CSyncCheckpoint" where
  "CheckSignature E N c =
     (let key = ParseHex (if fTestNet N then strTestPubKey else strMainPubKey) in
      if \<not> SetPubKey E key then (False, c)
      else if \<not> CKey_Verify E key (Hash E (vchMsg c)) (vchSig c) then (False, c)
      else (True, unser_CUnsignedSyncCheckpoint (vchMsg c) c))"

text \<open>The result tells whether the message is sent; \<open>known\<close> is what the peer is known to have.\<close>

definition RelayTo :: "CSyncCheckpoint \<Rightarrow> uint256 \<Rightarrow> bool \<times> uint256" where
  "RelayTo c known = (if known \<noteq> hashCheckpoint c then (True, hashCheckpoint c) else (False, known))"

section \<open>The checkpoint of the node\<close>

record syncpoint =
  hashSyncCheckpoint :: uint256
  hashPendingCheckpoint :: uint256
  checkpointMessage :: CSyncCheckpoint
  checkpointMessagePending :: CSyncCheckpoint
  hashInvalidCheckpoint :: uint256
  strMasterPrivKey :: string

definition ValidateSyncCheckpoint :: "BlockMap \<Rightarrow> uint256 \<Rightarrow> syncpoint \<Rightarrow> bool \<times> syncpoint" where
  "ValidateSyncCheckpoint m hash C =
     (case m (hashSyncCheckpoint C) of None \<Rightarrow> (False, C)
      | Some pindexSyncCheckpoint \<Rightarrow>
     (case m hash of None \<Rightarrow> (False, C)
      | Some pindexCheckpointRecv \<Rightarrow>
          if iHeight (hd pindexCheckpointRecv) \<le> iHeight (hd pindexSyncCheckpoint) then
            (case lower_to (iHeight (hd pindexCheckpointRecv)) pindexSyncCheckpoint of None \<Rightarrow> (False, C)
             | Some pindex \<Rightarrow>
                 if iHash (hd pindex) \<noteq> hash then (False, C\<lparr>hashInvalidCheckpoint := hash\<rparr>)
                 else (False, C))
          else
            (case lower_to (iHeight (hd pindexSyncCheckpoint)) pindexCheckpointRecv of None \<Rightarrow> (False, C)
             | Some pindex \<Rightarrow>
                 if iHash (hd pindex) \<noteq> hashSyncCheckpoint C then (False, C\<lparr>hashInvalidCheckpoint := hash\<rparr>)
                 else (True, C))))"

text \<open>Whether beginning the transaction succeeds is not looked at; the handle is closed at the end.\<close>

definition WriteSyncCheckpoint :: "uint256 \<Rightarrow> node \<Rightarrow> syncpoint \<Rightarrow> bool \<times> node \<times> syncpoint" where
  "WriteSyncCheckpoint hash S C =
     (case db_WriteSyncCheckpoint hash (snd (TxnBegin (txdb S))) of
        (False, db) \<Rightarrow> (False, S\<lparr>txdb := CTxDB_Close (snd (TxnAbort db))\<rparr>, C)
      | (True, db) \<Rightarrow>
          (case TxnCommit db of
             (False, db) \<Rightarrow> (False, S\<lparr>txdb := CTxDB_Close db\<rparr>, C)
           | (True, db) \<Rightarrow> (True, S\<lparr>txdb := CTxDB_Close db\<rparr>, C\<lparr>hashSyncCheckpoint := hash\<rparr>)))"

text \<open>Making the block the tip, if it is not on the main chain, through a handle of its own.\<close>

definition follow_checkpoint ::
  "ext \<Rightarrow> bnlib \<Rightarrow> env \<Rightarrow> CBlockIndex list \<Rightarrow> uint256 \<Rightarrow> node \<Rightarrow> syncpoint \<Rightarrow> bool option \<times> node \<times> syncpoint" where
  "follow_checkpoint E B N pindex hash S C =
     (if IsInMainChain S pindex then (Some True, S, C)
      else
        (case CBlock_ReadFromDisk_index E (blkfiles S) pindex True of None \<Rightarrow> (Some False, S, C)
         | Some b \<Rightarrow>
             (case SetBestChain E B N b pindex False False S of
                (Some True, _, S) \<Rightarrow> (Some True, S\<lparr>txdb := CTxDB_Close (txdb S)\<rparr>, C)
              | (Some False, _, S) \<Rightarrow>
                  (Some False, S\<lparr>txdb := CTxDB_Close (txdb S)\<rparr>, C\<lparr>hashInvalidCheckpoint := hash\<rparr>)
              | (None, _, S) \<Rightarrow> (None, S\<lparr>txdb := CTxDB_Close (txdb S)\<rparr>, C))))"

definition AcceptPendingSyncCheckpoint ::
  "ext \<Rightarrow> bnlib \<Rightarrow> env \<Rightarrow> node \<Rightarrow> syncpoint \<Rightarrow> bool option \<times> node \<times> syncpoint" where
  "AcceptPendingSyncCheckpoint E B N S C =
     (if hashPendingCheckpoint C = 0 then (Some False, S, C)
      else
        (case mapBlockIndex S (hashPendingCheckpoint C) of None \<Rightarrow> (Some False, S, C)
         | Some pindex \<Rightarrow>
             (case ValidateSyncCheckpoint (mapBlockIndex S) (hashPendingCheckpoint C) C of
                (False, C) \<Rightarrow>
                  (Some False, S, C\<lparr>hashPendingCheckpoint := 0, checkpointMessagePending := new_CSyncCheckpoint\<rparr>)
              | (True, C) \<Rightarrow>
                  (case follow_checkpoint E B N pindex (hashPendingCheckpoint C) S C of
                     (Some True, S, C) \<Rightarrow>
                       (case WriteSyncCheckpoint (hashPendingCheckpoint C) S C of
                          (False, S, C) \<Rightarrow> (Some False, S, C)
                        | (True, S, C) \<Rightarrow>
                            (Some True, S,
                             C\<lparr>hashPendingCheckpoint := 0, checkpointMessage := checkpointMessagePending C,
                               checkpointMessagePending := new_CSyncCheckpoint\<rparr>))
                   | r \<Rightarrow> r))))"

definition CHECKPOINT_DEFAULT_DEPTH :: int where
  "CHECKPOINT_DEFAULT_DEPTH = 6"

fun select_depth :: "int \<Rightarrow> int \<Rightarrow> CBlockIndex list \<Rightarrow> uint256" where
  "select_depth depth best [] = 0"
| "select_depth depth best (b # pprev) =
     (if pprev \<noteq> [] \<and> iHeight b + depth > best then select_depth depth best pprev else iHash b)"

text \<open>\<open>depth\<close> is the argument \<^verbatim>\<open>-checkpointdepth\<close>. Without a best block the null pointer is read.\<close>

definition AutoSelectSyncCheckpoint :: "int \<Rightarrow> node \<Rightarrow> uint256 option" where
  "AutoSelectSyncCheckpoint depth S =
     (if pindexBest S = [] then None else Some (select_depth depth (iHeight (hd (pindexBest S))) (pindexBest S)))"

text \<open>\<open>None\<close> is the failed assertion.\<close>

definition CheckSync :: "BlockMap \<Rightarrow> syncpoint \<Rightarrow> uint256 \<Rightarrow> CBlockIndex list \<Rightarrow> bool option" where
  "CheckSync m C hashBlock pindexPrev =
     (let nHeight = iHeight (hd pindexPrev) + 1 in
      case m (hashSyncCheckpoint C) of None \<Rightarrow> None
      | Some pindexSync \<Rightarrow>
          let h = iHeight (hd pindexSync);
              descends = (if nHeight > h then
                            (case lower_to h pindexPrev of None \<Rightarrow> False
                             | Some pindex \<Rightarrow>
                                 \<not> (iHeight (hd pindex) < h \<or> iHash (hd pindex) \<noteq> hashSyncCheckpoint C))
                          else True)
          in if \<not> descends then Some False
             else if nHeight = h \<and> hashBlock \<noteq> hashSyncCheckpoint C then Some False
             else if nHeight < h \<and> m hashBlock = None then Some False
             else Some True)"

fun reset_to :: "MapCheckpoints \<Rightarrow> node \<Rightarrow> uint256 option" where
  "reset_to [] S = None"
| "reset_to ((nHeight, hash, t) # r) S =
     (case mapBlockIndex S hash of
        Some p \<Rightarrow> if IsInMainChain S p then Some hash else reset_to r S
      | None \<Rightarrow> reset_to r S)"

text \<open>The checkpoints of the main network are used on both networks.\<close>

definition ResetSyncCheckpoint :: "env \<Rightarrow> node \<Rightarrow> syncpoint \<Rightarrow> bool \<times> node \<times> syncpoint" where
  "ResetSyncCheckpoint N S C =
     (case reset_to (rev mapCheckpoints) S of
        Some hash \<Rightarrow> WriteSyncCheckpoint hash S C
      | None \<Rightarrow> WriteSyncCheckpoint (hashGenesisBlock (fTestNet N)) S C)"

definition IsSyncCheckpointTooOld :: "env \<Rightarrow> node \<Rightarrow> syncpoint \<Rightarrow> int \<Rightarrow> bool option" where
  "IsSyncCheckpointTooOld N S C nSeconds =
     (case mapBlockIndex S (hashSyncCheckpoint C) of None \<Rightarrow> None
      | Some p \<Rightarrow> Some (GetBlockTime (hd p) + nSeconds < GetAdjustedTime N))"

text \<open>What a message from a peer leads to; the result tells whether it is relayed.\<close>

definition ProcessSyncCheckpoint ::
  "ext \<Rightarrow> bnlib \<Rightarrow> env \<Rightarrow> CSyncCheckpoint \<Rightarrow> node \<Rightarrow> syncpoint \<Rightarrow> bool option \<times> CSyncCheckpoint \<times> node \<times> syncpoint" where
  "ProcessSyncCheckpoint E B N c S C =
     (case CheckSignature E N c of
        (False, c) \<Rightarrow> (Some False, c, S, C)
      | (True, c) \<Rightarrow>
          let hash = hashCheckpoint c in
          (case mapBlockIndex S hash of
             None \<Rightarrow> (Some False, c, S, C\<lparr>hashPendingCheckpoint := hash, checkpointMessagePending := c\<rparr>)
           | Some pindex \<Rightarrow>
               (case ValidateSyncCheckpoint (mapBlockIndex S) hash C of
                  (False, C) \<Rightarrow> (Some False, c, S, C)
                | (True, C) \<Rightarrow>
                    (case follow_checkpoint E B N pindex hash S C of
                       (Some True, S, C) \<Rightarrow>
                         (case WriteSyncCheckpoint hash S C of
                            (False, S, C) \<Rightarrow> (Some False, c, S, C)
                          | (True, S, C) \<Rightarrow>
                              (Some True, c, S,
                               C\<lparr>checkpointMessage := c, hashPendingCheckpoint := 0,
                                 checkpointMessagePending := new_CSyncCheckpoint\<rparr>))
                     | (ok, S, C) \<Rightarrow> (ok, c, S, C)))))"

text \<open>The checkpoint master signs with \<^verbatim>\<open>CKey::SetPrivKey\<close> and \<^verbatim>\<open>CKey::Sign\<close>, which are the argument \<open>sign\<close>.\<close>

definition sign_checkpoint ::
  "ext \<Rightarrow> (bytes \<Rightarrow> uint256 \<Rightarrow> bytes option) \<Rightarrow> string \<Rightarrow> uint256 \<Rightarrow> CSyncCheckpoint option" where
  "sign_checkpoint E sign strPrivKey hash =
     (let c = new_CSyncCheckpoint\<lparr>hashCheckpoint := hash\<rparr>;
          c = c\<lparr>vchMsg := ser_CUnsignedSyncCheckpoint c\<rparr>
      in map_option (\<lambda>sg. c\<lparr>vchSig := sg\<rparr>) (sign (ParseHex strPrivKey) (Hash E (vchMsg c))))"

definition SetCheckpointPrivKey ::
  "ext \<Rightarrow> env \<Rightarrow> (bytes \<Rightarrow> uint256 \<Rightarrow> bytes option) \<Rightarrow> string \<Rightarrow> syncpoint \<Rightarrow> bool \<times> syncpoint" where
  "SetCheckpointPrivKey E N sign strPrivKey C =
     (case sign_checkpoint E sign strPrivKey (hashGenesisBlock (fTestNet N)) of
        None \<Rightarrow> (False, C)
      | Some _ \<Rightarrow> (True, C\<lparr>strMasterPrivKey := strPrivKey\<rparr>))"

definition SendSyncCheckpoint ::
  "ext \<Rightarrow> bnlib \<Rightarrow> env \<Rightarrow> (bytes \<Rightarrow> uint256 \<Rightarrow> bytes option) \<Rightarrow> uint256 \<Rightarrow> node \<Rightarrow> syncpoint \<Rightarrow>
    bool option \<times> node \<times> syncpoint" where
  "SendSyncCheckpoint E B N sign hash S C =
     (if strMasterPrivKey C = [] then (Some False, S, C)
      else
        (case sign_checkpoint E sign (strMasterPrivKey C) hash of None \<Rightarrow> (Some False, S, C)
         | Some c \<Rightarrow> (case ProcessSyncCheckpoint E B N c S C of (ok, c, S, C) \<Rightarrow> (ok, S, C))))"

end
