(* ===== verification/Process.thy ===== *)
theory Process
  imports SyncCheckpoints
begin

text \<open>
  New blocks (\<^verbatim>\<open>main.cpp\<close>): \<^verbatim>\<open>AcceptBlock\<close> checks a block against the chain it extends, writes it to the block
  files and adds it to the index; \<^verbatim>\<open>ProcessBlock\<close> takes a block from a peer or a file, keeps it as an orphan
  while its parent is unknown, and accepts the orphans that were waiting for it. What the node tells
  the peer is a list of messages. Relaying, the wallets and the user interface are left out.
\<close>

section \<open>Accepting a block\<close>

datatype CPMode = STRICT | ADVISORY | PERMISSIVE

text \<open>Settings and what the machine offers: the checkpoint mode and depth, the free disk space in bytes, and
  the signing of the checkpoint master.\<close>

record config =
  CheckpointsMode :: CPMode
  checkpointdepth :: int
  diskspace :: nat
  checkpoint_sign :: "bytes \<Rightarrow> uint256 \<Rightarrow> bytes option"

definition BLOCK_LIMITER_TIME :: int where
  "BLOCK_LIMITER_TIME = 120"

definition nSoftForkOne :: int where
  "nSoftForkOne = 270000"

definition nSoftForkTwo :: int where
  "nSoftForkTwo = 340000"

definition nTestnetSoftForkOne :: int where
  "nTestnetSoftForkOne = 3400"

definition nTestnetSoftForkTwo :: int where
  "nTestnetSoftForkTwo = 3500"

definition nSwitchV2 :: u32 where
  "nSwitchV2 = 1406851200"

definition nTestnetSwitchV2 :: u32 where
  "nTestnetSwitchV2 = 1404777600"

definition nMinDiskSpace :: nat where
  "nMinDiskSpace = 52428800"

definition CheckDiskSpace :: "config \<Rightarrow> nat \<Rightarrow> bool" where
  "CheckDiskSpace G nAdditionalBytes \<longleftrightarrow> \<not> diskspace G < nMinDiskSpace + nAdditionalBytes"

text \<open>\<^verbatim>\<open>std::equal\<close> reads as many bytes as the first range has; \<open>None\<close> is reading behind the end of the second.\<close>

fun std_equal :: "bytes \<Rightarrow> bytes \<Rightarrow> bool option" where
  "std_equal [] ys = Some True"
| "std_equal (x # xs) [] = None"
| "std_equal (x # xs) (y # ys) = (if x = y then std_equal xs ys else Some False)"

text \<open>The checks up to soft fork 1, which need the chain only. \<open>Inl\<close> is a refusal with its score; \<open>None\<close> where the
  code has no defined behaviour.\<close>

definition check_height_rules ::
  "bnlib \<Rightarrow> env \<Rightarrow> CBlock \<Rightarrow> CBlockIndex list \<Rightarrow> bool \<Rightarrow> (int + unit) option \<times> bool" where
  "check_height_rules B N b pindexPrev fNeo =
     (let nHeight = iHeight (hd pindexPrev) + 1;
          v2 = (fTestNet N \<and> nTime b > nTestnetSwitchV2) \<or> (\<not> fTestNet N \<and> nTime b > nSwitchV2)
      in case (if v2 then std_equal (push_int64 B [] nHeight) (scriptSig (hd (vin (hd (vtx b))))) else Some True) of
           None \<Rightarrow> (None, fNeo)
         | Some False \<Rightarrow> (Some (Inl 100), fNeo)
         | Some True \<Rightarrow>
             if (nHeight \<ge> nForkFive \<or> (fTestNet N \<and> nHeight \<ge> nTestnetForkTwo)) \<and> bVersion b \<noteq> 2
             then (Some (Inl 100), fNeo)
             else
               (case GetNextWorkRequired B (fTestNet N) pindexPrev (nTime b) fNeo of
                  (None, fNeo) \<Rightarrow> (None, fNeo)
                | (Some bits, fNeo) \<Rightarrow>
                    if nBits b \<noteq> bits then (Some (Inl 100), fNeo) else (Some (Inr ()), fNeo)))"

definition check_times ::
  "env \<Rightarrow> CBlock \<Rightarrow> CBlockIndex list \<Rightarrow> (int + unit) option" where
  "check_times N b pindexPrev =
     (case GetMedianTimePast pindexPrev of None \<Rightarrow> None
      | Some median \<Rightarrow>
          let nHeight = iHeight (hd pindexPrev) + 1;
              nOurTime = (word_of_int (GetAdjustedTime N) :: u32)
          in if nTime b \<le> word_of_int median then Some (Inl 20)
             else if (fTestNet N \<and> nHeight \<ge> nTestnetSoftForkOne) \<or> nHeight \<ge> nSoftForkOne then
               (if nTime b > nOurTime + 10 * 60 then Some (Inl 5)
                else if uint (nTime b) \<le> median + BLOCK_LIMITER_TIME then Some (Inl 5)
                else if uint (nTime b) \<le> GetBlockTime (hd pindexPrev) - 10 * 60 then Some (Inl 20)
                else Some (Inr ()))
             else Some (Inr ()))"

text \<open>Soft fork 2, when the node is not loading the chain for the first time.\<close>

definition check_future :: "env \<Rightarrow> CBlock \<Rightarrow> CBlockIndex list \<Rightarrow> int + unit" where
  "check_future N b pindexPrev =
     (let nHeight = iHeight (hd pindexPrev) + 1;
          nOurTime = (word_of_int (GetAdjustedTime N) :: u32)
      in if (fTestNet N \<and> nHeight \<ge> nTestnetSoftForkTwo) \<or> nHeight \<ge> nSoftForkTwo then
           (if nTime b > nOurTime + 5 * 60 then Inl 5
            else if nTime b > nOurTime + 60 \<and>
                    uint (GetAverageTimePast pindexPrev 5 45) + BLOCK_LIMITER_TIME > uint nOurTime then Inl 5
            else Inr ())
         else Inr ())"

text \<open>Storing and indexing.\<close>

definition store_block ::
  "ext \<Rightarrow> bnlib \<Rightarrow> env \<Rightarrow> config \<Rightarrow> CBlock \<Rightarrow> CChainImportBatch option \<Rightarrow> node \<Rightarrow>
    bool option \<times> CBlock \<times> CChainImportBatch option \<times> node" where
  "store_block E B N G b pBatch S =
     (if \<not> CheckDiskSpace G (size_CBlock b) then (Some False, b, pBatch, S)
      else
        (case CBlock_WriteToDisk (fTestNet N) (blkfiles S) (nCurrentBlockFile S) b of
           (None, files, cur) \<Rightarrow> (Some False, b, pBatch, S\<lparr>blkfiles := files, nCurrentBlockFile := cur\<rparr>)
         | (Some (nFile, nBlockPos), files, cur) \<Rightarrow>
             AddToBlockIndex E B N b nFile nBlockPos pBatch (S\<lparr>blkfiles := files, nCurrentBlockFile := cur\<rparr>)))"

text \<open>In the advisory mode a block that violates the checkpoint sets a warning, which is left out with the other messages
  to the user.\<close>

definition AcceptBlock ::
  "ext \<Rightarrow> bnlib \<Rightarrow> env \<Rightarrow> config \<Rightarrow> CBlock \<Rightarrow> CChainImportBatch option \<Rightarrow> node \<Rightarrow> syncpoint \<Rightarrow>
    bool option \<times> CBlock \<times> CChainImportBatch option \<times> node \<times> syncpoint" where
  "AcceptBlock E B N G b pBatch S C =
     (let hash = CBlock_GetHash E b;
          refused = (\<lambda>d S. case CBlock_DoS b d False of (r, b) \<Rightarrow> (Some r, b, pBatch, S, C))
      in if mapBlockIndex S hash \<noteq> None then (Some False, b, pBatch, S, C)
      else
        (case mapBlockIndex S (hashPrevBlock b) of None \<Rightarrow> refused 10 S
         | Some pindexPrev \<Rightarrow>
        (case check_height_rules B N b pindexPrev (fNeoScrypt S) of
           (None, fNeo) \<Rightarrow> (None, b, pBatch, S\<lparr>fNeoScrypt := fNeo\<rparr>, C)
         | (Some (Inl d), fNeo) \<Rightarrow> refused d (S\<lparr>fNeoScrypt := fNeo\<rparr>)
         | (Some (Inr _), fNeo) \<Rightarrow>
        let S = S\<lparr>fNeoScrypt := fNeo\<rparr>; nHeight = iHeight (hd pindexPrev) + 1 in
        (case check_times N b pindexPrev of None \<Rightarrow> (None, b, pBatch, S, C)
         | Some (Inl d) \<Rightarrow> refused d S
         | Some (Inr _) \<Rightarrow>
        (case IsInitialBlockDownload N S of (initial, S) \<Rightarrow>
        (case (if initial then Inr () else check_future N b pindexPrev) of Inl d \<Rightarrow> refused d S
         | Inr _ \<Rightarrow>
        if \<not> list_all (\<lambda>tx. IsFinal (nBestHeight S) (GetAdjustedTime N) tx nHeight (uint (nTime b))) (vtx b) then refused 10 S
        else if \<not> CheckHardened (fTestNet N) nHeight hash then refused 100 S
        else
        (case IsInitialBlockDownload N S of (initial, S) \<Rightarrow>
        (case (if initial then Some True else CheckSync (mapBlockIndex S) C hash pindexPrev) of
           None \<Rightarrow> (None, b, pBatch, S, C)
         | Some cpSatisfies \<Rightarrow>
        if CheckpointsMode G = STRICT \<and> \<not> cpSatisfies then (Some False, b, pBatch, S, C)
        else
        (case store_block E B N G b pBatch S of
           (Some True, b, pBatch, S) \<Rightarrow>
             if (case pBatch of None \<Rightarrow> False | Some T \<Rightarrow> fActive T) then (Some True, b, pBatch, S, C)
             else
               (case IsInitialBlockDownload N S of (initial, S) \<Rightarrow>
                  if initial then (Some True, b, pBatch, S, C)
                  else
                    (case AcceptPendingSyncCheckpoint E B N S C of
                       (None, S, C) \<Rightarrow> (None, b, pBatch, S, C)
                     | (Some _, S, C) \<Rightarrow> (Some True, b, pBatch, S, C)))
         | (r, b, pBatch, S) \<Rightarrow> (r, b, pBatch, S, C))))))))))"

section \<open>Orphan blocks\<close>

text \<open>The second map is a multimap: the entries with one key are in the order of their insertion.\<close>

record orphan_blocks =
  mapOrphanBlocks :: "uint256 \<rightharpoonup> CBlock"
  mapOrphanBlocksByPrev :: "(uint256 \<times> CBlock) list"

text \<open>The first block of a chain of orphans; the search does not end when the hashes form a circle.\<close>

partial_function (option) orphan_root :: "orphan_blocks \<Rightarrow> CBlock \<Rightarrow> CBlock option" where
  "orphan_root O' pblock =
     (case mapOrphanBlocks O' (hashPrevBlock pblock) of
        None \<Rightarrow> Some pblock
      | Some b \<Rightarrow> orphan_root O' b)"

definition GetOrphanRoot :: "ext \<Rightarrow> orphan_blocks \<Rightarrow> CBlock \<Rightarrow> uint256 option" where
  "GetOrphanRoot E O' pblock = map_option (CBlock_GetHash E) (orphan_root O' pblock)"

definition WantedByOrphan :: "orphan_blocks \<Rightarrow> CBlock \<Rightarrow> uint256 option" where
  "WantedByOrphan O' pblock = map_option hashPrevBlock (orphan_root O' pblock)"

section \<open>Processing a block\<close>

text \<open>What the peer that sent the block gets: a request for the blocks up to one, a request for a block, a
  score of misbehaviour.\<close>

datatype ask = PushGetBlocks "CBlockIndex list" uint256 | AskFor uint256 | Misbehaving int

definition AskForPendingSyncCheckpoint :: "node \<Rightarrow> syncpoint \<Rightarrow> orphan_blocks \<Rightarrow> ask list" where
  "AskForPendingSyncCheckpoint S C O' =
     (if hashPendingCheckpoint C \<noteq> 0 \<and> mapBlockIndex S (hashPendingCheckpoint C) = None \<and>
         mapOrphanBlocks O' (hashPendingCheckpoint C) = None
      then [AskFor (hashPendingCheckpoint C)] else [])"

text \<open>The orphans that wait for one block: the hashes of those accepted.\<close>

fun accept_orphans ::
  "ext \<Rightarrow> bnlib \<Rightarrow> env \<Rightarrow> config \<Rightarrow> CBlock list \<Rightarrow> node \<Rightarrow> syncpoint \<Rightarrow> (uint256 \<rightharpoonup> CBlock) \<Rightarrow>
    uint256 list option \<times> node \<times> syncpoint \<times> (uint256 \<rightharpoonup> CBlock)" where
  "accept_orphans E B N G [] S C m = (Some [], S, C, m)"
| "accept_orphans E B N G (b # r) S C m =
     (case AcceptBlock E B N G b None S C of
        (None, _, _, S, C) \<Rightarrow> (None, S, C, m)
      | (Some ok, _, _, S, C) \<Rightarrow>
          (case accept_orphans E B N G r S C (m(CBlock_GetHash E b := None)) of
             (hs, S, C, m) \<Rightarrow> (map_option (\<lambda>hs. if ok then CBlock_GetHash E b # hs else hs) hs, S, C, m)))"

lemma accept_orphans_length:
  "accept_orphans E B N G bs S C m = (Some hs, S', C', m') \<Longrightarrow> length hs \<le> length bs"
proof (induction bs arbitrary: S C m hs S' C' m')
  case (Cons b r)
  obtain a b1 T S1 C1 where a: "AcceptBlock E B N G b None S C = (a, b1, T, S1, C1)" by (metis surj_pair)
  obtain hs1 S2 C2 m2 where r: "accept_orphans E B N G r S1 C1 (m(CBlock_GetHash E b := None)) = (hs1, S2, C2, m2)"
    by (metis surj_pair)
  from Cons.prems obtain k where "hs1 = Some k" "length hs \<le> Suc (length k)"
    by (cases a) (auto simp: a r split: if_splits)
  with Cons.IH [OF r [unfolded this(1)]] show ?case by simp
qed simp

definition by_prev :: "(uint256 \<times> CBlock) list \<Rightarrow> uint256 \<Rightarrow> CBlock list" where
  "by_prev l h = map snd (filter (\<lambda>(k, b). k = h) l)"

lemma by_prev_length: "length (by_prev l h) + length (filter (\<lambda>(k, b). k \<noteq> h) l) = length l"
  by (induction l) (auto simp: by_prev_def)

text \<open>The work queue, from the hash at its head.\<close>

function work_queue ::
  "ext \<Rightarrow> bnlib \<Rightarrow> env \<Rightarrow> config \<Rightarrow> uint256 list \<Rightarrow> node \<Rightarrow> syncpoint \<Rightarrow> orphan_blocks \<Rightarrow>
    bool \<times> node \<times> syncpoint \<times> orphan_blocks" where
  "work_queue E B N G [] S C O' = (True, S, C, O')"
| "work_queue E B N G (hashPrev # q) S C O' =
     (case accept_orphans E B N G (by_prev (mapOrphanBlocksByPrev O') hashPrev) S C (mapOrphanBlocks O') of
        (None, S, C, m) \<Rightarrow> (False, S, C, O'\<lparr>mapOrphanBlocks := m\<rparr>)
      | (Some hs, S, C, m) \<Rightarrow>
          work_queue E B N G (q @ hs) S C
            (O'\<lparr>mapOrphanBlocks := m,
               mapOrphanBlocksByPrev := filter (\<lambda>(k, b). k \<noteq> hashPrev) (mapOrphanBlocksByPrev O')\<rparr>))"
  by pat_completeness auto

termination
proof (relation "measure (\<lambda>(E, B, N, G, q, S, C, O'). length q + 2 * length (mapOrphanBlocksByPrev O'))", simp, goal_cases)
  case prems: (1 E B N G hashPrev q S C O' r y hs S' y' C' m)
  have "length hs \<le> length (by_prev (mapOrphanBlocksByPrev O') hashPrev)"
    using accept_orphans_length [of E B N G "by_prev (mapOrphanBlocksByPrev O') hashPrev" S C "mapOrphanBlocks O'"
        hs S' C' m] prems by metis
  then show ?case using by_prev_length [of "mapOrphanBlocksByPrev O'" hashPrev] by simp
qed

declare work_queue.simps [simp del]

definition ProcessBlock ::
  "ext \<Rightarrow> bnlib \<Rightarrow> env \<Rightarrow> config \<Rightarrow> bool \<Rightarrow> CBlock \<Rightarrow> CChainImportBatch option \<Rightarrow> node \<Rightarrow> syncpoint \<Rightarrow> orphan_blocks \<Rightarrow>
    bool option \<times> CBlock \<times> CChainImportBatch option \<times> node \<times> syncpoint \<times> orphan_blocks \<times> ask list" where
  "ProcessBlock E B N G pfrom b pBatch S C O' =
     (let hash = CBlock_GetHash E b in
      if mapBlockIndex S hash \<noteq> None then (Some False, b, pBatch, S, C, O', [])
      else if mapOrphanBlocks O' hash \<noteq> None then (Some False, b, pBatch, S, C, O', [])
      else
        (case (if pfrom then IsInitialBlockDownload N S else (True, S)) of (initial, S) \<Rightarrow>
         let asks = (if initial then [] else AskForPendingSyncCheckpoint S C O') in
        (case CheckBlock E B N True True b of (ok, b) \<Rightarrow>
         if \<not> ok then (Some False, b, pBatch, S, C, O', asks)
         else if (case GetLastCheckpoint (fTestNet N) (mapBlockIndex S) of None \<Rightarrow> False
                  | Some p \<Rightarrow> hashPrevBlock b \<noteq> hashBestChain S \<and> uint (nTime b) - uint (iTime (hd p)) < 0)
         then (Some False, b, pBatch, S, C, O', asks @ (if pfrom then [Misbehaving 100] else []))
         else if mapBlockIndex S (hashPrevBlock b) = None then
           (if pfrom then
              let O' = O'\<lparr>mapOrphanBlocks := (mapOrphanBlocks O')(hash \<mapsto> b),
                          mapOrphanBlocksByPrev := mapOrphanBlocksByPrev O' @ [(hashPrevBlock b, b)]\<rparr>
              in (case GetOrphanRoot E O' b of None \<Rightarrow> (None, b, pBatch, S, C, O', asks)
                  | Some first \<Rightarrow>
                      (case IsInitialBlockDownload N S of (initial, S) \<Rightarrow>
                         (Some True, b, pBatch, S, C, O',
                          asks @ [PushGetBlocks (pindexBest S) first] @
                          (if initial then [] else [AskFor (the (WantedByOrphan O' b))]))))
            else (Some True, b, pBatch, S, C, O', asks))
         else
           (case AcceptBlock E B N G b pBatch S C of
              (Some True, b, pBatch, S, C) \<Rightarrow>
                (case work_queue E B N G [hash] S C O' of
                   (False, S, C, O') \<Rightarrow> (None, b, pBatch, S, C, O', asks)
                 | (True, S, C, O') \<Rightarrow>
                     if pfrom \<and> strMasterPrivKey C \<noteq> [] then
                       (case AutoSelectSyncCheckpoint (checkpointdepth G) S of
                          None \<Rightarrow> (None, b, pBatch, S, C, O', asks)
                        | Some h \<Rightarrow>
                            (case SendSyncCheckpoint E B N (checkpoint_sign G) h S C of
                               (None, S, C) \<Rightarrow> (None, b, pBatch, S, C, O', asks)
                             | (Some _, S, C) \<Rightarrow> (Some True, b, pBatch, S, C, O', asks)))
                     else (Some True, b, pBatch, S, C, O', asks))
            | (r, b, pBatch, S, C) \<Rightarrow> (r, b, pBatch, S, C, O', asks)))))"

end
