(* ===== verification/NodeSafety.thy ===== *)
theory NodeSafety
  imports ChainInv Process
begin

text \<open>
  The node as a whole: processing blocks, in whatever order they come, keeps the invariant of
  \<^verbatim>\<open>ChainInv\<close>. The blocks a node may see are a set in which no block uses an identifier of a transaction of
  a block below it. There is no pending synchronised checkpoint: following one can move the node to a
  chain with less work.
\<close>

section \<open>The blocks in play\<close>

inductive ancestor :: "ext \<Rightarrow> CBlock set \<Rightarrow> CBlock \<Rightarrow> CBlock \<Rightarrow> bool" for E :: ext and X :: "CBlock set" where
  parent: "a \<in> X \<Longrightarrow> b \<in> X \<Longrightarrow> hashPrevBlock b = CBlock_GetHash E a \<Longrightarrow> ancestor E X a b"
| older: "ancestor E X a b \<Longrightarrow> ancestor E X b c \<Longrightarrow> ancestor E X a c"

definition block_ids :: "ext \<Rightarrow> CBlock \<Rightarrow> uint256 set" where
  "block_ids E b = GetHash E ` set (vtx b)"

text \<open>Two blocks of the Bitcoin chain are exempt from the rule on repeated identifiers.\<close>

definition universe_ok :: "ext \<Rightarrow> CBlock set \<Rightarrow> bool" where
  "universe_ok E X \<longleftrightarrow>
     (\<forall>x\<in>X. block_fits x \<and> (\<forall>h. fEnforceBIP30 h (Some (CBlock_GetHash E x)))) \<and>
     (\<forall>a b. ancestor E X a b \<longrightarrow> block_ids E a \<inter> block_ids E b = {})"

text \<open>A block up to what is cached in it.\<close>

definition in_play :: "ext \<Rightarrow> CBlock set \<Rightarrow> CBlock \<Rightarrow> bool" where
  "in_play E X b \<longleftrightarrow>
     (\<exists>x\<in>X. CBlock_GetHash E x = CBlock_GetHash E b \<and> hashPrevBlock x = hashPrevBlock b \<and> vtx x = vtx b)"

definition covered :: "ext \<Rightarrow> CBlock set \<Rightarrow> BlockMap \<Rightarrow> files \<Rightarrow> bool" where
  "covered E X m files \<longleftrightarrow>
     (\<forall>h p. m h = Some p \<longrightarrow> tl p \<noteq> [] \<longrightarrow>
        (\<exists>x\<in>X. CBlock_GetHash E x = h \<and> hashPrevBlock x = iHash (hd (tl p)) \<and> vtx x = entry_txs E files p))"

lemma covered_ancestor:
  assumes "tree_ok E m files" "covered E X m files"
  shows "m (iHash (hd p)) = Some p \<Longrightarrow> x \<in> X \<Longrightarrow> hashPrevBlock x = iHash (hd p) \<Longrightarrow> q \<in> set (branch p) \<Longrightarrow>
    \<exists>y. ancestor E X y x \<and> vtx y = entry_txs E files q"
proof (induction p arbitrary: x)
  case (Cons e p)
  have pne: "p \<noteq> []" using Cons.prems(4) by (auto split: if_splits)
  then obtain y where y: "y \<in> X" "CBlock_GetHash E y = iHash e" "hashPrevBlock y = iHash (hd p)"
    "vtx y = entry_txs E files (e # p)"
    using assms(2) Cons.prems(1) by (fastforce simp: covered_def)
  have yx: "ancestor E X y x" using y(1,2) Cons.prems(2,3) by (auto intro: ancestor.parent)
  show ?case
  proof (cases "q = e # p")
    case True
    then show ?thesis using yx y(4) by blast
  next
    case False
    then have "q \<in> set (branch p)" using Cons.prems(4) pne by simp
    moreover have "m (iHash (hd p)) = Some p" using tree_parent [OF assms(1) Cons.prems(1)] pne by simp
    ultimately obtain z where "ancestor E X z y" "vtx z = entry_txs E files q" using Cons.IH y(1,3) by blast
    then show ?thesis using yx ancestor.older by blast
  qed
qed simp

lemma covered_fresh:
  assumes "universe_ok E X" "tree_ok E m files" "covered E X m files" "in_play E X b" "m (hashPrevBlock b) = Some p"
  shows "fresh_ids E files b p"
proof -
  obtain x where x: "x \<in> X" "hashPrevBlock x = hashPrevBlock b" "vtx x = vtx b" using assms(4) by (auto simp: in_play_def)
  have p: "iHash (hd p) = hashPrevBlock b" using tree_entry [OF assms(2,5)] by blast
  have "GetHash E tx \<notin> entry_ids E files q" if tx: "tx \<in> set (vtx b)" and q: "q \<in> set (branch p)" for tx q
  proof -
    obtain y where y: "ancestor E X y x" "vtx y = entry_txs E files q"
      using covered_ancestor [OF assms(2,3) _ x(1) _ q] assms(5) p x(2) by auto
    then have "block_ids E y \<inter> block_ids E x = {}" using assms(1) by (auto simp: universe_ok_def)
    then show ?thesis using tx x(3) y(2) by (auto simp: block_ids_def entry_ids_def)
  qed
  then show ?thesis by (simp add: fresh_ids_def list_all_iff)
qed

lemma in_play_fits:
  assumes "universe_ok E X" "in_play E X b"
  shows "block_fits b" "fEnforceBIP30 h (Some (CBlock_GetHash E b))"
  using assms by (auto simp: in_play_def universe_ok_def block_fits_def)

lemma covered_grows:
  assumes "tree_ok E m files" "covered E X m files" "grows files files'"
  shows "covered E X m files'"
  unfolding covered_def
proof (intro allI impI)
  fix h p assume m: "m h = Some p" "tl p \<noteq> []"
  obtain b where "block_at E files p b" using tree_entry [OF assms(1) m(1)] m(2) by (auto simp: entry_ok_def)
  from entry_txs_grows [OF this assms(3)] show "\<exists>x\<in>X. CBlock_GetHash E x = h \<and> hashPrevBlock x = iHash (hd (tl p)) \<and>
      vtx x = entry_txs E files' p"
    using assms(2) m by (simp add: covered_def)
qed

section \<open>Accepting a block\<close>

definition good_node :: "ext \<Rightarrow> bnlib \<Rightarrow> bool \<Rightarrow> CBlock set \<Rightarrow> node \<Rightarrow> bool" where
  "good_node E B T X S \<longleftrightarrow> node_ok E B T S \<and> covered E X (mapBlockIndex S) (blkfiles S)"

lemma good_node_quiet [simp]:
  "good_node E B T X (S\<lparr>fNeoScrypt := f\<rparr>) = good_node E B T X S"
  "good_node E B T X (S\<lparr>pindexLastBest := l, nLastUpdate := t\<rparr>) = good_node E B T X S"
  by (simp_all add: good_node_def node_ok_def)

lemma good_node_download [simp]: "good_node E B T X (snd (IsInitialBlockDownload N S)) = good_node E B T X S"
proof -
  obtain l t where "snd (IsInitialBlockDownload N S) = S\<lparr>pindexLastBest := l, nLastUpdate := t\<rparr>"
    using IsInitialBlockDownload_eq by blast
  then show ?thesis by simp
qed

lemma AddToBlockIndex_batch: "AddToBlockIndex E B N b nFile nBlockPos None S = (r, b', T, S') \<Longrightarrow> T = None"
  by (auto simp: AddToBlockIndex_def Let_def split: if_splits prod.splits option.splits bool.splits)

lemma store_block_good:
  assumes "universe_ok E X" "good_node E B (fTestNet N) X S" "in_play E X b" "size_CBlock b \<le> MAX_BLOCK_SIZE"
    "mapBlockIndex S (hashPrevBlock b) \<noteq> None" "store_block E B N G b None S = (r, b', T, S')"
  shows "good_node E B (fTestNet N) X S' \<and> T = None"
proof (cases "CheckDiskSpace G (size_CBlock b)")
  case False
  then show ?thesis using assms(2,6) by (simp add: store_block_def)
next
  case True
  have ok: "node_ok E B (fTestNet N) S" and cov: "covered E X (mapBlockIndex S) (blkfiles S)"
    using assms(2) by (simp_all add: good_node_def)
  obtain place files cur where w: "CBlock_WriteToDisk (fTestNet N) (blkfiles S) (nCurrentBlockFile S) b = (place, files, cur)"
    by (metis surj_pair)
  let ?S = "S\<lparr>blkfiles := files, nCurrentBlockFile := cur\<rparr>"
  show ?thesis
  proof (cases place)
    case None
    then have "files = blkfiles S" using w by (auto simp: CBlock_WriteToDisk_def Let_def split: prod.splits option.splits)
    then have "good_node E B (fTestNet N) X ?S"
      using node_ok_grows [OF ok grows_refl, of cur] cov by (simp add: good_node_def)
    then show ?thesis using assms(6) True w None by (simp add: store_block_def)
  next
    case (Some pl)
    obtain nFile nBlockPos where pl: "pl = (nFile, nBlockPos)" by fastforce
    note st = WriteToDisk_stored [OF w [unfolded Some pl] assms(4)]
    have ok': "node_ok E B (fTestNet N) ?S" using node_ok_grows [OF ok st(2)] .
    have cov': "covered E X (mapBlockIndex S) files" using covered_grows [OF node_okD(1) [OF ok] cov st(2)] .
    have a: "AddToBlockIndex E B N b nFile nBlockPos None ?S = (r, b', T, S')"
      using assms(6) True w by (simp add: store_block_def Some pl)
    obtain pprev where pp: "mapBlockIndex S (hashPrevBlock b) = Some pprev" using assms(5) by blast
    show ?thesis
    proof (cases "r = Some True")
      case True
      have "fresh_ids E files b pprev"
        using covered_fresh [OF assms(1) node_okD(1) [OF ok', simplified] cov' assms(3) pp] by simp
      then obtain p where p: "node_ok E B (fTestNet N) S'" "blkfiles S' = files"
        "mapBlockIndex S' = (mapBlockIndex S)(CBlock_GetHash E b \<mapsto> p)" "tl p = pprev"
        "entry_txs E files p = vtx b"
        using AddToBlockIndex_ok [OF ok' a [unfolded True] _ _ in_play_fits(1) [OF assms(1,3)]
            in_play_fits(2) [OF assms(1,3)], of pprev] pp st(1) by auto
      obtain x where x: "x \<in> X" "CBlock_GetHash E x = CBlock_GetHash E b" "hashPrevBlock x = hashPrevBlock b" "vtx x = vtx b"
        using assms(3) by (auto simp: in_play_def)
      have "iHash (hd pprev) = hashPrevBlock b" using tree_entry [OF node_okD(1) [OF ok] pp] by blast
      then have "covered E X (mapBlockIndex S') (blkfiles S')"
        using cov' x p(2-5) unfolding covered_def by (auto simp: p(3) split: if_splits)
      then show ?thesis using p(1) AddToBlockIndex_batch [OF a] by (simp add: good_node_def)
    next
      case False
      have t: "no_trace ?S S'" using failed_block_no_trace [OF ok' a False] pp by simp
      then have "mapBlockIndex S' = mapBlockIndex S" "blkfiles S' = files"
        by (cases S; cases S'; simp add: no_trace_def)+
      then show ?thesis using no_trace_ok [OF ok' t] cov' AddToBlockIndex_batch [OF a] by (simp add: good_node_def)
    qed
  qed
qed

text \<open>Without a pending checkpoint, \<^verbatim>\<open>AcceptBlock\<close> changes the node only by storing the block.\<close>

lemma AcceptBlock_safe:
  assumes "universe_ok E X" "good_node E B (fTestNet N) X S" "in_play E X b" "size_CBlock b \<le> MAX_BLOCK_SIZE"
    "hashPendingCheckpoint C = 0" "AcceptBlock E B N G b None S C = (r, b', T, S', C')"
  shows "good_node E B (fTestNet N) X S' \<and> C' = C \<and> T = None"
proof (cases "mapBlockIndex S (CBlock_GetHash E b) = None \<and> mapBlockIndex S (hashPrevBlock b) \<noteq> None")
  case False
  obtain r1 b1 where d: "CBlock_DoS b 10 False = (r1, b1)" by fastforce
  show ?thesis
  proof (cases "mapBlockIndex S (CBlock_GetHash E b)")
    case None
    then have "mapBlockIndex S (hashPrevBlock b) = None" using False by simp
    then show ?thesis using assms(2,6) None by (simp add: AcceptBlock_def d)
  qed (use assms(2,6) in \<open>simp add: AcceptBlock_def\<close>)
next
  case True
  then obtain p where p: "mapBlockIndex S (CBlock_GetHash E b) = None" "mapBlockIndex S (hashPrevBlock b) = Some p" by blast
  obtain res f where h: "check_height_rules B N b p (fNeoScrypt S) = (res, f)" by fastforce
  let ?S = "S\<lparr>fNeoScrypt := f\<rparr>"
  obtain i1 S1 where d1: "IsInitialBlockDownload N ?S = (i1, S1)" by fastforce
  obtain i2 S2 where d2: "IsInitialBlockDownload N S1 = (i2, S2)" by fastforce
  have g0: "good_node E B (fTestNet N) X ?S" using assms(2) by simp
  have g1: "good_node E B (fTestNet N) X S1" using good_node_download [of E B "fTestNet N" X N ?S] g0 by (simp add: d1)
  have g2: "good_node E B (fTestNet N) X S2" using good_node_download [of E B "fTestNet N" X N S1] g1 by (simp add: d2)
  have m: "mapBlockIndex S2 = mapBlockIndex S"
    using IsInitialBlockDownload_eq [of N ?S] IsInitialBlockDownload_eq [of N S1] by (auto simp: d1 d2)
  obtain r3 b3 T3 S3 where st: "store_block E B N G b None S2 = (r3, b3, T3, S3)" by (metis surj_pair)
  have g3: "good_node E B (fTestNet N) X S3" "T3 = None"
    using store_block_good [OF assms(1) g2 assms(3,4) _ st] p m by simp_all
  obtain i4 S4 where d4: "IsInitialBlockDownload N S3 = (i4, S4)" by fastforce
  have g4: "good_node E B (fTestNet N) X S4" using good_node_download [of E B "fTestNet N" X N S3] g3 by (simp add: d4)
  have pend: "AcceptPendingSyncCheckpoint E B N S4 C = (Some False, S4, C)"
    using assms(5) by (simp add: AcceptPendingSyncCheckpoint_def)
  show ?thesis
    using assms(6) g0 g1 g2 g3 g4
    unfolding AcceptBlock_def Let_def
    by (auto simp: p h d1 d2 st d4 pend split: option.splits sum.splits if_splits prod.splits bool.splits)
qed

section \<open>Orphans\<close>

definition waiting_ok :: "ext \<Rightarrow> CBlock set \<Rightarrow> CBlock list \<Rightarrow> bool" where
  "waiting_ok E X bs \<longleftrightarrow> list_all (\<lambda>b. in_play E X b \<and> size_CBlock b \<le> MAX_BLOCK_SIZE) bs"

lemma accept_orphans_safe:
  assumes "universe_ok E X" "hashPendingCheckpoint C = 0"
  shows "good_node E B (fTestNet N) X S \<Longrightarrow> waiting_ok E X bs \<Longrightarrow>
    accept_orphans E B N G bs S C m = (hs, S', C', m') \<Longrightarrow> good_node E B (fTestNet N) X S' \<and> C' = C"
proof (induction bs arbitrary: S m hs S' C' m')
  case (Cons b r)
  obtain a b1 T S1 C1 where a: "AcceptBlock E B N G b None S C = (a, b1, T, S1, C1)" by (metis surj_pair)
  have s: "good_node E B (fTestNet N) X S1" "C1 = C"
    using AcceptBlock_safe [OF assms(1) Cons.prems(1) _ _ assms(2) a] Cons.prems(2) by (simp_all add: waiting_ok_def)
  obtain hs1 S2 C2 m2 where r: "accept_orphans E B N G r S1 C (m(CBlock_GetHash E b := None)) = (hs1, S2, C2, m2)"
    by (metis surj_pair)
  have "good_node E B (fTestNet N) X S2 \<and> C2 = C"
    by (rule Cons.IH [OF s(1) _ r]) (use Cons.prems(2) in \<open>simp add: waiting_ok_def\<close>)
  then show ?case using Cons.prems(3) s by (cases a) (auto simp: a r)
qed simp

lemma waiting_by_prev: "waiting_ok E X (map snd l) \<Longrightarrow> waiting_ok E X (by_prev l h)"
  by (auto simp: waiting_ok_def by_prev_def list_all_iff)

lemma waiting_filter: "waiting_ok E X (map snd l) \<Longrightarrow> waiting_ok E X (map snd (filter P l))"
  by (auto simp: waiting_ok_def list_all_iff)

lemma work_queue_safe:
  "universe_ok E X \<Longrightarrow> hashPendingCheckpoint C = 0 \<Longrightarrow> good_node E B (fTestNet N) X S \<Longrightarrow>
    waiting_ok E X (map snd (mapOrphanBlocksByPrev O')) \<Longrightarrow>
    work_queue E B N G q S C O' = (ok, S', C', O'') \<Longrightarrow>
    good_node E B (fTestNet N) X S' \<and> C' = C \<and> waiting_ok E X (map snd (mapOrphanBlocksByPrev O''))"
proof (induction E B N G q S C O' rule: work_queue.induct)
  case (1 E B N G S C O')
  then show ?case by (simp add: work_queue.simps)
next
  case (2 E B N G h q S C O')
  obtain hs S1 C1 m where a: "accept_orphans E B N G (by_prev (mapOrphanBlocksByPrev O') h) S C (mapOrphanBlocks O')
      = (hs, S1, C1, m)" by (metis surj_pair)
  have s: "good_node E B (fTestNet N) X S1" "C1 = C"
    using accept_orphans_safe [OF "2.prems"(1-3) waiting_by_prev [OF "2.prems"(4)] a] by simp_all
  show ?case
  proof (cases hs)
    case None
    then show ?thesis using "2.prems"(4,5) s a by (auto simp: work_queue.simps)
  next
    case (Some l)
    have "good_node E B (fTestNet N) X S' \<and> C' = C1 \<and> waiting_ok E X (map snd (mapOrphanBlocksByPrev O''))"
      by (rule "2.IH" [OF a [symmetric] Some refl refl])
        (use "2.prems" s a Some waiting_filter in \<open>simp_all add: work_queue.simps\<close>)
    then show ?thesis using s(2) by simp
  qed
qed

lemma in_play_cong:
  "vtx b = vtx b' \<Longrightarrow> block_header b = block_header b' \<Longrightarrow> hashPrevBlock b = hashPrevBlock b' \<Longrightarrow>
    in_play E X b = in_play E X b'"
  by (simp add: in_play_def CBlock_GetHash_def)

section \<open>Processing a block\<close>

lemma header_prev:
  assumes "block_header b = block_header b'"
  shows "hashPrevBlock b = hashPrevBlock b'"
proof -
  have "mem (hashPrevBlock b) = mem (hashPrevBlock b')"
    using assms append_eq_append_conv [of "mem (bVersion b)" "mem (bVersion b')"]
      append_eq_append_conv [of "mem (hashPrevBlock b)" "mem (hashPrevBlock b')"]
    by (simp add: block_header_def ser_word_def del: append_eq_append_conv)
  then have "of_mem (mem (hashPrevBlock b)) = (of_mem (mem (hashPrevBlock b')) :: uint256)" by (rule arg_cong)
  then show ?thesis by (simp add: of_mem_mem)
qed

lemma checked_block:
  assumes "CheckBlock E B N True True b = (True, b')" "in_play E X b"
  shows "in_play E X b'" "size_CBlock b' \<le> MAX_BLOCK_SIZE" "hashPrevBlock b' = hashPrevBlock b"
    "CBlock_GetHash E b' = CBlock_GetHash E b"
proof -
  have f: "vtx b' = vtx b" "block_header b' = block_header b"
    using CheckBlock_fields [of E B N True True b] assms(1) by simp_all
  show h: "hashPrevBlock b' = hashPrevBlock b" by (rule header_prev [OF f(2)])
  show "CBlock_GetHash E b' = CBlock_GetHash E b" by (simp add: CBlock_GetHash_def f(2))
  show "in_play E X b'" using in_play_cong [OF f h] assms(2) by simp
  have "size_CBlock b \<le> MAX_BLOCK_SIZE"
    using CheckBlock_iff [of E B N True True b] assms(1) by (simp add: block_ok_def)
  then show "size_CBlock b' \<le> MAX_BLOCK_SIZE" using f(1) by (simp add: size_CBlock_def)
qed

lemma ProcessBlock_safe:
  assumes "universe_ok E X" "good_node E B (fTestNet N) X S" "in_play E X b" "hashPendingCheckpoint C = 0"
    "strMasterPrivKey C = []" "waiting_ok E X (map snd (mapOrphanBlocksByPrev O'))"
    "ProcessBlock E B N G pfrom b None S C O' = (r, b', T, S', C', O'', asks)"
  shows "good_node E B (fTestNet N) X S' \<and> C' = C \<and> waiting_ok E X (map snd (mapOrphanBlocksByPrev O''))"
proof (cases "mapBlockIndex S (CBlock_GetHash E b) = None \<and> mapOrphanBlocks O' (CBlock_GetHash E b) = None")
  case False
  then show ?thesis using assms by (auto simp: ProcessBlock_def Let_def split: if_splits)
next
  case True
  obtain i1 S1 where d1: "(if pfrom then IsInitialBlockDownload N S else (True, S)) = (i1, S1)" by fastforce
  have g1: "good_node E B (fTestNet N) X S1"
    using good_node_download [of E B "fTestNet N" X N S] assms(2) d1 by (metis snd_conv)
  obtain ok b1 where c: "CheckBlock E B N True True b = (ok, b1)" by fastforce
  obtain i2 S2 where d2: "IsInitialBlockDownload N S1 = (i2, S2)" by fastforce
  have g2: "good_node E B (fTestNet N) X S2" using good_node_download [of E B "fTestNet N" X N S1] g1 by (simp add: d2)
  obtain r3 b3 T3 S3 C3 where a: "AcceptBlock E B N G b1 None S1 C = (r3, b3, T3, S3, C3)" by (metis surj_pair)
  obtain ok4 S4 C4 O4 where w: "work_queue E B N G [CBlock_GetHash E b] S3 C3 O' = (ok4, S4, C4, O4)" by (metis surj_pair)
  note P = assms(7) [unfolded ProcessBlock_def Let_def, simplified True d1 c d2 a w prod.case, simplified]
  show ?thesis
  proof (cases ok)
    case False
    then show ?thesis using P g1 assms by simp
  next
    case ok: True
    have "CheckBlock E B N True True b = (True, b1)" using c ok by simp
    note k = checked_block [OF this assms(3)]
    have g3: "good_node E B (fTestNet N) X S3" "C3 = C"
      using AcceptBlock_safe [OF assms(1) g1 k(1,2) assms(4) a] by simp_all
    have g4: "good_node E B (fTestNet N) X S4" "C4 = C" "waiting_ok E X (map snd (mapOrphanBlocksByPrev O4))"
      using work_queue_safe [OF assms(1) _ _ assms(6) w] g3 assms(4) by simp_all
    have new: "waiting_ok E X (map snd (mapOrphanBlocksByPrev O' @ [(hashPrevBlock b1, b1)]))"
      using assms(6) k(1,2) by (simp add: waiting_ok_def)
    show ?thesis
      using P ok g1 g2 g3 g4 new assms(5,6) by (auto split: if_splits option.splits bool.splits)
  qed
qed

section \<open>A run\<close>

text \<open>Blocks processed one after the other, each in its own environment, from a peer or not.\<close>

fun process_all ::
  "ext \<Rightarrow> bnlib \<Rightarrow> (env \<times> config \<times> bool \<times> CBlock) list \<Rightarrow> node \<Rightarrow> syncpoint \<Rightarrow> orphan_blocks \<Rightarrow>
    node \<times> syncpoint \<times> orphan_blocks" where
  "process_all E B [] S C O' = (S, C, O')"
| "process_all E B ((N, G, pfrom, b) # run) S C O' =
     (case ProcessBlock E B N G pfrom b None S C O' of
        (_, _, _, S, C, O', _) \<Rightarrow> process_all E B run S C O')"

definition run_in_play :: "ext \<Rightarrow> bool \<Rightarrow> CBlock set \<Rightarrow> (env \<times> config \<times> bool \<times> CBlock) list \<Rightarrow> bool" where
  "run_in_play E T X run \<longleftrightarrow> list_all (\<lambda>(N, G, pfrom, b). fTestNet N = T \<and> in_play E X b) run"

lemma process_all_safe:
  "universe_ok E X \<Longrightarrow> good_node E B T X S \<Longrightarrow> run_in_play E T X run \<Longrightarrow> hashPendingCheckpoint C = 0 \<Longrightarrow>
    strMasterPrivKey C = [] \<Longrightarrow> waiting_ok E X (map snd (mapOrphanBlocksByPrev O')) \<Longrightarrow>
    process_all E B run S C O' = (S', C', O'') \<Longrightarrow> good_node E B T X S'"
proof (induction E B run S C O' rule: process_all.induct)
  case (2 E B N G pfrom b run S C O')
  obtain r b1 T1 S1 C1 O1 asks where p: "ProcessBlock E B N G pfrom b None S C O' = (r, b1, T1, S1, C1, O1, asks)"
    by (metis surj_pair)
  have T: "T = fTestNet N" "in_play E X b" "run_in_play E T X run" using "2.prems"(3) by (auto simp: run_in_play_def)
  have s: "good_node E B T X S1" "C1 = C" "waiting_ok E X (map snd (mapOrphanBlocksByPrev O1))"
    using ProcessBlock_safe [OF "2.prems"(1) _ T(2) "2.prems"(4-6) p] "2.prems"(2) by (simp_all add: T(1))
  show ?case
    by (rule "2.IH" [OF p [symmetric] refl refl refl refl refl])
      (use "2.prems" s T p in simp_all)
qed simp

section \<open>Properties\<close>

text \<open>C1: Whatever blocks arrive in whatever order, the tip of the chain has the most work of the blocks in
  the index, no transaction is left open, the database names the tip and holds the index, and its unspent
  outputs are those the transactions of the main chain give, from the first block after genesis on.\<close>

theorem node_run_ledger:
  assumes "universe_ok E X" "good_node E B T X S" "run_in_play E T X run" "hashPendingCheckpoint C = 0"
    "strMasterPrivKey C = []" "mapOrphanBlocksByPrev O' = []" "process_all E B run S C O' = (S', C', O'')"
  shows "mapBlockIndex S' (hashBestChain S') = Some (pindexBest S') \<and>
    (\<forall>h p. mapBlockIndex S' h = Some p \<longrightarrow> iChainWork (hd p) \<le> iChainWork (hd (pindexBest S'))) \<and>
    active (txdb S') = None \<and> dbBest (view (txdb S')) = Some (hashBestChain S') \<and>
    dbBlock (view (txdb S')) = disk_index (mapBlockIndex S') (pnext S') \<and>
    apply_txs E (concat (map (entry_txs E (blkfiles S')) (rev (branch (pindexBest S'))))) {} =
      Some (utxo (dbTx (view (txdb S'))))"
proof -
  have "good_node E B T X S'" using process_all_safe [OF assms(1-5) _ assms(7)] assms(6) by (simp add: waiting_ok_def)
  then have ok: "node_ok E B T S'" by (simp add: good_node_def)
  note D = node_okD [OF ok]
  obtain bs where bs: "map vtx bs = map (entry_txs E (blkfiles S')) (branch (pindexBest S'))"
    "straight E B T (blkfiles S') bs (dbTx (view (txdb S')))"
    using D(11) unfolding ledger_ok_def by blast
  have "apply_txs E (concat (map (entry_txs E (blkfiles S')) (rev (branch (pindexBest S'))))) {} =
      Some (utxo (dbTx (view (txdb S'))))"
    using straight_ledger [OF bs(2)] bs(1) by (simp add: rev_map [symmetric])
  then show ?thesis using D(2,3,8-10) by simp
qed

text \<open>C7: Every entry of the index is a chain of blocks: it stands under the hash of its header, its height is
  the number of blocks below it, the entry before it is in the index too, and its block is read back from the
  block files, with that hash.\<close>

theorem block_index_tree:
  assumes "universe_ok E X" "good_node E B T X S" "run_in_play E T X run" "hashPendingCheckpoint C = 0"
    "strMasterPrivKey C = []" "mapOrphanBlocksByPrev O' = []" "process_all E B run S C O' = (S', C', O'')"
    "mapBlockIndex S' h = Some p"
  shows "p \<noteq> [] \<and> iHash (hd p) = h \<and> CDiskBlockIndex_GetBlockHash E (CDiskBlockIndex_of p 0) = h \<and>
    iHeight (hd p) = int (length (tl p)) \<and>
    (tl p = [] \<or> mapBlockIndex S' (iHash (hd (tl p))) = Some (tl p) \<and>
       (\<exists>b. CBlock_ReadFromDisk_index E (blkfiles S') p True = Some b \<and> CBlock_GetHash E b = h))"
proof -
  have "good_node E B T X S'" using process_all_safe [OF assms(1-5) _ assms(7)] assms(6) by (simp add: waiting_ok_def)
  then have t: "tree_ok E (mapBlockIndex S') (blkfiles S')" using node_okD(1) by (auto simp: good_node_def)
  note e = tree_entry [OF t assms(8)]
  have "iHeight (hd p) = int (length (tl p))" using tree_height [OF t] assms(8) e by (simp add: length_branch)
  moreover have "\<exists>b. CBlock_ReadFromDisk_index E (blkfiles S') p True = Some b \<and> CBlock_GetHash E b = h"
    if "tl p \<noteq> []"
  proof -
    have "Ex (block_at E (blkfiles S') p)" using that e by (simp add: entry_ok_def)
    then obtain b where "block_at E (blkfiles S') p b" by blast
    from block_at_read [OF this] show ?thesis using e by (metis block_at_def)
  qed
  ultimately show ?thesis using e by (auto simp: entry_ok_def)
qed

text \<open>C2: A block that is not accepted leaves no trace: index, links, tip, memory pool and block files are what
  they were, and the database is again the one before, whichever step failed - an error on the disk, a block
  that does not connect, a branch that fails after others were disconnected - but for the record of the best
  invalid work.\<close>

theorem refused_block_restores:
  assumes "node_ok E B T S" "AddToBlockIndex E B N b nFile nBlockPos None S = (r, b', pb, S')" "r \<noteq> Some True"
    "mapBlockIndex S (hashPrevBlock b) \<noteq> None"
  shows "mapBlockIndex S' = mapBlockIndex S \<and> pnext S' = pnext S \<and> pindexBest S' = pindexBest S \<and>
    hashBestChain S' = hashBestChain S \<and> nBestHeight S' = nBestHeight S \<and> bnBestChainWork S' = bnBestChainWork S \<and>
    pindexGenesisBlock S' = pindexGenesisBlock S \<and> mempool S' = mempool S \<and> blkfiles S' = blkfiles S \<and>
    active (txdb S') = None \<and>
    (\<exists>w. view (txdb S') = (view (txdb S))\<lparr>dbInvalidWork := w\<rparr>)"
proof -
  have "no_trace S S'" by (rule failed_block_no_trace [OF assms])
  then show ?thesis unfolding no_trace_def same_store_def by (cases S; cases S') auto
qed

section \<open>A concrete node\<close>

definition sample_genesis :: CBlockIndex where
  "sample_genesis = \<lparr>iHash = 2, iFile = 1, iBlockPos = 0, iHeight = 0, iChainWork = 1, iVersion = 2, iMerkleRoot = 0,
     iTime = 1400000000, iBits = 0x01050000, iNonce = 0\<rparr>"

definition start_node :: "nat \<Rightarrow> node" where
  "start_node n = \<lparr>mapBlockIndex = [2 \<mapsto> [sample_genesis]], pnext = Map.empty, pindexGenesisBlock = [sample_genesis],
     pindexBest = [sample_genesis], pblockindexFBBHLast = [], hashBestChain = 2, nBestHeight = 0, bnBestChainWork = 1,
     bnBestInvalidWork = 0, nTimeBestReceived = 0, mapWorkCache = Map.empty, fNeoScrypt = False, nLastUpdate = 0,
     pindexLastBest = [], blkfiles = Map.empty, nCurrentBlockFile = 1,
     txdb = \<lparr>view = \<lparr>dbTx = Map.empty, dbBlock = [2 \<mapsto> CDiskBlockIndex_of [sample_genesis] 0], dbBest = Some 2,
       dbInvalidWork = 0, dbSyncCheckpoint = None\<rparr>, active = None, room = n\<rparr>,
     mempool = empty_pool, sigs_cache = \<lparr>setValid = [], draws = 0\<rparr>\<rparr>"

definition second_block :: CBlock where
  "second_block = (coinbase_block ext_ref 0)\<lparr>bVersion := 2, hashPrevBlock := 2\<rparr>"

lemma Hash_ext_ref: "Hash ext_ref x = of_mem (take 32 (x @ replicate 32 0))"
  by (simp add: Hash_def ext_ref_def mem_uint256 min_def)

lemma block_hash_ext_ref: "CBlock_GetHash ext_ref b = of_mem (mem (bVersion b) @ take 28 (mem (hashPrevBlock b)))"
  by (simp add: CBlock_GetHash_def Hash_ext_ref block_header_def ser_word_def)

lemma sample_mem: "mem (0 :: uint256) = replicate 32 0" "mem (2 :: uint256) = 2 # replicate 31 0"
  "mem (2 :: u32) = [2, 0, 0, 0]"
  by code_simp+

lemma of_mem_sample: "mem (w :: uint256) = x \<Longrightarrow> of_mem x = w"
  using of_mem_mem [where 'a = 256, of w] by simp

lemma le_bytes_numeral: "le_bytes (numeral k) n = word_of_nat n # le_bytes (pred_numeral k) (n div 256)"
  by (simp only: numeral_eq_Suc le_bytes.simps)

lemma replicate_numeral: "replicate (numeral k) x = x # replicate (pred_numeral k) x"
  by (simp only: numeral_eq_Suc replicate_Suc)

lemma sample_mem_bytes: "mem (2 :: uint256) = [2, 0, 0, 0] @ take 28 (replicate 32 0)"
  "mem (8589934594 :: uint256) = [2, 0, 0, 0] @ take 28 (2 # replicate 31 0)"
  by (simp_all add: mem_def le_bytes_numeral replicate_numeral)

lemmas sample_of_mem = sample_mem_bytes [THEN of_mem_sample]

lemma sample_genesis_hash: "CDiskBlockIndex_GetBlockHash ext_ref (CDiskBlockIndex_of [sample_genesis] 0) = 2"
  using sample_of_mem(1)
  by (simp add: CDiskBlockIndex_GetBlockHash_def block_hash_ext_ref CDiskBlockIndex_of_def CBlockIndex.defs
      CDiskBlockIndex.defs sample_genesis_def sample_mem)

lemma start_node_ok: "node_ok ext_ref bn_ref False (start_node n)"
  using sample_genesis_hash straight.genesis
  by (auto simp: node_ok_def start_node_def tree_ok_def entry_ok_def chain_next_def disk_index_def ledger_ok_def
      sample_genesis_def link_def)

lemma second_block_hash: "CBlock_GetHash ext_ref second_block = 8589934594"
  using sample_of_mem(2) by (simp add: block_hash_ext_ref second_block_def sample_mem)

lemma second_block_parts: "hashPrevBlock second_block = 2" "vtx second_block = [sample_coinbase\<lparr>nDoS := 0\<rparr>]"
  by (simp_all add: second_block_def coinbase_block_def)

lemma no_ancestor: "ancestor ext_ref {second_block} a b \<Longrightarrow> False"
  by (induction rule: ancestor.induct) (simp_all add: second_block_hash second_block_parts)

lemma second_block_fits: "block_fits second_block"
  by (simp add: block_fits_def second_block_parts sample_coinbase_def tx_fits_def script_fits_def MAX_SIZE_def)

lemma start_good: "good_node ext_ref bn_ref False {second_block} (start_node n)"
  using start_node_ok by (simp add: good_node_def covered_def start_node_def)

lemma start_universe: "universe_ok ext_ref {second_block}"
  using no_ancestor second_block_fits by (auto simp: universe_ok_def fEnforceBIP30_def second_block_hash)

definition start_syncpoint :: syncpoint where
  "start_syncpoint = \<lparr>hashSyncCheckpoint = 2, hashPendingCheckpoint = 0, checkpointMessage = new_CSyncCheckpoint,
     checkpointMessagePending = new_CSyncCheckpoint, hashInvalidCheckpoint = 0, strMasterPrivKey = []\<rparr>"

definition no_orphans :: orphan_blocks where
  "no_orphans = \<lparr>mapOrphanBlocks = Map.empty, mapOrphanBlocksByPrev = []\<rparr>"

definition sample_config :: config where
  "sample_config = \<lparr>CheckpointsMode = STRICT, checkpointdepth = 6, diskspace = 1000000000,
     checkpoint_sign = (\<lambda>k h. None)\<rparr>"

definition sample_run :: "(env \<times> config \<times> bool \<times> CBlock) list" where
  "sample_run = [(sample_env, sample_config, True, second_block)]"

lemma sample_run_in_play: "run_in_play ext_ref False {second_block} sample_run"
  by (simp add: run_in_play_def sample_run_def in_play_def sample_env_def)

lemmas sample_start = start_universe start_good sample_run_in_play

lemma start_fields: "hashPendingCheckpoint start_syncpoint = 0" "strMasterPrivKey start_syncpoint = []"
  "mapOrphanBlocksByPrev no_orphans = []"
  by (simp_all add: start_syncpoint_def no_orphans_def)

theorem node_run_ledger_witness:
  "\<exists>S' C' O''. process_all ext_ref bn_ref sample_run (start_node 100) start_syncpoint no_orphans = (S', C', O'') \<and>
     mapBlockIndex S' (hashBestChain S') = Some (pindexBest S') \<and>
     apply_txs ext_ref (concat (map (entry_txs ext_ref (blkfiles S')) (rev (branch (pindexBest S'))))) {} =
       Some (utxo (dbTx (view (txdb S'))))"
proof -
  obtain S' C' O'' where p: "process_all ext_ref bn_ref sample_run (start_node 100) start_syncpoint no_orphans = (S', C', O'')"
    by (metis surj_pair)
  then show ?thesis using node_run_ledger [OF sample_start start_fields p] by blast
qed

theorem block_index_tree_witness:
  "\<exists>S' C' O'' p. process_all ext_ref bn_ref sample_run (start_node 100) start_syncpoint no_orphans = (S', C', O'') \<and>
     mapBlockIndex S' (hashBestChain S') = Some p \<and> p \<noteq> [] \<and> iHash (hd p) = hashBestChain S' \<and>
     iHeight (hd p) = int (length (tl p))"
proof -
  obtain S' C' O'' where p: "process_all ext_ref bn_ref sample_run (start_node 100) start_syncpoint no_orphans = (S', C', O'')"
    by (metis surj_pair)
  have "good_node ext_ref bn_ref False {second_block} S'"
    using process_all_safe [OF sample_start start_fields(1,2) _ p] start_fields(3) by (simp add: waiting_ok_def)
  then have "mapBlockIndex S' (hashBestChain S') = Some (pindexBest S')" using node_okD(3) by (auto simp: good_node_def)
  then show ?thesis using block_index_tree [OF sample_start start_fields p] p by blast
qed

theorem refused_block_restores_witness:
  "\<exists>b' pb S'. AddToBlockIndex ext_ref bn_ref sample_env second_block 1 8 None (start_node 0) = (Some False, b', pb, S') \<and>
     mapBlockIndex S' = [2 \<mapsto> [sample_genesis]] \<and> hashBestChain S' = 2"
proof -
  obtain r b' pb S' where a: "AddToBlockIndex ext_ref bn_ref sample_env second_block 1 8 None (start_node 0) = (r, b', pb, S')"
    by (metis surj_pair)
  obtain work cache where w: "GetBlockWork bn_ref (nBits second_block) Map.empty = (work, cache)" by fastforce
  have r: "r = Some False"
    using a by (simp add: AddToBlockIndex_def Let_def start_node_def second_block_hash second_block_parts w
        write_entry_def TxnBegin_def)
  have "mapBlockIndex (start_node 0) (hashPrevBlock second_block) \<noteq> None"
    by (simp add: start_node_def second_block_parts)
  from refused_block_restores [OF start_node_ok a _ this] r a show ?thesis by (simp add: start_node_def sample_env_def)
qed

end
