(* ===== verification/SyncSafety.thy ===== *)
theory SyncSafety
  imports NodeSafety
begin

text \<open>
  What a synchronised checkpoint promises: messages and the pending checkpoint move it only to a block above the one
  it is at, on a signature of the checkpoint master; only the reset, when the key of the master has changed, can take it
  elsewhere, to a hardened checkpoint or the genesis block; and a block \<^verbatim>\<open>CheckSync\<close> lets pass is on top of it.
\<close>

section \<open>Blocks above a checkpoint\<close>

definition above :: "BlockMap \<Rightarrow> uint256 \<Rightarrow> uint256 \<Rightarrow> bool" where
  "above m h k \<longleftrightarrow>
     (case (m h, m k) of (Some p, Some q) \<Rightarrow> q \<noteq> p \<and> suffix q p | _ \<Rightarrow> False)"

lemma above_trans: "above m h k \<Longrightarrow> above m k l \<Longrightarrow> above m h l"
  unfolding above_def by (auto split: option.splits dest: suffix_order.antisym intro: suffix_order.trans)

lemma lower_to_tree:
  assumes "tree_ok E m files" "m h = Some p" "lower_to n p = Some q" "iHash (hd q) = k"
  shows "m k = Some q \<and> suffix q p"
proof -
  have "suffix q p" "q \<noteq> []" using lower_to_suffix [OF assms(3)] by simp_all
  moreover have "m (iHash (hd p)) = Some p" using tree_entry [OF assms(1,2)] assms(2) by simp
  ultimately show ?thesis using tree_suffix [OF assms(1)] assms(4) by blast
qed

lemma ValidateSyncCheckpoint_fields:
  "hashSyncCheckpoint (snd (ValidateSyncCheckpoint m h C)) = hashSyncCheckpoint C"
  by (simp add: ValidateSyncCheckpoint_def split: option.split)

lemma ValidateSyncCheckpoint_above:
  assumes "tree_ok E m files" "ValidateSyncCheckpoint m h C = (True, C')"
  shows "above m h (hashSyncCheckpoint C)"
proof -
  obtain q p d where f: "m (hashSyncCheckpoint C) = Some q" "m h = Some p" "iHeight (hd q) < iHeight (hd p)"
    "lower_to (iHeight (hd q)) p = Some d" "iHash (hd d) = hashSyncCheckpoint C"
    using assms(2) by (auto simp: ValidateSyncCheckpoint_def split: option.splits if_splits)
  from lower_to_tree [OF assms(1) f(2,4,5)] have "d = q" "suffix q p" using f(1) by simp_all
  then show ?thesis using f by (auto simp: above_def)
qed

lemma WriteSyncCheckpoint_hash:
  "WriteSyncCheckpoint h S C = (ok, S', C') \<Longrightarrow>
    hashSyncCheckpoint C' = (if ok then h else hashSyncCheckpoint C) \<and> mapBlockIndex S' = mapBlockIndex S"
  by (auto simp: WriteSyncCheckpoint_def split: prod.splits bool.splits)

lemma follow_checkpoint_hash:
  "follow_checkpoint E B N p h S C = (r, S', C') \<Longrightarrow> hashSyncCheckpoint C' = hashSyncCheckpoint C"
  by (auto simp: follow_checkpoint_def split: option.splits prod.splits bool.splits if_splits)

lemma follow_checkpoint_pending:
  "follow_checkpoint E B N p h S C = (r, S', C') \<Longrightarrow>
    hashPendingCheckpoint C' = hashPendingCheckpoint C \<and> checkpointMessagePending C' = checkpointMessagePending C"
  by (auto simp: follow_checkpoint_def split: option.splits prod.splits bool.splits if_splits)

lemma ValidateSyncCheckpoint_pending:
  "ValidateSyncCheckpoint m h C = (v, C') \<Longrightarrow>
    hashPendingCheckpoint C' = hashPendingCheckpoint C \<and> checkpointMessagePending C' = checkpointMessagePending C"
  by (auto simp: ValidateSyncCheckpoint_def split: option.splits if_splits)

lemma WriteSyncCheckpoint_pending:
  "WriteSyncCheckpoint h S C = (ok, S', C') \<Longrightarrow>
    hashPendingCheckpoint C' = hashPendingCheckpoint C \<and> checkpointMessagePending C' = checkpointMessagePending C"
  by (auto simp: WriteSyncCheckpoint_def split: prod.splits bool.splits)

section \<open>The pending checkpoint\<close>

text \<open>A pending checkpoint is the block that a message with a valid signature names.\<close>

definition pending_signed :: "ext \<Rightarrow> env \<Rightarrow> syncpoint \<Rightarrow> bool" where
  "pending_signed E N C \<longleftrightarrow> hashPendingCheckpoint C = 0 \<or>
     CheckSignature E N (checkpointMessagePending C) = (True, checkpointMessagePending C) \<and>
     hashCheckpoint (checkpointMessagePending C) = hashPendingCheckpoint C"

lemma pending_signed_cong:
  "hashPendingCheckpoint C' = hashPendingCheckpoint C \<and> checkpointMessagePending C' = checkpointMessagePending C \<Longrightarrow>
    pending_signed E N C' = pending_signed E N C"
  by (simp add: pending_signed_def)

lemma CheckSignature_again: "CheckSignature E N c = (True, c') \<Longrightarrow> CheckSignature E N c' = (True, c')"
  by (auto simp: CheckSignature_def Let_def unser_CUnsignedSyncCheckpoint_def split: if_splits prod.splits)

section \<open>Moves\<close>

lemma process_moves:
  assumes "tree_ok E (mapBlockIndex S) (blkfiles S)" "ProcessSyncCheckpoint E B N c S C = (r, c', S', C')"
  shows "(hashSyncCheckpoint C' = hashSyncCheckpoint C \<or>
     r = Some True \<and> fst (CheckSignature E N c) \<and> hashSyncCheckpoint C' = hashCheckpoint c' \<and>
     above (mapBlockIndex S) (hashSyncCheckpoint C') (hashSyncCheckpoint C)) \<and>
    (fst (CheckSignature E N c) \<or> r = Some False \<and> S' = S \<and> C' = C)"
proof -
  obtain ok c1 where s: "CheckSignature E N c = (ok, c1)" by fastforce
  obtain v C1 where v: "ValidateSyncCheckpoint (mapBlockIndex S) (hashCheckpoint c1) C = (v, C1)" by fastforce
  have h1: "hashSyncCheckpoint C1 = hashSyncCheckpoint C"
    using ValidateSyncCheckpoint_fields [of "mapBlockIndex S" "hashCheckpoint c1" C] by (simp add: v)
  show ?thesis
  proof (cases "ok \<and> v")
    case False
    then show ?thesis
      using assms(2) h1 by (cases ok; cases v) (auto simp: ProcessSyncCheckpoint_def s v Let_def split: option.splits)
  next
    case True
    have ab: "above (mapBlockIndex S) (hashCheckpoint c1) (hashSyncCheckpoint C)"
      using ValidateSyncCheckpoint_above [OF assms(1), of "hashCheckpoint c1" C C1] v True by simp
    obtain p where p: "mapBlockIndex S (hashCheckpoint c1) = Some p" using ab by (auto simp: above_def split: option.splits)
    obtain f S2 C2 where f: "follow_checkpoint E B N p (hashCheckpoint c1) S C1 = (f, S2, C2)" by (metis surj_pair)
    obtain w S3 C3 where w: "WriteSyncCheckpoint (hashCheckpoint c1) S2 C2 = (w, S3, C3)" by (metis surj_pair)
    note H = follow_checkpoint_hash [OF f] WriteSyncCheckpoint_hash [OF w] h1
    show ?thesis
      using assms(2) True H ab
      by (auto simp: ProcessSyncCheckpoint_def s v p f w Let_def split: option.splits bool.splits)
  qed
qed

lemma process_pending:
  assumes "ProcessSyncCheckpoint E B N c S C = (r, c', S', C')" "pending_signed E N C"
  shows "pending_signed E N C'"
proof -
  obtain ok c1 where s: "CheckSignature E N c = (ok, c1)" by fastforce
  obtain v C1 where v: "ValidateSyncCheckpoint (mapBlockIndex S) (hashCheckpoint c1) C = (v, C1)" by fastforce
  have p1: "pending_signed E N C1"
    using pending_signed_cong [OF ValidateSyncCheckpoint_pending [OF v], of E N] assms(2) by simp
  show ?thesis
  proof (cases "ok \<and> mapBlockIndex S (hashCheckpoint c1) \<noteq> None \<and> v")
    case False
    then show ?thesis using assms p1 CheckSignature_again [of E N c c1]
      by (cases ok; cases v; cases "mapBlockIndex S (hashCheckpoint c1)")
        (auto simp: ProcessSyncCheckpoint_def s v Let_def, auto simp: pending_signed_def s)
  next
    case True
    then obtain p where p: "mapBlockIndex S (hashCheckpoint c1) = Some p" by blast
    obtain f S2 C2 where f: "follow_checkpoint E B N p (hashCheckpoint c1) S C1 = (f, S2, C2)" by (metis surj_pair)
    obtain w S3 C3 where w: "WriteSyncCheckpoint (hashCheckpoint c1) S2 C2 = (w, S3, C3)" by (metis surj_pair)
    have p2: "pending_signed E N C2" "pending_signed E N C3"
      using pending_signed_cong [OF follow_checkpoint_pending [OF f], of E N]
        pending_signed_cong [OF WriteSyncCheckpoint_pending [OF w], of E N] p1 by simp_all
    have z: "pending_signed E N (C3\<lparr>checkpointMessage := c', hashPendingCheckpoint := 0,
        checkpointMessagePending := new_CSyncCheckpoint\<rparr>)" for c'
      by (simp add: pending_signed_def)
    show ?thesis
      using assms(1) True p2 z
      by (auto simp: ProcessSyncCheckpoint_def s v p f w Let_def split: option.splits bool.splits)
  qed
qed

lemma accept_moves:
  assumes "tree_ok E (mapBlockIndex S) (blkfiles S)" "AcceptPendingSyncCheckpoint E B N S C = (r, S', C')"
  shows "(hashSyncCheckpoint C' = hashSyncCheckpoint C \<or>
     r = Some True \<and> hashPendingCheckpoint C \<noteq> 0 \<and> hashSyncCheckpoint C' = hashPendingCheckpoint C \<and>
     above (mapBlockIndex S) (hashSyncCheckpoint C') (hashSyncCheckpoint C)) \<and>
    (pending_signed E N C \<longrightarrow> pending_signed E N C')"
proof (cases "hashPendingCheckpoint C = 0 \<or> mapBlockIndex S (hashPendingCheckpoint C) = None")
  case True
  then have "AcceptPendingSyncCheckpoint E B N S C = (Some False, S, C)"
    unfolding AcceptPendingSyncCheckpoint_def by (elim disjE) simp_all
  then show ?thesis using assms(2) by simp
next
  case False
  let ?h = "hashPendingCheckpoint C"
  obtain p where p: "mapBlockIndex S ?h = Some p" using False by blast
  obtain v C1 where v: "ValidateSyncCheckpoint (mapBlockIndex S) ?h C = (v, C1)" by fastforce
  have h1: "hashSyncCheckpoint C1 = hashSyncCheckpoint C" "hashPendingCheckpoint C1 = ?h"
    using ValidateSyncCheckpoint_fields [of "mapBlockIndex S" ?h C] ValidateSyncCheckpoint_pending [OF v] by (simp_all add: v)
  have z: "pending_signed E N (D\<lparr>hashPendingCheckpoint := 0, checkpointMessagePending := new_CSyncCheckpoint\<rparr>)"
    "pending_signed E N (D\<lparr>hashPendingCheckpoint := 0, checkpointMessage := m, checkpointMessagePending := new_CSyncCheckpoint\<rparr>)"
    for D m by (simp_all add: pending_signed_def)
  show ?thesis
  proof (cases v)
    case False
    then show ?thesis using assms(2) h1 z \<open>\<not> (?h = 0 \<or> _)\<close> by (auto simp: AcceptPendingSyncCheckpoint_def p v)
  next
    case True
    have ab: "above (mapBlockIndex S) ?h (hashSyncCheckpoint C)"
      using ValidateSyncCheckpoint_above [OF assms(1), of ?h C C1] v True by simp
    obtain f S2 C2 where f: "follow_checkpoint E B N p ?h S C1 = (f, S2, C2)" by (metis surj_pair)
    obtain w S3 C3 where w: "WriteSyncCheckpoint ?h S2 C2 = (w, S3, C3)" by (metis surj_pair)
    note F = follow_checkpoint_pending [OF f] and W = WriteSyncCheckpoint_pending [OF w]
    have h2: "hashPendingCheckpoint C2 = ?h" using F h1 by simp
    have sg: "pending_signed E N C \<longrightarrow> pending_signed E N C2 \<and> pending_signed E N C3"
      using pending_signed_cong [OF F, of E N] pending_signed_cong [OF W, of E N]
        pending_signed_cong [OF ValidateSyncCheckpoint_pending [OF v], of E N] by simp
    note H = follow_checkpoint_hash [OF f] WriteSyncCheckpoint_hash [OF w] h1 h2
    have e: "AcceptPendingSyncCheckpoint E B N S C =
       (case f of Some True \<Rightarrow>
          (if w then (Some True, S3, C3\<lparr>hashPendingCheckpoint := 0, checkpointMessage := checkpointMessagePending C3,
               checkpointMessagePending := new_CSyncCheckpoint\<rparr>) else (Some False, S3, C3))
        | _ \<Rightarrow> (f, S2, C2))"
      using False True h1 h2 w by (simp add: AcceptPendingSyncCheckpoint_def p v f split: option.split bool.split)
    show ?thesis
      using assms(2) False sg z ab H unfolding e by (auto split: option.splits bool.splits if_splits)
  qed
qed

lemma reset_to_hash:
  "reset_to M S = Some h \<Longrightarrow> h \<in> (\<lambda>(n, h, t). h) ` set M \<and> (\<exists>p. mapBlockIndex S h = Some p \<and> IsInMainChain S p)"
  by (induction M S rule: reset_to.induct) (auto split: option.splits if_splits)

lemma reset_moves:
  assumes "ResetSyncCheckpoint N S C = (ok, S', C')"
  shows "(hashSyncCheckpoint C' = hashSyncCheckpoint C \<or> hashSyncCheckpoint C' = hashGenesisBlock (fTestNet N) \<or>
     hashSyncCheckpoint C' \<in> (\<lambda>(n, h, t). h) ` set mapCheckpoints \<and>
     (\<exists>p. mapBlockIndex S (hashSyncCheckpoint C') = Some p \<and> IsInMainChain S p)) \<and>
    (pending_signed E N C \<longrightarrow> pending_signed E N C')"
proof (cases "reset_to (rev mapCheckpoints) S")
  case None
  then have w: "WriteSyncCheckpoint (hashGenesisBlock (fTestNet N)) S C = (ok, S', C')"
    using assms by (simp add: ResetSyncCheckpoint_def)
  show ?thesis using WriteSyncCheckpoint_hash [OF w] pending_signed_cong [OF WriteSyncCheckpoint_pending [OF w], of E N] by auto
next
  case (Some h)
  then have w: "WriteSyncCheckpoint h S C = (ok, S', C')" using assms by (simp add: ResetSyncCheckpoint_def)
  show ?thesis
    using WriteSyncCheckpoint_hash [OF w] pending_signed_cong [OF WriteSyncCheckpoint_pending [OF w], of E N] reset_to_hash [OF Some]
    by auto
qed

section \<open>Properties\<close>

text \<open>C8: Every move of the synchronised checkpoint while the node runs. A message leaves it where it is, or its
  signature is valid and it moves to the block the message names, which lies above the present checkpoint in the index;
  a message with a bad signature changes nothing. The pending checkpoint, taken up after a block is accepted, moves it
  upwards as well, and what is pending was named by a message with a valid signature: all three operations keep that.
  The reset, which happens when the key of the master has changed and may go down, moves it only to a hardened
  checkpoint of the main chain or to the genesis block.\<close>

theorem sync_checkpoint_advances:
  assumes "tree_ok E (mapBlockIndex S) (blkfiles S)"
    and "ProcessSyncCheckpoint E B N c S C = (r, c', S', C')"
    and "AcceptPendingSyncCheckpoint E B N S C = (p, T, D)"
    and "ResetSyncCheckpoint N S C = (ok, U, F)"
  shows "(hashSyncCheckpoint C' = hashSyncCheckpoint C \<or>
     r = Some True \<and> fst (CheckSignature E N c) \<and> hashSyncCheckpoint C' = hashCheckpoint c' \<and>
     above (mapBlockIndex S) (hashSyncCheckpoint C') (hashSyncCheckpoint C)) \<and>
    (fst (CheckSignature E N c) \<or> r = Some False \<and> S' = S \<and> C' = C) \<and>
    (hashSyncCheckpoint D = hashSyncCheckpoint C \<or>
     p = Some True \<and> hashPendingCheckpoint C \<noteq> 0 \<and> hashSyncCheckpoint D = hashPendingCheckpoint C \<and>
     above (mapBlockIndex S) (hashSyncCheckpoint D) (hashSyncCheckpoint C)) \<and>
    (hashSyncCheckpoint F = hashSyncCheckpoint C \<or> hashSyncCheckpoint F = hashGenesisBlock (fTestNet N) \<or>
     hashSyncCheckpoint F \<in> (\<lambda>(n, h, t). h) ` set mapCheckpoints \<and>
     (\<exists>q. mapBlockIndex S (hashSyncCheckpoint F) = Some q \<and> IsInMainChain S q)) \<and>
    (pending_signed E N C \<longrightarrow> pending_signed E N C' \<and> pending_signed E N D \<and> pending_signed E N F)"
  using process_moves [OF assms(1,2)] process_pending [OF assms(2)] accept_moves [OF assms(1,3)]
    reset_moves [OF assms(4), of E] by blast

text \<open>C9: A block that passes the check against the synchronised checkpoint has the checkpoint below it, or is the
  checkpoint, or is lower and already in the index.\<close>

theorem checked_block_above_checkpoint:
  assumes "tree_ok E m files" "m (iHash (hd pindexPrev)) = Some pindexPrev" "CheckSync m C hashBlock pindexPrev = Some True"
  shows "\<exists>q. m (hashSyncCheckpoint C) = Some q \<and>
    (suffix q pindexPrev \<and> iHeight (hd q) \<le> iHeight (hd pindexPrev) \<or>
     hashBlock = hashSyncCheckpoint C \<and> iHeight (hd pindexPrev) + 1 = iHeight (hd q) \<or>
     m hashBlock \<noteq> None \<and> iHeight (hd pindexPrev) + 1 < iHeight (hd q))"
proof -
  obtain q where q: "m (hashSyncCheckpoint C) = Some q"
    using assms(3) by (auto simp: CheckSync_def Let_def split: option.splits)
  consider "iHeight (hd pindexPrev) + 1 > iHeight (hd q)" | "iHeight (hd pindexPrev) + 1 = iHeight (hd q)"
    | "iHeight (hd pindexPrev) + 1 < iHeight (hd q)" by linarith
  then show ?thesis
  proof cases
    case 1
    then obtain d where d: "lower_to (iHeight (hd q)) pindexPrev = Some d" "iHash (hd d) = hashSyncCheckpoint C"
      using assms(3) q by (auto simp: CheckSync_def Let_def split: option.splits if_splits)
    from lower_to_tree [OF assms(1,2) d] show ?thesis using 1 q by auto
  next
    case 2
    then show ?thesis using assms(3) q by (auto simp: CheckSync_def Let_def split: if_splits)
  next
    case 3
    then show ?thesis using assms(3) q by (auto simp: CheckSync_def Let_def split: if_splits)
  qed
qed

section \<open>A move of the checkpoint\<close>

text \<open>A node with one block above genesis, and a message that names it.\<close>

definition second_entry :: CBlockIndex where
  "second_entry = new_CBlockIndex 8589934594 1 8 1 2 second_block"

definition two_blocks :: BlockMap where
  "two_blocks = [2 \<mapsto> [sample_genesis], 8589934594 \<mapsto> [second_entry, sample_genesis]]"

definition second_files :: files where
  "second_files = [1 \<mapsto> replicate 8 0 @ ser_CBlock second_block]"

definition second_message :: CSyncCheckpoint where
  "second_message = (let c = new_CSyncCheckpoint\<lparr>hashCheckpoint := 8589934594\<rparr>
     in c\<lparr>vchMsg := ser_CUnsignedSyncCheckpoint c, vchSig := [0xc2]\<rparr>)"

definition second_node :: node where
  "second_node = (start_node 100)\<lparr>mapBlockIndex := two_blocks, blkfiles := second_files,
     pindexBest := [second_entry, sample_genesis], hashBestChain := 8589934594, pnext := [2 \<mapsto> 8589934594]\<rparr>"

definition second_syncpoint :: syncpoint where
  "second_syncpoint = start_syncpoint\<lparr>hashPendingCheckpoint := 8589934594, checkpointMessagePending := second_message\<rparr>"

lemma second_stored: "block_at ext_ref second_files [second_entry, sample_genesis] second_block"
  using sample_coinbase_ok(4) [of 0] second_block_fits second_block_hash
  by (simp add: block_at_def stored_at_def second_files_def second_entry_def new_CBlockIndex_def length_ser_CBlock)
    (simp add: size_CBlock_def size_vec_def second_block_parts GetSizeOfCompactSize_def)

lemma second_tree: "tree_ok ext_ref two_blocks second_files"
proof -
  have "CDiskBlockIndex_GetBlockHash ext_ref (CDiskBlockIndex_of [second_entry, sample_genesis] 0) = 8589934594"
    using sample_of_mem(2)
    by (simp add: CDiskBlockIndex_GetBlockHash_def block_hash_ext_ref CDiskBlockIndex_of_def CBlockIndex.defs
      CDiskBlockIndex.defs second_entry_def new_CBlockIndex_def sample_genesis_def sample_mem second_block_def)
  moreover have "\<exists>b. block_at ext_ref second_files [second_entry, sample_genesis] b" using second_stored by blast
  ultimately show ?thesis
    using sample_genesis_hash
    by (auto simp: tree_ok_def two_blocks_def entry_ok_def second_entry_def new_CBlockIndex_def sample_genesis_def
        fEnforceBIP30_def split: if_splits)
qed

lemma second_signature: "CheckSignature ext_ref sample_env second_message = (True, second_message)"
proof -
  have "last (ParseHex strMainPubKey) = 0xc2" by code_simp
  then show ?thesis
    by (simp add: CheckSignature_def second_message_def sample_env_def SetPubKey_def CKey_Verify_def ext_ref_def
        ser_CUnsignedSyncCheckpoint_def unser_CUnsignedSyncCheckpoint_def unser_ser_word unser_ser_word [where rest = "[]", simplified]
        new_CSyncCheckpoint_def Let_def)
qed

lemma second_validate:
  "ValidateSyncCheckpoint two_blocks 8589934594 second_syncpoint = (True, second_syncpoint)"
  by (simp add: ValidateSyncCheckpoint_def second_syncpoint_def start_syncpoint_def two_blocks_def second_entry_def
      new_CBlockIndex_def sample_genesis_def)

lemma second_follow:
  "follow_checkpoint E B N [second_entry, sample_genesis] h second_node C = (Some True, second_node, C)"
  by (simp add: follow_checkpoint_def IsInMainChain_def second_node_def)

lemma second_write:
  "\<exists>S. WriteSyncCheckpoint h second_node C = (True, S, C\<lparr>hashSyncCheckpoint := h\<rparr>)"
  by (simp add: WriteSyncCheckpoint_def second_node_def start_node_def db_WriteSyncCheckpoint_def db_write_def
      TxnBegin_def TxnCommit_def)

lemma second_moves:
  "\<exists>c S C. ProcessSyncCheckpoint ext_ref bn_ref sample_env second_message second_node second_syncpoint = (Some True, c, S, C) \<and>
     hashSyncCheckpoint C = 8589934594"
  "\<exists>S C. AcceptPendingSyncCheckpoint ext_ref bn_ref sample_env second_node second_syncpoint = (Some True, S, C) \<and>
     hashSyncCheckpoint C = 8589934594"
proof -
  obtain S where w: "WriteSyncCheckpoint 8589934594 second_node second_syncpoint =
      (True, S, second_syncpoint\<lparr>hashSyncCheckpoint := 8589934594\<rparr>)"
    using second_write by blast
  have i: "mapBlockIndex second_node = two_blocks" "two_blocks 8589934594 = Some [second_entry, sample_genesis]"
    by (simp_all add: second_node_def two_blocks_def)
  have m: "hashCheckpoint second_message = 8589934594" "hashPendingCheckpoint second_syncpoint = 8589934594"
    by (simp_all add: second_message_def second_syncpoint_def Let_def)
  show "\<exists>c S C. ProcessSyncCheckpoint ext_ref bn_ref sample_env second_message second_node second_syncpoint = (Some True, c, S, C) \<and>
     hashSyncCheckpoint C = 8589934594"
    by (simp add: ProcessSyncCheckpoint_def second_signature m i second_validate second_follow w Let_def)
  show "\<exists>S C. AcceptPendingSyncCheckpoint ext_ref bn_ref sample_env second_node second_syncpoint = (Some True, S, C) \<and>
     hashSyncCheckpoint C = 8589934594"
    by (simp add: AcceptPendingSyncCheckpoint_def m i second_validate second_follow w)
qed

theorem sync_checkpoint_advances_witness:
  "(\<exists>c S C. ProcessSyncCheckpoint ext_ref bn_ref sample_env second_message second_node second_syncpoint = (Some True, c, S, C) \<and>
      hashSyncCheckpoint C = 8589934594) \<and>
   (\<exists>S C. AcceptPendingSyncCheckpoint ext_ref bn_ref sample_env second_node second_syncpoint = (Some True, S, C) \<and>
      hashSyncCheckpoint C = 8589934594 \<and> pending_signed ext_ref sample_env C) \<and>
   above two_blocks 8589934594 2"
proof -
  obtain c S C where m: "ProcessSyncCheckpoint ext_ref bn_ref sample_env second_message second_node second_syncpoint = (Some True, c, S, C)"
    "hashSyncCheckpoint C = 8589934594" using second_moves(1) by blast
  obtain T D where n: "AcceptPendingSyncCheckpoint ext_ref bn_ref sample_env second_node second_syncpoint = (Some True, T, D)"
    "hashSyncCheckpoint D = 8589934594" using second_moves(2) by blast
  obtain ok U F where o: "ResetSyncCheckpoint sample_env second_node second_syncpoint = (ok, U, F)" by (metis surj_pair)
  have t: "tree_ok ext_ref (mapBlockIndex second_node) (blkfiles second_node)" using second_tree by (simp add: second_node_def)
  have "pending_signed ext_ref sample_env second_syncpoint"
    unfolding pending_signed_def using second_signature by (simp add: second_syncpoint_def second_message_def Let_def)
  moreover have "hashSyncCheckpoint second_syncpoint = 2" "mapBlockIndex second_node = two_blocks"
    by (simp_all add: second_syncpoint_def start_syncpoint_def second_node_def)
  ultimately show ?thesis using sync_checkpoint_advances [OF t m(1) n(1) o] m n by auto
qed

theorem checked_block_above_checkpoint_witness:
  "CheckSync two_blocks (start_syncpoint\<lparr>hashSyncCheckpoint := 8589934594\<rparr>) 5 [second_entry, sample_genesis] = Some True \<and>
   suffix [second_entry, sample_genesis] [second_entry, sample_genesis]"
proof -
  have "CheckSync two_blocks (start_syncpoint\<lparr>hashSyncCheckpoint := 8589934594\<rparr>) 5 [second_entry, sample_genesis] = Some True"
    by (simp add: CheckSync_def two_blocks_def second_entry_def new_CBlockIndex_def Let_def)
  moreover have "two_blocks (iHash (hd [second_entry, sample_genesis])) = Some [second_entry, sample_genesis]"
    by (simp add: two_blocks_def second_entry_def new_CBlockIndex_def)
  ultimately show ?thesis
    using checked_block_above_checkpoint [OF second_tree, of "[second_entry, sample_genesis]"] by blast
qed

end
