(* ===== verification/Standards.thy ===== *)
theory Standards
  imports Complex_Main Prelude
begin

text \<open>
  The published hashes that the proof of work is made of, written from their standards and not from the code:
  SHA-256 (FIPS 180-4), HMAC and PBKDF2 (RFC 2104, RFC 8018), keyed BLAKE2s (RFC 7693), and the cores of
  Salsa20 and ChaCha (the papers of their author). Nothing here mentions a definition of the code's model; the
  constants are the roots of the primes, rotations are those of the word library, words are read from bytes by their value.
  The theories of the code prove their functions equal to these.
\<close>

section \<open>Words, bytes and constants\<close>

text \<open>The words in a byte string, the lowest byte first and the highest byte first, and back.\<close>

definition le_words :: "nat \<Rightarrow> bytes \<Rightarrow> u32 list" where
  "le_words n b = map (\<lambda>i. word_of_nat (le_nat (take 4 (drop (4 * i) b)))) [0..<n]"

definition le_image :: "u32 list \<Rightarrow> bytes" where
  "le_image ws = concat (map (\<lambda>w. le_bytes 4 (unat w)) ws)"

definition be_word :: "bytes \<Rightarrow> nat \<Rightarrow> u32" where
  "be_word b i = word_of_nat (be_nat (take 4 (drop (4 * i) b)))"

definition be_image :: "u32 list \<Rightarrow> bytes" where
  "be_image ws = concat (map (\<lambda>w. be_bytes 4 (unat w)) ws)"

text \<open>The first 64 primes.\<close>

definition first_primes :: "nat list" where
  "first_primes =
    [2, 3, 5, 7, 11, 13, 17, 19, 23, 29, 31, 37, 41, 43, 47, 53, 59, 61, 67, 71, 73, 79, 83, 89, 97, 101, 103, 107, 109,
     113, 127, 131, 137, 139, 149, 151, 157, 163, 167, 173, 179, 181, 191, 193, 197, 199, 211, 223, 227, 229, 233, 239,
     241, 251, 257, 263, 269, 271, 277, 281, 283, 293, 307, 311]"

text \<open>The first 32 bits of the fractional part of the root of degree \<open>k\<close>.\<close>

definition root_bits :: "nat \<Rightarrow> nat \<Rightarrow> u32" where
  "root_bits k p = word_of_int \<lfloor>2 ^ 32 * root k (real p)\<rfloor>"

definition FIPS_K :: "nat \<Rightarrow> u32" where
  "FIPS_K t = root_bits 3 (first_primes ! t)"

definition FIPS_IV :: "u32 list" where
  "FIPS_IV = map (root_bits 2) (take 8 first_primes)"

section \<open>SHA-256\<close>

text \<open>The message schedule, a round, and the compression of a block.\<close>

function FIPS_W :: "bytes \<Rightarrow> nat \<Rightarrow> u32" where
  "FIPS_W M t =
     (if t < 16 then be_word M t
      else
        let s0 = (\<lambda>x. word_rotr 7 x XOR word_rotr 18 x XOR drop_bit 3 x);
            s1 = (\<lambda>x. word_rotr 17 x XOR word_rotr 19 x XOR drop_bit 10 x)
        in s1 (FIPS_W M (t - 2)) + FIPS_W M (t - 7) + s0 (FIPS_W M (t - 15)) + FIPS_W M (t - 16))"
  by pat_completeness auto

termination
  by (relation "measure snd") auto

declare FIPS_W.simps [simp del]

type_synonym sha_vars = "u32 \<times> u32 \<times> u32 \<times> u32 \<times> u32 \<times> u32 \<times> u32 \<times> u32"

definition FIPS_round :: "u32 \<Rightarrow> u32 \<Rightarrow> sha_vars \<Rightarrow> sha_vars" where
  "FIPS_round K W = (\<lambda>(a, b, c, d, e, f, g, h).
     let T1 = h + (word_rotr 6 e XOR word_rotr 11 e XOR word_rotr 25 e) + ((e AND f) XOR (NOT e AND g)) + K + W;
         T2 = (word_rotr 2 a XOR word_rotr 13 a XOR word_rotr 22 a) + ((a AND b) XOR (a AND c) XOR (b AND c))
     in (T1 + T2, a, b, c, d + T1, e, f, g))"

definition FIPS_vars :: "u32 list \<Rightarrow> sha_vars" where
  "FIPS_vars H = (H ! 0, H ! 1, H ! 2, H ! 3, H ! 4, H ! 5, H ! 6, H ! 7)"

definition FIPS_compress :: "u32 list \<Rightarrow> bytes \<Rightarrow> u32 list" where
  "FIPS_compress H M =
     (let (a, b, c, d, e, f, g, h) = fold (\<lambda>t. FIPS_round (FIPS_K t) (FIPS_W M t)) [0..<64] (FIPS_vars H)
      in [a + H ! 0, b + H ! 1, c + H ! 2, d + H ! 3, e + H ! 4, f + H ! 5, g + H ! 6, h + H ! 7])"

text \<open>The padding: a bit of one, zeros up to 56 bytes modulo the block, and the length in bits.\<close>

definition FIPS_padding :: "bytes \<Rightarrow> bytes" where
  "FIPS_padding m = m @ [0x80] @ replicate (nat ((55 - int (length m)) mod 64)) 0 @ be_bytes 8 (8 * length m)"

definition SHA256_spec :: "bytes \<Rightarrow> bytes" where
  "SHA256_spec m =
     (let p = FIPS_padding m
      in be_image (foldl FIPS_compress FIPS_IV (map (\<lambda>i. take 64 (drop (64 * i) p)) [0..<length p div 64])))"

section \<open>HMAC and PBKDF2\<close>

definition HMAC_key :: "bytes \<Rightarrow> bytes" where
  "HMAC_key key =
     (let k = (if length key \<le> 64 then key else SHA256_spec key) in k @ replicate (64 - length k) 0)"

definition HMAC_spec :: "bytes \<Rightarrow> bytes \<Rightarrow> bytes" where
  "HMAC_spec key m =
     SHA256_spec (map ((XOR) 0x5C) (HMAC_key key) @ SHA256_spec (map ((XOR) 0x36) (HMAC_key key) @ m))"

primrec pbkdf2_U :: "bytes \<Rightarrow> bytes \<Rightarrow> nat \<Rightarrow> nat \<Rightarrow> bytes" where
  "pbkdf2_U key salt i 0 = HMAC_spec key (salt @ be_bytes 4 i)"
| "pbkdf2_U key salt i (Suc j) = HMAC_spec key (pbkdf2_U key salt i j)"

definition pbkdf2_T :: "bytes \<Rightarrow> bytes \<Rightarrow> nat \<Rightarrow> nat \<Rightarrow> bytes" where
  "pbkdf2_T key salt c i = foldl (map2 (XOR)) (pbkdf2_U key salt i 0) (map (pbkdf2_U key salt i) [1..<c])"

definition PBKDF2_spec :: "bytes \<Rightarrow> bytes \<Rightarrow> nat \<Rightarrow> nat \<Rightarrow> bytes" where
  "PBKDF2_spec key salt c dkLen = take dkLen (concat (map (pbkdf2_T key salt c) [1..<(dkLen + 31) div 32 + 1]))"

section \<open>BLAKE2s\<close>

text \<open>The mixing function G on four words, with the rotations 16, 12, 8 and 7; a round mixes the columns of the
  square of the words and then its diagonals, with the words of the message in the order of a permutation.\<close>

definition RFC_G :: "u32 \<Rightarrow> u32 \<Rightarrow> u32 \<times> u32 \<times> u32 \<times> u32 \<Rightarrow> u32 \<times> u32 \<times> u32 \<times> u32" where
  "RFC_G x y = (\<lambda>(a, b, c, d).
     let half = (\<lambda>m r s (a, b, c, d).
           let a = a + b + m; d = word_rotr r (d XOR a); c = c + d; b = word_rotr s (b XOR c) in (a, b, c, d))
     in half y 8 7 (half x 16 12 (a, b, c, d)))"

definition RFC_mix :: "u32 \<Rightarrow> u32 \<Rightarrow> nat \<times> nat \<times> nat \<times> nat \<Rightarrow> u32 list \<Rightarrow> u32 list" where
  "RFC_mix x y = (\<lambda>(i, j, k, l) v.
     let (a, b, c, d) = RFC_G x y (v ! i, v ! j, v ! k, v ! l) in v[i := a, j := b, k := c, l := d])"

definition blake2s_lanes :: "(nat \<times> nat \<times> nat \<times> nat) list" where
  "blake2s_lanes =
     map (\<lambda>i. (i, 4 + i, 8 + i, 12 + i)) [0..<4] @
     map (\<lambda>i. (i, 4 + (i + 1) mod 4, 8 + (i + 2) mod 4, 12 + (i + 3) mod 4)) [0..<4]"

definition blake2s_sigma :: "nat list list" where
  "blake2s_sigma =
     [[0, 1, 2, 3, 4, 5, 6, 7, 8, 9, 10, 11, 12, 13, 14, 15],
      [14, 10, 4, 8, 9, 15, 13, 6, 1, 12, 0, 2, 11, 7, 5, 3],
      [11, 8, 12, 0, 5, 2, 15, 13, 10, 14, 3, 6, 7, 1, 9, 4],
      [7, 9, 3, 1, 13, 12, 11, 14, 2, 6, 5, 10, 4, 0, 15, 8],
      [9, 0, 5, 7, 2, 4, 10, 15, 14, 1, 11, 12, 6, 8, 3, 13],
      [2, 12, 6, 10, 0, 11, 8, 3, 4, 13, 7, 5, 15, 14, 1, 9],
      [12, 5, 1, 15, 14, 13, 4, 10, 0, 7, 6, 3, 9, 2, 8, 11],
      [13, 11, 7, 14, 12, 1, 3, 9, 5, 0, 15, 4, 8, 6, 2, 10],
      [6, 15, 14, 9, 11, 3, 0, 8, 12, 2, 13, 7, 1, 4, 10, 5],
      [10, 2, 8, 4, 7, 6, 1, 5, 15, 11, 9, 14, 3, 12, 13, 0]]"

fun rfc_lanes :: "u32 list \<Rightarrow> nat list \<Rightarrow> (nat \<times> nat \<times> nat \<times> nat) list \<Rightarrow> u32 list \<Rightarrow> u32 list" where
  "rfc_lanes m (x # y # s) (lane # lanes) v = rfc_lanes m s lanes (RFC_mix (m ! x) (m ! y) lane v)"
| "rfc_lanes m _ _ v = v"

definition rfc_rounds :: "u32 list \<Rightarrow> u32 list \<Rightarrow> u32 list" where
  "rfc_rounds m v = foldl (\<lambda>v s. rfc_lanes m s blake2s_lanes v) v blake2s_sigma"

definition rfc_F :: "u32 list \<Rightarrow> bytes \<Rightarrow> nat \<Rightarrow> bool \<Rightarrow> u32 list" where
  "rfc_F h block t last_block =
     (let v = h @ FIPS_IV;
          v = v[12 := v ! 12 XOR word_of_nat t, 13 := v ! 13 XOR word_of_nat (t div 2 ^ 32)];
          v = (if last_block then v[14 := NOT (v ! 14)] else v);
          v = rfc_rounds (le_words 16 block) v
      in map (\<lambda>i. h ! i XOR v ! i XOR v ! (i + 8)) [0..<8])"

function rfc_blocks :: "u32 list \<Rightarrow> nat \<Rightarrow> bytes \<Rightarrow> u32 list" where
  "rfc_blocks h t d =
     (if length d \<le> 64 then rfc_F h (d @ replicate (64 - length d) 0) (t + length d) True
      else rfc_blocks (rfc_F h (take 64 d) (t + 64) False) (t + 64) (drop 64 d))"
  by pat_completeness auto

termination
  by (relation "measure (\<lambda>(h, t, d). length d)") auto

declare rfc_blocks.simps [simp del]

text \<open>With a key of at least one byte and \<open>nn\<close> bytes of output.\<close>

definition BLAKE2s_spec :: "bytes \<Rightarrow> bytes \<Rightarrow> nat \<Rightarrow> bytes" where
  "BLAKE2s_spec m key nn =
     (let h = FIPS_IV[0 := FIPS_IV ! 0 XOR word_of_nat (0x01010000 + 256 * length key + nn)]
      in take nn (le_image (rfc_blocks h 0 (key @ replicate (64 - length key) 0 @ m))))"

section \<open>Salsa20 and ChaCha\<close>

text \<open>Salsa20: the quarter round is applied to the rows of a square, each taken from the diagonal on; the column
  round is the row round of the transposed square.\<close>

definition Salsa_quarter :: "u32 \<times> u32 \<times> u32 \<times> u32 \<Rightarrow> u32 \<times> u32 \<times> u32 \<times> u32" where
  "Salsa_quarter = (\<lambda>(y0, y1, y2, y3).
     let z1 = y1 XOR word_rotl 7 (y0 + y3);
         z2 = y2 XOR word_rotl 9 (z1 + y0);
         z3 = y3 XOR word_rotl 13 (z2 + z1);
         z0 = y0 XOR word_rotl 18 (z3 + z2)
     in (z0, z1, z2, z3))"

definition Salsa_rowround :: "u32 list \<Rightarrow> u32 list" where
  "Salsa_rowround y =
     (let (z0, z1, z2, z3) = Salsa_quarter (y ! 0, y ! 1, y ! 2, y ! 3);
          (z5, z6, z7, z4) = Salsa_quarter (y ! 5, y ! 6, y ! 7, y ! 4);
          (z10, z11, z8, z9) = Salsa_quarter (y ! 10, y ! 11, y ! 8, y ! 9);
          (z15, z12, z13, z14) = Salsa_quarter (y ! 15, y ! 12, y ! 13, y ! 14)
      in [z0, z1, z2, z3, z4, z5, z6, z7, z8, z9, z10, z11, z12, z13, z14, z15])"

definition transposed :: "u32 list \<Rightarrow> u32 list" where
  "transposed x = map (\<lambda>i. x ! (4 * (i mod 4) + i div 4)) [0..<16]"

definition Salsa_doubleround :: "u32 list \<Rightarrow> u32 list" where
  "Salsa_doubleround x = Salsa_rowround (transposed (Salsa_rowround (transposed x)))"

definition Salsa20_core :: "nat \<Rightarrow> u32 list \<Rightarrow> u32 list" where
  "Salsa20_core rounds x = map2 (+) x ((Salsa_doubleround ^^ (rounds div 2)) x)"

text \<open>ChaCha: a quarter round on the columns, and on the diagonals, which are the columns of the square whose row \<open>i\<close> is
  rotated by \<open>i\<close> places.\<close>

definition ChaCha_quarter :: "u32 \<times> u32 \<times> u32 \<times> u32 \<Rightarrow> u32 \<times> u32 \<times> u32 \<times> u32" where
  "ChaCha_quarter = (\<lambda>(a, b, c, d).
     let half = (\<lambda>r s (a, b, c, d).
           let a = a + b; d = word_rotl r (d XOR a); c = c + d; b = word_rotl s (b XOR c) in (a, b, c, d))
     in half 8 7 (half 16 12 (a, b, c, d)))"

definition ChaCha_columns :: "u32 list \<Rightarrow> u32 list" where
  "ChaCha_columns x =
     (let (a0, b0, c0, d0) = ChaCha_quarter (x ! 0, x ! 4, x ! 8, x ! 12);
          (a1, b1, c1, d1) = ChaCha_quarter (x ! 1, x ! 5, x ! 9, x ! 13);
          (a2, b2, c2, d2) = ChaCha_quarter (x ! 2, x ! 6, x ! 10, x ! 14);
          (a3, b3, c3, d3) = ChaCha_quarter (x ! 3, x ! 7, x ! 11, x ! 15)
      in [a0, a1, a2, a3, b0, b1, b2, b3, c0, c1, c2, c3, d0, d1, d2, d3])"

definition shift_rows :: "(nat \<Rightarrow> nat) \<Rightarrow> u32 list \<Rightarrow> u32 list" where
  "shift_rows s x = map (\<lambda>i. x ! (4 * (i div 4) + (i mod 4 + s (i div 4)) mod 4)) [0..<16]"

definition ChaCha_doubleround :: "u32 list \<Rightarrow> u32 list" where
  "ChaCha_doubleround x =
     shift_rows (\<lambda>i. 4 - i) (ChaCha_columns (shift_rows (\<lambda>i. i) (ChaCha_columns x)))"

definition ChaCha20_core :: "nat \<Rightarrow> u32 list \<Rightarrow> u32 list" where
  "ChaCha20_core rounds x = map2 (+) x ((ChaCha_doubleround ^^ (rounds div 2)) x)"

section \<open>The constants\<close>

text \<open>The integer part of a root, from the powers around it.\<close>

lemma floor_root:
  assumes "0 < k" "n ^ k \<le> p * 2 ^ (32 * k)" "p * 2 ^ (32 * k) < (n + 1) ^ k"
  shows "\<lfloor>2 ^ 32 * root k (real p)\<rfloor> = int n"
proof -
  let ?x = "2 ^ 32 * root k (real p)"
  have "0 \<le> ?x" using assms(1) by simp
  have x: "?x ^ k = real (p * 2 ^ (32 * k))"
    using assms(1) by (simp add: power_mult_distrib power_mult)
  have "real n ^ k \<le> ?x ^ k" unfolding x using assms(2) by (metis of_nat_le_iff of_nat_power)
  then have l: "real n \<le> ?x" using power_mono_iff [of "real n" ?x k] assms(1) \<open>0 \<le> ?x\<close> by simp
  have "?x ^ k < real (n + 1) ^ k" unfolding x using assms(3) by (metis of_nat_less_iff of_nat_power)
  then have "?x < real (n + 1)" by (rule power_less_imp_less_base) simp
  with l show ?thesis by (intro floor_unique) simp_all
qed

definition root_is :: "nat \<Rightarrow> nat \<Rightarrow> u32 \<Rightarrow> bool" where
  "root_is k p w \<longleftrightarrow>
     (let n = length (filter (\<lambda>q. q ^ k \<le> p) [1, 2, 3, 4, 5, 6]) * 2 ^ 32 + unat w
      in n ^ k \<le> p * 2 ^ (32 * k) \<and> p * 2 ^ (32 * k) < (n + 1) ^ k)"

lemma root_isD:
  assumes "0 < k" "root_is k p w"
  shows "root_bits k p = w"
proof -
  obtain q where q: "(q * 2 ^ 32 + unat w) ^ k \<le> p * 2 ^ (32 * k)" "p * 2 ^ (32 * k) < (q * 2 ^ 32 + unat w + 1) ^ k"
    using assms(2) unfolding root_is_def Let_def by blast
  have "(2 ^ 32 :: u32) = 0" by simp
  then have z: "(word_of_nat (q * 2 ^ 32) :: u32) = 0" by (simp only: of_nat_mult of_nat_power of_nat_numeral mult_zero_right)
  show ?thesis unfolding root_bits_def floor_root [OF assms(1) q] of_int_of_nat_eq unfolding of_nat_add z by simp
qed

text \<open>A table of words holds the roots of a list of primes.\<close>

lemma root_table: "0 < k \<Longrightarrow> list_all2 (root_is k) ps ws \<Longrightarrow> map (root_bits k) ps = ws"
  proof -
  assume k: "0 < k" and "list_all2 (root_is k) ps ws"
  from this(2) show ?thesis by (induction rule: list_all2_induct) (simp_all add: root_isD [OF k])
qed

end
