(* ===== verification/NeoHash.thy ===== *)
theory NeoHash
  imports Standards
begin

text \<open>
  The hashes behind Scrypt (\<^verbatim>\<open>neoscrypt.c\<close>): SHA-256 with its incremental interface, HMAC and PBKDF2. The C
  code is the one built without assembly; an \<^verbatim>\<open>uint\<close> that counts bytes of a buffer is a number. A client
  of an incremental hash sees it through the locale \<open>stream_hash\<close>, in which HMAC is proved to be the one of
  the standard.
\<close>

section \<open>Words and bytes\<close>

definition ROTL32 :: "u32 \<Rightarrow> nat \<Rightarrow> u32" where
  "ROTL32 a b = push_bit b a OR drop_bit (32 - b) a"

definition ROTR32 :: "u32 \<Rightarrow> nat \<Rightarrow> u32" where
  "ROTR32 a b = drop_bit b a OR push_bit (32 - b) a"

definition U8TO32_BE :: "bytes \<Rightarrow> u32" where
  "U8TO32_BE p = push_bit 24 (ucast (p ! 0)) OR push_bit 16 (ucast (p ! 1)) OR push_bit 8 (ucast (p ! 2)) OR ucast (p ! 3)"

definition U32TO8_BE :: "u32 \<Rightarrow> bytes" where
  "U32TO8_BE v = [ucast (drop_bit 24 v), ucast (drop_bit 16 v), ucast (drop_bit 8 v), ucast v]"

definition U64TO8_BE :: "u64 \<Rightarrow> bytes" where
  "U64TO8_BE v = U32TO8_BE (ucast (drop_bit 32 v)) @ U32TO8_BE (ucast v)"

definition BLOCK_SIZE :: nat where
  "BLOCK_SIZE = 64"

definition DIGEST_SIZE :: nat where
  "DIGEST_SIZE = 32"

text \<open>\<^verbatim>\<open>neoscrypt_copy\<close> and \<^verbatim>\<open>neoscrypt_erase\<close> at an offset of a buffer, and the bytewise \<^verbatim>\<open>neoscrypt_xor\<close>; source and
  destination do not overlap where the code calls them.\<close>

definition put :: "nat \<Rightarrow> bytes \<Rightarrow> bytes \<Rightarrow> bytes" where
  "put i src dst = take i dst @ src @ drop (i + length src) dst"

definition neoscrypt_erase :: "nat \<Rightarrow> nat \<Rightarrow> bytes \<Rightarrow> bytes" where
  "neoscrypt_erase i len dst = put i (replicate len 0) dst"

definition neoscrypt_xor :: "nat \<Rightarrow> bytes \<Rightarrow> bytes \<Rightarrow> bytes" where
  "neoscrypt_xor i src dst = put i (map2 (XOR) (take (length src) (drop i dst)) src) dst"

section \<open>SHA-256\<close>

definition sha256_constants :: "u32 list" where
  "sha256_constants =
     [0x428A2F98, 0x71374491, 0xB5C0FBCF, 0xE9B5DBA5, 0x3956C25B, 0x59F111F1, 0x923F82A4, 0xAB1C5ED5,
      0xD807AA98, 0x12835B01, 0x243185BE, 0x550C7DC3, 0x72BE5D74, 0x80DEB1FE, 0x9BDC06A7, 0xC19BF174,
      0xE49B69C1, 0xEFBE4786, 0x0FC19DC6, 0x240CA1CC, 0x2DE92C6F, 0x4A7484AA, 0x5CB0A9DC, 0x76F988DA,
      0x983E5152, 0xA831C66D, 0xB00327C8, 0xBF597FC7, 0xC6E00BF3, 0xD5A79147, 0x06CA6351, 0x14292967,
      0x27B70A85, 0x2E1B2138, 0x4D2C6DFC, 0x53380D13, 0x650A7354, 0x766A0ABB, 0x81C2C92E, 0x92722C85,
      0xA2BFE8A1, 0xA81A664B, 0xC24B8B70, 0xC76C51A3, 0xD192E819, 0xD6990624, 0xF40E3585, 0x106AA070,
      0x19A4C116, 0x1E376C08, 0x2748774C, 0x34B0BCB5, 0x391C0CB3, 0x4ED8AA4A, 0x5B9CCA4F, 0x682E6FF3,
      0x748F82EE, 0x78A5636F, 0x84C87814, 0x8CC70208, 0x90BEFFFA, 0xA4506CEB, 0xBEF9A3F7, 0xC67178F2]"

definition Ch :: "u32 \<Rightarrow> u32 \<Rightarrow> u32 \<Rightarrow> u32" where
  "Ch x y z = z XOR (x AND (y XOR z))"

definition Maj :: "u32 \<Rightarrow> u32 \<Rightarrow> u32 \<Rightarrow> u32" where
  "Maj x y z = ((x OR y) AND z) OR (x AND y)"

definition S0 :: "u32 \<Rightarrow> u32" where
  "S0 x = ROTR32 x 2 XOR ROTR32 x 13 XOR ROTR32 x 22"

definition S1 :: "u32 \<Rightarrow> u32" where
  "S1 x = ROTR32 x 6 XOR ROTR32 x 11 XOR ROTR32 x 25"

definition G0 :: "u32 \<Rightarrow> u32" where
  "G0 x = ROTR32 x 7 XOR ROTR32 x 18 XOR drop_bit 3 x"

definition G1 :: "u32 \<Rightarrow> u32" where
  "G1 x = ROTR32 x 17 XOR ROTR32 x 19 XOR drop_bit 10 x"

definition W0 :: "bytes \<Rightarrow> nat \<Rightarrow> u32" where
  "W0 b i = U8TO32_BE (drop (i * 4) b)"

definition W1 :: "u32 list \<Rightarrow> nat \<Rightarrow> u32" where
  "W1 w i = G1 (w ! (i - 2)) + w ! (i - 7) + G0 (w ! (i - 15)) + w ! (i - 16)"

definition sha256_STEP :: "u32 list \<Rightarrow> u32 list \<Rightarrow> nat \<Rightarrow> u32 list" where
  "sha256_STEP w r i =
     (let t1 = S0 (r ! 0) + Maj (r ! 0) (r ! 1) (r ! 2);
          t0 = r ! 7 + S1 (r ! 4) + Ch (r ! 4) (r ! 5) (r ! 6) + sha256_constants ! i + w ! i
      in [t0 + t1, r ! 0, r ! 1, r ! 2, r ! 3 + t0, r ! 4, r ! 5, r ! 6])"

text \<open>One block: the words are expanded in the order of their indices.\<close>

definition sha256_words :: "bytes \<Rightarrow> u32 list" where
  "sha256_words b = foldl (\<lambda>w i. w @ [W1 w i]) (map (W0 b) [0..<16]) [16..<64]"

definition sha256_block :: "u32 list \<Rightarrow> bytes \<Rightarrow> u32 list" where
  "sha256_block H b = map2 (+) (foldl (sha256_STEP (sha256_words b)) H [0..<64]) H"

record sha256_hash_state =
  shaH :: "u32 list"
  shaT :: u64
  leftover :: nat
  sha_buffer :: bytes

fun sha256_blocks :: "nat \<Rightarrow> bytes \<Rightarrow> sha256_hash_state \<Rightarrow> sha256_hash_state" where
  "sha256_blocks 0 inp S = S"
| "sha256_blocks (Suc blocks) inp S =
     sha256_blocks blocks (drop BLOCK_SIZE inp)
       (S\<lparr>shaH := sha256_block (shaH S) (take BLOCK_SIZE inp), shaT := shaT S + word_of_nat (BLOCK_SIZE * 8)\<rparr>)"

definition sha256_IV :: "u32 list" where
  "sha256_IV = [0x6A09E667, 0xBB67AE85, 0x3C6EF372, 0xA54FF53A, 0x510E527F, 0x9B05688C, 0x1F83D9AB, 0x5BE0CD19]"

text \<open>The buffer is not initialised; it starts with the bytes \<open>junk\<close>.\<close>

definition neoscrypt_hash_init_sha256 :: "bytes \<Rightarrow> sha256_hash_state" where
  "neoscrypt_hash_init_sha256 junk = \<lparr>shaH = sha256_IV, shaT = 0, leftover = 0, sha_buffer = junk\<rparr>"

definition sha256_current :: "bytes \<Rightarrow> sha256_hash_state \<Rightarrow> sha256_hash_state" where
  "sha256_current inp S =
     (let blocks = length inp div BLOCK_SIZE;
          S = S\<lparr>leftover := length inp - blocks * BLOCK_SIZE\<rparr>;
          S = sha256_blocks blocks inp S
      in if leftover S \<noteq> 0 then S\<lparr>sha_buffer := put 0 (drop (blocks * BLOCK_SIZE) inp) (sha_buffer S)\<rparr> else S)"

definition neoscrypt_hash_update_sha256 :: "sha256_hash_state \<Rightarrow> bytes \<Rightarrow> sha256_hash_state" where
  "neoscrypt_hash_update_sha256 S inp =
     (if leftover S \<noteq> 0 then
        (let want = min (BLOCK_SIZE - leftover S) (length inp);
             S = S\<lparr>sha_buffer := put (leftover S) (take want inp) (sha_buffer S), leftover := leftover S + want\<rparr>
         in if leftover S < BLOCK_SIZE then S
            else sha256_current (drop want inp) (sha256_blocks 1 (sha_buffer S) S))
      else sha256_current inp S)"

definition neoscrypt_hash_finish_sha256 :: "sha256_hash_state \<Rightarrow> bytes" where
  "neoscrypt_hash_finish_sha256 S =
     (let t = shaT S + word_of_nat (leftover S * 8);
          S = S\<lparr>sha_buffer := (sha_buffer S)[leftover S := 0x80]\<rparr>;
          S = (if leftover S \<le> 55
               then S\<lparr>sha_buffer := neoscrypt_erase (leftover S + 1) (55 - leftover S) (sha_buffer S)\<rparr>
               else
                 let S = S\<lparr>sha_buffer := neoscrypt_erase (leftover S + 1) (63 - leftover S) (sha_buffer S)\<rparr>;
                     S = sha256_blocks 1 (sha_buffer S) S
                 in S\<lparr>sha_buffer := neoscrypt_erase 0 56 (sha_buffer S)\<rparr>);
          S = S\<lparr>sha_buffer := put 56 (U64TO8_BE t) (sha_buffer S)\<rparr>;
          S = sha256_blocks 1 (sha_buffer S) S
      in concat (map U32TO8_BE (shaH S)))"

section \<open>HMAC and PBKDF2\<close>

record sha256_hmac_state =
  hmac_inner :: sha256_hash_state
  hmac_outer :: sha256_hash_state

text \<open>The words of the pads are written as the bytes they have in memory. \<open>junk\<close> are the bytes of the buffers
  on the stack.\<close>

definition neoscrypt_hmac_init_sha256 :: "bytes \<Rightarrow> bytes \<Rightarrow> sha256_hmac_state" where
  "neoscrypt_hmac_init_sha256 junk key =
     (let pad = replicate BLOCK_SIZE 0x36;
          pad = (if length key \<le> BLOCK_SIZE then neoscrypt_xor 0 key pad
                 else neoscrypt_xor 0 (neoscrypt_hash_finish_sha256
                        (neoscrypt_hash_update_sha256 (neoscrypt_hash_init_sha256 junk) key)) pad);
          inner = neoscrypt_hash_update_sha256 (neoscrypt_hash_init_sha256 junk) pad;
          pad = map (\<lambda>b. b XOR (0x36 XOR 0x5C)) pad
      in \<lparr>hmac_inner = inner, hmac_outer = neoscrypt_hash_update_sha256 (neoscrypt_hash_init_sha256 junk) pad\<rparr>)"

definition neoscrypt_hmac_update_sha256 :: "sha256_hmac_state \<Rightarrow> bytes \<Rightarrow> sha256_hmac_state" where
  "neoscrypt_hmac_update_sha256 st m = st\<lparr>hmac_inner := neoscrypt_hash_update_sha256 (hmac_inner st) m\<rparr>"

definition neoscrypt_hmac_finish_sha256 :: "sha256_hmac_state \<Rightarrow> bytes" where
  "neoscrypt_hmac_finish_sha256 st =
     neoscrypt_hash_finish_sha256
       (neoscrypt_hash_update_sha256 (hmac_outer st) (neoscrypt_hash_finish_sha256 (hmac_inner st)))"

text \<open>The rounds after the first, \<open>n\<close> of them.\<close>

fun pbkdf2_rounds :: "sha256_hmac_state \<Rightarrow> nat \<Rightarrow> bytes \<Rightarrow> bytes \<Rightarrow> bytes" where
  "pbkdf2_rounds hmac_pw 0 u ti = ti"
| "pbkdf2_rounds hmac_pw (Suc n) u ti =
     (let u = neoscrypt_hmac_finish_sha256 (neoscrypt_hmac_update_sha256 hmac_pw u)
      in pbkdf2_rounds hmac_pw n u (map2 (XOR) ti u))"

definition pbkdf2_block :: "sha256_hmac_state \<Rightarrow> sha256_hmac_state \<Rightarrow> u32 \<Rightarrow> nat \<Rightarrow> bytes" where
  "pbkdf2_block hmac_pw hmac_pw_salt N i =
     (let ti = neoscrypt_hmac_finish_sha256 (neoscrypt_hmac_update_sha256 hmac_pw_salt (U32TO8_BE (word_of_nat i)))
      in pbkdf2_rounds hmac_pw (unat (N - 1)) ti ti)"

fun pbkdf2_loop :: "sha256_hmac_state \<Rightarrow> sha256_hmac_state \<Rightarrow> u32 \<Rightarrow> nat list \<Rightarrow> nat \<Rightarrow> bytes" where
  "pbkdf2_loop hmac_pw hmac_pw_salt N [] output_len = []"
| "pbkdf2_loop hmac_pw hmac_pw_salt N (i # is) output_len =
     take (if output_len > DIGEST_SIZE then DIGEST_SIZE else output_len) (pbkdf2_block hmac_pw hmac_pw_salt N i) @
     pbkdf2_loop hmac_pw hmac_pw_salt N is (output_len - DIGEST_SIZE)"

definition neoscrypt_pbkdf2_sha256 :: "bytes \<Rightarrow> bytes \<Rightarrow> bytes \<Rightarrow> u32 \<Rightarrow> nat \<Rightarrow> bytes" where
  "neoscrypt_pbkdf2_sha256 junk password salt N output_len =
     (let hmac_pw = neoscrypt_hmac_init_sha256 junk password;
          hmac_pw_salt = neoscrypt_hmac_update_sha256 hmac_pw salt;
          blocks = (output_len + (DIGEST_SIZE - 1)) div DIGEST_SIZE
      in pbkdf2_loop hmac_pw hmac_pw_salt N [1..<blocks + 1] output_len)"

section \<open>What the incremental hash computes\<close>

text \<open>What the code computes: the message with its padding, block after block. That this is SHA-256 is shown below.\<close>

fun compress_all :: "u32 list \<Rightarrow> bytes \<Rightarrow> nat \<Rightarrow> u32 list" where
  "compress_all H b 0 = H"
| "compress_all H b (Suc n) = compress_all (sha256_block H (take 64 b)) (drop 64 b) n"

definition sha256_padded :: "bytes \<Rightarrow> bytes" where
  "sha256_padded m = m @ 0x80 # replicate ((119 - length m mod 64) mod 64) 0 @ U64TO8_BE (word_of_nat (8 * length m))"

definition sha256_digest :: "bytes \<Rightarrow> bytes" where
  "sha256_digest m = concat (map U32TO8_BE (compress_all sha256_IV (sha256_padded m) (length (sha256_padded m) div 64)))"

lemma compress_all_add: "compress_all H b (m + n) = compress_all (compress_all H b m) (drop (64 * m) b) n"
  by (induction m arbitrary: H b) (simp_all add: algebra_simps)

lemma compress_all_append: "64 * n \<le> length b \<Longrightarrow> compress_all H (b @ c) n = compress_all H b n"
  by (induction n arbitrary: H b) simp_all

lemma sha256_blocks_eq:
  "sha256_blocks n b S = S\<lparr>shaH := compress_all (shaH S) b n, shaT := shaT S + word_of_nat (512 * n)\<rparr>"
  by (induction n arbitrary: S b) (simp_all add: BLOCK_SIZE_def algebra_simps)

lemma length_put: "i + length x \<le> length d \<Longrightarrow> length (put i x d) = length d"
  by (simp add: put_def)

lemma take_put: "i + length x \<le> length d \<Longrightarrow> take (i + length x) (put i x d) = take i d @ x"
  by (simp add: put_def)

lemma put_whole: "length x = length d \<Longrightarrow> put 0 x d = x"
  by (simp add: put_def)

text \<open>A state that has taken in a message.\<close>

definition absorbed :: "sha256_hash_state \<Rightarrow> bytes \<Rightarrow> bool" where
  "absorbed S m \<longleftrightarrow>
     leftover S = length m mod 64 \<and> shaH S = compress_all sha256_IV m (length m div 64) \<and>
     shaT S = word_of_nat (512 * (length m div 64)) \<and> length (sha_buffer S) = 64 \<and>
     take (leftover S) (sha_buffer S) = drop (64 * (length m div 64)) m"

lemma absorbed_init: "length junk = 64 \<Longrightarrow> absorbed (neoscrypt_hash_init_sha256 junk) []"
  by (simp add: absorbed_def neoscrypt_hash_init_sha256_def)

lemma sha256_current_absorbs:
  assumes "shaH S = compress_all sha256_IV m n" "shaT S = word_of_nat (512 * n)" "length m = 64 * n"
    "length (sha_buffer S) = 64"
  shows "absorbed (sha256_current x S) (m @ x)"
proof -
  let ?k = "length x div 64"
  let ?r = "length x - ?k * 64"
  have r: "?r = length x mod 64" by (simp add: minus_div_mult_eq_mod)
  have d: "length (m @ x) div 64 = n + ?k" "length (m @ x) mod 64 = length x mod 64" by (simp_all add: assms(3))
  have H: "compress_all sha256_IV (m @ x) (n + ?k) = compress_all (compress_all sha256_IV m n) x ?k"
    using assms(3) by (simp add: compress_all_add compress_all_append)
  have T: "shaT S + word_of_nat (512 * ?k) = word_of_nat (512 * (n + ?k))" by (simp add: assms(2) algebra_simps)
  have tail: "drop (64 * (n + ?k)) (m @ x) = drop (?k * 64) x" using assms(3) by (simp add: algebra_simps)
  have len: "length (drop (?k * 64) x) = length x mod 64" by (simp add: r)
  show ?thesis
  proof (cases "length x mod 64 = 0")
    case True
    then have "drop (?k * 64) x = []" using len by simp
    then show ?thesis using True H T tail assms
      by (simp add: absorbed_def sha256_current_def sha256_blocks_eq BLOCK_SIZE_def d r Let_def)
  next
    case False
    have lt: "?k * 64 < length x" using False div_mult_mod_eq [of "length x" 64] by linarith
    have "length (put 0 (drop (?k * 64) x) (sha_buffer S)) = 64"
      "take (length x mod 64) (put 0 (drop (?k * 64) x) (sha_buffer S)) = drop (?k * 64) x"
      using length_put [of 0 "drop (?k * 64) x" "sha_buffer S"] take_put [of 0 "drop (?k * 64) x" "sha_buffer S"] len assms(4)
      by simp_all
    then show ?thesis using False H T tail assms lt
      by (simp add: absorbed_def sha256_current_def sha256_blocks_eq BLOCK_SIZE_def d r Let_def)
  qed
qed

lemma filled_absorbs:
  assumes "H = compress_all sha256_IV m n" "T = word_of_nat (512 * n)" "length m = 64 * n" "length b = 64"
  shows "absorbed (sha256_current x (S\<lparr>sha_buffer := b, leftover := k, shaH := H, shaT := T\<rparr>)) (m @ x)"
proof -
  let ?S = "S\<lparr>sha_buffer := b, leftover := k, shaH := H, shaT := T\<rparr>"
  have "shaH ?S = compress_all sha256_IV m n" "shaT ?S = word_of_nat (512 * n)" "length (sha_buffer ?S) = 64"
    using assms(1,2,4) by simp_all
  from sha256_current_absorbs [OF this(1,2) assms(3) this(3)] show ?thesis .
qed

lemma block_rest: "(l :: nat) = 64 * q + r \<Longrightarrow> r < 64 \<Longrightarrow> l div 64 = q \<and> l mod 64 = r"
  by simp

lemma block_short: "(l :: nat) mod 64 + k < 64 \<Longrightarrow> (l + k) div 64 = l div 64 \<and> (l + k) mod 64 = l mod 64 + k"
  by (rule block_rest) simp_all

lemma block_full: "(l :: nat) + (64 - l mod 64) = 64 * (l div 64 + 1)"
proof -
  have "l mod 64 < 64" by simp
  then show ?thesis using div_mult_mod_eq [of l 64] by arith
qed

lemma update_absorbs:
  assumes "absorbed S m"
  shows "absorbed (neoscrypt_hash_update_sha256 S x) (m @ x)"
proof -
  let ?n = "length m div 64" and ?l = "length m mod 64"
  have A: "leftover S = ?l" "shaH S = compress_all sha256_IV m ?n" "shaT S = word_of_nat (512 * ?n)"
    "length (sha_buffer S) = 64" "take ?l (sha_buffer S) = drop (64 * ?n) m"
    using assms unfolding absorbed_def by auto
  show ?thesis
  proof (cases "?l = 0")
    case True
    then have "length m = 64 * ?n" by presburger
    then show ?thesis
      using A True sha256_current_absorbs [of S m ?n x] by (simp add: neoscrypt_hash_update_sha256_def)
  next
    case False
    let ?w = "min (64 - ?l) (length x)"
    let ?b = "put ?l (take ?w x) (sha_buffer S)"
    have l: "?l < 64" by simp
    have b: "length ?b = 64" "take (?l + ?w) ?b = drop (64 * ?n) m @ take ?w x"
      using A length_put [of ?l "take ?w x" "sha_buffer S"] take_put [of ?l "take ?w x" "sha_buffer S"] by simp_all
    show ?thesis
    proof (cases "?l + ?w < 64")
      case True
      then have w: "?w = length x" by simp
      have d: "length (m @ x) div 64 = ?n" "length (m @ x) mod 64 = ?l + length x"
        using True block_short [of "length m" "length x"] by (simp_all add: w)
      have H: "compress_all sha256_IV (m @ x) ?n = compress_all sha256_IV m ?n"
        by (rule compress_all_append) simp
      have u: "neoscrypt_hash_update_sha256 S x = S\<lparr>sha_buffer := ?b, leftover := ?l + length x\<rparr>"
        using A(1) False True by (simp add: neoscrypt_hash_update_sha256_def BLOCK_SIZE_def Let_def w)
      show ?thesis unfolding absorbed_def u d H using A b w by simp
    next
      case f: False
      then have w: "?w = 64 - ?l" by simp
      let ?m = "m @ take ?w x"
      have full: "?b = drop (64 * ?n) m @ take ?w x" using b f w by simp
      have lm: "length ?m = 64 * (?n + 1)" using w f block_full [of "length m"] by simp
      let ?S = "S\<lparr>sha_buffer := ?b, leftover := ?l + ?w\<rparr>"
      have "compress_all sha256_IV ?m ?n = compress_all sha256_IV m ?n" by (rule compress_all_append) simp
      moreover have "drop (64 * ?n) ?m = ?b" unfolding full by simp
      ultimately have H: "compress_all sha256_IV ?m (?n + 1) = sha256_block (shaH S) (take 64 ?b)"
        unfolding compress_all_add [of sha256_IV ?m ?n 1] A(2) by simp
      have 1: "sha256_blocks 1 ?b ?S = ?S\<lparr>shaH := compress_all sha256_IV ?m (?n + 1), shaT := word_of_nat (512 * (?n + 1))\<rparr>"
        using A(3) H unfolding sha256_blocks_eq by (simp add: algebra_simps)
      have "absorbed (sha256_current (drop ?w x) (?S\<lparr>shaH := compress_all sha256_IV ?m (?n + 1),
          shaT := word_of_nat (512 * (?n + 1))\<rparr>)) (?m @ drop ?w x)"
        by (rule filled_absorbs [OF refl refl lm b(1)])
      then have "absorbed (sha256_current (drop ?w x) (sha256_blocks 1 ?b ?S)) (?m @ drop ?w x)" by (simp only: 1)
      moreover have "neoscrypt_hash_update_sha256 S x = sha256_current (drop ?w x) (sha256_blocks 1 ?b ?S)"
        using A(1) False f unfolding neoscrypt_hash_update_sha256_def BLOCK_SIZE_def Let_def by simp
      ultimately show ?thesis by simp
    qed
  qed
qed

lemma put_append: "length p = i \<Longrightarrow> put i x (p @ q) = p @ x @ drop (length x) q"
  by (simp add: put_def)

lemma length_U64TO8 [simp]: "length (U64TO8_BE t) = 8"
  by (simp add: U64TO8_BE_def U32TO8_BE_def)

lemma last_block: "64 * n \<le> length m \<Longrightarrow> length b = 64 \<Longrightarrow>
    compress_all H (take (64 * n) m @ b) (n + 1) = sha256_block (compress_all H m n) b"
  unfolding compress_all_add using compress_all_append [of n "take (64 * n) m" H] compress_all_append [of n "take (64 * n) m" H "drop (64 * n) m"]
  by simp

lemma two_blocks_more: "64 * n \<le> length m \<Longrightarrow> length b = 64 \<Longrightarrow> length c = 64 \<Longrightarrow>
    compress_all H (take (64 * n) m @ b @ c) (n + 2) = sha256_block (sha256_block (compress_all H m n) b) c"
  using last_block [of n m b H] compress_all_append [of "n + 1" "take (64 * n) m @ b" H c]
    compress_all_add [of H "take (64 * n) m @ b @ c" "n + 1" 1]
  by simp

lemma one_block: "sha256_blocks 1 b S = S\<lparr>shaH := sha256_block (shaH S) (take 64 b), shaT := shaT S + 512\<rparr>"
  by (simp add: BLOCK_SIZE_def)

lemma finish_short:
  "leftover S \<le> 55 \<Longrightarrow> neoscrypt_hash_finish_sha256 S = concat (map U32TO8_BE (sha256_block (shaH S) (take 64
     (put 56 (U64TO8_BE (shaT S + word_of_nat (leftover S * 8)))
       (neoscrypt_erase (leftover S + 1) (55 - leftover S) ((sha_buffer S)[leftover S := 0x80]))))))"
  by (simp add: neoscrypt_hash_finish_sha256_def Let_def BLOCK_SIZE_def)

lemma finish_long:
  assumes "\<not> leftover S \<le> 55" "b = neoscrypt_erase (leftover S + 1) (63 - leftover S) ((sha_buffer S)[leftover S := 0x80])"
  shows "neoscrypt_hash_finish_sha256 S = concat (map U32TO8_BE (sha256_block (sha256_block (shaH S) (take 64 b)) (take 64
     (put 56 (U64TO8_BE (shaT S + word_of_nat (leftover S * 8))) (neoscrypt_erase 0 56 b)))))"
  using assms by (simp add: neoscrypt_hash_finish_sha256_def Let_def BLOCK_SIZE_def)

lemma zeros_short: "(l :: nat) \<le> 55 \<Longrightarrow> (119 - l) mod 64 = 55 - l"
proof -
  assume "l \<le> 55"
  then have e: "119 - l = 64 + (55 - l)" and "55 - l < 64" by arith+
  from this(2) show ?thesis unfolding e by (simp only: mod_add_self1 mod_less)
qed

lemma zeros_long: "\<not> (l :: nat) \<le> 55 \<Longrightarrow> l < 64 \<Longrightarrow> (119 - l) mod 64 = (63 - l) + 56"
proof -
  assume "\<not> l \<le> 55" "l < 64"
  then have e: "119 - l = 63 - l + 56" and "63 - l + 56 < 64" by arith+
  from this(2) show ?thesis unfolding e by (simp only: mod_less)
qed

lemma head_erased: "length b = 64 \<Longrightarrow> length t = 8 \<Longrightarrow> put 56 t (neoscrypt_erase 0 56 b) = replicate 56 0 @ t"
  by (simp add: neoscrypt_erase_def put_def)

lemma finish_absorbed:
  assumes "absorbed S m"
  shows "neoscrypt_hash_finish_sha256 S = sha256_digest m"
proof -
  let ?n = "length m div 64" and ?l = "length m mod 64"
  let ?r = "drop (64 * ?n) m" and ?t = "U64TO8_BE (word_of_nat (8 * length m))"
  have A: "leftover S = ?l" "shaH S = compress_all sha256_IV m ?n" "shaT S = word_of_nat (512 * ?n)"
    "length (sha_buffer S) = 64" "take ?l (sha_buffer S) = ?r"
    using assms unfolding absorbed_def by auto
  have l: "?l < 64" by simp
  have n: "64 * ?n \<le> length m" by simp
  have lr: "length ?r = ?l" by (simp add: minus_mult_div_eq_mod)
  have nat: "512 * ?n + ?l * 8 = 8 * length m" using div_mult_mod_eq [of "length m" 64] by linarith
  have t: "shaT S + word_of_nat (?l * 8) = word_of_nat (8 * length m)"
    unfolding A(3) nat [symmetric] by simp
  have b0: "(sha_buffer S)[?l := 0x80] = ?r @ 0x80 # drop (?l + 1) (sha_buffer S)"
    using A(4,5) l by (simp add: upd_conv_take_nth_drop)
  have pad: "sha256_padded m = take (64 * ?n) m @ ?r @ 0x80 # replicate ((119 - ?l) mod 64) 0 @ ?t"
    by (simp add: sha256_padded_def)
  show ?thesis
  proof (cases "?l \<le> 55")
    case True
    let ?b = "?r @ 0x80 # replicate (55 - ?l) 0 @ ?t"
    have lb: "length ?b = 64"
      unfolding length_append list.size lr length_replicate length_U64TO8 using True by arith
    have p: "sha256_padded m = take (64 * ?n) m @ ?b" unfolding pad zeros_short [OF True] by simp
    have "length (take (64 * ?n) m) = 64 * ?n" by simp
    then have "length (sha256_padded m) = 64 * ?n + 64" unfolding p length_append [of "take (64 * ?n) m"] lb by simp
    then have lp: "length (sha256_padded m) div 64 = ?n + 1" by simp
    have e: "neoscrypt_erase (?l + 1) (55 - ?l) ((sha_buffer S)[?l := 0x80]) =
        ?r @ 0x80 # replicate (55 - ?l) 0 @ drop 56 (sha_buffer S)"
      using put_append [of "?r @ [0x80]" "?l + 1" "replicate (55 - ?l) 0" "drop (?l + 1) (sha_buffer S)"] lr True
      unfolding neoscrypt_erase_def b0 by simp
    have f: "put 56 ?t (?r @ 0x80 # replicate (55 - ?l) 0 @ drop 56 (sha_buffer S)) = ?b"
    proof -
      have "length (?r @ 0x80 # replicate (55 - ?l) 0) = 56"
        unfolding length_append list.size lr length_replicate using True by arith
      from put_append [OF this, of ?t "drop 56 (sha_buffer S)"] show ?thesis using A(4) by simp
    qed
    have "leftover S \<le> 55" using True A(1) by simp
    from finish_short [OF this] have "neoscrypt_hash_finish_sha256 S = concat (map U32TO8_BE (sha256_block (shaH S) (take 64 ?b)))"
      unfolding A(1) t e f .
    moreover have "take 64 ?b = ?b" by (rule take_all) (simp only: lb order_refl)
    ultimately show ?thesis unfolding sha256_digest_def lp unfolding p by (simp only: last_block [OF n lb] A(2))
  next
    case False
    let ?b = "?r @ 0x80 # replicate (63 - ?l) 0" and ?c = "replicate 56 0 @ ?t"
    have lb: "length ?b = 64" "length ?c = 64"
      unfolding length_append list.size lr length_replicate length_U64TO8 using l by arith+
    have p: "sha256_padded m = take (64 * ?n) m @ ?b @ ?c" unfolding pad zeros_long [OF False l] replicate_add by simp
    have "length (take (64 * ?n) m) = 64 * ?n" by simp
    then have "length (sha256_padded m) = 64 * ?n + 128"
      unfolding p length_append [of "take (64 * ?n) m"] length_append [of ?b] lb by simp
    then have lp: "length (sha256_padded m) div 64 = ?n + 2" by simp
    have e: "neoscrypt_erase (?l + 1) (63 - ?l) ((sha_buffer S)[?l := 0x80]) = ?b"
      using put_append [of "?r @ [0x80]" "?l + 1" "replicate (63 - ?l) 0" "drop (?l + 1) (sha_buffer S)"] lr l A(4)
      unfolding neoscrypt_erase_def b0 by simp
    have f: "put 56 ?t (neoscrypt_erase 0 56 ?b) = ?c" by (rule head_erased [OF lb(1)]) simp
    have k: "\<not> leftover S \<le> 55" using False A(1) by simp
    have "neoscrypt_hash_finish_sha256 S =
        concat (map U32TO8_BE (sha256_block (sha256_block (shaH S) (take 64 ?b)) (take 64 ?c)))"
      using finish_long [OF k refl] unfolding A(1) t e f .
    moreover have "take 64 ?b = ?b" "take 64 ?c = ?c" by (rule take_all, simp only: lb order_refl)+
    ultimately show ?thesis unfolding sha256_digest_def lp unfolding p by (simp only: two_blocks_more [OF n lb] A(2))
  qed
qed

section \<open>It is SHA-256\<close>

lemma ROTR32_rotr: "0 < b \<Longrightarrow> b < 32 \<Longrightarrow> ROTR32 a b = word_rotr b a"
proof (rule bit_word_eqI)
  fix n assume b: "0 < b" "b < 32" and n: "n < LENGTH(32)"
  show "bit (ROTR32 a b) n = bit (word_rotr b a) n"
  proof (cases "n + b < 32")
    case True
    then show ?thesis using b n by (auto simp: ROTR32_def bit_simps add.commute dest: bit_imp_le_length)
  next
    case False
    then have "(n + b) mod 32 = n - (32 - b)" using b n by (simp add: mod_if)
    moreover have "\<not> bit a (b + n)" using False by (auto dest: bit_imp_le_length)
    ultimately show ?thesis using b n False by (auto simp: ROTR32_def bit_simps)
  qed
qed

lemma sha_logic: "Ch x y z = (x AND y) XOR (NOT x AND z)" "Maj x y z = (x AND y) XOR (x AND z) XOR (y AND z)"
  by (rule bit_word_eqI, auto simp: Ch_def Maj_def bit_simps)+

lemma sha_constants: "map FIPS_K [0..<64] = sha256_constants" "FIPS_IV = sha256_IV"
proof -
  have "list_all2 (root_is 3) first_primes sha256_constants"
    by (simp add: first_primes_def root_is_def sha256_constants_def Let_def)
  then have "map (root_bits 3) first_primes = sha256_constants" by (intro root_table) simp_all
  moreover have "length first_primes = 64" by (simp add: first_primes_def)
  then have "map FIPS_K [0..<64] = map (root_bits 3) first_primes"
    unfolding FIPS_K_def by (intro nth_equalityI) simp_all
  ultimately show "map FIPS_K [0..<64] = sha256_constants" by simp
  have "list_all2 (root_is 2) (take 8 first_primes) sha256_IV"
    by (simp add: first_primes_def root_is_def sha256_IV_def Let_def)
  then show "FIPS_IV = sha256_IV" unfolding FIPS_IV_def by (intro root_table) simp_all
qed

lemma be_4: "be_bytes 4 n = [word_of_nat (n div 16777216), word_of_nat (n div 65536), word_of_nat (n div 256), word_of_nat n]"
  by (simp add: be_bytes_def le_bytes_4)

lemma ucast_drop_bit: "(ucast (drop_bit k v) :: byte) = word_of_nat (unat v div 2 ^ k)" for v :: "'a::len word"
proof -
  have "(ucast (drop_bit k v) :: byte) = word_of_nat (unat (drop_bit k v))" by simp
  also have "unat (drop_bit k v) = unat v div 2 ^ k" unfolding unat_drop_bit_eq by (rule drop_bit_eq_div)
  finally show ?thesis .
qed

lemma U32TO8_be: "U32TO8_BE v = be_bytes 4 (unat v)"
  using ucast_drop_bit [of 24 v] ucast_drop_bit [of 16 v] ucast_drop_bit [of 8 v] ucast_drop_bit [of 0 v]
  by (simp add: U32TO8_BE_def be_4)

lemma be_4_mod: "U32TO8_BE (word_of_nat n) = be_bytes 4 n"
  using le_bytes_mod [of 4 n] by (simp add: U32TO8_be be_bytes_def unat_of_nat)

lemma be_image_eq: "concat (map U32TO8_BE ws) = be_image ws"
  unfolding be_image_def by (rule arg_cong [where f = concat]) (simp add: U32TO8_be)

lemma le_bytes_add: "le_bytes (j + k) n = le_bytes j n @ le_bytes k (n div 256 ^ j)"
  by (induction j arbitrary: n) (simp_all add: div_mult2_eq)

lemma be_8: "be_bytes 8 n = be_bytes 4 (n div 2 ^ 32) @ be_bytes 4 n"
proof -
  have "le_bytes (4 + 4) n = le_bytes 4 n @ le_bytes 4 (n div 256 ^ 4)" for n :: nat
    by (simp only: le_bytes_add)
  then show ?thesis by (simp add: be_bytes_def)
qed

lemma U64TO8_be: "U64TO8_BE (word_of_nat n) = be_bytes 8 n"
proof -
  let ?v = "word_of_nat n :: u64"
  have "(ucast (drop_bit 32 ?v) :: u32) = word_of_nat (unat (drop_bit 32 ?v))" by simp
  also have "unat (drop_bit 32 ?v) = n mod 2 ^ 64 div 2 ^ 32"
    unfolding unat_drop_bit_eq unat_of_nat by (simp add: drop_bit_eq_div)
  finally have h: "(ucast (drop_bit 32 ?v) :: u32) = word_of_nat (n mod 2 ^ 64 div 2 ^ 32)" .
  have l: "(ucast ?v :: u32) = word_of_nat n" by (rule bit_word_eqI) (simp add: bit_simps)
  have "n mod (2 ^ 32 * 2 ^ 32) div 2 ^ 32 = n div 2 ^ 32 mod 2 ^ 32" unfolding mod_mult2_eq by simp
  then have "be_bytes 4 (n mod 2 ^ 64 div 2 ^ 32) = be_bytes 4 (n div 2 ^ 32)"
    using le_bytes_mod [of 4 "n div 2 ^ 32"] by (simp add: be_bytes_def)
  then show ?thesis unfolding U64TO8_BE_def h l be_4_mod by (simp only: be_8 [of n])
qed

lemma U8TO32_be: "length p = 4 \<Longrightarrow> U8TO32_BE p = word_of_nat (be_nat p)"
proof -
  assume "length p = 4"
  then obtain a b c d where p: "p = [a, b, c, d]"
    by (auto simp: numeral_eq_Suc length_Suc_conv)
  have o: "push_bit 8 x OR ucast e = ucast e + 256 * x" for x :: u32 and e :: byte
  proof -
    have "push_bit 8 x OR ucast e = push_bit 8 x + ucast e"
      by (rule disjunctive_add [symmetric]) (auto simp: bit_simps dest: bit_imp_le_length)
    then show ?thesis by (simp add: push_bit_eq_mult)
  qed
  have "U8TO32_BE p = push_bit 8 (push_bit 8 (push_bit 8 (ucast a) OR ucast b) OR ucast c) OR ucast d"
    by (simp add: p U8TO32_BE_def push_bit_or or.assoc)
  then show ?thesis unfolding o p be_nat_def by (simp add: algebra_simps)
qed

lemma padding_eq: "FIPS_padding m = sha256_padded m"
proof -
  have "nat ((55 - int (length m)) mod 64) = (119 - length m mod 64) mod 64"
  proof -
    let ?l = "length m mod 64"
    have "(55 - int (length m)) mod 64 = (119 - int ?l) mod 64"
      using mod_diff_right_eq [of 119 "int (length m)" 64] mod_add_self2 [of "55 - int (length m)" 64]
      by (simp add: zmod_int algebra_simps)
    also have "119 - int ?l = int (119 - ?l)" using mod_less_divisor [of 64 "length m"] by linarith
    also have "int (119 - ?l) mod 64 = int ((119 - ?l) mod 64)" by (simp only: zmod_int of_nat_numeral)
    finally show ?thesis by (simp only: nat_int)
  qed
  then show ?thesis by (simp only: FIPS_padding_def sha256_padded_def U64TO8_be append.simps)
qed

lemma words_prefix:
  assumes "length b = 64"
  shows "n \<le> 48 \<Longrightarrow> foldl (\<lambda>w i. w @ [W1 w i]) (map (W0 b) [0..<16]) [16..<16 + n] = map (FIPS_W b) [0..<16 + n]"
proof (induction n)
  case 0
  have "W0 b i = FIPS_W b i" if "i < 16" for i
    using that assms U8TO32_be [of "take 4 (drop (4 * i) b)"]
    by (simp add: FIPS_W.simps [of b i] W0_def be_word_def U8TO32_BE_def mult.commute)
  then show ?case by simp
next
  case (Suc n)
  let ?i = "16 + n"
  have "W1 (map (FIPS_W b) [0..<?i]) ?i = FIPS_W b ?i"
    unfolding FIPS_W.simps [of b ?i] W1_def by (simp add: G0_def G1_def ROTR32_rotr Let_def)
  moreover have "[k..<16 + Suc n] = [k..<?i] @ [?i]" if "k \<le> 16" for k
    using upt_Suc_append [of k ?i] that by simp
  ultimately show ?case using Suc by (simp del: upt_Suc)
qed

lemma words_eq: "length b = 64 \<Longrightarrow> sha256_words b = map (FIPS_W b) [0..<64]"
  using words_prefix [of b 48] unfolding sha256_words_def by (simp del: upt_rec_numeral)

lemma sums_rotr: "S0 x = word_rotr 2 x XOR word_rotr 13 x XOR word_rotr 22 x"
    "S1 x = word_rotr 6 x XOR word_rotr 11 x XOR word_rotr 25 x"
  by (simp_all add: S0_def S1_def ROTR32_rotr)

lemma vars_eight: "FIPS_vars [p, q, s, t, u, v, x, y] = (p, q, s, t, u, v, x, y)"
  by (simp add: FIPS_vars_def)

lemma step_vars: "FIPS_vars (sha256_STEP w r i) = FIPS_round (sha256_constants ! i) (w ! i) (FIPS_vars r)"
  unfolding sha256_STEP_def Let_def vars_eight
  unfolding FIPS_vars_def FIPS_round_def split
  unfolding Let_def sums_rotr
  unfolding sha_logic by (rule refl)

lemma step_eq: "i < 64 \<Longrightarrow> FIPS_vars (sha256_STEP w r i) = FIPS_round (FIPS_K i) (w ! i) (FIPS_vars r)"
proof -
  assume i: "i < 64"
  have "map FIPS_K [0..<64] ! i = FIPS_K ([0..<64] ! i)" using i by (intro nth_map) (simp only: length_upt)
  also have "[0..<64] ! i = i" using i nth_upt [of 0 i 64] by (simp only: add_0)
  finally have "sha256_constants ! i = FIPS_K i" unfolding sha_constants(1) .
  then show ?thesis unfolding step_vars by (rule arg_cong)
qed

lemma length_step: "length (sha256_STEP w r i) = 8"
  by (simp add: sha256_STEP_def Let_def)

lemma vars_list: "length r = 8 \<Longrightarrow>
    r = (case FIPS_vars r of (a, b, c, d, e, f, g, h) \<Rightarrow> [a, b, c, d, e, f, g, h])"
  by (auto simp: FIPS_vars_def numeral_eq_Suc length_Suc_conv)

lemma steps_eq:
  assumes "length H = 8" "length b = 64"
  defines "w \<equiv> map (FIPS_W b) [0..<64]"
  shows "n \<le> 64 \<Longrightarrow> length (foldl (sha256_STEP w) H [0..<n]) = 8 \<and>
    FIPS_vars (foldl (sha256_STEP w) H [0..<n]) = fold (\<lambda>t. FIPS_round (FIPS_K t) (FIPS_W b t)) [0..<n] (FIPS_vars H)"
proof (induction n)
  case (Suc n)
  then show ?case
    using step_eq [of n w "foldl (sha256_STEP w) H [0..<n]"] by (simp add: w_def length_step)
qed (simp add: assms)

lemma block_eq:
  assumes "length H = 8" "length b = 64"
  shows "sha256_block H b = FIPS_compress H b"
proof -
  let ?r = "foldl (sha256_STEP (sha256_words b)) H [0..<64]"
  have r: "length ?r = 8" "FIPS_vars ?r = fold (\<lambda>t. FIPS_round (FIPS_K t) (FIPS_W b t)) [0..<64] (FIPS_vars H)"
    using steps_eq [OF assms, of 64] unfolding words_eq [OF assms(2)] by simp_all
  have h: "H = [H ! 0, H ! 1, H ! 2, H ! 3, H ! 4, H ! 5, H ! 6, H ! 7]"
    using vars_list [OF assms(1)] by (simp add: FIPS_vars_def)
  obtain p q s t u v x y where f: "FIPS_vars ?r = (p, q, s, t, u, v, x, y)" by (metis surj_pair)
  have e: "?r = [p, q, s, t, u, v, x, y]" using vars_list [OF r(1)] unfolding f by simp
  show ?thesis unfolding sha256_block_def FIPS_compress_def r(2) [symmetric] f e Let_def split
    by (subst h) (simp add: FIPS_vars_def)
qed

lemma sha256_block_length: "length H = 8 \<Longrightarrow> length (sha256_block H b) = 8"
proof -
  assume "length H = 8"
  then have "length (foldl (sha256_STEP w) H xs) = 8" for w xs
    by (induction xs rule: rev_induct) (simp_all add: sha256_STEP_def Let_def)
  then show ?thesis using \<open>length H = 8\<close> by (simp add: sha256_block_def)
qed

lemma compress_all_length: "length H = 8 \<Longrightarrow> length (compress_all H b n) = 8"
  by (induction n arbitrary: H b) (simp_all add: sha256_block_length)

lemma length_digest: "length (sha256_digest m) = 32"
proof -
  have "length (concat (map U32TO8_BE ws)) = 4 * length ws" for ws
    by (induction ws) (simp_all add: U32TO8_BE_def)
  moreover have "length sha256_IV = 8" by (simp add: sha256_IV_def)
  ultimately show ?thesis by (simp add: sha256_digest_def compress_all_length)
qed

lemma compress_all_eq: "length H = 8 \<Longrightarrow> 64 * n \<le> length b \<Longrightarrow>
    compress_all H b n = foldl FIPS_compress H (map (\<lambda>i. take 64 (drop (64 * i) b)) [0..<n])"
proof (induction n arbitrary: H b)
  case (Suc n)
  have "[0..<Suc n] = 0 # map Suc [0..<n]" by (simp add: map_Suc_upt upt_conv_Cons)
  moreover have "length (take 64 b) = 64" using Suc.prems by simp
  note block_eq [OF Suc.prems(1) this]
  moreover have "64 * n \<le> length (drop 64 b)" using Suc.prems by simp
  note Suc.IH [OF sha256_block_length [OF Suc.prems(1)] this, of "take 64 b"]
  ultimately show ?case by (simp add: comp_def add.commute)
qed simp

lemma digest_standard: "sha256_digest m = SHA256_spec m"
proof -
  have "length sha256_IV = 8" by (simp add: sha256_IV_def)
  from compress_all_eq [OF this, of "length (sha256_padded m) div 64" "sha256_padded m"]
  show ?thesis by (simp add: sha256_digest_def SHA256_spec_def be_image_eq padding_eq sha_constants(2) Let_def)
qed

lemma length_SHA256: "length (SHA256_spec m) = 32"
  unfolding digest_standard [symmetric] by (rule length_digest)

section \<open>Incremental hashes\<close>

text \<open>What a client relies on: a state stands for the bytes it has taken in, and finishing gives their hash.\<close>

locale stream_hash =
  fixes takes_in :: "'s \<Rightarrow> bytes \<Rightarrow> bool"
    and upd :: "'s \<Rightarrow> bytes \<Rightarrow> 's"
    and fin :: "'s \<Rightarrow> bytes"
    and H :: "bytes \<Rightarrow> bytes"
  assumes upd: "takes_in s m \<Longrightarrow> takes_in (upd s x) (m @ x)"
    and fin: "takes_in s m \<Longrightarrow> fin s = H m"
begin

lemma fin_upd: "takes_in s m \<Longrightarrow> fin (upd s x) = H (m @ x)"
  using fin upd by blast

lemma two_passes: "takes_in i p \<Longrightarrow> takes_in t q \<Longrightarrow> fin (upd t (fin i)) = H (q @ H p)"
  by (simp add: fin fin_upd)

lemma fold_upd: "takes_in s m \<Longrightarrow> takes_in (foldl upd s xs) (m @ concat xs)"
proof (induction xs arbitrary: s m)
  case (Cons x xs)
  from Cons.IH [OF upd [OF Cons.prems, of x]] show ?case by simp
qed simp

end

interpretation sha: stream_hash absorbed neoscrypt_hash_update_sha256 neoscrypt_hash_finish_sha256 SHA256_spec
  by unfold_locales (auto simp: update_absorbs finish_absorbed digest_standard)

lemma length_HMAC: "length (HMAC_spec key m) = 32"
  by (simp add: HMAC_spec_def length_SHA256)

definition hmac_takes :: "sha256_hmac_state \<Rightarrow> bytes \<Rightarrow> bytes \<Rightarrow> bool" where
  "hmac_takes st key m \<longleftrightarrow>
     absorbed (hmac_inner st) (map ((XOR) 0x36) (HMAC_key key) @ m) \<and>
     absorbed (hmac_outer st) (map ((XOR) 0x5C) (HMAC_key key))"

lemma xor_pad: "length k \<le> n \<Longrightarrow> neoscrypt_xor 0 k (replicate n c) = map ((XOR) c) (k @ replicate (n - length k) 0)"
proof -
  assume "length k \<le> n"
  then have "replicate n c = replicate (length k) c @ replicate (n - length k) c" by (simp add: replicate_add [symmetric])
  moreover have "map2 (XOR) (replicate (length k) c) k = map ((XOR) c) k" by (induction k) simp_all
  ultimately show ?thesis by (simp add: neoscrypt_xor_def put_def)
qed

lemma hmac_init_takes:
  assumes "length junk = 64"
  shows "hmac_takes (neoscrypt_hmac_init_sha256 junk key) key []"
proof -
  let ?fresh = "neoscrypt_hash_init_sha256 junk"
  note i = absorbed_init [OF assms]
  have dig: "neoscrypt_hash_finish_sha256 (neoscrypt_hash_update_sha256 ?fresh k) = SHA256_spec k" for k
    using sha.fin_upd [OF i] by simp
  have pad: "(if length key \<le> BLOCK_SIZE then neoscrypt_xor 0 key (replicate BLOCK_SIZE 0x36)
       else neoscrypt_xor 0 (SHA256_spec key) (replicate BLOCK_SIZE 0x36)) = map ((XOR) 0x36) (HMAC_key key)"
    using xor_pad [of key 64 "0x36"] xor_pad [of "SHA256_spec key" 64 "0x36"]
    by (simp add: HMAC_key_def BLOCK_SIZE_def length_SHA256)
  have opad: "map (\<lambda>b. b XOR (0x36 XOR 0x5C)) (map ((XOR) 0x36) ks) = map ((XOR) 0x5C) (ks :: bytes)" for ks
  proof -
    have "(54 XOR b) XOR 106 = 92 XOR b" for b :: byte
    proof -
      have "(54 XOR b) XOR 106 = b XOR (54 XOR 106)" by (simp only: xor.commute xor.left_commute xor.assoc)
      then show ?thesis by (simp add: xor.commute)
    qed
    then show ?thesis by simp
  qed
  have e: "neoscrypt_hmac_init_sha256 junk key =
      \<lparr>hmac_inner = neoscrypt_hash_update_sha256 ?fresh (map ((XOR) 0x36) (HMAC_key key)),
       hmac_outer = neoscrypt_hash_update_sha256 ?fresh (map ((XOR) 0x5C) (HMAC_key key))\<rparr>"
    unfolding neoscrypt_hmac_init_sha256_def Let_def dig pad opad ..
  show ?thesis using sha.upd [OF i] unfolding e hmac_takes_def by simp
qed

lemma hmac_update_takes: "hmac_takes st key m \<Longrightarrow> hmac_takes (neoscrypt_hmac_update_sha256 st x) key (m @ x)"
  using sha.upd [of "hmac_inner st" "map ((XOR) 0x36) (HMAC_key key) @ m" x]
  by (simp add: hmac_takes_def neoscrypt_hmac_update_sha256_def)

lemma hmac_finish: "hmac_takes st key m \<Longrightarrow> neoscrypt_hmac_finish_sha256 st = HMAC_spec key m"
  using sha.two_passes by (simp add: hmac_takes_def neoscrypt_hmac_finish_sha256_def HMAC_spec_def)

lemma pbkdf2_rounds_U:
  assumes "hmac_takes hmac_pw key []"
  shows "pbkdf2_rounds hmac_pw n (pbkdf2_U key salt i j) t =
    foldl (map2 (XOR)) t (map (pbkdf2_U key salt i) [j + 1..<j + 1 + n])"
proof (induction n arbitrary: j t)
  case (Suc n)
  have u: "neoscrypt_hmac_finish_sha256 (neoscrypt_hmac_update_sha256 hmac_pw (pbkdf2_U key salt i j)) =
      pbkdf2_U key salt i (Suc j)"
    using hmac_finish [OF hmac_update_takes [OF assms]] by simp
  have "[j + 1..<j + 1 + Suc n] = (j + 1) # [Suc j + 1..<Suc j + 1 + n]" by (simp add: upt_conv_Cons)
  then show ?case using Suc.IH [of "Suc j"] by (simp only: pbkdf2_rounds.simps Let_def u list.map foldl.simps) simp
qed simp

lemma pbkdf2_block_T:
  assumes "hmac_takes hmac_pw key []" "N \<noteq> 0"
  shows "pbkdf2_block hmac_pw (neoscrypt_hmac_update_sha256 hmac_pw salt) N i = pbkdf2_T key salt (unat N) i"
proof -
  have "neoscrypt_hmac_finish_sha256 (neoscrypt_hmac_update_sha256 (neoscrypt_hmac_update_sha256 hmac_pw salt)
      (U32TO8_BE (word_of_nat i))) = pbkdf2_U key salt i 0"
    using hmac_finish [OF hmac_update_takes [OF hmac_update_takes [OF assms(1)]]] be_4_mod by simp
  moreover have "unat (N - 1) = unat N - 1" using assms(2) by (simp add: unat_minus_one)
  moreover have "0 < unat N" using assms(2) by (simp add: unat_gt_0)
  ultimately show ?thesis using pbkdf2_rounds_U [OF assms(1), of "unat N - 1" salt i 0]
    by (simp add: pbkdf2_block_def pbkdf2_T_def Let_def)
qed

lemma pbkdf2_T_length: "length (pbkdf2_T key salt c i) = 32"
proof -
  have u: "length (pbkdf2_U key salt i j) = 32" for j by (cases j) (simp_all add: length_HMAC)
  have "length (foldl (map2 (XOR)) t (map (pbkdf2_U key salt i) xs)) = 32" if "length t = 32" for t xs
    using that by (induction xs arbitrary: t) (simp_all add: u)
  then show ?thesis unfolding pbkdf2_T_def using u by blast
qed

lemma pbkdf2_loop_take:
  assumes "\<And>i. length (f i) = 32" "\<And>i. pbkdf2_block a b N i = f i"
  shows "out \<le> 32 * length js \<Longrightarrow> pbkdf2_loop a b N js out = take out (concat (map f js))"
  by (induction js arbitrary: out) (auto simp: assms DIGEST_SIZE_def)

lemma pbkdf2_spec:
  assumes "length junk = 64" "N \<noteq> 0"
  shows "neoscrypt_pbkdf2_sha256 junk password salt N output_len = PBKDF2_spec password salt (unat N) output_len"
proof -
  note k = hmac_init_takes [OF assms(1), of password]
  have "output_len \<le> 32 * ((output_len + 31) div 32)" by linarith
  then show ?thesis
    using pbkdf2_loop_take [of "pbkdf2_T password salt (unat N)", OF pbkdf2_T_length pbkdf2_block_T [OF k assms(2)]]
    by (simp add: neoscrypt_pbkdf2_sha256_def PBKDF2_spec_def DIGEST_SIZE_def Let_def del: upt_Suc)
qed

text \<open>C18: The key derivation of Scrypt is PBKDF2 with HMAC-SHA-256 as the standards define them, for every
  password, salt, number of rounds but zero, and output length, however the messages are cut into the calls
  of the incremental hash and whatever the uninitialised buffers hold.\<close>

theorem pbkdf2_is_standard:
  assumes "length junk = 64" "N \<noteq> 0"
  shows "neoscrypt_pbkdf2_sha256 junk password salt N output_len = PBKDF2_spec password salt (unat N) output_len"
  using assms by (rule pbkdf2_spec)

theorem pbkdf2_is_standard_witness:
  "neoscrypt_pbkdf2_sha256 (replicate 64 7) [112, 97, 115, 115] [115] 1 32 = PBKDF2_spec [112, 97, 115, 115] [115] 1 32"
  using pbkdf2_is_standard [of "replicate 64 7" 1 "[112, 97, 115, 115]" "[115]" 32] by simp

end
