(* ===== verification/Blake2s.thy ===== *)
theory Blake2s
  imports NeoHash
begin

text \<open>
  BLAKE2s with a key (\<^verbatim>\<open>neoscrypt.c\<close>). The compression function is written out in the code, 80 mixings of four
  words, a round after the other; the rounds are definitions of their own, and the mixing of four words is
  \<open>blake2s_mix\<close>. Words lie in memory with the lowest byte first. The field \<^verbatim>\<open>tempbuf\<close> of the state only holds
  the words that are mixed, and is left out.
\<close>

section \<open>The compression function\<close>

definition blake2s_IV :: "u32 list" where
  "blake2s_IV = [0x6A09E667, 0xBB67AE85, 0x3C6EF372, 0xA54FF53A, 0x510E527F, 0x9B05688C, 0x1F83D9AB, 0x5BE0CD19]"

record blake2s_state =
  bl_h :: "u32 list"
  bl_t :: "u32 list"
  bl_f :: "u32 list"
  bl_buf :: bytes
  bl_buflen :: nat

text \<open>The words of a buffer.\<close>

definition words32 :: "nat \<Rightarrow> bytes \<Rightarrow> u32 list" where
  "words32 n b = map (\<lambda>i. of_mem (take 4 (drop (4 * i) b))) [0..<n]"

definition bytes32 :: "u32 list \<Rightarrow> bytes" where
  "bytes32 w = concat (map mem w)"

definition blake2s_mix :: "nat \<Rightarrow> nat \<Rightarrow> nat \<Rightarrow> nat \<Rightarrow> u32 \<Rightarrow> u32 \<Rightarrow> u32 list \<Rightarrow> u32 list" where
  "blake2s_mix a b c d x y v =
     (let t0 = v ! a + v ! b + x;
          t3 = ROTR32 (v ! d XOR t0) 16;
          t2 = v ! c + t3;
          t1 = ROTR32 (v ! b XOR t2) 12;
          t0 = t0 + t1 + y;
          t3 = ROTR32 (t3 XOR t0) 8;
          t2 = t2 + t3;
          t1 = ROTR32 (t1 XOR t2) 7
      in v[a := t0, d := t3, c := t2, b := t1])"

definition blake2s_round0 :: "u32 list \<Rightarrow> u32 list \<Rightarrow> u32 list" where
  "blake2s_round0 m v =
     (let v = blake2s_mix 0 4 8 12 (m ! 0) (m ! 1) v;
          v = blake2s_mix 1 5 9 13 (m ! 2) (m ! 3) v;
          v = blake2s_mix 2 6 10 14 (m ! 4) (m ! 5) v;
          v = blake2s_mix 3 7 11 15 (m ! 6) (m ! 7) v;
          v = blake2s_mix 0 5 10 15 (m ! 8) (m ! 9) v;
          v = blake2s_mix 1 6 11 12 (m ! 10) (m ! 11) v;
          v = blake2s_mix 2 7 8 13 (m ! 12) (m ! 13) v;
          v = blake2s_mix 3 4 9 14 (m ! 14) (m ! 15) v
      in v)"

definition blake2s_round1 :: "u32 list \<Rightarrow> u32 list \<Rightarrow> u32 list" where
  "blake2s_round1 m v =
     (let v = blake2s_mix 0 4 8 12 (m ! 14) (m ! 10) v;
          v = blake2s_mix 1 5 9 13 (m ! 4) (m ! 8) v;
          v = blake2s_mix 2 6 10 14 (m ! 9) (m ! 15) v;
          v = blake2s_mix 3 7 11 15 (m ! 13) (m ! 6) v;
          v = blake2s_mix 0 5 10 15 (m ! 1) (m ! 12) v;
          v = blake2s_mix 1 6 11 12 (m ! 0) (m ! 2) v;
          v = blake2s_mix 2 7 8 13 (m ! 11) (m ! 7) v;
          v = blake2s_mix 3 4 9 14 (m ! 5) (m ! 3) v
      in v)"

definition blake2s_round2 :: "u32 list \<Rightarrow> u32 list \<Rightarrow> u32 list" where
  "blake2s_round2 m v =
     (let v = blake2s_mix 0 4 8 12 (m ! 11) (m ! 8) v;
          v = blake2s_mix 1 5 9 13 (m ! 12) (m ! 0) v;
          v = blake2s_mix 2 6 10 14 (m ! 5) (m ! 2) v;
          v = blake2s_mix 3 7 11 15 (m ! 15) (m ! 13) v;
          v = blake2s_mix 0 5 10 15 (m ! 10) (m ! 14) v;
          v = blake2s_mix 1 6 11 12 (m ! 3) (m ! 6) v;
          v = blake2s_mix 2 7 8 13 (m ! 7) (m ! 1) v;
          v = blake2s_mix 3 4 9 14 (m ! 9) (m ! 4) v
      in v)"

definition blake2s_round3 :: "u32 list \<Rightarrow> u32 list \<Rightarrow> u32 list" where
  "blake2s_round3 m v =
     (let v = blake2s_mix 0 4 8 12 (m ! 7) (m ! 9) v;
          v = blake2s_mix 1 5 9 13 (m ! 3) (m ! 1) v;
          v = blake2s_mix 2 6 10 14 (m ! 13) (m ! 12) v;
          v = blake2s_mix 3 7 11 15 (m ! 11) (m ! 14) v;
          v = blake2s_mix 0 5 10 15 (m ! 2) (m ! 6) v;
          v = blake2s_mix 1 6 11 12 (m ! 5) (m ! 10) v;
          v = blake2s_mix 2 7 8 13 (m ! 4) (m ! 0) v;
          v = blake2s_mix 3 4 9 14 (m ! 15) (m ! 8) v
      in v)"

definition blake2s_round4 :: "u32 list \<Rightarrow> u32 list \<Rightarrow> u32 list" where
  "blake2s_round4 m v =
     (let v = blake2s_mix 0 4 8 12 (m ! 9) (m ! 0) v;
          v = blake2s_mix 1 5 9 13 (m ! 5) (m ! 7) v;
          v = blake2s_mix 2 6 10 14 (m ! 2) (m ! 4) v;
          v = blake2s_mix 3 7 11 15 (m ! 10) (m ! 15) v;
          v = blake2s_mix 0 5 10 15 (m ! 14) (m ! 1) v;
          v = blake2s_mix 1 6 11 12 (m ! 11) (m ! 12) v;
          v = blake2s_mix 2 7 8 13 (m ! 6) (m ! 8) v;
          v = blake2s_mix 3 4 9 14 (m ! 3) (m ! 13) v
      in v)"

definition blake2s_round5 :: "u32 list \<Rightarrow> u32 list \<Rightarrow> u32 list" where
  "blake2s_round5 m v =
     (let v = blake2s_mix 0 4 8 12 (m ! 2) (m ! 12) v;
          v = blake2s_mix 1 5 9 13 (m ! 6) (m ! 10) v;
          v = blake2s_mix 2 6 10 14 (m ! 0) (m ! 11) v;
          v = blake2s_mix 3 7 11 15 (m ! 8) (m ! 3) v;
          v = blake2s_mix 0 5 10 15 (m ! 4) (m ! 13) v;
          v = blake2s_mix 1 6 11 12 (m ! 7) (m ! 5) v;
          v = blake2s_mix 2 7 8 13 (m ! 15) (m ! 14) v;
          v = blake2s_mix 3 4 9 14 (m ! 1) (m ! 9) v
      in v)"

definition blake2s_round6 :: "u32 list \<Rightarrow> u32 list \<Rightarrow> u32 list" where
  "blake2s_round6 m v =
     (let v = blake2s_mix 0 4 8 12 (m ! 12) (m ! 5) v;
          v = blake2s_mix 1 5 9 13 (m ! 1) (m ! 15) v;
          v = blake2s_mix 2 6 10 14 (m ! 14) (m ! 13) v;
          v = blake2s_mix 3 7 11 15 (m ! 4) (m ! 10) v;
          v = blake2s_mix 0 5 10 15 (m ! 0) (m ! 7) v;
          v = blake2s_mix 1 6 11 12 (m ! 6) (m ! 3) v;
          v = blake2s_mix 2 7 8 13 (m ! 9) (m ! 2) v;
          v = blake2s_mix 3 4 9 14 (m ! 8) (m ! 11) v
      in v)"

definition blake2s_round7 :: "u32 list \<Rightarrow> u32 list \<Rightarrow> u32 list" where
  "blake2s_round7 m v =
     (let v = blake2s_mix 0 4 8 12 (m ! 13) (m ! 11) v;
          v = blake2s_mix 1 5 9 13 (m ! 7) (m ! 14) v;
          v = blake2s_mix 2 6 10 14 (m ! 12) (m ! 1) v;
          v = blake2s_mix 3 7 11 15 (m ! 3) (m ! 9) v;
          v = blake2s_mix 0 5 10 15 (m ! 5) (m ! 0) v;
          v = blake2s_mix 1 6 11 12 (m ! 15) (m ! 4) v;
          v = blake2s_mix 2 7 8 13 (m ! 8) (m ! 6) v;
          v = blake2s_mix 3 4 9 14 (m ! 2) (m ! 10) v
      in v)"

definition blake2s_round8 :: "u32 list \<Rightarrow> u32 list \<Rightarrow> u32 list" where
  "blake2s_round8 m v =
     (let v = blake2s_mix 0 4 8 12 (m ! 6) (m ! 15) v;
          v = blake2s_mix 1 5 9 13 (m ! 14) (m ! 9) v;
          v = blake2s_mix 2 6 10 14 (m ! 11) (m ! 3) v;
          v = blake2s_mix 3 7 11 15 (m ! 0) (m ! 8) v;
          v = blake2s_mix 0 5 10 15 (m ! 12) (m ! 2) v;
          v = blake2s_mix 1 6 11 12 (m ! 13) (m ! 7) v;
          v = blake2s_mix 2 7 8 13 (m ! 1) (m ! 4) v;
          v = blake2s_mix 3 4 9 14 (m ! 10) (m ! 5) v
      in v)"

definition blake2s_round9 :: "u32 list \<Rightarrow> u32 list \<Rightarrow> u32 list" where
  "blake2s_round9 m v =
     (let v = blake2s_mix 0 4 8 12 (m ! 10) (m ! 2) v;
          v = blake2s_mix 1 5 9 13 (m ! 8) (m ! 4) v;
          v = blake2s_mix 2 6 10 14 (m ! 7) (m ! 6) v;
          v = blake2s_mix 3 7 11 15 (m ! 1) (m ! 5) v;
          v = blake2s_mix 0 5 10 15 (m ! 15) (m ! 11) v;
          v = blake2s_mix 1 6 11 12 (m ! 9) (m ! 14) v;
          v = blake2s_mix 2 7 8 13 (m ! 3) (m ! 12) v;
          v = blake2s_mix 3 4 9 14 (m ! 13) (m ! 0) v
      in v)"

definition blake2s_compress :: "blake2s_state \<Rightarrow> blake2s_state" where
  "blake2s_compress S =
     (let m = words32 16 (bl_buf S);
          v = bl_h S @ take 4 blake2s_IV @
            [bl_t S ! 0 XOR blake2s_IV ! 4, bl_t S ! 1 XOR blake2s_IV ! 5,
             bl_f S ! 0 XOR blake2s_IV ! 6, bl_f S ! 1 XOR blake2s_IV ! 7];
          v = blake2s_round9 m (blake2s_round8 m (blake2s_round7 m (blake2s_round6 m (blake2s_round5 m
            (blake2s_round4 m (blake2s_round3 m (blake2s_round2 m (blake2s_round1 m (blake2s_round0 m v)))))))))
      in S\<lparr>bl_h := map (\<lambda>i. bl_h S ! i XOR (v ! i XOR v ! (i + 8))) [0..<8]\<rparr>)"

section \<open>The keyed hash\<close>

function blake2s_update :: "blake2s_state \<Rightarrow> bytes \<Rightarrow> blake2s_state" where
  "blake2s_update S input =
     (if input = [] then S
      else
        let left = bl_buflen S; fill = 2 * BLOCK_SIZE - left in
        if length input > fill then
          (let S = S\<lparr>bl_buf := put left (take fill input) (bl_buf S), bl_buflen := left + fill,
                     bl_t := (bl_t S)[0 := bl_t S ! 0 + word_of_nat BLOCK_SIZE]\<rparr>;
               S = blake2s_compress S;
               S = S\<lparr>bl_buf := put 0 (take BLOCK_SIZE (drop BLOCK_SIZE (bl_buf S))) (bl_buf S),
                     bl_buflen := bl_buflen S - BLOCK_SIZE\<rparr>
           in blake2s_update S (drop fill input))
        else S\<lparr>bl_buf := put left input (bl_buf S), bl_buflen := left + length input\<rparr>)"
  by pat_completeness auto

termination
  by (relation "measure (\<lambda>(S, input). length input + bl_buflen S)") (auto simp: blake2s_compress_def Let_def BLOCK_SIZE_def)

declare blake2s_update.simps [simp del]

definition blake2s_param :: "byte \<Rightarrow> byte \<Rightarrow> bytes" where
  "blake2s_param digest_length key_length = [digest_length, key_length, 1, 1] @ replicate 28 0"

definition neoscrypt_blake2s :: "bytes \<Rightarrow> bytes \<Rightarrow> nat \<Rightarrow> bytes" where
  "neoscrypt_blake2s input key output_size =
     (let P = blake2s_param (word_of_nat output_size) (word_of_nat (length key));
          S = \<lparr>bl_h = map2 (XOR) blake2s_IV (words32 8 P), bl_t = [0, 0], bl_f = [0, 0],
               bl_buf = replicate (2 * BLOCK_SIZE) 0, bl_buflen = 0\<rparr>;
          S = blake2s_update S (put 0 key (replicate BLOCK_SIZE 0));
          S = blake2s_update S input;
          S = (if bl_buflen S > BLOCK_SIZE then
                 let S = blake2s_compress (S\<lparr>bl_t := (bl_t S)[0 := bl_t S ! 0 + word_of_nat BLOCK_SIZE]\<rparr>);
                     n = bl_buflen S - BLOCK_SIZE
                 in S\<lparr>bl_buflen := n, bl_buf := put 0 (take n (drop BLOCK_SIZE (bl_buf S))) (bl_buf S)\<rparr>
               else S);
          S = S\<lparr>bl_t := (bl_t S)[0 := bl_t S ! 0 + word_of_nat (bl_buflen S)], bl_f := (bl_f S)[0 := - 1],
                bl_buf := neoscrypt_erase (bl_buflen S) (2 * BLOCK_SIZE - bl_buflen S) (bl_buf S)\<rparr>
      in take output_size (bytes32 (bl_h (blake2s_compress S))))"

section \<open>The compression function is the one of the standard\<close>

lemma blake2s_IV_eq: "FIPS_IV = blake2s_IV"
  by (simp add: sha_constants(2) sha256_IV_def blake2s_IV_def)

lemma le_words_eq: "le_words n b = words32 n b"
  by (simp add: le_words_def words32_def of_mem_def)

lemma le_image_eq: "le_image ws = bytes32 ws"
proof -
  have "(\<lambda>w :: u32. le_bytes 4 (unat w)) = mem" by (rule ext) (simp add: mem_def)
  then show ?thesis unfolding le_image_def bytes32_def by (rule arg_cong)
qed

lemma rfc_F_code:
  "rfc_F h block t last_block =
     (let v = h @ blake2s_IV;
          v = v[12 := v ! 12 XOR word_of_nat t, 13 := v ! 13 XOR word_of_nat (t div 2 ^ 32)];
          v = (if last_block then v[14 := NOT (v ! 14)] else v);
          v = rfc_rounds (words32 16 block) v
      in map (\<lambda>i. h ! i XOR v ! i XOR v ! (i + 8)) [0..<8])"
  by (simp only: rfc_F_def blake2s_IV_eq le_words_eq)

lemma BLAKE2s_code:
  "BLAKE2s_spec m key nn =
     (let h = blake2s_IV[0 := blake2s_IV ! 0 XOR word_of_nat (0x01010000 + 256 * length key + nn)]
      in take nn (bytes32 (rfc_blocks h 0 (key @ replicate (64 - length key) 0 @ m))))"
  by (simp only: BLAKE2s_spec_def blake2s_IV_eq le_image_eq)

text \<open>The mixing of four words, at four places.\<close>

lemma mix_rfc:
  assumes "distinct [a, b, c, d]"
  shows "blake2s_mix a b c d x y v = RFC_mix x y (a, b, c, d) v"
proof -
  have u: "v[a := p, d := q, c := r, b := s] = v[a := p, b := s, c := r, d := q]" for p q r s
    using assms by (simp add: list_update_swap [of d c] list_update_swap [of d b] list_update_swap [of c b])
  show ?thesis unfolding blake2s_mix_def Let_def u
    by (simp add: RFC_mix_def RFC_G_def ROTR32_rotr Let_def)
qed

lemma lanes_eq: "blake2s_lanes = [(0, 4, 8, 12), (1, 5, 9, 13), (2, 6, 10, 14), (3, 7, 11, 15),
     (0, 5, 10, 15), (1, 6, 11, 12), (2, 7, 8, 13), (3, 4, 9, 14)]"
  by (simp add: blake2s_lanes_def upt_rec)

lemmas blake2s_rounds = blake2s_round0_def blake2s_round1_def blake2s_round2_def blake2s_round3_def blake2s_round4_def
  blake2s_round5_def blake2s_round6_def blake2s_round7_def blake2s_round8_def blake2s_round9_def

lemma rounds_rfc:
  "blake2s_round9 m (blake2s_round8 m (blake2s_round7 m (blake2s_round6 m (blake2s_round5 m
     (blake2s_round4 m (blake2s_round3 m (blake2s_round2 m (blake2s_round1 m (blake2s_round0 m v))))))))) = rfc_rounds m v"
proof -
  have r: "rfc_rounds m v = rfc_lanes m (blake2s_sigma ! 9) blake2s_lanes (rfc_lanes m (blake2s_sigma ! 8) blake2s_lanes
     (rfc_lanes m (blake2s_sigma ! 7) blake2s_lanes (rfc_lanes m (blake2s_sigma ! 6) blake2s_lanes
     (rfc_lanes m (blake2s_sigma ! 5) blake2s_lanes (rfc_lanes m (blake2s_sigma ! 4) blake2s_lanes
     (rfc_lanes m (blake2s_sigma ! 3) blake2s_lanes (rfc_lanes m (blake2s_sigma ! 2) blake2s_lanes
     (rfc_lanes m (blake2s_sigma ! 1) blake2s_lanes (rfc_lanes m (blake2s_sigma ! 0) blake2s_lanes v)))))))))"
    by (simp add: rfc_rounds_def blake2s_sigma_def)
  have "blake2s_round0 m v = rfc_lanes m (blake2s_sigma ! 0) blake2s_lanes v"
    "blake2s_round1 m v = rfc_lanes m (blake2s_sigma ! 1) blake2s_lanes v"
    "blake2s_round2 m v = rfc_lanes m (blake2s_sigma ! 2) blake2s_lanes v"
    "blake2s_round3 m v = rfc_lanes m (blake2s_sigma ! 3) blake2s_lanes v"
    "blake2s_round4 m v = rfc_lanes m (blake2s_sigma ! 4) blake2s_lanes v"
    "blake2s_round5 m v = rfc_lanes m (blake2s_sigma ! 5) blake2s_lanes v"
    "blake2s_round6 m v = rfc_lanes m (blake2s_sigma ! 6) blake2s_lanes v"
    "blake2s_round7 m v = rfc_lanes m (blake2s_sigma ! 7) blake2s_lanes v"
    "blake2s_round8 m v = rfc_lanes m (blake2s_sigma ! 8) blake2s_lanes v"
    "blake2s_round9 m v = rfc_lanes m (blake2s_sigma ! 9) blake2s_lanes v" for v
    by (simp_all add: blake2s_rounds blake2s_sigma_def lanes_eq mix_rfc Let_def)
  then show ?thesis unfolding r by (simp only:)
qed

lemma compress_rfc:
  assumes "length (bl_h S) = 8" "bl_t S = [word_of_nat t, 0]" "t < 2 ^ 32" "bl_f S = [if fin then - 1 else 0, 0]"
  shows "blake2s_compress S = S\<lparr>bl_h := rfc_F (bl_h S) (bl_buf S) t fin\<rparr>"
proof -
  have "bl_h S @ take 4 blake2s_IV @
      [bl_t S ! 0 XOR blake2s_IV ! 4, bl_t S ! 1 XOR blake2s_IV ! 5, bl_f S ! 0 XOR blake2s_IV ! 6, bl_f S ! 1 XOR blake2s_IV ! 7] =
    (let v = bl_h S @ blake2s_IV;
         v = v[12 := v ! 12 XOR word_of_nat t, 13 := v ! 13 XOR word_of_nat (t div 2 ^ 32)]
     in if fin then v[14 := NOT (v ! 14)] else v)"
    using assms by (simp add: blake2s_IV_def Let_def nth_append list_update_append xor.commute)
  then show ?thesis
    unfolding blake2s_compress_def rfc_F_code rounds_rfc Let_def by (simp add: xor.assoc)
qed


text \<open>A state of the hash of which \<open>t\<close> bytes are compressed, and the bytes it has not compressed.\<close>

definition running :: "blake2s_state \<Rightarrow> nat \<Rightarrow> bool" where
  "running S t \<longleftrightarrow> length (bl_h S) = 8 \<and> bl_t S = [word_of_nat t, 0] \<and> bl_f S = [0, 0] \<and> length (bl_buf S) = 128 \<and>
     bl_buflen S \<le> 128"

definition pending :: "blake2s_state \<Rightarrow> bytes" where
  "pending S = take (bl_buflen S) (bl_buf S)"

lemma length_rfc_F [simp]: "length (rfc_F h b t fin) = 8"
  by (simp add: rfc_F_code Let_def)

lemma words32_take: "words32 16 (take 64 b) = words32 16 b"
  by (auto simp: words32_def drop_take intro!: nth_equalityI arg_cong [where f = of_mem])

lemma rfc_F_take: "rfc_F h (take 64 b) t fin = rfc_F h b t fin"
  by (simp add: rfc_F_code words32_take)

lemma rfc_blocks_step: "64 < length d \<Longrightarrow>
    rfc_blocks h t d = rfc_blocks (rfc_F h (take 64 d) (t + 64) False) (t + 64) (drop 64 d)"
  by (subst rfc_blocks.simps) simp

lemma update_running:
  "running S t \<Longrightarrow> t + bl_buflen S + length x < 2 ^ 32 \<Longrightarrow>
   \<exists>t'. running (blake2s_update S x) t' \<and> t' + bl_buflen (blake2s_update S x) = t + bl_buflen S + length x \<and>
     (\<forall>z. rfc_blocks (bl_h (blake2s_update S x)) t' (pending (blake2s_update S x) @ z) =
          rfc_blocks (bl_h S) t (pending S @ x @ z))"
proof (induction S x arbitrary: t rule: blake2s_update.induct)
  case (1 S x)
  let ?l = "bl_buflen S" and ?k = "128 - bl_buflen S"
  have R: "length (bl_h S) = 8" "bl_t S = [word_of_nat t, 0]" "bl_f S = [0, 0]" "length (bl_buf S) = 128" "?l \<le> 128"
    using "1.prems"(1) by (auto simp: running_def)
  show ?case
  proof (cases "x = [] \<or> length x \<le> ?k")
    case True
    have u: "blake2s_update S x = (if x = [] then S else S\<lparr>bl_buf := put ?l x (bl_buf S), bl_buflen := ?l + length x\<rparr>)"
      using True by (subst blake2s_update.simps) (auto simp: BLOCK_SIZE_def Let_def)
    have "take (?l + length x) (put ?l x (bl_buf S)) = take ?l (bl_buf S) @ x" if "length x \<le> ?k"
      using that R by (intro take_put) simp
    then show ?thesis using R True unfolding u
      by (intro exI [of _ t]) (auto simp: running_def pending_def length_put)
  next
    case False
    then have ne: "x \<noteq> []" and gt: "length x > ?k" by auto
    define b where "b = put ?l (take ?k x) (bl_buf S)"
    define S1 where "S1 = S\<lparr>bl_buf := b, bl_buflen := ?l + ?k, bl_t := (bl_t S)[0 := bl_t S ! 0 + word_of_nat BLOCK_SIZE]\<rparr>"
    define S2 where "S2 = blake2s_compress S1"
    define S3 where "S3 = S2\<lparr>bl_buf := put 0 (take BLOCK_SIZE (drop BLOCK_SIZE (bl_buf S2))) (bl_buf S2),
      bl_buflen := bl_buflen S2 - BLOCK_SIZE\<rparr>"
    let ?h = "rfc_F (bl_h S) (take 64 b) (t + 64) False"
    have b: "length b = 128" "b = pending S @ take ?k x"
      using R gt length_put [of ?l "take ?k x" "bl_buf S"] by (simp_all add: b_def put_def pending_def)
    have t: "t + 64 < 2 ^ 32" using "1.prems"(2) gt R by simp
    have S1: "bl_h S1 = bl_h S" "bl_buf S1 = b" "bl_buflen S1 = 128" "bl_t S1 = [word_of_nat (t + 64), 0]" "bl_f S1 = [0, 0]"
      using R by (simp_all add: S1_def BLOCK_SIZE_def)
    have c: "S2 = S1\<lparr>bl_h := ?h\<rparr>"
      using compress_rfc [of S1 "t + 64" False] S1 R(1) t unfolding S2_def by (simp add: rfc_F_take)
    have S3: "bl_h S3 = ?h" "bl_buflen S3 = 64" "bl_t S3 = [word_of_nat (t + 64), 0]" "bl_f S3 = [0, 0]"
      "bl_buf S3 = put 0 (drop 64 b) b"
      using b(1) S1 by (simp_all add: S3_def c BLOCK_SIZE_def)
    have r3: "running S3 (t + 64)"
      unfolding running_def S3 using b(1) length_put [of 0 "drop 64 b" b] by simp
    have p3: "pending S3 = drop 64 b"
      unfolding pending_def S3 using b(1) by (simp add: put_def)
    have u: "blake2s_update S x = blake2s_update S3 (drop ?k x)"
      using ne gt by (subst blake2s_update.simps) (simp add: S3_def S2_def S1_def b_def BLOCK_SIZE_def Let_def)
    have len: "t + 64 + bl_buflen S3 + length (drop ?k x) = t + ?l + length x"
      unfolding S3(2) using gt R by simp
    have IH: "\<exists>t'. running (blake2s_update S3 (drop ?k x)) t' \<and>
        t' + bl_buflen (blake2s_update S3 (drop ?k x)) = t + 64 + bl_buflen S3 + length (drop ?k x) \<and>
        (\<forall>z. rfc_blocks (bl_h (blake2s_update S3 (drop ?k x))) t' (pending (blake2s_update S3 (drop ?k x)) @ z) =
          rfc_blocks (bl_h S3) (t + 64) (pending S3 @ drop ?k x @ z))"
    proof -
      have k: "?k = 2 * BLOCK_SIZE - ?l" by (simp add: BLOCK_SIZE_def)
      show ?thesis
        using "1.IH" [OF ne refl k _ S1_def [unfolded b_def] S2_def S3_def r3] gt len "1.prems"(2) by simp
    qed
    have "rfc_blocks (bl_h S3) (t + 64) (pending S3 @ drop ?k x @ z) = rfc_blocks (bl_h S) t (pending S @ x @ z)" for z
    proof -
      have e: "pending S @ x @ z = b @ drop ?k x @ z" unfolding b(2) by (metis append_take_drop_id append_assoc)
      show ?thesis unfolding e S3(1) p3 using b(1) by (subst rfc_blocks_step [of "b @ drop ?k x @ z"]) simp_all
    qed
    with IH show ?thesis unfolding u len by simp
  qed
qed

lemma blake2s_param_words:
  assumes "k \<le> 64" "nn \<le> 32"
  shows "map2 (XOR) blake2s_IV (words32 8 (blake2s_param (word_of_nat nn) (word_of_nat k))) =
    blake2s_IV[0 := blake2s_IV ! 0 XOR word_of_nat (0x01010000 + 256 * k + nn)]"
proof -
  have "le_nat [word_of_nat nn, word_of_nat k, 1, 1] = 0x01010000 + 256 * k + nn"
    using assms by (simp add: unat_of_nat)
  then have w: "of_mem [word_of_nat nn, word_of_nat k, 1, 1] = (word_of_nat (0x01010000 + 256 * k + nn) :: u32)"
    by (simp only: of_mem_def)
  have z: "of_mem [0, 0, 0, 0] = (0 :: u32)" by (simp add: of_mem_def)
  have r: "replicate 28 (0 :: byte) = replicate 4 0 @ replicate 4 0 @ replicate 4 0 @ replicate 4 0 @ replicate 4 0 @
      replicate 4 0 @ replicate 4 0" "replicate 4 (0 :: byte) = [0, 0, 0, 0]"
    by (simp_all add: replicate_add [symmetric] numeral_eq_Suc)
  have e: "[0..<8] = [0, 1, 2, 3, 4, 5, 6, 7::nat]" by (simp add: upt_rec)
  have "words32 8 (blake2s_param (word_of_nat nn) (word_of_nat k)) =
      word_of_nat (0x01010000 + 256 * k + nn) # [0, 0, 0, 0, 0, 0, 0]"
    unfolding words32_def blake2s_param_def r e by (simp add: z w)
  then show ?thesis unfolding blake2s_IV_def by simp
qed

lemma finish_running:
  assumes R: "running S t" and t: "t + bl_buflen S < 2 ^ 32"
  shows "(let S = (if bl_buflen S > BLOCK_SIZE then
                 let S = blake2s_compress (S\<lparr>bl_t := (bl_t S)[0 := bl_t S ! 0 + word_of_nat BLOCK_SIZE]\<rparr>);
                     n = bl_buflen S - BLOCK_SIZE
                 in S\<lparr>bl_buflen := n, bl_buf := put 0 (take n (drop BLOCK_SIZE (bl_buf S))) (bl_buf S)\<rparr>
               else S);
          S = S\<lparr>bl_t := (bl_t S)[0 := bl_t S ! 0 + word_of_nat (bl_buflen S)], bl_f := (bl_f S)[0 := - 1],
                bl_buf := neoscrypt_erase (bl_buflen S) (2 * BLOCK_SIZE - bl_buflen S) (bl_buf S)\<rparr>
      in bl_h (blake2s_compress S)) = rfc_blocks (bl_h S) t (pending S)"
proof -
  have last_one: "bl_h (blake2s_compress (S\<lparr>bl_t := (bl_t S)[0 := bl_t S ! 0 + word_of_nat (bl_buflen S)], bl_f := (bl_f S)[0 := - 1],
                bl_buf := neoscrypt_erase (bl_buflen S) (2 * BLOCK_SIZE - bl_buflen S) (bl_buf S)\<rparr>)) =
      rfc_blocks (bl_h S) t (pending S)"
    if R: "running S t" and t: "t + bl_buflen S < 2 ^ 32" and l: "bl_buflen S \<le> 64" for S t
  proof -
    have F: "length (bl_h S) = 8" "bl_t S = [word_of_nat t, 0]" "bl_f S = [0, 0]" "length (bl_buf S) = 128"
      using R by (auto simp: running_def)
    have e: "take 64 (neoscrypt_erase (bl_buflen S) (2 * BLOCK_SIZE - bl_buflen S) (bl_buf S)) =
        pending S @ replicate (64 - bl_buflen S) 0"
      using F(4) l by (simp add: neoscrypt_erase_def put_def pending_def BLOCK_SIZE_def)
    let ?U = "S\<lparr>bl_t := (bl_t S)[0 := bl_t S ! 0 + word_of_nat (bl_buflen S)], bl_f := (bl_f S)[0 := - 1],
                bl_buf := neoscrypt_erase (bl_buflen S) (2 * BLOCK_SIZE - bl_buflen S) (bl_buf S)\<rparr>"
    have "bl_h (blake2s_compress ?U) = rfc_F (bl_h S) (bl_buf ?U) (t + bl_buflen S) True"
      using compress_rfc [of ?U "t + bl_buflen S" True] F t by simp
    also have "\<dots> = rfc_F (bl_h S) (pending S @ replicate (64 - bl_buflen S) 0) (t + bl_buflen S) True"
      using e rfc_F_take [of "bl_h S" "bl_buf ?U"] by simp
    also have "\<dots> = rfc_blocks (bl_h S) t (pending S)"
      using l F(4) by (subst rfc_blocks.simps) (simp add: pending_def)
    finally show ?thesis .
  qed
  show ?thesis
  proof (cases "bl_buflen S > 64")
    case False
    then show ?thesis using last_one [OF R t] by (simp add: BLOCK_SIZE_def)
  next
    case True
    have F: "length (bl_h S) = 8" "bl_t S = [word_of_nat t, 0]" "bl_f S = [0, 0]" "length (bl_buf S) = 128" "bl_buflen S \<le> 128"
      using R by (auto simp: running_def)
    define S1 where "S1 = S\<lparr>bl_t := (bl_t S)[0 := bl_t S ! 0 + word_of_nat BLOCK_SIZE]\<rparr>"
    define n where "n = bl_buflen S - 64"
    let ?h = "rfc_F (bl_h S) (take 64 (bl_buf S)) (t + 64) False"
    have c: "blake2s_compress S1 = S1\<lparr>bl_h := ?h\<rparr>"
      using compress_rfc [of S1 "t + 64" False] F t True by (simp add: S1_def BLOCK_SIZE_def rfc_F_take)
    define S2 where "S2 = (blake2s_compress S1)\<lparr>bl_buflen := n, bl_buf := put 0 (take n (drop BLOCK_SIZE (bl_buf S1))) (bl_buf S1)\<rparr>"
    have S2: "bl_h S2 = ?h" "bl_buflen S2 = n" "bl_t S2 = [word_of_nat (t + 64), 0]" "bl_f S2 = [0, 0]"
      "bl_buf S2 = put 0 (take n (drop 64 (bl_buf S))) (bl_buf S)"
      using F unfolding S2_def c by (simp_all add: S1_def BLOCK_SIZE_def)
    have r2: "running S2 (t + 64)"
      unfolding running_def S2 using F(4,5) by (simp add: n_def put_def)
    have p2: "pending S2 = drop 64 (pending S)"
      unfolding pending_def S2 using F(4,5) True by (simp add: n_def put_def drop_take)
    have "rfc_blocks (bl_h S) t (pending S) = rfc_blocks ?h (t + 64) (pending S2)"
      using True F(4,5) unfolding p2 by (subst rfc_blocks_step) (simp_all add: pending_def)
    moreover have "t + 64 + bl_buflen S2 < 2 ^ 32" "bl_buflen S2 \<le> 64" using t True F(5) by (simp_all add: S2(2) n_def)
    note last_one [OF r2 this]
    moreover have "bl_buflen (blake2s_compress S1) - BLOCK_SIZE = n" "bl_buf (blake2s_compress S1) = bl_buf S1"
      unfolding c by (simp_all add: S1_def n_def BLOCK_SIZE_def)
    ultimately have r: "bl_h (blake2s_compress (S2\<lparr>bl_t := (bl_t S2)[0 := bl_t S2 ! 0 + word_of_nat (bl_buflen S2)],
        bl_f := (bl_f S2)[0 := - 1],
        bl_buf := neoscrypt_erase (bl_buflen S2) (2 * BLOCK_SIZE - bl_buflen S2) (bl_buf S2)\<rparr>)) =
        rfc_blocks (bl_h S) t (pending S)" "bl_buflen (blake2s_compress S1) - BLOCK_SIZE = n"
        "bl_buf (blake2s_compress S1) = bl_buf S1"
      unfolding S2(1) by simp_all
    have e: "(if bl_buflen S > BLOCK_SIZE then
                 let S = blake2s_compress (S\<lparr>bl_t := (bl_t S)[0 := bl_t S ! 0 + word_of_nat BLOCK_SIZE]\<rparr>);
                     n = bl_buflen S - BLOCK_SIZE
                 in S\<lparr>bl_buflen := n, bl_buf := put 0 (take n (drop BLOCK_SIZE (bl_buf S))) (bl_buf S)\<rparr>
               else S) = S2"
      using True unfolding S1_def [symmetric] Let_def r(2,3) S2_def by (simp add: BLOCK_SIZE_def)
    show ?thesis unfolding e unfolding Let_def by (rule r(1))
  qed
qed

lemma blake2s_spec:
  assumes "0 < length key" "length key \<le> 64" "output_size \<le> 32" "length input + 64 < 2 ^ 32"
  shows "neoscrypt_blake2s input key output_size = BLAKE2s_spec input key output_size"
proof -
  let ?h = "blake2s_IV[0 := blake2s_IV ! 0 XOR word_of_nat (0x01010000 + 256 * length key + output_size)]"
  let ?k = "put 0 key (replicate BLOCK_SIZE 0)"
  define S where "S = \<lparr>bl_h = ?h, bl_t = [0, 0], bl_f = [0, 0], bl_buf = replicate (2 * BLOCK_SIZE) 0, bl_buflen = 0\<rparr>"
  have k: "?k = key @ replicate (64 - length key) 0" "length ?k = 64"
    using assms(2) by (simp_all add: put_def BLOCK_SIZE_def)
  have "running S 0" "bl_buflen S = 0" by (simp_all add: running_def S_def BLOCK_SIZE_def blake2s_IV_def)
  from update_running [OF this(1), of ?k] this(2) k(2) obtain t where
    t: "running (blake2s_update S ?k) t" "t + bl_buflen (blake2s_update S ?k) = 64"
    "\<And>z. rfc_blocks (bl_h (blake2s_update S ?k)) t (pending (blake2s_update S ?k) @ z) = rfc_blocks (bl_h S) 0 (pending S @ ?k @ z)"
    by auto
  let ?S = "blake2s_update (blake2s_update S ?k) input"
  from update_running [OF t(1), of input] t(2) assms(4) obtain u where
    u: "running ?S u" "u + bl_buflen ?S = 64 + length input"
    "\<And>z. rfc_blocks (bl_h ?S) u (pending ?S @ z) =
       rfc_blocks (bl_h (blake2s_update S ?k)) t (pending (blake2s_update S ?k) @ input @ z)"
    by auto
  have r: "rfc_blocks (bl_h ?S) u (pending ?S) = rfc_blocks ?h 0 (?k @ input)"
    using u(3) [of "[]"] t(3) [of input] by (simp add: pending_def S_def)
  have "u + bl_buflen ?S < 2 ^ 32" using u(2) assms(4) by simp
  note fin = finish_running [OF u(1) this, unfolded r Let_def]
  show ?thesis
    unfolding neoscrypt_blake2s_def BLAKE2s_code Let_def blake2s_param_words [OF assms(2,3)] S_def [symmetric] fin
    unfolding k(1) append_assoc by (rule refl)
qed

text \<open>C15: with a key of at most a block, \<^verbatim>\<open>neoscrypt_blake2s\<close> computes the keyed BLAKE2s of RFC 7693 for an
  input of less than 4 GB: its buffer of two blocks, which is compressed one block at a time and only when more
  input follows, and its rounds written out word by word, amount to the blocks and the permutations of the
  standard. (Without a key the standard has no key block and the code has one.)\<close>

theorem blake2s_is_standard:
  assumes "0 < length key" "length key \<le> 64" "output_size \<le> 32" "length input + 64 < 2 ^ 32"
  shows "neoscrypt_blake2s input key output_size = BLAKE2s_spec input key output_size"
  using assms by (rule blake2s_spec)

lemma blake2s_is_standard_witness:
  "neoscrypt_blake2s [1, 2] [3] 32 = BLAKE2s_spec [1, 2] [3] 32"
  by (rule blake2s_is_standard) simp_all

end
