(* ===== verification/FastKDF.thy ===== *)
theory FastKDF
  imports Blake2s
begin

text \<open>
  FastKDF (\<^verbatim>\<open>neoscrypt.c\<close>), the key derivation with which NeoScrypt begins and ends: the general function
  \<^verbatim>\<open>neoscrypt_fastkdf\<close> and the optimised \<^verbatim>\<open>neoscrypt_fastkdf_opt\<close> (the one in C). The buffers of the
  password and of the salt have 256 bytes, which repeat it, and a tail that repeats the head, so that a block that
  starts near the end can be read in one piece. Both are proved equal to a reference in which the buffers are rings
  of 256 bytes.
\<close>

section \<open>The general function\<close>

definition FASTKDF_BUFFER_SIZE :: nat where
  "FASTKDF_BUFFER_SIZE = 256"

text \<open>The buffer of the password or the salt, with \<open>tail\<close> more bytes of it. (The code divides by the length; it
  calls with 80 and 256.)\<close>

definition fastkdf_buffer :: "bytes \<Rightarrow> nat \<Rightarrow> nat \<Rightarrow> bytes" where
  "fastkdf_buffer src len tail =
     (let len = (if len > FASTKDF_BUFFER_SIZE then FASTKDF_BUFFER_SIZE else len);
          a = FASTKDF_BUFFER_SIZE div len;
          b = FASTKDF_BUFFER_SIZE - a * len
      in concat (replicate a (take len src)) @ take b src @ take tail src)"

definition fastkdf_iteration :: "bytes \<Rightarrow> bytes \<times> nat \<Rightarrow> bytes \<times> nat" where
  "fastkdf_iteration A = (\<lambda>(B, bufptr).
     let prf_output = neoscrypt_blake2s (take 64 (drop bufptr A)) (take 32 (drop bufptr B)) 32;
         bufptr = unat (foldl (\<lambda>p b. p + ucast b) (0 :: u32) prf_output AND word_of_nat (FASTKDF_BUFFER_SIZE - 1));
         B = neoscrypt_xor bufptr prf_output B;
         B = (if bufptr < 32 then put (FASTKDF_BUFFER_SIZE + bufptr) (take (min 32 (32 - bufptr)) (drop bufptr B)) B
              else if FASTKDF_BUFFER_SIZE - bufptr < 32
                then put 0 (take (32 - (FASTKDF_BUFFER_SIZE - bufptr)) (drop FASTKDF_BUFFER_SIZE B)) B
              else B)
     in (B, bufptr))"

definition fastkdf_output :: "bytes \<Rightarrow> bytes \<times> nat \<Rightarrow> nat \<Rightarrow> bytes" where
  "fastkdf_output A = (\<lambda>(B, bufptr) output_len.
     let a = FASTKDF_BUFFER_SIZE - bufptr
     in if a \<ge> output_len then take output_len (drop bufptr (neoscrypt_xor bufptr (take output_len A) B))
        else
          let B = neoscrypt_xor bufptr (take a A) B;
              B = neoscrypt_xor 0 (take (output_len - a) (drop a A)) B
          in take a (drop bufptr B) @ take (output_len - a) B)"

definition neoscrypt_fastkdf :: "bytes \<Rightarrow> nat \<Rightarrow> bytes \<Rightarrow> nat \<Rightarrow> nat \<Rightarrow> nat \<Rightarrow> bytes" where
  "neoscrypt_fastkdf password password_len salt salt_len N output_len =
     (let A = fastkdf_buffer password password_len 64;
          B = fastkdf_buffer salt salt_len 32
      in fastkdf_output A ((fastkdf_iteration A ^^ N) (B, 0))
           (if output_len > FASTKDF_BUFFER_SIZE then FASTKDF_BUFFER_SIZE else output_len))"

section \<open>The optimised function\<close>

definition blake2s_IV_P_XOR :: "u32 list" where
  "blake2s_IV_P_XOR = [0x6B08C647, 0xBB67AE85, 0x3C6EF372, 0xA54FF53A, 0x510E527F, 0x9B05688C, 0x1F83D9AB, 0x5BE0CD19]"

text \<open>The state of BLAKE2s lies in words of the stack; only its first block is written and read. The words of the
  hash are summed four shifts at a time.\<close>

definition fastkdf_opt_iteration :: "bytes \<Rightarrow> bytes \<times> nat \<Rightarrow> bytes \<times> nat" where
  "fastkdf_opt_iteration A = (\<lambda>(B, bufptr).
     let S = \<lparr>bl_h = blake2s_IV_P_XOR, bl_t = [0, 0], bl_f = [0, 0],
               bl_buf = take 32 (drop bufptr B) @ replicate 32 0, bl_buflen = 0\<rparr>;
         S = blake2s_compress (S\<lparr>bl_t := (bl_t S)[0 := 64]\<rparr>);
         S = S\<lparr>bl_buf := take 64 (drop bufptr A)\<rparr>;
         S = blake2s_compress (S\<lparr>bl_t := (bl_t S)[0 := 128], bl_f := (bl_f S)[0 := - 1]\<rparr>);
         bufptr = unat (foldl (\<lambda>p s. p + s + drop_bit 8 s + drop_bit 16 s + drop_bit 24 s) 0 (bl_h S) AND 0xFF);
         B = neoscrypt_xor bufptr (bytes32 (bl_h S)) B;
         B = (if bufptr < 32 then put (256 + bufptr) (take (32 - bufptr) (drop bufptr B)) B
              else if bufptr > 224 then put 0 (take (bufptr - 224) (drop 256 B)) B
              else B)
     in (B, bufptr))"

definition neoscrypt_fastkdf_opt :: "bytes \<Rightarrow> bytes \<Rightarrow> u32 \<Rightarrow> bytes" where
  "neoscrypt_fastkdf_opt password salt mode =
     (let A = take 80 password @ take 80 password @ take 80 password @ take 16 password @ take 64 password;
          B = (if mode = 0 then take 80 salt @ take 80 salt @ take 80 salt @ take 16 salt @ take 32 salt
               else take 256 salt @ take 32 salt);
          output_len = (if mode = 0 then 256 else 32);
          (B, bufptr) = (fastkdf_opt_iteration A ^^ 32) (B, 0);
          i = 256 - bufptr
      in if i \<ge> output_len then take output_len (drop bufptr (neoscrypt_xor bufptr (take output_len A) B))
         else
           let B = neoscrypt_xor bufptr (take i A) B;
               B = neoscrypt_xor 0 (take (output_len - i) (drop i A)) B
           in take i (drop bufptr B) @ take (output_len - i) B)"

section \<open>The reference: rings of bytes\<close>

definition ring :: "bytes \<Rightarrow> nat \<Rightarrow> nat \<Rightarrow> bytes" where
  "ring b p n = map (\<lambda>i. b ! ((p + i) mod 256)) [0..<n]"

definition ring_xor :: "nat \<Rightarrow> bytes \<Rightarrow> bytes \<Rightarrow> bytes" where
  "ring_xor p x b =
     map (\<lambda>i. if (i + 256 - p) mod 256 < length x then b ! i XOR x ! ((i + 256 - p) mod 256) else b ! i) [0..<256]"

definition fastkdf_spec_step :: "bytes \<Rightarrow> bytes \<times> nat \<Rightarrow> bytes \<times> nat" where
  "fastkdf_spec_step A = (\<lambda>(B, p).
     let x = BLAKE2s_spec (ring A p 64) (ring B p 32) 32;
         p = sum_list (map unat x) mod 256
     in (ring_xor p x B, p))"

definition FastKDF_spec :: "bytes \<Rightarrow> bytes \<Rightarrow> nat \<Rightarrow> nat \<Rightarrow> bytes" where
  "FastKDF_spec password salt N nn =
     (let A = map (\<lambda>i. password ! (i mod length password)) [0..<256];
          (B, p) = (fastkdf_spec_step A ^^ N) (map (\<lambda>i. salt ! (i mod length salt)) [0..<256], 0)
      in map2 (XOR) (ring B p nn) (take nn A))"

text \<open>A buffer of 256 bytes whose tail repeats its head.\<close>

definition mirrored :: "nat \<Rightarrow> bytes \<Rightarrow> bool" where
  "mirrored m b \<longleftrightarrow> length b = 256 + m \<and> (\<forall>i<m. b ! (256 + i) = b ! i)"

lemma nth_put: "i + length x \<le> length d \<Longrightarrow> k < length d \<Longrightarrow>
    put i x d ! k = (if i \<le> k \<and> k < i + length x then x ! (k - i) else d ! k)"
  by (auto simp: put_def nth_append)

lemma nth_neoscrypt_xor: "i + length x \<le> length d \<Longrightarrow> k < length d \<Longrightarrow>
    neoscrypt_xor i x d ! k = (if i \<le> k \<and> k < i + length x then d ! k XOR x ! (k - i) else d ! k)"
  by (auto simp: neoscrypt_xor_def nth_put)

lemma length_neoscrypt_xor: "i + length x \<le> length d \<Longrightarrow> length (neoscrypt_xor i x d) = length d"
  by (simp add: neoscrypt_xor_def length_put)

lemma ring_read:
  assumes "mirrored m b" "p < 256" "n \<le> m" "m \<le> 256"
  shows "take n (drop p b) = ring (take 256 b) p n"
proof (rule nth_equalityI)
  show "length (take n (drop p b)) = length (ring (take 256 b) p n)"
    using assms by (simp add: ring_def mirrored_def)
next
  fix i assume "i < length (take n (drop p b))"
  then have i: "i < n" by simp
  show "take n (drop p b) ! i = ring (take 256 b) p n ! i"
  proof (cases "p + i < 256")
    case True
    then show ?thesis using i assms by (simp add: ring_def mirrored_def)
  next
    case False
    then have e: "(p + i) mod 256 = p + i - 256" "p + i = 256 + (p + i - 256)" "p + i - 256 < m"
      using i assms by (simp_all add: mod_if)
    have "b ! (p + i) = b ! (p + i - 256)" using assms(1) e(2,3) unfolding mirrored_def by metis
    then show ?thesis using i assms e(1,3) by (simp add: ring_def mirrored_def)
  qed
qed

lemma ring_place: "p < 256 \<Longrightarrow> k < 256 \<Longrightarrow>
    (k + 256 - p) mod 256 = (if p \<le> k then k - p else k + 256 - p)" for p k :: nat
  by (auto simp: mod_if)

lemma ring_write:
  assumes m: "mirrored 32 B" and p: "p < 256" and x: "length x = 32"
  defines "X \<equiv> neoscrypt_xor p x B"
  defines "Y \<equiv> (if p < 32 then put (256 + p) (take (32 - p) (drop p X)) X
              else if p > 224 then put 0 (take (p - 224) (drop 256 X)) X
              else X)"
  shows "mirrored 32 Y" "take 256 Y = ring_xor p x (take 256 B)"
proof -
  have B: "length B = 288" "\<And>i. i < 32 \<Longrightarrow> B ! (256 + i) = B ! i"
    using m by (simp_all add: mirrored_def)
  have X: "length X = 288" "\<And>k. k < 288 \<Longrightarrow> X ! k = (if p \<le> k \<and> k < p + 32 then B ! k XOR x ! (k - p) else B ! k)"
    using B(1) p x unfolding X_def by (simp_all add: length_neoscrypt_xor nth_neoscrypt_xor)
  have Y: "length Y = 288"
    "\<And>k. k < 288 \<Longrightarrow> Y ! k = (if p < 32 \<and> 256 + p \<le> k then X ! (k - 256)
       else if p > 224 \<and> k < p - 224 then X ! (256 + k) else X ! k)"
    using X(1) p unfolding Y_def by (auto simp: length_put nth_put)
  show "mirrored 32 Y" unfolding mirrored_def
  proof (intro conjI allI impI)
    fix i :: nat assume i: "i < 32"
    then show "Y ! (256 + i) = Y ! i" using p B(2) [of i] by (auto simp: Y(2) X(2))
  qed (simp add: Y(1))
  show "take 256 Y = ring_xor p x (take 256 B)"
  proof (rule nth_equalityI)
    fix k assume "k < length (take 256 Y)"
    then have k: "k < 256" using Y(1) by simp
    have "Y ! k = (if (k + 256 - p) mod 256 < 32 then B ! k XOR x ! ((k + 256 - p) mod 256) else B ! k)"
      using k p B(2) [of k] unfolding ring_place [OF p k] by (auto simp: Y(2) X(2) add.commute)
    then show "take 256 Y ! k = ring_xor p x (take 256 B) ! k" using k B(1) x by (simp add: ring_xor_def)
  qed (simp add: Y(1) ring_xor_def)
qed

lemma nth_behind: "length u = n \<Longrightarrow> (u @ v) ! (n + i) = v ! i"
  by (auto simp: nth_append)

lemma ring_output:
  assumes "mirrored 32 B" "p < 256" "nn \<le> 256" "256 \<le> length A"
  shows "fastkdf_output A (B, p) nn = map2 (XOR) (ring (take 256 B) p nn) (take nn (take 256 A))"
proof -
  have B: "length B = 288" using assms(1) by (simp add: mirrored_def)
  show ?thesis
  proof (cases "256 - p \<ge> nn")
    case True
    then show ?thesis using assms B
      by (intro nth_equalityI)
        (simp_all add: fastkdf_output_def FASTKDF_BUFFER_SIZE_def length_neoscrypt_xor nth_neoscrypt_xor ring_def)
  next
    case False
    let ?a = "256 - p"
    define X where "X = neoscrypt_xor p (take ?a A) B"
    define Y where "Y = neoscrypt_xor 0 (take (nn - ?a) (drop ?a A)) X"
    have X: "length X = 288" "\<And>k. k < 288 \<Longrightarrow> X ! k = (if p \<le> k \<and> k < 256 then B ! k XOR A ! (k - p) else B ! k)"
      unfolding X_def using B assms by (auto simp: length_neoscrypt_xor nth_neoscrypt_xor)
    have Y: "length Y = 288" "\<And>k. k < 288 \<Longrightarrow> Y ! k = (if k < nn - ?a then X ! k XOR A ! (?a + k) else X ! k)"
      unfolding Y_def using X(1) assms False by (auto simp: length_neoscrypt_xor nth_neoscrypt_xor)
    have o: "fastkdf_output A (B, p) nn = take ?a (drop p Y) @ take (nn - ?a) Y"
      using False by (simp add: fastkdf_output_def FASTKDF_BUFFER_SIZE_def X_def Y_def Let_def)
    show ?thesis unfolding o
    proof (rule nth_equalityI)
      show "length (take ?a (drop p Y) @ take (nn - ?a) Y) = length (map2 (XOR) (ring (take 256 B) p nn) (take nn (take 256 A)))"
        using False Y(1) assms by (simp add: ring_def)
    next
      fix i assume "i < length (take ?a (drop p Y) @ take (nn - ?a) Y)"
      then have i: "i < nn" using False Y(1) assms by (simp split: if_splits)
      have r: "map2 (XOR) (ring (take 256 B) p nn) (take nn (take 256 A)) ! i = B ! ((p + i) mod 256) XOR A ! i"
        using i assms B by (simp add: ring_def)
      show "(take ?a (drop p Y) @ take (nn - ?a) Y) ! i = map2 (XOR) (ring (take 256 B) p nn) (take nn (take 256 A)) ! i"
      proof (cases "i < ?a")
        case True
        then have e: "p + i < 256" "\<not> p + i < nn - ?a" "(p + i) mod 256 = p + i" using assms(3) by simp_all
        have "(take ?a (drop p Y) @ take (nn - ?a) Y) ! i = Y ! (p + i)"
          using True Y(1) e(1) by (simp add: nth_append)
        also have "\<dots> = B ! (p + i) XOR A ! i" using e by (simp add: Y(2) X(2))
        finally show ?thesis unfolding r e(3) .
      next
        case False
        define j where "j = i - ?a"
        then have e: "i = ?a + j" "p + i = 256 + j" "j < 256" "j < p" "j < nn - ?a"
          using False assms(2,3) i by arith+
        have m: "(p + i) mod 256 = j" unfolding e(2) using e(3) mod_add_self1 [of 256 j] by simp
        have "(take ?a (drop p Y) @ take (nn - ?a) Y) ! i = Y ! j"
          unfolding e(1) using Y(1) e(5) assms(2) by (subst nth_behind) simp_all
        also have "\<dots> = B ! j XOR A ! i" using e(3,4,5) e(1) [symmetric] by (simp add: Y(2) X(2))
        finally show ?thesis unfolding r m .
      qed
    qed
  qed
qed

text \<open>The buffers at the start.\<close>

lemma nth_concat_replicate: "i < a * length xs \<Longrightarrow> concat (replicate a xs) ! i = xs ! (i mod length xs)"
proof (induction a arbitrary: i)
  case (Suc a)
  show ?case
  proof (cases "i < length xs")
    case False
    then have "i - length xs < a * length xs" using Suc.prems by simp
    then show ?thesis using False Suc.IH [of "i - length xs"] by (simp add: nth_append le_mod_geq)
  qed (simp add: nth_append)
qed simp

lemma take_front: "length u = n \<Longrightarrow> take n (u @ v) = u"
  by simp

lemma fastkdf_buffer_ring:
  assumes "length src = n" "tail \<le> n" "0 < n" "n \<le> 256"
  shows "mirrored tail (fastkdf_buffer src n tail)"
    "take 256 (fastkdf_buffer src n tail) = map (\<lambda>i. src ! (i mod length src)) [0..<256]"
proof -
  let ?a = "256 div n"
  let ?C = "concat (replicate ?a src)" and ?b = "256 - ?a * n"
  have e: "fastkdf_buffer src n tail = ?C @ take ?b src @ take tail src"
    using assms by (simp add: fastkdf_buffer_def FASTKDF_BUFFER_SIZE_def Let_def)
  have C: "length ?C = ?a * n" using assms(1) by (simp add: length_concat sum_list_replicate)
  have bm: "?b = 256 mod n" by (rule minus_div_mult_eq_mod)
  then have b: "?b < n" "?a * n + ?b = 256" using assms(3) div_times_less_eq_dividend [of 256 n] by simp_all
  have L: "length (?C @ take ?b src) = 256" using C b assms(1) by simp
  have N: "(?C @ take ?b src) ! i = src ! (i mod n)" if i: "i < 256" for i
  proof (cases "i < ?a * n")
    case True
    then show ?thesis using C assms(1) nth_concat_replicate [of i ?a src] by (simp add: nth_append)
  next
    case False
    then have r: "i - ?a * n < ?b" using i b(2) by simp
    have "i mod n = (i - ?a * n + ?a * n) mod n" using False by simp
    also have "\<dots> = i - ?a * n" unfolding mod_mult_self1 using r b(1) by simp
    finally show ?thesis using False C r by (simp add: nth_append)
  qed
  have T: "take 256 (fastkdf_buffer src n tail) = ?C @ take ?b src" unfolding e append_assoc [symmetric] by (rule take_front [OF L])
  show "take 256 (fastkdf_buffer src n tail) = map (\<lambda>i. src ! (i mod length src)) [0..<256]"
    unfolding T using L N assms(1) by (intro nth_equalityI) simp_all
  show "mirrored tail (fastkdf_buffer src n tail)" unfolding mirrored_def
  proof (intro conjI allI impI)
    show "length (fastkdf_buffer src n tail) = 256 + tail"
      using L assms(1,2) unfolding e by simp
    fix i assume i: "i < tail"
    have "fastkdf_buffer src n tail ! (256 + i) = take tail src ! i"
      unfolding e append_assoc [symmetric] by (rule nth_behind [OF L])
    moreover have "fastkdf_buffer src n tail ! i = src ! (i mod n)"
      using i assms(2,4) N [of i] L unfolding e append_assoc [symmetric] by (subst nth_append) simp
    ultimately show "fastkdf_buffer src n tail ! (256 + i) = fastkdf_buffer src n tail ! i" using i assms(2) by simp
  qed
qed

text \<open>One iteration.\<close>

lemma byte_sum: "foldl (\<lambda>p b. p + ucast b) (s :: u32) (xs :: bytes) = s + word_of_nat (sum_list (map unat xs))"
  by (induction xs arbitrary: s) (simp_all add: add.assoc)

lemma and_255: "unat ((w :: u32) AND 255) = unat w mod 256"
proof -
  have e: "w AND 255 = take_bit 8 w" by (simp add: take_bit_eq_mask mask_eq_exp_minus_1)
  show ?thesis unfolding e unsigned_take_bit_eq by (simp add: take_bit_eq_mod)
qed

lemma bufptr_sum: "unat (foldl (\<lambda>p b. p + ucast b) (0 :: u32) (xs :: bytes) AND word_of_nat (FASTKDF_BUFFER_SIZE - 1)) =
    sum_list (map unat xs) mod 256"
proof -
  have "(4294967296 :: nat) = 256 * 16777216" by simp
  then show ?thesis
    unfolding byte_sum by (simp add: FASTKDF_BUFFER_SIZE_def and_255 unat_of_nat mod_mod_cancel)
qed

lemma length_rfc_blocks: "length (rfc_blocks h t d) = 8"
  by (induction h t d rule: rfc_blocks.induct) (subst rfc_blocks.simps, simp)

lemma length_bytes32: "length (bytes32 w) = 4 * length w"
  by (induction w) (simp_all add: bytes32_def)

lemma length_BLAKE2s: "nn \<le> 32 \<Longrightarrow> length (BLAKE2s_spec m key nn) = nn"
  by (simp add: BLAKE2s_code length_rfc_blocks length_bytes32)

lemma iteration_ring:
  assumes A: "mirrored 64 A" and B: "mirrored 32 B" and p: "p < 256"
    and step: "fastkdf_iteration A (B, p) = (B', p')"
  shows "fastkdf_spec_step (take 256 A) (take 256 B, p) = (take 256 B', p')" "mirrored 32 B'" "p' < 256"
proof -
  let ?x = "BLAKE2s_spec (ring (take 256 A) p 64) (ring (take 256 B) p 32) 32"
  let ?p = "sum_list (map unat ?x) mod 256"
  have hash: "neoscrypt_blake2s (take 64 (drop p A)) (take 32 (drop p B)) 32 = ?x"
    unfolding ring_read [OF A p order_refl, simplified] ring_read [OF B p order_refl, simplified]
    by (rule blake2s_spec) (simp_all add: ring_def)
  have x: "length ?x = 32" by (rule length_BLAKE2s) simp
  have q: "?p < 256" by simp
  have f: "fastkdf_iteration A (B, p) =
      (let X = neoscrypt_xor ?p ?x B
       in (if ?p < 32 then put (256 + ?p) (take (32 - ?p) (drop ?p X)) X
              else if ?p > 224 then put 0 (take (?p - 224) (drop 256 X)) X
              else X, ?p))"
    unfolding fastkdf_iteration_def split hash bufptr_sum Let_def by (auto simp: FASTKDF_BUFFER_SIZE_def)
  note w = ring_write [OF B q x]
  show "fastkdf_spec_step (take 256 A) (take 256 B, p) = (take 256 B', p')" "mirrored 32 B'" "p' < 256"
    using step w q unfolding f fastkdf_spec_step_def Let_def by auto
qed

lemma iterations_ring:
  assumes A: "mirrored 64 A"
  shows "mirrored 32 B \<Longrightarrow> p < 256 \<Longrightarrow> (fastkdf_iteration A ^^ N) (B, p) = (B', p') \<Longrightarrow>
    (fastkdf_spec_step (take 256 A) ^^ N) (take 256 B, p) = (take 256 B', p') \<and> mirrored 32 B' \<and> p' < 256"
proof (induction N arbitrary: B' p')
  case (Suc N)
  obtain C q where C: "(fastkdf_iteration A ^^ N) (B, p) = (C, q)" by (cases "(fastkdf_iteration A ^^ N) (B, p)")
  from Suc.IH [OF Suc.prems(1,2) C] have
    i: "(fastkdf_spec_step (take 256 A) ^^ N) (take 256 B, p) = (take 256 C, q)" "mirrored 32 C" "q < 256" by simp_all
  have "fastkdf_iteration A (C, q) = (B', p')" using Suc.prems(3) C by simp
  from iteration_ring [OF A i(2,3) this] show ?case by (simp add: i(1))
qed simp

lemma fastkdf_spec:
  assumes "64 \<le> length password" "length password \<le> 256" "32 \<le> length salt" "length salt \<le> 256" "output_len \<le> 256"
  shows "neoscrypt_fastkdf password (length password) salt (length salt) N output_len =
    FastKDF_spec password salt N output_len"
proof -
  let ?A = "fastkdf_buffer password (length password) 64" and ?B = "fastkdf_buffer salt (length salt) 32"
  have pos: "0 < length password" "0 < length salt" using assms(1,3) by linarith+
  note A = fastkdf_buffer_ring [OF refl assms(1) pos(1) assms(2)] and B = fastkdf_buffer_ring [OF refl assms(3) pos(2) assms(4)]
  obtain B' p' where it: "(fastkdf_iteration ?A ^^ N) (?B, 0) = (B', p')" by (cases "(fastkdf_iteration ?A ^^ N) (?B, 0)")
  from iterations_ring [OF A(1) B(1) _ it] have
    r: "(fastkdf_spec_step (take 256 ?A) ^^ N) (take 256 ?B, 0) = (take 256 B', p')" "mirrored 32 B'" "p' < 256" by simp_all
  have "256 \<le> length ?A" using A(1) by (simp add: mirrored_def)
  note ring_output [OF r(2,3) assms(5) this]
  then show ?thesis
    using r(1) assms(5) unfolding neoscrypt_fastkdf_def FastKDF_spec_def Let_def it A(2) B(2)
    by (simp add: FASTKDF_BUFFER_SIZE_def)
qed

text \<open>\<^verbatim>\<open>neoscrypt_fastkdf\<close> is FastKDF over rings of 256 bytes: the tails of its buffers stay copies of
  their heads through every iteration, wherever the hash is written, so that its reads and its output, in one piece
  or in two, are those of rings indexed modulo 256; and its hash is the keyed BLAKE2s of the standard.\<close>

theorem fastkdf_rings:
  assumes "64 \<le> length password" "length password \<le> 256" "32 \<le> length salt" "length salt \<le> 256" "output_len \<le> 256"
  shows "neoscrypt_fastkdf password (length password) salt (length salt) N output_len =
    FastKDF_spec password salt N output_len"
  using assms by (rule fastkdf_spec)

lemma fastkdf_rings_witness:
  "neoscrypt_fastkdf (replicate 80 7) 80 (replicate 80 9) 80 32 256 = FastKDF_spec (replicate 80 7) (replicate 80 9) 32 256"
  using fastkdf_rings [of "replicate 80 7" "replicate 80 9" 256 32] by simp

section \<open>The optimised function is the general one\<close>

lemma opt_hash:
  assumes k: "length key = 32" and m: "length m = 64"
  defines "S \<equiv> blake2s_compress \<lparr>bl_h = blake2s_IV_P_XOR, bl_t = [64, 0], bl_f = [0, 0], bl_buf = key @ replicate 32 0, bl_buflen = 0\<rparr>"
  shows "bytes32 (bl_h (blake2s_compress (S\<lparr>bl_buf := m, bl_t := (bl_t S)[0 := 128], bl_f := (bl_f S)[0 := - 1]\<rparr>))) =
    neoscrypt_blake2s m key 32"
proof -
  let ?h = "rfc_F blake2s_IV_P_XOR (key @ replicate 32 0) 64 False"
  have "S = \<lparr>bl_h = ?h, bl_t = [64, 0], bl_f = [0, 0], bl_buf = key @ replicate 32 0, bl_buflen = 0\<rparr>"
    unfolding S_def by (subst compress_rfc [where t = 64 and fin = False]) (simp_all add: blake2s_IV_P_XOR_def)
  then have "bl_h (blake2s_compress (S\<lparr>bl_buf := m, bl_t := (bl_t S)[0 := 128], bl_f := (bl_f S)[0 := - 1]\<rparr>)) =
      rfc_F ?h m 128 True"
    by (subst compress_rfc [where t = 128 and fin = True]) (simp_all add: length_rfc_F)
  moreover have "rfc_blocks blake2s_IV_P_XOR 0 (key @ replicate 32 0 @ m) = rfc_F ?h m 128 True"
    using k m by (simp add: rfc_blocks_step) (simp add: rfc_blocks.simps)
  moreover have "neoscrypt_blake2s m key 32 = take 32 (bytes32 (rfc_blocks blake2s_IV_P_XOR 0 (key @ replicate 32 0 @ m)))"
    using k m by (subst blake2s_spec) (simp_all add: BLAKE2s_code blake2s_IV_def blake2s_IV_P_XOR_def)
  ultimately show ?thesis by (simp add: length_bytes32 length_rfc_F)
qed

lemma mem_u32: "mem (w :: u32) =
    [word_of_nat (unat w), word_of_nat (unat w div 256), word_of_nat (unat w div 65536), word_of_nat (unat w div 16777216)]"
proof -
  have four: "LENGTH(32) div 8 = Suc (Suc (Suc (Suc 0)))" by simp
  show ?thesis unfolding mem_def four by (simp add: div_mult2_eq [symmetric])
qed

lemma byte_of_nat: "unat (word_of_nat n :: byte) = n mod 256"
  by (simp add: unat_of_nat)

lemma unat_drop_bit: "unat (drop_bit k (w :: u32)) = unat w div 2 ^ k"
proof -
  have "unat w < 2 ^ 32" by (rule order_less_le_trans [OF unsigned_less]) simp
  then show ?thesis by (subst unsigned_drop_bit_eq) (simp add: drop_bit_eq_div take_bit_eq_mod)
qed

lemma mod_256_add:
  assumes "(u :: nat) mod 256 = (q + (n + a + b + c)) mod 256"
  shows "(u + s) mod 256 = (q + (n mod 256 + (a mod 256 + (b mod 256 + (c mod 256 + s))))) mod 256"
proof -
  have "(u + s) mod 256 = (q + (n + a + b + c) + s) mod 256" by (rule mod_add_cong [OF assms refl])
  also have "\<dots> = (q + (n mod 256 + (a mod 256 + (b mod 256 + (c mod 256 + s))))) mod 256"
    unfolding add.assoc by (intro mod_add_cong refl mod_mod_trivial [symmetric])
  finally show ?thesis .
qed

text \<open>The sum of the bytes of words, modulo 256.\<close>

lemma word_sum: "(unat (foldl (\<lambda>p s. p + s + drop_bit 8 s + drop_bit 16 s + drop_bit 24 s) q ws :: u32)) mod 256 =
    (unat q + sum_list (map unat (bytes32 ws))) mod 256"
proof (induction ws arbitrary: q)
  case (Cons w ws)
  let ?n = "unat w"
  let ?q = "q + w + drop_bit 8 w + drop_bit 16 w + drop_bit 24 w"
  have d: "?n div 256 = unat (drop_bit 8 w)" "?n div 65536 = unat (drop_bit 16 w)" "?n div 16777216 = unat (drop_bit 24 w)"
    by (simp_all only: unat_drop_bit) simp_all
  have q: "?q = word_of_nat (unat q + (?n + ?n div 256 + ?n div 65536 + ?n div 16777216))"
    unfolding d of_nat_add of_nat_unat ucast_id by (simp only: add.assoc)
  have "(4294967296 :: nat) = 256 * 16777216" by simp
  then have m: "unat ?q mod 256 = (unat q + (?n + ?n div 256 + ?n div 65536 + ?n div 16777216)) mod 256"
    unfolding q unat_of_nat by (simp add: mod_mod_cancel)
  have b: "sum_list (map unat (bytes32 (w # ws))) =
      ?n mod 256 + (?n div 256 mod 256 + (?n div 65536 mod 256 + (?n div 16777216 mod 256 + sum_list (map unat (bytes32 ws)))))"
    unfolding bytes32_def list.map concat.simps mem_u32 append_Cons append_Nil sum_list.Cons byte_of_nat by (rule refl)
  show ?case unfolding b foldl_Cons Cons.IH [of ?q] by (rule mod_256_add [OF m])
qed (simp add: bytes32_def)

lemma opt_iteration:
  assumes "p + 64 \<le> length A" "p + 32 \<le> length B"
  shows "fastkdf_opt_iteration A (B, p) = fastkdf_iteration A (B, p)"
proof -
  let ?k = "take 32 (drop p B)" and ?m = "take 64 (drop p A)"
  let ?S = "blake2s_compress \<lparr>bl_h = blake2s_IV_P_XOR, bl_t = [64, 0], bl_f = [0, 0], bl_buf = ?k @ replicate 32 0, bl_buflen = 0\<rparr>"
  let ?U = "?S\<lparr>bl_buf := ?m\<rparr>"
  let ?T = "blake2s_compress (?U\<lparr>bl_t := (bl_t ?U)[0 := 128], bl_f := (bl_f ?U)[0 := - 1]\<rparr>)"
  let ?x = "neoscrypt_blake2s ?m ?k 32"
  have h: "bytes32 (bl_h ?T) = ?x" using opt_hash [of ?k ?m] assms by simp
  let ?q = "unat (foldl (\<lambda>p b. p + ucast b) (0 :: u32) ?x AND word_of_nat (FASTKDF_BUFFER_SIZE - 1))"
  have q: "unat (foldl (\<lambda>p s. p + s + drop_bit 8 s + drop_bit 16 s + drop_bit 24 s) 0 (bl_h ?T) AND 0xFF) = ?q"
    unfolding bufptr_sum h [symmetric] using word_sum [of 0 "bl_h ?T"] by (simp only: and_255) simp
  have q256: "?q < 256" unfolding bufptr_sum by simp
  have tail: "(if q < 32 then put (256 + q) (take (32 - q) (drop q X)) X
       else if q > 224 then put 0 (take (q - 224) (drop 256 X)) X else X) =
      (if q < 32 then put (FASTKDF_BUFFER_SIZE + q) (take (min 32 (32 - q)) (drop q X)) X
       else if FASTKDF_BUFFER_SIZE - q < 32 then put 0 (take (32 - (FASTKDF_BUFFER_SIZE - q)) (drop FASTKDF_BUFFER_SIZE X)) X
       else X)" if "q < 256" for q X
    using that by (auto simp: FASTKDF_BUFFER_SIZE_def)
  have s: "blake2s_compress (\<lparr>bl_h = blake2s_IV_P_XOR, bl_t = [0, 0], bl_f = [0, 0], bl_buf = ?k @ replicate 32 0, bl_buflen = 0\<rparr>
      \<lparr>bl_t := (bl_t \<lparr>bl_h = blake2s_IV_P_XOR, bl_t = [0, 0], bl_f = [0, 0], bl_buf = ?k @ replicate 32 0, bl_buflen = 0\<rparr>)[0 := 64]\<rparr>) = ?S"
    by simp
  show ?thesis
    unfolding fastkdf_opt_iteration_def fastkdf_iteration_def split Let_def s
    unfolding q h tail [OF q256] by (rule refl)
qed

lemma fastkdf_opt_spec:
  assumes "length password = 80" "if mode = 0 then length salt = 80 else length salt = 256"
  shows "neoscrypt_fastkdf_opt password salt mode =
    (if mode = 0 then neoscrypt_fastkdf password 80 salt 80 32 256 else neoscrypt_fastkdf password 80 salt 256 32 32)"
proof -
  let ?nn = "if mode = 0 then 256 else 32 :: nat"
  let ?A = "take 80 password @ take 80 password @ take 80 password @ take 16 password @ take 64 password"
  let ?B = "if mode = 0 then take 80 salt @ take 80 salt @ take 80 salt @ take 16 salt @ take 32 salt
       else take 256 salt @ take 32 salt"
  let ?l = "if mode = 0 then 80 else 256 :: nat"
  have r: "concat (replicate 3 x) = x @ x @ x" "concat (replicate 1 x) = x" for x :: bytes
    by (simp_all add: numeral_3_eq_3)
  have b80: "fastkdf_buffer x 80 n = take 80 x @ take 80 x @ take 80 x @ take 16 x @ take n x" for x n
  proof -
    have "(256 :: nat) div 80 = 3" "(256 :: nat) - 3 * 80 = 16" "\<not> (80 :: nat) > 256" by simp_all
    then show ?thesis by (simp only: fastkdf_buffer_def FASTKDF_BUFFER_SIZE_def Let_def if_False r append_assoc)
  qed
  have b256: "fastkdf_buffer x 256 n = take 256 x @ take n x" for x n
  proof -
    have "(256 :: nat) div 256 = 1" "(256 :: nat) - 1 * 256 = 0" "\<not> (256 :: nat) > 256" by simp_all
    then show ?thesis by (simp only: fastkdf_buffer_def FASTKDF_BUFFER_SIZE_def Let_def if_False r take_0 append_Nil)
  qed
  have A: "fastkdf_buffer password 80 64 = ?A" by (rule b80)
  have B: "fastkdf_buffer salt ?l 32 = ?B" by (simp only: b80 b256 split: if_split) simp
  have mA: "mirrored 64 ?A" using fastkdf_buffer_ring(1) [of password 80 64] assms(1) unfolding A by simp
  have mB: "mirrored 32 ?B" using fastkdf_buffer_ring(1) [of salt ?l 32] assms(2) unfolding B by (simp split: if_splits)
  have it: "(fastkdf_opt_iteration ?A ^^ n) (?B, 0) = (fastkdf_iteration ?A ^^ n) (?B, 0)" for n
  proof (induction n)
    case (Suc n)
    obtain C q where C: "(fastkdf_iteration ?A ^^ n) (?B, 0) = (C, q)" by (cases "(fastkdf_iteration ?A ^^ n) (?B, 0)")
    then have "mirrored 32 C" "q < 256" using iterations_ring [OF mA mB _ C] by simp_all
    then have "fastkdf_opt_iteration ?A (C, q) = fastkdf_iteration ?A (C, q)"
      using mA by (intro opt_iteration) (simp_all only: mirrored_def)
    then show ?case using Suc.IH C by simp
  qed simp
  obtain C q where C: "(fastkdf_iteration ?A ^^ 32) (?B, 0) = (C, q)" by (cases "(fastkdf_iteration ?A ^^ 32) (?B, 0)")
  have l: "neoscrypt_fastkdf_opt password salt mode = fastkdf_output ?A (C, q) ?nn"
    unfolding neoscrypt_fastkdf_opt_def fastkdf_output_def Let_def it C split FASTKDF_BUFFER_SIZE_def by (rule refl)
  have "neoscrypt_fastkdf password 80 salt ?l 32 ?nn = fastkdf_output ?A (C, q) ?nn"
    unfolding neoscrypt_fastkdf_def Let_def A B C by (simp add: FASTKDF_BUFFER_SIZE_def)
  then show ?thesis unfolding l by (simp split: if_splits)
qed

text \<open>C16: the optimised FastKDF, the one the build with \<^verbatim>\<open>NEOSCRYPT_OPT\<close> uses, derives what the general
  function derives on the calls that NeoScrypt makes of it: with mode 0, 256 bytes from a password and a salt of 80
  bytes; otherwise 32 bytes from a password of 80 and a salt of 256.\<close>

theorem fastkdf_opt_agrees:
  assumes "length password = 80" "if mode = 0 then length salt = 80 else length salt = 256"
  shows "neoscrypt_fastkdf_opt password salt mode =
    (if mode = 0 then neoscrypt_fastkdf password 80 salt 80 32 256 else neoscrypt_fastkdf password 80 salt 256 32 32)"
  using assms by (rule fastkdf_opt_spec)

lemma fastkdf_opt_agrees_witness:
  "neoscrypt_fastkdf_opt (replicate 80 7) (replicate 256 9) 1 = neoscrypt_fastkdf (replicate 80 7) 80 (replicate 256 9) 256 32 32"
  using fastkdf_opt_agrees [of "replicate 80 7" 1 "replicate 256 9"] by simp

end
