(* ===== verification/NeoScrypt.thy ===== *)
theory NeoScrypt
  imports FastKDF
begin

text \<open>
  NeoScrypt and Scrypt (\<^verbatim>\<open>neoscrypt.c\<close>): the Salsa20 and ChaCha20 permutations, the block mixer with its fast
  paths for one and two pairs of blocks, the sequential memory-hard mixing and the function
  \<^verbatim>\<open>neoscrypt\<close> with its profiles. The working memory is a list of 32-bit words.
\<close>

section \<open>The permutations\<close>

definition salsa_quarter :: "nat \<Rightarrow> nat \<Rightarrow> nat \<Rightarrow> nat \<Rightarrow> u32 list \<Rightarrow> u32 list" where
  "salsa_quarter a b c d x =
     (let x = x[b := x ! b XOR ROTL32 (x ! a + x ! d) 7];
          x = x[c := x ! c XOR ROTL32 (x ! b + x ! a) 9];
          x = x[d := x ! d XOR ROTL32 (x ! c + x ! b) 13]
      in x[a := x ! a XOR ROTL32 (x ! d + x ! c) 18])"

definition salsa_double :: "u32 list \<Rightarrow> u32 list" where
  "salsa_double x =
     (let x = salsa_quarter 0 4 8 12 x;
          x = salsa_quarter 5 9 13 1 x;
          x = salsa_quarter 10 14 2 6 x;
          x = salsa_quarter 15 3 7 11 x;
          x = salsa_quarter 0 1 2 3 x;
          x = salsa_quarter 5 6 7 4 x;
          x = salsa_quarter 10 11 8 9 x
      in salsa_quarter 15 12 13 14 x)"

text \<open>The number of rounds is even: 20 or 8. (An odd one would never count down to zero.)\<close>

definition neoscrypt_salsa :: "nat \<Rightarrow> u32 list \<Rightarrow> u32 list" where
  "neoscrypt_salsa rounds X = map2 (+) X ((salsa_double ^^ (rounds div 2)) X)"

definition chacha_quarter :: "nat \<Rightarrow> nat \<Rightarrow> nat \<Rightarrow> nat \<Rightarrow> u32 list \<Rightarrow> u32 list" where
  "chacha_quarter a b c d x =
     (let x = x[a := x ! a + x ! b]; x = x[d := ROTL32 (x ! d XOR x ! a) 16];
          x = x[c := x ! c + x ! d]; x = x[b := ROTL32 (x ! b XOR x ! c) 12];
          x = x[a := x ! a + x ! b]; x = x[d := ROTL32 (x ! d XOR x ! a) 8];
          x = x[c := x ! c + x ! d]
      in x[b := ROTL32 (x ! b XOR x ! c) 7])"

definition chacha_double :: "u32 list \<Rightarrow> u32 list" where
  "chacha_double x =
     (let x = chacha_quarter 0 4 8 12 x;
          x = chacha_quarter 1 5 9 13 x;
          x = chacha_quarter 2 6 10 14 x;
          x = chacha_quarter 3 7 11 15 x;
          x = chacha_quarter 0 5 10 15 x;
          x = chacha_quarter 1 6 11 12 x;
          x = chacha_quarter 2 7 8 13 x
      in chacha_quarter 3 4 9 14 x)"

definition neoscrypt_chacha :: "nat \<Rightarrow> u32 list \<Rightarrow> u32 list" where
  "neoscrypt_chacha rounds X = map2 (+) X ((chacha_double ^^ (rounds div 2)) X)"

section \<open>Blocks of words\<close>

definition neoscrypt_blkcpy :: "nat \<Rightarrow> u32 list \<Rightarrow> u32 list \<Rightarrow> u32 list" where
  "neoscrypt_blkcpy i src dst = take i dst @ src @ drop (i + length src) dst"

definition neoscrypt_blkxor :: "nat \<Rightarrow> u32 list \<Rightarrow> u32 list \<Rightarrow> u32 list" where
  "neoscrypt_blkxor i src dst = neoscrypt_blkcpy i (map2 (XOR) (take (length src) (drop i dst)) src) dst"

definition neoscrypt_blkswp :: "nat \<Rightarrow> nat \<Rightarrow> nat \<Rightarrow> u32 list \<Rightarrow> u32 list" where
  "neoscrypt_blkswp a b len X =
     (let t = take len (drop a X);
          X = neoscrypt_blkcpy a (take len (drop b X)) X
      in neoscrypt_blkcpy b t X)"

text \<open>The block of 16 words at an index, and the mixing of the block there in place.\<close>

definition blk :: "nat \<Rightarrow> u32 list \<Rightarrow> u32 list" where
  "blk i X = take 16 (drop i X)"

definition mix_at :: "(u32 list \<Rightarrow> u32 list) \<Rightarrow> nat \<Rightarrow> u32 list \<Rightarrow> u32 list" where
  "mix_at f i X = neoscrypt_blkcpy i (f (blk i X)) X"

section \<open>The block mixer\<close>

definition blkmix_row :: "(u32 list \<Rightarrow> u32 list) \<Rightarrow> nat \<Rightarrow> nat \<Rightarrow> u32 list \<times> u32 list \<Rightarrow> u32 list \<times> u32 list" where
  "blkmix_row f r i = (\<lambda>(X, Y).
     let X = (if i \<noteq> 0 then neoscrypt_blkxor (16 * i) (blk (16 * (i - 1)) X) X
              else neoscrypt_blkxor 0 (blk (16 * (2 * r - 1)) X) X);
         X = mix_at f (16 * i) X
     in (X, neoscrypt_blkcpy (16 * i) (blk (16 * i) X) Y))"

text \<open>The temporary \<open>Y\<close> is written before it is read; it starts empty here.\<close>

definition blkmix_reference :: "(u32 list \<Rightarrow> u32 list) \<Rightarrow> nat \<Rightarrow> u32 list \<Rightarrow> u32 list" where
  "blkmix_reference f r X =
     (let (X, Y) = fold (blkmix_row f r) [0..<2 * r] (X, []);
          X = fold (\<lambda>i. neoscrypt_blkcpy (16 * i) (blk (16 * 2 * i) Y)) [0..<r] X
      in fold (\<lambda>i. neoscrypt_blkcpy (16 * (i + r)) (blk (16 * (2 * i + 1)) Y)) [0..<r] X)"

definition blkmix_1 :: "(u32 list \<Rightarrow> u32 list) \<Rightarrow> u32 list \<Rightarrow> u32 list" where
  "blkmix_1 f X =
     (let X = neoscrypt_blkxor 0 (blk 16 X) X;
          X = mix_at f 0 X;
          X = neoscrypt_blkxor 16 (blk 0 X) X
      in mix_at f 16 X)"

definition blkmix_2 :: "(u32 list \<Rightarrow> u32 list) \<Rightarrow> u32 list \<Rightarrow> u32 list" where
  "blkmix_2 f X =
     (let X = neoscrypt_blkxor 0 (blk 48 X) X;
          X = mix_at f 0 X;
          X = neoscrypt_blkxor 16 (blk 0 X) X;
          X = mix_at f 16 X;
          X = neoscrypt_blkxor 32 (blk 16 X) X;
          X = mix_at f 32 X;
          X = neoscrypt_blkxor 48 (blk 32 X) X;
          X = mix_at f 48 X
      in neoscrypt_blkswp 16 32 16 X)"

definition blkmix_mixer :: "u32 \<Rightarrow> u32 list \<Rightarrow> u32 list" where
  "blkmix_mixer mixmode =
     (let mixer = drop_bit 8 mixmode;
          rounds = unat (mixmode AND 0xFF)
      in if mixer \<noteq> 0 then neoscrypt_chacha rounds else neoscrypt_salsa rounds)"

definition neoscrypt_blkmix :: "nat \<Rightarrow> u32 \<Rightarrow> u32 list \<Rightarrow> u32 list" where
  "neoscrypt_blkmix r mixmode X =
     (if r = 1 then blkmix_1 (blkmix_mixer mixmode) X
      else if r = 2 then blkmix_2 (blkmix_mixer mixmode) X
      else blkmix_reference (blkmix_mixer mixmode) r X)"

section \<open>The core\<close>

text \<open>The mixing of \<open>X\<close>, which \<^verbatim>\<open>neoscrypt\<close> has twice, for \<open>Z\<close> and for \<open>X\<close>; \<open>V\<close> is
  written from its start.\<close>

definition neoscrypt_smix :: "u32 \<Rightarrow> nat \<Rightarrow> u32 \<Rightarrow> u32 list \<Rightarrow> u32 list" where
  "neoscrypt_smix N r mixmode X =
     (let (X, V) = fold (\<lambda>i (X, V). (neoscrypt_blkmix r mixmode X, neoscrypt_blkcpy (i * (32 * r)) X V)) [0..<unat N] (X, [])
      in fold (\<lambda>i X.
           let j = 32 * r * unat (X ! (16 * (2 * r - 1)) AND (N - 1));
               X = neoscrypt_blkxor 0 (take (r * 2 * 16) (drop j V)) X
           in neoscrypt_blkmix r mixmode X) [0..<unat N] X)"

text \<open>The parameters of a profile: \<open>N\<close>, \<open>r\<close>, whether the mixing is double, and the mode of the mixer.\<close>

definition neoscrypt_profile :: "u32 \<Rightarrow> u32 \<times> nat \<times> bool \<times> u32" where
  "neoscrypt_profile profile =
     (let (N, r, dblmix, mixmode) = (if profile AND 1 \<noteq> 0 then (1024, 1, False, 0x08) else (128, 2, True, 0x14));
          (N, r) = (if drop_bit 31 profile \<noteq> 0
                    then (push_bit (unat (drop_bit 8 profile AND 0x1F) + 1) 1, 2 ^ unat (drop_bit 5 profile AND 0x7))
                    else (N, r))
      in (N, r, dblmix, mixmode))"

text \<open>The first and the last derivation. \<open>opt\<close> and \<open>sha\<close> are the options NEOSCRYPT_OPT and NEOSCRYPT_SHA256 of the build;
  \<open>M\<close> is the memory of \<open>X\<close> and \<open>Z\<close>, whose first words the derivation writes.\<close>

definition neoscrypt_kdf_in :: "bool \<Rightarrow> bool \<Rightarrow> bytes \<Rightarrow> u32 \<Rightarrow> nat \<Rightarrow> bytes \<Rightarrow> u32 list \<Rightarrow> u32 list" where
  "neoscrypt_kdf_in opt sha junk profile r password M =
     (let kdf = drop_bit 1 profile AND 0xF;
          out = (if kdf = 1 \<and> sha then neoscrypt_pbkdf2_sha256 junk password password 1 (r * 2 * BLOCK_SIZE)
                 else if opt then neoscrypt_fastkdf_opt password password 0
                 else neoscrypt_fastkdf password 80 password 80 32 (r * 2 * BLOCK_SIZE))
      in neoscrypt_blkcpy 0 (words32 (length out div 4) out) M)"

definition neoscrypt_kdf_out :: "bool \<Rightarrow> bool \<Rightarrow> bytes \<Rightarrow> u32 \<Rightarrow> nat \<Rightarrow> bytes \<Rightarrow> u32 list \<Rightarrow> bytes" where
  "neoscrypt_kdf_out opt sha junk profile r password M =
     (let kdf = drop_bit 1 profile AND 0xF
      in if kdf = 1 \<and> sha then neoscrypt_pbkdf2_sha256 junk password (take (r * 2 * BLOCK_SIZE) (bytes32 M)) 1 32
         else if opt then neoscrypt_fastkdf_opt password (bytes32 M) 1
         else neoscrypt_fastkdf password 80 (bytes32 M) (r * 2 * BLOCK_SIZE) 32 32)"

text \<open>The hash. \<open>None\<close> stands for a profile with which the code is undefined: a shift by the width of a word, or
  a size of the stack that does not fit in 32 bits. \<open>M\<close> starts uninitialised.\<close>

definition neoscrypt :: "bool \<Rightarrow> bool \<Rightarrow> bytes \<Rightarrow> u32 list \<Rightarrow> bytes \<Rightarrow> u32 \<Rightarrow> bytes option" where
  "neoscrypt opt sha junk M password profile =
     (let (N, r, dblmix, mixmode) = neoscrypt_profile profile
      in if N = 0 \<or> (unat N + 3) * r * 2 * BLOCK_SIZE \<ge> 2 ^ 32 then None
         else
           let M = neoscrypt_kdf_in opt sha junk profile r password M;
               M = (if dblmix
                    then neoscrypt_blkcpy (32 * r) (neoscrypt_smix N r (mixmode OR 0x0100) (take (32 * r) M)) M
                    else M);
               M = neoscrypt_blkcpy 0 (neoscrypt_smix N r mixmode (take (32 * r) M)) M;
               M = (if dblmix then neoscrypt_blkxor 0 (take (r * 2 * 16) (drop (32 * r) M)) M else M)
           in Some (neoscrypt_kdf_out opt sha junk profile r password M))"

text \<open>Without assembly there are no extensions to report.\<close>

definition cpu_vec_exts :: u32 where
  "cpu_vec_exts = 0"

section \<open>The standard: BlockMix and ROMix\<close>

primrec rfc_Y :: "(u32 list \<Rightarrow> u32 list) \<Rightarrow> nat \<Rightarrow> u32 list \<Rightarrow> nat \<Rightarrow> u32 list" where
  "rfc_Y f r X 0 = f (map2 (XOR) (take 16 X) (take 16 (drop (16 * (2 * r - 1)) X)))"
| "rfc_Y f r X (Suc i) = f (map2 (XOR) (take 16 (drop (16 * Suc i) X)) (rfc_Y f r X i))"

definition BlockMix_spec :: "(u32 list \<Rightarrow> u32 list) \<Rightarrow> nat \<Rightarrow> u32 list \<Rightarrow> u32 list" where
  "BlockMix_spec f r X =
     concat (map (\<lambda>i. rfc_Y f r X (2 * i)) [0..<r]) @ concat (map (\<lambda>i. rfc_Y f r X (2 * i + 1)) [0..<r])"

definition ROMix_spec :: "(u32 list \<Rightarrow> u32 list) \<Rightarrow> nat \<Rightarrow> nat \<Rightarrow> u32 list \<Rightarrow> u32 list" where
  "ROMix_spec f N r X =
     (let V = \<lambda>i. (BlockMix_spec f r ^^ i) X
      in ((\<lambda>T. BlockMix_spec f r (map2 (XOR) T (V (unat (T ! (16 * (2 * r - 1))) mod N)))) ^^ N) (V N))"

definition NeoScrypt_spec :: "bytes \<Rightarrow> bytes" where
  "NeoScrypt_spec password =
     (let X = le_words 64 (FastKDF_spec password password 32 256)
      in FastKDF_spec password
           (le_image (map2 (XOR) (ROMix_spec (Salsa20_core 20) 128 2 X) (ROMix_spec (ChaCha20_core 20) 128 2 X))) 32 32)"

definition Scrypt_spec :: "bytes \<Rightarrow> bytes" where
  "Scrypt_spec password =
     (let X = le_words 32 (PBKDF2_spec password password 1 128)
      in PBKDF2_spec password (le_image (ROMix_spec (Salsa20_core 8) 1024 1 X)) 1 32)"

section \<open>The mixer is BlockMix\<close>

lemma blkcpy_append: "length C = n \<Longrightarrow> neoscrypt_blkcpy n s (C @ D) = C @ s @ drop (length s) D"
  by (simp add: neoscrypt_blkcpy_def)

lemma blkcpy_front: "neoscrypt_blkcpy 0 s D = s @ drop (length s) D"
  by (simp add: neoscrypt_blkcpy_def)

lemma blkxor_append: "length C = n \<Longrightarrow> length s \<le> length D \<Longrightarrow>
    neoscrypt_blkxor n s (C @ D) = C @ map2 (XOR) (take (length s) D) s @ drop (length s) D"
  by (simp add: neoscrypt_blkxor_def blkcpy_append)

lemma length_concat_upt: "(\<And>i. i < n \<Longrightarrow> length (g i) = m) \<Longrightarrow> length (concat (map g [0..<n])) = m * n"
  by (induction n) simp_all

lemma block_of_concat:
  assumes g: "\<And>i. i < n \<Longrightarrow> length (g i) = m" and k: "k < n"
  shows "take m (drop (m * k) (concat (map g [0..<n]))) = g k"
proof -
  have "[0..<n] = [0..<k] @ k # [Suc k..<n]" using k upt_add_eq_append [of 0 k "n - k"] by (simp add: upt_conv_Cons)
  then have "concat (map g [0..<n]) = concat (map g [0..<k]) @ g k @ concat (map g [Suc k..<n])" by simp
  moreover have "length (concat (map g [0..<k])) = m * k" using g k by (intro length_concat_upt) simp
  ultimately show ?thesis using g [OF k] by simp
qed

lemma blk_concat: "(\<And>i. i < n \<Longrightarrow> length (g i) = 16) \<Longrightarrow> k < n \<Longrightarrow> blk (16 * k) (concat (map g [0..<n])) = g k"
  unfolding blk_def by (rule block_of_concat)

lemma write_blocks:
  assumes "\<And>i. length (g i) = m" "length P = p"
  shows "m * n \<le> length Q \<Longrightarrow> fold (\<lambda>i. neoscrypt_blkcpy (p + m * i) (g i)) [0..<n] (P @ Q) = P @ concat (map g [0..<n]) @ drop (m * n) Q"
proof (induction n)
  case (Suc n)
  have l: "length (P @ concat (map g [0..<n])) = p + m * n" using assms by (simp add: length_concat_upt)
  have "fold (\<lambda>i. neoscrypt_blkcpy (p + m * i) (g i)) [0..<Suc n] (P @ Q) =
      neoscrypt_blkcpy (p + m * n) (g n) ((P @ concat (map g [0..<n])) @ drop (m * n) Q)"
    using Suc by simp
  then show ?case unfolding blkcpy_append [OF l] using assms(1) by (simp add: add.commute)
qed simp

lemma length_rfc_Y:
  assumes "\<And>b. length b = 16 \<Longrightarrow> length (f b) = 16" "length X = 32 * r" "0 < r"
  shows "i < 2 * r \<Longrightarrow> length (rfc_Y f r X i) = 16"
  by (induction i) (use assms in \<open>simp_all add: blk_def\<close>)

lemma rows_spec:
  assumes f: "\<And>b. length b = 16 \<Longrightarrow> length (f b) = 16" and X: "length X = 32 * r" and r: "0 < r"
  shows "i \<le> 2 * r \<Longrightarrow> fold (blkmix_row f r) [0..<i] (X, []) =
    (concat (map (rfc_Y f r X) [0..<i]) @ drop (16 * i) X, concat (map (rfc_Y f r X) [0..<i]))"
proof (induction i)
  case (Suc i)
  let ?Y = "rfc_Y f r X" and ?C = "concat (map (rfc_Y f r X) [0..<i])" and ?D = "drop (16 * i) X"
  have Y: "length (?Y j) = 16" if "j < 2 * r" for j
    using that by (intro length_rfc_Y [where f = f, OF f X r])
  have C: "length ?C = 16 * i" using Suc.prems Y by (intro length_concat_upt) simp
  have D: "length ?D = 32 * r - 16 * i" "16 \<le> length ?D" using X Suc.prems by simp_all
  let ?p = "if i = 0 then blk (16 * (2 * r - 1)) X else ?Y (i - 1)"
  have "32 * r - 16 * (2 * r - 1) = 16" using r by (cases r) simp_all
  then have p: "length ?p = 16" using X Y [of "i - 1"] Suc.prems by (simp add: blk_def)
  have q: "?Y i = f (map2 (XOR) (blk (16 * i) X) ?p)" by (cases i) (simp_all add: blk_def)
  have x: "(if i \<noteq> 0 then neoscrypt_blkxor (16 * i) (blk (16 * (i - 1)) (?C @ ?D)) (?C @ ?D)
      else neoscrypt_blkxor 0 (blk (16 * (2 * r - 1)) (?C @ ?D)) (?C @ ?D)) = neoscrypt_blkxor (16 * i) ?p (?C @ ?D)"
  proof (cases "i = 0")
    case False
    then have "blk (16 * (i - 1)) ?C = ?Y (i - 1)" using Suc.prems Y by (intro blk_concat) simp_all
    moreover have "blk (16 * (i - 1)) (?C @ ?D) = blk (16 * (i - 1)) ?C"
      using C False by (simp add: blk_def algebra_simps)
    ultimately show ?thesis using False by simp
  qed simp
  have y: "neoscrypt_blkxor (16 * i) ?p (?C @ ?D) = ?C @ map2 (XOR) (blk (16 * i) X) ?p @ drop 16 ?D"
    using blkxor_append [OF C, of ?p ?D] D p by (simp add: blk_def)
  have m: "mix_at f (16 * i) (?C @ map2 (XOR) (blk (16 * i) X) ?p @ drop 16 ?D) = ?C @ ?Y i @ drop 16 ?D"
  proof -
    have "length (map2 (XOR) (blk (16 * i) X) ?p) = 16" using D p by (simp add: blk_def)
    moreover from this have "length (?Y i) = 16" using f q by simp
    ultimately show ?thesis unfolding mix_at_def blkcpy_append [OF C] q blk_def using C by simp
  qed
  have b: "blk (16 * i) (?C @ ?Y i @ drop 16 ?D) = ?Y i" using C Y [of i] Suc.prems by (simp add: blk_def)
  have "blkmix_row f r i (?C @ ?D, ?C) = (?C @ ?Y i @ drop 16 ?D, ?C @ ?Y i)"
    unfolding blkmix_row_def split Let_def x y m b using blkcpy_append [OF C, of "?Y i" "[]"] by simp
  then show ?case using Suc by (simp add: add.commute)
qed simp

lemma reference_spec:
  assumes f: "\<And>b. length b = 16 \<Longrightarrow> length (f b) = 16" and X: "length X = 32 * r" and r: "0 < r"
  shows "blkmix_reference f r X = BlockMix_spec f r X"
proof -
  let ?Y = "rfc_Y f r X" and ?C = "concat (map (rfc_Y f r X) [0..<2 * r])"
  have Y: "length (?Y j) = 16" if "j < 2 * r" for j
    using that by (intro length_rfc_Y [where f = f, OF f X r])
  have rows: "fold (blkmix_row f r) [0..<2 * r] (X, []) = (?C, ?C)"
    using rows_spec [where f = f, OF f X r order_refl] X by simp
  have C: "length ?C = 32 * r" using Y by (subst length_concat_upt [where m = 16]) simp_all
  let ?e = "\<lambda>i. blk (16 * 2 * i) ?C" and ?o = "\<lambda>i. blk (16 * (2 * i + 1)) ?C"
  have b: "blk (16 * j) ?C = ?Y j" if "j < 2 * r" for j using that Y by (intro blk_concat) simp_all
  have e: "?e i = ?Y (2 * i)" if "i < r" for i using b [of "2 * i"] that by (simp add: mult.assoc)
  have o: "?o i = ?Y (2 * i + 1)" if "i < r" for i using b [of "2 * i + 1"] that by simp
  have ext: "fold (\<lambda>i. neoscrypt_blkcpy (h i) (g i)) [0..<r] Z = fold (\<lambda>i. neoscrypt_blkcpy (h i) (g' i)) [0..<r] Z"
    if "\<And>i. i < r \<Longrightarrow> g i = g' i" for h g g' Z
    using that by (intro fold_cong) simp_all
  have pad: "fold (\<lambda>i. neoscrypt_blkcpy (p + 16 * i) (?Y (k i))) [0..<r] (P @ Q) =
      P @ concat (map (\<lambda>i. ?Y (k i)) [0..<r]) @ drop (16 * r) Q"
    if "length P = p" "16 * r \<le> length Q" "\<And>i. i < r \<Longrightarrow> k i < 2 * r" for k p P Q
  proof -
    let ?g = "\<lambda>i. if i < r then ?Y (k i) else replicate 16 0"
    have "fold (\<lambda>i. neoscrypt_blkcpy (p + 16 * i) (?Y (k i))) [0..<r] (P @ Q) =
        fold (\<lambda>i. neoscrypt_blkcpy (p + 16 * i) (?g i)) [0..<r] (P @ Q)" by (intro ext) simp
    also have "\<dots> = P @ concat (map ?g [0..<r]) @ drop (16 * r) Q"
      using that Y by (intro write_blocks) simp_all
    also have "map ?g [0..<r] = map (\<lambda>i. ?Y (k i)) [0..<r]" by simp
    finally show ?thesis .
  qed
  let ?E = "concat (map (\<lambda>i. ?Y (2 * i)) [0..<r])"
  have 1: "fold (\<lambda>i. neoscrypt_blkcpy (16 * i) (?e i)) [0..<r] ?C = ?E @ drop (16 * r) ?C"
    using pad [of "[]" 0 ?C "\<lambda>i. 2 * i"] C ext [of ?e "\<lambda>i. ?Y (2 * i)" "\<lambda>i. 16 * i" ?C] e by simp
  have E: "length ?E = 16 * r" using Y by (intro length_concat_upt) simp
  have 2: "fold (\<lambda>i. neoscrypt_blkcpy (16 * (i + r)) (?o i)) [0..<r] (?E @ drop (16 * r) ?C) =
      ?E @ concat (map (\<lambda>i. ?Y (2 * i + 1)) [0..<r])"
  proof -
    have a: "16 * (i + r) = 16 * r + 16 * i" for i by simp
    have "fold (\<lambda>i. neoscrypt_blkcpy (16 * (i + r)) (?o i)) [0..<r] (?E @ drop (16 * r) ?C) =
        fold (\<lambda>i. neoscrypt_blkcpy (16 * r + 16 * i) (?Y (2 * i + 1))) [0..<r] (?E @ drop (16 * r) ?C)"
      unfolding a by (rule ext) (rule o)
    also have "\<dots> = ?E @ concat (map (\<lambda>i. ?Y (2 * i + 1)) [0..<r]) @ drop (16 * r) (drop (16 * r) ?C)"
      using C by (intro pad [OF E]) simp_all
    finally show ?thesis using C by simp
  qed
  show ?thesis unfolding blkmix_reference_def rows Let_def split 1 2 BlockMix_spec_def by (rule refl)
qed

text \<open>The block in the middle of a memory.\<close>

lemma blk_mid: "length U = n \<Longrightarrow> length V = 16 \<Longrightarrow> blk n (U @ V @ W) = V"
  by (simp add: blk_def)

lemma mix_at_mid:
  assumes "\<And>b. length b = 16 \<Longrightarrow> length (f b) = 16" "length V = 16" "length U = n"
  shows "mix_at f n (U @ V @ W) = U @ f V @ W"
  using assms(1) [OF assms(2)] assms(2,3) unfolding mix_at_def blk_mid [OF assms(3,2)] by (simp add: neoscrypt_blkcpy_def)

lemma blkxor_mid: "length U = n \<Longrightarrow> length V = 16 \<Longrightarrow> length K = 16 \<Longrightarrow>
    neoscrypt_blkxor n K (U @ V @ W) = U @ map2 (XOR) V K @ W"
  by (simp add: blkxor_append)

lemma fast_path_1:
  assumes f: "\<And>b. length b = 16 \<Longrightarrow> length (f b) = 16" and X: "length X = 32"
  shows "blkmix_1 f X = BlockMix_spec f 1 X"
proof -
  obtain A B where e: "X = A @ B" "length A = 16" "length B = 16"
    using X by (intro that [of "take 16 X" "drop 16 X"]) simp_all
  let ?Y0 = "f (map2 (XOR) A B)"
  have y: "length ?Y0 = 16" "length (f (map2 (XOR) B ?Y0)) = 16" using f e by simp_all
  note at = mix_at_mid [where f = f, OF f] and bl = blk_mid and x = blkxor_mid
  have "blkmix_1 f X = ?Y0 @ f (map2 (XOR) B ?Y0)"
  proof -
    have 1: "neoscrypt_blkxor 0 (blk 16 X) X = map2 (XOR) A B @ B"
      using x [of "[]" 0 A B B] bl [of A 16 B "[]"] e by simp
    have 2: "mix_at f 0 (map2 (XOR) A B @ B) = ?Y0 @ B" using at [of "map2 (XOR) A B" "[]" 0 B] e by simp
    have 3: "neoscrypt_blkxor 16 (blk 0 (?Y0 @ B)) (?Y0 @ B) = ?Y0 @ map2 (XOR) B ?Y0"
      using x [of ?Y0 16 B ?Y0 "[]"] bl [of "[]" 0 ?Y0 B] e y by simp
    have 4: "mix_at f 16 (?Y0 @ map2 (XOR) B ?Y0) = ?Y0 @ f (map2 (XOR) B ?Y0)"
      using at [of "map2 (XOR) B ?Y0" ?Y0 16 "[]"] e y by simp
    show ?thesis unfolding blkmix_1_def Let_def 1 2 3 4 by (rule refl)
  qed
  moreover have "BlockMix_spec f 1 X = ?Y0 @ f (map2 (XOR) B ?Y0)"
    using e by (simp add: BlockMix_spec_def blk_def)
  ultimately show ?thesis by simp
qed

lemma fast_path_2:
  assumes f: "\<And>b. length b = 16 \<Longrightarrow> length (f b) = 16" and X: "length X = 64"
  shows "blkmix_2 f X = BlockMix_spec f 2 X"
proof -
  obtain A B C D where e: "X = A @ B @ C @ D" "length A = 16" "length B = 16" "length C = 16" "length D = 16"
  proof (rule that [of "take 16 X" "take 16 (drop 16 X)" "take 16 (drop 32 X)" "drop 48 X"])
    show "X = take 16 X @ take 16 (drop 16 X) @ take 16 (drop 32 X) @ drop 48 X"
      using append_take_drop_id [of 16 X] append_take_drop_id [of 16 "drop 16 X"] append_take_drop_id [of 16 "drop 32 X"]
      by simp
  qed (use X in simp_all)
  define P where "P = f (map2 (XOR) A D)"
  define Q where "Q = f (map2 (XOR) B P)"
  define R where "R = f (map2 (XOR) C Q)"
  define S where "S = f (map2 (XOR) D R)"
  have l: "length P = 16" "length Q = 16" "length R = 16" "length S = 16" using f e by (simp_all add: P_def Q_def R_def S_def)
  note at = mix_at_mid [where f = f, OF f] and bl = blk_mid and x = blkxor_mid
  have "blkmix_2 f X = P @ R @ Q @ S"
  proof -
    have 1: "neoscrypt_blkxor 0 (blk 48 X) X = map2 (XOR) A D @ B @ C @ D"
      using x [of "[]" 0 A D "B @ C @ D"] bl [of "A @ B @ C" 48 D "[]"] e by simp
    have 2: "mix_at f 0 (map2 (XOR) A D @ B @ C @ D) = P @ B @ C @ D"
      using at [of "map2 (XOR) A D" "[]" 0 "B @ C @ D"] e by (simp add: P_def)
    have 3: "neoscrypt_blkxor 16 (blk 0 (P @ B @ C @ D)) (P @ B @ C @ D) = P @ map2 (XOR) B P @ C @ D"
      using x [of P 16 B P "C @ D"] bl [of "[]" 0 P "B @ C @ D"] e l by simp
    have 4: "mix_at f 16 (P @ map2 (XOR) B P @ C @ D) = P @ Q @ C @ D"
      using at [of "map2 (XOR) B P" P 16 "C @ D"] e l by (simp add: Q_def)
    have 5: "neoscrypt_blkxor 32 (blk 16 (P @ Q @ C @ D)) (P @ Q @ C @ D) = P @ Q @ map2 (XOR) C Q @ D"
      using x [of "P @ Q" 32 C Q D] bl [of P 16 Q "C @ D"] e l by simp
    have 6: "mix_at f 32 (P @ Q @ map2 (XOR) C Q @ D) = P @ Q @ R @ D"
      using at [of "map2 (XOR) C Q" "P @ Q" 32 D] e l by (simp add: R_def)
    have 7: "neoscrypt_blkxor 48 (blk 32 (P @ Q @ R @ D)) (P @ Q @ R @ D) = P @ Q @ R @ map2 (XOR) D R"
      using x [of "P @ Q @ R" 48 D R "[]"] bl [of "P @ Q" 32 R D] e l by simp
    have 8: "mix_at f 48 (P @ Q @ R @ map2 (XOR) D R) = P @ Q @ R @ S"
      using at [of "map2 (XOR) D R" "P @ Q @ R" 48 "[]"] e l by (simp add: S_def)
    have 9: "neoscrypt_blkswp 16 32 16 (P @ Q @ R @ S) = P @ R @ Q @ S"
      using l by (simp add: neoscrypt_blkswp_def neoscrypt_blkcpy_def Let_def)
    show ?thesis unfolding blkmix_2_def Let_def 1 2 3 4 5 6 7 8 9 by (rule refl)
  qed
  moreover have "BlockMix_spec f 2 X = P @ R @ Q @ S"
  proof -
    have b: "take 16 X = A" "take 16 (drop 16 X) = B" "take 16 (drop 32 X) = C" "take 16 (drop 48 X) = D"
      using e by simp_all
    have y0: "rfc_Y f 2 X 0 = P" by (simp add: b P_def)
    have y1: "rfc_Y f 2 X (Suc 0) = Q" unfolding rfc_Y.simps(2) y0 by (simp add: b Q_def)
    have y2: "rfc_Y f 2 X (Suc (Suc 0)) = R" unfolding rfc_Y.simps(2) [of f 2 X "Suc 0"] y1 by (simp add: b R_def)
    have y3: "rfc_Y f 2 X (Suc (Suc (Suc 0))) = S" unfolding rfc_Y.simps(2) [of f 2 X "Suc (Suc 0)"] y2 by (simp add: b S_def)
    have n: "Suc (Suc (Suc 0)) = 3" "Suc (Suc 0) = 2" "Suc 0 = 1" by simp_all
    note y = y0 y1 [unfolded n(3)] y2 [unfolded n(2)] y3 [unfolded n(1)]
    have u: "[0..<2] = [0, 1 :: nat]" by (simp add: upt_rec)
    show ?thesis unfolding BlockMix_spec_def u by (simp add: y y1 del: rfc_Y.simps)
  qed
  ultimately show ?thesis by simp
qed

lemma length_quarter [simp]:
  "length (salsa_quarter a b c d x) = length x" "length (chacha_quarter a b c d x) = length x"
  by (simp_all add: salsa_quarter_def chacha_quarter_def Let_def)

lemma length_funpow: "(\<And>x. length (f x) = length x) \<Longrightarrow> length ((f ^^ n) x) = length x" for f :: "u32 list \<Rightarrow> u32 list"
  by (induction n) simp_all

lemma length_mixer: "length (blkmix_mixer mixmode b) = length b"
  by (simp add: blkmix_mixer_def neoscrypt_salsa_def neoscrypt_chacha_def length_funpow salsa_double_def chacha_double_def Let_def)

lemma blkmix_spec:
  assumes "length X = 32 * r" "0 < r"
  shows "neoscrypt_blkmix r mixmode X = BlockMix_spec (blkmix_mixer mixmode) r X"
proof -
  have f: "length (blkmix_mixer mixmode b) = 16" if "length b = 16" for b using that by (simp add: length_mixer)
  show ?thesis
    using fast_path_1 [where f = "blkmix_mixer mixmode", OF f] fast_path_2 [where f = "blkmix_mixer mixmode", OF f]
      reference_spec [where f = "blkmix_mixer mixmode", OF f assms] assms
    by (simp add: neoscrypt_blkmix_def)
qed

text \<open>C17: for every memory of \<open>r\<close> pairs of blocks, every \<open>r\<close> and every mode, \<^verbatim>\<open>neoscrypt_blkmix\<close> is the BlockMix
  of the Scrypt standard with the mixer of the mode: the fast paths for one and two pairs, which mix in place and swap
  two blocks instead of copying through the temporary, and the general path agree with it.\<close>

theorem blkmix_is_standard:
  assumes "length X = 32 * r" "0 < r"
  shows "neoscrypt_blkmix r mixmode X = BlockMix_spec (blkmix_mixer mixmode) r X"
  by (rule blkmix_spec [OF assms])

theorem blkmix_is_standard_witness:
  "neoscrypt_blkmix 2 0x0114 (replicate 64 7) = BlockMix_spec (blkmix_mixer 0x0114) 2 (replicate 64 7)"
  by (rule blkmix_is_standard) simp_all

section \<open>The mixing is ROMix\<close>

lemma length_BlockMix: "length X = 32 * r \<Longrightarrow> 0 < r \<Longrightarrow> length (BlockMix_spec (blkmix_mixer mm) r X) = 32 * r"
proof -
  assume a: "length X = 32 * r" "0 < r"
  have Y: "length (rfc_Y (blkmix_mixer mm) r X i) = 16" if "i < 2 * r" for i
    using that a by (intro length_rfc_Y) (simp_all add: length_mixer)
  have "length (concat (map (\<lambda>i. rfc_Y (blkmix_mixer mm) r X (2 * i)) [0..<r])) = 16 * r"
    "length (concat (map (\<lambda>i. rfc_Y (blkmix_mixer mm) r X (2 * i + 1)) [0..<r])) = 16 * r"
    by (intro length_concat_upt Y; simp)+
  then show ?thesis by (simp add: BlockMix_spec_def)
qed

lemma length_BlockMix_pow: "length X = 32 * r \<Longrightarrow> 0 < r \<Longrightarrow> length ((BlockMix_spec (blkmix_mixer mm) r ^^ i) X) = 32 * r"
  by (induction i) (simp_all add: length_BlockMix)

lemma fold_const: "fold (\<lambda>_. g) xs = g ^^ length xs"
  by (induction xs) (simp_all add: funpow_Suc_right del: funpow.simps)

lemma smix_fill:
  fixes mm :: u32
  assumes "length X = 32 * r" "0 < r"
  defines "B \<equiv> BlockMix_spec (blkmix_mixer mm) r"
  shows "fold (\<lambda>i (X, V). (neoscrypt_blkmix r mm X, neoscrypt_blkcpy (i * (32 * r)) X V)) [0..<n] (X, []) =
    ((B ^^ n) X, concat (map (\<lambda>i. (B ^^ i) X) [0..<n]))"
proof (induction n)
  case (Suc n)
  have l: "length ((B ^^ i) X) = 32 * r" for i unfolding B_def by (rule length_BlockMix_pow [OF assms(1,2)])
  have "length (concat (map (\<lambda>i. (B ^^ i) X) [0..<n])) = n * (32 * r)"
    using l by (subst length_concat_upt [where m = "32 * r"]) simp_all
  from blkcpy_append [OF this, of "(B ^^ n) X" "[]"] show ?case
    using Suc blkmix_spec [OF l assms(2)] by (simp add: B_def)
qed simp

lemma and_mask_mod:
  assumes "k < 32" "N = push_bit k (1 :: u32)"
  shows "unat (w AND (N - 1)) = unat w mod 2 ^ k" "unat N = 2 ^ k"
proof -
  have "N - 1 = mask k" unfolding assms(2) by (simp add: mask_eq_exp_minus_1 push_bit_eq_mult)
  then have e: "w AND (N - 1) = take_bit k w" by (simp add: take_bit_eq_mask)
  show "unat (w AND (N - 1)) = unat w mod 2 ^ k" unfolding e unsigned_take_bit_eq by (simp add: take_bit_eq_mod)
  have "(2 :: nat) ^ k < 2 ^ 32" using assms(1) by (intro power_strict_increasing) simp_all
  moreover have "N = word_of_nat (2 ^ k)" unfolding assms(2) by (simp add: push_bit_eq_mult)
  ultimately show "unat N = 2 ^ k" by (simp only: unat_of_nat) simp
qed

lemma smix_ROMix:
  assumes X: "length X = 32 * r" and r: "0 < r" and N: "k < 32" "N = push_bit k 1"
  shows "neoscrypt_smix N r mm X = ROMix_spec (blkmix_mixer mm) (2 ^ k) r X"
proof -
  let ?B = "BlockMix_spec (blkmix_mixer mm) r"
  let ?n = "2 ^ k :: nat"
  define V where "V = concat (map (\<lambda>i. (?B ^^ i) X) [0..<?n])"
  let ?i = "\<lambda>T. unat (T ! (16 * (2 * r - 1))) mod ?n"
  define code where "code = (\<lambda>T. neoscrypt_blkmix r mm (neoscrypt_blkxor 0
      (take (r * 2 * 16) (drop (32 * r * unat (T ! (16 * (2 * r - 1)) AND (N - 1))) V)) T))"
  define spec where "spec = (\<lambda>T. ?B (map2 (XOR) T ((?B ^^ ?i T) X)))"
  have l: "length ((?B ^^ i) X) = 32 * r" for i by (rule length_BlockMix_pow [OF X r])
  have row: "take (32 * r) (drop (32 * r * j) V) = (?B ^^ j) X" if "j < ?n" for j
    unfolding V_def using that l by (intro block_of_concat)
  have step: "code T = spec T" if "length T = 32 * r" for T
  proof -
    have "take (r * 2 * 16) (drop (32 * r * unat (T ! (16 * (2 * r - 1)) AND (N - 1))) V) = (?B ^^ ?i T) X"
      unfolding and_mask_mod(1) [OF N] using row [of "?i T"] by (simp add: mult.commute)
    moreover have "neoscrypt_blkxor 0 ((?B ^^ ?i T) X) T = map2 (XOR) T ((?B ^^ ?i T) X)"
      using that l by (simp add: neoscrypt_blkxor_def neoscrypt_blkcpy_def)
    ultimately show ?thesis using that l r by (simp add: code_def spec_def blkmix_spec)
  qed
  have ls: "length (spec T) = 32 * r" if "length T = 32 * r" for T
    unfolding spec_def using that l r by (intro length_BlockMix) simp_all
  have loop: "(code ^^ m) T = (spec ^^ m) T \<and> length ((spec ^^ m) T) = 32 * r" if "length T = 32 * r" for m T
    using that by (induction m) (simp_all add: step ls)
  have "neoscrypt_smix N r mm X = fold (\<lambda>_. code) [0..<?n] ((?B ^^ ?n) X)"
    unfolding neoscrypt_smix_def and_mask_mod(2) [OF N] smix_fill [OF X r] Let_def split V_def [symmetric] code_def by (rule refl)
  also have "\<dots> = (spec ^^ ?n) ((?B ^^ ?n) X)" unfolding fold_const using loop [OF l] by simp
  finally show ?thesis unfolding ROMix_spec_def Let_def spec_def .
qed

lemma length_ROMix:
  assumes "length X = 32 * r" "0 < r"
  shows "length (ROMix_spec (blkmix_mixer mm) n r X) = 32 * r"
proof -
  let ?B = "BlockMix_spec (blkmix_mixer mm) r"
  have l: "length ((?B ^^ i) X) = 32 * r" for i by (rule length_BlockMix_pow [OF assms])
  have "length (((\<lambda>T. ?B (map2 (XOR) T ((?B ^^ (unat (T ! (16 * (2 * r - 1))) mod n)) X))) ^^ m) ((?B ^^ n) X)) = 32 * r" for m
    by (induction m) (simp_all add: l length_BlockMix assms)
  then show ?thesis by (simp add: ROMix_spec_def)
qed

section \<open>The permutations are Salsa20 and ChaCha\<close>

lemma ROTL32_rotl:
  assumes "0 < b" "b < 32"
  shows "ROTL32 a b = word_rotl b a"
proof -
  have "ROTL32 a b = ROTR32 a (32 - b)" using assms by (simp add: ROTL32_def ROTR32_def or.commute)
  then show ?thesis using assms by (simp add: ROTR32_rotr word_rotl_eq_word_rotr)
qed

lemma salsa_quarter_at:
  assumes "distinct [a, b, c, d]" "a < length x" "b < length x" "c < length x" "d < length x"
  shows "salsa_quarter a b c d x =
    (case Salsa_quarter (x ! a, x ! b, x ! c, x ! d) of (p, q, r, s) \<Rightarrow> x[b := q, c := r, d := s, a := p])"
  using assms by (simp add: salsa_quarter_def Salsa_quarter_def ROTL32_rotl Let_def)

lemma chacha_quarter_at:
  assumes "distinct [a, b, c, d]" "a < length x" "b < length x" "c < length x" "d < length x"
  shows "chacha_quarter a b c d x =
    (case ChaCha_quarter (x ! a, x ! b, x ! c, x ! d) of (p, q, r, s) \<Rightarrow> x[a := p, b := q, c := r, d := s])"
proof -
  have u: "x[a := p, d := q, c := r, b := s, a := p', d := q', c := r', b := s'] = x[a := p', b := s', c := r', d := q']"
    for p q r s p' q' r' s'
    using assms by (intro nth_equalityI) (auto simp: nth_list_update)
  show ?thesis
    using assms by (simp add: chacha_quarter_def ChaCha_quarter_def ROTL32_rotl Let_def u)
qed

lemma sixteen: "length x = 16 \<Longrightarrow>
    x = [x ! 0, x ! 1, x ! 2, x ! 3, x ! 4, x ! 5, x ! 6, x ! 7, x ! 8, x ! 9, x ! 10, x ! 11, x ! 12, x ! 13, x ! 14, x ! 15]"
  by (auto simp: numeral_eq_Suc length_Suc_conv)

lemma upt_16: "[0..<16] = [0, 1, 2, 3, 4, 5, 6, 7, 8, 9, 10, 11, 12, 13, 14, 15 :: nat]"
  by (simp add: upt_rec)

lemma salsa_columns:
  "salsa_quarter 15 3 7 11 (salsa_quarter 10 14 2 6 (salsa_quarter 5 9 13 1 (salsa_quarter 0 4 8 12 [x0, x1, x2, x3,
      x4, x5, x6, x7, x8, x9, x10, x11, x12, x13, x14, x15]))) =
    transposed (Salsa_rowround (transposed [x0, x1, x2, x3, x4, x5, x6, x7, x8, x9, x10, x11, x12, x13, x14, x15]))"
proof -
  obtain a0 a1 a2 a3 where A: "Salsa_quarter (x0, x4, x8, x12) = (a0, a1, a2, a3)" by (metis surj_pair)
  obtain b0 b1 b2 b3 where B: "Salsa_quarter (x5, x9, x13, x1) = (b0, b1, b2, b3)" by (metis surj_pair)
  obtain c0 c1 c2 c3 where C: "Salsa_quarter (x10, x14, x2, x6) = (c0, c1, c2, c3)" by (metis surj_pair)
  obtain d0 d1 d2 d3 where D: "Salsa_quarter (x15, x3, x7, x11) = (d0, d1, d2, d3)" by (metis surj_pair)
  show ?thesis by (simp add: salsa_quarter_at Salsa_rowround_def transposed_def upt_16 A B C D)
qed

lemma salsa_rows:
  "salsa_quarter 15 12 13 14 (salsa_quarter 10 11 8 9 (salsa_quarter 5 6 7 4 (salsa_quarter 0 1 2 3 [x0, x1, x2, x3,
      x4, x5, x6, x7, x8, x9, x10, x11, x12, x13, x14, x15]))) =
    Salsa_rowround [x0, x1, x2, x3, x4, x5, x6, x7, x8, x9, x10, x11, x12, x13, x14, x15]"
proof -
  obtain a0 a1 a2 a3 where A: "Salsa_quarter (x0, x1, x2, x3) = (a0, a1, a2, a3)" by (metis surj_pair)
  obtain b0 b1 b2 b3 where B: "Salsa_quarter (x5, x6, x7, x4) = (b0, b1, b2, b3)" by (metis surj_pair)
  obtain c0 c1 c2 c3 where C: "Salsa_quarter (x10, x11, x8, x9) = (c0, c1, c2, c3)" by (metis surj_pair)
  obtain d0 d1 d2 d3 where D: "Salsa_quarter (x15, x12, x13, x14) = (d0, d1, d2, d3)" by (metis surj_pair)
  show ?thesis by (simp add: salsa_quarter_at Salsa_rowround_def A B C D)
qed

lemma chacha_columns:
  "chacha_quarter 3 7 11 15 (chacha_quarter 2 6 10 14 (chacha_quarter 1 5 9 13 (chacha_quarter 0 4 8 12 [x0, x1, x2,
      x3, x4, x5, x6, x7, x8, x9, x10, x11, x12, x13, x14, x15]))) =
    ChaCha_columns [x0, x1, x2, x3, x4, x5, x6, x7, x8, x9, x10, x11, x12, x13, x14, x15]"
proof -
  obtain a0 a1 a2 a3 where A: "ChaCha_quarter (x0, x4, x8, x12) = (a0, a1, a2, a3)" by (metis surj_pair)
  obtain b0 b1 b2 b3 where B: "ChaCha_quarter (x1, x5, x9, x13) = (b0, b1, b2, b3)" by (metis surj_pair)
  obtain c0 c1 c2 c3 where C: "ChaCha_quarter (x2, x6, x10, x14) = (c0, c1, c2, c3)" by (metis surj_pair)
  obtain d0 d1 d2 d3 where D: "ChaCha_quarter (x3, x7, x11, x15) = (d0, d1, d2, d3)" by (metis surj_pair)
  show ?thesis by (simp add: chacha_quarter_at ChaCha_columns_def A B C D)
qed

lemma chacha_diagonals:
  "chacha_quarter 3 4 9 14 (chacha_quarter 2 7 8 13 (chacha_quarter 1 6 11 12 (chacha_quarter 0 5 10 15 [x0, x1, x2,
      x3, x4, x5, x6, x7, x8, x9, x10, x11, x12, x13, x14, x15]))) =
    shift_rows (\<lambda>i. 4 - i) (ChaCha_columns (shift_rows (\<lambda>i. i) [x0, x1, x2, x3, x4, x5, x6, x7, x8,
      x9, x10, x11, x12, x13, x14, x15]))"
proof -
  obtain a0 a1 a2 a3 where A: "ChaCha_quarter (x0, x5, x10, x15) = (a0, a1, a2, a3)" by (metis surj_pair)
  obtain b0 b1 b2 b3 where B: "ChaCha_quarter (x1, x6, x11, x12) = (b0, b1, b2, b3)" by (metis surj_pair)
  obtain c0 c1 c2 c3 where C: "ChaCha_quarter (x2, x7, x8, x13) = (c0, c1, c2, c3)" by (metis surj_pair)
  obtain d0 d1 d2 d3 where D: "ChaCha_quarter (x3, x4, x9, x14) = (d0, d1, d2, d3)" by (metis surj_pair)
  show ?thesis by (simp add: chacha_quarter_at ChaCha_columns_def shift_rows_def upt_16 A B C D)
qed

lemma salsa_double_standard:
  assumes "length x = 16"
  shows "salsa_double x = Salsa_doubleround x"
proof -
  let ?c = "salsa_quarter 15 3 7 11 (salsa_quarter 10 14 2 6 (salsa_quarter 5 9 13 1 (salsa_quarter 0 4 8 12 x)))"
  have c: "?c = transposed (Salsa_rowround (transposed x))" using assms by (subst (1 2) sixteen) (simp_all only: salsa_columns)
  have "length ?c = 16" using assms by simp
  then have "salsa_quarter 15 12 13 14 (salsa_quarter 10 11 8 9 (salsa_quarter 5 6 7 4 (salsa_quarter 0 1 2 3 ?c))) =
      Salsa_rowround ?c" by (subst (1 2) sixteen) (simp_all only: salsa_rows)
  then show ?thesis unfolding salsa_double_def Let_def Salsa_doubleround_def c .
qed

lemma chacha_double_standard:
  assumes "length x = 16"
  shows "chacha_double x = ChaCha_doubleround x"
proof -
  let ?c = "chacha_quarter 3 7 11 15 (chacha_quarter 2 6 10 14 (chacha_quarter 1 5 9 13 (chacha_quarter 0 4 8 12 x)))"
  have c: "?c = ChaCha_columns x" using assms by (subst (1 2) sixteen) (simp_all only: chacha_columns)
  have "length ?c = 16" using assms by simp
  then have "chacha_quarter 3 4 9 14 (chacha_quarter 2 7 8 13 (chacha_quarter 1 6 11 12 (chacha_quarter 0 5 10 15 ?c))) =
      shift_rows (\<lambda>i. 4 - i) (ChaCha_columns (shift_rows (\<lambda>i. i) ?c))"
    by (subst (1 2) sixteen) (simp_all only: chacha_diagonals)
  then show ?thesis unfolding chacha_double_def Let_def ChaCha_doubleround_def c .
qed

lemma cores_standard:
  assumes "length x = 16"
  shows "neoscrypt_salsa n x = Salsa20_core n x" "neoscrypt_chacha n x = ChaCha20_core n x"
proof -
  have l: "length (salsa_double y) = length y" "length (chacha_double y) = length y" for y
    by (simp_all add: salsa_double_def chacha_double_def Let_def)
  have "salsa_double y = Salsa_doubleround y \<and> length (Salsa_doubleround y) = 16"
    "chacha_double y = ChaCha_doubleround y \<and> length (ChaCha_doubleround y) = 16" if "length y = 16" for y
    using that salsa_double_standard [OF that] chacha_double_standard [OF that] l [of y] by simp_all
  note d = this
  have "(salsa_double ^^ k) x = (Salsa_doubleround ^^ k) x \<and> length ((Salsa_doubleround ^^ k) x) = 16" for k
    using assms by (induction k) (simp_all add: d)
  then show "neoscrypt_salsa n x = Salsa20_core n x" by (simp add: neoscrypt_salsa_def Salsa20_core_def)
  have "(chacha_double ^^ k) x = (ChaCha_doubleround ^^ k) x \<and> length ((ChaCha_doubleround ^^ k) x) = 16" for k
    using assms by (induction k) (simp_all add: d)
  then show "neoscrypt_chacha n x = ChaCha20_core n x" by (simp add: neoscrypt_chacha_def ChaCha20_core_def)
qed

text \<open>ROMix depends on what its mixer does to blocks only.\<close>

lemma rfc_Y_cong:
  assumes f: "\<And>b. length b = 16 \<Longrightarrow> f b = g b \<and> length (g b) = 16" and X: "length X = 32 * r" "0 < r"
  shows "i < 2 * r \<Longrightarrow> rfc_Y f r X i = rfc_Y g r X i \<and> length (rfc_Y g r X i) = 16"
  by (induction i) (use X f in \<open>simp_all add: blk_def\<close>)

lemma BlockMix_cong:
  assumes f: "\<And>b. length b = 16 \<Longrightarrow> f b = g b \<and> length (g b) = 16" and X: "length X = 32 * r" "0 < r"
  shows "BlockMix_spec f r X = BlockMix_spec g r X \<and> length (BlockMix_spec g r X) = 32 * r"
proof -
  note Y = rfc_Y_cong [where f = f and g = g, OF f X]
  have "map (\<lambda>i. rfc_Y f r X (2 * i)) [0..<r] = map (\<lambda>i. rfc_Y g r X (2 * i)) [0..<r]"
    "map (\<lambda>i. rfc_Y f r X (2 * i + 1)) [0..<r] = map (\<lambda>i. rfc_Y g r X (2 * i + 1)) [0..<r]"
    by (intro map_cong refl; use Y in \<open>simp del: rfc_Y.simps\<close>)+
  moreover have "length (concat (map (\<lambda>i. rfc_Y g r X (2 * i)) [0..<r])) = 16 * r"
    "length (concat (map (\<lambda>i. rfc_Y g r X (2 * i + 1)) [0..<r])) = 16 * r"
    by (intro length_concat_upt; use Y in \<open>simp del: rfc_Y.simps\<close>)+
  ultimately show ?thesis unfolding BlockMix_spec_def length_append by (simp only:) simp
qed

lemma ROMix_cong:
  assumes f: "\<And>b. length b = 16 \<Longrightarrow> f b = g b \<and> length (g b) = 16" and X: "length X = 32 * r" "0 < r"
  shows "ROMix_spec f N r X = ROMix_spec g N r X"
proof -
  note B = BlockMix_cong [where f = f and g = g, OF f _ X(2)]
  have V: "(BlockMix_spec f r ^^ i) X = (BlockMix_spec g r ^^ i) X \<and> length ((BlockMix_spec g r ^^ i) X) = 32 * r" for i
    using X by (induction i) (simp_all add: B)
  define step where "step = (\<lambda>h T. BlockMix_spec h r
    (map2 (XOR) T ((BlockMix_spec h r ^^ (unat (T ! (16 * (2 * r - 1))) mod N)) X)))"
  have s: "step f T = step g T \<and> length (step g T) = 32 * r" if "length T = 32 * r" for T
  proof -
    have e: "(BlockMix_spec f r ^^ (unat (T ! (16 * (2 * r - 1))) mod N)) X =
        (BlockMix_spec g r ^^ (unat (T ! (16 * (2 * r - 1))) mod N)) X" using V by blast
    have "length (map2 (XOR) T ((BlockMix_spec g r ^^ (unat (T ! (16 * (2 * r - 1))) mod N)) X)) = 32 * r"
      using V [of "unat (T ! (16 * (2 * r - 1))) mod N"] that by simp
    from B [OF _ this] show ?thesis unfolding step_def e by blast
  qed
  have "(step f ^^ m) T = (step g ^^ m) T \<and> length ((step g ^^ m) T) = 32 * r" if "length T = 32 * r" for m T
    using that by (induction m) (simp_all add: s)
  then have "(step f ^^ N) ((BlockMix_spec f r ^^ N) X) = (step g ^^ N) ((BlockMix_spec g r ^^ N) X)" using V by simp
  then show ?thesis by (simp add: ROMix_spec_def step_def Let_def)
qed

lemma ROMix_cores:
  assumes "length X = 32 * r" "0 < r"
  shows "ROMix_spec (Salsa20_core n) N r X = ROMix_spec (neoscrypt_salsa n) N r X"
    "ROMix_spec (ChaCha20_core n) N r X = ROMix_spec (neoscrypt_chacha n) N r X"
proof -
  have l: "length (neoscrypt_salsa n b) = length b" "length (neoscrypt_chacha n b) = length b" for b
    by (simp_all add: neoscrypt_salsa_def neoscrypt_chacha_def length_funpow salsa_double_def chacha_double_def Let_def)
  show "ROMix_spec (Salsa20_core n) N r X = ROMix_spec (neoscrypt_salsa n) N r X"
    "ROMix_spec (ChaCha20_core n) N r X = ROMix_spec (neoscrypt_chacha n) N r X"
    by (rule ROMix_cong [OF _ assms]; simp add: l flip: cores_standard)+
qed

lemma NeoScrypt_code: "NeoScrypt_spec password =
     (let X = words32 64 (FastKDF_spec password password 32 256)
      in FastKDF_spec password
           (bytes32 (map2 (XOR) (ROMix_spec (neoscrypt_salsa 20) 128 2 X) (ROMix_spec (neoscrypt_chacha 20) 128 2 X))) 32 32)"
  using ROMix_cores [of "words32 64 (FastKDF_spec password password 32 256)" 2]
  by (simp add: NeoScrypt_spec_def le_words_eq le_image_eq words32_def Let_def)

lemma Scrypt_code: "Scrypt_spec password =
     (let X = words32 32 (PBKDF2_spec password password 1 128)
      in PBKDF2_spec password (bytes32 (ROMix_spec (neoscrypt_salsa 8) 1024 1 X)) 1 32)"
  using ROMix_cores [of "words32 32 (PBKDF2_spec password password 1 128)" 1]
  by (simp add: Scrypt_spec_def le_words_eq le_image_eq words32_def Let_def)

section \<open>The profiles of the network\<close>

lemma words32_length [simp]: "length (words32 n b) = n"
  by (simp add: words32_def)

lemma bytes32_append: "bytes32 (a @ b) = bytes32 a @ bytes32 b"
  by (simp add: bytes32_def)

lemma profile_values:
  "neoscrypt_profile 0 = (128, 2, True, 0x14)" "neoscrypt_profile 0x1000 = (128, 2, True, 0x14)"
  "neoscrypt_profile 3 = (1024, 1, False, 8)" "neoscrypt_profile 0x1003 = (1024, 1, False, 8)"
  by (simp_all add: neoscrypt_profile_def Let_def)

lemma mixer_values:
  "blkmix_mixer 0x14 = neoscrypt_salsa 20" "blkmix_mixer (0x14 OR 0x0100) = neoscrypt_chacha 20"
  "blkmix_mixer 8 = neoscrypt_salsa 8"
  by (simp_all add: blkmix_mixer_def Let_def)

lemma fastkdf_80:
  assumes "length password = 80"
  shows "neoscrypt_fastkdf password 80 password 80 32 256 = FastKDF_spec password password 32 256"
    "neoscrypt_fastkdf_opt password password 0 = FastKDF_spec password password 32 256"
  using fastkdf_spec [of password password 256 32] fastkdf_opt_spec [of password 0 password] assms by simp_all

lemma fastkdf_256:
  assumes "length password = 80" "length salt = 256"
  shows "neoscrypt_fastkdf password 80 salt 256 32 32 = FastKDF_spec password salt 32 32"
    "neoscrypt_fastkdf_opt password salt 1 = FastKDF_spec password salt 32 32"
  using fastkdf_spec [of password salt 32 32] fastkdf_opt_spec [of password 1 salt] assms by simp_all

lemma fastkdf_front: "length x = 256 \<Longrightarrow> neoscrypt_fastkdf password n (x @ y) 256 m k = neoscrypt_fastkdf password n x 256 m k"
    "length x = 256 \<Longrightarrow> neoscrypt_fastkdf_opt password (x @ y) 1 = neoscrypt_fastkdf_opt password x 1"
  by (simp_all add: neoscrypt_fastkdf_def fastkdf_buffer_def FASTKDF_BUFFER_SIZE_def neoscrypt_fastkdf_opt_def)

lemma length_FastKDF: "nn \<le> 256 \<Longrightarrow> length (FastKDF_spec password salt m nn) = nn"
  by (simp add: FastKDF_spec_def ring_def Let_def split: prod.split)

lemma length_PBKDF2: "length (PBKDF2_spec password salt m nn) = nn"
proof -
  have "length (concat (map (pbkdf2_T password salt m) [1..<(nn + 31) div 32 + 1])) = 32 * ((nn + 31) div 32)"
    by (simp add: length_concat comp_def pbkdf2_T_length sum_list_triv)
  moreover have "nn \<le> 32 * ((nn + 31) div 32)" by linarith
  ultimately show ?thesis by (simp add: PBKDF2_spec_def del: upt_Suc)
qed

text \<open>The mixing in the memory of \<open>X\<close> and \<open>Z\<close>.\<close>

lemma double_mixing:
  assumes "length X = n" "length Z = n" "length X' = n" "length Z' = n"
  shows "neoscrypt_blkxor 0 (take n (drop n (neoscrypt_blkcpy 0 X' (neoscrypt_blkcpy n Z' (X @ Z)))))
      (neoscrypt_blkcpy 0 X' (neoscrypt_blkcpy n Z' (X @ Z))) = map2 (XOR) X' Z' @ Z'"
  using assms by (simp add: neoscrypt_blkxor_def neoscrypt_blkcpy_def)

lemma neoscrypt_default:
  assumes pw: "length password = 80" and M: "length M = 128" and p: "profile \<in> {0, 0x1000}"
  shows "neoscrypt opt sha junk M password profile = Some (NeoScrypt_spec password)"
proof -
  have v: "neoscrypt_profile profile = (128, 2, True, 0x14)" using p profile_values by auto
  have k: "(drop_bit 1 profile AND 0xF = 1 \<and> sha) = False" using p by auto
  let ?X = "words32 64 (FastKDF_spec password password 32 256)"
  have i: "neoscrypt_kdf_in opt sha junk profile 2 password M = ?X @ drop 64 M"
    unfolding neoscrypt_kdf_in_def Let_def k using fastkdf_80 [OF pw]
    by (simp add: BLOCK_SIZE_def length_FastKDF blkcpy_front)
  let ?A = "ROMix_spec (neoscrypt_salsa 20) 128 2 ?X" and ?C = "ROMix_spec (neoscrypt_chacha 20) 128 2 ?X"
  have s: "neoscrypt_smix 128 2 0x14 ?X = ?A" "neoscrypt_smix 128 2 (0x14 OR 0x0100) ?X = ?C"
    using smix_ROMix [of ?X 2 7 128 "0x14"] smix_ROMix [of ?X 2 7 128 "0x14 OR 0x0100"] unfolding mixer_values by simp_all
  have l: "length ?A = 64" "length ?C = 64"
    using length_ROMix [of ?X 2 "0x14" 128] length_ROMix [of ?X 2 "0x14 OR 0x0100" 128] unfolding mixer_values by simp_all
  let ?Z = "map2 (XOR) ?A ?C"
  have w: "length (bytes32 ?Z) = 256" using l by (simp add: length_bytes32)
  have o: "neoscrypt_kdf_out opt sha junk profile 2 password (?Z @ ?C) = FastKDF_spec password (bytes32 ?Z) 32 32"
    unfolding neoscrypt_kdf_out_def Let_def k bytes32_append
    using fastkdf_256 [OF pw w] fastkdf_front [where x = "bytes32 ?Z", OF w] by (simp add: BLOCK_SIZE_def)
  have m: "take 64 (?X @ drop 64 M) = ?X" "take 64 (neoscrypt_blkcpy 64 ?C (?X @ drop 64 M)) = ?X"
    "length (drop 64 M) = 64" using l M by (simp_all add: neoscrypt_blkcpy_def)
  have n: "32 * 2 = (64 :: nat)" "2 * 2 * 16 = (64 :: nat)" by simp_all
  have d: "neoscrypt_blkxor 0 (take 64 (drop 64 (neoscrypt_blkcpy 0 ?A (neoscrypt_blkcpy 64 ?C (?X @ drop 64 M)))))
      (neoscrypt_blkcpy 0 ?A (neoscrypt_blkcpy 64 ?C (?X @ drop 64 M))) = ?Z @ ?C"
    by (rule double_mixing [OF words32_length m(3) l])
  have z: "((128 :: u32) = 0 \<or> (unat (128 :: u32) + 3) * 2 * 2 * BLOCK_SIZE \<ge> 2 ^ 32) = False"
    by (simp add: BLOCK_SIZE_def)
  show ?thesis
    unfolding neoscrypt_def v split Let_def z if_False if_True i n m(1) s m(2) d o NeoScrypt_code by (rule refl)
qed

lemma scrypt_legacy:
  assumes pw: "length password = 80" "length junk = 64" and M: "length M = 64" and p: "profile \<in> {3, 0x1003}"
  shows "neoscrypt opt True junk M password profile = Some (Scrypt_spec password)"
proof -
  have v: "neoscrypt_profile profile = (1024, 1, False, 8)" using p profile_values by auto
  have k: "(drop_bit 1 profile AND 0xF = 1 \<and> True) = True" using p by auto
  let ?P = "PBKDF2_spec password password 1 128"
  let ?X = "words32 32 ?P"
  have pb: "neoscrypt_pbkdf2_sha256 junk password x 1 out = PBKDF2_spec password x 1 out" for x out
    using pbkdf2_spec [OF pw(2), of 1 password x out] by simp
  have i: "neoscrypt_kdf_in opt True junk profile 1 password M = ?X @ drop 32 M"
    unfolding neoscrypt_kdf_in_def Let_def k if_True pb by (simp add: BLOCK_SIZE_def length_PBKDF2 blkcpy_front)
  let ?A = "ROMix_spec (neoscrypt_salsa 8) 1024 1 ?X"
  have s: "neoscrypt_smix 1024 1 8 ?X = ?A" using smix_ROMix [of ?X 1 10 1024 8] unfolding mixer_values by simp
  have l: "length ?A = 32" using length_ROMix [of ?X 1 8 1024] unfolding mixer_values by simp
  have n: "32 * 1 = (32 :: nat)" by simp
  have m: "take 32 (?X @ drop 32 M) = ?X" "neoscrypt_blkcpy 0 ?A (?X @ drop 32 M) = ?A @ drop 32 M"
    using l by (simp_all add: neoscrypt_blkcpy_def)
  have w: "take (1 * 2 * BLOCK_SIZE) (bytes32 (?A @ drop 32 M)) = bytes32 ?A"
    using l by (simp add: bytes32_append length_bytes32 BLOCK_SIZE_def)
  have o: "neoscrypt_kdf_out opt True junk profile 1 password (?A @ drop 32 M) = PBKDF2_spec password (bytes32 ?A) 1 32"
    unfolding neoscrypt_kdf_out_def Let_def k if_True pb w by (rule refl)
  have z: "((1024 :: u32) = 0 \<or> (unat (1024 :: u32) + 3) * 1 * 2 * BLOCK_SIZE \<ge> 2 ^ 32) = False"
    by (simp add: BLOCK_SIZE_def)
  show ?thesis
    unfolding neoscrypt_def v split Let_def z if_False i n m(1) s m(2) o Scrypt_code by (rule refl)
qed

text \<open>C14: the proof-of-work hashes of the network. With the two profiles that the node uses (and with the bit that the
  start-up adds to them), \<^verbatim>\<open>neoscrypt\<close> of a header of 80 bytes is NeoScrypt(128, 2, 1), FastKDF around ROMix
  with Salsa20/20 and ROMix with ChaCha20/20 of the same memory, and, when SHA-256 is built in, Scrypt(1024, 1, 1),
  PBKDF2 around ROMix with Salsa20/8: in the optimised and in the general build, whatever the stack held.\<close>

theorem neoscrypt_profiles:
  assumes "length password = 80" "length junk = 64"
    and "profile \<in> {0, 0x1000} \<and> length M = 128 \<or> profile \<in> {3, 0x1003} \<and> length M = 64 \<and> sha"
  shows "neoscrypt opt sha junk M password profile =
    Some (if profile \<in> {0, 0x1000} then NeoScrypt_spec password else Scrypt_spec password)"
  using assms(3)
proof
  assume "profile \<in> {0, 0x1000} \<and> length M = 128"
  then show ?thesis using neoscrypt_default [OF assms(1)] by auto
next
  assume "profile \<in> {3, 0x1003} \<and> length M = 64 \<and> sha"
  then show ?thesis using scrypt_legacy [OF assms(1,2)] by auto
qed

theorem neoscrypt_profiles_witness:
  "neoscrypt True False (replicate 64 1) (replicate 128 2) (replicate 80 3) 0 = Some (NeoScrypt_spec (replicate 80 3)) \<and>
   neoscrypt False True (replicate 64 1) (replicate 64 2) (replicate 80 3) 0x1003 = Some (Scrypt_spec (replicate 80 3))"
  using neoscrypt_profiles [of "replicate 80 3" "replicate 64 1" 0 "replicate 128 2" False True]
    neoscrypt_profiles [of "replicate 80 3" "replicate 64 1" "0x1003" "replicate 64 2" True False] by simp_all

end
