(* ===== verification/NetAddr.thy ===== *)
theory NetAddr
  imports TextCode
begin

text \<open>
  Network addresses (\<^verbatim>\<open>netbase.h\<close>, \<^verbatim>\<open>netbase.cpp\<close>) and what the protocol builds on them (\<^verbatim>\<open>protocol.h\<close>,
  \<^verbatim>\<open>protocol.cpp\<close>): the kinds of addresses, the groups the node spreads its connections over, host names of
  hidden services, services with a port, message headers and inventory entries. An address is 16 bytes in
  network order. Looking up names, proxies and sockets are left out.
\<close>

section \<open>Addresses\<close>

record CNetAddr =
  ip :: bytes

datatype Network = NET_UNROUTABLE | NET_IPV4 | NET_IPV6 | NET_TOR | NET_I2P

definition pchIPv4 :: bytes where
  "pchIPv4 = [0, 0, 0, 0, 0, 0, 0, 0, 0, 0, 0xff, 0xff]"

definition pchOnionCat :: bytes where
  "pchOnionCat = [0xFD, 0x87, 0xD8, 0x7E, 0xEB, 0x43]"

definition pchGarliCat :: bytes where
  "pchGarliCat = [0xFD, 0x60, 0xDB, 0x4D, 0xDD, 0xB5]"

definition CNetAddr_Init :: bytes where
  "CNetAddr_Init = replicate 16 0"

definition CNetAddr_ipv4 :: "bytes \<Rightarrow> CNetAddr" where
  "CNetAddr_ipv4 ipv4Addr = \<lparr>ip = pchIPv4 @ ipv4Addr\<rparr>"

definition GetByte :: "'a CNetAddr_scheme \<Rightarrow> nat \<Rightarrow> byte" where
  "GetByte a n = ip a ! (15 - n)"

definition IsIPv4 :: "'a CNetAddr_scheme \<Rightarrow> bool" where
  "IsIPv4 a \<longleftrightarrow> take 12 (ip a) = pchIPv4"

definition IsTor :: "'a CNetAddr_scheme \<Rightarrow> bool" where
  "IsTor a \<longleftrightarrow> take 6 (ip a) = pchOnionCat"

definition IsI2P :: "'a CNetAddr_scheme \<Rightarrow> bool" where
  "IsI2P a \<longleftrightarrow> take 6 (ip a) = pchGarliCat"

definition IsIPv6 :: "'a CNetAddr_scheme \<Rightarrow> bool" where
  "IsIPv6 a \<longleftrightarrow> \<not> IsIPv4 a \<and> \<not> IsTor a \<and> \<not> IsI2P a"

definition IsRFC1918 :: "'a CNetAddr_scheme \<Rightarrow> bool" where
  "IsRFC1918 a \<longleftrightarrow> IsIPv4 a \<and>
     (GetByte a 3 = 10 \<or> GetByte a 3 = 192 \<and> GetByte a 2 = 168 \<or>
      GetByte a 3 = 172 \<and> GetByte a 2 \<ge> 16 \<and> GetByte a 2 \<le> 31)"

definition IsRFC3927 :: "'a CNetAddr_scheme \<Rightarrow> bool" where
  "IsRFC3927 a \<longleftrightarrow> IsIPv4 a \<and> GetByte a 3 = 169 \<and> GetByte a 2 = 254"

definition IsRFC3849 :: "'a CNetAddr_scheme \<Rightarrow> bool" where
  "IsRFC3849 a \<longleftrightarrow> GetByte a 15 = 0x20 \<and> GetByte a 14 = 0x01 \<and> GetByte a 13 = 0x0D \<and> GetByte a 12 = 0xB8"

definition IsRFC3964 :: "'a CNetAddr_scheme \<Rightarrow> bool" where
  "IsRFC3964 a \<longleftrightarrow> GetByte a 15 = 0x20 \<and> GetByte a 14 = 0x02"

definition IsRFC6052 :: "'a CNetAddr_scheme \<Rightarrow> bool" where
  "IsRFC6052 a \<longleftrightarrow> take 12 (ip a) = [0, 0x64, 0xFF, 0x9B, 0, 0, 0, 0, 0, 0, 0, 0]"

definition IsRFC4380 :: "'a CNetAddr_scheme \<Rightarrow> bool" where
  "IsRFC4380 a \<longleftrightarrow> GetByte a 15 = 0x20 \<and> GetByte a 14 = 0x01 \<and> GetByte a 13 = 0 \<and> GetByte a 12 = 0"

definition IsRFC4862 :: "'a CNetAddr_scheme \<Rightarrow> bool" where
  "IsRFC4862 a \<longleftrightarrow> take 8 (ip a) = [0xFE, 0x80, 0, 0, 0, 0, 0, 0]"

definition IsRFC4193 :: "'a CNetAddr_scheme \<Rightarrow> bool" where
  "IsRFC4193 a \<longleftrightarrow> GetByte a 15 AND 0xFE = 0xFC"

definition IsRFC6145 :: "'a CNetAddr_scheme \<Rightarrow> bool" where
  "IsRFC6145 a \<longleftrightarrow> take 12 (ip a) = [0, 0, 0, 0, 0, 0, 0, 0, 0xFF, 0xFF, 0, 0]"

definition IsRFC4843 :: "'a CNetAddr_scheme \<Rightarrow> bool" where
  "IsRFC4843 a \<longleftrightarrow> GetByte a 15 = 0x20 \<and> GetByte a 14 = 0x01 \<and> GetByte a 13 = 0x00 \<and>
     GetByte a 12 AND 0xF0 = 0x10"

definition IsLocal :: "'a CNetAddr_scheme \<Rightarrow> bool" where
  "IsLocal a \<longleftrightarrow>
     IsIPv4 a \<and> (GetByte a 3 = 127 \<or> GetByte a 3 = 0) \<or> take 16 (ip a) = replicate 15 0 @ [1]"

definition IsValid :: "'a CNetAddr_scheme \<Rightarrow> bool" where
  "IsValid a \<longleftrightarrow>
     (if take 9 (ip a) = drop 3 pchIPv4 then False
      else if take 16 (ip a) = replicate 16 0 then False
      else if IsRFC3849 a then False
      else if IsIPv4 a then
        (if take 4 (drop 12 (ip a)) = replicate 4 0xff then False
         else if take 4 (drop 12 (ip a)) = replicate 4 0 then False
         else True)
      else True)"

definition IsRoutable :: "'a CNetAddr_scheme \<Rightarrow> bool" where
  "IsRoutable a \<longleftrightarrow> IsValid a \<and>
     \<not> (IsRFC1918 a \<or> IsRFC3927 a \<or> IsRFC4862 a \<or> IsRFC4193 a \<and> \<not> IsTor a \<and> \<not> IsI2P a \<or> IsRFC4843 a \<or>
        IsLocal a)"

definition GetNetwork :: "'a CNetAddr_scheme \<Rightarrow> Network" where
  "GetNetwork a =
     (if \<not> IsRoutable a then NET_UNROUTABLE
      else if IsIPv4 a then NET_IPV4
      else if IsTor a then NET_TOR
      else if IsI2P a then NET_I2P
      else NET_IPV6)"

text \<open>The order of \<^verbatim>\<open>memcmp\<close>.\<close>

fun memcmp_less :: "bytes \<Rightarrow> bytes \<Rightarrow> bool" where
  "memcmp_less (x # xs) (y # ys) = (if x = y then memcmp_less xs ys else x < y)"
| "memcmp_less _ _ = False"

definition CNetAddr_eq :: "'a CNetAddr_scheme \<Rightarrow> 'b CNetAddr_scheme \<Rightarrow> bool" where
  "CNetAddr_eq a b \<longleftrightarrow> ip a = ip b"

definition CNetAddr_less :: "'a CNetAddr_scheme \<Rightarrow> 'b CNetAddr_scheme \<Rightarrow> bool" where
  "CNetAddr_less a b \<longleftrightarrow> memcmp_less (ip a) (ip b)"

section \<open>Hidden services\<close>

definition ends_with :: "string \<Rightarrow> string \<Rightarrow> bool" where
  "ends_with s e \<longleftrightarrow> length s > length e \<and> drop (length s - length e) s = e"

text \<open>For both kinds of names the prefix that is written is the one of the first kind.\<close>

definition SetSpecial :: "string \<Rightarrow> 'a CNetAddr_scheme \<Rightarrow> bool \<times> 'a CNetAddr_scheme" where
  "SetSpecial strName a =
     (if ends_with strName ''.onion'' then
        (let vchAddr = fst (DecodeBase32 (c_str (take (length strName - 6) strName)))
         in if length vchAddr \<noteq> 16 - length pchOnionCat then (False, a)
            else (True, a\<lparr>ip := pchOnionCat @ vchAddr\<rparr>))
      else if ends_with strName ''.oc.b32.i2p'' then
        (let vchAddr = fst (DecodeBase32 (c_str (take (length strName - 11) strName)))
         in if length vchAddr \<noteq> 16 - length pchGarliCat then (False, a)
            else (True, a\<lparr>ip := pchOnionCat @ vchAddr\<rparr>))
      else (False, a))"

text \<open>The names the operating system gives to other addresses are the argument \<open>numeric\<close>.\<close>

definition ToStringIP :: "(bytes \<Rightarrow> string) \<Rightarrow> 'a CNetAddr_scheme \<Rightarrow> string" where
  "ToStringIP numeric a =
     (if IsTor a then EncodeBase32 (take 10 (drop 6 (ip a))) @ ''.onion''
      else if IsI2P a then EncodeBase32 (take 10 (drop 6 (ip a))) @ ''.oc.b32.i2p''
      else numeric (ip a))"

section \<open>Groups\<close>

text \<open>The codes of the networks, as \<^verbatim>\<open>GetGroup\<close> writes them.\<close>

definition net_code :: "Network \<Rightarrow> byte" where
  "net_code n = (case n of NET_UNROUTABLE \<Rightarrow> 0 | NET_IPV4 \<Rightarrow> 1 | NET_IPV6 \<Rightarrow> 2 | NET_TOR \<Rightarrow> 3 | NET_I2P \<Rightarrow> 4)"

text \<open>The leading bits of an address from a byte on; what is left of a byte is masked.\<close>

fun group_bits :: "'a CNetAddr_scheme \<Rightarrow> nat \<Rightarrow> nat \<Rightarrow> bytes" where
  "group_bits a nStartByte nBits =
     (if nBits \<ge> 8 then GetByte a (15 - nStartByte) # group_bits a (nStartByte + 1) (nBits - 8)
      else if nBits > 0 then [GetByte a (15 - nStartByte) AND word_of_nat (0xFF * 2 ^ (8 - nBits))]
      else [])"

declare group_bits.simps [simp del]

text \<open>The class 255 that a local address would get is overwritten, since it is not routable.\<close>

definition GetGroup :: "'a CNetAddr_scheme \<Rightarrow> bytes" where
  "GetGroup a =
     (if \<not> IsRoutable a then net_code NET_UNROUTABLE # group_bits a 0 0
      else if IsIPv4 a \<or> IsRFC6145 a \<or> IsRFC6052 a then net_code NET_IPV4 # group_bits a 12 16
      else if IsRFC3964 a then net_code NET_IPV4 # group_bits a 2 16
      else if IsRFC4380 a then [net_code NET_IPV4, GetByte a 3 XOR 0xFF, GetByte a 2 XOR 0xFF]
      else if IsTor a then net_code NET_TOR # group_bits a 6 4
      else if IsI2P a then net_code NET_I2P # group_bits a 6 4
      else if GetByte a 15 = 0x20 \<and> GetByte a 14 = 0x01 \<and> GetByte a 13 = 0x04 \<and> GetByte a 12 = 0x70
      then net_code NET_IPV6 # group_bits a 0 36
      else net_code NET_IPV6 # group_bits a 0 32)"

definition CNetAddr_GetHash :: "ext \<Rightarrow> 'a CNetAddr_scheme \<Rightarrow> u64" where
  "CNetAddr_GetHash E a = of_mem (take 8 (mem (Hash E (ip a))))"

section \<open>Reachability\<close>

datatype Reachability = REACH_UNREACHABLE | REACH_DEFAULT | REACH_TEREDO | REACH_IPV6_WEAK | REACH_IPV4 |
  REACH_IPV6_STRONG | REACH_PRIVATE

datatype ExtNetwork = Plain Network | NET_UNKNOWN | NET_TEREDO

definition GetExtNetwork :: "'a CNetAddr_scheme option \<Rightarrow> ExtNetwork" where
  "GetExtNetwork addr =
     (case addr of None \<Rightarrow> NET_UNKNOWN
      | Some a \<Rightarrow> if IsRFC4380 a then NET_TEREDO else Plain (GetNetwork a))"

definition GetReachabilityFrom :: "'a CNetAddr_scheme \<Rightarrow> 'b CNetAddr_scheme option \<Rightarrow> Reachability" where
  "GetReachabilityFrom a paddrPartner =
     (if \<not> IsRoutable a then REACH_UNREACHABLE
      else
        let ourNet = GetExtNetwork (Some a);
            theirNet = GetExtNetwork paddrPartner;
            fTunnel = IsRFC3964 a \<or> IsRFC6052 a \<or> IsRFC6145 a
        in (case theirNet of
              Plain NET_IPV4 \<Rightarrow> if ourNet = Plain NET_IPV4 then REACH_IPV4 else REACH_DEFAULT
            | Plain NET_IPV6 \<Rightarrow>
                (case ourNet of NET_TEREDO \<Rightarrow> REACH_TEREDO
                 | Plain NET_IPV4 \<Rightarrow> REACH_IPV4
                 | Plain NET_IPV6 \<Rightarrow> if fTunnel then REACH_IPV6_WEAK else REACH_IPV6_STRONG
                 | _ \<Rightarrow> REACH_DEFAULT)
            | Plain NET_TOR \<Rightarrow>
                (case ourNet of Plain NET_IPV4 \<Rightarrow> REACH_IPV4 | Plain NET_TOR \<Rightarrow> REACH_PRIVATE | _ \<Rightarrow> REACH_DEFAULT)
            | Plain NET_I2P \<Rightarrow> (case ourNet of Plain NET_I2P \<Rightarrow> REACH_PRIVATE | _ \<Rightarrow> REACH_DEFAULT)
            | NET_TEREDO \<Rightarrow>
                (case ourNet of NET_TEREDO \<Rightarrow> REACH_TEREDO | Plain NET_IPV6 \<Rightarrow> REACH_IPV6_WEAK
                 | Plain NET_IPV4 \<Rightarrow> REACH_IPV4 | _ \<Rightarrow> REACH_DEFAULT)
            | _ \<Rightarrow>
                (case ourNet of NET_TEREDO \<Rightarrow> REACH_TEREDO | Plain NET_IPV6 \<Rightarrow> REACH_IPV6_WEAK
                 | Plain NET_IPV4 \<Rightarrow> REACH_IPV4 | Plain NET_I2P \<Rightarrow> REACH_PRIVATE
                 | Plain NET_TOR \<Rightarrow> REACH_PRIVATE | _ \<Rightarrow> REACH_DEFAULT)))"

section \<open>Services\<close>

record CService = CNetAddr +
  port :: u16

definition CService_Init :: CService where
  "CService_Init = \<lparr>ip = CNetAddr_Init, port = 0\<rparr>"

definition CService_eq :: "'a CService_scheme \<Rightarrow> 'b CService_scheme \<Rightarrow> bool" where
  "CService_eq a b \<longleftrightarrow> CNetAddr_eq a b \<and> port a = port b"

definition CService_less :: "'a CService_scheme \<Rightarrow> 'b CService_scheme \<Rightarrow> bool" where
  "CService_less a b \<longleftrightarrow> CNetAddr_less a b \<or> CNetAddr_eq a b \<and> port a < port b"

definition CService_GetKey :: "'a CService_scheme \<Rightarrow> bytes" where
  "CService_GetKey a = take 16 (ip a) @ [ucast (port a div 0x100), ucast (port a AND 0xFF)]"

text \<open>The port is written with its high byte first.\<close>

definition ser_CService :: "'a CService_scheme \<Rightarrow> bytes" where
  "ser_CService a = take 16 (ip a) @ rev (mem (port a))"

definition unser_CService :: "bytes \<Rightarrow> 'a CService_scheme \<Rightarrow> 'a CService_scheme \<times> bytes" where
  "unser_CService s a =
     (let (i, s) = read_bytes 16 s; (p, s) = read_bytes 2 s in (a\<lparr>ip := i, port := of_mem (rev p)\<rparr>, s))"

definition ToStringPort :: "'a CService_scheme \<Rightarrow> string" where
  "ToStringPort a = decimal (unat (port a))"

definition ToStringIPPort :: "(bytes \<Rightarrow> string) \<Rightarrow> 'a CService_scheme \<Rightarrow> string" where
  "ToStringIPPort numeric a =
     (if IsIPv4 a \<or> IsTor a \<or> IsI2P a then ToStringIP numeric a @ '':'' @ ToStringPort a
      else ''['' @ ToStringIP numeric a @ '']:'' @ ToStringPort a)"

definition ParseNetwork :: "string \<Rightarrow> Network" where
  "ParseNetwork net =
     (let net = ToLowerCase net in
      if net = ''ipv4'' then NET_IPV4
      else if net = ''ipv6'' then NET_IPV6
      else if net = ''tor'' then NET_TOR
      else if net = ''i2p'' then NET_I2P
      else NET_UNROUTABLE)"

section \<open>Hosts and ports\<close>

fun find_last_of :: "char \<Rightarrow> string \<Rightarrow> nat option" where
  "find_last_of c [] = None"
| "find_last_of c (x # s) =
     (case find_last_of c s of Some i \<Rightarrow> Some (Suc i) | None \<Rightarrow> if x = c then Some 0 else None)"

text \<open>\<^verbatim>\<open>strtol\<close> with base 10: the value, kept in the range of a \<^verbatim>\<open>long\<close>, and what follows the number; without a
  digit nothing is read.\<close>

definition strtol :: "string \<Rightarrow> int \<times> string" where
  "strtol s =
     (let t = dropWhile isspace s;
          (neg, t) = (case t of c # r \<Rightarrow> if c = CHR ''-'' then (True, r) else if c = CHR ''+'' then (False, r) else (False, t)
                      | [] \<Rightarrow> (False, t));
          v = digits_value (takeWhile isdigit t)
      in if takeWhile isdigit t = [] then (0, s)
         else (max (- (2 ^ 63)) (min (2 ^ 63 - 1) (if neg then - v else v)), dropWhile isdigit t))"

definition SplitHostPort :: "string \<Rightarrow> int \<Rightarrow> int \<times> string" where
  "SplitHostPort s portOut =
     (let colon = find_last_of (CHR '':'') s;
          (portOut, s) =
            (case colon of None \<Rightarrow> (portOut, s)
             | Some i \<Rightarrow>
                 let fBracketed = s ! 0 = CHR ''['' \<and> s ! (i - 1) = CHR '']'';
                     fMultiColon = find_last_of (CHR '':'') (take i s) \<noteq> None
                 in if i = 0 \<or> fBracketed \<or> \<not> fMultiColon then
                      (case strtol (c_str (drop (i + 1) s)) of (v, rest) \<Rightarrow>
                         let n = sint (word_of_int v :: u32) in
                         if rest = [] \<and> n \<ge> 0
                         then (if n > 0 \<and> n < 0x10000 then n else portOut, take i s)
                         else (portOut, s))
                    else (portOut, s))
      in (portOut,
          if length s > 0 \<and> s ! 0 = CHR ''['' \<and> s ! (length s - 1) = CHR '']''
          then take (length s - 2) (drop 1 s) else s))"

section \<open>Peers, messages and inventory\<close>

definition NODE_NETWORK :: u64 where
  "NODE_NETWORK = 1"

record CAddress = CService +
  nServices :: u64
  aTime :: u32
  nLastTry :: int

definition CAddress_Init :: "'a CAddress_scheme \<Rightarrow> 'a CAddress_scheme" where
  "CAddress_Init a = a\<lparr>nServices := NODE_NETWORK, aTime := 100000000, nLastTry := 0\<rparr>"

definition CAddress_of :: "'a CService_scheme \<Rightarrow> u64 \<Rightarrow> CAddress" where
  "CAddress_of s nServicesIn = \<lparr>ip = ip s, port = port s, nServices = nServicesIn, aTime = 100000000, nLastTry = 0\<rparr>"

definition COMMAND_SIZE :: nat where
  "COMMAND_SIZE = 12"

record CMessageHeader =
  mhStart :: bytes
  pchCommand :: bytes
  nMessageSize :: u32
  nChecksum :: u32

text \<open>\<^verbatim>\<open>strncpy\<close> fills with zeros, and the last byte is a zero in any case.\<close>

definition new_CMessageHeader :: "bytes \<Rightarrow> bytes \<Rightarrow> u32 \<Rightarrow> CMessageHeader" where
  "new_CMessageHeader magic pszCommand nMessageSizeIn =
     \<lparr>mhStart = magic,
      pchCommand = (let c = take (COMMAND_SIZE - 1) (takeWhile (\<lambda>b. b \<noteq> 0) pszCommand)
                    in c @ replicate (COMMAND_SIZE - length c) 0),
      nMessageSize = nMessageSizeIn, nChecksum = 0\<rparr>"

definition IsCommandValid :: "CMessageHeader \<Rightarrow> bool" where
  "IsCommandValid h =
     (let valid = takeWhile (\<lambda>c. \<not> (c < 0x61 \<or> c > 0x7A)) (pchCommand h);
          rest = dropWhile (\<lambda>c. \<not> (c < 0x61 \<or> c > 0x7A)) (pchCommand h)
      in if length valid = 0 \<or> length valid = COMMAND_SIZE then False
         else list_all (\<lambda>c. c = 0) rest)"

definition ser_CMessageHeader :: "CMessageHeader \<Rightarrow> bytes" where
  "ser_CMessageHeader h = mhStart h @ pchCommand h @ ser_word (nMessageSize h) @ ser_word (nChecksum h)"

definition unser_CMessageHeader :: "bytes \<Rightarrow> CMessageHeader \<times> bytes" where
  "unser_CMessageHeader s =
     (let (m, s) = read_bytes 4 s; (c, s) = read_bytes COMMAND_SIZE s; (n, s) = unser_word s; (k, s) = unser_word s
      in (\<lparr>mhStart = m, pchCommand = c, nMessageSize = n, nChecksum = k\<rparr>, s))"

record CInv =
  inv_type :: int
  inv_hash :: uint256

definition ppszTypeName :: "string list" where
  "ppszTypeName = [''ERROR'', ''tx'', ''block'']"

text \<open>The constructor from a name throws when the name is not known.\<close>

definition CInv_of_name :: "string \<Rightarrow> uint256 \<Rightarrow> CInv option" where
  "CInv_of_name strType hashIn =
     (case find (\<lambda>i. strType = ppszTypeName ! i) [1..<length ppszTypeName] of
        None \<Rightarrow> None
      | Some i \<Rightarrow> Some \<lparr>inv_type = int i, inv_hash = hashIn\<rparr>)"

definition CInv_less :: "CInv \<Rightarrow> CInv \<Rightarrow> bool" where
  "CInv_less a b \<longleftrightarrow> inv_type a < inv_type b \<or> inv_type a = inv_type b \<and> inv_hash a < inv_hash b"

definition IsKnownType :: "CInv \<Rightarrow> bool" where
  "IsKnownType i \<longleftrightarrow> inv_type i \<ge> 1 \<and> inv_type i < int (length ppszTypeName)"

definition GetCommand :: "CInv \<Rightarrow> string option" where
  "GetCommand i = (if \<not> IsKnownType i then None else Some (ppszTypeName ! nat (inv_type i)))"

section \<open>Properties\<close>

definition netaddr_ok :: "'a CNetAddr_scheme \<Rightarrow> bool" where
  "netaddr_ok a \<longleftrightarrow> length (ip a) = 16"

lemma hidden_name:
  assumes "length v = 10"
  shows "SetSpecial (EncodeBase32 v @ ''.onion'') b = (True, b\<lparr>ip := pchOnionCat @ v\<rparr>)"
    "SetSpecial (EncodeBase32 v @ ''.oc.b32.i2p'') b = (True, b\<lparr>ip := pchOnionCat @ v\<rparr>)"
proof -
  have n: "CHR 0x00 \<notin> set (EncodeBase32 v)" using encode32_chars by (simp add: EncodeBase32_def)
  have ne: "EncodeBase32 v \<noteq> []"
  proof
    assume "EncodeBase32 v = []"
    then have "DecodeBase32 [] = (v, False)" using base32_exact [of v] by simp
    then show False using assms by (auto simp: DecodeBase32_def c_str_def)
  qed
  have l: "length pchOnionCat = 6" "length pchGarliCat = 6" by (simp_all add: pchOnionCat_def pchGarliCat_def)
  show "SetSpecial (EncodeBase32 v @ ''.onion'') b = (True, b\<lparr>ip := pchOnionCat @ v\<rparr>)"
    using ne assms by (simp add: SetSpecial_def ends_with_def c_str_id [OF n] base32_exact l)
  have "\<not> ends_with (EncodeBase32 v @ ''.oc.b32.i2p'') ''.onion''" by (simp add: ends_with_def)
  then show "SetSpecial (EncodeBase32 v @ ''.oc.b32.i2p'') b = (True, b\<lparr>ip := pchOnionCat @ v\<rparr>)"
    using ne assms by (simp add: SetSpecial_def c_str_id [OF n] base32_exact l) (simp add: ends_with_def)
qed

lemma split_ip: "length (ip a) = 16 \<Longrightarrow> take 6 (ip a) = p \<Longrightarrow> ip a = p @ take 10 (drop 6 (ip a))"
  using append_take_drop_id [of 6 "ip a"] by simp

text \<open>C23: The name of a Tor service is read back as its address. The name of an I2P service is not: it is read
  as the Tor service with the same identifier, because the wrong prefix is copied.\<close>

theorem hidden_service_names:
  assumes "netaddr_ok a"
  shows "(IsTor a \<longrightarrow> SetSpecial (ToStringIP numeric a) b = (True, b\<lparr>ip := ip a\<rparr>)) \<and>
    (IsI2P a \<longrightarrow> (\<exists>c. SetSpecial (ToStringIP numeric a) b = (True, c) \<and> IsTor c \<and> \<not> IsI2P c \<and>
       drop 6 (ip c) = drop 6 (ip a)))"
proof (intro conjI impI)
  let ?v = "take 10 (drop 6 (ip a))"
  have l: "length ?v = 10" using assms by (simp add: netaddr_ok_def)
  assume t: "IsTor a"
  then show "SetSpecial (ToStringIP numeric a) b = (True, b\<lparr>ip := ip a\<rparr>)"
    using hidden_name(1) [OF l] split_ip [of a pchOnionCat] assms by (simp add: ToStringIP_def IsTor_def netaddr_ok_def)
next
  let ?v = "take 10 (drop 6 (ip a))"
  have l: "length ?v = 10" using assms by (simp add: netaddr_ok_def)
  assume i: "IsI2P a"
  then have "\<not> IsTor a" by (auto simp: IsTor_def IsI2P_def pchOnionCat_def pchGarliCat_def)
  then have "SetSpecial (ToStringIP numeric a) b = (True, b\<lparr>ip := pchOnionCat @ ?v\<rparr>)"
    using hidden_name(2) [OF l] i by (simp add: ToStringIP_def)
  moreover have "drop 6 (ip a) = ?v" using assms by (simp add: netaddr_ok_def)
  ultimately show "\<exists>c. SetSpecial (ToStringIP numeric a) b = (True, c) \<and> IsTor c \<and> \<not> IsI2P c \<and>
       drop 6 (ip c) = drop 6 (ip a)"
    by (simp add: IsTor_def IsI2P_def pchOnionCat_def pchGarliCat_def)
qed

text \<open>An IPv4 address as it is written into an address of each kind that carries one: mapped, translated, behind
  the well-known prefix, 6to4, Teredo.\<close>

definition carriers :: "bytes \<Rightarrow> bytes \<Rightarrow> bytes \<Rightarrow> CNetAddr set" where
  "carriers v rest server =
     {\<lparr>ip = pchIPv4 @ v\<rparr>, \<lparr>ip = [0, 0, 0, 0, 0, 0, 0, 0, 0xFF, 0xFF, 0, 0] @ v\<rparr>,
      \<lparr>ip = [0, 0x64, 0xFF, 0x9B, 0, 0, 0, 0, 0, 0, 0, 0] @ v\<rparr>, \<lparr>ip = [0x20, 0x02] @ v @ rest\<rparr>,
      \<lparr>ip = [0x20, 0x01, 0, 0] @ server @ map (\<lambda>b. b XOR 0xFF) v\<rparr>}"

lemma two_bytes: "group_bits a n 16 = [GetByte a (15 - n), GetByte a (15 - (n + 1))]"
  by (simp add: group_bits.simps)

lemma xor_back: "(b XOR 0xFF) XOR 0xFF = (b :: byte)"
  by (simp add: xor.assoc)

text \<open>C22: However an IPv4 address reaches the node - as itself, translated, behind the well-known prefix, through
  6to4 or Teredo - a routable address is in the group of the upper 16 bits of that IPv4 address, so that no
  carrier yields more connections to one network.\<close>

theorem embedded_ipv4_groups:
  assumes "a \<in> carriers v rest server" "length v = 4" "length rest = 10" "length server = 8" "IsRoutable a"
  shows "GetGroup a = [net_code NET_IPV4, v ! 0, v ! 1]"
proof -
  obtain v0 v1 v2 v3 where v: "v = [v0, v1, v2, v3]"
    using assms(2) by (auto simp: length_Suc_conv numeral_eq_Suc)
  consider (mapped) "a = \<lparr>ip = pchIPv4 @ v\<rparr>" | (translated) "a = \<lparr>ip = [0, 0, 0, 0, 0, 0, 0, 0, 0xFF, 0xFF, 0, 0] @ v\<rparr>"
    | (known) "a = \<lparr>ip = [0, 0x64, 0xFF, 0x9B, 0, 0, 0, 0, 0, 0, 0, 0] @ v\<rparr>"
    | (sixtofour) "a = \<lparr>ip = [0x20, 0x02] @ v @ rest\<rparr>"
    | (teredo) "a = \<lparr>ip = [0x20, 0x01, 0, 0] @ server @ map (\<lambda>b. b XOR 0xFF) v\<rparr>"
    using assms(1) unfolding carriers_def by blast
  then show ?thesis
  proof cases
    case mapped
    then have "IsIPv4 a" by (simp add: IsIPv4_def pchIPv4_def)
    then show ?thesis using assms(5) by (simp add: GetGroup_def two_bytes mapped v GetByte_def pchIPv4_def)
  next
    case translated
    then have "IsRFC6145 a" by (simp add: IsRFC6145_def)
    then show ?thesis using assms(5) by (simp add: GetGroup_def two_bytes translated v GetByte_def)
  next
    case known
    then have "IsRFC6052 a" by (simp add: IsRFC6052_def)
    then show ?thesis using assms(5) by (simp add: GetGroup_def two_bytes known v GetByte_def)
  next
    case sixtofour
    then have "\<not> IsIPv4 a" "\<not> IsRFC6145 a" "\<not> IsRFC6052 a" "IsRFC3964 a"
      by (simp_all add: IsIPv4_def IsRFC6145_def IsRFC6052_def IsRFC3964_def pchIPv4_def GetByte_def)
    then show ?thesis using assms(5) by (simp add: GetGroup_def two_bytes sixtofour v GetByte_def)
  next
    case teredo
    then have "\<not> IsIPv4 a" "\<not> IsRFC6145 a" "\<not> IsRFC6052 a" "\<not> IsRFC3964 a" "IsRFC4380 a"
      by (simp_all add: IsIPv4_def IsRFC6145_def IsRFC6052_def IsRFC3964_def IsRFC4380_def pchIPv4_def GetByte_def)
    moreover have "GetByte a 3 = v0 XOR 0xFF" "GetByte a 2 = v1 XOR 0xFF"
      using assms(4) by (simp_all add: teredo v GetByte_def nth_append nth_Cons')
    ultimately show ?thesis using assms(5) by (simp add: GetGroup_def v xor_back)
  qed
qed

theorem embedded_ipv4_groups_witness:
  "GetGroup \<lparr>ip = [0x20, 0x01, 0, 0] @ replicate 8 7 @ map (\<lambda>b. b XOR 0xFF) [1, 2, 3, 4]\<rparr> = [1, 1, 2]"
proof -
  let ?a = "\<lparr>ip = [0x20, 0x01, 0, 0] @ replicate 8 7 @ map (\<lambda>b. b XOR 0xFF) [1, 2, 3, 4]\<rparr> :: CNetAddr"
  have "IsRoutable ?a" by code_simp
  moreover have "?a \<in> carriers [1, 2, 3, 4] (replicate 10 0) (replicate 8 7)" by (simp add: carriers_def)
  ultimately show ?thesis using embedded_ipv4_groups [of ?a "[1, 2, 3, 4]"] by (simp add: net_code_def)
qed

theorem hidden_service_names_witness:
  "\<exists>c. SetSpecial (ToStringIP (\<lambda>i. []) \<lparr>ip = pchGarliCat @ [1, 2, 3, 4, 5, 6, 7, 8, 9, 10]\<rparr>) \<lparr>ip = CNetAddr_Init\<rparr> =
     (True, c) \<and> IsTor c \<and> drop 6 (ip c) = [1, 2, 3, 4, 5, 6, 7, 8, 9, 10]"
proof -
  let ?a = "\<lparr>ip = pchGarliCat @ [1, 2, 3, 4, 5, 6, 7, 8, 9, 10]\<rparr> :: CNetAddr"
  have "netaddr_ok ?a" "IsI2P ?a" by (simp_all add: netaddr_ok_def IsI2P_def pchGarliCat_def)
  then show ?thesis using hidden_service_names [of ?a "\<lambda>i. []" "\<lparr>ip = CNetAddr_Init\<rparr>"] by (auto simp: pchGarliCat_def)
qed

end
