(* ===== verification/AddrMan.thy ===== *)
theory AddrMan
  imports NetAddr Orphans
begin

text \<open>
  The address manager (\<^verbatim>\<open>addrman.h\<close>, \<^verbatim>\<open>addrman.cpp\<close>): the addresses
  of peers the node knows of, in buckets of addresses it has tried and of new ones, with a random order over all of
  them. An operation takes the random draws to come and ends with a result and the draws that are left, without
  draws, or in a failed assertion. A set of identifiers is a sorted list. Times are integers, and so are the
  counters \<open>nIdCount\<close> and \<open>nAttempts\<close>, which the code has as
  \<^verbatim>\<open>int\<close>: a run of fewer than \<open>2 ^ 31\<close> new addresses and attempts does not tell
  them apart. Reading the tables from \<^verbatim>\<open>addr.dat\<close> is left out. The floating point numbers of
  the chance of an address are real numbers.
\<close>

section \<open>Entries\<close>

record CAddrInfo = CAddress +
  addr_source :: CNetAddr
  nLastSuccess :: int
  nAttempts :: int
  nRefCount :: int
  fInTried :: bool
  nRandomPos :: int

definition new_CAddrInfo :: "CAddress \<Rightarrow> CNetAddr \<Rightarrow> CAddrInfo" where
  "new_CAddrInfo addrIn addrSource =
     \<lparr>ip = ip addrIn, port = port addrIn, nServices = nServices addrIn, aTime = aTime addrIn, nLastTry = 0,
      addr_source = addrSource, nLastSuccess = 0, nAttempts = 0, nRefCount = 0, fInTried = False, nRandomPos = - 1\<rparr>"

definition ADDRMAN_TRIED_BUCKET_COUNT :: nat where "ADDRMAN_TRIED_BUCKET_COUNT = 64"
definition ADDRMAN_TRIED_BUCKET_SIZE :: nat where "ADDRMAN_TRIED_BUCKET_SIZE = 64"
definition ADDRMAN_NEW_BUCKET_COUNT :: nat where "ADDRMAN_NEW_BUCKET_COUNT = 256"
definition ADDRMAN_NEW_BUCKET_SIZE :: nat where "ADDRMAN_NEW_BUCKET_SIZE = 64"
definition ADDRMAN_TRIED_BUCKETS_PER_GROUP :: nat where "ADDRMAN_TRIED_BUCKETS_PER_GROUP = 4"
definition ADDRMAN_NEW_BUCKETS_PER_SOURCE_GROUP :: nat where "ADDRMAN_NEW_BUCKETS_PER_SOURCE_GROUP = 32"
definition ADDRMAN_NEW_BUCKETS_PER_ADDRESS :: int where "ADDRMAN_NEW_BUCKETS_PER_ADDRESS = 4"
definition ADDRMAN_TRIED_ENTRIES_INSPECT_ON_EVICT :: nat where "ADDRMAN_TRIED_ENTRIES_INSPECT_ON_EVICT = 4"
definition ADDRMAN_HORIZON_DAYS :: int where "ADDRMAN_HORIZON_DAYS = 30"
definition ADDRMAN_RETRIES :: int where "ADDRMAN_RETRIES = 3"
definition ADDRMAN_MAX_FAILURES :: int where "ADDRMAN_MAX_FAILURES = 10"
definition ADDRMAN_MIN_FAIL_DAYS :: int where "ADDRMAN_MIN_FAIL_DAYS = 7"
definition ADDRMAN_GETADDR_MAX_PCT :: nat where "ADDRMAN_GETADDR_MAX_PCT = 23"
definition ADDRMAN_GETADDR_MAX :: nat where "ADDRMAN_GETADDR_MAX = 2500"

text \<open>The buckets are chosen by hashes, which only count modulo a number; \<^verbatim>\<open>GetLow64\<close> is the low word.\<close>

definition low64 :: "uint256 \<Rightarrow> u64" where
  "low64 h = ucast h"

definition GetTriedBucket :: "ext \<Rightarrow> bytes \<Rightarrow> CAddrInfo \<Rightarrow> nat" where
  "GetTriedBucket E nKey info =
     (let hash1 = low64 (Hash E (ser_vch nKey @ ser_vch (CService_GetKey info)));
          hash2 = low64 (Hash E (ser_vch nKey @ ser_vch (GetGroup info) @
            ser_word (hash1 mod word_of_nat ADDRMAN_TRIED_BUCKETS_PER_GROUP)))
      in unat (hash2 mod word_of_nat ADDRMAN_TRIED_BUCKET_COUNT))"

definition GetNewBucket :: "ext \<Rightarrow> bytes \<Rightarrow> CAddrInfo \<Rightarrow> CNetAddr \<Rightarrow> nat" where
  "GetNewBucket E nKey info src =
     (let hash1 = low64 (Hash E (ser_vch nKey @ ser_vch (GetGroup info) @ ser_vch (GetGroup src)));
          hash2 = low64 (Hash E (ser_vch nKey @ ser_vch (GetGroup src) @
            ser_word (hash1 mod word_of_nat ADDRMAN_NEW_BUCKETS_PER_SOURCE_GROUP)))
      in unat (hash2 mod word_of_nat ADDRMAN_NEW_BUCKET_COUNT))"

definition IsTerrible :: "int \<Rightarrow> CAddrInfo \<Rightarrow> bool" where
  "IsTerrible nNow info =
     (let t = int (unat (aTime info)) in
      if nLastTry info \<noteq> 0 \<and> nLastTry info \<ge> nNow - 60 then False
      else if t > nNow + 10 * 60 then True
      else if t = 0 \<or> nNow - t > ADDRMAN_HORIZON_DAYS * 86400 then True
      else if nLastSuccess info = 0 \<and> nAttempts info \<ge> ADDRMAN_RETRIES then True
      else if nNow - nLastSuccess info > ADDRMAN_MIN_FAIL_DAYS * 86400 \<and> nAttempts info \<ge> ADDRMAN_MAX_FAILURES then True
      else False)"

definition GetChance :: "int \<Rightarrow> CAddrInfo \<Rightarrow> real" where
  "GetChance nNow info =
     (let nSinceLastSeen = max 0 (nNow - int (unat (aTime info)));
          nSinceLastTry = max 0 (nNow - nLastTry info);
          fChance = 600 / (600 + real_of_int nSinceLastSeen);
          fChance = (if nSinceLastTry < 60 * 10 then fChance * (1 / 100) else fChance)
      in fChance / (3 / 2) ^ nat (nAttempts info))"

section \<open>The state and the results\<close>

record CAddrMan =
  amKey :: bytes
  nIdCount :: int
  mapInfo :: "int \<rightharpoonup> CAddrInfo"
  mapAddr :: "bytes \<rightharpoonup> int"
  vRandom :: "int list"
  nTried :: int
  vvTried :: "int list list"
  nNew :: int
  vvNew :: "int list list"

definition new_CAddrMan :: "bytes \<Rightarrow> CAddrMan" where
  "new_CAddrMan key =
     \<lparr>amKey = key, nIdCount = 0, mapInfo = Map.empty, mapAddr = Map.empty, vRandom = [], nTried = 0,
      vvTried = replicate ADDRMAN_TRIED_BUCKET_COUNT [], nNew = 0, vvNew = replicate ADDRMAN_NEW_BUCKET_COUNT []\<rparr>"

datatype 'a drawn = Drawn 'a "u64 list" | OutOfDraws | AssertFails

primrec and_then :: "'a drawn \<Rightarrow> ('a \<Rightarrow> u64 list \<Rightarrow> 'b drawn) \<Rightarrow> 'b drawn" where
  "and_then (Drawn a ds) f = f a ds"
| "and_then OutOfDraws f = OutOfDraws"
| "and_then AssertFails f = AssertFails"

definition GetRandInt :: "nat \<Rightarrow> u64 list \<Rightarrow> nat drawn" where
  "GetRandInt nMax ds = (case GetRand nMax ds of None \<Rightarrow> OutOfDraws | Some (i, ds) \<Rightarrow> Drawn i ds)"

text \<open>A change of an entry through a reference.\<close>

definition upd_info :: "int \<Rightarrow> (CAddrInfo \<Rightarrow> CAddrInfo) \<Rightarrow> CAddrMan \<Rightarrow> CAddrMan" where
  "upd_info n f A = A\<lparr>mapInfo := (mapInfo A)(n := map_option f (mapInfo A n))\<rparr>"

text \<open>\<^verbatim>\<open>std::set\<close> of identifiers.\<close>

definition set_insert :: "int \<Rightarrow> int list \<Rightarrow> int list" where
  "set_insert n v = (if n \<in> set v then v else insort n v)"

definition set_erase :: "int \<Rightarrow> int list \<Rightarrow> int list" where
  "set_erase n v = filter (\<lambda>m. m \<noteq> n) v"

section \<open>Operations\<close>

definition Find :: "CAddrMan \<Rightarrow> bytes \<Rightarrow> (int \<times> CAddrInfo) option" where
  "Find A addr =
     (case mapAddr A addr of None \<Rightarrow> None
      | Some nId \<Rightarrow> (case mapInfo A nId of None \<Rightarrow> None | Some info \<Rightarrow> Some (nId, info)))"

definition Create :: "CAddress \<Rightarrow> CNetAddr \<Rightarrow> CAddrMan \<Rightarrow> int \<times> CAddrMan" where
  "Create addr src A =
     (let nId = nIdCount A;
          info = (new_CAddrInfo addr src)\<lparr>nRandomPos := int (length (vRandom A))\<rparr>
      in (nId, A\<lparr>nIdCount := nId + 1, mapInfo := (mapInfo A)(nId \<mapsto> info), mapAddr := (mapAddr A)(ip addr \<mapsto> nId),
                 vRandom := vRandom A @ [nId]\<rparr>))"

text \<open>The positions are unsigned in the code, so a negative one is out of range.\<close>

definition SwapRandom :: "int \<Rightarrow> int \<Rightarrow> u64 list \<Rightarrow> CAddrMan \<Rightarrow> CAddrMan drawn" where
  "SwapRandom nRndPos1 nRndPos2 ds A =
     (if nRndPos1 = nRndPos2 then Drawn A ds
      else if \<not> (0 \<le> nRndPos1 \<and> nRndPos1 < int (length (vRandom A)) \<and> 0 \<le> nRndPos2 \<and> nRndPos2 < int (length (vRandom A)))
      then AssertFails
      else
        let nId1 = vRandom A ! nat nRndPos1; nId2 = vRandom A ! nat nRndPos2 in
        if mapInfo A nId1 = None \<or> mapInfo A nId2 = None then AssertFails
        else
          let A = upd_info nId1 (\<lambda>i. i\<lparr>nRandomPos := nRndPos2\<rparr>) A;
              A = upd_info nId2 (\<lambda>i. i\<lparr>nRandomPos := nRndPos1\<rparr>) A
          in Drawn (A\<lparr>vRandom := (vRandom A)[nat nRndPos1 := nId2, nat nRndPos2 := nId1]\<rparr>) ds)"

text \<open>One less reference to an entry; the last one deletes it.\<close>

definition release :: "int \<Rightarrow> u64 list \<Rightarrow> CAddrMan \<Rightarrow> CAddrMan drawn" where
  "release n ds A =
     (let A = upd_info n (\<lambda>i. i\<lparr>nRefCount := nRefCount i - 1\<rparr>) A in
      case mapInfo A n of None \<Rightarrow> AssertFails
      | Some info \<Rightarrow>
          if nRefCount info = 0 then
            and_then (SwapRandom (nRandomPos info) (int (length (vRandom A)) - 1) ds A) (\<lambda>A ds.
              Drawn (A\<lparr>vRandom := butlast (vRandom A), mapAddr := (mapAddr A)(ip info := None),
                       mapInfo := (mapInfo A)(n := None), nNew := nNew A - 1\<rparr>) ds)
          else Drawn A ds)"

fun find_terrible :: "int \<Rightarrow> CAddrMan \<Rightarrow> int list \<Rightarrow> u64 list \<Rightarrow> int option drawn" where
  "find_terrible nNow A [] ds = Drawn None ds"
| "find_terrible nNow A (n # v) ds =
     (case mapInfo A n of None \<Rightarrow> AssertFails
      | Some info \<Rightarrow> if IsTerrible nNow info then Drawn (Some n) ds else find_terrible nNow A v ds)"

text \<open>The oldest of the entries at the drawn positions; an entry that is missing would be created with the time of
  a new one.\<close>

definition time_of :: "CAddrMan \<Rightarrow> int \<Rightarrow> u32" where
  "time_of A n = (case mapInfo A n of None \<Rightarrow> 100000000 | Some info \<Rightarrow> aTime info)"

fun find_oldest :: "nat list \<Rightarrow> CAddrMan \<Rightarrow> nat \<Rightarrow> int \<Rightarrow> int list \<Rightarrow> u64 list \<Rightarrow> int drawn" where
  "find_oldest picks A nI nOldest [] ds = Drawn nOldest ds"
| "find_oldest picks A nI nOldest (n # v) ds =
     (if nI \<in> set picks then
        if \<not> (nOldest = - 1 \<or> mapInfo A n \<noteq> None) then AssertFails
        else find_oldest picks A (nI + 1) (if nOldest = - 1 \<or> time_of A n < time_of A nOldest then n else nOldest) v ds
      else find_oldest picks A (nI + 1) nOldest v ds)"

definition ShrinkNew :: "int \<Rightarrow> nat \<Rightarrow> u64 list \<Rightarrow> CAddrMan \<Rightarrow> CAddrMan drawn" where
  "ShrinkNew nNow nUBucket ds A =
     (if \<not> nUBucket < length (vvNew A) then AssertFails
      else
        let vNew = vvNew A ! nUBucket;
            erase = (\<lambda>n A ds. Drawn (A\<lparr>vvNew := (vvNew A)[nUBucket := set_erase n (vvNew A ! nUBucket)]\<rparr>) ds)
        in and_then (find_terrible nNow A vNew ds) (\<lambda>found ds.
             case found of
               Some n \<Rightarrow> and_then (release n ds A) (erase n)
             | None \<Rightarrow>
                 and_then (GetRandInt (length vNew) ds) (\<lambda>n0 ds.
                 and_then (GetRandInt (length vNew) ds) (\<lambda>n1 ds.
                 and_then (GetRandInt (length vNew) ds) (\<lambda>n2 ds.
                 and_then (GetRandInt (length vNew) ds) (\<lambda>n3 ds.
                 and_then (find_oldest [n0, n1, n2, n3] A 0 (- 1) vNew ds) (\<lambda>nOldest ds.
                   if mapInfo A nOldest = None then AssertFails
                   else and_then (release nOldest ds A) (erase nOldest))))))))"

text \<open>The bucket with its first few entries shuffled, and the position to replace.\<close>

fun select_tried_loop :: "CAddrMan \<Rightarrow> nat list \<Rightarrow> int \<Rightarrow> int \<Rightarrow> int list \<Rightarrow> u64 list \<Rightarrow> (int \<times> int list) drawn" where
  "select_tried_loop A [] nOldest nOldestPos vTried ds = Drawn (nOldestPos, vTried) ds"
| "select_tried_loop A (i # is) nOldest nOldestPos vTried ds =
     and_then (GetRandInt (length vTried - i) ds) (\<lambda>r ds.
       let nPos = r + i;
           nTemp = vTried ! nPos;
           vTried = vTried[nPos := vTried ! i, i := nTemp]
       in if \<not> (nOldest = - 1 \<or> mapInfo A nTemp \<noteq> None) then AssertFails
          else if nOldest = - 1 \<or>
              (case mapInfo A nTemp of None \<Rightarrow> 0 | Some x \<Rightarrow> nLastSuccess x) <
              (case mapInfo A nOldest of None \<Rightarrow> 0 | Some x \<Rightarrow> nLastSuccess x)
          then select_tried_loop A is nTemp (int nPos) vTried ds
          else select_tried_loop A is nOldest nOldestPos vTried ds)"

definition SelectTried :: "nat \<Rightarrow> u64 list \<Rightarrow> CAddrMan \<Rightarrow> (int \<times> CAddrMan) drawn" where
  "SelectTried nKBucket ds A =
     (let vTried = vvTried A ! nKBucket in
      and_then (select_tried_loop A [0..<min ADDRMAN_TRIED_ENTRIES_INSPECT_ON_EVICT (length vTried)] (- 1) (- 1) vTried ds)
        (\<lambda>(nPos, vTried) ds. Drawn (nPos, A\<lparr>vvTried := (vvTried A)[nKBucket := vTried]\<rparr>) ds))"

text \<open>The entry leaves all new buckets.\<close>

definition uproot :: "int \<Rightarrow> CAddrMan \<Rightarrow> CAddrMan" where
  "uproot n A =
     (let c = int (length (filter (\<lambda>v. n \<in> set v) (vvNew A)));
          A = upd_info n (\<lambda>i. i\<lparr>nRefCount := nRefCount i - c\<rparr>) (A\<lparr>vvNew := map (set_erase n) (vvNew A)\<rparr>)
      in A\<lparr>nNew := nNew A - 1\<rparr>)"

text \<open>The entry at a position of a bucket goes back to a new bucket, and \<open>n\<close> takes its place.\<close>

definition evict :: "int \<Rightarrow> nat \<Rightarrow> nat \<Rightarrow> nat \<Rightarrow> CAddrMan \<Rightarrow> CAddrMan" where
  "evict n k p b A =
     (let nOld = vvTried A ! k ! p;
          A = upd_info nOld (\<lambda>i. i\<lparr>fInTried := False, nRefCount := 1\<rparr>) A;
          A = A\<lparr>vvNew := (vvNew A)[b := set_insert nOld (vvNew A ! b)], nNew := nNew A + 1\<rparr>;
          A = A\<lparr>vvTried := (vvTried A)[k := (vvTried A ! k)[p := n]]\<rparr>
      in upd_info n (\<lambda>i. i\<lparr>fInTried := True\<rparr>) A)"

definition MakeTried :: "ext \<Rightarrow> int \<Rightarrow> nat \<Rightarrow> u64 list \<Rightarrow> CAddrMan \<Rightarrow> CAddrMan drawn" where
  "MakeTried E nId nOrigin ds A =
     (if nId \<notin> set (vvNew A ! nOrigin) then AssertFails
      else
        let A = uproot nId A
        in case mapInfo A nId of None \<Rightarrow> AssertFails
           | Some info \<Rightarrow>
               if nRefCount info \<noteq> 0 then AssertFails
               else
                 let nKBucket = GetTriedBucket E (amKey A) info in
                 if length (vvTried A ! nKBucket) < ADDRMAN_TRIED_BUCKET_SIZE
                 then Drawn (upd_info nId (\<lambda>i. i\<lparr>fInTried := True\<rparr>)
                        (A\<lparr>vvTried := (vvTried A)[nKBucket := vvTried A ! nKBucket @ [nId]], nTried := nTried A + 1\<rparr>)) ds
                 else
                   and_then (SelectTried nKBucket ds A) (\<lambda>(nPos, A) ds.
                     case mapInfo A (vvTried A ! nKBucket ! nat nPos) of None \<Rightarrow> AssertFails
                     | Some infoOld \<Rightarrow>
                         let nUBucket = GetNewBucket E (amKey A) infoOld (addr_source infoOld);
                             b = (if length (vvNew A ! nUBucket) < ADDRMAN_NEW_BUCKET_SIZE then nUBucket else nOrigin)
                         in Drawn (evict nId nKBucket (nat nPos) b A) ds))"

text \<open>An entry joins a bucket; a full bucket is shrunk first.\<close>

definition join_bucket :: "int \<Rightarrow> int \<Rightarrow> nat \<Rightarrow> u64 list \<Rightarrow> CAddrMan \<Rightarrow> CAddrMan drawn" where
  "join_bucket nNow nId nUBucket ds A =
     (let A = upd_info nId (\<lambda>i. i\<lparr>nRefCount := nRefCount i + 1\<rparr>) A in
      and_then (if length (vvNew A ! nUBucket) = ADDRMAN_NEW_BUCKET_SIZE then ShrinkNew nNow nUBucket ds A else Drawn A ds)
        (\<lambda>A ds. Drawn (A\<lparr>vvNew := (vvNew A)[nUBucket := set_insert nId (vvNew A ! nUBucket)]\<rparr>) ds))"

definition AddrMan_Good :: "ext \<Rightarrow> int \<Rightarrow> CService \<Rightarrow> int \<Rightarrow> u64 list \<Rightarrow> CAddrMan \<Rightarrow> CAddrMan drawn" where
  "AddrMan_Good E nNow addr atTime ds A =
     (case Find A (ip addr) of None \<Rightarrow> Drawn A ds
      | Some (nId, info) \<Rightarrow>
          if \<not> CService_eq info addr then Drawn A ds
          else
            let A = upd_info nId (\<lambda>i. i\<lparr>nLastSuccess := atTime, nLastTry := atTime, aTime := word_of_int atTime, nAttempts := 0\<rparr>) A in
            if fInTried info then Drawn A ds
            else
              and_then (GetRandInt (length (vvNew A)) ds) (\<lambda>nRnd ds.
                case find (\<lambda>nB. nId \<in> set (vvNew A ! nB)) (map (\<lambda>n. (n + nRnd) mod length (vvNew A)) [0..<length (vvNew A)]) of
                  Some nUBucket \<Rightarrow> MakeTried E nId nUBucket ds A
                | None \<Rightarrow>
                    let nUBucket = GetNewBucket E (amKey A) info (addr_source info) in
                    if nId \<in> set (vvNew A ! nUBucket) \<or> nRefCount info \<ge> ADDRMAN_NEW_BUCKETS_PER_ADDRESS then Drawn A ds
                    else and_then (join_bucket nNow nId nUBucket ds A) (\<lambda>A ds. MakeTried E nId nUBucket ds A)))"

text \<open>Whether an entry that is known is to join one more bucket, with the entry updated.\<close>

definition refresh :: "int \<Rightarrow> CAddress \<Rightarrow> int \<Rightarrow> int \<Rightarrow> CAddrInfo \<Rightarrow> u64 list \<Rightarrow> CAddrMan \<Rightarrow> (bool \<times> CAddrMan) drawn" where
  "refresh nNow addr nTimePenalty nId info ds A =
     (let t = int (unat (aTime addr));
          fCurrentlyOnline = (nNow - t < 24 * 60 * 60);
          nUpdateInterval = (if fCurrentlyOnline then 60 * 60 else 24 * 60 * 60);
          atTime = (if t \<noteq> 0 \<and> (aTime info = 0 \<or> int (unat (aTime info)) < t - nUpdateInterval - nTimePenalty)
                   then word_of_int (max 0 (t - nTimePenalty)) else aTime info);
          A = upd_info nId (\<lambda>i. i\<lparr>aTime := atTime, nServices := nServices i OR nServices addr\<rparr>) A
      in if aTime addr = 0 \<or> atTime \<noteq> 0 \<and> aTime addr \<le> atTime then Drawn (False, A) ds
         else if fInTried info then Drawn (False, A) ds
         else if nRefCount info = ADDRMAN_NEW_BUCKETS_PER_ADDRESS then Drawn (False, A) ds
         else
           let nFactor = 2 ^ nat (nRefCount info) in
           if nFactor > 1 then and_then (GetRandInt nFactor ds) (\<lambda>r ds. Drawn (r = 0, A) ds)
           else Drawn (True, A) ds)"

definition AddrMan_Add :: "ext \<Rightarrow> int \<Rightarrow> CAddress \<Rightarrow> CNetAddr \<Rightarrow> int \<Rightarrow> u64 list \<Rightarrow> CAddrMan \<Rightarrow> (bool \<times> CAddrMan) drawn" where
  "AddrMan_Add E nNow addr src nTimePenalty ds A =
     (if \<not> IsRoutable addr then Drawn (False, A) ds
      else
        and_then
          (case Find A (ip addr) of
             Some (nId, info) \<Rightarrow>
               and_then (refresh nNow addr nTimePenalty nId info ds A) (\<lambda>(goes_on, A) ds. Drawn (goes_on, False, nId, A) ds)
           | None \<Rightarrow>
               let (nId, A) = Create addr src A;
                   A = upd_info nId (\<lambda>i. i\<lparr>aTime := word_of_int (max 0 (int (unat (aTime i)) - nTimePenalty))\<rparr>) A
               in Drawn (True, True, nId, A\<lparr>nNew := nNew A + 1\<rparr>) ds)
          (\<lambda>(goes_on, fNew, nId, A) ds.
             if \<not> goes_on then Drawn (False, A) ds
             else
               case mapInfo A nId of None \<Rightarrow> AssertFails
               | Some info \<Rightarrow>
                   let nUBucket = GetNewBucket E (amKey A) info src in
                   if nId \<in> set (vvNew A ! nUBucket) then Drawn (fNew, A) ds
                   else and_then (join_bucket nNow nId nUBucket ds A) (\<lambda>A ds. Drawn (fNew, A) ds)))"

definition AddrMan_Attempt :: "CService \<Rightarrow> int \<Rightarrow> CAddrMan \<Rightarrow> CAddrMan" where
  "AddrMan_Attempt addr atTime A =
     (case Find A (ip addr) of None \<Rightarrow> A
      | Some (nId, info) \<Rightarrow>
          if \<not> CService_eq info addr then A
          else upd_info nId (\<lambda>i. i\<lparr>nLastTry := atTime, nAttempts := nAttempts i + 1\<rparr>) A)"

definition AddrMan_Connected :: "CService \<Rightarrow> int \<Rightarrow> CAddrMan \<Rightarrow> CAddrMan" where
  "AddrMan_Connected addr atTime A =
     (case Find A (ip addr) of None \<Rightarrow> A
      | Some (nId, info) \<Rightarrow>
          if \<not> CService_eq info addr then A
          else if atTime - int (unat (aTime info)) > 20 * 60 then upd_info nId (\<lambda>i. i\<lparr>aTime := word_of_int atTime\<rparr>) A
          else A)"

fun get_addr_loop :: "nat list \<Rightarrow> u64 list \<Rightarrow> CAddrMan \<Rightarrow> (CAddrInfo list \<times> CAddrMan) drawn" where
  "get_addr_loop [] ds A = Drawn ([], A) ds"
| "get_addr_loop (n # ns) ds A =
     and_then (GetRandInt (length (vRandom A) - n) ds) (\<lambda>r ds.
     and_then (SwapRandom (int n) (int (r + n)) ds A) (\<lambda>A ds.
       case mapInfo A (vRandom A ! n) of None \<Rightarrow> AssertFails
       | Some info \<Rightarrow> and_then (get_addr_loop ns ds A) (\<lambda>(vAddr, A) ds. Drawn (info # vAddr, A) ds)))"

definition AddrMan_GetAddr :: "u64 list \<Rightarrow> CAddrMan \<Rightarrow> (CAddrInfo list \<times> CAddrMan) drawn" where
  "AddrMan_GetAddr ds A =
     (let nNodes = ADDRMAN_GETADDR_MAX_PCT * length (vRandom A) div 100;
          nNodes = (if nNodes > ADDRMAN_GETADDR_MAX then ADDRMAN_GETADDR_MAX else nNodes)
      in get_addr_loop [0..<nNodes] ds A)"

lemma and_then_cong [fundef_cong]:
  "m = m' \<Longrightarrow> (\<And>a ds. m' = Drawn a ds \<Longrightarrow> f a ds = g a ds) \<Longrightarrow> and_then m f = and_then m' g"
  by (cases m') simp_all

lemma GetRand_shorter: "GetRand n ds = Some (i, ds') \<Longrightarrow> 0 < n \<Longrightarrow> length ds' < length ds"
proof -
  have "GetRand_loop n range ds = Some (i, ds') \<Longrightarrow> length ds' < length ds" for range
    by (induction n range ds rule: GetRand_loop.induct) (auto split: if_splits)
  then show "GetRand n ds = Some (i, ds') \<Longrightarrow> 0 < n \<Longrightarrow> length ds' < length ds" by (auto simp: GetRand_def)
qed

lemma GetRandInt_shorter: "GetRandInt n ds = Drawn i ds' \<Longrightarrow> 0 < n \<Longrightarrow> length ds' < length ds"
  using GetRand_shorter by (auto simp: GetRandInt_def split: option.splits)

lemma GetRandInt_less: "GetRandInt n ds = Drawn i ds' \<Longrightarrow> 0 < n \<Longrightarrow> i < n"
  using GetRand_less by (auto simp: GetRandInt_def split: option.splits)

lemma GetRandInt_no_assert [simp]: "GetRandInt n ds \<noteq> AssertFails"
  by (auto simp: GetRandInt_def split: option.splits)

text \<open>The choice of an address: a random bucket, a random entry of it, taken with its chance, which grows with
  every entry that was passed over. The tables of buckets are never empty; reading an empty one would be undefined.\<close>

function select_node :: "int \<Rightarrow> CAddrMan \<Rightarrow> int list list \<Rightarrow> real \<Rightarrow> u64 list \<Rightarrow> CAddrInfo drawn" where
  "select_node nNow A buckets fChanceFactor ds =
     (if buckets = [] then AssertFails
      else
        and_then (GetRandInt (length buckets) ds) (\<lambda>b ds1.
          if buckets ! b = [] then select_node nNow A buckets fChanceFactor ds1
          else
            and_then (GetRandInt (length (buckets ! b)) ds1) (\<lambda>nPos ds2.
              case mapInfo A (buckets ! b ! nPos) of None \<Rightarrow> AssertFails
              | Some info \<Rightarrow>
                  and_then (GetRandInt (2 ^ 30) ds2) (\<lambda>r ds3.
                    if real r < fChanceFactor * GetChance nNow info * 2 ^ 30 then Drawn info ds3
                    else select_node nNow A buckets (fChanceFactor * (6 / 5)) ds3))))"
  by pat_completeness auto

termination
proof (relation "measure (\<lambda>(nNow, A, buckets, fChanceFactor, ds). length ds)", goal_cases)
  case (2 nNow A buckets f ds b ds1)
  then show ?case using GetRandInt_shorter [of "length buckets" ds b ds1] by simp
next
  case (3 nNow A buckets f ds b ds1 nPos ds2 info r ds3)
  then show ?case
    using GetRandInt_shorter [of "length buckets" ds b ds1] GetRandInt_shorter [of "length (buckets ! b)" ds1 nPos ds2]
      GetRandInt_shorter [of "2 ^ 30" ds2 r ds3] by simp
qed simp

declare select_node.simps [simp del]

definition AddrMan_Select :: "int \<Rightarrow> int \<Rightarrow> u64 list \<Rightarrow> CAddrMan \<Rightarrow> CAddress drawn" where
  "AddrMan_Select nNow nUnkBias ds A =
     (if length (vRandom A) = 0
      then Drawn \<lparr>ip = CNetAddr_Init, port = 0, nServices = NODE_NETWORK, aTime = 100000000, nLastTry = 0\<rparr> ds
      else
        let nCorTried = sqrt (real_of_int (nTried A)) * (100 - real_of_int nUnkBias);
            nCorNew = sqrt (real_of_int (nNew A)) * real_of_int nUnkBias
        in and_then (GetRandInt (2 ^ 30) ds) (\<lambda>r ds.
             and_then (select_node nNow A (if (nCorTried + nCorNew) * real r / 2 ^ 30 < nCorTried then vvTried A else vvNew A) 1 ds)
               (\<lambda>info ds. Drawn (CAddress.truncate info) ds)))"

section \<open>The consistency check\<close>

text \<open>The check of the debug build, with its codes. \<^verbatim>\<open>mapAddr[info]\<close> is zero where there is no entry. The entries
  of the map are visited in the order of their identifiers.\<close>

fun check_entries :: "CAddrMan \<Rightarrow> int list \<Rightarrow> int set \<Rightarrow> (int \<rightharpoonup> int) \<Rightarrow> int + int set \<times> (int \<rightharpoonup> int)" where
  "check_entries A [] setTried mapNew = Inr (setTried, mapNew)"
| "check_entries A (n # ns) setTried mapNew =
     (case mapInfo A n of None \<Rightarrow> check_entries A ns setTried mapNew
      | Some info \<Rightarrow>
          if fInTried info \<and> nLastSuccess info = 0 then Inl (- 1)
          else if fInTried info \<and> nRefCount info \<noteq> 0 then Inl (- 2)
          else if \<not> fInTried info \<and> (nRefCount info < 0 \<or> nRefCount info > ADDRMAN_NEW_BUCKETS_PER_ADDRESS) then Inl (- 3)
          else if \<not> fInTried info \<and> nRefCount info = 0 then Inl (- 4)
          else if (case mapAddr A (ip info) of None \<Rightarrow> 0 | Some m \<Rightarrow> m) \<noteq> n then Inl (- 5)
          else if nRandomPos info < 0 \<or> nRandomPos info \<ge> int (length (vRandom A)) \<or> vRandom A ! nat (nRandomPos info) \<noteq> n
          then Inl (- 14)
          else if nLastTry info < 0 then Inl (- 6)
          else if nLastSuccess info < 0 then Inl (- 8)
          else if fInTried info then check_entries A ns (insert n setTried) mapNew
          else check_entries A ns setTried (mapNew(n \<mapsto> nRefCount info)))"

fun check_tried :: "int list \<Rightarrow> int set \<Rightarrow> int + int set" where
  "check_tried [] setTried = Inr setTried"
| "check_tried (n # ns) setTried = (if n \<notin> setTried then Inl (- 11) else check_tried ns (setTried - {n}))"

fun check_new :: "int list \<Rightarrow> (int \<rightharpoonup> int) \<Rightarrow> int + (int \<rightharpoonup> int)" where
  "check_new [] mapNew = Inr mapNew"
| "check_new (n # ns) mapNew =
     (case mapNew n of None \<Rightarrow> Inl (- 12)
      | Some c \<Rightarrow> if c - 1 = 0 then check_new ns (mapNew(n := None)) else check_new ns (mapNew(n \<mapsto> c - 1)))"

definition AddrMan_Check :: "CAddrMan \<Rightarrow> int" where
  "AddrMan_Check A =
     (if int (length (vRandom A)) \<noteq> nTried A + nNew A then - 7
      else
        case check_entries A (sorted_list_of_set (dom (mapInfo A))) {} Map.empty of
          Inl e \<Rightarrow> e
        | Inr (setTried, mapNew) \<Rightarrow>
            if int (card setTried) \<noteq> nTried A then - 9
            else if int (card (dom mapNew)) \<noteq> nNew A then - 10
            else
              case check_tried (concat (vvTried A)) setTried of
                Inl e \<Rightarrow> e
              | Inr setTried \<Rightarrow>
                  (case check_new (concat (vvNew A)) mapNew of
                     Inl e \<Rightarrow> e
                   | Inr mapNew \<Rightarrow> if setTried \<noteq> {} then - 13 else if mapNew \<noteq> Map.empty then - 15 else 0))"

end
