(* ===== verification/AddrSafety.thy ===== *)
theory AddrSafety
  imports AddrMan
begin

text \<open>
  What holds of the address manager in every run: the four tables agree with each other, so that the consistency
  check of the debug build never reports an error, no assertion fails, and the number of addresses stays bounded.
\<close>

section \<open>The invariant\<close>

text \<open>The random order and the positions in it, the index by address, the identifiers.\<close>

definition random_ok :: "int list \<Rightarrow> (int \<rightharpoonup> CAddrInfo) \<Rightarrow> bool" where
  "random_ok R M \<longleftrightarrow> distinct R \<and> set R = dom M \<and> (\<forall>i<length R. \<forall>info. M (R ! i) = Some info \<longrightarrow> nRandomPos info = int i)"

definition by_addr_ok :: "(bytes \<rightharpoonup> int) \<Rightarrow> (int \<rightharpoonup> CAddrInfo) \<Rightarrow> bool" where
  "by_addr_ok D M \<longleftrightarrow> (\<forall>a n. D a = Some n \<longleftrightarrow> (\<exists>info. M n = Some info \<and> ip info = a))"

definition ids_ok :: "int \<Rightarrow> (int \<rightharpoonup> CAddrInfo) \<Rightarrow> bool" where
  "ids_ok c M \<longleftrightarrow> 0 \<le> c \<and> (\<forall>n info. M n = Some info \<longrightarrow> 0 \<le> n \<and> n < c)"

text \<open>The buckets. An entry \<open>x\<close> may count one reference more than there are, while it joins a bucket.\<close>

definition tried_ok :: "int list list \<Rightarrow> (int \<rightharpoonup> CAddrInfo) \<Rightarrow> bool" where
  "tried_ok T M \<longleftrightarrow> length T = 64 \<and> (\<forall>v\<in>set T. length v \<le> 64) \<and> distinct (concat T) \<and>
     (\<forall>n. n \<in> set (concat T) \<longleftrightarrow> (\<exists>info. M n = Some info \<and> fInTried info))"

definition refs :: "int list list \<Rightarrow> int \<Rightarrow> int" where
  "refs V n = int (length (filter (\<lambda>v. n \<in> set v) V))"

definition buckets_ok :: "int list list \<Rightarrow> bool" where
  "buckets_ok V \<longleftrightarrow> length V = 256 \<and> (\<forall>v\<in>set V. sorted v \<and> distinct v \<and> length v \<le> 64)"

definition refs_ok :: "int list list \<Rightarrow> (int \<rightharpoonup> CAddrInfo) \<Rightarrow> int option \<Rightarrow> bool" where
  "refs_ok V M x \<longleftrightarrow> (\<forall>v\<in>set V. \<forall>n\<in>set v. M n \<noteq> None) \<and>
     (\<forall>n info. M n = Some info \<longrightarrow> nRefCount info = refs V n + (if x = Some n then 1 else 0) \<and>
        (if fInTried info then nRefCount info = 0 else 0 < nRefCount info \<and> nRefCount info \<le> 4))"

definition times_ok :: "(int \<rightharpoonup> CAddrInfo) \<Rightarrow> bool" where
  "times_ok M \<longleftrightarrow> (\<forall>n info. M n = Some info \<longrightarrow>
     0 \<le> nLastTry info \<and> 0 \<le> nLastSuccess info \<and> (fInTried info \<longrightarrow> 0 < nLastSuccess info))"

definition addr_inv :: "CAddrMan \<Rightarrow> int option \<Rightarrow> bool" where
  "addr_inv A x \<longleftrightarrow> random_ok (vRandom A) (mapInfo A) \<and> by_addr_ok (mapAddr A) (mapInfo A) \<and>
     ids_ok (nIdCount A) (mapInfo A) \<and> tried_ok (vvTried A) (mapInfo A) \<and> buckets_ok (vvNew A) \<and>
     refs_ok (vvNew A) (mapInfo A) x \<and> times_ok (mapInfo A) \<and>
     nTried A = int (length (concat (vvTried A))) \<and> nTried A + nNew A = int (length (vRandom A))"

section \<open>Changes that keep parts of it\<close>

text \<open>What the parts other than the order read of an entry.\<close>

definition rest_of :: "CAddrInfo \<Rightarrow> bytes \<times> bool \<times> int \<times> int \<times> int" where
  "rest_of i = (ip i, fInTried i, nRefCount i, nLastTry i, nLastSuccess i)"

lemma rest_ofD: "map_option rest_of (M n) = map_option rest_of (M' n) \<Longrightarrow> M n = Some i \<Longrightarrow>
    \<exists>i'. M' n = Some i' \<and> ip i' = ip i \<and> fInTried i' = fInTried i \<and> nRefCount i' = nRefCount i \<and>
      nLastTry i' = nLastTry i \<and> nLastSuccess i' = nLastSuccess i"
  by (cases "M' n") (auto simp: rest_of_def)

lemma rest_same:
  assumes same: "\<And>n. map_option rest_of (M n) = map_option rest_of (M' n)"
  shows "by_addr_ok D M \<Longrightarrow> by_addr_ok D M'" "ids_ok c M \<Longrightarrow> ids_ok c M'" "tried_ok T M \<Longrightarrow> tried_ok T M'"
    "refs_ok V M x \<Longrightarrow> refs_ok V M' x" "times_ok M \<Longrightarrow> times_ok M'"
proof -
  have r: "M' n = Some i \<Longrightarrow> \<exists>i'. M n = Some i' \<and> ip i' = ip i \<and> fInTried i' = fInTried i \<and> nRefCount i' = nRefCount i \<and>
      nLastTry i' = nLastTry i \<and> nLastSuccess i' = nLastSuccess i" for n i
    by (rule rest_ofD [where M = M' and M' = M, OF same [symmetric]])
  have l: "M n = Some i \<Longrightarrow> \<exists>i'. M' n = Some i' \<and> ip i' = ip i \<and> fInTried i' = fInTried i \<and> nRefCount i' = nRefCount i \<and>
      nLastTry i' = nLastTry i \<and> nLastSuccess i' = nLastSuccess i" for n i
    by (rule rest_ofD [where M = M and M' = M', OF same])
  have e: "(\<exists>info. M n = Some info \<and> ip info = a) \<longleftrightarrow> (\<exists>info. M' n = Some info \<and> ip info = a)" for n a
    using l r by metis
  have t: "(\<exists>info. M n = Some info \<and> fInTried info) \<longleftrightarrow> (\<exists>info. M' n = Some info \<and> fInTried info)" for n
    using l r by metis
  show "by_addr_ok D M \<Longrightarrow> by_addr_ok D M'" unfolding by_addr_ok_def e .
  show "tried_ok T M \<Longrightarrow> tried_ok T M'" unfolding tried_ok_def t .
  show "ids_ok c M \<Longrightarrow> ids_ok c M'" unfolding ids_ok_def using r by metis
  show "times_ok M \<Longrightarrow> times_ok M'" unfolding times_ok_def using r by metis
  assume a: "refs_ok V M x"
  have n: "M n \<noteq> None \<Longrightarrow> M' n \<noteq> None" for n using l by auto
  show "refs_ok V M' x" unfolding refs_ok_def
  proof (intro conjI allI impI ballI)
    fix v m assume "v \<in> set V" "m \<in> set v"
    then show "M' m \<noteq> None" using a n unfolding refs_ok_def by blast
  next
    fix m i assume "M' m = Some i"
    with r obtain i' where i': "M m = Some i'" "fInTried i' = fInTried i" "nRefCount i' = nRefCount i" by metis
    with a show "nRefCount i = refs V m + (if x = Some m then 1 else 0)"
      "if fInTried i then nRefCount i = 0 else 0 < nRefCount i \<and> nRefCount i \<le> 4"
      unfolding refs_ok_def by metis+
  qed
qed

text \<open>A change of one entry.\<close>

lemma upd_info_fields [simp]:
  "vRandom (upd_info n f A) = vRandom A" "mapAddr (upd_info n f A) = mapAddr A" "nIdCount (upd_info n f A) = nIdCount A"
  "nTried (upd_info n f A) = nTried A" "nNew (upd_info n f A) = nNew A" "vvTried (upd_info n f A) = vvTried A"
  "vvNew (upd_info n f A) = vvNew A" "amKey (upd_info n f A) = amKey A"
  by (simp_all add: upd_info_def)

lemma upd_info_map: "mapInfo (upd_info n f A) m = (if m = n then map_option f (mapInfo A n) else mapInfo A m)"
  by (simp add: upd_info_def)

lemma random_ok_upd:
  "random_ok R (mapInfo A) \<Longrightarrow> (\<And>i. nRandomPos (f i) = nRandomPos i) \<Longrightarrow> random_ok R (mapInfo (upd_info n f A))"
  by (auto simp: random_ok_def upd_info_def)

lemma addr_inv_upd:
  assumes "addr_inv A x" "\<And>i. nRandomPos (f i) = nRandomPos i" "\<And>i. mapInfo A n = Some i \<Longrightarrow> rest_of (f i) = rest_of i"
  shows "addr_inv (upd_info n f A) x"
proof -
  have r: "map_option rest_of (mapInfo A m) = map_option rest_of (mapInfo (upd_info n f A) m)" for m
    using assms(3) by (cases "mapInfo A n") (simp_all add: upd_info_map)
  note s = rest_same [OF r]
  show ?thesis using assms(1) random_ok_upd [OF _ assms(2)] s unfolding addr_inv_def by simp
qed

section \<open>The random order\<close>

lemma random_pos: "random_ok R M \<Longrightarrow> M n = Some i \<Longrightarrow>
    0 \<le> nRandomPos i \<and> nRandomPos i < int (length R) \<and> R ! nat (nRandomPos i) = n"
proof -
  assume r: "random_ok R M" and m: "M n = Some i"
  then have "n \<in> set R" by (auto simp: random_ok_def)
  then obtain k where "k < length R" "R ! k = n" by (auto simp: in_set_conv_nth)
  with r m have "nRandomPos i = int k" "k < length R" "R ! k = n" by (auto simp: random_ok_def)
  then show ?thesis by simp
qed

lemma swap_random:
  assumes r: "random_ok (vRandom A) (mapInfo A)" and p: "0 \<le> p" "p < int (length (vRandom A))" and q: "0 \<le> q" "q < int (length (vRandom A))"
  obtains A' where "SwapRandom p q ds A = Drawn A' ds" "random_ok (vRandom A') (mapInfo A')"
    "length (vRandom A') = length (vRandom A)" "vRandom A' ! nat q = vRandom A ! nat p"
    "\<And>n. map_option rest_of (mapInfo A' n) = map_option rest_of (mapInfo A n)"
    "A' = A\<lparr>mapInfo := mapInfo A', vRandom := vRandom A'\<rparr>"
proof (cases "p = q")
  case True
  then show ?thesis using r by (intro that [of A]) (simp_all add: SwapRandom_def)
next
  case False
  let ?R = "vRandom A" and ?M = "mapInfo A"
  define a where "a = ?R ! nat p"
  define b where "b = ?R ! nat q"
  have np: "nat p < length ?R" "nat q < length ?R" "nat p \<noteq> nat q" using p q False by simp_all
  have d: "distinct ?R" "set ?R = dom ?M" using r by (simp_all add: random_ok_def)
  then have ab: "a \<noteq> b" unfolding a_def b_def using np by (simp add: nth_eq_iff_index_eq)
  have "a \<in> dom ?M" "b \<in> dom ?M" unfolding a_def b_def d(2) [symmetric] using np by simp_all
  then obtain ia ib where i: "?M a = Some ia" "?M b = Some ib" by auto
  define R' where "R' = ?R[nat p := b, nat q := a]"
  define M' where "M' = ?M(a \<mapsto> ia\<lparr>nRandomPos := q\<rparr>, b \<mapsto> ib\<lparr>nRandomPos := p\<rparr>)"
  let ?A = "A\<lparr>mapInfo := M', vRandom := R'\<rparr>"
  have s: "SwapRandom p q ds A = Drawn ?A ds"
    using False p q i ab unfolding SwapRandom_def Let_def a_def [symmetric] b_def [symmetric] R'_def M'_def
    by (simp add: upd_info_def fun_upd_twist)
  have nth: "R' ! k = (if k = nat p then b else if k = nat q then a else ?R ! k)" if "k < length ?R" for k
    using that np(3) by (auto simp: R'_def nth_list_update)
  have pos: "nRandomPos info = int k" if k: "k < length R'" and m: "M' (R' ! k) = Some info" for k info
  proof -
    have kl: "k < length ?R" using k by (simp add: R'_def)
    consider "k = nat p" | "k = nat q" | "k \<noteq> nat p" "k \<noteq> nat q" by blast
    then show ?thesis
    proof cases
      case 1 then show ?thesis using m nth [OF kl] p ab by (auto simp: M'_def)
    next
      case 2 then show ?thesis using m nth [OF kl] q ab np(3) by (auto simp: M'_def)
    next
      case 3
      then have "?R ! k \<noteq> a" "?R ! k \<noteq> b" unfolding a_def b_def using d(1) kl np by (simp_all add: nth_eq_iff_index_eq)
      then show ?thesis using 3 m nth [OF kl] r kl by (simp add: M'_def random_ok_def)
    qed
  qed
  have "distinct R'" "set R' = set ?R" unfolding R'_def a_def b_def using np d(1) by simp_all
  moreover have "dom M' = dom ?M" using i by (auto simp: M'_def)
  ultimately have "random_ok R' M'" unfolding random_ok_def using d pos by simp
  moreover have "R' ! nat q = a" using nth [OF np(2)] np(3) by simp
  moreover have "map_option rest_of (M' n) = map_option rest_of (?M n)" for n
    using i by (simp add: M'_def rest_of_def)
  ultimately show ?thesis using s by (intro that [of ?A]) (simp_all add: R'_def a_def)
qed

section \<open>References\<close>

definition ind :: "int list \<Rightarrow> int \<Rightarrow> int" where
  "ind v n = (if n \<in> set v then 1 else 0)"

lemma refs_Cons: "refs (v # V) n = ind v n + refs V n"
  by (simp add: refs_def ind_def)

lemma refs_nonneg: "0 \<le> refs V n"
  by (simp add: refs_def)

lemma refs_update: "b < length V \<Longrightarrow> refs (V[b := v]) n = refs V n - ind (V ! b) n + ind v n"
proof (induction V arbitrary: b)
  case (Cons w V)
  then show ?case by (cases b) (simp_all add: refs_Cons)
qed simp

lemma refs_pos: "b < length V \<Longrightarrow> n \<in> set (V ! b) \<Longrightarrow> 0 < refs V n"
  by (auto simp: refs_def filter_empty_conv)

lemma refs_posD: "0 < refs V n \<Longrightarrow> \<exists>b<length V. n \<in> set (V ! b)"
  by (auto simp: refs_def filter_empty_conv in_set_conv_nth) (metis)

lemma refs_0: "refs V n = 0 \<longleftrightarrow> (\<forall>v\<in>set V. n \<notin> set v)"
  by (auto simp: refs_def filter_empty_conv)

lemma ind_erase: "ind (set_erase n v) m = (if m = n then 0 else ind v m)"
  by (simp add: ind_def set_erase_def)

lemma ind_insert: "ind (set_insert n v) m = (if m = n then 1 else ind v m)"
  by (simp add: ind_def set_insert_def set_insort_key)

lemma set_set_erase [simp]: "set (set_erase n v) = set v - {n}"
  by (auto simp: set_erase_def)

lemma set_set_insert [simp]: "set (set_insert n v) = insert n (set v)"
  by (auto simp: set_insert_def set_insort_key)

lemma erase_sorted: "sorted v \<and> distinct v \<Longrightarrow> sorted (set_erase n v) \<and> distinct (set_erase n v)"
  by (simp add: set_erase_def sorted_filter [of "\<lambda>x. x", simplified])

lemma insert_sorted: "sorted v \<and> distinct v \<Longrightarrow> sorted (set_insert n v) \<and> distinct (set_insert n v)"
  by (simp add: set_insert_def sorted_insort distinct_insort)

lemma length_erase: "length (set_erase n v) \<le> length v" "n \<in> set v \<Longrightarrow> length (set_erase n v) < length v"
  unfolding set_erase_def by simp (rule length_filter_less [of n], simp_all)

lemma length_insert: "length (set_insert n v) \<le> length v + 1"
  by (simp add: set_insert_def)

lemma buckets_ok_update:
  "buckets_ok V \<Longrightarrow> sorted v \<and> distinct v \<Longrightarrow> length v \<le> 64 \<Longrightarrow> buckets_ok (V[b := v])"
  using set_update_subset_insert [of V b v] by (auto simp: buckets_ok_def)

lemma buckets_okD: "buckets_ok V \<Longrightarrow> b < 256 \<Longrightarrow> sorted (V ! b) \<and> distinct (V ! b) \<and> length (V ! b) \<le> 64"
  by (simp add: buckets_ok_def)

section \<open>Leaving a bucket\<close>

text \<open>A deleted entry is the last one of the random order.\<close>

lemma random_ok_delete:
  assumes r: "random_ok R M" and l: "R \<noteq> []" "last R = n"
  shows "random_ok (butlast R) (M(n := None))"
proof -
  have d: "distinct R" "set R = dom M" using r by (simp_all add: random_ok_def)
  have "R = butlast R @ [n]" using l append_butlast_last_id [of R] by simp
  then have e: "distinct (butlast R @ [n])" "set (butlast R @ [n]) = dom M" using d by simp_all
  then have "set (butlast R) = dom (M(n := None))" by auto
  moreover have "nRandomPos info = int i"
    if i: "i < length (butlast R)" and m: "(M(n := None)) (butlast R ! i) = Some info" for i info
    using that r by (auto simp: random_ok_def nth_butlast split: if_splits)
  ultimately show ?thesis using e(1) unfolding random_ok_def by simp
qed

lemma refs_ok_delete:
  assumes "refs_ok V M x" "\<forall>v\<in>set V'. \<forall>m\<in>set v. m \<noteq> n \<and> M m \<noteq> None" "\<And>m. m \<noteq> n \<Longrightarrow> refs V' m = refs V m"
  shows "refs_ok V' (M(n := None)) x"
proof -
  have r: "nRefCount info = refs V' m + (if x = Some m then 1 else 0) \<and>
      (if fInTried info then nRefCount info = 0 else 0 < nRefCount info \<and> nRefCount info \<le> 4)"
    if "(M(n := None)) m = Some info" for m info
  proof -
    have m: "m \<noteq> n" "M m = Some info" using that by (simp_all split: if_splits)
    show ?thesis unfolding assms(3) [OF m(1)] using assms(1) m(2) unfolding refs_ok_def by blast
  qed
  have "(M(n := None)) m \<noteq> None" if "v \<in> set V'" "m \<in> set v" for v m using assms(2) that by simp
  with r show ?thesis unfolding refs_ok_def by blast
qed

lemma by_addr_delete:
  assumes "by_addr_ok D M" "M n = Some i"
  shows "by_addr_ok (D(ip i := None)) (M(n := None))"
  using assms unfolding by_addr_ok_def by (auto split: if_splits) (metis option.inject)+

lemma tried_ok_delete: "tried_ok T M \<Longrightarrow> M n = Some i \<Longrightarrow> \<not> fInTried i \<Longrightarrow> tried_ok T (M(n := None))"
  by (auto simp: tried_ok_def)

text \<open>A change that touches the references only.\<close>

lemma other_parts:
  assumes "\<And>i. ip (f i) = ip i \<and> fInTried (f i) = fInTried i \<and> nLastTry (f i) = nLastTry i \<and> nLastSuccess (f i) = nLastSuccess i"
  shows "by_addr_ok D (mapInfo A) \<Longrightarrow> by_addr_ok D (mapInfo (upd_info n f A))"
    "ids_ok c (mapInfo A) \<Longrightarrow> ids_ok c (mapInfo (upd_info n f A))"
    "tried_ok T (mapInfo A) \<Longrightarrow> tried_ok T (mapInfo (upd_info n f A))"
    "times_ok (mapInfo A) \<Longrightarrow> times_ok (mapInfo (upd_info n f A))"
proof -
  have l: "mapInfo A m = Some i \<Longrightarrow> \<exists>i'. mapInfo (upd_info n f A) m = Some i' \<and> ip i' = ip i \<and> fInTried i' = fInTried i" for m i
    using assms by (auto simp: upd_info_map)
  have r: "mapInfo (upd_info n f A) m = Some i \<Longrightarrow> \<exists>i'. mapInfo A m = Some i' \<and> ip i' = ip i \<and> fInTried i' = fInTried i \<and>
      nLastTry i' = nLastTry i \<and> nLastSuccess i' = nLastSuccess i" for m i
    using assms by (auto simp: upd_info_map split: if_splits)
  have a: "(\<exists>i. mapInfo (upd_info n f A) m = Some i \<and> ip i = a) \<longleftrightarrow> (\<exists>i. mapInfo A m = Some i \<and> ip i = a)" for m a
    using l r by metis
  have t: "(\<exists>i. mapInfo (upd_info n f A) m = Some i \<and> fInTried i) \<longleftrightarrow> (\<exists>i. mapInfo A m = Some i \<and> fInTried i)" for m
    using l r by metis
  show "by_addr_ok D (mapInfo A) \<Longrightarrow> by_addr_ok D (mapInfo (upd_info n f A))" unfolding by_addr_ok_def a .
  show "tried_ok T (mapInfo A) \<Longrightarrow> tried_ok T (mapInfo (upd_info n f A))" unfolding tried_ok_def t .
  show "ids_ok c (mapInfo A) \<Longrightarrow> ids_ok c (mapInfo (upd_info n f A))" unfolding ids_ok_def using r by metis
  show "times_ok (mapInfo A) \<Longrightarrow> times_ok (mapInfo (upd_info n f A))" unfolding times_ok_def using r by metis
qed

lemma refs_okD: "refs_ok V M x \<Longrightarrow> M n = Some i \<Longrightarrow> nRefCount i = refs V n + (if x = Some n then 1 else 0) \<and>
    (if fInTried i then nRefCount i = 0 else 0 < nRefCount i \<and> nRefCount i \<le> 4)"
  unfolding refs_ok_def by blast

lemma refs_okI:
  assumes "\<And>v n. v \<in> set V \<Longrightarrow> n \<in> set v \<Longrightarrow> M n \<noteq> None"
    "\<And>n i. M n = Some i \<Longrightarrow> nRefCount i = refs V n + (if x = Some n then 1 else 0)"
    "\<And>n i. M n = Some i \<Longrightarrow> (if fInTried i then nRefCount i = 0 else 0 < nRefCount i \<and> nRefCount i \<le> 4)"
  shows "refs_ok V M x"
  using assms unfolding refs_ok_def by blast

definition erase_from :: "nat \<Rightarrow> int \<Rightarrow> CAddrMan \<Rightarrow> CAddrMan" where
  "erase_from b n A = A\<lparr>vvNew := (vvNew A)[b := set_erase n (vvNew A ! b)]\<rparr>"

lemma erased_elem: "v \<in> set (V[b := set_erase n (V ! b)]) \<Longrightarrow> b < length V \<Longrightarrow> m \<in> set v \<Longrightarrow> \<exists>w\<in>set V. m \<in> set w"
  using set_update_subset_insert [of V b "set_erase n (V ! b)"] by (auto dest!: subsetD)

lemma leave_bucket:
  assumes I: "addr_inv A x" and b: "b < 256" and n: "n \<in> set (vvNew A ! b)" and x: "x \<noteq> Some n"
  obtains A' where "release n ds A = Drawn A' ds" "addr_inv (erase_from b n A') x" "vvNew A' = vvNew A" "amKey A' = amKey A"
    "\<And>m. m \<noteq> n \<Longrightarrow> map_option rest_of (mapInfo A' m) = map_option rest_of (mapInfo A m)"
proof -
  let ?V = "vvNew A" and ?M = "mapInfo A"
  let ?V' = "?V[b := set_erase n (?V ! b)]"
  have V: "length ?V = 256" "b < length ?V" "?V ! b \<in> set ?V" using I b by (simp_all add: addr_inv_def buckets_ok_def)
  have RO: "refs_ok ?V ?M x" using I by (simp add: addr_inv_def)
  then obtain i where i: "?M n = Some i" using n V(3) unfolding refs_ok_def by blast
  have c: "nRefCount i = refs ?V n" "0 < refs ?V n" using refs_okD [OF RO i] refs_pos [OF V(2) n] x by auto
  with refs_okD [OF RO i] have ut: "\<not> fInTried i" by auto
  have re: "refs ?V' m = (if m = n then refs ?V n - 1 else refs ?V m)" for m
    using n by (simp add: refs_update [OF V(2)] ind_erase) (simp add: ind_def)
  have bo: "buckets_ok ?V'" using I b buckets_okD [of ?V b] erase_sorted [of "?V ! b" n] length_erase(1) [of n "?V ! b"]
    by (intro buckets_ok_update) (simp_all add: addr_inv_def)
  let ?f = "\<lambda>i. i\<lparr>nRefCount := nRefCount i - 1\<rparr> :: CAddrInfo"
  let ?A = "upd_info n ?f A"
  have ra: "random_ok (vRandom ?A) (mapInfo ?A)" using I by (simp add: addr_inv_def random_ok_upd)
  have i1: "mapInfo ?A n = Some (?f i)" using i by (simp add: upd_info_map)
  show ?thesis
  proof (cases "nRefCount i = 1")
    case False
    have rel: "release n ds A = Drawn ?A ds" using False i1 by (simp add: release_def Let_def)
    have "refs_ok ?V' (mapInfo ?A) x"
    proof (rule refs_okI)
      fix v m assume "v \<in> set ?V'" "m \<in> set v"
      with erased_elem [OF _ V(2)] obtain w where "w \<in> set ?V" "m \<in> set w" by metis
      then have "?M m \<noteq> None" using RO unfolding refs_ok_def by blast
      then show "mapInfo ?A m \<noteq> None" by (auto simp: upd_info_map)
    next
      fix m j assume "mapInfo ?A m = Some j"
      then show "nRefCount j = refs ?V' m + (if x = Some m then 1 else 0)"
        "if fInTried j then nRefCount j = 0 else 0 < nRefCount j \<and> nRefCount j \<le> 4"
        using refs_okD [OF RO, of m] i c False x ut unfolding re by (auto simp: upd_info_map split: if_splits)
    qed
    then have "addr_inv (erase_from b n ?A) x"
      using I bo ra other_parts [where f = ?f and n = n and A = A] by (simp add: addr_inv_def erase_from_def)
    then show ?thesis using rel by (intro that [of ?A]) (simp_all add: upd_info_map)
  next
    case True
    have p: "0 \<le> nRandomPos i" "nRandomPos i < int (length (vRandom A))" "vRandom A ! nat (nRandomPos i) = n"
      using random_pos [of "vRandom A" ?M n i] I i by (simp_all add: addr_inv_def)
    then have q: "0 \<le> nRandomPos i" "nRandomPos i < int (length (vRandom ?A))" "0 \<le> int (length (vRandom A)) - 1"
      "int (length (vRandom A)) - 1 < int (length (vRandom ?A))" by (simp_all only: upd_info_fields)
    from swap_random [OF ra q, of ds] obtain A2 where
      A2: "SwapRandom (nRandomPos i) (int (length (vRandom A)) - 1) ds ?A = Drawn A2 ds"
        "random_ok (vRandom A2) (mapInfo A2)" "length (vRandom A2) = length (vRandom ?A)"
        "vRandom A2 ! nat (int (length (vRandom A)) - 1) = vRandom ?A ! nat (nRandomPos i)"
        "\<And>m. map_option rest_of (mapInfo A2 m) = map_option rest_of (mapInfo ?A m)"
        "A2 = ?A\<lparr>mapInfo := mapInfo A2, vRandom := vRandom A2\<rparr>"
      by blast
    note A2 = A2(1,2) A2(3) [unfolded upd_info_fields] A2(4) [unfolded upd_info_fields p(3)] A2(5,6)
    let ?A' = "A2\<lparr>vRandom := butlast (vRandom A2), mapAddr := (mapAddr A2)(ip i := None),
                       mapInfo := (mapInfo A2)(n := None), nNew := nNew A2 - 1\<rparr>"
    have F: "vvNew A2 = ?V" "vvTried A2 = vvTried A" "nTried A2 = nTried A" "nNew A2 = nNew A" "mapAddr A2 = mapAddr A"
      "nIdCount A2 = nIdCount A" "amKey A2 = amKey A" by (subst A2(6), simp)+
    have rel: "release n ds A = Drawn ?A' ds" using i1 True A2(1) by (simp add: release_def Let_def)
    have ne: "vRandom A2 \<noteq> []" using p(1,2) A2(3) by auto
    have "nat (int (length (vRandom A)) - 1) = length (vRandom A2) - 1" unfolding A2(3) by arith
    then have "last (vRandom A2) = n" using A2(4) ne by (simp add: last_conv_nth)
    then have r': "random_ok (butlast (vRandom A2)) ((mapInfo A2)(n := None))" using random_ok_delete [OF A2(2) ne] by simp
    have nowhere: "\<forall>v\<in>set ?V'. \<forall>m\<in>set v. m \<noteq> n \<and> ?M m \<noteq> None"
    proof (intro ballI conjI)
      fix v m assume v: "v \<in> set ?V'" "m \<in> set v"
      have "refs ?V' n = 0" using c True by (simp add: re)
      then show "m \<noteq> n" using v unfolding refs_0 by blast
      from erased_elem [OF v(1) V(2) v(2)] show "?M m \<noteq> None" using RO unfolding refs_ok_def by blast
    qed
    let ?Md = "?M(n := None)"
    have d: "by_addr_ok ((mapAddr A)(ip i := None)) ?Md" "ids_ok (nIdCount A) ?Md" "tried_ok (vvTried A) ?Md"
      "refs_ok ?V' ?Md x" "times_ok ?Md"
      using I by_addr_delete [of "mapAddr A" ?M n i] tried_ok_delete [of "vvTried A" ?M n i] i ut
        refs_ok_delete [OF RO nowhere] re
      by (simp_all add: addr_inv_def ids_ok_def times_ok_def)
    have same: "map_option rest_of (?Md m) = map_option rest_of (((mapInfo A2)(n := None)) m)" for m
      using A2(5) [of m] by (simp add: upd_info_map)
    note s = rest_same [where M = ?Md and M' = "(mapInfo A2)(n := None)", OF same]
    have len: "int (length (butlast (vRandom A2))) = int (length (vRandom A)) - 1"
    proof -
      have "0 < length (vRandom A)" using ne unfolding A2(3) [symmetric] by simp
      then show ?thesis unfolding length_butlast A2(3) by arith
    qed
    have cnt: "nTried A = int (length (concat (vvTried A)))" "nTried A + nNew A = int (length (vRandom A))"
      using I by (simp_all add: addr_inv_def)
    have "addr_inv (erase_from b n ?A') x"
      unfolding addr_inv_def erase_from_def using bo r' s(1) [OF d(1)] s(2) [OF d(2)] s(3) [OF d(3)] s(4) [OF d(4)] s(5) [OF d(5)]
        len cnt F by simp
    then show ?thesis
    proof (rule that [OF rel])
      fix m assume "m \<noteq> n"
      then show "map_option rest_of (mapInfo ?A' m) = map_option rest_of (mapInfo A m)" using same [of m] by simp
    qed (use F in simp_all)
  qed
qed

section \<open>Making room in a bucket\<close>

text \<open>A result that is no failed assertion, and satisfies a property when it is a result.\<close>

primrec safely :: "('a \<Rightarrow> bool) \<Rightarrow> 'a drawn \<Rightarrow> bool" where
  "safely P (Drawn a ds) = P a"
| "safely P OutOfDraws = True"
| "safely P AssertFails = False"

lemma safely_and_then: "safely P m \<Longrightarrow> (\<And>a ds. P a \<Longrightarrow> safely Q (f a ds)) \<Longrightarrow> safely Q (and_then m f)"
  by (cases m) simp_all

lemma safely_mono: "safely P m \<Longrightarrow> (\<And>a. P a \<Longrightarrow> Q a) \<Longrightarrow> safely Q m"
  by (cases m) simp_all

lemma safely_draw: "0 < n \<Longrightarrow> safely (\<lambda>i. i < n) (GetRandInt n ds)"
  using GetRandInt_less [of n ds] GetRandInt_no_assert [of n ds] by (cases "GetRandInt n ds") auto

lemma safely_any: "safely (\<lambda>_. True) (GetRandInt n ds)"
  using GetRandInt_no_assert [of n ds] by (cases "GetRandInt n ds") auto

lemma find_terrible_safe:
  "(\<And>n. n \<in> set v \<Longrightarrow> mapInfo A n \<noteq> None) \<Longrightarrow> safely (\<lambda>r. case r of None \<Rightarrow> True | Some n \<Rightarrow> n \<in> set v) (find_terrible now A v ds)"
proof (induction v)
  case (Cons m v)
  then obtain i where i: "mapInfo A m = Some i" by (metis list.set_intros(1) not_None_eq)
  have "safely (\<lambda>r. case r of None \<Rightarrow> True | Some n \<Rightarrow> n \<in> set (m # v)) (find_terrible now A v ds)"
    using Cons by (intro safely_mono [OF Cons.IH]) (auto split: option.splits)
  then show ?case using i by simp
qed simp

lemma find_oldest_safe:
  "(\<And>n. n \<in> set v \<Longrightarrow> mapInfo A n \<noteq> None \<and> n \<noteq> - 1) \<Longrightarrow>
   safely (\<lambda>r. r \<in> set v \<or> r = old \<and> (old \<noteq> - 1 \<or> (\<forall>p\<in>set picks. \<not> (k \<le> p \<and> p < k + length v)))) (find_oldest picks A k old v ds)"
proof (induction v arbitrary: k old)
  case (Cons m v)
  have m: "mapInfo A m \<noteq> None" "m \<noteq> - 1" using Cons.prems [of m] by simp_all
  have IH: "safely (\<lambda>r. r \<in> set v \<or> r = o' \<and> (o' \<noteq> - 1 \<or> (\<forall>p\<in>set picks. \<not> (Suc k \<le> p \<and> p < Suc k + length v))))
      (find_oldest picks A (Suc k) o' v ds)" for o'
    using Cons.prems by (intro Cons.IH) simp
  show ?case
  proof (cases "k \<in> set picks")
    case True
    let ?o = "if old = - 1 \<or> time_of A m < time_of A old then m else old"
    have "find_oldest picks A k old (m # v) ds = find_oldest picks A (Suc k) ?o v ds" using True m by simp
    moreover have "?o = m \<or> ?o = old \<and> old \<noteq> - 1" by auto
    ultimately show ?thesis using m(2) by (simp only:) (rule safely_mono [OF IH], auto)
  next
    case False
    have "find_oldest picks A k old (m # v) ds = find_oldest picks A (Suc k) old v ds" using False by simp
    moreover have "(\<forall>p\<in>set picks. \<not> (Suc k \<le> p \<and> p < Suc k + length v)) \<Longrightarrow> (\<forall>p\<in>set picks. \<not> (k \<le> p \<and> p < k + length (m # v)))"
      using False by (auto simp: le_eq_less_or_eq Suc_le_eq)
    ultimately show ?thesis by (simp only:) (rule safely_mono [OF IH], auto)
  qed
qed simp

definition shrunk :: "CAddrMan \<Rightarrow> nat \<Rightarrow> int option \<Rightarrow> CAddrMan \<Rightarrow> bool" where
  "shrunk A b x A' \<longleftrightarrow> addr_inv A' x \<and> amKey A' = amKey A \<and>
     (\<exists>n\<in>set (vvNew A ! b). vvNew A' = (vvNew A)[b := set_erase n (vvNew A ! b)] \<and>
        (\<forall>m. m \<noteq> n \<longrightarrow> map_option rest_of (mapInfo A' m) = map_option rest_of (mapInfo A m)))"

lemma shrink_by:
  assumes "addr_inv A x" "b < 256" "n \<in> set (vvNew A ! b)" "x \<noteq> Some n"
  shows "safely (shrunk A b x) (and_then (release n ds A) (\<lambda>A ds. Drawn (A\<lparr>vvNew := (vvNew A)[b := set_erase n (vvNew A ! b)]\<rparr>) ds))"
proof -
  obtain A' where A': "release n ds A = Drawn A' ds" "addr_inv (erase_from b n A') x" "vvNew A' = vvNew A" "amKey A' = amKey A"
    "\<And>m. m \<noteq> n \<Longrightarrow> map_option rest_of (mapInfo A' m) = map_option rest_of (mapInfo A m)"
    using leave_bucket [OF assms, of ds] by blast
  have "shrunk A b x (erase_from b n A')"
    unfolding shrunk_def using A' assms(3) by (simp add: erase_from_def) (metis)
  then show ?thesis using A'(1) by (simp add: erase_from_def)
qed

lemma in_bucket:
  assumes "addr_inv A x" "b < 256" "n \<in> set (vvNew A ! b)"
  shows "mapInfo A n \<noteq> None" "0 \<le> n" "n < nIdCount A"
proof -
  have "vvNew A ! b \<in> set (vvNew A)" using assms(1,2) by (simp add: addr_inv_def buckets_ok_def)
  then show m: "mapInfo A n \<noteq> None" using assms(1,3) unfolding addr_inv_def refs_ok_def by blast
  then show "0 \<le> n" "n < nIdCount A" using assms(1) unfolding addr_inv_def ids_ok_def by auto
qed

lemma ShrinkNew_safe:
  assumes I: "addr_inv A x" and b: "b < 256" and ne: "vvNew A ! b \<noteq> []" and x: "\<And>n. n \<in> set (vvNew A ! b) \<Longrightarrow> x \<noteq> Some n"
  shows "safely (shrunk A b x) (ShrinkNew now b ds A)"
proof -
  let ?v = "vvNew A ! b"
  have V: "b < length (vvNew A)" using I b by (simp add: addr_inv_def buckets_ok_def)
  have m: "mapInfo A n \<noteq> None \<and> n \<noteq> - 1" if "n \<in> set ?v" for n using in_bucket [OF I b that] by simp
  have fin: "safely (shrunk A b x) (if mapInfo A r = None then AssertFails
      else and_then (release r ds A) (\<lambda>A ds. Drawn (A\<lparr>vvNew := (vvNew A)[b := set_erase r (vvNew A ! b)]\<rparr>) ds))"
    if "r \<in> set ?v" for r ds using m [OF that] shrink_by [OF I b that x [OF that], of ds] by simp
  have pick: "safely (\<lambda>r. r \<in> set ?v) (find_oldest [n0, n1, n2, n3] A 0 (- 1) ?v ds)" if "n0 < length ?v" for n0 n1 n2 n3 ds
    by (rule safely_mono [OF find_oldest_safe [of ?v A]]) (use m that in auto)
  have l: "0 < length ?v" using ne by simp
  show ?thesis
    unfolding ShrinkNew_def Let_def using V
    apply (simp only: not_True_eq_False if_False)
    apply (rule safely_and_then [OF find_terrible_safe [of ?v A]])
    subgoal using m by blast
    subgoal for found ds
      apply (cases found)
       apply (simp only: option.case)
       apply (rule safely_and_then [OF safely_draw [OF l]])
       apply (rule safely_and_then [OF safely_any])
       apply (rule safely_and_then [OF safely_any])
       apply (rule safely_and_then [OF safely_any])
       apply (rule safely_and_then [OF pick], assumption)
       apply (erule fin)
      apply (simp only: option.case)
      apply (rule shrink_by [OF I b])
       apply assumption
      apply (erule x)
      done
    done
qed

section \<open>Joining a bucket\<close>

lemma refs_insert: "b < length V \<Longrightarrow> n \<notin> set (V ! b) \<Longrightarrow>
    refs (V[b := set_insert n (V ! b)]) m = refs V m + (if m = n then 1 else 0)"
  by (simp add: refs_update ind_insert) (simp add: ind_def)

lemma inserted_elem: "v \<in> set (V[b := set_insert n (V ! b)]) \<Longrightarrow> b < length V \<Longrightarrow> m \<in> set v \<Longrightarrow> m = n \<or> (\<exists>w\<in>set V. m \<in> set w)"
  using set_update_subset_insert [of V b "set_insert n (V ! b)"] by (auto dest!: subsetD)

lemma insert_inv:
  assumes I: "addr_inv A (Some n)" and b: "b < 256" and n: "n \<notin> set (vvNew A ! b)" and l: "length (vvNew A ! b) < 64"
    and m: "mapInfo A n \<noteq> None"
  shows "addr_inv (A\<lparr>vvNew := (vvNew A)[b := set_insert n (vvNew A ! b)]\<rparr>) None"
proof -
  let ?V = "vvNew A" and ?M = "mapInfo A"
  have V: "b < length ?V" using I b by (simp add: addr_inv_def buckets_ok_def)
  have RO: "refs_ok ?V ?M (Some n)" using I by (simp add: addr_inv_def)
  have "refs_ok (?V[b := set_insert n (?V ! b)]) ?M None"
  proof (rule refs_okI)
    fix v k assume "v \<in> set (?V[b := set_insert n (?V ! b)])" "k \<in> set v"
    then have "k = n \<or> (\<exists>w\<in>set ?V. k \<in> set w)" by (rule inserted_elem [OF _ V])
    then show "?M k \<noteq> None" using m RO unfolding refs_ok_def by blast
  next
    fix k i assume "?M k = Some i"
    from refs_okD [OF RO this] show
      "nRefCount i = refs (?V[b := set_insert n (?V ! b)]) k + (if None = Some k then 1 else 0)"
      "if fInTried i then nRefCount i = 0 else 0 < nRefCount i \<and> nRefCount i \<le> 4"
      unfolding refs_insert [OF V n] by auto
  qed
  moreover have "buckets_ok (?V[b := set_insert n (?V ! b)])"
    using I b l buckets_okD [of ?V b] insert_sorted [of "?V ! b" n] length_insert [of n "?V ! b"]
    by (intro buckets_ok_update) (simp_all add: addr_inv_def)
  ultimately show ?thesis using I by (simp add: addr_inv_def)
qed

definition add_ref :: "int \<Rightarrow> CAddrMan \<Rightarrow> CAddrMan" where
  "add_ref n A = upd_info n (\<lambda>i. i\<lparr>nRefCount := nRefCount i + 1\<rparr>) A"

lemma join_bucket_safe:
  assumes I: "addr_inv (add_ref n A) (Some n)" and b: "b < 256" and n: "n \<notin> set (vvNew A ! b)" and m: "mapInfo A n \<noteq> None"
  shows "safely (\<lambda>A'. addr_inv A' None \<and> n \<in> set (vvNew A' ! b) \<and>
      map_option rest_of (mapInfo A' n) = map_option rest_of (mapInfo (add_ref n A) n)) (join_bucket now n b ds A)"
proof -
  let ?A = "add_ref n A"
  let ?P = "\<lambda>A1. addr_inv A1 (Some n) \<and> n \<notin> set (vvNew A1 ! b) \<and> length (vvNew A1 ! b) < 64 \<and>
    map_option rest_of (mapInfo A1 n) = map_option rest_of (mapInfo ?A n)"
  have v: "vvNew ?A = vvNew A" by (simp add: add_ref_def)
  have V: "b < length (vvNew ?A)" "length (vvNew ?A ! b) \<le> 64"
    using I b buckets_okD [of "vvNew ?A" b] by (simp_all add: addr_inv_def buckets_ok_def)
  have room: "safely ?P (if length (vvNew ?A ! b) = ADDRMAN_NEW_BUCKET_SIZE then ShrinkNew now b ds ?A else Drawn ?A ds)"
  proof (cases "length (vvNew ?A ! b) = 64")
    case True
    then have ne: "vvNew ?A ! b \<noteq> []" by auto
    have "safely (shrunk ?A b (Some n)) (ShrinkNew now b ds ?A)"
      using n v by (intro ShrinkNew_safe [OF I b ne]) auto
    moreover have "?P A1" if "shrunk ?A b (Some n) A1" for A1
    proof -
      from that obtain k where k: "k \<in> set (vvNew A ! b)" "vvNew A1 = (vvNew A)[b := set_erase k (vvNew A ! b)]"
        "\<And>m. m \<noteq> k \<Longrightarrow> map_option rest_of (mapInfo A1 m) = map_option rest_of (mapInfo ?A m)" "addr_inv A1 (Some n)"
        unfolding shrunk_def v by blast
      then have "n \<noteq> k" "vvNew A1 ! b = set_erase k (vvNew A ! b)" using n V(1) v by auto
      then show ?thesis using k n True length_erase(2) [OF k(1)] by (simp add: v)
    qed
    ultimately show ?thesis using True by (simp add: ADDRMAN_NEW_BUCKET_SIZE_def) (rule safely_mono)
  next
    case False
    then show ?thesis using I n V(2) by (simp add: ADDRMAN_NEW_BUCKET_SIZE_def v)
  qed
  have m': "mapInfo ?A n \<noteq> None" using m by (auto simp: add_ref_def upd_info_map)
  show ?thesis unfolding join_bucket_def Let_def add_ref_def [symmetric]
  proof (rule safely_and_then [OF room])
    fix A1 ds1 assume P: "?P A1"
    then have "mapInfo A1 n \<noteq> None" using m' by (metis map_option_is_None)
    with P insert_inv [of A1 n b] b have "addr_inv (A1\<lparr>vvNew := (vvNew A1)[b := set_insert n (vvNew A1 ! b)]\<rparr>) None" by blast
    moreover have "b < length (vvNew A1)" using P b by (simp add: addr_inv_def buckets_ok_def)
    ultimately show "safely (\<lambda>A'. addr_inv A' None \<and> n \<in> set (vvNew A' ! b) \<and>
        map_option rest_of (mapInfo A' n) = map_option rest_of (mapInfo ?A n))
      (Drawn (A1\<lparr>vvNew := (vvNew A1)[b := set_insert n (vvNew A1 ! b)]\<rparr>) ds1)" using P by simp
  qed
qed

section \<open>Moving to the tried table\<close>

lemma concat_update_length: "k < length T \<Longrightarrow> length (concat (T[k := v])) + length (T ! k) = length (concat T) + length v"
proof (induction T arbitrary: k)
  case (Cons t T)
  then show ?case by (cases k) simp_all
qed simp

lemma concat_update_set: "k < length T \<Longrightarrow> distinct (concat T) \<Longrightarrow>
    set (concat (T[k := v])) = set (concat T) - set (T ! k) \<union> set v"
proof (induction T arbitrary: k)
  case (Cons t T)
  have d: "distinct t" "distinct (concat T)" "set t \<inter> set (concat T) = {}" using Cons.prems(2) by auto
  show ?case
  proof (cases k)
    case 0
    then show ?thesis using d(3) by auto
  next
    case (Suc j)
    then have j: "j < length T" using Cons.prems by simp
    have "set (T ! j) \<subseteq> set (concat T)" using nth_mem [OF j] by auto
    then show ?thesis using Cons.IH [OF j d(2)] d(3) Suc by auto
  qed
qed simp

lemma concat_update_distinct: "k < length T \<Longrightarrow> distinct (concat T) \<Longrightarrow> distinct v \<Longrightarrow>
    set v \<inter> (set (concat T) - set (T ! k)) = {} \<Longrightarrow> distinct (concat (T[k := v]))"
proof (induction T arbitrary: k)
  case (Cons t T)
  have d: "distinct t" "distinct (concat T)" "set t \<inter> set (concat T) = {}" using Cons.prems(2) by auto
  show ?case
  proof (cases k)
    case 0
    then show ?thesis using Cons.prems d by (simp, blast)
  next
    case (Suc j)
    then have j: "j < length T" using Cons.prems by simp
    have sub: "set (T ! j) \<subseteq> set (concat T)" using nth_mem [OF j] by auto
    have "set v \<inter> (set (concat T) - set (T ! j)) = {}" using Cons.prems(4) Suc d(3) sub by auto
    moreover have "set t \<inter> set (T ! j) = {}" using d(3) sub by blast
    then have "set v \<inter> set t = {}" using Cons.prems(4) Suc by (simp, blast)
    ultimately show ?thesis
      using Cons.IH [OF j d(2) Cons.prems(3)] concat_update_set [OF j d(2), of v] Suc d by auto
  qed
qed simp

text \<open>The shuffling keeps the entries of the bucket and finds a position in it.\<close>

lemma select_tried_safe:
  assumes "\<And>n. n \<in> set v \<Longrightarrow> mapInfo A n \<noteq> None \<and> n \<noteq> - 1" "distinct v"
  shows "\<forall>i\<in>set is. i < length v \<Longrightarrow> (old \<noteq> - 1 \<longrightarrow> 0 \<le> p \<and> p < int (length v)) \<Longrightarrow>
    safely (\<lambda>(p', v'). set v' = set v \<and> distinct v' \<and> length v' = length v \<and> (is \<noteq> [] \<or> old \<noteq> - 1 \<longrightarrow> 0 \<le> p' \<and> p' < int (length v)))
      (select_tried_loop A is old p v ds)"
  using assms
proof (induction "is" arbitrary: old p v ds)
  case (Cons i "is")
  have i: "i < length v" using Cons.prems(1) by simp
  show ?case unfolding select_tried_loop.simps
  proof (rule safely_and_then [OF safely_draw])
    show "0 < length v - i" using i by simp
    fix r ds1 assume "r < length v - i"
    then have q: "r + i < length v" by simp
    let ?v = "v[r + i := v ! i, i := v ! (r + i)]"
    have v: "set ?v = set v" "distinct ?v" "length ?v = length v"
      using i q Cons.prems(4) by simp_all
    have t: "mapInfo A (v ! (r + i)) \<noteq> None" "v ! (r + i) \<noteq> - 1" using Cons.prems(3) [of "v ! (r + i)"] q by simp_all
    have step: "safely (\<lambda>(p', v'). set v' = set v \<and> distinct v' \<and> length v' = length v \<and>
        (i # is \<noteq> [] \<or> old \<noteq> - 1 \<longrightarrow> 0 \<le> p' \<and> p' < int (length v))) (select_tried_loop A is o' p' ?v ds1)"
      if o: "o' \<noteq> - 1" "0 \<le> p'" "p' < int (length v)" for o' p'
      by (rule safely_mono [OF Cons.IH [of ?v o' p' ds1]]) (use Cons.prems v o in auto)
    show "safely (\<lambda>(p', v'). set v' = set v \<and> distinct v' \<and> length v' = length v \<and>
        (i # is \<noteq> [] \<or> old \<noteq> - 1 \<longrightarrow> 0 \<le> p' \<and> p' < int (length v)))
      (let nPos = r + i; nTemp = v ! nPos; vTried = v[nPos := v ! i, i := nTemp]
       in if \<not> (old = - 1 \<or> mapInfo A nTemp \<noteq> None) then AssertFails
          else if old = - 1 \<or>
              (case mapInfo A nTemp of None \<Rightarrow> 0 | Some x \<Rightarrow> nLastSuccess x) <
              (case mapInfo A old of None \<Rightarrow> 0 | Some x \<Rightarrow> nLastSuccess x)
          then select_tried_loop A is nTemp (int nPos) vTried ds1
          else select_tried_loop A is old p vTried ds1)"
      using t step [of "v ! (r + i)" "int (r + i)"] step [of old p] q Cons.prems(2) by (simp add: Let_def)
  qed
qed simp

lemma tried_bucket: "GetTriedBucket E k info < 64" and new_bucket: "GetNewBucket E k info src < 256"
proof -
  have "unat ((w :: u64) mod 64) < 64" "unat (w mod 256) < 256" for w
    by (simp_all add: unat_mod_distrib)
  then show "GetTriedBucket E k info < 64" "GetNewBucket E k info src < 256"
    by (simp_all add: GetTriedBucket_def GetNewBucket_def Let_def ADDRMAN_TRIED_BUCKET_COUNT_def ADDRMAN_NEW_BUCKET_COUNT_def)
qed

lemma ip_parts:
  assumes "\<And>i. ip (f i) = ip i"
  shows "by_addr_ok D (mapInfo A) \<Longrightarrow> by_addr_ok D (mapInfo (upd_info n f A))"
    "ids_ok c (mapInfo A) \<Longrightarrow> ids_ok c (mapInfo (upd_info n f A))"
proof -
  have l: "mapInfo A m = Some i \<Longrightarrow> \<exists>i'. mapInfo (upd_info n f A) m = Some i' \<and> ip i' = ip i" for m i
    using assms by (auto simp: upd_info_map)
  have r: "mapInfo (upd_info n f A) m = Some i \<Longrightarrow> \<exists>i'. mapInfo A m = Some i' \<and> ip i' = ip i" for m i
    using assms by (auto simp: upd_info_map split: if_splits)
  have a: "(\<exists>i. mapInfo (upd_info n f A) m = Some i \<and> ip i = a) \<longleftrightarrow> (\<exists>i. mapInfo A m = Some i \<and> ip i = a)" for m a
    using l r by metis
  show "by_addr_ok D (mapInfo A) \<Longrightarrow> by_addr_ok D (mapInfo (upd_info n f A))" unfolding by_addr_ok_def a .
  show "ids_ok c (mapInfo A) \<Longrightarrow> ids_ok c (mapInfo (upd_info n f A))" unfolding ids_ok_def using r by metis
qed

text \<open>An entry out of all buckets.\<close>

lemma refs_erase_all: "refs (map (set_erase n) V) m = (if m = n then 0 else refs V m)"
  by (induction V) (simp_all add: refs_Cons ind_erase refs_def [of "[]"])

lemma buckets_erase_all: "buckets_ok V \<Longrightarrow> buckets_ok (map (set_erase n) V)"
  using erase_sorted length_erase(1) order_trans unfolding buckets_ok_def by (fastforce simp: set_map)

text \<open>The state after an entry left all its buckets, before it is in the tried table.\<close>

definition uprooted :: "CAddrMan \<Rightarrow> int \<Rightarrow> bool" where
  "uprooted A n \<longleftrightarrow> random_ok (vRandom A) (mapInfo A) \<and> by_addr_ok (mapAddr A) (mapInfo A) \<and>
     ids_ok (nIdCount A) (mapInfo A) \<and> tried_ok (vvTried A) (mapInfo A) \<and> buckets_ok (vvNew A) \<and> times_ok (mapInfo A) \<and>
     nTried A = int (length (concat (vvTried A))) \<and> nTried A + nNew A + 1 = int (length (vRandom A)) \<and>
     refs (vvNew A) n = 0 \<and> (\<forall>v\<in>set (vvNew A). \<forall>m\<in>set v. mapInfo A m \<noteq> None) \<and>
     (\<exists>i. mapInfo A n = Some i \<and> nRefCount i = 0 \<and> \<not> fInTried i \<and> 0 < nLastSuccess i) \<and>
     (\<forall>m i. m \<noteq> n \<longrightarrow> mapInfo A m = Some i \<longrightarrow> nRefCount i = refs (vvNew A) m \<and>
        (if fInTried i then nRefCount i = 0 else 0 < nRefCount i \<and> nRefCount i \<le> 4))"

lemma uproot_uprooted:
  assumes I: "addr_inv A None" and n: "mapInfo A n = Some i" "\<not> fInTried i" "0 < nLastSuccess i"
  shows "uprooted (uproot n A) n"
proof -
  let ?c = "refs (vvNew A) n" and ?f = "\<lambda>i. i\<lparr>nRefCount := nRefCount i - refs (vvNew A) n\<rparr> :: CAddrInfo"
  let ?B = "A\<lparr>vvNew := map (set_erase n) (vvNew A)\<rparr>"
  have u: "uproot n A = (upd_info n ?f ?B)\<lparr>nNew := nNew A - 1\<rparr>" by (simp add: uproot_def refs_def Let_def)
  have RO: "refs_ok (vvNew A) (mapInfo A) None" using I by (simp add: addr_inv_def)
  have c: "nRefCount i = ?c" using refs_okD [OF RO n(1)] by simp
  have p: "by_addr_ok (mapAddr A) (mapInfo (upd_info n ?f ?B))" "ids_ok (nIdCount A) (mapInfo (upd_info n ?f ?B))"
    "tried_ok (vvTried A) (mapInfo (upd_info n ?f ?B))" "times_ok (mapInfo (upd_info n ?f ?B))"
    "random_ok (vRandom A) (mapInfo (upd_info n ?f ?B))"
    using I other_parts [where f = ?f and A = ?B and n = n] random_ok_upd [of "vRandom A" ?B ?f n] by (simp_all add: addr_inv_def)
  have el: "mapInfo (upd_info n ?f ?B) m \<noteq> None" if "v \<in> set (map (set_erase n) (vvNew A))" "m \<in> set v" for v m
  proof -
    from that obtain w where "w \<in> set (vvNew A)" "m \<in> set w" by auto
    then have "mapInfo A m \<noteq> None" using RO unfolding refs_ok_def by blast
    then show ?thesis by (auto simp: upd_info_map)
  qed
  have oth: "nRefCount j = refs (map (set_erase n) (vvNew A)) m \<and>
        (if fInTried j then nRefCount j = 0 else 0 < nRefCount j \<and> nRefCount j \<le> 4)"
    if "m \<noteq> n" "mapInfo (upd_info n ?f ?B) m = Some j" for m j
    using that refs_okD [OF RO, of m j] by (auto simp: upd_info_map refs_erase_all)
  have i1: "mapInfo (upd_info n ?f ?B) n = Some (?f i)" using n(1) by (simp add: upd_info_map)
  have cnt: "nTried A = int (length (concat (vvTried A)))" "nTried A + (nNew A - 1) + 1 = int (length (vRandom A))"
    and bo: "buckets_ok (map (set_erase n) (vvNew A))" and z: "refs (map (set_erase n) (vvNew A)) n = 0"
    using I buckets_erase_all [of "vvNew A" n] by (simp_all add: addr_inv_def refs_erase_all)
  have e: "\<exists>j. mapInfo (upd_info n ?f ?B) n = Some j \<and> nRefCount j = 0 \<and> \<not> fInTried j \<and> 0 < nLastSuccess j"
    using i1 c n by simp
  have el': "\<forall>v\<in>set (map (set_erase n) (vvNew A)). \<forall>m\<in>set v. mapInfo (upd_info n ?f ?B) m \<noteq> None" using el by blast
  have oth': "\<forall>m j. m \<noteq> n \<longrightarrow> mapInfo (upd_info n ?f ?B) m = Some j \<longrightarrow> nRefCount j = refs (map (set_erase n) (vvNew A)) m \<and>
        (if fInTried j then nRefCount j = 0 else 0 < nRefCount j \<and> nRefCount j \<le> 4)"
    using oth by blast
  have F: "vRandom (uproot n A) = vRandom A" "mapAddr (uproot n A) = mapAddr A" "nIdCount (uproot n A) = nIdCount A"
    "vvTried (uproot n A) = vvTried A" "vvNew (uproot n A) = map (set_erase n) (vvNew A)" "nTried (uproot n A) = nTried A"
    "nNew (uproot n A) = nNew A - 1" "mapInfo (uproot n A) = mapInfo (upd_info n ?f ?B)"
    unfolding u by simp_all
  show ?thesis unfolding uprooted_def F using p cnt bo z e el' oth' by blast
qed

lemma uprooted_tried:
  assumes "uprooted A n"
  shows "length (vvTried A) = 64" "distinct (concat (vvTried A))"
    "\<And>m. m \<in> set (concat (vvTried A)) \<longleftrightarrow> (\<exists>i. mapInfo A m = Some i \<and> fInTried i)" "n \<notin> set (concat (vvTried A))"
    "\<And>v. v \<in> set (vvTried A) \<Longrightarrow> length v \<le> 64"
proof -
  show t: "length (vvTried A) = 64" "distinct (concat (vvTried A))"
    "\<And>m. m \<in> set (concat (vvTried A)) \<longleftrightarrow> (\<exists>i. mapInfo A m = Some i \<and> fInTried i)" "\<And>v. v \<in> set (vvTried A) \<Longrightarrow> length v \<le> 64"
    using assms unfolding uprooted_def tried_ok_def by blast+
  obtain i where "mapInfo A n = Some i" "\<not> fInTried i" using assms unfolding uprooted_def by blast
  then show "n \<notin> set (concat (vvTried A))" unfolding t(3) by simp
qed

lemma tried_lengths: "(\<And>v. v \<in> set T \<Longrightarrow> length v \<le> 64) \<Longrightarrow> length w \<le> 64 \<Longrightarrow> \<forall>v\<in>set (T[k := w]). length v \<le> 64"
  using set_update_subset_insert [of T k w] by auto

lemma times_upd:
  "times_ok (mapInfo A) \<Longrightarrow> (\<And>i. mapInfo A n = Some i \<Longrightarrow> nLastTry (f i) = nLastTry i \<and> nLastSuccess (f i) = nLastSuccess i \<and>
      (fInTried (f i) \<longrightarrow> 0 < nLastSuccess i)) \<Longrightarrow> times_ok (mapInfo (upd_info n f A))"
  unfolding times_ok_def by (auto simp: upd_info_map split: if_splits)

text \<open>There is room in the bucket.\<close>

lemma settle_room:
  assumes U: "uprooted A n" and k: "k < 64" and l: "length (vvTried A ! k) < 64"
  shows "addr_inv (upd_info n (\<lambda>i. i\<lparr>fInTried := True\<rparr>)
     (A\<lparr>vvTried := (vvTried A)[k := vvTried A ! k @ [n]], nTried := nTried A + 1\<rparr>)) None"
proof -
  let ?T = "vvTried A" and ?f = "\<lambda>i. i\<lparr>fInTried := True\<rparr> :: CAddrInfo"
  let ?T' = "?T[k := ?T ! k @ [n]]"
  let ?B = "A\<lparr>vvTried := ?T', nTried := nTried A + 1\<rparr>"
  note T = uprooted_tried [OF U]
  have kT: "k < length ?T" using T(1) k by simp
  obtain i where i: "mapInfo A n = Some i" "nRefCount i = 0" "\<not> fInTried i" "0 < nLastSuccess i" using U unfolding uprooted_def by blast
  have sub: "set (?T ! k) \<subseteq> set (concat ?T)" using nth_mem [OF kT] by auto
  have dk: "distinct (?T ! k)" using T(2) nth_mem [OF kT] by (auto simp: distinct_concat_iff)
  have "set (concat ?T') = insert n (set (concat ?T))"
    unfolding concat_update_set [OF kT T(2)] using sub by auto
  moreover have "distinct (concat ?T')"
    using T(4) sub dk by (intro concat_update_distinct [OF kT T(2)]) auto
  moreover have "\<forall>v\<in>set ?T'. length v \<le> 64" using T(5) l by (intro tried_lengths) simp_all
  moreover have "m \<in> insert n (set (concat ?T)) \<longleftrightarrow> (\<exists>i. mapInfo (upd_info n ?f ?B) m = Some i \<and> fInTried i)" for m
    using T(3) [of m] i(1) by (auto simp: upd_info_map)
  ultimately have "tried_ok ?T' (mapInfo (upd_info n ?f ?B))" unfolding tried_ok_def using T(1) by simp
  moreover have "refs_ok (vvNew A) (mapInfo (upd_info n ?f ?B)) None"
  proof (rule refs_okI)
    fix v m assume "v \<in> set (vvNew A)" "m \<in> set v"
    then have "mapInfo A m \<noteq> None" using U unfolding uprooted_def by blast
    then show "mapInfo (upd_info n ?f ?B) m \<noteq> None" by (auto simp: upd_info_map)
  next
    fix m j assume j: "mapInfo (upd_info n ?f ?B) m = Some j"
    have z: "refs (vvNew A) n = 0" using U by (simp add: uprooted_def)
    show "nRefCount j = refs (vvNew A) m + (if None = Some m then 1 else 0)"
      "if fInTried j then nRefCount j = 0 else 0 < nRefCount j \<and> nRefCount j \<le> 4"
    proof (atomize (full), cases "m = n")
      case True
      then show "nRefCount j = refs (vvNew A) m + (if None = Some m then 1 else 0) \<and>
        (if fInTried j then nRefCount j = 0 else 0 < nRefCount j \<and> nRefCount j \<le> 4)" using j i z by (auto simp: upd_info_map)
    next
      case False
      then have "mapInfo A m = Some j" using j by (simp add: upd_info_map)
      with False U show "nRefCount j = refs (vvNew A) m + (if None = Some m then 1 else 0) \<and>
        (if fInTried j then nRefCount j = 0 else 0 < nRefCount j \<and> nRefCount j \<le> 4)" unfolding uprooted_def by auto
    qed
  qed
  moreover have "times_ok (mapInfo (upd_info n ?f ?B))"
    using U i times_upd [of ?B n ?f] by (simp add: uprooted_def)
  moreover have "int (length (concat ?T')) = int (length (concat ?T)) + 1"
    using concat_update_length [OF kT, of "?T ! k @ [n]"] by simp
  moreover have "random_ok (vRandom A) (mapInfo (upd_info n ?f ?B))" "by_addr_ok (mapAddr A) (mapInfo (upd_info n ?f ?B))"
    "ids_ok (nIdCount A) (mapInfo (upd_info n ?f ?B))"
    using U random_ok_upd [of "vRandom A" ?B ?f n] ip_parts [of ?f] by (simp_all add: uprooted_def)
  ultimately show ?thesis using U unfolding addr_inv_def uprooted_def by simp
qed

lemma uprooted_new: "uprooted A n \<Longrightarrow> b < 256 \<Longrightarrow> b < length (vvNew A) \<and> n \<notin> set (vvNew A ! b)"
proof -
  assume U: "uprooted A n" and b: "b < 256"
  then have l: "b < length (vvNew A)" by (simp add: uprooted_def buckets_ok_def)
  moreover have "refs (vvNew A) n = 0" using U by (simp add: uprooted_def)
  ultimately show ?thesis unfolding refs_0 by simp
qed

lemma settle_evict:
  assumes U: "uprooted A n" and k: "k < 64" and p: "p < length (vvTried A ! k)" and b: "b < 256" and l: "length (vvNew A ! b) < 64"
  shows "addr_inv (evict n k p b A) None"
proof -
  let ?T = "vvTried A" and ?V = "vvNew A"
  define a where "a = ?T ! k ! p"
  let ?T' = "?T[k := (?T ! k)[p := n]]" and ?V' = "?V[b := set_insert a (?V ! b)]"
  note T = uprooted_tried [OF U]
  have kT: "k < length ?T" using T(1) k by simp
  have sub: "set (?T ! k) \<subseteq> set (concat ?T)" using nth_mem [OF kT] by auto
  have dk: "distinct (?T ! k)" using T(2) nth_mem [OF kT] by (auto simp: distinct_concat_iff)
  have ak: "a \<in> set (?T ! k)" unfolding a_def using p by simp
  then have a: "a \<in> set (concat ?T)" "a \<noteq> n" using sub T(4) by auto
  then obtain ia where ia: "mapInfo A a = Some ia" "fInTried ia" unfolding T(3) by blast
  obtain i where i: "mapInfo A n = Some i" "nRefCount i = 0" "\<not> fInTried i" "0 < nLastSuccess i" using U unfolding uprooted_def by blast
  have oth: "mapInfo A m = Some j \<Longrightarrow> m \<noteq> n \<Longrightarrow> nRefCount j = refs ?V m \<and>
        (if fInTried j then nRefCount j = 0 else 0 < nRefCount j \<and> nRefCount j \<le> 4)" for m j
    using U unfolding uprooted_def by blast
  have z: "refs ?V n = 0" "refs ?V a = 0" using U oth [OF ia(1) a(2)] ia(2) by (simp_all add: uprooted_def)
  have V: "b < length ?V" using uprooted_new [OF U b] by simp
  have ab: "a \<notin> set (?V ! b)" using z(2) V unfolding refs_0 by simp
  let ?f = "\<lambda>i. i\<lparr>fInTried := False, nRefCount := 1\<rparr> :: CAddrInfo" and ?g = "\<lambda>i. i\<lparr>fInTried := True\<rparr> :: CAddrInfo"
  let ?B = "upd_info a ?f A"
  let ?C = "?B\<lparr>vvNew := ?V', nNew := nNew A + 1, vvTried := ?T'\<rparr>"
  have e: "evict n k p b A = upd_info n ?g ?C" by (simp add: evict_def a_def Let_def)
  have M: "mapInfo (upd_info n ?g ?C) m = (if m = n then Some (?g i) else if m = a then Some (?f ia) else mapInfo A m)" for m
    using i(1) ia(1) a(2) by (simp add: upd_info_map)
  have dup: "set ((?T ! k)[p := n]) = insert n (set (?T ! k) - {a})"
    unfolding a_def using dk p by (simp add: set_update_distinct)
  have "set (concat ?T') = insert n (set (concat ?T) - {a})"
    unfolding concat_update_set [OF kT T(2)] dup using sub ak by auto
  moreover have "distinct (concat ?T')"
  proof (rule concat_update_distinct [OF kT T(2)])
    show "distinct ((?T ! k)[p := n])" using dk T(4) sub by (intro distinct_list_update) auto
    show "set ((?T ! k)[p := n]) \<inter> (set (concat ?T) - set (?T ! k)) = {}" unfolding dup using T(4) by auto
  qed
  moreover have "\<forall>v\<in>set ?T'. length v \<le> 64" using T(5) nth_mem [OF kT] by (intro tried_lengths) simp_all
  moreover have "m \<in> insert n (set (concat ?T) - {a}) \<longleftrightarrow> (\<exists>j. mapInfo (upd_info n ?g ?C) m = Some j \<and> fInTried j)" for m
    using T(3) [of m] a(2) unfolding M by auto
  ultimately have "tried_ok ?T' (mapInfo (upd_info n ?g ?C))" unfolding tried_ok_def using T(1) by simp
  moreover have "refs_ok ?V' (mapInfo (upd_info n ?g ?C)) None"
  proof (rule refs_okI)
    fix v m assume "v \<in> set ?V'" "m \<in> set v"
    then have "m = a \<or> (\<exists>w\<in>set ?V. m \<in> set w)" by (rule inserted_elem [OF _ V])
    then have "mapInfo A m \<noteq> None" using ia(1) U unfolding uprooted_def by blast
    then show "mapInfo (upd_info n ?g ?C) m \<noteq> None" unfolding M by simp
  next
    fix m j assume j: "mapInfo (upd_info n ?g ?C) m = Some j"
    have r: "refs ?V' m = refs ?V m + (if m = a then 1 else 0)" by (rule refs_insert [OF V ab])
    have "nRefCount j = refs ?V' m \<and> (if fInTried j then nRefCount j = 0 else 0 < nRefCount j \<and> nRefCount j \<le> 4)"
    proof -
      consider "m = n" | "m = a" | "m \<noteq> n" "m \<noteq> a" by blast
      then show ?thesis
      proof cases
        case 1 then show ?thesis using j i z a(2) unfolding M r by auto
      next
        case 2 then show ?thesis using j z a(2) unfolding M r by auto
      next
        case 3 then show ?thesis using j oth [of m j] unfolding M r by auto
      qed
    qed
    note A = this
    show "nRefCount j = refs ?V' m + (if None = Some m then 1 else 0)" using A by simp
    show "if fInTried j then nRefCount j = 0 else 0 < nRefCount j \<and> nRefCount j \<le> 4" by (rule A [THEN conjunct2])
  qed
  moreover have "times_ok (mapInfo (upd_info n ?g ?C))"
  proof -
    have "times_ok (mapInfo ?B)" using U by (intro times_upd) (simp_all add: uprooted_def)
    then show ?thesis using i a(2) by (intro times_upd) (simp_all add: upd_info_map)
  qed
  moreover have "int (length (concat ?T')) = int (length (concat ?T))"
    using concat_update_length [OF kT, of "(?T ! k)[p := n]"] by simp
  moreover have "random_ok (vRandom A) (mapInfo ?B)" "by_addr_ok (mapAddr A) (mapInfo ?B)" "ids_ok (nIdCount A) (mapInfo ?B)"
    using U random_ok_upd [of "vRandom A" A ?f a] ip_parts [of ?f] by (simp_all add: uprooted_def)
  then have "random_ok (vRandom A) (mapInfo (upd_info n ?g ?C))" "by_addr_ok (mapAddr A) (mapInfo (upd_info n ?g ?C))"
    "ids_ok (nIdCount A) (mapInfo (upd_info n ?g ?C))"
    using random_ok_upd [of "vRandom A" ?C ?g n] ip_parts [of ?g _ ?C n] by simp_all
  moreover have "buckets_ok ?V'"
    using U b l buckets_okD [of ?V b] insert_sorted [of "?V ! b" a] length_insert [of a "?V ! b"]
    by (intro buckets_ok_update) (simp_all add: uprooted_def)
  moreover have "nTried A = int (length (concat ?T))" "nTried A + nNew A + 1 = int (length (vRandom A))"
    using U by (simp_all add: uprooted_def)
  ultimately show ?thesis unfolding e addr_inv_def by simp
qed

lemma uprooted_shuffle:
  assumes U: "uprooted A n" and k: "k < 64" and v: "set v = set (vvTried A ! k)" "distinct v" "length v = length (vvTried A ! k)"
  shows "uprooted (A\<lparr>vvTried := (vvTried A)[k := v]\<rparr>) n"
proof -
  let ?T = "vvTried A"
  note T = uprooted_tried [OF U]
  have kT: "k < length ?T" using T(1) k by simp
  have sub: "set (?T ! k) \<subseteq> set (concat ?T)" using nth_mem [OF kT] by auto
  have s: "set (concat (?T[k := v])) = set (concat ?T)" unfolding concat_update_set [OF kT T(2)] v(1) using sub by auto
  have "distinct (concat (?T[k := v]))" using v by (intro concat_update_distinct [OF kT T(2)]) auto
  moreover have "\<forall>w\<in>set (?T[k := v]). length w \<le> 64" using T(5) nth_mem [OF kT] v(3) by (intro tried_lengths) simp_all
  ultimately have "tried_ok (?T[k := v]) (mapInfo A)" unfolding tried_ok_def s using T(1,3) by simp
  moreover have "length (concat (?T[k := v])) = length (concat ?T)" using concat_update_length [OF kT, of v] v(3) by simp
  ultimately show ?thesis using U unfolding uprooted_def by auto
qed

definition is_tried :: "CAddrMan \<Rightarrow> int \<Rightarrow> bool" where
  "is_tried A n \<longleftrightarrow> (\<exists>i. mapInfo A n = Some i \<and> fInTried i)"

lemma MakeTried_safe:
  assumes I: "addr_inv A None" and n: "mapInfo A n = Some i" "\<not> fInTried i" "0 < nLastSuccess i"
    and b: "b < 256" "n \<in> set (vvNew A ! b)"
  shows "safely (\<lambda>A'. addr_inv A' None \<and> is_tried A' n) (MakeTried E n b ds A)"
proof -
  let ?A = "uproot n A"
  have U: "uprooted ?A n" by (rule uproot_uprooted [OF I n])
  obtain j where j: "mapInfo ?A n = Some j" "nRefCount j = 0" using U unfolding uprooted_def by blast
  define k where "k = GetTriedBucket E (amKey ?A) j"
  have k: "k < 64" unfolding k_def by (rule tried_bucket)
  have tr: "is_tried (upd_info n (\<lambda>i. i\<lparr>fInTried := True\<rparr>) B) n" if "mapInfo B n \<noteq> None" for B
    using that by (auto simp: is_tried_def upd_info_map)
  have V: "b < length (vvNew A)" "length (vvNew A ! b) \<le> 64"
    using I b(1) buckets_okD [of "vvNew A" b] by (simp_all add: addr_inv_def buckets_ok_def)
  have vb: "vvNew ?A ! b = set_erase n (vvNew A ! b)" using V by (simp add: uproot_def Let_def)
  have lb: "length (vvNew ?A ! b) < 64" unfolding vb using length_erase(2) [OF b(2)] V(2) by simp
  have m: "MakeTried E n b ds A =
    (if length (vvTried ?A ! k) < ADDRMAN_TRIED_BUCKET_SIZE
     then Drawn (upd_info n (\<lambda>i. i\<lparr>fInTried := True\<rparr>)
            (?A\<lparr>vvTried := (vvTried ?A)[k := vvTried ?A ! k @ [n]], nTried := nTried ?A + 1\<rparr>)) ds
     else and_then (SelectTried k ds ?A) (\<lambda>(nPos, A) ds.
       case mapInfo A (vvTried A ! k ! nat nPos) of None \<Rightarrow> AssertFails
       | Some infoOld \<Rightarrow>
           let nUBucket = GetNewBucket E (amKey A) infoOld (addr_source infoOld);
               c = (if length (vvNew A ! nUBucket) < ADDRMAN_NEW_BUCKET_SIZE then nUBucket else b)
           in Drawn (evict n k (nat nPos) c A) ds))"
    using b(2) j unfolding MakeTried_def Let_def k_def by simp
  show ?thesis
  proof (cases "length (vvTried ?A ! k) < 64")
    case True
    then show ?thesis unfolding m using settle_room [OF U k True] tr j by (simp add: ADDRMAN_TRIED_BUCKET_SIZE_def)
  next
    case False
    let ?v = "vvTried ?A ! k"
    note T = uprooted_tried [OF U]
    have kT: "k < length (vvTried ?A)" using T(1) k by simp
    have sub: "set ?v \<subseteq> set (concat (vvTried ?A))" using nth_mem [OF kT] by auto
    have ids: "mapInfo ?A x \<noteq> None \<and> x \<noteq> - 1" if "x \<in> set ?v" for x
    proof -
      have "x \<in> set (concat (vvTried ?A))" using sub that by (rule subsetD)
      then obtain ix where "mapInfo ?A x = Some ix" unfolding T(3) by blast
      then show ?thesis using U unfolding uprooted_def ids_ok_def by force
    qed
    have dv: "distinct ?v" using T(2) nth_mem [OF kT] by (auto simp: distinct_concat_iff)
    let ?Q = "\<lambda>(p, B). \<exists>v. B = ?A\<lparr>vvTried := (vvTried ?A)[k := v]\<rparr> \<and> set v = set ?v \<and> distinct v \<and> length v = length ?v \<and>
      0 \<le> p \<and> p < int (length v)"
    have sel: "safely ?Q (SelectTried k ds ?A)" unfolding SelectTried_def Let_def
    proof (rule safely_and_then [OF select_tried_safe [of ?v ?A]])
      show "\<forall>i\<in>set [0..<min ADDRMAN_TRIED_ENTRIES_INSPECT_ON_EVICT (length ?v)]. i < length ?v" by simp
    next
      fix a ds1
      assume "case a of (p', v') \<Rightarrow> set v' = set ?v \<and> distinct v' \<and> length v' = length ?v \<and>
        ([0..<min ADDRMAN_TRIED_ENTRIES_INSPECT_ON_EVICT (length ?v)] \<noteq> [] \<or> - 1 \<noteq> (- 1 :: int) \<longrightarrow> 0 \<le> p' \<and> p' < int (length ?v))"
      then show "safely ?Q ((\<lambda>(nPos, vTried) ds. Drawn (nPos, ?A\<lparr>vvTried := (vvTried ?A)[k := vTried]\<rparr>) ds) a ds1)"
        using False by (cases a) (auto simp: ADDRMAN_TRIED_ENTRIES_INSPECT_ON_EVICT_def)
    qed (use ids dv in auto)
    have fin: "safely (\<lambda>A'. addr_inv A' None \<and> is_tried A' n)
       (case mapInfo B (vvTried B ! k ! nat p) of None \<Rightarrow> AssertFails
       | Some infoOld \<Rightarrow>
           let nUBucket = GetNewBucket E (amKey B) infoOld (addr_source infoOld);
               c = (if length (vvNew B ! nUBucket) < ADDRMAN_NEW_BUCKET_SIZE then nUBucket else b)
           in Drawn (evict n k (nat p) c B) ds1)"
      if Q: "?Q (p, B)" for p B ds1
    proof -
      obtain v where v: "B = ?A\<lparr>vvTried := (vvTried ?A)[k := v]\<rparr>" "set v = set ?v" "distinct v" "length v = length ?v"
        "0 \<le> p" "p < int (length v)" using Q by auto
      have UB: "uprooted B n" unfolding v(1) by (rule uprooted_shuffle [OF U k v(2,3,4)])
      have Bk: "vvTried B ! k = v" using v(1) kT by simp
      then have p: "nat p < length (vvTried B ! k)" using v(5,6) by simp
      have "v ! nat p \<in> set ?v" unfolding v(2) [symmetric] using p Bk by simp
      then obtain io where io: "mapInfo B (vvTried B ! k ! nat p) = Some io" using ids [of "v ! nat p"] Bk v(1) by auto
      let ?u = "GetNewBucket E (amKey B) io (addr_source io)"
      let ?c = "if length (vvNew B ! ?u) < 64 then ?u else b"
      have "?c < 256" using new_bucket b(1) by simp
      moreover have "length (vvNew B ! ?c) < 64" using lb v(1) by simp
      ultimately have "addr_inv (evict n k (nat p) ?c B) None" by (rule settle_evict [OF UB k p])
      moreover have "is_tried (evict n k (nat p) ?c B) n"
        unfolding evict_def Let_def using j(1) v(1) by (intro tr) (simp add: upd_info_map)
      ultimately show ?thesis by (simp add: io ADDRMAN_NEW_BUCKET_SIZE_def Let_def)
    qed
    have c: "(length ?v < ADDRMAN_TRIED_BUCKET_SIZE) = False" using False by (simp add: ADDRMAN_TRIED_BUCKET_SIZE_def)
    show ?thesis unfolding m c if_False
    proof (rule safely_and_then [OF sel])
      fix a ds1 assume Q: "?Q a"
      obtain p B where a: "a = (p, B)" by (cases a)
      show "safely (\<lambda>A'. addr_inv A' None \<and> is_tried A' n) ((\<lambda>(nPos, A) ds.
         case mapInfo A (vvTried A ! k ! nat nPos) of None \<Rightarrow> AssertFails
         | Some infoOld \<Rightarrow>
             let nUBucket = GetNewBucket E (amKey A) infoOld (addr_source infoOld);
                 c = (if length (vvNew A ! nUBucket) < ADDRMAN_NEW_BUCKET_SIZE then nUBucket else b)
             in Drawn (evict n k (nat nPos) c A) ds) a ds1)"
        unfolding a prod.case by (rule fin [OF Q [unfolded a]])
    qed
  qed
qed

end
