(* ===== verification/AddrRuns.thy ===== *)
theory AddrRuns
  imports AddrSafety
begin

text \<open>
  The runs of the address manager: every operation keeps the invariant of \<^verbatim>\<open>AddrSafety\<close> and fails no assertion,
  the consistency check of the debug build then answers zero, and there are never more addresses than the buckets hold.
\<close>

section \<open>Good addresses\<close>

lemma times_set:
  "times_ok (mapInfo A) \<Longrightarrow> (\<And>i. 0 \<le> nLastTry (f i) \<and> 0 < nLastSuccess (f i)) \<Longrightarrow> times_ok (mapInfo (upd_info n f A))"
  unfolding times_ok_def by (auto simp: upd_info_map order_less_imp_le split: if_splits)

lemma refs_ok_upd:
  assumes "refs_ok V (mapInfo A) x" "\<And>i. fInTried (f i) = fInTried i \<and> nRefCount (f i) = nRefCount i"
  shows "refs_ok V (mapInfo (upd_info n f A)) x"
proof (rule refs_okI)
  fix v m assume "v \<in> set V" "m \<in> set v"
  then have "mapInfo A m \<noteq> None" using assms(1) unfolding refs_ok_def by blast
  then show "mapInfo (upd_info n f A) m \<noteq> None" by (auto simp: upd_info_map)
next
  fix m i assume "mapInfo (upd_info n f A) m = Some i"
  then obtain i' where "mapInfo A m = Some i'" "fInTried i = fInTried i'" "nRefCount i = nRefCount i'"
    using assms(2) by (auto simp: upd_info_map split: if_splits)
  with refs_okD [OF assms(1) this(1)]
  show "nRefCount i = refs V m + (if x = Some m then 1 else 0)"
    "if fInTried i then nRefCount i = 0 else 0 < nRefCount i \<and> nRefCount i \<le> 4" by metis+
qed

lemma tried_ok_upd:
  assumes "tried_ok T (mapInfo A)" "\<And>i. fInTried (f i) = fInTried i"
  shows "tried_ok T (mapInfo (upd_info n f A))"
proof -
  have "(\<exists>i. mapInfo (upd_info n f A) m = Some i \<and> fInTried i) \<longleftrightarrow> (\<exists>i. mapInfo A m = Some i \<and> fInTried i)" for m
    using assms(2) by (auto simp: upd_info_map)
  then show ?thesis using assms(1) unfolding tried_ok_def by simp
qed

definition refreshed :: "int \<Rightarrow> CAddrInfo \<Rightarrow> CAddrInfo" where
  "refreshed t i = i\<lparr>nLastSuccess := t, nLastTry := t, aTime := word_of_int t, nAttempts := 0\<rparr>"

lemma refreshed_fun: "(\<lambda>i. i\<lparr>nLastSuccess := t, nLastTry := t, aTime := word_of_int t, nAttempts := 0\<rparr>) = refreshed t"
  by (simp add: refreshed_def fun_eq_iff)

lemma refreshed_inv:
  assumes "addr_inv A x" "0 < t"
  shows "addr_inv (upd_info n (refreshed t) A) x"
proof -
  have s: "fInTried (refreshed t i) = fInTried i" "nRefCount (refreshed t i) = nRefCount i" "ip (refreshed t i) = ip i"
    "nRandomPos (refreshed t i) = nRandomPos i" "nLastTry (refreshed t i) = t" "nLastSuccess (refreshed t i) = t" for i
    by (simp_all add: refreshed_def)
  have "times_ok (mapInfo A)" using assms(1) by (simp add: addr_inv_def)
  then have "times_ok (mapInfo (upd_info n (refreshed t) A))" by (rule times_set) (use assms(2) in \<open>simp add: s\<close>)
  then show ?thesis
    using assms(1) random_ok_upd [of _ A "refreshed t" n] ip_parts [of "refreshed t" _ A n] tried_ok_upd [of _ A "refreshed t" n]
      refs_ok_upd [of _ A x "refreshed t" n] unfolding addr_inv_def by (simp add: s)
qed

text \<open>An entry that is not tried is in a new bucket.\<close>

lemma in_some_bucket:
  assumes I: "addr_inv A None" and n: "mapInfo A n = Some i" "\<not> fInTried i"
  shows "\<exists>b<256. n \<in> set (vvNew A ! b)"
proof -
  have "refs_ok (vvNew A) (mapInfo A) None" using I by (simp add: addr_inv_def)
  from refs_okD [OF this n(1)] n(2) have "0 < refs (vvNew A) n" by simp
  then obtain b where "b < length (vvNew A)" "n \<in> set (vvNew A ! b)" by (metis refs_posD)
  then show ?thesis using I by (auto simp: addr_inv_def buckets_ok_def)
qed

lemma rotated: "r < l \<Longrightarrow> b < l \<Longrightarrow> b \<in> set (map (\<lambda>n. (n + r) mod l) [0..<l])" for b :: nat
proof -
  assume "r < l" "b < l"
  then have "((b + l - r) mod l + r) mod l = b" by (simp add: mod_add_left_eq)
  moreover have "(b + l - r) mod l < l" using \<open>b < l\<close> by simp
  ultimately show ?thesis by force
qed

lemma Find_known: "Find A a = Some (n, i) \<Longrightarrow> mapInfo A n = Some i"
  by (auto simp: Find_def split: option.splits)

lemma AddrMan_Good_safe:
  assumes I: "addr_inv A None" and t: "0 < t"
  shows "safely (\<lambda>A'. addr_inv A' None) (AddrMan_Good E now addr t ds A)"
proof (cases "Find A (ip addr)")
  case None
  then show ?thesis using I by (simp add: AddrMan_Good_def)
next
  case (Some p)
  then obtain n i where f: "Find A (ip addr) = Some (n, i)" by (cases p) simp
  define B where "B = upd_info n (refreshed t) A"
  have IB: "addr_inv B None" unfolding B_def by (rule refreshed_inv [OF I t])
  have m: "mapInfo B n = Some (refreshed t i)" unfolding B_def using Find_known [OF f] by (simp add: upd_info_map)
  have l: "length (vvNew B) = 256" using IB by (simp add: addr_inv_def buckets_ok_def)
  have g: "AddrMan_Good E now addr t ds A = (if \<not> CService_eq i addr then Drawn A ds else if fInTried i then Drawn B ds
      else and_then (GetRandInt 256 ds) (\<lambda>r ds.
        case find (\<lambda>b. n \<in> set (vvNew B ! b)) (map (\<lambda>k. (k + r) mod 256) [0..<256]) of
          Some b \<Rightarrow> MakeTried E n b ds B
        | None \<Rightarrow>
            let b = GetNewBucket E (amKey B) i (addr_source i) in
            if n \<in> set (vvNew B ! b) \<or> nRefCount i \<ge> ADDRMAN_NEW_BUCKETS_PER_ADDRESS then Drawn B ds
            else and_then (join_bucket now n b ds B) (\<lambda>A ds. MakeTried E n b ds A)))"
    using l unfolding AddrMan_Good_def f option.case prod.case Let_def refreshed_fun B_def by simp
  show ?thesis
  proof (cases "\<not> CService_eq i addr \<or> fInTried i")
    case True
    then show ?thesis unfolding g using I IB by simp
  next
    case False
    have nt: "\<not> fInTried (refreshed t i)" using False by (simp add: refreshed_def)
    obtain b0 where b0: "b0 < 256" "n \<in> set (vvNew B ! b0)" using in_some_bucket [OF IB m nt] by blast
    have "safely (\<lambda>A'. addr_inv A' None) (and_then (GetRandInt 256 ds) (\<lambda>r ds.
        case find (\<lambda>b. n \<in> set (vvNew B ! b)) (map (\<lambda>k. (k + r) mod 256) [0..<256]) of
          Some b \<Rightarrow> MakeTried E n b ds B
        | None \<Rightarrow>
            let b = GetNewBucket E (amKey B) i (addr_source i) in
            if n \<in> set (vvNew B ! b) \<or> nRefCount i \<ge> ADDRMAN_NEW_BUCKETS_PER_ADDRESS then Drawn B ds
            else and_then (join_bucket now n b ds B) (\<lambda>A ds. MakeTried E n b ds A)))"
    proof (rule safely_and_then [OF safely_draw])
      fix r ds1 assume r: "r < (256 :: nat)"
      have "find (\<lambda>b. n \<in> set (vvNew B ! b)) (map (\<lambda>k. (k + r) mod 256) [0..<256]) \<noteq> None"
        unfolding find_None_iff using rotated [OF r b0(1)] b0(2) by blast
      then obtain b where b: "find (\<lambda>b. n \<in> set (vvNew B ! b)) (map (\<lambda>k. (k + r) mod 256) [0..<256]) = Some b" by blast
      then have "n \<in> set (vvNew B ! b)" "b \<in> set (map (\<lambda>k. (k + r) mod 256) [0..<256])"
        unfolding find_Some_iff by (auto intro: nth_mem)
      then have "safely (\<lambda>A'. addr_inv A' None \<and> is_tried A' n) (MakeTried E n b ds1 B)"
        using t by (intro MakeTried_safe [OF IB m nt]) (auto simp: refreshed_def)
      then show "safely (\<lambda>A'. addr_inv A' None)
       (case find (\<lambda>b. n \<in> set (vvNew B ! b)) (map (\<lambda>k. (k + r) mod 256) [0..<256]) of
          Some b \<Rightarrow> MakeTried E n b ds1 B
        | None \<Rightarrow>
            let b = GetNewBucket E (amKey B) i (addr_source i) in
            if n \<in> set (vvNew B ! b) \<or> nRefCount i \<ge> ADDRMAN_NEW_BUCKETS_PER_ADDRESS then Drawn B ds1
            else and_then (join_bucket now n b ds1 B) (\<lambda>A ds. MakeTried E n b ds A))"
        unfolding b option.case by (rule safely_mono) simp
    qed simp
    then show ?thesis unfolding g using False by simp
  qed
qed

section \<open>Added addresses\<close>

lemma add_ref_inv:
  assumes I: "addr_inv A None" and n: "mapInfo A n = Some i" "\<not> fInTried i" "nRefCount i < 4"
  shows "addr_inv (add_ref n A) (Some n)"
proof -
  let ?f = "\<lambda>i. i\<lparr>nRefCount := nRefCount i + 1\<rparr> :: CAddrInfo"
  have RO: "refs_ok (vvNew A) (mapInfo A) None" using I by (simp add: addr_inv_def)
  have "refs_ok (vvNew A) (mapInfo (upd_info n ?f A)) (Some n)"
  proof (rule refs_okI)
    fix v m assume "v \<in> set (vvNew A)" "m \<in> set v"
    then have "mapInfo A m \<noteq> None" using RO unfolding refs_ok_def by blast
    then show "mapInfo (upd_info n ?f A) m \<noteq> None" by (auto simp: upd_info_map)
  next
    fix m j assume j: "mapInfo (upd_info n ?f A) m = Some j"
    have "nRefCount j = refs (vvNew A) m + (if n = m then 1 else 0) \<and>
        (if fInTried j then nRefCount j = 0 else 0 < nRefCount j \<and> nRefCount j \<le> 4)"
    proof (cases "m = n")
      case True
      then have "j = ?f i" using j n(1) by (simp add: upd_info_map)
      then show ?thesis using True refs_okD [OF RO n(1)] n(2,3) by auto
    next
      case False
      then have "mapInfo A m = Some j" using j by (simp add: upd_info_map)
      with False refs_okD [OF RO this] show ?thesis by auto
    qed
    note A = this
    show "nRefCount j = refs (vvNew A) m + (if Some n = Some m then 1 else 0)" using A by simp
    show "if fInTried j then nRefCount j = 0 else 0 < nRefCount j \<and> nRefCount j \<le> 4" by (rule A [THEN conjunct2])
  qed
  then show ?thesis using I other_parts [of ?f] random_ok_upd [of _ A ?f n] unfolding addr_inv_def add_ref_def by simp
qed

lemma random_ok_append:
  assumes r: "random_ok R M" and n: "M n = None" and i: "nRandomPos i = int (length R)"
  shows "random_ok (R @ [n]) (M(n \<mapsto> i))"
proof -
  have d: "distinct R" "set R = dom M" using r by (simp_all add: random_ok_def)
  then have "n \<notin> set R" using n by auto
  moreover have "nRandomPos j = int k" if k: "k < length (R @ [n])" and m: "(M(n \<mapsto> i)) ((R @ [n]) ! k) = Some j" for k j
  proof (cases "k = length R")
    case True then show ?thesis using m i by simp
  next
    case False
    then have kl: "k < length R" using k by simp
    then have "R ! k \<noteq> n" using \<open>n \<notin> set R\<close> nth_mem by blast
    then show ?thesis using kl m r by (simp add: nth_append random_ok_def)
  qed
  ultimately show ?thesis unfolding random_ok_def using d by auto
qed

lemma fresh_entry:
  assumes I: "addr_inv A None" and a: "mapAddr A (ip i) = None"
    and i: "\<not> fInTried i" "nRefCount i = 1" "nRandomPos i = int (length (vRandom A))" "nLastTry i = 0" "nLastSuccess i = 0"
  shows "addr_inv (A\<lparr>nIdCount := nIdCount A + 1, mapInfo := (mapInfo A)(nIdCount A \<mapsto> i),
    mapAddr := (mapAddr A)(ip i \<mapsto> nIdCount A), vRandom := vRandom A @ [nIdCount A], nNew := nNew A + 1\<rparr>) (Some (nIdCount A))"
proof -
  let ?n = "nIdCount A" and ?M = "(mapInfo A)(nIdCount A \<mapsto> i)"
  have P: "random_ok (vRandom A) (mapInfo A)" "by_addr_ok (mapAddr A) (mapInfo A)" "ids_ok ?n (mapInfo A)"
    "tried_ok (vvTried A) (mapInfo A)" "refs_ok (vvNew A) (mapInfo A) None" "times_ok (mapInfo A)"
    using I by (simp_all add: addr_inv_def)
  have n: "mapInfo A ?n = None" using P(3) unfolding ids_ok_def by (metis less_irrefl not_None_eq)
  have "by_addr_ok ((mapAddr A)(ip i \<mapsto> ?n)) ?M"
    using P(2) n a unfolding by_addr_ok_def by (auto split: if_splits) (metis option.distinct(1))+
  moreover have "ids_ok (?n + 1) ?M"
    using P(3) unfolding ids_ok_def by (fastforce split: if_splits)
  moreover have "tried_ok (vvTried A) ?M"
    using P(4) n i(1) unfolding tried_ok_def by (metis fun_upd_apply option.distinct(1) option.inject)
  moreover have "refs_ok (vvNew A) ?M (Some ?n)"
  proof (rule refs_okI)
    fix v m assume "v \<in> set (vvNew A)" "m \<in> set v"
    then have "mapInfo A m \<noteq> None" using P(5) unfolding refs_ok_def by blast
    then show "?M m \<noteq> None" by simp
  next
    fix m j assume j: "?M m = Some j"
    have "nRefCount j = refs (vvNew A) m + (if ?n = m then 1 else 0) \<and>
        (if fInTried j then nRefCount j = 0 else 0 < nRefCount j \<and> nRefCount j \<le> 4)"
    proof (cases "m = ?n")
      case True
      have "refs (vvNew A) ?n = 0" unfolding refs_0 using P(5) n unfolding refs_ok_def by blast
      then show ?thesis using True j i by simp
    next
      case False
      with j refs_okD [OF P(5), of m j] show ?thesis by auto
    qed
    note A = this
    show "nRefCount j = refs (vvNew A) m + (if Some ?n = Some m then 1 else 0)" using A by simp
    show "if fInTried j then nRefCount j = 0 else 0 < nRefCount j \<and> nRefCount j \<le> 4" by (rule A [THEN conjunct2])
  qed
  moreover have "times_ok ?M" using P(6) i unfolding times_ok_def by auto
  moreover note random_ok_append [OF P(1) n i(3)]
  ultimately show ?thesis using I unfolding addr_inv_def by simp
qed

lemma unknown_addr: "addr_inv A None \<Longrightarrow> Find A a = None \<Longrightarrow> mapAddr A a = None"
  unfolding addr_inv_def by_addr_ok_def Find_def by (metis (mono_tags, lifting) not_None_eq option.case(2) option.distinct(1))

text \<open>What a refresh leaves: the entry may join a bucket only when it is not tried and has room for a reference.\<close>

lemma refresh_safe:
  assumes I: "addr_inv A None" and n: "mapInfo A n = Some i"
  shows "safely (\<lambda>(go, A'). addr_inv A' None \<and> (go \<longrightarrow> (\<exists>j. mapInfo A' n = Some j \<and> \<not> fInTried j \<and> nRefCount j < 4)))
    (refresh now addr pen n i ds A)"
proof -
  have u: "addr_inv (upd_info n (\<lambda>i. i\<lparr>aTime := t, nServices := nServices i OR nServices addr\<rparr>) A) None" for t
    using I by (rule addr_inv_upd) (simp_all add: rest_of_def)
  have c: "nRefCount i = 4 \<or> fInTried i \<or> nRefCount i < 4"
    using refs_okD [of "vvNew A" "mapInfo A" None n i] I n by (auto simp: addr_inv_def split: if_splits)
  have j: "\<not> fInTried i \<Longrightarrow> nRefCount i \<noteq> 4 \<Longrightarrow>
      \<exists>j. mapInfo (upd_info n (\<lambda>i. i\<lparr>aTime := t, nServices := nServices i OR nServices addr\<rparr>) A) n = Some j \<and> \<not> fInTried j \<and> nRefCount j < 4" for t
    using c n by (auto simp: upd_info_map)
  have d: "safely (\<lambda>(go, A'). addr_inv A' None \<and> (go \<longrightarrow> (\<exists>j. mapInfo A' n = Some j \<and> \<not> fInTried j \<and> nRefCount j < 4)))
     (and_then (GetRandInt k ds) (\<lambda>r ds. Drawn (r = 0, B) ds))"
    if "addr_inv B None" "\<exists>j. mapInfo B n = Some j \<and> \<not> fInTried j \<and> nRefCount j < 4" for k B
    using that by (intro safely_and_then [OF safely_any]) simp
  show ?thesis
    unfolding refresh_def Let_def ADDRMAN_NEW_BUCKETS_PER_ADDRESS_def using u j d by (simp split: if_split)
qed

lemma AddrMan_Add_safe:
  assumes I: "addr_inv A None"
  shows "safely (\<lambda>(_, A'). addr_inv A' None) (AddrMan_Add E now addr src pen ds A)"
proof (cases "IsRoutable addr")
  case False
  then show ?thesis using I by (simp add: AddrMan_Add_def)
next
  case True
  let ?Q = "\<lambda>(go, fNew :: bool, n, B). (\<not> go \<longrightarrow> addr_inv B None) \<and>
    (go \<longrightarrow> mapInfo B n \<noteq> None \<and> addr_inv (add_ref n B) (Some n) \<and> (addr_inv B None \<or> (\<forall>b<256. n \<notin> set (vvNew B ! b))))"
  let ?first = "case Find A (ip addr) of
      Some (nId, info) \<Rightarrow>
        and_then (refresh now addr pen nId info ds A) (\<lambda>(goes_on, A) ds. Drawn (goes_on, False, nId, A) ds)
    | None \<Rightarrow>
        let (nId, A) = Create addr src A;
            A = upd_info nId (\<lambda>i. i\<lparr>aTime := word_of_int (max 0 (int (unat (aTime i)) - pen))\<rparr>) A
        in Drawn (True, True, nId, A\<lparr>nNew := nNew A + 1\<rparr>) ds"
  have first: "safely ?Q ?first"
  proof (cases "Find A (ip addr)")
    case None
    let ?n = "nIdCount A"
    define i where "i = (new_CAddrInfo addr src)\<lparr>nRandomPos := int (length (vRandom A)), aTime := word_of_int (max 0 (int (unat (aTime addr)) - pen))\<rparr>"
    define B where "B = A\<lparr>nIdCount := ?n + 1, mapInfo := (mapInfo A)(?n \<mapsto> i), mapAddr := (mapAddr A)(ip addr \<mapsto> ?n),
      vRandom := vRandom A @ [?n], nNew := nNew A + 1\<rparr>"
    have s: "?first = Drawn (True, True, ?n, B) ds"
      unfolding None option.case by (simp add: Create_def Let_def upd_info_def B_def i_def new_CAddrInfo_def)
    have ii: "ip (i\<lparr>nRefCount := 1\<rparr>) = ip addr" by (simp add: i_def new_CAddrInfo_def)
    have "add_ref ?n B = A\<lparr>nIdCount := ?n + 1, mapInfo := (mapInfo A)(?n \<mapsto> i\<lparr>nRefCount := 1\<rparr>),
        mapAddr := (mapAddr A)(ip (i\<lparr>nRefCount := 1\<rparr>) \<mapsto> ?n), vRandom := vRandom A @ [?n], nNew := nNew A + 1\<rparr>"
      unfolding ii by (simp add: add_ref_def upd_info_def B_def) (simp add: i_def new_CAddrInfo_def)
    moreover have "addr_inv \<dots> (Some ?n)"
      by (rule fresh_entry [OF I]) (use unknown_addr [OF I None] ii in \<open>simp_all add: i_def new_CAddrInfo_def\<close>)
    moreover have "mapInfo B ?n \<noteq> None" by (simp add: B_def)
    moreover have "?n \<notin> set (vvNew B ! b)" if b: "b < 256" for b
    proof
      assume "?n \<in> set (vvNew B ! b)"
      then have "?n \<in> set (vvNew A ! b)" by (simp add: B_def)
      from in_bucket(3) [OF I b this] show False by simp
    qed
    ultimately show ?thesis unfolding s by simp
  next
    case (Some p)
    then obtain n i where f: "Find A (ip addr) = Some (n, i)" by (cases p) simp
    have r: "safely (\<lambda>(go, A'). addr_inv A' None \<and> (go \<longrightarrow> (\<exists>j. mapInfo A' n = Some j \<and> \<not> fInTried j \<and> nRefCount j < 4)))
        (refresh now addr pen n i ds A)" by (rule refresh_safe [OF I Find_known [OF f]])
    show ?thesis unfolding f option.case prod.case
    proof (rule safely_and_then [OF r])
      fix a ds1
      assume "case a of (go, A') \<Rightarrow> addr_inv A' None \<and> (go \<longrightarrow> (\<exists>j. mapInfo A' n = Some j \<and> \<not> fInTried j \<and> nRefCount j < 4))"
      then show "safely ?Q ((\<lambda>(goes_on, A) ds. Drawn (goes_on, False, n, A) ds) a ds1)"
        using add_ref_inv by (cases a) auto
    qed
  qed
  have rest: "safely (\<lambda>(_, A'). addr_inv A' None)
      (if \<not> go then Drawn (False, B) ds1
       else case mapInfo B n of None \<Rightarrow> AssertFails
         | Some info \<Rightarrow>
             let b = GetNewBucket E (amKey B) info src in
             if n \<in> set (vvNew B ! b) then Drawn (fNew, B) ds1
             else and_then (join_bucket now n b ds1 B) (\<lambda>A ds. Drawn (fNew, A) ds))"
    if Q: "?Q (go, fNew, n, B)" for go fNew n B ds1
  proof (cases go)
    case False
    then show ?thesis using Q by simp
  next
    case True
    then have m: "mapInfo B n \<noteq> None" and a: "addr_inv (add_ref n B) (Some n)"
      and o: "addr_inv B None \<or> (\<forall>b<256. n \<notin> set (vvNew B ! b))" using Q by simp_all
    obtain j where j: "mapInfo B n = Some j" using m by blast
    define b where "b = GetNewBucket E (amKey B) j src"
    have b: "b < 256" unfolding b_def by (rule new_bucket)
    show ?thesis
    proof (cases "n \<in> set (vvNew B ! b)")
      case True
      with o b have "addr_inv B None" by blast
      then show ?thesis using True \<open>go\<close> unfolding j option.case Let_def b_def by simp
    next
      case False
      have "safely (\<lambda>(_, A'). addr_inv A' None) (and_then (join_bucket now n b ds1 B) (\<lambda>A ds. Drawn (fNew, A) ds))"
        by (rule safely_and_then [OF join_bucket_safe [OF a b False m]]) simp
      then show ?thesis using False \<open>go\<close> unfolding j option.case Let_def b_def by simp
    qed
  qed
  have r: "AddrMan_Add E now addr src pen ds A = and_then ?first (\<lambda>(go, fNew, n, B) ds.
      if \<not> go then Drawn (False, B) ds
       else case mapInfo B n of None \<Rightarrow> AssertFails
         | Some info \<Rightarrow>
             let b = GetNewBucket E (amKey B) info src in
             if n \<in> set (vvNew B ! b) then Drawn (fNew, B) ds
             else and_then (join_bucket now n b ds B) (\<lambda>A ds. Drawn (fNew, A) ds))"
    using True by (simp add: AddrMan_Add_def)
  show ?thesis unfolding r
  proof (rule safely_and_then [OF first])
    fix a ds1 assume Q: "?Q a"
    obtain go fNew n B where a: "a = (go, fNew, n, B)" by (metis prod_cases4)
    show "safely (\<lambda>(_, A'). addr_inv A' None) ((\<lambda>(go, fNew, n, B) ds.
      if \<not> go then Drawn (False, B) ds
       else case mapInfo B n of None \<Rightarrow> AssertFails
         | Some info \<Rightarrow>
             let b = GetNewBucket E (amKey B) info src in
             if n \<in> set (vvNew B ! b) then Drawn (fNew, B) ds
             else and_then (join_bucket now n b ds B) (\<lambda>A ds. Drawn (fNew, A) ds)) a ds1)"
      unfolding a prod.case by (rule rest [OF Q [unfolded a]])
  qed
qed

section \<open>The other operations\<close>

lemma AddrMan_Attempt_inv: "addr_inv A None \<Longrightarrow> 0 \<le> t \<Longrightarrow> addr_inv (AddrMan_Attempt addr t A) None"
proof (cases "Find A (ip addr)")
  case (Some p)
  then obtain n i where f: "Find A (ip addr) = Some (n, i)" by (cases p) simp
  let ?f = "\<lambda>i. i\<lparr>nLastTry := t, nAttempts := nAttempts i + 1\<rparr> :: CAddrInfo"
  assume I: "addr_inv A None" and t: "0 \<le> t"
  have "times_ok (mapInfo A)" using I by (simp add: addr_inv_def)
  then have "times_ok (mapInfo (upd_info n ?f A))" using t unfolding times_ok_def by (auto simp: upd_info_map split: if_splits)
  then have "addr_inv (upd_info n ?f A) None"
    using I random_ok_upd [of _ A ?f n] ip_parts [of ?f _ A n] tried_ok_upd [of _ A ?f n]
      refs_ok_upd [of _ A None ?f n] unfolding addr_inv_def by simp
  then show ?thesis using f I by (simp add: AddrMan_Attempt_def)
qed (simp add: AddrMan_Attempt_def)

lemma AddrMan_Connected_inv: "addr_inv A None \<Longrightarrow> addr_inv (AddrMan_Connected addr t A) None"
proof (cases "Find A (ip addr)")
  case (Some p)
  then obtain n i where f: "Find A (ip addr) = Some (n, i)" by (cases p) simp
  assume I: "addr_inv A None"
  then have "addr_inv (upd_info n (\<lambda>i. i\<lparr>aTime := word_of_int t\<rparr>) A) None"
    by (rule addr_inv_upd) (simp_all add: rest_of_def)
  then show ?thesis using f I by (simp add: AddrMan_Connected_def)
qed (simp add: AddrMan_Connected_def)

lemma SwapRandom_safe:
  assumes I: "addr_inv A None" and p: "0 \<le> p" "p < int (length (vRandom A))" and q: "0 \<le> q" "q < int (length (vRandom A))"
  shows "safely (\<lambda>A'. addr_inv A' None \<and> length (vRandom A') = length (vRandom A)) (SwapRandom p q ds A)"
proof -
  have R: "random_ok (vRandom A) (mapInfo A)" using I by (simp add: addr_inv_def)
  obtain A' where A': "SwapRandom p q ds A = Drawn A' ds" "random_ok (vRandom A') (mapInfo A')"
    "length (vRandom A') = length (vRandom A)" "\<And>n. map_option rest_of (mapInfo A' n) = map_option rest_of (mapInfo A n)"
    "A' = A\<lparr>mapInfo := mapInfo A', vRandom := vRandom A'\<rparr>"
    using swap_random [OF R p q, of ds] by blast
  note s = rest_same [where M = "mapInfo A" and M' = "mapInfo A'", OF A'(4) [symmetric]]
  have f: "mapAddr A' = mapAddr A" "nIdCount A' = nIdCount A" "vvTried A' = vvTried A" "vvNew A' = vvNew A"
    "nTried A' = nTried A" "nNew A' = nNew A"
    by (subst A'(5), simp)+
  have "addr_inv A' None" using I A'(2,3) s unfolding addr_inv_def f by simp
  then show ?thesis using A'(1,3) by simp
qed

lemma get_addr_loop_safe:
  "addr_inv A None \<Longrightarrow> \<forall>n\<in>set ns. n < length (vRandom A) \<Longrightarrow>
   safely (\<lambda>(v, A'). addr_inv A' None \<and> length v = length ns) (get_addr_loop ns ds A)"
proof (induction ns arbitrary: ds A)
  case (Cons n ns)
  show ?case unfolding get_addr_loop.simps
  proof (rule safely_and_then [OF safely_draw])
    show "0 < length (vRandom A) - n" using Cons.prems by simp
  next
    fix r ds1 assume r: "r < length (vRandom A) - n"
    show "safely (\<lambda>(v, A'). addr_inv A' None \<and> length v = length (n # ns))
      (and_then (SwapRandom (int n) (int (r + n)) ds1 A) (\<lambda>A ds.
         case mapInfo A (vRandom A ! n) of None \<Rightarrow> AssertFails
         | Some info \<Rightarrow> and_then (get_addr_loop ns ds A) (\<lambda>(vAddr, A) ds. Drawn (info # vAddr, A) ds)))"
    proof (rule safely_and_then [OF SwapRandom_safe [OF Cons.prems(1)]])
      fix B ds2 assume B: "addr_inv B None \<and> length (vRandom B) = length (vRandom A)"
      then have n: "n < length (vRandom B)" "\<forall>n\<in>set ns. n < length (vRandom B)" using Cons.prems(2) by simp_all
      then have "vRandom B ! n \<in> dom (mapInfo B)" using B nth_mem [OF n(1)] by (simp add: addr_inv_def random_ok_def)
      then obtain info where i: "mapInfo B (vRandom B ! n) = Some info" by blast
      have "safely (\<lambda>(v, A'). addr_inv A' None \<and> length v = length (n # ns))
          (and_then (get_addr_loop ns ds2 B) (\<lambda>(vAddr, A) ds. Drawn (info # vAddr, A) ds))"
        by (rule safely_and_then [OF Cons.IH]) (use B n in auto)
      then show "safely (\<lambda>(v, A'). addr_inv A' None \<and> length v = length (n # ns))
         (case mapInfo B (vRandom B ! n) of None \<Rightarrow> AssertFails
         | Some info \<Rightarrow> and_then (get_addr_loop ns ds2 B) (\<lambda>(vAddr, A) ds. Drawn (info # vAddr, A) ds))"
        unfolding i option.case .
    qed (use r Cons.prems in auto)
  qed
qed simp

lemma AddrMan_GetAddr_safe:
  assumes "addr_inv A None"
  shows "safely (\<lambda>(v, A'). addr_inv A' None \<and> length v \<le> 2500) (AddrMan_GetAddr ds A)"
  unfolding AddrMan_GetAddr_def Let_def
  by (rule safely_mono [OF get_addr_loop_safe [OF assms]]) (auto simp: ADDRMAN_GETADDR_MAX_def ADDRMAN_GETADDR_MAX_PCT_def)

lemma safely_draws: "(\<And>i ds'. GetRandInt n ds = Drawn i ds' \<Longrightarrow> safely Q (f i ds')) \<Longrightarrow> safely Q (and_then (GetRandInt n ds) f)"
  using GetRandInt_no_assert [of n ds] by (cases "GetRandInt n ds") simp_all

lemma select_node_safe:
  "(\<And>v n. v \<in> set buckets \<Longrightarrow> n \<in> set v \<Longrightarrow> mapInfo A n \<noteq> None) \<Longrightarrow> buckets \<noteq> [] \<Longrightarrow>
   safely (\<lambda>info. \<exists>n. mapInfo A n = Some info) (select_node now A buckets f ds)"
proof (induction now A buckets f ds rule: select_node.induct)
  case (1 now A buckets f ds)
  let ?S = "safely (\<lambda>info. \<exists>n. mapInfo A n = Some info)"
  have "?S (if buckets ! b = [] then select_node now A buckets f ds1
          else
            and_then (GetRandInt (length (buckets ! b)) ds1) (\<lambda>nPos ds2.
              case mapInfo A (buckets ! b ! nPos) of None \<Rightarrow> AssertFails
              | Some info \<Rightarrow>
                  and_then (GetRandInt (2 ^ 30) ds2) (\<lambda>r ds3.
                    if real r < f * GetChance now info * 2 ^ 30 then Drawn info ds3
                    else select_node now A buckets (f * (6 / 5)) ds3)))"
    if b: "GetRandInt (length buckets) ds = Drawn b ds1" for b ds1
  proof (cases "buckets ! b = []")
    case True
    then show ?thesis using "1.IH"(1) [OF _ b] 1(3,4) by simp
  next
    case False
    have bl: "buckets ! b \<in> set buckets" using GetRandInt_less [OF b] 1(4) by (intro nth_mem) simp
    have "?S (case mapInfo A (buckets ! b ! nPos) of None \<Rightarrow> AssertFails
              | Some info \<Rightarrow>
                  and_then (GetRandInt (2 ^ 30) ds2) (\<lambda>r ds3.
                    if real r < f * GetChance now info * 2 ^ 30 then Drawn info ds3
                    else select_node now A buckets (f * (6 / 5)) ds3))"
      if p: "GetRandInt (length (buckets ! b)) ds1 = Drawn nPos ds2" for nPos ds2
    proof -
      have "buckets ! b ! nPos \<in> set (buckets ! b)" using GetRandInt_less [OF p] False by (intro nth_mem) simp
      then obtain info where i: "mapInfo A (buckets ! b ! nPos) = Some info" using 1(3) [OF bl] by blast
      show ?thesis unfolding i option.case
      proof (rule safely_draws)
        fix r ds3 assume r: "GetRandInt (2 ^ 30) ds2 = Drawn r ds3"
        show "?S (if real r < f * GetChance now info * 2 ^ 30 then Drawn info ds3 else select_node now A buckets (f * (6 / 5)) ds3)"
          using i "1.IH"(2) [OF 1(4) b False p i r] 1(3,4) by auto
      qed
    qed
    then show ?thesis using False by (simp only: if_False) (rule safely_draws)
  qed
  then show ?case by (subst select_node.simps) (simp only: 1(4) if_False, rule safely_draws)
qed

lemma AddrMan_Select_safe:
  assumes I: "addr_inv A None"
  shows "safely (\<lambda>addr. vRandom A \<noteq> [] \<longrightarrow> (\<exists>n info. mapInfo A n = Some info \<and> addr = CAddress.truncate info))
    (AddrMan_Select now bias ds A)"
proof (cases "vRandom A = []")
  case True
  then show ?thesis by (simp add: AddrMan_Select_def)
next
  case False
  have V: "length (vvTried A) = 64" "length (vvNew A) = 256" using I by (simp_all add: addr_inv_def tried_ok_def buckets_ok_def)
  have tr: "mapInfo A n \<noteq> None" if "v \<in> set (vvTried A)" "n \<in> set v" for v n
  proof -
    from that have "n \<in> set (concat (vvTried A))" by auto
    then show ?thesis using I unfolding addr_inv_def tried_ok_def by (metis option.distinct(1))
  qed
  have nw: "mapInfo A n \<noteq> None" if "v \<in> set (vvNew A)" "n \<in> set v" for v n
    using I that unfolding addr_inv_def refs_ok_def by blast
  have s: "safely (\<lambda>info. \<exists>n. mapInfo A n = Some info) (select_node now A (if c then vvTried A else vvNew A) f ds)" for c f ds
    using V tr nw by (intro select_node_safe) (auto split: if_splits)
  have t: "safely (\<lambda>addr. \<exists>n info. mapInfo A n = Some info \<and> addr = CAddress.truncate info)
      (and_then (select_node now A (if c then vvTried A else vvNew A) 1 ds) (\<lambda>info ds. Drawn (CAddress.truncate info) ds))" for c ds
    by (rule safely_and_then [OF s]) auto
  have "safely (\<lambda>addr. \<exists>n info. mapInfo A n = Some info \<and> addr = CAddress.truncate info) (AddrMan_Select now bias ds A)"
    using False unfolding AddrMan_Select_def Let_def by (simp only: length_0_conv if_False) (rule safely_draws, rule t)
  then show ?thesis by (rule safely_mono) simp
qed

section \<open>The check of the debug build\<close>

definition tried_ids :: "CAddrMan \<Rightarrow> int set" where
  "tried_ids A = {n. \<exists>i. mapInfo A n = Some i \<and> fInTried i}"

definition new_refs :: "CAddrMan \<Rightarrow> int \<rightharpoonup> int" where
  "new_refs A n = (case mapInfo A n of Some i \<Rightarrow> if fInTried i then None else Some (nRefCount i) | None \<Rightarrow> None)"

lemma check_entries_ok:
  assumes I: "addr_inv A None"
  shows "check_entries A ns S m = Inr (S \<union> (set ns \<inter> tried_ids A), \<lambda>n. if n \<in> set ns \<and> new_refs A n \<noteq> None then new_refs A n else m n)"
proof (induction ns arbitrary: S m)
  case (Cons n ns)
  show ?case
  proof (cases "mapInfo A n")
    case None
    then show ?thesis using Cons by (auto simp: tried_ids_def new_refs_def fun_eq_iff)
  next
    case (Some i)
    have R: "random_ok (vRandom A) (mapInfo A)" "by_addr_ok (mapAddr A) (mapInfo A)" "refs_ok (vvNew A) (mapInfo A) None"
      "times_ok (mapInfo A)" using I by (simp_all add: addr_inv_def)
    note p = random_pos [OF R(1) Some]
    have a: "mapAddr A (ip i) = Some n" using R(2) Some unfolding by_addr_ok_def by blast
    have r: "if fInTried i then nRefCount i = 0 else 0 < nRefCount i \<and> nRefCount i \<le> 4" using refs_okD [OF R(3) Some] by blast
    have t: "0 \<le> nLastTry i" "0 \<le> nLastSuccess i" "fInTried i \<longrightarrow> 0 < nLastSuccess i" using R(4) Some unfolding times_ok_def by blast+
    show ?thesis
    proof (cases "fInTried i")
      case True
      then have "check_entries A (n # ns) S m = check_entries A ns (insert n S) m"
        using Some p a r t by (simp add: ADDRMAN_NEW_BUCKETS_PER_ADDRESS_def)
      then show ?thesis using Cons True Some by (auto simp: tried_ids_def new_refs_def fun_eq_iff)
    next
      case False
      then have "check_entries A (n # ns) S m = check_entries A ns S (m(n \<mapsto> nRefCount i))"
        using Some p a r t by (simp add: ADDRMAN_NEW_BUCKETS_PER_ADDRESS_def)
      then show ?thesis using Cons False Some by (auto simp: tried_ids_def new_refs_def fun_eq_iff)
    qed
  qed
qed (simp add: fun_eq_iff)

lemma check_tried_ok: "distinct ns \<Longrightarrow> set ns \<subseteq> S \<Longrightarrow> check_tried ns S = Inr (S - set ns)"
proof (induction ns arbitrary: S)
  case (Cons n ns)
  then have "set ns \<subseteq> S - {n}" by auto
  then have "check_tried ns (S - {n}) = Inr (S - {n} - set ns)" using Cons by simp
  moreover have "S - {n} - set ns = S - set (n # ns)" by auto
  ultimately show ?case using Cons.prems by simp
qed simp

lemma check_new_ok:
  "(\<And>n. m n = (if count_list ns n = 0 then None else Some (int (count_list ns n)))) \<Longrightarrow> check_new ns m = Inr Map.empty"
proof (induction ns arbitrary: m)
  case Nil
  then show ?case by (simp add: fun_eq_iff)
next
  case (Cons n ns)
  have n: "m n = Some (1 + int (count_list ns n))" using Cons.prems [of n] by simp
  show ?case
  proof (cases "count_list ns n = 0")
    case True
    have "check_new ns (m(n := None)) = Inr Map.empty"
    proof (rule Cons.IH)
      fix k show "(m(n := None)) k = (if count_list ns k = 0 then None else Some (int (count_list ns k)))"
        using Cons.prems [of k] True by auto
    qed
    then show ?thesis using n True by simp
  next
    case False
    have "check_new ns (m(n \<mapsto> int (count_list ns n))) = Inr Map.empty"
    proof (rule Cons.IH)
      fix k show "(m(n \<mapsto> int (count_list ns n))) k = (if count_list ns k = 0 then None else Some (int (count_list ns k)))"
        using Cons.prems [of k] False by auto
    qed
    then show ?thesis using n False by simp
  qed
qed

lemma count_distinct: "distinct v \<Longrightarrow> int (count_list v n) = ind v n"
  by (induction v) (auto simp: ind_def)

lemma count_refs: "\<forall>v\<in>set V. distinct v \<Longrightarrow> int (count_list (concat V) n) = refs V n"
proof (induction V)
  case (Cons v V)
  then have "int (count_list v n) = ind v n" by (simp add: count_distinct)
  then show ?case using Cons by (simp add: refs_Cons)
qed (simp add: refs_def)

lemma new_refs_count:
  assumes I: "addr_inv A None"
  shows "new_refs A n = (if count_list (concat (vvNew A)) n = 0 then None else Some (int (count_list (concat (vvNew A)) n)))"
proof -
  have RO: "refs_ok (vvNew A) (mapInfo A) None" and "buckets_ok (vvNew A)" using I by (simp_all add: addr_inv_def)
  then have c: "int (count_list (concat (vvNew A)) n) = refs (vvNew A) n" by (intro count_refs) (simp add: buckets_ok_def)
  then have z: "count_list (concat (vvNew A)) n = 0 \<longleftrightarrow> refs (vvNew A) n = 0" by linarith
  have "new_refs A n = (if refs (vvNew A) n = 0 then None else Some (refs (vvNew A) n))"
  proof (cases "mapInfo A n")
    case None
    then have "refs (vvNew A) n = 0" unfolding refs_0 using RO unfolding refs_ok_def by blast
    then show ?thesis using None by (simp add: new_refs_def)
  next
    case (Some i)
    from refs_okD [OF RO Some] show ?thesis using Some by (auto simp: new_refs_def)
  qed
  then show ?thesis unfolding z c .
qed

lemma tried_ids_eq: "addr_inv A x \<Longrightarrow> tried_ids A = set (concat (vvTried A))"
  unfolding addr_inv_def tried_ok_def tried_ids_def by blast

lemma dom_split: "dom (mapInfo A) = tried_ids A \<union> dom (new_refs A)" "tried_ids A \<inter> dom (new_refs A) = {}"
  by (auto simp: tried_ids_def new_refs_def split: option.splits if_splits)

lemma counts:
  assumes I: "addr_inv A None"
  shows "int (card (tried_ids A)) = nTried A" "int (card (dom (new_refs A))) = nNew A" "finite (dom (mapInfo A))"
proof -
  have d: "distinct (vRandom A)" "dom (mapInfo A) = set (vRandom A)" "distinct (concat (vvTried A))"
    using I by (simp_all add: addr_inv_def random_ok_def tried_ok_def)
  then show f: "finite (dom (mapInfo A))" by simp
  show t: "int (card (tried_ids A)) = nTried A"
    unfolding tried_ids_eq [OF I] distinct_card [OF d(3)] using I by (simp add: addr_inv_def)
  have "card (dom (mapInfo A)) = length (vRandom A)" unfolding d(2) by (rule distinct_card [OF d(1)])
  moreover have "card (dom (mapInfo A)) = card (tried_ids A) + card (dom (new_refs A))"
    using f unfolding dom_split(1) [of A] by (intro card_Un_disjoint) (simp_all add: dom_split)
  ultimately show "int (card (dom (new_refs A))) = nNew A" using t I by (simp add: addr_inv_def)
qed

lemma addr_inv_check:
  assumes I: "addr_inv A None"
  shows "AddrMan_Check A = 0"
proof -
  note C = counts [OF I]
  have s: "set (sorted_list_of_set (dom (mapInfo A))) = dom (mapInfo A)" using C(3) by simp
  have sub: "tried_ids A \<subseteq> dom (mapInfo A)" unfolding dom_split(1) by simp
  then have e1: "{} \<union> (dom (mapInfo A) \<inter> tried_ids A) = tried_ids A" by auto
  have e2: "(\<lambda>n. if n \<in> dom (mapInfo A) \<and> new_refs A n \<noteq> None then new_refs A n else None) = new_refs A"
    by (auto simp: fun_eq_iff new_refs_def split: option.splits)
  have e: "check_entries A (sorted_list_of_set (dom (mapInfo A))) {} Map.empty = Inr (tried_ids A, new_refs A)"
    unfolding check_entries_ok [OF I] s e1 e2 ..
  have "distinct (concat (vvTried A))" using I by (simp add: addr_inv_def tried_ok_def)
  then have t: "check_tried (concat (vvTried A)) (tried_ids A) = Inr {}"
    using check_tried_ok [of "concat (vvTried A)" "tried_ids A"] unfolding tried_ids_eq [OF I] by simp
  have n: "check_new (concat (vvNew A)) (new_refs A) = Inr Map.empty"
    by (rule check_new_ok) (rule new_refs_count [OF I])
  have l: "int (length (vRandom A)) = nTried A + nNew A" using I by (simp add: addr_inv_def)
  show ?thesis unfolding AddrMan_Check_def e sum.case prod.case t n using C l by simp
qed

lemma concat_length_bound: "\<forall>v\<in>set V. length v \<le> 64 \<Longrightarrow> length (concat V) \<le> 64 * length V"
  by (induction V) auto

lemma addr_inv_bounds:
  assumes I: "addr_inv A None"
  shows "length (concat (vvTried A)) \<le> 4096" "card (dom (new_refs A)) \<le> 16384"
proof -
  show "length (concat (vvTried A)) \<le> 4096"
    using I concat_length_bound [of "vvTried A"] by (simp add: addr_inv_def tried_ok_def)
  have "dom (new_refs A) \<subseteq> set (concat (vvNew A))"
  proof
    fix n assume "n \<in> dom (new_refs A)"
    then have "count_list (concat (vvNew A)) n \<noteq> 0" using new_refs_count [OF I, of n] by (auto split: if_splits)
    then show "n \<in> set (concat (vvNew A))" by (simp only: count_list_0_iff not_not)
  qed
  then have "card (dom (new_refs A)) \<le> length (concat (vvNew A))"
    by (rule order_trans [OF card_mono card_length, OF finite_set])
  also have "length (concat (vvNew A)) \<le> 64 * length (vvNew A)" using I by (intro concat_length_bound) (simp add: addr_inv_def buckets_ok_def)
  finally show "card (dom (new_refs A)) \<le> 16384" using I by (simp add: addr_inv_def buckets_ok_def)
qed

section \<open>Runs\<close>

text \<open>The operations on the tables, at any times and with any draws. Time is positive, as the adjusted time is.\<close>

inductive addr_step :: "ext \<Rightarrow> CAddrMan \<Rightarrow> CAddrMan \<Rightarrow> bool" for E where
  good: "0 < t \<Longrightarrow> AddrMan_Good E now addr t ds A = Drawn A' ds' \<Longrightarrow> addr_step E A A'"
| add: "AddrMan_Add E now a src pen ds A = Drawn (r, A') ds' \<Longrightarrow> addr_step E A A'"
| attempt: "0 < t \<Longrightarrow> addr_step E A (AddrMan_Attempt addr t A)"
| connected: "0 < t \<Longrightarrow> addr_step E A (AddrMan_Connected addr t A)"
| get_addr: "AddrMan_GetAddr ds A = Drawn (v, A') ds' \<Longrightarrow> addr_step E A A'"

inductive addr_run :: "ext \<Rightarrow> CAddrMan \<Rightarrow> bool" for E where
  start: "addr_run E (new_CAddrMan key)"
| step: "addr_run E A \<Longrightarrow> addr_step E A A' \<Longrightarrow> addr_run E A'"

lemma addr_inv_step: "addr_step E A A' \<Longrightarrow> addr_inv A None \<Longrightarrow> addr_inv A' None"
proof (induction rule: addr_step.induct)
  case (good t now addr ds A A' ds')
  then show ?case using AddrMan_Good_safe [of A t E now addr ds] by simp
next
  case (add now a src pen ds A r A' ds')
  then show ?case using AddrMan_Add_safe [of A E now a src pen ds] by simp
next
  case (attempt t A addr)
  then show ?case by (intro AddrMan_Attempt_inv) simp_all
next
  case (connected t A addr)
  then show ?case by (simp add: AddrMan_Connected_inv)
next
  case (get_addr ds A v A' ds')
  then show ?case using AddrMan_GetAddr_safe [of A ds] by simp
qed

lemma addr_inv_run: "addr_run E A \<Longrightarrow> addr_inv A None"
proof (induction rule: addr_run.induct)
  case (start key)
  show ?case
    unfolding addr_inv_def random_ok_def by_addr_ok_def ids_ok_def tried_ok_def buckets_ok_def refs_ok_def times_ok_def new_CAddrMan_def
      ADDRMAN_TRIED_BUCKET_COUNT_def ADDRMAN_NEW_BUCKET_COUNT_def
    by (simp add: concat_replicate_trivial)
next
  case (step A A')
  then show ?case by (blast intro: addr_inv_step)
qed

lemma safe_no_assert: "safely P m \<Longrightarrow> m \<noteq> AssertFails"
  by (cases m) simp_all

section \<open>Selection reaches every address\<close>

text \<open>Draws that give the wanted numbers.\<close>

lemma draw_exact: "n \<le> 2 ^ 32 \<Longrightarrow> i < n \<Longrightarrow> GetRandInt n (word_of_nat i # ds) = Drawn i ds"
proof -
  assume n: "n \<le> 2 ^ 32" and i: "i < n"
  have "i < 2 ^ 64" using n i by simp
  then have u: "unat (word_of_nat i :: u64) = i" by (simp add: unat_of_nat take_bit_nat_eq_self)
  have "1 \<le> (2 ^ 64 - 1) div n" using n i by (simp add: div_greater_zero_iff Suc_le_eq)
  then have "n \<le> (2 ^ 64 - 1) div n * n" by simp
  then have "i < (2 ^ 64 - 1) div n * n" using i by linarith
  then show ?thesis using i u by (simp add: GetRandInt_def GetRand_def)
qed

lemma GetChance_pos: "0 < GetChance now i"
proof -
  have q: "0 < 600 + real_of_int (max 0 k)" for k by simp
  then have "0 < 600 / (600 + real_of_int (max 0 k))" for k by (rule divide_pos_pos [rotated]) simp
  then have "0 < (if c then 600 / (600 + real_of_int (max 0 k)) * (1 / 100) else 600 / (600 + real_of_int (max 0 k)))" for c k
    by (simp only: zero_less_mult_iff split: if_split) simp
  then show ?thesis unfolding GetChance_def Let_def by (rule divide_pos_pos) simp
qed

lemma select_node_exact:
  assumes b: "b < length buckets" "length buckets \<le> 2 ^ 32" and p: "p < length (buckets ! b)" "length (buckets ! b) \<le> 2 ^ 32"
    and n: "mapInfo A (buckets ! b ! p) = Some info"
  shows "select_node now A buckets 1 [word_of_nat b, word_of_nat p, 0] = Drawn info []"
proof -
  have ne: "buckets \<noteq> []" "buckets ! b \<noteq> []" using b p by auto
  have d: "GetRandInt 1073741824 [0] = Drawn 0 []" using draw_exact [of 1073741824 0 "[]"] by simp
  show ?thesis
    by (subst select_node.simps) (simp add: ne draw_exact [OF b(2,1)] draw_exact [OF p(2,1)] n d GetChance_pos)
qed

lemma new_chosen: "0 \<le> a \<Longrightarrow> a \<le> 6400 \<Longrightarrow> 1 \<le> c \<Longrightarrow> \<not> (a + c) * real (2 ^ 30 - 1) / 2 ^ 30 < (a :: real)"
  by (simp add: field_simps)

lemma sqrt_le_64: "k \<le> 4096 \<Longrightarrow> sqrt (real_of_int k) \<le> 64"
proof -
  assume "k \<le> 4096"
  then have "real_of_int k \<le> 64\<^sup>2" by simp
  then show ?thesis by (rule real_le_lsqrt [rotated]) simp
qed

lemma select_node_in:
  assumes n: "n \<in> set (concat buckets)" "mapInfo A n = Some info" and l: "length buckets \<le> 256" "\<forall>v\<in>set buckets. length v \<le> 64"
  shows "\<exists>b p. select_node now A buckets 1 [b, p, 0] = Drawn info []"
proof -
  obtain v where v: "v \<in> set buckets" "n \<in> set v" using n(1) by auto
  obtain b where b: "b < length buckets" "buckets ! b = v" using v(1) unfolding in_set_conv_nth by blast
  obtain p where p: "p < length v" "v ! p = n" using v(2) unfolding in_set_conv_nth by blast
  have "length v \<le> 64" using l(2) v(1) by blast
  then have "select_node now A buckets 1 [word_of_nat b, word_of_nat p, 0] = Drawn info []"
    using b p n(2) l(1) by (intro select_node_exact) simp_all
  then show ?thesis by blast
qed

lemma Select_by:
  assumes "vRandom A \<noteq> []" "r < 2 ^ 30"
    "select_node now A (if (sqrt (real_of_int (nTried A)) * (100 - real_of_int bias) + sqrt (real_of_int (nNew A)) * real_of_int bias) *
       real r / 2 ^ 30 < sqrt (real_of_int (nTried A)) * (100 - real_of_int bias) then vvTried A else vvNew A) 1 ds = Drawn info []"
  shows "AddrMan_Select now bias (word_of_nat r # ds) A = Drawn (CAddress.truncate info) []"
proof -
  have d: "GetRandInt (2 ^ 30) (word_of_nat r # ds) = Drawn r ds" using assms(2) by (intro draw_exact) simp_all
  show ?thesis using assms(1,3) unfolding AddrMan_Select_def Let_def d and_then.simps by simp
qed

lemma Select_exact:
  assumes I: "addr_inv A None" and n: "mapInfo A n = Some info" and u: "0 < bias" "bias < 100"
  shows "\<exists>ds. AddrMan_Select now bias ds A = Drawn (CAddress.truncate info) []"
proof -
  let ?a = "sqrt (real_of_int (nTried A)) * (100 - real_of_int bias)" and ?c = "sqrt (real_of_int (nNew A)) * real_of_int bias"
  note C = counts [OF I]
  have nb: "0 \<le> nTried A" "nTried A \<le> 4096"
    using addr_inv_bounds(1) [OF I] I by (simp_all add: addr_inv_def)
  have V: "length (vvTried A) \<le> 256" "\<forall>v\<in>set (vvTried A). length v \<le> 64" "length (vvNew A) \<le> 256" "\<forall>v\<in>set (vvNew A). length v \<le> 64"
    using I by (simp_all add: addr_inv_def tried_ok_def buckets_ok_def)
  have "n \<in> set (vRandom A)" using I n by (auto simp: addr_inv_def random_ok_def)
  then have ne: "vRandom A \<noteq> []" by auto
  show ?thesis
  proof (cases "fInTried info")
    case True
    then have m: "n \<in> set (concat (vvTried A))" using I n unfolding addr_inv_def tried_ok_def by blast
    then have "0 < card (tried_ids A)" unfolding tried_ids_eq [OF I] by (metis card_gt_0_iff empty_iff finite_set)
    then have "0 < nTried A" using C(1) by linarith
    then have "0 < ?a" using u by simp
    then have t: "((?a + ?c) * real 0 / 2 ^ 30 < ?a) = True" by simp
    obtain b p where bp: "select_node now A (vvTried A) 1 [b, p, 0] = Drawn info []" using select_node_in [OF m n V(1,2)] by blast
    have "AddrMan_Select now bias (word_of_nat 0 # [b, p, 0]) A = Drawn (CAddress.truncate info) []"
      by (rule Select_by [OF ne]) (simp, simp only: t if_True bp)
    then show ?thesis by blast
  next
    case False
    then have d: "n \<in> dom (new_refs A)" using n by (simp add: new_refs_def domIff)
    then have "count_list (concat (vvNew A)) n \<noteq> 0" using new_refs_count [OF I, of n] by (auto split: if_splits)
    then have m: "n \<in> set (concat (vvNew A))" by (simp only: count_list_0_iff not_not)
    have "finite (dom (new_refs A))" using C(3) unfolding dom_split(1) [of A] by simp
    then have "0 < card (dom (new_refs A))" using d by (auto simp: card_gt_0_iff)
    then have "1 \<le> nNew A" using C(2) by linarith
    then have "1 * 1 \<le> ?c" using u by (intro mult_mono) simp_all
    moreover have "?a \<le> 64 * 100" using u sqrt_le_64 [OF nb(2)] by (intro mult_mono) simp_all
    moreover have "0 \<le> ?a" using nb(1) u by simp
    ultimately have t: "((?a + ?c) * real (2 ^ 30 - 1) / 2 ^ 30 < ?a) = False" using new_chosen [of ?a ?c] by simp
    obtain b p where bp: "select_node now A (vvNew A) 1 [b, p, 0] = Drawn info []" using select_node_in [OF m n V(3,4)] by blast
    have "AddrMan_Select now bias (word_of_nat (2 ^ 30 - 1) # [b, p, 0]) A = Drawn (CAddress.truncate info) []"
      by (rule Select_by [OF ne]) (simp, simp only: t if_False bp)
    then show ?thesis by blast
  qed
qed

section \<open>The properties\<close>

text \<open>A first address, for the examples.\<close>

definition some_peer :: CAddress where
  "some_peer = \<lparr>ip = pchIPv4 @ [8, 8, 4, 4], port = 9555, nServices = NODE_NETWORK, aTime = 1000000000, nLastTry = 0\<rparr>"

lemma first_address:
  "\<exists>A i. addr_run ext_ref A \<and> mapInfo A 0 = Some i \<and> CAddress.truncate i = some_peer \<and> vRandom A = [0]"
proof -
  let ?N = "new_CAddrMan [1, 2, 3]"
  let ?i = "(new_CAddrInfo some_peer \<lparr>ip = ip some_peer\<rparr>)\<lparr>nRandomPos := 0, aTime := 1000000000\<rparr>"
  define b where "b = GetNewBucket ext_ref [1, 2, 3] ?i \<lparr>ip = ip some_peer\<rparr>"
  have b: "b < 256" unfolding b_def by (rule new_bucket)
  have r: "IsRoutable some_peer" by code_simp
  have f: "Find ?N a = None" for a by (simp add: Find_def new_CAddrMan_def)
  have i: "new_CAddrInfo some_peer s = \<lparr>ip = ip some_peer, port = 9555, nServices = NODE_NETWORK, aTime = 1000000000, nLastTry = 0,
      addr_source = s, nLastSuccess = 0, nAttempts = 0, nRefCount = 0, fInTried = False, nRandomPos = - 1\<rparr>" for s
    by (simp add: new_CAddrInfo_def some_peer_def)
  have n: "replicate 256 [] ! b = ([] :: int list)" using b by simp
  have "\<exists>A. AddrMan_Add ext_ref 1000000000 some_peer \<lparr>ip = ip some_peer\<rparr> 0 [] ?N = Drawn (True, A) [] \<and>
      mapInfo A 0 = Some (?i\<lparr>nRefCount := 1\<rparr>) \<and> vRandom A = [0]"
    using r n unfolding AddrMan_Add_def f b_def
    by (simp add: Create_def Let_def upd_info_def join_bucket_def i ADDRMAN_NEW_BUCKET_SIZE_def ADDRMAN_NEW_BUCKET_COUNT_def new_CAddrMan_def)
  then obtain A where A: "AddrMan_Add ext_ref 1000000000 some_peer \<lparr>ip = ip some_peer\<rparr> 0 [] ?N = Drawn (True, A) []"
    "mapInfo A 0 = Some (?i\<lparr>nRefCount := 1\<rparr>)" "vRandom A = [0]" by blast
  have "addr_run ext_ref A" by (rule addr_run.step [OF addr_run.start addr_step.add [OF A(1)]])
  moreover have "CAddress.truncate (?i\<lparr>nRefCount := 1\<rparr>) = some_peer"
    by (simp add: new_CAddrInfo_def CAddress.truncate_def some_peer_def)
  ultimately show ?thesis using A(2,3) by blast
qed

text \<open>C19: Whatever addresses were added, connected to, tried and handed out, with whatever random draws, the
  consistency check of the debug build finds nothing: the entries, the index by address, the random order, the tried
  and the new buckets, the reference counts and the counters agree. There are never more than 64 times 64 tried
  addresses and 256 times 64 new ones, and every entry is in the random order once.\<close>

theorem addrman_consistent:
  assumes "addr_run E A"
  shows "AddrMan_Check A = 0 \<and> nTried A \<le> 64 * 64 \<and> nNew A \<le> 256 * 64 \<and>
    distinct (vRandom A) \<and> set (vRandom A) = dom (mapInfo A) \<and> int (length (vRandom A)) = nTried A + nNew A"
proof -
  have I: "addr_inv A None" by (rule addr_inv_run [OF assms])
  have "nTried A = int (length (concat (vvTried A)))" using I by (simp add: addr_inv_def)
  then show ?thesis using I addr_inv_check [OF I] addr_inv_bounds [OF I] counts(2) [OF I] by (auto simp: addr_inv_def random_ok_def)
qed

text \<open>C20: No assertion of the address manager fails in any run: not when an address is good, added, handed out to a
  peer or chosen for a connection. At most 2500 addresses are handed out at once, and a chosen address is one that is
  known, whenever any is.\<close>

theorem addrman_no_assert:
  assumes "addr_run E A" "0 < t"
  shows "AddrMan_Good E now addr t ds A \<noteq> AssertFails \<and> AddrMan_Add E now a src pen ds A \<noteq> AssertFails \<and>
    (case AddrMan_GetAddr ds A of AssertFails \<Rightarrow> False | OutOfDraws \<Rightarrow> True | Drawn (v, A') ds' \<Rightarrow> length v \<le> 2500) \<and>
    (case AddrMan_Select now bias ds A of AssertFails \<Rightarrow> False | OutOfDraws \<Rightarrow> True
     | Drawn chosen ds' \<Rightarrow> vRandom A = [] \<or> (\<exists>n info. mapInfo A n = Some info \<and> chosen = CAddress.truncate info))"
proof -
  have I: "addr_inv A None" by (rule addr_inv_run [OF assms(1)])
  have "AddrMan_Good E now addr t ds A \<noteq> AssertFails" by (rule safe_no_assert [OF AddrMan_Good_safe [OF I assms(2)]])
  moreover have "AddrMan_Add E now a src pen ds A \<noteq> AssertFails" by (rule safe_no_assert [OF AddrMan_Add_safe [OF I]])
  moreover have "case AddrMan_GetAddr ds A of AssertFails \<Rightarrow> False | OutOfDraws \<Rightarrow> True | Drawn (v, A') ds' \<Rightarrow> length v \<le> 2500"
    using AddrMan_GetAddr_safe [OF I, of ds] by (auto split: drawn.splits)
  moreover have "case AddrMan_Select now bias ds A of AssertFails \<Rightarrow> False | OutOfDraws \<Rightarrow> True
     | Drawn chosen ds' \<Rightarrow> vRandom A = [] \<or> (\<exists>n info. mapInfo A n = Some info \<and> chosen = CAddress.truncate info)"
    using AddrMan_Select_safe [OF I, of now bias ds] by (auto split: drawn.splits)
  ultimately show ?thesis by blast
qed

text \<open>C21: Every address the node knows can be chosen for the next connection, tried or new and whatever its record
  of failures: with a bias between 1 and 99 there are draws that choose it, so the choice does not run for ever and
  no address is shut out.\<close>

theorem every_address_selectable:
  assumes "addr_run E A" "mapInfo A n = Some info" "0 < bias" "bias < 100"
  shows "\<exists>ds. AddrMan_Select now bias ds A = Drawn (CAddress.truncate info) []"
  by (rule Select_exact [OF addr_inv_run [OF assms(1)] assms(2,3,4)])

theorem addrman_consistent_witness: "\<exists>A. vRandom A = [0] \<and> AddrMan_Check A = 0"
proof -
  obtain A where "addr_run ext_ref A" "vRandom A = [0]" using first_address by blast
  then show ?thesis using addrman_consistent [of ext_ref A] by blast
qed

theorem addrman_no_assert_witness:
  "\<exists>A. vRandom A = [0] \<and> AddrMan_Good ext_ref 1000000000 (CService.truncate some_peer) 1000000000 [5] A \<noteq> AssertFails \<and>
    AddrMan_Add ext_ref 1000000000 some_peer \<lparr>ip = pchIPv4 @ [9, 9, 9, 9]\<rparr> 0 [5] A \<noteq> AssertFails \<and> AddrMan_GetAddr [5] A \<noteq> AssertFails"
proof -
  obtain A where "addr_run ext_ref A" "vRandom A = [0]" using first_address by blast
  then show ?thesis
    using addrman_no_assert [of ext_ref A 1000000000 1000000000 "CService.truncate some_peer" "[5]" some_peer
        "\<lparr>ip = pchIPv4 @ [9, 9, 9, 9]\<rparr>" 0 0] by (auto split: drawn.splits)
qed

theorem every_address_selectable_witness:
  "\<exists>A ds. vRandom A = [0] \<and> AddrMan_Select 1000000000 50 ds A = Drawn some_peer []"
proof -
  obtain A i where "addr_run ext_ref A" "vRandom A = [0]" "mapInfo A 0 = Some i" "CAddress.truncate i = some_peer"
    using first_address by blast
  then show ?thesis using every_address_selectable [of ext_ref A 0 i 50 1000000000] by auto
qed

end
