(* ===== verification/Spec2Isabelle.thy ===== *)
theory Spec2Isabelle
  imports Orphans Base58 SyncSafety NeoScrypt AddrRuns
begin

text \<open>
  Verification of the Phoenixcoin node, a C++ program in the directory \<^verbatim>\<open>src/\<close> of the repository. This
  theory imports the development; every theory opens with a description of its own part.

  \<^bold>\<open>The program.\<close> A node keeps a tree of blocks and the database of the transactions on the best branch.
  Blocks and loose transactions come from peers and from files. A transaction is checked by itself,
  then against the outputs it spends, whose scripts the interpreter runs with the signatures of the
  inputs; hybrid outputs want an ECDSA and an ML-DSA signature. A block is checked by itself, appended
  to a block file, and connected when its branch has the most work; a branch that is left is
  disconnected. Loose transactions wait in the memory pool, or as orphans while an input is unknown.

  \<^bold>\<open>The theories\<close>, in the order of their imports:
  \<^item> \<^verbatim>\<open>Prelude\<close>: byte strings, integers in memory, shared facts. \<^verbatim>\<open>External\<close>: the record of the functions
    outside the repository (digests, curves, ML-DSA), and the hashes built on them (\<^verbatim>\<open>util.h\<close>).
  \<^item> \<^verbatim>\<open>Opcodes\<close>, \<^verbatim>\<open>BigNum\<close>, \<^verbatim>\<open>ScriptCode\<close> (\<^verbatim>\<open>script.h\<close>, \<^verbatim>\<open>bignum.h\<close>): opcodes, script numbers and compact
    targets, building and reading scripts. Lemmas: round trips, exactness, counts.
  \<^item> \<^verbatim>\<open>Serialize\<close>, \<^verbatim>\<open>Transaction\<close>, \<^verbatim>\<open>Block\<close> (\<^verbatim>\<open>serialize.h\<close>, \<^verbatim>\<open>main.h\<close>): the wire format and the types in it. A
    type that is written and read back is an interpretation of the locale \<open>prefix_codec\<close>.
  \<^item> \<^verbatim>\<open>SigHash\<close>, \<^verbatim>\<open>SigCheck\<close>, \<^verbatim>\<open>Interp\<close>, \<^verbatim>\<open>InterpSafety\<close>, \<^verbatim>\<open>Verify\<close> (\<^verbatim>\<open>script.cpp\<close>, \<^verbatim>\<open>key.cpp\<close>, \<^verbatim>\<open>hs/\<close>): what a signature
    covers, signature checks with their cache (locale \<open>cached_check\<close>), the interpreter and what holds
    of scripts it accepts.
  \<^item> \<^verbatim>\<open>Templates\<close>, \<^verbatim>\<open>Spend\<close>, \<^verbatim>\<open>SpendMulti\<close>: standard scripts; for each kind exactly what spends it.
  \<^item> \<^verbatim>\<open>Subsidy\<close>, \<^verbatim>\<open>Difficulty\<close>, \<^verbatim>\<open>Checkpoints\<close> (\<^verbatim>\<open>main.cpp\<close>, \<^verbatim>\<open>checkpoints.cpp\<close>): rewards, targets, known blocks.
  \<^item> \<^verbatim>\<open>TxRules\<close>, \<^verbatim>\<open>BlockRules\<close>: the rules that need no chain.
  \<^item> \<^verbatim>\<open>Disk\<close>, \<^verbatim>\<open>Ledger\<close> (\<^verbatim>\<open>db.cpp\<close>, \<^verbatim>\<open>main.cpp\<close>): block files and database; connecting and disconnecting blocks.
    \<^verbatim>\<open>LedgerSpec\<close>, \<^verbatim>\<open>Supply\<close>, \<^verbatim>\<open>Undo\<close>: the abstract ledger of unspent outputs and the refinement, the bound
    on the money, and that disconnecting undoes connecting.
  \<^item> \<^verbatim>\<open>Mempool\<close>, \<^verbatim>\<open>Orphans\<close>: loose and orphan transactions; consistency of the maps, no orphan forgotten.
  \<^item> \<^verbatim>\<open>BaseUint\<close>, \<^verbatim>\<open>Base58\<close> (\<^verbatim>\<open>uint256.h\<close>, \<^verbatim>\<open>base58.h\<close>): long unsigned integers, equal to the machine words of
    their width; the texts of numbers, addresses and private keys, with their round trips.
  \<^item> \<^verbatim>\<open>Chain\<close>, \<^verbatim>\<open>ChainInv\<close> (\<^verbatim>\<open>main.cpp\<close>): the block index and the best branch; the invariant of a node, that an
    accepted block keeps it and a refused one leaves no trace.
  \<^item> \<^verbatim>\<open>TextCode\<close> (\<^verbatim>\<open>util.cpp\<close>): hexadecimal, base 64, base 32, amounts, wildcards.
  \<^item> \<^verbatim>\<open>SyncCheckpoints\<close>, \<^verbatim>\<open>Process\<close> (\<^verbatim>\<open>checkpoints.cpp\<close>, \<^verbatim>\<open>main.cpp\<close>): the checkpoints a master broadcasts; accepting and
    processing blocks with the orphans that wait for them. \<^verbatim>\<open>NodeSafety\<close>, \<^verbatim>\<open>SyncSafety\<close>: what holds of a node after
    any run of blocks, and where the checkpoint may move.
  \<^item> \<^verbatim>\<open>Standards\<close>: SHA-256, HMAC, PBKDF2, BLAKE2s, Salsa20 and ChaCha written from their standards alone, with
    constants that are the roots of the primes. \<^verbatim>\<open>NeoHash\<close>, \<^verbatim>\<open>Blake2s\<close>, \<^verbatim>\<open>FastKDF\<close>, \<^verbatim>\<open>NeoScrypt\<close> (\<^verbatim>\<open>neoscrypt.c\<close>): the
    hashes of the proof of work, from the rotations and tables of the C code up, each equal to that function. (\<^verbatim>\<open>Block\<close>
    takes the function as a parameter, with the header and the profile as its arguments.)
  \<^item> \<^verbatim>\<open>NetAddr\<close> (\<^verbatim>\<open>netbase.cpp\<close>, \<^verbatim>\<open>protocol.cpp\<close>): network addresses, services, message headers. \<^verbatim>\<open>AddrMan\<close>
    (\<^verbatim>\<open>addrman.cpp\<close>): the tables of known addresses and the choice of one; \<^verbatim>\<open>AddrSafety\<close>, \<^verbatim>\<open>AddrRuns\<close>: their
    invariant and what holds in every run from the empty tables.

  \<^bold>\<open>Conventions.\<close> A C++ integer is a word of its width, or an \<open>int\<close> where the code cannot leave the range
  or where leaving it is undefined. A reference parameter is returned with the result. An exception or
  a failed assertion is \<open>None\<close>. A pointer into the block index is the list of entries from it back to
  the first block. A database operation succeeds as long as the number \<open>room\<close> lasts, so that every
  operation may be the one that fails; from then on all of them fail. Writing a block file does not fail. A loop that may draw random numbers for ever takes the list of
  draws. Logging, locks, user interface and the callbacks of wallets are left out.

  \<^bold>\<open>Not modelled.\<close> The storage engines behind the database, sockets and threads, the RPC layer over JSON,
  start-up, the user interface, and printing.
\<close>

end
